(* ===== verification/Nvmev_Prelude.thy ===== *)
theory Nvmev_Prelude
  imports Main "HOL-Library.Word" "HOL-Library.Monad_Syntax" "HOL-Library.Multiset"
begin

text \<open>
  What every other theory of the development shares: the machine integer types, the array
  accesses, the assertion of \<^verbatim>\<open>nvmev.h\<close>, the bounded loop, and the generic lemmas on them.

  An operation that the kernel would stop (a failed \<^verbatim>\<open>NVMEV_ASSERT\<close>, a null pointer
  dereference, an access outside an array) is the value \<open>None\<close>; an operation that returns is
  \<open>Some\<close> of its result. A theorem that an operation returns \<open>Some\<close> is therefore a theorem
  that none of these happens.
\<close>

type_synonym u8 = "8 word"
type_synonym u16 = "16 word"
type_synonym u32 = "32 word"
type_synonym u64 = "64 word"

named_theorems nv_defs "definitions of the straight-line helpers, unfolded together"

subsection \<open>Arrays\<close>

definition aget :: "'a list \<Rightarrow> nat \<Rightarrow> 'a option" where
  "aget xs i = (if i < length xs then Some (xs ! i) else None)"

definition aset :: "'a list \<Rightarrow> nat \<Rightarrow> 'a \<Rightarrow> 'a list option" where
  "aset xs i v = (if i < length xs then Some (xs[i := v]) else None)"

definition amod :: "'a list \<Rightarrow> nat \<Rightarrow> ('a \<Rightarrow> 'a option) \<Rightarrow> 'a list option" where
  "amod xs i f = do { x \<leftarrow> aget xs i; y \<leftarrow> f x; Some (xs[i := y]) }"

lemma aget_Some_iff: "aget xs i = Some x \<longleftrightarrow> i < length xs \<and> xs ! i = x"
  by (auto simp: aget_def)

lemma aget_None_iff: "aget xs i = None \<longleftrightarrow> length xs \<le> i"
  by (simp add: aget_def not_less)

lemma aget_in [simp]: "i < length xs \<Longrightarrow> aget xs i = Some (xs ! i)"
  by (simp add: aget_def)

lemma aset_in [simp]: "i < length xs \<Longrightarrow> aset xs i v = Some (xs[i := v])"
  by (simp add: aset_def)

lemma aset_Some_iff: "aset xs i v = Some ys \<longleftrightarrow> i < length xs \<and> ys = xs[i := v]"
  by (auto simp: aset_def)

lemma amod_Some_iff:
  "amod xs i f = Some ys \<longleftrightarrow> i < length xs \<and> (\<exists>y. f (xs ! i) = Some y \<and> ys = xs[i := y])"
  by (auto simp: amod_def aget_def split: bind_splits)

lemma aget_amod:
  "amod xs i f = Some ys \<Longrightarrow> aget ys j = (if j = i then f (xs ! i) else aget xs j)"
  by (auto simp: amod_Some_iff aget_def)

lemma amod_all:
  assumes "amod xs i f = Some ys" "\<And>x y. P x \<Longrightarrow> f x = Some y \<Longrightarrow> P y" "\<forall>x \<in> set xs. P x"
  shows "length ys = length xs \<and> (\<forall>y \<in> set ys. P y)"
proof -
  from assms(1) obtain y where y: "i < length xs" "f (xs ! i) = Some y" "ys = xs[i := y]"
    by (auto simp: amod_Some_iff)
  then have "P y" using assms(2,3) nth_mem by blast
  then show ?thesis using y assms(3) set_update_subset_insert [of xs i y] by auto
qed

lemma nth_upd: "xs[i := x] ! j = (if i = j \<and> j < length xs then x else xs ! j)"
  by (cases "i < length xs") (auto simp: nth_list_update list_update_beyond not_less)

lemma bind_Some_iff: "x \<bind> f = Some y \<longleftrightarrow> (\<exists>z. x = Some z \<and> f z = Some y)"
  by (cases x) auto

lemma bind_SomeE:
  assumes "x \<bind> f = Some y"
  obtains z where "x = Some z" "f z = Some y"
  using assms by (auto simp: bind_Some_iff)

subsection \<open>Words that do not wrap\<close>

lemma unat_of_nat_less: "n < 2 ^ LENGTH('a) \<Longrightarrow> unat (of_nat n :: 'a::len word) = n"
  by (simp add: unat_of_nat)

lemma unat_add_less: "unat a + unat b < 2 ^ LENGTH('a) \<Longrightarrow> unat (a + b) = unat a + unat b"
  for a b :: "'a::len word"
  by (simp add: unat_add_lem)

lemma unat_sub_le: "b \<le> a \<Longrightarrow> unat (a - b) = unat a - unat b"
  for a b :: "'a::len word"
  by (simp add: unat_sub word_le_nat_alt)

lemma unat_mult_less: "unat a * unat b < 2 ^ LENGTH('a) \<Longrightarrow> unat (a * b) = unat a * unat b"
  for a b :: "'a::len word"
  by (simp add: unat_mult_lem)

lemma unat_sub_of_nat:
  fixes x :: "'a::len word"
  assumes "c \<le> unat x"
  shows "unat (x - of_nat c) = unat x - c"
proof -
  have "c < 2 ^ LENGTH('a)" by (rule le_less_trans [OF assms unsigned_less])
  then have "unat (of_nat c :: 'a word) = c" by (rule unat_of_nat_less)
  with assms show ?thesis by (simp add: unat_sub word_le_nat_alt)
qed

subsection \<open>Assertions\<close>

text \<open>\<^verbatim>\<open>NVMEV_ASSERT(x)\<close> is \<^verbatim>\<open>BUG_ON(!(x))\<close>: the kernel stops when \<open>x\<close> is false.\<close>

definition nv_assert :: "bool \<Rightarrow> unit option" where
  "nv_assert b = (if b then Some () else None)"

lemma nv_assert_True [simp]: "b \<Longrightarrow> nv_assert b = Some ()"
  by (simp add: nv_assert_def)

lemma nv_assert_Some_iff: "nv_assert b = Some u \<longleftrightarrow> b"
  by (simp add: nv_assert_def)

subsection \<open>Bounded loops\<close>

text \<open>
  A \<^verbatim>\<open>for\<close> loop over a fixed range is a fold over the list of its indices that stops at the
  first iteration that does not return.
\<close>

fun opt_fold :: "('s \<Rightarrow> 'a \<Rightarrow> 's option) \<Rightarrow> 's \<Rightarrow> 'a list \<Rightarrow> 's option" where
  "opt_fold f s [] = Some s"
| "opt_fold f s (x # xs) = do { s' \<leftarrow> f s x; opt_fold f s' xs }"

lemma opt_fold_append:
  "opt_fold f s (xs @ ys) = do { s' \<leftarrow> opt_fold f s xs; opt_fold f s' ys }"
  by (induction xs arbitrary: s) (auto split: bind_splits)

text \<open>The loop rule: an invariant indexed by the iterations already done.\<close>

lemma opt_fold_inv:
  assumes "P [] s"
    and "\<And>ys x zs t. xs = ys @ x # zs \<Longrightarrow> P ys t \<Longrightarrow> \<exists>t'. f t x = Some t' \<and> P (ys @ [x]) t'"
  shows "\<exists>s'. opt_fold f s xs = Some s' \<and> P xs s'"
proof -
  have "\<exists>s'. opt_fold f s us = Some s' \<and> P us s'" if "xs = us @ vs" for us vs
    using that
  proof (induction us arbitrary: vs rule: rev_induct)
    case Nil
    then show ?case using assms(1) by simp
  next
    case (snoc x us)
    from snoc.prems have "xs = us @ x # vs" by simp
    then obtain t where "opt_fold f s us = Some t" "P us t" using snoc.IH by blast
    with assms(2) [OF \<open>xs = us @ x # vs\<close>] show ?case by (auto simp: opt_fold_append)
  qed
  then show ?thesis by simp
qed

lemma upt_split_less: "[a..<b] = ys @ i # zs \<Longrightarrow> a \<le> i \<and> i < b"
  by (metis atLeastLessThan_iff in_set_conv_decomp set_upt)

text \<open>The same for a property every iteration keeps, when the loop is known to return.\<close>

lemma opt_fold_keeps:
  assumes "opt_fold f s xs = Some s'" and "P s"
    and "\<And>x t t'. x \<in> set xs \<Longrightarrow> f t x = Some t' \<Longrightarrow> P t \<Longrightarrow> P t'"
  shows "P s'"
  using assms
proof (induction xs arbitrary: s)
  case Nil
  then show ?case by simp
next
  case (Cons x xs)
  from Cons.prems(1) obtain t where t: "f s x = Some t" "opt_fold f t xs = Some s'"
    by (auto split: bind_splits)
  with Cons.prems have "P t" by auto
  with t Cons show ?case by auto
qed

text \<open>A loop that rewrites every element of an array in turn.\<close>

lemma opt_fold_amod_map:
  assumes "\<And>x. x \<in> set xs \<Longrightarrow> g x = Some (h x)" and "n = length xs"
  shows "opt_fold (\<lambda>ys i. amod ys i g) xs [0..<n] = Some (map h xs)"
proof -
  have "\<exists>s'. opt_fold (\<lambda>ys i. amod ys i g) xs [0..<length xs] = Some s' \<and>
      s' = map h (take (length [0..<length xs]) xs) @ drop (length [0..<length xs]) xs"
  proof (rule opt_fold_inv)
    fix i ys zs t
    assume u: "[0..<length xs] = ys @ i # zs" and t: "t = map h (take (length ys) xs) @ drop (length ys) xs"
    have i: "i = length ys" "i < length xs"
    proof -
      have "length ys < length [0..<length xs]" unfolding u by simp
      then have "[0..<length xs] ! length ys = length ys" by simp
      moreover have "[0..<length xs] ! length ys = i" unfolding u by simp
      ultimately show "i = length ys" by simp
      with \<open>length ys < length [0..<length xs]\<close> show "i < length xs" by simp
    qed
    then have "t ! i = xs ! i" "i < length t" "g (xs ! i) = Some (h (xs ! i))"
      using t assms(1) by (auto simp: nth_append)
    then have "amod t i g = Some (t[i := h (xs ! i)])"
      by (simp add: amod_def)
    moreover have "t[i := h (xs ! i)] = map h (take (Suc i) xs) @ drop (Suc i) xs"
      using i t by (simp add: list_update_append take_Suc_conv_app_nth Cons_nth_drop_Suc[symmetric])
    ultimately show "\<exists>t'. amod t i g = Some t' \<and>
        t' = map h (take (length (ys @ [i])) xs) @ drop (length (ys @ [i])) xs"
      using i by simp
  qed simp
  with assms(2) show ?thesis by simp
qed

end
