(* ===== verification/PQueue.thy ===== *)
theory PQueue
  imports Nvmev_Prelude
begin

text \<open>
  The binary heap of \<^verbatim>\<open>pqueue/pqueue.c\<close>. The queue stores pointers of type \<open>'e\<close>; the
  priority and the position of an element live in the element itself, so the callbacks read
  and write a store of type \<open>'s\<close> that every operation threads through. Slot 0 of \<open>pq_d\<close> is
  never used; the elements are \<open>pq_d[1..pq_size - 1]\<close>. Priorities and sizes are naturals: no
  operation here does arithmetic on a priority, and sizes stay below the allocated length.
\<close>

subsection \<open>The queue and its operations\<close>

record ('s, 'e) pqueue =
  pq_size :: nat
  pq_avail :: nat
  pq_step :: nat
  cmppri :: "nat \<Rightarrow> nat \<Rightarrow> bool"
  getpri :: "'s \<Rightarrow> 'e \<Rightarrow> nat"
  setpri :: "'s \<Rightarrow> 'e \<Rightarrow> nat \<Rightarrow> 's"
  getpos :: "'s \<Rightarrow> 'e \<Rightarrow> nat"
  setpos :: "'s \<Rightarrow> 'e \<Rightarrow> nat \<Rightarrow> 's"
  pq_d :: "'e list"

text \<open>
  \<open>mem\<close> is the content of the block of \<open>n + 1\<close> pointers that \<^verbatim>\<open>kmalloc\<close> returns, which the
  code does not clear.
\<close>

definition pqueue_init ::
  "nat \<Rightarrow> 'e list \<Rightarrow> (nat \<Rightarrow> nat \<Rightarrow> bool) \<Rightarrow> ('s \<Rightarrow> 'e \<Rightarrow> nat) \<Rightarrow> ('s \<Rightarrow> 'e \<Rightarrow> nat \<Rightarrow> 's) \<Rightarrow>
    ('s \<Rightarrow> 'e \<Rightarrow> nat) \<Rightarrow> ('s \<Rightarrow> 'e \<Rightarrow> nat \<Rightarrow> 's) \<Rightarrow> ('s, 'e) pqueue" where
  "pqueue_init n mem cmp getp setp getps setps =
     \<lparr>pq_size = 1, pq_avail = n + 1, pq_step = n + 1, cmppri = cmp, getpri = getp, setpri = setp,
      getpos = getps, setpos = setps, pq_d = mem\<rparr>"

definition pqueue_size :: "('s, 'e) pqueue \<Rightarrow> nat" where
  "pqueue_size q = pq_size q - 1"

text \<open>
  The loop of \<^verbatim>\<open>bubble_up\<close>: the parent moves down into the hole at \<open>i\<close> while the moving
  priority has to go above it. Its indices only shrink from \<open>i\<close>.
\<close>

function bubble_up_loop ::
  "('s, 'e) pqueue \<Rightarrow> nat \<Rightarrow> 'e list \<Rightarrow> 's \<Rightarrow> nat \<Rightarrow> 'e list \<times> 's \<times> nat" where
  "bubble_up_loop q moving_pri d s i =
     (let parent_node = i div 2 in
      if i > 1 \<and> cmppri q (getpri q s (d ! parent_node)) moving_pri
      then let d' = d[i := d ! parent_node]; s' = setpos q s (d' ! i) i
           in bubble_up_loop q moving_pri d' s' parent_node
      else (d, s, i))"
  by pat_completeness auto
termination
  by (relation "measure (\<lambda>(q, p, d, s, i). i)") auto

declare bubble_up_loop.simps [simp del]

definition bubble_up :: "('s, 'e) pqueue \<Rightarrow> 's \<Rightarrow> nat \<Rightarrow> (('s, 'e) pqueue \<times> 's) option" where
  "bubble_up q s i = do {
     moving_node \<leftarrow> aget (pq_d q) i;
     let (d, s, i) = bubble_up_loop q (getpri q s moving_node) (pq_d q) s i;
     Some (q\<lparr>pq_d := d[i := moving_node]\<rparr>, setpos q s moving_node i)
   }"

definition maxchild :: "('s, 'e) pqueue \<Rightarrow> 'e list \<Rightarrow> 's \<Rightarrow> nat \<Rightarrow> nat" where
  "maxchild q d s i =
     (let child_node = 2 * i in
      if child_node \<ge> pq_size q then 0
      else if child_node + 1 < pq_size q \<and>
              cmppri q (getpri q s (d ! child_node)) (getpri q s (d ! (child_node + 1)))
      then child_node + 1
      else child_node)"

lemma maxchild_gt: "maxchild q d s i \<noteq> 0 \<Longrightarrow> i < maxchild q d s i"
  by (auto simp: maxchild_def Let_def split: if_splits)

lemma maxchild_lt_size: "maxchild q d s i \<noteq> 0 \<Longrightarrow> maxchild q d s i < pq_size q"
  by (auto simp: maxchild_def Let_def split: if_splits)

text \<open>
  The loop of \<^verbatim>\<open>percolate_down\<close>: the child that goes first moves up into the hole, whose
  index grows until no child is left.
\<close>

function percolate_down_loop ::
  "('s, 'e) pqueue \<Rightarrow> nat \<Rightarrow> 'e list \<Rightarrow> 's \<Rightarrow> nat \<Rightarrow> 'e list \<times> 's \<times> nat" where
  "percolate_down_loop q moving_pri d s i =
     (let child_node = maxchild q d s i in
      if child_node \<noteq> 0 \<and> cmppri q moving_pri (getpri q s (d ! child_node))
      then let d' = d[i := d ! child_node]; s' = setpos q s (d' ! i) i
           in percolate_down_loop q moving_pri d' s' child_node
      else (d, s, i))"
  by pat_completeness auto
termination
  by (relation "measure (\<lambda>(q, p, d, s, i). pq_size q - i)")
    (auto intro!: diff_less_mono2 maxchild_gt less_trans [OF maxchild_gt maxchild_lt_size])

declare percolate_down_loop.simps [simp del]

text \<open>
  All slots the loop reads lie below \<open>pq_size\<close>; the operation stops when they are not all
  inside the array.
\<close>

definition percolate_down :: "('s, 'e) pqueue \<Rightarrow> 's \<Rightarrow> nat \<Rightarrow> (('s, 'e) pqueue \<times> 's) option" where
  "percolate_down q s i = do {
     moving_node \<leftarrow> aget (pq_d q) i;
     nv_assert (pq_size q \<le> length (pq_d q));
     let (d, s, i) = percolate_down_loop q (getpri q s moving_node) (pq_d q) s i;
     Some (q\<lparr>pq_d := d[i := moving_node]\<rparr>, setpos q s moving_node i)
   }"

text \<open>
  \<^verbatim>\<open>pqueue_insert\<close> only prints an error when the array is full and then writes behind it:
  that is the failure of \<^const>\<open>aset\<close>.
\<close>

definition pqueue_insert :: "('s, 'e) pqueue \<Rightarrow> 's \<Rightarrow> 'e \<Rightarrow> (('s, 'e) pqueue \<times> 's) option" where
  "pqueue_insert q s e = do {
     let i = pq_size q;
     d \<leftarrow> aset (pq_d q) i e;
     bubble_up (q\<lparr>pq_size := i + 1, pq_d := d\<rparr>) s i
   }"

definition pqueue_change_priority ::
  "('s, 'e) pqueue \<Rightarrow> 's \<Rightarrow> nat \<Rightarrow> 'e \<Rightarrow> (('s, 'e) pqueue \<times> 's) option" where
  "pqueue_change_priority q s new_pri e =
     (let old_pri = getpri q s e; s = setpri q s e new_pri; posn = getpos q s e in
      if cmppri q old_pri new_pri then bubble_up q s posn else percolate_down q s posn)"

definition pqueue_remove :: "('s, 'e) pqueue \<Rightarrow> 's \<Rightarrow> 'e \<Rightarrow> (('s, 'e) pqueue \<times> 's) option" where
  "pqueue_remove q s e = do {
     let posn = getpos q s e;
     let size = pq_size q - 1;
     last \<leftarrow> aget (pq_d q) size;
     d \<leftarrow> aset (pq_d q) posn last;
     let q = q\<lparr>pq_size := size, pq_d := d\<rparr>;
     if cmppri q (getpri q s e) (getpri q s (d ! posn)) then bubble_up q s posn
     else percolate_down q s posn
   }"

text \<open>\<^verbatim>\<open>pqueue_pop\<close> and \<^verbatim>\<open>pqueue_peek\<close> return a null pointer (the inner \<open>None\<close>) for an empty queue.\<close>

definition pqueue_pop :: "('s, 'e) pqueue \<Rightarrow> 's \<Rightarrow> ('e option \<times> ('s, 'e) pqueue \<times> 's) option" where
  "pqueue_pop q s =
     (if pq_size q = 1 then Some (None, q, s)
      else do {
        head \<leftarrow> aget (pq_d q) 1;
        let size = pq_size q - 1;
        last \<leftarrow> aget (pq_d q) size;
        d \<leftarrow> aset (pq_d q) 1 last;
        (q, s) \<leftarrow> percolate_down (q\<lparr>pq_size := size, pq_d := d\<rparr>) s 1;
        Some (Some head, q, s)
      })"

definition pqueue_peek :: "('s, 'e) pqueue \<Rightarrow> 'e option option" where
  "pqueue_peek q =
     (if pq_size q = 1 then Some None else do { e \<leftarrow> aget (pq_d q) 1; Some (Some e) })"

text \<open>\<^verbatim>\<open>subtree_is_valid\<close>, the code's own check of the heap order.\<close>

function subtree_is_valid :: "('s, 'e) pqueue \<Rightarrow> 's \<Rightarrow> nat \<Rightarrow> bool" where
  "subtree_is_valid q s pos =
     (if pos = 0 then False
      else
        let left_valid = (if 2 * pos < pq_size q
              then if cmppri q (getpri q s (pq_d q ! pos)) (getpri q s (pq_d q ! (2 * pos))) then False
                   else subtree_is_valid q s (2 * pos)
              else True) in
        if \<not> left_valid then False
        else if 2 * pos + 1 < pq_size q
              then if cmppri q (getpri q s (pq_d q ! pos)) (getpri q s (pq_d q ! (2 * pos + 1)))
                   then False
                   else subtree_is_valid q s (2 * pos + 1)
        else True)"
  by pat_completeness auto
termination
  by (relation "measure (\<lambda>(q, s, pos). pq_size q - pos)") auto

declare subtree_is_valid.simps [simp del]

definition pqueue_is_valid :: "('s, 'e) pqueue \<Rightarrow> 's \<Rightarrow> bool" where
  "pqueue_is_valid q s = subtree_is_valid q s 1"

subsection \<open>The elements in use\<close>

definition live :: "nat \<Rightarrow> 'e list \<Rightarrow> 'e list" where
  "live n d = map ((!) d) [1..<n]"

definition pq_elems :: "('s, 'e) pqueue \<Rightarrow> 'e list" where
  "pq_elems q = live (pq_size q) (pq_d q)"

lemma length_live [simp]: "length (live n d) = n - 1"
  by (simp add: live_def)

lemma live_nth: "j < n - 1 \<Longrightarrow> live n d ! j = d ! Suc j"
  by (simp add: live_def)

lemma set_live: "set (live n d) = (!) d ` {1..<n}"
  by (simp add: live_def)

lemma live_upd_out: "i = 0 \<or> n \<le> i \<Longrightarrow> live n (d[i := x]) = live n d"
  by (auto simp: live_def)

lemma live_upd: "0 < i \<Longrightarrow> i < n \<Longrightarrow> n \<le> length d \<Longrightarrow> live n (d[i := x]) = (live n d)[i - 1 := x]"
  by (rule nth_equalityI) (auto simp: live_nth nth_list_update)

lemma live_Suc: "0 < n \<Longrightarrow> live (Suc n) d = live n d @ [d ! n]"
  by (simp add: live_def)

lemma mset_live_swap:
  assumes "0 < i" "i < n" "0 < j" "j < n" "n \<le> length d"
  shows "mset (live n (d[i := d ! j, j := d ! i])) = mset (live n d)"
proof -
  have "live n (d[i := d ! j, j := d ! i]) = (live n d)[i - 1 := d ! j, j - 1 := d ! i]"
    using assms by (simp add: live_upd)
  also have "\<dots> = (live n d)[i - 1 := live n d ! (j - 1), j - 1 := live n d ! (i - 1)]"
    using assms by (simp add: live_nth)
  also have "mset \<dots> = mset (live n d)"
    using assms by (intro mset_swap) auto
  finally show ?thesis .
qed

text \<open>Replacing slot \<open>i\<close> by the last element and shrinking drops exactly the element at \<open>i\<close>.\<close>

lemma mset_live_drop:
  assumes "0 < i" "i < n" "n < length d"
  shows "add_mset (d ! i) (mset (live n (d[i := d ! n]))) = mset (live (Suc n) d)"
proof -
  have "live n d ! (i - 1) = d ! i"
    using assms by (simp add: live_nth)
  with assms have "d ! i \<in># mset (live n d)"
    by (metis length_live diff_less_mono Suc_leI nth_mem set_mset_mset One_nat_def)
  with assms \<open>live n d ! (i - 1) = d ! i\<close> show ?thesis
    by (simp add: live_upd live_Suc mset_update)
qed

subsection \<open>The contract of the callbacks\<close>

text \<open>
  What the queue needs of its caller: \<open>cmp a b\<close> asks whether \<open>a\<close> goes after \<open>b\<close> (smaller
  numbers first), \<open>ok s e\<close> says that \<open>e\<close> points to an element of the store, and the position
  and the priority are separate fields of each element.
\<close>

locale pq_callbacks =
  fixes cmp :: "nat \<Rightarrow> nat \<Rightarrow> bool"
    and getp :: "'s \<Rightarrow> 'e \<Rightarrow> nat" and setp :: "'s \<Rightarrow> 'e \<Rightarrow> nat \<Rightarrow> 's"
    and gpos :: "'s \<Rightarrow> 'e \<Rightarrow> nat" and spos :: "'s \<Rightarrow> 'e \<Rightarrow> nat \<Rightarrow> 's"
    and ok :: "'s \<Rightarrow> 'e \<Rightarrow> bool"
  assumes cmp_iff: "cmp a b \<longleftrightarrow> b < a"
    and ok_spos: "ok (spos s e p) e' = ok s e'"
    and ok_setp: "ok (setp s e v) e' = ok s e'"
    and gpos_spos: "ok s e \<Longrightarrow> gpos (spos s e p) e = p"
    and gpos_spos_other: "e' \<noteq> e \<Longrightarrow> gpos (spos s e p) e' = gpos s e'"
    and getp_spos: "getp (spos s e p) e' = getp s e'"
    and getp_setp: "ok s e \<Longrightarrow> getp (setp s e v) e = v"
    and getp_setp_other: "e' \<noteq> e \<Longrightarrow> getp (setp s e v) e' = getp s e'"
    and gpos_setp: "gpos (setp s e v) e' = gpos s e'"
begin

definition uses :: "('s, 'e) pqueue \<Rightarrow> bool" where
  "uses q \<longleftrightarrow> cmppri q = cmp \<and> getpri q = getp \<and> setpri q = setp \<and> getpos q = gpos \<and> setpos q = spos"

lemma uses_upd [simp]:
  "uses (q\<lparr>pq_d := d\<rparr>) = uses q" "uses (q\<lparr>pq_size := n\<rparr>) = uses q"
  by (simp_all add: uses_def)

lemma usesD: "uses q \<Longrightarrow> cmppri q a b \<longleftrightarrow> b < a" "uses q \<Longrightarrow> getpri q = getp"
  "uses q \<Longrightarrow> setpri q = setp" "uses q \<Longrightarrow> getpos q = gpos" "uses q \<Longrightarrow> setpos q = spos"
  by (simp_all add: uses_def cmp_iff)

text \<open>Heap order: no element goes before its parent. Positions: each element knows its slot.\<close>

definition heap_except :: "nat \<Rightarrow> 'e list \<Rightarrow> 's \<Rightarrow> nat set \<Rightarrow> bool" where
  "heap_except n d s X \<longleftrightarrow> (\<forall>j. 2 \<le> j \<longrightarrow> j < n \<longrightarrow> j \<notin> X \<longrightarrow> getp s (d ! (j div 2)) \<le> getp s (d ! j))"

definition pq_inv :: "('s, 'e) pqueue \<Rightarrow> 's \<Rightarrow> bool" where
  "pq_inv q s \<longleftrightarrow> uses q \<and> 1 \<le> pq_size q \<and> pq_size q \<le> length (pq_d q) \<and>
     (\<forall>j. 0 < j \<longrightarrow> j < pq_size q \<longrightarrow> ok s (pq_d q ! j) \<and> gpos s (pq_d q ! j) = j) \<and>
     heap_except (pq_size q) (pq_d q) s {}"

text \<open>
  The loops work on an array with a hole at \<open>i\<close>; \<open>hole\<close> describes it through the array in
  which the moving element \<open>m\<close> already fills the hole. \<open>frame\<close> is what a step keeps.
\<close>

definition hole :: "nat \<Rightarrow> 'e \<Rightarrow> 'e list \<Rightarrow> 's \<Rightarrow> nat \<Rightarrow> bool" where
  "hole n m d s i \<longleftrightarrow> 0 < i \<and> i < n \<and> n \<le> length d \<and> ok s m \<and>
     (\<forall>j. 0 < j \<longrightarrow> j < n \<longrightarrow> j \<noteq> i \<longrightarrow> ok s (d ! j) \<and> gpos s (d ! j) = j \<and> d ! j \<noteq> m)"

definition across :: "nat \<Rightarrow> 'e list \<Rightarrow> 's \<Rightarrow> nat \<Rightarrow> bool" where
  "across n D s i \<longleftrightarrow> (\<forall>j. 2 \<le> i \<longrightarrow> j < n \<longrightarrow> j div 2 = i \<longrightarrow> getp s (D ! (i div 2)) \<le> getp s (D ! j))"

text \<open>Everything that writing positions keeps, a run of the queue keeps.\<close>

definition spos_reach :: "'s \<Rightarrow> 's \<Rightarrow> bool" where
  "spos_reach s s' \<longleftrightarrow> (\<forall>Q. Q s \<longrightarrow> (\<forall>s e p. Q s \<longrightarrow> Q (spos s e p)) \<longrightarrow> Q s')"

lemma spos_reach_refl: "spos_reach s s"
  by (simp add: spos_reach_def)

lemma spos_reach_trans: "spos_reach s s' \<Longrightarrow> spos_reach s' s'' \<Longrightarrow> spos_reach s s''"
  unfolding spos_reach_def by blast

lemma spos_reach_spos: "spos_reach s s' \<Longrightarrow> spos_reach s (spos s' e p)"
  unfolding spos_reach_def by blast

lemma spos_reachD:
  assumes "spos_reach s s'" "\<And>s e p. f (spos s e p) = f s"
  shows "f s' = f s"
  using assms(1)[unfolded spos_reach_def, rule_format, of "\<lambda>t. f t = f s"] assms(2) by simp

definition frame :: "nat \<Rightarrow> 'e list \<Rightarrow> 's \<Rightarrow> 'e list \<Rightarrow> 's \<Rightarrow> bool" where
  "frame n D s D' s' \<longleftrightarrow> length D' = length D \<and> mset (live n D') = mset (live n D) \<and>
     (\<forall>j. j = 0 \<or> n \<le> j \<longrightarrow> D' ! j = D ! j) \<and>
     getp s' = getp s \<and> ok s' = ok s \<and> (\<forall>e. e \<notin> set (live n D) \<longrightarrow> gpos s' e = gpos s e) \<and>
     spos_reach s s'"

lemma frame_refl: "frame n D s D s"
  by (simp add: frame_def spos_reach_refl)

lemma frame_trans: "frame n D s D' s' \<Longrightarrow> frame n D' s' D'' s'' \<Longrightarrow> frame n D s D'' s''"
  unfolding frame_def using spos_reach_trans by (metis set_mset_mset)

lemma hole_move:
  assumes h: "hole n m d s i" and k: "0 < k" "k < n" "k \<noteq> i"
  shows "hole n m (d[i := d ! k]) (spos s (d ! k) i) k"
    and "frame n (d[i := m]) s (d[i := d ! k, k := m]) (spos s (d ! k) i)"
proof -
  have i: "0 < i" "i < n" "n \<le> length d" using h by (auto simp: hole_def)
  have neq: "d ! j \<noteq> d ! k" if "0 < j" "j < n" "j \<noteq> i" "j \<noteq> k" for j
    using h k that unfolding hole_def by metis
  have ok: "ok s (d ! k)" using h k by (simp add: hole_def)
  show "hole n m (d[i := d ! k]) (spos s (d ! k) i) k"
    unfolding hole_def
  proof (intro conjI allI impI)
    fix j assume j: "0 < j" "j < n" "j \<noteq> k"
    show "gpos (spos s (d ! k) i) (d[i := d ! k] ! j) = j"
      using h i j k ok neq[of j] by (cases "j = i") (auto simp: hole_def gpos_spos gpos_spos_other)
  qed (use h k i in \<open>auto simp: hole_def ok_spos nth_list_update\<close>)
  have "mset (live n (d[i := d ! k, k := m])) = mset (live n (d[i := m]))"
    using mset_live_swap[of i n k "d[i := m]"] i k by simp
  moreover have "d ! k \<in> set (live n (d[i := m]))"
    using i k by (auto simp: set_live image_iff intro!: bexI[of _ k])
  ultimately have "gpos (spos s (d ! k) i) e = gpos s e" if "e \<notin> set (live n (d[i := m]))" for e
    using gpos_spos_other that by metis
  with \<open>mset _ = mset _\<close> show "frame n (d[i := m]) s (d[i := d ! k, k := m]) (spos s (d ! k) i)"
    using i k by (auto simp: frame_def getp_spos ok_spos fun_eq_iff intro: spos_reach_spos spos_reach_refl)
qed

lemma bubble_step:
  assumes "0 < i" "i < n" "n \<le> length d" "1 < i"
    and "heap_except n (d[i := m]) s {i}" "across n (d[i := m]) s i"
    and "getp s m < getp s (d ! (i div 2))"
  shows "heap_except n (d[i := d ! (i div 2), i div 2 := m]) s {i div 2} \<and>
    across n (d[i := d ! (i div 2), i div 2 := m]) s (i div 2)"
proof -
  have k: "i div 2 < i" "0 < i div 2" using \<open>1 < i\<close> by auto
  have h: "getp s (d[i := m] ! (j div 2)) \<le> getp s (d ! j)" if "2 \<le> j" "j < n" "j \<noteq> i" for j
    using assms(5) that by (auto simp: heap_except_def dest!: spec[of _ j])
  have a: "getp s (d ! (i div 2)) \<le> getp s (d ! j)" if "j < n" "j div 2 = i" for j
  proof -
    have "j \<noteq> i" using that \<open>1 < i\<close> by auto
    with assms(6) that k \<open>1 < i\<close> show ?thesis by (auto simp: across_def dest!: spec[of _ j])
  qed
  have sib: "getp s (d ! (i div 2)) \<le> getp s (d ! j)" if "2 \<le> j" "j < n" "j \<noteq> i" "j div 2 = i div 2" for j
    using h[OF that(1-3)] that(4) k by simp
  have upd: "d[i := d ! (i div 2), i div 2 := m] ! x =
      (if x = i div 2 then m else if x = i then d ! (i div 2) else d ! x)" for x
    using k assms(2,3) by (auto simp: nth_list_update)
  show ?thesis
  proof (intro conjI)
    show "heap_except n (d[i := d ! (i div 2), i div 2 := m]) s {i div 2}"
      unfolding heap_except_def
    proof (intro allI impI)
      fix j assume j: "2 \<le> j" "j < n" "j \<notin> {i div 2}"
      consider "j = i" | "j \<noteq> i" "j div 2 = i" | "j \<noteq> i" "j div 2 = i div 2"
        | "j \<noteq> i" "j div 2 \<noteq> i" "j div 2 \<noteq> i div 2" by blast
      then have "getp s (if j div 2 = i div 2 then m else if j div 2 = i then d ! (i div 2) else d ! (j div 2))
        \<le> getp s (if j = i div 2 then m else if j = i then d ! (i div 2) else d ! j)"
      proof cases
        case 1 then show ?thesis using k assms(7) by simp
      next
        case 2 then show ?thesis using a[of j] j less_imp_neq[OF k(1)] by simp
      next
        case 3 then show ?thesis using sib[of j] j assms(7) by simp
      next
        case 4 then show ?thesis using h[of j] j by simp
      qed
      then show "getp s (d[i := d ! (i div 2), i div 2 := m] ! (j div 2))
        \<le> getp s (d[i := d ! (i div 2), i div 2 := m] ! j)"
        by (simp only: upd)
    qed
    show "across n (d[i := d ! (i div 2), i div 2 := m]) s (i div 2)"
      unfolding across_def
    proof (intro allI impI)
      fix j assume j: "2 \<le> i div 2" "j < n" "j div 2 = i div 2"
      have "x div 2 < x" if "2 \<le> x" for x :: nat using that by simp
      from this[of "i div 2"] this[of j]
      have ne: "j \<noteq> i div 2" "i div 2 div 2 \<noteq> i div 2" "i div 2 div 2 \<noteq> i" "2 \<le> j"
        using j k by linarith+
      moreover have "getp s (d ! (i div 2 div 2)) \<le> getp s (d ! (i div 2))"
        using h[of "i div 2"] j k assms(2) ne by simp
      moreover have "d[i := d ! (i div 2), i div 2 := m] ! (i div 2 div 2) = d ! (i div 2 div 2)"
        by (simp only: upd ne if_False)
      moreover have "d[i := d ! (i div 2), i div 2 := m] ! j = (if j = i then d ! (i div 2) else d ! j)"
        by (simp only: upd ne if_False)
      ultimately show "getp s (d[i := d ! (i div 2), i div 2 := m] ! (i div 2 div 2))
        \<le> getp s (d[i := d ! (i div 2), i div 2 := m] ! j)"
        using sib[of j] j by (cases "j = i") auto
    qed
  qed
qed

lemma bubble_up_loop_post:
  assumes "uses q" "hole n m d s i" "heap_except n (d[i := m]) s {i}" "across n (d[i := m]) s i"
    "bubble_up_loop q (getp s m) d s i = (d', s', i')"
  shows "hole n m d' s' i' \<and> frame n (d[i := m]) s (d'[i' := m]) s' \<and> heap_except n (d'[i' := m]) s' {}"
  using assms(2-)
proof (induction i arbitrary: d s rule: less_induct)
  case (less i)
  let ?k = "i div 2"
  have i: "0 < i" "i < n" "n \<le> length d" using less.prems by (auto simp: hole_def)
  show ?case
  proof (cases "1 < i \<and> getp s m < getp s (d ! ?k)")
    case True
    then have k: "0 < ?k" "?k < n" "?k \<noteq> i" "?k < i" using i by auto
    have run: "bubble_up_loop q (getp s m) (d[i := d ! ?k]) (spos s (d ! ?k) i) ?k = (d', s', i')"
      using less.prems(4) True i usesD[OF assms(1)] by (simp add: bubble_up_loop.simps[of q _ d s i] Let_def)
    have step: "heap_except n (d[i := d ! ?k, ?k := m]) s {?k} \<and> across n (d[i := d ! ?k, ?k := m]) s ?k"
      using bubble_step[OF i _ less.prems(2,3)] True by blast
    have "hole n m d' s' i' \<and> frame n (d[i := d ! ?k, ?k := m]) (spos s (d ! ?k) i) (d'[i' := m]) s' \<and>
        heap_except n (d'[i' := m]) s' {}"
      by (rule less.IH[OF k(4) hole_move(1)[OF less.prems(1) k(1-3)]])
        (use run step in \<open>simp_all add: heap_except_def across_def getp_spos\<close>)
    then show ?thesis
      using frame_trans[OF hole_move(2)[OF less.prems(1) k(1-3)]] by blast
  next
    case False
    then have "(d', s', i') = (d, s, i)"
      using less.prems(4) usesD[OF assms(1)] by (simp add: bubble_up_loop.simps[of q _ d s i] Let_def split: if_splits)
    moreover have "heap_except n (d[i := m]) s {}"
    proof -
      have "getp s (d[i := m] ! (i div 2)) \<le> getp s (d[i := m] ! i)" if "2 \<le> i"
        using False that i by auto
      with less.prems(2) show ?thesis unfolding heap_except_def by (metis empty_iff insertE)
    qed
    ultimately show ?thesis using less.prems frame_refl by simp
  qed
qed

lemma maxchild_least:
  assumes "uses q" "pq_size q = n" "0 < i"
  shows "maxchild q d s i = 0 \<Longrightarrow> n \<le> 2 * i"
    and "maxchild q d s i \<noteq> 0 \<Longrightarrow> maxchild q d s i \<in> {2 * i, 2 * i + 1} \<and> maxchild q d s i < n \<and>
      (\<forall>j \<in> {2 * i, 2 * i + 1}. j < n \<longrightarrow> getp s (d ! maxchild q d s i) \<le> getp s (d ! j))"
  using assms by (auto simp: maxchild_def Let_def usesD split: if_splits)

lemma percolate_step:
  assumes "0 < i" "i < n" "n \<le> length d" and c: "c \<in> {2 * i, 2 * i + 1}" "c < n"
    and "heap_except n (d[i := m]) s {2 * i, 2 * i + 1}" "across n (d[i := m]) s i"
    and "getp s (d ! c) < getp s m"
    and least: "\<forall>j \<in> {2 * i, 2 * i + 1}. j < n \<longrightarrow> getp s (d ! c) \<le> getp s (d ! j)"
  shows "heap_except n (d[i := d ! c, c := m]) s {2 * c, 2 * c + 1} \<and>
    across n (d[i := d ! c, c := m]) s c"
proof -
  have ci: "c div 2 = i" "i < c" using c assms(1) by auto
  have h: "getp s (d[i := m] ! (j div 2)) \<le> getp s (d[i := m] ! j)"
    if "2 \<le> j" "j < n" "j div 2 \<noteq> i" for j
  proof -
    have "j \<notin> {2 * i, 2 * i + 1}" using that by auto
    with assms(6) that show ?thesis by (auto simp: heap_except_def)
  qed
  have a: "getp s (d ! (i div 2)) \<le> getp s (d ! c)" if "2 \<le> i"
  proof -
    have "i div 2 \<noteq> i" using that by auto
    with assms(7) that ci c show ?thesis by (auto simp: across_def dest!: spec[of _ c])
  qed
  have sib: "getp s (d ! c) \<le> getp s (d ! j)" if "j < n" "j div 2 = i" for j
  proof -
    have "j \<in> {2 * i, 2 * i + 1}" using that by auto
    with least that show ?thesis by blast
  qed
  show ?thesis
  proof (intro conjI)
    show "heap_except n (d[i := d ! c, c := m]) s {2 * c, 2 * c + 1}"
      unfolding heap_except_def
    proof (intro allI impI)
      fix j assume j: "2 \<le> j" "j < n" "j \<notin> {2 * c, 2 * c + 1}"
      then have jc: "j div 2 \<noteq> c" by auto
      have ne: "i div 2 \<noteq> i" "j div 2 \<noteq> j" using assms(1) j by auto
      consider "j = i" | "j = c" | "j \<noteq> c" "j div 2 = i" | "j \<noteq> i" "j \<noteq> c" "j div 2 \<noteq> i" by blast
      then show "getp s (d[i := d ! c, c := m] ! (j div 2)) \<le> getp s (d[i := d ! c, c := m] ! j)"
        using j jc ne ci assms(1-3,8) c a sib[of j] h[of j]
        by cases (auto simp: nth_list_update)
    qed
    show "across n (d[i := d ! c, c := m]) s c"
      unfolding across_def
    proof (intro allI impI)
      fix j assume j: "2 \<le> c" "j < n" "j div 2 = c"
      then have "c < j" by auto
      moreover have "getp s (d[i := m] ! c) \<le> getp s (d[i := m] ! j)"
        using h[of j] j ci \<open>c < j\<close> by auto
      ultimately show "getp s (d[i := d ! c, c := m] ! (c div 2)) \<le> getp s (d[i := d ! c, c := m] ! j)"
        using j ci assms(1-3) c by (auto simp: nth_list_update)
    qed
  qed
qed

lemma percolate_down_loop_post:
  assumes "uses q" "pq_size q = n" "hole n m d s i"
    "heap_except n (d[i := m]) s {2 * i, 2 * i + 1}" "across n (d[i := m]) s i"
    "percolate_down_loop q (getp s m) d s i = (d', s', i')"
  shows "hole n m d' s' i' \<and> frame n (d[i := m]) s (d'[i' := m]) s' \<and> heap_except n (d'[i' := m]) s' {}"
  using assms(3-)
proof (induction "n - i" arbitrary: d s i rule: less_induct)
  case less
  let ?c = "maxchild q d s i"
  have i: "0 < i" "i < n" "n \<le> length d" using less.prems by (auto simp: hole_def)
  note mc = maxchild_least[OF assms(1,2) i(1), of d s]
  show ?case
  proof (cases "?c \<noteq> 0 \<and> getp s (d ! ?c) < getp s m")
    case True
    note ch = mc(2)[OF conjunct1[OF True]]
    have c: "0 < ?c" "?c < n" "?c \<noteq> i" "n - ?c < n - i" using ch i by auto
    have run: "percolate_down_loop q (getp s m) (d[i := d ! ?c]) (spos s (d ! ?c) i) ?c = (d', s', i')"
      using less.prems(4) True i usesD[OF assms(1)]
      by (simp add: percolate_down_loop.simps[of q _ d s i] Let_def)
    have step: "heap_except n (d[i := d ! ?c, ?c := m]) s {2 * ?c, 2 * ?c + 1} \<and>
        across n (d[i := d ! ?c, ?c := m]) s ?c"
      by (rule percolate_step[OF i _ _ less.prems(2,3)]) (use ch True in blast)+
    have "hole n m d' s' i' \<and> frame n (d[i := d ! ?c, ?c := m]) (spos s (d ! ?c) i) (d'[i' := m]) s' \<and>
        heap_except n (d'[i' := m]) s' {}"
      by (rule less.hyps[OF c(4) hole_move(1)[OF less.prems(1) c(1-3)]])
        (use run step in \<open>simp_all add: heap_except_def across_def getp_spos\<close>)
    then show ?thesis
      using frame_trans[OF hole_move(2)[OF less.prems(1) c(1-3)]] by blast
  next
    case False
    then have "(d', s', i') = (d, s, i)"
      using less.prems(4) usesD[OF assms(1)]
      by (simp add: percolate_down_loop.simps[of q _ d s i] Let_def split: if_splits)
    moreover have "heap_except n (d[i := m]) s {}"
    proof -
      have "getp s m \<le> getp s (d ! j)" if "j \<in> {2 * i, 2 * i + 1}" "j < n" for j
        using mc False that by fastforce
      then have "getp s (d[i := m] ! (j div 2)) \<le> getp s (d[i := m] ! j)"
        if "j \<in> {2 * i, 2 * i + 1}" "j < n" for j using that i by auto
      with less.prems(2) show ?thesis unfolding heap_except_def by (metis empty_iff)
    qed
    ultimately show ?thesis using less.prems frame_refl by simp
  qed
qed

text \<open>Both operations end with the moving element in the hole: the queue is in order again.\<close>

lemma close_hole:
  assumes u: "uses q" and n: "pq_size q = n"
    and h: "hole n m d' s' i'" and f: "frame n (pq_d q) s (d'[i' := m]) s'"
    and o: "heap_except n (d'[i' := m]) s' {}"
  shows "pq_inv (q\<lparr>pq_d := d'[i' := m]\<rparr>) (spos s' m i') \<and>
    frame n (pq_d q) s (d'[i' := m]) (spos s' m i')"
proof
  have i: "0 < i'" "i' < n" "n \<le> length d'" "ok s' m" using h by (auto simp: hole_def)
  have "gpos (spos s' m i') (d'[i' := m] ! j) = j \<and> ok s' (d'[i' := m] ! j)" if "0 < j" "j < n" for j
    using h i that by (cases "j = i'") (auto simp: hole_def gpos_spos gpos_spos_other)
  then show "pq_inv (q\<lparr>pq_d := d'[i' := m]\<rparr>) (spos s' m i')"
    using i u n o by (simp add: pq_inv_def ok_spos heap_except_def getp_spos)
  have "m \<in> set (live n (d'[i' := m]))"
    using i by (auto simp: set_live image_iff intro!: bexI[of _ i'])
  then have "m \<in> set (live n (pq_d q))"
    using f unfolding frame_def by (metis set_mset_mset)
  then have "gpos (spos s' m i') e = gpos s e" if "e \<notin> set (live n (pq_d q))" for e
    using f that gpos_spos_other[of e m] unfolding frame_def by metis
  with f show "frame n (pq_d q) s (d'[i' := m]) (spos s' m i')"
    by (auto simp: frame_def getp_spos ok_spos fun_eq_iff intro: spos_reach_spos)
qed

lemma bubble_up_post:
  assumes "uses q" "pq_size q = n" "hole n (pq_d q ! i) (pq_d q) s i"
    "heap_except n (pq_d q) s {i}" "across n (pq_d q) s i"
  shows "\<exists>d' s'. bubble_up q s i = Some (q\<lparr>pq_d := d'\<rparr>, s') \<and> pq_inv (q\<lparr>pq_d := d'\<rparr>) s' \<and>
    frame n (pq_d q) s d' s'"
proof -
  obtain d' s' i' where run: "bubble_up_loop q (getp s (pq_d q ! i)) (pq_d q) s i = (d', s', i')"
    by (metis prod_cases3)
  have "i < length (pq_d q)" using assms(3) by (simp add: hole_def)
  with run have "bubble_up q s i = Some (q\<lparr>pq_d := d'[i' := pq_d q ! i]\<rparr>, spos s' (pq_d q ! i) i')"
    by (simp add: bubble_up_def usesD[OF assms(1)])
  moreover have "hole n (pq_d q ! i) d' s' i' \<and> frame n (pq_d q) s (d'[i' := pq_d q ! i]) s' \<and>
      heap_except n (d'[i' := pq_d q ! i]) s' {}"
    using bubble_up_loop_post[OF assms(1,3) _ _ run] assms(4,5) by simp
  ultimately show ?thesis using close_hole[OF assms(1,2)] by blast
qed

lemma percolate_down_post:
  assumes "uses q" "pq_size q = n" "hole n (pq_d q ! i) (pq_d q) s i"
    "heap_except n (pq_d q) s {2 * i, 2 * i + 1}" "across n (pq_d q) s i"
  shows "\<exists>d' s'. percolate_down q s i = Some (q\<lparr>pq_d := d'\<rparr>, s') \<and> pq_inv (q\<lparr>pq_d := d'\<rparr>) s' \<and>
    frame n (pq_d q) s d' s'"
proof -
  obtain d' s' i' where run: "percolate_down_loop q (getp s (pq_d q ! i)) (pq_d q) s i = (d', s', i')"
    by (metis prod_cases3)
  have "i < length (pq_d q)" "n \<le> length (pq_d q)" using assms(3) by (auto simp: hole_def)
  with run have "percolate_down q s i = Some (q\<lparr>pq_d := d'[i' := pq_d q ! i]\<rparr>, spos s' (pq_d q ! i) i')"
    by (simp add: percolate_down_def usesD[OF assms(1)] assms(2))
  moreover have "hole n (pq_d q ! i) d' s' i' \<and> frame n (pq_d q) s (d'[i' := pq_d q ! i]) s' \<and>
      heap_except n (d'[i' := pq_d q ! i]) s' {}"
    using percolate_down_loop_post[OF assms(1,2,3) _ _ run] assms(4,5) by simp
  ultimately show ?thesis using close_hole[OF assms(1,2)] by blast
qed

text \<open>When the key in one slot of an ordered heap changes, only that slot or its children are wrong.\<close>

lemma fix_at:
  assumes h: "heap_except n d s {}" and i: "0 < i" "i < n"
    and same: "\<And>j. 0 < j \<Longrightarrow> j < n \<Longrightarrow> j \<noteq> i \<Longrightarrow> getp s' (D ! j) = getp s (d ! j)"
  shows "across n D s' i"
    and "getp s' (D ! i) \<le> getp s (d ! i) \<Longrightarrow> heap_except n D s' {i}"
    and "getp s (d ! i) \<le> getp s' (D ! i) \<Longrightarrow> heap_except n D s' {2 * i, 2 * i + 1}"
proof -
  have le: "getp s (d ! (j div 2)) \<le> getp s (d ! j)" if "2 \<le> j" "j < n" for j
    using h that by (simp add: heap_except_def)
  show "across n D s' i"
    unfolding across_def
  proof (intro allI impI)
    fix j assume j: "2 \<le> i" "j < n" "j div 2 = i"
    then have "0 < i div 2" "i div 2 < n" "i div 2 \<noteq> i" "0 < j" "j \<noteq> i" "2 \<le> j" using i by auto
    then show "getp s' (D ! (i div 2)) \<le> getp s' (D ! j)"
      using le[of i] le[of j] j i same[of j] same[of "i div 2"] by simp
  qed
  show "heap_except n D s' {i}" if "getp s' (D ! i) \<le> getp s (d ! i)"
    unfolding heap_except_def
  proof (intro allI impI)
    fix j assume j: "2 \<le> j" "j < n" "j \<notin> {i}"
    then have "0 < j div 2" "j div 2 < n" by auto
    then show "getp s' (D ! (j div 2)) \<le> getp s' (D ! j)"
      using le[of j] j that same[of j] same[of "j div 2"] by (cases "j div 2 = i") auto
  qed
  show "heap_except n D s' {2 * i, 2 * i + 1}" if "getp s (d ! i) \<le> getp s' (D ! i)"
    unfolding heap_except_def
  proof (intro allI impI)
    fix j assume j: "2 \<le> j" "j < n" "j \<notin> {2 * i, 2 * i + 1}"
    then have "0 < j div 2" "j div 2 < n" "j div 2 \<noteq> i" by auto
    then show "getp s' (D ! (j div 2)) \<le> getp s' (D ! j)"
      using le[of j] j that same[of j] same[of "j div 2"] by (cases "j = i") auto
  qed
qed

lemma pq_inv_distinct: "pq_inv q s \<Longrightarrow> distinct (pq_elems q)"
  by (auto simp: pq_elems_def live_def distinct_map pq_inv_def intro!: inj_onI)
    (metis One_nat_def Suc_le_lessD)

lemma pq_elemsD:
  assumes "pq_inv q s" "e \<in> set (pq_elems q)"
  shows "0 < gpos s e" "gpos s e < pq_size q" "pq_d q ! gpos s e = e" "ok s e"
  using assms by (auto simp: pq_elems_def set_live pq_inv_def)

subsection \<open>The operations keep the invariant\<close>

lemma pqueue_insert_inv:
  assumes inv: "pq_inv q s" and room: "pq_size q < length (pq_d q)"
    and e: "ok s e" "e \<notin> set (pq_elems q)"
  shows "\<exists>q' s'. pqueue_insert q s e = Some (q', s') \<and> pq_inv q' s' \<and>
    mset (pq_elems q') = add_mset e (mset (pq_elems q)) \<and> length (pq_d q') = length (pq_d q) \<and>
    pq_avail q' = pq_avail q \<and> getp s' = getp s \<and> ok s' = ok s \<and>
    (\<forall>x. x \<noteq> e \<and> x \<notin> set (pq_elems q) \<longrightarrow> gpos s' x = gpos s x) \<and> spos_reach s s'"
proof -
  let ?n = "pq_size q" and ?D = "(pq_d q)[pq_size q := e]"
  let ?q = "q\<lparr>pq_size := pq_size q + 1, pq_d := ?D\<rparr>"
  have u: "uses q" "0 < ?n" using inv by (auto simp: pq_inv_def)
  have hl: "hole (?n + 1) (pq_d ?q ! ?n) (pq_d ?q) s ?n"
    using inv room e u by (auto simp: hole_def pq_inv_def pq_elems_def set_live less_Suc_eq)
  have "heap_except (?n + 1) (pq_d ?q) s {?n}"
    using inv room by (auto simp: heap_except_def pq_inv_def less_Suc_eq nth_list_update)
  moreover have "across (?n + 1) (pq_d ?q) s ?n"
    using u by (auto simp: across_def)
  ultimately obtain d' s' where r: "bubble_up ?q s ?n = Some (?q\<lparr>pq_d := d'\<rparr>, s')"
    "pq_inv (?q\<lparr>pq_d := d'\<rparr>) s'" "frame (?n + 1) ?D s d' s'"
    using bubble_up_post[OF _ _ hl] u by (auto simp: uses_def)
  have elems: "live (?n + 1) ?D = pq_elems q @ [e]"
    using u room by (simp add: live_Suc pq_elems_def live_upd_out)
  show ?thesis
    by (rule exI[of _ "?q\<lparr>pq_d := d'\<rparr>"], rule exI[of _ s'])
      (use r elems room in \<open>auto simp: pqueue_insert_def frame_def pq_elems_def\<close>)
qed

lemma pqueue_change_priority_inv:
  assumes inv: "pq_inv q s" and e: "e \<in> set (pq_elems q)"
  shows "\<exists>q' s'. pqueue_change_priority q s v e = Some (q', s') \<and> pq_inv q' s' \<and>
    mset (pq_elems q') = mset (pq_elems q) \<and> length (pq_d q') = length (pq_d q) \<and>
    pq_avail q' = pq_avail q \<and> getp s' = (getp s)(e := v) \<and> ok s' = ok s \<and>
    (\<forall>x. x \<notin> set (pq_elems q) \<longrightarrow> gpos s' x = gpos s x) \<and> spos_reach (setp s e v) s'"
proof -
  let ?n = "pq_size q" and ?i = "gpos s e" and ?s = "setp s e v"
  note i = pq_elemsD[OF inv e]
  have u: "uses q" and len: "?n \<le> length (pq_d q)" and h: "heap_except ?n (pq_d q) s {}"
    and pos: "\<And>j. 0 < j \<Longrightarrow> j < ?n \<Longrightarrow> ok s (pq_d q ! j) \<and> gpos s (pq_d q ! j) = j"
    using inv by (auto simp: pq_inv_def)
  have hl: "hole ?n (pq_d q ! ?i) (pq_d q) ?s ?i"
    using i len pos by (auto simp: hole_def ok_setp gpos_setp)
  have same: "getp ?s (pq_d q ! j) = getp s (pq_d q ! j)" if "0 < j" "j < ?n" "j \<noteq> ?i" for j
    using that pos[of j] by (cases "pq_d q ! j = e") (auto simp: getp_setp_other)
  note fx = fix_at[OF h i(1,2) same]
  have v: "getp ?s (pq_d q ! ?i) = v" using i by (simp add: getp_setp)
  have "\<exists>d' s'. pqueue_change_priority q s v e = Some (q\<lparr>pq_d := d'\<rparr>, s') \<and> pq_inv (q\<lparr>pq_d := d'\<rparr>) s' \<and>
    frame ?n (pq_d q) ?s d' s'"
  proof (cases "v < getp s e")
    case True
    then show ?thesis
      using bubble_up_post[OF u refl hl fx(2) fx(1)] v i u
      by (auto simp: pqueue_change_priority_def usesD gpos_setp Let_def)
  next
    case False
    then show ?thesis
      using percolate_down_post[OF u refl hl fx(3) fx(1)] v i u
      by (auto simp: pqueue_change_priority_def usesD gpos_setp Let_def)
  qed
  moreover have "getp ?s = (getp s)(e := v)"
    using i by (auto simp: getp_setp getp_setp_other fun_eq_iff)
  ultimately show ?thesis
    by (force simp: frame_def pq_elems_def ok_setp gpos_setp fun_eq_iff)
qed

lemma pqueue_remove_inv:
  assumes inv: "pq_inv q s" and e: "e \<in> set (pq_elems q)"
  shows "\<exists>q' s'. pqueue_remove q s e = Some (q', s') \<and> pq_inv q' s' \<and>
    add_mset e (mset (pq_elems q')) = mset (pq_elems q) \<and> length (pq_d q') = length (pq_d q) \<and>
    pq_avail q' = pq_avail q \<and> getp s' = getp s \<and> ok s' = ok s \<and>
    (\<forall>x. x \<notin> set (pq_elems q) \<longrightarrow> gpos s' x = gpos s x) \<and> spos_reach s s'"
proof -
  let ?n = "pq_size q - 1" and ?i = "gpos s e"
  let ?D = "(pq_d q)[?i := pq_d q ! ?n]"
  let ?q = "q\<lparr>pq_size := ?n, pq_d := ?D\<rparr>"
  note i = pq_elemsD[OF inv e]
  have sz: "pq_size q = Suc ?n" using i by simp
  have u: "uses q" "uses ?q" and len: "?n < length (pq_d q)" and h: "heap_except ?n (pq_d q) s {}"
    and pos: "\<And>j. 0 < j \<Longrightarrow> j < pq_size q \<Longrightarrow> ok s (pq_d q ! j) \<and> gpos s (pq_d q ! j) = j"
    using inv i by (auto simp: pq_inv_def uses_def heap_except_def)
  have run: "pqueue_remove q s e = (if getp s (pq_d q ! ?n) < getp s e then bubble_up ?q s ?i
      else percolate_down ?q s ?i)"
    using i len u by (simp add: pqueue_remove_def usesD Let_def)
  have dr: "add_mset e (mset (live ?n ?D)) = mset (pq_elems q)" if "?i < ?n"
    using mset_live_drop[OF i(1) that len] i sz by (simp add: pq_elems_def)
  have "\<exists>d' s'. pqueue_remove q s e = Some (?q\<lparr>pq_d := d'\<rparr>, s') \<and> pq_inv (?q\<lparr>pq_d := d'\<rparr>) s' \<and>
      add_mset e (mset (live ?n d')) = mset (pq_elems q) \<and> length d' = length (pq_d q) \<and>
      getp s' = getp s \<and> ok s' = ok s \<and> (\<forall>x. x \<notin> set (pq_elems q) \<longrightarrow> gpos s' x = gpos s x) \<and>
      spos_reach s s'"
  proof (cases "?i < ?n")
    case False
    then have il: "?i = ?n" "?n \<noteq> 0" using i by linarith+
    then have D: "?D = pq_d q" and last: "pq_d q ! ?n = e" using i(3) by (metis list_update_id)+
    have "percolate_down_loop q' p d s' k = (d, s', k)" if "pq_size q' \<le> k" for q' :: "('s, 'e) pqueue" and p d s' k
      using that by (simp add: percolate_down_loop.simps[of q'] maxchild_def)
    then have "percolate_down ?q s ?i = Some (?q, spos s e ?n)"
      using il last len u D by (simp add: percolate_down_def usesD)
    moreover have "live (Suc ?n) (pq_d q) = live ?n (pq_d q) @ [e]"
      using live_Suc[of ?n "pq_d q"] il last by (metis not_gr0)
    moreover have "pq_inv (?q\<lparr>pq_d := pq_d q\<rparr>) (spos s e ?n)"
    proof -
      have "gpos (spos s e ?n) (pq_d q ! j) = j" if "0 < j" "j < ?n" for j
        using pos[of j] il that i by (cases "pq_d q ! j = e") (auto simp: gpos_spos_other)
      then show ?thesis
        using il u h len pos by (auto simp: pq_inv_def ok_spos heap_except_def getp_spos)
    qed
    moreover have "gpos (spos s e ?n) x = gpos s x" for x
      using i il by (cases "x = e") (auto simp: gpos_spos gpos_spos_other)
    ultimately show ?thesis
      using sz run il last D
      by (intro exI[of _ "pq_d q"] exI[of _ "spos s e ?n"])
        (auto simp: pq_elems_def getp_spos ok_spos fun_eq_iff intro: spos_reach_spos spos_reach_refl)
  next
    case True
    have "pq_d q ! j \<noteq> pq_d q ! ?n" if "0 < j" "j < ?n" for j
      using pos[of j] pos[of ?n] that True by (metis less_trans less_irrefl lessI sz gr_implies_not0 not_gr0)
    then have hl: "hole ?n (pq_d ?q ! ?i) (pq_d ?q) s ?i"
      using i True len pos sz by (auto simp: hole_def less_Suc_eq)
    have same: "getp s (?D ! j) = getp s (pq_d q ! j)" if "0 < j" "j < ?n" "j \<noteq> ?i" for j
      using that by simp
    note fx = fix_at[OF h i(1) True same]
    have "\<exists>d' s'. pqueue_remove q s e = Some (?q\<lparr>pq_d := d'\<rparr>, s') \<and> pq_inv (?q\<lparr>pq_d := d'\<rparr>) s' \<and>
        frame ?n ?D s d' s'"
    proof (cases "getp s (pq_d q ! ?n) < getp s e")
      case less: True
      then show ?thesis
        using bubble_up_post[OF u(2) _ hl, of ] fx(1,2) run i True len by (auto simp: uses_def)
    next
      case nless: False
      then show ?thesis
        using percolate_down_post[OF u(2) _ hl] fx(1,3) run i True len by (auto simp: uses_def)
    qed
    moreover have "set (live ?n ?D) \<subseteq> set (pq_elems q)"
      using dr[OF True] by (metis set_mset_add_mset_insert set_mset_mset subset_insertI)
    ultimately show ?thesis using dr[OF True] by (fastforce simp: frame_def)
  qed
  then show ?thesis
    by (elim exE) (rule exI, rule exI, auto simp: pq_elems_def)
qed

text \<open>The root is a least element, and \<^verbatim>\<open>pqueue_pop\<close> takes exactly it.\<close>

lemma root_least:
  assumes inv: "pq_inv q s" and e: "e \<in> set (pq_elems q)"
  shows "getp s (pq_d q ! 1) \<le> getp s e"
proof -
  have "getp s (pq_d q ! 1) \<le> getp s (pq_d q ! j)" if "0 < j" "j < pq_size q" for j
    using that
  proof (induction j rule: less_induct)
    case (less j)
    show ?case
    proof (cases "j = 1")
      case False
      then have j: "2 \<le> j" "0 < j div 2" "j div 2 < j" using less.prems by auto
      then have "getp s (pq_d q ! 1) \<le> getp s (pq_d q ! (j div 2))"
        using less.IH[of "j div 2"] less.prems by simp
      also have "\<dots> \<le> getp s (pq_d q ! j)"
        using inv j less.prems by (auto simp: pq_inv_def heap_except_def)
      finally show ?thesis .
    qed simp
  qed
  with e show ?thesis by (auto simp: pq_elems_def set_live)
qed

lemma pqueue_peek_least:
  assumes "pq_inv q s"
  shows "pqueue_peek q = Some None \<and> pq_elems q = [] \<or>
    (\<exists>e. pqueue_peek q = Some (Some e) \<and> e \<in> set (pq_elems q) \<and>
      (\<forall>x \<in> set (pq_elems q). getp s e \<le> getp s x))"
proof (cases "pq_size q = 1")
  case True
  then show ?thesis by (simp add: pqueue_peek_def pq_elems_def live_def)
next
  case False
  then have "1 < pq_size q" "pq_size q \<le> length (pq_d q)" using assms by (auto simp: pq_inv_def)
  then have "pqueue_peek q = Some (Some (pq_d q ! 1)) \<and> pq_d q ! 1 \<in> set (pq_elems q)"
    by (simp add: pqueue_peek_def pq_elems_def set_live)
  then show ?thesis using root_least[OF assms] by blast
qed

lemma pqueue_pop_inv:
  assumes inv: "pq_inv q s" and ne: "pq_elems q \<noteq> []"
  shows "\<exists>e q' s'. pqueue_pop q s = Some (Some e, q', s') \<and> pqueue_peek q = Some (Some e) \<and>
    pq_inv q' s' \<and> add_mset e (mset (pq_elems q')) = mset (pq_elems q) \<and>
    length (pq_d q') = length (pq_d q) \<and> pq_avail q' = pq_avail q \<and> getp s' = getp s \<and>
    ok s' = ok s \<and> (\<forall>x. x \<notin> set (pq_elems q) \<longrightarrow> gpos s' x = gpos s x) \<and> spos_reach s s'"
proof -
  let ?n = "pq_size q - 1" and ?e = "pq_d q ! 1"
  let ?D = "(pq_d q)[1 := pq_d q ! ?n]"
  let ?q = "q\<lparr>pq_size := ?n, pq_d := ?D\<rparr>"
  have sz: "1 < pq_size q" using ne by (auto simp: pq_elems_def live_def)
  have u: "uses q" "uses ?q" and len: "?n < length (pq_d q)"
    and pos: "\<And>j. 0 < j \<Longrightarrow> j < pq_size q \<Longrightarrow> ok s (pq_d q ! j) \<and> gpos s (pq_d q ! j) = j"
    and h: "heap_except (pq_size q) (pq_d q) s {}"
    using inv sz by (auto simp: pq_inv_def uses_def)
  have e: "?e \<in> set (pq_elems q)" "gpos s ?e = 1"
    using sz pos[of 1] by (auto simp: pq_elems_def set_live)
  show ?thesis
  proof (cases "1 < ?n")
    case True
    have "pq_d q ! j \<noteq> pq_d q ! ?n" if "0 < j" "j < ?n" for j
    proof -
      have "j < pq_size q" "?n < pq_size q" "0 < ?n" using that sz by auto
      then show ?thesis using pos[of j] pos[of ?n] that by (metis less_irrefl)
    qed
    then have hl: "hole ?n (pq_d ?q ! 1) (pq_d ?q) s 1"
      using True len pos by (auto simp: hole_def)
    have "heap_except ?n (pq_d ?q) s {2 * 1, 2 * 1 + 1}"
      unfolding heap_except_def
    proof (intro allI impI)
      fix j :: nat assume j: "2 \<le> j" "j < ?n" "j \<notin> {2 * 1, 2 * 1 + 1}"
      then have "j div 2 \<noteq> 1" "j \<noteq> 1" by auto
      with h j show "getp s (pq_d ?q ! (j div 2)) \<le> getp s (pq_d ?q ! j)"
        by (simp add: heap_except_def)
    qed
    then obtain d' s' where r: "percolate_down ?q s 1 = Some (?q\<lparr>pq_d := d'\<rparr>, s')"
      "pq_inv (?q\<lparr>pq_d := d'\<rparr>) s'" "frame ?n ?D s d' s'"
      using percolate_down_post[OF u(2) _ hl] by (auto simp: across_def)
    have dr: "add_mset ?e (mset (live ?n ?D)) = mset (pq_elems q)"
      using mset_live_drop[of 1 ?n "pq_d q"] True len sz by (simp add: pq_elems_def)
    then have sub: "set (live ?n ?D) \<subseteq> set (pq_elems q)"
      by (metis set_mset_add_mset_insert set_mset_mset subset_insertI)
    have "pqueue_pop q s = Some (Some ?e, ?q\<lparr>pq_d := d'\<rparr>, s')"
      using r(1) len sz by (simp add: pqueue_pop_def)
    moreover have "pqueue_peek q = Some (Some ?e)"
      using len sz by (simp add: pqueue_peek_def)
    moreover have "mset (pq_elems (?q\<lparr>pq_d := d'\<rparr>)) = mset (live ?n ?D)"
      "length d' = length (pq_d q)" "getp s' = getp s" "ok s' = ok s"
      "\<forall>x. x \<notin> set (pq_elems q) \<longrightarrow> gpos s' x = gpos s x" "spos_reach s s'"
      using r(3) sub by (auto simp: frame_def pq_elems_def)
    ultimately show ?thesis using r(2) dr
      by (intro exI[of _ ?e] exI[of _ "?q\<lparr>pq_d := d'\<rparr>"] exI[of _ s']) simp
  next
    case False
    then have n: "pq_size q = 2" "?n = 1" using sz by auto
    then have el: "pq_elems q = [?e]" by (simp add: pq_elems_def live_def upt_rec)
    have "pqueue_remove q s ?e = do { (q, s) \<leftarrow> percolate_down ?q s 1; Some (q, s) }"
      using e n len u by (simp add: pqueue_remove_def usesD)
    also have "\<dots> = percolate_down ?q s 1" by simp
    finally obtain q' s' where "percolate_down ?q s 1 = Some (q', s')" "pqueue_remove q s ?e = Some (q', s')"
      using pqueue_remove_inv[OF inv e(1)] by auto
    moreover from this have "pqueue_pop q s = Some (Some ?e, q', s')"
      using len n by (simp add: pqueue_pop_def)
    moreover have "pqueue_peek q = Some (Some ?e)"
      using len sz by (simp add: pqueue_peek_def)
    ultimately show ?thesis using pqueue_remove_inv[OF inv e(1)] by auto
  qed
qed

text \<open>The code's own check decides exactly the heap order of the invariant.\<close>

lemma subtree_is_valid_iff:
  assumes "uses q" "0 < pos"
  shows "subtree_is_valid q s pos \<longleftrightarrow>
    (\<forall>c \<in> {2 * pos, 2 * pos + 1}. c < pq_size q \<longrightarrow>
      getp s (pq_d q ! pos) \<le> getp s (pq_d q ! c) \<and> subtree_is_valid q s c)"
  using assms by (subst subtree_is_valid.simps) (auto simp: usesD Let_def not_less)

lemma pqueue_is_valid_iff:
  assumes "uses q" "1 \<le> pq_size q"
  shows "pqueue_is_valid q s \<longleftrightarrow> heap_except (pq_size q) (pq_d q) s {}"
proof
  assume v: "pqueue_is_valid q s"
  have sub: "subtree_is_valid q s j" if "0 < j" "j < pq_size q" for j
    using that
  proof (induction j rule: less_induct)
    case (less j)
    show ?case
    proof (cases "j = 1")
      case False
      with less.prems have "subtree_is_valid q s (j div 2)" "0 < j div 2" "j \<in> {2 * (j div 2), 2 * (j div 2) + 1}"
        using less.IH[of "j div 2"] by auto
      then show ?thesis using subtree_is_valid_iff[OF assms(1)] less.prems by blast
    qed (use v in \<open>simp add: pqueue_is_valid_def\<close>)
  qed
  show "heap_except (pq_size q) (pq_d q) s {}"
    unfolding heap_except_def
  proof (intro allI impI)
    fix j assume j: "2 \<le> j" "j < pq_size q"
    then have "subtree_is_valid q s (j div 2)" "0 < j div 2" "j \<in> {2 * (j div 2), 2 * (j div 2) + 1}"
      using sub[of "j div 2"] by auto
    then show "getp s (pq_d q ! (j div 2)) \<le> getp s (pq_d q ! j)"
      using subtree_is_valid_iff[OF assms(1)] j by blast
  qed
next
  assume h: "heap_except (pq_size q) (pq_d q) s {}"
  have "subtree_is_valid q s j" if "0 < j" for j
    using that
  proof (induction "pq_size q - j" arbitrary: j rule: less_induct)
    case less
    have "getp s (pq_d q ! j) \<le> getp s (pq_d q ! c) \<and> subtree_is_valid q s c"
      if c: "c \<in> {2 * j, 2 * j + 1}" "c < pq_size q" for c
    proof -
      have "2 \<le> c" "c div 2 = j" "j < c" "0 < c" using c less.prems by auto
      then show ?thesis using h c less.hyps[of c] by (auto simp: heap_except_def)
    qed
    then show ?case using subtree_is_valid_iff[OF assms(1) less.prems] by blast
  qed
  then show "pqueue_is_valid q s" by (simp add: pqueue_is_valid_def)
qed

lemma pq_inv_valid: "pq_inv q s \<Longrightarrow> pqueue_is_valid q s"
  using pqueue_is_valid_iff by (auto simp: pq_inv_def)

lemma pqueue_init_inv:
  assumes "length mem = n + 1"
  shows "pq_inv (pqueue_init n mem cmp getp setp gpos spos) s" and
    "pq_elems (pqueue_init n mem cmp getp setp gpos spos) = []"
  using assms by (auto simp: pq_inv_def pqueue_init_def uses_def heap_except_def pq_elems_def live_def)

lemma pqueue_size_elems: "pqueue_size q = length (pq_elems q)"
  by (simp add: pqueue_size_def pq_elems_def)

end

end
