(* ===== verification/Channel_Model.thy ===== *)
theory Channel_Model
  imports Nvmev_Prelude
begin

text \<open>
  The bandwidth model of \<^verbatim>\<open>channel_model.c\<close>: a ring of \<^verbatim>\<open>NR_CREDIT_ENTRIES\<close> time slots of
  \<^verbatim>\<open>UNIT_TIME_INTERVAL\<close> nanoseconds, each with a byte of transfer credits. A NAND channel
  and the PCIe link each have one. The clock reading is the argument \<open>now\<close>. Positions are read
  as naturals where the code has already reduced them modulo the length of the ring.
\<close>

definition NR_CREDIT_ENTRIES :: u32 where "NR_CREDIT_ENTRIES = 1024 * 2048"
definition UNIT_TIME_INTERVAL :: u64 where "UNIT_TIME_INTERVAL = 4000"
definition UNIT_XFER_SIZE :: u64 where "UNIT_XFER_SIZE = 128"

abbreviation ring_len :: nat where "ring_len \<equiv> unat NR_CREDIT_ENTRIES"

definition MB64 :: "u64 \<Rightarrow> u64" where "MB64 m = push_bit 20 m"
definition NS_PER_SEC :: u64 where "NS_PER_SEC = 1000 * 1000 * 1000"

definition DIV_ROUND_UP64 :: "u64 \<Rightarrow> u64 \<Rightarrow> u64" where
  "DIV_ROUND_UP64 n d = (n + d - 1) div d"

definition BANDWIDTH_TO_TX_TIME :: "u64 \<Rightarrow> u64" where
  "BANDWIDTH_TO_TX_TIME bw = (UNIT_XFER_SIZE * NS_PER_SEC) div MB64 bw"

definition BANDWIDTH_TO_MAX_CREDITS :: "u64 \<Rightarrow> u64" where
  "BANDWIDTH_TO_MAX_CREDITS bw = MB64 bw * UNIT_TIME_INTERVAL div NS_PER_SEC div UNIT_XFER_SIZE * 1"

record channel_model =
  cur_time :: u64
  head :: u32
  valid_len :: u32
  max_credits :: u32
  command_credits :: u32
  xfer_lat :: u32
  avail_credits :: "nat \<Rightarrow> u8"

text \<open>\<^verbatim>\<open>memset\<close> on a part of the ring stores the low byte of its argument.\<close>

definition chm_memset :: "(nat \<Rightarrow> u8) \<Rightarrow> nat \<Rightarrow> u32 \<Rightarrow> nat \<Rightarrow> (nat \<Rightarrow> u8) option" where
  "chm_memset av start v len =
     (if start + len \<le> ring_len then Some (\<lambda>k. if start \<le> k \<and> k < start + len then ucast v else av k)
      else None)"

text \<open>The division by the bandwidth traps when it is 0 (the inner quotient is an \<open>int\<close> of C).\<close>

definition chmodel_init :: "(nat \<Rightarrow> u8) \<Rightarrow> u64 \<Rightarrow> channel_model option" where
  "chmodel_init mem bandwidth = do {
     nv_assert (MB64 bandwidth \<noteq> 0);
     let mc = ucast (BANDWIDTH_TO_MAX_CREDITS bandwidth);
     av \<leftarrow> chm_memset mem 0 mc ring_len;
     Some \<lparr>cur_time = 0, head = 0, valid_len = 0, max_credits = mc, command_credits = 0,
           xfer_lat = ucast (BANDWIDTH_TO_TX_TIME bandwidth), avail_credits = av\<rparr>
   }"

subsection \<open>Consuming credits\<close>

text \<open>The number of steps from \<open>pos\<close> to the slot before \<open>hp\<close>.\<close>

definition slots_left :: "nat \<Rightarrow> nat \<Rightarrow> nat" where
  "slots_left hp pos = (if pos < hp then hp - pos - 1 else ring_len - pos - 1 + hp)"

lemma slots_left_step:
  assumes "hp < ring_len" "pos < ring_len" "(pos + 1) mod ring_len \<noteq> hp"
  shows "slots_left hp pos = Suc (slots_left hp ((pos + 1) mod ring_len))"
proof (cases "pos + 1 = ring_len")
  case True
  then have m: "(pos + 1) mod ring_len = 0" by simp
  then have "0 < hp" using assms(3) by simp
  then show ?thesis
    unfolding m using assms True by (auto simp: slots_left_def)
next
  case False
  then have m: "(pos + 1) mod ring_len = pos + 1" using assms(2) by simp
  then have "pos + 1 \<noteq> hp" using assms(3) by simp
  then show ?thesis
    unfolding m using assms False by (auto simp: slots_left_def)
qed

text \<open>
  The \<^verbatim>\<open>while (1)\<close> of \<^verbatim>\<open>chmodel_request\<close>: take credits slot by slot from \<open>pos\<close> until enough are
  taken or the slot before \<open>hp\<close> is reached. The result is the ring, the last position, the
  credits that are still missing and the number of slots the transfer was delayed by.
\<close>

function credit_loop ::
  "nat \<Rightarrow> (nat \<Rightarrow> u8) \<Rightarrow> nat \<Rightarrow> nat \<Rightarrow> nat \<Rightarrow> ((nat \<Rightarrow> u8) \<times> nat \<times> nat \<times> nat) option" where
  "credit_loop hp av pos remaining_credits delay =
     (if \<not> (hp < ring_len \<and> pos < ring_len) then None
      else
        let consumed_credits =
              (if remaining_credits \<le> unat (av pos) then remaining_credits else unat (av pos));
            av = av(pos := av pos - of_nat consumed_credits);
            remaining_credits = remaining_credits - consumed_credits;
            next_pos = (pos + 1) mod ring_len
        in if remaining_credits \<noteq> 0 then
             if next_pos \<noteq> hp then credit_loop hp av next_pos remaining_credits (delay + 1)
             else Some (av, pos, remaining_credits, delay)
           else Some (av, pos, remaining_credits, delay))"
  by pat_completeness auto

termination
  by (relation "measure (\<lambda>(hp, av, pos, r, d). slots_left hp pos)") (auto simp: slots_left_step)

declare credit_loop.simps [simp del]

subsection \<open>A request\<close>

definition chmodel_request :: "channel_model \<Rightarrow> u64 \<Rightarrow> u64 \<Rightarrow> u64 \<Rightarrow> (u64 \<times> channel_model) option" where
  "chmodel_request ch now request_time len = do {
     let units_to_xfer = (ucast (DIV_ROUND_UP64 len UNIT_XFER_SIZE) :: u32);
     let offs = (ucast (now div UNIT_TIME_INTERVAL - cur_time ch div UNIT_TIME_INTERVAL) :: u32);
     let cur_time_offs = (if offs < valid_len ch then offs else valid_len ch);
     av \<leftarrow> (if head ch + cur_time_offs \<ge> NR_CREDIT_ENTRIES then do {
              av \<leftarrow> chm_memset (avail_credits ch) (unat (head ch)) (max_credits ch)
                      (unat (NR_CREDIT_ENTRIES - head ch));
              chm_memset av 0 (max_credits ch) (unat (cur_time_offs - (NR_CREDIT_ENTRIES - head ch)))
            } else chm_memset (avail_credits ch) (unat (head ch)) (max_credits ch) (unat cur_time_offs));
     let ch = ch\<lparr>avail_credits := av, head := (head ch + cur_time_offs) mod NR_CREDIT_ENTRIES,
                 cur_time := now, valid_len := valid_len ch - cur_time_offs\<rparr>;
     nv_assert (valid_len ch \<le> NR_CREDIT_ENTRIES);
     if request_time < now then Some (request_time, ch)
     else do {
       let request_time_offs = (ucast (request_time div UNIT_TIME_INTERVAL - now div UNIT_TIME_INTERVAL) :: u32);
       if request_time_offs \<ge> NR_CREDIT_ENTRIES then Some (request_time, ch)
       else do {
         let pos = (head ch + request_time_offs) mod NR_CREDIT_ENTRIES;
         let remaining_credits = units_to_xfer * 1 + command_credits ch;
         nv_assert (max_credits ch \<noteq> 0);
         let default_delay = remaining_credits div max_credits ch;
         (av, lst, missing, d) \<leftarrow>
           credit_loop (unat (head ch)) (avail_credits ch) (unat pos) (unat remaining_credits) 0;
         let pos = (of_nat lst :: u32);
         let delay = (of_nat d :: u32);
         let valid_length = (if pos \<ge> head ch then pos - head ch + 1
                             else NR_CREDIT_ENTRIES - (head ch - pos - 1));
         let ch = ch\<lparr>avail_credits := av,
                     valid_len := (if valid_length > valid_len ch then valid_length else valid_len ch)\<rparr>;
         let delay = (if delay > default_delay then delay - default_delay else 0);
         let total_latency = ucast (xfer_lat ch * units_to_xfer) + ucast delay * UNIT_TIME_INTERVAL;
         Some (request_time + total_latency, ch)
       }
     }
   }"

subsection \<open>The ring\<close>

text \<open>The distance of a slot from the head of the ring, and the slot at a distance.\<close>

definition ring_dist :: "nat \<Rightarrow> nat \<Rightarrow> nat" where
  "ring_dist hp k = (if hp \<le> k then k - hp else ring_len - hp + k)"

definition ring_slot :: "nat \<Rightarrow> nat \<Rightarrow> nat" where
  "ring_slot hp k = (hp + k) mod ring_len"

definition total_credits :: "(nat \<Rightarrow> u8) \<Rightarrow> nat" where
  "total_credits av = (\<Sum>k<ring_len. unat (av k))"

lemma ring_len_eq: "ring_len = 2097152"
  by (simp add: NR_CREDIT_ENTRIES_def)

lemma ring_slot_less [simp]: "ring_slot hp k < ring_len"
  by (simp add: ring_slot_def ring_len_eq)

lemma ring_dist_slot: "hp < ring_len \<Longrightarrow> k < ring_len \<Longrightarrow> ring_dist hp (ring_slot hp k) = k"
  by (cases "hp + k < ring_len") (auto simp: ring_dist_def ring_slot_def le_mod_geq not_less)

lemma ring_slot_dist: "hp < ring_len \<Longrightarrow> k < ring_len \<Longrightarrow> ring_slot hp (ring_dist hp k) = k"
  by (auto simp: ring_dist_def ring_slot_def)

lemma ring_dist_less: "hp < ring_len \<Longrightarrow> k < ring_len \<Longrightarrow> ring_dist hp k < ring_len"
  by (auto simp: ring_dist_def)

lemma ring_dist_next:
  assumes "hp < ring_len" "k < ring_len"
  shows "(k + 1) mod ring_len \<noteq> hp \<Longrightarrow> ring_dist hp ((k + 1) mod ring_len) = ring_dist hp k + 1"
    and "(k + 1) mod ring_len = hp \<Longrightarrow> ring_dist hp k = ring_len - 1"
proof -
  consider "k + 1 = ring_len" "(k + 1) mod ring_len = 0" | "k + 1 < ring_len" "(k + 1) mod ring_len = k + 1"
    using assms by (metis Suc_eq_plus1 Suc_lessI mod_less mod_self)
  then have "((k + 1) mod ring_len \<noteq> hp \<longrightarrow> ring_dist hp ((k + 1) mod ring_len) = ring_dist hp k + 1) \<and>
    ((k + 1) mod ring_len = hp \<longrightarrow> ring_dist hp k = ring_len - 1)"
    using assms by cases (auto simp: ring_dist_def)
  then show "(k + 1) mod ring_len \<noteq> hp \<Longrightarrow> ring_dist hp ((k + 1) mod ring_len) = ring_dist hp k + 1"
    and "(k + 1) mod ring_len = hp \<Longrightarrow> ring_dist hp k = ring_len - 1" by auto
qed

lemma total_credits_upd:
  assumes "p < ring_len"
  shows "total_credits av + unat v = total_credits (av(p := v)) + unat (av p)"
proof -
  have "total_credits f = unat (f p) + (\<Sum>k \<in> {..<ring_len} - {p}. unat (f k))" for f
    using assms by (simp add: total_credits_def sum.remove[of _ p])
  from this[of av] this[of "av(p := v)"] show ?thesis by simp
qed

text \<open>
  What the loop does: it always ends, takes credits only from the slots it walks over, and takes
  exactly the number it reports; credits are missing only after the whole ring was walked.
\<close>

lemma credit_loop_post:
  assumes "hp < ring_len" "pos < ring_len"
  shows "\<exists>av' pos' r' d'. credit_loop hp av pos r d = Some (av', pos', r', d') \<and> pos' < ring_len \<and>
    ring_dist hp pos' = ring_dist hp pos + (d' - d) \<and> d \<le> d' \<and> r' \<le> r \<and>
    total_credits av = total_credits av' + (r - r') \<and>
    (\<forall>k. unat (av' k) \<le> unat (av k)) \<and>
    (\<forall>k. k < ring_len \<longrightarrow> ring_dist hp pos' < ring_dist hp k \<longrightarrow> av' k = av k) \<and>
    (r' \<noteq> 0 \<longrightarrow> ring_dist hp pos' = ring_len - 1)"
  using assms
proof (induction hp av pos r d rule: credit_loop.induct)
  case (1 hp av pos r d)
  let ?c = "if r \<le> unat (av pos) then r else unat (av pos)"
  let ?av = "av(pos := av pos - of_nat ?c)" and ?next = "(pos + 1) mod ring_len"
  have c: "unat (av pos - of_nat ?c) = unat (av pos) - ?c" "?c \<le> r" "?c \<le> unat (av pos)"
    by (auto intro: unat_sub_of_nat)
  have tot: "total_credits av = total_credits ?av + ?c"
    using total_credits_upd[OF \<open>pos < ring_len\<close>, of av "av pos - of_nat ?c"] c by simp
  have le: "\<forall>k. unat (?av k) \<le> unat (av k)"
    using c(1) by (metis fun_upd_apply diff_le_self order_refl)
  show ?case
  proof (cases "r - ?c \<noteq> 0 \<and> ?next \<noteq> hp")
    case True
    have run: "credit_loop hp av pos r d = credit_loop hp ?av ?next (r - ?c) (d + 1)"
      using True 1(2,3) by (simp only: credit_loop.simps[of hp av pos r d] Let_def) simp
    have nx: "?next < ring_len" by (simp add: ring_len_eq)
    obtain av' pos' r' d' where ih: "credit_loop hp ?av ?next (r - ?c) (d + 1) = Some (av', pos', r', d')"
      "pos' < ring_len" "ring_dist hp pos' = ring_dist hp ?next + (d' - (d + 1))" "d + 1 \<le> d'"
      "r' \<le> r - ?c" "total_credits ?av = total_credits av' + (r - ?c - r')"
      "\<forall>k. unat (av' k) \<le> unat (?av k)"
      "\<forall>k. k < ring_len \<longrightarrow> ring_dist hp pos' < ring_dist hp k \<longrightarrow> av' k = ?av k"
      "r' \<noteq> 0 \<longrightarrow> ring_dist hp pos' = ring_len - 1"
      using 1(1)[OF _ refl refl refl refl _ _ 1(2) nx] True 1(2,3) by blast
    have "ring_dist hp ?next = ring_dist hp pos + 1"
      using ring_dist_next(1)[OF 1(2,3)] True by blast
    moreover from this have "\<forall>k. k < ring_len \<longrightarrow> ring_dist hp pos' < ring_dist hp k \<longrightarrow> av' k = av k"
      using ih(3,8) by (metis fun_upd_other le_add1 less_irrefl not_add_less1 less_add_one order.strict_trans1 less_trans)
    ultimately show ?thesis
      unfolding run ih(1) using ih tot le c(2) by (auto intro: order_trans)
  next
    case False
    then have run: "credit_loop hp av pos r d = Some (?av, pos, r - ?c, d)"
      using 1(2,3) by (simp only: credit_loop.simps[of hp av pos r d] Let_def) auto
    have "ring_dist hp pos = ring_len - 1" if "r - ?c \<noteq> 0"
      using ring_dist_next(2)[OF 1(2,3)] False that by blast
    then show ?thesis
      unfolding run using 1 tot le c(2) by auto
  qed
qed

subsection \<open>The invariant of a channel\<close>

text \<open>
  Slots at a distance of \<open>valid_len\<close> or more from the head are full: nothing was transferred in
  them yet. No slot ever holds more than the credits of one interval, and these fit a byte.
\<close>

definition chm_inv :: "channel_model \<Rightarrow> bool" where
  "chm_inv ch \<longleftrightarrow> unat (head ch) < ring_len \<and> unat (valid_len ch) \<le> ring_len \<and>
     0 < unat (max_credits ch) \<and> unat (max_credits ch) < 256 \<and>
     (\<forall>k. k < ring_len \<longrightarrow> unat (avail_credits ch k) \<le> unat (max_credits ch)) \<and>
     (\<forall>k. k < ring_len \<longrightarrow> unat (valid_len ch) \<le> ring_dist (unat (head ch)) k \<longrightarrow>
        avail_credits ch k = ucast (max_credits ch))"

lemma unat_ucast_credit: "unat (m :: u32) < 256 \<Longrightarrow> unat (ucast m :: u8) = unat m"
  by (simp add: unsigned_ucast_eq take_bit_nat_eq_self)

lemma refresh_post:
  assumes "unat hp < ring_len" "unat offs \<le> ring_len"
  shows "\<exists>av'. (if hp + offs \<ge> NR_CREDIT_ENTRIES then do {
       av \<leftarrow> chm_memset av (unat hp) m (unat (NR_CREDIT_ENTRIES - hp));
       chm_memset av 0 m (unat (offs - (NR_CREDIT_ENTRIES - hp)))
     } else chm_memset av (unat hp) m (unat offs)) = Some av' \<and>
     (\<forall>k. k < ring_len \<longrightarrow> av' k = (if ring_dist (unat hp) k < unat offs then ucast m else av k))"
proof -
  have add: "unat (hp + offs) = unat hp + unat offs"
    using assms by (intro unat_add_less) (simp add: ring_len_eq)
  have nh: "unat (NR_CREDIT_ENTRIES - hp) = ring_len - unat hp"
    using assms by (intro unat_sub_le) (simp add: word_le_nat_alt)
  show ?thesis
  proof (cases "hp + offs \<ge> NR_CREDIT_ENTRIES")
    case True
    then have le: "ring_len - unat hp \<le> unat offs" using add by (simp add: word_le_nat_alt)
    then have "unat (offs - (NR_CREDIT_ENTRIES - hp)) = unat offs - (ring_len - unat hp)"
      using nh by (subst unat_sub_le) (auto simp: word_le_nat_alt)
    then show ?thesis
      using True assms le by (auto simp: chm_memset_def nh ring_dist_def)
  next
    case False
    then have "unat hp + unat offs < ring_len" using add by (simp add: word_le_nat_alt not_le)
    then show ?thesis
      using False assms by (auto simp: chm_memset_def ring_dist_def)
  qed
qed

text \<open>Moving the head by \<open>offs\<close> slots shortens every distance by \<open>offs\<close>, modulo the ring.\<close>

lemma ring_dist_shift:
  assumes "hp < ring_len" "k < ring_len" "offs \<le> ring_len"
  shows "offs \<le> ring_dist hp k \<Longrightarrow> ring_dist ((hp + offs) mod ring_len) k = ring_dist hp k - offs"
proof -
  assume le: "offs \<le> ring_dist hp k"
  consider "hp + offs < ring_len" "(hp + offs) mod ring_len = hp + offs"
    | "ring_len \<le> hp + offs" "(hp + offs) mod ring_len = hp + offs - ring_len"
    using assms by (cases "hp + offs < ring_len") (auto simp: le_mod_geq not_less)
  then show ?thesis using assms le by cases (auto simp: ring_dist_def split: if_splits)
qed

text \<open>The first part of a request: the head moves to the current time.\<close>

definition chm_advanced :: "channel_model \<Rightarrow> u64 \<Rightarrow> u32 \<Rightarrow> (nat \<Rightarrow> u8) \<Rightarrow> channel_model" where
  "chm_advanced ch now offs av = ch\<lparr>avail_credits := av, head := (head ch + offs) mod NR_CREDIT_ENTRIES,
     cur_time := now, valid_len := valid_len ch - offs\<rparr>"

lemma chm_advanced_inv:
  assumes inv: "chm_inv ch" and offs: "offs \<le> valid_len ch"
    and av: "\<forall>k. k < ring_len \<longrightarrow> av k = (if ring_dist (unat (head ch)) k < unat offs
      then ucast (max_credits ch) else avail_credits ch k)"
  shows "chm_inv (chm_advanced ch now offs av)"
proof -
  note i = inv[unfolded chm_inv_def]
  have o: "unat offs \<le> unat (valid_len ch)" using offs by (simp add: word_le_nat_alt)
  have hd: "unat ((head ch + offs) mod NR_CREDIT_ENTRIES) = (unat (head ch) + unat offs) mod ring_len"
    using i o by (simp add: unat_mod_distrib unat_add_less ring_len_eq)
  have vl: "unat (valid_len ch - offs) = unat (valid_len ch) - unat offs"
    using offs by (rule unat_sub_le)
  have vl2: "unat (valid_len ch) - unat offs \<le> ring_len"
    using i by linarith
  have full: "av k = ucast (max_credits ch)"
    if "k < ring_len" "unat (valid_len ch) - unat offs \<le> ring_dist ((unat (head ch) + unat offs) mod ring_len) k" for k
    using that i o av ring_dist_shift[of "unat (head ch)" k "unat offs"]
    by (cases "ring_dist (unat (head ch)) k < unat offs") auto
  have le: "unat (av k) \<le> unat (max_credits ch)" if "k < ring_len" for k
    using that i av by (simp add: unat_ucast_credit)
  show ?thesis
    unfolding chm_inv_def chm_advanced_def
    using i full le vl2 by (simp add: hd vl)
qed

text \<open>The last part: the credits are taken and the valid part of the ring grows to the last slot.\<close>

lemma valid_length_dist:
  assumes "unat hp < ring_len" "lst < ring_len"
  shows "unat (if of_nat lst \<ge> hp then of_nat lst - hp + 1
                else NR_CREDIT_ENTRIES - (hp - of_nat lst - 1)) = ring_dist (unat hp) lst + 1"
proof -
  have l: "unat (of_nat lst :: u32) = lst"
    using assms by (intro unat_of_nat_less) (simp add: ring_len_eq)
  show ?thesis
  proof (cases "of_nat lst \<ge> hp")
    case True
    then have "unat hp \<le> lst" using l by (simp add: word_le_nat_alt)
    moreover have s: "unat (of_nat lst - hp) = lst - unat hp"
      using True l by (simp add: unat_sub_le)
    moreover have "unat (of_nat lst - hp + 1) = unat (of_nat lst - hp) + 1"
      using assms s by (subst unat_add_less) (auto simp: ring_len_eq)
    ultimately show ?thesis using True by (simp add: ring_dist_def)
  next
    case False
    then have less: "lst < unat hp" using l by (simp add: word_le_nat_alt not_le)
    have s: "unat (hp - of_nat lst) = unat hp - lst"
      using False l by (simp add: unat_sub_le)
    have s1: "unat (hp - of_nat lst - 1) = unat hp - lst - 1"
      using s less by (subst unat_sub_le) (auto simp: word_le_nat_alt)
    have "unat (NR_CREDIT_ENTRIES - (hp - of_nat lst - 1)) = ring_len - (unat hp - lst - 1)"
      using s1 assms by (subst unat_sub_le) (auto simp: word_le_nat_alt)
    then show ?thesis using False less assms by (simp add: ring_dist_def)
  qed
qed

lemma chm_consumed_inv:
  assumes inv: "chm_inv ch"
    and run: "credit_loop (unat (head ch)) (avail_credits ch) p r 0 = Some (av, lst, missing, d)"
    and p: "p < ring_len"
    and vl: "vl = (if of_nat lst \<ge> head ch then of_nat lst - head ch + 1
                   else NR_CREDIT_ENTRIES - (head ch - of_nat lst - 1))"
  shows "chm_inv (ch\<lparr>avail_credits := av, valid_len := (if vl > valid_len ch then vl else valid_len ch)\<rparr>)"
proof -
  note i = inv[unfolded chm_inv_def]
  have hd: "unat (head ch) < ring_len" using i by blast
  from credit_loop_post[OF hd p, of "avail_credits ch" r 0] run
  have l: "lst < ring_len" "\<forall>k. unat (av k) \<le> unat (avail_credits ch k)"
    "\<forall>k. k < ring_len \<longrightarrow> ring_dist (unat (head ch)) lst < ring_dist (unat (head ch)) k \<longrightarrow>
      av k = avail_credits ch k"
    by auto
  have v: "unat vl = ring_dist (unat (head ch)) lst + 1"
    unfolding vl by (rule valid_length_dist[OF hd l(1)])
  have "unat vl \<le> ring_len" using ring_dist_less[OF hd l(1)] v by simp
  moreover have "unat (av k) \<le> unat (max_credits ch)" if "k < ring_len" for k
    using l(2) i that by (meson order_trans)
  moreover have "av k = ucast (max_credits ch)"
    if "k < ring_len" "unat vl \<le> ring_dist (unat (head ch)) k"
      "unat (valid_len ch) \<le> ring_dist (unat (head ch)) k" for k
    using l(3) i that v by simp
  ultimately show ?thesis
    unfolding chm_inv_def using i by (auto simp: word_less_nat_alt)
qed

subsection \<open>What a request does\<close>

text \<open>
  A request never leaves the ring, keeps the invariant, and answers the request time plus a
  latency (0 for a time in the past, or one too far ahead for the ring).
\<close>

lemma chmodel_request_inv:
  assumes "chm_inv ch"
  shows "\<exists>lat ch'. chmodel_request ch now t len = Some (t + lat, ch') \<and> chm_inv ch' \<and> cur_time ch' = now \<and>
    max_credits ch' = max_credits ch \<and> command_credits ch' = command_credits ch \<and> xfer_lat ch' = xfer_lat ch"
proof -
  define offs :: u32 where "offs = ucast (now div UNIT_TIME_INTERVAL - cur_time ch div UNIT_TIME_INTERVAL)"
  define o' where "o' = (if offs < valid_len ch then offs else valid_len ch)"
  note i = assms[unfolded chm_inv_def]
  have o': "o' \<le> valid_len ch" by (auto simp: o'_def)
  then have "unat o' \<le> ring_len" using i by (meson word_le_nat_alt order_trans)
  with refresh_post[of "head ch" o' "avail_credits ch" "max_credits ch"] i
  obtain av where av: "(if head ch + o' \<ge> NR_CREDIT_ENTRIES then do {
       av \<leftarrow> chm_memset (avail_credits ch) (unat (head ch)) (max_credits ch) (unat (NR_CREDIT_ENTRIES - head ch));
       chm_memset av 0 (max_credits ch) (unat (o' - (NR_CREDIT_ENTRIES - head ch)))
     } else chm_memset (avail_credits ch) (unat (head ch)) (max_credits ch) (unat o')) = Some av"
    "\<forall>k. k < ring_len \<longrightarrow> av k = (if ring_dist (unat (head ch)) k < unat o'
      then ucast (max_credits ch) else avail_credits ch k)"
    by blast
  let ?ch = "chm_advanced ch now o' av"
  have inv: "chm_inv ?ch" by (rule chm_advanced_inv[OF assms o' av(2)])
  note j = inv[unfolded chm_inv_def]
  have vl: "valid_len ?ch \<le> NR_CREDIT_ENTRIES" using j by (simp add: word_le_nat_alt)
  have mc: "max_credits ?ch \<noteq> 0" using j by auto
  have keep: "max_credits ?ch = max_credits ch" "command_credits ?ch = command_credits ch"
    "xfer_lat ?ch = xfer_lat ch" "cur_time ?ch = now"
    by (simp_all add: chm_advanced_def)
  define roffs :: u32 where "roffs = ucast (t div UNIT_TIME_INTERVAL - now div UNIT_TIME_INTERVAL)"
  define units :: u32 where "units = ucast (DIV_ROUND_UP64 len UNIT_XFER_SIZE)"
  define pos where "pos = (head ?ch + roffs) mod NR_CREDIT_ENTRIES"
  have pos: "unat pos < ring_len" by (simp add: pos_def unat_mod_distrib ring_len_eq)
  obtain av2 lst missing d where run: "credit_loop (unat (head ?ch)) (avail_credits ?ch) (unat pos)
      (unat (units * 1 + command_credits ?ch)) 0 = Some (av2, lst, missing, d)"
    using credit_loop_post[OF _ pos] j by blast
  note fin = chm_consumed_inv[OF inv run pos refl]
  have zero: "t = t + 0" by simp
  show ?thesis
    unfolding chmodel_request_def Let_def offs_def[symmetric] o'_def[symmetric] av(1)
      units_def[symmetric] roffs_def[symmetric] bind.bind_lunit chm_advanced_def[symmetric]
    using inv vl mc keep run fin zero
    by (auto simp: pos_def[symmetric] simp del: split_paired_Ex)
qed

end
