(* ===== verification/Ssd_Params.thy ===== *)
theory Ssd_Params
  imports Nvmev_Prelude
begin

text \<open>
  The build-time configurations of \<^verbatim>\<open>ssd_config.h\<close> and the geometry that
  \<^verbatim>\<open>ssd_init_params\<close> of \<^verbatim>\<open>ssd.c\<close> computes from them. The sizes are naturals: the bounds
  proved at the end show that every quantity the code keeps in an \<^verbatim>\<open>int\<close> stays below
  \<open>2\<^sup>3\<^sup>1\<close> for the capacities considered, so that nothing wraps.
\<close>

definition KB :: "nat \<Rightarrow> nat" where "KB k = k * 2 ^ 10"
definition MB :: "nat \<Rightarrow> nat" where "MB m = m * 2 ^ 20"
definition GB :: "nat \<Rightarrow> nat" where "GB g = g * 2 ^ 30"

definition LBA_SIZE :: nat where "LBA_SIZE = 2 ^ 9"

datatype ssd_type = SSD_TYPE_NVM | SSD_TYPE_CONV | SSD_TYPE_ZNS | SSD_TYPE_KV

datatype cell_mode = CELL_MODE_UNKNOWN | CELL_MODE_SLC | CELL_MODE_MLC | CELL_MODE_TLC | CELL_MODE_QLC

fun cell_mode_nat :: "cell_mode \<Rightarrow> nat" where
  "cell_mode_nat CELL_MODE_UNKNOWN = 0"
| "cell_mode_nat CELL_MODE_SLC = 1"
| "cell_mode_nat CELL_MODE_MLC = 2"
| "cell_mode_nat CELL_MODE_TLC = 3"
| "cell_mode_nat CELL_MODE_QLC = 4"

text \<open>The macros of one branch of \<^verbatim>\<open>#if (BASE_SSD == ...)\<close>. Latencies are in nanoseconds.\<close>

record ssd_config =
  NS_SSD_TYPE_0 :: ssd_type
  MDTS :: nat
  CELL_MODE :: cell_mode
  SSD_PARTITIONS :: nat
  NAND_CHANNELS :: nat
  LUNS_PER_NAND_CH :: nat
  PLNS_PER_LUN :: nat
  DIES_PER_ZONE :: nat
  FLASH_PAGE_SIZE :: nat
  ONESHOT_PAGE_SIZE :: nat
  BLKS_PER_PLN :: nat
  BLK_SIZE :: nat
  ZONE_SIZE :: nat
  MAX_CH_XFER_SIZE :: nat
  WRITE_UNIT_SIZE :: nat
  NAND_CHANNEL_BANDWIDTH :: nat
  PCIE_BANDWIDTH :: nat
  NAND_4KB_READ_LATENCY_LSB :: nat
  NAND_4KB_READ_LATENCY_MSB :: nat
  NAND_4KB_READ_LATENCY_CSB :: nat
  NAND_READ_LATENCY_LSB :: nat
  NAND_READ_LATENCY_MSB :: nat
  NAND_READ_LATENCY_CSB :: nat
  NAND_PROG_LATENCY :: nat
  NAND_ERASE_LATENCY :: nat
  FW_4KB_READ_LATENCY :: nat
  FW_READ_LATENCY :: nat
  FW_WBUF_LATENCY0 :: nat
  FW_WBUF_LATENCY1 :: nat
  FW_CH_XFER_LATENCY :: nat
  OP_AREA_PERCENT :: nat
  ZONE_WB_SIZE :: nat
  GLOBAL_WB_SIZE :: nat
  WRITE_EARLY_COMPLETION :: bool
  MAX_ZRWA_ZONES :: nat
  ZRWAFG_SIZE :: nat
  ZRWA_SIZE :: nat
  ZRWA_BUFFER_SIZE :: nat

text \<open>
  The three configurations with a NAND model. The over-provisioned area is in percent. A macro
  that a branch does not define has the value 0 here and no code of that branch reads it.
\<close>

definition samsung_970pro :: ssd_config where
  "samsung_970pro = \<lparr>NS_SSD_TYPE_0 = SSD_TYPE_CONV, MDTS = 6, CELL_MODE = CELL_MODE_TLC,
     SSD_PARTITIONS = 1, NAND_CHANNELS = 8, LUNS_PER_NAND_CH = 2, PLNS_PER_LUN = 1, DIES_PER_ZONE = 0,
     FLASH_PAGE_SIZE = KB 16, ONESHOT_PAGE_SIZE = KB 16 * 3, BLKS_PER_PLN = 32, BLK_SIZE = 0, ZONE_SIZE = 0,
     MAX_CH_XFER_SIZE = KB 16, WRITE_UNIT_SIZE = 512,
     NAND_CHANNEL_BANDWIDTH = 800, PCIE_BANDWIDTH = 3360,
     NAND_4KB_READ_LATENCY_LSB = 45000, NAND_4KB_READ_LATENCY_MSB = 45000, NAND_4KB_READ_LATENCY_CSB = 45000,
     NAND_READ_LATENCY_LSB = 45000, NAND_READ_LATENCY_MSB = 45000, NAND_READ_LATENCY_CSB = 45000,
     NAND_PROG_LATENCY = 1140000, NAND_ERASE_LATENCY = 3500000,
     FW_4KB_READ_LATENCY = 21500, FW_READ_LATENCY = 30490, FW_WBUF_LATENCY0 = 4000, FW_WBUF_LATENCY1 = 460,
     FW_CH_XFER_LATENCY = 0, OP_AREA_PERCENT = 7, ZONE_WB_SIZE = 0,
     GLOBAL_WB_SIZE = 8 * 2 * (KB 16 * 3) * 2, WRITE_EARLY_COMPLETION = True,
     MAX_ZRWA_ZONES = 0, ZRWAFG_SIZE = 0, ZRWA_SIZE = 0, ZRWA_BUFFER_SIZE = 0\<rparr>"

definition zns_prototype :: ssd_config where
  "zns_prototype = \<lparr>NS_SSD_TYPE_0 = SSD_TYPE_ZNS, MDTS = 6, CELL_MODE = CELL_MODE_TLC,
     SSD_PARTITIONS = 1, NAND_CHANNELS = 8, LUNS_PER_NAND_CH = 16, PLNS_PER_LUN = 1, DIES_PER_ZONE = 1,
     FLASH_PAGE_SIZE = KB 64, ONESHOT_PAGE_SIZE = KB 64 * 2, BLKS_PER_PLN = 0, BLK_SIZE = MB 32 div 1,
     ZONE_SIZE = MB 32, MAX_CH_XFER_SIZE = KB 64, WRITE_UNIT_SIZE = KB 64 * 2,
     NAND_CHANNEL_BANDWIDTH = 800, PCIE_BANDWIDTH = 3200,
     NAND_4KB_READ_LATENCY_LSB = 25485, NAND_4KB_READ_LATENCY_MSB = 25485, NAND_4KB_READ_LATENCY_CSB = 25485,
     NAND_READ_LATENCY_LSB = 40950, NAND_READ_LATENCY_MSB = 40950, NAND_READ_LATENCY_CSB = 40950,
     NAND_PROG_LATENCY = 1913640, NAND_ERASE_LATENCY = 0,
     FW_4KB_READ_LATENCY = 37540 - 7390 + 2000, FW_READ_LATENCY = 37540 - 7390 + 2000,
     FW_WBUF_LATENCY0 = 0, FW_WBUF_LATENCY1 = 0, FW_CH_XFER_LATENCY = 413, OP_AREA_PERCENT = 0,
     ZONE_WB_SIZE = 0, GLOBAL_WB_SIZE = 8 * 16 * (KB 64 * 2) * 2, WRITE_EARLY_COMPLETION = False,
     MAX_ZRWA_ZONES = 0, ZRWAFG_SIZE = 0, ZRWA_SIZE = 0, ZRWA_BUFFER_SIZE = 0\<rparr>"

definition wd_zn540 :: ssd_config where
  "wd_zn540 = \<lparr>NS_SSD_TYPE_0 = SSD_TYPE_ZNS, MDTS = 6, CELL_MODE = CELL_MODE_TLC,
     SSD_PARTITIONS = 1, NAND_CHANNELS = 8, LUNS_PER_NAND_CH = 4, PLNS_PER_LUN = 1, DIES_PER_ZONE = 8 * 4,
     FLASH_PAGE_SIZE = KB 32, ONESHOT_PAGE_SIZE = KB 32 * 3, BLKS_PER_PLN = 0, BLK_SIZE = GB 2 div (8 * 4),
     ZONE_SIZE = GB 2, MAX_CH_XFER_SIZE = KB 32, WRITE_UNIT_SIZE = 512,
     NAND_CHANNEL_BANDWIDTH = 450, PCIE_BANDWIDTH = 3050,
     NAND_4KB_READ_LATENCY_LSB = 50000, NAND_4KB_READ_LATENCY_MSB = 50000, NAND_4KB_READ_LATENCY_CSB = 50000,
     NAND_READ_LATENCY_LSB = 58000, NAND_READ_LATENCY_MSB = 58000, NAND_READ_LATENCY_CSB = 58000,
     NAND_PROG_LATENCY = 561000, NAND_ERASE_LATENCY = 0,
     FW_4KB_READ_LATENCY = 20000, FW_READ_LATENCY = 13000, FW_WBUF_LATENCY0 = 5600, FW_WBUF_LATENCY1 = 600,
     FW_CH_XFER_LATENCY = 0, OP_AREA_PERCENT = 0, ZONE_WB_SIZE = 10 * (KB 32 * 3), GLOBAL_WB_SIZE = 0,
     WRITE_EARLY_COMPLETION = True, MAX_ZRWA_ZONES = 0, ZRWAFG_SIZE = 0, ZRWA_SIZE = 0, ZRWA_BUFFER_SIZE = 0\<rparr>"

subsection \<open>The geometry\<close>

record ssdparams =
  secsz :: nat
  secs_per_pg :: nat
  pgsz :: nat
  pgs_per_flashpg :: nat
  flashpgs_per_blk :: nat
  pgs_per_oneshotpg :: nat
  oneshotpgs_per_blk :: nat
  pgs_per_blk :: nat
  blks_per_pl :: nat
  pls_per_lun :: nat
  luns_per_ch :: nat
  nchs :: nat
  cell_mode :: nat
  write_unit_size :: nat
  write_early_completion :: bool
  pg_4kb_rd_lat :: "nat list"
  pg_rd_lat :: "nat list"
  pg_wr_lat :: nat
  blk_er_lat :: nat
  max_ch_xfer_size :: nat
  fw_4kb_rd_lat :: nat
  fw_rd_lat :: nat
  fw_wbuf_lat0 :: nat
  fw_wbuf_lat1 :: nat
  fw_ch_xfer_lat :: nat
  ch_bandwidth :: nat
  pcie_bandwidth :: nat
  secs_per_blk :: nat
  secs_per_pl :: nat
  secs_per_lun :: nat
  secs_per_ch :: nat
  tt_secs :: nat
  pgs_per_pl :: nat
  pgs_per_lun :: nat
  pgs_per_ch :: nat
  tt_pgs :: nat
  blks_per_lun :: nat
  blks_per_ch :: nat
  tt_blks :: nat
  secs_per_line :: nat
  pgs_per_line :: nat
  blks_per_line :: nat
  tt_lines :: nat
  pls_per_ch :: nat
  tt_pls :: nat
  tt_luns :: nat
  write_buffer_size :: nat

text \<open>Divisions trap on a zero divisor.\<close>

definition ckdiv :: "nat \<Rightarrow> nat \<Rightarrow> nat option" where
  "ckdiv n d = (if d = 0 then None else Some (n div d))"

definition ckmod :: "nat \<Rightarrow> nat \<Rightarrow> nat option" where
  "ckmod n d = (if d = 0 then None else Some (n mod d))"

definition DIV_ROUND_UP :: "nat \<Rightarrow> nat \<Rightarrow> nat option" where
  "DIV_ROUND_UP n d = ckdiv (n + d - 1) d"

text \<open>The assignments of \<^verbatim>\<open>ssd_init_params\<close> that follow the choice of the block size.\<close>

definition ssd_fill_params :: "ssd_config \<Rightarrow> nat \<Rightarrow> nat \<Rightarrow> nat \<Rightarrow> nat \<Rightarrow> nat \<Rightarrow> nat \<Rightarrow> ssdparams" where
  "ssd_fill_params cfg chs blks oneshot_pgs oneshots flash_pgs flashes =
    (let nchs = chs; blks_per_pl = blks; pgs_per_oneshotpg = oneshot_pgs; oneshotpgs_per_blk = oneshots;
         pgs_per_flashpg = flash_pgs; flashpgs_per_blk = flashes;
         secsz = LBA_SIZE;
         secs_per_pg = 4096 div LBA_SIZE;
         pgsz = secsz * secs_per_pg;
         pls_per_lun = PLNS_PER_LUN cfg;
         luns_per_ch = LUNS_PER_NAND_CH cfg;
         pgs_per_blk = pgs_per_oneshotpg * oneshotpgs_per_blk;
         secs_per_blk = secs_per_pg * pgs_per_blk;
         secs_per_pl = secs_per_blk * blks_per_pl;
         secs_per_lun = secs_per_pl * pls_per_lun;
         secs_per_ch = secs_per_lun * luns_per_ch;
         pgs_per_pl = pgs_per_blk * blks_per_pl;
         pgs_per_lun = pgs_per_pl * pls_per_lun;
         pgs_per_ch = pgs_per_lun * luns_per_ch;
         blks_per_lun = blks_per_pl * pls_per_lun;
         blks_per_ch = blks_per_lun * luns_per_ch;
         pls_per_ch = pls_per_lun * luns_per_ch;
         tt_luns = luns_per_ch * nchs;
         blks_per_line = tt_luns;
         pgs_per_line = blks_per_line * pgs_per_blk;
         secs_per_line = pgs_per_line * secs_per_pg
     in \<lparr>secsz = secsz, secs_per_pg = secs_per_pg, pgsz = pgsz, pgs_per_flashpg = pgs_per_flashpg,
       flashpgs_per_blk = flashpgs_per_blk, pgs_per_oneshotpg = pgs_per_oneshotpg,
       oneshotpgs_per_blk = oneshotpgs_per_blk, pgs_per_blk = pgs_per_blk, blks_per_pl = blks_per_pl,
       pls_per_lun = pls_per_lun, luns_per_ch = luns_per_ch, nchs = nchs,
       cell_mode = cell_mode_nat (CELL_MODE cfg), write_unit_size = WRITE_UNIT_SIZE cfg,
       write_early_completion = WRITE_EARLY_COMPLETION cfg,
       pg_4kb_rd_lat = [NAND_4KB_READ_LATENCY_LSB cfg, NAND_4KB_READ_LATENCY_MSB cfg, NAND_4KB_READ_LATENCY_CSB cfg],
       pg_rd_lat = [NAND_READ_LATENCY_LSB cfg, NAND_READ_LATENCY_MSB cfg, NAND_READ_LATENCY_CSB cfg],
       pg_wr_lat = NAND_PROG_LATENCY cfg, blk_er_lat = NAND_ERASE_LATENCY cfg,
       max_ch_xfer_size = MAX_CH_XFER_SIZE cfg, fw_4kb_rd_lat = FW_4KB_READ_LATENCY cfg,
       fw_rd_lat = FW_READ_LATENCY cfg, fw_wbuf_lat0 = FW_WBUF_LATENCY0 cfg, fw_wbuf_lat1 = FW_WBUF_LATENCY1 cfg,
       fw_ch_xfer_lat = FW_CH_XFER_LATENCY cfg, ch_bandwidth = NAND_CHANNEL_BANDWIDTH cfg,
       pcie_bandwidth = PCIE_BANDWIDTH cfg, secs_per_blk = secs_per_blk, secs_per_pl = secs_per_pl,
       secs_per_lun = secs_per_lun, secs_per_ch = secs_per_ch, tt_secs = secs_per_ch * nchs,
       pgs_per_pl = pgs_per_pl, pgs_per_lun = pgs_per_lun, pgs_per_ch = pgs_per_ch, tt_pgs = pgs_per_ch * nchs,
       blks_per_lun = blks_per_lun, blks_per_ch = blks_per_ch, tt_blks = blks_per_ch * nchs,
       secs_per_line = secs_per_line, pgs_per_line = pgs_per_line, blks_per_line = blks_per_line,
       tt_lines = blks_per_lun, pls_per_ch = pls_per_ch, tt_pls = pls_per_ch * nchs, tt_luns = tt_luns,
       write_buffer_size = GLOBAL_WB_SIZE cfg\<rparr>)"

definition ssd_init_params :: "ssd_config \<Rightarrow> nat \<Rightarrow> nat \<Rightarrow> ssdparams option" where
  "ssd_init_params cfg capacity nparts = do {
     let secsz = LBA_SIZE;
     let secs_per_pg = 4096 div LBA_SIZE;
     let pgsz = secsz * secs_per_pg;
     let nchs = NAND_CHANNELS cfg;
     let pls_per_lun = PLNS_PER_LUN cfg;
     let luns_per_ch = LUNS_PER_NAND_CH cfg;
     nv_assert (nparts \<noteq> 0 \<and> nchs mod nparts = 0);
     let nchs = nchs div nparts;
     let capacity = capacity div nparts;
     (blks_per_pl, blk_size) \<leftarrow>
       (if BLKS_PER_PLN cfg > 0 then do {
          let blks_per_pl = BLKS_PER_PLN cfg;
          blk_size \<leftarrow> DIV_ROUND_UP capacity (blks_per_pl * pls_per_lun * luns_per_ch * nchs);
          Some (blks_per_pl, blk_size)
        } else do {
          nv_assert (BLK_SIZE cfg > 0);
          let blk_size = BLK_SIZE cfg;
          blks_per_pl \<leftarrow> DIV_ROUND_UP capacity (blk_size * pls_per_lun * luns_per_ch * nchs);
          Some (blks_per_pl, blk_size)
        });
     nv_assert (ONESHOT_PAGE_SIZE cfg mod pgsz = 0 \<and> FLASH_PAGE_SIZE cfg mod pgsz = 0);
     nv_assert (ONESHOT_PAGE_SIZE cfg mod FLASH_PAGE_SIZE cfg = 0);
     let pgs_per_oneshotpg = ONESHOT_PAGE_SIZE cfg div pgsz;
     oneshotpgs_per_blk \<leftarrow> DIV_ROUND_UP blk_size (ONESHOT_PAGE_SIZE cfg);
     let pgs_per_flashpg = FLASH_PAGE_SIZE cfg div pgsz;
     flashpgs_per_oneshotpg \<leftarrow> ckdiv (ONESHOT_PAGE_SIZE cfg) (FLASH_PAGE_SIZE cfg);
     let flashpgs_per_blk = flashpgs_per_oneshotpg * oneshotpgs_per_blk;
     Some (ssd_fill_params cfg nchs blks_per_pl pgs_per_oneshotpg oneshotpgs_per_blk pgs_per_flashpg
       flashpgs_per_blk)
   }"

subsection \<open>What the geometry satisfies\<close>

text \<open>The relations between the fields that the rest of the code relies on.\<close>

definition geometry :: "ssdparams \<Rightarrow> bool" where
  "geometry sp \<longleftrightarrow>
     pgs_per_blk sp = pgs_per_oneshotpg sp * oneshotpgs_per_blk sp \<and>
     pgs_per_blk sp = pgs_per_flashpg sp * flashpgs_per_blk sp \<and>
     pgs_per_flashpg sp dvd pgs_per_oneshotpg sp \<and>
     pgs_per_pl sp = blks_per_pl sp * pgs_per_blk sp \<and>
     pgs_per_lun sp = pls_per_lun sp * pgs_per_pl sp \<and>
     pgs_per_ch sp = luns_per_ch sp * pgs_per_lun sp \<and>
     tt_pgs sp = nchs sp * pgs_per_ch sp \<and>
     blks_per_lun sp = pls_per_lun sp * blks_per_pl sp \<and>
     tt_luns sp = luns_per_ch sp * nchs sp \<and>
     blks_per_line sp = tt_luns sp \<and> tt_lines sp = blks_per_lun sp \<and>
     pgs_per_line sp = blks_per_line sp * pgs_per_blk sp \<and>
     tt_pgs sp = tt_lines sp * pgs_per_line sp \<and>
     tt_blks sp = tt_lines sp * blks_per_line sp \<and>
     tt_secs sp = tt_pgs sp * secs_per_pg sp \<and>
     pgsz sp = secsz sp * secs_per_pg sp \<and> secs_per_pg sp = 8 \<and> pgsz sp = 4096"

lemma ckdiv_Some_iff: "ckdiv n d = Some x \<longleftrightarrow> d \<noteq> 0 \<and> x = n div d"
  by (auto simp: ckdiv_def)

lemma div_round_up_ge:
  assumes "0 < (d::nat)"
  shows "n \<le> (n + d - 1) div d * d"
proof -
  have "n + d - 1 < (n + d - 1) div d * d + d"
    using assms by (metis add.commute mult.commute mod_less_divisor mult_div_mod_eq nat_add_left_cancel_less)
  then show ?thesis by simp
qed

lemma DIV_ROUND_UP_Some:
  assumes "DIV_ROUND_UP n d = Some x"
  shows "0 < d" "n \<le> x * d" "x = (n + d - 1) div d"
  using assms div_round_up_ge[of d n] by (auto simp: DIV_ROUND_UP_def ckdiv_Some_iff)

lemma ssd_fill_params_sel:
  assumes "sp = ssd_fill_params cfg n b ko os kf f"
  shows "nchs sp = n" "blks_per_pl sp = b" "pgs_per_oneshotpg sp = ko" "oneshotpgs_per_blk sp = os"
    "pgs_per_flashpg sp = kf" "flashpgs_per_blk sp = f" "luns_per_ch sp = LUNS_PER_NAND_CH cfg"
    "pls_per_lun sp = PLNS_PER_LUN cfg" "cell_mode sp = cell_mode_nat (CELL_MODE cfg)"
    "secsz sp = LBA_SIZE" "secs_per_pg sp = 4096 div LBA_SIZE" "pgsz sp = secsz sp * secs_per_pg sp"
    "pgs_per_blk sp = pgs_per_oneshotpg sp * oneshotpgs_per_blk sp"
    "tt_secs sp = secs_per_pg sp * pgs_per_blk sp * blks_per_pl sp * pls_per_lun sp * luns_per_ch sp * nchs sp"
    "pgs_per_pl sp = pgs_per_blk sp * blks_per_pl sp" "pgs_per_lun sp = pgs_per_pl sp * pls_per_lun sp"
    "pgs_per_ch sp = pgs_per_lun sp * luns_per_ch sp" "tt_pgs sp = pgs_per_ch sp * nchs sp"
    "blks_per_lun sp = blks_per_pl sp * pls_per_lun sp" "blks_per_ch sp = blks_per_lun sp * luns_per_ch sp"
    "tt_blks sp = blks_per_ch sp * nchs sp" "tt_luns sp = luns_per_ch sp * nchs sp"
    "blks_per_line sp = tt_luns sp" "pgs_per_line sp = blks_per_line sp * pgs_per_blk sp"
    "tt_lines sp = blks_per_lun sp"
  unfolding assms ssd_fill_params_def Let_def by simp_all

text \<open>A successful initialisation gives a consistent geometry at least as large as the capacity.\<close>

lemma ssd_init_params_fields:
  assumes "ssd_init_params cfg cap np = Some sp"
  shows "\<exists>bs f. 0 < np \<and> 0 < FLASH_PAGE_SIZE cfg \<and> 0 < ONESHOT_PAGE_SIZE cfg \<and>
     (BLKS_PER_PLN cfg > 0 \<and> blks_per_pl sp = BLKS_PER_PLN cfg \<and>
        DIV_ROUND_UP (cap div np) (blks_per_pl sp * pls_per_lun sp * luns_per_ch sp * nchs sp) = Some bs \<or>
      BLKS_PER_PLN cfg = 0 \<and> bs = BLK_SIZE cfg \<and> 0 < bs \<and>
        DIV_ROUND_UP (cap div np) (bs * pls_per_lun sp * luns_per_ch sp * nchs sp) = Some (blks_per_pl sp)) \<and>
     ONESHOT_PAGE_SIZE cfg = 4096 * pgs_per_oneshotpg sp \<and> FLASH_PAGE_SIZE cfg = 4096 * pgs_per_flashpg sp \<and>
     FLASH_PAGE_SIZE cfg dvd ONESHOT_PAGE_SIZE cfg \<and>
     DIV_ROUND_UP bs (ONESHOT_PAGE_SIZE cfg) = Some (oneshotpgs_per_blk sp) \<and>
     f = ONESHOT_PAGE_SIZE cfg div FLASH_PAGE_SIZE cfg * oneshotpgs_per_blk sp \<and>
     sp = ssd_fill_params cfg (NAND_CHANNELS cfg div np) (blks_per_pl sp) (pgs_per_oneshotpg sp)
       (oneshotpgs_per_blk sp) (pgs_per_flashpg sp) f"
  using assms
  by (auto simp: ssd_init_params_def Let_def nv_assert_Some_iff ckdiv_Some_iff LBA_SIZE_def mod_eq_0_iff_dvd
      DIV_ROUND_UP_Some(1) ssd_fill_params_sel[OF refl] split: bind_splits if_splits prod.splits)

lemma ssd_init_params_geometry:
  assumes "ssd_init_params cfg cap np = Some sp"
  shows "geometry sp"
proof -
  from ssd_init_params_fields[OF assms] obtain f where f: "0 < FLASH_PAGE_SIZE cfg"
    "ONESHOT_PAGE_SIZE cfg = 4096 * pgs_per_oneshotpg sp" "FLASH_PAGE_SIZE cfg = 4096 * pgs_per_flashpg sp"
    "FLASH_PAGE_SIZE cfg dvd ONESHOT_PAGE_SIZE cfg"
    "f = ONESHOT_PAGE_SIZE cfg div FLASH_PAGE_SIZE cfg * oneshotpgs_per_blk sp"
    and sp: "sp = ssd_fill_params cfg (NAND_CHANNELS cfg div np) (blks_per_pl sp) (pgs_per_oneshotpg sp)
       (oneshotpgs_per_blk sp) (pgs_per_flashpg sp) f" by auto
  note e = ssd_fill_params_sel[OF sp]
  have dvd: "pgs_per_flashpg sp dvd pgs_per_oneshotpg sp" using f by simp
  then have fl: "pgs_per_flashpg sp * flashpgs_per_blk sp = pgs_per_oneshotpg sp * oneshotpgs_per_blk sp"
    using f e(6) by (simp add: mult.assoc[symmetric])
  have l: "secs_per_pg sp = 8" "secsz sp = 512" using e(10,11) by (simp_all add: LBA_SIZE_def)
  show ?thesis
    unfolding geometry_def e(12-) fl l using dvd by (simp add: ac_simps)
qed

lemma ssd_init_params_capacity:
  assumes "ssd_init_params cfg cap np = Some sp"
  shows "cap div np \<le> tt_secs sp * secsz sp"
proof -
  obtain bs f' where f: "BLKS_PER_PLN cfg > 0 \<and> blks_per_pl sp = BLKS_PER_PLN cfg \<and>
        DIV_ROUND_UP (cap div np) (blks_per_pl sp * pls_per_lun sp * luns_per_ch sp * nchs sp) = Some bs \<or>
      BLKS_PER_PLN cfg = 0 \<and> bs = BLK_SIZE cfg \<and> 0 < bs \<and>
        DIV_ROUND_UP (cap div np) (bs * pls_per_lun sp * luns_per_ch sp * nchs sp) = Some (blks_per_pl sp)"
    and o: "ONESHOT_PAGE_SIZE cfg = 4096 * pgs_per_oneshotpg sp"
    "DIV_ROUND_UP bs (ONESHOT_PAGE_SIZE cfg) = Some (oneshotpgs_per_blk sp)"
    and sp: "sp = ssd_fill_params cfg (NAND_CHANNELS cfg div np) (blks_per_pl sp) (pgs_per_oneshotpg sp)
       (oneshotpgs_per_blk sp) (pgs_per_flashpg sp) f'"
    using ssd_init_params_fields[OF assms] by blast
  note e = ssd_fill_params_sel[OF sp]
  have bs: "bs \<le> pgs_per_blk sp * 4096"
    using DIV_ROUND_UP_Some(2)[OF o(2)] unfolding o(1) e(13) by (simp add: ac_simps)
  have "cap div np \<le> bs * (blks_per_pl sp * pls_per_lun sp * luns_per_ch sp * nchs sp)"
    using f by (elim disjE conjE) (drule DIV_ROUND_UP_Some(2), simp add: ac_simps)+
  also have "\<dots> \<le> pgs_per_blk sp * 4096 * (blks_per_pl sp * pls_per_lun sp * luns_per_ch sp * nchs sp)"
    by (rule mult_le_mono1[OF bs])
  also have "\<dots> = tt_secs sp * secsz sp"
    unfolding e(14,10,11) by (simp add: LBA_SIZE_def ac_simps)
  finally show ?thesis .
qed

text \<open>For the default configuration the \<^verbatim>\<open>int\<close> fields fit 31 bits up to a capacity of 8 TiB.\<close>

lemma samsung_params:
  assumes "cap \<le> 2 ^ 43"
  shows "\<exists>sp. ssd_init_params samsung_970pro cap 1 = Some sp \<and> nchs sp = 8 \<and> luns_per_ch sp = 2 \<and>
    pls_per_lun sp = 1 \<and> blks_per_pl sp = 32 \<and> pgs_per_flashpg sp = 4 \<and> pgs_per_oneshotpg sp = 12 \<and>
    tt_lines sp = 32 \<and> cell_mode sp = 3 \<and> pgs_per_blk sp < 2 ^ 23 \<and> secs_per_pg sp * pgs_per_blk sp < 2 ^ 31 \<and>
    tt_secs sp < 2 ^ 63 \<and> oneshotpgs_per_blk sp = ((cap + 511) div 512 + 49151) div 49152"
proof -
  let ?n = "((cap + 511) div 512 + 49151) div 49152"
  let ?sp = "ssd_fill_params samsung_970pro 8 32 12 ?n 4 (3 * ?n)"
  have "(cap + 511) div 512 \<le> 2 ^ 34" using assms by simp
  then have n: "?n \<le> 349527" by simp
  have "ssd_init_params samsung_970pro cap 1 = Some ?sp"
    by (simp add: ssd_init_params_def samsung_970pro_def KB_def LBA_SIZE_def Let_def DIV_ROUND_UP_def ckdiv_def
        algebra_simps)
  then show ?thesis
    using n by (intro exI[of _ ?sp])
      (simp add: ssd_fill_params_sel[OF refl] samsung_970pro_def LBA_SIZE_def)
qed

end
