(* ===== verification/Ssd_Nand.thy ===== *)
theory Ssd_Nand
  imports Channel_Model Ssd_Params
begin

unbundle bit_operations_syntax

text \<open>
  The simulated NAND of \<^verbatim>\<open>ssd.h\<close> and \<^verbatim>\<open>ssd.c\<close>: physical page addresses, the nested arrays of
  channels, LUNs, planes, blocks and pages, the write buffer, and the operations that advance
  the simulated time. Times are 64-bit words. The clock of the dispatcher CPU is not under the
  program's control: the state holds the readings \<open>ssd_clock\<close> that are still to come, and a call
  of \<^verbatim>\<open>cpu_clock\<close> takes the first of them.
\<close>

subsection \<open>Physical page addresses\<close>

record ppa =
  ppa_pg :: u16
  ppa_blk :: u16
  ppa_pl :: u8
  ppa_lun :: u8
  ppa_ch :: u8
  ppa_rsv :: u8

text \<open>The union of \<^verbatim>\<open>struct ppa\<close>: the 64-bit word and the bit fields, least significant first.\<close>

definition ppa_word :: "ppa \<Rightarrow> u64" where
  "ppa_word p = ucast (ppa_pg p) OR push_bit 16 (ucast (ppa_blk p)) OR push_bit 32 (ucast (ppa_pl p)) OR
     push_bit 40 (ucast (ppa_lun p)) OR push_bit 48 (ucast (ppa_ch p)) OR push_bit 56 (ucast (ppa_rsv p))"

definition word_ppa :: "u64 \<Rightarrow> ppa" where
  "word_ppa w = \<lparr>ppa_pg = ucast w, ppa_blk = ucast (drop_bit 16 w), ppa_pl = ucast (drop_bit 32 w),
     ppa_lun = ucast (drop_bit 40 w), ppa_ch = ucast (drop_bit 48 w), ppa_rsv = ucast (drop_bit 56 w)\<rparr>"

definition UNMAPPED_PPA :: u64 where "UNMAPPED_PPA = - 1"
definition INVALID_LPN :: u64 where "INVALID_LPN = - 1"

subsection \<open>The arrays\<close>

datatype pg_status = PG_FREE | PG_INVALID | PG_VALID
datatype sec_status = SEC_FREE | SEC_INVALID | SEC_VALID
datatype nand_op = NAND_READ | NAND_WRITE | NAND_ERASE | NAND_NOP | NAND_UNSUPPORTED
datatype io_type = USER_IO | GC_IO

record nand_page =
  pg_sec :: "sec_status list"
  nsecs :: nat
  status :: pg_status

record nand_block =
  blk_pg :: "nand_page list"
  npgs :: nat
  ipc :: nat
  vpc :: nat
  erase_cnt :: nat
  blk_wp :: nat

record nand_plane =
  pl_blk :: "nand_block list"
  next_pln_avail_time :: u64
  nblks :: nat

record nand_lun =
  lun_pl :: "nand_plane list"
  npls :: nat
  next_lun_avail_time :: u64
  busy :: bool
  lun_gc_endtime :: u64

record ssd_channel =
  ch_lun :: "nand_lun list"
  nluns :: nat
  ch_gc_endtime :: u64
  perf_model :: channel_model

record buffer =
  buf_size :: u64
  remaining :: u64

record nand_cmd =
  nc_type :: io_type
  nc_cmd :: nand_op
  xfer_size :: u64
  stime :: u64
  interleave_pci_dma :: bool
  nc_ppa :: ppa

record ssd =
  sp :: ssdparams
  ssd_ch :: "ssd_channel list"
  pcie :: channel_model
  write_buffer :: buffer
  ssd_clock :: "nat \<Rightarrow> u64"

subsection \<open>Access\<close>

definition get_ch :: "ssd \<Rightarrow> ppa \<Rightarrow> ssd_channel option" where
  "get_ch ssd p = aget (ssd_ch ssd) (unat (ppa_ch p))"

definition get_lun :: "ssd \<Rightarrow> ppa \<Rightarrow> nand_lun option" where
  "get_lun ssd p = do { ch \<leftarrow> get_ch ssd p; aget (ch_lun ch) (unat (ppa_lun p)) }"

definition get_pl :: "ssd \<Rightarrow> ppa \<Rightarrow> nand_plane option" where
  "get_pl ssd p = do { lun \<leftarrow> get_lun ssd p; aget (lun_pl lun) (unat (ppa_pl p)) }"

definition get_blk :: "ssd \<Rightarrow> ppa \<Rightarrow> nand_block option" where
  "get_blk ssd p = do { pl \<leftarrow> get_pl ssd p; aget (pl_blk pl) (unat (ppa_blk p)) }"

definition get_pg :: "ssd \<Rightarrow> ppa \<Rightarrow> nand_page option" where
  "get_pg ssd p = do { blk \<leftarrow> get_blk ssd p; aget (blk_pg blk) (unat (ppa_pg p)) }"

definition get_cell :: "ssd \<Rightarrow> ppa \<Rightarrow> nat option" where
  "get_cell ssd p = do {
     flashpg \<leftarrow> ckdiv (unat (ppa_pg p)) (pgs_per_flashpg (sp ssd));
     nv_assert (cell_mode (sp ssd) \<noteq> 0);
     Some (flashpg mod cell_mode (sp ssd))
   }"

text \<open>A write through one of these pointers.\<close>

definition upd_ch :: "ssd \<Rightarrow> ppa \<Rightarrow> (ssd_channel \<Rightarrow> ssd_channel option) \<Rightarrow> ssd option" where
  "upd_ch ssd p f = do { chs \<leftarrow> amod (ssd_ch ssd) (unat (ppa_ch p)) f; Some (ssd\<lparr>ssd_ch := chs\<rparr>) }"

definition upd_lun :: "ssd \<Rightarrow> ppa \<Rightarrow> (nand_lun \<Rightarrow> nand_lun option) \<Rightarrow> ssd option" where
  "upd_lun ssd p f = upd_ch ssd p (\<lambda>ch.
     do { luns \<leftarrow> amod (ch_lun ch) (unat (ppa_lun p)) f; Some (ch\<lparr>ch_lun := luns\<rparr>) })"

definition upd_pl :: "ssd \<Rightarrow> ppa \<Rightarrow> (nand_plane \<Rightarrow> nand_plane option) \<Rightarrow> ssd option" where
  "upd_pl ssd p f = upd_lun ssd p (\<lambda>lun.
     do { pls \<leftarrow> amod (lun_pl lun) (unat (ppa_pl p)) f; Some (lun\<lparr>lun_pl := pls\<rparr>) })"

definition upd_blk :: "ssd \<Rightarrow> ppa \<Rightarrow> (nand_block \<Rightarrow> nand_block option) \<Rightarrow> ssd option" where
  "upd_blk ssd p f = upd_pl ssd p (\<lambda>pl.
     do { blks \<leftarrow> amod (pl_blk pl) (unat (ppa_blk p)) f; Some (pl\<lparr>pl_blk := blks\<rparr>) })"

definition upd_pg :: "ssd \<Rightarrow> ppa \<Rightarrow> (nand_page \<Rightarrow> nand_page option) \<Rightarrow> ssd option" where
  "upd_pg ssd p f = upd_blk ssd p (\<lambda>blk.
     do { pgs \<leftarrow> amod (blk_pg blk) (unat (ppa_pg p)) f; Some (blk\<lparr>blk_pg := pgs\<rparr>) })"

subsection \<open>Initialisation\<close>

text \<open>\<open>junk\<close> is the content of the fields that the code leaves as \<^verbatim>\<open>kmalloc\<close> returned them.\<close>

definition ssd_init_nand_page :: "ssdparams \<Rightarrow> nand_page" where
  "ssd_init_nand_page spp = \<lparr>pg_sec = replicate (secs_per_pg spp) SEC_FREE, nsecs = secs_per_pg spp, status = PG_FREE\<rparr>"

definition ssd_init_nand_blk :: "ssdparams \<Rightarrow> nand_block" where
  "ssd_init_nand_blk spp = \<lparr>blk_pg = replicate (pgs_per_blk spp) (ssd_init_nand_page spp), npgs = pgs_per_blk spp,
     ipc = 0, vpc = 0, erase_cnt = 0, blk_wp = 0\<rparr>"

definition ssd_init_nand_plane :: "u64 \<Rightarrow> ssdparams \<Rightarrow> nand_plane" where
  "ssd_init_nand_plane junk spp = \<lparr>pl_blk = replicate (blks_per_pl spp) (ssd_init_nand_blk spp),
     next_pln_avail_time = junk, nblks = blks_per_pl spp\<rparr>"

definition ssd_init_nand_lun :: "u64 \<Rightarrow> ssdparams \<Rightarrow> nand_lun" where
  "ssd_init_nand_lun junk spp = \<lparr>lun_pl = replicate (pls_per_lun spp) (ssd_init_nand_plane junk spp),
     npls = pls_per_lun spp, next_lun_avail_time = 0, busy = False, lun_gc_endtime = junk\<rparr>"

definition ssd_init_ch :: "u64 \<Rightarrow> (nat \<Rightarrow> u8) \<Rightarrow> ssdparams \<Rightarrow> ssd_channel option" where
  "ssd_init_ch junk mem spp = do {
     model \<leftarrow> chmodel_init mem (of_nat (ch_bandwidth spp));
     let model = model\<lparr>xfer_lat := xfer_lat model + of_nat (fw_ch_xfer_lat spp * unat UNIT_XFER_SIZE div KB 4)\<rparr>;
     Some \<lparr>ch_lun = replicate (luns_per_ch spp) (ssd_init_nand_lun junk spp), nluns = luns_per_ch spp,
       ch_gc_endtime = junk, perf_model = model\<rparr>
   }"

definition ssd_init_pcie :: "(nat \<Rightarrow> u8) \<Rightarrow> ssdparams \<Rightarrow> channel_model option" where
  "ssd_init_pcie mem spp = chmodel_init mem (of_nat (pcie_bandwidth spp))"

definition buffer_init :: "u64 \<Rightarrow> buffer" where
  "buffer_init sz = \<lparr>buf_size = sz, remaining = sz\<rparr>"

definition ssd_init :: "u64 \<Rightarrow> (nat \<Rightarrow> u8) \<Rightarrow> (nat \<Rightarrow> u64) \<Rightarrow> ssdparams \<Rightarrow> ssd option" where
  "ssd_init junk mem clock spp = do {
     ch \<leftarrow> ssd_init_ch junk mem spp;
     pc \<leftarrow> ssd_init_pcie mem spp;
     Some \<lparr>sp = spp, ssd_ch = replicate (nchs spp) ch, pcie = pc,
       write_buffer = buffer_init (of_nat (write_buffer_size spp)), ssd_clock = clock\<rparr>
   }"

subsection \<open>The write buffer\<close>

text \<open>
  The lock makes each operation one step. The result of \<^verbatim>\<open>buffer_allocate\<close> is truncated
  to 32 bits, as its return type is.
\<close>

definition buffer_allocate :: "buffer \<Rightarrow> u64 \<Rightarrow> (u32 \<times> buffer) option" where
  "buffer_allocate buf sz = do {
     nv_assert (sz \<le> buf_size buf);
     let sz = (if remaining buf < sz then 0 else sz);
     Some (ucast sz, buf\<lparr>remaining := remaining buf - sz\<rparr>)
   }"

definition buffer_release :: "buffer \<Rightarrow> u64 \<Rightarrow> buffer" where
  "buffer_release buf sz = buf\<lparr>remaining := remaining buf + sz\<rparr>"

definition buffer_refill :: "buffer \<Rightarrow> buffer" where
  "buffer_refill buf = buf\<lparr>remaining := buf_size buf\<rparr>"

subsection \<open>Advancing the simulated time\<close>

definition get_ioclock :: "ssd \<Rightarrow> u64 \<times> ssd" where
  "get_ioclock ssd = (ssd_clock ssd 0, ssd\<lparr>ssd_clock := (\<lambda>n. ssd_clock ssd (Suc n))\<rparr>)"

text \<open>A request on the model of the channel of \<open>p\<close>, and on the one of the PCIe link.\<close>

definition ch_request :: "ssd \<Rightarrow> ppa \<Rightarrow> u64 \<Rightarrow> u64 \<Rightarrow> (u64 \<times> ssd) option" where
  "ch_request ssd p t len = do {
     let (now, ssd) = get_ioclock ssd;
     ch \<leftarrow> get_ch ssd p;
     (t', model) \<leftarrow> chmodel_request (perf_model ch) now t len;
     ssd \<leftarrow> upd_ch ssd p (\<lambda>ch. Some (ch\<lparr>perf_model := model\<rparr>));
     Some (t', ssd)
   }"

definition ssd_advance_pcie :: "ssd \<Rightarrow> u64 \<Rightarrow> u64 \<Rightarrow> (u64 \<times> ssd) option" where
  "ssd_advance_pcie ssd t len = do {
     let (now, ssd) = get_ioclock ssd;
     (t', model) \<leftarrow> chmodel_request (pcie ssd) now t len;
     Some (t', ssd\<lparr>pcie := model\<rparr>)
   }"

definition ssd_advance_write_buffer :: "ssd \<Rightarrow> u64 \<Rightarrow> u64 \<Rightarrow> (u64 \<times> ssd) option" where
  "ssd_advance_write_buffer ssd t len =
     (let latest = t + of_nat (fw_wbuf_lat0 (sp ssd));
          latest = latest + of_nat (fw_wbuf_lat1 (sp ssd)) * DIV_ROUND_UP64 len (of_nat (KB 4))
      in ssd_advance_pcie ssd latest len)"

text \<open>
  The transfer loop of a read: pieces of at most \<^verbatim>\<open>max_ch_xfer_size\<close> bytes go through the
  channel and, when the two are interleaved, each through PCIe. A read of 0 bytes would use an
  uninitialised end time, and a piece of 0 bytes would never end: both are \<open>None\<close>.
\<close>

function nand_read_xfer :: "ssd \<Rightarrow> ppa \<Rightarrow> bool \<Rightarrow> u64 \<Rightarrow> u64 \<Rightarrow> (u64 \<times> u64 \<times> ssd) option" where
  "nand_read_xfer ssd p interleave rest chnl_stime =
     (let xfer_size = min rest (of_nat (max_ch_xfer_size (sp ssd))) in
      if xfer_size = 0 then None
      else do {
        (chnl_etime, ssd) \<leftarrow> ch_request ssd p chnl_stime xfer_size;
        (completed_time, ssd) \<leftarrow>
          (if interleave then ssd_advance_pcie ssd chnl_etime xfer_size else Some (chnl_etime, ssd));
        if rest - xfer_size \<noteq> 0
        then nand_read_xfer ssd p interleave (rest - xfer_size) chnl_etime
        else Some (chnl_etime, completed_time, ssd)
      })"
  by pat_completeness auto
termination
proof (relation "measure (\<lambda>(s, p, i, r, t). unat r)", goal_cases)
  case (2 ssd p i r t x y a b c d)
  then have "0 < unat x" "unat x \<le> unat r" by (auto simp: unat_gt_0 min_def word_le_nat_alt)
  then show ?case by (simp add: unat_sub_le word_le_nat_alt)
qed simp

declare nand_read_xfer.simps [simp del]

definition max64 :: "u64 \<Rightarrow> u64 \<Rightarrow> u64" where "max64 a b = (if b < a then a else b)"

definition set_lun_avail :: "ssd \<Rightarrow> ppa \<Rightarrow> u64 \<Rightarrow> ssd option" where
  "set_lun_avail ssd p t = upd_lun ssd p (\<lambda>lun. Some (lun\<lparr>next_lun_avail_time := t\<rparr>))"

definition ssd_advance_nand :: "ssd \<Rightarrow> nand_cmd \<Rightarrow> (u64 \<times> ssd) option" where
  "ssd_advance_nand ssd ncmd = do {
     let (cmd_stime, ssd) = (if stime ncmd = 0 then get_ioclock ssd else (stime ncmd, ssd));
     let p = nc_ppa ncmd;
     if ppa_word p = UNMAPPED_PPA then Some (cmd_stime, ssd)
     else do {
       lun \<leftarrow> get_lun ssd p;
       cell \<leftarrow> get_cell ssd p;
       let nand_stime = max64 (next_lun_avail_time lun) cmd_stime;
       case nc_cmd ncmd of
         NAND_READ \<Rightarrow> do {
           lat \<leftarrow> aget (if xfer_size ncmd = 4096 then pg_4kb_rd_lat (sp ssd) else pg_rd_lat (sp ssd)) cell;
           (chnl_etime, completed_time, ssd) \<leftarrow>
             nand_read_xfer ssd p (interleave_pci_dma ncmd) (xfer_size ncmd) (nand_stime + of_nat lat);
           ssd \<leftarrow> set_lun_avail ssd p chnl_etime;
           Some (completed_time, ssd)
         }
       | NAND_WRITE \<Rightarrow> do {
           (chnl_etime, ssd) \<leftarrow> ch_request ssd p nand_stime (xfer_size ncmd);
           let nand_etime = chnl_etime + of_nat (pg_wr_lat (sp ssd));
           ssd \<leftarrow> set_lun_avail ssd p nand_etime;
           Some (nand_etime, ssd)
         }
       | NAND_ERASE \<Rightarrow> do {
           let nand_etime = nand_stime + of_nat (blk_er_lat (sp ssd));
           ssd \<leftarrow> set_lun_avail ssd p nand_etime;
           Some (nand_etime, ssd)
         }
       | NAND_NOP \<Rightarrow> do {
           ssd \<leftarrow> set_lun_avail ssd p nand_stime;
           Some (nand_stime, ssd)
         }
       | NAND_UNSUPPORTED \<Rightarrow> Some (0, ssd)
     }
   }"

definition ssd_next_idle_time :: "ssd \<Rightarrow> (u64 \<times> ssd) option" where
  "ssd_next_idle_time ssd = do {
     let (latest, ssd) = get_ioclock ssd;
     latest \<leftarrow> opt_fold (\<lambda>latest i. do {
       ch \<leftarrow> aget (ssd_ch ssd) i;
       opt_fold (\<lambda>latest j. do {
         lun \<leftarrow> aget (ch_lun ch) j;
         Some (max64 latest (next_lun_avail_time lun))
       }) latest [0..<luns_per_ch (sp ssd)]
     }) latest [0..<nchs (sp ssd)];
     Some (latest, ssd)
   }"

subsection \<open>Reading and writing through pointers\<close>

text \<open>
  Each level of the arrays is a family of cells indexed by addresses: \<open>same p q\<close> says that the
  two addresses name one cell. A write succeeds exactly when the cell exists and its new content
  does, and changes that cell only.
\<close>

locale cells =
  fixes get :: "'s \<Rightarrow> ppa \<Rightarrow> 'a option"
    and upd :: "'s \<Rightarrow> ppa \<Rightarrow> ('a \<Rightarrow> 'a option) \<Rightarrow> 's option"
    and same :: "ppa \<Rightarrow> ppa \<Rightarrow> bool"
  assumes upd_total: "get s p = Some x \<Longrightarrow> f x = Some y \<Longrightarrow> \<exists>s'. upd s p f = Some s'"
    and upd_same: "upd s p f = Some s' \<Longrightarrow> same p q \<Longrightarrow> \<exists>x y. get s p = Some x \<and> get s q = Some x \<and>
      f x = Some y \<and> get s' q = Some y"
    and upd_other: "upd s p f = Some s' \<Longrightarrow> \<not> same p q \<Longrightarrow> get s' q = get s q"
    and same_refl: "same p p"
begin

lemma upd_SomeE:
  assumes "upd s p f = Some s'"
  obtains x y where "get s p = Some x" "f x = Some y" "get s' p = Some y"
  using upd_same[OF assms same_refl] by blast

lemma upd_get: "upd s p f = Some s' \<Longrightarrow> get s p = Some x \<Longrightarrow> f x = Some y \<Longrightarrow>
    get s' q = (if same p q then Some y else get s q)"
  using upd_same upd_other by (metis option.inject)

end

text \<open>An array in a field of each cell is again a family of cells.\<close>

locale nested_cells = cells get upd same
  for get :: "'s \<Rightarrow> ppa \<Rightarrow> 'a option" and upd and same +
  fixes fld :: "'a \<Rightarrow> 'b list" and set_fld :: "'b list \<Rightarrow> 'a \<Rightarrow> 'a" and idx :: "ppa \<Rightarrow> nat"
  assumes fld_set: "fld (set_fld xs c) = xs"
begin

lemma inner_cells:
  "cells (\<lambda>s p. get s p \<bind> (\<lambda>c. aget (fld c) (idx p)))
     (\<lambda>s p f. upd s p (\<lambda>c. amod (fld c) (idx p) f \<bind> (\<lambda>xs. Some (set_fld xs c))))
     (\<lambda>p q. same p q \<and> idx p = idx q)"
proof (unfold_locales, goal_cases)
  case (1 s p x f y)
  then obtain c where c: "get s p = Some c" "idx p < length (fld c)" "fld c ! idx p = x"
    by (auto simp: bind_Some_iff aget_Some_iff)
  with 1 have "amod (fld c) (idx p) f = Some ((fld c)[idx p := y])"
    by (auto simp: amod_Some_iff)
  with upd_total[OF c(1)] show ?case by simp
next
  case (2 s p f s' q)
  with upd_same[OF 2(1), of q] show ?case
    by (auto simp: bind_Some_iff amod_Some_iff fld_set)
next
  case (3 s p f s' q)
  show ?case
  proof (cases "same p q")
    case True
    with upd_same[OF 3(1), of q] 3(2) show ?thesis
      by (auto simp: bind_Some_iff amod_Some_iff fld_set aget_def)
  next
    case False
    with upd_other[OF 3(1)] show ?thesis by simp
  qed
qed (simp add: same_refl)

end

definition same_ch :: "ppa \<Rightarrow> ppa \<Rightarrow> bool" where
  "same_ch p q \<longleftrightarrow> unat (ppa_ch p) = unat (ppa_ch q)"

definition same_lun :: "ppa \<Rightarrow> ppa \<Rightarrow> bool" where
  "same_lun p q \<longleftrightarrow> same_ch p q \<and> unat (ppa_lun p) = unat (ppa_lun q)"

definition same_pl :: "ppa \<Rightarrow> ppa \<Rightarrow> bool" where
  "same_pl p q \<longleftrightarrow> same_lun p q \<and> unat (ppa_pl p) = unat (ppa_pl q)"

definition same_blk :: "ppa \<Rightarrow> ppa \<Rightarrow> bool" where
  "same_blk p q \<longleftrightarrow> same_pl p q \<and> unat (ppa_blk p) = unat (ppa_blk q)"

definition same_pg :: "ppa \<Rightarrow> ppa \<Rightarrow> bool" where
  "same_pg p q \<longleftrightarrow> same_blk p q \<and> unat (ppa_pg p) = unat (ppa_pg q)"

interpretation chs: cells get_ch upd_ch same_ch
proof (unfold_locales, goal_cases)
  case (1 s p x f y)
  then have "amod (ssd_ch s) (unat (ppa_ch p)) f = Some ((ssd_ch s)[unat (ppa_ch p) := y])"
    by (auto simp: get_ch_def amod_Some_iff aget_Some_iff)
  then show ?case by (simp add: upd_ch_def)
qed (auto simp: get_ch_def upd_ch_def same_ch_def bind_Some_iff amod_Some_iff aget_def)

interpretation chs_lun: nested_cells get_ch upd_ch same_ch ch_lun "\<lambda>x c. c\<lparr>ch_lun := x\<rparr>" "\<lambda>p. unat (ppa_lun p)"
  by unfold_locales simp

interpretation luns: cells get_lun upd_lun same_lun
  using chs_lun.inner_cells unfolding get_lun_def[abs_def] upd_lun_def[abs_def] same_lun_def[abs_def] by simp

interpretation luns_pl: nested_cells get_lun upd_lun same_lun lun_pl "\<lambda>x c. c\<lparr>lun_pl := x\<rparr>" "\<lambda>p. unat (ppa_pl p)"
  by unfold_locales simp

interpretation pls: cells get_pl upd_pl same_pl
  using luns_pl.inner_cells unfolding get_pl_def[abs_def] upd_pl_def[abs_def] same_pl_def[abs_def] by simp

interpretation pls_blk: nested_cells get_pl upd_pl same_pl pl_blk "\<lambda>x c. c\<lparr>pl_blk := x\<rparr>" "\<lambda>p. unat (ppa_blk p)"
  by unfold_locales simp

interpretation blks: cells get_blk upd_blk same_blk
  using pls_blk.inner_cells unfolding get_blk_def[abs_def] upd_blk_def[abs_def] same_blk_def[abs_def] by simp

interpretation blks_pg: nested_cells get_blk upd_blk same_blk blk_pg "\<lambda>x c. c\<lparr>blk_pg := x\<rparr>" "\<lambda>p. unat (ppa_pg p)"
  by unfold_locales simp

interpretation pgs: cells get_pg upd_pg same_pg
  using blks_pg.inner_cells unfolding get_pg_def[abs_def] upd_pg_def[abs_def] same_pg_def[abs_def] by simp

text \<open>Writes leave the parameters, the link, the buffer and the clock alone.\<close>

definition same_rest :: "ssd \<Rightarrow> ssd \<Rightarrow> bool" where
  "same_rest s s' \<longleftrightarrow> sp s' = sp s \<and> pcie s' = pcie s \<and> write_buffer s' = write_buffer s \<and>
     ssd_clock s' = ssd_clock s"

lemma upd_ch_rest: "upd_ch s p f = Some s' \<Longrightarrow> same_rest s s'"
  by (auto simp: upd_ch_def bind_Some_iff same_rest_def)

lemma upd_lun_rest: "upd_lun s p f = Some s' \<Longrightarrow> same_rest s s'"
  by (auto simp: upd_lun_def intro: upd_ch_rest)

lemma upd_blk_rest: "upd_blk s p f = Some s' \<Longrightarrow> same_rest s s'"
  by (auto simp: upd_blk_def upd_pl_def intro: upd_lun_rest)

lemma upd_pg_rest: "upd_pg s p f = Some s' \<Longrightarrow> same_rest s s'"
  by (auto simp: upd_pg_def intro: upd_blk_rest)

subsection \<open>The two readings of an address\<close>

lemma ppa_bit_cases:
  fixes n :: nat
  obtains "n < 16" | "16 \<le> n" "n < 32" | "32 \<le> n" "n < 40" | "40 \<le> n" "n < 48"
    | "48 \<le> n" "n < 56" | "56 \<le> n"
  by linarith

lemma bit_ppa_word:
  assumes "n < 64"
  shows "bit (ppa_word p) n \<longleftrightarrow>
    (if n < 16 then bit (ppa_pg p) n else if n < 32 then bit (ppa_blk p) (n - 16)
     else if n < 40 then bit (ppa_pl p) (n - 32) else if n < 48 then bit (ppa_lun p) (n - 40)
     else if n < 56 then bit (ppa_ch p) (n - 48) else bit (ppa_rsv p) (n - 56))"
proof -
  have b16: "\<not> bit x k" if "16 \<le> k" for x :: u16 and k
    using that bit_imp_le_length[of x k] by auto
  have b8: "\<not> bit x k" if "8 \<le> k" for x :: u8 and k
    using that bit_imp_le_length[of x k] by auto
  show ?thesis
    using assms by (cases n rule: ppa_bit_cases)
      (auto simp add: ppa_word_def bit_or_iff bit_push_bit_iff bit_ucast_iff b16 b8)
qed

lemma word_ppa_word: "word_ppa (ppa_word p) = p"
proof -
  have "ucast (drop_bit k (ppa_word p)) = f" if "\<And>n. n < LENGTH('a) \<Longrightarrow> bit (ppa_word p) (k + n) = bit f n"
    for k and f :: "'a::len word"
    using that by (intro bit_word_eqI) (simp add: bit_ucast_iff bit_drop_bit_eq)
  note fld = this
  have "word_ppa (ppa_word p) = \<lparr>ppa_pg = ppa_pg p, ppa_blk = ppa_blk p, ppa_pl = ppa_pl p,
      ppa_lun = ppa_lun p, ppa_ch = ppa_ch p, ppa_rsv = ppa_rsv p\<rparr>"
    unfolding word_ppa_def
    using fld[of 0 "ppa_pg p"] fld[of 16 "ppa_blk p"] fld[of 32 "ppa_pl p"] fld[of 40 "ppa_lun p"]
      fld[of 48 "ppa_ch p"] fld[of 56 "ppa_rsv p"]
    by (simp add: bit_ppa_word)
  then show ?thesis by simp
qed

lemma ppa_word_ppa: "ppa_word (word_ppa w) = w"
proof (rule bit_word_eqI)
  fix n assume "n < LENGTH(64)"
  then have "n < 64" by simp
  then show "bit (ppa_word (word_ppa w)) n = bit w n"
    by (cases n rule: ppa_bit_cases)
      (auto simp add: bit_ppa_word word_ppa_def bit_ucast_iff bit_drop_bit_eq)
qed

lemma ppa_word_inject: "ppa_word p = ppa_word q \<longleftrightarrow> p = q"
  by (metis word_ppa_word)

subsection \<open>The shape of the device\<close>

definition blk_shape :: "ssdparams \<Rightarrow> nand_block \<Rightarrow> bool" where
  "blk_shape spp b \<longleftrightarrow> length (blk_pg b) = pgs_per_blk spp \<and> npgs b = pgs_per_blk spp \<and>
     (\<forall>pg \<in> set (blk_pg b). nsecs pg = secs_per_pg spp)"

definition pl_shape :: "ssdparams \<Rightarrow> nand_plane \<Rightarrow> bool" where
  "pl_shape spp pl \<longleftrightarrow> length (pl_blk pl) = blks_per_pl spp \<and> (\<forall>b \<in> set (pl_blk pl). blk_shape spp b)"

definition lun_shape :: "ssdparams \<Rightarrow> nand_lun \<Rightarrow> bool" where
  "lun_shape spp lun \<longleftrightarrow> length (lun_pl lun) = pls_per_lun spp \<and> (\<forall>pl \<in> set (lun_pl lun). pl_shape spp pl)"

definition ch_shape :: "ssdparams \<Rightarrow> ssd_channel \<Rightarrow> bool" where
  "ch_shape spp ch \<longleftrightarrow> length (ch_lun ch) = luns_per_ch spp \<and> (\<forall>l \<in> set (ch_lun ch). lun_shape spp l) \<and>
     chm_inv (perf_model ch)"

text \<open>\<open>ssd_inv\<close>: every array has its length, and every channel model satisfies its invariant.\<close>

definition ssd_inv :: "ssd \<Rightarrow> bool" where
  "ssd_inv s \<longleftrightarrow> length (ssd_ch s) = nchs (sp s) \<and> (\<forall>ch \<in> set (ssd_ch s). ch_shape (sp s) ch) \<and>
     chm_inv (pcie s)"

definition blk_in_range :: "ssdparams \<Rightarrow> ppa \<Rightarrow> bool" where
  "blk_in_range spp p \<longleftrightarrow> unat (ppa_ch p) < nchs spp \<and> unat (ppa_lun p) < luns_per_ch spp \<and>
     unat (ppa_pl p) < pls_per_lun spp \<and> unat (ppa_blk p) < blks_per_pl spp"

definition pg_in_range :: "ssdparams \<Rightarrow> ppa \<Rightarrow> bool" where
  "pg_in_range spp p \<longleftrightarrow> blk_in_range spp p \<and> unat (ppa_pg p) < pgs_per_blk spp"

lemma get_ch_in:
  assumes "ssd_inv s" "unat (ppa_ch p) < nchs (sp s)"
  shows "\<exists>ch. get_ch s p = Some ch \<and> ch_shape (sp s) ch"
  using assms by (auto simp: ssd_inv_def get_ch_def)

lemma get_lun_in:
  assumes "ssd_inv s" "unat (ppa_ch p) < nchs (sp s)" "unat (ppa_lun p) < luns_per_ch (sp s)"
  shows "\<exists>l. get_lun s p = Some l \<and> lun_shape (sp s) l"
  using get_ch_in[OF assms(1,2)] assms(3) by (auto simp: get_lun_def ch_shape_def)

lemma get_blk_in:
  assumes "ssd_inv s" "blk_in_range (sp s) p"
  shows "\<exists>b. get_blk s p = Some b \<and> blk_shape (sp s) b"
proof -
  from assms(2) obtain l where l: "get_lun s p = Some l" "lun_shape (sp s) l"
    using get_lun_in[OF assms(1)] by (auto simp: blk_in_range_def)
  with assms(2) obtain pl where pl: "get_pl s p = Some pl" "pl_shape (sp s) pl"
    by (auto simp: get_pl_def lun_shape_def blk_in_range_def)
  with assms(2) show ?thesis by (auto simp: get_blk_def pl_shape_def blk_in_range_def)
qed

lemma get_pg_in:
  assumes "ssd_inv s" "pg_in_range (sp s) p"
  shows "\<exists>pg. get_pg s p = Some pg \<and> nsecs pg = secs_per_pg (sp s)"
proof -
  from assms(2) obtain b where "get_blk s p = Some b" "blk_shape (sp s) b"
    using get_blk_in[OF assms(1), of p] by (auto simp: pg_in_range_def)
  then show ?thesis using assms(2) by (simp add: get_pg_def pg_in_range_def blk_shape_def)
qed

lemma get_blk_range:
  assumes "ssd_inv s" "get_blk s p = Some b"
  shows "blk_in_range (sp s) p" "blk_shape (sp s) b"
proof -
  from assms(2) obtain ch l pl where g: "get_ch s p = Some ch" "aget (ch_lun ch) (unat (ppa_lun p)) = Some l"
    "aget (lun_pl l) (unat (ppa_pl p)) = Some pl" "aget (pl_blk pl) (unat (ppa_blk p)) = Some b"
    by (auto simp: get_blk_def get_pl_def get_lun_def bind_Some_iff)
  have ch: "unat (ppa_ch p) < nchs (sp s)" "ch_shape (sp s) ch"
    using g(1) assms(1) by (auto simp: get_ch_def aget_Some_iff ssd_inv_def)
  then have "unat (ppa_lun p) < luns_per_ch (sp s)" "lun_shape (sp s) l"
    using g(2) by (auto simp: aget_Some_iff ch_shape_def)
  moreover from this have "unat (ppa_pl p) < pls_per_lun (sp s)" "pl_shape (sp s) pl"
    using g(3) by (auto simp: aget_Some_iff lun_shape_def)
  moreover from this have "unat (ppa_blk p) < blks_per_pl (sp s)" "blk_shape (sp s) b"
    using g(4) by (auto simp: aget_Some_iff pl_shape_def)
  ultimately show "blk_in_range (sp s) p" "blk_shape (sp s) b"
    using ch by (auto simp: blk_in_range_def)
qed

text \<open>A write that keeps the shape of its cell keeps the invariant.\<close>

lemma upd_ch_inv:
  assumes "upd_ch s p f = Some s'" "ssd_inv s" "\<And>c c'. ch_shape (sp s) c \<Longrightarrow> f c = Some c' \<Longrightarrow> ch_shape (sp s) c'"
  shows "ssd_inv s'"
proof -
  from assms(1) obtain chs where chs: "amod (ssd_ch s) (unat (ppa_ch p)) f = Some chs" "s' = s\<lparr>ssd_ch := chs\<rparr>"
    by (auto simp: upd_ch_def bind_Some_iff)
  have "length chs = length (ssd_ch s) \<and> (\<forall>c \<in> set chs. ch_shape (sp s) c)"
    by (rule amod_all[OF chs(1) assms(3)]) (use assms(2) in \<open>auto simp: ssd_inv_def\<close>)
  with chs(2) assms(2) show ?thesis by (simp add: ssd_inv_def)
qed

lemma upd_lun_inv:
  assumes "upd_lun s p f = Some s'" "ssd_inv s" "\<And>l l'. lun_shape (sp s) l \<Longrightarrow> f l = Some l' \<Longrightarrow> lun_shape (sp s) l'"
  shows "ssd_inv s'"
proof (rule upd_ch_inv[OF assms(1)[unfolded upd_lun_def] assms(2)])
  fix c c' assume c: "ch_shape (sp s) c"
    "amod (ch_lun c) (unat (ppa_lun p)) f \<bind> (\<lambda>luns. Some (c\<lparr>ch_lun := luns\<rparr>)) = Some c'"
  from c(2) obtain ls where ls: "amod (ch_lun c) (unat (ppa_lun p)) f = Some ls" "c' = c\<lparr>ch_lun := ls\<rparr>"
    by (auto simp: bind_Some_iff)
  have "length ls = length (ch_lun c) \<and> (\<forall>l \<in> set ls. lun_shape (sp s) l)"
    by (rule amod_all[OF ls(1) assms(3)]) (use c(1) in \<open>auto simp: ch_shape_def\<close>)
  with ls(2) c(1) show "ch_shape (sp s) c'" by (simp add: ch_shape_def)
qed

lemma upd_blk_inv:
  assumes "upd_blk s p f = Some s'" "ssd_inv s" "\<And>b b'. blk_shape (sp s) b \<Longrightarrow> f b = Some b' \<Longrightarrow> blk_shape (sp s) b'"
  shows "ssd_inv s'"
proof (rule upd_lun_inv[OF assms(1)[unfolded upd_blk_def upd_pl_def] assms(2)])
  let ?g = "\<lambda>pl. amod (pl_blk pl) (unat (ppa_blk p)) f \<bind> (\<lambda>blks. Some (pl\<lparr>pl_blk := blks\<rparr>))"
  fix l l' assume l: "lun_shape (sp s) l"
    "amod (lun_pl l) (unat (ppa_pl p)) ?g \<bind> (\<lambda>pls. Some (l\<lparr>lun_pl := pls\<rparr>)) = Some l'"
  have "pl_shape (sp s) pl'" if "pl_shape (sp s) pl" "?g pl = Some pl'" for pl pl'
  proof -
    from that(2) obtain bs where bs: "amod (pl_blk pl) (unat (ppa_blk p)) f = Some bs" "pl' = pl\<lparr>pl_blk := bs\<rparr>"
      by (auto simp: bind_Some_iff)
    have "length bs = length (pl_blk pl) \<and> (\<forall>b \<in> set bs. blk_shape (sp s) b)"
      by (rule amod_all[OF bs(1) assms(3)]) (use that(1) in \<open>auto simp: pl_shape_def\<close>)
    with bs(2) that(1) show ?thesis by (simp add: pl_shape_def)
  qed
  note g = this
  from l(2) obtain ps where ps: "amod (lun_pl l) (unat (ppa_pl p)) ?g = Some ps" "l' = l\<lparr>lun_pl := ps\<rparr>"
    by (auto simp: bind_Some_iff)
  have "length ps = length (lun_pl l) \<and> (\<forall>pl \<in> set ps. pl_shape (sp s) pl)"
    by (rule amod_all[OF ps(1) g]) (use l(1) in \<open>auto simp: lun_shape_def\<close>)
  with ps(2) l(1) show "lun_shape (sp s) l'" by (simp add: lun_shape_def)
qed

lemma upd_pg_inv:
  assumes "upd_pg s p f = Some s'" "ssd_inv s" "\<And>x y. f x = Some y \<Longrightarrow> nsecs y = nsecs x"
  shows "ssd_inv s'"
proof (rule upd_blk_inv[OF assms(1)[unfolded upd_pg_def] assms(2)])
  fix b b' assume b: "blk_shape (sp s) b"
    "amod (blk_pg b) (unat (ppa_pg p)) f \<bind> (\<lambda>pgs. Some (b\<lparr>blk_pg := pgs\<rparr>)) = Some b'"
  from b(2) obtain ps where ps: "amod (blk_pg b) (unat (ppa_pg p)) f = Some ps" "b' = b\<lparr>blk_pg := ps\<rparr>"
    by (auto simp: bind_Some_iff)
  have "length ps = length (blk_pg b) \<and> (\<forall>pg \<in> set ps. nsecs pg = secs_per_pg (sp s))"
    by (rule amod_all[OF ps(1)]) (use b(1) assms(3) in \<open>auto simp: blk_shape_def\<close>)
  with ps(2) b(1) show "blk_shape (sp s) b'" by (simp add: blk_shape_def)
qed

subsection \<open>Advancing the time leaves the stored data alone\<close>

definition nand_same :: "ssd \<Rightarrow> ssd \<Rightarrow> bool" where
  "nand_same s s' \<longleftrightarrow> get_pl s' = get_pl s \<and> sp s' = sp s \<and> write_buffer s' = write_buffer s"

lemma nand_same_refl: "nand_same s s"
  by (simp add: nand_same_def)

lemma nand_same_trans: "nand_same s s' \<Longrightarrow> nand_same s' s'' \<Longrightarrow> nand_same s s''"
  by (simp add: nand_same_def)

lemma nand_same_blk: "nand_same s s' \<Longrightarrow> get_blk s' = get_blk s"
  by (simp add: nand_same_def get_blk_def fun_eq_iff)

lemma nand_same_pg: "nand_same s s' \<Longrightarrow> get_pg s' = get_pg s"
  by (simp add: nand_same_blk get_pg_def fun_eq_iff)

lemma upd_ch_same:
  assumes "upd_ch s p f = Some s'" "\<And>c c'. f c = Some c' \<Longrightarrow> ch_lun c' = ch_lun c"
  shows "nand_same s s'"
proof -
  have "get_lun s' q = get_lun s q" for q
  proof (cases "same_ch p q")
    case True
    with chs.upd_same[OF assms(1)] assms(2) show ?thesis by (fastforce simp: get_lun_def)
  qed (use chs.upd_other[OF assms(1)] in \<open>simp add: get_lun_def\<close>)
  then show ?thesis
    using upd_ch_rest[OF assms(1)] by (simp add: nand_same_def same_rest_def get_pl_def fun_eq_iff)
qed

lemma upd_lun_same:
  assumes "upd_lun s p f = Some s'" "\<And>l l'. f l = Some l' \<Longrightarrow> lun_pl l' = lun_pl l"
  shows "nand_same s s'"
proof -
  have "get_pl s' q = get_pl s q" for q
  proof (cases "same_lun p q")
    case True
    with luns.upd_same[OF assms(1)] assms(2) show ?thesis by (fastforce simp: get_pl_def)
  qed (use luns.upd_other[OF assms(1)] in \<open>simp add: get_pl_def\<close>)
  then show ?thesis
    using upd_lun_rest[OF assms(1)] by (simp add: nand_same_def same_rest_def fun_eq_iff)
qed

definition lun_in_range :: "ssdparams \<Rightarrow> ppa \<Rightarrow> bool" where
  "lun_in_range spp p \<longleftrightarrow> unat (ppa_ch p) < nchs spp \<and> unat (ppa_lun p) < luns_per_ch spp"

text \<open>What the parameters must satisfy for the time to advance without a trap.\<close>

definition time_params :: "ssdparams \<Rightarrow> bool" where
  "time_params spp \<longleftrightarrow> 0 < pgs_per_flashpg spp \<and> 0 < cell_mode spp \<and> cell_mode spp \<le> 3 \<and>
     length (pg_4kb_rd_lat spp) = 3 \<and> length (pg_rd_lat spp) = 3 \<and>
     (of_nat (max_ch_xfer_size spp) :: u64) \<noteq> 0"

lemma ioclock_inv: "get_ioclock s = (now, s') \<Longrightarrow> nand_same s s' \<and> (ssd_inv s \<longrightarrow> ssd_inv s')"
  by (auto simp: get_ioclock_def nand_same_def ssd_inv_def get_pl_def get_lun_def get_ch_def fun_eq_iff)

lemma ch_request_ok:
  assumes "ssd_inv s" "unat (ppa_ch p) < nchs (sp s)"
  shows "\<exists>lat s'. ch_request s p t len = Some (t + lat, s') \<and> ssd_inv s' \<and> nand_same s s'"
proof -
  obtain now s1 where s1: "get_ioclock s = (now, s1)" by fastforce
  note i1 = ioclock_inv[OF s1]
  with assms have inv1: "ssd_inv s1" and r: "unat (ppa_ch p) < nchs (sp s1)" by (auto simp: nand_same_def)
  obtain c where c: "get_ch s1 p = Some c" "ch_shape (sp s1) c" using get_ch_in[OF inv1 r] by blast
  then obtain lat m where m: "chmodel_request (perf_model c) now t len = Some (t + lat, m)" "chm_inv m"
    using chmodel_request_inv[of "perf_model c" now t len] by (auto simp: ch_shape_def)
  obtain s2 where s2: "upd_ch s1 p (\<lambda>ch. Some (ch\<lparr>perf_model := m\<rparr>)) = Some s2"
    using chs.upd_total[OF c(1), of "\<lambda>ch. Some (ch\<lparr>perf_model := m\<rparr>)"] by auto
  have "ssd_inv s2"
    by (rule upd_ch_inv[OF s2 inv1]) (use m(2) in \<open>auto simp: ch_shape_def\<close>)
  moreover have "nand_same s s2"
    by (rule nand_same_trans[OF conjunct1[OF i1] upd_ch_same[OF s2]]) auto
  ultimately show ?thesis using s1 c(1) m(1) s2 by (simp add: ch_request_def)
qed

lemma ssd_advance_pcie_ok:
  assumes "ssd_inv s"
  shows "\<exists>lat s'. ssd_advance_pcie s t len = Some (t + lat, s') \<and> ssd_inv s' \<and> nand_same s s'"
proof -
  obtain now s1 where s1: "get_ioclock s = (now, s1)" by fastforce
  note i1 = ioclock_inv[OF s1]
  with assms have "chm_inv (pcie s1)" by (simp add: ssd_inv_def)
  then obtain lat m where m: "chmodel_request (pcie s1) now t len = Some (t + lat, m)" "chm_inv m"
    using chmodel_request_inv[of "pcie s1" now t len] by blast
  then have "ssd_inv (s1\<lparr>pcie := m\<rparr>)" "nand_same s (s1\<lparr>pcie := m\<rparr>)"
    using i1 assms by (auto simp: ssd_inv_def nand_same_def get_pl_def get_lun_def get_ch_def fun_eq_iff)
  then show ?thesis using s1 m(1) by (simp add: ssd_advance_pcie_def)
qed

lemma ssd_advance_write_buffer_ok:
  "ssd_inv s \<Longrightarrow> \<exists>t' s'. ssd_advance_write_buffer s t len = Some (t', s') \<and> ssd_inv s' \<and> nand_same s s'"
  using ssd_advance_pcie_ok unfolding ssd_advance_write_buffer_def Let_def by blast

lemma set_lun_avail_ok:
  assumes "ssd_inv s" "lun_in_range (sp s) p"
  shows "\<exists>s'. set_lun_avail s p t = Some s' \<and> ssd_inv s' \<and> nand_same s s' \<and>
    (\<exists>l. get_lun s p = Some l \<and> get_lun s' p = Some (l\<lparr>next_lun_avail_time := t\<rparr>))"
proof -
  let ?f = "\<lambda>lun. Some (lun\<lparr>next_lun_avail_time := t\<rparr>)"
  obtain l where l: "get_lun s p = Some l" "lun_shape (sp s) l"
    using get_lun_in[OF assms(1)] assms(2) by (auto simp: lun_in_range_def)
  then obtain s' where s': "upd_lun s p ?f = Some s'" using luns.upd_total[OF l(1), of ?f] by auto
  have "ssd_inv s'" by (rule upd_lun_inv[OF s' assms(1)]) (auto simp: lun_shape_def)
  moreover have "nand_same s s'" by (rule upd_lun_same[OF s']) auto
  moreover have "get_lun s' p = Some (l\<lparr>next_lun_avail_time := t\<rparr>)"
    using luns.upd_get[OF s' l(1) refl, of p] luns.same_refl by simp
  ultimately show ?thesis using s' l by (simp add: set_lun_avail_def)
qed

lemma nand_read_xfer_ok:
  assumes "ssd_inv s" "unat (ppa_ch p) < nchs (sp s)" "(of_nat (max_ch_xfer_size (sp s)) :: u64) \<noteq> 0" "rest \<noteq> 0"
  shows "\<exists>t1 t2 s'. nand_read_xfer s p il rest t = Some (t1, t2, s') \<and> ssd_inv s' \<and> nand_same s s'"
  using assms
proof (induction "unat rest" arbitrary: s rest t rule: less_induct)
  case less
  define x where "x = min rest (of_nat (max_ch_xfer_size (sp s)) :: u64)"
  have x: "x \<noteq> 0" "x \<le> rest" using less.prems by (auto simp: min_def x_def)
  have run: "nand_read_xfer s p il rest t = do {
      (e, s) \<leftarrow> ch_request s p t x;
      (c, s) \<leftarrow> (if il then ssd_advance_pcie s e x else Some (e, s));
      if rest - x \<noteq> 0 then nand_read_xfer s p il (rest - x) e else Some (e, c, s) }"
    using x(1) by (subst nand_read_xfer.simps) (simp add: x_def[symmetric] Let_def)
  obtain la s1 where s1: "ch_request s p t x = Some (t + la, s1)" "ssd_inv s1" "nand_same s s1"
    using ch_request_ok[OF less.prems(1,2)] by blast
  obtain lb s2 where s2: "(if il then ssd_advance_pcie s1 (t + la) x else Some (t + la, s1)) = Some (lb, s2)"
    "ssd_inv s2" "nand_same s1 s2"
    using ssd_advance_pcie_ok[OF s1(2), of "t + la" x] s1(2) nand_same_refl by (cases il) auto
  have ss: "nand_same s s2" using nand_same_trans[OF s1(3) s2(3)] .
  show ?case
  proof (cases "rest - x = 0")
    case True
    have "nand_read_xfer s p il rest t = Some (t + la, lb, s2)"
      unfolding run s1(1) using s2(1) True by simp
    then show ?thesis using s2(2) ss by blast
  next
    case False
    have "0 < unat x" "unat x \<le> unat rest" using x by (auto simp: unat_gt_0 word_le_nat_alt)
    then have "unat (rest - x) < unat rest" by (simp add: unat_sub_le word_le_nat_alt)
    from less.hyps[OF this s2(2) _ _ False, of "t + la"] ss less.prems(2,3)
    obtain t1 t2 s3 where s3: "nand_read_xfer s2 p il (rest - x) (t + la) = Some (t1, t2, s3)" "ssd_inv s3"
      "nand_same s2 s3"
      by (auto simp: nand_same_def)
    have "nand_read_xfer s p il rest t = Some (t1, t2, s3)"
      unfolding run s1(1) using s2(1) False s3(1) by simp
    then show ?thesis using s3(2) nand_same_trans[OF ss s3(3)] by blast
  qed
qed

lemma get_cell_less: "get_cell s p = Some c \<Longrightarrow> c < cell_mode (sp s)"
  by (auto simp: get_cell_def bind_Some_iff nv_assert_Some_iff)

lemma get_cell_ok: "time_params (sp s) \<Longrightarrow> \<exists>c. get_cell s p = Some c \<and> c < 3"
  by (auto simp: get_cell_def time_params_def ckdiv_def nv_assert_def
      intro: order_less_le_trans[OF mod_less_divisor])

text \<open>
  A command on a LUN that exists returns, keeps the invariant and the stored data.
\<close>

lemma ssd_advance_nand_ok:
  assumes inv: "ssd_inv s" and tp: "time_params (sp s)"
    and p: "ppa_word (nc_ppa n) \<noteq> UNMAPPED_PPA \<Longrightarrow> lun_in_range (sp s) (nc_ppa n)"
    and rd: "nc_cmd n = NAND_READ \<Longrightarrow> xfer_size n \<noteq> 0"
  shows "\<exists>t s'. ssd_advance_nand s n = Some (t, s') \<and> ssd_inv s' \<and> nand_same s s'"
proof -
  define p' where "p' = nc_ppa n"
  obtain t0 s1 where s1: "(if stime n = 0 then get_ioclock s else (stime n, s)) = (t0, s1)" by fastforce
  have i1: "nand_same s s1" "ssd_inv s1"
    using s1 inv ioclock_inv[of s t0 s1] nand_same_refl by (auto split: if_splits)
  then have sp1: "sp s1 = sp s" by (simp add: nand_same_def)
  show ?thesis
  proof (cases "ppa_word p' = UNMAPPED_PPA")
    case True
    then show ?thesis using i1 s1 by (simp add: ssd_advance_nand_def p'_def)
  next
    case False
    have r: "lun_in_range (sp s1) p'" "unat (ppa_ch p') < nchs (sp s1)"
      using p False by (auto simp: p'_def sp1 lun_in_range_def)
    obtain l where l: "get_lun s1 p' = Some l" using get_lun_in[OF i1(2)] r by (auto simp: lun_in_range_def)
    obtain c where c: "get_cell s1 p' = Some c" "c < 3" using get_cell_ok[of s1 p'] tp sp1 by auto
    have avail: "\<exists>s'. set_lun_avail s2 p' t = Some s' \<and> ssd_inv s' \<and> nand_same s s'"
      if "ssd_inv s2" "nand_same s1 s2" for s2 t
      using set_lun_avail_ok[of s2 p' t] that r(1) nand_same_trans[OF i1(1)] nand_same_trans[of s s2]
      by (auto simp: nand_same_def)
    note run = ssd_advance_nand_def[of s n, folded p'_def, unfolded s1 Let_def]
    show ?thesis
    proof (cases "nc_cmd n")
      case NAND_READ
      obtain lat where lat: "aget (if xfer_size n = 4096 then pg_4kb_rd_lat (sp s1) else pg_rd_lat (sp s1)) c = Some lat"
        using tp c(2) sp1 by (auto simp: time_params_def)
      obtain t1 t2 s2 where s2: "nand_read_xfer s1 p' (interleave_pci_dma n) (xfer_size n)
          (max64 (next_lun_avail_time l) t0 + of_nat lat) = Some (t1, t2, s2)" "ssd_inv s2" "nand_same s1 s2"
        using nand_read_xfer_ok[OF i1(2) r(2)] rd[OF NAND_READ] tp sp1 unfolding time_params_def by metis
      show ?thesis
        using avail[OF s2(2,3), of t1] NAND_READ False l c(1) lat s2(1) by (auto simp: run)
    next
      case NAND_WRITE
      obtain la s2 where s2: "ch_request s1 p' (max64 (next_lun_avail_time l) t0) (xfer_size n) =
          Some (max64 (next_lun_avail_time l) t0 + la, s2)" "ssd_inv s2" "nand_same s1 s2"
        using ch_request_ok[OF i1(2) r(2)] by blast
      show ?thesis
        using avail[OF s2(2,3), of "max64 (next_lun_avail_time l) t0 + la + of_nat (pg_wr_lat (sp s2))"]
          NAND_WRITE False l c(1) s2(1) by (auto simp: run)
    next
      case NAND_ERASE
      then show ?thesis
        using avail[OF i1(2) nand_same_refl, of "max64 (next_lun_avail_time l) t0 + of_nat (blk_er_lat (sp s1))"]
          False l c(1) by (auto simp: run)
    next
      case NAND_NOP
      then show ?thesis
        using avail[OF i1(2) nand_same_refl, of "max64 (next_lun_avail_time l) t0"] False l c(1) by (auto simp: run)
    next
      case NAND_UNSUPPORTED
      then show ?thesis using i1 False l c(1) by (simp add: run)
    qed
  qed
qed

text \<open>Nothing below the LUN level is read by \<^verbatim>\<open>ssd_next_idle_time\<close>: its result is a maximum.\<close>

lemma ssd_next_idle_time_ok:
  assumes "ssd_inv s"
  shows "\<exists>t s'. ssd_next_idle_time s = Some (t, s') \<and> ssd_inv s' \<and> nand_same s s'"
proof -
  obtain now s1 where s1: "get_ioclock s = (now, s1)" by fastforce
  note i1 = ioclock_inv[OF s1]
  have inv: "ssd_inv s1" using i1 assms by blast
  let ?row = "\<lambda>ch latest j. aget (ch_lun ch) j \<bind> (\<lambda>lun. Some (max64 latest (next_lun_avail_time lun)))"
  have row: "\<exists>t'. opt_fold (?row ch) t [0..<luns_per_ch (sp s1)] = Some t'" if "ch \<in> set (ssd_ch s1)" for ch t
  proof -
    have "length (ch_lun ch) = luns_per_ch (sp s1)" using inv that by (auto simp: ssd_inv_def ch_shape_def)
    then have "\<exists>t'. opt_fold (?row ch) t [0..<luns_per_ch (sp s1)] = Some t' \<and> True"
      by (intro opt_fold_inv) (auto dest: upt_split_less)
    then show ?thesis by blast
  qed
  have "\<exists>t. opt_fold (\<lambda>latest i. aget (ssd_ch s1) i \<bind> (\<lambda>ch. opt_fold (?row ch) latest [0..<luns_per_ch (sp s1)]))
      now [0..<nchs (sp s1)] = Some t \<and> True"
  proof (intro opt_fold_inv)
    fix i ys zs t assume "[0..<nchs (sp s1)] = ys @ i # zs"
    then have "i < length (ssd_ch s1)" using inv by (auto simp: ssd_inv_def dest: upt_split_less)
    then show "\<exists>t'. aget (ssd_ch s1) i \<bind> (\<lambda>ch. opt_fold (?row ch) t [0..<luns_per_ch (sp s1)]) = Some t' \<and> True"
      using row by simp
  qed simp
  then show ?thesis using s1 i1 assms by (auto simp: ssd_next_idle_time_def)
qed

lemma ssd_init_shape:
  assumes "ssd_init junk mem clk spp = Some s" "0 < unat (ucast (BANDWIDTH_TO_MAX_CREDITS (of_nat (ch_bandwidth spp))) :: u32)"
    "unat (ucast (BANDWIDTH_TO_MAX_CREDITS (of_nat (ch_bandwidth spp))) :: u32) < 256"
    "0 < unat (ucast (BANDWIDTH_TO_MAX_CREDITS (of_nat (pcie_bandwidth spp))) :: u32)"
    "unat (ucast (BANDWIDTH_TO_MAX_CREDITS (of_nat (pcie_bandwidth spp))) :: u32) < 256"
  shows "ssd_inv s" "sp s = spp"
proof -
  have ci: "chm_inv m" if "chmodel_init mem bw = Some m"
    "0 < unat (ucast (BANDWIDTH_TO_MAX_CREDITS bw) :: u32)" "unat (ucast (BANDWIDTH_TO_MAX_CREDITS bw) :: u32) < 256"
    for bw m
    using that by (auto simp: chmodel_init_def bind_Some_iff chm_memset_def chm_inv_def ring_len_eq
        unat_ucast_credit Let_def)
  obtain ch pc where i: "ssd_init_ch junk mem spp = Some ch" "ssd_init_pcie mem spp = Some pc"
    "s = \<lparr>sp = spp, ssd_ch = replicate (nchs spp) ch, pcie = pc,
       write_buffer = buffer_init (of_nat (write_buffer_size spp)), ssd_clock = clk\<rparr>"
    using assms(1) by (auto simp: ssd_init_def bind_Some_iff)
  have "chm_inv pc" using ci i(2) assms(4,5) by (simp add: ssd_init_pcie_def)
  moreover have "ch_shape spp ch"
  proof -
    obtain m where m: "chmodel_init mem (of_nat (ch_bandwidth spp)) = Some m"
      "perf_model ch = m\<lparr>xfer_lat := xfer_lat m + of_nat (fw_ch_xfer_lat spp * unat UNIT_XFER_SIZE div KB 4)\<rparr>"
      "ch_lun ch = replicate (luns_per_ch spp) (ssd_init_nand_lun junk spp)"
      using i(1) by (auto simp: ssd_init_ch_def bind_Some_iff Let_def)
    have "chm_inv m" using ci m(1) assms(2,3) by blast
    then have "chm_inv (perf_model ch)" by (simp add: m(2) chm_inv_def)
    then show ?thesis
      by (simp add: ch_shape_def m(3) lun_shape_def ssd_init_nand_lun_def pl_shape_def ssd_init_nand_plane_def
          blk_shape_def ssd_init_nand_blk_def ssd_init_nand_page_def)
  qed
  ultimately show "ssd_inv s" "sp s = spp" using i(3) by (auto simp: ssd_inv_def)
qed

end
