(* ===== verification/Conv_State.thy ===== *)
theory Conv_State
  imports PQueue Ssd_Nand
begin

text \<open>
  The state of the page-mapping FTL of \<^verbatim>\<open>conv_ftl.h\<close> and \<^verbatim>\<open>conv_ftl.c\<close>, its initialisation
  and the access to its mapping tables. Every configuration has one partition
  (\<^verbatim>\<open>SSD_PARTITIONS\<close> is 1), so the namespace has one instance of the FTL and the local page
  number of a logical page is the page number itself.

  A pointer to a line is its index in \<open>lines\<close>; the linked lists of lines are lists of indices.
  Page counts are naturals: the code asserts that they are positive before every decrement. The
  counters of lines and credits keep their 32 bits, the statistics and times their 64.
\<close>

subsection \<open>Lines\<close>

record line =
  ln_id :: nat
  ln_ipc :: nat
  ln_vpc :: nat
  ln_pos :: nat
  last_modified_time :: u64
  iso_sample_active :: bool
  iso_sample_ipc :: nat
  iso_sample_age_ns :: u64
  iso_sample_start_ns :: u64

text \<open>
  What a slot of the victim queue can hold: a null pointer, a pointer to a line, or whatever
  \<^verbatim>\<open>kmalloc\<close> left there.
\<close>

datatype line_ptr = LNull | LJunk | LPtr nat

definition victim_line_cmp_pri :: "nat \<Rightarrow> nat \<Rightarrow> bool" where
  "victim_line_cmp_pri nxt cur \<longleftrightarrow> nxt > cur"

definition line_at :: "line list \<Rightarrow> line_ptr \<Rightarrow> line option" where
  "line_at ls a = (case a of LPtr i \<Rightarrow> aget ls i | _ \<Rightarrow> None)"

definition victim_line_get_pri :: "line list \<Rightarrow> line_ptr \<Rightarrow> nat" where
  "victim_line_get_pri ls a = (case line_at ls a of Some l \<Rightarrow> ln_vpc l | None \<Rightarrow> 0)"

definition victim_line_set_pri :: "line list \<Rightarrow> line_ptr \<Rightarrow> nat \<Rightarrow> line list" where
  "victim_line_set_pri ls a pri = (case a of LPtr i \<Rightarrow> ls[i := (ls ! i)\<lparr>ln_vpc := pri\<rparr>] | _ \<Rightarrow> ls)"

definition victim_line_get_pos :: "line list \<Rightarrow> line_ptr \<Rightarrow> nat" where
  "victim_line_get_pos ls a = (case line_at ls a of Some l \<Rightarrow> ln_pos l | None \<Rightarrow> 0)"

definition victim_line_set_pos :: "line list \<Rightarrow> line_ptr \<Rightarrow> nat \<Rightarrow> line list" where
  "victim_line_set_pos ls a p = (case a of LPtr i \<Rightarrow> ls[i := (ls ! i)\<lparr>ln_pos := p\<rparr>] | _ \<Rightarrow> ls)"

subsection \<open>The FTL\<close>

record convparams =
  gc_thres_lines :: u32
  gc_thres_lines_high :: u32
  enable_gc_delay :: bool
  op_area_pcent :: nat
  pba_pcent :: nat

record write_pointer =
  curline :: nat
  wp_ch :: nat
  wp_lun :: nat
  wp_pg :: nat
  wp_blk :: nat
  wp_pl :: nat

record line_mgmt =
  lines :: "line list"
  free_line_list :: "nat list"
  victim_line_pq :: "(line list, line_ptr) pqueue"
  full_line_list :: "nat list"
  lm_tt_lines :: nat
  free_line_cnt :: u32
  victim_line_cnt :: u32
  full_line_cnt :: u32

record write_flow_control =
  write_credits :: u32
  credits_to_refill :: u32

definition CONV_AGE_LEVEL_MAX :: nat where "CONV_AGE_LEVEL_MAX = 7"

text \<open>The counters that only the flush summary reads.\<close>

record conv_stats =
  dsm_invalidated_pages :: u64
  gc_cnt :: u64
  gc_valid_copied :: u64
  host_write_pages :: u64
  gc_victim_vpc_sum :: u64
  gc_diff_from_greedy :: u64
  gc_selected_age_ns_sum :: u64
  gc_selected_age_value_sum :: u64
  gc_selected_score_sum :: u64
  gc_candidates_available_sum :: u64
  gc_candidate_eval_count :: u64
  gc_candidate_age_ns_sum :: u64
  gc_candidate_age_ns_min :: u64
  gc_candidate_age_ns_max :: u64
  gc_candidate_level_hist :: "u64 list"
  gc_selected_level_hist :: "u64 list"
  gc_selected_age_ns_min :: u64
  gc_selected_age_ns_max :: u64
  gc_greedy_ref_age_ns_sum :: u64
  gc_greedy_ref_vpc_sum :: u64
  gc_extra_vpc_vs_greedy_sum :: u64
  gc_forced_cnt :: u64
  gc_zero_vpc_victim_cnt :: u64
  gc_victim_vpc_min :: u64
  gc_victim_vpc_max :: u64
  iso_samples_completed :: u64
  iso_samples_censored :: u64

record conv_ftl =
  ftl_ssd :: ssd
  cp :: convparams
  maptbl :: "ppa list"
  rmap :: "u64 list"
  user_wp :: write_pointer
  gc_wp :: write_pointer
  lm :: line_mgmt
  wfc :: write_flow_control
  cur_nsecs :: u64
  stats :: conv_stats

abbreviation spp :: "conv_ftl \<Rightarrow> ssdparams" where "spp c \<equiv> sp (ftl_ssd c)"

subsection \<open>Checks on addresses\<close>

definition last_pg_in_wordline :: "conv_ftl \<Rightarrow> ppa \<Rightarrow> bool option" where
  "last_pg_in_wordline c p = do {
     r \<leftarrow> ckmod (unat (ppa_pg p)) (pgs_per_oneshotpg (spp c));
     Some (r = pgs_per_oneshotpg (spp c) - 1)
   }"

definition should_gc :: "conv_ftl \<Rightarrow> bool" where
  "should_gc c \<longleftrightarrow> free_line_cnt (lm c) \<le> gc_thres_lines (cp c)"

definition should_gc_high :: "conv_ftl \<Rightarrow> bool" where
  "should_gc_high c \<longleftrightarrow> free_line_cnt (lm c) \<le> gc_thres_lines_high (cp c)"

definition valid_ppa :: "conv_ftl \<Rightarrow> ppa \<Rightarrow> bool" where
  "valid_ppa c p =
     (if unat (ppa_ch p) \<ge> nchs (spp c) then False
      else if unat (ppa_lun p) \<ge> luns_per_ch (spp c) then False
      else if unat (ppa_pl p) \<ge> pls_per_lun (spp c) then False
      else if unat (ppa_blk p) \<ge> blks_per_pl (spp c) then False
      else if unat (ppa_pg p) \<ge> pgs_per_blk (spp c) then False
      else True)"

definition valid_lpn :: "conv_ftl \<Rightarrow> u64 \<Rightarrow> bool" where
  "valid_lpn c lpn \<longleftrightarrow> unat lpn < tt_pgs (spp c)"

definition mapped_ppa :: "ppa \<Rightarrow> bool" where
  "mapped_ppa p \<longleftrightarrow> \<not> ppa_word p = UNMAPPED_PPA"

subsection \<open>The mapping tables\<close>

definition get_maptbl_ent :: "conv_ftl \<Rightarrow> u64 \<Rightarrow> ppa option" where
  "get_maptbl_ent c lpn = aget (maptbl c) (unat lpn)"

definition set_maptbl_ent :: "conv_ftl \<Rightarrow> u64 \<Rightarrow> ppa \<Rightarrow> conv_ftl option" where
  "set_maptbl_ent c lpn p = do {
     nv_assert (unat lpn < tt_pgs (spp c));
     m \<leftarrow> aset (maptbl c) (unat lpn) p;
     Some (c\<lparr>maptbl := m\<rparr>)
   }"

definition ppa2pgidx :: "ssdparams \<Rightarrow> ppa \<Rightarrow> nat option" where
  "ppa2pgidx prm p = do {
     let pgidx = unat (ppa_ch p) * pgs_per_ch prm + unat (ppa_lun p) * pgs_per_lun prm +
       unat (ppa_pl p) * pgs_per_pl prm + unat (ppa_blk p) * pgs_per_blk prm + unat (ppa_pg p);
     nv_assert (pgidx < tt_pgs prm);
     Some pgidx
   }"

definition get_rmap_ent :: "conv_ftl \<Rightarrow> ppa \<Rightarrow> u64 option" where
  "get_rmap_ent c p = do { pgidx \<leftarrow> ppa2pgidx (spp c) p; aget (rmap c) pgidx }"

definition set_rmap_ent :: "conv_ftl \<Rightarrow> u64 \<Rightarrow> ppa \<Rightarrow> conv_ftl option" where
  "set_rmap_ent c lpn p = do {
     pgidx \<leftarrow> ppa2pgidx (spp c) p;
     r \<leftarrow> aset (rmap c) pgidx lpn;
     Some (c\<lparr>rmap := r\<rparr>)
   }"

definition get_line :: "conv_ftl \<Rightarrow> ppa \<Rightarrow> line option" where
  "get_line c p = aget (lines (lm c)) (unat (ppa_blk p))"

subsection \<open>Free lines and write pointers\<close>

definition check_addr :: "nat \<Rightarrow> nat \<Rightarrow> unit option" where
  "check_addr a mx = nv_assert (a < mx)"

text \<open>The inner \<open>None\<close> is the null pointer that the code returns when the list is empty.\<close>

definition get_next_free_line :: "conv_ftl \<Rightarrow> nat option \<times> conv_ftl" where
  "get_next_free_line c = (case free_line_list (lm c) of
     [] \<Rightarrow> (None, c)
   | l # ls \<Rightarrow> (Some l, c\<lparr>lm := (lm c)\<lparr>free_line_list := ls, free_line_cnt := free_line_cnt (lm c) - 1\<rparr>\<rparr>))"

definition get_wp :: "conv_ftl \<Rightarrow> io_type \<Rightarrow> write_pointer" where
  "get_wp c io = (case io of USER_IO \<Rightarrow> user_wp c | GC_IO \<Rightarrow> gc_wp c)"

definition set_wp :: "conv_ftl \<Rightarrow> io_type \<Rightarrow> write_pointer \<Rightarrow> conv_ftl" where
  "set_wp c io wp = (case io of USER_IO \<Rightarrow> c\<lparr>user_wp := wp\<rparr> | GC_IO \<Rightarrow> c\<lparr>gc_wp := wp\<rparr>)"

definition prepare_write_pointer :: "conv_ftl \<Rightarrow> io_type \<Rightarrow> conv_ftl option" where
  "prepare_write_pointer c io = (case get_next_free_line c of
     (None, c) \<Rightarrow> None
   | (Some l, c) \<Rightarrow> do {
       line \<leftarrow> aget (lines (lm c)) l;
       Some (set_wp c io \<lparr>curline = l, wp_ch = 0, wp_lun = 0, wp_pg = 0, wp_blk = ln_id line, wp_pl = 0\<rparr>)
     })"

subsection \<open>Initialisation\<close>

definition init_line :: "nat \<Rightarrow> line" where
  "init_line i = \<lparr>ln_id = i, ln_ipc = 0, ln_vpc = 0, ln_pos = 0, last_modified_time = 0,
     iso_sample_active = False, iso_sample_ipc = 0, iso_sample_age_ns = 0, iso_sample_start_ns = 0\<rparr>"

text \<open>\<open>mem\<close> is the content of the block of pointers that \<^verbatim>\<open>pqueue_init\<close> allocates.\<close>

definition init_lines :: "ssdparams \<Rightarrow> line_ptr list \<Rightarrow> line_mgmt option" where
  "init_lines prm mem = do {
     let tt = blks_per_pl prm;
     nv_assert (tt = tt_lines prm);
     let pq = pqueue_init (tt_lines prm) mem victim_line_cmp_pri victim_line_get_pri victim_line_set_pri
                victim_line_get_pos victim_line_set_pos;
     (ls, free, cnt) \<leftarrow> opt_fold (\<lambda>(ls, free, cnt) i. Some (ls @ [init_line i], free @ [i], cnt + 1))
       ([], [], 0) [0..<tt];
     nv_assert (cnt = of_nat tt);
     Some \<lparr>lines = ls, free_line_list = free, victim_line_pq = pq, full_line_list = [], lm_tt_lines = tt,
       free_line_cnt = cnt, victim_line_cnt = 0, full_line_cnt = 0\<rparr>
   }"

definition init_write_flow_control :: "ssdparams \<Rightarrow> write_flow_control" where
  "init_write_flow_control prm =
     \<lparr>write_credits = of_nat (pgs_per_line prm), credits_to_refill = of_nat (pgs_per_line prm)\<rparr>"

definition init_maptbl :: "ssdparams \<Rightarrow> ppa list" where
  "init_maptbl prm = replicate (tt_pgs prm) (word_ppa UNMAPPED_PPA)"

definition init_rmap :: "ssdparams \<Rightarrow> u64 list" where
  "init_rmap prm = replicate (tt_pgs prm) INVALID_LPN"

definition init_stats :: conv_stats where
  "init_stats = \<lparr>dsm_invalidated_pages = 0, gc_cnt = 0, gc_valid_copied = 0, host_write_pages = 0,
     gc_victim_vpc_sum = 0, gc_diff_from_greedy = 0, gc_selected_age_ns_sum = 0, gc_selected_age_value_sum = 0,
     gc_selected_score_sum = 0, gc_candidates_available_sum = 0, gc_candidate_eval_count = 0,
     gc_candidate_age_ns_sum = 0, gc_candidate_age_ns_min = - 1, gc_candidate_age_ns_max = 0,
     gc_candidate_level_hist = replicate CONV_AGE_LEVEL_MAX 0, gc_selected_level_hist = replicate CONV_AGE_LEVEL_MAX 0,
     gc_selected_age_ns_min = - 1, gc_selected_age_ns_max = 0, gc_greedy_ref_age_ns_sum = 0,
     gc_greedy_ref_vpc_sum = 0, gc_extra_vpc_vs_greedy_sum = 0, gc_forced_cnt = 0, gc_zero_vpc_victim_cnt = 0,
     gc_victim_vpc_min = - 1, gc_victim_vpc_max = 0, iso_samples_completed = 0, iso_samples_censored = 0\<rparr>"

definition conv_init_params :: "ssd_config \<Rightarrow> convparams" where
  "conv_init_params cfg = \<lparr>gc_thres_lines = 2, gc_thres_lines_high = 2, enable_gc_delay = True,
     op_area_pcent = OP_AREA_PERCENT cfg, pba_pcent = 100 + OP_AREA_PERCENT cfg\<rparr>"

definition null_wp :: write_pointer where
  "null_wp = \<lparr>curline = 0, wp_ch = 0, wp_lun = 0, wp_pg = 0, wp_blk = 0, wp_pl = 0\<rparr>"

definition conv_init_ftl :: "convparams \<Rightarrow> ssd \<Rightarrow> line_ptr list \<Rightarrow> conv_ftl option" where
  "conv_init_ftl cpp s mem = do {
     lm \<leftarrow> init_lines (sp s) mem;
     let c = \<lparr>ftl_ssd = s, cp = cpp, maptbl = init_maptbl (sp s), rmap = init_rmap (sp s),
       user_wp = null_wp, gc_wp = null_wp, lm = lm, wfc = init_write_flow_control (sp s),
       cur_nsecs = 0, stats = init_stats\<rparr>;
     c \<leftarrow> prepare_write_pointer c USER_IO;
     c \<leftarrow> prepare_write_pointer c GC_IO;
     Some (c\<lparr>wfc := init_write_flow_control (spp c)\<rparr>)
   }"

text \<open>
  The namespace: its size in bytes is the part of the capacity that is not over-provisioned.
\<close>

record nvmev_ns =
  ns_id :: u32
  ns_csi :: nat
  ns_nr_parts :: nat
  ns_size :: nat
  ns_ftl :: conv_ftl

definition NVME_CSI_NVM :: nat where "NVME_CSI_NVM = 0"

definition conv_init_namespace ::
  "ssd_config \<Rightarrow> u64 \<Rightarrow> (nat \<Rightarrow> u8) \<Rightarrow> line_ptr list \<Rightarrow> (nat \<Rightarrow> u64) \<Rightarrow> u32 \<Rightarrow> nat \<Rightarrow> nvmev_ns option" where
  "conv_init_namespace cfg junk mem pqmem clock i sz = do {
     sp \<leftarrow> ssd_init_params cfg sz (SSD_PARTITIONS cfg);
     let cpp = conv_init_params cfg;
     s \<leftarrow> ssd_init junk mem clock sp;
     ftl \<leftarrow> conv_init_ftl cpp s pqmem;
     size \<leftarrow> ckdiv (sz * 100) (pba_pcent cpp);
     Some \<lparr>ns_id = i, ns_csi = NVME_CSI_NVM, ns_nr_parts = SSD_PARTITIONS cfg, ns_size = size, ns_ftl = ftl\<rparr>
   }"

end
