(* ===== verification/Conv_Lines.thy ===== *)
theory Conv_Lines
  imports Conv_State
begin

text \<open>
  The operations of \<^verbatim>\<open>conv_ftl.c\<close> on lines: moving the write pointers, and changing the
  status of pages, blocks and lines together with their counters and the lists of lines.
\<close>

definition upd_lm :: "(line_mgmt \<Rightarrow> line_mgmt) \<Rightarrow> conv_ftl \<Rightarrow> conv_ftl" where
  "upd_lm f c = c\<lparr>lm := f (lm c)\<rparr>"

text \<open>\<^verbatim>\<open>line->...\<close> of a line that exists.\<close>

definition mod_line :: "conv_ftl \<Rightarrow> nat \<Rightarrow> (line \<Rightarrow> line) \<Rightarrow> conv_ftl option" where
  "mod_line c l f = do {
     ls \<leftarrow> amod (lines (lm c)) l (\<lambda>x. Some (f x));
     Some (upd_lm (\<lambda>m. m\<lparr>lines := ls\<rparr>) c)
   }"

text \<open>\<^verbatim>\<open>list_del_init\<close> takes a line out of the list that holds it, if one does.\<close>

definition line_list_del_init :: "nat \<Rightarrow> line_mgmt \<Rightarrow> line_mgmt" where
  "line_list_del_init l m =
     m\<lparr>free_line_list := remove1 l (free_line_list m), full_line_list := remove1 l (full_line_list m)\<rparr>"

text \<open>\<^verbatim>\<open>pqueue_insert(lm->victim_line_pq, line); lm->victim_line_cnt++;\<close>\<close>

definition insert_victim :: "conv_ftl \<Rightarrow> nat \<Rightarrow> conv_ftl option" where
  "insert_victim c l = do {
     (pq, ls) \<leftarrow> pqueue_insert (victim_line_pq (lm c)) (lines (lm c)) (LPtr l);
     Some (upd_lm (\<lambda>m. m\<lparr>lines := ls, victim_line_pq := pq, victim_line_cnt := victim_line_cnt m + 1\<rparr>) c)
   }"

subsection \<open>Moving a write pointer\<close>

text \<open>The used-up line goes to the full list or to the victim queue.\<close>

definition close_line :: "conv_ftl \<Rightarrow> nat \<Rightarrow> conv_ftl option" where
  "close_line c l = do {
     line \<leftarrow> aget (lines (lm c)) l;
     if ln_vpc line = pgs_per_line (spp c) then do {
       nv_assert (ln_ipc line = 0);
       Some (upd_lm (\<lambda>m. m\<lparr>full_line_list := full_line_list m @ [l], full_line_cnt := full_line_cnt m + 1\<rparr>) c)
     } else do {
       nv_assert (ln_vpc line < pgs_per_line (spp c));
       nv_assert (ln_ipc line > 0);
       insert_victim c l
     }
   }"

text \<open>The part of \<^verbatim>\<open>advance_write_pointer\<close> after the last page of a line; \<open>wp\<close> is at page 0.\<close>

definition open_next_line :: "conv_ftl \<Rightarrow> io_type \<Rightarrow> write_pointer \<Rightarrow> conv_ftl option" where
  "open_next_line c io wp = do {
     c \<leftarrow> close_line c (curline wp);
     check_addr (wp_blk wp) (blks_per_pl (spp c));
     case get_next_free_line c of
       (None, c) \<Rightarrow> None
     | (Some l, c) \<Rightarrow> do {
         line \<leftarrow> aget (lines (lm c)) l;
         let wp = wp\<lparr>curline := l, wp_blk := ln_id line\<rparr>;
         check_addr (wp_blk wp) (blks_per_pl (spp c));
         nv_assert (wp_pg wp = 0);
         nv_assert (wp_lun wp = 0);
         nv_assert (wp_ch wp = 0);
         nv_assert (wp_pl wp = 0);
         Some (set_wp c io wp)
       }
   }"

definition advance_write_pointer :: "conv_ftl \<Rightarrow> io_type \<Rightarrow> conv_ftl option" where
  "advance_write_pointer c io = do {
     let wpp = get_wp c io;
     let k = pgs_per_oneshotpg (spp c);
     check_addr (wp_pg wpp) (pgs_per_blk (spp c));
     let wpp = wpp\<lparr>wp_pg := wp_pg wpp + 1\<rparr>;
     r \<leftarrow> ckmod (wp_pg wpp) k;
     if r \<noteq> 0 then Some (set_wp c io wpp)
     else do {
       let wpp = wpp\<lparr>wp_pg := wp_pg wpp - k\<rparr>;
       check_addr (wp_ch wpp) (nchs (spp c));
       let wpp = wpp\<lparr>wp_ch := wp_ch wpp + 1\<rparr>;
       if wp_ch wpp \<noteq> nchs (spp c) then Some (set_wp c io wpp)
       else do {
         let wpp = wpp\<lparr>wp_ch := 0\<rparr>;
         check_addr (wp_lun wpp) (luns_per_ch (spp c));
         let wpp = wpp\<lparr>wp_lun := wp_lun wpp + 1\<rparr>;
         if wp_lun wpp \<noteq> luns_per_ch (spp c) then Some (set_wp c io wpp)
         else do {
           let wpp = wpp\<lparr>wp_lun := 0\<rparr>;
           let wpp = wpp\<lparr>wp_pg := wp_pg wpp + k\<rparr>;
           if wp_pg wpp \<noteq> pgs_per_blk (spp c) then Some (set_wp c io wpp)
           else open_next_line c io (wpp\<lparr>wp_pg := 0\<rparr>)
         }
       }
     }
   }"

text \<open>The bit fields truncate what is stored in them.\<close>

definition get_new_page :: "conv_ftl \<Rightarrow> io_type \<Rightarrow> ppa option" where
  "get_new_page c io = do {
     let wp = get_wp c io;
     let p = \<lparr>ppa_pg = of_nat (wp_pg wp), ppa_blk = of_nat (wp_blk wp), ppa_pl = of_nat (wp_pl wp),
              ppa_lun = of_nat (wp_lun wp), ppa_ch = of_nat (wp_ch wp), ppa_rsv = 0\<rparr>;
     nv_assert (ppa_pl p = 0);
     Some p
   }"

subsection \<open>The status of pages\<close>

definition set_page_status :: "ssd \<Rightarrow> ppa \<Rightarrow> pg_status \<Rightarrow> pg_status \<Rightarrow> ssd option" where
  "set_page_status s p old new = upd_pg s p (\<lambda>pg. do {
     nv_assert (status pg = old);
     Some (pg\<lparr>status := new\<rparr>)
   })"

definition mark_page_invalid :: "conv_ftl \<Rightarrow> ppa \<Rightarrow> conv_ftl option" where
  "mark_page_invalid c p = do {
     let blk_pgs = pgs_per_blk (spp c);
     let line_pgs = pgs_per_line (spp c);
     s \<leftarrow> set_page_status (ftl_ssd c) p PG_VALID PG_INVALID;
     s \<leftarrow> upd_blk s p (\<lambda>b. do {
       nv_assert (ipc b < blk_pgs);
       let b = b\<lparr>ipc := ipc b + 1\<rparr>;
       nv_assert (vpc b > 0 \<and> vpc b \<le> blk_pgs);
       Some (b\<lparr>vpc := vpc b - 1\<rparr>)
     });
     let c = c\<lparr>ftl_ssd := s\<rparr>;
     let l = unat (ppa_blk p);
     c \<leftarrow> mod_line c l (\<lambda>x. x\<lparr>last_modified_time := cur_nsecs c\<rparr>);
     line \<leftarrow> aget (lines (lm c)) l;
     nv_assert (ln_ipc line < line_pgs);
     was_full_line \<leftarrow> (if ln_vpc line = line_pgs then do { nv_assert (ln_ipc line = 0); Some True } else Some False);
     c \<leftarrow> mod_line c l (\<lambda>x. x\<lparr>ln_ipc := ln_ipc x + 1\<rparr>);
     nv_assert (ln_vpc line > 0 \<and> ln_vpc line \<le> line_pgs);
     c \<leftarrow> (if ln_pos line \<noteq> 0 then do {
             (pq, ls) \<leftarrow> pqueue_change_priority (victim_line_pq (lm c)) (lines (lm c)) (ln_vpc line - 1) (LPtr l);
             Some (upd_lm (\<lambda>m. m\<lparr>lines := ls, victim_line_pq := pq\<rparr>) c)
           } else mod_line c l (\<lambda>x. x\<lparr>ln_vpc := ln_vpc x - 1\<rparr>));
     if was_full_line then do {
       let c = upd_lm (line_list_del_init l) c;
       let c = upd_lm (\<lambda>m. m\<lparr>full_line_cnt := full_line_cnt m - 1\<rparr>) c;
       insert_victim c l
     } else Some c
   }"

definition mark_page_valid :: "conv_ftl \<Rightarrow> ppa \<Rightarrow> conv_ftl option" where
  "mark_page_valid c p = do {
     let blk_pgs = pgs_per_blk (spp c);
     let line_pgs = pgs_per_line (spp c);
     s \<leftarrow> set_page_status (ftl_ssd c) p PG_FREE PG_VALID;
     s \<leftarrow> upd_blk s p (\<lambda>b. do {
       nv_assert (vpc b < blk_pgs);
       Some (b\<lparr>vpc := vpc b + 1\<rparr>)
     });
     let c = c\<lparr>ftl_ssd := s\<rparr>;
     line \<leftarrow> get_line c p;
     nv_assert (ln_vpc line < line_pgs);
     mod_line c (unat (ppa_blk p)) (\<lambda>x. x\<lparr>ln_vpc := ln_vpc x + 1\<rparr>)
   }"

text \<open>Erasing a block: every page becomes free again.\<close>

definition mark_block_free :: "conv_ftl \<Rightarrow> ppa \<Rightarrow> conv_ftl option" where
  "mark_block_free c p = do {
     let sp = spp c;
     s \<leftarrow> upd_blk (ftl_ssd c) p (\<lambda>b. do {
       pgs \<leftarrow> opt_fold (\<lambda>pgs i. amod pgs i (\<lambda>pg. do {
         nv_assert (nsecs pg = secs_per_pg sp);
         Some (pg\<lparr>status := PG_FREE\<rparr>)
       })) (blk_pg b) [0..<pgs_per_blk sp];
       nv_assert (npgs b = pgs_per_blk sp);
       Some (b\<lparr>blk_pg := pgs, ipc := 0, vpc := 0, erase_cnt := erase_cnt b + 1\<rparr>)
     });
     Some (c\<lparr>ftl_ssd := s\<rparr>)
   }"

definition mark_line_free :: "conv_ftl \<Rightarrow> ppa \<Rightarrow> conv_ftl option" where
  "mark_line_free c p = do {
     let l = unat (ppa_blk p);
     c \<leftarrow> mod_line c l (\<lambda>x. x\<lparr>ln_ipc := 0, ln_vpc := 0, last_modified_time := 0, iso_sample_active := False,
            iso_sample_ipc := 0, iso_sample_age_ns := 0, iso_sample_start_ns := 0\<rparr>);
     Some (upd_lm (\<lambda>m. m\<lparr>free_line_list := free_line_list m @ [l], free_line_cnt := free_line_cnt m + 1\<rparr>) c)
   }"

end
