(* ===== verification/Victim_Select.thy ===== *)
theory Victim_Select
  imports Conv_Lines
begin

text \<open>
  The choice of the line to clean. \<^verbatim>\<open>CONV_GC_POLICY\<close> and the other build options of
  \<^verbatim>\<open>conv_ftl.h\<close> are the record \<open>gc_build\<close>: greedy, cost-benefit with one of the age profiles,
  or cost-benefit with the fitted step function.
\<close>

datatype age_profile = RAW_LINEAR | FLAT | CAT7 | COARSE3 | EARLY_SAT | LATE_RAMP | AGGRESSIVE7
datatype gc_policy = GC_POLICY_GREEDY | GC_POLICY_AGE_CB age_profile | GC_POLICY_ISOTONIC

record gc_build =
  CONV_GC_POLICY :: gc_policy
  CONV_ISO_STEP_COUNT :: nat
  CONV_ISO_BOUNDARIES :: "u64 list"
  CONV_ISO_VALUES :: "u64 list"
  CONV_ISO_LOG_SAMPLES :: bool
  CONV_ISO_SAMPLE_HORIZON_NS :: u64

definition default_build :: gc_build where
  "default_build = \<lparr>CONV_GC_POLICY = GC_POLICY_GREEDY, CONV_ISO_STEP_COUNT = 7,
     CONV_ISO_BOUNDARIES = [10000000000, 20000000000, 45000000000, 90000000000, 180000000000, 360000000000],
     CONV_ISO_VALUES = [1, 2, 3, 4, 5, 6, 7], CONV_ISO_LOG_SAMPLES = False,
     CONV_ISO_SAMPLE_HORIZON_NS = 10000000000\<rparr>"

text \<open>
  What the \<^verbatim>\<open>#error\<close> checks of the header enforce: steps between 1 and 7, a first value of 1,
  increasing boundaries and values that do not decrease.
\<close>

definition build_checked :: "gc_build \<Rightarrow> bool" where
  "build_checked bc \<longleftrightarrow> 1 \<le> CONV_ISO_STEP_COUNT bc \<and> CONV_ISO_STEP_COUNT bc \<le> 7 \<and>
     length (CONV_ISO_BOUNDARIES bc) = 6 \<and> length (CONV_ISO_VALUES bc) = 7 \<and>
     CONV_ISO_VALUES bc ! 0 = 1 \<and> CONV_ISO_SAMPLE_HORIZON_NS bc \<noteq> 0 \<and>
     (CONV_ISO_STEP_COUNT bc \<ge> 2 \<longrightarrow> CONV_ISO_BOUNDARIES bc ! 0 \<noteq> 0) \<and>
     (\<forall>k \<in> set [3..<8]. k \<le> CONV_ISO_STEP_COUNT bc \<longrightarrow>
        CONV_ISO_BOUNDARIES bc ! (k - 3) < CONV_ISO_BOUNDARIES bc ! (k - 2)) \<and>
     (\<forall>k \<in> set [2..<8]. k \<le> CONV_ISO_STEP_COUNT bc \<longrightarrow>
        CONV_ISO_VALUES bc ! (k - 2) \<le> CONV_ISO_VALUES bc ! (k - 1))"

definition upd_stats :: "(conv_stats \<Rightarrow> conv_stats) \<Rightarrow> conv_ftl \<Rightarrow> conv_ftl" where
  "upd_stats f c = c\<lparr>stats := f (stats c)\<rparr>"

subsection \<open>Age\<close>

definition line_age_ns :: "conv_ftl \<Rightarrow> line \<Rightarrow> u64" where
  "line_age_ns c ln = (let now = cur_nsecs c in
     if now > last_modified_time ln then now - last_modified_time ln else 0)"

definition hist_incr :: "u64 list \<Rightarrow> nat \<Rightarrow> u64 list" where
  "hist_incr h i = h[i := h ! i + 1]"

definition evidence_record_selected_age :: "u64 \<Rightarrow> bool \<Rightarrow> nat \<Rightarrow> conv_stats \<Rightarrow> conv_stats" where
  "evidence_record_selected_age age_ns has_level level s =
     (let s = s\<lparr>gc_selected_age_ns_sum := gc_selected_age_ns_sum s + age_ns\<rparr>;
          s = (if age_ns < gc_selected_age_ns_min s then s\<lparr>gc_selected_age_ns_min := age_ns\<rparr> else s);
          s = (if age_ns > gc_selected_age_ns_max s then s\<lparr>gc_selected_age_ns_max := age_ns\<rparr> else s)
      in if has_level \<and> level < CONV_AGE_LEVEL_MAX
         then s\<lparr>gc_selected_level_hist := hist_incr (gc_selected_level_hist s) level\<rparr> else s)"

definition evidence_record_candidate :: "u64 \<Rightarrow> nat \<Rightarrow> conv_stats \<Rightarrow> conv_stats" where
  "evidence_record_candidate age_ns level s =
     (let s = s\<lparr>gc_candidate_eval_count := gc_candidate_eval_count s + 1,
                gc_candidate_age_ns_sum := gc_candidate_age_ns_sum s + age_ns\<rparr>;
          s = (if age_ns < gc_candidate_age_ns_min s then s\<lparr>gc_candidate_age_ns_min := age_ns\<rparr> else s);
          s = (if age_ns > gc_candidate_age_ns_max s then s\<lparr>gc_candidate_age_ns_max := age_ns\<rparr> else s)
      in if level < CONV_AGE_LEVEL_MAX
         then s\<lparr>gc_candidate_level_hist := hist_incr (gc_candidate_level_hist s) level\<rparr> else s)"

text \<open>A step function: pairs of an upper bound (exclusive) and a value; the result has the level.\<close>

fun age_step_from :: "u64 \<Rightarrow> (u64 \<times> u64) list \<Rightarrow> nat \<Rightarrow> (u64 \<times> nat) option" where
  "age_step_from age_ns [] i = None"
| "age_step_from age_ns ((upper_age_ns, val) # steps) i =
     (if age_ns < upper_age_ns then Some (val, i) else age_step_from age_ns steps (i + 1))"

definition age_step_lookup :: "u64 \<Rightarrow> (u64 \<times> u64) list \<Rightarrow> (u64 \<times> nat) option" where
  "age_step_lookup age_ns steps = do {
     nv_assert (length steps > 0);
     case age_step_from age_ns steps 0 of
       Some r \<Rightarrow> Some r
     | None \<Rightarrow> Some (snd (steps ! (length steps - 1)), length steps - 1)
   }"

fun cb_age_steps :: "age_profile \<Rightarrow> (u64 \<times> u64) list" where
  "cb_age_steps CAT7 = [(10000000000, 1), (20000000000, 2), (45000000000, 3), (90000000000, 4),
     (180000000000, 5), (360000000000, 6), (- 1, 7)]"
| "cb_age_steps COARSE3 = [(20000000000, 1), (180000000000, 2), (- 1, 3)]"
| "cb_age_steps EARLY_SAT = [(1000000, 1), (2000000, 2), (4000000, 3), (8000000, 4), (16000000, 5),
     (32000000, 6), (- 1, 7)]"
| "cb_age_steps LATE_RAMP = [(60000000000, 1), (300000000000, 2), (900000000000, 3), (1800000000000, 4),
     (3600000000000, 5), (7200000000000, 6), (- 1, 7)]"
| "cb_age_steps AGGRESSIVE7 = [(10000000000, 1), (20000000000, 2), (45000000000, 4), (90000000000, 8),
     (180000000000, 16), (360000000000, 32), (- 1, 64)]"
| "cb_age_steps RAW_LINEAR = []"
| "cb_age_steps FLAT = []"

definition cb_age_value :: "age_profile \<Rightarrow> u64 \<Rightarrow> (u64 \<times> nat) option" where
  "cb_age_value prof age_ns = (case prof of
     RAW_LINEAR \<Rightarrow> Some (if age_ns \<noteq> 0 then age_ns else 1, 0)
   | FLAT \<Rightarrow> Some (1, 0)
   | _ \<Rightarrow> age_step_lookup age_ns (cb_age_steps prof))"

fun iso_step_from :: "u64 \<Rightarrow> u64 list \<Rightarrow> u64 list \<Rightarrow> nat \<Rightarrow> nat \<Rightarrow> (u64 \<times> nat) option" where
  "iso_step_from age_ns bs vs i 0 = do { v \<leftarrow> aget vs i; Some (v, i) }"
| "iso_step_from age_ns bs vs i (Suc n) = do {
     b \<leftarrow> aget bs i;
     if age_ns < b then do { v \<leftarrow> aget vs i; Some (v, i) } else iso_step_from age_ns bs vs (i + 1) n
   }"

text \<open>The loop runs over the first \<open>CONV_ISO_STEP_COUNT - 1\<close> boundaries and falls to the last value.\<close>

definition isotonic_age_value :: "gc_build \<Rightarrow> u64 \<Rightarrow> (u64 \<times> nat) option" where
  "isotonic_age_value bc age_ns =
     iso_step_from age_ns (CONV_ISO_BOUNDARIES bc) (CONV_ISO_VALUES bc) 0 (CONV_ISO_STEP_COUNT bc - 1)"

definition selected_age_value :: "gc_build \<Rightarrow> u64 \<Rightarrow> (u64 \<times> nat) option" where
  "selected_age_value bc age_ns = (case CONV_GC_POLICY bc of
     GC_POLICY_AGE_CB prof \<Rightarrow> cb_age_value prof age_ns
   | _ \<Rightarrow> isotonic_age_value bc age_ns)"

definition gc_age_step_count :: "gc_build \<Rightarrow> nat" where
  "gc_age_step_count bc = (case CONV_GC_POLICY bc of
     GC_POLICY_GREEDY \<Rightarrow> 0
   | GC_POLICY_ISOTONIC \<Rightarrow> CONV_ISO_STEP_COUNT bc
   | GC_POLICY_AGE_CB RAW_LINEAR \<Rightarrow> 0
   | GC_POLICY_AGE_CB FLAT \<Rightarrow> 1
   | GC_POLICY_AGE_CB COARSE3 \<Rightarrow> 3
   | GC_POLICY_AGE_CB _ \<Rightarrow> 7)"

definition gc_age_profile_id :: "gc_build \<Rightarrow> int" where
  "gc_age_profile_id bc = (case CONV_GC_POLICY bc of
     GC_POLICY_GREEDY \<Rightarrow> - 1
   | GC_POLICY_ISOTONIC \<Rightarrow> - 2
   | GC_POLICY_AGE_CB RAW_LINEAR \<Rightarrow> 0
   | GC_POLICY_AGE_CB FLAT \<Rightarrow> 1
   | GC_POLICY_AGE_CB CAT7 \<Rightarrow> 2
   | GC_POLICY_AGE_CB COARSE3 \<Rightarrow> 3
   | GC_POLICY_AGE_CB EARLY_SAT \<Rightarrow> 4
   | GC_POLICY_AGE_CB LATE_RAMP \<Rightarrow> 5
   | GC_POLICY_AGE_CB AGGRESSIVE7 \<Rightarrow> 6)"

subsection \<open>The score\<close>

text \<open>64-bit arithmetic; the code clamps to the largest value where a product would wrap.\<close>

definition cost_benefit_score :: "line \<Rightarrow> u64 \<Rightarrow> u64" where
  "cost_benefit_score ln age_value =
     (let max_u64 = - 1;
          ipc = of_nat (ln_ipc ln);
          divisor = of_nat (ln_vpc ln) + 1
      in if age_value = 0 \<or> ipc = 0 then 0
         else
           let quotient = age_value div divisor;
               remainder = age_value mod divisor
           in if quotient > max_u64 div ipc then max_u64
              else
                let score = quotient * ipc;
                    tail = (if remainder > max_u64 div ipc then max_u64 div divisor
                            else (remainder * ipc) div divisor)
                in if score > max_u64 - tail then max_u64 else score + tail)"

subsection \<open>Samples for the offline fit\<close>

text \<open>
  Both scans run over the slots 1 to \<open>pq_size\<close> of the queue's array, the slot \<open>pq_size\<close>
  included; dereferencing what is no pointer is a fault.
\<close>

definition isotonic_sample_line :: "gc_build \<Rightarrow> conv_ftl \<Rightarrow> nat \<Rightarrow> conv_ftl option" where
  "isotonic_sample_line bc c l = do {
     line \<leftarrow> aget (lines (lm c)) l;
     let now = cur_nsecs c;
     if \<not> iso_sample_active line then
       mod_line c l (\<lambda>x. x\<lparr>iso_sample_active := True, iso_sample_ipc := ln_ipc x,
         iso_sample_age_ns := line_age_ns c x, iso_sample_start_ns := now\<rparr>)
     else do {
       let elapsed = (if now > iso_sample_start_ns line then now - iso_sample_start_ns line else 0);
       if elapsed < CONV_ISO_SAMPLE_HORIZON_NS bc then Some c
       else do {
         let c = upd_stats (\<lambda>s. s\<lparr>iso_samples_completed := iso_samples_completed s + 1\<rparr>) c;
         mod_line c l (\<lambda>x. x\<lparr>iso_sample_active := False\<rparr>)
       }
     }
   }"

definition isotonic_sample_candidates :: "gc_build \<Rightarrow> conv_ftl \<Rightarrow> conv_ftl option" where
  "isotonic_sample_candidates bc c =
     (if \<not> CONV_ISO_LOG_SAMPLES bc then Some c
      else
        let pq = victim_line_pq (lm c) in
        opt_fold (\<lambda>c i. do {
          e \<leftarrow> aget (pq_d pq) i;
          case e of
            LNull \<Rightarrow> Some c
          | LJunk \<Rightarrow> None
          | LPtr l \<Rightarrow> isotonic_sample_line bc c l
        }) c [1..<pq_size pq + 1])"

definition isotonic_censor_selected :: "gc_build \<Rightarrow> conv_ftl \<Rightarrow> nat \<Rightarrow> conv_ftl option" where
  "isotonic_censor_selected bc c l =
     (if \<not> CONV_ISO_LOG_SAMPLES bc then Some c
      else do {
        line \<leftarrow> aget (lines (lm c)) l;
        if \<not> iso_sample_active line then Some c
        else mod_line (upd_stats (\<lambda>s. s\<lparr>iso_samples_censored := iso_samples_censored s + 1\<rparr>) c) l
               (\<lambda>x. x\<lparr>iso_sample_active := False\<rparr>)
      })"

subsection \<open>Greedy selection\<close>

text \<open>A pointer of the queue that is dereferenced.\<close>

definition ptr_line :: "line_ptr \<Rightarrow> nat option" where
  "ptr_line e = (case e of LPtr l \<Rightarrow> Some l | _ \<Rightarrow> None)"

definition select_victim_greedy :: "gc_build \<Rightarrow> conv_ftl \<Rightarrow> bool \<Rightarrow> (nat option \<times> conv_ftl) option" where
  "select_victim_greedy bc c force = do {
     top \<leftarrow> pqueue_peek (victim_line_pq (lm c));
     case top of
       None \<Rightarrow> Some (None, c)
     | Some LNull \<Rightarrow> Some (None, c)
     | Some e \<Rightarrow> do {
         l \<leftarrow> ptr_line e;
         victim_line \<leftarrow> aget (lines (lm c)) l;
         if \<not> force \<and> ln_vpc victim_line > pgs_per_line (spp c) div 8 then Some (None, c)
         else do {
           c \<leftarrow> isotonic_sample_candidates bc c;
           let selected_age_ns = line_age_ns c victim_line;
           let n = of_nat (pq_size (victim_line_pq (lm c)));
           let c = upd_stats (\<lambda>s. s\<lparr>
             gc_candidates_available_sum := gc_candidates_available_sum s + n,
             gc_greedy_ref_vpc_sum := gc_greedy_ref_vpc_sum s + of_nat (ln_vpc victim_line),
             gc_greedy_ref_age_ns_sum := gc_greedy_ref_age_ns_sum s + selected_age_ns\<rparr>) c;
           let c = upd_stats (evidence_record_selected_age selected_age_ns False 0) c;
           (popped, pq, ls) \<leftarrow> pqueue_pop (victim_line_pq (lm c)) (lines (lm c));
           let c = upd_lm (\<lambda>m. m\<lparr>lines := ls, victim_line_pq := pq\<rparr>) c;
           c \<leftarrow> mod_line c l (\<lambda>x. x\<lparr>ln_pos := 0\<rparr>);
           Some (Some l, upd_lm (\<lambda>m. m\<lparr>victim_line_cnt := victim_line_cnt m - 1\<rparr>) c)
         }
       }
   }"

subsection \<open>Cost-benefit selection\<close>

record candidate =
  best_line :: nat
  best_score :: u64
  best_age_ns :: u64
  best_age_value :: u64
  best_age_level :: nat

definition better_candidate :: "u64 \<Rightarrow> line \<Rightarrow> u64 \<Rightarrow> line \<Rightarrow> bool" where
  "better_candidate score ln bscore best \<longleftrightarrow> score > bscore \<or>
     (score = bscore \<and> ln_vpc ln < ln_vpc best) \<or>
     (score = bscore \<and> ln_vpc ln = ln_vpc best \<and> ln_id ln < ln_id best)"

text \<open>One iteration of the scan, on the slot \<open>i\<close>.\<close>

definition scan_candidate ::
  "gc_build \<Rightarrow> conv_ftl \<times> candidate option \<Rightarrow> nat \<Rightarrow> (conv_ftl \<times> candidate option) option" where
  "scan_candidate bc = (\<lambda>(c, best) i. do {
     e \<leftarrow> aget (pq_d (victim_line_pq (lm c))) i;
     case e of
       LNull \<Rightarrow> Some (c, best)
     | LJunk \<Rightarrow> None
     | LPtr l \<Rightarrow> do {
         ln \<leftarrow> aget (lines (lm c)) l;
         let age_ns = line_age_ns c ln;
         (age_value, age_level) \<leftarrow> selected_age_value bc age_ns;
         let c = upd_stats (evidence_record_candidate age_ns age_level) c;
         let score = cost_benefit_score ln age_value;
         let new = Some \<lparr>best_line = l, best_score = score, best_age_ns = age_ns, best_age_value = age_value,
                         best_age_level = age_level\<rparr>;
         case best of
           None \<Rightarrow> Some (c, new)
         | Some b \<Rightarrow> do {
             bln \<leftarrow> aget (lines (lm c)) (best_line b);
             Some (c, if better_candidate score ln (best_score b) bln then new else best)
           }
       }
   })"

definition select_victim_cost_benefit :: "gc_build \<Rightarrow> conv_ftl \<Rightarrow> bool \<Rightarrow> (nat option \<times> conv_ftl) option" where
  "select_victim_cost_benefit bc c force =
     (if pq_size (victim_line_pq (lm c)) = 0 then Some (None, c)
      else do {
        top \<leftarrow> pqueue_peek (victim_line_pq (lm c));
        case top of
          None \<Rightarrow> Some (None, c)
        | Some LNull \<Rightarrow> Some (None, c)
        | Some e \<Rightarrow> do {
            g \<leftarrow> ptr_line e;
            greedy \<leftarrow> aget (lines (lm c)) g;
            if \<not> force \<and> ln_vpc greedy > pgs_per_line (spp c) div 8 then Some (None, c)
            else do {
              c \<leftarrow> isotonic_sample_candidates bc c;
              let greedy_age_ns = line_age_ns c greedy;
              let n = pq_size (victim_line_pq (lm c));
              let c = upd_stats (\<lambda>s. s\<lparr>gc_candidates_available_sum := gc_candidates_available_sum s + of_nat n\<rparr>) c;
              (c, best) \<leftarrow> opt_fold (scan_candidate bc) (c, None) [1..<n + 1];
              case best of
                None \<Rightarrow> Some (None, c)
              | Some b \<Rightarrow> do {
                  bln \<leftarrow> aget (lines (lm c)) (best_line b);
                  let c = upd_stats (\<lambda>s. s\<lparr>
                    gc_diff_from_greedy := gc_diff_from_greedy s + (if g \<noteq> best_line b then 1 else 0),
                    gc_greedy_ref_vpc_sum := gc_greedy_ref_vpc_sum s + of_nat (ln_vpc greedy),
                    gc_greedy_ref_age_ns_sum := gc_greedy_ref_age_ns_sum s + greedy_age_ns,
                    gc_extra_vpc_vs_greedy_sum := gc_extra_vpc_vs_greedy_sum s +
                      (if ln_vpc bln > ln_vpc greedy then of_nat (ln_vpc bln - ln_vpc greedy) else 0)\<rparr>) c;
                  let c = upd_stats (evidence_record_selected_age (best_age_ns b) True (best_age_level b)) c;
                  let c = upd_stats (\<lambda>s. s\<lparr>
                    gc_selected_age_value_sum := gc_selected_age_value_sum s + best_age_value b,
                    gc_selected_score_sum := gc_selected_score_sum s + best_score b\<rparr>) c;
                  (pq, ls) \<leftarrow> pqueue_remove (victim_line_pq (lm c)) (lines (lm c)) (LPtr (best_line b));
                  let c = upd_lm (\<lambda>m. m\<lparr>lines := ls, victim_line_pq := pq\<rparr>) c;
                  c \<leftarrow> mod_line c (best_line b) (\<lambda>x. x\<lparr>ln_pos := 0\<rparr>);
                  Some (Some (best_line b), upd_lm (\<lambda>m. m\<lparr>victim_line_cnt := victim_line_cnt m - 1\<rparr>) c)
                }
            }
          }
      })"

definition select_victim_line :: "gc_build \<Rightarrow> conv_ftl \<Rightarrow> bool \<Rightarrow> (nat option \<times> conv_ftl) option" where
  "select_victim_line bc c force = (case CONV_GC_POLICY bc of
     GC_POLICY_GREEDY \<Rightarrow> select_victim_greedy bc c force
   | _ \<Rightarrow> select_victim_cost_benefit bc c force)"

end
