(* ===== verification/Conv_GC.thy ===== *)
theory Conv_GC
  imports Victim_Select
begin

text \<open>
  Garbage collection: the valid pages of a victim line are copied to the GC write pointer,
  flash page by flash page over all channels and LUNs, the blocks are erased with the last one,
  and the line becomes free.
\<close>

definition advance_nand :: "conv_ftl \<Rightarrow> nand_cmd \<Rightarrow> (u64 \<times> conv_ftl) option" where
  "advance_nand c n = do { (t, s) \<leftarrow> ssd_advance_nand (ftl_ssd c) n; Some (t, c\<lparr>ftl_ssd := s\<rparr>) }"

definition gc_nand_cmd :: "nand_op \<Rightarrow> nat \<Rightarrow> ppa \<Rightarrow> nand_cmd" where
  "gc_nand_cmd op sz p = \<lparr>nc_type = GC_IO, nc_cmd = op, xfer_size = of_nat sz, stime = 0,
     interleave_pci_dma = False, nc_ppa = p\<rparr>"

definition gc_read_page :: "conv_ftl \<Rightarrow> ppa \<Rightarrow> conv_ftl option" where
  "gc_read_page c p =
     (if enable_gc_delay (cp c)
      then do { (t, c) \<leftarrow> advance_nand c (gc_nand_cmd NAND_READ (pgsz (spp c)) p); Some c }
      else Some c)"

definition gc_write_page :: "conv_ftl \<Rightarrow> ppa \<Rightarrow> conv_ftl option" where
  "gc_write_page c old_ppa = do {
     lpn \<leftarrow> get_rmap_ent c old_ppa;
     nv_assert (valid_lpn c lpn);
     new_ppa \<leftarrow> get_new_page c GC_IO;
     c \<leftarrow> set_maptbl_ent c lpn new_ppa;
     c \<leftarrow> set_rmap_ent c lpn new_ppa;
     c \<leftarrow> mark_page_valid c new_ppa;
     let c = upd_stats (\<lambda>s. s\<lparr>gc_valid_copied := gc_valid_copied s + 1\<rparr>) c;
     c \<leftarrow> advance_write_pointer c GC_IO;
     if enable_gc_delay (cp c) then do {
       last \<leftarrow> last_pg_in_wordline c new_ppa;
       (t, c) \<leftarrow> advance_nand c (if last then gc_nand_cmd NAND_WRITE (pgsz (spp c) * pgs_per_oneshotpg (spp c)) new_ppa
                                 else gc_nand_cmd NAND_NOP 0 new_ppa);
       Some c
     } else Some c
   }"

definition ppa_at :: "ppa \<Rightarrow> nat \<Rightarrow> ppa" where
  "ppa_at p pg = p\<lparr>ppa_pg := of_nat pg\<rparr>"

text \<open>The page-wise variant, which no caller uses.\<close>

definition clean_one_block :: "conv_ftl \<Rightarrow> ppa \<Rightarrow> conv_ftl option" where
  "clean_one_block c p = do {
     (c, cnt) \<leftarrow> opt_fold (\<lambda>(c, cnt) pg. do {
       pg_iter \<leftarrow> get_pg (ftl_ssd c) (ppa_at p pg);
       nv_assert (status pg_iter \<noteq> PG_FREE);
       if status pg_iter = PG_VALID then do {
         c \<leftarrow> gc_read_page c (ppa_at p pg);
         c \<leftarrow> gc_write_page c (ppa_at p pg);
         Some (c, cnt + 1)
       } else Some (c, cnt)
     }) (c, 0) [0..<pgs_per_blk (spp c)];
     b \<leftarrow> get_blk (ftl_ssd c) p;
     nv_assert (vpc b = cnt);
     Some c
   }"

text \<open>\<^verbatim>\<open>ppa_copy.g.pg++\<close> after \<open>i\<close> iterations.\<close>

definition ppa_plus :: "ppa \<Rightarrow> nat \<Rightarrow> ppa" where
  "ppa_plus p i = p\<lparr>ppa_pg := ppa_pg p + of_nat i\<rparr>"

definition count_valid_step :: "conv_ftl \<Rightarrow> ppa \<Rightarrow> nat \<Rightarrow> nat \<Rightarrow> nat option" where
  "count_valid_step c p cnt i = do {
     pg_iter \<leftarrow> get_pg (ftl_ssd c) (ppa_plus p i);
     nv_assert (status pg_iter \<noteq> PG_FREE);
     Some (if status pg_iter = PG_VALID then cnt + 1 else cnt)
   }"

definition copy_valid_step :: "ppa \<Rightarrow> conv_ftl \<Rightarrow> nat \<Rightarrow> conv_ftl option" where
  "copy_valid_step p c i = do {
     pg_iter \<leftarrow> get_pg (ftl_ssd c) (ppa_plus p i);
     if status pg_iter = PG_VALID then gc_write_page c (ppa_plus p i) else Some c
   }"

definition clean_one_flashpg :: "conv_ftl \<Rightarrow> ppa \<Rightarrow> conv_ftl option" where
  "clean_one_flashpg c p = do {
     cnt \<leftarrow> opt_fold (count_valid_step c p) 0 [0..<pgs_per_flashpg (spp c)];
     if cnt = 0 then Some c
     else do {
       c \<leftarrow> (if enable_gc_delay (cp c)
             then do { (t, c) \<leftarrow> advance_nand c (gc_nand_cmd NAND_READ (pgsz (spp c) * cnt) p); Some c }
             else Some c);
       opt_fold (copy_valid_step p) c [0..<pgs_per_flashpg (spp c)]
     }
   }"

definition set_lun_gc_endtime :: "conv_ftl \<Rightarrow> ppa \<Rightarrow> conv_ftl option" where
  "set_lun_gc_endtime c p = do {
     s \<leftarrow> upd_lun (ftl_ssd c) p (\<lambda>lun. Some (lun\<lparr>lun_gc_endtime := next_lun_avail_time lun\<rparr>));
     Some (c\<lparr>ftl_ssd := s\<rparr>)
   }"

text \<open>The body of the innermost loop of \<^verbatim>\<open>do_gc\<close>, for the block of one LUN.\<close>

definition gc_lun :: "nat \<Rightarrow> nat \<Rightarrow> nat \<Rightarrow> conv_ftl \<Rightarrow> nat \<Rightarrow> conv_ftl option" where
  "gc_lun blk flashpg ch c lun = do {
     let p = \<lparr>ppa_pg = of_nat (flashpg * pgs_per_flashpg (spp c)), ppa_blk = of_nat blk, ppa_pl = 0,
              ppa_lun = of_nat lun, ppa_ch = of_nat ch, ppa_rsv = 0\<rparr>;
     lunp \<leftarrow> get_lun (ftl_ssd c) p;
     c \<leftarrow> clean_one_flashpg c p;
     if flashpg = flashpgs_per_blk (spp c) - 1 then do {
       c \<leftarrow> mark_block_free c p;
       c \<leftarrow> (if enable_gc_delay (cp c)
             then do { (t, c) \<leftarrow> advance_nand c (gc_nand_cmd NAND_ERASE 0 p); Some c }
             else Some c);
       set_lun_gc_endtime c p
     } else Some c
   }"

definition gc_copy_line :: "conv_ftl \<Rightarrow> nat \<Rightarrow> conv_ftl option" where
  "gc_copy_line c blk =
     opt_fold (\<lambda>c flashpg.
       opt_fold (\<lambda>c ch.
         opt_fold (gc_lun blk flashpg ch) c [0..<luns_per_ch (spp c)])
         c [0..<nchs (spp c)])
       c [0..<flashpgs_per_blk (spp c)]"

definition do_gc :: "gc_build \<Rightarrow> conv_ftl \<Rightarrow> bool \<Rightarrow> (int \<times> conv_ftl) option" where
  "do_gc bc c force = do {
     (victim, c) \<leftarrow> select_victim_line bc c force;
     case victim of
       None \<Rightarrow> Some (- 1, c)
     | Some v \<Rightarrow> do {
         c \<leftarrow> isotonic_censor_selected bc c v;
         victim_line \<leftarrow> aget (lines (lm c)) v;
         let n = of_nat (ln_vpc victim_line);
         let c = upd_stats (\<lambda>s. s\<lparr>
           gc_cnt := gc_cnt s + 1,
           gc_victim_vpc_sum := gc_victim_vpc_sum s + n,
           gc_forced_cnt := (if force then gc_forced_cnt s + 1 else gc_forced_cnt s),
           gc_zero_vpc_victim_cnt := (if ln_vpc victim_line = 0 then gc_zero_vpc_victim_cnt s + 1
                                      else gc_zero_vpc_victim_cnt s),
           gc_victim_vpc_min := (if n < gc_victim_vpc_min s then n else gc_victim_vpc_min s),
           gc_victim_vpc_max := (if n > gc_victim_vpc_max s then n else gc_victim_vpc_max s)\<rparr>) c;
         let c = c\<lparr>wfc := (wfc c)\<lparr>credits_to_refill := of_nat (ln_ipc victim_line)\<rparr>\<rparr>;
         c \<leftarrow> gc_copy_line c (ln_id victim_line);
         c \<leftarrow> mark_line_free c \<lparr>ppa_pg = 0, ppa_blk = of_nat (ln_id victim_line), ppa_pl = 0,
                                ppa_lun = 0, ppa_ch = 0, ppa_rsv = 0\<rparr>;
         Some (0, c)
       }
   }"

definition foreground_gc :: "gc_build \<Rightarrow> conv_ftl \<Rightarrow> conv_ftl option" where
  "foreground_gc bc c =
     (if should_gc_high c then do { (r, c) \<leftarrow> do_gc bc c True; Some c } else Some c)"

subsection \<open>Write credits\<close>

definition consume_write_credit :: "conv_ftl \<Rightarrow> conv_ftl" where
  "consume_write_credit c = c\<lparr>wfc := (wfc c)\<lparr>write_credits := write_credits (wfc c) - 1\<rparr>\<rparr>"

definition check_and_refill_write_credit :: "gc_build \<Rightarrow> conv_ftl \<Rightarrow> conv_ftl option" where
  "check_and_refill_write_credit bc c =
     (if write_credits (wfc c) \<le> 0 then do {
        c \<leftarrow> foreground_gc bc c;
        Some (c\<lparr>wfc := (wfc c)\<lparr>write_credits := write_credits (wfc c) + credits_to_refill (wfc c)\<rparr>\<rparr>)
      } else Some c)"

end
