(* ===== verification/Conv_IO.thy ===== *)
theory Conv_IO
  imports Conv_GC
begin

unbundle bit_operations_syntax

text \<open>
  The handlers of the NVMe I/O commands of the page-mapping FTL: read, write, deallocate and
  flush, and their dispatch. A write hands the release of buffer space to the I/O workers
  (\<^verbatim>\<open>schedule_internal_operation\<close> of \<^verbatim>\<open>io.c\<close>); these requests are part of its result.
\<close>

record nvme_rw_cmd =
  opcode :: nat
  slba :: u64
  rw_length :: u16
  rw_control :: u16
  dsm_nr :: u32
  dsm_attributes :: u32

record nvmev_request =
  req_cmd :: nvme_rw_cmd
  sq_id :: u32
  nsecs_start :: u64

record nvmev_result =
  ret_status :: u32
  nsecs_target :: u64

record internal_op =
  op_sqid :: u32
  op_nsecs_target :: u64
  op_buffs_to_release :: u64

definition nvme_cmd_flush :: nat where "nvme_cmd_flush = 0"
definition nvme_cmd_write :: nat where "nvme_cmd_write = 1"
definition nvme_cmd_read :: nat where "nvme_cmd_read = 2"
definition nvme_cmd_dsm :: nat where "nvme_cmd_dsm = 9"

definition NVME_RW_FUA :: u16 where "NVME_RW_FUA = 2 ^ 14"
definition NVME_DSMGMT_AD :: u32 where "NVME_DSMGMT_AD = 2 ^ 2"
definition NVME_SC_SUCCESS :: u32 where "NVME_SC_SUCCESS = 0"
definition NVME_SC_INTERNAL :: u32 where "NVME_SC_INTERNAL = 6"

definition LBA_TO_BYTE :: "u64 \<Rightarrow> u64" where "LBA_TO_BYTE n = push_bit 9 n"

text \<open>The page numbers from \<open>a\<close> to \<open>b\<close>, both included.\<close>

definition lpn_range :: "u64 \<Rightarrow> u64 \<Rightarrow> u64 list" where
  "lpn_range a b = map of_nat [unat a..<unat b + 1]"

definition start_lpn_of :: "conv_ftl \<Rightarrow> u64 \<Rightarrow> u64" where
  "start_lpn_of c lba = lba div of_nat (secs_per_pg (spp c))"

definition end_lpn_of :: "conv_ftl \<Rightarrow> u64 \<Rightarrow> u64 \<Rightarrow> u64" where
  "end_lpn_of c lba nr_lba = (lba + nr_lba - 1) div of_nat (secs_per_pg (spp c))"

definition cmd_nr_lba :: "nvme_rw_cmd \<Rightarrow> u64" where
  "cmd_nr_lba cmd = ucast (rw_length cmd) + 1"

subsection \<open>Read\<close>

definition blk_in_ssd :: "ppa \<Rightarrow> u64" where
  "blk_in_ssd p = take_bit 40 (drop_bit 16 (ppa_word p))"

definition is_same_flash_page :: "conv_ftl \<Rightarrow> ppa \<Rightarrow> ppa \<Rightarrow> bool option" where
  "is_same_flash_page c p1 p2 = do {
     pg1 \<leftarrow> ckdiv (unat (ppa_pg p1)) (pgs_per_flashpg (spp c));
     pg2 \<leftarrow> ckdiv (unat (ppa_pg p2)) (pgs_per_flashpg (spp c));
     Some (blk_in_ssd p1 = blk_in_ssd p2 \<and> pg1 = pg2)
   }"

text \<open>The read of the flash page that was being collected: \<open>sz\<close> bytes at \<open>prev\<close>.\<close>

definition issue_read :: "conv_ftl \<Rightarrow> u64 \<Rightarrow> u32 \<Rightarrow> ppa \<Rightarrow> u64 \<Rightarrow> (conv_ftl \<times> u64) option" where
  "issue_read c st sz prev latest =
     (if sz > 0 then do {
        (done, c) \<leftarrow> advance_nand c \<lparr>nc_type = USER_IO, nc_cmd = NAND_READ, xfer_size = ucast sz, stime = st,
                       interleave_pci_dma = True, nc_ppa = prev\<rparr>;
        Some (c, max64 done latest)
      } else Some (c, latest))"

definition read_lpn :: "u64 \<Rightarrow> conv_ftl \<times> u32 \<times> ppa \<times> u64 \<Rightarrow> u64 \<Rightarrow> (conv_ftl \<times> u32 \<times> ppa \<times> u64) option" where
  "read_lpn st = (\<lambda>(c, sz, prev, latest) lpn. do {
     cur \<leftarrow> get_maptbl_ent c lpn;
     if \<not> mapped_ppa cur \<or> \<not> valid_ppa c cur then Some (c, sz, prev, latest)
     else do {
       same \<leftarrow> (if mapped_ppa prev then is_same_flash_page c cur prev else Some False);
       if same then Some (c, sz + of_nat (pgsz (spp c)), prev, latest)
       else do {
         (c, latest) \<leftarrow> issue_read c st sz prev latest;
         Some (c, of_nat (pgsz (spp c)), cur, latest)
       }
     }
   })"

definition conv_read :: "conv_ftl \<Rightarrow> nvmev_request \<Rightarrow> nvmev_result \<Rightarrow> (bool \<times> nvmev_result \<times> conv_ftl) option" where
  "conv_read c req ret = do {
     let lba = slba (req_cmd req);
     let nr_lba = cmd_nr_lba (req_cmd req);
     let start_lpn = start_lpn_of c lba;
     let end_lpn = end_lpn_of c lba nr_lba;
     if unat end_lpn \<ge> tt_pgs (spp c) then Some (False, ret, c)
     else do {
       let st = nsecs_start req + of_nat (if LBA_TO_BYTE nr_lba \<le> of_nat (KB 4) then fw_4kb_rd_lat (spp c)
                                          else fw_rd_lat (spp c));
       (c, latest) \<leftarrow>
         (if start_lpn \<le> end_lpn then do {
            prev \<leftarrow> get_maptbl_ent c start_lpn;
            (c, sz, prev, latest) \<leftarrow> opt_fold (read_lpn st) (c, 0, prev, nsecs_start req) (lpn_range start_lpn end_lpn);
            issue_read c st sz prev latest
          } else Some (c, nsecs_start req));
       Some (True, ret\<lparr>nsecs_target := latest, ret_status := NVME_SC_SUCCESS\<rparr>, c)
     }
   }"

subsection \<open>Write\<close>

text \<open>The part of a write that changes the mapping of one page.\<close>

definition write_page :: "conv_ftl \<Rightarrow> u64 \<Rightarrow> (ppa \<times> conv_ftl) option" where
  "write_page c lpn = do {
     old \<leftarrow> get_maptbl_ent c lpn;
     c \<leftarrow> (if mapped_ppa old then do {
             c \<leftarrow> mark_page_invalid c old;
             set_rmap_ent c INVALID_LPN old
           } else Some c);
     p \<leftarrow> get_new_page c USER_IO;
     c \<leftarrow> set_maptbl_ent c lpn p;
     c \<leftarrow> set_rmap_ent c lpn p;
     c \<leftarrow> mark_page_valid c p;
     let c = upd_stats (\<lambda>s. s\<lparr>host_write_pages := host_write_pages s + 1\<rparr>) c;
     c \<leftarrow> advance_write_pointer c USER_IO;
     Some (p, c)
   }"

definition write_lpn :: "gc_build \<Rightarrow> u32 \<Rightarrow> u64 \<Rightarrow> conv_ftl \<times> u64 \<times> internal_op list \<Rightarrow> u64 \<Rightarrow>
    (conv_ftl \<times> u64 \<times> internal_op list) option" where
  "write_lpn bc sqid st = (\<lambda>(c, latest, ops) lpn. do {
     let c = c\<lparr>cur_nsecs := latest\<rparr>;
     (p, c) \<leftarrow> write_page c lpn;
     last \<leftarrow> last_pg_in_wordline c p;
     (c, latest, ops) \<leftarrow>
       (if last then do {
          let bytes = pgs_per_oneshotpg (spp c) * pgsz (spp c);
          (done, c) \<leftarrow> advance_nand c \<lparr>nc_type = USER_IO, nc_cmd = NAND_WRITE, xfer_size = of_nat bytes, stime = st,
                         interleave_pci_dma = False, nc_ppa = p\<rparr>;
          Some (c, max64 done latest,
                ops @ [\<lparr>op_sqid = sqid, op_nsecs_target = done, op_buffs_to_release = of_nat bytes\<rparr>])
        } else Some (c, latest, ops));
     let c = consume_write_credit c;
     c \<leftarrow> check_and_refill_write_credit bc c;
     Some (c, latest, ops)
   })"

definition conv_write :: "gc_build \<Rightarrow> conv_ftl \<Rightarrow> nvmev_request \<Rightarrow> nvmev_result \<Rightarrow>
    (bool \<times> nvmev_result \<times> internal_op list \<times> conv_ftl) option" where
  "conv_write bc c req ret = do {
     let lba = slba (req_cmd req);
     let nr_lba = cmd_nr_lba (req_cmd req);
     let start_lpn = start_lpn_of c lba;
     let end_lpn = end_lpn_of c lba nr_lba;
     if unat end_lpn \<ge> tt_pgs (spp c) then Some (False, ret, [], c)
     else do {
       (allocated, wbuf) \<leftarrow> buffer_allocate (write_buffer (ftl_ssd c)) (LBA_TO_BYTE nr_lba);
       let c = c\<lparr>ftl_ssd := (ftl_ssd c)\<lparr>write_buffer := wbuf\<rparr>\<rparr>;
       if ucast allocated < LBA_TO_BYTE nr_lba then Some (False, ret, [], c)
       else do {
         (latest, s) \<leftarrow> ssd_advance_write_buffer (ftl_ssd c) (nsecs_start req) (LBA_TO_BYTE nr_lba);
         let c = c\<lparr>ftl_ssd := s\<rparr>;
         let nsecs_xfer_completed = latest;
         (c, latest, ops) \<leftarrow> opt_fold (write_lpn bc (sq_id req) latest) (c, latest, []) (lpn_range start_lpn end_lpn);
         let target = (if rw_control (req_cmd req) AND NVME_RW_FUA \<noteq> 0 \<or> \<not> write_early_completion (spp c)
                       then latest else nsecs_xfer_completed);
         Some (True, ret\<lparr>nsecs_target := target, ret_status := NVME_SC_SUCCESS\<rparr>, ops, c)
       }
     }
   }"

subsection \<open>Deallocate\<close>

definition discard_lpn :: "u64 \<Rightarrow> conv_ftl \<Rightarrow> u64 \<Rightarrow> conv_ftl option" where
  "discard_lpn now c lpn = do {
     p \<leftarrow> get_maptbl_ent c lpn;
     if \<not> mapped_ppa p \<or> \<not> valid_ppa c p then Some c
     else do {
       let c = c\<lparr>cur_nsecs := now\<rparr>;
       c \<leftarrow> mark_page_invalid c p;
       c \<leftarrow> set_rmap_ent c INVALID_LPN p;
       m \<leftarrow> aset (maptbl c) (unat lpn) (word_ppa UNMAPPED_PPA);
       let c = c\<lparr>maptbl := m\<rparr>;
       Some (upd_stats (\<lambda>s. s\<lparr>dsm_invalidated_pages := dsm_invalidated_pages s + 1\<rparr>) c)
     }
   }"

definition discard_range :: "u64 \<Rightarrow> conv_ftl \<Rightarrow> u64 \<times> u32 \<Rightarrow> conv_ftl option" where
  "discard_range now c r =
     (let (sl, nlb) = r in
      if nlb = 0 then Some c
      else
        let start_lpn = start_lpn_of c sl; end_lpn = end_lpn_of c sl (ucast nlb) in
        if unat end_lpn \<ge> tt_pgs (spp c) then Some c
        else opt_fold (discard_lpn now) c (lpn_range start_lpn end_lpn))"

text \<open>\<open>ranges\<close> is what the host's page at \<^verbatim>\<open>prp1\<close> holds; \<open>None\<close> when it cannot be mapped.\<close>

definition conv_discard :: "(nat \<Rightarrow> u64 \<times> u32) option \<Rightarrow> conv_ftl \<Rightarrow> nvmev_request \<Rightarrow> nvmev_result \<Rightarrow>
    (nvmev_result \<times> conv_ftl) option" where
  "conv_discard ranges c req ret = do {
     let ret = ret\<lparr>ret_status := NVME_SC_SUCCESS, nsecs_target := nsecs_start req\<rparr>;
     if dsm_attributes (req_cmd req) AND NVME_DSMGMT_AD = 0 then Some (ret, c)
     else do {
       let nr_ranges = unat (dsm_nr (req_cmd req) AND 0xFF) + 1;
       case ranges of
         None \<Rightarrow> Some (ret\<lparr>ret_status := NVME_SC_INTERNAL\<rparr>, c)
       | Some rs \<Rightarrow> do {
           c \<leftarrow> opt_fold (discard_range (nsecs_start req)) c (map rs [0..<nr_ranges]);
           Some (ret, c)
         }
     }
   }"

subsection \<open>Flush\<close>

text \<open>The figures that a flush prints; ratios are scaled by 1000.\<close>

record flush_summary =
  waf_x1000 :: u64
  avg_vpc_x1000 :: u64
  diff_pct_x1000 :: u64
  avg_age_ns :: u64
  avg_age_value_x1000 :: u64
  avg_score :: u64
  avg_candidates_x1000 :: u64
  avg_greedy_ref_age_ns :: u64
  avg_greedy_ref_vpc_x1000 :: u64
  avg_extra_vpc_x1000 :: u64
  avg_candidate_age_ns :: u64
  out_candidate_age_min :: u64
  out_selected_age_min :: u64
  out_victim_vpc_min :: u64

definition div0 :: "u64 \<Rightarrow> u64 \<Rightarrow> u64 \<Rightarrow> u64" where
  "div0 dflt n d = (if d \<noteq> 0 then n div d else dflt)"

definition flush_summary_of :: "conv_stats \<Rightarrow> flush_summary" where
  "flush_summary_of s =
     (let host = host_write_pages s; gc = gc_cnt s; ev = gc_candidate_eval_count s;
          cand_min = (if ev \<noteq> 0 then min (- 1) (gc_candidate_age_ns_min s) else - 1);
          sel_min = (if gc \<noteq> 0 then min (- 1) (gc_selected_age_ns_min s) else - 1);
          vpc_min = (if gc \<noteq> 0 then min (- 1) (gc_victim_vpc_min s) else - 1)
      in \<lparr>waf_x1000 = div0 1000 ((host + gc_valid_copied s) * 1000) host,
          avg_vpc_x1000 = div0 0 (gc_victim_vpc_sum s * 1000) gc,
          diff_pct_x1000 = div0 0 (gc_diff_from_greedy s * 100000) gc,
          avg_age_ns = div0 0 (gc_selected_age_ns_sum s) gc,
          avg_age_value_x1000 = div0 0 (gc_selected_age_value_sum s * 1000) gc,
          avg_score = div0 0 (gc_selected_score_sum s) gc,
          avg_candidates_x1000 = div0 0 (gc_candidates_available_sum s * 1000) gc,
          avg_greedy_ref_age_ns = div0 0 (gc_greedy_ref_age_ns_sum s) gc,
          avg_greedy_ref_vpc_x1000 = div0 0 (gc_greedy_ref_vpc_sum s * 1000) gc,
          avg_extra_vpc_x1000 = div0 0 (gc_extra_vpc_vs_greedy_sum s * 1000) gc,
          avg_candidate_age_ns = div0 0 (gc_candidate_age_ns_sum s) ev,
          out_candidate_age_min = (if ev \<noteq> 0 then cand_min else 0),
          out_selected_age_min = (if gc \<noteq> 0 then sel_min else 0),
          out_victim_vpc_min = (if gc \<noteq> 0 then vpc_min else 0)\<rparr>)"

text \<open>\<^verbatim>\<open>local_clock\<close> is one more reading of the clock.\<close>

definition conv_flush :: "conv_ftl \<Rightarrow> nvmev_result \<Rightarrow> (flush_summary \<times> nvmev_result \<times> conv_ftl) option" where
  "conv_flush c ret = do {
     let summary = flush_summary_of (stats c);
     let (start, s) = get_ioclock (ftl_ssd c);
     (idle, s) \<leftarrow> ssd_next_idle_time s;
     Some (summary, ret\<lparr>ret_status := NVME_SC_SUCCESS, nsecs_target := max64 start idle\<rparr>, c\<lparr>ftl_ssd := s\<rparr>)
   }"

subsection \<open>Dispatch\<close>

definition conv_proc_nvme_io_cmd ::
  "gc_build \<Rightarrow> (nat \<Rightarrow> u64 \<times> u32) option \<Rightarrow> nvmev_ns \<Rightarrow> nvmev_request \<Rightarrow> nvmev_result \<Rightarrow>
    (bool \<times> nvmev_result \<times> internal_op list \<times> nvmev_ns) option" where
  "conv_proc_nvme_io_cmd bc ranges ns req ret = do {
     nv_assert (ns_csi ns = NVME_CSI_NVM);
     let op = opcode (req_cmd req);
     if op = nvme_cmd_write then do {
       (ok, ret, ops, c) \<leftarrow> conv_write bc (ns_ftl ns) req ret;
       Some (ok, ret, ops, ns\<lparr>ns_ftl := c\<rparr>)
     } else if op = nvme_cmd_read then do {
       (ok, ret, c) \<leftarrow> conv_read (ns_ftl ns) req ret;
       Some (ok, ret, [], ns\<lparr>ns_ftl := c\<rparr>)
     } else if op = nvme_cmd_flush then do {
       (summary, ret, c) \<leftarrow> conv_flush (ns_ftl ns) ret;
       Some (True, ret, [], ns\<lparr>ns_ftl := c\<rparr>)
     } else if op = nvme_cmd_dsm then do {
       (ret, c) \<leftarrow> conv_discard ranges (ns_ftl ns) req ret;
       Some (True, ret, [], ns\<lparr>ns_ftl := c\<rparr>)
     } else Some (True, ret, [], ns)
   }"

end
