(* ===== verification/Conv_Pages.thy ===== *)
theory Conv_Pages
  imports Conv_IO
begin

text \<open>
  The page space of the FTL: the pages of the device, the index of a page in the reverse map,
  the order in which a line is filled, and the effect of one status change on the counts of
  valid and invalid pages.
\<close>

subsection \<open>Parameters\<close>

text \<open>
  What the FTL needs of the geometry: one plane per LUN (the code says so in several places)
  and coordinates that fit the bit fields of \<^verbatim>\<open>struct ppa\<close>.
\<close>

definition params_ok :: "ssdparams \<Rightarrow> bool" where
  "params_ok P \<longleftrightarrow> geometry P \<and> time_params P \<and> pls_per_lun P = 1 \<and>
     0 < nchs P \<and> nchs P \<le> 256 \<and> 0 < luns_per_ch P \<and> luns_per_ch P \<le> 256 \<and>
     0 < blks_per_pl P \<and> blks_per_pl P \<le> 65536 \<and> 0 < pgs_per_blk P \<and> pgs_per_blk P \<le> 65536 \<and>
     tt_pgs P < 2 ^ 32"

lemma params_okD:
  assumes "params_ok P"
  shows "pgs_per_blk P = pgs_per_oneshotpg P * oneshotpgs_per_blk P"
    "pgs_per_blk P = pgs_per_flashpg P * flashpgs_per_blk P"
    "0 < pgs_per_oneshotpg P" "0 < oneshotpgs_per_blk P" "0 < pgs_per_flashpg P" "0 < flashpgs_per_blk P"
    "tt_lines P = blks_per_pl P" "pgs_per_line P = luns_per_ch P * nchs P * pgs_per_blk P"
    "tt_pgs P = tt_lines P * pgs_per_line P" "0 < pgs_per_line P" "pgs_per_line P < 2 ^ 32"
    "tt_lines P < 2 ^ 32" "0 < tt_lines P" "pgsz P = 4096"
proof -
  note p = assms[unfolded params_ok_def geometry_def]
  show "pgs_per_blk P = pgs_per_oneshotpg P * oneshotpgs_per_blk P"
    "pgs_per_blk P = pgs_per_flashpg P * flashpgs_per_blk P"
    "tt_lines P = blks_per_pl P" using p by simp_all
  then show "0 < pgs_per_oneshotpg P" "0 < oneshotpgs_per_blk P" "0 < pgs_per_flashpg P" "0 < flashpgs_per_blk P"
    using p by (auto intro!: Nat.gr0I)
  show "pgsz P = 4096" using p by blast
  show l: "pgs_per_line P = luns_per_ch P * nchs P * pgs_per_blk P" "tt_pgs P = tt_lines P * pgs_per_line P"
    using p by simp_all
  show "0 < tt_lines P" using p by simp
  then have "pgs_per_line P \<le> tt_pgs P" using l by simp
  moreover have t: "tt_pgs P < 2 ^ 32" "blks_per_pl P \<le> 65536" using p by blast+
  ultimately show "pgs_per_line P < 2 ^ 32" by linarith
  have "0 < luns_per_ch P" "0 < nchs P" "0 < pgs_per_blk P" using p by blast+
  then show "0 < pgs_per_line P" by (simp add: l(1))
  show "tt_lines P < 2 ^ 32" using t(2) \<open>tt_lines P = blks_per_pl P\<close> by simp
qed

subsection \<open>Mixed-radix numbers\<close>

lemma radix_inj: "b < n \<Longrightarrow> b' < n \<Longrightarrow> a * n + b = a' * n + b' \<longleftrightarrow> a = a' \<and> b = b'" for a b n :: nat
  by (metis add.commute add_left_cancel div_mult_self1_is_m div_mult_self3 mult.commute div_less gr_implies_not0
      not_gr0 div_mult_self1 add_0)

lemma radix_less: "a < m \<Longrightarrow> b < n \<Longrightarrow> a * n + b < m * n" for a b m n :: nat
proof -
  assume "a < m" "b < n"
  then have "a * n + b < (a + 1) * n" by simp
  also have "\<dots> \<le> m * n" using \<open>a < m\<close> by (intro mult_le_mono1) simp
  finally show ?thesis .
qed

subsection \<open>The pages\<close>

lemma finite_ppa: "finite (A :: ppa set)"
proof -
  have "inj ppa_word" by (simp add: inj_def ppa_word_inject)
  then have "finite (UNIV :: ppa set)" by (rule finite_imageD[rotated]) (rule finite)
  then show ?thesis by (rule rev_finite_subset) simp
qed

definition pages :: "ssdparams \<Rightarrow> ppa set" where
  "pages P = {p. pg_in_range P p \<and> ppa_rsv p = 0}"

definition line_pages :: "ssdparams \<Rightarrow> nat \<Rightarrow> ppa set" where
  "line_pages P l = {p \<in> pages P. unat (ppa_blk p) = l}"

definition blk_pages :: "ssdparams \<Rightarrow> ppa \<Rightarrow> ppa set" where
  "blk_pages P q = {p \<in> pages P. same_blk p q}"

lemma pages_pl: "params_ok P \<Longrightarrow> p \<in> pages P \<Longrightarrow> ppa_pl p = 0"
  by (auto simp: pages_def pg_in_range_def blk_in_range_def params_ok_def unat_eq_0)

lemma pages_coords:
  assumes "params_ok P" "p \<in> pages P"
  shows "unat (ppa_ch p) < nchs P" "unat (ppa_lun p) < luns_per_ch P" "unat (ppa_blk p) < tt_lines P"
    "unat (ppa_pg p) < pgs_per_blk P" "blk_in_range P p" "pg_in_range P p"
  using assms params_okD(7)[OF assms(1)] by (auto simp: pages_def pg_in_range_def blk_in_range_def)

lemma same_pg_eq: "p \<in> pages P \<Longrightarrow> q \<in> pages P \<Longrightarrow> same_pg p q \<longleftrightarrow> p = q"
  by (auto simp: same_pg_def same_blk_def same_pl_def same_lun_def same_ch_def pages_def word_unat_eq_iff
      intro!: ppa.equality)

lemma same_blk_eq:
  "params_ok P \<Longrightarrow> p \<in> pages P \<Longrightarrow> q \<in> pages P \<Longrightarrow>
    same_blk p q \<longleftrightarrow> ppa_ch p = ppa_ch q \<and> ppa_lun p = ppa_lun q \<and> ppa_blk p = ppa_blk q"
  using pages_pl[of P p] pages_pl[of P q]
  by (auto simp: same_blk_def same_pl_def same_lun_def same_ch_def word_unat_eq_iff)

lemma same_blk_sym: "same_blk p q \<longleftrightarrow> same_blk q p"
  by (auto simp: same_blk_def same_pl_def same_lun_def same_ch_def)

lemma pages_mapped: "p \<in> pages P \<Longrightarrow> mapped_ppa p"
  unfolding mapped_ppa_def
proof
  assume "p \<in> pages P" and "ppa_word p = UNMAPPED_PPA"
  then have "p = word_ppa (- 1)" "ppa_rsv p = 0"
    by (auto simp: UNMAPPED_PPA_def pages_def dest: arg_cong[of "ppa_word p" _ word_ppa] simp: word_ppa_word)
  then have "ucast (drop_bit 56 (- 1 :: u64)) = (0 :: u8)" by (simp add: word_ppa_def)
  then have "bit (ucast (drop_bit 56 (- 1 :: u64)) :: u8) 0 = bit (0 :: u8) 0" by (rule arg_cong)
  then show False by (simp only: bit_ucast_iff bit_drop_bit_eq) simp
qed

lemma pages_valid_ppa: "p \<in> pages (spp c) \<Longrightarrow> valid_ppa c p"
  by (auto simp: pages_def pg_in_range_def blk_in_range_def valid_ppa_def)

subsection \<open>The index of a page\<close>

definition pgidx :: "ssdparams \<Rightarrow> ppa \<Rightarrow> nat" where
  "pgidx P p = ((unat (ppa_ch p) * luns_per_ch P + unat (ppa_lun p)) * blks_per_pl P + unat (ppa_blk p)) *
     pgs_per_blk P + unat (ppa_pg p)"

lemma pgidx_less:
  assumes "params_ok P" "p \<in> pages P"
  shows "pgidx P p < tt_pgs P"
proof -
  note c = pages_coords[OF assms]
  have "pgidx P p < nchs P * luns_per_ch P * blks_per_pl P * pgs_per_blk P"
    unfolding pgidx_def using c params_okD(7)[OF assms(1)] by (intro radix_less) auto
  also have "\<dots> = tt_pgs P" using params_okD(7,8,9)[OF assms(1)] by simp
  finally show ?thesis .
qed

lemma pgidx_inject:
  assumes P: "params_ok P" and "p \<in> pages P" "q \<in> pages P"
  shows "pgidx P p = pgidx P q \<longleftrightarrow> p = q"
proof
  assume "pgidx P p = pgidx P q"
  then have "ppa_ch p = ppa_ch q \<and> ppa_lun p = ppa_lun q \<and> ppa_blk p = ppa_blk q \<and> ppa_pg p = ppa_pg q"
    using pages_coords[OF P assms(2)] pages_coords[OF P assms(3)] params_okD(7)[OF P]
    by (auto simp: pgidx_def radix_inj word_unat_eq_iff)
  moreover have "ppa_pl p = ppa_pl q" "ppa_rsv p = ppa_rsv q"
    using assms(2,3) pages_pl[OF P] by (auto simp: pages_def)
  ultimately show "p = q" by (auto intro: ppa.equality)
qed simp

lemma ppa2pgidx_eq:
  assumes P: "params_ok P" and "p \<in> pages P"
  shows "ppa2pgidx P p = Some (pgidx P p)"
proof -
  have "pls_per_lun P = 1" "pgs_per_pl P = blks_per_pl P * pgs_per_blk P"
    "pgs_per_lun P = pls_per_lun P * pgs_per_pl P" "pgs_per_ch P = luns_per_ch P * pgs_per_lun P"
    using P by (auto simp: params_ok_def geometry_def)
  then have "unat (ppa_ch p) * pgs_per_ch P + unat (ppa_lun p) * pgs_per_lun P +
       unat (ppa_pl p) * pgs_per_pl P + unat (ppa_blk p) * pgs_per_blk P + unat (ppa_pg p) = pgidx P p"
    using pages_pl[OF P assms(2)] by (simp add: pgidx_def algebra_simps)
  with pgidx_less[OF assms] show ?thesis by (simp add: ppa2pgidx_def Let_def)
qed

subsection \<open>The fill order of a line\<close>

text \<open>
  A line is filled one oneshot page at a time, over the channels, then the LUNs, then the word
  lines of the blocks.
\<close>

definition fill_order :: "ssdparams \<Rightarrow> nat \<Rightarrow> nat \<Rightarrow> nat \<Rightarrow> nat" where
  "fill_order P ch lun pg =
     ((pg div pgs_per_oneshotpg P * luns_per_ch P + lun) * nchs P + ch) * pgs_per_oneshotpg P +
     pg mod pgs_per_oneshotpg P"

definition pg_order :: "ssdparams \<Rightarrow> ppa \<Rightarrow> nat" where
  "pg_order P p = fill_order P (unat (ppa_ch p)) (unat (ppa_lun p)) (unat (ppa_pg p))"

definition wp_order :: "ssdparams \<Rightarrow> write_pointer \<Rightarrow> nat" where
  "wp_order P wp = fill_order P (wp_ch wp) (wp_lun wp) (wp_pg wp)"

lemma fill_order_less:
  assumes "params_ok P" "ch < nchs P" "lun < luns_per_ch P" "pg < pgs_per_blk P"
  shows "fill_order P ch lun pg < pgs_per_line P"
proof -
  note d = params_okD[OF assms(1)]
  have "pg div pgs_per_oneshotpg P < oneshotpgs_per_blk P"
    using assms(4) d(1,3) by (simp add: less_mult_imp_div_less mult.commute)
  then have "fill_order P ch lun pg < oneshotpgs_per_blk P * luns_per_ch P * nchs P * pgs_per_oneshotpg P"
    unfolding fill_order_def using assms d by (intro radix_less) auto
  also have "\<dots> = pgs_per_line P" unfolding d(8) d(1) by simp
  finally show ?thesis .
qed

lemma fill_order_inject:
  assumes "params_ok P" "ch < nchs P" "lun < luns_per_ch P" "ch' < nchs P" "lun' < luns_per_ch P"
  shows "fill_order P ch lun pg = fill_order P ch' lun' pg' \<longleftrightarrow> ch = ch' \<and> lun = lun' \<and> pg = pg'"
proof
  note d = params_okD(3)[OF assms(1)]
  assume "fill_order P ch lun pg = fill_order P ch' lun' pg'"
  then have e: "pg div pgs_per_oneshotpg P = pg' div pgs_per_oneshotpg P" "ch = ch'" "lun = lun'"
    "pg mod pgs_per_oneshotpg P = pg' mod pgs_per_oneshotpg P"
    using assms d by (simp_all add: fill_order_def radix_inj)
  then show "ch = ch' \<and> lun = lun' \<and> pg = pg'" by (metis div_mult_mod_eq)
qed simp

lemma pg_order_less: "params_ok P \<Longrightarrow> p \<in> pages P \<Longrightarrow> pg_order P p < pgs_per_line P"
  unfolding pg_order_def by (rule fill_order_less) (auto dest: pages_coords)

lemma pg_order_inject:
  assumes P: "params_ok P" and "p \<in> line_pages P l" "q \<in> line_pages P l"
  shows "pg_order P p = pg_order P q \<longleftrightarrow> p = q"
proof
  assume e: "pg_order P p = pg_order P q"
  have pq: "p \<in> pages P" "q \<in> pages P" "unat (ppa_blk p) = unat (ppa_blk q)"
    using assms by (auto simp: line_pages_def)
  then have "unat (ppa_ch p) = unat (ppa_ch q) \<and> unat (ppa_lun p) = unat (ppa_lun q) \<and>
      unat (ppa_pg p) = unat (ppa_pg q)"
    using e pages_coords[OF P pq(1)] pages_coords[OF P pq(2)]
    unfolding pg_order_def by (simp add: fill_order_inject[OF P])
  then show "p = q"
    using pq pages_pl[OF P] by (auto simp: pages_def word_unat_eq_iff intro!: ppa.equality)
qed simp

subsection \<open>Moving a write pointer through a line\<close>

definition wp_in :: "ssdparams \<Rightarrow> write_pointer \<Rightarrow> bool" where
  "wp_in P wp \<longleftrightarrow> wp_ch wp < nchs P \<and> wp_lun wp < luns_per_ch P \<and> wp_pg wp < pgs_per_blk P \<and> wp_pl wp = 0 \<and>
     wp_blk wp = curline wp \<and> curline wp < tt_lines P"

definition wp_page :: "write_pointer \<Rightarrow> ppa" where
  "wp_page wp = \<lparr>ppa_pg = of_nat (wp_pg wp), ppa_blk = of_nat (wp_blk wp), ppa_pl = of_nat (wp_pl wp),
     ppa_lun = of_nat (wp_lun wp), ppa_ch = of_nat (wp_ch wp), ppa_rsv = 0\<rparr>"

lemma wp_page_in:
  assumes "params_ok P" "wp_in P wp"
  shows "wp_page wp \<in> line_pages P (curline wp)" "pg_order P (wp_page wp) = wp_order P wp"
proof -
  have b: "wp_pg wp < 65536" "wp_blk wp < 65536" "wp_lun wp < 256" "wp_ch wp < 256"
    using assms params_okD(7)[OF assms(1)] by (auto simp: wp_in_def params_ok_def)
  then have u: "unat (ppa_pg (wp_page wp)) = wp_pg wp" "unat (ppa_blk (wp_page wp)) = wp_blk wp"
    "unat (ppa_lun (wp_page wp)) = wp_lun wp" "unat (ppa_ch (wp_page wp)) = wp_ch wp"
    by (simp_all add: wp_page_def unat_of_nat_less)
  then show "wp_page wp \<in> line_pages P (curline wp)" "pg_order P (wp_page wp) = wp_order P wp"
    using assms params_okD(7)[OF assms(1)]
    by (auto simp: line_pages_def pages_def pg_in_range_def blk_in_range_def wp_in_def params_ok_def
        pg_order_def wp_order_def) (simp_all add: wp_page_def)
qed

lemma get_new_page_eq: "wp_in (spp c) (get_wp c io) \<Longrightarrow> get_new_page c io = Some (wp_page (get_wp c io))"
  by (simp add: get_new_page_def wp_page_def wp_in_def Let_def)

lemma wp_order_less: "params_ok P \<Longrightarrow> wp_in P wp \<Longrightarrow> wp_order P wp < pgs_per_line P"
  unfolding wp_order_def by (rule fill_order_less) (auto simp: wp_in_def)

lemma radix_carry1: "0 < n \<Longrightarrow> 0 < k \<Longrightarrow> (a * n + (n - 1)) * k + (k - 1) + 1 = (a + 1) * n * k" for a n k :: nat
  by (cases n; cases k) (auto simp: algebra_simps)

lemma radix_carry:
  "0 < n \<Longrightarrow> 0 < l \<Longrightarrow> 0 < k \<Longrightarrow> ((q * l + (l - 1)) * n + (n - 1)) * k + (k - 1) + 1 = (q + 1) * l * n * k"
  for n l k q :: nat
  by (cases n; cases l; cases k) (auto simp: algebra_simps)

text \<open>
  One step of a write pointer: it goes to the page that is next in the fill order of its line,
  or, from the last page, opens the next line.
\<close>

lemma advance_write_pointer_step:
  assumes P: "params_ok (spp c)" and wp: "wp_in (spp c) (get_wp c io)"
  shows "(\<exists>wp'. advance_write_pointer c io = Some (set_wp c io wp') \<and> wp_in (spp c) wp' \<and>
      curline wp' = curline (get_wp c io) \<and> wp_order (spp c) wp' = wp_order (spp c) (get_wp c io) + 1) \<or>
    (wp_order (spp c) (get_wp c io) + 1 = pgs_per_line (spp c) \<and>
      advance_write_pointer c io =
        open_next_line c io ((get_wp c io)\<lparr>wp_ch := 0, wp_lun := 0, wp_pg := 0\<rparr>))"
proof -
  let ?P = "spp c" and ?w = "get_wp c io"
  let ?k = "pgs_per_oneshotpg ?P" and ?o = "oneshotpgs_per_blk ?P"
  note d = params_okD[OF P]
  note w = wp[unfolded wp_in_def]
  obtain q r where qr: "wp_pg ?w = q * ?k + r" "r < ?k" by (metis d(3) div_mult_mod_eq mod_less_divisor)
  then have q: "wp_pg ?w div ?k = q" "wp_pg ?w mod ?k = r" by auto
  have qo: "q < ?o"
    using w qr d(1) by (metis add_lessD1 mult.commute mult_less_cancel2)
  have ord: "wp_order ?P ?w = ((q * luns_per_ch ?P + wp_lun ?w) * nchs ?P + wp_ch ?w) * ?k + r"
    by (simp add: wp_order_def fill_order_def q)
  have chk: "check_addr (wp_pg ?w) (pgs_per_blk ?P) = Some ()" "check_addr (wp_ch ?w) (nchs ?P) = Some ()"
    "check_addr (wp_lun ?w) (luns_per_ch ?P) = Some ()"
    using w by (simp_all add: check_addr_def)
  show ?thesis
  proof (cases "r + 1 = ?k")
    case False
    then have r1: "r + 1 < ?k" using qr by simp
    have "(q * ?k + x) div ?k = q \<and> (q * ?k + x) mod ?k = x" if "x < ?k" for x using that by auto
    from this[OF r1] have "(wp_pg ?w + 1) mod ?k = r + 1" "(wp_pg ?w + 1) div ?k = q"
      using qr(1) by (metis add.assoc)+
    then have "advance_write_pointer c io = Some (set_wp c io (?w\<lparr>wp_pg := wp_pg ?w + 1\<rparr>))"
      "wp_order ?P (?w\<lparr>wp_pg := wp_pg ?w + 1\<rparr>) = wp_order ?P ?w + 1"
      using chk d(3) by (simp_all add: advance_write_pointer_def ckmod_def Let_def ord wp_order_def fill_order_def q)
    moreover have "wp_pg ?w + 1 < pgs_per_blk ?P"
    proof -
      have "q * ?k + (r + 1) < ?o * ?k" by (rule radix_less[OF qo r1])
      then show ?thesis using qr d(1) by (simp add: mult.commute)
    qed
    then have "wp_in ?P (?w\<lparr>wp_pg := wp_pg ?w + 1\<rparr>)" using w by (simp add: wp_in_def)
    ultimately show ?thesis by (intro disjI1) auto
  next
    case True
    then have pg1: "wp_pg ?w + 1 = (q + 1) * ?k" using qr by simp
    then have run: "advance_write_pointer c io = do {
       let wpp = ?w\<lparr>wp_pg := q * ?k, wp_ch := wp_ch ?w + 1\<rparr>;
       if wp_ch wpp \<noteq> nchs ?P then Some (set_wp c io wpp)
       else do {
         let wpp = wpp\<lparr>wp_ch := 0, wp_lun := wp_lun wpp + 1\<rparr>;
         if wp_lun wpp \<noteq> luns_per_ch ?P then Some (set_wp c io wpp)
         else do {
           let wpp = wpp\<lparr>wp_lun := 0, wp_pg := (q + 1) * ?k\<rparr>;
           if wp_pg wpp \<noteq> pgs_per_blk ?P then Some (set_wp c io wpp)
           else open_next_line c io (wpp\<lparr>wp_pg := 0\<rparr>)
         } } }"
      using chk d(3) unfolding advance_write_pointer_def
      by (simp add: ckmod_def Let_def add.commute)
    have qk: "q * ?k < pgs_per_blk ?P" using w qr by simp
    have r: "r = ?k - 1" using True by simp
    show ?thesis
    proof (cases "wp_ch ?w + 1 = nchs ?P")
      case False
      let ?w' = "?w\<lparr>wp_pg := q * ?k, wp_ch := wp_ch ?w + 1\<rparr>"
      have "wp_order ?P ?w' = wp_order ?P ?w + 1"
        using d(3) unfolding ord r by (simp add: wp_order_def fill_order_def algebra_simps)
      moreover have "wp_in ?P ?w'" using w qk False by (simp add: wp_in_def)
      ultimately show ?thesis using run False by (intro disjI1 exI[of _ ?w']) (simp add: Let_def)
    next
      case ch: True
      show ?thesis
      proof (cases "wp_lun ?w + 1 = luns_per_ch ?P")
        case False
        let ?w' = "?w\<lparr>wp_pg := q * ?k, wp_ch := 0, wp_lun := wp_lun ?w + 1\<rparr>"
        have "wp_ch ?w = nchs ?P - 1" using ch by simp
        then have "wp_order ?P ?w + 1 = (q * luns_per_ch ?P + wp_lun ?w + 1) * nchs ?P * ?k"
          using radix_carry1[of "nchs ?P" ?k "q * luns_per_ch ?P + wp_lun ?w"] w d(3) unfolding ord r by simp
        then have "wp_order ?P ?w' = wp_order ?P ?w + 1"
          using d(3) by (simp add: wp_order_def fill_order_def algebra_simps)
        moreover have "wp_in ?P ?w'" using w qk False by (simp add: wp_in_def)
        ultimately show ?thesis using run ch False by (intro disjI1 exI[of _ ?w']) (simp add: Let_def)
      next
        case lun: True
        have "wp_lun ?w = luns_per_ch ?P - 1" "wp_ch ?w = nchs ?P - 1" using lun ch by auto
        then have full: "wp_order ?P ?w + 1 = (q + 1) * luns_per_ch ?P * nchs ?P * ?k"
          using radix_carry[of "nchs ?P" "luns_per_ch ?P" ?k q] w d(3) unfolding ord r by simp
        show ?thesis
        proof (cases "(q + 1) * ?k = pgs_per_blk ?P")
          case False
          let ?w' = "?w\<lparr>wp_ch := 0, wp_lun := 0, wp_pg := (q + 1) * ?k\<rparr>"
          have "q + 1 < ?o"
            using qo False d(1) by (metis Suc_eq_plus1 Suc_lessI mult.commute)
          then have "(q + 1) * ?k < pgs_per_blk ?P" using d(1,3) by (metis mult.commute mult_less_mono1)
          then have "wp_in ?P ?w'" using w by (simp add: wp_in_def)
          moreover have "wp_order ?P ?w' = wp_order ?P ?w + 1"
            unfolding full using d(3) by (simp add: wp_order_def fill_order_def algebra_simps)
          ultimately show ?thesis using run ch lun False by (intro disjI1 exI[of _ ?w']) (simp add: Let_def)
        next
          case True
          then have "?o = q + 1" using d(1,3) by (metis mult.commute mult_right_cancel not_gr0)
          then have "wp_order ?P ?w + 1 = pgs_per_line ?P"
            unfolding full d(8) d(1) by (simp add: algebra_simps)
          then show ?thesis using run ch lun True by (intro disjI2) (simp add: Let_def)
        qed
      qed
    qed
  qed
qed

end
