(* ===== verification/Conv_Status.thy ===== *)
theory Conv_Status
  imports Conv_Pages
begin

text \<open>
  What the changes of page status do, seen through the status of each page and the two counters
  of each block, and the counting of pages by status.
\<close>

subsection \<open>Counting\<close>

definition nvalid :: "(ppa \<Rightarrow> pg_status) \<Rightarrow> ppa set \<Rightarrow> nat" where
  "nvalid f S = card {p \<in> S. f p = PG_VALID}"

definition ninvalid :: "(ppa \<Rightarrow> pg_status) \<Rightarrow> ppa set \<Rightarrow> nat" where
  "ninvalid f S = card {p \<in> S. f p = PG_INVALID}"

lemma nvalid_cong: "(\<And>p. p \<in> S \<Longrightarrow> f p = g p) \<Longrightarrow> nvalid f S = nvalid g S"
  unfolding nvalid_def by (rule arg_cong[of _ _ card]) auto

lemma ninvalid_cong: "(\<And>p. p \<in> S \<Longrightarrow> f p = g p) \<Longrightarrow> ninvalid f S = ninvalid g S"
  unfolding ninvalid_def by (rule arg_cong[of _ _ card]) auto

lemma card_insert_new: "x \<notin> A \<Longrightarrow> card (insert x A) = Suc (card A)" for A :: "ppa set"
  by (simp add: finite_ppa)

lemma card_remove_old: "x \<in> A \<Longrightarrow> Suc (card (A - {x})) = card A" for A :: "ppa set"
  using card_insert_new[of x "A - {x}"] by (simp add: insert_absorb)

lemma nvalid_new:
  assumes "f p \<noteq> PG_VALID"
  shows "nvalid (f(p := PG_VALID)) S = (if p \<in> S then Suc (nvalid f S) else nvalid f S)"
proof (cases "p \<in> S")
  case True
  then have "{q \<in> S. (f(p := PG_VALID)) q = PG_VALID} = insert p {q \<in> S. f q = PG_VALID}" by auto
  then show ?thesis using True assms by (simp add: nvalid_def card_insert_new)
qed (auto intro: nvalid_cong)

lemma nvalid_gone:
  assumes "f p = PG_VALID" "st \<noteq> PG_VALID" "p \<in> S"
  shows "Suc (nvalid (f(p := st)) S) = nvalid f S"
proof -
  have "{q \<in> S. (f(p := st)) q = PG_VALID} = {q \<in> S. f q = PG_VALID} - {p}" using assms(2) by auto
  moreover have "p \<in> {q \<in> S. f q = PG_VALID}" using assms by simp
  ultimately show ?thesis unfolding nvalid_def by (simp only: card_remove_old)
qed

lemma ninvalid_new:
  assumes "f p \<noteq> PG_INVALID"
  shows "ninvalid (f(p := PG_INVALID)) S = (if p \<in> S then Suc (ninvalid f S) else ninvalid f S)"
proof (cases "p \<in> S")
  case True
  then have "{q \<in> S. (f(p := PG_INVALID)) q = PG_INVALID} = insert p {q \<in> S. f q = PG_INVALID}" by auto
  then show ?thesis using True assms by (simp add: ninvalid_def card_insert_new)
qed (auto intro: ninvalid_cong)

lemma ninvalid_other: "f p \<noteq> PG_INVALID \<Longrightarrow> st \<noteq> PG_INVALID \<Longrightarrow> ninvalid (f(p := st)) S = ninvalid f S"
  unfolding ninvalid_def by (rule arg_cong[of _ _ card]) auto

lemma nvalid_other: "f p \<noteq> PG_VALID \<Longrightarrow> st \<noteq> PG_VALID \<Longrightarrow> nvalid (f(p := st)) S = nvalid f S"
  unfolding nvalid_def by (rule arg_cong[of _ _ card]) auto

lemma nvalid_outside: "p \<notin> S \<Longrightarrow> nvalid (f(p := st)) S = nvalid f S"
  by (rule nvalid_cong) auto

lemma ninvalid_outside: "p \<notin> S \<Longrightarrow> ninvalid (f(p := st)) S = ninvalid f S"
  by (rule ninvalid_cong) auto

lemma nvalid_ninvalid_le: "nvalid f S + ninvalid f S \<le> card S"
proof -
  have "nvalid f S + ninvalid f S = card ({p \<in> S. f p = PG_VALID} \<union> {p \<in> S. f p = PG_INVALID})"
    unfolding nvalid_def ninvalid_def by (rule card_Un_disjoint[symmetric]) (auto simp: finite_ppa)
  also have "\<dots> \<le> card S" by (rule card_mono) (auto simp: finite_ppa)
  finally show ?thesis .
qed

lemma nvalid_ninvalid_eq:
  assumes "\<And>p. p \<in> S \<Longrightarrow> f p \<noteq> PG_FREE"
  shows "nvalid f S + ninvalid f S = card S"
proof -
  have "S = {p \<in> S. f p = PG_VALID} \<union> {p \<in> S. f p = PG_INVALID}"
    using assms pg_status.exhaust by blast
  then have "card S = card ({p \<in> S. f p = PG_VALID} \<union> {p \<in> S. f p = PG_INVALID})" by (rule arg_cong)
  also have "\<dots> = nvalid f S + ninvalid f S"
    unfolding nvalid_def ninvalid_def by (rule card_Un_disjoint) (auto simp: finite_ppa)
  finally show ?thesis ..
qed

text \<open>The fill order numbers the pages of a line, so it has exactly \<^verbatim>\<open>pgs_per_line\<close> of them.\<close>

lemma card_line_pages_le: "params_ok P \<Longrightarrow> card (line_pages P l) \<le> pgs_per_line P"
proof -
  assume P: "params_ok P"
  have "inj_on (pg_order P) (line_pages P l)" using pg_order_inject[OF P] by (auto intro: inj_onI)
  moreover have "pg_order P ` line_pages P l \<subseteq> {..<pgs_per_line P}"
    using pg_order_less[OF P] by (auto simp: line_pages_def)
  ultimately show ?thesis by (metis card_image card_mono card_lessThan finite_lessThan)
qed

lemma card_line_pages:
  assumes P: "params_ok P" and l: "l < tt_lines P"
  shows "card (line_pages P l) = pgs_per_line P"
proof -
  note d = params_okD[OF P]
  let ?mk = "\<lambda>(ch, lun, pg). wp_page \<lparr>curline = l, wp_ch = ch, wp_lun = lun, wp_pg = pg, wp_blk = l, wp_pl = 0\<rparr>"
  let ?A = "{..<nchs P} \<times> {..<luns_per_ch P} \<times> {..<pgs_per_blk P}"
  have inn: "?mk x \<in> line_pages P l" if "x \<in> ?A" for x
  proof -
    obtain ch lun pg where x: "x = (ch, lun, pg)" by (cases x)
    show ?thesis
      unfolding x using wp_page_in(1)[OF P, of "\<lparr>curline = l, wp_ch = ch, wp_lun = lun, wp_pg = pg, wp_blk = l, wp_pl = 0\<rparr>"]
        that l by (simp add: x wp_in_def)
  qed
  have b: "nchs P \<le> 256" "luns_per_ch P \<le> 256" "pgs_per_blk P \<le> 65536" using P by (auto simp: params_ok_def)
  have "inj_on ?mk ?A"
  proof (rule inj_onI)
    fix x y assume xy: "x \<in> ?A" "y \<in> ?A" "?mk x = ?mk y"
    obtain ch lun pg ch' lun' pg' where x: "x = (ch, lun, pg)" "y = (ch', lun', pg')" by (cases x; cases y)
    have lt: "ch < nchs P" "lun < luns_per_ch P" "pg < pgs_per_blk P"
      "ch' < nchs P" "lun' < luns_per_ch P" "pg' < pgs_per_blk P"
      using xy by (auto simp: x)
    have "wp_page \<lparr>curline = l, wp_ch = ch, wp_lun = lun, wp_pg = pg, wp_blk = l, wp_pl = 0\<rparr> =
        wp_page \<lparr>curline = l, wp_ch = ch', wp_lun = lun', wp_pg = pg', wp_blk = l, wp_pl = 0\<rparr>"
      using xy(3) by (simp add: x)
    then have "(of_nat pg :: u16) = of_nat pg'" "(of_nat lun :: u8) = of_nat lun'" "(of_nat ch :: u8) = of_nat ch'"
      by (simp_all add: wp_page_def)
    then have "unat (of_nat pg :: u16) = unat (of_nat pg' :: u16)" "unat (of_nat lun :: u8) = unat (of_nat lun' :: u8)"
      "unat (of_nat ch :: u8) = unat (of_nat ch' :: u8)" by simp_all
    then show "x = y"
      using lt b by (simp add: unat_of_nat_less x)
  qed
  then have "card (?mk ` ?A) = card ?A" by (rule card_image)
  also have "card ?A = pgs_per_line P" by (simp add: d(8) card_cartesian_product)
  finally have "card (?mk ` ?A) = pgs_per_line P" .
  moreover have "?mk ` ?A \<subseteq> line_pages P l" by (rule image_subsetI) (rule inn)
  then have "card (?mk ` ?A) \<le> card (line_pages P l)" by (rule card_mono[OF finite_ppa])
  ultimately have "pgs_per_line P \<le> card (line_pages P l)" by simp
  with card_line_pages_le[OF P, of l] show ?thesis by simp
qed

subsection \<open>The view of the device\<close>

definition pst :: "ssd \<Rightarrow> ppa \<Rightarrow> pg_status" where
  "pst s p = (case get_pg s p of Some pg \<Rightarrow> status pg | None \<Rightarrow> PG_FREE)"

definition bcnt :: "ssd \<Rightarrow> ppa \<Rightarrow> (nat \<times> nat) option" where
  "bcnt s p = map_option (\<lambda>b. (ipc b, vpc b)) (get_blk s p)"

lemma nand_same_view: "nand_same s s' \<Longrightarrow> pst s' = pst s \<and> bcnt s' = bcnt s \<and> sp s' = sp s \<and>
    write_buffer s' = write_buffer s"
  by (auto simp: pst_def bcnt_def nand_same_pg nand_same_blk fun_eq_iff) (auto simp: nand_same_def)

lemma get_pg_pst: "get_pg s p = Some pg \<Longrightarrow> status pg = pst s p"
  by (simp add: pst_def)

lemma pst_page:
  assumes "ssd_inv s" "p \<in> pages (sp s)"
  shows "\<exists>pg. get_pg s p = Some pg \<and> status pg = pst s p \<and> nsecs pg = secs_per_pg (sp s)"
proof -
  obtain pg where "get_pg s p = Some pg" "nsecs pg = secs_per_pg (sp s)"
    using get_pg_in[OF assms(1)] assms(2) by (auto simp: pages_def)
  then show ?thesis by (simp add: pst_def)
qed

lemma set_page_status_ok:
  assumes inv: "ssd_inv s" and p: "p \<in> pages (sp s)" and st: "pst s p = old"
  shows "\<exists>s'. set_page_status s p old new = Some s' \<and> ssd_inv s' \<and> same_rest s s' \<and> bcnt s' = bcnt s \<and>
    (\<forall>q \<in> pages (sp s). pst s' q = ((pst s)(p := new)) q)"
proof -
  let ?f = "\<lambda>pg. nv_assert (status pg = old) \<bind> (\<lambda>_. Some (pg\<lparr>status := new\<rparr>))"
  obtain pg where pg: "get_pg s p = Some pg" "status pg = old" using pst_page[OF inv p] st by auto
  then obtain s' where s': "upd_pg s p ?f = Some s'" using pgs.upd_total[of s p pg ?f] by auto
  have "ssd_inv s'"
    by (rule upd_pg_inv[OF s' inv]) (auto simp: bind_Some_iff)
  moreover have "same_rest s s'" by (rule upd_pg_rest[OF s'])
  moreover have "bcnt s' q = bcnt s q" for q
  proof (cases "same_blk p q")
    case True
    from blks.upd_same[OF s'[unfolded upd_pg_def] True] show ?thesis by (auto simp: bcnt_def bind_Some_iff)
  next
    case False
    from blks.upd_other[OF s'[unfolded upd_pg_def] False] show ?thesis by (simp add: bcnt_def)
  qed
  moreover have "pst s' q = ((pst s)(p := new)) q" if q: "q \<in> pages (sp s)" for q
  proof -
    have "get_pg s' q = (if same_pg p q then Some (pg\<lparr>status := new\<rparr>) else get_pg s q)"
      by (rule pgs.upd_get[OF s' pg(1)]) (simp add: pg(2))
    then show ?thesis using same_pg_eq[OF p q] by (auto simp: pst_def)
  qed
  ultimately show ?thesis using s' by (auto simp: set_page_status_def fun_eq_iff)
qed

lemma upd_blk_counts_ok:
  assumes inv: "ssd_inv s" and b: "get_blk s p = Some b" "f b = Some b'"
    and keep: "\<And>b b'. f b = Some b' \<Longrightarrow> blk_pg b' = blk_pg b \<and> npgs b' = npgs b"
  shows "\<exists>s'. upd_blk s p f = Some s' \<and> ssd_inv s' \<and> same_rest s s' \<and> pst s' = pst s \<and>
    (\<forall>q. bcnt s' q = (if same_blk p q then Some (ipc b', vpc b') else bcnt s q))"
proof -
  obtain s' where s': "upd_blk s p f = Some s'" using blks.upd_total[of s p b f b'] b by auto
  have "ssd_inv s'"
    by (rule upd_blk_inv[OF s' inv]) (use keep in \<open>auto simp: blk_shape_def\<close>)
  moreover have "same_rest s s'" by (rule upd_blk_rest[OF s'])
  moreover have "pst s' q = pst s q" for q
  proof (cases "same_blk p q")
    case True
    from blks.upd_same[OF s' True] keep show ?thesis by (fastforce simp: pst_def get_pg_def)
  next
    case False
    from blks.upd_other[OF s' False] show ?thesis by (simp add: pst_def get_pg_def)
  qed
  moreover have "bcnt s' q = (if same_blk p q then Some (ipc b', vpc b') else bcnt s q)" for q
    using blks.upd_get[OF s' b] by (simp add: bcnt_def)
  ultimately show ?thesis using s' by (auto simp: fun_eq_iff)
qed

lemma bcntD: "bcnt s p = Some (i, v) \<Longrightarrow> \<exists>b. get_blk s p = Some b \<and> ipc b = i \<and> vpc b = v"
  by (auto simp: bcnt_def)

lemma page_to_valid:
  assumes inv: "ssd_inv s" and p: "p \<in> pages (sp s)" and st: "pst s p = PG_FREE"
    and cnt: "bcnt s p = Some (i, v)" "v < pgs_per_blk (sp s)" and N: "N = pgs_per_blk (sp s)"
  shows "\<exists>s'. do {
      s \<leftarrow> set_page_status s p PG_FREE PG_VALID;
      upd_blk s p (\<lambda>b. do { nv_assert (vpc b < N); Some (b\<lparr>vpc := vpc b + 1\<rparr>) }) } = Some s' \<and>
    ssd_inv s' \<and> same_rest s s' \<and> (\<forall>q \<in> pages (sp s). pst s' q = ((pst s)(p := PG_VALID)) q) \<and>
    (\<forall>q. bcnt s' q = (if same_blk p q then Some (i, v + 1) else bcnt s q))"
proof -
  obtain s1 where s1: "set_page_status s p PG_FREE PG_VALID = Some s1" "ssd_inv s1" "same_rest s s1"
    "bcnt s1 = bcnt s" "\<forall>q \<in> pages (sp s). pst s1 q = ((pst s)(p := PG_VALID)) q"
    using set_page_status_ok[OF inv p st] by blast
  obtain b where b: "get_blk s1 p = Some b" "ipc b = i" "vpc b = v" using bcntD cnt(1) s1(4) by metis
  let ?f = "\<lambda>b. nv_assert (vpc b < N) \<bind> (\<lambda>_. Some (b\<lparr>vpc := vpc b + 1\<rparr>))"
  have "?f b = Some (b\<lparr>vpc := vpc b + 1\<rparr>)" using b cnt(2) N by simp
  from upd_blk_counts_ok[where f = ?f, OF s1(2) b(1) this] obtain s2 where s2: "upd_blk s1 p ?f = Some s2" "ssd_inv s2"
    "same_rest s1 s2" "pst s2 = pst s1" "\<forall>q. bcnt s2 q = (if same_blk p q then Some (i, v + 1) else bcnt s1 q)"
    using b by (auto simp: bind_Some_iff)
  then show ?thesis using s1 by (auto simp: same_rest_def)
qed

lemma page_to_invalid:
  assumes inv: "ssd_inv s" and p: "p \<in> pages (sp s)" and st: "pst s p = PG_VALID"
    and cnt: "bcnt s p = Some (i, v)" "0 < v" "i + v \<le> pgs_per_blk (sp s)" and N: "N = pgs_per_blk (sp s)"
  shows "\<exists>s'. do {
      s \<leftarrow> set_page_status s p PG_VALID PG_INVALID;
      upd_blk s p (\<lambda>b. do {
        nv_assert (ipc b < N);
        let b = b\<lparr>ipc := ipc b + 1\<rparr>;
        nv_assert (vpc b > 0 \<and> vpc b \<le> N);
        Some (b\<lparr>vpc := vpc b - 1\<rparr>) }) } = Some s' \<and>
    ssd_inv s' \<and> same_rest s s' \<and> (\<forall>q \<in> pages (sp s). pst s' q = ((pst s)(p := PG_INVALID)) q) \<and>
    (\<forall>q. bcnt s' q = (if same_blk p q then Some (i + 1, v - 1) else bcnt s q))"
proof -
  obtain s1 where s1: "set_page_status s p PG_VALID PG_INVALID = Some s1" "ssd_inv s1" "same_rest s s1"
    "bcnt s1 = bcnt s" "\<forall>q \<in> pages (sp s). pst s1 q = ((pst s)(p := PG_INVALID)) q"
    using set_page_status_ok[OF inv p st] by blast
  obtain b where b: "get_blk s1 p = Some b" "ipc b = i" "vpc b = v" using bcntD cnt(1) s1(4) by metis
  let ?f = "\<lambda>b. nv_assert (ipc b < N) \<bind> (\<lambda>_. let b = b\<lparr>ipc := ipc b + 1\<rparr> in
    nv_assert (vpc b > 0 \<and> vpc b \<le> N) \<bind> (\<lambda>_. Some (b\<lparr>vpc := vpc b - 1\<rparr>)))"
  have "?f b = Some (b\<lparr>ipc := ipc b + 1, vpc := vpc b - 1\<rparr>)" using b cnt N by (simp add: Let_def)
  from upd_blk_counts_ok[where f = ?f, OF s1(2) b(1) this] obtain s2 where s2: "upd_blk s1 p ?f = Some s2" "ssd_inv s2"
    "same_rest s1 s2" "pst s2 = pst s1"
    "\<forall>q. bcnt s2 q = (if same_blk p q then Some (i + 1, v - 1) else bcnt s1 q)"
    using b by (auto simp: bind_Some_iff Let_def)
  then show ?thesis using s1 by (auto simp: same_rest_def)
qed

text \<open>Erasing a block frees its pages and clears its counters.\<close>

lemma block_to_free:
  assumes inv: "ssd_inv s" and p: "blk_in_range (sp s) p" and P: "P = sp s"
  shows "\<exists>s'. upd_blk s p (\<lambda>b. do {
       pgs \<leftarrow> opt_fold (\<lambda>pgs i. amod pgs i (\<lambda>pg. do {
         nv_assert (nsecs pg = secs_per_pg P);
         Some (pg\<lparr>status := PG_FREE\<rparr>)
       })) (blk_pg b) [0..<pgs_per_blk P];
       nv_assert (npgs b = pgs_per_blk P);
       Some (b\<lparr>blk_pg := pgs, ipc := 0, vpc := 0, erase_cnt := erase_cnt b + 1\<rparr>)
     }) = Some s' \<and> ssd_inv s' \<and> same_rest s s' \<and>
    (\<forall>q. pst s' q = (if same_blk p q then PG_FREE else pst s q)) \<and>
    (\<forall>q. bcnt s' q = (if same_blk p q then Some (0, 0) else bcnt s q))"
    (is "\<exists>s'. upd_blk s p ?f = Some s' \<and> _")
proof -
  let ?g = "\<lambda>pg. nv_assert (nsecs pg = secs_per_pg P) \<bind> (\<lambda>_. Some (pg\<lparr>status := PG_FREE\<rparr>))"
  let ?h = "\<lambda>pg :: nand_page. pg\<lparr>status := PG_FREE\<rparr>"
  let ?b' = "\<lambda>b. b\<lparr>blk_pg := map ?h (blk_pg b), ipc := 0, vpc := 0, erase_cnt := erase_cnt b + 1\<rparr>"
  have run: "?f b = Some (?b' b)" if "blk_shape P b" for b
  proof -
    have "opt_fold (\<lambda>pgs i. amod pgs i ?g) (blk_pg b) [0..<pgs_per_blk P] = Some (map ?h (blk_pg b))"
      by (rule opt_fold_amod_map) (use that in \<open>auto simp: blk_shape_def\<close>)
    then show ?thesis using that by (simp add: blk_shape_def)
  qed
  obtain b where b: "get_blk s p = Some b" "blk_shape P b" using get_blk_in[OF inv p] P by blast
  obtain s' where s': "upd_blk s p ?f = Some s'" using blks.upd_total[where f = ?f, OF b(1) run[OF b(2)]] by blast
  have "ssd_inv s'"
  proof (rule upd_blk_inv[OF s' inv])
    fix b b' assume "blk_shape (sp s) b" "?f b = Some b'"
    then show "blk_shape (sp s) b'" using run[of b] P by (auto simp: blk_shape_def)
  qed
  moreover have "same_rest s s'" by (rule upd_blk_rest[OF s'])
  moreover have g: "get_blk s' q = (if same_blk p q then Some (?b' b) else get_blk s q)" for q
    by (rule blks.upd_get[OF s' b(1) run[OF b(2)]])
  moreover have "pst s' q = (if same_blk p q then PG_FREE else pst s q)" for q
    using g[of q] by (auto simp: pst_def get_pg_def aget_def)
  moreover have "bcnt s' q = (if same_blk p q then Some (0, 0) else bcnt s q)" for q
    using g[of q] by (simp add: bcnt_def)
  ultimately show ?thesis using s' by blast
qed

end
