(* ===== verification/Conv_Inv.thy ===== *)
theory Conv_Inv
  imports Conv_Status
begin

text \<open>
  The invariant of the FTL. Its four parts say: every line is in exactly one place (free list,
  full list, victim queue, one of the two write pointers, or in the hands of the collector);
  the counters of blocks and lines count pages; lines are filled in the fill order; and the two
  mapping tables are inverse to each other on the valid pages.
\<close>

subsection \<open>The victim queue of lines\<close>

definition line_ok :: "line list \<Rightarrow> line_ptr \<Rightarrow> bool" where
  "line_ok ls e \<longleftrightarrow> (\<exists>i < length ls. e = LPtr i)"

interpretation vq: pq_callbacks victim_line_cmp_pri victim_line_get_pri victim_line_set_pri
  victim_line_get_pos victim_line_set_pos line_ok
  by unfold_locales
    (auto simp: victim_line_cmp_pri_def victim_line_get_pri_def victim_line_set_pri_def line_at_def
      victim_line_get_pos_def victim_line_set_pos_def line_ok_def aget_def nth_upd
      split: line_ptr.splits)

text \<open>A run of the queue changes nothing of the lines but their positions.\<close>

definition same_but_pos :: "line list \<Rightarrow> line list \<Rightarrow> bool" where
  "same_but_pos ls ls' \<longleftrightarrow> map (\<lambda>l. l\<lparr>ln_pos := 0\<rparr>) ls' = map (\<lambda>l. l\<lparr>ln_pos := 0\<rparr>) ls"

lemma spos_reach_lines: "vq.spos_reach ls ls' \<Longrightarrow> same_but_pos ls ls'"
  unfolding same_but_pos_def
  by (erule vq.spos_reachD)
    (auto simp: victim_line_set_pos_def nth_upd split: line_ptr.split intro!: nth_equalityI)

lemma same_but_posD:
  assumes "same_but_pos ls ls'"
  shows "length ls' = length ls"
    and "i < length ls \<Longrightarrow> ln_id (ls' ! i) = ln_id (ls ! i) \<and> ln_ipc (ls' ! i) = ln_ipc (ls ! i) \<and>
      ln_vpc (ls' ! i) = ln_vpc (ls ! i) \<and> last_modified_time (ls' ! i) = last_modified_time (ls ! i)"
proof -
  show len: "length ls' = length ls" using assms unfolding same_but_pos_def by (metis length_map)
  assume i: "i < length ls"
  then have "(ls' ! i)\<lparr>ln_pos := 0\<rparr> = (ls ! i)\<lparr>ln_pos := 0\<rparr>"
    using assms len unfolding same_but_pos_def by (metis nth_map)
  then show "ln_id (ls' ! i) = ln_id (ls ! i) \<and> ln_ipc (ls' ! i) = ln_ipc (ls ! i) \<and>
      ln_vpc (ls' ! i) = ln_vpc (ls ! i) \<and> last_modified_time (ls' ! i) = last_modified_time (ls ! i)"
    by (cases "ls' ! i"; cases "ls ! i") simp
qed

text \<open>A line that is not in the queue can change freely.\<close>

lemma pq_inv_upd_line:
  assumes "vq.pq_inv q ls" "LPtr i \<notin> set (pq_elems q)"
  shows "vq.pq_inv q (ls[i := x])"
proof -
  have ne: "pq_d q ! j \<noteq> LPtr i" if "0 < j" "j < pq_size q" for j
  proof
    assume "pq_d q ! j = LPtr i"
    then have "LPtr i \<in> (!) (pq_d q) ` {1..<pq_size q}" using that by (intro image_eqI[of _ _ j]) auto
    with assms(2) show False by (simp add: pq_elems_def set_live)
  qed
  have same: "victim_line_get_pri (ls[i := x]) (pq_d q ! j) = victim_line_get_pri ls (pq_d q ! j) \<and>
      victim_line_get_pos (ls[i := x]) (pq_d q ! j) = victim_line_get_pos ls (pq_d q ! j)"
    if "0 < j" "j < pq_size q" for j
    using ne[OF that]
    by (auto simp: victim_line_get_pri_def victim_line_get_pos_def line_at_def aget_def split: line_ptr.split)
  moreover have "line_ok (ls[i := x]) e = line_ok ls e" for e by (simp add: line_ok_def)
  ultimately show ?thesis
    using assms(1) by (auto simp: vq.pq_inv_def vq.heap_except_def)
qed

definition ptr_idx :: "line_ptr \<Rightarrow> nat" where
  "ptr_idx e = (case e of LPtr i \<Rightarrow> i | _ \<Rightarrow> 0)"

text \<open>The lines in the victim queue.\<close>

definition victims :: "line_mgmt \<Rightarrow> nat multiset" where
  "victims m = image_mset ptr_idx (mset (pq_elems (victim_line_pq m)))"

lemma victims_iff:
  assumes "vq.pq_inv (victim_line_pq m) (lines m)"
  shows "i \<in># victims m \<longleftrightarrow> LPtr i \<in> set (pq_elems (victim_line_pq m))"
proof
  assume "i \<in># victims m"
  then obtain e where e: "e \<in> set (pq_elems (victim_line_pq m))" "i = ptr_idx e" by (auto simp: victims_def)
  then obtain j where "e = LPtr j" using vq.pq_elemsD(4)[OF assms e(1)] by (auto simp: line_ok_def)
  then show "LPtr i \<in> set (pq_elems (victim_line_pq m))" using e by (simp add: ptr_idx_def)
next
  assume "LPtr i \<in> set (pq_elems (victim_line_pq m))"
  then show "i \<in># victims m" unfolding victims_def by (force simp: ptr_idx_def)
qed

subsection \<open>Where the lines are\<close>

definition io_lines :: "(io_type \<Rightarrow> nat) \<Rightarrow> nat multiset" where
  "io_lines cl = {#cl USER_IO, cl GC_IO#}"

definition part_inv :: "nat \<Rightarrow> (io_type \<Rightarrow> nat) \<Rightarrow> nat list \<Rightarrow> line_mgmt \<Rightarrow> bool" where
  "part_inv T cl X m \<longleftrightarrow>
     length (lines m) = T \<and> lm_tt_lines m = T \<and> (\<forall>i < T. ln_id (lines m ! i) = i) \<and>
     vq.pq_inv (victim_line_pq m) (lines m) \<and> length (pq_d (victim_line_pq m)) = T + 1 \<and>
     mset (free_line_list m) + mset (full_line_list m) + victims m + io_lines cl + mset X = mset [0..<T] \<and>
     (\<forall>i < T. i \<notin># victims m \<longrightarrow> ln_pos (lines m ! i) = 0) \<and>
     free_line_cnt m = of_nat (length (free_line_list m)) \<and>
     full_line_cnt m = of_nat (length (full_line_list m)) \<and>
     victim_line_cnt m = of_nat (size (victims m))"

lemma io_lines_mem: "cl io \<in># io_lines cl"
  by (cases io) (auto simp: io_lines_def)

lemma io_lines_upd: "add_mset (cl io) (io_lines (cl(io := x))) = add_mset x (io_lines cl)"
  by (cases io) (auto simp: io_lines_def)

text \<open>Two places that make up a sub-multiset of the line numbers share no line.\<close>

lemma part_disjoint:
  assumes "A + B + R = mset [0..<T]" "x \<in># A"
  shows "x \<notin># B" "x < T" "count A x = 1"
proof -
  have c: "count (A + B + R) x \<le> 1"
    unfolding assms(1) by (metis count_mset_0_iff distinct_count_atmost_1 distinct_upt le_numeral_extra(1) order_refl le0)
  have "1 \<le> count A x" using assms(2) by (simp add: Suc_le_eq)
  moreover have "count A x + count B x + count R x \<le> 1" using c by simp
  ultimately show "count A x = 1" and "x \<notin># B" by (linarith, metis add_cancel_right_right add_leE count_eq_zero_iff
      le_add1 le_antisym add_le_same_cancel1 dual_order.trans)
  have "x \<in># A + B + R" using assms(2) by simp
  then have "x \<in> set [0..<T]" unfolding assms(1) by simp
  then show "x < T" by simp
qed

lemma part_inv_facts:
  assumes "part_inv T cl X m"
  shows "i \<in> set (free_line_list m) \<Longrightarrow> i \<notin> set (full_line_list m) \<and> i \<notin># victims m \<and> i \<notin># io_lines cl \<and> i \<notin> set X \<and> i < T"
    and "i \<in> set (full_line_list m) \<Longrightarrow> i \<notin> set (free_line_list m) \<and> i \<notin># victims m \<and> i \<notin># io_lines cl \<and> i \<notin> set X \<and> i < T"
    and "i \<in># victims m \<Longrightarrow> i \<notin> set (free_line_list m) \<and> i \<notin> set (full_line_list m) \<and> i \<notin># io_lines cl \<and> i \<notin> set X \<and> i < T"
    and "i \<in># io_lines cl \<Longrightarrow> i \<notin> set (free_line_list m) \<and> i \<notin> set (full_line_list m) \<and> i \<notin># victims m \<and> i \<notin> set X \<and> i < T"
    and "i \<in> set X \<Longrightarrow> i \<notin> set (free_line_list m) \<and> i \<notin> set (full_line_list m) \<and> i \<notin># victims m \<and> i \<notin># io_lines cl \<and> i < T"
    and "cl USER_IO \<noteq> cl GC_IO"
    and "i < T \<Longrightarrow> i \<in> set (free_line_list m) \<or> i \<in> set (full_line_list m) \<or> i \<in># victims m \<or> i \<in># io_lines cl \<or> i \<in> set X"
    and "distinct (free_line_list m)" and "distinct (full_line_list m)"
    and "length (free_line_list m) + length (full_line_list m) + size (victims m) + 2 + length X = T"
proof -
  have e: "mset (free_line_list m) + mset (full_line_list m) + victims m + io_lines cl + mset X = mset [0..<T]"
    using assms by (simp add: part_inv_def)
  let ?f = "mset (free_line_list m)" and ?u = "mset (full_line_list m)" and ?v = "victims m"
    and ?o = "io_lines cl" and ?x = "mset X"
  have e1: "?f + (?u + ?v + ?o + ?x) + {#} = mset [0..<T]" unfolding e[symmetric] by (simp add: ac_simps)
  have e2: "?u + (?f + ?v + ?o + ?x) + {#} = mset [0..<T]" unfolding e[symmetric] by (simp add: ac_simps)
  have e3: "?v + (?f + ?u + ?o + ?x) + {#} = mset [0..<T]" unfolding e[symmetric] by (simp add: ac_simps)
  have e4: "?o + (?f + ?u + ?v + ?x) + {#} = mset [0..<T]" unfolding e[symmetric] by (simp add: ac_simps)
  have e5: "?x + (?f + ?u + ?v + ?o) + {#} = mset [0..<T]" unfolding e[symmetric] by (simp add: ac_simps)
  show "i \<in> set (free_line_list m) \<Longrightarrow> i \<notin> set (full_line_list m) \<and> i \<notin># victims m \<and> i \<notin># io_lines cl \<and> i \<notin> set X \<and> i < T"
    using part_disjoint[OF e1, of i] by auto
  show "i \<in> set (full_line_list m) \<Longrightarrow> i \<notin> set (free_line_list m) \<and> i \<notin># victims m \<and> i \<notin># io_lines cl \<and> i \<notin> set X \<and> i < T"
    using part_disjoint[OF e2, of i] by auto
  show "i \<in># victims m \<Longrightarrow> i \<notin> set (free_line_list m) \<and> i \<notin> set (full_line_list m) \<and> i \<notin># io_lines cl \<and> i \<notin> set X \<and> i < T"
    using part_disjoint[OF e3, of i] by auto
  show "i \<in># io_lines cl \<Longrightarrow> i \<notin> set (free_line_list m) \<and> i \<notin> set (full_line_list m) \<and> i \<notin># victims m \<and> i \<notin> set X \<and> i < T"
    using part_disjoint[OF e4, of i] by auto
  show "i \<in> set X \<Longrightarrow> i \<notin> set (free_line_list m) \<and> i \<notin> set (full_line_list m) \<and> i \<notin># victims m \<and> i \<notin># io_lines cl \<and> i < T"
    using part_disjoint[OF e5, of i] by auto
  show "cl USER_IO \<noteq> cl GC_IO"
    using part_disjoint(3)[OF e4, of "cl USER_IO"] by (auto simp: io_lines_def)
  show "i \<in> set (free_line_list m) \<or> i \<in> set (full_line_list m) \<or> i \<in># victims m \<or> i \<in># io_lines cl \<or> i \<in> set X" if "i < T"
  proof -
    have "i \<in># mset [0..<T]" using that by simp
    then show ?thesis unfolding e[symmetric] by auto
  qed
  show "distinct (free_line_list m)"
    using part_disjoint(3)[OF e1] by (simp add: distinct_count_atmost_1)
  show "distinct (full_line_list m)"
    using part_disjoint(3)[OF e2] by (simp add: distinct_count_atmost_1)
  have "size (mset (free_line_list m) + mset (full_line_list m) + victims m + io_lines cl + mset X) = T"
    unfolding e by simp
  then show "length (free_line_list m) + length (full_line_list m) + size (victims m) + 2 + length X = T"
    by (simp add: io_lines_def)
qed

subsection \<open>Counters, filling and mapping\<close>

text \<open>\<open>f\<close> is the status of each page, \<open>b\<close> the counters of its block; lines in \<open>X\<close> are exempt.\<close>

definition cnt_inv :: "ssdparams \<Rightarrow> (ppa \<Rightarrow> pg_status) \<Rightarrow> (ppa \<Rightarrow> (nat \<times> nat) option) \<Rightarrow> line_mgmt \<Rightarrow> nat list \<Rightarrow> bool" where
  "cnt_inv P f b m X \<longleftrightarrow>
     (\<forall>p \<in> pages P. unat (ppa_blk p) \<notin> set X \<longrightarrow> b p = Some (ninvalid f (blk_pages P p), nvalid f (blk_pages P p))) \<and>
     (\<forall>i < tt_lines P. i \<notin> set X \<longrightarrow> ln_ipc (lines m ! i) = ninvalid f (line_pages P i) \<and>
        ln_vpc (lines m ! i) = nvalid f (line_pages P i))"

text \<open>\<open>nm\<close> is the number of pages already used in the two open lines.\<close>

definition use_inv :: "ssdparams \<Rightarrow> (ppa \<Rightarrow> pg_status) \<Rightarrow> (io_type \<Rightarrow> nat) \<Rightarrow> (io_type \<Rightarrow> nat) \<Rightarrow> line_mgmt \<Rightarrow> bool" where
  "use_inv P f nm cl m \<longleftrightarrow>
     (\<forall>i \<in> set (free_line_list m). \<forall>p \<in> line_pages P i. f p = PG_FREE) \<and>
     (\<forall>io. nm io \<le> pgs_per_line P \<and> (\<forall>p \<in> line_pages P (cl io). f p = PG_FREE \<longleftrightarrow> nm io \<le> pg_order P p)) \<and>
     (\<forall>i. i \<in> set (full_line_list m) \<or> i \<in># victims m \<longrightarrow> (\<forall>p \<in> line_pages P i. f p \<noteq> PG_FREE)) \<and>
     (\<forall>i \<in> set (full_line_list m). ln_vpc (lines m ! i) = pgs_per_line P) \<and>
     (\<forall>i. i \<in># victims m \<longrightarrow> 0 < ln_ipc (lines m ! i))"

text \<open>
  The logical pages in \<open>E\<close> are being remapped, and the valid physical pages in \<open>S\<close> are stale
  copies in the victim line of a running collection.
\<close>

definition map_inv :: "ssdparams \<Rightarrow> (ppa \<Rightarrow> pg_status) \<Rightarrow> ppa list \<Rightarrow> u64 list \<Rightarrow> ppa set \<Rightarrow> nat set \<Rightarrow> bool" where
  "map_inv P f mt rm S E \<longleftrightarrow> length mt = tt_pgs P \<and> length rm = tt_pgs P \<and>
     (\<forall>lpn < tt_pgs P. lpn \<notin> E \<longrightarrow> mapped_ppa (mt ! lpn) \<longrightarrow>
        mt ! lpn \<in> pages P \<and> mt ! lpn \<notin> S \<and> f (mt ! lpn) = PG_VALID \<and> unat (rm ! pgidx P (mt ! lpn)) = lpn) \<and>
     (\<forall>p \<in> pages P. p \<notin> S \<longrightarrow> f p = PG_VALID \<longrightarrow>
        unat (rm ! pgidx P p) < tt_pgs P \<and> unat (rm ! pgidx P p) \<notin> E \<and> mt ! unat (rm ! pgidx P p) = p)"

definition cls :: "conv_ftl \<Rightarrow> io_type \<Rightarrow> nat" where
  "cls c io = curline (get_wp c io)"

definition core :: "conv_ftl \<Rightarrow> nat list \<Rightarrow> ppa set \<Rightarrow> nat set \<Rightarrow> (io_type \<Rightarrow> nat) \<Rightarrow> bool" where
  "core c X S E nm \<longleftrightarrow> params_ok (spp c) \<and> ssd_inv (ftl_ssd c) \<and>
     part_inv (tt_lines (spp c)) (cls c) X (lm c) \<and>
     cnt_inv (spp c) (pst (ftl_ssd c)) (bcnt (ftl_ssd c)) (lm c) X \<and>
     use_inv (spp c) (pst (ftl_ssd c)) nm (cls c) (lm c) \<and>
     map_inv (spp c) (pst (ftl_ssd c)) (maptbl c) (rmap c) S E"

lemma coreD:
  assumes "core c X S E nm"
  shows "params_ok (spp c)" "ssd_inv (ftl_ssd c)" "part_inv (tt_lines (spp c)) (cls c) X (lm c)"
    "cnt_inv (spp c) (pst (ftl_ssd c)) (bcnt (ftl_ssd c)) (lm c) X"
    "use_inv (spp c) (pst (ftl_ssd c)) nm (cls c) (lm c)"
    "map_inv (spp c) (pst (ftl_ssd c)) (maptbl c) (rmap c) S E"
  using assms by (simp_all add: core_def)

text \<open>The statuses may be changed outside of the device's pages.\<close>

lemma cnt_inv_cong:
  assumes "\<And>p. p \<in> pages P \<Longrightarrow> f p = g p" "cnt_inv P f b m X"
  shows "cnt_inv P g b m X"
proof -
  have "ninvalid f S = ninvalid g S \<and> nvalid f S = nvalid g S" if "S \<subseteq> pages P" for S
    using that assms(1) by (metis nvalid_cong ninvalid_cong subsetD)
  then show ?thesis
    using assms(2) by (auto simp: cnt_inv_def blk_pages_def line_pages_def)
qed

lemma use_inv_cong:
  assumes "\<And>p. p \<in> pages P \<Longrightarrow> f p = g p" "use_inv P f nm cl m"
  shows "use_inv P g nm cl m"
  using assms by (auto simp: use_inv_def line_pages_def)

lemma map_inv_cong:
  assumes "\<And>p. p \<in> pages P \<Longrightarrow> f p = g p" "map_inv P f mt rm S E"
  shows "map_inv P g mt rm S E"
  using assms by (auto simp: map_inv_def)

subsection \<open>What does not touch the invariant\<close>

lemma cls_upd [simp]:
  "cls (c\<lparr>ftl_ssd := s\<rparr>) = cls c"
  "cls (c\<lparr>cur_nsecs := t\<rparr>) = cls c"
  "cls (c\<lparr>wfc := w\<rparr>) = cls c"
  "cls (c\<lparr>stats := st\<rparr>) = cls c"
  "cls (c\<lparr>maptbl := mt\<rparr>) = cls c"
  "cls (c\<lparr>rmap := rm\<rparr>) = cls c"
  "cls (c\<lparr>lm := m\<rparr>) = cls c"
  by (auto simp: cls_def get_wp_def fun_eq_iff split: io_type.split)

lemma core_nand_same:
  assumes "core c X S E nm" "nand_same (ftl_ssd c) s'" "ssd_inv s'"
  shows "core (c\<lparr>ftl_ssd := s'\<rparr>) X S E nm"
  using assms nand_same_view[OF assms(2)] by (simp add: core_def)

lemma core_upd_other [simp]:
  "core (c\<lparr>cur_nsecs := t\<rparr>) X S E nm = core c X S E nm"
  "core (c\<lparr>wfc := w\<rparr>) X S E nm = core c X S E nm"
  "core (c\<lparr>stats := st\<rparr>) X S E nm = core c X S E nm"
  by (simp_all add: core_def)

lemma core_upd_stats [simp]: "core (upd_stats g c) X S E nm = core c X S E nm"
  by (simp add: upd_stats_def)

text \<open>A change of one line that keeps its number and counters, and its position.\<close>

lemma part_inv_mod_line:
  assumes inv: "part_inv T cl X m" and i: "i < T" and x: "ln_id x = i"
    and pos: "ln_pos x = ln_pos (lines m ! i)" and vpc: "i \<in># victims m \<Longrightarrow> ln_vpc x = ln_vpc (lines m ! i)"
  shows "part_inv T cl X (m\<lparr>lines := (lines m)[i := x]\<rparr>)"
proof -
  note p = inv[unfolded part_inv_def]
  have q: "vq.pq_inv (victim_line_pq m) (lines m)" using p by blast
  have vic: "victims (m\<lparr>lines := ls\<rparr>) = victims m" for ls by (simp add: victims_def)
  have "vq.pq_inv (victim_line_pq m) ((lines m)[i := x])"
  proof (cases "i \<in># victims m")
    case False
    then show ?thesis using pq_inv_upd_line[OF q] victims_iff[OF q] by blast
  next
    case True
    have "victim_line_get_pri ((lines m)[i := x]) e = victim_line_get_pri (lines m) e \<and>
        victim_line_get_pos ((lines m)[i := x]) e = victim_line_get_pos (lines m) e" for e
      using pos vpc[OF True]
      by (auto simp: victim_line_get_pri_def victim_line_get_pos_def line_at_def aget_def nth_upd split: line_ptr.split)
    moreover have "line_ok ((lines m)[i := x]) e = line_ok (lines m) e" for e by (simp add: line_ok_def)
    ultimately show ?thesis using q by (simp add: vq.pq_inv_def vq.heap_except_def)
  qed
  then show ?thesis using p i x pos by (auto simp: part_inv_def vic nth_upd)
qed

end
