(* ===== verification/Conv_Place.thy ===== *)
theory Conv_Place
  imports Conv_Inv
begin

text \<open>
  Writing one page: the mapping of a logical page is set to the page at a write pointer, that
  page becomes valid, and the write pointer moves on. Both the host's writes and the copies of
  the collector go through these steps.
\<close>


text \<open>What no step of the FTL on pages and lines changes.\<close>

definition kept :: "conv_ftl \<Rightarrow> conv_ftl \<Rightarrow> bool" where
  "kept c c' \<longleftrightarrow> spp c' = spp c \<and> cp c' = cp c \<and> wfc c' = wfc c \<and>
     write_buffer (ftl_ssd c') = write_buffer (ftl_ssd c)"

lemma kept_refl [simp]: "kept c c"
  by (simp add: kept_def)

lemma kept_trans: "kept c c' \<Longrightarrow> kept c' c'' \<Longrightarrow> kept c c''"
  by (simp add: kept_def)

text \<open>The parts of the line management besides the lines themselves.\<close>

definition same_lists :: "line_mgmt \<Rightarrow> line_mgmt \<Rightarrow> bool" where
  "same_lists m m' \<longleftrightarrow> m' = m\<lparr>lines := lines m'\<rparr>"

lemma same_listsD:
  assumes "same_lists m m'"
  shows "free_line_list m' = free_line_list m" "full_line_list m' = full_line_list m"
    "victims m' = victims m" "free_line_cnt m' = free_line_cnt m"
  using assms by (metis same_lists_def line_mgmt.select_convs line_mgmt.update_convs(1) line_mgmt.surjective victims_def)+

subsection \<open>Counting in a block and in a line\<close>

lemma card_blk_pages_le:
  assumes P: "params_ok P" and q: "q \<in> pages P"
  shows "card (blk_pages P q) \<le> pgs_per_blk P"
proof -
  have "inj_on (\<lambda>p. unat (ppa_pg p)) (blk_pages P q)"
  proof (rule inj_onI)
    fix x y assume xy: "x \<in> blk_pages P q" "y \<in> blk_pages P q" "unat (ppa_pg x) = unat (ppa_pg y)"
    then have "x \<in> pages P" "y \<in> pages P" by (auto simp: blk_pages_def)
    moreover have "same_blk x y"
      using xy by (auto simp: blk_pages_def same_blk_def same_pl_def same_lun_def same_ch_def)
    ultimately show "x = y" using xy(3) same_pg_eq[of x P y] by (simp add: same_pg_def)
  qed
  moreover have "(\<lambda>p. unat (ppa_pg p)) ` blk_pages P q \<subseteq> {..<pgs_per_blk P}"
    using pages_coords(4)[OF P] by (auto simp: blk_pages_def)
  ultimately show ?thesis by (metis card_image card_mono card_lessThan finite_lessThan)
qed

lemma self_blk_pages: "q \<in> pages P \<Longrightarrow> q \<in> blk_pages P q"
  by (simp add: blk_pages_def same_blk_def same_pl_def same_lun_def same_ch_def)

lemma nvalid_lt: "p \<in> S \<Longrightarrow> f p \<noteq> PG_VALID \<Longrightarrow> nvalid f S < card S"
  unfolding nvalid_def by (rule psubset_card_mono[OF finite_ppa]) auto

lemma ninvalid_lt: "p \<in> S \<Longrightarrow> f p \<noteq> PG_INVALID \<Longrightarrow> ninvalid f S < card S"
  unfolding ninvalid_def by (rule psubset_card_mono[OF finite_ppa]) auto

lemma nvalid_pos: "p \<in> S \<Longrightarrow> f p = PG_VALID \<Longrightarrow> 0 < nvalid f S"
  unfolding nvalid_def by (subst card_gt_0_iff) (auto simp: finite_ppa)

lemma ninvalid_pos: "p \<in> S \<Longrightarrow> f p = PG_INVALID \<Longrightarrow> 0 < ninvalid f S"
  unfolding ninvalid_def by (subst card_gt_0_iff) (auto simp: finite_ppa)

lemma cls_less:
  assumes "core c X S E nm"
  shows "cls c io < tt_lines (spp c)" "cls c io \<notin> set X" "cls c io \<notin># victims (lm c)"
    "cls c io \<notin> set (free_line_list (lm c))" "cls c io \<notin> set (full_line_list (lm c))"
  using part_inv_facts(4)[OF coreD(3)[OF assms] io_lines_mem[of "cls c" io]] by auto

text \<open>The other open line is another line.\<close>

lemma cls_other: "core c X S E nm \<Longrightarrow> io' \<noteq> io \<Longrightarrow> cls c io' \<noteq> cls c io"
  using part_inv_facts(6)[OF coreD(3)] by (cases io; cases io') metis+

lemma part_inv_lines:
  assumes "part_inv T cl X m"
  shows "length (lines m) = T" "i < T \<Longrightarrow> ln_id (lines m ! i) = i"
    "i < T \<Longrightarrow> i \<notin># victims m \<Longrightarrow> ln_pos (lines m ! i) = 0" "vq.pq_inv (victim_line_pq m) (lines m)"
    "length (pq_d (victim_line_pq m)) = T + 1"
  using assms by (simp_all add: part_inv_def)

subsection \<open>A page becomes valid\<close>

lemma mark_page_valid_run:
  assumes core: "core c X S E nm" and p: "p \<in> line_pages (spp c) (cls c io)"
    and st: "pst (ftl_ssd c) p = PG_FREE"
  shows "\<exists>s'. mark_page_valid c p = Some (c\<lparr>ftl_ssd := s', lm := (lm c)\<lparr>lines := (lines (lm c))[cls c io :=
        (lines (lm c) ! cls c io)\<lparr>ln_vpc := ln_vpc (lines (lm c) ! cls c io) + 1\<rparr>]\<rparr>\<rparr>) \<and>
    ssd_inv s' \<and> same_rest (ftl_ssd c) s' \<and>
    (\<forall>q \<in> pages (spp c). pst s' q = ((pst (ftl_ssd c))(p := PG_VALID)) q) \<and>
    (\<forall>q \<in> pages (spp c). bcnt s' q = (if same_blk p q
       then map_option (\<lambda>(i, v). (i, v + 1)) (bcnt (ftl_ssd c) q) else bcnt (ftl_ssd c) q))"
proof -
  let ?P = "spp c" and ?f = "pst (ftl_ssd c)"
  note cr = coreD[OF core]
  note pt = part_inv_lines[OF cr(3)]
  have pp: "p \<in> pages ?P" "unat (ppa_blk p) = cls c io" using p by (auto simp: line_pages_def)
  have i: "cls c io < tt_lines ?P" "cls c io \<notin> set X" using cls_less[OF core] by auto
  have cnt: "bcnt (ftl_ssd c) p = Some (ninvalid ?f (blk_pages ?P p), nvalid ?f (blk_pages ?P p))"
    "ln_vpc (lines (lm c) ! cls c io) = nvalid ?f (line_pages ?P (cls c io))"
    using cr(4) pp i by (auto simp: cnt_inv_def)
  have lt: "nvalid ?f (blk_pages ?P p) < pgs_per_blk ?P"
    using nvalid_lt[OF self_blk_pages[OF pp(1)], of ?f] card_blk_pages_le[OF cr(1) pp(1)] st by simp
  have lt2: "nvalid ?f (line_pages ?P (cls c io)) < pgs_per_line ?P"
    using nvalid_lt[OF p, of ?f] card_line_pages_le[OF cr(1), of "cls c io"] st by simp
  obtain s' where run: "do {
      s \<leftarrow> set_page_status (ftl_ssd c) p PG_FREE PG_VALID;
      upd_blk s p (\<lambda>b. do { nv_assert (vpc b < pgs_per_blk ?P); Some (b\<lparr>vpc := vpc b + 1\<rparr>) }) } = Some s'"
    and s': "ssd_inv s'" "same_rest (ftl_ssd c) s'" "\<forall>q \<in> pages ?P. pst s' q = (?f(p := PG_VALID)) q"
    "\<forall>q. bcnt s' q = (if same_blk p q then Some (ninvalid ?f (blk_pages ?P p), nvalid ?f (blk_pages ?P p) + 1)
        else bcnt (ftl_ssd c) q)"
    using page_to_valid[OF cr(2) pp(1) st cnt(1) lt refl] by (elim exE conjE) (rule that)
  have b: "bcnt (ftl_ssd c) q = bcnt (ftl_ssd c) p" if "q \<in> pages ?P" "same_blk p q" for q
  proof -
    have "blk_pages ?P q = blk_pages ?P p"
      using that(2) by (auto simp: blk_pages_def same_blk_def same_pl_def same_lun_def same_ch_def)
    moreover have "unat (ppa_blk q) \<notin> set X" using that(2) pp(2) i(2) by (simp add: same_blk_def)
    ultimately show ?thesis using cr(4) that(1) cnt(1) by (simp add: cnt_inv_def)
  qed
  have "mark_page_valid c p = Some (c\<lparr>ftl_ssd := s', lm := (lm c)\<lparr>lines := (lines (lm c))[cls c io :=
        (lines (lm c) ! cls c io)\<lparr>ln_vpc := ln_vpc (lines (lm c) ! cls c io) + 1\<rparr>]\<rparr>\<rparr>)"
  proof -
    obtain s1 where s1: "set_page_status (ftl_ssd c) p PG_FREE PG_VALID = Some s1"
      "upd_blk s1 p (\<lambda>b. nv_assert (vpc b < pgs_per_blk ?P) \<bind> (\<lambda>_. Some (b\<lparr>vpc := vpc b + 1\<rparr>))) = Some s'"
      using run by (rule bind_SomeE)
    have "cls c io < length (lines (lm c))" "ln_vpc (lines (lm c) ! cls c io) < pgs_per_line ?P"
      using i(1) pt(1) cnt(2) lt2 by simp_all
    then show ?thesis
      unfolding mark_page_valid_def Let_def s1(1) bind.bind_lunit s1(2) get_line_def mod_line_def amod_def upd_lm_def pp(2)
      by simp
  qed
  moreover have "\<forall>q \<in> pages ?P. bcnt s' q = (if same_blk p q
       then map_option (\<lambda>(i, v). (i, v + 1)) (bcnt (ftl_ssd c) q) else bcnt (ftl_ssd c) q)"
    using s'(4) b cnt(1) by simp
  ultimately show ?thesis using s' by blast
qed

subsection \<open>The invariant parts\<close>

lemma cnt_inv_valid:
  assumes P: "params_ok P" and cnt: "cnt_inv P f b m X" and p: "p \<in> line_pages P i" "f p \<noteq> PG_VALID" "f p \<noteq> PG_INVALID"
    and b: "\<And>q. q \<in> pages P \<Longrightarrow> b' q = (if same_blk p q then map_option (\<lambda>(i, v). (i, v + 1)) (b q) else b q)"
    and i: "i < length (lines m)" "tt_lines P = length (lines m)"
  shows "cnt_inv P (f(p := PG_VALID)) b' (m\<lparr>lines := (lines m)[i := (lines m ! i)\<lparr>ln_vpc := ln_vpc (lines m ! i) + 1\<rparr>]\<rparr>) X"
  unfolding cnt_inv_def
proof (intro conjI ballI allI impI)
  fix q assume q: "q \<in> pages P" "unat (ppa_blk q) \<notin> set X"
  have "p \<in> blk_pages P q \<longleftrightarrow> same_blk p q" using p(1) by (simp add: blk_pages_def line_pages_def)
  then show "b' q = Some (ninvalid (f(p := PG_VALID)) (blk_pages P q), nvalid (f(p := PG_VALID)) (blk_pages P q))"
    using q cnt b[OF q(1)] p(2,3) by (simp add: cnt_inv_def nvalid_new ninvalid_other)
next
  fix j assume j: "j < tt_lines P" "j \<notin> set X"
  then have e: "ln_ipc (lines m ! j) = ninvalid f (line_pages P j)" "ln_vpc (lines m ! j) = nvalid f (line_pages P j)"
    using cnt by (auto simp: cnt_inv_def)
  have m: "p \<in> line_pages P j \<longleftrightarrow> i = j" using p(1) by (auto simp: line_pages_def)
  let ?m = "m\<lparr>lines := (lines m)[i := (lines m ! i)\<lparr>ln_vpc := ln_vpc (lines m ! i) + 1\<rparr>]\<rparr>"
  show "ln_ipc (lines ?m ! j) = ninvalid (f(p := PG_VALID)) (line_pages P j)"
    using e(1) p(3) j(1) i by (simp add: nth_upd ninvalid_other)
  show "ln_vpc (lines ?m ! j) = nvalid (f(p := PG_VALID)) (line_pages P j)"
    using e(2) p(2) j(1) i m by (simp add: nth_upd nvalid_new)
qed

lemma use_inv_valid:
  assumes P: "params_ok P" and use: "use_inv P f nm cl m" and p: "p \<in> line_pages P (cl io)" "pg_order P p = nm io"
    and other: "\<And>io'. io' \<noteq> io \<Longrightarrow> cl io' \<noteq> cl io" "cl io \<notin> set (free_line_list m)"
    and ls: "free_line_list m' = free_line_list m" "full_line_list m' = full_line_list m" "victims m' = victims m"
      "\<And>i. i \<noteq> cl io \<Longrightarrow> lines m' ! i = lines m ! i" "cl io \<notin> set (full_line_list m)" "cl io \<notin># victims m"
  shows "use_inv P (f(p := PG_VALID)) (nm(io := Suc (nm io))) cl m'"
proof -
  have out: "p \<notin> line_pages P i" if "i \<noteq> cl io" for i using p(1) that by (auto simp: line_pages_def)
  have lt: "nm io < pgs_per_line P" using pg_order_less[OF P, of p] p by (simp add: line_pages_def)
  have open': "(f(p := PG_VALID)) q = PG_FREE \<longleftrightarrow> (nm(io := Suc (nm io))) io' \<le> pg_order P q"
    if q: "q \<in> line_pages P (cl io')" for q io'
  proof (cases "io' = io")
    case True
    then have "f q = PG_FREE \<longleftrightarrow> nm io \<le> pg_order P q" using use q by (simp add: use_inv_def)
    moreover have "pg_order P q = nm io \<longleftrightarrow> q = p"
      using pg_order_inject[OF P, of q "cl io" p] q p True by simp
    ultimately show ?thesis using True p(2) by auto
  next
    case False
    then have "q \<noteq> p" using q out[OF other(1)[OF False]] by blast
    then show ?thesis using use q False by (simp add: use_inv_def)
  qed
  have rest: "(f(p := PG_VALID)) q = f q" if "q \<in> line_pages P i" "i \<noteq> cl io" for q i
    using out[OF that(2)] that(1) by auto
  note u = use[unfolded use_inv_def]
  show ?thesis
    unfolding use_inv_def ls(1-3)
  proof (intro conjI allI ballI impI)
    show "(f(p := PG_VALID)) q = PG_FREE" if "i \<in> set (free_line_list m)" "q \<in> line_pages P i" for i q
      using that rest[OF that(2)] other(2) u by metis
    show "(nm(io := Suc (nm io))) io' \<le> pgs_per_line P" for io' using lt u by simp
    show "(f(p := PG_VALID)) q = PG_FREE \<longleftrightarrow> (nm(io := Suc (nm io))) io' \<le> pg_order P q"
      if "q \<in> line_pages P (cl io')" for io' q by (rule open'[OF that])
    show "(f(p := PG_VALID)) q \<noteq> PG_FREE" if "i \<in> set (full_line_list m) \<or> i \<in># victims m" "q \<in> line_pages P i" for i q
      using that rest[OF that(2)] u ls(5,6) by (metis fun_upd_apply pg_status.distinct)
    show "ln_vpc (lines m' ! i) = pgs_per_line P" if "i \<in> set (full_line_list m)" for i
      using that ls(4)[of i] ls(5) u by metis
    show "0 < ln_ipc (lines m' ! i)" if "i \<in># victims m" for i
      using that ls(4)[of i] ls(6) u by metis
  qed
qed

lemma map_inv_place:
  assumes P: "params_ok P" and mp: "map_inv P f mt rm S {unat lpn}" and l: "unat lpn < tt_pgs P"
    and p: "p \<in> pages P" "p \<notin> S" "f p = PG_FREE"
  shows "map_inv P (f(p := PG_VALID)) (mt[unat lpn := p]) (rm[pgidx P p := lpn]) S {}"
proof -
  note m = mp[unfolded map_inv_def]
  have ix: "pgidx P p < length rm" using pgidx_less[OF P p(1)] m by simp
  define rm' mt' where "rm' = rm[pgidx P p := lpn]" and "mt' = mt[unat lpn := p]"
  have rm: "rm' ! pgidx P q = (if q = p then lpn else rm ! pgidx P q)" if "q \<in> pages P" for q
    using pgidx_inject[OF P p(1) that] ix by (auto simp: nth_upd rm'_def)
  have mt: "mt' ! k = (if k = unat lpn then p else mt ! k)" for k
    using l m by (auto simp: nth_upd mt'_def)
  have len: "length mt' = tt_pgs P" "length rm' = tt_pgs P" using m by (simp_all add: mt'_def rm'_def)
  show ?thesis
    unfolding map_inv_def rm'_def[symmetric] mt'_def[symmetric]
  proof (intro conjI allI ballI impI)
    fix k assume k: "k < tt_pgs P" "mapped_ppa (mt' ! k)"
    have "mt' ! k \<in> pages P \<and> mt' ! k \<notin> S \<and> (f(p := PG_VALID)) (mt' ! k) = PG_VALID \<and>
        unat (rm' ! pgidx P (mt' ! k)) = k"
    proof (cases "k = unat lpn")
      case True
      then show ?thesis using p rm[OF p(1)] by (simp add: mt)
    next
      case False
      then have "mt ! k \<in> pages P" "mt ! k \<notin> S" "f (mt ! k) = PG_VALID" "unat (rm ! pgidx P (mt ! k)) = k"
        using k m by (simp_all add: mt)
      moreover from this have "mt ! k \<noteq> p" using p(3) by auto
      ultimately show ?thesis using False rm[of "mt ! k"] by (simp add: mt)
    qed
    then show "mt' ! k \<in> pages P" "mt' ! k \<notin> S" "(f(p := PG_VALID)) (mt' ! k) = PG_VALID"
      "unat (rm' ! pgidx P (mt' ! k)) = k" by blast+
  next
    fix q assume q: "q \<in> pages P" "q \<notin> S" "(f(p := PG_VALID)) q = PG_VALID"
    have "unat (rm' ! pgidx P q) < tt_pgs P \<and> mt' ! unat (rm' ! pgidx P q) = q"
    proof (cases "q = p")
      case True
      then show ?thesis using l rm[OF q(1)] by (simp add: mt)
    next
      case False
      then show ?thesis using q m rm[OF q(1)] by (simp add: mt)
    qed
    then show "unat (rm' ! pgidx P q) < tt_pgs P" "unat (rm' ! pgidx P q) \<notin> {}"
      "mt' ! unat (rm' ! pgidx P q) = q" by simp_all
  qed (simp_all add: len)
qed

subsection \<open>Placing a logical page\<close>

definition place_page :: "conv_ftl \<Rightarrow> u64 \<Rightarrow> ppa \<Rightarrow> conv_ftl option" where
  "place_page c lpn p = do {
     c \<leftarrow> set_maptbl_ent c lpn p;
     c \<leftarrow> set_rmap_ent c lpn p;
     mark_page_valid c p
   }"

lemma set_tables:
  assumes core: "core c X S E nm" and p: "p \<in> pages (spp c)" and l: "unat lpn < tt_pgs (spp c)"
  shows "set_maptbl_ent c lpn p = Some (c\<lparr>maptbl := (maptbl c)[unat lpn := p]\<rparr>)"
    "set_rmap_ent c lpn' p = Some (c\<lparr>rmap := (rmap c)[pgidx (spp c) p := lpn']\<rparr>)"
    "set_rmap_ent (c\<lparr>maptbl := mt\<rparr>) lpn' p = Some (c\<lparr>maptbl := mt, rmap := (rmap c)[pgidx (spp c) p := lpn']\<rparr>)"
proof -
  note cr = coreD[OF core]
  have len: "length (maptbl c) = tt_pgs (spp c)" "length (rmap c) = tt_pgs (spp c)"
    using cr(6) by (simp_all add: map_inv_def)
  then show "set_maptbl_ent c lpn p = Some (c\<lparr>maptbl := (maptbl c)[unat lpn := p]\<rparr>)"
    using l by (simp add: set_maptbl_ent_def)
  show "set_rmap_ent c lpn' p = Some (c\<lparr>rmap := (rmap c)[pgidx (spp c) p := lpn']\<rparr>)"
    "set_rmap_ent (c\<lparr>maptbl := mt\<rparr>) lpn' p = Some (c\<lparr>maptbl := mt, rmap := (rmap c)[pgidx (spp c) p := lpn']\<rparr>)"
    using len ppa2pgidx_eq[OF cr(1) p] pgidx_less[OF cr(1) p] by (simp_all add: set_rmap_ent_def)
qed

lemma mark_page_valid_tables:
  assumes "mark_page_valid c p = Some (c\<lparr>ftl_ssd := s', lm := m'\<rparr>)"
  shows "mark_page_valid (c\<lparr>maptbl := mt, rmap := rm\<rparr>) p = Some (c\<lparr>ftl_ssd := s', maptbl := mt, rmap := rm, lm := m'\<rparr>)"
  using assms
  by (cases c) (auto simp: mark_page_valid_def Let_def bind_Some_iff get_line_def mod_line_def upd_lm_def)

lemma core_place:
  assumes core: "core c X S {unat lpn} nm" and wp: "wp_in (spp c) (get_wp c io)"
    and ord: "wp_order (spp c) (get_wp c io) = nm io" and l: "unat lpn < tt_pgs (spp c)"
    and p: "p = wp_page (get_wp c io)" "p \<notin> S"
  shows "\<exists>c'. place_page c lpn p = Some c' \<and> core c' X S {} (nm(io := Suc (nm io))) \<and> kept c c' \<and>
    get_wp c' = get_wp c \<and> same_lists (lm c) (lm c') \<and> cur_nsecs c' = cur_nsecs c \<and>
    maptbl c' = (maptbl c)[unat lpn := p] \<and> pst (ftl_ssd c) p = PG_FREE \<and> p \<in> line_pages (spp c) (cls c io) \<and>
    (\<forall>q \<in> pages (spp c). unat (ppa_blk q) \<noteq> cls c io \<longrightarrow> bcnt (ftl_ssd c') q = bcnt (ftl_ssd c) q) \<and>
    (\<forall>q \<in> pages (spp c). pst (ftl_ssd c') q = ((pst (ftl_ssd c))(p := PG_VALID)) q)"
proof -
  let ?P = "spp c" and ?i = "cls c io" and ?f = "pst (ftl_ssd c)"
  let ?l = "lines (lm c) ! ?i"
  let ?m' = "(lm c)\<lparr>lines := (lines (lm c))[?i := ?l\<lparr>ln_vpc := ln_vpc ?l + 1\<rparr>]\<rparr>"
  note cr = coreD[OF core]
  note pt = part_inv_lines[OF cr(3)]
  have pl: "p \<in> line_pages ?P ?i" "pg_order ?P p = nm io"
    using wp_page_in[OF cr(1) wp] p(1) ord by (simp_all add: cls_def)
  then have pp: "p \<in> pages ?P" by (simp add: line_pages_def)
  have free: "?f p = PG_FREE" using cr(5) pl by (simp add: use_inv_def)
  obtain s' where run: "mark_page_valid c p = Some (c\<lparr>ftl_ssd := s', lm := ?m'\<rparr>)"
    and s': "ssd_inv s'" "same_rest (ftl_ssd c) s'"
    and f': "\<And>q. q \<in> pages ?P \<Longrightarrow> pst s' q = (?f(p := PG_VALID)) q"
    and b': "\<And>q. q \<in> pages ?P \<Longrightarrow> bcnt s' q = (if same_blk p q
       then map_option (\<lambda>(i, v). (i, v + 1)) (bcnt (ftl_ssd c) q) else bcnt (ftl_ssd c) q)"
    using mark_page_valid_run[OF core pl(1) free] by (elim exE conjE) (rule that; blast)
  let ?c' = "c\<lparr>ftl_ssd := s', maptbl := (maptbl c)[unat lpn := p], rmap := (rmap c)[pgidx ?P p := lpn], lm := ?m'\<rparr>"
  have sp': "sp s' = ?P" "write_buffer s' = write_buffer (ftl_ssd c)" using s'(2) by (simp_all add: same_rest_def)
  have "place_page c lpn p = Some ?c'"
    using mark_page_valid_tables[OF run] set_tables[OF core pp l]
    by (simp add: place_page_def)
  moreover have "core ?c' X S {} (nm(io := Suc (nm io)))"
  proof -
    have f'': "\<And>q. q \<in> pages ?P \<Longrightarrow> (?f(p := PG_VALID)) q = pst s' q" using f' by simp
    note cl = cls_less[OF core, of io]
    have "part_inv (tt_lines ?P) (cls c) X ?m'"
      by (rule part_inv_mod_line[OF cr(3) cl(1)]) (use cl pt in simp_all)
    moreover have "cnt_inv ?P (pst s') (bcnt s') ?m' X"
      by (rule cnt_inv_cong[OF f''], assumption, rule cnt_inv_valid[OF cr(1) cr(4) pl(1)]) (use free b' cl pt in simp_all)
    moreover have "use_inv ?P (pst s') (nm(io := Suc (nm io))) (cls c) ?m'"
      by (rule use_inv_cong[OF f''], assumption, rule use_inv_valid[OF cr(1) cr(5) pl])
        (use cls_other[OF core] cl in \<open>simp_all add: victims_def\<close>)
    moreover have "map_inv ?P (pst s') ((maptbl c)[unat lpn := p]) ((rmap c)[pgidx ?P p := lpn]) S {}"
      by (rule map_inv_cong[OF f''], assumption, rule map_inv_place[OF cr(1) cr(6) l pp p(2) free])
    ultimately show ?thesis using cr(1) s'(1) sp' by (simp add: core_def)
  qed
  moreover have "kept c ?c'" by (simp add: kept_def sp')
  moreover have "get_wp ?c' = get_wp c" by (simp add: get_wp_def fun_eq_iff split: io_type.split)
  moreover have "same_lists (lm c) (lm ?c')" by (simp add: same_lists_def)
  moreover have "bcnt s' q = bcnt (ftl_ssd c) q" if "q \<in> pages ?P" "unat (ppa_blk q) \<noteq> ?i" for q
    using b'[OF that(1)] that(2) pl(1) by (simp add: line_pages_def same_blk_def)
  ultimately show ?thesis using free f' pl(1) by (intro exI[of _ ?c']) simp
qed

end
