(* ===== verification/Conv_Advance.thy ===== *)
theory Conv_Advance
  imports Conv_Place
begin

text \<open>
  Moving a write pointer: within a line it goes to the next page of the fill order; after the
  last page the line is closed (into the full list or the victim queue) and a free line opened.
\<close>

subsection \<open>A line enters the victim queue\<close>

lemma victims_upd [simp]:
  "victims (lines_update a m) = victims m" "victims (free_line_list_update b m) = victims m"
  "victims (full_line_list_update b m) = victims m" "victims (lm_tt_lines_update d m) = victims m"
  "victims (free_line_cnt_update e m) = victims m" "victims (victim_line_cnt_update e m) = victims m"
  "victims (full_line_cnt_update e m) = victims m"
  "victims (victim_line_pq_update (\<lambda>_. q) m) = image_mset ptr_idx (mset (pq_elems q))"
  by (simp_all add: victims_def)

lemma get_pos_line: "i < length ls \<Longrightarrow> victim_line_get_pos ls (LPtr i) = ln_pos (ls ! i)"
  by (simp add: victim_line_get_pos_def line_at_def)

lemma size_victims: "size (victims m) = pq_size (victim_line_pq m) - 1"
  by (simp add: victims_def pq_elems_def)

lemma victim_insert:
  assumes part: "part_inv T cl X m" and l: "l < T" "l \<notin># victims m"
  shows "\<exists>q ls. pqueue_insert (victim_line_pq m) (lines m) (LPtr l) = Some (q, ls) \<and> vq.pq_inv q ls \<and>
    length (pq_d q) = T + 1 \<and> image_mset ptr_idx (mset (pq_elems q)) = add_mset l (victims m) \<and>
    same_but_pos (lines m) ls \<and> (\<forall>i < T. i \<notin># add_mset l (victims m) \<longrightarrow> ln_pos (ls ! i) = 0)"
proof -
  let ?q = "victim_line_pq m"
  note p = part_inv_lines[OF part]
  have room: "pq_size ?q < length (pq_d ?q)"
    using part_inv_facts(10)[OF part] p(5) size_victims[of m] by simp
  have ok: "line_ok (lines m) (LPtr l)" using l p(1) by (simp add: line_ok_def)
  have new: "LPtr l \<notin> set (pq_elems ?q)" using l(2) victims_iff[OF p(4)] by simp
  obtain q ls where ins: "pqueue_insert ?q (lines m) (LPtr l) = Some (q, ls)" "vq.pq_inv q ls"
      "mset (pq_elems q) = add_mset (LPtr l) (mset (pq_elems ?q))" "length (pq_d q) = length (pq_d ?q)"
    and pos: "\<And>x. x \<noteq> LPtr l \<Longrightarrow> x \<notin> set (pq_elems ?q) \<Longrightarrow> victim_line_get_pos ls x = victim_line_get_pos (lines m) x"
    and reach: "vq.spos_reach (lines m) ls"
    using vq.pqueue_insert_inv[OF p(4) room ok new] by (elim exE conjE) (rule that; blast)
  have same: "same_but_pos (lines m) ls" by (rule spos_reach_lines[OF reach])
  have "ln_pos (ls ! i) = 0" if "i < T" "i \<notin># add_mset l (victims m)" for i
  proof -
    have "ln_pos (ls ! i) = victim_line_get_pos ls (LPtr i)"
      using get_pos_line[of i ls] that same_but_posD(1)[OF same] p(1) by simp
    also have "\<dots> = victim_line_get_pos (lines m) (LPtr i)"
      using that victims_iff[OF p(4), of i] by (intro pos) auto
    also have "\<dots> = 0" using get_pos_line[of i "lines m"] that p by simp
    finally show ?thesis .
  qed
  moreover have "image_mset ptr_idx (mset (pq_elems q)) = add_mset l (victims m)"
    by (simp add: ins(3) victims_def ptr_idx_def)
  ultimately show ?thesis using ins same p(5) by auto
qed

subsection \<open>Closing a line\<close>

text \<open>
  Closing puts the used-up line into the full list or the victim queue. Until the next line is
  opened the line number of the write pointer is stale, so the partition is stated without it.
\<close>

definition closed_into :: "line_mgmt \<Rightarrow> line_mgmt \<Rightarrow> nat \<Rightarrow> bool" where
  "closed_into m m' l \<longleftrightarrow> free_line_list m' = free_line_list m \<and> free_line_cnt m' = free_line_cnt m \<and>
     lm_tt_lines m' = lm_tt_lines m \<and> same_but_pos (lines m) (lines m') \<and>
     vq.pq_inv (victim_line_pq m') (lines m') \<and> length (pq_d (victim_line_pq m')) = length (pq_d (victim_line_pq m)) \<and>
     (mset (full_line_list m') = add_mset l (mset (full_line_list m)) \<and> victims m' = victims m \<and>
        full_line_cnt m' = full_line_cnt m + 1 \<and> victim_line_cnt m' = victim_line_cnt m \<or>
      full_line_list m' = full_line_list m \<and> victims m' = add_mset l (victims m) \<and>
        full_line_cnt m' = full_line_cnt m \<and> victim_line_cnt m' = victim_line_cnt m + 1) \<and>
     (\<forall>i < length (lines m'). i \<notin># victims m' \<longrightarrow> ln_pos (lines m' ! i) = 0)"

lemma same_but_pos_refl [simp]: "same_but_pos ls ls"
  by (simp add: same_but_pos_def)

lemma close_line_ok:
  assumes core: "core c X S E nm" and full: "nm io = pgs_per_line (spp c)" and l: "l = cls c io"
  shows "\<exists>m'. close_line c l = Some (c\<lparr>lm := m'\<rparr>) \<and> closed_into (lm c) m' l \<and>
    (l \<in> set (full_line_list m') \<longrightarrow> ln_vpc (lines (lm c) ! l) = pgs_per_line (spp c)) \<and>
    (l \<in># victims m' \<longrightarrow> 0 < ln_ipc (lines (lm c) ! l))"
proof -
  let ?P = "spp c" and ?f = "pst (ftl_ssd c)" and ?m = "lm c"
  let ?x = "lines ?m ! l"
  note cr = coreD[OF core]
  note pt = part_inv_lines[OF cr(3)]
  have i: "l < tt_lines ?P" "l \<notin> set X" "l \<notin># victims ?m" "l \<notin> set (full_line_list ?m)"
    using cls_less[OF core, of io] l by auto
  have "?f p \<noteq> PG_FREE" if "p \<in> line_pages ?P l" for p
  proof -
    have "pg_order ?P p < pgs_per_line ?P" using that pg_order_less[OF cr(1), of p] by (simp add: line_pages_def)
    then show ?thesis using cr(5) that full l by (simp add: use_inv_def)
  qed
  then have "nvalid ?f (line_pages ?P l) + ninvalid ?f (line_pages ?P l) = pgs_per_line ?P"
    using nvalid_ninvalid_eq[of "line_pages ?P l" ?f] card_line_pages[OF cr(1) i(1)] by simp
  then have sum: "ln_vpc ?x + ln_ipc ?x = pgs_per_line ?P"
    using cr(4) i by (simp add: cnt_inv_def)
  show ?thesis
  proof (cases "ln_vpc ?x = pgs_per_line ?P")
    case True
    let ?m' = "?m\<lparr>full_line_list := full_line_list ?m @ [l], full_line_cnt := full_line_cnt ?m + 1\<rparr>"
    have "close_line c l = Some (c\<lparr>lm := ?m'\<rparr>)"
      using True sum i(1) pt(1) by (simp add: close_line_def upd_lm_def)
    moreover have "closed_into ?m ?m' l"
      using pt i by (simp add: closed_into_def victims_def)
    ultimately show ?thesis using True i by (intro exI[of _ ?m']) (simp add: victims_def)
  next
    case False
    obtain q ls where q: "pqueue_insert (victim_line_pq ?m) (lines ?m) (LPtr l) = Some (q, ls)" "vq.pq_inv q ls"
      "length (pq_d q) = tt_lines ?P + 1" "image_mset ptr_idx (mset (pq_elems q)) = add_mset l (victims ?m)"
      "same_but_pos (lines ?m) ls" "\<forall>i < tt_lines ?P. i \<notin># add_mset l (victims ?m) \<longrightarrow> ln_pos (ls ! i) = 0"
      using victim_insert[OF cr(3) i(1,3)] by (elim exE conjE) (rule that)
    let ?m' = "?m\<lparr>lines := ls, victim_line_pq := q, victim_line_cnt := victim_line_cnt ?m + 1\<rparr>"
    have "close_line c l = Some (c\<lparr>lm := ?m'\<rparr>)"
      using False sum i(1) pt(1) q(1) by (simp add: close_line_def insert_victim_def upd_lm_def)
    moreover have "closed_into ?m ?m' l"
      using pt i q same_but_posD(1)[OF q(5)] by (simp add: closed_into_def victims_def)
    ultimately show ?thesis using False sum i by (intro exI[of _ ?m']) simp
  qed
qed

subsection \<open>Opening the next line\<close>

lemma part_inv_reopen:
  assumes part: "part_inv T cl X m" and cl: "closed_into m m' (cl io)" and free: "free_line_list m = l # ls"
  shows "part_inv T (cl(io := l)) X (m'\<lparr>free_line_list := ls, free_line_cnt := free_line_cnt m' - 1\<rparr>)"
proof -
  let ?m = "m'\<lparr>free_line_list := ls, free_line_cnt := free_line_cnt m' - 1\<rparr>"
  note p = part[unfolded part_inv_def]
  note c = cl[unfolded closed_into_def]
  have b: "same_but_pos (lines m) (lines m')" using c by blast
  have vic: "victims (m'\<lparr>free_line_list := a, free_line_cnt := b\<rparr>) = victims m'" for a b by (simp add: victims_def)
  have len: "length (lines m') = T" using same_but_posD(1)[OF b] p by simp
  have "mset (full_line_list m') + victims m' = add_mset (cl io) (mset (full_line_list m) + victims m)"
    using c by auto
  then have "mset ls + (mset (full_line_list m') + victims m') + io_lines (cl(io := l)) + mset X =
      mset ls + (mset (full_line_list m) + victims m) + add_mset (cl io) (io_lines (cl(io := l))) + mset X"
    by simp
  also have "\<dots> = mset (free_line_list m) + mset (full_line_list m) + victims m + io_lines cl + mset X"
    unfolding io_lines_upd free by simp
  finally have e: "mset ls + mset (full_line_list m') + victims m' + io_lines (cl(io := l)) + mset X = mset [0..<T]"
    using p by (simp add: ac_simps)
  have "free_line_cnt m' - 1 = of_nat (length ls)" using c p free by simp
  moreover have "length (full_line_list m') = size (mset (full_line_list m'))" by simp
  then have "full_line_cnt m' = of_nat (length (full_line_list m'))" "victim_line_cnt m' = of_nat (size (victims m'))"
    using c p by (auto simp del: size_mset simp: size_mset[symmetric])
  moreover have "\<forall>i < T. ln_id (lines m' ! i) = i" using same_but_posD(2)[OF b] p by simp
  ultimately show ?thesis
    using c p e len by (simp add: part_inv_def vic)
qed

lemma set_wp_simps [simp]:
  "ftl_ssd (set_wp c io w) = ftl_ssd c" "cp (set_wp c io w) = cp c" "maptbl (set_wp c io w) = maptbl c"
  "rmap (set_wp c io w) = rmap c" "lm (set_wp c io w) = lm c" "wfc (set_wp c io w) = wfc c"
  "cur_nsecs (set_wp c io w) = cur_nsecs c" "stats (set_wp c io w) = stats c"
  "get_wp (set_wp c io w) = (get_wp c)(io := w)"
  by (auto simp: set_wp_def get_wp_def fun_eq_iff split: io_type.splits)

lemma cls_set_wp [simp]: "cls (set_wp c io w) = (cls c)(io := curline w)"
  by (simp add: cls_def fun_eq_iff)

lemma get_wp_lm [simp]: "get_wp (c\<lparr>lm := m\<rparr>) = get_wp c"
  by (simp add: get_wp_def fun_eq_iff split: io_type.split)

lemma open_next_line_ok:
  assumes core: "core c X S E nm" and full: "nm io = pgs_per_line (spp c)"
    and w: "curline w = cls c io" "wp_blk w = cls c io" "wp_ch w = 0" "wp_lun w = 0" "wp_pg w = 0" "wp_pl w = 0"
    and free: "free_line_list (lm c) = l # ls"
  shows "\<exists>m'. open_next_line c io w = Some (set_wp (c\<lparr>lm := m'\<rparr>) io (w\<lparr>curline := l, wp_blk := l\<rparr>)) \<and>
    core (set_wp (c\<lparr>lm := m'\<rparr>) io (w\<lparr>curline := l, wp_blk := l\<rparr>)) X S E (nm(io := 0)) \<and>
    free_line_list m' = ls \<and> l < tt_lines (spp c) \<and>
    (\<forall>i. i \<in># victims (lm c) \<longrightarrow> i \<in># victims m')"
proof -
  let ?P = "spp c" and ?f = "pst (ftl_ssd c)" and ?m = "lm c" and ?i = "cls c io"
  note cr = coreD[OF core]
  note pt = part_inv_lines[OF cr(3)]
  obtain m1 where m1: "close_line c ?i = Some (c\<lparr>lm := m1\<rparr>)" "closed_into ?m m1 ?i"
    "?i \<in> set (full_line_list m1) \<longrightarrow> ln_vpc (lines ?m ! ?i) = pgs_per_line ?P"
    "?i \<in># victims m1 \<longrightarrow> 0 < ln_ipc (lines ?m ! ?i)"
    using close_line_ok[OF core full refl] by (elim exE conjE) (rule that)
  note c1 = m1(2)[unfolded closed_into_def]
  have same: "same_but_pos (lines ?m) (lines m1)" using c1 by blast
  let ?m' = "m1\<lparr>free_line_list := ls, free_line_cnt := free_line_cnt m1 - 1\<rparr>"
  let ?w = "w\<lparr>curline := l, wp_blk := l\<rparr>"
  let ?c' = "set_wp (c\<lparr>lm := ?m'\<rparr>) io ?w"
  have part: "part_inv (tt_lines ?P) ((cls c)(io := l)) X ?m'" by (rule part_inv_reopen[OF cr(3) m1(2) free])
  have l: "l < tt_lines ?P" "l \<in> set (free_line_list ?m)"
    using part_inv_facts(1)[OF cr(3), of l] free by auto
  have b: "tt_lines ?P = blks_per_pl ?P" by (rule params_okD(7)[OF cr(1)])
  have i: "?i < tt_lines ?P" using cls_less[OF core] by blast
  have id: "ln_id (lines m1 ! l) = l" "length (lines m1) = tt_lines ?P"
    using same_but_posD[OF same] pt l(1) by auto
  have run: "open_next_line c io w = Some ?c'"
    using m1(1) w i l(1) b id c1 free
    by (simp add: open_next_line_def check_addr_def get_next_free_line_def Let_def)
  have vic: "victims ?m' = victims m1" by (simp add: victims_def)
  have vpc: "ln_vpc (lines m1 ! j) = ln_vpc (lines ?m ! j)" "ln_ipc (lines m1 ! j) = ln_ipc (lines ?m ! j)"
    if "j < tt_lines ?P" for j using same_but_posD(2)[OF same, of j] that pt(1) by auto
  have "cnt_inv ?P ?f (bcnt (ftl_ssd c)) ?m' X"
    using cr(4) vpc by (simp add: cnt_inv_def)
  moreover have "use_inv ?P ?f (nm(io := 0)) ((cls c)(io := l)) ?m'"
  proof -
    note u = cr(5)[unfolded use_inv_def]
    have nf: "?f p \<noteq> PG_FREE" if "p \<in> line_pages ?P ?i" for p
    proof -
      have "pg_order ?P p < pgs_per_line ?P" using that pg_order_less[OF cr(1), of p] by (simp add: line_pages_def)
      then show ?thesis using u that full by auto
    qed
    have full_or: "j \<in> set (full_line_list ?m) \<or> j = ?i" if "j \<in> set (full_line_list m1)" for j
    proof -
      have "j \<in># mset (full_line_list m1)" using that by simp
      then show ?thesis using c1 by (elim disjE conjE) auto
    qed
    have vic_or: "j \<in># victims ?m \<or> j = ?i" if "j \<in># victims m1" for j
      using that c1 by (elim disjE conjE) auto
    have lt: "j < tt_lines ?P" if "j \<in> set (full_line_list ?m) \<or> j \<in># victims ?m" for j
      using that part_inv_facts(2,3)[OF cr(3), of j] by blast
    show ?thesis
      unfolding use_inv_def vic
    proof (intro conjI allI ballI impI)
      show "?f p = PG_FREE" if "j \<in> set (free_line_list ?m')" "p \<in> line_pages ?P j" for j p
        using that u free by simp
      show "(nm(io := 0)) io' \<le> pgs_per_line ?P" for io' using u by simp
      show "?f p = PG_FREE \<longleftrightarrow> (nm(io := 0)) io' \<le> pg_order ?P p" if "p \<in> line_pages ?P (((cls c)(io := l)) io')" for io' p
        using that u l(2) by (cases "io' = io") auto
      show "?f p \<noteq> PG_FREE" if "j \<in> set (full_line_list ?m') \<or> j \<in># victims m1" "p \<in> line_pages ?P j" for j p
        using that nf full_or[of j] vic_or[of j] u by auto
      show "ln_vpc (lines ?m' ! j) = pgs_per_line ?P" if "j \<in> set (full_line_list ?m')" for j
        using that full_or[of j] m1(3) u lt[of j] vpc(1)[of j] i by auto
      show "0 < ln_ipc (lines ?m' ! j)" if "j \<in># victims m1" for j
        using that vic_or[of j] m1(4) u lt[of j] vpc(2)[of j] i by auto
    qed
  qed
  ultimately have "core ?c' X S E (nm(io := 0))" using cr part by (simp add: core_def)
  moreover have "\<forall>j. j \<in># victims ?m \<longrightarrow> j \<in># victims ?m'" unfolding vic using c1 by auto
  ultimately show ?thesis using run l(1) by (intro exI[of _ ?m']) simp
qed

subsection \<open>One advance\<close>

lemma advance_ok:
  assumes core: "core c X S E nm" and wp: "wp_in (spp c) (get_wp c io)"
    and ord: "nm io = Suc (wp_order (spp c) (get_wp c io))"
    and free: "nm io = pgs_per_line (spp c) \<longrightarrow> free_line_list (lm c) \<noteq> []"
    and nm': "nm' = nm(io := if nm io = pgs_per_line (spp c) then 0 else nm io)"
  shows "\<exists>c'. advance_write_pointer c io = Some c' \<and> core c' X S E nm' \<and> kept c c' \<and>
    ftl_ssd c' = ftl_ssd c \<and> maptbl c' = maptbl c \<and> cur_nsecs c' = cur_nsecs c \<and>
    wp_in (spp c) (get_wp c' io) \<and> wp_order (spp c) (get_wp c' io) = nm' io \<and>
    (\<forall>io'. io' \<noteq> io \<longrightarrow> get_wp c' io' = get_wp c io') \<and>
    free_line_list (lm c') = (if nm io = pgs_per_line (spp c) then tl (free_line_list (lm c)) else free_line_list (lm c)) \<and>
    (\<forall>i. i \<in># victims (lm c) \<longrightarrow> i \<in># victims (lm c'))"
proof (cases "nm io = pgs_per_line (spp c)")
  case False
  have lt: "wp_order (spp c) (get_wp c io) + 1 \<noteq> pgs_per_line (spp c)" using False ord by simp
  obtain w where w: "advance_write_pointer c io = Some (set_wp c io w)" "wp_in (spp c) w"
    "curline w = curline (get_wp c io)" "wp_order (spp c) w = wp_order (spp c) (get_wp c io) + 1"
    using advance_write_pointer_step[OF coreD(1)[OF core] wp] lt by auto
  have "(cls c)(io := curline w) = cls c" using w(3) by (simp add: cls_def fun_eq_iff)
  then have "core (set_wp c io w) X S E nm'" using core False nm' by (simp add: core_def)
  moreover have "kept c (set_wp c io w)" by (simp add: kept_def)
  ultimately show ?thesis using w False ord nm' by (intro exI[of _ "set_wp c io w"]) simp
next
  case True
  let ?w = "(get_wp c io)\<lparr>wp_ch := 0, wp_lun := 0, wp_pg := 0\<rparr>"
  note cr = coreD[OF core]
  have run: "advance_write_pointer c io = open_next_line c io ?w"
  proof -
    have "False" if "wp_in (spp c) w" "wp_order (spp c) w = wp_order (spp c) (get_wp c io) + 1" for w
      using wp_order_less[OF cr(1) that(1)] that(2) ord True by simp
    then show ?thesis using advance_write_pointer_step[OF cr(1) wp] by blast
  qed
  obtain l ls where f: "free_line_list (lm c) = l # ls" using free True by (cases "free_line_list (lm c)") auto
  have w: "curline ?w = cls c io" "wp_blk ?w = cls c io" "wp_ch ?w = 0" "wp_lun ?w = 0" "wp_pg ?w = 0" "wp_pl ?w = 0"
    using wp by (simp_all add: wp_in_def cls_def)
  obtain m' where m': "open_next_line c io ?w = Some (set_wp (c\<lparr>lm := m'\<rparr>) io (?w\<lparr>curline := l, wp_blk := l\<rparr>))"
    "core (set_wp (c\<lparr>lm := m'\<rparr>) io (?w\<lparr>curline := l, wp_blk := l\<rparr>)) X S E (nm(io := 0))"
    "free_line_list m' = ls" "l < tt_lines (spp c)" "\<forall>i. i \<in># victims (lm c) \<longrightarrow> i \<in># victims m'"
    using open_next_line_ok[OF core True w f] by (elim exE conjE) (rule that)
  let ?w' = "?w\<lparr>curline := l, wp_blk := l\<rparr>"
  have "wp_in (spp c) ?w'" "wp_order (spp c) ?w' = 0"
    using wp m'(4) params_okD(1,3)[OF cr(1)] cr(1) by (auto simp: wp_in_def wp_order_def fill_order_def params_ok_def)
  moreover have "kept c (set_wp (c\<lparr>lm := m'\<rparr>) io ?w')" by (simp add: kept_def)
  ultimately show ?thesis
    using run m' True nm' f by (intro exI[of _ "set_wp (c\<lparr>lm := m'\<rparr>) io ?w'"]) simp
qed

end
