(* ===== verification/Conv_Invalidate.thy ===== *)
theory Conv_Invalidate
  imports Conv_Advance
begin

text \<open>
  A page becomes invalid: the counters of its block and line change, its line moves within the
  victim queue, or from the full list into it.
\<close>

text \<open>What happens to the lines when a page of line \<open>i\<close> becomes invalid.\<close>

definition invalidated :: "nat \<Rightarrow> (io_type \<Rightarrow> nat) \<Rightarrow> nat \<Rightarrow> line_mgmt \<Rightarrow> line_mgmt \<Rightarrow> bool" where
  "invalidated T cl i m m' \<longleftrightarrow> part_inv T cl [] m' \<and> free_line_list m' = free_line_list m \<and>
     (\<forall>j < T. ln_ipc (lines m' ! j) = (if j = i then ln_ipc (lines m ! j) + 1 else ln_ipc (lines m ! j)) \<and>
        ln_vpc (lines m' ! j) = (if j = i then ln_vpc (lines m ! j) - 1 else ln_vpc (lines m ! j))) \<and>
     (i \<notin> set (full_line_list m) \<and> full_line_list m' = full_line_list m \<and> victims m' = victims m \<or>
      i \<in> set (full_line_list m) \<and> full_line_list m' = remove1 i (full_line_list m) \<and>
        victims m' = add_mset i (victims m))"

text \<open>The part of \<^verbatim>\<open>mark_page_invalid\<close> that works on the line.\<close>

definition invalidate_line :: "conv_ftl \<Rightarrow> nat \<Rightarrow> nat \<Rightarrow> conv_ftl option" where
  "invalidate_line c l line_pgs = do {
     c \<leftarrow> mod_line c l (\<lambda>x. x\<lparr>last_modified_time := cur_nsecs c\<rparr>);
     line \<leftarrow> aget (lines (lm c)) l;
     nv_assert (ln_ipc line < line_pgs);
     was_full_line \<leftarrow> (if ln_vpc line = line_pgs then do { nv_assert (ln_ipc line = 0); Some True } else Some False);
     c \<leftarrow> mod_line c l (\<lambda>x. x\<lparr>ln_ipc := ln_ipc x + 1\<rparr>);
     nv_assert (ln_vpc line > 0 \<and> ln_vpc line \<le> line_pgs);
     c \<leftarrow> (if ln_pos line \<noteq> 0 then do {
             (pq, ls) \<leftarrow> pqueue_change_priority (victim_line_pq (lm c)) (lines (lm c)) (ln_vpc line - 1) (LPtr l);
             Some (upd_lm (\<lambda>m. m\<lparr>lines := ls, victim_line_pq := pq\<rparr>) c)
           } else mod_line c l (\<lambda>x. x\<lparr>ln_vpc := ln_vpc x - 1\<rparr>));
     if was_full_line then do {
       let c = upd_lm (line_list_del_init l) c;
       let c = upd_lm (\<lambda>m. m\<lparr>full_line_cnt := full_line_cnt m - 1\<rparr>) c;
       insert_victim c l
     } else Some c
   }"

lemma mark_page_invalid_split:
  "mark_page_invalid c p = do {
     s \<leftarrow> do {
       s \<leftarrow> set_page_status (ftl_ssd c) p PG_VALID PG_INVALID;
       upd_blk s p (\<lambda>b. do {
         nv_assert (ipc b < pgs_per_blk (spp c));
         let b = b\<lparr>ipc := ipc b + 1\<rparr>;
         nv_assert (vpc b > 0 \<and> vpc b \<le> pgs_per_blk (spp c));
         Some (b\<lparr>vpc := vpc b - 1\<rparr>) }) };
     invalidate_line (c\<lparr>ftl_ssd := s\<rparr>) (unat (ppa_blk p)) (pgs_per_line (spp c)) }"
  by (simp add: mark_page_invalid_def invalidate_line_def Let_def)

text \<open>The three cases: a line in the queue, an open line, a full line.\<close>

lemma queue_pos:
  assumes "part_inv T cl X m" "i < T"
  shows "ln_pos (lines m ! i) = 0 \<longleftrightarrow> i \<notin># victims m"
proof
  note p = part_inv_lines[OF assms(1)]
  assume z: "ln_pos (lines m ! i) = 0"
  show "i \<notin># victims m"
  proof
    assume "i \<in># victims m"
    then have "LPtr i \<in> set (pq_elems (victim_line_pq m))" using victims_iff[OF p(4)] by simp
    from vq.pq_elemsD(1)[OF p(4) this] show False using z get_pos_line[of i "lines m"] assms(2) p(1) by simp
  qed
qed (use part_inv_lines(3)[OF assms(1,2)] in simp)

lemma part_inv_twice:
  assumes part: "part_inv T cl X m" and i: "i < T"
  shows "part_inv T cl X (m\<lparr>lines := (lines m)[i := (lines m ! i)\<lparr>last_modified_time := t,
    ln_ipc := n\<rparr>]\<rparr>)"
  by (rule part_inv_mod_line[OF part i]) (use part_inv_lines(2)[OF part i] in simp_all)

lemma invalidate_queued:
  assumes part: "part_inv T cl [] (lm c)" and i: "i < T" "i \<in># victims (lm c)"
    and n: "ln_ipc (lines (lm c) ! i) < L" "0 < ln_vpc (lines (lm c) ! i)" "ln_vpc (lines (lm c) ! i) < L"
  shows "\<exists>m'. invalidate_line c i L = Some (c\<lparr>lm := m'\<rparr>) \<and> invalidated T cl i (lm c) m'"
proof -
  let ?m = "lm c"
  let ?x = "lines ?m ! i"
  let ?ls = "(lines ?m)[i := ?x\<lparr>last_modified_time := cur_nsecs c, ln_ipc := ln_ipc ?x + 1\<rparr>]"
  let ?m1 = "?m\<lparr>lines := ?ls\<rparr>"
  note pt = part_inv_lines[OF part]
  have part1: "part_inv T cl [] ?m1" by (rule part_inv_twice[OF part i(1)])
  note pt1 = part_inv_lines[OF part1]
  have vic: "victims (?m\<lparr>lines := ls\<rparr>) = victims ?m" for ls by (simp add: victims_def)
  have e: "LPtr i \<in> set (pq_elems (victim_line_pq ?m1))"
    using victims_iff[OF pt(4), of i] i(2) by simp
  obtain q ls where ch: "pqueue_change_priority (victim_line_pq ?m1) (lines ?m1) (ln_vpc ?x - 1) (LPtr i) = Some (q, ls)"
    and q: "vq.pq_inv q ls" "mset (pq_elems q) = mset (pq_elems (victim_line_pq ?m1))"
      "length (pq_d q) = length (pq_d (victim_line_pq ?m1))"
    and pos: "\<And>x. x \<notin> set (pq_elems (victim_line_pq ?m1)) \<Longrightarrow> victim_line_get_pos ls x = victim_line_get_pos (lines ?m1) x"
    and reach: "vq.spos_reach (victim_line_set_pri (lines ?m1) (LPtr i) (ln_vpc ?x - 1)) ls"
    using vq.pqueue_change_priority_inv[OF pt1(4) e, of "ln_vpc ?x - 1"] by (elim exE conjE) (rule that; blast)
  let ?ls2 = "?ls[i := (?ls ! i)\<lparr>ln_vpc := ln_vpc ?x - 1\<rparr>]"
  have same: "same_but_pos ?ls2 ls"
    using spos_reach_lines[OF reach] by (simp add: victim_line_set_pri_def)
  note sb = same_but_posD[OF same]
  have len: "length ls = T" "length ?ls2 = T" using sb(1) pt(1) by simp_all
  let ?m' = "?m\<lparr>lines := ls, victim_line_pq := q\<rparr>"
  have posne: "ln_pos ?x \<noteq> 0" using queue_pos[OF part i(1)] i(2) by simp
  have run: "invalidate_line c i L = Some (c\<lparr>lm := ?m'\<rparr>)"
    using i(1) pt(1) n posne ch
    by (simp add: invalidate_line_def mod_line_def amod_def upd_lm_def)
  have vic': "victims ?m' = victims ?m" using q(2) by (simp add: victims_def)
  have "part_inv T cl [] ?m'"
  proof -
    have "ln_pos (ls ! j) = 0" if "j < T" "j \<notin># victims ?m" for j
    proof -
      have "ln_pos (ls ! j) = victim_line_get_pos ls (LPtr j)" using get_pos_line[of j ls] that len by simp
      also have "\<dots> = victim_line_get_pos (lines ?m1) (LPtr j)"
        using that victims_iff[OF pt1(4), of j] vic by (intro pos) simp
      also have "\<dots> = 0" using get_pos_line[of j "lines ?m1"] that pt1(1,3) vic by simp
      finally show ?thesis .
    qed
    moreover have "\<forall>j < T. ln_id (ls ! j) = j" using sb(2) pt(1,2) by (auto simp: nth_upd)
    ultimately show ?thesis unfolding part_inv_def vic' using part[unfolded part_inv_def] len q(1,3) by simp
  qed
  moreover have "\<forall>j < T. ln_ipc (ls ! j) = (if j = i then ln_ipc (lines ?m ! j) + 1 else ln_ipc (lines ?m ! j)) \<and>
      ln_vpc (ls ! j) = (if j = i then ln_vpc (lines ?m ! j) - 1 else ln_vpc (lines ?m ! j))"
    using sb(2) pt(1) by (auto simp: nth_upd)
  moreover have "i \<notin> set (full_line_list ?m)" using part_inv_facts(3)[OF part i(2)] by blast
  ultimately have "invalidated T cl i ?m ?m'" unfolding invalidated_def vic' by simp
  with run show ?thesis by blast
qed

lemma invalidate_open:
  assumes part: "part_inv T cl [] (lm c)" and i: "i < T" "i \<notin># victims (lm c)" "i \<notin> set (full_line_list (lm c))"
    and n: "ln_ipc (lines (lm c) ! i) < L" "0 < ln_vpc (lines (lm c) ! i)" "ln_vpc (lines (lm c) ! i) < L"
  shows "\<exists>m'. invalidate_line c i L = Some (c\<lparr>lm := m'\<rparr>) \<and> invalidated T cl i (lm c) m'"
proof -
  let ?m = "lm c"
  let ?x = "lines ?m ! i"
  let ?y = "?x\<lparr>last_modified_time := cur_nsecs c, ln_ipc := ln_ipc ?x + 1, ln_vpc := ln_vpc ?x - 1\<rparr>"
  let ?m' = "?m\<lparr>lines := (lines ?m)[i := ?y]\<rparr>"
  note pt = part_inv_lines[OF part]
  have posz: "ln_pos ?x = 0" using queue_pos[OF part i(1)] i(2) by simp
  have "invalidate_line c i L = Some (c\<lparr>lm := ?m'\<rparr>)"
    using i(1) pt(1) n posz by (simp add: invalidate_line_def mod_line_def amod_def upd_lm_def)
  moreover have "part_inv T cl [] ?m'"
    by (rule part_inv_mod_line[OF part i(1)]) (use i pt(2) in simp_all)
  ultimately show ?thesis
    using i pt(1) by (intro exI[of _ ?m']) (auto simp: invalidated_def victims_def nth_upd)
qed

lemma invalidate_full:
  assumes part: "part_inv T cl [] (lm c)" and i: "i \<in> set (full_line_list (lm c))"
    and n: "ln_ipc (lines (lm c) ! i) = 0" "ln_vpc (lines (lm c) ! i) = L" "0 < L"
  shows "\<exists>m'. invalidate_line c i L = Some (c\<lparr>lm := m'\<rparr>) \<and> invalidated T cl i (lm c) m'"
proof -
  let ?m = "lm c"
  let ?x = "lines ?m ! i"
  let ?y = "?x\<lparr>last_modified_time := cur_nsecs c, ln_ipc := ln_ipc ?x + 1, ln_vpc := ln_vpc ?x - 1\<rparr>"
  let ?m1 = "?m\<lparr>lines := (lines ?m)[i := ?y]\<rparr>"
  note pt = part_inv_lines[OF part]
  have iT: "i < T" "i \<notin># victims ?m" "i \<notin> set (free_line_list ?m)"
    using part_inv_facts(2)[OF part i] by auto
  have posz: "ln_pos ?x = 0" using queue_pos[OF part iT(1)] iT(2) by simp
  have part1: "part_inv T cl [] ?m1"
    by (rule part_inv_mod_line[OF part iT(1)]) (use iT pt(2) in simp_all)
  have vic1: "victims ?m1 = victims ?m" by (simp add: victims_def)
  then have nv: "i \<notin># victims ?m1" using iT(2) by simp
  obtain q ls where ins: "pqueue_insert (victim_line_pq ?m1) (lines ?m1) (LPtr i) = Some (q, ls)" "vq.pq_inv q ls"
      "length (pq_d q) = T + 1" "image_mset ptr_idx (mset (pq_elems q)) = add_mset i (victims ?m1)"
      "same_but_pos (lines ?m1) ls" "\<forall>j < T. j \<notin># add_mset i (victims ?m1) \<longrightarrow> ln_pos (ls ! j) = 0"
    using victim_insert[OF part1 iT(1) nv] by (elim exE conjE) (rule that)
  note sb = same_but_posD[OF ins(5)]
  let ?m' = "?m\<lparr>lines := ls, free_line_list := free_line_list ?m, victim_line_pq := q,
    full_line_list := remove1 i (full_line_list ?m), victim_line_cnt := victim_line_cnt ?m + 1,
    full_line_cnt := full_line_cnt ?m - 1\<rparr>"
  have "remove1 i (free_line_list ?m) = free_line_list ?m" using iT(3) by (simp add: remove1_idem)
  then have run: "invalidate_line c i L = Some (c\<lparr>lm := ?m'\<rparr>)"
    using iT(1) pt(1) n posz ins(1)
    by (simp add: invalidate_line_def mod_line_def amod_def upd_lm_def line_list_del_init_def insert_victim_def Let_def)
  have vic': "victims ?m' = add_mset i (victims ?m)" using ins(4) vic1 by (simp add: victims_def)
  have "part_inv T cl [] ?m'"
  proof -
    note p = part[unfolded part_inv_def]
    have "add_mset i (mset (remove1 i (full_line_list ?m))) = mset (full_line_list ?m)" using i by simp
    then have "mset (free_line_list ?m) + mset (remove1 i (full_line_list ?m)) + add_mset i (victims ?m) +
        io_lines cl + mset ([] :: nat list) = mset (free_line_list ?m) + mset (full_line_list ?m) + victims ?m + io_lines cl + mset []"
      by (metis add_mset_add_single union_assoc union_commute)
    also have "\<dots> = mset [0..<T]" using p by blast
    finally have e: "mset (free_line_list ?m) + mset (remove1 i (full_line_list ?m)) + add_mset i (victims ?m) +
        io_lines cl + mset [] = mset [0..<T]" .
    have "length (full_line_list ?m) = Suc (length (remove1 i (full_line_list ?m)))"
      using i by (simp add: length_remove1) (metis Suc_pred length_pos_if_in_set)
    then have cnt: "full_line_cnt ?m - 1 = of_nat (length (remove1 i (full_line_list ?m)))" using p by simp
    have "length ls = T" "\<forall>j < T. ln_id (ls ! j) = j" using sb pt by (auto simp: nth_upd)
    then show ?thesis unfolding part_inv_def vic' using p e cnt ins(2,3,6) by (simp add: vic1)
  qed
  moreover have "\<forall>j < T. ln_ipc (ls ! j) = (if j = i then ln_ipc (lines ?m ! j) + 1 else ln_ipc (lines ?m ! j)) \<and>
      ln_vpc (ls ! j) = (if j = i then ln_vpc (lines ?m ! j) - 1 else ln_vpc (lines ?m ! j))"
    using sb(2) pt(1) by (auto simp: nth_upd)
  ultimately have "invalidated T cl i ?m ?m'" unfolding invalidated_def vic' using i by simp
  with run show ?thesis by blast
qed

subsection \<open>The invariant parts\<close>

lemma cnt_inv_invalid:
  assumes cnt: "cnt_inv P f b m []" and p: "p \<in> line_pages P i" "f p = PG_VALID"
    and b: "\<And>q. q \<in> pages P \<Longrightarrow> b' q = (if same_blk p q then map_option (\<lambda>(i, v). (i + 1, v - 1)) (b q) else b q)"
    and ls: "invalidated (tt_lines P) cl i m m'"
  shows "cnt_inv P (f(p := PG_INVALID)) b' m' []"
  unfolding cnt_inv_def
proof (intro conjI ballI allI impI)
  fix q assume q: "q \<in> pages P"
  have "p \<in> blk_pages P q \<longleftrightarrow> same_blk p q" using p(1) by (simp add: blk_pages_def line_pages_def)
  moreover have "Suc (nvalid (f(p := PG_INVALID)) (blk_pages P q)) = nvalid f (blk_pages P q)" if "p \<in> blk_pages P q"
    by (rule nvalid_gone[where f = f]) (use p(2) that in simp_all)
  ultimately show "b' q = Some (ninvalid (f(p := PG_INVALID)) (blk_pages P q), nvalid (f(p := PG_INVALID)) (blk_pages P q))"
    using q cnt b[OF q] p(2) nvalid_outside[of p "blk_pages P q" f PG_INVALID] by (auto simp: cnt_inv_def ninvalid_new)
next
  fix j assume j: "j < tt_lines P"
  then have e: "ln_ipc (lines m ! j) = ninvalid f (line_pages P j)" "ln_vpc (lines m ! j) = nvalid f (line_pages P j)"
    using cnt by (auto simp: cnt_inv_def)
  have e': "ln_ipc (lines m' ! j) = (if j = i then ln_ipc (lines m ! j) + 1 else ln_ipc (lines m ! j))"
    "ln_vpc (lines m' ! j) = (if j = i then ln_vpc (lines m ! j) - 1 else ln_vpc (lines m ! j))"
    using ls j by (auto simp: invalidated_def)
  have m: "p \<in> line_pages P j \<longleftrightarrow> j = i" using p(1) by (auto simp: line_pages_def)
  show "ln_ipc (lines m' ! j) = ninvalid (f(p := PG_INVALID)) (line_pages P j)"
    using e(1) e'(1) p(2) m by (auto simp: ninvalid_new)
  have "Suc (nvalid (f(p := PG_INVALID)) (line_pages P j)) = nvalid f (line_pages P j)" if "p \<in> line_pages P j"
    by (rule nvalid_gone[where f = f]) (use p(2) that in simp_all)
  then show "ln_vpc (lines m' ! j) = nvalid (f(p := PG_INVALID)) (line_pages P j)"
    using e(2) e'(2) m nvalid_outside[of p "line_pages P j" f PG_INVALID] by auto
qed

lemma use_inv_invalid:
  assumes use: "use_inv P f nm cl m" and p: "p \<in> line_pages P i" "f p = PG_VALID"
    and ls: "invalidated (tt_lines P) cl i m m'" and i: "i < tt_lines P" and part: "part_inv (tt_lines P) cl [] m"
  shows "use_inv P (f(p := PG_INVALID)) nm cl m'"
proof -
  have fr: "(f(p := PG_INVALID)) q = PG_FREE \<longleftrightarrow> f q = PG_FREE" for q using p(2) by simp
  note u = use[unfolded use_inv_def]
  note l = ls[unfolded invalidated_def]
  have part': "part_inv (tt_lines P) cl [] m'" using l by blast
  have full: "j \<in> set (full_line_list m) \<and> j \<noteq> i" if "j \<in> set (full_line_list m')" for j
    using that l part_inv_facts(2)[OF part', of j] by (auto dest: notin_set_remove1)
  have vic: "j \<in># victims m \<or> j = i \<and> i \<in> set (full_line_list m)" if "j \<in># victims m'" for j
    using that l by auto
  have lt: "j < tt_lines P" if "j \<in> set (full_line_list m) \<or> j \<in># victims m" for j
    using that part_inv_facts(2,3)[OF part, of j] by blast
  show ?thesis
    unfolding use_inv_def fr
  proof (intro conjI allI ballI impI)
    show "f q = PG_FREE" if "j \<in> set (free_line_list m')" "q \<in> line_pages P j" for j q using that u l by auto
    show "nm io \<le> pgs_per_line P" for io using u by blast
    show "f q = PG_FREE \<longleftrightarrow> nm io \<le> pg_order P q" if "q \<in> line_pages P (cl io)" for io q using that u by blast
    show "f q \<noteq> PG_FREE" if "j \<in> set (full_line_list m') \<or> j \<in># victims m'" "q \<in> line_pages P j" for j q
      using that u full[of j] vic[of j] by blast
    show "ln_vpc (lines m' ! j) = pgs_per_line P" if "j \<in> set (full_line_list m')" for j
      using full[OF that] u l lt[of j] by auto
    show "0 < ln_ipc (lines m' ! j)" if "j \<in># victims m'" for j
      using vic[OF that] u l lt[of j] i by auto
  qed
qed

lemma map_inv_invalid:
  assumes P: "params_ok P" and mp: "map_inv P f mt rm {} {}" and l: "l < tt_pgs P" "mapped_ppa (mt ! l)" "p = mt ! l"
  shows "map_inv P (f(p := PG_INVALID)) mt (rm[pgidx P p := x]) {} {l}"
proof -
  note m = mp[unfolded map_inv_def]
  have p: "p \<in> pages P" "unat (rm ! pgidx P p) = l" using m l by auto
  have rm: "rm[pgidx P p := x] ! pgidx P q = rm ! pgidx P q" if "q \<in> pages P" "q \<noteq> p" for q
    using pgidx_inject[OF P p(1) that(1)] that(2) by (simp add: nth_upd)
  show ?thesis
    unfolding map_inv_def
  proof (intro conjI allI ballI impI)
    show "length mt = tt_pgs P" "length (rm[pgidx P p := x]) = tt_pgs P" using m by simp_all
  next
    fix k assume k: "k < tt_pgs P" "k \<notin> {l}" "mapped_ppa (mt ! k)"
    then have a: "mt ! k \<in> pages P" "f (mt ! k) = PG_VALID" "unat (rm ! pgidx P (mt ! k)) = k" using m by auto
    then have "mt ! k \<noteq> p" using p k(2) by auto
    then show "mt ! k \<in> pages P" "mt ! k \<notin> {}" "(f(p := PG_INVALID)) (mt ! k) = PG_VALID"
      "unat (rm[pgidx P p := x] ! pgidx P (mt ! k)) = k" using a rm by auto
  next
    fix q assume q: "q \<in> pages P" "q \<notin> {}" "(f(p := PG_INVALID)) q = PG_VALID"
    then have "q \<noteq> p" "f q = PG_VALID" by (auto split: if_splits)
    then show "unat (rm[pgidx P p := x] ! pgidx P q) < tt_pgs P" "unat (rm[pgidx P p := x] ! pgidx P q) \<notin> {l}"
      "mt ! unat (rm[pgidx P p := x] ! pgidx P q) = q"
      using m q l(3) rm by auto
  qed
qed

subsection \<open>The operation\<close>

definition unmap_page :: "conv_ftl \<Rightarrow> ppa \<Rightarrow> conv_ftl option" where
  "unmap_page c p = do {
     c \<leftarrow> mark_page_invalid c p;
     set_rmap_ent c INVALID_LPN p
   }"

text \<open>The open lines still have a free page.\<close>

definition wps_ok :: "conv_ftl \<Rightarrow> (io_type \<Rightarrow> nat) \<Rightarrow> bool" where
  "wps_ok c nm \<longleftrightarrow> (\<forall>io. wp_in (spp c) (get_wp c io) \<and> wp_order (spp c) (get_wp c io) = nm io)"

lemma open_not_full:
  assumes core: "core c X S E nm" and wps: "wps_ok c nm"
  shows "nvalid (pst (ftl_ssd c)) (line_pages (spp c) (cls c io)) < pgs_per_line (spp c)"
proof -
  note cr = coreD[OF core]
  have "wp_in (spp c) (get_wp c io)" "wp_order (spp c) (get_wp c io) = nm io" using wps by (auto simp: wps_ok_def)
  note w = wp_page_in[OF cr(1) this(1)] this(2)
  have "pst (ftl_ssd c) (wp_page (get_wp c io)) = PG_FREE" using cr(5) w by (simp add: use_inv_def cls_def)
  then have "nvalid (pst (ftl_ssd c)) (line_pages (spp c) (cls c io)) < card (line_pages (spp c) (cls c io))"
    using w(1) by (intro nvalid_lt[of "wp_page (get_wp c io)"]) (simp_all add: cls_def)
  then show ?thesis using card_line_pages_le[OF cr(1), of "cls c io"] by simp
qed

lemma invalidate_line_ok:
  assumes core: "core c [] {} {} nm" and wps: "wps_ok c nm" and p: "p \<in> line_pages (spp c) i"
    and st: "pst (ftl_ssd c) p = PG_VALID"
  shows "\<exists>m'. invalidate_line (c\<lparr>ftl_ssd := s\<rparr>) i (pgs_per_line (spp c)) = Some (c\<lparr>ftl_ssd := s, lm := m'\<rparr>) \<and>
    invalidated (tt_lines (spp c)) (cls c) i (lm c) m'"
proof -
  let ?P = "spp c" and ?f = "pst (ftl_ssd c)" and ?L = "pgs_per_line (spp c)"
  note cr = coreD[OF core]
  have part: "part_inv (tt_lines ?P) (cls c) [] (lm (c\<lparr>ftl_ssd := s\<rparr>))" using cr(3) by simp
  have i: "i < tt_lines ?P" using p pages_coords(3)[OF cr(1), of p] by (auto simp: line_pages_def)
  have cnt: "ln_ipc (lines (lm c) ! i) = ninvalid ?f (line_pages ?P i)" "ln_vpc (lines (lm c) ! i) = nvalid ?f (line_pages ?P i)"
    using cr(4) i by (simp_all add: cnt_inv_def)
  have vpos: "0 < nvalid ?f (line_pages ?P i)" by (rule nvalid_pos[where f = ?f]) (use p st in simp_all)
  have sum: "nvalid ?f (line_pages ?P i) + ninvalid ?f (line_pages ?P i) \<le> ?L"
    using nvalid_ninvalid_le[of ?f "line_pages ?P i"] card_line_pages_le[OF cr(1), of i] by simp
  have ilt: "ln_ipc (lines (lm c) ! i) < ?L" using cnt vpos sum by simp
  have "i \<notin> set (free_line_list (lm c))" using cr(5) p st by (auto simp: use_inv_def)
  then consider "i \<in># victims (lm c)" | "i \<notin># victims (lm c)" "i \<notin> set (full_line_list (lm c))" "i \<in># io_lines (cls c)"
    | "i \<in> set (full_line_list (lm c))"
    using part_inv_facts(7)[OF cr(3) i] by auto
  then show ?thesis
  proof cases
    case 1
    then have "0 < ln_ipc (lines (lm c) ! i)" using cr(5) by (simp add: use_inv_def)
    then show ?thesis using 1 invalidate_queued[OF part i, of ?L] ilt cnt vpos sum by simp
  next
    case 2
    then obtain io where "i = cls c io" by (auto simp: io_lines_def)
    then show ?thesis using 2 invalidate_open[OF part i, of ?L] ilt cnt vpos open_not_full[OF core wps, of io] by simp
  next
    case 3
    then have "ln_vpc (lines (lm c) ! i) = ?L" using cr(5) by (simp add: use_inv_def)
    then show ?thesis using 3 invalidate_full[OF part, of i ?L] cnt sum params_okD(10)[OF cr(1)] by simp
  qed
qed

lemma unmap_ok:
  assumes core: "core c [] {} {} nm" and wps: "wps_ok c nm"
    and l: "l < tt_pgs (spp c)" "mapped_ppa (maptbl c ! l)" "p = maptbl c ! l"
  shows "\<exists>c'. unmap_page c p = Some c' \<and> core c' [] {} {l} nm \<and> kept c c' \<and> get_wp c' = get_wp c \<and>
    maptbl c' = maptbl c \<and> cur_nsecs c' = cur_nsecs c \<and>
    free_line_list (lm c') = free_line_list (lm c) \<and> pst (ftl_ssd c) p = PG_VALID \<and> p \<in> pages (spp c) \<and>
    (\<forall>q \<in> pages (spp c). pst (ftl_ssd c') q = ((pst (ftl_ssd c))(p := PG_INVALID)) q)"
proof -
  let ?P = "spp c" and ?f = "pst (ftl_ssd c)" and ?i = "unat (ppa_blk p)"
  note cr = coreD[OF core]
  have p: "p \<in> pages ?P" "?f p = PG_VALID" using cr(6) l by (simp_all add: map_inv_def)
  have pl: "p \<in> line_pages ?P ?i" using p(1) by (simp add: line_pages_def)
  have i: "?i < tt_lines ?P" by (rule pages_coords(3)[OF cr(1) p(1)])
  have cnt: "bcnt (ftl_ssd c) p = Some (ninvalid ?f (blk_pages ?P p), nvalid ?f (blk_pages ?P p))"
    using cr(4) p(1) by (simp add: cnt_inv_def)
  have pos: "0 < nvalid ?f (blk_pages ?P p)" by (rule nvalid_pos[where f = ?f]) (use self_blk_pages[OF p(1)] p(2) in simp_all)
  have sum: "ninvalid ?f (blk_pages ?P p) + nvalid ?f (blk_pages ?P p) \<le> pgs_per_blk ?P"
    using nvalid_ninvalid_le[of ?f "blk_pages ?P p"] card_blk_pages_le[OF cr(1) p(1)] by simp
  obtain s' where run: "do {
      s \<leftarrow> set_page_status (ftl_ssd c) p PG_VALID PG_INVALID;
      upd_blk s p (\<lambda>b. do {
        nv_assert (ipc b < pgs_per_blk ?P);
        let b = b\<lparr>ipc := ipc b + 1\<rparr>;
        nv_assert (vpc b > 0 \<and> vpc b \<le> pgs_per_blk ?P);
        Some (b\<lparr>vpc := vpc b - 1\<rparr>) }) } = Some s'"
    and s': "ssd_inv s'" "same_rest (ftl_ssd c) s'" "\<forall>q \<in> pages ?P. pst s' q = (?f(p := PG_INVALID)) q"
    "\<forall>q. bcnt s' q = (if same_blk p q then Some (ninvalid ?f (blk_pages ?P p) + 1, nvalid ?f (blk_pages ?P p) - 1)
        else bcnt (ftl_ssd c) q)"
    using page_to_invalid[OF cr(2) p cnt pos sum refl] by (elim exE conjE) (rule that)
  obtain m' where m': "invalidate_line (c\<lparr>ftl_ssd := s'\<rparr>) ?i (pgs_per_line ?P) = Some (c\<lparr>ftl_ssd := s', lm := m'\<rparr>)"
    "invalidated (tt_lines ?P) (cls c) ?i (lm c) m'"
    using invalidate_line_ok[OF core wps pl p(2), of s'] by (elim exE conjE) (rule that)
  let ?c' = "c\<lparr>ftl_ssd := s', rmap := (rmap c)[pgidx ?P p := INVALID_LPN], lm := m'\<rparr>"
  have sp': "sp s' = ?P" "write_buffer s' = write_buffer (ftl_ssd c)" using s'(2) by (simp_all add: same_rest_def)
  have "mark_page_invalid c p = Some (c\<lparr>ftl_ssd := s', lm := m'\<rparr>)"
    unfolding mark_page_invalid_split run bind.bind_lunit by (rule m'(1))
  moreover have "set_rmap_ent (c\<lparr>ftl_ssd := s', lm := m'\<rparr>) INVALID_LPN p = Some ?c'"
    using sp' ppa2pgidx_eq[OF cr(1) p(1)] pgidx_less[OF cr(1) p(1)] cr(6)
    by (simp add: set_rmap_ent_def map_inv_def)
  ultimately have run': "unmap_page c p = Some ?c'" by (simp add: unmap_page_def)
  have f'': "(?f(p := PG_INVALID)) q = pst s' q" if "q \<in> pages ?P" for q using s'(3) that by simp
  have "core ?c' [] {} {l} nm"
  proof -
    have b: "bcnt (ftl_ssd c) q = bcnt (ftl_ssd c) p" if "q \<in> pages ?P" "same_blk p q" for q
    proof -
      have "blk_pages ?P q = blk_pages ?P p"
        using that(2) by (auto simp: blk_pages_def same_blk_def same_pl_def same_lun_def same_ch_def)
      then show ?thesis using cr(4) that(1) cnt by (simp add: cnt_inv_def)
    qed
    have "cnt_inv ?P (pst s') (bcnt s') m' []"
      by (rule cnt_inv_cong[OF f''], assumption, rule cnt_inv_invalid[OF cr(4) pl p(2) _ m'(2)]) (use s'(4) b cnt in simp)
    moreover have "use_inv ?P (pst s') nm (cls c) m'"
      by (rule use_inv_cong[OF f''], assumption, rule use_inv_invalid[OF cr(5) pl p(2) m'(2) i cr(3)])
    moreover have "map_inv ?P (pst s') (maptbl c) ((rmap c)[pgidx ?P p := INVALID_LPN]) {} {l}"
      by (rule map_inv_cong[OF f''], assumption, rule map_inv_invalid[OF cr(1) cr(6) l])
    moreover have "part_inv (tt_lines ?P) (cls c) [] m'" using m'(2) by (simp add: invalidated_def)
    ultimately show ?thesis using cr(1) s'(1) sp' by (simp add: core_def)
  qed
  moreover have "kept c ?c'" by (simp add: kept_def sp')
  moreover have "get_wp ?c' = get_wp c" by (simp add: get_wp_def fun_eq_iff split: io_type.split)
  moreover have "free_line_list m' = free_line_list (lm c)" using m'(2) by (simp add: invalidated_def)
  ultimately show ?thesis using run' p s'(3) by auto
qed

end
