(* ===== verification/Conv_Select.thy ===== *)
theory Conv_Select
  imports Conv_Invalidate
begin

text \<open>
  The selection of a victim: the greedy policy takes the top of the queue, a line with the
  fewest valid pages; what either policy returns has left the queue and belongs to the collector.
\<close>

lemma peek_victim:
  assumes "part_inv T cl X m" "victims m \<noteq> {#}"
  shows "\<exists>v. pqueue_peek (victim_line_pq m) = Some (Some (LPtr v)) \<and> v \<in># victims m \<and> v < T \<and>
    (\<forall>w. w \<in># victims m \<longrightarrow> ln_vpc (lines m ! v) \<le> ln_vpc (lines m ! w))"
proof -
  note p = part_inv_lines[OF assms(1)]
  have pri: "victim_line_get_pri (lines m) (LPtr w) = ln_vpc (lines m ! w)" if "w < T" for w
    using that p(1) by (simp add: victim_line_get_pri_def line_at_def)
  have "pq_elems (victim_line_pq m) \<noteq> []" using assms(2) by (auto simp: victims_def)
  then obtain e where e: "pqueue_peek (victim_line_pq m) = Some (Some e)" "e \<in> set (pq_elems (victim_line_pq m))"
    "\<forall>x \<in> set (pq_elems (victim_line_pq m)). victim_line_get_pri (lines m) e \<le> victim_line_get_pri (lines m) x"
    using vq.pqueue_peek_least[OF p(4)] by auto
  obtain v where v: "e = LPtr v" using vq.pq_elemsD(4)[OF p(4) e(2)] by (auto simp: line_ok_def)
  have vin: "v \<in># victims m" using victims_iff[OF p(4)] e(2) v by simp
  have lt: "w < T" if "w \<in># victims m" for w using part_inv_facts(3)[OF assms(1) that] by blast
  have "ln_vpc (lines m ! v) \<le> ln_vpc (lines m ! w)" if "w \<in># victims m" for w
    using e(3) victims_iff[OF p(4), of w] that v pri[OF lt[OF that]] pri[OF lt[OF vin]] by force
  then show ?thesis using e(1) v vin lt by auto
qed

text \<open>A line leaves the queue.\<close>

definition left_queue :: "line_mgmt \<Rightarrow> line_mgmt \<Rightarrow> nat \<Rightarrow> bool" where
  "left_queue m m' v \<longleftrightarrow> free_line_list m' = free_line_list m \<and> full_line_list m' = full_line_list m \<and>
     add_mset v (victims m') = victims m \<and> length (lines m') = length (lines m) \<and>
     (\<forall>i < length (lines m). ln_ipc (lines m' ! i) = ln_ipc (lines m ! i) \<and>
        ln_vpc (lines m' ! i) = ln_vpc (lines m ! i) \<and> ln_id (lines m' ! i) = ln_id (lines m ! i))"

lemma leave_queue:
  assumes part: "part_inv T cl [] m" and q: "vq.pq_inv q ls"
    and els: "add_mset (LPtr v) (mset (pq_elems q)) = mset (pq_elems (victim_line_pq m))"
    and len: "length (pq_d q) = length (pq_d (victim_line_pq m))"
    and pos: "\<And>x. x \<notin> set (pq_elems (victim_line_pq m)) \<Longrightarrow> victim_line_get_pos ls x = victim_line_get_pos (lines m) x"
    and same: "same_but_pos (lines m) ls" and v: "v < T"
    and m': "m' = m\<lparr>victim_line_pq := q, lines := ls[v := (ls ! v)\<lparr>ln_pos := 0\<rparr>],
      victim_line_cnt := victim_line_cnt m - 1\<rparr>"
  shows "part_inv T cl [v] m' \<and> left_queue m m' v"
proof -
  note p = part[unfolded part_inv_def]
  note sb = same_but_posD[OF same]
  have lenls: "length ls = T" using sb(1) p by simp
  have "image_mset ptr_idx (add_mset (LPtr v) (mset (pq_elems q))) = victims m" unfolding els victims_def ..
  then have vic: "add_mset v (victims m') = victims m" by (simp add: m' victims_def ptr_idx_def)
  then have sz: "size (victims m) = Suc (size (victims m'))" by (metis size_add_mset)
  have new: "v \<notin># victims m'"
  proof -
    have "distinct (pq_elems (victim_line_pq m))" using vq.pq_inv_distinct p by blast
    then have "count (mset (pq_elems (victim_line_pq m))) (LPtr v) \<le> 1" by (simp add: distinct_count_atmost_1)
    then have "LPtr v \<notin> set (pq_elems q)" unfolding els[symmetric] by (auto simp: count_eq_zero_iff)
    moreover have "victims m' = image_mset ptr_idx (mset (pq_elems q))" by (simp add: m' victims_def)
    moreover have "e = LPtr (ptr_idx e)" if "e \<in> set (pq_elems q)" for e
      using vq.pq_elemsD(4)[OF q that] by (auto simp: line_ok_def ptr_idx_def)
    ultimately show ?thesis by (metis (no_types, lifting) imageE set_image_mset set_mset_mset)
  qed
  have pos0: "ln_pos (lines m' ! i) = 0" if "i < T" "i \<notin># victims m'" for i
  proof (cases "i = v")
    case True
    then show ?thesis using lenls v by (simp add: m')
  next
    case False
    have i: "i \<notin># victims m" using that(2) False unfolding vic[symmetric] by simp
    have "ln_pos (ls ! i) = victim_line_get_pos ls (LPtr i)" using get_pos_line[of i ls] that lenls by simp
    also have "\<dots> = victim_line_get_pos (lines m) (LPtr i)"
      using i victims_iff[of m i] p by (intro pos) blast
    also have "\<dots> = 0" using get_pos_line[of i "lines m"] that i p by simp
    finally show ?thesis using False by (simp add: m')
  qed
  have "vq.pq_inv q (ls[v := (ls ! v)\<lparr>ln_pos := 0\<rparr>])"
  proof (rule pq_inv_upd_line[OF q])
    show "LPtr v \<notin> set (pq_elems q)"
    proof
      assume "LPtr v \<in> set (pq_elems q)"
      then have "v \<in># victims m'" unfolding m' victims_def by (force simp: ptr_idx_def)
      with new show False by simp
    qed
  qed
  moreover have "mset (free_line_list m') + mset (full_line_list m') + victims m' + io_lines cl + mset [v] = mset [0..<T]"
  proof -
    have "mset (free_line_list m) + mset (full_line_list m) + add_mset v (victims m') + io_lines cl = mset [0..<T]"
      using p unfolding vic by simp
    then show ?thesis by (simp add: m')
  qed
  moreover have "victim_line_cnt m' = of_nat (size (victims m'))" using p sz by (simp add: m')
  moreover have "\<forall>i < T. ln_id (lines m' ! i) = i" using p sb(2) lenls by (simp add: m' nth_upd)
  ultimately have "part_inv T cl [v] m'"
    unfolding part_inv_def using p lenls len pos0 by (simp add: m')
  moreover have "left_queue m m' v"
    unfolding left_queue_def using vic sb lenls p by (simp add: m' nth_upd)
  ultimately show ?thesis by blast
qed

text \<open>What a selection leaves for the collector.\<close>

definition selected :: "conv_ftl \<Rightarrow> conv_ftl \<Rightarrow> nat \<Rightarrow> bool" where
  "selected c c' v \<longleftrightarrow> left_queue (lm c) (lm c') v \<and> part_inv (tt_lines (spp c)) (cls c) [v] (lm c') \<and>
     ftl_ssd c' = ftl_ssd c \<and> cp c' = cp c \<and> wfc c' = wfc c \<and> get_wp c' = get_wp c \<and> maptbl c' = maptbl c \<and>
     rmap c' = rmap c \<and> cur_nsecs c' = cur_nsecs c"

lemma select_greedy_ok:
  assumes part: "part_inv (tt_lines (spp c)) (cls c) [] (lm c)" and vic: "victims (lm c) \<noteq> {#}"
    and log: "\<not> CONV_ISO_LOG_SAMPLES bc"
  shows "\<exists>v c'. select_victim_greedy bc c True = Some (Some v, c') \<and> v \<in># victims (lm c) \<and> selected c c' v \<and>
    (\<forall>w. w \<in># victims (lm c) \<longrightarrow> ln_vpc (lines (lm c) ! v) \<le> ln_vpc (lines (lm c) ! w))"
proof -
  let ?m = "lm c"
  note p = part_inv_lines[OF part]
  obtain v where v: "pqueue_peek (victim_line_pq ?m) = Some (Some (LPtr v))" "v \<in># victims ?m" "v < tt_lines (spp c)"
    "\<forall>w. w \<in># victims ?m \<longrightarrow> ln_vpc (lines ?m ! v) \<le> ln_vpc (lines ?m ! w)"
    using peek_victim[OF part vic] by blast
  have ne: "pq_elems (victim_line_pq ?m) \<noteq> []" using vic by (auto simp: victims_def)
  obtain e q ls where pop: "pqueue_pop (victim_line_pq ?m) (lines ?m) = Some (Some e, q, ls)"
    "pqueue_peek (victim_line_pq ?m) = Some (Some e)"
    and q: "vq.pq_inv q ls" "add_mset e (mset (pq_elems q)) = mset (pq_elems (victim_line_pq ?m))"
    "length (pq_d q) = length (pq_d (victim_line_pq ?m))"
    and pos: "\<And>x. x \<notin> set (pq_elems (victim_line_pq ?m)) \<Longrightarrow> victim_line_get_pos ls x = victim_line_get_pos (lines ?m) x"
    and reach: "vq.spos_reach (lines ?m) ls"
    using vq.pqueue_pop_inv[OF p(4) ne] by (elim exE conjE) (rule that; blast)
  have e: "e = LPtr v" using pop(2) v(1) by simp
  let ?m' = "?m\<lparr>victim_line_pq := q, lines := ls[v := (ls ! v)\<lparr>ln_pos := 0\<rparr>], victim_line_cnt := victim_line_cnt ?m - 1\<rparr>"
  note lq = leave_queue[OF part q(1) q(2)[unfolded e] q(3) pos spos_reach_lines[OF reach] v(3) refl]
  have len: "v < length ls" using same_but_posD(1)[OF spos_reach_lines[OF reach]] p(1) v(3) by simp
  have "\<exists>st. select_victim_greedy bc c True = Some (Some v, c\<lparr>stats := st, lm := ?m'\<rparr>)"
    using v(1,3) p(1) pop(1) log len
    by (intro exI) (simp add: select_victim_greedy_def Let_def ptr_line_def isotonic_sample_candidates_def upd_stats_def upd_lm_def
        mod_line_def amod_def)
  moreover have "selected c (c\<lparr>stats := st, lm := ?m'\<rparr>) v" for st
    unfolding selected_def using lq by (simp add: get_wp_def fun_eq_iff split: io_type.split)
  ultimately show ?thesis using v by blast
qed

lemma core_selected:
  assumes core: "core c [] {} {} nm" and sel: "selected c c' v"
  shows "core c' [v] {} {} nm"
proof -
  note cr = coreD[OF core]
  note s = sel[unfolded selected_def left_queue_def]
  have cl: "cls c' = cls c" using s by (simp add: cls_def fun_eq_iff)
  have len: "length (lines (lm c)) = tt_lines (spp c)" by (rule part_inv_lines(1)[OF cr(3)])
  have "cnt_inv (spp c) (pst (ftl_ssd c)) (bcnt (ftl_ssd c)) (lm c') [v]"
    using cr(4) s len by (simp add: cnt_inv_def)
  moreover have "use_inv (spp c) (pst (ftl_ssd c)) nm (cls c) (lm c')"
  proof -
    note u = cr(5)[unfolded use_inv_def]
    have vic: "i \<in># victims (lm c)" if "i \<in># victims (lm c')" for i
    proof -
      have "i \<in># add_mset v (victims (lm c'))" using that by simp
      then show ?thesis using s by simp
    qed
    have lt: "i < tt_lines (spp c)" if "i \<in> set (full_line_list (lm c)) \<or> i \<in># victims (lm c)" for i
      using that part_inv_facts(2,3)[OF cr(3), of i] by blast
    show ?thesis
      unfolding use_inv_def
    proof (intro conjI allI ballI impI)
      show "pst (ftl_ssd c) p = PG_FREE" if "i \<in> set (free_line_list (lm c'))" "p \<in> line_pages (spp c) i" for i p
        using that u s by auto
      show "nm io \<le> pgs_per_line (spp c)" for io using u by blast
      show "pst (ftl_ssd c) p = PG_FREE \<longleftrightarrow> nm io \<le> pg_order (spp c) p" if "p \<in> line_pages (spp c) (cls c io)" for io p
        using that u by blast
      show "pst (ftl_ssd c) p \<noteq> PG_FREE" if "i \<in> set (full_line_list (lm c')) \<or> i \<in># victims (lm c')"
        "p \<in> line_pages (spp c) i" for i p
        using that u s vic[of i] by auto
      show "ln_vpc (lines (lm c') ! i) = pgs_per_line (spp c)" if "i \<in> set (full_line_list (lm c'))" for i
        using that u s lt[of i] len by auto
      show "0 < ln_ipc (lines (lm c') ! i)" if "i \<in># victims (lm c')" for i
        using vic[OF that] u s lt[of i] len by auto
    qed
  qed
  ultimately show ?thesis using cr s cl by (simp add: core_def)
qed

end
