(* ===== verification/Conv_Collect.thy ===== *)
theory Conv_Collect
  imports Conv_Select
begin

text \<open>
  Garbage collection of one line. The pages of the victim are visited flash page by flash page,
  over the channels, then the LUNs; \<open>gc_order\<close> numbers them in that order. The invariant of the
  loops says which pages have been visited: their logical pages live elsewhere, and the pages
  not yet visited are as they were.
\<close>

lemma opt_fold_upt:
  assumes "P 0 s" and "\<And>i t. i < n \<Longrightarrow> P i t \<Longrightarrow> \<exists>t'. f t i = Some t' \<and> P (Suc i) t'"
  shows "\<exists>s'. opt_fold f s [0..<n] = Some s' \<and> P n s'"
  using assms(2)
proof (induction n)
  case 0
  then show ?case using assms(1) by simp
next
  case (Suc n)
  then obtain t where t: "opt_fold f s [0..<n] = Some t" "P n t" using less_Suc_eq by metis
  then show ?case using Suc.prems[of n t] by (auto simp: opt_fold_append)
qed

subsection \<open>Free pages\<close>

definition fpages :: "conv_ftl \<Rightarrow> (io_type \<Rightarrow> nat) \<Rightarrow> nat" where
  "fpages c nm = length (free_line_list (lm c)) * pgs_per_line (spp c) +
     (pgs_per_line (spp c) - nm USER_IO) + (pgs_per_line (spp c) - nm GC_IO)"

lemma core_nm_less:
  assumes "core c X S E nm" "wps_ok c nm"
  shows "nm io < pgs_per_line (spp c)"
  using assms wp_order_less[OF coreD(1)[OF assms(1)]] by (metis wps_ok_def)

lemma place_advance:
  assumes core: "core c X S {unat lpn} nm" and wps: "wps_ok c nm" and l: "unat lpn < tt_pgs (spp c)"
    and p: "p = wp_page (get_wp c io)" "p \<notin> S" and room: "pgs_per_line (spp c) + 1 < fpages c nm"
  shows "\<exists>c' nm'. do { c \<leftarrow> place_page c lpn p; advance_write_pointer (upd_stats g c) io } = Some c' \<and>
    core c' X S {} nm' \<and> wps_ok c' nm' \<and> kept c c' \<and> Suc (fpages c' nm') = fpages c nm \<and>
    maptbl c' = (maptbl c)[unat lpn := p] \<and> p \<in> line_pages (spp c) (cls c io) \<and>
    (\<forall>q \<in> pages (spp c). unat (ppa_blk q) \<noteq> cls c io \<longrightarrow>
      bcnt (ftl_ssd c') q = bcnt (ftl_ssd c) q \<and> pst (ftl_ssd c') q = pst (ftl_ssd c) q) \<and>
    cur_nsecs c' = cur_nsecs c \<and> (\<forall>io'. io' \<noteq> io \<longrightarrow> get_wp c' io' = get_wp c io')"
proof -
  let ?L = "pgs_per_line (spp c)" and ?nm1 = "nm(io := Suc (nm io))"
  have w: "wp_in (spp c) (get_wp c io)" "wp_order (spp c) (get_wp c io) = nm io" using wps by (auto simp: wps_ok_def)
  have lt: "nm io < ?L" for io by (rule core_nm_less[OF core wps])
  obtain c1 where c1: "place_page c lpn p = Some c1" "core c1 X S {} ?nm1" "kept c c1" "get_wp c1 = get_wp c"
    "same_lists (lm c) (lm c1)" "cur_nsecs c1 = cur_nsecs c" "maptbl c1 = (maptbl c)[unat lpn := p]"
    "p \<in> line_pages (spp c) (cls c io)"
    and b1: "\<And>q. q \<in> pages (spp c) \<Longrightarrow> unat (ppa_blk q) \<noteq> cls c io \<Longrightarrow> bcnt (ftl_ssd c1) q = bcnt (ftl_ssd c) q"
    and f1: "\<And>q. q \<in> pages (spp c) \<Longrightarrow> pst (ftl_ssd c1) q = ((pst (ftl_ssd c))(p := PG_VALID)) q"
    using core_place[OF core w l p] by (elim exE conjE) (rule that; blast)
  let ?c2 = "upd_stats g c1"
  have k2: "spp ?c2 = spp c" "get_wp ?c2 = get_wp c" "lm ?c2 = lm c1" "ftl_ssd ?c2 = ftl_ssd c1" "maptbl ?c2 = maptbl c1"
    "cur_nsecs ?c2 = cur_nsecs c" "kept c ?c2"
    using c1(3,4,6) by (auto simp: upd_stats_def kept_def get_wp_def fun_eq_iff split: io_type.splits)
  have core2: "core ?c2 X S {} ?nm1" using c1(2) by simp
  have free: "?nm1 io = pgs_per_line (spp ?c2) \<longrightarrow> free_line_list (lm ?c2) \<noteq> []"
  proof (intro impI notI)
    assume that: "?nm1 io = pgs_per_line (spp ?c2)" and "free_line_list (lm ?c2) = []"
    then have "free_line_list (lm c) = []" using k2 same_listsD(1)[OF c1(5)] by simp
    then have "fpages c nm \<le> ?L + 1" using that k2 lt[of USER_IO] lt[of GC_IO] by (cases io) (auto simp: fpages_def)
    with room show False by simp
  qed
  let ?nm' = "?nm1(io := if ?nm1 io = pgs_per_line (spp ?c2) then 0 else ?nm1 io)"
  have w2: "wp_in (spp ?c2) (get_wp ?c2 io)" "?nm1 io = Suc (wp_order (spp ?c2) (get_wp ?c2 io))" using w k2 by simp_all
  obtain c' where c': "advance_write_pointer ?c2 io = Some c'" "core c' X S {} ?nm'" "kept ?c2 c'" "ftl_ssd c' = ftl_ssd ?c2"
    "maptbl c' = maptbl ?c2" "cur_nsecs c' = cur_nsecs ?c2" "wp_in (spp ?c2) (get_wp c' io)"
    "wp_order (spp ?c2) (get_wp c' io) = ?nm' io"
    "\<forall>io'. io' \<noteq> io \<longrightarrow> get_wp c' io' = get_wp ?c2 io'"
    "free_line_list (lm c') = (if ?nm1 io = pgs_per_line (spp ?c2) then tl (free_line_list (lm ?c2)) else free_line_list (lm ?c2))"
    using advance_ok[OF core2 w2 free refl] by (elim exE conjE) (rule that)
  have sp': "spp c' = spp c" using c'(3) k2 by (simp add: kept_def)
  have "wps_ok c' ?nm'"
    unfolding wps_ok_def
  proof
    fix io'
    show "wp_in (spp c') (get_wp c' io') \<and> wp_order (spp c') (get_wp c' io') = ?nm' io'"
      using c'(7,8,9) wps sp' k2 by (cases "io' = io") (auto simp: wps_ok_def)
  qed
  moreover have "Suc (fpages c' ?nm') = fpages c nm"
  proof (cases "Suc (nm io) = ?L")
    case True
    then obtain x xs where "free_line_list (lm c) = x # xs"
      using free k2 same_listsD(1)[OF c1(5)] by (cases "free_line_list (lm c)") auto
    then have "free_line_list (lm c') = xs" using c'(10) True k2 same_listsD(1)[OF c1(5)] by simp
    then show ?thesis
      using True sp' k2 \<open>free_line_list (lm c) = x # xs\<close> by (cases io) (auto simp: fpages_def)
  next
    case False
    then have "free_line_list (lm c') = free_line_list (lm c)" using c'(10) k2 same_listsD(1)[OF c1(5)] by simp
    then show ?thesis using False sp' k2 lt[of io] by (cases io) (auto simp: fpages_def)
  qed
  moreover have "kept c c'" using kept_trans[OF k2(7) c'(3)] .
  moreover have "pst (ftl_ssd c') q = pst (ftl_ssd c) q" if "q \<in> pages (spp c)" "unat (ppa_blk q) \<noteq> cls c io" for q
    using f1[OF that(1)] that(2) c1(8) c'(4) k2(4) by (auto simp: line_pages_def)
  moreover have "bcnt (ftl_ssd c') q = bcnt (ftl_ssd c) q" if "q \<in> pages (spp c)" "unat (ppa_blk q) \<noteq> cls c io" for q
    using b1[OF that] c'(4) k2(4) by simp
  ultimately show ?thesis using c1(1,7,8) c' k2 by (intro exI[of _ c'] exI[of _ ?nm']) simp
qed

subsection \<open>Stale copies\<close>

lemma map_inv_stale:
  assumes mp: "map_inv P f mt rm S {}" and p: "p \<in> pages P" "p \<notin> S" "f p = PG_VALID"
  shows "map_inv P f mt rm (insert p S) {unat (rm ! pgidx P p)}"
proof -
  note m = mp[unfolded map_inv_def]
  have mp': "mt ! unat (rm ! pgidx P p) = p" using m p by blast
  show ?thesis
    unfolding map_inv_def
  proof (intro conjI allI ballI impI)
    show "length mt = tt_pgs P" "length rm = tt_pgs P" using m by blast+
    fix k assume k: "k < tt_pgs P" "k \<notin> {unat (rm ! pgidx P p)}" "mapped_ppa (mt ! k)"
    then have a: "mt ! k \<in> pages P" "mt ! k \<notin> S" "f (mt ! k) = PG_VALID" "unat (rm ! pgidx P (mt ! k)) = k" using m by auto
    show "mt ! k \<in> pages P" "f (mt ! k) = PG_VALID" "unat (rm ! pgidx P (mt ! k)) = k" by (rule a)+
    show "mt ! k \<notin> insert p S" using a k(2) by auto
  next
    fix q assume q: "q \<in> pages P" "q \<notin> insert p S" "f q = PG_VALID"
    then have a: "unat (rm ! pgidx P q) < tt_pgs P" "mt ! unat (rm ! pgidx P q) = q" using m by auto
    then show "unat (rm ! pgidx P q) < tt_pgs P" "mt ! unat (rm ! pgidx P q) = q" by auto
    show "unat (rm ! pgidx P q) \<notin> {unat (rm ! pgidx P p)}" using a(2) mp' q(2) by auto
  qed
qed

lemma map_inv_skip:
  assumes "map_inv P f mt rm S {}" "f p \<noteq> PG_VALID"
  shows "map_inv P f mt rm (insert p S) {}"
  using assms by (auto simp: map_inv_def)

subsection \<open>The order of the collection\<close>

definition gc_index :: "ssdparams \<Rightarrow> nat \<Rightarrow> nat \<Rightarrow> nat \<Rightarrow> nat \<Rightarrow> nat" where
  "gc_index P d ch lun i = ((d * nchs P + ch) * luns_per_ch P + lun) * pgs_per_flashpg P + i"

definition gc_order :: "ssdparams \<Rightarrow> ppa \<Rightarrow> nat" where
  "gc_order P p = gc_index P (unat (ppa_pg p) div pgs_per_flashpg P) (unat (ppa_ch p)) (unat (ppa_lun p))
     (unat (ppa_pg p) mod pgs_per_flashpg P)"

definition gc_blk :: "ssdparams \<Rightarrow> ppa \<Rightarrow> nat" where
  "gc_blk P p = unat (ppa_ch p) * luns_per_ch P + unat (ppa_lun p)"

definition gc_page :: "ssdparams \<Rightarrow> nat \<Rightarrow> nat \<Rightarrow> nat \<Rightarrow> nat \<Rightarrow> nat \<Rightarrow> ppa" where
  "gc_page P v d ch lun i = \<lparr>ppa_pg = of_nat (d * pgs_per_flashpg P + i), ppa_blk = of_nat v, ppa_pl = 0,
     ppa_lun = of_nat lun, ppa_ch = of_nat ch, ppa_rsv = 0\<rparr>"

definition gc_done :: "ssdparams \<Rightarrow> nat \<Rightarrow> nat \<Rightarrow> ppa set" where
  "gc_done P v k = {p \<in> line_pages P v. gc_order P p < k}"

lemma gc_page_in:
  assumes P: "params_ok P" and "v < tt_lines P" "d < flashpgs_per_blk P" "ch < nchs P" "lun < luns_per_ch P"
    "i < pgs_per_flashpg P"
  shows "gc_page P v d ch lun i \<in> line_pages P v" "gc_order P (gc_page P v d ch lun i) = gc_index P d ch lun i"
    "gc_blk P (gc_page P v d ch lun i) = ch * luns_per_ch P + lun"
    "unat (ppa_pg (gc_page P v d ch lun i)) = d * pgs_per_flashpg P + i"
proof -
  let ?F = "pgs_per_flashpg P"
  have b: "nchs P \<le> 256" "luns_per_ch P \<le> 256" "pgs_per_blk P \<le> 65536" "tt_lines P \<le> 65536" "blks_per_pl P = tt_lines P"
    "pls_per_lun P = 1"
    using P params_okD(7)[OF P] by (auto simp: params_ok_def)
  have "d * ?F + i < flashpgs_per_blk P * ?F" using assms by (intro radix_less) auto
  then have pg: "d * ?F + i < pgs_per_blk P" using params_okD(2)[OF P] by (simp add: mult.commute)
  have u: "unat (of_nat (d * ?F + i) :: u16) = d * ?F + i" "unat (of_nat v :: u16) = v"
    "unat (of_nat lun :: u8) = lun" "unat (of_nat ch :: u8) = ch"
    using pg assms b by (simp_all add: unat_of_nat_less del: of_nat_add of_nat_mult)
  then show "gc_page P v d ch lun i \<in> line_pages P v"
    using assms b pg by (simp add: line_pages_def pages_def pg_in_range_def blk_in_range_def gc_page_def)
  show "unat (ppa_pg (gc_page P v d ch lun i)) = d * ?F + i" using u by (simp add: gc_page_def)
  have "(d * ?F + i) div ?F = d" "(d * ?F + i) mod ?F = i" using assms(6) by auto
  then show "gc_order P (gc_page P v d ch lun i) = gc_index P d ch lun i"
    using u by (simp add: gc_order_def gc_page_def)
  show "gc_blk P (gc_page P v d ch lun i) = ch * luns_per_ch P + lun" using u by (simp add: gc_blk_def gc_page_def)
qed

lemma gc_order_inject:
  assumes P: "params_ok P" and p: "p \<in> line_pages P v" and q: "q \<in> line_pages P v"
  shows "gc_order P p = gc_order P q \<longleftrightarrow> p = q"
proof
  have pp: "p \<in> pages P" "q \<in> pages P" "unat (ppa_blk p) = unat (ppa_blk q)" using p q by (auto simp: line_pages_def)
  assume "gc_order P p = gc_order P q"
  then have e: "unat (ppa_pg p) div pgs_per_flashpg P = unat (ppa_pg q) div pgs_per_flashpg P"
    "unat (ppa_pg p) mod pgs_per_flashpg P = unat (ppa_pg q) mod pgs_per_flashpg P"
    "unat (ppa_ch p) = unat (ppa_ch q)" "unat (ppa_lun p) = unat (ppa_lun q)"
    using pages_coords[OF P pp(1)] pages_coords[OF P pp(2)] params_okD(5)[OF P]
    by (simp_all add: gc_order_def gc_index_def radix_inj)
  then have "unat (ppa_pg p) = unat (ppa_pg q)" by (metis div_mult_mod_eq)
  then show "p = q"
    using e pp pages_pl[OF P] by (auto simp: pages_def word_unat_eq_iff intro!: ppa.equality)
qed simp

lemma gc_done_Suc:
  assumes P: "params_ok P" and p: "p \<in> line_pages P v" "gc_order P p = k"
  shows "gc_done P v (Suc k) = insert p (gc_done P v k)" "p \<notin> gc_done P v k"
proof -
  have "q \<in> gc_done P v (Suc k) \<longleftrightarrow> q \<in> insert p (gc_done P v k)" for q
    using gc_order_inject[OF P, of q v p] p by (auto simp: gc_done_def less_Suc_eq)
  then show "gc_done P v (Suc k) = insert p (gc_done P v k)" by blast
  show "p \<notin> gc_done P v k" using p by (simp add: gc_done_def)
qed

lemma gc_done_all:
  assumes P: "params_ok P"
  shows "gc_done P v (gc_index P (flashpgs_per_blk P) 0 0 0) = line_pages P v"
proof -
  have "gc_order P p < gc_index P (flashpgs_per_blk P) 0 0 0" if "p \<in> line_pages P v" for p
  proof -
    have c: "unat (ppa_ch p) < nchs P" "unat (ppa_lun p) < luns_per_ch P" "unat (ppa_pg p) < pgs_per_blk P"
      using that pages_coords[OF P, of p] by (auto simp: line_pages_def)
    have "unat (ppa_pg p) div pgs_per_flashpg P < flashpgs_per_blk P"
      using c(3) params_okD(2,5)[OF P] by (simp add: less_mult_imp_div_less mult.commute)
    then show ?thesis
      using c params_okD(5)[OF P] unfolding gc_order_def gc_index_def by (simp add: radix_less)
  qed
  then show ?thesis by (auto simp: gc_done_def)
qed

end
