(* ===== verification/Conv_GC_Loop.thy ===== *)
theory Conv_GC_Loop
  imports Conv_Collect
begin

text \<open>
  The loops of the collector keep the invariant \<open>gc_inv\<close>: after \<open>k\<close> pages of the victim \<open>v\<close>
  have been visited and \<open>j\<close> of its blocks erased, the visited pages hold no live data, the others
  are untouched, every logical page is mapped iff it was, and each copy took one free page.
\<close>

definition gc_inv :: "conv_ftl \<Rightarrow> (io_type \<Rightarrow> nat) \<Rightarrow> nat \<Rightarrow> nat \<Rightarrow> nat \<Rightarrow> conv_ftl \<Rightarrow> (io_type \<Rightarrow> nat) \<Rightarrow> bool" where
  "gc_inv c0 nm0 v k j c nm \<longleftrightarrow> core c [v] (gc_done (spp c0) v k) {} nm \<and> wps_ok c nm \<and> kept c0 c \<and>
     (\<forall>p \<in> line_pages (spp c0) v. p \<notin> gc_done (spp c0) v k \<longrightarrow> pst (ftl_ssd c) p = pst (ftl_ssd c0) p) \<and>
     (\<forall>p \<in> line_pages (spp c0) v. gc_blk (spp c0) p < j \<longrightarrow>
        pst (ftl_ssd c) p = PG_FREE \<and> bcnt (ftl_ssd c) p = Some (0, 0)) \<and>
     fpages c nm + nvalid (pst (ftl_ssd c0)) (gc_done (spp c0) v k) = fpages c0 nm0 \<and>
     (\<forall>l < tt_pgs (spp c0). mapped_ppa (maptbl c ! l) = mapped_ppa (maptbl c0 ! l)) \<and>
     cur_nsecs c = cur_nsecs c0 \<and> get_wp c USER_IO = get_wp c0 USER_IO"

text \<open>What a collection can start from.\<close>

definition gc_ready :: "conv_ftl \<Rightarrow> (io_type \<Rightarrow> nat) \<Rightarrow> nat \<Rightarrow> bool" where
  "gc_ready c0 nm0 v \<longleftrightarrow> params_ok (spp c0) \<and> v < tt_lines (spp c0) \<and>
     2 * pgs_per_line (spp c0) \<le> fpages c0 nm0 \<and>
     (\<forall>p \<in> line_pages (spp c0) v. pst (ftl_ssd c0) p \<noteq> PG_FREE) \<and>
     nvalid (pst (ftl_ssd c0)) (line_pages (spp c0) v) < pgs_per_line (spp c0)"

lemma gc_invD:
  assumes "gc_inv c0 nm0 v k j c nm"
  shows "core c [v] (gc_done (spp c0) v k) {} nm" "wps_ok c nm" "kept c0 c" "spp c = spp c0" "cp c = cp c0"
    "p \<in> line_pages (spp c0) v \<Longrightarrow> p \<notin> gc_done (spp c0) v k \<Longrightarrow> pst (ftl_ssd c) p = pst (ftl_ssd c0) p"
    "p \<in> line_pages (spp c0) v \<Longrightarrow> gc_blk (spp c0) p < j \<Longrightarrow>
        pst (ftl_ssd c) p = PG_FREE \<and> bcnt (ftl_ssd c) p = Some (0, 0)"
    "fpages c nm + nvalid (pst (ftl_ssd c0)) (gc_done (spp c0) v k) = fpages c0 nm0"
    "l < tt_pgs (spp c0) \<Longrightarrow> mapped_ppa (maptbl c ! l) = mapped_ppa (maptbl c0 ! l)"
    "cur_nsecs c = cur_nsecs c0" "get_wp c USER_IO = get_wp c0 USER_IO"
  using assms by (auto simp: gc_inv_def kept_def)

lemma core_stale:
  assumes "core c X S {} nm" "map_inv (spp c) (pst (ftl_ssd c)) (maptbl c) (rmap c) S' E"
  shows "core c X S' E nm"
  using assms by (simp add: core_def)

lemma gc_skip:
  assumes inv: "gc_inv c0 nm0 v k j c nm" and p: "p \<in> line_pages (spp c0) v" "gc_order (spp c0) p = k"
    and st: "pst (ftl_ssd c) p \<noteq> PG_VALID"
  shows "gc_inv c0 nm0 v (Suc k) j c nm"
proof -
  note g = gc_invD[OF inv]
  have P: "params_ok (spp c0)" using coreD(1)[OF g(1)] g(4) by simp
  note d = gc_done_Suc[OF P p]
  have f0: "pst (ftl_ssd c0) p \<noteq> PG_VALID" using g(6)[OF p(1) d(2)] st by simp
  have "nvalid (pst (ftl_ssd c0)) (insert p (gc_done (spp c0) v k)) = nvalid (pst (ftl_ssd c0)) (gc_done (spp c0) v k)"
    unfolding nvalid_def using f0 by (intro arg_cong[of _ _ card]) auto
  moreover have "core c [v] (insert p (gc_done (spp c0) v k)) {} nm"
    by (rule core_stale[OF g(1)]) (rule map_inv_skip[OF coreD(6)[OF g(1)] st])
  ultimately show ?thesis
    using inv unfolding gc_inv_def d(1) by auto
qed

lemma gc_nand:
  assumes inv: "gc_inv c0 nm0 v k j c nm" and p: "p \<in> pages (spp c0)" and op: "op = NAND_READ \<Longrightarrow> sz \<noteq> 0"
    and sz: "sz < 2 ^ 64"
  shows "\<exists>t c'. advance_nand c (gc_nand_cmd op sz p) = Some (t, c') \<and> gc_inv c0 nm0 v k j c' nm"
proof -
  note g = gc_invD[OF inv]
  note cr = coreD[OF g(1)]
  have "lun_in_range (spp c) p" using p g(4) by (simp add: lun_in_range_def pages_def pg_in_range_def blk_in_range_def)
  moreover have "(of_nat sz :: u64) \<noteq> 0" if "sz \<noteq> 0"
  proof
    assume "(of_nat sz :: u64) = 0"
    then have "unat (of_nat sz :: u64) = 0" by simp
    then show False using that sz by (simp add: unat_of_nat_less)
  qed
  moreover have "time_params (spp c)" using cr(1) by (simp add: params_ok_def)
  ultimately obtain t s' where s: "ssd_advance_nand (ftl_ssd c) (gc_nand_cmd op sz p) = Some (t, s')" "ssd_inv s'"
    "nand_same (ftl_ssd c) s'"
    using ssd_advance_nand_ok[OF cr(2), of "gc_nand_cmd op sz p"] op by (auto simp: gc_nand_cmd_def)
  note v = nand_same_view[OF s(3)]
  have "core (c\<lparr>ftl_ssd := s'\<rparr>) [v] (gc_done (spp c0) v k) {} nm" by (rule core_nand_same[OF g(1) s(3,2)])
  moreover have "get_wp (c\<lparr>ftl_ssd := s'\<rparr>) = get_wp c" by (simp add: get_wp_def fun_eq_iff split: io_type.split)
  ultimately have "gc_inv c0 nm0 v k j (c\<lparr>ftl_ssd := s'\<rparr>) nm"
    using inv v g(4) by (auto simp: gc_inv_def wps_ok_def kept_def fpages_def)
  then show ?thesis using s(1) by (simp add: advance_nand_def)
qed

subsection \<open>Copying a page\<close>

lemma gc_write_page_split:
  "gc_write_page c old_ppa = do {
     lpn \<leftarrow> get_rmap_ent c old_ppa;
     nv_assert (valid_lpn c lpn);
     new_ppa \<leftarrow> get_new_page c GC_IO;
     c \<leftarrow> do { c \<leftarrow> place_page c lpn new_ppa;
              advance_write_pointer (upd_stats (\<lambda>s. s\<lparr>gc_valid_copied := gc_valid_copied s + 1\<rparr>) c) GC_IO };
     if enable_gc_delay (cp c) then do {
       last \<leftarrow> last_pg_in_wordline c new_ppa;
       (t, c) \<leftarrow> advance_nand c (if last then gc_nand_cmd NAND_WRITE (pgsz (spp c) * pgs_per_oneshotpg (spp c)) new_ppa
                                 else gc_nand_cmd NAND_NOP 0 new_ppa);
       Some c
     } else Some c
   }"
  by (simp add: gc_write_page_def place_page_def Let_def)

lemma oneshot_bytes:
  assumes "params_ok P" shows "pgsz P * pgs_per_oneshotpg P < 2 ^ 64"
proof -
  have "pgs_per_oneshotpg P \<le> pgs_per_blk P" using params_okD(1,4)[OF assms] by simp
  also have "\<dots> \<le> 65536" using assms by (simp add: params_ok_def)
  finally show ?thesis using params_okD(14)[OF assms] by simp
qed

lemma gc_copy_delay:
  assumes inv: "gc_inv c0 nm0 v k j c nm" and p: "p \<in> pages (spp c0)"
  shows "\<exists>c'. (if enable_gc_delay (cp c) then do {
       last \<leftarrow> last_pg_in_wordline c p;
       (t, c) \<leftarrow> advance_nand c (if last then gc_nand_cmd NAND_WRITE (pgsz (spp c) * pgs_per_oneshotpg (spp c)) p
                                 else gc_nand_cmd NAND_NOP 0 p);
       Some c } else Some c) = Some c' \<and> gc_inv c0 nm0 v k j c' nm"
proof (cases "enable_gc_delay (cp c)")
  case True
  note cr = coreD[OF gc_invD(1)[OF inv]]
  have "pgs_per_oneshotpg (spp c) \<noteq> 0" using params_okD(3)[OF cr(1)] by simp
  then obtain b where b: "last_pg_in_wordline c p = Some b" by (simp add: last_pg_in_wordline_def ckmod_def)
  have "\<exists>t c'. advance_nand c (if b then gc_nand_cmd NAND_WRITE (pgsz (spp c) * pgs_per_oneshotpg (spp c)) p
      else gc_nand_cmd NAND_NOP 0 p) = Some (t, c') \<and> gc_inv c0 nm0 v k j c' nm"
    using gc_nand[OF inv p, of NAND_WRITE] gc_nand[OF inv p, of NAND_NOP 0] oneshot_bytes[OF cr(1)] by auto
  then show ?thesis using True b by auto
qed (use inv in simp)

lemma gc_copy:
  assumes inv: "gc_inv c0 nm0 v k j c nm" and ready: "gc_ready c0 nm0 v"
    and p: "p \<in> line_pages (spp c0) v" "gc_order (spp c0) p = k" and st: "pst (ftl_ssd c) p = PG_VALID"
  shows "\<exists>c' nm'. gc_write_page c p = Some c' \<and> gc_inv c0 nm0 v (Suc k) j c' nm'"
proof -
  let ?P = "spp c0" and ?S = "gc_done (spp c0) v k" and ?f0 = "pst (ftl_ssd c0)"
  note g = gc_invD[OF inv]
  note cr = coreD[OF g(1)]
  have P: "params_ok ?P" using cr(1) g(4) by simp
  note d = gc_done_Suc[OF P p]
  have pp: "p \<in> pages ?P" using p by (simp add: line_pages_def)
  let ?lpn = "rmap c ! pgidx ?P p"
  have mp: "unat ?lpn < tt_pgs ?P" "maptbl c ! unat ?lpn = p"
    using cr(6) g(4) pp d(2) st by (auto simp: map_inv_def)
  have rm: "get_rmap_ent c p = Some ?lpn"
    using cr(6) g(4) ppa2pgidx_eq[OF P pp] pgidx_less[OF P pp] by (simp add: get_rmap_ent_def map_inv_def)
  have core1: "core c [v] (insert p ?S) {unat ?lpn} nm"
    by (rule core_stale[OF g(1)]) (use map_inv_stale[OF cr(6), of p] g(4) pp d(2) st in simp)
  let ?q = "wp_page (get_wp c GC_IO)"
  have new: "get_new_page c GC_IO = Some ?q" by (rule get_new_page_eq) (use g(2) in \<open>simp add: wps_ok_def\<close>)
  have ql: "?q \<in> line_pages ?P (cls c GC_IO)"
    using wp_page_in(1)[OF cr(1), of "get_wp c GC_IO"] g(2,4) by (simp add: wps_ok_def cls_def)
  have cv: "cls c io \<noteq> v" for io using cls_less(2)[OF g(1), of io] by auto
  have qS: "?q \<notin> insert p ?S" using ql p cv[of GC_IO] by (auto simp: line_pages_def gc_done_def)
  have f0p: "?f0 p = PG_VALID" using g(6)[OF p(1) d(2)] st by simp
  have nv: "nvalid ?f0 (insert p ?S) = Suc (nvalid ?f0 ?S)"
  proof -
    have "{q \<in> insert p ?S. ?f0 q = PG_VALID} = insert p {q \<in> ?S. ?f0 q = PG_VALID}" using f0p by auto
    then show ?thesis using d(2) by (simp add: nvalid_def card_insert_new)
  qed
  have "nvalid ?f0 (insert p ?S) \<le> nvalid ?f0 (line_pages ?P v)"
    unfolding nvalid_def using p by (intro card_mono[OF finite_ppa]) (auto simp: gc_done_def)
  then have room: "pgs_per_line (spp c) + 1 < fpages c nm"
    using ready nv g(4,8) by (simp add: gc_ready_def)
  have l: "unat ?lpn < tt_pgs (spp c)" using mp g(4) by simp
  obtain c1 nm1 where c1: "do { c \<leftarrow> place_page c ?lpn ?q;
      advance_write_pointer (upd_stats (\<lambda>s. s\<lparr>gc_valid_copied := gc_valid_copied s + 1\<rparr>) c) GC_IO } = Some c1"
    "core c1 [v] (insert p ?S) {} nm1" "wps_ok c1 nm1" "kept c c1" "Suc (fpages c1 nm1) = fpages c nm"
    "maptbl c1 = (maptbl c)[unat ?lpn := ?q]"
    and same: "\<forall>q \<in> pages (spp c). unat (ppa_blk q) \<noteq> cls c GC_IO \<longrightarrow>
      bcnt (ftl_ssd c1) q = bcnt (ftl_ssd c) q \<and> pst (ftl_ssd c1) q = pst (ftl_ssd c) q"
    and rest: "cur_nsecs c1 = cur_nsecs c" "\<forall>io. io \<noteq> GC_IO \<longrightarrow> get_wp c1 io = get_wp c io"
    using place_advance[where g = "\<lambda>s. s\<lparr>gc_valid_copied := gc_valid_copied s + 1\<rparr>", OF core1 g(2) l refl qS room]
    by (elim exE conjE) (rule that)
  have sv: "bcnt (ftl_ssd c1) q = bcnt (ftl_ssd c) q \<and> pst (ftl_ssd c1) q = pst (ftl_ssd c) q" if "q \<in> line_pages ?P v" for q
    using same that cv[of GC_IO] g(4) by (auto simp: line_pages_def)
  have "gc_inv c0 nm0 v (Suc k) j c1 nm1"
    unfolding gc_inv_def d(1)
  proof (intro conjI ballI allI impI)
    show "core c1 [v] (insert p ?S) {} nm1" "wps_ok c1 nm1" by (rule c1)+
    show "kept c0 c1" by (rule kept_trans[OF g(3) c1(4)])
    show "pst (ftl_ssd c1) q = ?f0 q" if "q \<in> line_pages ?P v" "q \<notin> insert p ?S" for q
      using sv[OF that(1)] g(6)[OF that(1)] that(2) by simp
    show "pst (ftl_ssd c1) q = PG_FREE" "bcnt (ftl_ssd c1) q = Some (0, 0)" if "q \<in> line_pages ?P v" "gc_blk ?P q < j" for q
      using sv[OF that(1)] g(7)[OF that] by simp_all
    show "fpages c1 nm1 + nvalid ?f0 (insert p ?S) = fpages c0 nm0" using g(8) c1(5) nv by simp
    show "mapped_ppa (maptbl c1 ! l) = mapped_ppa (maptbl c0 ! l)" if "l < tt_pgs ?P" for l
    proof (cases "l = unat ?lpn")
      case True
      have "mapped_ppa ?q" "mapped_ppa p" using ql pp pages_mapped by (auto simp: line_pages_def)
      then show ?thesis using True c1(6) that cr(6) g(4) mp(2) g(9)[OF that] by (simp add: map_inv_def)
    next
      case False
      then show ?thesis using c1(6) g(9)[OF that] by simp
    qed
    show "cur_nsecs c1 = cur_nsecs c0" "get_wp c1 USER_IO = get_wp c0 USER_IO" using rest g by simp_all
  qed
  then obtain c' where c': "(if enable_gc_delay (cp c1) then do {
       last \<leftarrow> last_pg_in_wordline c1 ?q;
       (t, c) \<leftarrow> advance_nand c1 (if last then gc_nand_cmd NAND_WRITE (pgsz (spp c1) * pgs_per_oneshotpg (spp c1)) ?q
                                 else gc_nand_cmd NAND_NOP 0 ?q);
       Some c } else Some c1) = Some c'" "gc_inv c0 nm0 v (Suc k) j c' nm1"
    using gc_copy_delay[of c0 nm0 v "Suc k" j c1 nm1 ?q] ql by (auto simp: line_pages_def)
  have "valid_lpn c ?lpn" using l by (simp add: valid_lpn_def)
  then have "gc_write_page c p = Some c'"
    unfolding gc_write_page_split rm bind.bind_lunit new c1(1) using c'(1) by simp
  then show ?thesis using c'(2) by blast
qed

subsection \<open>Cleaning a flash page\<close>

lemma ppa_plus_gc_page: "ppa_plus (gc_page P v d ch lun 0) i = gc_page P v d ch lun i"
  by (simp add: ppa_plus_def gc_page_def)

lemma gc_page_status:
  assumes "gc_inv c0 nm0 v k j c nm" "p \<in> line_pages (spp c0) v"
  shows "\<exists>pg. get_pg (ftl_ssd c) p = Some pg \<and> status pg = pst (ftl_ssd c) p"
  using pst_page[OF coreD(2)[OF gc_invD(1)[OF assms(1)]], of p] assms(2) gc_invD(4)[OF assms(1)]
  by (auto simp: line_pages_def)

lemma gc_count:
  assumes inv: "gc_inv c0 nm0 v k j c nm" and ready: "gc_ready c0 nm0 v" and k: "k = gc_index (spp c0) d ch lun 0"
    and rg: "d < flashpgs_per_blk (spp c0)" "ch < nchs (spp c0)" "lun < luns_per_ch (spp c0)"
  shows "\<exists>cnt. opt_fold (count_valid_step c (gc_page (spp c0) v d ch lun 0)) 0 [0..<pgs_per_flashpg (spp c0)] = Some cnt \<and>
    cnt \<le> pgs_per_flashpg (spp c0) \<and>
    (cnt = 0 \<longrightarrow> (\<forall>i < pgs_per_flashpg (spp c0). pst (ftl_ssd c) (gc_page (spp c0) v d ch lun i) \<noteq> PG_VALID))"
proof -
  let ?P = "spp c0" and ?pg = "gc_page (spp c0) v d ch lun"
  have P: "params_ok ?P" "v < tt_lines ?P" using ready by (auto simp: gc_ready_def)
  have "\<exists>cnt. opt_fold (count_valid_step c (?pg 0)) 0 [0..<pgs_per_flashpg ?P] = Some cnt \<and>
      (cnt \<le> pgs_per_flashpg ?P \<and> (cnt = 0 \<longrightarrow> (\<forall>i < pgs_per_flashpg ?P. pst (ftl_ssd c) (?pg i) \<noteq> PG_VALID)))"
  proof (rule opt_fold_upt)
    fix i cnt assume i: "i < pgs_per_flashpg ?P" and a: "cnt \<le> i \<and> (cnt = 0 \<longrightarrow> (\<forall>i' < i. pst (ftl_ssd c) (?pg i') \<noteq> PG_VALID))"
    note pin = gc_page_in[OF P rg i]
    have nd: "?pg i \<notin> gc_done ?P v k" using pin(2) k by (simp add: gc_done_def gc_index_def)
    obtain pg where pg: "get_pg (ftl_ssd c) (?pg i) = Some pg" "status pg = pst (ftl_ssd c) (?pg i)"
      using gc_page_status[OF inv pin(1)] by blast
    have "status pg \<noteq> PG_FREE" using pg(2) gc_invD(6)[OF inv pin(1) nd] ready pin(1) by (simp add: gc_ready_def)
    then show "\<exists>t'. count_valid_step c (?pg 0) cnt i = Some t' \<and>
        (t' \<le> Suc i \<and> (t' = 0 \<longrightarrow> (\<forall>i' < Suc i. pst (ftl_ssd c) (?pg i') \<noteq> PG_VALID)))"
      using pg a by (simp add: count_valid_step_def ppa_plus_gc_page less_Suc_eq)
  qed simp
  then show ?thesis by simp
qed

lemma gc_clean:
  assumes inv: "gc_inv c0 nm0 v k j c nm" and ready: "gc_ready c0 nm0 v" and k: "k = gc_index (spp c0) d ch lun 0"
    and rg: "d < flashpgs_per_blk (spp c0)" "ch < nchs (spp c0)" "lun < luns_per_ch (spp c0)"
  shows "\<exists>c' nm'. clean_one_flashpg c (gc_page (spp c0) v d ch lun 0) = Some c' \<and>
    gc_inv c0 nm0 v (k + pgs_per_flashpg (spp c0)) j c' nm'"
proof -
  let ?P = "spp c0" and ?pg = "gc_page (spp c0) v d ch lun" and ?F = "pgs_per_flashpg (spp c0)"
  have P: "params_ok ?P" "v < tt_lines ?P" using ready by (auto simp: gc_ready_def)
  have F: "0 < ?F" by (rule params_okD(5)[OF P(1)])
  have "?F \<le> pgs_per_blk ?P" unfolding params_okD(2)[OF P(1)] using params_okD(6)[OF P(1)] by simp
  also have "\<dots> \<le> 65536" using P(1) by (simp add: params_ok_def)
  finally have F2: "?F \<le> 65536" .
  have sp: "spp c = ?P" by (rule gc_invD(4)[OF inv])
  have ord: "gc_order ?P (?pg i) = k + i" if "i < ?F" for i
    using gc_page_in(2)[OF P rg that] k by (simp add: gc_index_def)
  obtain cnt where cnt: "opt_fold (count_valid_step c (?pg 0)) 0 [0..<?F] = Some cnt" "cnt \<le> ?F"
    "cnt = 0 \<longrightarrow> (\<forall>i < ?F. pst (ftl_ssd c) (?pg i) \<noteq> PG_VALID)"
    using gc_count[OF inv ready k rg] by blast
  show ?thesis
  proof (cases "cnt = 0")
    case True
    have "gc_inv c0 nm0 v (k + i) j c nm" if "i \<le> ?F" for i
      using that
    proof (induction i)
      case 0
      then show ?case using inv by simp
    next
      case (Suc i)
      then have i: "i < ?F" by simp
      from gc_skip[OF _ gc_page_in(1)[OF P rg i] ord[OF i]] Suc cnt(3) True i show ?case by simp
    qed
    then have "gc_inv c0 nm0 v (k + ?F) j c nm" by simp
    moreover have "clean_one_flashpg c (?pg 0) = Some c" using cnt True sp by (simp add: clean_one_flashpg_def)
    ultimately show ?thesis by blast
  next
    case False
    have pz: "?pg 0 \<in> pages ?P" using gc_page_in(1)[OF P rg F] by (simp add: line_pages_def)
    have sz: "pgsz (spp c) * cnt < 2 ^ 64" "pgsz (spp c) * cnt \<noteq> 0"
      using cnt(2) F2 False params_okD(14)[OF P(1)] sp by auto
    have "\<exists>c1. (if enable_gc_delay (cp c)
             then do { (t, c) \<leftarrow> advance_nand c (gc_nand_cmd NAND_READ (pgsz (spp c) * cnt) (?pg 0)); Some c }
             else Some c) = Some c1 \<and> gc_inv c0 nm0 v k j c1 nm"
      using gc_nand[OF inv pz, of NAND_READ "pgsz (spp c) * cnt"] sz inv by auto
    then obtain c1 where c1: "(if enable_gc_delay (cp c)
             then do { (t, c) \<leftarrow> advance_nand c (gc_nand_cmd NAND_READ (pgsz (spp c) * cnt) (?pg 0)); Some c }
             else Some c) = Some c1" "gc_inv c0 nm0 v k j c1 nm" by blast
    have "\<exists>c2. opt_fold (copy_valid_step (?pg 0)) c1 [0..<?F] = Some c2 \<and> (\<exists>nm'. gc_inv c0 nm0 v (k + ?F) j c2 nm')"
    proof (rule opt_fold_upt[where P = "\<lambda>i c. \<exists>nm'. gc_inv c0 nm0 v (k + i) j c nm'"])
      show "\<exists>nm'. gc_inv c0 nm0 v (k + 0) j c1 nm'" using c1(2) by auto
    next
      fix i t assume i: "i < ?F" and "\<exists>nm'. gc_inv c0 nm0 v (k + i) j t nm'"
      then obtain nm1 where t: "gc_inv c0 nm0 v (k + i) j t nm1" by blast
      note pin = gc_page_in(1)[OF P rg i]
      obtain pg where pg: "get_pg (ftl_ssd t) (?pg i) = Some pg" "status pg = pst (ftl_ssd t) (?pg i)"
        using gc_page_status[OF t pin] by blast
      show "\<exists>t'. copy_valid_step (?pg 0) t i = Some t' \<and> (\<exists>nm'. gc_inv c0 nm0 v (k + Suc i) j t' nm')"
      proof (cases "status pg = PG_VALID")
        case True
        then have "\<exists>c' nm'. gc_write_page t (?pg i) = Some c' \<and> gc_inv c0 nm0 v (Suc (k + i)) j c' nm'"
          using gc_copy[OF t ready pin ord[OF i]] pg by simp
        then show ?thesis using True pg by (auto simp: copy_valid_step_def ppa_plus_gc_page)
      next
        case False
        then show ?thesis
          using gc_skip[OF t pin ord[OF i]] pg by (auto simp: copy_valid_step_def ppa_plus_gc_page)
      qed
    qed
    moreover have "spp c1 = ?P" by (rule gc_invD(4)[OF c1(2)])
    ultimately show ?thesis using cnt(1) False c1(1) sp by (simp add: clean_one_flashpg_def)
  qed
qed

subsection \<open>Erasing a block\<close>

lemma gc_erase:
  assumes inv: "gc_inv c0 nm0 v k j c nm" and p: "p \<in> line_pages (spp c0) v" "gc_blk (spp c0) p = j"
    and all: "\<And>q. q \<in> line_pages (spp c0) v \<Longrightarrow> gc_blk (spp c0) q = j \<Longrightarrow> gc_order (spp c0) q < k"
  shows "\<exists>c'. mark_block_free c p = Some c' \<and> gc_inv c0 nm0 v k (Suc j) c' nm"
proof -
  let ?P = "spp c0" and ?S = "gc_done (spp c0) v k"
  note g = gc_invD[OF inv]
  note cr = coreD[OF g(1)]
  have P: "params_ok ?P" using cr(1) g(4) by simp
  have pp: "p \<in> pages ?P" "unat (ppa_blk p) = v" using p by (auto simp: line_pages_def)
  have blk: "blk_in_range (spp c) p" using pages_coords(5)[OF P pp(1)] g(4) by simp
  obtain s' where s': "mark_block_free c p = Some (c\<lparr>ftl_ssd := s'\<rparr>)" "ssd_inv s'" "same_rest (ftl_ssd c) s'"
    and f': "\<And>q. pst s' q = (if same_blk p q then PG_FREE else pst (ftl_ssd c) q)"
    and b': "\<And>q. bcnt s' q = (if same_blk p q then Some (0, 0) else bcnt (ftl_ssd c) q)"
    using block_to_free[OF cr(2) blk refl] unfolding mark_block_free_def Let_def by auto
  let ?c' = "c\<lparr>ftl_ssd := s'\<rparr>"
  have sp': "sp s' = ?P" "write_buffer s' = write_buffer (ftl_ssd c)" using s'(3) g(4) by (simp_all add: same_rest_def)
  have sb: "unat (ppa_blk q) = v" if "same_blk p q" for q using that pp(2) by (simp add: same_blk_def)
  have inS: "q \<in> ?S" if "q \<in> pages ?P" "same_blk p q" for q
  proof -
    have "q \<in> line_pages ?P v" using that sb by (simp add: line_pages_def)
    moreover have "gc_blk ?P q = j"
      using that p(2) by (simp add: gc_blk_def same_blk_def same_pl_def same_lun_def same_ch_def)
    ultimately show ?thesis using all by (simp add: gc_done_def)
  qed
  have other: "pst s' q = pst (ftl_ssd c) q \<and> bcnt s' q = bcnt (ftl_ssd c) q" if "unat (ppa_blk q) \<noteq> v" for q
    using f' b' sb that by auto
  have vX: "i \<noteq> v" if "i \<in> set (full_line_list (lm c)) \<or> i \<in># victims (lm c) \<or> i \<in># io_lines (cls c)" for i
    using part_inv_facts(5)[OF cr(3), of v] that by auto
  have "core ?c' [v] ?S {} nm"
  proof -
    have "cnt_inv ?P (pst s') (bcnt s') (lm c) [v]"
      unfolding cnt_inv_def
    proof (intro conjI ballI allI impI)
      fix q assume q: "q \<in> pages ?P" "unat (ppa_blk q) \<notin> set [v]"
      have "pst s' x = pst (ftl_ssd c) x" if "x \<in> blk_pages ?P q" for x
        using that q(2) other[of x] by (auto simp: blk_pages_def same_blk_def)
      then have "ninvalid (pst s') (blk_pages ?P q) = ninvalid (pst (ftl_ssd c)) (blk_pages ?P q)"
        "nvalid (pst s') (blk_pages ?P q) = nvalid (pst (ftl_ssd c)) (blk_pages ?P q)"
        by (auto intro: nvalid_cong ninvalid_cong)
      then show "bcnt s' q = Some (ninvalid (pst s') (blk_pages ?P q), nvalid (pst s') (blk_pages ?P q))"
        using cr(4) g(4) q other[of q] by (simp add: cnt_inv_def)
    next
      fix i assume i: "i < tt_lines ?P" "i \<notin> set [v]"
      have "pst s' x = pst (ftl_ssd c) x" if "x \<in> line_pages ?P i" for x
        using that i(2) other[of x] by (simp add: line_pages_def)
      then have "ninvalid (pst s') (line_pages ?P i) = ninvalid (pst (ftl_ssd c)) (line_pages ?P i)"
        "nvalid (pst s') (line_pages ?P i) = nvalid (pst (ftl_ssd c)) (line_pages ?P i)"
        by (auto intro: nvalid_cong ninvalid_cong)
      then show "ln_ipc (lines (lm c) ! i) = ninvalid (pst s') (line_pages ?P i)"
        "ln_vpc (lines (lm c) ! i) = nvalid (pst s') (line_pages ?P i)"
        using cr(4) g(4) i by (simp_all add: cnt_inv_def)
    qed
    moreover have "use_inv ?P (pst s') nm (cls c) (lm c)"
    proof -
      note u = cr(5)[unfolded use_inv_def g(4)]
      have e: "pst s' q = pst (ftl_ssd c) q"
        if "q \<in> line_pages ?P i" "i \<in> set (full_line_list (lm c)) \<or> i \<in># victims (lm c) \<or> i \<in># io_lines (cls c)" for q i
        using other[of q] vX[OF that(2)] that(1) by (simp add: line_pages_def)
      show ?thesis
        unfolding use_inv_def
      proof (intro conjI allI ballI impI)
        show "pst s' q = PG_FREE" if "i \<in> set (free_line_list (lm c))" "q \<in> line_pages ?P i" for i q
          using that u f' by auto
        show "nm io \<le> pgs_per_line ?P" for io using u by blast
        show "pst s' q = PG_FREE \<longleftrightarrow> nm io \<le> pg_order ?P q" if "q \<in> line_pages ?P (cls c io)" for io q
          using e[OF that] io_lines_mem[of "cls c" io] u that by simp
        show "pst s' q \<noteq> PG_FREE" if "i \<in> set (full_line_list (lm c)) \<or> i \<in># victims (lm c)" "q \<in> line_pages ?P i" for i q
          using e[OF that(2)] that u by metis
        show "ln_vpc (lines (lm c) ! i) = pgs_per_line ?P" if "i \<in> set (full_line_list (lm c))" for i using that u by blast
        show "0 < ln_ipc (lines (lm c) ! i)" if "i \<in># victims (lm c)" for i using that u by blast
      qed
    qed
    moreover have "map_inv ?P (pst s') (maptbl c) (rmap c) ?S {}"
    proof -
      note m = cr(6)[unfolded map_inv_def g(4)]
      have e: "pst s' q = pst (ftl_ssd c) q" if "q \<in> pages ?P" "q \<notin> ?S" for q using f' inS that by auto
      show ?thesis
        unfolding map_inv_def
      proof (intro conjI allI ballI impI)
        show "length (maptbl c) = tt_pgs ?P" "length (rmap c) = tt_pgs ?P" using m by blast+
        fix l assume l: "l < tt_pgs ?P" "l \<notin> {}" "mapped_ppa (maptbl c ! l)"
        then show "maptbl c ! l \<in> pages ?P" "maptbl c ! l \<notin> ?S" "unat (rmap c ! pgidx ?P (maptbl c ! l)) = l"
          "pst s' (maptbl c ! l) = PG_VALID" using m e[of "maptbl c ! l"] by auto
      next
        fix q assume q: "q \<in> pages ?P" "q \<notin> ?S" "pst s' q = PG_VALID"
        then show "unat (rmap c ! pgidx ?P q) < tt_pgs ?P" "unat (rmap c ! pgidx ?P q) \<notin> {}"
          "maptbl c ! unat (rmap c ! pgidx ?P q) = q" using m e[of q] by auto
      qed
    qed
    ultimately show ?thesis using cr s'(2) sp' g(4) by (simp add: core_def)
  qed
  moreover have gw: "get_wp ?c' = get_wp c" by (simp add: get_wp_def fun_eq_iff split: io_type.split)
  moreover have "pst s' q = PG_FREE \<and> bcnt s' q = Some (0, 0)" if "q \<in> line_pages ?P v" "gc_blk ?P q < Suc j" for q
  proof (cases "gc_blk ?P q = j")
    case True
    have qp: "q \<in> pages ?P" "ppa_blk q = ppa_blk p" using that(1) pp by (auto simp: line_pages_def word_unat_eq_iff)
    have "unat (ppa_ch q) = unat (ppa_ch p) \<and> unat (ppa_lun q) = unat (ppa_lun p)"
      using True p(2) pages_coords(2)[OF P qp(1)] pages_coords(2)[OF P pp(1)] by (auto simp: gc_blk_def radix_inj)
    then have "same_blk p q" using same_blk_eq[OF P pp(1) qp(1)] qp(2) by (simp add: word_unat_eq_iff)
    then show ?thesis using f' b' by simp
  next
    case False
    then show ?thesis using that g(7)[of q] f' b' by auto
  qed
  moreover have "pst s' q = pst (ftl_ssd c0) q" if "q \<in> line_pages ?P v" "q \<notin> ?S" for q
    using f'[of q] inS[of q] g(6)[OF that] that by (auto simp: line_pages_def)
  ultimately have "gc_inv c0 nm0 v k (Suc j) ?c' nm"
    using inv sp' g(4) unfolding gc_inv_def by (simp add: wps_ok_def kept_def fpages_def)
  then show ?thesis using s'(1) by blast
qed

subsection \<open>The loops of a collection\<close>

lemma gc_endtime:
  assumes inv: "gc_inv c0 nm0 v k j c nm" and p: "p \<in> pages (spp c0)"
  shows "\<exists>c'. set_lun_gc_endtime c p = Some c' \<and> gc_inv c0 nm0 v k j c' nm"
proof -
  note g = gc_invD[OF inv]
  note cr = coreD[OF g(1)]
  let ?f = "\<lambda>lun. Some (lun\<lparr>lun_gc_endtime := next_lun_avail_time lun\<rparr>)"
  obtain l where l: "get_lun (ftl_ssd c) p = Some l"
    using get_lun_in[OF cr(2), of p] p g(4) by (auto simp: pages_def pg_in_range_def blk_in_range_def)
  then obtain s' where s': "upd_lun (ftl_ssd c) p ?f = Some s'" using luns.upd_total[OF l, of ?f] by auto
  have i: "ssd_inv s'" by (rule upd_lun_inv[OF s' cr(2)]) (auto simp: lun_shape_def)
  have n: "nand_same (ftl_ssd c) s'" by (rule upd_lun_same[OF s']) auto
  have "core (c\<lparr>ftl_ssd := s'\<rparr>) [v] (gc_done (spp c0) v k) {} nm" by (rule core_nand_same[OF g(1) n i])
  moreover have "get_wp (c\<lparr>ftl_ssd := s'\<rparr>) = get_wp c" by (simp add: get_wp_def fun_eq_iff split: io_type.split)
  ultimately have "gc_inv c0 nm0 v k j (c\<lparr>ftl_ssd := s'\<rparr>) nm"
    using inv nand_same_view[OF n] g(4) by (auto simp: gc_inv_def wps_ok_def kept_def fpages_def)
  then show ?thesis using s' by (simp add: set_lun_gc_endtime_def)
qed

text \<open>The number of blocks erased before the visit of a LUN: they go with the last flash page.\<close>

definition gc_erased :: "ssdparams \<Rightarrow> nat \<Rightarrow> nat \<Rightarrow> nat \<Rightarrow> nat" where
  "gc_erased P d ch lun = (if d = flashpgs_per_blk P - 1 then ch * luns_per_ch P + lun else 0)"

definition gc_at :: "conv_ftl \<Rightarrow> (io_type \<Rightarrow> nat) \<Rightarrow> nat \<Rightarrow> nat \<Rightarrow> nat \<Rightarrow> nat \<Rightarrow> conv_ftl \<Rightarrow> bool" where
  "gc_at c0 nm0 v d ch lun c \<longleftrightarrow>
     (\<exists>nm. gc_inv c0 nm0 v (gc_index (spp c0) d ch lun 0) (gc_erased (spp c0) d ch lun) c nm)"

lemma gc_index_Suc:
  "gc_index P d ch (Suc lun) 0 = gc_index P d ch lun 0 + pgs_per_flashpg P"
  "gc_index P d ch (luns_per_ch P) 0 = gc_index P d (Suc ch) 0 0"
  "gc_index P d (nchs P) 0 0 = gc_index P (Suc d) 0 0 0"
  by (simp_all add: gc_index_def algebra_simps)

lemma gc_lun_ok:
  assumes at: "gc_at c0 nm0 v d ch lun c" and ready: "gc_ready c0 nm0 v"
    and rg: "d < flashpgs_per_blk (spp c0)" "ch < nchs (spp c0)" "lun < luns_per_ch (spp c0)"
  shows "\<exists>c'. gc_lun v d ch c lun = Some c' \<and> gc_at c0 nm0 v d ch (Suc lun) c'"
proof -
  let ?P = "spp c0" and ?p = "gc_page (spp c0) v d ch lun 0" and ?k = "gc_index (spp c0) d ch (Suc lun) 0"
  have P: "params_ok ?P" "v < tt_lines ?P" using ready by (auto simp: gc_ready_def)
  note pin = gc_page_in[OF P rg params_okD(5)[OF P(1)]]
  have pp: "?p \<in> pages ?P" using pin(1) by (simp add: line_pages_def)
  obtain nm where inv: "gc_inv c0 nm0 v (gc_index ?P d ch lun 0) (gc_erased ?P d ch lun) c nm"
    using at by (auto simp: gc_at_def)
  have sp: "spp c = ?P" by (rule gc_invD(4)[OF inv])
  have pe: "\<lparr>ppa_pg = of_nat (d * pgs_per_flashpg (spp c)), ppa_blk = of_nat v, ppa_pl = 0,
              ppa_lun = of_nat lun, ppa_ch = of_nat ch, ppa_rsv = 0\<rparr> = ?p"
    by (simp add: gc_page_def sp)
  obtain l where l: "get_lun (ftl_ssd c) ?p = Some l"
    using get_lun_in[OF coreD(2)[OF gc_invD(1)[OF inv]], of ?p] pages_coords(1,2)[OF P(1) pp] sp by auto
  obtain c1 nm1 where c1: "clean_one_flashpg c ?p = Some c1" "gc_inv c0 nm0 v ?k (gc_erased ?P d ch lun) c1 nm1"
    using gc_clean[OF inv ready refl rg] unfolding gc_index_Suc(1) by blast
  have sp1: "spp c1 = ?P" by (rule gc_invD(4)[OF c1(2)])
  show ?thesis
  proof (cases "d = flashpgs_per_blk ?P - 1")
    case False
    then have "gc_at c0 nm0 v d ch (Suc lun) c1" using c1(2) by (auto simp: gc_at_def gc_erased_def)
    moreover have "gc_lun v d ch c lun = Some c1"
      unfolding gc_lun_def Let_def pe l bind.bind_lunit c1(1) using False sp1 by simp
    ultimately show ?thesis by blast
  next
    case True
    have j: "gc_erased ?P d ch lun = ch * luns_per_ch ?P + lun" using True by (simp add: gc_erased_def)
    have all: "gc_order ?P q < ?k" if q: "q \<in> line_pages ?P v" "gc_blk ?P q = gc_erased ?P d ch lun" for q
    proof -
      have qp: "q \<in> pages ?P" using q(1) by (simp add: line_pages_def)
      note qc = pages_coords[OF P(1) qp]
      have e: "unat (ppa_ch q) = ch" "unat (ppa_lun q) = lun"
        using q(2) qc(2) rg(3) unfolding j gc_blk_def by (simp_all add: radix_inj)
      have "unat (ppa_pg q) div pgs_per_flashpg ?P < flashpgs_per_blk ?P"
        using qc(4) params_okD(2)[OF P(1)] by (simp add: less_mult_imp_div_less mult.commute)
      then have "unat (ppa_pg q) div pgs_per_flashpg ?P \<le> d" using True by simp
      then have "((unat (ppa_pg q) div pgs_per_flashpg ?P * nchs ?P + ch) * luns_per_ch ?P + lun) \<le>
          ((d * nchs ?P + ch) * luns_per_ch ?P + lun)"
        by (intro add_le_mono1 mult_le_mono1)
      then have "gc_order ?P q \<le> gc_index ?P d ch lun (unat (ppa_pg q) mod pgs_per_flashpg ?P)"
        unfolding gc_order_def gc_index_def e by simp
      also have "\<dots> < ?k" using params_okD(5)[OF P(1)] unfolding gc_index_Suc(1) by (simp add: gc_index_def)
      finally show ?thesis .
    qed
    obtain c2 where c2: "mark_block_free c1 ?p = Some c2" "gc_inv c0 nm0 v ?k (gc_erased ?P d ch (Suc lun)) c2 nm1"
      using gc_erase[OF c1(2) pin(1) _ all] pin(3) j by (auto simp: gc_erased_def True)
    have "\<exists>c3. (if enable_gc_delay (cp c2)
             then do { (t, c) \<leftarrow> advance_nand c2 (gc_nand_cmd NAND_ERASE 0 ?p); Some c }
             else Some c2) = Some c3 \<and> gc_inv c0 nm0 v ?k (gc_erased ?P d ch (Suc lun)) c3 nm1"
      using gc_nand[OF c2(2) pp, of NAND_ERASE 0] c2(2) by auto
    then obtain c3 where c3: "(if enable_gc_delay (cp c2)
             then do { (t, c) \<leftarrow> advance_nand c2 (gc_nand_cmd NAND_ERASE 0 ?p); Some c }
             else Some c2) = Some c3" "gc_inv c0 nm0 v ?k (gc_erased ?P d ch (Suc lun)) c3 nm1" by blast
    obtain c4 where c4: "set_lun_gc_endtime c3 ?p = Some c4" "gc_inv c0 nm0 v ?k (gc_erased ?P d ch (Suc lun)) c4 nm1"
      using gc_endtime[OF c3(2) pp] by blast
    have "gc_lun v d ch c lun = Some c4"
      unfolding gc_lun_def Let_def pe l bind.bind_lunit c1(1) using True sp1 c2(1) c3(1) c4(1) by simp
    then show ?thesis using c4(2) by (auto simp: gc_at_def)
  qed
qed

lemma gc_copy_line_ok:
  assumes start: "gc_inv c0 nm0 v 0 0 c nm" and ready: "gc_ready c0 nm0 v"
  shows "\<exists>c' nm'. gc_copy_line c v = Some c' \<and>
    gc_inv c0 nm0 v (gc_index (spp c0) (flashpgs_per_blk (spp c0)) 0 0 0) (nchs (spp c0) * luns_per_ch (spp c0)) c' nm'"
proof -
  let ?P = "spp c0" and ?D = "flashpgs_per_blk (spp c0)"
  have P: "params_ok ?P" using ready by (auto simp: gc_ready_def)
  note g = gc_invD(4)
  have row: "\<exists>c'. opt_fold (gc_lun v d ch) c [0..<luns_per_ch ?P] = Some c' \<and> gc_at c0 nm0 v d (Suc ch) 0 c'"
    if "gc_at c0 nm0 v d ch 0 c" "d < ?D" "ch < nchs ?P" for c d ch
  proof -
    have "\<exists>c'. opt_fold (gc_lun v d ch) c [0..<luns_per_ch ?P] = Some c' \<and> gc_at c0 nm0 v d ch (luns_per_ch ?P) c'"
      by (rule opt_fold_upt[where P = "\<lambda>lun c. gc_at c0 nm0 v d ch lun c"]) (use that gc_lun_ok[OF _ ready] in auto)
    moreover have "gc_at c0 nm0 v d ch (luns_per_ch ?P) = gc_at c0 nm0 v d (Suc ch) 0"
      by (simp add: gc_at_def gc_index_Suc(2) gc_erased_def fun_eq_iff algebra_simps)
    ultimately show ?thesis by simp
  qed
  have sp: "spp c = ?P" if "gc_at c0 nm0 v d ch lun c" for c d ch lun using that gc_invD(4) by (auto simp: gc_at_def)
  have plane: "\<exists>c'. opt_fold (\<lambda>c ch. opt_fold (gc_lun v d ch) c [0..<luns_per_ch (spp c)]) c [0..<nchs ?P] = Some c' \<and>
      gc_at c0 nm0 v d (nchs ?P) 0 c'" if "gc_at c0 nm0 v d 0 0 c" "d < ?D" for c d
    by (rule opt_fold_upt[where P = "\<lambda>ch c. gc_at c0 nm0 v d ch 0 c"]) (use that row sp in auto)
  let ?Q = "\<lambda>d c. \<exists>nm. gc_inv c0 nm0 v (gc_index ?P d 0 0 0) (if d = ?D then nchs ?P * luns_per_ch ?P else 0) c nm"
  have "\<exists>c'. opt_fold (\<lambda>c d. opt_fold (\<lambda>c ch. opt_fold (gc_lun v d ch) c [0..<luns_per_ch (spp c)]) c [0..<nchs (spp c)])
      c [0..<?D] = Some c' \<and> ?Q ?D c'"
  proof (rule opt_fold_upt[where P = ?Q])
    have "?D \<noteq> 0" using params_okD(6)[OF P] by simp
    then show "?Q 0 c" using start by (auto simp: gc_index_def)
  next
    fix d t assume d: "d < ?D" and q: "?Q d t"
    then have at: "gc_at c0 nm0 v d 0 0 t" by (auto simp: gc_at_def gc_erased_def)
    obtain t' where t': "opt_fold (\<lambda>c ch. opt_fold (gc_lun v d ch) c [0..<luns_per_ch (spp c)]) t [0..<nchs ?P] = Some t'"
      "gc_at c0 nm0 v d (nchs ?P) 0 t'" using plane[OF at d] by blast
    obtain nm' where "gc_inv c0 nm0 v (gc_index ?P (Suc d) 0 0 0) (gc_erased ?P d (nchs ?P) 0) t' nm'"
      using t'(2) unfolding gc_at_def gc_index_Suc(3) by blast
    moreover have "gc_erased ?P d (nchs ?P) 0 = (if Suc d = ?D then nchs ?P * luns_per_ch ?P else 0)"
      using d by (auto simp: gc_erased_def)
    ultimately have "?Q (Suc d) t'" by auto
    then show "\<exists>t'. opt_fold (\<lambda>c ch. opt_fold (gc_lun v d ch) c [0..<luns_per_ch (spp c)]) t [0..<nchs (spp t)] = Some t' \<and>
        ?Q (Suc d) t'"
      using t'(1) sp[OF at] by auto
  qed
  then show ?thesis using g[OF start] by (auto simp: gc_copy_line_def)
qed

end
