(* ===== verification/Conv_Do_GC.thy ===== *)
theory Conv_Do_GC
  imports Conv_GC_Loop
begin

text \<open>
  A whole collection: after the loops the victim holds nothing, it joins the free lines, and the
  FTL is back in its invariant with as many more free pages as the victim had invalid ones.
\<close>

definition freed_line :: "line \<Rightarrow> line" where
  "freed_line x = x\<lparr>ln_ipc := 0, ln_vpc := 0, last_modified_time := 0, iso_sample_active := False,
     iso_sample_ipc := 0, iso_sample_age_ns := 0, iso_sample_start_ns := 0\<rparr>"

lemma freed_line_sel [simp]:
  "ln_ipc (freed_line x) = 0" "ln_vpc (freed_line x) = 0" "ln_id (freed_line x) = ln_id x" "ln_pos (freed_line x) = ln_pos x"
  by (simp_all add: freed_line_def)

definition freed :: "nat \<Rightarrow> line_mgmt \<Rightarrow> line_mgmt" where
  "freed v m = m\<lparr>lines := (lines m)[v := freed_line (lines m ! v)], free_line_list := free_line_list m @ [v],
     free_line_cnt := free_line_cnt m + 1\<rparr>"

lemma mark_line_free_eq:
  assumes "v < length (lines (lm c))" "unat (ppa_blk p) = v"
  shows "mark_line_free c p = Some (c\<lparr>lm := freed v (lm c)\<rparr>)"
  using assms
  by (simp add: mark_line_free_def Let_def mod_line_def amod_def aget_def aset_def upd_lm_def freed_def freed_line_def)

lemma part_inv_freed:
  assumes part: "part_inv T cl [v] m"
  shows "part_inv T cl [] (freed v m)"
proof -
  have v: "v < T" "v \<notin># victims m" using part_inv_facts(5)[OF part, of v] by auto
  note p = part[unfolded part_inv_def]
  have "part_inv T cl [v] (m\<lparr>lines := (lines m)[v := freed_line (lines m ! v)]\<rparr>)"
    by (rule part_inv_mod_line[OF part v(1)]) (use p v in auto)
  moreover have "victims (freed v m) = victims m" "victims (m\<lparr>lines := ls\<rparr>) = victims m" for ls
    by (simp_all add: freed_def victims_def)
  ultimately show ?thesis
    by (auto simp: part_inv_def freed_def)
qed

lemma gc_finish:
  assumes core: "core c [v] (line_pages (spp c) v) {} nm" and wps: "wps_ok c nm"
    and fr: "\<And>p. p \<in> line_pages (spp c) v \<Longrightarrow> pst (ftl_ssd c) p = PG_FREE \<and> bcnt (ftl_ssd c) p = Some (0, 0)"
    and p: "unat (ppa_blk p) = v"
  shows "\<exists>c'. mark_line_free c p = Some c' \<and> core c' [] {} {} nm \<and> wps_ok c' nm \<and> kept c c' \<and>
    fpages c' nm = fpages c nm + pgs_per_line (spp c) \<and> maptbl c' = maptbl c \<and> cur_nsecs c' = cur_nsecs c \<and>
    get_wp c' = get_wp c"
proof -
  let ?P = "spp c" and ?m = "lm c" and ?c' = "c\<lparr>lm := freed v (lm c)\<rparr>" and ?f = "pst (ftl_ssd c)"
  note cr = coreD[OF core]
  have part: "part_inv (tt_lines ?P) (cls c) [] (freed v ?m)" by (rule part_inv_freed[OF cr(3)])
  have v: "v < tt_lines ?P" "v \<notin># victims ?m" "v \<notin> set (full_line_list ?m)"
    using part_inv_facts(5)[OF cr(3), of v] by auto
  have len: "length (lines ?m) = tt_lines ?P" by (rule part_inv_lines(1)[OF cr(3)])
  have run: "mark_line_free c p = Some ?c'" by (rule mark_line_free_eq) (use v len p in auto)
  have vic: "victims (freed v ?m) = victims ?m" by (simp add: freed_def victims_def)
  have zero: "nvalid ?f A = 0 \<and> ninvalid ?f A = 0" if "A \<subseteq> line_pages ?P v" for A
  proof -
    have "{p \<in> A. ?f p = PG_VALID} = {}" "{p \<in> A. ?f p = PG_INVALID} = {}" using that fr by force+
    then show ?thesis unfolding nvalid_def ninvalid_def by (simp only: card.empty)
  qed
  have cnt: "cnt_inv ?P ?f (bcnt (ftl_ssd c)) (freed v ?m) []"
    unfolding cnt_inv_def
  proof (intro conjI ballI allI impI)
    fix q assume q: "q \<in> pages ?P" "unat (ppa_blk q) \<notin> set []"
    show "bcnt (ftl_ssd c) q = Some (ninvalid ?f (blk_pages ?P q), nvalid ?f (blk_pages ?P q))"
    proof (cases "unat (ppa_blk q) = v")
      case True
      then have "blk_pages ?P q \<subseteq> line_pages ?P v" by (auto simp: blk_pages_def line_pages_def same_blk_def)
      then show ?thesis using zero fr[of q] q True by (simp add: line_pages_def)
    next
      case False
      then show ?thesis using cr(4) q by (simp add: cnt_inv_def)
    qed
  next
    fix i assume i: "i < tt_lines ?P" "i \<notin> set []"
    show "ln_ipc (lines (freed v ?m) ! i) = ninvalid ?f (line_pages ?P i)"
      "ln_vpc (lines (freed v ?m) ! i) = nvalid ?f (line_pages ?P i)"
      using cr(4) zero[OF order_refl] i len by (cases "i = v"; simp add: cnt_inv_def freed_def)+
  qed
  have use: "use_inv ?P ?f nm (cls c) (freed v ?m)"
    using cr(5) fr v len unfolding use_inv_def vic by (auto simp: freed_def nth_list_update)
  have mp: "map_inv ?P ?f (maptbl c) (rmap c) {} {}"
    using cr(6) fr by (auto simp: map_inv_def)
  have "core ?c' [] {} {} nm" using cr part cnt use mp by (simp add: core_def)
  moreover have "get_wp ?c' = get_wp c" by (simp add: get_wp_def fun_eq_iff split: io_type.split)
  ultimately show ?thesis
    using run wps by (simp add: wps_ok_def kept_def fpages_def freed_def)
qed

subsection \<open>One collection\<close>

text \<open>What a collection did: \<open>i\<close> pages more are free, the same logical pages are mapped.\<close>

definition collected :: "conv_ftl \<Rightarrow> conv_ftl \<Rightarrow> nat \<Rightarrow> bool" where
  "collected c c' i \<longleftrightarrow> 0 < i \<and> i \<le> pgs_per_line (spp c) \<and> credits_to_refill (wfc c') = of_nat i \<and>
     write_credits (wfc c') = write_credits (wfc c) \<and> spp c' = spp c \<and> cp c' = cp c \<and>
     write_buffer (ftl_ssd c') = write_buffer (ftl_ssd c) \<and>
     (\<forall>l < tt_pgs (spp c). mapped_ppa (maptbl c' ! l) = mapped_ppa (maptbl c ! l)) \<and>
     cur_nsecs c' = cur_nsecs c \<and> get_wp c' USER_IO = get_wp c USER_IO"

lemma victim_counts:
  assumes core: "core c [] {} {} nm" and v: "v \<in># victims (lm c)"
  shows "v < tt_lines (spp c)" "0 < ln_ipc (lines (lm c) ! v)"
    "nvalid (pst (ftl_ssd c)) (line_pages (spp c) v) + ln_ipc (lines (lm c) ! v) = pgs_per_line (spp c)"
    "p \<in> line_pages (spp c) v \<Longrightarrow> pst (ftl_ssd c) p \<noteq> PG_FREE"
proof -
  note cr = coreD[OF core]
  show v': "v < tt_lines (spp c)" using part_inv_facts(3)[OF cr(3) v] by blast
  show "0 < ln_ipc (lines (lm c) ! v)" and nf: "\<And>p. p \<in> line_pages (spp c) v \<Longrightarrow> pst (ftl_ssd c) p \<noteq> PG_FREE"
    using cr(5) v by (auto simp: use_inv_def)
  have "ln_ipc (lines (lm c) ! v) = ninvalid (pst (ftl_ssd c)) (line_pages (spp c) v)"
    using cr(4) v' by (simp add: cnt_inv_def)
  then show "nvalid (pst (ftl_ssd c)) (line_pages (spp c) v) + ln_ipc (lines (lm c) ! v) = pgs_per_line (spp c)"
    using nvalid_ninvalid_eq[of "line_pages (spp c) v" "pst (ftl_ssd c)"] nf card_line_pages[OF cr(1) v'] by simp
qed

lemma do_gc_selected:
  assumes core: "core c [] {} {} nm" and wps: "wps_ok c nm" and v: "v \<in># victims (lm c)"
    and room: "2 * pgs_per_line (spp c) \<le> fpages c nm"
    and sel: "select_victim_line bc c force = Some (Some v, c1)" "selected c c1 v" and log: "\<not> CONV_ISO_LOG_SAMPLES bc"
  shows "\<exists>c' nm'. do_gc bc c force = Some (0, c') \<and> core c' [] {} {} nm' \<and> wps_ok c' nm' \<and>
    collected c c' (ln_ipc (lines (lm c) ! v)) \<and> fpages c' nm' = fpages c nm + ln_ipc (lines (lm c) ! v)"
proof -
  let ?P = "spp c" and ?i = "ln_ipc (lines (lm c) ! v)" and ?L = "pgs_per_line (spp c)"
  note cr = coreD[OF core]
  note vc = victim_counts[OF core v]
  note s = sel(2)[unfolded selected_def left_queue_def]
  have len: "length (lines (lm c)) = tt_lines ?P" by (rule part_inv_lines(1)[OF cr(3)])
  define x where "x = lines (lm c1) ! v"
  have x: "aget (lines (lm c1)) v = Some x" "ln_ipc x = ?i" "ln_id x = v"
    using s len vc(1) cr(3) by (simp_all add: aget_def x_def part_inv_def)
  let ?p = "\<lparr>ppa_pg = 0, ppa_blk = of_nat v, ppa_pl = 0, ppa_lun = 0, ppa_ch = 0, ppa_rsv = 0\<rparr>"
  have "\<exists>st. do_gc bc c force =
      do { c \<leftarrow> gc_copy_line (c1\<lparr>stats := st, wfc := (wfc c1)\<lparr>credits_to_refill := of_nat ?i\<rparr>\<rparr>) v;
           c \<leftarrow> mark_line_free c ?p; Some (0, c) }"
    using sel(1) x log
    by (intro exI) (simp add: do_gc_def isotonic_censor_selected_def upd_stats_def Let_def)
  then obtain st where run0: "do_gc bc c force =
      do { c \<leftarrow> gc_copy_line (c1\<lparr>stats := st, wfc := (wfc c1)\<lparr>credits_to_refill := of_nat ?i\<rparr>\<rparr>) v;
           c \<leftarrow> mark_line_free c ?p; Some (0, c) }" by blast
  let ?c2 = "c1\<lparr>stats := st, wfc := (wfc c1)\<lparr>credits_to_refill := of_nat ?i\<rparr>\<rparr>"
  define c2 where "c2 = ?c2"
  note run1 = run0[folded c2_def]
  have "get_wp ?c2 = get_wp c1" by (simp add: get_wp_def fun_eq_iff split: io_type.split)
  then have c2: "spp c2 = ?P" "cp c2 = cp c" "get_wp c2 = get_wp c" "lm c2 = lm c1" "ftl_ssd c2 = ftl_ssd c" "maptbl c2 = maptbl c"
    "cur_nsecs c2 = cur_nsecs c" "wfc c2 = (wfc c)\<lparr>credits_to_refill := of_nat ?i\<rparr>"
    using s by (simp_all add: c2_def)
  have core1: "core c1 [v] {} {} nm" by (rule core_selected[OF core sel(2)])
  then have core2: "core c2 [v] {} {} nm" by (simp add: c2_def)
  have fp2: "fpages c2 nm = fpages c nm" using s c2 by (simp add: fpages_def)
  have wps2: "wps_ok c2 nm" using wps c2 by (simp add: wps_ok_def)
  have start: "gc_inv c2 nm v 0 0 c2 nm"
    using core2 wps2 by (simp add: gc_inv_def gc_done_def nvalid_def)
  have nv: "nvalid (pst (ftl_ssd c2)) (line_pages ?P v) + ?i = ?L" using vc(3) c2 by simp
  have ready: "gc_ready c2 nm v"
    using cr(1) vc room fp2 nv c2 by (auto simp: gc_ready_def)
  obtain c3 nm3 where c3: "gc_copy_line c2 v = Some c3"
    "gc_inv c2 nm v (gc_index ?P (flashpgs_per_blk ?P) 0 0 0) (nchs ?P * luns_per_ch ?P) c3 nm3"
    using gc_copy_line_ok[OF start ready] c2 by auto
  note g = gc_invD[OF c3(2)]
  have sp3: "spp c3 = ?P" using g(4) c2 by simp
  have all: "gc_done ?P v (gc_index ?P (flashpgs_per_blk ?P) 0 0 0) = line_pages ?P v" by (rule gc_done_all[OF cr(1)])
  have core3: "core c3 [v] (line_pages (spp c3) v) {} nm3" using g(1) c2(1) sp3 all by simp
  have fr: "pst (ftl_ssd c3) p = PG_FREE \<and> bcnt (ftl_ssd c3) p = Some (0, 0)" if "p \<in> line_pages (spp c3) v" for p
  proof -
    have "p \<in> pages ?P" using that sp3 by (simp add: line_pages_def)
    then have "gc_blk ?P p < nchs ?P * luns_per_ch ?P"
      using pages_coords(1,2)[OF cr(1)] by (simp add: gc_blk_def radix_less)
    then show ?thesis using g(7)[of p] that sp3 c2(1) by simp
  qed
  have "v < 65536" using vc(1) cr(1) params_okD(7)[OF cr(1)] by (simp add: params_ok_def)
  then have pv: "unat (ppa_blk ?p) = v" by (simp add: unat_of_nat_less)
  obtain c4 where c4: "mark_line_free c3 ?p = Some c4" "core c4 [] {} {} nm3" "wps_ok c4 nm3" "kept c3 c4"
    "fpages c4 nm3 = fpages c3 nm3 + pgs_per_line (spp c3)" "maptbl c4 = maptbl c3" "cur_nsecs c4 = cur_nsecs c3"
    "get_wp c4 = get_wp c3"
    using gc_finish[OF core3 g(2) fr pv] by blast
  have run: "do_gc bc c force = Some (0, c4)"
    using c3(1) c4(1) run1 by simp
  have fp: "fpages c4 nm3 = fpages c nm + ?i"
    using c4(5) g(8) fp2 sp3 nv all c2(1) by simp
  have k: "kept c2 c4" by (rule kept_trans[OF g(3) c4(4)])
  have "0 < ?i" "?i \<le> ?L" using vc(2,3) by simp_all
  moreover have "wfc c4 = (wfc c)\<lparr>credits_to_refill := of_nat ?i\<rparr>" using k c2(8) by (simp add: kept_def)
  ultimately have "collected c c4 ?i"
    using k c4 g(9,10,11) c2(1-7) unfolding collected_def kept_def by simp
  then show ?thesis using run c4(2,3) fp by blast
qed

lemma do_gc_greedy:
  assumes core: "core c [] {} {} nm" and wps: "wps_ok c nm" and vic: "victims (lm c) \<noteq> {#}"
    and room: "2 * pgs_per_line (spp c) \<le> fpages c nm"
    and bc: "CONV_GC_POLICY bc = GC_POLICY_GREEDY" "\<not> CONV_ISO_LOG_SAMPLES bc"
  shows "\<exists>v c' nm'. do_gc bc c True = Some (0, c') \<and> core c' [] {} {} nm' \<and> wps_ok c' nm' \<and>
    v \<in># victims (lm c) \<and> (\<forall>w. w \<in># victims (lm c) \<longrightarrow> ln_vpc (lines (lm c) ! v) \<le> ln_vpc (lines (lm c) ! w)) \<and>
    collected c c' (ln_ipc (lines (lm c) ! v)) \<and> fpages c' nm' = fpages c nm + ln_ipc (lines (lm c) ! v)"
proof -
  obtain v c1 where v: "select_victim_greedy bc c True = Some (Some v, c1)" "v \<in># victims (lm c)" "selected c c1 v"
    "\<forall>w. w \<in># victims (lm c) \<longrightarrow> ln_vpc (lines (lm c) ! v) \<le> ln_vpc (lines (lm c) ! w)"
    using select_greedy_ok[OF coreD(3)[OF core] vic bc(2)] by blast
  have "select_victim_line bc c True = Some (Some v, c1)" using v(1) bc(1) by (simp add: select_victim_line_def)
  then show ?thesis using do_gc_selected[OF core wps v(2) room _ v(3) bc(2)] v(2,4) by blast
qed

end
