(* ===== verification/Conv_Service.thy ===== *)
theory Conv_Service
  imports Conv_Do_GC
begin

text \<open>
  The FTL in service: what holds between two host commands, and that every command of the host
  runs to its end, has its effect on the logical pages, and keeps it. Write credits are the
  budget of free pages: besides them there are always two lines of free pages for the collector.
\<close>

definition mapped_lpns :: "conv_ftl \<Rightarrow> nat set" where
  "mapped_lpns c = {l. l < tt_pgs (spp c) \<and> mapped_ppa (maptbl c ! l)}"

definition in_service :: "nat \<Rightarrow> conv_ftl \<Rightarrow> (io_type \<Rightarrow> nat) \<Rightarrow> bool" where
  "in_service N c nm \<longleftrightarrow> core c [] {} {} nm \<and> wps_ok c nm \<and> mapped_lpns c \<subseteq> {..<N} \<and>
     N < (tt_lines (spp c) - 4) * pgs_per_line (spp c) \<and> gc_thres_lines_high (cp c) = 2 \<and>
     2 * pgs_per_line (spp c) + unat (write_credits (wfc c)) \<le> fpages c nm \<and>
     0 < unat (credits_to_refill (wfc c)) \<and> unat (credits_to_refill (wfc c)) \<le> pgs_per_line (spp c) \<and>
     unat (write_credits (wfc c)) \<le> pgs_per_line (spp c)"

text \<open>Between two commands there is a credit left.\<close>

definition serving :: "nat \<Rightarrow> conv_ftl \<Rightarrow> bool" where
  "serving N c \<longleftrightarrow> (\<exists>nm. in_service N c nm) \<and> 0 < unat (write_credits (wfc c))"

subsection \<open>Writing a page\<close>

lemma core_unmapped:
  assumes core: "core c X S {} nm" and l: "\<not> mapped_ppa (maptbl c ! l)"
  shows "core c X S {l} nm"
proof -
  note m = coreD(6)[OF core, unfolded map_inv_def]
  have "map_inv (spp c) (pst (ftl_ssd c)) (maptbl c) (rmap c) S {l}"
    unfolding map_inv_def
  proof (intro conjI allI ballI impI)
    show "length (maptbl c) = tt_pgs (spp c)" "length (rmap c) = tt_pgs (spp c)" using m by blast+
    fix k assume k: "k < tt_pgs (spp c)" "k \<notin> {l}" "mapped_ppa (maptbl c ! k)"
    then show "maptbl c ! k \<in> pages (spp c)" "maptbl c ! k \<notin> S" "pst (ftl_ssd c) (maptbl c ! k) = PG_VALID"
      "unat (rmap c ! pgidx (spp c) (maptbl c ! k)) = k" using m by auto
  next
    fix p assume p: "p \<in> pages (spp c)" "p \<notin> S" "pst (ftl_ssd c) p = PG_VALID"
    then show a: "unat (rmap c ! pgidx (spp c) p) < tt_pgs (spp c)" "maptbl c ! unat (rmap c ! pgidx (spp c) p) = p"
      using m by auto
    show "unat (rmap c ! pgidx (spp c) p) \<notin> {l}" using a(2) l pages_mapped[OF p(1)] by auto
  qed
  then show ?thesis using core by (simp add: core_def)
qed

text \<open>The old page, if any, becomes invalid.\<close>

lemma drop_old_ok:
  assumes core: "core c [] {} {} nm" and wps: "wps_ok c nm" and l: "l < tt_pgs (spp c)"
  shows "\<exists>c'. (if mapped_ppa (maptbl c ! l) then do {
       c' \<leftarrow> mark_page_invalid c (maptbl c ! l); set_rmap_ent c' INVALID_LPN (maptbl c ! l) } else Some c) = Some c' \<and>
    core c' [] {} {l} nm \<and> kept c c' \<and> get_wp c' = get_wp c \<and> maptbl c' = maptbl c \<and> cur_nsecs c' = cur_nsecs c \<and>
    free_line_list (lm c') = free_line_list (lm c)"
proof (cases "mapped_ppa (maptbl c ! l)")
  case True
  show ?thesis using unmap_ok[OF core wps l True refl] True unfolding unmap_page_def by auto
next
  case False
  then show ?thesis using core_unmapped[OF core False] by auto
qed

lemma write_page_split:
  "write_page c lpn = do {
     old \<leftarrow> get_maptbl_ent c lpn;
     c \<leftarrow> (if mapped_ppa old then do { c' \<leftarrow> mark_page_invalid c old; set_rmap_ent c' INVALID_LPN old } else Some c);
     p \<leftarrow> get_new_page c USER_IO;
     c \<leftarrow> do { c \<leftarrow> place_page c lpn p;
              advance_write_pointer (upd_stats (\<lambda>s. s\<lparr>host_write_pages := host_write_pages s + 1\<rparr>) c) USER_IO };
     Some (p, c)
   }"
  by (simp add: write_page_def place_page_def Let_def)

lemma write_page_ok:
  assumes core: "core c [] {} {} nm" and wps: "wps_ok c nm" and l: "unat lpn < tt_pgs (spp c)"
    and room: "pgs_per_line (spp c) + 1 < fpages c nm"
  shows "\<exists>p c' nm'. write_page c lpn = Some (p, c') \<and> core c' [] {} {} nm' \<and> wps_ok c' nm' \<and> kept c c' \<and>
    Suc (fpages c' nm') = fpages c nm \<and> maptbl c' = (maptbl c)[unat lpn := p] \<and>
    p = wp_page (get_wp c USER_IO) \<and> p \<in> pages (spp c) \<and> cur_nsecs c' = cur_nsecs c \<and>
    get_wp c' GC_IO = get_wp c GC_IO"
proof -
  let ?p = "wp_page (get_wp c USER_IO)"
  have len: "length (maptbl c) = tt_pgs (spp c)" using coreD(6)[OF core] by (simp add: map_inv_def)
  have old: "get_maptbl_ent c lpn = Some (maptbl c ! unat lpn)" using l len by (simp add: get_maptbl_ent_def)
  obtain c1 where c1: "(if mapped_ppa (maptbl c ! unat lpn) then do {
       c' \<leftarrow> mark_page_invalid c (maptbl c ! unat lpn); set_rmap_ent c' INVALID_LPN (maptbl c ! unat lpn) }
       else Some c) = Some c1"
    "core c1 [] {} {unat lpn} nm" "kept c c1" "get_wp c1 = get_wp c" "maptbl c1 = maptbl c" "cur_nsecs c1 = cur_nsecs c"
    "free_line_list (lm c1) = free_line_list (lm c)"
    using drop_old_ok[OF core wps l] by (elim exE conjE) (rule that)
  have sp: "spp c1 = spp c" using c1(3) by (simp add: kept_def)
  have wps1: "wps_ok c1 nm" using wps c1(4) sp by (simp add: wps_ok_def)
  have fp: "fpages c1 nm = fpages c nm" using c1(7) sp by (simp add: fpages_def)
  have new: "get_new_page c1 USER_IO = Some ?p"
    using get_new_page_eq[of c1 USER_IO] wps1 c1(4) by (simp add: wps_ok_def)
  have p0: "?p \<notin> ({} :: ppa set)" by simp
  have l1: "unat lpn < tt_pgs (spp c1)" and p1: "?p = wp_page (get_wp c1 USER_IO)"
    and room1: "pgs_per_line (spp c1) + 1 < fpages c1 nm" using l sp c1(4) room fp by simp_all
  obtain c2 nm2 where c2: "do { c \<leftarrow> place_page c1 lpn ?p;
      advance_write_pointer (upd_stats (\<lambda>s. s\<lparr>host_write_pages := host_write_pages s + 1\<rparr>) c) USER_IO } = Some c2"
    "core c2 [] {} {} nm2" "wps_ok c2 nm2" "kept c1 c2" "Suc (fpages c2 nm2) = fpages c1 nm"
    "maptbl c2 = (maptbl c1)[unat lpn := ?p]" "?p \<in> line_pages (spp c1) (cls c1 USER_IO)" "cur_nsecs c2 = cur_nsecs c1"
    "\<forall>io. io \<noteq> USER_IO \<longrightarrow> get_wp c2 io = get_wp c1 io"
    using place_advance[where g = "\<lambda>s. s\<lparr>host_write_pages := host_write_pages s + 1\<rparr>", OF c1(2) wps1 l1 p1 p0 room1]
    by (elim exE conjE) (rule that)
  have "write_page c lpn = Some (?p, c2)"
    unfolding write_page_split old bind.bind_lunit c1(1) new c2(1) ..
  moreover have "kept c c2" by (rule kept_trans[OF c1(3) c2(4)])
  ultimately show ?thesis using c2 c1(4,5,6) fp sp by (auto simp: line_pages_def)
qed

subsection \<open>The collector never lacks a victim\<close>

lemma valid_pages_le:
  assumes core: "core c [] {} {} nm" and N: "mapped_lpns c \<subseteq> {..<N}"
  shows "card {p \<in> pages (spp c). pst (ftl_ssd c) p = PG_VALID} \<le> N"
proof -
  let ?A = "{p \<in> pages (spp c). pst (ftl_ssd c) p = PG_VALID}" and ?g = "\<lambda>p. unat (rmap c ! pgidx (spp c) p)"
  have m: "?g p \<in> mapped_lpns c" "maptbl c ! ?g p = p" if "p \<in> ?A" for p
    using that coreD(6)[OF core] pages_mapped[of p "spp c"] by (auto simp: map_inv_def mapped_lpns_def)
  have "inj_on ?g ?A" by (rule inj_on_inverseI[where g = "(!) (maptbl c)"]) (rule m(2))
  moreover have "?g ` ?A \<subseteq> {..<N}" using m(1) N by blast
  ultimately have "card ?A \<le> card {..<N}" by (intro card_inj_on_le[where f = ?g]) simp_all
  then show ?thesis by simp
qed

lemma full_pages_le:
  assumes core: "core c [] {} {} nm"
  shows "length (full_line_list (lm c)) * pgs_per_line (spp c) \<le> card {p \<in> pages (spp c). pst (ftl_ssd c) p = PG_VALID}"
proof -
  let ?F = "set (full_line_list (lm c))" and ?P = "spp c" and ?f = "pst (ftl_ssd c)"
  note cr = coreD[OF core]
  have lt: "i < tt_lines ?P" if "i \<in> ?F" for i using part_inv_facts(2)[OF cr(3) that] by blast
  have v: "?f p = PG_VALID" if "i \<in> ?F" "p \<in> line_pages ?P i" for i p
  proof (rule ccontr)
    assume "?f p \<noteq> PG_VALID"
    then have "nvalid ?f (line_pages ?P i) < card (line_pages ?P i)" by (rule nvalid_lt[OF that(2)])
    moreover have "nvalid ?f (line_pages ?P i) = pgs_per_line ?P"
    proof -
      have "ln_vpc (lines (lm c) ! i) = pgs_per_line ?P" using cr(5) that(1) by (simp add: use_inv_def)
      then show ?thesis using cr(4) lt[OF that(1)] by (simp add: cnt_inv_def)
    qed
    ultimately show False using card_line_pages[OF cr(1) lt[OF that(1)]] by simp
  qed
  have "card (\<Union>i \<in> ?F. line_pages ?P i) = (\<Sum>i \<in> ?F. card (line_pages ?P i))"
    by (rule card_UN_disjoint) (auto simp: finite_ppa line_pages_def)
  also have "\<dots> = (\<Sum>i \<in> ?F. pgs_per_line ?P)" by (rule sum.cong) (use card_line_pages[OF cr(1)] lt in auto)
  also have "\<dots> = length (full_line_list (lm c)) * pgs_per_line ?P"
    using distinct_card[OF part_inv_facts(9)[OF cr(3)]] by simp
  finally have "card (\<Union>i \<in> ?F. line_pages ?P i) = length (full_line_list (lm c)) * pgs_per_line ?P" .
  moreover have "card (\<Union>i \<in> ?F. line_pages ?P i) \<le> card {p \<in> pages ?P. ?f p = PG_VALID}"
    by (rule card_mono[OF finite_ppa]) (use v in \<open>auto simp: line_pages_def\<close>)
  ultimately show ?thesis by simp
qed

lemma victim_exists:
  assumes core: "core c [] {} {} nm" and N: "mapped_lpns c \<subseteq> {..<N}" "N < (tt_lines (spp c) - 4) * pgs_per_line (spp c)"
    and few: "length (free_line_list (lm c)) \<le> 2"
  shows "victims (lm c) \<noteq> {#}"
proof
  assume "victims (lm c) = {#}"
  then have "tt_lines (spp c) - 4 \<le> length (full_line_list (lm c))"
    using part_inv_facts(10)[OF coreD(3)[OF core]] few by simp
  then have "(tt_lines (spp c) - 4) * pgs_per_line (spp c) \<le> length (full_line_list (lm c)) * pgs_per_line (spp c)"
    by (rule mult_le_mono1)
  also have "\<dots> \<le> N" using full_pages_le[OF core] valid_pages_le[OF core N(1)] by (rule order_trans)
  finally show False using N(2) by simp
qed

subsection \<open>Credits\<close>

lemma in_serviceD:
  assumes "in_service N c nm"
  shows "core c [] {} {} nm" "wps_ok c nm" "mapped_lpns c \<subseteq> {..<N}" "N < (tt_lines (spp c) - 4) * pgs_per_line (spp c)"
    "gc_thres_lines_high (cp c) = 2" "2 * pgs_per_line (spp c) + unat (write_credits (wfc c)) \<le> fpages c nm"
    "0 < unat (credits_to_refill (wfc c))" "unat (credits_to_refill (wfc c)) \<le> pgs_per_line (spp c)"
    "unat (write_credits (wfc c)) \<le> pgs_per_line (spp c)" "N < tt_pgs (spp c)"
proof -
  show "core c [] {} {} nm" "wps_ok c nm" "mapped_lpns c \<subseteq> {..<N}" and n: "N < (tt_lines (spp c) - 4) * pgs_per_line (spp c)"
    and "gc_thres_lines_high (cp c) = 2" "2 * pgs_per_line (spp c) + unat (write_credits (wfc c)) \<le> fpages c nm"
    "0 < unat (credits_to_refill (wfc c))" "unat (credits_to_refill (wfc c)) \<le> pgs_per_line (spp c)"
    "unat (write_credits (wfc c)) \<le> pgs_per_line (spp c)"
    using assms by (simp_all add: in_service_def)
  have "(tt_lines (spp c) - 4) * pgs_per_line (spp c) \<le> tt_pgs (spp c)"
    using params_okD(9)[OF coreD(1)[OF \<open>core c [] {} {} nm\<close>]] by (simp add: mult_le_mono1)
  with n show "N < tt_pgs (spp c)" by simp
qed

lemma should_gc_high_iff:
  assumes "in_service N c nm"
  shows "should_gc_high c \<longleftrightarrow> length (free_line_list (lm c)) \<le> 2"
proof -
  note i = in_serviceD[OF assms]
  note cr = coreD[OF i(1)]
  have "length (free_line_list (lm c)) < 2 ^ 32"
    using part_inv_facts(10)[OF cr(3)] params_okD(12)[OF cr(1)] by simp
  then have "unat (free_line_cnt (lm c)) = length (free_line_list (lm c))"
    using cr(3) by (simp add: part_inv_def unat_of_nat_less)
  then show ?thesis using i(5) by (simp add: should_gc_high_def word_le_nat_alt)
qed

text \<open>The policy for which a collection always succeeds.\<close>

definition greedy_build :: "gc_build \<Rightarrow> bool" where
  "greedy_build bc \<longleftrightarrow> CONV_GC_POLICY bc = GC_POLICY_GREEDY \<and> \<not> CONV_ISO_LOG_SAMPLES bc"

definition same_service :: "conv_ftl \<Rightarrow> conv_ftl \<Rightarrow> bool" where
  "same_service c c' \<longleftrightarrow> spp c' = spp c \<and> cp c' = cp c \<and> mapped_lpns c' = mapped_lpns c \<and>
     write_buffer (ftl_ssd c') = write_buffer (ftl_ssd c) \<and> cur_nsecs c' = cur_nsecs c"

lemma foreground_gc_ok:
  assumes i: "in_service N c nm" and bc: "greedy_build bc"
  shows "\<exists>c' nm'. foreground_gc bc c = Some c' \<and> core c' [] {} {} nm' \<and> wps_ok c' nm' \<and> same_service c c' \<and>
    write_credits (wfc c') = write_credits (wfc c) \<and>
    0 < unat (credits_to_refill (wfc c')) \<and> unat (credits_to_refill (wfc c')) \<le> pgs_per_line (spp c) \<and>
    2 * pgs_per_line (spp c) + unat (credits_to_refill (wfc c')) \<le> fpages c' nm'"
proof -
  note d = in_serviceD[OF i]
  note cr = coreD[OF d(1)]
  have lt: "nm io < pgs_per_line (spp c)" for io by (rule core_nm_less[OF d(1,2)])
  show ?thesis
  proof (cases "should_gc_high c")
    case False
    then have "3 \<le> length (free_line_list (lm c))" using should_gc_high_iff[OF i] by simp
    then have "3 * pgs_per_line (spp c) \<le> length (free_line_list (lm c)) * pgs_per_line (spp c)" by (rule mult_le_mono1)
    then have "2 * pgs_per_line (spp c) + unat (credits_to_refill (wfc c)) \<le> fpages c nm"
      using d(8) unfolding fpages_def by linarith
    then show ?thesis using False d by (auto simp: foreground_gc_def same_service_def)
  next
    case True
    then have vic: "victims (lm c) \<noteq> {#}"
      using victim_exists[OF d(1,3,4)] should_gc_high_iff[OF i] by simp
    have room: "2 * pgs_per_line (spp c) \<le> fpages c nm" using d(6) by simp
    obtain v c' nm' where gc: "do_gc bc c True = Some (0, c')" "core c' [] {} {} nm'" "wps_ok c' nm'"
      "collected c c' (ln_ipc (lines (lm c) ! v))" "fpages c' nm' = fpages c nm + ln_ipc (lines (lm c) ! v)"
      using do_gc_greedy[OF d(1,2) vic room] bc unfolding greedy_build_def by blast
    note g = gc(4)[unfolded collected_def]
    have "unat (of_nat (ln_ipc (lines (lm c) ! v)) :: u32) = ln_ipc (lines (lm c) ! v)"
      using g params_okD(11)[OF cr(1)] by (intro unat_of_nat_less) simp
    moreover have "mapped_lpns c' = mapped_lpns c" using g by (auto simp: mapped_lpns_def)
    ultimately show ?thesis
      using True gc g room by (intro exI[of _ c'] exI[of _ nm']) (simp add: foreground_gc_def same_service_def)
  qed
qed

lemma credit_upd [simp]:
  "wps_ok (c\<lparr>wfc := w\<rparr>) nm = wps_ok c nm" "mapped_lpns (c\<lparr>wfc := w\<rparr>) = mapped_lpns c" "fpages (c\<lparr>wfc := w\<rparr>) nm = fpages c nm"
  "wps_ok (c\<lparr>cur_nsecs := t\<rparr>) nm = wps_ok c nm" "mapped_lpns (c\<lparr>cur_nsecs := t\<rparr>) = mapped_lpns c"
  "fpages (c\<lparr>cur_nsecs := t\<rparr>) nm = fpages c nm"
  by (auto simp: wps_ok_def get_wp_def mapped_lpns_def fpages_def split: io_type.splits)

lemma refill_ok:
  assumes i: "in_service N c nm" and bc: "greedy_build bc"
  shows "\<exists>c'. check_and_refill_write_credit bc c = Some c' \<and> serving N c' \<and> same_service c c'"
proof (cases "write_credits (wfc c) = 0")
  case False
  then have "0 < unat (write_credits (wfc c))" by (simp add: unat_gt_0)
  then show ?thesis using False i
    by (auto simp: check_and_refill_write_credit_def serving_def same_service_def word_le_0_iff)
next
  case True
  note d = in_serviceD[OF i]
  obtain c' nm' where c': "foreground_gc bc c = Some c'" "core c' [] {} {} nm'" "wps_ok c' nm'" "same_service c c'"
    "write_credits (wfc c') = write_credits (wfc c)" "0 < unat (credits_to_refill (wfc c'))"
    "unat (credits_to_refill (wfc c')) \<le> pgs_per_line (spp c)"
    "2 * pgs_per_line (spp c) + unat (credits_to_refill (wfc c')) \<le> fpages c' nm'"
    using foreground_gc_ok[OF i bc] by (elim exE conjE) (rule that)
  let ?c = "c'\<lparr>wfc := (wfc c')\<lparr>write_credits := credits_to_refill (wfc c')\<rparr>\<rparr>"
  have "in_service N ?c nm'"
    using c' d(3,4,5) by (simp add: in_service_def same_service_def)
  then have "serving N ?c" using c'(6) by (auto simp: serving_def)
  moreover have "check_and_refill_write_credit bc c = Some ?c"
    using True c'(1,5) by (simp add: check_and_refill_write_credit_def)
  ultimately show ?thesis using c'(4) by (simp add: same_service_def)
qed

end
