(* ===== verification/Conv_Commands.thy ===== *)
theory Conv_Commands
  imports Conv_Service
begin

text \<open>
  The host's commands in service: each returns, keeps the FTL in service and changes the set of
  mapped logical pages the way the command says.
\<close>

subsection \<open>Ranges\<close>

lemma set_lpn_range: "set (lpn_range a b) = {x. a \<le> x \<and> x \<le> b}"
proof -
  have "x \<in> of_nat ` {unat a..unat b}" if "a \<le> x" "x \<le> b" for x :: u64
    using that by (intro image_eqI[of _ _ "unat x"]) (simp_all add: word_le_nat_alt)
  moreover have "a \<le> of_nat k \<and> of_nat k \<le> b" if "unat a \<le> k" "k \<le> unat b" for k
  proof -
    have "unat b < 2 ^ LENGTH(64)" by (rule unsigned_less)
    then have "k < 2 ^ 64" using that(2) by simp
    then have "unat (of_nat k :: u64) = k" by (simp add: unat_of_nat_less)
    then show ?thesis using that by (simp add: word_le_nat_alt)
  qed
  ultimately have "of_nat ` {unat a..unat b} = {x. a \<le> x \<and> x \<le> b}" by auto
  moreover have "set (lpn_range a b) = of_nat ` {unat a..unat b}"
    by (auto simp: lpn_range_def)
  ultimately show ?thesis by simp
qed

lemma opt_fold_set:
  assumes "P {} s" and "\<And>A x t. x \<in> set xs \<Longrightarrow> P A t \<Longrightarrow> \<exists>t'. f t x = Some t' \<and> P (insert x A) t'"
  shows "\<exists>s'. opt_fold f s xs = Some s' \<and> P (set xs) s'"
proof -
  have "\<exists>s'. opt_fold f s xs = Some s' \<and> P (A \<union> set xs) s'" if "P A s" for A
    using that assms(2)
  proof (induction xs arbitrary: s A)
    case (Cons x xs)
    then obtain t where t: "f s x = Some t" "P (insert x A) t" by (meson list.set_intros(1))
    with Cons.IH[of "insert x A" t] Cons.prems(2) show ?case by auto
  qed simp
  from this[of "{}"] assms(1) show ?thesis by simp
qed

lemma max64_ge [simp]: "a \<le> max64 a b" "b \<le> max64 a b"
  by (auto simp: max64_def)

subsection \<open>NAND commands of the host\<close>

lemma in_service_nand:
  assumes i: "in_service N c nm" and s: "nand_same (ftl_ssd c) s'" "ssd_inv s'"
  shows "in_service N (c\<lparr>ftl_ssd := s'\<rparr>) nm" "same_service c (c\<lparr>ftl_ssd := s'\<rparr>)"
proof -
  note d = in_serviceD[OF i]
  have "core (c\<lparr>ftl_ssd := s'\<rparr>) [] {} {} nm" by (rule core_nand_same[OF d(1) s])
  moreover have "get_wp (c\<lparr>ftl_ssd := s'\<rparr>) = get_wp c" by (simp add: get_wp_def fun_eq_iff split: io_type.split)
  ultimately show "in_service N (c\<lparr>ftl_ssd := s'\<rparr>) nm" "same_service c (c\<lparr>ftl_ssd := s'\<rparr>)"
    using i nand_same_view[OF s(1)] by (simp_all add: in_service_def wps_ok_def fpages_def mapped_lpns_def same_service_def)
qed

lemma host_nand:
  assumes i: "in_service N c nm" and p: "nc_ppa n \<in> pages (spp c)" and rd: "nc_cmd n = NAND_READ \<Longrightarrow> xfer_size n \<noteq> 0"
  shows "\<exists>t c'. advance_nand c n = Some (t, c') \<and> in_service N c' nm \<and> same_service c c' \<and> wfc c' = wfc c \<and>
    maptbl c' = maptbl c"
proof -
  note cr = coreD[OF in_serviceD(1)[OF i]]
  have "lun_in_range (spp c) (nc_ppa n)" using p by (simp add: lun_in_range_def pages_def pg_in_range_def blk_in_range_def)
  moreover have "time_params (spp c)" using cr(1) by (simp add: params_ok_def)
  ultimately obtain t s' where s: "ssd_advance_nand (ftl_ssd c) n = Some (t, s')" "ssd_inv s'" "nand_same (ftl_ssd c) s'"
    using ssd_advance_nand_ok[OF cr(2), of n] rd by blast
  then show ?thesis using in_service_nand[OF i s(3,2)] by (auto simp: advance_nand_def)
qed

lemma wbuf_view [simp]:
  "pst (s\<lparr>write_buffer := w\<rparr>) = pst s" "bcnt (s\<lparr>write_buffer := w\<rparr>) = bcnt s" "ssd_inv (s\<lparr>write_buffer := w\<rparr>) = ssd_inv s"
  by (simp_all add: pst_def bcnt_def get_pg_def get_blk_def get_pl_def get_lun_def get_ch_def ssd_inv_def fun_eq_iff)

lemma in_service_wbuf:
  "in_service N (c\<lparr>ftl_ssd := (ftl_ssd c)\<lparr>write_buffer := w\<rparr>\<rparr>) nm = in_service N c nm"
  by (auto simp: in_service_def core_def wps_ok_def get_wp_def mapped_lpns_def fpages_def split: io_type.splits)

lemma same_service_refl [simp]: "same_service c c"
  by (simp add: same_service_def)

lemma same_service_trans: "same_service c c' \<Longrightarrow> same_service c' c'' \<Longrightarrow> same_service c c''"
  by (simp add: same_service_def)

subsection \<open>Write\<close>

lemma word_minus_one: "0 < unat (x :: u32) \<Longrightarrow> unat (x - 1) = unat x - 1"
  by (simp add: unat_minus_one unat_gt_0)

text \<open>A page written with a credit in hand, and the credit spent.\<close>

lemma write_page_serving:
  assumes i: "serving N c" and l: "unat lpn < N"
  shows "\<exists>p c'. write_page c lpn = Some (p, c') \<and> p \<in> pages (spp c) \<and> wfc c' = wfc c \<and> spp c' = spp c \<and> cp c' = cp c \<and>
    write_buffer (ftl_ssd c') = write_buffer (ftl_ssd c) \<and> maptbl c' ! unat lpn = p \<and>
    mapped_lpns c' = insert (unat lpn) (mapped_lpns c) \<and>
    (\<exists>nm. in_service N (consume_write_credit c') nm)"
proof -
  obtain nm where s: "in_service N c nm" and cred: "0 < unat (write_credits (wfc c))" using i by (auto simp: serving_def)
  note d = in_serviceD[OF s]
  note P = params_okD[OF coreD(1)[OF d(1)]]
  have lt: "unat lpn < tt_pgs (spp c)" using l d(10) by simp
  have room: "pgs_per_line (spp c) + 1 < fpages c nm" using d(6) cred P(10) by simp
  obtain p c' nm' where c': "write_page c lpn = Some (p, c')" "core c' [] {} {} nm'" "wps_ok c' nm'" "kept c c'"
    "Suc (fpages c' nm') = fpages c nm" "maptbl c' = (maptbl c)[unat lpn := p]" "p \<in> pages (spp c)"
    using write_page_ok[OF d(1,2) lt room] by (elim exE conjE) (rule that)
  have k: "spp c' = spp c" "cp c' = cp c" "wfc c' = wfc c" "write_buffer (ftl_ssd c') = write_buffer (ftl_ssd c)"
    using c'(4) by (simp_all add: kept_def)
  have "length (maptbl c) = tt_pgs (spp c)" using coreD(6)[OF d(1)] by (simp add: map_inv_def)
  then have m: "maptbl c' ! unat lpn = p" "mapped_lpns c' = insert (unat lpn) (mapped_lpns c)"
    using c'(6) lt pages_mapped[OF c'(7)] k(1) by (auto simp: mapped_lpns_def nth_list_update split: if_splits)
  have "2 * pgs_per_line (spp c) + (unat (write_credits (wfc c)) - 1) \<le> fpages c' nm'"
    "unat (write_credits (wfc c)) - 1 \<le> pgs_per_line (spp c)"
    using d(6,9) c'(5) cred by linarith+
  then have "in_service N (consume_write_credit c') nm'"
    unfolding in_service_def consume_write_credit_def
    using c'(2,3,5) d(3-9) k m l cred word_minus_one[OF cred] by simp
  then show ?thesis using c'(1,7) k m by blast
qed

lemma write_lpn_ok:
  assumes i: "serving N c" and l: "unat lpn < N" and bc: "greedy_build bc"
  shows "\<exists>c' latest' ops'. write_lpn bc sqid st (c, latest, ops) lpn = Some (c', latest', ops') \<and> serving N c' \<and>
    spp c' = spp c \<and> cp c' = cp c \<and> write_buffer (ftl_ssd c') = write_buffer (ftl_ssd c) \<and>
    mapped_lpns c' = insert (unat lpn) (mapped_lpns c) \<and> latest \<le> latest'"
proof -
  let ?c0 = "c\<lparr>cur_nsecs := latest\<rparr>"
  have i0: "serving N ?c0" using i by (simp add: serving_def in_service_def)
  obtain p c1 nm where c1: "write_page ?c0 lpn = Some (p, c1)" "p \<in> pages (spp c)" "wfc c1 = wfc c" "spp c1 = spp c"
    "cp c1 = cp c" "write_buffer (ftl_ssd c1) = write_buffer (ftl_ssd c)"
    "mapped_lpns c1 = insert (unat lpn) (mapped_lpns c)" "in_service N (consume_write_credit c1) nm"
    using write_page_serving[OF i0 l] by (elim exE conjE) (rule that; simp)
  note P = params_okD[OF coreD(1)[OF in_serviceD(1)[OF c1(8)]]]
  have sp: "spp (consume_write_credit c1) = spp c" using c1(4) by (simp add: consume_write_credit_def)
  have "pgs_per_oneshotpg (spp c) \<noteq> 0" using P(3) sp by simp
  then obtain b where b: "last_pg_in_wordline c1 p = Some b" using c1(4) by (simp add: last_pg_in_wordline_def ckmod_def)
  let ?bytes = "pgs_per_oneshotpg (spp c) * pgsz (spp c)"
  let ?n = "\<lparr>nc_type = USER_IO, nc_cmd = NAND_WRITE, xfer_size = of_nat ?bytes, stime = st,
                         interleave_pci_dma = False, nc_ppa = p\<rparr>"
  let ?step = "if b then do {
          (done, c) \<leftarrow> advance_nand c1 ?n;
          Some (c, max64 done latest, ops @ [\<lparr>op_sqid = sqid, op_nsecs_target = done, op_buffs_to_release = of_nat ?bytes\<rparr>])
        } else Some (c1, latest, ops)"
  have adv: "advance_nand (consume_write_credit c1) n = Some (t, c') \<longleftrightarrow>
      (\<exists>c2. advance_nand c1 n = Some (t, c2) \<and> c' = consume_write_credit c2)" for n t c'
    by (auto simp: advance_nand_def consume_write_credit_def bind_Some_iff)
  obtain c2 latest' ops' where c2: "?step = Some (c2, latest', ops')" "latest \<le> latest'" "in_service N (consume_write_credit c2) nm"
    "same_service (consume_write_credit c1) (consume_write_credit c2)"
  proof (cases b)
    case True
    obtain t c2 where "advance_nand (consume_write_credit c1) ?n = Some (t, c2)" "in_service N c2 nm"
      "same_service (consume_write_credit c1) c2"
      using host_nand[OF c1(8), of ?n] c1(2) sp by auto
    then obtain c3 where "advance_nand c1 ?n = Some (t, c3)" "c2 = consume_write_credit c3" unfolding adv by blast
    then show ?thesis
      using that[of c3 "max64 t latest"] True \<open>in_service N c2 nm\<close> \<open>same_service (consume_write_credit c1) c2\<close>
      by simp
  next
    case False
    then show ?thesis using that c1(8) by simp
  qed
  obtain c3 where c3: "check_and_refill_write_credit bc (consume_write_credit c2) = Some c3" "serving N c3"
    "same_service (consume_write_credit c2) c3"
    using refill_ok[OF c2(3) bc] by blast
  have run: "write_lpn bc sqid st (c, latest, ops) lpn = Some (c3, latest', ops')"
    using c1(1,4) b c2(1) c3(1) by (cases b) (auto simp: write_lpn_def Let_def bind_Some_iff)
  have "same_service (consume_write_credit c1) c3" by (rule same_service_trans[OF c2(4) c3(3)])
  then show ?thesis
    using run c3(2) c2(2) c1 by (simp add: same_service_def consume_write_credit_def)
qed

definition cmd_lpns :: "conv_ftl \<Rightarrow> nvme_rw_cmd \<Rightarrow> nat set" where
  "cmd_lpns c cmd = unat ` {lpn. start_lpn_of c (slba cmd) \<le> lpn \<and> lpn \<le> end_lpn_of c (slba cmd) (cmd_nr_lba cmd)}"

lemma write_bytes: "unat (LBA_TO_BYTE (cmd_nr_lba cmd)) = (unat (rw_length cmd) + 1) * 512"
proof -
  have "unat (rw_length cmd) < 2 ^ LENGTH(16)" by (rule unsigned_less)
  then have l: "unat (rw_length cmd) < 65536" by simp
  have "cmd_nr_lba cmd = of_nat (unat (rw_length cmd) + 1)" by (simp add: cmd_nr_lba_def)
  then have "LBA_TO_BYTE (cmd_nr_lba cmd) = of_nat ((unat (rw_length cmd) + 1) * 512)"
    by (simp add: LBA_TO_BYTE_def push_bit_eq_mult)
  then show ?thesis using l by (simp add: unat_of_nat_less del: of_nat_mult of_nat_add)
qed

lemma buffer_allocate_cmd:
  assumes "LBA_TO_BYTE (cmd_nr_lba cmd) \<le> buf_size buf"
  shows "\<exists>a. buffer_allocate buf (LBA_TO_BYTE (cmd_nr_lba cmd)) =
      Some (a, if remaining buf < LBA_TO_BYTE (cmd_nr_lba cmd) then buf
               else buf\<lparr>remaining := remaining buf - LBA_TO_BYTE (cmd_nr_lba cmd)\<rparr>) \<and>
    (ucast a < LBA_TO_BYTE (cmd_nr_lba cmd) \<longleftrightarrow> remaining buf < LBA_TO_BYTE (cmd_nr_lba cmd))"
proof -
  let ?b = "LBA_TO_BYTE (cmd_nr_lba cmd)"
  have "unat (rw_length cmd) < 2 ^ LENGTH(16)" by (rule unsigned_less)
  then have b: "unat ?b < 2 ^ 32" "0 < unat ?b" by (simp_all add: write_bytes)
  have "unat (ucast (ucast ?b :: u32) :: u64) = unat ?b"
    using b(1) by (simp add: unsigned_ucast_eq unsigned_take_bit_eq take_bit_nat_eq_self)
  then have "ucast (ucast ?b :: u32) = ?b" by (simp add: word_unat_eq_iff)
  moreover have "0 < ?b" using b(2) by (simp add: word_less_nat_alt)
  ultimately show ?thesis using assms by (auto simp: buffer_allocate_def Let_def)
qed

text \<open>
  A write is refused for lack of buffer space, or it maps exactly the pages it covers; the space
  taken is what the write transfers.
\<close>

lemma conv_write_ok:
  assumes i: "serving N c" and bc: "greedy_build bc"
    and rng: "unat (end_lpn_of c (slba (req_cmd req)) (cmd_nr_lba (req_cmd req))) < N"
    and sz: "LBA_TO_BYTE (cmd_nr_lba (req_cmd req)) \<le> buf_size (write_buffer (ftl_ssd c))"
  shows "\<exists>ok ret' ops c'. conv_write bc c req ret = Some (ok, ret', ops, c') \<and> serving N c' \<and>
    ok = (LBA_TO_BYTE (cmd_nr_lba (req_cmd req)) \<le> remaining (write_buffer (ftl_ssd c))) \<and>
    (if ok then mapped_lpns c' = mapped_lpns c \<union> cmd_lpns c (req_cmd req) \<and> ret_status ret' = NVME_SC_SUCCESS \<and>
       write_buffer (ftl_ssd c') = (write_buffer (ftl_ssd c))
         \<lparr>remaining := remaining (write_buffer (ftl_ssd c)) - LBA_TO_BYTE (cmd_nr_lba (req_cmd req))\<rparr>
     else ret' = ret \<and> ops = [] \<and> mapped_lpns c' = mapped_lpns c \<and> write_buffer (ftl_ssd c') = write_buffer (ftl_ssd c))"
proof -
  let ?cmd = "req_cmd req" and ?b = "LBA_TO_BYTE (cmd_nr_lba (req_cmd req))" and ?wb = "write_buffer (ftl_ssd c)"
  obtain nm where s: "in_service N c nm" and cred: "0 < unat (write_credits (wfc c))" using i by (auto simp: serving_def)
  note d = in_serviceD[OF s]
  have end_ok: "\<not> tt_pgs (spp c) \<le> unat (end_lpn_of c (slba ?cmd) (cmd_nr_lba ?cmd))" using rng d(10) by simp
  obtain a where a: "buffer_allocate ?wb ?b = Some (a, if remaining ?wb < ?b then ?wb else ?wb\<lparr>remaining := remaining ?wb - ?b\<rparr>)"
    "ucast a < ?b \<longleftrightarrow> remaining ?wb < ?b"
    using buffer_allocate_cmd[OF sz] by blast
  show ?thesis
  proof (cases "remaining ?wb < ?b")
    case True
    then have "conv_write bc c req ret = Some (False, ret, [], c)"
      using a end_ok by (simp add: conv_write_def Let_def)
    then show ?thesis using True i by (simp add: not_less)
  next
    case False
    let ?wb' = "?wb\<lparr>remaining := remaining ?wb - ?b\<rparr>"
    let ?s1 = "(ftl_ssd c)\<lparr>write_buffer := ?wb'\<rparr>"
    let ?c1 = "c\<lparr>ftl_ssd := ?s1\<rparr>"
    have s1: "in_service N ?c1 nm" using s by (simp add: in_service_wbuf)
    obtain t s2 where s2: "ssd_advance_write_buffer ?s1 (nsecs_start req) ?b = Some (t, s2)" "ssd_inv s2" "nand_same ?s1 s2"
      using ssd_advance_write_buffer_ok[of ?s1 "nsecs_start req" ?b] coreD(2)[OF d(1)] by auto
    let ?c2 = "c\<lparr>ftl_ssd := s2\<rparr>"
    have "in_service N ?c2 nm" "same_service ?c1 ?c2" using in_service_nand[OF s1, of s2] s2 by simp_all
    then have c2: "serving N ?c2" "spp ?c2 = spp c" "write_buffer (ftl_ssd ?c2) = ?wb'" "mapped_lpns ?c2 = mapped_lpns c"
      using cred by (auto simp: serving_def same_service_def mapped_lpns_def)
    let ?xs = "lpn_range (start_lpn_of c (slba ?cmd)) (end_lpn_of c (slba ?cmd) (cmd_nr_lba ?cmd))"
    let ?I = "\<lambda>(A :: u64 set) (c', latest :: u64, ops :: internal_op list). serving N c' \<and> write_buffer (ftl_ssd c') = ?wb' \<and>
        mapped_lpns c' = mapped_lpns c \<union> unat ` A"
    have "\<exists>r. opt_fold (write_lpn bc (sq_id req) t) (?c2, t, []) ?xs = Some r \<and> ?I (set ?xs) r"
    proof (rule opt_fold_set[where P = ?I])
      show "?I {} (?c2, t, [])" using c2 by simp
    next
      fix A r x assume x: "x \<in> set ?xs" and r: "?I A r"
      obtain c' l ops where rr: "r = (c', l, ops)" by (cases r)
      have "unat x < N" using x rng unfolding set_lpn_range by (simp add: word_le_nat_alt)
      then show "\<exists>r'. write_lpn bc (sq_id req) t r x = Some r' \<and> ?I (insert x A) r'"
        using write_lpn_ok[of N c' x bc "sq_id req" t l ops] r bc unfolding rr by auto
    qed
    then obtain c3 l ops where c3: "opt_fold (write_lpn bc (sq_id req) t) (?c2, t, []) ?xs = Some (c3, l, ops)"
      "serving N c3" "write_buffer (ftl_ssd c3) = ?wb'" "mapped_lpns c3 = mapped_lpns c \<union> cmd_lpns c ?cmd"
      unfolding cmd_lpns_def set_lpn_range by auto
    have a': "buffer_allocate ?wb ?b = Some (a, ?wb')" "\<not> ucast a < ?b" using a False by simp_all
    have "\<exists>t'. conv_write bc c req ret = Some (True, ret\<lparr>nsecs_target := t', ret_status := NVME_SC_SUCCESS\<rparr>, ops, c3)"
      using a' end_ok s2(1) c3(1) by (intro exI) (simp add: conv_write_def Let_def)
    then show ?thesis using c3 False by (auto simp: not_less)
  qed
qed

subsection \<open>Read\<close>

text \<open>What the loop of a read keeps: the state it started in, and a page to issue when data is pending.\<close>

definition reading :: "nat \<Rightarrow> conv_ftl \<Rightarrow> u64 \<Rightarrow> conv_ftl \<times> u32 \<times> ppa \<times> u64 \<Rightarrow> bool" where
  "reading N c0 t0 = (\<lambda>(c, sz, prev, latest). serving N c \<and> same_service c0 c \<and> maptbl c = maptbl c0 \<and>
     (mapped_ppa prev \<longrightarrow> prev \<in> pages (spp c0)) \<and> (sz \<noteq> 0 \<longrightarrow> prev \<in> pages (spp c0)) \<and> t0 \<le> latest)"

lemma serving_mapped:
  assumes "serving N c" "l < tt_pgs (spp c)" "mapped_ppa (maptbl c ! l)"
  shows "maptbl c ! l \<in> pages (spp c)"
  using assms coreD(6)[OF in_serviceD(1)] by (auto simp: serving_def map_inv_def)

lemma issue_read_ok:
  assumes "reading N c0 t0 (c, sz, prev, latest)"
  shows "\<exists>c' latest'. issue_read c st sz prev latest = Some (c', latest') \<and> serving N c' \<and> same_service c0 c' \<and>
    maptbl c' = maptbl c0 \<and> t0 \<le> latest'"
proof (cases "sz = 0")
  case True
  then show ?thesis using assms by (auto simp: issue_read_def reading_def)
next
  case False
  have r: "serving N c" "same_service c0 c" "maptbl c = maptbl c0" "prev \<in> pages (spp c0)" "t0 \<le> latest"
    using assms False by (auto simp: reading_def)
  obtain nm where i: "in_service N c nm" and cred: "0 < unat (write_credits (wfc c))" using r(1) by (auto simp: serving_def)
  let ?n = "\<lparr>nc_type = USER_IO, nc_cmd = NAND_READ, xfer_size = ucast sz, stime = st, interleave_pci_dma = True, nc_ppa = prev\<rparr>"
  have "prev \<in> pages (spp c)" using r(2,4) by (simp add: same_service_def)
  moreover have "unat (ucast sz :: u64) = unat sz"
  proof -
    have "unat sz < 2 ^ LENGTH(32)" by (rule unsigned_less)
    then show ?thesis by (simp add: unsigned_ucast_eq take_bit_nat_eq_self)
  qed
  then have "(ucast sz :: u64) \<noteq> 0" using False by (metis unat_eq_zero)
  ultimately obtain t c' where c': "advance_nand c ?n = Some (t, c')" "in_service N c' nm" "same_service c c'"
    "wfc c' = wfc c" "maptbl c' = maptbl c"
    using host_nand[OF i, of ?n] by auto
  have "same_service c0 c'" by (rule same_service_trans[OF r(2) c'(3)])
  moreover have "t0 \<le> max64 t latest" using r(5) max64_ge(2) by (rule order_trans)
  ultimately show ?thesis
    using False c' cred r(3) by (auto simp: issue_read_def serving_def word_gt_0)
qed

lemma read_lpn_ok:
  assumes r: "reading N c0 t0 s" and c0: "serving N c0" and l: "unat lpn < tt_pgs (spp c0)"
  shows "\<exists>s'. read_lpn st s lpn = Some s' \<and> reading N c0 t0 s'"
proof -
  obtain c sz prev latest where s: "s = (c, sz, prev, latest)" by (cases s)
  note r' = r[unfolded s]
  have c: "serving N c" "same_service c0 c" "maptbl c = maptbl c0" "mapped_ppa prev \<longrightarrow> prev \<in> pages (spp c0)"
    "spp c = spp c0"
    using r' by (auto simp: reading_def same_service_def)
  obtain nm where i: "in_service N c nm" using c(1) by (auto simp: serving_def)
  note cr = coreD[OF in_serviceD(1)[OF i]]
  let ?cur = "maptbl c ! unat lpn"
  have cur: "get_maptbl_ent c lpn = Some ?cur" using cr(6) l c(5) by (simp add: get_maptbl_ent_def map_inv_def)
  show ?thesis
  proof (cases "mapped_ppa ?cur \<and> valid_ppa c ?cur")
    case False
    then show ?thesis using cur r by (auto simp: read_lpn_def s)
  next
    case True
    then have cp: "?cur \<in> pages (spp c0)" using serving_mapped[OF c(1), of "unat lpn"] l c(5) by simp
    have "pgs_per_flashpg (spp c) \<noteq> 0" using params_okD(5)[OF cr(1)] by simp
    then obtain same where same: "(if mapped_ppa prev then is_same_flash_page c ?cur prev else Some False) = Some same"
      "same \<longrightarrow> mapped_ppa prev"
      by (cases "mapped_ppa prev") (auto simp: is_same_flash_page_def ckdiv_def)
    show ?thesis
    proof (cases same)
      case True
      have "reading N c0 t0 (c, sz + of_nat (pgsz (spp c)), prev, latest)"
        using r' True same(2) c(4) by (auto simp: reading_def)
      then show ?thesis
        using cur \<open>mapped_ppa ?cur \<and> valid_ppa c ?cur\<close> same(1) True by (simp add: read_lpn_def s)
    next
      case False
      obtain c' latest' where i: "issue_read c st sz prev latest = Some (c', latest')" "serving N c'" "same_service c0 c'"
        "maptbl c' = maptbl c0" "t0 \<le> latest'"
        using issue_read_ok[OF r'] by blast
      have "reading N c0 t0 (c', of_nat (pgsz (spp c')), ?cur, latest')" using i cp by (simp add: reading_def)
      then show ?thesis
        using cur \<open>mapped_ppa ?cur \<and> valid_ppa c ?cur\<close> same(1) False i(1) by (auto simp: read_lpn_def s)
    qed
  qed
qed

lemma conv_read_ok:
  assumes i: "serving N c"
  shows "\<exists>ok ret' c'. conv_read c req ret = Some (ok, ret', c') \<and> serving N c' \<and> same_service c c' \<and>
    maptbl c' = maptbl c \<and> ok = (unat (end_lpn_of c (slba (req_cmd req)) (cmd_nr_lba (req_cmd req))) < tt_pgs (spp c)) \<and>
    (if ok then ret_status ret' = NVME_SC_SUCCESS \<and> nsecs_start req \<le> nsecs_target ret' else ret' = ret)"
proof -
  let ?cmd = "req_cmd req"
  let ?s = "start_lpn_of c (slba ?cmd)" and ?e = "end_lpn_of c (slba ?cmd) (cmd_nr_lba ?cmd)"
  show ?thesis
  proof (cases "unat ?e < tt_pgs (spp c)")
    case False
    then show ?thesis using i by (auto simp: conv_read_def Let_def)
  next
    case True
    let ?st = "nsecs_start req + of_nat (if LBA_TO_BYTE (cmd_nr_lba ?cmd) \<le> of_nat (KB 4) then fw_4kb_rd_lat (spp c)
                                          else fw_rd_lat (spp c))"
    have len: "length (maptbl c) = tt_pgs (spp c)"
      using i coreD(6)[OF in_serviceD(1)] by (auto simp: serving_def map_inv_def)
    have "\<exists>c' latest. (if ?s \<le> ?e then do {
            prev \<leftarrow> get_maptbl_ent c ?s;
            (c, sz, prev, latest) \<leftarrow> opt_fold (read_lpn ?st) (c, 0, prev, nsecs_start req) (lpn_range ?s ?e);
            issue_read c ?st sz prev latest
          } else Some (c, nsecs_start req)) = Some (c', latest) \<and> serving N c' \<and> same_service c c' \<and>
        maptbl c' = maptbl c \<and> nsecs_start req \<le> latest"
    proof (cases "?s \<le> ?e")
      case False
      then show ?thesis using i by auto
    next
      case le: True
      then have sl: "unat ?s < tt_pgs (spp c)" using True by (simp add: word_le_nat_alt)
      have "reading N c (nsecs_start req) (c, 0, maptbl c ! unat ?s, nsecs_start req)"
        using i serving_mapped[OF i sl] by (simp add: reading_def)
      then have "\<exists>s'. opt_fold (read_lpn ?st) (c, 0, maptbl c ! unat ?s, nsecs_start req) (lpn_range ?s ?e) = Some s' \<and>
          reading N c (nsecs_start req) s'"
      proof (rule opt_fold_set[where P = "\<lambda>_. reading N c (nsecs_start req)"])
        fix A x t assume x: "x \<in> set (lpn_range ?s ?e)" and t: "reading N c (nsecs_start req) t"
        have "unat x < tt_pgs (spp c)" using x True unfolding set_lpn_range by (simp add: word_le_nat_alt)
        then show "\<exists>t'. read_lpn ?st t x = Some t' \<and> reading N c (nsecs_start req) t'" by (rule read_lpn_ok[OF t i])
      qed
      then obtain c1 sz prev latest where s: "opt_fold (read_lpn ?st) (c, 0, maptbl c ! unat ?s, nsecs_start req)
          (lpn_range ?s ?e) = Some (c1, sz, prev, latest)" "reading N c (nsecs_start req) (c1, sz, prev, latest)"
        by (metis prod_cases4)
      show ?thesis using le s(1) sl len issue_read_ok[OF s(2), of ?st] by (simp add: get_maptbl_ent_def)
    qed
    then obtain c' latest where c': "(if ?s \<le> ?e then do {
            prev \<leftarrow> get_maptbl_ent c ?s;
            (c, sz, prev, latest) \<leftarrow> opt_fold (read_lpn ?st) (c, 0, prev, nsecs_start req) (lpn_range ?s ?e);
            issue_read c ?st sz prev latest
          } else Some (c, nsecs_start req)) = Some (c', latest)" "serving N c'" "same_service c c'"
        "maptbl c' = maptbl c" "nsecs_start req \<le> latest" by blast
    have "conv_read c req ret = Some (True, ret\<lparr>nsecs_target := latest, ret_status := NVME_SC_SUCCESS\<rparr>, c')"
      unfolding conv_read_def Let_def c'(1) using True by simp
    then show ?thesis using True c' by auto
  qed
qed

end
