(* ===== verification/Conv_Session.thy ===== *)
theory Conv_Session
  imports Conv_Commands
begin

text \<open>
  Deallocate and flush, the dispatch of a command to its handler, and a session of commands: an
  FTL that is in service stays in service, whatever the host sends.
\<close>

subsection \<open>Deallocate\<close>

lemma core_cleared:
  assumes core: "core c [] {} {l} nm" and l: "l < tt_pgs (spp c)"
  shows "core (c\<lparr>maptbl := (maptbl c)[l := word_ppa UNMAPPED_PPA]\<rparr>) [] {} {} nm"
proof -
  note m = coreD(6)[OF core, unfolded map_inv_def]
  let ?mt = "(maptbl c)[l := word_ppa UNMAPPED_PPA]"
  have u: "\<not> mapped_ppa (word_ppa UNMAPPED_PPA)" by (simp add: mapped_ppa_def ppa_word_ppa)
  have "map_inv (spp c) (pst (ftl_ssd c)) ?mt (rmap c) {} {}"
    unfolding map_inv_def
  proof (intro conjI allI ballI impI)
    show "length ?mt = tt_pgs (spp c)" "length (rmap c) = tt_pgs (spp c)" using m by simp_all
    fix k assume k: "k < tt_pgs (spp c)" "k \<notin> {}" "mapped_ppa (?mt ! k)"
    have "k \<noteq> l" using k(1,3) m u by (auto simp: nth_list_update)
    then show "?mt ! k \<in> pages (spp c)" "?mt ! k \<notin> {}" "pst (ftl_ssd c) (?mt ! k) = PG_VALID"
      "unat (rmap c ! pgidx (spp c) (?mt ! k)) = k" using m k by auto
  next
    fix p assume p: "p \<in> pages (spp c)" "p \<notin> {}" "pst (ftl_ssd c) p = PG_VALID"
    then show "unat (rmap c ! pgidx (spp c) p) < tt_pgs (spp c)" "unat (rmap c ! pgidx (spp c) p) \<notin> {}"
      "?mt ! unat (rmap c ! pgidx (spp c) p) = p" using m by auto
  qed
  then show ?thesis using core by (simp add: core_def)
qed

lemma discard_lpn_ok:
  assumes i: "serving N c" and l: "unat lpn < tt_pgs (spp c)"
  shows "\<exists>c'. discard_lpn now c lpn = Some c' \<and> serving N c' \<and> spp c' = spp c \<and>
    write_buffer (ftl_ssd c') = write_buffer (ftl_ssd c) \<and> mapped_lpns c' = mapped_lpns c - {unat lpn}"
proof -
  obtain nm where s: "in_service N c nm" and cred: "0 < unat (write_credits (wfc c))" using i by (auto simp: serving_def)
  note d = in_serviceD[OF s]
  note m = coreD(6)[OF d(1), unfolded map_inv_def]
  let ?p = "maptbl c ! unat lpn"
  have g: "get_maptbl_ent c lpn = Some ?p" using l m by (simp add: get_maptbl_ent_def)
  show ?thesis
  proof (cases "mapped_ppa ?p")
    case False
    then have "discard_lpn now c lpn = Some c" using g by (simp add: discard_lpn_def)
    then show ?thesis using i False by (auto simp: mapped_lpns_def)
  next
    case True
    let ?c0 = "c\<lparr>cur_nsecs := now\<rparr>"
    have core0: "core ?c0 [] {} {} nm" "wps_ok ?c0 nm" using d(1,2) by simp_all
    have l0: "unat lpn < tt_pgs (spp ?c0)" "mapped_ppa (maptbl ?c0 ! unat lpn)" "?p = maptbl ?c0 ! unat lpn" using l True by simp_all
    obtain c1 where c1: "unmap_page ?c0 ?p = Some c1" "core c1 [] {} {unat lpn} nm" "kept ?c0 c1" "get_wp c1 = get_wp ?c0"
      "maptbl c1 = maptbl ?c0" "cur_nsecs c1 = cur_nsecs ?c0" "free_line_list (lm c1) = free_line_list (lm ?c0)"
      using unmap_ok[OF core0 l0] by (elim exE conjE) (rule that)
    have k: "spp c1 = spp c" "cp c1 = cp c" "wfc c1 = wfc c" "write_buffer (ftl_ssd c1) = write_buffer (ftl_ssd c)"
      using c1(3) by (simp_all add: kept_def)
    let ?mt = "(maptbl c)[unat lpn := word_ppa UNMAPPED_PPA]"
    let ?c2 = "upd_stats (\<lambda>s. s\<lparr>dsm_invalidated_pages := dsm_invalidated_pages s + 1\<rparr>) (c1\<lparr>maptbl := ?mt\<rparr>)"
    have run: "discard_lpn now c lpn = Some ?c2"
      using g True pages_valid_ppa[OF serving_mapped[OF i l True]] c1(1,5) l m
      by (auto simp: discard_lpn_def unmap_page_def bind_Some_iff)
    have ml: "mapped_lpns ?c2 = mapped_lpns c - {unat lpn}"
      using m k(1) l by (auto simp: mapped_lpns_def upd_stats_def nth_list_update mapped_ppa_def ppa_word_ppa split: if_splits)
    have core2: "core ?c2 [] {} {} nm" using core_cleared[OF c1(2)] l c1(5) k(1) by simp
    have "get_wp ?c2 = get_wp c1" by (simp add: get_wp_def upd_stats_def fun_eq_iff split: io_type.split)
    then have gw: "get_wp ?c2 = get_wp c" using c1(4) by (simp add: get_wp_def fun_eq_iff split: io_type.split)
    have rest: "spp ?c2 = spp c" "cp ?c2 = cp c" "wfc ?c2 = wfc c" "lm ?c2 = lm c1" using k by (simp_all add: upd_stats_def)
    have "in_service N ?c2 nm"
      unfolding in_service_def
      using core2 d ml gw rest c1(7) by (auto simp: wps_ok_def fpages_def)
    then have "serving N ?c2" using cred rest by (auto simp: serving_def)
    then show ?thesis using run ml k rest by (auto simp: upd_stats_def)
  qed
qed

definition range_lpns :: "conv_ftl \<Rightarrow> u64 \<times> u32 \<Rightarrow> nat set" where
  "range_lpns c r = (let (sl, nlb) = r; e = end_lpn_of c sl (ucast nlb) in
     if nlb = 0 \<or> tt_pgs (spp c) \<le> unat e then {} else unat ` {lpn. start_lpn_of c sl \<le> lpn \<and> lpn \<le> e})"

lemma discard_range_ok:
  assumes i: "serving N c"
  shows "\<exists>c'. discard_range now c r = Some c' \<and> serving N c' \<and> spp c' = spp c \<and>
    write_buffer (ftl_ssd c') = write_buffer (ftl_ssd c) \<and> mapped_lpns c' = mapped_lpns c - range_lpns c r"
proof -
  obtain sl nlb where r: "r = (sl, nlb)" by (cases r)
  let ?s = "start_lpn_of c sl" and ?e = "end_lpn_of c sl (ucast nlb)"
  show ?thesis
  proof (cases "nlb = 0 \<or> tt_pgs (spp c) \<le> unat ?e")
    case True
    then show ?thesis using i by (auto simp: discard_range_def range_lpns_def r Let_def)
  next
    case False
    let ?I = "\<lambda>(A :: u64 set) c'. serving N c' \<and> spp c' = spp c \<and>
        write_buffer (ftl_ssd c') = write_buffer (ftl_ssd c) \<and> mapped_lpns c' = mapped_lpns c - unat ` A"
    have "\<exists>c'. opt_fold (discard_lpn now) c (lpn_range ?s ?e) = Some c' \<and> ?I (set (lpn_range ?s ?e)) c'"
    proof (rule opt_fold_set[where P = ?I])
      fix A x t assume x: "x \<in> set (lpn_range ?s ?e)" and t: "?I A t"
      have "unat x < tt_pgs (spp t)" using x False t unfolding set_lpn_range by (simp add: word_le_nat_alt)
      then obtain t' where "discard_lpn now t x = Some t'" "serving N t'" "spp t' = spp t"
        "write_buffer (ftl_ssd t') = write_buffer (ftl_ssd t)" "mapped_lpns t' = mapped_lpns t - {unat x}"
        using discard_lpn_ok[of N t x now] t by blast
      then show "\<exists>t'. discard_lpn now t x = Some t' \<and> ?I (insert x A) t'" using t by auto
    qed (use i in auto)
    then show ?thesis using False unfolding set_lpn_range by (auto simp: discard_range_def range_lpns_def r Let_def)
  qed
qed

lemma range_lpns_cong: "spp c' = spp c \<Longrightarrow> range_lpns c' r = range_lpns c r"
  by (cases r) (simp add: range_lpns_def start_lpn_of_def end_lpn_of_def Let_def)

lemma UN_upt: "(\<Union>r \<in> set (map rs [0..<n]). F r) = (\<Union>k < n. F (rs k))"
  by auto

definition dsm_lpns :: "(nat \<Rightarrow> u64 \<times> u32) option \<Rightarrow> conv_ftl \<Rightarrow> nvme_rw_cmd \<Rightarrow> nat set" where
  "dsm_lpns ranges c cmd = (case ranges of None \<Rightarrow> {} | Some rs \<Rightarrow>
     if dsm_attributes cmd AND NVME_DSMGMT_AD = 0 then {}
     else (\<Union>k < unat (dsm_nr cmd AND 0xFF) + 1. range_lpns c (rs k)))"

lemma conv_discard_ok:
  assumes i: "serving N c"
  shows "\<exists>ret' c'. conv_discard ranges c req ret = Some (ret', c') \<and> serving N c' \<and> spp c' = spp c \<and>
    write_buffer (ftl_ssd c') = write_buffer (ftl_ssd c) \<and>
    mapped_lpns c' = mapped_lpns c - dsm_lpns ranges c (req_cmd req) \<and> nsecs_target ret' = nsecs_start req"
proof (cases "dsm_attributes (req_cmd req) AND NVME_DSMGMT_AD = 0")
  case True
  then show ?thesis using i by (auto simp: conv_discard_def dsm_lpns_def Let_def split: option.split)
next
  case False
  show ?thesis
  proof (cases ranges)
    case None
    then show ?thesis using False i by (auto simp: conv_discard_def dsm_lpns_def Let_def)
  next
    case (Some rs)
    let ?n = "unat (dsm_nr (req_cmd req) AND 0xFF) + 1"
    let ?I = "\<lambda>A c'. serving N c' \<and> spp c' = spp c \<and> write_buffer (ftl_ssd c') = write_buffer (ftl_ssd c) \<and>
        mapped_lpns c' = mapped_lpns c - (\<Union>r \<in> A. range_lpns c r)"
    have "\<exists>c'. opt_fold (discard_range (nsecs_start req)) c (map rs [0..<?n]) = Some c' \<and> ?I (set (map rs [0..<?n])) c'"
    proof (rule opt_fold_set[where P = ?I])
      fix A x t assume t: "?I A t"
      then show "\<exists>t'. discard_range (nsecs_start req) t x = Some t' \<and> ?I (insert x A) t'"
        using discard_range_ok[of N t "nsecs_start req" x] range_lpns_cong[of t c x] by auto
    qed (use i in simp)
    then obtain c' where c': "opt_fold (discard_range (nsecs_start req)) c (map rs [0..<?n]) = Some c'"
      "?I (set (map rs [0..<?n])) c'" by blast
    have "(\<Union>r \<in> set (map rs [0..<?n]). range_lpns c r) = dsm_lpns ranges c (req_cmd req)"
      unfolding UN_upt using False Some by (simp add: dsm_lpns_def)
    then show ?thesis using c' False Some by (auto simp: conv_discard_def Let_def)
  qed
qed

subsection \<open>Flush\<close>

lemma conv_flush_ok:
  assumes i: "serving N c"
  shows "\<exists>sm ret' c'. conv_flush c ret = Some (sm, ret', c') \<and> serving N c' \<and> same_service c c' \<and>
    maptbl c' = maptbl c \<and> ret_status ret' = NVME_SC_SUCCESS"
proof -
  obtain nm where s: "in_service N c nm" and cred: "0 < unat (write_credits (wfc c))" using i by (auto simp: serving_def)
  note d = in_serviceD[OF s]
  obtain st s1 where s1: "get_ioclock (ftl_ssd c) = (st, s1)" by fastforce
  note i1 = ioclock_inv[OF s1]
  have inv1: "ssd_inv s1" using i1 coreD(2)[OF d(1)] by simp
  obtain t s2 where s2: "ssd_next_idle_time s1 = Some (t, s2)" "ssd_inv s2" "nand_same s1 s2"
    using ssd_next_idle_time_ok[OF inv1] by blast
  have n: "nand_same (ftl_ssd c) s2" by (rule nand_same_trans[OF conjunct1[OF i1] s2(3)])
  note c' = in_service_nand[OF s n s2(2)]
  have "serving N (c\<lparr>ftl_ssd := s2\<rparr>)" using c'(1) cred by (auto simp: serving_def)
  then show ?thesis using s1 s2(1) c'(2) by (simp add: conv_flush_def)
qed

text \<open>
  A freshly initialised FTL is in service: every page is free, the first two lines belong to the
  write pointers, nothing is mapped, and one line of write credits is granted.
\<close>

lemma ssd_init_fresh:
  assumes "ssd_init junk mem clk P = Some s" "pg_in_range P p"
  shows "pst s p = PG_FREE" "bcnt s p = Some (0, 0)"
proof -
  obtain ch where ch: "ssd_init_ch junk mem P = Some ch" "ssd_ch s = replicate (nchs P) ch"
    using assms(1) by (auto simp: ssd_init_def bind_Some_iff)
  then have l: "ch_lun ch = replicate (luns_per_ch P) (ssd_init_nand_lun junk P)"
    by (auto simp: ssd_init_ch_def bind_Some_iff Let_def)
  have "get_blk s p = Some (ssd_init_nand_blk P)"
    using assms(2) ch(2) l
    by (simp add: get_blk_def get_pl_def get_lun_def get_ch_def pg_in_range_def blk_in_range_def ssd_init_nand_lun_def
        ssd_init_nand_plane_def)
  then show "pst s p = PG_FREE" "bcnt s p = Some (0, 0)"
    using assms(2)
    by (simp_all add: pst_def bcnt_def get_pg_def ssd_init_nand_blk_def ssd_init_nand_page_def pg_in_range_def)
qed

definition fresh :: "ssd \<Rightarrow> bool" where
  "fresh s \<longleftrightarrow> ssd_inv s \<and> (\<forall>p \<in> pages (sp s). pst s p = PG_FREE \<and> bcnt s p = Some (0, 0))"

subsection \<open>The lines\<close>

lemma init_lines_loop:
  "opt_fold (\<lambda>(ls, free, cnt) i. Some (ls @ [init_line i], free @ [i], cnt + 1)) ([], [], 0) [0..<n] =
     Some (map init_line [0..<n], [0..<n], of_nat n :: u32)"
  by (induction n) (simp_all add: opt_fold_append)

lemma init_lines_ok:
  assumes P: "params_ok P" and mem: "length mem = tt_lines P + 1"
  shows "\<exists>m. init_lines P mem = Some m \<and> lines m = map init_line [0..<tt_lines P] \<and> free_line_list m = [0..<tt_lines P] \<and>
    full_line_list m = [] \<and> victims m = {#} \<and> vq.pq_inv (victim_line_pq m) ls \<and>
    length (pq_d (victim_line_pq m)) = tt_lines P + 1 \<and> lm_tt_lines m = tt_lines P \<and>
    free_line_cnt m = of_nat (tt_lines P) \<and> victim_line_cnt m = 0 \<and> full_line_cnt m = 0"
proof -
  let ?q = "pqueue_init (tt_lines P) mem victim_line_cmp_pri victim_line_get_pri victim_line_set_pri
    victim_line_get_pos victim_line_set_pos"
  have q: "vq.pq_inv ?q ls" "pq_elems ?q = []" by (rule vq.pqueue_init_inv[OF mem])+
  show ?thesis
    using q mem params_okD(7)[OF P]
    by (simp add: init_lines_def Let_def init_lines_loop victims_def) (simp add: pqueue_init_def)
qed

lemma upt_two: "2 \<le> n \<Longrightarrow> [0..<n] = 0 # 1 # [2..<n]"
  by (simp add: upt_conv_Cons numeral_2_eq_2)

definition fresh_wp :: "nat \<Rightarrow> write_pointer" where
  "fresh_wp l = \<lparr>curline = l, wp_ch = 0, wp_lun = 0, wp_pg = 0, wp_blk = l, wp_pl = 0\<rparr>"

lemma conv_init_eq:
  assumes P: "params_ok (sp s)" and mem: "length mem = tt_lines (sp s) + 1" and T: "2 \<le> tt_lines (sp s)"
  shows "\<exists>c. conv_init_ftl cpp s mem = Some c \<and> ftl_ssd c = s \<and> cp c = cpp \<and> maptbl c = init_maptbl (sp s) \<and>
    rmap c = init_rmap (sp s) \<and> user_wp c = fresh_wp 0 \<and> gc_wp c = fresh_wp 1 \<and>
    wfc c = init_write_flow_control (sp s) \<and> stats c = init_stats \<and>
    lines (lm c) = map init_line [0..<tt_lines (sp s)] \<and> free_line_list (lm c) = [2..<tt_lines (sp s)] \<and>
    full_line_list (lm c) = [] \<and> victims (lm c) = {#} \<and> vq.pq_inv (victim_line_pq (lm c)) (lines (lm c)) \<and>
    length (pq_d (victim_line_pq (lm c))) = tt_lines (sp s) + 1 \<and> lm_tt_lines (lm c) = tt_lines (sp s) \<and>
    free_line_cnt (lm c) = of_nat (tt_lines (sp s)) - 2 \<and> victim_line_cnt (lm c) = 0 \<and> full_line_cnt (lm c) = 0"
proof -
  let ?T = "tt_lines (sp s)"
  obtain m where m: "init_lines (sp s) mem = Some m" "lines m = map init_line [0..<?T]" "free_line_list m = [0..<?T]"
    "full_line_list m = []" "victims m = {#}" "vq.pq_inv (victim_line_pq m) (map init_line [0..<?T])"
    "length (pq_d (victim_line_pq m)) = ?T + 1" "lm_tt_lines m = ?T"
    "free_line_cnt m = of_nat ?T" "victim_line_cnt m = 0" "full_line_cnt m = 0"
    using init_lines_ok[OF P mem, of "map init_line [0..<?T]"] by (elim exE conjE) (rule that)
  have f: "free_line_list m = 0 # 1 # [2..<?T]" using m(3) upt_two[OF T] by simp
  show ?thesis
    using m(1,2,4-) f T
    by (simp add: conv_init_ftl_def prepare_write_pointer_def get_next_free_line_def set_wp_def fresh_wp_def init_line_def
        victims_def Let_def)
qed

subsection \<open>The invariant\<close>

lemma core_init:
  assumes P: "params_ok (spp c)" and fr: "fresh (ftl_ssd c)" and T: "2 \<le> tt_lines (spp c)"
    and mt: "maptbl c = init_maptbl (spp c)" "rmap c = init_rmap (spp c)"
    and wp: "user_wp c = fresh_wp 0" "gc_wp c = fresh_wp 1"
    and ls: "lines (lm c) = map init_line [0..<tt_lines (spp c)]" "free_line_list (lm c) = [2..<tt_lines (spp c)]"
      "full_line_list (lm c) = []" "victims (lm c) = {#}" "vq.pq_inv (victim_line_pq (lm c)) (lines (lm c))"
      "length (pq_d (victim_line_pq (lm c))) = tt_lines (spp c) + 1" "lm_tt_lines (lm c) = tt_lines (spp c)"
      "free_line_cnt (lm c) = of_nat (tt_lines (spp c)) - 2" "victim_line_cnt (lm c) = 0" "full_line_cnt (lm c) = 0"
  shows "core c [] {} {} (\<lambda>_. 0)" "wps_ok c (\<lambda>_. 0)"
proof -
  let ?P = "spp c"
  have f: "pst (ftl_ssd c) p = PG_FREE" "bcnt (ftl_ssd c) p = Some (0, 0)" if "p \<in> pages ?P" for p
    using fr that by (auto simp: fresh_def)
  have cl: "cls c io = (case io of USER_IO \<Rightarrow> 0 | GC_IO \<Rightarrow> 1)" for io
    using wp by (cases io) (simp_all add: cls_def get_wp_def fresh_wp_def)
  have cnt0: "nvalid (pst (ftl_ssd c)) A = 0" "ninvalid (pst (ftl_ssd c)) A = 0" if "A \<subseteq> pages ?P" for A
  proof -
    have "{p \<in> A. pst (ftl_ssd c) p = PG_VALID} = {}" "{p \<in> A. pst (ftl_ssd c) p = PG_INVALID} = {}"
      using that f(1) by force+
    then show "nvalid (pst (ftl_ssd c)) A = 0" "ninvalid (pst (ftl_ssd c)) A = 0"
      unfolding nvalid_def ninvalid_def by (simp_all only: card.empty)
  qed
  have sub: "blk_pages ?P q \<subseteq> pages ?P" "line_pages ?P i \<subseteq> pages ?P" for q i by (auto simp: blk_pages_def line_pages_def)
  have "part_inv (tt_lines ?P) (cls c) [] (lm c)"
  proof -
    have "mset [2..<tt_lines ?P] + io_lines (cls c) = mset [0..<tt_lines ?P]"
      unfolding upt_two[OF T] by (simp add: io_lines_def cl)
    moreover have "of_nat (tt_lines ?P) - 2 = (of_nat (tt_lines ?P - 2) :: u32)" using T by simp
    ultimately show ?thesis using ls by (simp add: part_inv_def init_line_def)
  qed
  moreover have "cnt_inv ?P (pst (ftl_ssd c)) (bcnt (ftl_ssd c)) (lm c) []"
    using f(2) cnt0[OF sub(1)] cnt0[OF sub(2)] ls(1) by (simp add: cnt_inv_def init_line_def)
  moreover have "use_inv ?P (pst (ftl_ssd c)) (\<lambda>_. 0) (cls c) (lm c)"
    using f(1) ls by (auto simp: use_inv_def line_pages_def)
  moreover have "map_inv ?P (pst (ftl_ssd c)) (maptbl c) (rmap c) {} {}"
    using f(1) by (auto simp: map_inv_def mt init_maptbl_def init_rmap_def mapped_ppa_def ppa_word_ppa)
  ultimately show "core c [] {} {} (\<lambda>_. 0)" using P fr by (simp add: core_def fresh_def)
  show "wps_ok c (\<lambda>_. 0)"
    unfolding wps_ok_def
  proof
    fix io
    have "0 < nchs ?P" "0 < luns_per_ch ?P" "0 < pgs_per_blk ?P" using P by (simp_all add: params_ok_def)
    then show "wp_in ?P (get_wp c io) \<and> wp_order ?P (get_wp c io) = 0"
      using T wp by (cases io) (simp_all add: get_wp_def fresh_wp_def wp_in_def wp_order_def fill_order_def)
  qed
qed

lemma conv_init_serving:
  assumes P: "params_ok (sp s)" and fr: "fresh s" and mem: "length mem = tt_lines (sp s) + 1"
    and N: "N < (tt_lines (sp s) - 4) * pgs_per_line (sp s)" and thr: "gc_thres_lines_high cpp = 2"
  shows "\<exists>c. conv_init_ftl cpp s mem = Some c \<and> serving N c \<and> mapped_lpns c = {} \<and> ftl_ssd c = s"
proof -
  note d = params_okD[OF P]
  have T: "4 < tt_lines (sp s)" using N by (cases "tt_lines (sp s) - 4") auto
  then have T2: "2 \<le> tt_lines (sp s)" by simp
  obtain c where run: "conv_init_ftl cpp s mem = Some c" and c: "ftl_ssd c = s" "cp c = cpp" "maptbl c = init_maptbl (sp s)"
    "rmap c = init_rmap (sp s)" "user_wp c = fresh_wp 0" "gc_wp c = fresh_wp 1" "wfc c = init_write_flow_control (sp s)"
    "stats c = init_stats" "lines (lm c) = map init_line [0..<tt_lines (sp s)]" "free_line_list (lm c) = [2..<tt_lines (sp s)]"
    "full_line_list (lm c) = []" "victims (lm c) = {#}" "vq.pq_inv (victim_line_pq (lm c)) (lines (lm c))"
    "length (pq_d (victim_line_pq (lm c))) = tt_lines (sp s) + 1" "lm_tt_lines (lm c) = tt_lines (sp s)"
    "free_line_cnt (lm c) = of_nat (tt_lines (sp s)) - 2" "victim_line_cnt (lm c) = 0" "full_line_cnt (lm c) = 0"
    using conv_init_eq[OF P mem T2, of cpp] by (elim exE conjE) (rule that)
  have pq: "vq.pq_inv (victim_line_pq (lm c)) (lines (lm c))" by (rule c(13))
  have ci: "core c [] {} {} (\<lambda>_. 0)" "wps_ok c (\<lambda>_. 0)"
    using core_init[of c] pq c(1,3-6,9-12,14-) P fr T2 by simp_all
  have m: "mapped_lpns c = {}" using c by (auto simp: mapped_lpns_def init_maptbl_def mapped_ppa_def ppa_word_ppa)
  have cr: "unat (of_nat (pgs_per_line (sp s)) :: u32) = pgs_per_line (sp s)" using d(11) by (simp add: unat_of_nat_less)
  have "fpages c (\<lambda>_. 0) = (tt_lines (sp s) - 2) * pgs_per_line (sp s) + 2 * pgs_per_line (sp s)"
    using c by (simp add: fpages_def)
  moreover have "1 * pgs_per_line (sp s) \<le> (tt_lines (sp s) - 2) * pgs_per_line (sp s)" by (rule mult_le_mono1) (use T in simp)
  ultimately have "2 * pgs_per_line (sp s) + pgs_per_line (sp s) \<le> fpages c (\<lambda>_. 0)" by simp
  then have "in_service N c (\<lambda>_. 0)"
    using ci m N thr c cr d(10) by (simp add: in_service_def init_write_flow_control_def)
  then have "serving N c" using c cr d(10) by (auto simp: serving_def init_write_flow_control_def)
  then show ?thesis using run m c(1) by blast
qed

text \<open>
  Sessions of the host with a namespace of the page-mapping FTL, as a step relation: commands,
  and the release of buffer space by the I/O workers, in any order. The host's part of the
  contract is \<open>admissible\<close>: a write stays below the size \<open>N\<close> of the namespace, in pages, and
  below the size of the write buffer.
\<close>

definition admissible :: "nat \<Rightarrow> nvmev_ns \<Rightarrow> nvmev_request \<Rightarrow> bool" where
  "admissible N ns req \<longleftrightarrow> opcode (req_cmd req) = nvme_cmd_write \<longrightarrow>
     unat (end_lpn_of (ns_ftl ns) (slba (req_cmd req)) (cmd_nr_lba (req_cmd req))) < N \<and>
     LBA_TO_BYTE (cmd_nr_lba (req_cmd req)) \<le> buf_size (write_buffer (ftl_ssd (ns_ftl ns)))"

definition release_buffer :: "conv_ftl \<Rightarrow> u64 \<Rightarrow> conv_ftl" where
  "release_buffer c sz = c\<lparr>ftl_ssd := (ftl_ssd c)\<lparr>write_buffer := buffer_release (write_buffer (ftl_ssd c)) sz\<rparr>\<rparr>"

inductive session :: "gc_build \<Rightarrow> nat \<Rightarrow> nvmev_ns \<Rightarrow> nvmev_ns \<Rightarrow> bool" for bc N ns0 where
  start: "session bc N ns0 ns0"
| command: "session bc N ns0 ns \<Longrightarrow> admissible N ns req \<Longrightarrow>
    conv_proc_nvme_io_cmd bc ranges ns req ret = Some (ok, ret', ops, ns') \<Longrightarrow> session bc N ns0 ns'"
| release: "session bc N ns0 ns \<Longrightarrow> session bc N ns0 (ns\<lparr>ns_ftl := release_buffer (ns_ftl ns) sz\<rparr>)"

text \<open>The abstract namespace: the set of its mapped logical pages.\<close>

definition abs_cmd :: "(nat \<Rightarrow> u64 \<times> u32) option \<Rightarrow> conv_ftl \<Rightarrow> nvme_rw_cmd \<Rightarrow> bool \<Rightarrow> nat set \<Rightarrow> nat set" where
  "abs_cmd ranges c cmd ok M =
     (if opcode cmd = nvme_cmd_write \<and> ok then M \<union> cmd_lpns c cmd
      else if opcode cmd = nvme_cmd_dsm then M - dsm_lpns ranges c cmd else M)"

lemma conv_cmd_ok:
  assumes i: "serving N (ns_ftl ns)" and csi: "ns_csi ns = NVME_CSI_NVM" and bc: "greedy_build bc"
    and adm: "admissible N ns req"
  shows "\<exists>ok ret' ops ns'. conv_proc_nvme_io_cmd bc ranges ns req ret = Some (ok, ret', ops, ns') \<and>
    serving N (ns_ftl ns') \<and> ns_csi ns' = NVME_CSI_NVM \<and> ns' = ns\<lparr>ns_ftl := ns_ftl ns'\<rparr> \<and>
    mapped_lpns (ns_ftl ns') = abs_cmd ranges (ns_ftl ns) (req_cmd req) ok (mapped_lpns (ns_ftl ns))"
proof -
  note op = nvme_cmd_write_def nvme_cmd_read_def nvme_cmd_flush_def nvme_cmd_dsm_def
  consider "opcode (req_cmd req) = nvme_cmd_write" | "opcode (req_cmd req) = nvme_cmd_read"
    | "opcode (req_cmd req) = nvme_cmd_flush" | "opcode (req_cmd req) = nvme_cmd_dsm"
    | "opcode (req_cmd req) \<notin> {nvme_cmd_write, nvme_cmd_read, nvme_cmd_flush, nvme_cmd_dsm}" by blast
  then show ?thesis
  proof cases
    case 1
    obtain ok ret' ops c' where w: "conv_write bc (ns_ftl ns) req ret = Some (ok, ret', ops, c')" "serving N c'"
      "if ok then mapped_lpns c' = mapped_lpns (ns_ftl ns) \<union> cmd_lpns (ns_ftl ns) (req_cmd req) else
        mapped_lpns c' = mapped_lpns (ns_ftl ns)"
      using conv_write_ok[OF i bc, of req ret] adm 1 unfolding admissible_def by (metis (full_types))
    then show ?thesis
      using 1 csi by (auto simp: conv_proc_nvme_io_cmd_def abs_cmd_def op split: if_splits)
  next
    case 2
    obtain ok ret' c' where "conv_read (ns_ftl ns) req ret = Some (ok, ret', c')" "serving N c'" "same_service (ns_ftl ns) c'"
      using conv_read_ok[OF i] by blast
    then show ?thesis using 2 csi by (simp add: conv_proc_nvme_io_cmd_def abs_cmd_def op same_service_def)
  next
    case 3
    obtain sm ret' c' where "conv_flush (ns_ftl ns) ret = Some (sm, ret', c')" "serving N c'" "same_service (ns_ftl ns) c'"
      using conv_flush_ok[OF i] by blast
    then show ?thesis using 3 csi by (auto simp: conv_proc_nvme_io_cmd_def abs_cmd_def op same_service_def)
  next
    case 4
    obtain ret' c' where "conv_discard ranges (ns_ftl ns) req ret = Some (ret', c')" "serving N c'"
      "mapped_lpns c' = mapped_lpns (ns_ftl ns) - dsm_lpns ranges (ns_ftl ns) (req_cmd req)"
      using conv_discard_ok[OF i] by blast
    then show ?thesis using 4 csi by (auto simp: conv_proc_nvme_io_cmd_def abs_cmd_def op)
  next
    case 5
    then show ?thesis using i csi by (auto simp: conv_proc_nvme_io_cmd_def abs_cmd_def)
  qed
qed

lemma release_serving: "serving N c \<Longrightarrow> serving N (release_buffer c sz)"
  by (auto simp: serving_def release_buffer_def in_service_wbuf)

lemma session_serving:
  assumes "session bc N ns0 ns" "serving N (ns_ftl ns0)" "ns_csi ns0 = NVME_CSI_NVM" "greedy_build bc"
  shows "serving N (ns_ftl ns) \<and> ns_csi ns = NVME_CSI_NVM"
  using assms
proof (induction rule: session.induct)
  case (command ns req ranges ret ok ret' ops ns')
  then show ?case using conv_cmd_ok[of N ns bc req ranges ret] by auto
qed (auto intro: release_serving)

subsection \<open>The mapping is a bijection\<close>

lemma serving_bij:
  assumes "serving N c"
  shows "bij_betw (\<lambda>l. maptbl c ! l) (mapped_lpns c) {p \<in> pages (spp c). pst (ftl_ssd c) p = PG_VALID}"
proof -
  obtain nm where i: "in_service N c nm" using assms by (auto simp: serving_def)
  note m = coreD(6)[OF in_serviceD(1)[OF i], unfolded map_inv_def]
  have f: "maptbl c ! l \<in> pages (spp c)" "pst (ftl_ssd c) (maptbl c ! l) = PG_VALID"
    "unat (rmap c ! pgidx (spp c) (maptbl c ! l)) = l" if "l \<in> mapped_lpns c" for l
    using m that by (auto simp: mapped_lpns_def)
  have g: "unat (rmap c ! pgidx (spp c) p) \<in> mapped_lpns c" "maptbl c ! unat (rmap c ! pgidx (spp c) p) = p"
    if "p \<in> pages (spp c)" "pst (ftl_ssd c) p = PG_VALID" for p
    using m that pages_mapped[OF that(1)] by (auto simp: mapped_lpns_def)
  show ?thesis
    by (rule bij_betw_byWitness[where f' = "\<lambda>p. unat (rmap c ! pgidx (spp c) p)"]) (use f g in auto)
qed

end
