(* ===== verification/Conv_Correct.thy ===== *)
theory Conv_Correct
  imports Conv_Session
begin

text \<open>
  The properties of the page-mapping FTL, each with a witness on a small device: two channels of
  two LUNs with eight blocks of two pages, so eight lines of eight pages, of which 31 are offered
  to the host.
\<close>

subsection \<open>A small device\<close>

definition tiny_params :: ssdparams where
  "tiny_params = ssd_fill_params samsung_970pro 2 8 2 1 1 2"

lemma tiny_sel:
  "nchs tiny_params = 2" "blks_per_pl tiny_params = 8" "pgs_per_oneshotpg tiny_params = 2"
  "oneshotpgs_per_blk tiny_params = 1" "pgs_per_flashpg tiny_params = 1" "flashpgs_per_blk tiny_params = 2"
  "luns_per_ch tiny_params = 2" "pls_per_lun tiny_params = 1" "cell_mode tiny_params = 3" "secs_per_pg tiny_params = 8"
  "pgsz tiny_params = 4096" "secsz tiny_params = 512" "pgs_per_blk tiny_params = 2" "tt_secs tiny_params = 512" "pgs_per_pl tiny_params = 16"
  "pgs_per_lun tiny_params = 16" "pgs_per_ch tiny_params = 32" "tt_pgs tiny_params = 64" "blks_per_lun tiny_params = 8"
  "tt_blks tiny_params = 32" "tt_luns tiny_params = 4" "blks_per_line tiny_params = 4" "pgs_per_line tiny_params = 8"
  "tt_lines tiny_params = 8"
  unfolding tiny_params_def
  by (simp_all add: ssd_fill_params_sel[OF refl] samsung_970pro_def LBA_SIZE_def)

lemma tiny_lat:
  "pg_4kb_rd_lat tiny_params = [45000, 45000, 45000]" "pg_rd_lat tiny_params = [45000, 45000, 45000]"
  "max_ch_xfer_size tiny_params = 16384"
  by (simp_all add: tiny_params_def ssd_fill_params_def Let_def samsung_970pro_def KB_def)

lemma tiny_params_ok: "params_ok tiny_params"
  by (simp add: params_ok_def geometry_def time_params_def tiny_sel tiny_lat)

definition tiny_page :: "nat \<Rightarrow> nat \<Rightarrow> nat \<Rightarrow> nat \<Rightarrow> ppa" where
  "tiny_page blk ch lun pg = \<lparr>ppa_pg = of_nat pg, ppa_blk = of_nat blk, ppa_pl = 0, ppa_lun = of_nat lun,
     ppa_ch = of_nat ch, ppa_rsv = 0\<rparr>"

definition tiny_ssd :: ssd where
  "tiny_ssd = the (ssd_init 0 (\<lambda>_. 0) (\<lambda>_. 0) tiny_params)"

definition tiny_ftl :: conv_ftl where
  "tiny_ftl = the (conv_init_ftl (conv_init_params samsung_970pro) tiny_ssd (replicate 9 LJunk))"

definition tiny_ns :: nvmev_ns where
  "tiny_ns = \<lparr>ns_id = 0, ns_csi = NVME_CSI_NVM, ns_nr_parts = 1, ns_size = 31 * 4096, ns_ftl = tiny_ftl\<rparr>"

lemma tiny_bw: "ch_bandwidth tiny_params = 800" "pcie_bandwidth tiny_params = 3360"
  by (simp_all add: tiny_params_def ssd_fill_params_def Let_def samsung_970pro_def)

lemma tiny_credits:
  "unat (ucast (BANDWIDTH_TO_MAX_CREDITS 800) :: u32) = 26" "unat (ucast (BANDWIDTH_TO_MAX_CREDITS 3360) :: u32) = 110"
  "MB64 800 \<noteq> 0" "MB64 3360 \<noteq> 0"
  by (simp_all add: BANDWIDTH_TO_MAX_CREDITS_def MB64_def UNIT_TIME_INTERVAL_def NS_PER_SEC_def UNIT_XFER_SIZE_def)

lemma tiny_ssd_run: "ssd_init 0 (\<lambda>_. 0) (\<lambda>_. 0) tiny_params = Some tiny_ssd"
proof -
  have "\<exists>s. ssd_init 0 (\<lambda>_. 0) (\<lambda>_. 0) tiny_params = Some s"
    by (simp add: ssd_init_def ssd_init_ch_def ssd_init_pcie_def chmodel_init_def chm_memset_def tiny_bw tiny_credits Let_def)
  then show ?thesis by (auto simp: tiny_ssd_def)
qed

lemma tiny_ssd_ok: "fresh tiny_ssd" "sp tiny_ssd = tiny_params"
proof -
  have "ssd_inv tiny_ssd \<and> sp tiny_ssd = tiny_params"
    using ssd_init_shape[OF tiny_ssd_run] by (simp add: tiny_bw tiny_credits)
  then show "fresh tiny_ssd" "sp tiny_ssd = tiny_params"
    using ssd_init_fresh[OF tiny_ssd_run] by (auto simp: fresh_def pages_def)
qed

lemma tiny_ftl_ok: "serving 31 tiny_ftl" "mapped_lpns tiny_ftl = {}" "ftl_ssd tiny_ftl = tiny_ssd"
  "conv_init_ftl (conv_init_params samsung_970pro) tiny_ssd (replicate 9 LJunk) = Some tiny_ftl"
proof -
  have "\<exists>c. conv_init_ftl (conv_init_params samsung_970pro) tiny_ssd (replicate 9 LJunk) = Some c \<and> serving 31 c \<and>
      mapped_lpns c = {} \<and> ftl_ssd c = tiny_ssd"
    by (rule conv_init_serving) (simp_all add: tiny_ssd_ok tiny_params_ok tiny_sel conv_init_params_def)
  then show "serving 31 tiny_ftl" "mapped_lpns tiny_ftl = {}" "ftl_ssd tiny_ftl = tiny_ssd"
    "conv_init_ftl (conv_init_params samsung_970pro) tiny_ssd (replicate 9 LJunk) = Some tiny_ftl"
    by (auto simp: tiny_ftl_def)
qed

lemma greedy_default: "greedy_build default_build"
  by (simp add: greedy_build_def default_build_def)

text \<open>A write of the sectors 8 to 15, the logical page 1.\<close>

definition tiny_write :: nvmev_request where
  "tiny_write = \<lparr>req_cmd = \<lparr>opcode = nvme_cmd_write, slba = 8, rw_length = 7, rw_control = 0, dsm_nr = 0, dsm_attributes = 0\<rparr>,
     sq_id = 1, nsecs_start = 0\<rparr>"

lemma tiny_wbuf: "buf_size (write_buffer tiny_ssd) = 1572864"
proof -
  have "write_buffer tiny_ssd = buffer_init (of_nat (write_buffer_size tiny_params))"
    using tiny_ssd_run unfolding ssd_init_def bind_Some_iff by (metis option.inject ssd.select_convs(4))
  then show ?thesis
    by (simp add: buffer_init_def tiny_params_def ssd_fill_params_def Let_def samsung_970pro_def KB_def)
qed

lemma tiny_write_admissible: "admissible 31 tiny_ns tiny_write"
  by (simp add: admissible_def tiny_ns_def tiny_write_def tiny_ftl_ok(3) tiny_ssd_ok(2) tiny_wbuf end_lpn_of_def cmd_nr_lba_def
      tiny_sel LBA_TO_BYTE_def push_bit_eq_mult)

subsection \<open>The service\<close>

text \<open>C1. An FTL in service, under the greedy policy, never stops the kernel: after any session of
  admissible commands and buffer releases the next admissible command returns, whatever its
  kind. The assertions, the null pointers and the array accesses of the write path, of garbage
  collection and of deallocation are never hit.\<close>

theorem conv_session_total:
  assumes "session bc N ns0 ns" "serving N (ns_ftl ns0)" "ns_csi ns0 = NVME_CSI_NVM" "greedy_build bc"
    and "admissible N ns req"
  shows "conv_proc_nvme_io_cmd bc ranges ns req ret \<noteq> None"
  using conv_cmd_ok[of N ns bc req ranges ret] session_serving[OF assms(1-4)] assms(4,5) by auto

lemma conv_session_total_witness:
  "conv_proc_nvme_io_cmd default_build None tiny_ns tiny_write \<lparr>ret_status = 0, nsecs_target = 0\<rparr> \<noteq> None"
  by (rule conv_session_total[OF session.start _ _ greedy_default tiny_write_admissible])
    (simp_all add: tiny_ns_def tiny_ftl_ok)

text \<open>C2. Every command refines its abstract specification on the set of mapped logical pages: an
  accepted write maps exactly the pages of its range, a deallocation unmaps exactly those of its
  ranges, and reads, flushes, refused writes and all the garbage collection done on the way
  change nothing of it.\<close>

theorem conv_io_refines:
  assumes "serving N (ns_ftl ns)" "ns_csi ns = NVME_CSI_NVM" "greedy_build bc" "admissible N ns req"
    and "conv_proc_nvme_io_cmd bc ranges ns req ret = Some (ok, ret', ops, ns')"
  shows "mapped_lpns (ns_ftl ns') = abs_cmd ranges (ns_ftl ns) (req_cmd req) ok (mapped_lpns (ns_ftl ns))"
  using conv_cmd_ok[OF assms(1-4), of ranges ret] assms(5) by auto

lemma conv_io_refines_witness:
  "\<exists>ok ret' ops ns'. conv_proc_nvme_io_cmd default_build None tiny_ns tiny_write \<lparr>ret_status = 0, nsecs_target = 0\<rparr> =
      Some (ok, ret', ops, ns') \<and>
    mapped_lpns (ns_ftl ns') = abs_cmd None (ns_ftl tiny_ns) (req_cmd tiny_write) ok (mapped_lpns (ns_ftl tiny_ns))"
proof -
  have h: "serving 31 (ns_ftl tiny_ns)" "ns_csi tiny_ns = NVME_CSI_NVM" by (simp_all add: tiny_ns_def tiny_ftl_ok)
  obtain ok ret' ops ns' where "conv_proc_nvme_io_cmd default_build None tiny_ns tiny_write
      \<lparr>ret_status = 0, nsecs_target = 0\<rparr> = Some (ok, ret', ops, ns')"
    using conv_cmd_ok[OF h greedy_default tiny_write_admissible] by blast
  with conv_io_refines[OF h greedy_default tiny_write_admissible this] show ?thesis by blast
qed

text \<open>C3. In service the mapping table is a bijection between the mapped logical pages and the
  physical pages that are valid: no two logical pages share a page, and no valid page is lost.\<close>

theorem mapping_bijective:
  assumes "session bc N ns0 ns" "serving N (ns_ftl ns0)" "ns_csi ns0 = NVME_CSI_NVM" "greedy_build bc"
  shows "bij_betw (\<lambda>l. maptbl (ns_ftl ns) ! l) (mapped_lpns (ns_ftl ns))
    {p \<in> pages (spp (ns_ftl ns)). pst (ftl_ssd (ns_ftl ns)) p = PG_VALID}"
  using session_serving[OF assms] serving_bij by blast

lemma mapping_bijective_witness:
  "bij_betw (\<lambda>l. maptbl tiny_ftl ! l) (mapped_lpns tiny_ftl) {p \<in> pages (spp tiny_ftl). pst (ftl_ssd tiny_ftl) p = PG_VALID}"
  using mapping_bijective[OF session.start _ _ greedy_default, of 31 tiny_ns] by (simp add: tiny_ns_def tiny_ftl_ok)

text \<open>C7. Initialisation puts a device whose namespace leaves out more than four lines in service.\<close>

theorem conv_init_in_service:
  assumes "params_ok (sp s)" "fresh s" "length mem = tt_lines (sp s) + 1"
    and "N < (tt_lines (sp s) - 4) * pgs_per_line (sp s)" "gc_thres_lines_high cpp = 2"
  shows "\<exists>c. conv_init_ftl cpp s mem = Some c \<and> serving N c \<and> mapped_lpns c = {}"
  using conv_init_serving[OF assms] by blast

lemma conv_init_in_service_witness:
  "\<exists>c. conv_init_ftl (conv_init_params samsung_970pro) tiny_ssd (replicate 9 LJunk) = Some c \<and> serving 31 c \<and>
    mapped_lpns c = {}"
  by (rule conv_init_in_service) (simp_all add: tiny_ssd_ok tiny_params_ok tiny_sel conv_init_params_def)

text \<open>A write of a page makes the next page of the user's write pointer the page of that logical
  page and leaves every other entry of the mapping table alone.\<close>

theorem write_page_maps:
  assumes "serving N c" "unat lpn < N"
  shows "\<exists>c'. write_page c lpn = Some (wp_page (get_wp c USER_IO), c') \<and>
    maptbl c' = (maptbl c)[unat lpn := wp_page (get_wp c USER_IO)] \<and>
    mapped_ppa (wp_page (get_wp c USER_IO)) \<and>
    pst (ftl_ssd c') (wp_page (get_wp c USER_IO)) = PG_VALID"
proof -
  obtain nm where i: "in_service N c nm" and cred: "0 < unat (write_credits (wfc c))" using assms(1) by (auto simp: serving_def)
  note d = in_serviceD[OF i]
  have l: "unat lpn < tt_pgs (spp c)" using assms(2) d(10) by simp
  have room: "pgs_per_line (spp c) + 1 < fpages c nm" using d(6) cred params_okD(10)[OF coreD(1)[OF d(1)]] by simp
  obtain p c' nm' where c': "write_page c lpn = Some (p, c')" "core c' [] {} {} nm'" "kept c c'"
    "maptbl c' = (maptbl c)[unat lpn := p]" "p = wp_page (get_wp c USER_IO)" "p \<in> pages (spp c)"
    using write_page_ok[OF d(1,2) l room] by (elim exE conjE) (rule that)
  have "length (maptbl c) = tt_pgs (spp c)" using coreD(6)[OF d(1)] by (simp add: map_inv_def)
  then have "maptbl c' ! unat lpn = p" using c'(4) l by simp
  moreover have m: "mapped_ppa p" by (rule pages_mapped[OF c'(6)])
  ultimately have "pst (ftl_ssd c') p = PG_VALID"
    using coreD(6)[OF c'(2)] l c'(3) unfolding map_inv_def kept_def by (metis empty_iff)
  then show ?thesis using c' m by auto
qed

lemma write_page_maps_witness:
  "\<exists>c'. write_page tiny_ftl 5 = Some (wp_page (get_wp tiny_ftl USER_IO), c') \<and>
    maptbl c' = (maptbl tiny_ftl)[unat (5 :: u64) := wp_page (get_wp tiny_ftl USER_IO)] \<and>
    mapped_ppa (wp_page (get_wp tiny_ftl USER_IO)) \<and>
    pst (ftl_ssd c') (wp_page (get_wp tiny_ftl USER_IO)) = PG_VALID"
  by (rule write_page_maps[OF tiny_ftl_ok(1)]) simp

text \<open>The index of a page in the reverse map is below the number of pages of the device, and two
  pages never share an index.\<close>

theorem ppa2pgidx_inject:
  assumes "params_ok P" "p \<in> pages P" "q \<in> pages P"
  shows "\<exists>i j. ppa2pgidx P p = Some i \<and> ppa2pgidx P q = Some j \<and> i < tt_pgs P \<and> (i = j \<longleftrightarrow> p = q)"
  using assms by (simp add: ppa2pgidx_eq pgidx_less pgidx_inject)

lemma ppa2pgidx_inject_witness:
  "\<exists>i j. ppa2pgidx tiny_params (tiny_page 1 0 1 0) = Some i \<and> ppa2pgidx tiny_params (tiny_page 1 0 1 1) = Some j \<and>
    i < tt_pgs tiny_params \<and> (i = j \<longleftrightarrow> tiny_page 1 0 1 0 = tiny_page 1 0 1 1)"
  by (rule ppa2pgidx_inject[OF tiny_params_ok])
    (simp_all add: pages_def pg_in_range_def blk_in_range_def tiny_page_def tiny_sel)

end
