(* ===== verification/Conv_Scores.thy ===== *)
theory Conv_Scores
  imports Conv_Correct
begin

text \<open>
  The cost-benefit policy: its score is the exact quotient, its age tables are monotone and
  positive, and its scan of the victim queue reads one slot too many.
\<close>

subsection \<open>The score\<close>

lemma mult_div_split: "(q * d + r) * i div d = q * i + r * i div d" if "0 < d" for q d r i :: nat
proof -
  have "(q * d + r) * i = d * (q * i) + r * i" by (simp add: algebra_simps)
  then show ?thesis using that by simp
qed

text \<open>The score of a line is exactly the age value times its invalid pages divided by its
  valid pages plus one, saturated at the largest 64-bit value, although the code multiplies in
  64 bits: the saturation is reached only when the exact quotient does not fit.\<close>

theorem cost_benefit_score_exact:
  assumes "ln_ipc ln < 2 ^ 31" "ln_vpc ln < 2 ^ 31"
  shows "unat (cost_benefit_score ln age) = min (2 ^ 64 - 1) (unat age * ln_ipc ln div (ln_vpc ln + 1))"
proof (cases "age = 0 \<or> ln_ipc ln = 0")
  case True
  then show ?thesis using assms by (auto simp: cost_benefit_score_def Let_def)
next
  case False
  let ?i = "of_nat (ln_ipc ln) :: u64" and ?d = "of_nat (ln_vpc ln) + 1 :: u64" and ?M = "2 ^ 64 - 1 :: nat"
  have i: "unat ?i = ln_ipc ln" using assms by (simp add: unat_of_nat_less)
  have "unat (of_nat (ln_vpc ln) :: u64) = ln_vpc ln" using assms by (simp add: unat_of_nat_less)
  then have d: "unat ?d = ln_vpc ln + 1" using assms unat_add_less[of "of_nat (ln_vpc ln) :: u64" 1] by simp
  have M: "unat (- 1 :: u64) = ?M" by (simp add: unsigned_minus_1_eq_mask mask_eq_exp_minus_1)
  let ?q = "age div ?d" and ?r = "age mod ?d"
  have q: "unat ?q = unat age div (ln_vpc ln + 1)" and r: "unat ?r = unat age mod (ln_vpc ln + 1)"
    by (simp_all add: unat_div unat_mod d del: of_nat_Suc)
  define Q R I K where "Q = unat ?q" and "R = unat ?r" and "I = ln_ipc ln" and "K = ln_vpc ln + 1"
  have K: "0 < K" "K \<le> 2 ^ 31" "0 < I" "I < 2 ^ 31" using assms False by (auto simp: K_def I_def)
  have age: "unat age = Q * K + R" "R < K"
    unfolding Q_def R_def K_def q r by (rule div_mult_mod_eq[symmetric]) simp
  have exact: "unat age * I div K = Q * I + R * I div K"
    using mult_div_split[OF K(1)] age(1) by simp
  have "R * I < 2 ^ 31 * 2 ^ 31" using age(2) K by (intro mult_strict_mono) simp_all
  then have RI: "R * I < 2 ^ 64" by simp
  have nz: "?i \<noteq> 0" using i False by (metis unat_0)
  have u: "unat ((- 1 :: u64) div ?i) = ?M div I" by (simp add: unat_div i I_def M)
  have tail: "\<not> ?r > (- 1) div ?i"
  proof -
    have "R \<le> ?M div I" using RI K(3) by (simp add: less_eq_div_iff_mult_less_eq)
    then show ?thesis using u by (simp add: word_less_nat_alt R_def)
  qed
  have t: "unat (?r * ?i div ?d) = R * I div K"
  proof -
    have "unat (?r * ?i) = R * I" using RI unat_mult_less[of ?r ?i] i by (simp add: R_def I_def)
    then show ?thesis using d by (simp add: unat_div K_def del: of_nat_Suc)
  qed
  show ?thesis
  proof (cases "?q > (- 1) div ?i")
    case True
    then have "?M div I < Q" using u by (simp add: word_less_nat_alt Q_def)
    then have "?M < Q * I" using K(3) by (simp add: div_less_iff_less_mult)
    then have "?M \<le> unat age * I div K" using exact by simp
    moreover have "cost_benefit_score ln age = - 1"
      using False nz True by (simp add: cost_benefit_score_def Let_def)
    ultimately show ?thesis using M by (simp add: I_def K_def)
  next
    case le: False
    then have "Q \<le> ?M div I" using u by (simp add: word_less_nat_alt Q_def not_less)
    then have QI: "Q * I \<le> ?M" using K(3) by (simp add: less_eq_div_iff_mult_less_eq)
    then have s: "unat (?q * ?i) = Q * I" using unat_mult_less[of ?q ?i] i by (simp add: Q_def I_def)
    let ?t = "?r * ?i div ?d"
    have sub: "unat ((- 1) - ?t) = ?M - R * I div K"
      using t by (simp add: unat_sub_le M)
    have score: "cost_benefit_score ln age = (if ?q * ?i > (- 1) - ?t then - 1 else ?q * ?i + ?t)"
      using False nz le tail by (simp add: cost_benefit_score_def Let_def)
    show ?thesis
    proof (cases "?q * ?i > (- 1) - ?t")
      case True
      then have "?M - R * I div K < Q * I" using s sub by (simp add: word_less_nat_alt)
      then have "?M \<le> unat age * I div K" using exact by simp
      then show ?thesis using score True M by (simp add: I_def K_def)
    next
      case f: False
      have "R * I div K \<le> ?M" using RI by (metis One_nat_def Suc_pred div_le_dividend le_trans less_Suc_eq_le zero_less_numeral zero_less_power)
      moreover have "Q * I \<le> ?M - R * I div K" using f s sub by (simp add: word_less_nat_alt not_less)
      ultimately have "Q * I + R * I div K \<le> ?M" by simp
      then have "unat (?q * ?i + ?t) = Q * I + R * I div K"
        using unat_add_less[of "?q * ?i" ?t] s t by simp
      then show ?thesis using score f exact \<open>Q * I + R * I div K \<le> ?M\<close> by (simp add: I_def K_def)
    qed
  qed
qed

definition tiny_line :: line where
  "tiny_line = (init_line 3)\<lparr>ln_ipc := 5, ln_vpc := 2\<rparr>"

lemma cost_benefit_score_exact_witness:
  "unat (cost_benefit_score tiny_line 7) = min (2 ^ 64 - 1) (unat (7 :: u64) * ln_ipc tiny_line div (ln_vpc tiny_line + 1))"
  by (rule cost_benefit_score_exact) (simp_all add: tiny_line_def)

subsection \<open>The age tables\<close>

text \<open>The index that the lookup of an age finds: the first bound above the age, or the last one.\<close>

lemma age_step_from_Some:
  "age_step_from a steps i = Some (v, k) \<Longrightarrow>
    \<exists>j < length steps. k = i + j \<and> v = snd (steps ! j) \<and> a < fst (steps ! j) \<and> (\<forall>j' < j. fst (steps ! j') \<le> a)"
proof (induction a steps i rule: age_step_from.induct)
  case (2 a u x steps i)
  show ?case
  proof (cases "a < u")
    case True
    then show ?thesis using 2 by auto
  next
    case False
    with 2 obtain j where "j < length steps" "k = i + 1 + j" "v = snd (steps ! j)" "a < fst (steps ! j)"
      "\<forall>j' < j. fst (steps ! j') \<le> a" by auto
    then show ?thesis using False by (intro exI[of _ "Suc j"]) (auto simp: less_Suc_eq_0_disj)
  qed
qed simp

lemma age_step_from_None: "age_step_from a steps i = None \<Longrightarrow> j < length steps \<Longrightarrow> fst (steps ! j) \<le> a"
  by (induction a steps i arbitrary: j rule: age_step_from.induct) (auto simp: nth_Cons' not_less split: if_splits)

lemma age_step_lookup_index:
  assumes "age_step_lookup a steps = Some (v, k)"
  shows "k < length steps" "v = snd (steps ! k)" "\<forall>j < k. fst (steps ! j) \<le> a"
    "k < length steps - 1 \<Longrightarrow> a < fst (steps ! k)"
proof -
  have ne: "0 < length steps" using assms by (simp add: age_step_lookup_def nv_assert_def split: if_splits)
  show "k < length steps" "v = snd (steps ! k)" "\<forall>j < k. fst (steps ! j) \<le> a"
    "k < length steps - 1 \<Longrightarrow> a < fst (steps ! k)"
    using assms ne age_step_from_Some[of a steps 0] age_step_from_None[of a steps 0]
    by (auto simp: age_step_lookup_def nv_assert_def split: option.splits if_splits)
qed

lemma age_step_lookup_mono:
  assumes "age_step_lookup a steps = Some (v, k)" "age_step_lookup b steps = Some (w, l)" "a \<le> b"
  shows "k \<le> l"
proof (rule ccontr)
  assume "\<not> k \<le> l"
  then have "l < k" by simp
  then have "fst (steps ! l) \<le> a" "b < fst (steps ! l)"
    using age_step_lookup_index[OF assms(1)] age_step_lookup_index[OF assms(2)] by auto
  then show False using assms(3) by simp
qed

definition age_values_ok :: "(u64 \<times> u64) list \<Rightarrow> bool" where
  "age_values_ok steps \<longleftrightarrow> sorted (map snd steps) \<and> (\<forall>v \<in> set (map snd steps). 0 < v) \<and> steps \<noteq> [] \<and>
     length steps \<le> CONV_AGE_LEVEL_MAX"

lemma cb_age_tables: "prof \<noteq> RAW_LINEAR \<Longrightarrow> prof \<noteq> FLAT \<Longrightarrow> age_values_ok (cb_age_steps prof)"
  by (cases prof) (simp_all add: age_values_ok_def CONV_AGE_LEVEL_MAX_def)

text \<open>For every age profile the age value is defined, positive and monotone: an older line never
  has a smaller value, and the level it is counted under is one of the histogram's.\<close>

theorem cb_age_value_mono:
  assumes "a \<le> b"
  shows "\<exists>v k w l. cb_age_value prof a = Some (v, k) \<and> cb_age_value prof b = Some (w, l) \<and>
    0 < v \<and> v \<le> w \<and> k \<le> l \<and> l < CONV_AGE_LEVEL_MAX"
proof -
  consider "prof = RAW_LINEAR" | "prof = FLAT" | "prof \<noteq> RAW_LINEAR" "prof \<noteq> FLAT" by blast
  then show ?thesis
  proof cases
    case 1
    then show ?thesis using assms
      by (auto simp: cb_age_value_def CONV_AGE_LEVEL_MAX_def word_gt_0 word_le_nat_alt Suc_le_eq unat_gt_0)
  next
    case 2
    then show ?thesis by (simp add: cb_age_value_def CONV_AGE_LEVEL_MAX_def)
  next
    case 3
    let ?s = "cb_age_steps prof"
    note t = cb_age_tables[OF 3, unfolded age_values_ok_def]
    have run: "cb_age_value prof x = age_step_lookup x ?s" for x using 3 by (cases prof) (simp_all add: cb_age_value_def)
    have "\<exists>v k. age_step_lookup x ?s = Some (v, k)" for x
      using t by (auto simp: age_step_lookup_def split: option.split)
    then obtain v k w l where l: "age_step_lookup a ?s = Some (v, k)" "age_step_lookup b ?s = Some (w, l)" by metis
    have kl: "k \<le> l" by (rule age_step_lookup_mono[OF l assms])
    note ka = age_step_lookup_index(1,2)[OF l(1)] and lb = age_step_lookup_index(1,2)[OF l(2)]
    have "v \<le> w" using t ka lb kl sorted_nth_mono[of "map snd ?s" k l] by simp
    moreover have "0 < v" using t ka by auto
    ultimately show ?thesis using run l kl lb(1) t by auto
  qed
qed

lemma cb_age_value_mono_witness:
  "\<exists>v k w l. cb_age_value CAT7 5 = Some (v, k) \<and> cb_age_value CAT7 50000000000 = Some (w, l) \<and>
    0 < v \<and> v \<le> w \<and> k \<le> l \<and> l < CONV_AGE_LEVEL_MAX"
  by (rule cb_age_value_mono) simp

subsection \<open>The scan of the victim queue\<close>

lemma scan_candidate_lm:
  assumes "scan_candidate bc (c, best) i = Some (c', best')"
  shows "lm c' = lm c"
proof -
  obtain e where e: "aget (pq_d (victim_line_pq (lm c))) i = Some e"
    using assms by (auto simp: scan_candidate_def bind_Some_iff)
  show ?thesis
    using assms e by (cases e; cases best) (auto simp: scan_candidate_def upd_stats_def bind_Some_iff Let_def)
qed

lemma scan_lm:
  "opt_fold (scan_candidate bc) s is = Some s' \<Longrightarrow> lm (fst s') = lm (fst s)"
proof (induction "is" arbitrary: s)
  case (Cons i "is")
  then obtain t where t: "scan_candidate bc s i = Some t" "opt_fold (scan_candidate bc) t is = Some s'"
    by (auto simp: bind_Some_iff)
  have "lm (fst t) = lm (fst s)" using t(1) scan_candidate_lm[of bc "fst s" "snd s" i "fst t" "snd t"] by simp
  then show ?case using Cons.IH[OF t(2)] by simp
qed simp

text \<open>C15. The scan of the cost-benefit policy runs one slot past the elements of the queue. When that
  slot holds what \<^verbatim>\<open>kmalloc\<close> left there, as it does in a queue that has never been full, the
  selection dereferences it: the kernel stops although the queue has a victim.\<close>

theorem cost_benefit_reads_past_queue:
  assumes "\<not> CONV_ISO_LOG_SAMPLES bc" "pqueue_peek (victim_line_pq (lm c)) = Some (Some (LPtr g))" "g < length (lines (lm c))"
    and "0 < pq_size (victim_line_pq (lm c))" "pq_size (victim_line_pq (lm c)) < length (pq_d (victim_line_pq (lm c)))"
    and "pq_d (victim_line_pq (lm c)) ! pq_size (victim_line_pq (lm c)) = LJunk"
  shows "select_victim_cost_benefit bc c True = None"
proof -
  let ?n = "pq_size (victim_line_pq (lm c))"
  have scan: "opt_fold (scan_candidate bc) (c', None) [1..<?n + 1] = None" if "lm c' = lm c" for c'
  proof -
    have "[1..<?n + 1] = [1..<?n] @ [?n]" using assms(4) by simp
    moreover have "scan_candidate bc s ?n = None" if "opt_fold (scan_candidate bc) (c', None) [1..<?n] = Some s" for s
    proof -
      have "lm (fst s) = lm c" using scan_lm[OF that] \<open>lm c' = lm c\<close> by simp
      then show ?thesis using assms(5,6) by (cases s) (simp add: scan_candidate_def)
    qed
    ultimately show ?thesis by (simp add: opt_fold_append split: bind_splits)
  qed
  have l: "lm (upd_stats f c) = lm c" for f by (simp add: upd_stats_def)
  show ?thesis
    using assms(1-4) scan[OF l]
    by (simp add: select_victim_cost_benefit_def ptr_line_def isotonic_sample_candidates_def l del: upt_Suc)
qed

definition junk_queue_ftl :: conv_ftl where
  "junk_queue_ftl = tiny_ftl\<lparr>lm := (lm tiny_ftl)\<lparr>victim_line_pq :=
     (victim_line_pq (lm tiny_ftl))\<lparr>pq_size := 2, pq_d := LJunk # LPtr 3 # replicate 7 LJunk\<rparr>,
     lines := map init_line [0..<8]\<rparr>\<rparr>"

lemma cost_benefit_reads_past_queue_witness:
  "select_victim_cost_benefit default_build junk_queue_ftl True = None"
  by (rule cost_benefit_reads_past_queue[where g = 3])
    (simp_all add: junk_queue_ftl_def default_build_def pqueue_peek_def)

text \<open>
  The cost-benefit selection when the slot past the queue is null: it returns a line of the queue
  that no other line of the queue beats, and leaves the rest of the FTL as the greedy one does, so
  that a collection succeeds.
\<close>

definition cand_score :: "gc_build \<Rightarrow> conv_ftl \<Rightarrow> nat \<Rightarrow> u64" where
  "cand_score bc c l = cost_benefit_score (lines (lm c) ! l)
     (fst (the (selected_age_value bc (line_age_ns c (lines (lm c) ! l)))))"

text \<open>A higher score, then fewer valid pages, then the smaller number.\<close>

definition beats :: "gc_build \<Rightarrow> conv_ftl \<Rightarrow> nat \<Rightarrow> nat \<Rightarrow> bool" where
  "beats bc c l k \<longleftrightarrow> better_candidate (cand_score bc c l) (lines (lm c) ! l) (cand_score bc c k) (lines (lm c) ! k)"

lemma beats_trans: "beats bc c l k \<Longrightarrow> \<not> beats bc c m k \<Longrightarrow> \<not> beats bc c m l"
  unfolding beats_def better_candidate_def
  by (auto simp: not_less)

lemma beats_irrefl: "\<not> beats bc c l l"
  by (simp add: beats_def better_candidate_def)

lemma age_value_defined: "CONV_GC_POLICY bc = GC_POLICY_AGE_CB prof \<Longrightarrow> \<exists>v k. selected_age_value bc a = Some (v, k)"
  using cb_age_value_mono[of a a prof] by (auto simp: selected_age_value_def)

definition scanned :: "gc_build \<Rightarrow> conv_ftl \<Rightarrow> nat list \<Rightarrow> conv_ftl \<times> candidate option \<Rightarrow> bool" where
  "scanned bc c ys = (\<lambda>(c', best). (\<exists>st. c' = c\<lparr>stats := st\<rparr>) \<and> (case best of None \<Rightarrow> ys = []
     | Some b \<Rightarrow> LPtr (best_line b) \<in> (\<lambda>j. pq_d (victim_line_pq (lm c)) ! j) ` set ys \<and>
         best_score b = cand_score bc c (best_line b) \<and>
         (\<forall>j \<in> set ys. \<forall>l. pq_d (victim_line_pq (lm c)) ! j = LPtr l \<longrightarrow> \<not> beats bc c l (best_line b))))"

lemma scan_step:
  assumes pol: "CONV_GC_POLICY bc = GC_POLICY_AGE_CB prof" and sc: "scanned bc c ys s"
    and i: "i < length (pq_d (victim_line_pq (lm c)))" "pq_d (victim_line_pq (lm c)) ! i = LPtr l" "l < length (lines (lm c))"
    and ok: "\<And>j. j \<in> set ys \<Longrightarrow> \<exists>k < length (lines (lm c)). pq_d (victim_line_pq (lm c)) ! j = LPtr k"
  shows "\<exists>s'. scan_candidate bc s i = Some s' \<and> scanned bc c (ys @ [i]) s'"
proof -
  obtain c' best where s: "s = (c', best)" by (cases s)
  obtain st where st: "c' = c\<lparr>stats := st\<rparr>" using sc by (auto simp: scanned_def s)
  let ?ln = "lines (lm c) ! l"
  obtain v k where v: "selected_age_value bc (line_age_ns c ?ln) = Some (v, k)" using age_value_defined[OF pol] by blast
  have age: "line_age_ns c' x = line_age_ns c x" for x by (simp add: line_age_ns_def st)
  have score: "cost_benefit_score ?ln v = cand_score bc c l" using v by (simp add: cand_score_def)
  define c2 where "c2 = upd_stats (evidence_record_candidate (line_age_ns c ?ln) k) c'"
  have c2: "\<exists>st. c2 = c\<lparr>stats := st\<rparr>" by (auto simp: c2_def upd_stats_def st)
  define new where "new = \<lparr>best_line = l, best_score = cand_score bc c l, best_age_ns = line_age_ns c ?ln, best_age_value = v,
    best_age_level = k\<rparr>"
  show ?thesis
  proof (cases best)
    case None
    have "scan_candidate bc s i = Some (c2, Some new)"
      using i v score by (simp add: scan_candidate_def s None st line_age_ns_def c2_def new_def Let_def)
    moreover have "scanned bc c (ys @ [i]) (c2, Some new)"
      using sc c2 i(2) beats_irrefl[of bc c l] by (simp add: scanned_def s None new_def)
    ultimately show ?thesis by blast
  next
    case (Some b)
    have b: "LPtr (best_line b) \<in> (\<lambda>j. pq_d (victim_line_pq (lm c)) ! j) ` set ys" "best_score b = cand_score bc c (best_line b)"
      "\<forall>j \<in> set ys. \<forall>l. pq_d (victim_line_pq (lm c)) ! j = LPtr l \<longrightarrow> \<not> beats bc c l (best_line b)"
      using sc by (simp_all add: scanned_def s Some)
    have bl: "best_line b < length (lines (lm c))" using b(1) ok by force
    have run: "scan_candidate bc s i = Some (c2, if beats bc c l (best_line b) then Some new else Some b)"
      using i v score bl b(2) by (simp add: scan_candidate_def s Some st line_age_ns_def c2_def new_def Let_def beats_def upd_stats_def)
    have "scanned bc c (ys @ [i]) (c2, if beats bc c l (best_line b) then Some new else Some b)"
    proof (cases "beats bc c l (best_line b)")
      case True
      then show ?thesis
        using c2 i(2) b(3) beats_trans[OF True] beats_irrefl[of bc c l] by (auto simp: scanned_def new_def)
    next
      case False
      then show ?thesis using c2 i(2) b by (auto simp: scanned_def)
    qed
    then show ?thesis using run by blast
  qed
qed

lemma select_cb_ok:
  assumes part: "part_inv (tt_lines (spp c)) (cls c) [] (lm c)" and vic: "victims (lm c) \<noteq> {#}"
    and log: "\<not> CONV_ISO_LOG_SAMPLES bc" and pol: "CONV_GC_POLICY bc = GC_POLICY_AGE_CB prof"
    and past: "pq_d (victim_line_pq (lm c)) ! pq_size (victim_line_pq (lm c)) = LNull"
      "pq_size (victim_line_pq (lm c)) < length (pq_d (victim_line_pq (lm c)))"
  shows "\<exists>v c'. select_victim_cost_benefit bc c True = Some (Some v, c') \<and> v \<in># victims (lm c) \<and> selected c c' v \<and>
    (\<forall>w. w \<in># victims (lm c) \<longrightarrow> \<not> beats bc c w v)"
proof -
  let ?m = "lm c" and ?q = "victim_line_pq (lm c)" and ?n = "pq_size (victim_line_pq (lm c))"
  note p = part_inv_lines[OF part]
  have ne: "pq_elems ?q \<noteq> []" using vic by (auto simp: victims_def)
  then have n: "1 < ?n" by (auto simp: pq_elems_def live_def)
  have slot: "\<exists>l < length (lines ?m). pq_d ?q ! j = LPtr l" if "j \<in> set [1..<?n]" for j
    using p(4) that by (auto simp: vq.pq_inv_def line_ok_def)
  have els: "set (pq_elems ?q) = (\<lambda>j. pq_d ?q ! j) ` set [1..<?n]"
    using past(2) by (force simp: pq_elems_def set_live)
  obtain g where g: "pqueue_peek ?q = Some (Some (LPtr g))" "g < tt_lines (spp c)"
    using peek_victim[OF part vic] by blast
  have glen: "g < length (lines ?m)" using g(2) p(1) by simp
  define c1 where "c1 = upd_stats (\<lambda>s. s\<lparr>gc_candidates_available_sum := gc_candidates_available_sum s + of_nat ?n\<rparr>) c"
  have "scanned bc c [] (c1, None)" by (auto simp: scanned_def c1_def upd_stats_def)
  then have "\<exists>s. opt_fold (scan_candidate bc) (c1, None) [1..<?n] = Some s \<and> scanned bc c [1..<?n] s"
  proof (rule opt_fold_inv[where P = "scanned bc c"])
    fix ys i zs t assume e: "[1..<?n] = ys @ i # zs" and t: "scanned bc c ys t"
    have sub: "set ys \<subseteq> set [1..<?n]" "i \<in> set [1..<?n]" unfolding e by auto
    obtain l where l: "l < length (lines ?m)" "pq_d ?q ! i = LPtr l" using slot[OF sub(2)] by blast
    have "i < length (pq_d ?q)" using sub(2) past(2) by auto
    then show "\<exists>t'. scan_candidate bc t i = Some t' \<and> scanned bc c (ys @ [i]) t'"
      by (rule scan_step[OF pol t _ l(2,1)]) (use sub slot in blast)
  qed
  then obtain c2 best where s2: "opt_fold (scan_candidate bc) (c1, None) [1..<?n] = Some (c2, best)"
    "scanned bc c [1..<?n] (c2, best)" by auto
  obtain st where st: "c2 = c\<lparr>stats := st\<rparr>" using s2(2) by (auto simp: scanned_def)
  have ne': "[1..<?n] \<noteq> []" using n by simp
  then obtain b where b: "best = Some b" "LPtr (best_line b) \<in> set (pq_elems ?q)" "best_score b = cand_score bc c (best_line b)"
    "\<forall>j \<in> set [1..<?n]. \<forall>l. pq_d ?q ! j = LPtr l \<longrightarrow> \<not> beats bc c l (best_line b)"
    using s2(2) els by (cases best) (auto simp: scanned_def)
  let ?v = "best_line b"
  have vin: "?v \<in># victims ?m" using victims_iff[OF p(4)] b(2) by simp
  have v: "?v < tt_lines (spp c)" using part_inv_facts(3)[OF part vin] by blast
  have vlen: "?v < length (lines ?m)" using v p(1) by simp
  have full: "opt_fold (scan_candidate bc) (c1, None) [1..<?n + 1] = Some (c2, Some b)"
  proof -
    have "[1..<?n + 1] = [1..<?n] @ [?n]" using n by simp
    moreover have "scan_candidate bc (c2, Some b) ?n = Some (c2, Some b)"
      using past by (simp add: scan_candidate_def st)
    ultimately show ?thesis using s2(1) b(1) by (simp add: opt_fold_append)
  qed
  obtain q ls where rm: "pqueue_remove ?q (lines ?m) (LPtr ?v) = Some (q, ls)" "vq.pq_inv q ls"
    "add_mset (LPtr ?v) (mset (pq_elems q)) = mset (pq_elems ?q)" "length (pq_d q) = length (pq_d ?q)"
    and pos: "\<And>x. x \<notin> set (pq_elems ?q) \<Longrightarrow> victim_line_get_pos ls x = victim_line_get_pos (lines ?m) x"
    and reach: "vq.spos_reach (lines ?m) ls"
    using vq.pqueue_remove_inv[OF p(4) b(2)] by (elim exE conjE) (rule that; blast)
  let ?m' = "?m\<lparr>victim_line_pq := q, lines := ls[?v := (ls ! ?v)\<lparr>ln_pos := 0\<rparr>], victim_line_cnt := victim_line_cnt ?m - 1\<rparr>"
  note lq = leave_queue[OF part rm(2-4) pos spos_reach_lines[OF reach] v refl]
  have len: "?v < length ls" using same_but_posD(1)[OF spos_reach_lines[OF reach]] vlen by simp
  have "\<exists>st. select_victim_cost_benefit bc c True = Some (Some ?v, c\<lparr>stats := st, lm := ?m'\<rparr>)"
    using g(1) glen n log full[unfolded c1_def] rm(1) len vlen
    by (intro exI) (simp add: select_victim_cost_benefit_def Let_def ptr_line_def isotonic_sample_candidates_def upd_stats_def
        upd_lm_def mod_line_def amod_def st del: upt_Suc)
  moreover have "selected c (c\<lparr>stats := st, lm := ?m'\<rparr>) ?v" for st
    unfolding selected_def using lq by (simp add: get_wp_def fun_eq_iff split: io_type.split)
  moreover have "\<not> beats bc c w ?v" if w: "w \<in># victims ?m" for w
  proof -
    have "LPtr w \<in> (\<lambda>j. pq_d ?q ! j) ` set [1..<?n]" using w victims_iff[OF p(4)] els by blast
    then show ?thesis using b(4) by force
  qed
  ultimately show ?thesis using vin by blast
qed

end
