(* ===== verification/Conv_Reclaim.thy ===== *)
theory Conv_Reclaim
  imports Conv_Scores
begin

text \<open>
  How many pages a collection frees. The pages of free lines and the unfilled part of the two
  open lines are all the free pages there are, so the budget of the invariant is the number of
  pages whose status is free.
\<close>

definition free_pages :: "conv_ftl \<Rightarrow> ppa set" where
  "free_pages c = {p \<in> pages (spp c). pst (ftl_ssd c) p = PG_FREE}"

lemma card_open_rest:
  assumes P: "params_ok P" and l: "l < tt_lines P" and n: "n \<le> pgs_per_line P"
  shows "card {p \<in> line_pages P l. n \<le> pg_order P p} = pgs_per_line P - n"
proof -
  have inj: "inj_on (pg_order P) (line_pages P l)" using pg_order_inject[OF P] by (auto intro: inj_onI)
  have sub: "pg_order P ` line_pages P l \<subseteq> {..<pgs_per_line P}" using pg_order_less[OF P] by (auto simp: line_pages_def)
  have "pg_order P ` line_pages P l = {..<pgs_per_line P}"
    by (rule card_subset_eq[OF _ sub]) (simp_all add: card_image[OF inj] card_line_pages[OF P l])
  moreover have "pg_order P ` {p \<in> line_pages P l. n \<le> pg_order P p} = {x \<in> pg_order P ` line_pages P l. n \<le> x}" by blast
  ultimately have "pg_order P ` {p \<in> line_pages P l. n \<le> pg_order P p} = {n..<pgs_per_line P}" by auto
  moreover have "inj_on (pg_order P) {p \<in> line_pages P l. n \<le> pg_order P p}" by (rule inj_on_subset[OF inj]) auto
  ultimately show ?thesis by (metis card_atLeastLessThan card_image)
qed

lemma card_free_pages:
  assumes core: "core c [] {} {} nm"
  shows "card (free_pages c) = fpages c nm"
proof -
  let ?P = "spp c" and ?f = "pst (ftl_ssd c)" and ?F = "set (free_line_list (lm c))"
  note cr = coreD[OF core]
  note u = cr(5)[unfolded use_inv_def]
  let ?A = "\<lambda>io. {p \<in> line_pages ?P (cls c io). nm io \<le> pg_order ?P p}"
  have fr: "free_pages c = (\<Union>i \<in> ?F. line_pages ?P i) \<union> (?A USER_IO \<union> ?A GC_IO)"
  proof (intro equalityI subsetI)
    fix p assume p: "p \<in> free_pages c"
    then have pp: "p \<in> line_pages ?P (unat (ppa_blk p))" "?f p = PG_FREE" by (auto simp: free_pages_def line_pages_def)
    have "unat (ppa_blk p) < tt_lines ?P" using p pages_coords(3)[OF cr(1)] by (simp add: free_pages_def)
    then consider "unat (ppa_blk p) \<in> ?F" | "unat (ppa_blk p) \<in># io_lines (cls c)"
      using part_inv_facts(7)[OF cr(3), of "unat (ppa_blk p)"] u pp by auto
    then show "p \<in> (\<Union>i \<in> ?F. line_pages ?P i) \<union> (?A USER_IO \<union> ?A GC_IO)"
    proof cases
      case 1
      then show ?thesis using pp by blast
    next
      case 2
      then obtain io where io: "unat (ppa_blk p) = cls c io" by (auto simp: io_lines_def)
      then have "p \<in> ?A io" using u pp by auto
      then show ?thesis by (cases io) auto
    qed
  next
    fix p assume "p \<in> (\<Union>i \<in> ?F. line_pages ?P i) \<union> (?A USER_IO \<union> ?A GC_IO)"
    then show "p \<in> free_pages c" using u by (auto simp: free_pages_def line_pages_def)
  qed
  have lt: "i < tt_lines ?P" if "i \<in> ?F" for i using part_inv_facts(1)[OF cr(3) that] by blast
  have "card (\<Union>i \<in> ?F. line_pages ?P i) = (\<Sum>i \<in> ?F. card (line_pages ?P i))"
    by (rule card_UN_disjoint) (auto simp: finite_ppa line_pages_def)
  also have "\<dots> = (\<Sum>i \<in> ?F. pgs_per_line ?P)" by (rule sum.cong) (use card_line_pages[OF cr(1)] lt in auto)
  also have "\<dots> = length (free_line_list (lm c)) * pgs_per_line ?P"
    using distinct_card[OF part_inv_facts(8)[OF cr(3)]] by simp
  finally have c1: "card (\<Union>i \<in> ?F. line_pages ?P i) = length (free_line_list (lm c)) * pgs_per_line ?P" .
  have cA: "card (?A io) = pgs_per_line ?P - nm io" for io
    by (rule card_open_rest[OF cr(1) cls_less(1)[OF core]]) (use u in blast)
  have "cls c USER_IO \<noteq> cls c GC_IO" by (rule part_inv_facts(6)[OF cr(3)])
  then have "card (?A USER_IO \<union> ?A GC_IO) = card (?A USER_IO) + card (?A GC_IO)"
    by (intro card_Un_disjoint) (auto simp: finite_ppa line_pages_def)
  moreover have "card (free_pages c) = card (\<Union>i \<in> ?F. line_pages ?P i) + card (?A USER_IO \<union> ?A GC_IO)"
    unfolding fr by (intro card_Un_disjoint) (use cls_less(4)[OF core] in \<open>auto simp: finite_ppa line_pages_def\<close>)
  ultimately show ?thesis using c1 cA by (simp add: fpages_def)
qed

subsection \<open>A used device\<close>

definition rewrite_page :: "conv_ftl \<Rightarrow> nat \<Rightarrow> conv_ftl option" where
  "rewrite_page c i = do { (p, c) \<leftarrow> write_page c 0; Some c }"

text \<open>The small device after the same page has been written eight times.\<close>

definition tiny_used :: conv_ftl where
  "tiny_used = the (opt_fold rewrite_page tiny_ftl [0..<8])"

lemma tiny_used_ok:
  "\<exists>nm. core tiny_used [] {} {} nm \<and> wps_ok tiny_used nm \<and> kept tiny_ftl tiny_used \<and> fpages tiny_used nm = 56 \<and>
     mapped_lpns tiny_used \<subseteq> {0} \<and> nm GC_IO = 0"
proof -
  let ?I = "\<lambda>i c. \<exists>nm. core c [] {} {} nm \<and> wps_ok c nm \<and> kept tiny_ftl c \<and> fpages c nm + i = 64 \<and>
     mapped_lpns c \<subseteq> {0} \<and> get_wp c GC_IO = get_wp tiny_ftl GC_IO"
  have T: "2 \<le> tt_lines (sp tiny_ssd)" "length (replicate 9 LJunk) = tt_lines (sp tiny_ssd) + 1" "params_ok (sp tiny_ssd)"
    by (simp_all add: tiny_ssd_ok tiny_sel tiny_params_ok)
  have init: "maptbl tiny_ftl = init_maptbl (sp tiny_ssd)" "rmap tiny_ftl = init_rmap (sp tiny_ssd)"
    "user_wp tiny_ftl = fresh_wp 0" "gc_wp tiny_ftl = fresh_wp 1"
    "lines (lm tiny_ftl) = map init_line [0..<tt_lines (sp tiny_ssd)]" "free_line_list (lm tiny_ftl) = [2..<tt_lines (sp tiny_ssd)]"
    "full_line_list (lm tiny_ftl) = []" "victims (lm tiny_ftl) = {#}"
    "vq.pq_inv (victim_line_pq (lm tiny_ftl)) (lines (lm tiny_ftl))"
    "length (pq_d (victim_line_pq (lm tiny_ftl))) = tt_lines (sp tiny_ssd) + 1" "lm_tt_lines (lm tiny_ftl) = tt_lines (sp tiny_ssd)"
    "free_line_cnt (lm tiny_ftl) = of_nat (tt_lines (sp tiny_ssd)) - 2" "victim_line_cnt (lm tiny_ftl) = 0"
    "full_line_cnt (lm tiny_ftl) = 0"
    using conv_init_eq[OF T(3,2,1), of "conv_init_params samsung_970pro"] tiny_ftl_ok(4) by auto
  have c0: "core tiny_ftl [] {} {} (\<lambda>_. 0)" "wps_ok tiny_ftl (\<lambda>_. 0)"
    using core_init[of tiny_ftl] init T tiny_ssd_ok(1) tiny_ftl_ok(3) by simp_all
  have start: "?I 0 tiny_ftl"
    using c0 tiny_ftl_ok(2,3) init(6) by (intro exI[of _ "\<lambda>_. 0"]) (simp add: fpages_def tiny_ssd_ok tiny_sel)
  have "\<exists>c. opt_fold rewrite_page tiny_ftl [0..<8] = Some c \<and> ?I 8 c"
  proof (rule opt_fold_upt[where P = ?I])
    show "?I 0 tiny_ftl" by (rule start)
    fix i t assume i: "i < (8 :: nat)" and "?I i t"
    then obtain nm where t: "core t [] {} {} nm" "wps_ok t nm" "kept tiny_ftl t" "fpages t nm + i = 64"
      "mapped_lpns t \<subseteq> {0}" "get_wp t GC_IO = get_wp tiny_ftl GC_IO" by blast
    have sp: "spp t = tiny_params" using t(3) tiny_ftl_ok(3) tiny_ssd_ok(2) by (simp add: kept_def)
    have l: "unat (0 :: u64) < tt_pgs (spp t)" "pgs_per_line (spp t) + 1 < fpages t nm"
      using sp t(4) i by (simp_all add: tiny_sel)
    obtain p c' nm' where c': "write_page t 0 = Some (p, c')" "core c' [] {} {} nm'" "wps_ok c' nm'" "kept t c'"
      "Suc (fpages c' nm') = fpages t nm" "maptbl c' = (maptbl t)[unat (0 :: u64) := p]" "get_wp c' GC_IO = get_wp t GC_IO"
      using write_page_ok[OF t(1,2) l] by (elim exE conjE) (rule that)
    have "mapped_lpns c' \<subseteq> {0}"
      using t(5) c'(4,6) by (auto simp: mapped_lpns_def kept_def nth_list_update split: if_splits)
    then have "?I (Suc i) c'" using c' t kept_trans[OF t(3) c'(4)] by (intro exI[of _ nm']) simp
    then show "\<exists>t'. rewrite_page t i = Some t' \<and> ?I (Suc i) t'" using c'(1) by (auto simp: rewrite_page_def)
  qed
  then obtain nm where u: "core tiny_used [] {} {} nm" "wps_ok tiny_used nm" "kept tiny_ftl tiny_used"
    "fpages tiny_used nm + 8 = 64" "mapped_lpns tiny_used \<subseteq> {0}" "get_wp tiny_used GC_IO = get_wp tiny_ftl GC_IO"
    by (auto simp: tiny_used_def)
  moreover have "nm GC_IO = 0"
    using u(2,6) c0(2) u(3) unfolding wps_ok_def kept_def by metis
  ultimately show ?thesis by auto
qed

lemma tiny_used_victim: "victims (lm tiny_used) \<noteq> {#}"
proof
  assume none: "victims (lm tiny_used) = {#}"
  obtain nm where u: "core tiny_used [] {} {} nm" "wps_ok tiny_used nm" "kept tiny_ftl tiny_used" "fpages tiny_used nm = 56"
    "mapped_lpns tiny_used \<subseteq> {0}" "nm GC_IO = 0"
    using tiny_used_ok by blast
  have sp: "spp tiny_used = tiny_params" using u(3) tiny_ftl_ok(3) tiny_ssd_ok(2) by (simp add: kept_def)
  have "mapped_lpns tiny_used \<subseteq> {..<1}" using u(5) by auto
  then have "length (full_line_list (lm tiny_used)) * 8 \<le> 1"
    using full_pages_le[OF u(1)] valid_pages_le[OF u(1)] sp by (auto simp: tiny_sel intro: order_trans)
  then have "length (full_line_list (lm tiny_used)) < 1" by linarith
  then have "length (free_line_list (lm tiny_used)) = 6"
    using part_inv_facts(10)[OF coreD(3)[OF u(1)]] none sp by (simp add: tiny_sel)
  then show False using u(4,6) core_nm_less[OF u(1,2), of USER_IO] sp by (simp add: fpages_def tiny_sel)
qed

lemma tiny_used_serving: "\<exists>nm. in_service 31 tiny_used nm"
proof -
  obtain nm where u: "core tiny_used [] {} {} nm" "wps_ok tiny_used nm" "kept tiny_ftl tiny_used" "fpages tiny_used nm = 56"
    "mapped_lpns tiny_used \<subseteq> {0}"
    using tiny_used_ok by blast
  obtain nm0 where i0: "in_service 31 tiny_ftl nm0" using tiny_ftl_ok(1) by (auto simp: serving_def)
  note d = in_serviceD[OF i0]
  have sp: "spp tiny_used = tiny_params" "spp tiny_ftl = tiny_params" using u(3) tiny_ftl_ok(3) tiny_ssd_ok(2) by (simp_all add: kept_def)
  have k: "wfc tiny_used = wfc tiny_ftl" "cp tiny_used = cp tiny_ftl" using u(3) by (simp_all add: kept_def)
  have "in_service 31 tiny_used nm"
    using u d sp k by (auto simp: in_service_def tiny_sel)
  then show ?thesis by blast
qed

text \<open>C4. A collection in service takes a line of the victim queue with the fewest valid pages, and
  gives back exactly its invalid pages: that many more pages are free afterwards, the write
  credits to refill are that number, and the same logical pages are mapped.\<close>

theorem gc_reclaims:
  assumes "in_service N c nm" "greedy_build bc" "victims (lm c) \<noteq> {#}"
  shows "\<exists>v c' nm'. do_gc bc c True = Some (0, c') \<and> in_service N c' nm' \<and> v \<in># victims (lm c) \<and>
    (\<forall>w. w \<in># victims (lm c) \<longrightarrow> ln_vpc (lines (lm c) ! v) \<le> ln_vpc (lines (lm c) ! w)) \<and>
    0 < ln_ipc (lines (lm c) ! v) \<and>
    card (free_pages c') = card (free_pages c) + ln_ipc (lines (lm c) ! v) \<and>
    credits_to_refill (wfc c') = of_nat (ln_ipc (lines (lm c) ! v)) \<and> mapped_lpns c' = mapped_lpns c"
proof -
  note d = in_serviceD[OF assms(1)]
  have room: "2 * pgs_per_line (spp c) \<le> fpages c nm" using d(6) by simp
  obtain v c' nm' where v: "do_gc bc c True = Some (0, c')" "core c' [] {} {} nm'" "wps_ok c' nm'" "v \<in># victims (lm c)"
    "\<forall>w. w \<in># victims (lm c) \<longrightarrow> ln_vpc (lines (lm c) ! v) \<le> ln_vpc (lines (lm c) ! w)"
    "collected c c' (ln_ipc (lines (lm c) ! v))" "fpages c' nm' = fpages c nm + ln_ipc (lines (lm c) ! v)"
    using do_gc_greedy[OF d(1,2) assms(3) room] assms(2) unfolding greedy_build_def by blast
  note g = v(6)[unfolded collected_def]
  have cr: "unat (of_nat (ln_ipc (lines (lm c) ! v)) :: u32) = ln_ipc (lines (lm c) ! v)"
    using g params_okD(11)[OF coreD(1)[OF d(1)]] by (intro unat_of_nat_less) simp
  have m: "mapped_lpns c' = mapped_lpns c" using g by (auto simp: mapped_lpns_def)
  have "in_service N c' nm'"
    unfolding in_service_def using v(2,3,7) d(3-6,9) m g cr by simp
  moreover have "card (free_pages c') = card (free_pages c) + ln_ipc (lines (lm c) ! v)"
    using card_free_pages[OF v(2)] card_free_pages[OF d(1)] v(7) by simp
  ultimately show ?thesis using v g m by blast
qed

lemma gc_reclaims_witness:
  "\<exists>v c' nm'. do_gc default_build tiny_used True = Some (0, c') \<and> in_service 31 c' nm' \<and> v \<in># victims (lm tiny_used) \<and>
    (\<forall>w. w \<in># victims (lm tiny_used) \<longrightarrow> ln_vpc (lines (lm tiny_used) ! v) \<le> ln_vpc (lines (lm tiny_used) ! w)) \<and>
    0 < ln_ipc (lines (lm tiny_used) ! v) \<and>
    card (free_pages c') = card (free_pages tiny_used) + ln_ipc (lines (lm tiny_used) ! v) \<and>
    credits_to_refill (wfc c') = of_nat (ln_ipc (lines (lm tiny_used) ! v)) \<and> mapped_lpns c' = mapped_lpns tiny_used"
  using gc_reclaims[OF _ greedy_default tiny_used_victim, of 31] tiny_used_serving by blast

text \<open>Under a cost-benefit policy the victim is a line of the queue that no other line of the queue
  beats, provided the slot past the queue happens to be null.\<close>

theorem cost_benefit_selects_best:
  assumes "in_service N c nm" "victims (lm c) \<noteq> {#}" "\<not> CONV_ISO_LOG_SAMPLES bc"
    and "CONV_GC_POLICY bc = GC_POLICY_AGE_CB prof"
    and "aget (pq_d (victim_line_pq (lm c))) (pq_size (victim_line_pq (lm c))) = Some LNull"
  shows "\<exists>v c'. select_victim_cost_benefit bc c True = Some (Some v, c') \<and> v \<in># victims (lm c) \<and>
    add_mset v (victims (lm c')) = victims (lm c) \<and> (\<forall>w. w \<in># victims (lm c) \<longrightarrow> \<not> beats bc c w v)"
  using select_cb_ok[OF coreD(3)[OF in_serviceD(1)[OF assms(1)]] assms(2-4)] assms(5)
  unfolding selected_def left_queue_def aget_Some_iff by blast

definition null_past :: "conv_ftl \<Rightarrow> conv_ftl" where
  "null_past c = c\<lparr>lm := (lm c)\<lparr>victim_line_pq := (victim_line_pq (lm c))
     \<lparr>pq_d := (pq_d (victim_line_pq (lm c)))[pq_size (victim_line_pq (lm c)) := LNull]\<rparr>\<rparr>\<rparr>"

lemma live_past: "live n (d[n := x]) = live n d"
  by (auto simp: live_def intro!: nth_equalityI)

lemma null_past_pq:
  assumes "vq.pq_inv q ls"
  shows "vq.pq_inv (q\<lparr>pq_d := (pq_d q)[pq_size q := LNull]\<rparr>) ls"
  using assms by (auto simp: vq.pq_inv_def vq.uses_def vq.heap_except_def)

lemma null_past_service:
  assumes "in_service N c nm"
  shows "in_service N (null_past c) nm"
proof -
  note cr = coreD[OF in_serviceD(1)[OF assms]]
  have v: "victims (lm (null_past c)) = victims (lm c)" by (simp add: null_past_def victims_def pq_elems_def live_past)
  have same: "ftl_ssd (null_past c) = ftl_ssd c" "maptbl (null_past c) = maptbl c" "rmap (null_past c) = rmap c"
    "cp (null_past c) = cp c" "wfc (null_past c) = wfc c" "lines (lm (null_past c)) = lines (lm c)"
    "free_line_list (lm (null_past c)) = free_line_list (lm c)" "full_line_list (lm (null_past c)) = full_line_list (lm c)"
    "get_wp (null_past c) = get_wp c" "cls (null_past c) = cls c"
    by (auto simp: null_past_def get_wp_def fun_eq_iff split: io_type.split)
  have "part_inv (tt_lines (spp c)) (cls c) [] (lm (null_past c))"
    using cr(3) v null_past_pq[of "victim_line_pq (lm c)" "lines (lm c)"] unfolding part_inv_def by (simp add: null_past_def)
  then have "core (null_past c) [] {} {} nm"
    using cr same v by (simp add: core_def cnt_inv_def use_inv_def)
  then show ?thesis
    using assms same by (simp add: in_service_def wps_ok_def fpages_def mapped_lpns_def)
qed

definition cb_build :: gc_build where
  "cb_build = default_build\<lparr>CONV_GC_POLICY := GC_POLICY_AGE_CB CAT7\<rparr>"

lemma cost_benefit_selects_best_witness:
  "\<exists>v c'. select_victim_cost_benefit cb_build (null_past tiny_used) True = Some (Some v, c') \<and>
    v \<in># victims (lm (null_past tiny_used)) \<and> add_mset v (victims (lm c')) = victims (lm (null_past tiny_used)) \<and>
    (\<forall>w. w \<in># victims (lm (null_past tiny_used)) \<longrightarrow> \<not> beats cb_build (null_past tiny_used) w v)"
proof -
  obtain nm where i: "in_service 31 tiny_used nm" using tiny_used_serving by blast
  have v: "victims (lm (null_past tiny_used)) \<noteq> {#}"
    using tiny_used_victim by (simp add: null_past_def victims_def pq_elems_def live_past)
  note part = coreD(3)[OF in_serviceD(1)[OF i], unfolded part_inv_def]
  have "size (victims (lm tiny_used)) < tt_lines (spp tiny_used)"
    using part_inv_facts(10)[OF coreD(3)[OF in_serviceD(1)[OF i]]] by simp
  then have "length (pq_elems (victim_line_pq (lm tiny_used))) < tt_lines (spp tiny_used)" by (simp add: victims_def)
  then have "pq_size (victim_line_pq (lm tiny_used)) < length (pq_d (victim_line_pq (lm tiny_used)))"
    using part by (simp add: pq_elems_def)
  then have "aget (pq_d (victim_line_pq (lm (null_past tiny_used)))) (pq_size (victim_line_pq (lm (null_past tiny_used)))) = Some LNull"
    by (simp add: null_past_def)
  then show ?thesis
    using cost_benefit_selects_best[OF null_past_service[OF i] v, of cb_build CAT7] by (simp add: cb_build_def default_build_def)
qed

end
