(* ===== verification/Ssd_Correct.thy ===== *)
theory Ssd_Correct
  imports Conv_Reclaim
begin

text \<open>
  The properties of the layers under the FTL: the priority queue, the bandwidth model of the
  channels, the NAND commands, the write buffer and the geometry.
\<close>

subsection \<open>The queue of victim lines\<close>

text \<open>C16. Popping the victim queue returns an element of least priority, takes exactly that one out
  of it, and leaves a queue that the code's own validity check accepts.\<close>

theorem pqueue_pop_least:
  assumes "vq.pq_inv q ls" "pq_elems q \<noteq> []"
  shows "\<exists>e q' ls'. pqueue_pop q ls = Some (Some e, q', ls') \<and> vq.pq_inv q' ls' \<and> pqueue_is_valid q' ls' \<and>
    add_mset e (mset (pq_elems q')) = mset (pq_elems q) \<and>
    (\<forall>x \<in> set (pq_elems q). victim_line_get_pri ls e \<le> victim_line_get_pri ls x)"
proof -
  obtain e q' ls' where p: "pqueue_pop q ls = Some (Some e, q', ls')" "pqueue_peek q = Some (Some e)" "vq.pq_inv q' ls'"
    "add_mset e (mset (pq_elems q')) = mset (pq_elems q)"
    using vq.pqueue_pop_inv[OF assms] by (elim exE conjE) (rule that)
  moreover have "\<forall>x \<in> set (pq_elems q). victim_line_get_pri ls e \<le> victim_line_get_pri ls x"
    using vq.pqueue_peek_least[OF assms(1)] p(2) by auto
  ultimately show ?thesis using vq.pq_inv_valid[OF p(3)] by blast
qed

definition one_queue :: "(line list, line_ptr) pqueue" where
  "one_queue = (pqueue_init 2 [LNull, LPtr 0, LNull] victim_line_cmp_pri victim_line_get_pri victim_line_set_pri
     victim_line_get_pos victim_line_set_pos)\<lparr>pq_size := 2\<rparr>"

lemma pqueue_pop_least_witness:
  "\<exists>e q' ls'. pqueue_pop one_queue [(init_line 0)\<lparr>ln_pos := 1\<rparr>] = Some (Some e, q', ls') \<and> vq.pq_inv q' ls' \<and>
    pqueue_is_valid q' ls' \<and> add_mset e (mset (pq_elems q')) = mset (pq_elems one_queue) \<and>
    (\<forall>x \<in> set (pq_elems one_queue). victim_line_get_pri [(init_line 0)\<lparr>ln_pos := 1\<rparr>] e \<le>
       victim_line_get_pri [(init_line 0)\<lparr>ln_pos := 1\<rparr>] x)"
  by (rule pqueue_pop_least)
    (auto simp: one_queue_def vq.pq_inv_def vq.uses_def vq.heap_except_def pqueue_init_def line_ok_def pq_elems_def live_def
      victim_line_get_pos_def line_at_def less_Suc_eq)

text \<open>Inserting a line that is not queued adds exactly it; a change of priority keeps the elements
  and changes that priority alone. Both keep the heap.\<close>

theorem pqueue_insert_adds:
  assumes "vq.pq_inv q ls" "pq_size q < length (pq_d q)" "i < length ls" "LPtr i \<notin> set (pq_elems q)"
  shows "\<exists>q' ls'. pqueue_insert q ls (LPtr i) = Some (q', ls') \<and> vq.pq_inv q' ls' \<and>
    mset (pq_elems q') = add_mset (LPtr i) (mset (pq_elems q)) \<and> victim_line_get_pri ls' = victim_line_get_pri ls"
proof -
  have "line_ok ls (LPtr i)" using assms(3) by (simp add: line_ok_def)
  from vq.pqueue_insert_inv[OF assms(1,2) this assms(4)] show ?thesis by blast
qed

lemma pqueue_insert_adds_witness:
  "\<exists>q' ls'. pqueue_insert one_queue [(init_line 0)\<lparr>ln_pos := 1\<rparr>, init_line 1] (LPtr 1) = Some (q', ls') \<and> vq.pq_inv q' ls' \<and>
    mset (pq_elems q') = add_mset (LPtr 1) (mset (pq_elems one_queue)) \<and>
    victim_line_get_pri ls' = victim_line_get_pri [(init_line 0)\<lparr>ln_pos := 1\<rparr>, init_line 1]"
  by (rule pqueue_insert_adds)
    (auto simp: one_queue_def vq.pq_inv_def vq.uses_def vq.heap_except_def pqueue_init_def line_ok_def pq_elems_def live_def
      victim_line_get_pos_def line_at_def less_Suc_eq)

subsection \<open>The channel model\<close>

text \<open>A transfer request on a channel always ends, answers a time of the form request time plus
  latency, and keeps the ring of credits within its bounds.\<close>

theorem chmodel_request_total:
  assumes "chm_inv ch"
  shows "\<exists>lat ch'. chmodel_request ch now t len = Some (t + lat, ch') \<and> chm_inv ch' \<and> cur_time ch' = now"
  using chmodel_request_inv[OF assms, of now t len] by blast

lemma chmodel_request_total_witness:
  "\<exists>lat ch'. chmodel_request (pcie tiny_ssd) 5000 9000 4096 = Some (9000 + lat, ch') \<and> chm_inv ch' \<and> cur_time ch' = 5000"
  by (rule chmodel_request_total) (use tiny_ssd_ok(1) in \<open>simp add: fresh_def ssd_inv_def\<close>)

text \<open>C17. The loop that books a transfer takes from the ring exactly the credits it does not report as
  missing, from no slot more than it had, and misses some only after it has walked the whole ring.\<close>

theorem credit_loop_conserves:
  assumes "hp < ring_len" "pos < ring_len"
  shows "\<exists>av' pos' missing d. credit_loop hp av pos r 0 = Some (av', pos', missing, d) \<and> missing \<le> r \<and>
    total_credits av = total_credits av' + (r - missing) \<and> (\<forall>k. unat (av' k) \<le> unat (av k)) \<and>
    (missing \<noteq> 0 \<longrightarrow> ring_dist hp pos' = ring_len - 1)"
  using credit_loop_post[OF assms, of av r 0] by blast

lemma credit_loop_conserves_witness:
  "\<exists>av' pos' missing d. credit_loop 0 (\<lambda>_. 26) 3 100 0 = Some (av', pos', missing, d) \<and> missing \<le> 100 \<and>
    total_credits (\<lambda>_. 26) = total_credits av' + (100 - missing) \<and> (\<forall>k. unat (av' k) \<le> unat (26 :: u8)) \<and>
    (missing \<noteq> 0 \<longrightarrow> ring_dist 0 pos' = ring_len - 1)"
  by (rule credit_loop_conserves) (simp_all add: ring_len_eq)

subsection \<open>NAND commands\<close>

text \<open>A NAND command on a LUN of the device returns a completion time and changes nothing of the
  stored data: every page and block reads as before, and the shape of the device is kept.\<close>

theorem ssd_advance_nand_total:
  assumes "ssd_inv s" "time_params (sp s)" "nc_ppa n \<in> pages (sp s)" "nc_cmd n = NAND_READ \<longrightarrow> xfer_size n \<noteq> 0"
  shows "\<exists>t s'. ssd_advance_nand s n = Some (t, s') \<and> ssd_inv s' \<and> get_pg s' = get_pg s \<and> get_blk s' = get_blk s \<and>
    write_buffer s' = write_buffer s"
proof -
  have "lun_in_range (sp s) (nc_ppa n)"
    using assms(3) by (simp add: lun_in_range_def pages_def pg_in_range_def blk_in_range_def)
  then obtain t s' where "ssd_advance_nand s n = Some (t, s')" "ssd_inv s'" "nand_same s s'"
    using ssd_advance_nand_ok[OF assms(1,2), of n] assms(4) by blast
  then show ?thesis using nand_same_pg[of s s'] nand_same_blk[of s s'] unfolding nand_same_def by blast
qed

lemma ssd_advance_nand_total_witness:
  "\<exists>t s'. ssd_advance_nand tiny_ssd (gc_nand_cmd NAND_READ 4096 (tiny_page 1 0 1 0)) = Some (t, s') \<and> ssd_inv s' \<and>
    get_pg s' = get_pg tiny_ssd \<and> get_blk s' = get_blk tiny_ssd \<and> write_buffer s' = write_buffer tiny_ssd"
proof (rule ssd_advance_nand_total)
  show "ssd_inv tiny_ssd" using tiny_ssd_ok(1) by (simp add: fresh_def)
  show "time_params (sp tiny_ssd)" using tiny_params_ok tiny_ssd_ok(2) by (simp add: params_ok_def)
  show "nc_ppa (gc_nand_cmd NAND_READ 4096 (tiny_page 1 0 1 0)) \<in> pages (sp tiny_ssd)"
    by (simp add: gc_nand_cmd_def tiny_ssd_ok(2) pages_def pg_in_range_def blk_in_range_def tiny_page_def tiny_sel)
qed (simp add: gc_nand_cmd_def)

subsection \<open>The write buffer\<close>

text \<open>Space allocated from the write buffer and released again restores it; an allocation that
  does not fit answers 0 and takes nothing.\<close>

theorem buffer_allocate_release:
  assumes "sz \<le> buf_size buf" "sz < 2 ^ 32"
  shows "\<exists>a buf'. buffer_allocate buf sz = Some (a, buf') \<and>
    (if remaining buf < sz then a = 0 \<and> buf' = buf
     else unat a = unat sz \<and> unat (remaining buf') + unat sz = unat (remaining buf) \<and> buffer_release buf' sz = buf)"
proof (cases "remaining buf < sz")
  case True
  then show ?thesis using assms(1) by (auto simp: buffer_allocate_def Let_def)
next
  case False
  have "unat sz < 2 ^ 32" using assms(2) by (simp add: word_less_nat_alt)
  then have "unat (ucast sz :: u32) = unat sz" by (simp add: unsigned_ucast_eq unsigned_take_bit_eq take_bit_nat_eq_self)
  moreover have "unat (remaining buf - sz) + unat sz = unat (remaining buf)"
    using False by (simp add: unat_sub_le not_less word_le_nat_alt)
  ultimately show ?thesis using False assms(1) by (simp add: buffer_allocate_def buffer_release_def Let_def)
qed

lemma buffer_allocate_release_witness:
  "\<exists>a buf'. buffer_allocate (buffer_init 8192) 4096 = Some (a, buf') \<and>
    (if remaining (buffer_init 8192) < 4096 then a = 0 \<and> buf' = buffer_init 8192
     else unat a = unat (4096 :: u64) \<and> unat (remaining buf') + unat (4096 :: u64) = unat (remaining (buffer_init 8192)) \<and>
       buffer_release buf' 4096 = buffer_init 8192)"
  by (rule buffer_allocate_release) (simp_all add: buffer_init_def)

subsection \<open>Addresses and geometry\<close>

text \<open>The bit fields of a physical address and its 64-bit word are two readings of the same
  value: each is recovered from the other.\<close>

theorem ppa_roundtrip: "word_ppa (ppa_word p) = p \<and> ppa_word (word_ppa w) = w"
  by (simp add: word_ppa_word ppa_word_ppa)

text \<open>Initialising the parameters either stops or gives a consistent geometry with at least the
  capacity asked for, in every configuration.\<close>

theorem ssd_init_params_sound:
  assumes "ssd_init_params cfg cap np = Some P"
  shows "geometry P \<and> cap div np \<le> tt_secs P * secsz P"
  using ssd_init_params_geometry[OF assms] ssd_init_params_capacity[OF assms] by simp

lemma ssd_init_params_sound_witness:
  "\<exists>P. ssd_init_params samsung_970pro (2 ^ 30) 1 = Some P \<and> geometry P \<and> 2 ^ 30 div 1 \<le> tt_secs P * secsz P"
proof -
  obtain P where P: "ssd_init_params samsung_970pro (2 ^ 30) 1 = Some P"
    using samsung_params[of "2 ^ 30"] by auto
  then show ?thesis using ssd_init_params_sound[OF P] by blast
qed

text \<open>The default configuration: 32 lines of 192 pages for each oneshot page of a block.\<close>

lemma default_geometry:
  assumes "cap \<le> 2 ^ 43"
  shows "\<exists>P. ssd_init_params samsung_970pro cap 1 = Some P \<and> geometry P \<and> nchs P = 8 \<and> luns_per_ch P = 2 \<and>
    pls_per_lun P = 1 \<and> blks_per_pl P = 32 \<and> tt_lines P = 32 \<and>
    pgs_per_blk P = 12 * (((cap + 511) div 512 + 49151) div 49152) \<and>
    pgs_per_line P = 192 * (((cap + 511) div 512 + 49151) div 49152) \<and> time_params P"
proof -
  obtain P where P: "ssd_init_params samsung_970pro cap 1 = Some P" "nchs P = 8" "luns_per_ch P = 2" "pls_per_lun P = 1"
    "blks_per_pl P = 32" "pgs_per_flashpg P = 4" "tt_lines P = 32" "cell_mode P = 3" "pgs_per_oneshotpg P = 12"
    "oneshotpgs_per_blk P = ((cap + 511) div 512 + 49151) div 49152"
    using samsung_params[OF assms] by blast
  note g = ssd_init_params_geometry[OF P(1), unfolded geometry_def]
  obtain b o' os kf f where "P = ssd_fill_params samsung_970pro (8 div 1) b o' os kf f"
    using ssd_init_params_fields[OF P(1)] by (auto simp: samsung_970pro_def)
  then have "pg_4kb_rd_lat P = [45000, 45000, 45000]" "pg_rd_lat P = [45000, 45000, 45000]" "max_ch_xfer_size P = 16384"
    by (simp_all add: ssd_fill_params_def Let_def samsung_970pro_def KB_def)
  then have "time_params P" using P(6,8) by (simp add: time_params_def)
  then show ?thesis using P g ssd_init_params_geometry[OF P(1)] by (intro exI[of _ P]) simp
qed

text \<open>Up to 128 GB the default configuration meets what the FTL needs of its geometry: one plane
  per LUN, coordinates that fit the fields of an address, and sizes below \<open>2\<^sup>3\<^sup>2\<close>.\<close>

theorem default_params_ok:
  assumes "0 < cap" "cap \<le> 128 * 10 ^ 9"
  shows "\<exists>P. ssd_init_params samsung_970pro cap 1 = Some P \<and> params_ok P"
proof -
  let ?n = "((cap + 511) div 512 + 49151) div 49152"
  have "cap \<le> 2 ^ 43" using assms(2) by simp
  from default_geometry[OF this] obtain P where P: "ssd_init_params samsung_970pro cap 1 = Some P" "geometry P" "nchs P = 8"
    "luns_per_ch P = 2" "pls_per_lun P = 1" "blks_per_pl P = 32" "tt_lines P = 32" "pgs_per_blk P = 12 * ?n"
    "pgs_per_line P = 192 * ?n" "time_params P" by blast
  have "(cap + 511) div 512 \<le> 250000001" using assms(2) by simp
  then have n: "?n \<le> 5461" by simp
  have "0 < (cap + 511) div 512" using assms(1) by (simp add: div_greater_zero_iff)
  then have "0 < ?n" by (simp add: div_greater_zero_iff)
  moreover have "tt_pgs P = 32 * (192 * ?n)" using P(2,7,9) by (simp add: geometry_def)
  ultimately have "params_ok P" unfolding params_ok_def using P n by simp
  then show ?thesis using P(1) by blast
qed

lemma default_params_ok_witness:
  "\<exists>P. ssd_init_params samsung_970pro (4 * 10 ^ 9) 1 = Some P \<and> params_ok P"
  by (rule default_params_ok) simp_all

text \<open>From 128 GiB on it does not: a block has more pages than the 16-bit page field of an address
  can tell apart, so two pages of one block have the same address.\<close>

theorem default_page_field_overflows:
  assumes "2 ^ 37 \<le> cap" "cap \<le> 2 ^ 43"
  shows "\<exists>P pg pg'. ssd_init_params samsung_970pro cap 1 = Some P \<and> pg < pgs_per_blk P \<and> pg' < pgs_per_blk P \<and> pg \<noteq> pg' \<and>
    (of_nat pg :: u16) = of_nat pg'"
proof -
  let ?n = "((cap + 511) div 512 + 49151) div 49152"
  obtain P where P: "ssd_init_params samsung_970pro cap 1 = Some P" "pgs_per_blk P = 12 * ?n"
    using default_geometry[OF assms(2)] by blast
  have "2 ^ 37 div 512 \<le> (cap + 511) div 512" using assms(1) by (intro div_le_mono) simp
  then have "5462 \<le> ?n" by simp
  then have "65536 < pgs_per_blk P" using P(2) by simp
  moreover have "(of_nat 0 :: u16) = of_nat 65536" by simp
  ultimately show ?thesis using P(1) by (metis less_trans zero_less_numeral zero_neq_numeral)
qed

lemma default_page_field_overflows_witness:
  "\<exists>P pg pg'. ssd_init_params samsung_970pro (2 ^ 38) 1 = Some P \<and> pg < pgs_per_blk P \<and> pg' < pgs_per_blk P \<and> pg \<noteq> pg' \<and>
    (of_nat pg :: u16) = of_nat pg'"
  by (rule default_page_field_overflows) simp_all

end
