(* ===== verification/Zns_State.thy ===== *)
theory Zns_State
  imports Conv_IO
begin

unbundle bit_operations_syntax

text \<open>
  The zoned namespace of \<^verbatim>\<open>nvme_zns.h\<close>, \<^verbatim>\<open>zns_ftl.h\<close> and \<^verbatim>\<open>zns_ftl.c\<close>: zone descriptors, the
  counters of zone resources, the conversions between addresses, and the initialisation. A
  namespace has one instance of the FTL. Sizes keep the 32 bits of their \<^verbatim>\<open>uint32_t\<close> and
  addresses their 64: a product of two 32-bit values wraps before it is widened.
\<close>

subsection \<open>Constants and descriptors\<close>

datatype zone_state = ZONE_STATE_EMPTY | ZONE_STATE_OPENED_IMPL | ZONE_STATE_OPENED_EXPL |
  ZONE_STATE_CLOSED | ZONE_STATE_READ_ONLY | ZONE_STATE_FULL | ZONE_STATE_OFFLINE

fun zone_state_code :: "zone_state \<Rightarrow> u8" where
  "zone_state_code ZONE_STATE_EMPTY = 0x1"
| "zone_state_code ZONE_STATE_OPENED_IMPL = 0x2"
| "zone_state_code ZONE_STATE_OPENED_EXPL = 0x3"
| "zone_state_code ZONE_STATE_CLOSED = 0x4"
| "zone_state_code ZONE_STATE_READ_ONLY = 0xD"
| "zone_state_code ZONE_STATE_FULL = 0xE"
| "zone_state_code ZONE_STATE_OFFLINE = 0xF"

datatype zone_resource_type = ACTIVE_ZONE | OPEN_ZONE | ZRWA_ZONE

definition ZONE_TYPE_SEQ_WRITE_REQUIRED :: u8 where "ZONE_TYPE_SEQ_WRITE_REQUIRED = 0x2"

definition NVME_SCT_CMD_SPECIFIC_STATUS :: u32 where "NVME_SCT_CMD_SPECIFIC_STATUS = 1"
definition NVME_SC_INVALID_FIELD :: u32 where "NVME_SC_INVALID_FIELD = 2"

definition NVME_SC_ZNS_INVALID_ZONE_OPERATION :: u32 where
  "NVME_SC_ZNS_INVALID_ZONE_OPERATION = push_bit 8 NVME_SCT_CMD_SPECIFIC_STATUS OR 0xB6"
definition NVME_SC_ZNS_ZRWA_RSRC_UNAVAIL :: u32 where
  "NVME_SC_ZNS_ZRWA_RSRC_UNAVAIL = NVME_SC_ZNS_INVALID_ZONE_OPERATION + 1"
definition NVME_SC_ZNS_ERR_BOUNDARY :: u32 where
  "NVME_SC_ZNS_ERR_BOUNDARY = NVME_SC_ZNS_INVALID_ZONE_OPERATION + 2"
definition NVME_SC_ZNS_ERR_FULL :: u32 where
  "NVME_SC_ZNS_ERR_FULL = NVME_SC_ZNS_INVALID_ZONE_OPERATION + 3"
definition NVME_SC_ZNS_ERR_READ_ONLY :: u32 where
  "NVME_SC_ZNS_ERR_READ_ONLY = NVME_SC_ZNS_INVALID_ZONE_OPERATION + 4"
definition NVME_SC_ZNS_ERR_OFFLINE :: u32 where
  "NVME_SC_ZNS_ERR_OFFLINE = NVME_SC_ZNS_INVALID_ZONE_OPERATION + 5"
definition NVME_SC_ZNS_INVALID_WRITE :: u32 where
  "NVME_SC_ZNS_INVALID_WRITE = NVME_SC_ZNS_INVALID_ZONE_OPERATION + 6"
definition NVME_SC_ZNS_NO_ACTIVE_ZONE :: u32 where
  "NVME_SC_ZNS_NO_ACTIVE_ZONE = NVME_SC_ZNS_INVALID_ZONE_OPERATION + 7"
definition NVME_SC_ZNS_NO_OPEN_ZONE :: u32 where
  "NVME_SC_ZNS_NO_OPEN_ZONE = NVME_SC_ZNS_INVALID_ZONE_OPERATION + 8"
definition NVME_SC_ZNS_INVALID_TRANSITION :: u32 where
  "NVME_SC_ZNS_INVALID_TRANSITION = NVME_SC_ZNS_INVALID_ZONE_OPERATION + 9"

lemmas zns_status_defs = NVME_SC_ZNS_INVALID_ZONE_OPERATION_def NVME_SC_ZNS_ZRWA_RSRC_UNAVAIL_def
  NVME_SC_ZNS_ERR_BOUNDARY_def NVME_SC_ZNS_ERR_FULL_def NVME_SC_ZNS_ERR_READ_ONLY_def
  NVME_SC_ZNS_ERR_OFFLINE_def NVME_SC_ZNS_INVALID_WRITE_def NVME_SC_ZNS_NO_ACTIVE_ZONE_def
  NVME_SC_ZNS_NO_OPEN_ZONE_def NVME_SC_ZNS_INVALID_TRANSITION_def NVME_SCT_CMD_SPECIFIC_STATUS_def
  NVME_SC_INVALID_FIELD_def NVME_SC_SUCCESS_def

text \<open>
  A descriptor. Of the zone attributes only \<^verbatim>\<open>zrwav\<close> is ever written; the other bits and the
  reserved words keep the zeros of \<^verbatim>\<open>kzalloc\<close>.
\<close>

record zone_descriptor =
  zd_type :: u8
  zd_state :: zone_state
  zrwav :: bool
  zone_capacity :: u64
  zslba :: u64
  zd_wp :: u64

record znsparams =
  nr_zones :: u32
  nr_active_zones :: u32
  nr_open_zones :: u32
  dies_per_zone :: u32
  zone_size :: u32
  zone_wb_size :: u32
  nr_zrwa_zones :: u32
  zrwafg_size :: u32
  zrwa_size :: u32
  zrwa_buffer_size :: u32
  lbas_per_zrwafg :: u32
  lbas_per_zrwa :: u32

record zone_resource_info =
  acquired_cnt :: u32
  total_cnt :: u32

text \<open>
  \<open>storage\<close> is the memory at \<^verbatim>\<open>storage_base_addr\<close>, by offset; \<open>report_buffer\<close> the bytes of the
  block that reports are built in. The two arrays of buffers are empty when their configuration
  does not allocate them.
\<close>

record zns_ftl =
  zns_ssd :: ssd
  zp :: znsparams
  res_infos :: "zone_resource_type \<Rightarrow> zone_resource_info"
  zone_descs :: "zone_descriptor list"
  report_buffer :: "u8 list"
  zone_write_buffer :: "buffer list"
  zrwa_buffer :: "buffer list"
  storage :: "nat \<Rightarrow> u8"

abbreviation zsp :: "zns_ftl \<Rightarrow> ssdparams" where "zsp z \<equiv> sp (zns_ssd z)"

subsection \<open>Resources and states\<close>

definition get_storage_addr_from_zid :: "zns_ftl \<Rightarrow> u64 \<Rightarrow> u64" where
  "get_storage_addr_from_zid z zid = zid * ucast (zone_size (zp z))"

definition is_zone_resource_avail :: "zns_ftl \<Rightarrow> zone_resource_type \<Rightarrow> bool" where
  "is_zone_resource_avail z t \<longleftrightarrow> acquired_cnt (res_infos z t) < total_cnt (res_infos z t)"

definition is_zone_resource_full :: "zns_ftl \<Rightarrow> zone_resource_type \<Rightarrow> bool" where
  "is_zone_resource_full z t \<longleftrightarrow> acquired_cnt (res_infos z t) = total_cnt (res_infos z t)"

definition add_acquired :: "zone_resource_type \<Rightarrow> u32 \<Rightarrow> zns_ftl \<Rightarrow> zns_ftl" where
  "add_acquired t n z = z\<lparr>res_infos := (res_infos z)
     (t := (res_infos z t)\<lparr>acquired_cnt := acquired_cnt (res_infos z t) + n\<rparr>)\<rparr>"

definition acquire_zone_resource :: "zns_ftl \<Rightarrow> zone_resource_type \<Rightarrow> bool \<times> zns_ftl" where
  "acquire_zone_resource z t =
     (if is_zone_resource_avail z t then (True, add_acquired t 1 z) else (False, z))"

text \<open>The \<^verbatim>\<open>ASSERT\<close> in it is an empty macro: the counter of a resource nobody holds wraps.\<close>

definition release_zone_resource :: "zns_ftl \<Rightarrow> zone_resource_type \<Rightarrow> zns_ftl" where
  "release_zone_resource z t = add_acquired t (- 1) z"

text \<open>The array of descriptors: an access outside it is \<open>None\<close>.\<close>

definition get_zone :: "zns_ftl \<Rightarrow> u64 \<Rightarrow> zone_descriptor option" where
  "get_zone z zid = aget (zone_descs z) (unat zid)"

definition upd_zone :: "(zone_descriptor \<Rightarrow> zone_descriptor) \<Rightarrow> u64 \<Rightarrow> zns_ftl \<Rightarrow> zns_ftl option" where
  "upd_zone f zid z = do {
     ds \<leftarrow> amod (zone_descs z) (unat zid) (\<lambda>d. Some (f d));
     Some (z\<lparr>zone_descs := ds\<rparr>)
   }"

definition change_zone_state :: "zns_ftl \<Rightarrow> u32 \<Rightarrow> zone_state \<Rightarrow> zns_ftl option" where
  "change_zone_state z zid st = upd_zone (\<lambda>d. d\<lparr>zd_state := st\<rparr>) (ucast zid) z"

subsection \<open>Addresses\<close>

text \<open>The divisors are constants of the build; none of them is 0 in a namespace that was initialised.\<close>

definition lpn_to_zone :: "zns_ftl \<Rightarrow> u64 \<Rightarrow> u32" where
  "lpn_to_zone z lpn = ucast (lpn div ucast (zone_size (zp z) div of_nat (pgsz (zsp z))))"

definition zone_to_slpn :: "zns_ftl \<Rightarrow> u32 \<Rightarrow> u64" where
  "zone_to_slpn z zid = ucast (zid * (zone_size (zp z) div of_nat (pgsz (zsp z))))"

definition lba_to_zone :: "zns_ftl \<Rightarrow> u64 \<Rightarrow> u32" where
  "lba_to_zone z lba = ucast (lba div ucast (zone_size (zp z) div of_nat (secsz (zsp z))))"

definition zone_to_slba :: "zns_ftl \<Rightarrow> u32 \<Rightarrow> u64" where
  "zone_to_slba z zid = ucast (zid * (zone_size (zp z) div of_nat (secsz (zsp z))))"

definition zone_to_elba :: "zns_ftl \<Rightarrow> u32 \<Rightarrow> u64" where
  "zone_to_elba z zid = zone_to_slba z (zid + 1) - 1"

definition zone_to_elpn :: "zns_ftl \<Rightarrow> u32 \<Rightarrow> u64" where
  "zone_to_elpn z zid = zone_to_elba z zid div of_nat (secs_per_pg (zsp z))"

definition die_to_channel :: "zns_ftl \<Rightarrow> u32 \<Rightarrow> u32" where
  "die_to_channel z die = die mod of_nat (nchs (zsp z))"

definition die_to_lun :: "zns_ftl \<Rightarrow> u32 \<Rightarrow> u32" where
  "die_to_lun z die = die div of_nat (nchs (zsp z))"

definition lba_to_lpn :: "zns_ftl \<Rightarrow> u64 \<Rightarrow> u64" where
  "lba_to_lpn z lba = lba div of_nat (secs_per_pg (zsp z))"

subsection \<open>Initialisation\<close>

definition BYTE_TO_LBA :: "u32 \<Rightarrow> u32" where "BYTE_TO_LBA b = drop_bit 9 b"

definition init_desc :: "u32 \<Rightarrow> u64 \<Rightarrow> zone_descriptor" where
  "init_desc zsz s = \<lparr>zd_type = ZONE_TYPE_SEQ_WRITE_REQUIRED, zd_state = ZONE_STATE_EMPTY, zrwav = False,
     zone_capacity = ucast (BYTE_TO_LBA zsz), zslba = s, zd_wp = s\<rparr>"

definition SIZEOF_ZONE_REPORT :: nat where "SIZEOF_ZONE_REPORT = 128"
definition SIZEOF_ZONE_DESCRIPTOR :: nat where "SIZEOF_ZONE_DESCRIPTOR = 64"

text \<open>\<open>junk\<close> is what the block of the report buffer holds when it is allocated.\<close>

definition init_descriptor :: "(nat \<Rightarrow> u8) \<Rightarrow> zns_ftl \<Rightarrow> zns_ftl" where
  "init_descriptor junk z =
     (let n = unat (nr_zones (zp z));
          (ds, s) = fold (\<lambda>i (ds, s). (ds @ [init_desc (zone_size (zp z)) s],
                       s + ucast (BYTE_TO_LBA (zone_size (zp z))))) [0..<n] ([], 0);
          zb = zrwa_buffer_size (zp z); wb = zone_wb_size (zp z)
      in z\<lparr>zone_descs := ds,
           report_buffer := map junk [0..<SIZEOF_ZONE_REPORT + SIZEOF_ZONE_DESCRIPTOR * n],
           zrwa_buffer := (if zb \<noteq> 0 then replicate n (buffer_init (ucast zb)) else []),
           zone_write_buffer := (if wb \<noteq> 0 then replicate n (buffer_init (ucast wb)) else [])\<rparr>)"

definition init_resource :: "zns_ftl \<Rightarrow> zns_ftl" where
  "init_resource z = z\<lparr>res_infos := (\<lambda>_. \<lparr>acquired_cnt = 0, total_cnt = nr_zones (zp z)\<rparr>)\<rparr>"

definition zns_init_params :: "ssd_config \<Rightarrow> ssdparams \<Rightarrow> nat \<Rightarrow> znsparams option" where
  "zns_init_params cfg prm capacity = do {
     n \<leftarrow> ckdiv capacity (ZONE_SIZE cfg);
     lz \<leftarrow> ckdiv (ZRWA_SIZE cfg) (secsz prm);
     lf \<leftarrow> ckdiv (ZRWAFG_SIZE cfg) (secsz prm);
     let p = \<lparr>nr_zones = of_nat n, nr_active_zones = of_nat n, nr_open_zones = of_nat n,
       dies_per_zone = of_nat (DIES_PER_ZONE cfg), zone_size = of_nat (ZONE_SIZE cfg),
       zone_wb_size = of_nat (ZONE_WB_SIZE cfg), nr_zrwa_zones = of_nat (MAX_ZRWA_ZONES cfg),
       zrwafg_size = of_nat (ZRWAFG_SIZE cfg), zrwa_size = of_nat (ZRWA_SIZE cfg),
       zrwa_buffer_size = of_nat (ZRWA_BUFFER_SIZE cfg), lbas_per_zrwafg = of_nat lf, lbas_per_zrwa = of_nat lz\<rparr>;
     r \<leftarrow> ckmod capacity (unat (zone_size p));
     nv_assert (r = 0);
     r \<leftarrow> ckmod (unat (zone_size p)) (pgsz prm);
     nv_assert (r = 0);
     Some p
   }"

definition zns_init_ftl :: "(nat \<Rightarrow> u8) \<Rightarrow> znsparams \<Rightarrow> ssd \<Rightarrow> (nat \<Rightarrow> u8) \<Rightarrow> zns_ftl" where
  "zns_init_ftl junk zpp s mapped =
     init_resource (init_descriptor junk
       \<lparr>zns_ssd = s, zp = zpp, res_infos = (\<lambda>_. \<lparr>acquired_cnt = 0, total_cnt = 0\<rparr>), zone_descs = [],
         report_buffer = [], zone_write_buffer = [], zrwa_buffer = [], storage = mapped\<rparr>)"

definition NVME_CSI_ZNS :: nat where "NVME_CSI_ZNS = 2"

record zns_ns =
  zns_id :: u32
  zns_csi :: nat
  zns_nr_parts :: nat
  zns_size :: nat
  zns_inst :: zns_ftl

definition zns_init_namespace ::
  "ssd_config \<Rightarrow> u64 \<Rightarrow> (nat \<Rightarrow> u8) \<Rightarrow> (nat \<Rightarrow> u8) \<Rightarrow> (nat \<Rightarrow> u64) \<Rightarrow> (nat \<Rightarrow> u8) \<Rightarrow> u32 \<Rightarrow> nat \<Rightarrow> zns_ns option" where
  "zns_init_namespace cfg junk mem rjunk clock mapped i sz = do {
     let nr_parts = 1;
     prm \<leftarrow> ssd_init_params cfg sz nr_parts;
     s \<leftarrow> ssd_init junk mem clock prm;
     zpp \<leftarrow> zns_init_params cfg prm sz;
     Some \<lparr>zns_id = i, zns_csi = NVME_CSI_ZNS, zns_nr_parts = nr_parts, zns_size = sz,
       zns_inst = zns_init_ftl rjunk zpp s mapped\<rparr>
   }"

end
