(* ===== verification/Zns_Mgmt.thy ===== *)
theory Zns_Mgmt
  imports Zns_State
begin

unbundle bit_operations_syntax

text \<open>
  Zone management send, \<^verbatim>\<open>zns_mgmt_send.c\<close>: closing, finishing, opening, resetting and taking
  offline a zone, and the explicit flush of a random write area. Each operation returns its NVMe
  status; the ones that do not look at the zone's descriptor leave it as it is.
\<close>

definition zmgmt_send_close_zone :: "zns_ftl \<Rightarrow> u64 \<Rightarrow> (u32 \<times> zns_ftl) option" where
  "zmgmt_send_close_zone z zid = do {
     d \<leftarrow> get_zone z zid;
     if zd_state d \<in> {ZONE_STATE_OPENED_IMPL, ZONE_STATE_OPENED_EXPL} then do {
       z \<leftarrow> change_zone_state z (ucast zid) ZONE_STATE_CLOSED;
       Some (NVME_SC_SUCCESS, release_zone_resource z OPEN_ZONE)
     } else if zd_state d = ZONE_STATE_CLOSED then Some (NVME_SC_SUCCESS, z)
     else Some (NVME_SC_ZNS_INVALID_TRANSITION, z)
   }"

text \<open>What finishing and resetting an active zone have in common: the resources it holds.\<close>

definition release_active :: "zns_ftl \<Rightarrow> zone_state \<Rightarrow> bool \<Rightarrow> zns_ftl" where
  "release_active z st is_zrwa =
     (let z = (if st \<in> {ZONE_STATE_OPENED_IMPL, ZONE_STATE_OPENED_EXPL} then release_zone_resource z OPEN_ZONE else z);
          z = release_zone_resource z ACTIVE_ZONE
      in if is_zrwa then release_zone_resource z ZRWA_ZONE else z)"

definition zmgmt_send_finish_zone :: "zns_ftl \<Rightarrow> u64 \<Rightarrow> (u32 \<times> zns_ftl) option" where
  "zmgmt_send_finish_zone z zid = do {
     d \<leftarrow> get_zone z zid;
     if zd_state d \<in> {ZONE_STATE_OPENED_IMPL, ZONE_STATE_OPENED_EXPL, ZONE_STATE_CLOSED} then do {
       z \<leftarrow> change_zone_state (release_active z (zd_state d) (zrwav d)) (ucast zid) ZONE_STATE_FULL;
       Some (NVME_SC_SUCCESS, z)
     } else if zd_state d = ZONE_STATE_EMPTY then do {
       z \<leftarrow> change_zone_state z (ucast zid) ZONE_STATE_FULL;
       Some (NVME_SC_SUCCESS, z)
     } else if zd_state d = ZONE_STATE_FULL then Some (NVME_SC_SUCCESS, z)
     else Some (NVME_SC_ZNS_INVALID_TRANSITION, z)
   }"

text \<open>The last steps of opening: from the label of the closed state on, and from the one of the
  implicitly opened state on.\<close>

definition open_from_impl :: "zns_ftl \<Rightarrow> u64 \<Rightarrow> (u32 \<times> zns_ftl) option" where
  "open_from_impl z zid = do {
     z \<leftarrow> change_zone_state z (ucast zid) ZONE_STATE_OPENED_EXPL;
     Some (NVME_SC_SUCCESS, z)
   }"

definition open_from_closed :: "zns_ftl \<Rightarrow> u64 \<Rightarrow> (u32 \<times> zns_ftl) option" where
  "open_from_closed z zid =
     (let (ok, z) = acquire_zone_resource z OPEN_ZONE in
      if \<not> ok then Some (NVME_SC_ZNS_NO_OPEN_ZONE, z) else open_from_impl z zid)"

definition zmgmt_send_open_zone :: "zns_ftl \<Rightarrow> u64 \<Rightarrow> bool \<Rightarrow> (u32 \<times> zns_ftl) option" where
  "zmgmt_send_open_zone z zid zrwa = do {
     d \<leftarrow> get_zone z zid;
     case zd_state d of
       ZONE_STATE_EMPTY \<Rightarrow>
         if is_zone_resource_full z ACTIVE_ZONE then Some (NVME_SC_ZNS_NO_ACTIVE_ZONE, z)
         else if is_zone_resource_full z OPEN_ZONE then Some (NVME_SC_ZNS_NO_OPEN_ZONE, z)
         else if zrwa \<and> is_zone_resource_full z ZRWA_ZONE then Some (NVME_SC_ZNS_ZRWA_RSRC_UNAVAIL, z)
         else do {
           z \<leftarrow> (if zrwa then do {
                   let (ok, z) = acquire_zone_resource z ZRWA_ZONE;
                   upd_zone (\<lambda>d. d\<lparr>zrwav := True\<rparr>) zid z
                 } else Some z);
           let (ok, z) = acquire_zone_resource z ACTIVE_ZONE;
           open_from_closed z zid
         }
     | ZONE_STATE_CLOSED \<Rightarrow> open_from_closed z zid
     | ZONE_STATE_OPENED_IMPL \<Rightarrow> open_from_impl z zid
     | ZONE_STATE_OPENED_EXPL \<Rightarrow> Some (NVME_SC_SUCCESS, z)
     | _ \<Rightarrow> Some (NVME_SC_ZNS_INVALID_TRANSITION, z)
   }"

text \<open>\<^verbatim>\<open>memset\<close> of a part of the storage.\<close>

definition storage_clear :: "nat \<Rightarrow> nat \<Rightarrow> (nat \<Rightarrow> u8) \<Rightarrow> nat \<Rightarrow> u8" where
  "storage_clear a n m = (\<lambda>i. if a \<le> i \<and> i < a + n then 0 else m i)"

definition reset_zone :: "zns_ftl \<Rightarrow> u64 \<Rightarrow> zns_ftl option" where
  "reset_zone z zid = do {
     let z = z\<lparr>storage := storage_clear (unat (get_storage_addr_from_zid z zid)) (unat (zone_size (zp z))) (storage z)\<rparr>;
     z \<leftarrow> upd_zone (\<lambda>d. d\<lparr>zd_wp := zslba d\<rparr>) zid z;
     z \<leftarrow> upd_zone (\<lambda>d. d\<lparr>zrwav := False\<rparr>) zid z;
     if zrwa_buffer_size (zp z) \<noteq> 0 then do {
       bs \<leftarrow> amod (zrwa_buffer z) (unat zid) (\<lambda>b. Some (buffer_refill b));
       Some (z\<lparr>zrwa_buffer := bs\<rparr>)
     } else Some z
   }"

definition zmgmt_send_reset_zone :: "zns_ftl \<Rightarrow> u64 \<Rightarrow> (u32 \<times> zns_ftl) option" where
  "zmgmt_send_reset_zone z zid = do {
     d \<leftarrow> get_zone z zid;
     if zd_state d \<in> {ZONE_STATE_READ_ONLY, ZONE_STATE_OFFLINE} then Some (NVME_SC_ZNS_INVALID_TRANSITION, z)
     else do {
       let z = (if zd_state d \<in> {ZONE_STATE_FULL, ZONE_STATE_EMPTY} then z
                else release_active z (zd_state d) (zrwav d));
       z \<leftarrow> change_zone_state z (ucast zid) ZONE_STATE_EMPTY;
       z \<leftarrow> reset_zone z zid;
       Some (NVME_SC_SUCCESS, z)
     }
   }"

definition zmgmt_send_offline_zone :: "zns_ftl \<Rightarrow> u64 \<Rightarrow> (u32 \<times> zns_ftl) option" where
  "zmgmt_send_offline_zone z zid = do {
     d \<leftarrow> get_zone z zid;
     case zd_state d of
       ZONE_STATE_READ_ONLY \<Rightarrow> do {
         z \<leftarrow> change_zone_state z (ucast zid) ZONE_STATE_OFFLINE;
         Some (NVME_SC_SUCCESS, z)
       }
     | ZONE_STATE_OFFLINE \<Rightarrow> Some (NVME_SC_SUCCESS, z)
     | _ \<Rightarrow> Some (NVME_SC_ZNS_INVALID_TRANSITION, z)
   }"

text \<open>A remainder by 0 traps, and the granularity of a configuration without such areas is 0.\<close>

definition zmgmt_send_flush_explicit_zrwa :: "zns_ftl \<Rightarrow> u64 \<Rightarrow> (u32 \<times> zns_ftl) option" where
  "zmgmt_send_flush_explicit_zrwa z lba = do {
     let zid = ucast (lba_to_zone z lba);
     d \<leftarrow> get_zone z zid;
     let zend = zone_to_slba z (ucast zid) + zone_capacity d;
     let zrwa_start = zd_wp d;
     let zrwa_end = min (zrwa_start + ucast (lbas_per_zrwa (zp z)) - 1) (zend - 1);
     let nr_lbas_flush = lba - zd_wp d + 1;
     if \<not> zrwav d then Some (NVME_SC_ZNS_INVALID_ZONE_OPERATION, z)
     else if \<not> (lba \<ge> zrwa_start \<and> lba \<le> zrwa_end) then Some (NVME_SC_ZNS_INVALID_ZONE_OPERATION, z)
     else do {
       nv_assert (lbas_per_zrwafg (zp z) \<noteq> 0);
       if nr_lbas_flush mod ucast (lbas_per_zrwafg (zp z)) \<noteq> 0 then Some (NVME_SC_INVALID_FIELD, z)
       else if zd_state d \<in> {ZONE_STATE_OPENED_EXPL, ZONE_STATE_OPENED_IMPL, ZONE_STATE_CLOSED} then do {
         z \<leftarrow> upd_zone (\<lambda>d. d\<lparr>zd_wp := lba + 1\<rparr>) zid z;
         if lba + 1 = zend then do {
           z \<leftarrow> change_zone_state (release_active z (zd_state d) True) (ucast zid) ZONE_STATE_FULL;
           Some (NVME_SC_SUCCESS, z)
         } else Some (NVME_SC_SUCCESS, z)
       } else Some (NVME_SC_ZNS_INVALID_ZONE_OPERATION, z)
     }
   }"

subsection \<open>The command\<close>

record nvme_zone_mgmt_send =
  zms_slba :: u64
  zms_dw13 :: u32

definition zsa :: "nvme_zone_mgmt_send \<Rightarrow> u32" where "zsa cmd = take_bit 8 (zms_dw13 cmd)"
definition select_all :: "nvme_zone_mgmt_send \<Rightarrow> bool" where "select_all cmd = bit (zms_dw13 cmd) 8"
definition zsaso :: "nvme_zone_mgmt_send \<Rightarrow> bool" where "zsaso cmd = bit (zms_dw13 cmd) 9"

definition ZSA_CLOSE_ZONE :: u32 where "ZSA_CLOSE_ZONE = 0x1"
definition ZSA_FINISH_ZONE :: u32 where "ZSA_FINISH_ZONE = 0x2"
definition ZSA_OPEN_ZONE :: u32 where "ZSA_OPEN_ZONE = 0x3"
definition ZSA_RESET_ZONE :: u32 where "ZSA_RESET_ZONE = 0x4"
definition ZSA_OFFLINE_ZONE :: u32 where "ZSA_OFFLINE_ZONE = 0x5"
definition ZSA_FLUSH_EXPL_ZRWA :: u32 where "ZSA_FLUSH_EXPL_ZRWA = 0x11"

lemmas zsa_defs = ZSA_CLOSE_ZONE_def ZSA_FINISH_ZONE_def ZSA_OPEN_ZONE_def ZSA_RESET_ZONE_def
  ZSA_OFFLINE_ZONE_def ZSA_FLUSH_EXPL_ZRWA_def

text \<open>\<open>undef\<close> is the status that the code leaves uninitialised for an action it does not know.\<close>

definition zmgmt_send :: "u32 \<Rightarrow> zns_ftl \<Rightarrow> u64 \<Rightarrow> u32 \<Rightarrow> bool \<Rightarrow> (u32 \<times> zns_ftl) option" where
  "zmgmt_send undef z lba action opt =
     (let zid = ucast (lba_to_zone z lba) in
      if action = ZSA_CLOSE_ZONE then zmgmt_send_close_zone z zid
      else if action = ZSA_FINISH_ZONE then zmgmt_send_finish_zone z zid
      else if action = ZSA_OPEN_ZONE then zmgmt_send_open_zone z zid opt
      else if action = ZSA_RESET_ZONE then zmgmt_send_reset_zone z zid
      else if action = ZSA_OFFLINE_ZONE then zmgmt_send_offline_zone z zid
      else if action = ZSA_FLUSH_EXPL_ZRWA then zmgmt_send_flush_explicit_zrwa z lba
      else Some (undef, z))"

definition zns_zmgmt_send :: "u32 \<Rightarrow> zns_ftl \<Rightarrow> nvme_zone_mgmt_send \<Rightarrow> u64 \<Rightarrow> nvmev_result \<Rightarrow>
    (nvmev_result \<times> zns_ftl) option" where
  "zns_zmgmt_send undef z cmd start ret = do {
     (st, z) \<leftarrow>
       (if select_all cmd then do {
          z \<leftarrow> opt_fold (\<lambda>z zid. do {
                 (st, z) \<leftarrow> zmgmt_send undef z (zone_to_slba z (of_nat zid)) (zsa cmd) (zsaso cmd);
                 Some z
               }) z [0..<unat (nr_zones (zp z))];
          Some (NVME_SC_SUCCESS, z)
        } else zmgmt_send undef z (zms_slba cmd) (zsa cmd) (zsaso cmd));
     Some (ret\<lparr>nsecs_target := start, ret_status := st\<rparr>, z)
   }"

end
