(* ===== verification/Zns_IO.thy ===== *)
theory Zns_IO
  imports Zns_Mgmt
begin

unbundle bit_operations_syntax

text \<open>
  Reads, writes and appends to zones, \<^verbatim>\<open>zns_read_write.c\<close>, and the flush and the dispatch of
  \<^verbatim>\<open>zns_ftl.c\<close>. As in the page-mapping FTL, the requests to release buffer space that a write
  hands to the I/O workers are part of its result; the buffer they name is the one of a zone or
  the one of the device.
\<close>

text \<open>The \<^verbatim>\<open>result\<close> of \<^verbatim>\<open>struct nvmev_result\<close>: the address an append was given.\<close>

record zns_result = nvmev_result +
  ret_result :: u64

datatype wbuf_ref = Device_Buffer | Zone_Buffer nat | Zrwa_Buffer nat

type_synonym zns_op = "wbuf_ref \<times> internal_op"

definition nr_lbas_from_rw_cmd :: "nvme_rw_cmd \<Rightarrow> u32" where
  "nr_lbas_from_rw_cmd cmd = ucast (rw_length cmd) + 1"

text \<open>It is true when the range stays in one zone.\<close>

definition check_boundary_error :: "zns_ftl \<Rightarrow> u64 \<Rightarrow> u32 \<Rightarrow> bool" where
  "check_boundary_error z s n \<longleftrightarrow> lba_to_zone z s = lba_to_zone z (s + ucast n - 1)"

text \<open>Both \<^verbatim>\<open>ASSERT\<close>s on this path are empty macros.\<close>

definition increase_write_ptr :: "zns_ftl \<Rightarrow> u32 \<Rightarrow> u32 \<Rightarrow> zns_ftl option" where
  "increase_write_ptr z zid nr_lba = do {
     d \<leftarrow> get_zone z (ucast zid);
     let cur = zd_wp d + ucast nr_lba;
     z \<leftarrow> upd_zone (\<lambda>d. d\<lparr>zd_wp := cur\<rparr>) (ucast zid) z;
     if cur = zone_to_slba z zid + zone_capacity d then do {
       let z = release_zone_resource z OPEN_ZONE;
       let z = release_zone_resource z ACTIVE_ZONE;
       change_zone_state z zid ZONE_STATE_FULL
     } else Some z
   }"

definition lpn_to_ppa :: "zns_ftl \<Rightarrow> u64 \<Rightarrow> ppa option" where
  "lpn_to_ppa z lpn = do {
     let zone = (ucast (lpn_to_zone z lpn) :: u64);
     let off = lpn - zone_to_slpn z (ucast zone);
     let dies = (ucast (dies_per_zone (zp z)) :: u64);
     nv_assert (tt_luns (zsp z) \<noteq> 0 \<and> pgs_per_oneshotpg (zsp z) \<noteq> 0 \<and> dies \<noteq> 0 \<and> nchs (zsp z) \<noteq> 0);
     let sdie = (ucast ((zone * dies) mod of_nat (tt_luns (zsp z))) :: u32);
     let die = (ucast (ucast sdie + (off div of_nat (pgs_per_oneshotpg (zsp z))) mod dies) :: u32);
     Some \<lparr>ppa_pg = ucast (off mod of_nat (pgs_per_oneshotpg (zsp z))), ppa_blk = 0, ppa_pl = 0,
       ppa_lun = ucast (die_to_lun z die), ppa_ch = ucast (die_to_channel z die), ppa_rsv = 0\<rparr>
   }"

definition zns_advance :: "zns_ftl \<Rightarrow> nand_cmd \<Rightarrow> (u64 \<times> zns_ftl) option" where
  "zns_advance z n = do { (t, s) \<leftarrow> ssd_advance_nand (zns_ssd z) n; Some (t, z\<lparr>zns_ssd := s\<rparr>) }"

subsection \<open>Write\<close>

definition get_wbuf :: "zns_ftl \<Rightarrow> wbuf_ref \<Rightarrow> buffer option" where
  "get_wbuf z r = (case r of
     Device_Buffer \<Rightarrow> Some (write_buffer (zns_ssd z))
   | Zone_Buffer i \<Rightarrow> aget (zone_write_buffer z) i
   | Zrwa_Buffer i \<Rightarrow> aget (zrwa_buffer z) i)"

definition set_wbuf :: "zns_ftl \<Rightarrow> wbuf_ref \<Rightarrow> buffer \<Rightarrow> zns_ftl" where
  "set_wbuf z r b = (case r of
     Device_Buffer \<Rightarrow> z\<lparr>zns_ssd := (zns_ssd z)\<lparr>write_buffer := b\<rparr>\<rparr>
   | Zone_Buffer i \<Rightarrow> z\<lparr>zone_write_buffer := (zone_write_buffer z)[i := b]\<rparr>
   | Zrwa_Buffer i \<Rightarrow> z\<lparr>zrwa_buffer := (zrwa_buffer z)[i := b]\<rparr>)"

definition wbuf_allocate :: "zns_ftl \<Rightarrow> wbuf_ref \<Rightarrow> u64 \<Rightarrow> (u32 \<times> zns_ftl) option" where
  "wbuf_allocate z r n = do {
     b \<leftarrow> get_wbuf z r;
     (a, b) \<leftarrow> buffer_allocate b n;
     Some (a, set_wbuf z r b)
   }"

text \<open>The buffer of a write: the zone's when zones have one.\<close>

definition wbuf_of :: "zns_ftl \<Rightarrow> u32 \<Rightarrow> wbuf_ref" where
  "wbuf_of z zid = (if zone_wb_size (zp z) \<noteq> 0 then Zone_Buffer (unat zid) else Device_Buffer)"

text \<open>The bytes of one programming operation.\<close>

definition oneshot_bytes :: "zns_ftl \<Rightarrow> nat" where
  "oneshot_bytes z = pgs_per_oneshotpg (zsp z) * pgsz (zsp z)"

text \<open>
  The loop of a write over the pages from \<open>lpn\<close> to \<open>elpn\<close>: the pages of one programming unit go
  together, and the unit is programmed when its last page, or the last page of the zone, is
  written. A unit of no pages would never end, nor would a range up to the last address.
\<close>

function write_units :: "u32 \<Rightarrow> wbuf_ref \<Rightarrow> u64 \<Rightarrow> u64 \<Rightarrow> u64 \<Rightarrow> u64 \<Rightarrow> zns_ftl \<times> u64 \<times> zns_op list \<Rightarrow>
    (zns_ftl \<times> u64 \<times> zns_op list) option" where
  "write_units sqid wb xfer zone_elpn elpn lpn st =
     (if elpn < lpn then Some st
      else do {
        let (z, latest, ops) = st;
        p \<leftarrow> lpn_to_ppa z lpn;
        let k = pgs_per_oneshotpg (zsp z);
        let pg_off = unat (ppa_pg p) mod k;
        let pgs = min (elpn - lpn + 1) (of_nat (k - pg_off));
        st \<leftarrow>
          (if of_nat pg_off + pgs = of_nat k \<or> lpn + pgs - 1 = zone_elpn then do {
             let unaligned = unat (zone_size (zp z)) mod oneshot_bytes z;
             (done, z) \<leftarrow> zns_advance z \<lparr>nc_type = USER_IO, nc_cmd = NAND_WRITE, xfer_size = of_nat (oneshot_bytes z),
                            stime = xfer, interleave_pci_dma = False, nc_ppa = p\<rparr>;
             let rel = (if lpn + pgs - 1 = zone_elpn \<and> unaligned > 0 then unaligned else oneshot_bytes z);
             Some (z, max64 done latest,
               ops @ [(wb, \<lparr>op_sqid = sqid, op_nsecs_target = done, op_buffs_to_release = of_nat rel\<rparr>)])
           } else Some (z, latest, ops));
        if pgs = 0 \<or> lpn + pgs \<le> lpn then None
        else write_units sqid wb xfer zone_elpn elpn (lpn + pgs) st
      })"
  by pat_completeness auto
termination
  by (relation "measure (\<lambda>(a, b, c, d, elpn, lpn, st). 2 ^ 64 - unat lpn)")
    (auto simp: word_less_nat_alt word_le_nat_alt not_le intro!: diff_less_mono2 less_le_trans[OF unsigned_less])

declare write_units.simps [simp del]

text \<open>
  What a write does to a zone in each state before it moves the write pointer. The status is
  \<open>Some\<close> when the write ends there with an error.
\<close>

definition open_closed_zone :: "zns_ftl \<Rightarrow> u32 \<Rightarrow> (u32 option \<times> zns_ftl) option" where
  "open_closed_zone z zid =
     (let (ok, z) = acquire_zone_resource z OPEN_ZONE in
      if \<not> ok then Some (Some NVME_SC_ZNS_NO_OPEN_ZONE, z)
      else do { z \<leftarrow> change_zone_state z zid ZONE_STATE_OPENED_IMPL; Some (None, z) })"

definition open_for_write :: "zns_ftl \<Rightarrow> u32 \<Rightarrow> zone_descriptor \<Rightarrow> u64 \<Rightarrow> (u32 option \<times> zns_ftl) option" where
  "open_for_write z zid d lba =
     (case zd_state d of
        ZONE_STATE_EMPTY \<Rightarrow>
          if lba \<noteq> zslba d then Some (Some NVME_SC_ZNS_INVALID_WRITE, z)
          else if is_zone_resource_full z ACTIVE_ZONE then Some (Some NVME_SC_ZNS_NO_ACTIVE_ZONE, z)
          else if is_zone_resource_full z OPEN_ZONE then Some (Some NVME_SC_ZNS_NO_OPEN_ZONE, z)
          else (let (ok, z) = acquire_zone_resource z ACTIVE_ZONE in open_closed_zone z zid)
      | ZONE_STATE_CLOSED \<Rightarrow> open_closed_zone z zid
      | ZONE_STATE_OPENED_IMPL \<Rightarrow> Some (None, z)
      | ZONE_STATE_OPENED_EXPL \<Rightarrow> Some (None, z)
      | ZONE_STATE_FULL \<Rightarrow> Some (Some NVME_SC_ZNS_ERR_FULL, z)
      | ZONE_STATE_READ_ONLY \<Rightarrow> Some (Some NVME_SC_ZNS_ERR_READ_ONLY, z)
      | ZONE_STATE_OFFLINE \<Rightarrow> Some (Some NVME_SC_ZNS_ERR_OFFLINE, z))"

definition zns_cmd_nr_lba :: "nvme_rw_cmd \<Rightarrow> u64" where
  "zns_cmd_nr_lba cmd = ucast (nr_lbas_from_rw_cmd cmd)"

text \<open>The end of a write: when it completes depends on whether it waits for the flash.\<close>

definition write_result :: "zns_ftl \<Rightarrow> nvmev_request \<Rightarrow> zns_result \<Rightarrow> u32 \<Rightarrow> u64 \<Rightarrow> u64 \<Rightarrow> zns_result" where
  "write_result z req ret st latest xfer =
     ret\<lparr>ret_status := st,
       nsecs_target := (if rw_control (req_cmd req) AND NVME_RW_FUA \<noteq> 0 \<or> \<not> write_early_completion (zsp z)
                        then latest else xfer)\<rparr>"

definition zns_advance_write_buffer :: "zns_ftl \<Rightarrow> u64 \<Rightarrow> u64 \<Rightarrow> (u64 \<times> zns_ftl) option" where
  "zns_advance_write_buffer z t n = do {
     (t, s) \<leftarrow> ssd_advance_write_buffer (zns_ssd z) t n;
     Some (t, z\<lparr>zns_ssd := s\<rparr>)
   }"

definition nvme_cmd_zone_mgmt_send :: nat where "nvme_cmd_zone_mgmt_send = 0x79"
definition nvme_cmd_zone_mgmt_recv :: nat where "nvme_cmd_zone_mgmt_recv = 0x7a"
definition nvme_cmd_zone_append :: nat where "nvme_cmd_zone_append = 0x7d"

text \<open>
  A write to a zone without a random write area. An append replaces the address of the command
  by the write pointer: the command as it is left is part of the result. An error found after
  the buffer was allocated keeps what was allocated.
\<close>

definition zns_write_seq :: "zns_ftl \<Rightarrow> nvmev_request \<Rightarrow> zns_result \<Rightarrow>
    (bool \<times> zns_result \<times> nvmev_request \<times> zns_op list \<times> zns_ftl) option" where
  "zns_write_seq z req ret = do {
     let cmd = req_cmd req;
     let nr_lba = zns_cmd_nr_lba cmd;
     let zid = lba_to_zone z (slba cmd);
     d \<leftarrow> get_zone z (ucast zid);
     let append = (opcode cmd = nvme_cmd_zone_append);
     let lba = (if append then zd_wp d else slba cmd);
     let req = (if append then req\<lparr>req_cmd := cmd\<lparr>slba := lba\<rparr>\<rparr> else req);
     let ret = (if append then ret\<lparr>ret_result := lba\<rparr> else ret);
     let slpn = lba_to_lpn z lba;
     let elpn = lba_to_lpn z (lba + nr_lba - 1);
     let zone_elpn = zone_to_elpn z zid;
     let wb = wbuf_of z zid;
     let start = nsecs_start req;
     (allocated, z) \<leftarrow> wbuf_allocate z wb (LBA_TO_BYTE nr_lba);
     if ucast allocated < LBA_TO_BYTE nr_lba then Some (False, ret, req, [], z)
     else do {
       let fail = (\<lambda>st z. Some (True, write_result z req ret st start start, req, [], z));
       nv_assert (write_unit_size (zsp z) \<noteq> 0);
       if LBA_TO_BYTE nr_lba mod of_nat (write_unit_size (zsp z)) \<noteq> 0 then fail NVME_SC_ZNS_INVALID_WRITE z
       else if \<not> check_boundary_error z lba (ucast nr_lba) then fail NVME_SC_ZNS_ERR_BOUNDARY z
       else if lba \<noteq> zd_wp d then fail NVME_SC_ZNS_INVALID_WRITE z
       else do {
         (err, z) \<leftarrow> open_for_write z zid d lba;
         case err of
           Some st \<Rightarrow> fail st z
         | None \<Rightarrow> do {
             z \<leftarrow> increase_write_ptr z zid (ucast nr_lba);
             (xfer, z) \<leftarrow> zns_advance_write_buffer z start (LBA_TO_BYTE nr_lba);
             (z, latest, ops) \<leftarrow> write_units (sq_id req) wb xfer zone_elpn elpn slpn (z, xfer, []);
             Some (True, write_result z req ret NVME_SC_SUCCESS latest xfer, req, ops, z)
           }
       }
     }
   }"

subsection \<open>Write to a random write area\<close>

lemma unat_sub_min_less: "min n m \<noteq> 0 \<Longrightarrow> unat (n - min n m) < unat n" for n m :: "'a::len word"
proof -
  assume "min n m \<noteq> 0"
  moreover have "min n m \<le> n" by simp
  ultimately have "0 < unat (min n m)" "unat (min n m) \<le> unat n" by (simp_all add: unat_gt_0 word_le_nat_alt del: min_le_iff_disj)
  then show ?thesis by (simp add: unat_sub_le word_le_nat_alt)
qed

text \<open>The flush of the \<open>n\<close> pages from \<open>lpn\<close>: only whole programming units are programmed.\<close>

function zrwa_units :: "u32 \<Rightarrow> wbuf_ref \<Rightarrow> u64 \<Rightarrow> u64 \<Rightarrow> u64 \<Rightarrow> zns_ftl \<times> u64 \<times> zns_op list \<Rightarrow>
    (zns_ftl \<times> u64 \<times> zns_op list) option" where
  "zrwa_units sqid wb xfer n lpn st =
     (if n = 0 then Some st
      else do {
        let (z, latest, ops) = st;
        p \<leftarrow> lpn_to_ppa z lpn;
        let k = pgs_per_oneshotpg (zsp z);
        let pg_off = unat (ppa_pg p) mod k;
        let pgs = min n (of_nat (k - pg_off));
        st \<leftarrow>
          (if of_nat pg_off + pgs = of_nat k then do {
             (done, z) \<leftarrow> zns_advance z \<lparr>nc_type = USER_IO, nc_cmd = NAND_WRITE, xfer_size = of_nat (oneshot_bytes z),
                            stime = xfer, interleave_pci_dma = False, nc_ppa = p\<rparr>;
             Some (z, max64 done latest,
               ops @ [(wb, \<lparr>op_sqid = sqid, op_nsecs_target = done, op_buffs_to_release = of_nat (oneshot_bytes z)\<rparr>)])
           } else Some (z, latest, ops));
        if pgs = 0 then None else zrwa_units sqid wb xfer (n - pgs) (lpn + pgs) st
      })"
  by pat_completeness auto
termination
  by (relation "measure (\<lambda>(a, b, c, n, lpn, st). unat n)") (simp, simp add: unat_sub_min_less)

declare zrwa_units.simps [simp del]

definition open_zrwa_for_write :: "zns_ftl \<Rightarrow> u32 \<Rightarrow> zone_descriptor \<Rightarrow> (u32 option \<times> zns_ftl) option" where
  "open_zrwa_for_write z zid d =
     (if zd_state d \<in> {ZONE_STATE_CLOSED, ZONE_STATE_EMPTY} then
        (let (ok, z) = acquire_zone_resource z OPEN_ZONE in
         if \<not> ok then Some (Some NVME_SC_ZNS_NO_OPEN_ZONE, z)
         else do {
           (a, z) \<leftarrow> wbuf_allocate z (Zrwa_Buffer (unat zid)) (ucast (zrwa_size (zp z)));
           nv_assert (a \<noteq> 0);
           z \<leftarrow> change_zone_state z zid ZONE_STATE_OPENED_IMPL;
           Some (None, z)
         })
      else if zd_state d = ZONE_STATE_FULL then Some (Some NVME_SC_ZNS_ERR_FULL, z)
      else if zd_state d = ZONE_STATE_READ_ONLY then Some (Some NVME_SC_ZNS_ERR_READ_ONLY, z)
      else if zd_state d = ZONE_STATE_OFFLINE then Some (Some NVME_SC_ZNS_ERR_OFFLINE, z)
      else Some (None, z))"

text \<open>How many blocks a write that ends at \<open>elba\<close> makes the device flush.\<close>

definition zrwa_nr_flush :: "zns_ftl \<Rightarrow> u32 \<Rightarrow> u64 \<Rightarrow> u64 \<Rightarrow> u64 option" where
  "zrwa_nr_flush z zid wp elba =
     (let impl_start = wp + ucast (lbas_per_zrwa (zp z)); fg = (ucast (lbas_per_zrwafg (zp z)) :: u64) in
      if elba \<ge> impl_start then do {
        nv_assert (fg \<noteq> 0);
        Some ((elba - impl_start + 1 + fg - 1) div fg * fg)
      } else if elba = zone_to_elba z zid then Some (elba - wp + 1)
      else Some 0)"

definition zns_write_zrwa :: "zns_ftl \<Rightarrow> nvmev_request \<Rightarrow> zns_result \<Rightarrow>
    (bool \<times> zns_result \<times> nvmev_request \<times> zns_op list \<times> zns_ftl) option" where
  "zns_write_zrwa z req ret = do {
     let cmd = req_cmd req;
     let lba = slba cmd;
     let nr_lba = zns_cmd_nr_lba cmd;
     let elba = lba + nr_lba - 1;
     let zid = lba_to_zone z lba;
     d \<leftarrow> get_zone z (ucast zid);
     let prev_wp = zd_wp d;
     let impl_end = prev_wp + ucast (2 * lbas_per_zrwa (zp z)) - 1;
     let wb = Zrwa_Buffer (unat zid);
     let start = nsecs_start req;
     let fail = (\<lambda>st z. Some (True, write_result z req ret st start start, req, [], z));
     nv_assert (write_unit_size (zsp z) \<noteq> 0);
     if LBA_TO_BYTE nr_lba mod of_nat (write_unit_size (zsp z)) \<noteq> 0 then fail NVME_SC_ZNS_INVALID_WRITE z
     else if \<not> check_boundary_error z lba (ucast nr_lba) then fail NVME_SC_ZNS_ERR_BOUNDARY z
     else if lba < prev_wp \<or> elba > impl_end then fail NVME_SC_ZNS_INVALID_WRITE z
     else do {
       (err, z) \<leftarrow> open_zrwa_for_write z zid d;
       case err of
         Some st \<Rightarrow> fail st z
       | None \<Rightarrow> do {
           nflush \<leftarrow> zrwa_nr_flush z zid prev_wp elba;
           (go, z) \<leftarrow>
             (if nflush > 0 then do {
                (a, z) \<leftarrow> wbuf_allocate z wb (LBA_TO_BYTE nflush);
                if a = 0 then Some (False, z)
                else do { z \<leftarrow> increase_write_ptr z zid (ucast nflush); Some (True, z) }
              } else Some (True, z));
           if \<not> go then Some (False, ret, req, [], z)
           else do {
             (xfer, z) \<leftarrow> zns_advance_write_buffer z start (LBA_TO_BYTE nr_lba);
             (z, latest, ops) \<leftarrow> zrwa_units (sq_id req) wb xfer (nflush div of_nat (secs_per_pg (zsp z)))
               (lba_to_lpn z prev_wp) (z, xfer, []);
             Some (True, write_result z req ret NVME_SC_SUCCESS latest xfer, req, ops, z)
           }
         }
     }
   }"

definition zns_write :: "zns_ftl \<Rightarrow> nvmev_request \<Rightarrow> zns_result \<Rightarrow>
    (bool \<times> zns_result \<times> nvmev_request \<times> zns_op list \<times> zns_ftl) option" where
  "zns_write z req ret = do {
     let zid = lpn_to_zone z (lba_to_lpn z (slba (req_cmd req)));
     d \<leftarrow> get_zone z (ucast zid);
     if \<not> zrwav d then zns_write_seq z req ret else zns_write_zrwa z req ret
   }"

end
