(* ===== verification/Host_Memory.thy ===== *)
theory Host_Memory
  imports Nvmev_Prelude
begin

unbundle bit_operations_syntax

text \<open>
  The memory of the host as the device sees it: a function from physical addresses to bytes, read
  and written through the pages that the PRP entries of a command name. The reports of zones, the
  key-value commands and the copies of the I/O workers all walk these entries.
\<close>

subsection \<open>The host's pages\<close>

definition PAGE_SIZE :: nat where "PAGE_SIZE = 4096"
definition PRP_PFN :: "u64 \<Rightarrow> u64" where "PRP_PFN x = drop_bit 12 x"
definition PAGE_OFFSET_MASK :: u64 where "PAGE_OFFSET_MASK = 4095"

type_synonym host_mem = "nat \<Rightarrow> u8"

text \<open>The entry \<open>i\<close> of the list of addresses at \<open>paddr\<close>, read through the mapping of its page.\<close>

definition prp_list_entry :: "host_mem \<Rightarrow> u64 \<Rightarrow> nat \<Rightarrow> u64 option" where
  "prp_list_entry m paddr i =
     (let off = unat (paddr AND PAGE_OFFSET_MASK) + 8 * i; base = unat (PRP_PFN paddr) * PAGE_SIZE in
      if off + 8 \<le> PAGE_SIZE
      then Some (of_nat (\<Sum>j\<leftarrow>[0..<8]. unat (m (base + off + j)) * 256 ^ j)) else None)"

text \<open>
  One turn of the copying loop, with \<open>rem\<close> bytes left from the offset \<open>off\<close> of the buffer:
  \<open>k\<close> entries have been used, of which \<open>k2\<close> from the list.
\<close>

definition prp_next :: "host_mem \<Rightarrow> u64 \<Rightarrow> u64 \<Rightarrow> nat \<Rightarrow> nat \<Rightarrow> nat \<Rightarrow> u64 option \<Rightarrow> (u64 \<times> nat \<times> u64 option) option" where
  "prp_next m prp1 prp2 rem k k2 lst =
     (if k = 0 then Some (prp1, k2, lst)
      else if k = 1 then
        (if rem > PAGE_SIZE then do { e \<leftarrow> prp_list_entry m prp2 k2; Some (e, k2 + 1, Some prp2) }
         else Some (prp2, k2, lst))
      else (case lst of None \<Rightarrow> None
            | Some l \<Rightarrow> do { e \<leftarrow> prp_list_entry m l k2; Some (e, k2 + 1, lst) }))"

definition io_size_of :: "u64 \<Rightarrow> nat \<Rightarrow> nat" where
  "io_size_of paddr rem =
     (let io = min rem PAGE_SIZE; offs = unat (paddr AND PAGE_OFFSET_MASK) in
      if offs \<noteq> 0 \<and> io + offs > PAGE_SIZE then PAGE_SIZE - offs else io)"

definition host_put :: "host_mem \<Rightarrow> nat \<Rightarrow> u8 list \<Rightarrow> host_mem" where
  "host_put m a bs = (\<lambda>i. if a \<le> i \<and> i < a + length bs then bs ! (i - a) else m i)"

subsection \<open>Addresses of a transfer\<close>

definition page_off :: "u64 \<Rightarrow> nat" where "page_off p = unat (p AND PAGE_OFFSET_MASK)"

text \<open>The address of byte \<open>i\<close> of a transfer over the pages of two entries.\<close>

definition prp_addr :: "u64 \<Rightarrow> u64 \<Rightarrow> nat \<Rightarrow> nat" where
  "prp_addr prp1 prp2 i = (let r = PAGE_SIZE - page_off prp1 in
     if i < r then unat (PRP_PFN prp1) * PAGE_SIZE + page_off prp1 + i
     else unat (PRP_PFN prp2) * PAGE_SIZE + page_off prp2 + (i - r))"

definition host_view :: "host_mem \<Rightarrow> u64 \<Rightarrow> u64 \<Rightarrow> nat \<Rightarrow> u8 list" where
  "host_view m prp1 prp2 len = map (\<lambda>i. m (prp_addr prp1 prp2 i)) [0..<len]"

text \<open>A transfer that needs no list of addresses: at most two pages, and two different ones.\<close>

definition prp_simple :: "u64 \<Rightarrow> u64 \<Rightarrow> nat \<Rightarrow> bool" where
  "prp_simple prp1 prp2 len \<longleftrightarrow> page_off prp1 + len \<le> PAGE_SIZE \<or>
     (page_off prp2 + (len - (PAGE_SIZE - page_off prp1)) \<le> PAGE_SIZE \<and> PRP_PFN prp1 \<noteq> PRP_PFN prp2)"

lemma page_off_less: "page_off p < PAGE_SIZE"
proof -
  have "PAGE_OFFSET_MASK = mask 12" by (simp add: PAGE_OFFSET_MASK_def mask_eq_exp_minus_1)
  then have "page_off p = unat (take_bit 12 p)" unfolding page_off_def by (simp only: take_bit_eq_mask)
  then have "page_off p = take_bit 12 (unat p)" by (simp add: unsigned_take_bit_eq)
  then show ?thesis by (simp add: PAGE_SIZE_def take_bit_eq_mod)
qed

lemma io_size_min: "io_size_of p rem = min rem (PAGE_SIZE - page_off p)"
  using page_off_less[of p] by (auto simp: io_size_of_def page_off_def[symmetric] Let_def)

lemma host_put_Nil [simp]: "host_put m a [] = m"
  by (rule ext) (auto simp: host_put_def)

lemma host_put_in: "j < length bs \<Longrightarrow> host_put m a bs (a + j) = bs ! j"
  by (simp add: host_put_def)

lemma host_put_out: "i < a \<or> a + length bs \<le> i \<Longrightarrow> host_put m a bs i = m i"
  by (auto simp: host_put_def)

lemma pages_apart:
  assumes "p \<noteq> (q :: nat)" "x < PAGE_SIZE" "y < PAGE_SIZE"
  shows "p * PAGE_SIZE + x \<noteq> q * PAGE_SIZE + y"
proof
  assume "p * PAGE_SIZE + x = q * PAGE_SIZE + y"
  then have "(p * PAGE_SIZE + x) div PAGE_SIZE = (q * PAGE_SIZE + y) div PAGE_SIZE" by simp
  with assms show False by (simp add: PAGE_SIZE_def)
qed

text \<open>
  The loop that moves data between the device and the pages of a command, which
  \<^verbatim>\<open>io.c\<close> and \<^verbatim>\<open>kv_ftl.c\<close> write out four times: one turn per PRP entry, the entries after the
  second, and the second of a long transfer, read from a list in the host's memory while the copy
  goes on. What a turn copies is a parameter. A transfer is specified by its segments, the pieces
  of host memory that its entries describe.
\<close>

subsection \<open>The loop\<close>

definition prp_addr_of :: "u64 \<Rightarrow> nat" where
  "prp_addr_of p = unat (PRP_PFN p) * PAGE_SIZE + page_off p"

lemma io_size_pos: "rem \<noteq> 0 \<Longrightarrow> 0 < io_size_of p rem"
  using page_off_less[of p] by (simp add: io_size_min)

lemma io_size_less: "0 < rem \<Longrightarrow> rem - io_size_of p rem < rem"
  using io_size_pos[of rem p] by simp

lemma io_size_le: "io_size_of p rem \<le> rem"
  by (simp add: io_size_min)

text \<open>\<open>rem\<close> bytes are left from the offset \<open>off\<close>; \<open>k\<close> entries are used, \<open>k2\<close> of them from the list.\<close>

function prp_loop :: "(nat \<Rightarrow> nat \<Rightarrow> nat \<Rightarrow> 's \<times> host_mem \<Rightarrow> ('s \<times> host_mem) option) \<Rightarrow> u64 \<Rightarrow> u64 \<Rightarrow>
    nat \<Rightarrow> nat \<Rightarrow> nat \<Rightarrow> nat \<Rightarrow> u64 option \<Rightarrow> 's \<times> host_mem \<Rightarrow> ('s \<times> host_mem) option" where
  "prp_loop cp prp1 prp2 off rem k k2 lst s =
     (if rem = 0 then Some s
      else do {
        (paddr, k2, lst) \<leftarrow> prp_next (snd s) prp1 prp2 rem k k2 lst;
        let io = io_size_of paddr rem;
        s \<leftarrow> cp off (prp_addr_of paddr) io s;
        prp_loop cp prp1 prp2 (off + io) (rem - io) (k + 1) k2 lst s
      })"
  by pat_completeness auto
termination
  by (relation "measure (\<lambda>(a, b, c, off, rem, d). rem)") (auto simp: io_size_less)

declare prp_loop.simps [simp del]

lemma prp_loop_done [simp]: "prp_loop cp prp1 prp2 off 0 k k2 lst s = Some s"
  by (subst prp_loop.simps) simp

lemma prp_loop_step:
  "0 < rem \<Longrightarrow> prp_loop cp prp1 prp2 off rem k k2 lst s = do {
     (paddr, k2, lst) \<leftarrow> prp_next (snd s) prp1 prp2 rem k k2 lst;
     s \<leftarrow> cp off (prp_addr_of paddr) (io_size_of paddr rem) s;
     prp_loop cp prp1 prp2 (off + io_size_of paddr rem) (rem - io_size_of paddr rem) (k + 1) k2 lst s }"
  by (subst prp_loop.simps) (simp add: Let_def)

text \<open>
  The two directions of \<^verbatim>\<open>memcpy\<close>, between the bytes \<open>st\<close> of a device area of \<open>sz\<close> bytes and the
  host's memory. An access past the area is \<open>None\<close>.
\<close>

definition host_get :: "host_mem \<Rightarrow> nat \<Rightarrow> nat \<Rightarrow> u8 list" where
  "host_get m a n = map m [a..<a + n]"

definition copy_in :: "nat \<Rightarrow> nat \<Rightarrow> nat \<Rightarrow> nat \<Rightarrow> (nat \<Rightarrow> u8) \<times> host_mem \<Rightarrow> ((nat \<Rightarrow> u8) \<times> host_mem) option" where
  "copy_in sz off a n s = (if off + n \<le> sz then Some (host_put (fst s) off (host_get (snd s) a n), snd s) else None)"

definition copy_out :: "nat \<Rightarrow> nat \<Rightarrow> nat \<Rightarrow> nat \<Rightarrow> (nat \<Rightarrow> u8) \<times> host_mem \<Rightarrow> ((nat \<Rightarrow> u8) \<times> host_mem) option" where
  "copy_out sz off a n s = (if off + n \<le> sz then Some (fst s, host_put (snd s) a (host_get (fst s) off n)) else None)"

definition copy_none :: "nat \<Rightarrow> nat \<Rightarrow> nat \<Rightarrow> (nat \<Rightarrow> u8) \<times> host_mem \<Rightarrow> ((nat \<Rightarrow> u8) \<times> host_mem) option" where
  "copy_none off a n s = Some s"

lemma copy_in_Some: "off + n \<le> sz \<Longrightarrow> copy_in sz off a n (st, m) = Some (host_put st off (host_get m a n), m)"
  by (simp add: copy_in_def)

lemma copy_out_Some: "off + n \<le> sz \<Longrightarrow> copy_out sz off a n (st, m) = Some (st, host_put m a (host_get st off n))"
  by (simp add: copy_out_def)

lemma length_host_get [simp]: "length (host_get m a n) = n"
  by (simp add: host_get_def)

lemma host_get_nth: "i < n \<Longrightarrow> host_get m a n ! i = m (a + i)"
  by (simp add: host_get_def)

lemma host_get_put [simp]: "host_get (host_put m a bs) a (length bs) = bs"
  by (rule nth_equalityI) (simp_all add: host_get_nth host_put_in)

lemma host_get_put_apart: "a + n \<le> b \<or> b + length bs \<le> a \<Longrightarrow> host_get (host_put m b bs) a n = host_get m a n"
  by (rule nth_equalityI) (auto simp: host_get_nth host_put_def)

lemma host_put_append: "host_put (host_put m a xs) (a + length xs) ys = host_put m a (xs @ ys)"
  by (rule ext) (auto simp: host_put_def nth_append)

lemma host_get_append: "host_get m a (n + k) = host_get m a n @ host_get m (a + n) k"
  by (rule nth_equalityI) (auto simp: host_get_nth nth_append)

lemma host_get_take: "n \<le> k \<Longrightarrow> take n (host_get m a k) = host_get m a n"
  by (rule nth_equalityI) (auto simp: host_get_nth)

subsection \<open>Segments\<close>

function prp_segs :: "host_mem \<Rightarrow> u64 \<Rightarrow> u64 \<Rightarrow> nat \<Rightarrow> nat \<Rightarrow> nat \<Rightarrow> u64 option \<Rightarrow> (nat \<times> nat) list option" where
  "prp_segs m prp1 prp2 rem k k2 lst =
     (if rem = 0 then Some []
      else do {
        (paddr, k2, lst) \<leftarrow> prp_next m prp1 prp2 rem k k2 lst;
        let io = io_size_of paddr rem;
        ss \<leftarrow> prp_segs m prp1 prp2 (rem - io) (k + 1) k2 lst;
        Some ((prp_addr_of paddr, io) # ss)
      })"
  by pat_completeness auto
termination
  by (relation "measure (\<lambda>(a, b, c, rem, d). rem)") (auto simp: io_size_less)

declare prp_segs.simps [simp del]

definition seg_bytes :: "host_mem \<Rightarrow> (nat \<times> nat) list \<Rightarrow> u8 list" where
  "seg_bytes m ss = concat (map (\<lambda>(a, n). host_get m a n) ss)"

fun put_segs :: "host_mem \<Rightarrow> (nat \<times> nat) list \<Rightarrow> u8 list \<Rightarrow> host_mem" where
  "put_segs m [] bs = m"
| "put_segs m ((a, n) # ss) bs = put_segs (host_put m a (take n bs)) ss (drop n bs)"

definition seg_apart :: "nat \<times> nat \<Rightarrow> nat \<times> nat \<Rightarrow> bool" where
  "seg_apart s t \<longleftrightarrow> fst s + snd s \<le> fst t \<or> fst t + snd t \<le> fst s"

text \<open>
  The host's side of a correct transfer of \<open>len\<close> bytes: the entries describe the segments \<open>ss\<close>,
  which do not overlap, nor touch the page of the list when there is one.
\<close>

definition list_page :: "u64 \<Rightarrow> nat \<times> nat" where
  "list_page prp2 = (unat (PRP_PFN prp2) * PAGE_SIZE, PAGE_SIZE)"

definition prp_ok :: "host_mem \<Rightarrow> u64 \<Rightarrow> u64 \<Rightarrow> nat \<Rightarrow> (nat \<times> nat) list \<Rightarrow> bool" where
  "prp_ok m prp1 prp2 len ss \<longleftrightarrow> prp_segs m prp1 prp2 len 0 0 None = Some ss \<and>
     sorted_wrt seg_apart ss \<and> (2 < length ss \<longrightarrow> list_all (seg_apart (list_page prp2)) ss)"

lemma seg_bytes_simps [simp]:
  "seg_bytes m [] = []" "seg_bytes m ((a, n) # ss) = host_get m a n @ seg_bytes m ss"
  by (simp_all add: seg_bytes_def)

lemma length_seg_bytes: "length (seg_bytes m ss) = sum_list (map snd ss)"
  by (induction ss) auto

lemma prp_segs_step:
  assumes "prp_segs m prp1 prp2 rem k k2 lst = Some ss" "0 < rem"
  obtains p k2' lst' ss' where "prp_next m prp1 prp2 rem k k2 lst = Some (p, k2', lst')"
    "ss = (prp_addr_of p, io_size_of p rem) # ss'"
    "prp_segs m prp1 prp2 (rem - io_size_of p rem) (k + 1) k2' lst' = Some ss'"
  using assms by (subst (asm) prp_segs.simps) (auto simp: Let_def split: bind_splits)

lemma prp_segs_total: "prp_segs m prp1 prp2 rem k k2 lst = Some ss \<Longrightarrow> sum_list (map snd ss) = rem"
proof (induction m prp1 prp2 rem k k2 lst arbitrary: ss rule: prp_segs.induct)
  case (1 m prp1 prp2 rem k k2 lst)
  show ?case
  proof (cases "rem = 0")
    case True
    then show ?thesis using 1(2) by (subst (asm) prp_segs.simps) simp
  next
    case False
    then have "0 < rem" by simp
    from prp_segs_step[OF 1(2) this] obtain p k2' lst' ss' where
      s: "prp_next m prp1 prp2 rem k k2 lst = Some (p, k2', lst')" "ss = (prp_addr_of p, io_size_of p rem) # ss'"
        "prp_segs m prp1 prp2 (rem - io_size_of p rem) (k + 1) k2' lst' = Some ss'" .
    from 1(1)[OF False s(1) refl refl refl s(3)] show ?thesis using s(2) io_size_le[of p rem] by simp
  qed
qed

subsection \<open>Copying in\<close>

lemma prp_loop_in:
  "prp_segs m prp1 prp2 rem k k2 lst = Some ss \<Longrightarrow> off + rem \<le> sz \<Longrightarrow>
    prp_loop (copy_in sz) prp1 prp2 off rem k k2 lst (st, m) = Some (host_put st off (seg_bytes m ss), m)"
proof (induction m prp1 prp2 rem k k2 lst arbitrary: ss off st rule: prp_segs.induct)
  case (1 m prp1 prp2 rem k k2 lst)
  show ?case
  proof (cases "rem = 0")
    case True
    then show ?thesis using 1(2) by (subst (asm) prp_segs.simps) simp
  next
    case False
    then have r: "0 < rem" by simp
    from prp_segs_step[OF 1(2) this] obtain p k2' lst' ss' where
      s: "prp_next m prp1 prp2 rem k k2 lst = Some (p, k2', lst')" "ss = (prp_addr_of p, io_size_of p rem) # ss'"
        "prp_segs m prp1 prp2 (rem - io_size_of p rem) (k + 1) k2' lst' = Some ss'" .
    let ?io = "io_size_of p rem"
    have le: "off + ?io \<le> sz" "off + ?io + (rem - ?io) \<le> sz" using 1(3) io_size_le[of p rem] by simp_all
    show ?thesis
      using 1(1)[OF False s(1) refl refl refl s(3) le(2)] host_put_append[of st off "host_get m (prp_addr_of p) ?io"] le(1) s(2)
      by (simp add: prp_loop_step[OF r] s(1) copy_in_Some)
  qed
qed

subsection \<open>Copying out\<close>

lemma prp_list_entry_cong:
  assumes "\<And>i. i < PAGE_SIZE \<Longrightarrow> m' (fst (list_page p) + i) = m (fst (list_page p) + i)"
  shows "prp_list_entry m' p i = prp_list_entry m p i"
proof (cases "unat (p AND PAGE_OFFSET_MASK) + 8 * i + 8 \<le> PAGE_SIZE")
  case True
  have "m' (unat (PRP_PFN p) * PAGE_SIZE + (unat (p AND PAGE_OFFSET_MASK) + 8 * i) + j) =
        m (unat (PRP_PFN p) * PAGE_SIZE + (unat (p AND PAGE_OFFSET_MASK) + 8 * i) + j)" if "j < 8" for j
    using assms[of "unat (p AND PAGE_OFFSET_MASK) + 8 * i + j"] True that by (simp add: list_page_def add.assoc)
  then have "(\<Sum>j\<leftarrow>[0..<8]. unat (m' (unat (PRP_PFN p) * PAGE_SIZE + (unat (p AND PAGE_OFFSET_MASK) + 8 * i) + j)) * 256 ^ j) =
      (\<Sum>j\<leftarrow>[0..<8]. unat (m (unat (PRP_PFN p) * PAGE_SIZE + (unat (p AND PAGE_OFFSET_MASK) + 8 * i) + j)) * 256 ^ j)"
    by (intro arg_cong[where f = sum_list] map_cong) auto
  then show ?thesis unfolding prp_list_entry_def Let_def by (simp only:)
qed (simp add: prp_list_entry_def)

text \<open>What a walk of the entries reads: the page of the list, and only if there are more segments
  than the two that need none.\<close>

lemma prp_segs_cong:
  assumes "prp_segs m prp1 prp2 rem k k2 lst = Some ss" "lst \<in> {None, Some prp2}"
    and "2 < k + length ss \<Longrightarrow> (\<And>i. i < PAGE_SIZE \<Longrightarrow> m' (fst (list_page prp2) + i) = m (fst (list_page prp2) + i))"
  shows "prp_segs m' prp1 prp2 rem k k2 lst = Some ss"
  using assms
proof (induction m prp1 prp2 rem k k2 lst arbitrary: ss rule: prp_segs.induct)
  case (1 m prp1 prp2 rem k k2 lst)
  show ?case
  proof (cases "rem = 0")
    case True
    then show ?thesis using 1(2) prp_segs.simps[of m prp1 prp2 rem] prp_segs.simps[of m' prp1 prp2 rem] by simp
  next
    case False
    then have r: "0 < rem" by simp
    from prp_segs_step[OF 1(2) this] obtain p k2' lst' ss' where
      s: "prp_next m prp1 prp2 rem k k2 lst = Some (p, k2', lst')" "ss = (prp_addr_of p, io_size_of p rem) # ss'"
        "prp_segs m prp1 prp2 (rem - io_size_of p rem) (k + 1) k2' lst' = Some ss'" .
    have more: "ss' \<noteq> []" if "k = 1" "PAGE_SIZE < rem"
      using prp_segs_total[OF s(3)] io_size_min[of p rem] that page_off_less[of p] by auto
    have e: "prp_list_entry m' prp2 i = prp_list_entry m prp2 i" if "2 < k + length ss" for i
      by (rule prp_list_entry_cong) (rule 1(4)[OF that])
    have nx: "prp_next m' prp1 prp2 rem k k2 lst = Some (p, k2', lst')"
    proof (cases "k = 0 \<or> (k = 1 \<and> \<not> PAGE_SIZE < rem)")
      case True
      then show ?thesis using s(1) by (auto simp: prp_next_def)
    next
      case False
      then have "2 < k + length ss" using more s(2) by (cases "k = 1"; cases ss') auto
      then show ?thesis using s(1) e 1(3) by (auto simp: prp_next_def split: if_splits option.splits)
    qed
    have l': "lst' \<in> {None, Some prp2}"
      using s(1) 1(3) by (auto simp: prp_next_def split: if_splits option.splits bind_splits)
    have "prp_segs m' prp1 prp2 (rem - io_size_of p rem) (k + 1) k2' lst' = Some ss'"
      by (rule 1(1)[OF False s(1) refl refl refl s(3) l']) (use 1(4) s(2) in simp)
    then show ?thesis using False nx s(2) by (subst prp_segs.simps) simp
  qed
qed

lemma prp_loop_out:
  assumes "prp_segs m prp1 prp2 rem k k2 lst = Some ss" "lst \<in> {None, Some prp2}" "off + rem \<le> sz"
    and "2 < k + length ss \<Longrightarrow> list_all (seg_apart (list_page prp2)) ss"
  shows "prp_loop (copy_out sz) prp1 prp2 off rem k k2 lst (st, m) = Some (st, put_segs m ss (host_get st off rem))"
  using assms
proof (induction ss arbitrary: m rem k k2 lst off)
  case Nil
  then have "rem = 0" using prp_segs_total[of m prp1 prp2 rem k k2 lst "[]"] by simp
  then show ?case by simp
next
  case (Cons x ss)
  have r: "0 < rem"
  proof (rule ccontr)
    assume "\<not> 0 < rem"
    then show False using Cons.prems(1) by (subst (asm) prp_segs.simps) simp
  qed
  from prp_segs_step[OF Cons.prems(1) this] obtain p k2' lst' where
    s: "prp_next m prp1 prp2 rem k k2 lst = Some (p, k2', lst')" "x = (prp_addr_of p, io_size_of p rem)"
      "prp_segs m prp1 prp2 (rem - io_size_of p rem) (k + 1) k2' lst' = Some ss" by auto
  let ?io = "io_size_of p rem" and ?a = "prp_addr_of p"
  have io: "?io \<le> rem" by (rule io_size_le)
  define m' where "m' = host_put m ?a (host_get st off ?io)"
  have l': "lst' \<in> {None, Some prp2}"
    using s(1) Cons.prems(2) by (auto simp: prp_next_def split: if_splits option.splits bind_splits)
  have keep: "m' (fst (list_page prp2) + i) = m (fst (list_page prp2) + i)" if "2 < k + length (x # ss)" "i < PAGE_SIZE" for i
    using Cons.prems(4)[OF that(1)] that(2) s(2) by (auto simp: m'_def host_put_def seg_apart_def list_page_def)
  have "prp_segs m' prp1 prp2 (rem - ?io) (k + 1) k2' lst' = Some ss"
    by (rule prp_segs_cong[OF s(3) l']) (use keep in simp)
  then have "prp_loop (copy_out sz) prp1 prp2 (off + ?io) (rem - ?io) (k + 1) k2' lst' (st, m') =
      Some (st, put_segs m' ss (host_get st (off + ?io) (rem - ?io)))"
    by (rule Cons.IH[OF _ l']) (use Cons.prems(3,4) io in auto)
  moreover have "host_get st off rem = host_get st off ?io @ host_get st (off + ?io) (rem - ?io)"
    using host_get_append[of st off ?io "rem - ?io"] io by simp
  ultimately show ?case
    using Cons.prems(3) io s(2) by (simp add: prp_loop_step[OF r] s(1) copy_out_Some m'_def)
qed

lemma put_segs_apart:
  assumes "sum_list (map snd ss) = length bs" "\<And>s. s \<in> set ss \<Longrightarrow> i < fst s \<or> fst s + snd s \<le> i"
  shows "put_segs m ss bs i = m i"
  using assms
proof (induction ss arbitrary: m bs)
  case (Cons x ss)
  obtain a n where x: "x = (a, n)" by (cases x)
  have "put_segs (host_put m a (take n bs)) ss (drop n bs) i = host_put m a (take n bs) i"
    by (rule Cons.IH) (use Cons.prems x in auto)
  then show ?case using Cons.prems(2)[of x] x by (auto simp: host_put_def)
qed simp

lemma seg_bytes_put_segs:
  assumes "sum_list (map snd ss) = length bs" "sorted_wrt seg_apart ss"
  shows "seg_bytes (put_segs m ss bs) ss = bs"
  using assms
proof (induction ss arbitrary: m bs)
  case (Cons x ss)
  obtain a n where x: "x = (a, n)" by (cases x)
  let ?m = "host_put m a (take n bs)"
  have t: "sum_list (map snd ss) = length (drop n bs)" using Cons.prems(1) x by simp
  have n: "length (take n bs) = n" using Cons.prems(1) x by simp
  have "host_get (put_segs ?m ss (drop n bs)) a n = host_get ?m a n"
  proof (rule nth_equalityI)
    fix i assume "i < length (host_get (put_segs ?m ss (drop n bs)) a n)"
    then have i: "i < n" by simp
    have "put_segs ?m ss (drop n bs) (a + i) = ?m (a + i)"
      by (rule put_segs_apart[OF t]) (use Cons.prems(2) x i in \<open>fastforce simp: seg_apart_def\<close>)
    then show "host_get (put_segs ?m ss (drop n bs)) a n ! i = host_get ?m a n ! i" using i by (simp add: host_get_nth)
  qed simp
  moreover have "host_get ?m a n = take n bs" using host_get_put[of m a "take n bs"] n by simp
  ultimately show ?case using Cons.IH[OF t, of ?m] Cons.prems(2) x by simp
qed simp

subsection \<open>A whole transfer\<close>

lemma prp_ok_len: "prp_ok m prp1 prp2 len ss \<Longrightarrow> sum_list (map snd ss) = len"
  using prp_segs_total by (auto simp: prp_ok_def)

text \<open>A transfer inside one page needs nothing of the host's memory.\<close>

lemma prp_ok_page:
  assumes "page_off prp1 + len \<le> PAGE_SIZE"
  shows "prp_ok m prp1 prp2 len (if len = 0 then [] else [(prp_addr_of prp1, len)])"
proof (cases "len = 0")
  case True
  then show ?thesis by (simp add: prp_ok_def prp_segs.simps[of m prp1 prp2 0])
next
  case False
  then have io: "io_size_of prp1 len = len" using assms by (simp add: io_size_min)
  have "prp_segs m prp1 prp2 len 0 0 None = Some [(prp_addr_of prp1, len)]"
    using False io prp_segs.simps[of m prp1 prp2 0 1] by (subst prp_segs.simps) (simp add: prp_next_def)
  then show ?thesis using False by (simp add: prp_ok_def)
qed

text \<open>The bytes a transfer finds in the host's memory.\<close>

definition host_value :: "host_mem \<Rightarrow> u64 \<Rightarrow> u64 \<Rightarrow> nat \<Rightarrow> u8 list" where
  "host_value m prp1 prp2 len = seg_bytes m (the (prp_segs m prp1 prp2 len 0 0 None))"

lemma host_value_ok: "prp_ok m prp1 prp2 len ss \<Longrightarrow> host_value m prp1 prp2 len = seg_bytes m ss"
  by (simp add: host_value_def prp_ok_def)

lemma host_value_page: "page_off prp1 + len \<le> PAGE_SIZE \<Longrightarrow> host_value m prp1 prp2 len = host_get m (prp_addr_of prp1) len"
  using host_value_ok[OF prp_ok_page[of prp1 len m prp2]] by (auto simp: host_get_def)

lemma length_host_value: "prp_ok m prp1 prp2 len ss \<Longrightarrow> length (host_value m prp1 prp2 len) = len"
  by (simp add: host_value_ok length_seg_bytes prp_ok_len)

lemma copy_in_ok:
  assumes "prp_ok m prp1 prp2 len ss" "off + len \<le> sz"
  shows "prp_loop (copy_in sz) prp1 prp2 off len 0 0 None (st, m) = Some (host_put st off (host_value m prp1 prp2 len), m)"
  using prp_loop_in[of m prp1 prp2 len 0 0 None ss off sz st] assms host_value_ok[OF assms(1)] by (simp add: prp_ok_def)

lemma copy_out_ok:
  assumes "prp_ok m prp1 prp2 len ss" "off + len \<le> sz"
  shows "\<exists>m'. prp_loop (copy_out sz) prp1 prp2 off len 0 0 None (st, m) = Some (st, m') \<and>
    host_value m' prp1 prp2 len = host_get st off len \<and> (\<forall>i. (\<forall>s \<in> set ss. i < fst s \<or> fst s + snd s \<le> i) \<longrightarrow> m' i = m i)"
proof -
  let ?m = "put_segs m ss (host_get st off len)"
  have t: "sum_list (map snd ss) = length (host_get st off len)" using prp_ok_len[OF assms(1)] by simp
  have s: "prp_segs m prp1 prp2 len 0 0 None = Some ss" using assms(1) by (simp add: prp_ok_def)
  have "prp_loop (copy_out sz) prp1 prp2 off len 0 0 None (st, m) = Some (st, ?m)"
    by (rule prp_loop_out[OF s]) (use assms in \<open>simp_all add: prp_ok_def\<close>)
  moreover have apart: "\<And>i. (\<forall>s \<in> set ss. i < fst s \<or> fst s + snd s \<le> i) \<Longrightarrow> ?m i = m i"
    using put_segs_apart[OF t] by blast
  moreover have "prp_segs ?m prp1 prp2 len 0 0 None = Some ss"
  proof (rule prp_segs_cong[OF s])
    fix i assume n: "2 < 0 + length ss" and i: "i < PAGE_SIZE"
    have l: "list_all (seg_apart (list_page prp2)) ss" using n assms(1) by (simp add: prp_ok_def)
    show "?m (fst (list_page prp2) + i) = m (fst (list_page prp2) + i)"
      by (rule apart) (use l i in \<open>fastforce simp: list_all_iff seg_apart_def list_page_def\<close>)
  qed simp
  then have "host_value ?m prp1 prp2 len = host_get st off len"
    using seg_bytes_put_segs[OF t, of m] assms(1) by (simp add: host_value_def prp_ok_def)
  ultimately show ?thesis by blast
qed

end
