(* ===== verification/Zns_Proc.thy ===== *)
theory Zns_Proc
  imports Zns_IO Host_Memory
begin

unbundle bit_operations_syntax

text \<open>
  Zone management receive, \<^verbatim>\<open>zns_mgmt_recv.c\<close>: the report is built as bytes in the report buffer
  and copied to the pages of the host that the command's PRP entries name. The host's memory is a
  function from physical addresses to bytes; an access outside the report buffer, through a null
  list, or past the end of a mapped page is \<open>None\<close>.
\<close>

subsection \<open>Bytes\<close>

definition le_bytes :: "nat \<Rightarrow> u64 \<Rightarrow> u8 list" where
  "le_bytes n w = map (\<lambda>i. ucast (drop_bit (8 * i) w)) [0..<n]"

definition b2u8 :: "bool \<Rightarrow> u8" where "b2u8 b = (if b then 1 else 0)"

text \<open>The layout of \<^verbatim>\<open>struct zone_descriptor\<close>: 64 bytes, bit fields from the least significant bit.\<close>

definition zd_bytes :: "zone_descriptor \<Rightarrow> u8 list" where
  "zd_bytes d = [take_bit 4 (zd_type d), push_bit 4 (zone_state_code (zd_state d)), push_bit 3 (b2u8 (zrwav d)), 0] @
     replicate 4 0 @ le_bytes 8 (zone_capacity d) @ le_bytes 8 (zslba d) @ le_bytes 8 (zd_wp d) @ replicate 32 0"

text \<open>\<^verbatim>\<open>memcpy\<close> into a buffer.\<close>

definition put_bytes :: "u8 list \<Rightarrow> nat \<Rightarrow> u8 list \<Rightarrow> u8 list option" where
  "put_bytes buf off bs =
     (if off + length bs \<le> length buf then Some (take off buf @ bs @ drop (off + length bs) buf) else None)"

subsection \<open>The copy to the host\<close>

text \<open>The direction of the copy is out of the buffer in every call of this function.\<close>

function prp_copy :: "u64 \<Rightarrow> u64 \<Rightarrow> u8 list \<Rightarrow> nat \<Rightarrow> nat \<Rightarrow> nat \<Rightarrow> nat \<Rightarrow> u64 option \<Rightarrow> host_mem \<Rightarrow> host_mem option" where
  "prp_copy prp1 prp2 buf off rem k k2 lst m =
     (if rem = 0 then Some m
      else do {
        (paddr, k2, lst) \<leftarrow> prp_next m prp1 prp2 rem k k2 lst;
        let io = io_size_of paddr rem;
        let offs = unat (paddr AND PAGE_OFFSET_MASK);
        nv_assert (off + io \<le> length buf);
        let m = host_put m (unat (PRP_PFN paddr) * PAGE_SIZE + offs) (take io (drop off buf));
        if io = 0 then None else prp_copy prp1 prp2 buf (off + io) (rem - io) (k + 1) k2 lst m
      })"
  by pat_completeness auto
termination
  by (relation "measure (\<lambda>(a, b, c, off, rem, d). rem)") (simp_all add: io_size_of_def Let_def)

declare prp_copy.simps [simp del]

definition prp_transfer_data :: "u64 \<Rightarrow> u64 \<Rightarrow> u8 list \<Rightarrow> nat \<Rightarrow> host_mem \<Rightarrow> host_mem option" where
  "prp_transfer_data prp1 prp2 buf len m = prp_copy prp1 prp2 buf 0 len 0 0 None m"

subsection \<open>The command\<close>

record nvme_zone_mgmt_recv =
  zmr_prp1 :: u64
  zmr_prp2 :: u64
  zmr_slba :: u64
  nr_dw :: u32
  zmr_dw13 :: u32

definition zra :: "nvme_zone_mgmt_recv \<Rightarrow> u8" where "zra cmd = ucast (zmr_dw13 cmd)"
definition zra_specific_field :: "nvme_zone_mgmt_recv \<Rightarrow> u8" where
  "zra_specific_field cmd = ucast (drop_bit 8 (zmr_dw13 cmd))"
definition zra_specific_features :: "nvme_zone_mgmt_recv \<Rightarrow> bool" where
  "zra_specific_features cmd = bit (zmr_dw13 cmd) 16"

text \<open>The 32-bit sum wraps before it is widened.\<close>

definition recv_bytes :: "nvme_zone_mgmt_recv \<Rightarrow> u64" where
  "recv_bytes cmd = ucast (nr_dw cmd + 1) * 4"

text \<open>
  The number of zones reported: a subtraction below 0 wraps and is cut by the next test. A
  partial report counts the descriptors that fit the transfer beside the 64 bytes of its header.
\<close>

definition nr_zone_to_report :: "zns_ftl \<Rightarrow> nvme_zone_mgmt_recv \<Rightarrow> u64" where
  "nr_zone_to_report z cmd =
     (let start_zid = (ucast (lba_to_zone z (zmr_slba cmd)) :: u64);
          rest = ucast (nr_zones (zp z)) - start_zid;
          n = (if \<not> zra_specific_features cmd then rest
               else recv_bytes cmd div of_nat SIZEOF_ZONE_DESCRIPTOR - 1)
      in if n > rest then rest else n)"

definition fill_zone_report :: "zns_ftl \<Rightarrow> nvme_zone_mgmt_recv \<Rightarrow> zns_ftl option" where
  "fill_zone_report z cmd = do {
     let start_zid = unat (lba_to_zone z (zmr_slba cmd));
     let n = nr_zone_to_report z cmd;
     nv_assert (start_zid + unat n \<le> length (zone_descs z));
     buf \<leftarrow> put_bytes (report_buffer z) 0 (le_bytes 8 n);
     buf \<leftarrow> put_bytes buf 64 (concat (map zd_bytes (take (unat n) (drop start_zid (zone_descs z)))));
     Some (z\<lparr>report_buffer := buf\<rparr>)
   }"

definition check_zmgmt_rcv_option_supported :: "zns_ftl \<Rightarrow> nvme_zone_mgmt_recv \<Rightarrow> bool" where
  "check_zmgmt_rcv_option_supported z cmd \<longleftrightarrow>
     (if lba_to_zone z (zmr_slba cmd) \<ge> nr_zones (zp z) then False
      else if zra cmd \<noteq> 0 then False
      else if zra_specific_field cmd \<noteq> 0 then False
      else True)"

definition zns_zmgmt_recv :: "zns_ftl \<Rightarrow> host_mem \<Rightarrow> nvme_zone_mgmt_recv \<Rightarrow> u64 \<Rightarrow> nvmev_result \<Rightarrow>
    (nvmev_result \<times> host_mem \<times> zns_ftl) option" where
  "zns_zmgmt_recv z m cmd start ret = do {
     (st, m, z) \<leftarrow>
       (if check_zmgmt_rcv_option_supported z cmd then do {
          z \<leftarrow> fill_zone_report z cmd;
          m \<leftarrow> prp_transfer_data (zmr_prp1 cmd) (zmr_prp2 cmd) (report_buffer z) (unat (recv_bytes cmd)) m;
          Some (NVME_SC_SUCCESS, m, z)
        } else Some (NVME_SC_INVALID_FIELD, m, z));
     Some (ret\<lparr>nsecs_target := start, ret_status := st\<rparr>, m, z)
   }"

text \<open>
  Reads of zones (\<^verbatim>\<open>zns_read_write.c\<close>), the flush, and the dispatch of the I/O commands of a
  zoned namespace (\<^verbatim>\<open>zns_ftl.c\<close>).
\<close>

subsection \<open>Read\<close>

text \<open>
  The loop over the pages from \<open>lpn\<close> to \<open>elpn\<close>: one NAND command for the pages of each flash
  page. A command of no pages would never end, nor would a range up to the last address.
\<close>

function read_units :: "u64 \<Rightarrow> u64 \<Rightarrow> u64 \<Rightarrow> zns_ftl \<times> u64 \<Rightarrow> (zns_ftl \<times> u64) option" where
  "read_units st0 elpn lpn st =
     (if elpn < lpn then Some st
      else do {
        let (z, latest) = st;
        p \<leftarrow> lpn_to_ppa z lpn;
        let k = pgs_per_flashpg (zsp z);
        nv_assert (k \<noteq> 0);
        let pg_off = unat (ppa_pg p) mod k;
        let pgs = min (elpn - lpn + 1) (of_nat (k - pg_off));
        (done, z) \<leftarrow> zns_advance z \<lparr>nc_type = USER_IO, nc_cmd = NAND_READ, xfer_size = pgs * of_nat (pgsz (zsp z)),
                       stime = st0, interleave_pci_dma = False, nc_ppa = p\<rparr>;
        if pgs = 0 \<or> lpn + pgs \<le> lpn then None
        else read_units st0 elpn (lpn + pgs) (z, if done > latest then done else latest)
      })"
  by pat_completeness auto
termination
  by (relation "measure (\<lambda>(a, elpn, lpn, st). 2 ^ 64 - unat lpn)")
    (auto simp: word_less_nat_alt word_le_nat_alt not_le intro!: diff_less_mono2 less_le_trans[OF unsigned_less])

declare read_units.simps [simp del]

text \<open>A read that ends with an error still takes the time of its NAND operations.\<close>

definition zns_read :: "zns_ftl \<Rightarrow> nvmev_request \<Rightarrow> zns_result \<Rightarrow> (zns_result \<times> zns_ftl) option" where
  "zns_read z req ret = do {
     let cmd = req_cmd req;
     let lba = slba cmd;
     let nr_lba = zns_cmd_nr_lba cmd;
     let slpn = lba_to_lpn z lba;
     let elpn = lba_to_lpn z (lba + nr_lba - 1);
     d \<leftarrow> get_zone z (ucast (lpn_to_zone z slpn));
     let st = (if zd_state d = ZONE_STATE_OFFLINE then NVME_SC_ZNS_ERR_OFFLINE
               else if \<not> check_boundary_error z lba (ucast nr_lba) then NVME_SC_ZNS_ERR_BOUNDARY
               else NVME_SC_SUCCESS);
     let latest = nsecs_start req + of_nat (if LBA_TO_BYTE nr_lba \<le> of_nat (KB 4) then fw_4kb_rd_lat (zsp z)
                                            else fw_rd_lat (zsp z));
     (z, latest) \<leftarrow> read_units latest elpn slpn (z, latest);
     (done, s) \<leftarrow> ssd_advance_pcie (zns_ssd z) latest (nr_lba * of_nat (secsz (zsp z)));
     Some (ret\<lparr>ret_status := st, nsecs_target := (if done > latest then done else latest)\<rparr>, z\<lparr>zns_ssd := s\<rparr>)
   }"

subsection \<open>Flush and dispatch\<close>

definition zns_flush :: "zns_ftl \<Rightarrow> zns_result \<Rightarrow> (zns_result \<times> zns_ftl) option" where
  "zns_flush z ret = do {
     let (start, s) = get_ioclock (zns_ssd z);
     (idle, s) \<leftarrow> ssd_next_idle_time s;
     Some (ret\<lparr>ret_status := NVME_SC_SUCCESS, nsecs_target := max64 start idle\<rparr>, z\<lparr>zns_ssd := s\<rparr>)
   }"

text \<open>The 64 bytes of a command are read as one of three structures, by the opcode.\<close>

record zns_request = nvmev_request +
  req_send :: nvme_zone_mgmt_send
  req_recv :: nvme_zone_mgmt_recv

definition zns_base :: "zns_result \<Rightarrow> nvmev_result" where
  "zns_base r = \<lparr>ret_status = ret_status r, nsecs_target = nsecs_target r\<rparr>"

definition zns_with :: "zns_result \<Rightarrow> nvmev_result \<Rightarrow> zns_result" where
  "zns_with r b = r\<lparr>ret_status := ret_status b, nsecs_target := nsecs_target b\<rparr>"

text \<open>
  The result: whether the command was taken, its result, the address in the command afterwards,
  the releases of buffer space to schedule, the host's memory and the namespace.
\<close>

definition zns_proc_nvme_io_cmd :: "u32 \<Rightarrow> zns_ns \<Rightarrow> host_mem \<Rightarrow> zns_request \<Rightarrow> zns_result \<Rightarrow>
    (bool \<times> zns_result \<times> u64 \<times> zns_op list \<times> host_mem \<times> zns_ns) option" where
  "zns_proc_nvme_io_cmd undef ns m req ret = do {
     nv_assert (zns_csi ns = NVME_CSI_ZNS);
     nv_assert (zns_nr_parts ns = 1);
     let cmd = req_cmd req;
     let z = zns_inst ns;
     if opcode cmd = nvme_cmd_write \<or> opcode cmd = nvme_cmd_zone_append then do {
       (ok, ret, req', ops, z) \<leftarrow> zns_write z (nvmev_request.truncate req) ret;
       Some (ok, ret, slba (req_cmd req'), ops, m, ns\<lparr>zns_inst := z\<rparr>)
     } else if opcode cmd = nvme_cmd_read then do {
       (ret, z) \<leftarrow> zns_read z (nvmev_request.truncate req) ret;
       Some (True, ret, slba cmd, [], m, ns\<lparr>zns_inst := z\<rparr>)
     } else if opcode cmd = nvme_cmd_flush then do {
       (ret, z) \<leftarrow> zns_flush z ret;
       Some (True, ret, slba cmd, [], m, ns\<lparr>zns_inst := z\<rparr>)
     } else if opcode cmd = nvme_cmd_zone_mgmt_send then do {
       (b, z) \<leftarrow> zns_zmgmt_send undef z (req_send req) (nsecs_start req) (zns_base ret);
       Some (True, zns_with ret b, slba cmd, [], m, ns\<lparr>zns_inst := z\<rparr>)
     } else if opcode cmd = nvme_cmd_zone_mgmt_recv then do {
       (b, m, z) \<leftarrow> zns_zmgmt_recv z m (req_recv req) (nsecs_start req) (zns_base ret);
       Some (True, zns_with ret b, slba cmd, [], m, ns\<lparr>zns_inst := z\<rparr>)
     } else Some (True, ret, slba cmd, [], m, ns)
   }"

end
