(* ===== verification/Zns_Inv.thy ===== *)
theory Zns_Inv
  imports Zns_Proc
begin

text \<open>
  The invariant of a zoned namespace, and the abstract view of what its operations do to a zone:
  each of them replaces one descriptor and adjusts the resource counters by what the zone held
  before and holds after (\<open>move_zone\<close>). That a move keeps the invariant is proved once.
\<close>

subsection \<open>Resources a zone holds\<close>

definition opened :: "zone_state \<Rightarrow> bool" where
  "opened st \<longleftrightarrow> st = ZONE_STATE_OPENED_IMPL \<or> st = ZONE_STATE_OPENED_EXPL"

definition active :: "zone_state \<Rightarrow> bool" where
  "active st \<longleftrightarrow> opened st \<or> st = ZONE_STATE_CLOSED"

fun holds :: "zone_resource_type \<Rightarrow> zone_descriptor \<Rightarrow> bool" where
  "holds ACTIVE_ZONE d = active (zd_state d)"
| "holds OPEN_ZONE d = opened (zd_state d)"
| "holds ZRWA_ZONE d = (active (zd_state d) \<and> zrwav d)"

definition held :: "zone_resource_type \<Rightarrow> zone_descriptor list \<Rightarrow> nat" where
  "held t ds = length (filter (holds t) ds)"

definition hold :: "zone_resource_type \<Rightarrow> zone_descriptor \<Rightarrow> u32" where
  "hold t d = (if holds t d then 1 else 0)"

lemma held_le: "held t ds \<le> length ds"
  by (simp add: held_def)

lemma held_less: "i < length ds \<Longrightarrow> \<not> holds t (ds ! i) \<Longrightarrow> held t ds < length ds"
  unfolding held_def by (rule length_filter_less[of "ds ! i"]) simp_all

lemma held_pos: "i < length ds \<Longrightarrow> holds t (ds ! i) \<Longrightarrow> 0 < held t ds"
  unfolding held_def by (auto simp: filter_empty_conv)

lemma held_update:
  assumes "i < length ds"
  shows "(of_nat (held t (ds[i := d'])) :: u32) = of_nat (held t ds) + hold t d' - hold t (ds ! i)"
proof -
  have u: "ds[i := d'] = take i ds @ d' # drop (Suc i) ds" by (rule upd_conv_take_nth_drop[OF assms])
  have v: "ds = take i ds @ ds ! i # drop (Suc i) ds" by (rule id_take_nth_drop[OF assms])
  have "held t ds = held t (take i ds @ ds ! i # drop (Suc i) ds)" using v by simp
  then show ?thesis unfolding u by (simp add: held_def hold_def)
qed

subsection \<open>The geometry\<close>

definition zone_lbas :: "zns_ftl \<Rightarrow> nat" where
  "zone_lbas z = unat (zone_size (zp z)) div 512"

definition zns_geometry :: "zns_ftl \<Rightarrow> bool" where
  "zns_geometry z \<longleftrightarrow>
     secsz (zsp z) = 512 \<and> secs_per_pg (zsp z) = 8 \<and> pgsz (zsp z) = 4096 \<and>
     4096 dvd unat (zone_size (zp z)) \<and> 0 < unat (zone_size (zp z)) \<and>
     unat (nr_zones (zp z)) * zone_lbas z < 2 ^ 32 \<and>
     tt_luns (zsp z) = luns_per_ch (zsp z) * nchs (zsp z) \<and> 0 < tt_luns (zsp z) \<and>
     nchs (zsp z) \<le> 256 \<and> luns_per_ch (zsp z) \<le> 256 \<and>
     0 < unat (dies_per_zone (zp z)) \<and> unat (dies_per_zone (zp z)) dvd tt_luns (zsp z) \<and>
     0 < pgs_per_oneshotpg (zsp z) \<and> pgs_per_oneshotpg (zsp z) \<le> 2 ^ 16 \<and> pgs_per_flashpg (zsp z) \<le> 2 ^ 16 \<and>
     0 < write_unit_size (zsp z) \<and> write_unit_size (zsp z) < 2 ^ 31 \<and> time_params (zsp z)"

subsection \<open>The invariant\<close>

text \<open>The descriptor of zone \<open>i\<close>: where it starts, and where its write pointer can be.\<close>

definition zone_ok :: "zns_ftl \<Rightarrow> nat \<Rightarrow> zone_descriptor \<Rightarrow> bool" where
  "zone_ok z i d \<longleftrightarrow>
     unat (zslba d) = i * zone_lbas z \<and> unat (zone_capacity d) = zone_lbas z \<and>
     zslba d \<le> zd_wp d \<and> unat (zd_wp d) \<le> i * zone_lbas z + zone_lbas z \<and>
     (active (zd_state d) \<longrightarrow> unat (zd_wp d) < i * zone_lbas z + zone_lbas z) \<and>
     (zd_state d = ZONE_STATE_EMPTY \<longrightarrow> zd_wp d = zslba d \<and> \<not> zrwav d) \<and>
     zd_type d = ZONE_TYPE_SEQ_WRITE_REQUIRED"

definition resources_ok :: "zns_ftl \<Rightarrow> bool" where
  "resources_ok z \<longleftrightarrow> (\<forall>t. acquired_cnt (res_infos z t) = of_nat (held t (zone_descs z)) \<and>
     total_cnt (res_infos z t) = nr_zones (zp z))"

definition zns_inv :: "zns_ftl \<Rightarrow> bool" where
  "zns_inv z \<longleftrightarrow> ssd_inv (zns_ssd z) \<and> zns_geometry z \<and>
     length (zone_descs z) = unat (nr_zones (zp z)) \<and>
     (\<forall>i < length (zone_descs z). zone_ok z i (zone_descs z ! i)) \<and> resources_ok z \<and>
     (zone_wb_size (zp z) \<noteq> 0 \<longrightarrow> length (zone_write_buffer z) = unat (nr_zones (zp z))) \<and>
     (zrwa_buffer_size (zp z) \<noteq> 0 \<longrightarrow> length (zrwa_buffer z) = unat (nr_zones (zp z))) \<and>
     length (report_buffer z) = SIZEOF_ZONE_REPORT + SIZEOF_ZONE_DESCRIPTOR * unat (nr_zones (zp z))"

lemma zns_invD:
  assumes "zns_inv z"
  shows "ssd_inv (zns_ssd z)" "zns_geometry z" "length (zone_descs z) = unat (nr_zones (zp z))"
    "\<And>i. i < unat (nr_zones (zp z)) \<Longrightarrow> zone_ok z i (zone_descs z ! i)" "resources_ok z"
    "zone_wb_size (zp z) \<noteq> 0 \<Longrightarrow> length (zone_write_buffer z) = unat (nr_zones (zp z))"
    "zrwa_buffer_size (zp z) \<noteq> 0 \<Longrightarrow> length (zrwa_buffer z) = unat (nr_zones (zp z))"
    "length (report_buffer z) = SIZEOF_ZONE_REPORT + SIZEOF_ZONE_DESCRIPTOR * unat (nr_zones (zp z))"
  using assms by (auto simp: zns_inv_def)

text \<open>A zone that does not hold a resource can have it: nothing is ever refused for want of one.\<close>

lemma resource_avail:
  assumes "zns_inv z" "i < unat (nr_zones (zp z))" "\<not> holds t (zone_descs z ! i)"
  shows "is_zone_resource_avail z t" "\<not> is_zone_resource_full z t"
proof -
  note d = zns_invD[OF assms(1)]
  have l: "held t (zone_descs z) < unat (nr_zones (zp z))" using held_less[of i "zone_descs z" t] assms(2,3) d(3) by simp
  moreover have "unat (nr_zones (zp z)) < 2 ^ LENGTH(32)" by (rule unsigned_less)
  ultimately have "unat (of_nat (held t (zone_descs z)) :: u32) = held t (zone_descs z)"
    by (intro unat_of_nat_less) simp
  then have "acquired_cnt (res_infos z t) < total_cnt (res_infos z t)"
    using l d(5) by (simp add: resources_ok_def word_less_nat_alt)
  then show "is_zone_resource_avail z t" "\<not> is_zone_resource_full z t"
    by (auto simp: is_zone_resource_avail_def is_zone_resource_full_def)
qed

subsection \<open>Moving a zone\<close>

definition move_zone :: "zns_ftl \<Rightarrow> nat \<Rightarrow> zone_descriptor \<Rightarrow> zns_ftl" where
  "move_zone z i d = z\<lparr>zone_descs := (zone_descs z)[i := d],
     res_infos := (\<lambda>t. (res_infos z t)\<lparr>acquired_cnt := acquired_cnt (res_infos z t) + hold t d - hold t (zone_descs z ! i)\<rparr>)\<rparr>"

lemma move_zone_sel [simp]:
  "zns_ssd (move_zone z i d) = zns_ssd z" "zp (move_zone z i d) = zp z"
  "zone_descs (move_zone z i d) = (zone_descs z)[i := d]" "report_buffer (move_zone z i d) = report_buffer z"
  "zone_write_buffer (move_zone z i d) = zone_write_buffer z" "zrwa_buffer (move_zone z i d) = zrwa_buffer z"
  "storage (move_zone z i d) = storage z"
  by (simp_all add: move_zone_def)

lemma zone_ok_cong: "zp z' = zp z \<Longrightarrow> zone_ok z' = zone_ok z"
  by (simp add: zone_ok_def zone_lbas_def fun_eq_iff)

lemma zns_geometry_cong: "zp z' = zp z \<Longrightarrow> zsp z' = zsp z \<Longrightarrow> zns_geometry z' = zns_geometry z"
  by (simp add: zns_geometry_def zone_lbas_def)

lemma move_zone_inv:
  assumes "zns_inv z" "i < unat (nr_zones (zp z))" "zone_ok z i d"
  shows "zns_inv (move_zone z i d)"
proof -
  note D = zns_invD[OF assms(1)]
  have "resources_ok (move_zone z i d)"
    using D(5) held_update[of i "zone_descs z" _ d] assms(2) D(3)
    unfolding resources_ok_def by (simp add: move_zone_def)
  moreover have "zone_ok z j ((zone_descs z)[i := d] ! j)" if "j < unat (nr_zones (zp z))" for j
    using that D(3,4) assms(2,3) by (cases "i = j") simp_all
  ultimately show ?thesis
    using D zone_ok_cong[of "move_zone z i d" z] zns_geometry_cong[of "move_zone z i d" z] by (simp add: zns_inv_def)
qed

text \<open>The counters after a sequence of acquisitions and releases.\<close>

lemma res_infos_eqI:
  assumes "\<And>t. acquired_cnt (f t) = acquired_cnt (g t)" "\<And>t. total_cnt (f t) = total_cnt (g t)"
  shows "f = (g :: zone_resource_type \<Rightarrow> zone_resource_info)"
  using assms by (intro ext) (simp add: zone_resource_info.equality)

lemma add_acquired_sel [simp]:
  "zns_ssd (add_acquired t n z) = zns_ssd z" "zp (add_acquired t n z) = zp z"
  "zone_descs (add_acquired t n z) = zone_descs z" "report_buffer (add_acquired t n z) = report_buffer z"
  "zone_write_buffer (add_acquired t n z) = zone_write_buffer z" "zrwa_buffer (add_acquired t n z) = zrwa_buffer z"
  "storage (add_acquired t n z) = storage z"
  by (simp_all add: add_acquired_def)

lemma add_acquired_cnt [simp]:
  "acquired_cnt (res_infos (add_acquired t n z) u) = acquired_cnt (res_infos z u) + (if u = t then n else 0)"
  "total_cnt (res_infos (add_acquired t n z) u) = total_cnt (res_infos z u)"
  by (simp_all add: add_acquired_def)

text \<open>
  How an operation is shown to be a move: its state differs from the old one in one descriptor
  and in the counters.
\<close>

lemma move_zoneI:
  assumes "zone_descs z' = (zone_descs z)[i := d]"
    and "\<And>t. acquired_cnt (res_infos z' t) = acquired_cnt (res_infos z t) + hold t d - hold t (zone_descs z ! i)"
    and "\<And>t. total_cnt (res_infos z' t) = total_cnt (res_infos z t)"
    and "zns_ssd z' = zns_ssd z" "zp z' = zp z" "report_buffer z' = report_buffer z"
      "zone_write_buffer z' = zone_write_buffer z" "zrwa_buffer z' = zrwa_buffer z" "storage z' = storage z"
  shows "z' = move_zone z i d"
proof -
  have "res_infos z' = res_infos (move_zone z i d)"
    by (rule res_infos_eqI) (use assms(2,3) in \<open>simp_all add: move_zone_def\<close>)
  then show ?thesis using assms by (intro zns_ftl.equality) simp_all
qed

end
