(* ===== verification/Zns_Moves.thy ===== *)
theory Zns_Moves
  imports Zns_Inv
begin

text \<open>
  What each operation of zone management does, as a move of one zone: its status and the
  descriptor it leaves, for every state the zone can be in.
\<close>

subsection \<open>Zone numbers\<close>

lemma unat_u64_u32 [simp]: "unat (ucast (x :: u32) :: u64) = unat x"
proof -
  have "unat x < 2 ^ LENGTH(32)" by (rule unsigned_less)
  then show ?thesis by (simp add: unsigned_ucast_eq take_bit_nat_eq_self)
qed

lemma u32_u64_u32 [simp]: "(ucast (ucast (x :: u32) :: u64) :: u32) = x"
  by (simp add: word_unat_eq_iff unsigned_ucast_eq take_bit_nat_eq_self_iff unsigned_less[of x, simplified]
      take_bit_word_eq_self)

lemma zone_get: "unat (zid :: u32) < length (zone_descs z) \<Longrightarrow> get_zone z (ucast zid) = Some (zone_descs z ! unat zid)"
  by (simp add: get_zone_def)

lemma get_zone_at:
  assumes "zns_inv z" "unat (zid :: u32) < unat (nr_zones (zp z))"
  shows "get_zone z (ucast zid) = Some (zone_descs z ! unat zid)"
  using assms by (simp add: zone_get zns_invD(3))

lemma upd_zone_at:
  "unat zid < length (zone_descs z) \<Longrightarrow>
    upd_zone f (ucast (zid :: u32)) z = Some (z\<lparr>zone_descs := (zone_descs z)[unat zid := f (zone_descs z ! unat zid)]\<rparr>)"
  by (simp add: upd_zone_def amod_def)

lemma change_zone_state_at:
  "unat (zid :: u32) < length (zone_descs z) \<Longrightarrow> change_zone_state z zid st =
    Some (z\<lparr>zone_descs := (zone_descs z)[unat zid := (zone_descs z ! unat zid)\<lparr>zd_state := st\<rparr>]\<rparr>)"
  by (simp add: change_zone_state_def upd_zone_at)

text \<open>The counters a sequence of acquisitions leaves, whatever the order.\<close>

lemmas count_defs = release_zone_resource_def release_active_def acquire_zone_resource_def hold_def active_def opened_def

lemma all_resourcesI: "P ACTIVE_ZONE \<Longrightarrow> P OPEN_ZONE \<Longrightarrow> P ZRWA_ZONE \<Longrightarrow> P t"
  by (cases t) auto

subsection \<open>The operations\<close>

lemma close_zone_at:
  assumes l: "unat (zid :: u32) < length (zone_descs z)" and d: "d = zone_descs z ! unat zid"
  shows "zmgmt_send_close_zone z (ucast zid) = Some
    (if opened (zd_state d) then (NVME_SC_SUCCESS, move_zone z (unat zid) (d\<lparr>zd_state := ZONE_STATE_CLOSED\<rparr>))
     else if zd_state d = ZONE_STATE_CLOSED then (NVME_SC_SUCCESS, z)
     else (NVME_SC_ZNS_INVALID_TRANSITION, z))"
proof -
  note g = zone_get[OF l]
  let ?z = "release_zone_resource (z\<lparr>zone_descs := (zone_descs z)[unat zid := d\<lparr>zd_state := ZONE_STATE_CLOSED\<rparr>]\<rparr>) OPEN_ZONE"
  have "?z = move_zone z (unat zid) (d\<lparr>zd_state := ZONE_STATE_CLOSED\<rparr>)" if "opened (zd_state d)"
    by (rule move_zoneI, simp_all add: release_zone_resource_def)
      (rule all_resourcesI, use that d in \<open>auto simp: hold_def active_def opened_def\<close>)
  then show ?thesis
    using g l d by (auto simp: zmgmt_send_close_zone_def change_zone_state_at opened_def)
qed

lemma release_active_move:
  assumes "i < length (zone_descs z)" "d = zone_descs z ! i" "active (zd_state d)" "\<not> active (zd_state d')" "zr = zrwav d"
  shows "(release_active z (zd_state d) zr)\<lparr>zone_descs := (zone_descs z)[i := d']\<rparr> = move_zone z i d'"
proof (rule move_zoneI)
  fix t
  show "acquired_cnt (res_infos (release_active z (zd_state d) zr\<lparr>zone_descs := (zone_descs z)[i := d']\<rparr>) t) =
      acquired_cnt (res_infos z t) + hold t d' - hold t (zone_descs z ! i)"
    by (rule all_resourcesI[of _ t])
      (use assms in \<open>auto simp: release_active_def release_zone_resource_def hold_def active_def opened_def Let_def\<close>)
qed (simp_all add: release_active_def release_zone_resource_def Let_def)

lemma release_active_sel [simp]:
  "zone_descs (release_active z st zr) = zone_descs z" "zp (release_active z st zr) = zp z"
  "zns_ssd (release_active z st zr) = zns_ssd z"
  "zrwa_buffer (release_active z st zr) = zrwa_buffer z"
  "storage (release_active z st zr) = storage z"
  by (simp_all add: release_active_def release_zone_resource_def Let_def)

lemma inactive_move:
  assumes "i < length (zone_descs z)" "\<And>t. hold t d' = hold t (zone_descs z ! i)"
  shows "z\<lparr>zone_descs := (zone_descs z)[i := d']\<rparr> = move_zone z i d'"
  by (rule move_zoneI) (simp_all add: assms(2))

lemma move_same: "i < length (zone_descs z) \<Longrightarrow> move_zone z i (zone_descs z ! i) = z"
  by (rule move_zoneI[symmetric]) simp_all

lemma hold_inactive: "\<not> active (zd_state d) \<Longrightarrow> hold t d = 0"
  by (cases t) (simp_all add: hold_def active_def)

lemma finish_zone_at:
  assumes l: "unat (zid :: u32) < length (zone_descs z)" and d: "d = zone_descs z ! unat zid"
  shows "zmgmt_send_finish_zone z (ucast zid) = Some
    (if active (zd_state d) \<or> zd_state d = ZONE_STATE_EMPTY
     then (NVME_SC_SUCCESS, move_zone z (unat zid) (d\<lparr>zd_state := ZONE_STATE_FULL\<rparr>))
     else if zd_state d = ZONE_STATE_FULL then (NVME_SC_SUCCESS, z)
     else (NVME_SC_ZNS_INVALID_TRANSITION, z))"
proof -
  note g = zone_get[OF l]
  let ?d = "d\<lparr>zd_state := ZONE_STATE_FULL\<rparr>"
  have full: "\<not> active ZONE_STATE_FULL" by (simp add: active_def opened_def)
  have "z\<lparr>zone_descs := (zone_descs z)[unat zid := ?d]\<rparr> = move_zone z (unat zid) ?d" if "\<not> active (zd_state d)"
    by (rule inactive_move[OF l]) (use that full d in \<open>simp add: hold_inactive\<close>)
  moreover have "(release_active z (zd_state d) (zrwav d))\<lparr>zone_descs := (zone_descs z)[unat zid := ?d]\<rparr> =
      move_zone z (unat zid) ?d" if "active (zd_state d)"
    by (rule release_active_move[OF l d that]) (simp_all add: full)
  ultimately show ?thesis
    using g l d by (auto simp: zmgmt_send_finish_zone_def change_zone_state_at active_def opened_def)
qed

lemma offline_zone_at:
  assumes l: "unat (zid :: u32) < length (zone_descs z)" and d: "d = zone_descs z ! unat zid"
  shows "zmgmt_send_offline_zone z (ucast zid) = Some
    (if zd_state d = ZONE_STATE_READ_ONLY then (NVME_SC_SUCCESS, move_zone z (unat zid) (d\<lparr>zd_state := ZONE_STATE_OFFLINE\<rparr>))
     else if zd_state d = ZONE_STATE_OFFLINE then (NVME_SC_SUCCESS, z)
     else (NVME_SC_ZNS_INVALID_TRANSITION, z))"
proof -
  note g = zone_get[OF l]
  let ?d = "d\<lparr>zd_state := ZONE_STATE_OFFLINE\<rparr>"
  have "z\<lparr>zone_descs := (zone_descs z)[unat zid := ?d]\<rparr> = move_zone z (unat zid) ?d" if "zd_state d = ZONE_STATE_READ_ONLY"
    by (rule inactive_move[OF l]) (use that d in \<open>simp add: hold_inactive active_def opened_def\<close>)
  then show ?thesis
    using g l d by (auto simp: zmgmt_send_offline_zone_def change_zone_state_at split: zone_state.split)
qed

lemma avail_add [simp]:
  "u \<noteq> t \<Longrightarrow> is_zone_resource_avail (add_acquired u n z) t = is_zone_resource_avail z t"
  "is_zone_resource_avail (z\<lparr>zone_descs := ds\<rparr>) t = is_zone_resource_avail z t"
  by (simp_all add: is_zone_resource_avail_def)

lemma add_acquired_descs: "(add_acquired t n z)\<lparr>zone_descs := ds\<rparr> = add_acquired t n (z\<lparr>zone_descs := ds\<rparr>)"
  by (simp add: add_acquired_def)

text \<open>
  What is left of a resource, and what opening is refused with when there is none. A count is never
  above its limit; what the limits are plays no part here.
\<close>

definition resource_left :: "zns_ftl \<Rightarrow> zone_resource_type \<Rightarrow> nat" where
  "resource_left z t = unat (total_cnt (res_infos z t)) - unat (acquired_cnt (res_infos z t))"

definition in_limits :: "zns_ftl \<Rightarrow> bool" where
  "in_limits z \<longleftrightarrow> (\<forall>t. acquired_cnt (res_infos z t) \<le> total_cnt (res_infos z t))"

definition open_refusal :: "bool \<Rightarrow> zns_ftl \<Rightarrow> zone_state \<Rightarrow> u32 option" where
  "open_refusal zrwa z st =
     (if \<not> active st \<and> st \<noteq> ZONE_STATE_EMPTY then Some NVME_SC_ZNS_INVALID_TRANSITION
      else if st = ZONE_STATE_EMPTY \<and> resource_left z ACTIVE_ZONE = 0 then Some NVME_SC_ZNS_NO_ACTIVE_ZONE
      else if st \<in> {ZONE_STATE_EMPTY, ZONE_STATE_CLOSED} \<and> resource_left z OPEN_ZONE = 0 then Some NVME_SC_ZNS_NO_OPEN_ZONE
      else if st = ZONE_STATE_EMPTY \<and> zrwa \<and> resource_left z ZRWA_ZONE = 0 then Some NVME_SC_ZNS_ZRWA_RSRC_UNAVAIL
      else None)"

lemma resource_left_iff:
  assumes "in_limits z"
  shows "is_zone_resource_avail z t \<longleftrightarrow> 0 < resource_left z t" "is_zone_resource_full z t \<longleftrightarrow> resource_left z t = 0"
proof -
  have "unat (acquired_cnt (res_infos z t)) \<le> unat (total_cnt (res_infos z t))" using assms by (simp add: in_limits_def word_le_nat_alt)
  then show "is_zone_resource_avail z t \<longleftrightarrow> 0 < resource_left z t" "is_zone_resource_full z t \<longleftrightarrow> resource_left z t = 0"
    by (auto simp: is_zone_resource_avail_def is_zone_resource_full_def resource_left_def word_less_nat_alt word_unat_eq_iff)
qed

text \<open>What opening acquires in each state is what the opened zone holds more than before.\<close>

lemma open_zone_at:
  assumes l: "unat (zid :: u32) < length (zone_descs z)" and d: "d = zone_descs z ! unat zid"
    and nz: "zd_state d = ZONE_STATE_EMPTY \<Longrightarrow> \<not> zrwav d" and lim: "in_limits z"
  shows "zmgmt_send_open_zone z (ucast zid) zrwa = Some
    (case open_refusal zrwa z (zd_state d) of
       Some st \<Rightarrow> (st, z)
     | None \<Rightarrow> (NVME_SC_SUCCESS, move_zone z (unat zid)
       (d\<lparr>zrwav := (zrwav d \<or> zd_state d = ZONE_STATE_EMPTY \<and> zrwa), zd_state := ZONE_STATE_OPENED_EXPL\<rparr>)))"
proof -
  note g = zone_get[OF l] and left = resource_left_iff[OF lim]
  let ?d = "d\<lparr>zrwav := (zrwav d \<or> zd_state d = ZONE_STATE_EMPTY \<and> zrwa), zd_state := ZONE_STATE_OPENED_EXPL\<rparr>"
  have upd: "d\<lparr>zd_state := s, zrwav := b\<rparr> = d\<lparr>zrwav := b, zd_state := s\<rparr>" for s b by simp
  have closed: "open_from_closed z (ucast zid) = Some (NVME_SC_SUCCESS, move_zone z (unat zid) ?d)"
    if "zd_state d = ZONE_STATE_CLOSED" "0 < resource_left z OPEN_ZONE"
  proof -
    have "(add_acquired OPEN_ZONE 1 z)\<lparr>zone_descs := (zone_descs z)[unat zid := ?d]\<rparr> = move_zone z (unat zid) ?d"
      by (rule move_zoneI, simp_all) (rule all_resourcesI, use that in \<open>auto simp: hold_def active_def opened_def d[symmetric]\<close>)
    then show ?thesis
      using left(1)[of OPEN_ZONE] that l d
      by (simp add: open_from_closed_def open_from_impl_def acquire_zone_resource_def change_zone_state_at opened_def)
  qed
  have impl: "open_from_impl z (ucast zid) = Some (NVME_SC_SUCCESS, move_zone z (unat zid) ?d)"
    if "zd_state d = ZONE_STATE_OPENED_IMPL"
  proof -
    have "z\<lparr>zone_descs := (zone_descs z)[unat zid := ?d]\<rparr> = move_zone z (unat zid) ?d"
      by (rule inactive_move[OF l], rule all_resourcesI)
        (use that in \<open>auto simp: hold_def active_def opened_def d[symmetric]\<close>)
    then show ?thesis using that l d by (simp add: open_from_impl_def change_zone_state_at)
  qed
  have expl: "z = move_zone z (unat zid) ?d" if "zd_state d = ZONE_STATE_OPENED_EXPL"
  proof -
    have "?d = d" using that by (cases d) simp
    then show ?thesis using move_same[OF l] d by simp
  qed
  have empty: "zmgmt_send_open_zone z (ucast zid) zrwa = Some (NVME_SC_SUCCESS, move_zone z (unat zid) ?d)"
    if e: "zd_state d = ZONE_STATE_EMPTY" and r: "open_refusal zrwa z (zd_state d) = None"
  proof -
    have nz: "\<not> zrwav d" by (rule nz[OF e])
    have av: "0 < resource_left z ACTIVE_ZONE" "0 < resource_left z OPEN_ZONE" "zrwa \<Longrightarrow> 0 < resource_left z ZRWA_ZONE"
      using r e by (auto simp: open_refusal_def split: if_splits)
    from nz have keep: "d\<lparr>zrwav := False, zd_state := s\<rparr> = d\<lparr>zd_state := s\<rparr>" for s by (cases d) simp
    let ?z = "add_acquired OPEN_ZONE 1 (add_acquired ACTIVE_ZONE 1 (if zrwa then add_acquired ZRWA_ZONE 1 z else z))"
    have "?z\<lparr>zone_descs := (zone_descs z)[unat zid := ?d]\<rparr> = move_zone z (unat zid) ?d"
      by (rule move_zoneI, simp_all) (rule all_resourcesI, use e nz in \<open>auto simp: hold_def active_def opened_def d[symmetric]\<close>)
    then show ?thesis
      using av left e nz l g
      by (cases zrwa) (simp_all add: zmgmt_send_open_zone_def open_from_closed_def open_from_impl_def acquire_zone_resource_def
          change_zone_state_at upd_zone_at active_def opened_def add_acquired_descs d[symmetric] keep)
  qed
  have refused: "zmgmt_send_open_zone z (ucast zid) zrwa = Some (st, z)" if "open_refusal zrwa z (zd_state d) = Some st" for st
    using that g d left by (cases "zd_state d")
      (auto simp: open_refusal_def zmgmt_send_open_zone_def open_from_closed_def acquire_zone_resource_def active_def opened_def split: if_splits)
  show ?thesis
  proof (cases "open_refusal zrwa z (zd_state d)")
    case None
    then have "active (zd_state d) \<or> zd_state d = ZONE_STATE_EMPTY" "zd_state d = ZONE_STATE_CLOSED \<Longrightarrow> 0 < resource_left z OPEN_ZONE"
      by (auto simp: open_refusal_def split: if_splits)
    then show ?thesis using None empty closed impl expl g d
      by (cases "zd_state d") (simp_all add: zmgmt_send_open_zone_def active_def opened_def)
  qed (simp add: refused)
qed

text \<open>A reset also clears the zone's storage and refills its random write buffer.\<close>

definition reset_rest :: "zns_ftl \<Rightarrow> u32 \<Rightarrow> zns_ftl" where
  "reset_rest z zid = z\<lparr>
     storage := storage_clear (unat (get_storage_addr_from_zid z (ucast zid))) (unat (zone_size (zp z))) (storage z),
     zrwa_buffer := (if zrwa_buffer_size (zp z) \<noteq> 0
                     then (zrwa_buffer z)[unat zid := buffer_refill (zrwa_buffer z ! unat zid)] else zrwa_buffer z)\<rparr>"

lemma reset_zone_at:
  assumes l: "unat (zid :: u32) < length (zone_descs z)" and d: "d = zone_descs z ! unat zid"
    and bufs: "zrwa_buffer_size (zp z) \<noteq> 0 \<Longrightarrow> unat zid < length (zrwa_buffer z)"
  shows "zmgmt_send_reset_zone z (ucast zid) = Some
    (if zd_state d \<in> {ZONE_STATE_READ_ONLY, ZONE_STATE_OFFLINE} then (NVME_SC_ZNS_INVALID_TRANSITION, z)
     else (NVME_SC_SUCCESS, reset_rest (move_zone z (unat zid)
       (d\<lparr>zd_state := ZONE_STATE_EMPTY, zd_wp := zslba d, zrwav := False\<rparr>)) zid))"
proof (cases "zd_state d \<in> {ZONE_STATE_READ_ONLY, ZONE_STATE_OFFLINE}")
  case True
  then show ?thesis using zone_get[OF l] d by (simp add: zmgmt_send_reset_zone_def)
next
  case False
  note g = zone_get[OF l]
  let ?d = "d\<lparr>zd_state := ZONE_STATE_EMPTY, zd_wp := zslba d, zrwav := False\<rparr>"
  define z1 where "z1 = (if zd_state d \<in> {ZONE_STATE_FULL, ZONE_STATE_EMPTY} then z else release_active z (zd_state d) (zrwav d))"
  have na: "\<not> active ZONE_STATE_EMPTY" by (simp add: active_def opened_def)
  have z1: "zone_descs z1 = zone_descs z" "zp z1 = zp z" "zrwa_buffer z1 = zrwa_buffer z" "storage z1 = storage z"
    by (simp_all add: z1_def)
  have m: "z1\<lparr>zone_descs := (zone_descs z)[unat zid := ?d]\<rparr> = move_zone z (unat zid) ?d"
  proof (cases "active (zd_state d)")
    case True
    then have "z1 = release_active z (zd_state d) (zrwav d)" by (auto simp: z1_def active_def opened_def)
    then show ?thesis using release_active_move[OF l d True, of ?d "zrwav d"] na by simp
  next
    case False
    then have "z1 = z" using \<open>\<not> zd_state d \<in> _\<close> by (cases "zd_state d") (auto simp: z1_def active_def opened_def)
    then show ?thesis using inactive_move[OF l, of ?d] False na d by (simp add: hold_inactive)
  qed
  have eq: "reset_rest (move_zone z (unat zid) ?d) zid =
     z1\<lparr>zone_descs := (zone_descs z)[unat zid := ?d],
        storage := storage_clear (unat (get_storage_addr_from_zid z (ucast zid))) (unat (zone_size (zp z))) (storage z),
        zrwa_buffer := (if zrwa_buffer_size (zp z) \<noteq> 0
                     then (zrwa_buffer z)[unat zid := buffer_refill (zrwa_buffer z ! unat zid)] else zrwa_buffer z)\<rparr>"
    unfolding m[symmetric] by (simp add: reset_rest_def get_storage_addr_from_zid_def z1)
  have run: "zmgmt_send_reset_zone z (ucast zid) = (do {
       z \<leftarrow> change_zone_state z1 zid ZONE_STATE_EMPTY;
       z \<leftarrow> reset_zone z (ucast zid);
       Some (NVME_SC_SUCCESS, z) })"
    using g False d by (simp add: zmgmt_send_reset_zone_def z1_def)
  show ?thesis
    unfolding run using False l bufs
    by (simp add: change_zone_state_at z1 reset_zone_def upd_zone_at amod_def d[symmetric]
        get_storage_addr_from_zid_def eq)
qed

end
