(* ===== verification/Zns_Send.thy ===== *)
theory Zns_Send
  imports Zns_Moves
begin

text \<open>
  Zone management send as a whole: addresses, the explicit flush, and the table of transitions
  that the command implements.
\<close>

subsection \<open>Addresses of zones\<close>

lemma geometryD:
  assumes "zns_geometry z"
  shows "secsz (zsp z) = 512" "secs_per_pg (zsp z) = 8" "pgsz (zsp z) = 4096"
    "zone_lbas z * 512 = unat (zone_size (zp z))" "8 dvd zone_lbas z" "0 < zone_lbas z"
    "unat (nr_zones (zp z)) * zone_lbas z < 2 ^ 32"
proof -
  have d: "4096 dvd unat (zone_size (zp z))" "0 < unat (zone_size (zp z))"
    using assms unfolding zns_geometry_def by blast+
  then obtain q where q: "unat (zone_size (zp z)) = 4096 * q" "0 < q" by (metis dvdE gr0I mult_0_right)
  then have "zone_lbas z = 8 * q" by (simp add: zone_lbas_def)
  then show "zone_lbas z * 512 = unat (zone_size (zp z))" "8 dvd zone_lbas z" "0 < zone_lbas z" using q by simp_all
qed (use assms in \<open>auto simp: zns_geometry_def\<close>)

lemma zone_lbas_word:
  assumes "zns_geometry z"
  shows "unat (zone_size (zp z) div of_nat (secsz (zsp z))) = zone_lbas z"
  by (simp add: geometryD(1)[OF assms] unat_div zone_lbas_def)

lemma zone_to_slba_at:
  assumes g: "zns_geometry z" and n: "unat zid \<le> unat (nr_zones (zp z))"
  shows "unat (zone_to_slba z zid) = unat zid * zone_lbas z"
proof -
  have "unat zid * zone_lbas z \<le> unat (nr_zones (zp z)) * zone_lbas z" using n by (rule mult_le_mono1)
  then have "unat zid * zone_lbas z < 2 ^ 32" using geometryD(7)[OF g] by linarith
  then have "unat (zid * (zone_size (zp z) div of_nat (secsz (zsp z)))) = unat zid * zone_lbas z"
    using zone_lbas_word[OF g] by (subst unat_mult_less) simp_all
  then show ?thesis by (simp add: zone_to_slba_def)
qed

lemma lba_to_zone_mod:
  assumes g: "zns_geometry z"
  shows "unat (lba_to_zone z lba) = unat lba div zone_lbas z mod 2 ^ 32"
  by (simp add: lba_to_zone_def unsigned_ucast_eq take_bit_eq_mod unat_div zone_lbas_def geometryD(1)[OF g])

lemma lba_to_zone_at:
  assumes g: "zns_geometry z" and l: "i * zone_lbas z \<le> unat lba" "unat lba < i * zone_lbas z + zone_lbas z"
    and i: "i < unat (nr_zones (zp z))"
  shows "unat (lba_to_zone z lba) = i"
proof -
  have "unat lba div zone_lbas z = i"
    using l by (intro div_nat_eqI) (simp_all add: mult.commute)
  moreover have "unat (nr_zones (zp z)) < 2 ^ LENGTH(32)" by (rule unsigned_less)
  ultimately show ?thesis using lba_to_zone_mod[OF g] i by simp
qed

lemma zone_end:
  assumes "zns_inv z" "unat (zid :: u32) < unat (nr_zones (zp z))"
  shows "unat (zone_to_slba z zid + zone_capacity (zone_descs z ! unat zid)) = unat zid * zone_lbas z + zone_lbas z"
    "unat zid * zone_lbas z + zone_lbas z < 2 ^ 32"
proof -
  note g = zns_invD(2)[OF assms(1)] and ok = zns_invD(4)[OF assms]
  have "Suc (unat zid) * zone_lbas z \<le> unat (nr_zones (zp z)) * zone_lbas z"
    using assms(2) by (intro mult_le_mono1) simp
  then show b: "unat zid * zone_lbas z + zone_lbas z < 2 ^ 32" using geometryD(7)[OF g] by simp
  have "unat (zone_to_slba z zid) = unat zid * zone_lbas z" using zone_to_slba_at[OF g] assms(2) by simp
  moreover have "unat (zone_capacity (zone_descs z ! unat zid)) = zone_lbas z" using ok by (simp add: zone_ok_def)
  ultimately show "unat (zone_to_slba z zid + zone_capacity (zone_descs z ! unat zid)) = unat zid * zone_lbas z + zone_lbas z"
    using b by (subst unat_add_less) simp_all
qed

subsection \<open>The explicit flush\<close>

definition zrwa_configured :: "zns_ftl \<Rightarrow> bool" where
  "zrwa_configured z \<longleftrightarrow> lbas_per_zrwafg (zp z) \<noteq> 0"

lemma flush_explicit_at:
  assumes inv: "zns_inv z" and zid: "zid = lba_to_zone z lba" "unat (zid :: u32) < unat (nr_zones (zp z))"
    and d: "d = zone_descs z ! unat zid" and c: "zrwav d \<Longrightarrow> zrwa_configured z"
  shows "\<exists>st z'. zmgmt_send_flush_explicit_zrwa z lba = Some (st, z') \<and>
    (if st = NVME_SC_SUCCESS then zrwav d \<and> active (zd_state d) \<and> zd_wp d \<le> lba \<and>
        unat lba < unat zid * zone_lbas z + zone_lbas z \<and>
        z' = move_zone z (unat zid) (d\<lparr>zd_wp := lba + 1, zd_state :=
          (if unat lba + 1 = unat zid * zone_lbas z + zone_lbas z then ZONE_STATE_FULL else zd_state d)\<rparr>)
     else z' = z)"
proof -
  note g = get_zone_at[OF inv zid(2), folded d]
  have l: "unat zid < length (zone_descs z)" using zid(2) zns_invD(3)[OF inv] by simp
  note ze = zone_end[OF inv zid(2), folded d]
  have ok: "zone_ok z (unat zid) d" using zns_invD(4)[OF inv zid(2)] d by simp
  define zend where "zend = zone_to_slba z zid + zone_capacity d"
  define zstart where "zstart = zd_wp d"
  define zmin where "zmin = min (zstart + ucast (lbas_per_zrwa (zp z)) - 1) (zend - 1)"
  define ok_range where "ok_range \<longleftrightarrow> zstart \<le> lba \<and> lba \<le> zmin"
  define whole where "whole \<longleftrightarrow> (lba - zd_wp d + 1) mod ucast (lbas_per_zrwafg (zp z)) = 0"
  define act where "act \<longleftrightarrow> zd_state d \<in> {ZONE_STATE_OPENED_EXPL, ZONE_STATE_OPENED_IMPL, ZONE_STATE_CLOSED}"
  have ne: "NVME_SC_ZNS_INVALID_ZONE_OPERATION \<noteq> NVME_SC_SUCCESS" "NVME_SC_INVALID_FIELD \<noteq> NVME_SC_SUCCESS"
    by (simp_all add: zns_status_defs)
  have run: "zmgmt_send_flush_explicit_zrwa z lba =
     (if \<not> zrwav d then Some (NVME_SC_ZNS_INVALID_ZONE_OPERATION, z)
      else if \<not> ok_range then Some (NVME_SC_ZNS_INVALID_ZONE_OPERATION, z)
      else if \<not> whole then Some (NVME_SC_INVALID_FIELD, z)
      else if act then do {
         z \<leftarrow> upd_zone (\<lambda>d. d\<lparr>zd_wp := lba + 1\<rparr>) (ucast zid) z;
         if lba + 1 = zend then do {
           z \<leftarrow> change_zone_state (release_active z (zd_state d) True) zid ZONE_STATE_FULL;
           Some (NVME_SC_SUCCESS, z)
         } else Some (NVME_SC_SUCCESS, z)
       } else Some (NVME_SC_ZNS_INVALID_ZONE_OPERATION, z))"
    using g c by (auto simp: zmgmt_send_flush_explicit_zrwa_def zid(1)[symmetric] Let_def zend_def ok_range_def zmin_def
        zstart_def whole_def act_def zrwa_configured_def cong: if_cong)
  show ?thesis
  proof (cases "zrwav d \<and> ok_range \<and> whole \<and> act")
    case False
    then show ?thesis using run ne by auto
  next
    case True
    have uz: "unat zend = unat zid * zone_lbas z + zone_lbas z" using ze(1) by (simp add: zend_def)
    have "0 < unat zend" using geometryD(6)[OF zns_invD(2)[OF inv]] uz by simp
    then have "unat (zend - 1) = unat zend - 1" using unat_sub_of_nat[of 1 zend] by simp
    moreover have "lba \<le> zend - 1" using True by (simp add: ok_range_def zmin_def)
    ultimately have lb: "unat lba < unat zend" using \<open>0 < unat zend\<close> by (simp add: word_le_nat_alt)
    then have "unat (lba + 1) = unat lba + 1" using uz ze(2) by (subst unat_add_less) simp_all
    then have fin: "lba + 1 = zend \<longleftrightarrow> unat lba + 1 = unat zend" by (simp add: word_unat_eq_iff)
    have a: "active (zd_state d)" using True by (auto simp: act_def active_def opened_def)
    let ?d = "d\<lparr>zd_wp := lba + 1, zd_state := (if lba + 1 = zend then ZONE_STATE_FULL else zd_state d)\<rparr>"
    have "zmgmt_send_flush_explicit_zrwa z lba = Some (NVME_SC_SUCCESS, move_zone z (unat zid) ?d)"
    proof (cases "lba + 1 = zend")
      case False
      have "z\<lparr>zone_descs := (zone_descs z)[unat zid := ?d]\<rparr> = move_zone z (unat zid) ?d"
        by (rule inactive_move[OF l], rule all_resourcesI) (use False in \<open>auto simp: hold_def d\<close>)
      moreover have "d\<lparr>zd_wp := lba + 1, zd_state := zd_state d\<rparr> = d\<lparr>zd_wp := lba + 1\<rparr>" by (cases d) simp
      ultimately show ?thesis using run True False l by (simp add: upd_zone_at d[symmetric])
    next
      case fin: True
      have "(release_active z (zd_state d) True)\<lparr>zone_descs := (zone_descs z)[unat zid := ?d]\<rparr> = move_zone z (unat zid) ?d"
        by (rule release_active_move[OF l d a]) (use fin True in \<open>simp_all add: active_def opened_def\<close>)
      moreover have "release_active (z\<lparr>zone_descs := ds\<rparr>) st b = (release_active z st b)\<lparr>zone_descs := ds\<rparr>" for ds st b
        by (simp add: release_active_def release_zone_resource_def add_acquired_def Let_def)
      ultimately show ?thesis using run True fin l by (simp add: upd_zone_at change_zone_state_at d[symmetric])
    qed
    then show ?thesis using True a lb uz fin by (simp add: ok_range_def zstart_def)
  qed
qed

subsection \<open>The state machine of a zone\<close>

text \<open>The transitions that a command can make, as the zoned namespace specification draws them.\<close>

inductive zone_step :: "zone_state \<Rightarrow> zone_state \<Rightarrow> bool" where
  write_empty: "zone_step ZONE_STATE_EMPTY ZONE_STATE_OPENED_IMPL"
| write_closed: "zone_step ZONE_STATE_CLOSED ZONE_STATE_OPENED_IMPL"
| open_zone: "st \<in> {ZONE_STATE_EMPTY, ZONE_STATE_CLOSED, ZONE_STATE_OPENED_IMPL} \<Longrightarrow> zone_step st ZONE_STATE_OPENED_EXPL"
| close_zone: "opened st \<Longrightarrow> zone_step st ZONE_STATE_CLOSED"
| finish_zone: "active st \<or> st = ZONE_STATE_EMPTY \<Longrightarrow> zone_step st ZONE_STATE_FULL"
| reset: "active st \<or> st = ZONE_STATE_FULL \<Longrightarrow> zone_step st ZONE_STATE_EMPTY"
| offline: "zone_step ZONE_STATE_READ_ONLY ZONE_STATE_OFFLINE"

inductive_cases zone_stepE: "zone_step st st'"

abbreviation zone_path :: "zone_state \<Rightarrow> zone_state \<Rightarrow> bool" where "zone_path \<equiv> zone_step\<^sup>*\<^sup>*"

text \<open>A zone that is neither read-only nor offline never becomes either.\<close>

lemma zone_path_usable:
  assumes "zone_path st st'" "st \<notin> {ZONE_STATE_READ_ONLY, ZONE_STATE_OFFLINE}"
  shows "st' \<notin> {ZONE_STATE_READ_ONLY, ZONE_STATE_OFFLINE}"
  using assms by (induction rule: rtranclp_induct) (auto elim: zone_stepE)

datatype zone_op = Z_Close | Z_Finish | Z_Open bool | Z_Reset | Z_Offline

fun op_action :: "zone_op \<Rightarrow> u32" where
  "op_action Z_Close = ZSA_CLOSE_ZONE"
| "op_action Z_Finish = ZSA_FINISH_ZONE"
| "op_action (Z_Open _) = ZSA_OPEN_ZONE"
| "op_action Z_Reset = ZSA_RESET_ZONE"
| "op_action Z_Offline = ZSA_OFFLINE_ZONE"

fun op_option :: "zone_op \<Rightarrow> bool" where
  "op_option (Z_Open b) = b"
| "op_option _ = False"

text \<open>The abstract specification: the state a command leaves, or that it is refused.\<close>

fun zone_next :: "zone_op \<Rightarrow> zone_state \<Rightarrow> zone_state option" where
  "zone_next Z_Close st = (if active st then Some ZONE_STATE_CLOSED else None)"
| "zone_next Z_Finish st = (if active st \<or> st \<in> {ZONE_STATE_EMPTY, ZONE_STATE_FULL} then Some ZONE_STATE_FULL else None)"
| "zone_next (Z_Open _) st = (if active st \<or> st = ZONE_STATE_EMPTY then Some ZONE_STATE_OPENED_EXPL else None)"
| "zone_next Z_Reset st = (if active st \<or> st \<in> {ZONE_STATE_EMPTY, ZONE_STATE_FULL} then Some ZONE_STATE_EMPTY else None)"
| "zone_next Z_Offline st = (if st \<in> {ZONE_STATE_READ_ONLY, ZONE_STATE_OFFLINE} then Some ZONE_STATE_OFFLINE else None)"

lemma zone_next_step: "zone_next op st = Some st' \<Longrightarrow> zone_path st st'"
  by (cases op; cases st)
    (auto simp: active_def opened_def split: if_splits intro!: r_into_rtranclp intro: zone_step.intros)

text \<open>What every command does to the descriptors: all of them follow the machine, and a random write
  area appears only when one is asked for.\<close>

definition follows :: "bool \<Rightarrow> zns_ftl \<Rightarrow> zns_ftl \<Rightarrow> bool" where
  "follows zr z z' \<longleftrightarrow> zp z' = zp z \<and> length (zone_descs z') = length (zone_descs z) \<and>
     (\<forall>i < length (zone_descs z). zone_path (zd_state (zone_descs z ! i)) (zd_state (zone_descs z' ! i)) \<and>
        (zrwav (zone_descs z' ! i) \<longrightarrow> zr \<or> zrwav (zone_descs z ! i)))"

lemma follows_refl [simp]: "follows zr z z"
  by (simp add: follows_def)

lemma follows_trans: "follows zr z z' \<Longrightarrow> follows zr z' z'' \<Longrightarrow> follows zr z z''"
  unfolding follows_def by (auto intro: rtranclp_trans)

lemma move_follows:
  assumes "i < length (zone_descs z)" "zone_path (zd_state (zone_descs z ! i)) (zd_state d)"
    "zrwav d \<Longrightarrow> zr \<or> zrwav (zone_descs z ! i)"
  shows "follows zr z (move_zone z i d)"
  using assms by (auto simp: follows_def nth_upd)

lemma reset_rest_sel [simp]:
  "zone_descs (reset_rest z zid) = zone_descs z" "zp (reset_rest z zid) = zp z" "zns_ssd (reset_rest z zid) = zns_ssd z"
  "res_infos (reset_rest z zid) = res_infos z" "report_buffer (reset_rest z zid) = report_buffer z"
  "zone_write_buffer (reset_rest z zid) = zone_write_buffer z"
  by (simp_all add: reset_rest_def)

lemma reset_rest_inv: "zns_inv z \<Longrightarrow> zns_inv (reset_rest z zid)"
  using zone_ok_cong[of "reset_rest z zid" z] zns_geometry_cong[of "reset_rest z zid" z]
  by (simp add: zns_inv_def resources_ok_def) (simp add: reset_rest_def)

text \<open>
  The descriptor each operation leaves. The zone's bounds and the area flag follow from the
  state alone.
\<close>

fun op_desc :: "zone_op \<Rightarrow> zone_descriptor \<Rightarrow> zone_descriptor" where
  "op_desc Z_Close d = d\<lparr>zd_state := ZONE_STATE_CLOSED\<rparr>"
| "op_desc Z_Finish d = d\<lparr>zd_state := ZONE_STATE_FULL\<rparr>"
| "op_desc (Z_Open zr) d = d\<lparr>zrwav := (zrwav d \<or> zd_state d = ZONE_STATE_EMPTY \<and> zr), zd_state := ZONE_STATE_OPENED_EXPL\<rparr>"
| "op_desc Z_Reset d = d\<lparr>zd_state := ZONE_STATE_EMPTY, zd_wp := zslba d, zrwav := False\<rparr>"
| "op_desc Z_Offline d = d\<lparr>zd_state := ZONE_STATE_OFFLINE\<rparr>"

lemma zsa_distinct: "op_action op = ZSA_CLOSE_ZONE \<longleftrightarrow> op = Z_Close" "op_action op = ZSA_FINISH_ZONE \<longleftrightarrow> op = Z_Finish"
  "op_action op = ZSA_OPEN_ZONE \<longleftrightarrow> (\<exists>b. op = Z_Open b)" "op_action op = ZSA_RESET_ZONE \<longleftrightarrow> op = Z_Reset"
  "op_action op = ZSA_OFFLINE_ZONE \<longleftrightarrow> op = Z_Offline"
  by (cases op; simp add: zsa_defs)+

lemma op_desc_same: "zone_next op (zd_state d) = Some (zd_state d) \<Longrightarrow> zd_wp d = zslba d \<and> \<not> zrwav d \<or> op \<noteq> Z_Reset \<Longrightarrow> op_desc op d = d"
  by (cases op; cases d) (auto split: if_splits)

text \<open>
  What an operation is refused with: the state has no entry in the table or, of an opening, a resource that it
  has to acquire is used up.
\<close>

fun op_refusal :: "zone_op \<Rightarrow> zns_ftl \<Rightarrow> zone_state \<Rightarrow> u32 option" where
  "op_refusal (Z_Open zr) z st = open_refusal zr z st"
| "op_refusal op z st = (if zone_next op st = None then Some NVME_SC_ZNS_INVALID_TRANSITION else None)"

lemma op_refusal_next: "op_refusal op z st = None \<Longrightarrow> \<exists>st'. zone_next op st = Some st'"
  by (cases op) (auto simp: open_refusal_def split: if_splits)

lemma zmgmt_op_run:
  assumes zid: "zid = lba_to_zone z lba" and l: "unat (zid :: u32) < length (zone_descs z)" and d: "d = zone_descs z ! unat zid"
    and nz: "zd_state d = ZONE_STATE_EMPTY \<Longrightarrow> \<not> zrwav d" and lim: "in_limits z"
    and bufs: "zrwa_buffer_size (zp z) \<noteq> 0 \<Longrightarrow> unat zid < length (zrwa_buffer z)"
  shows "zmgmt_send undef z lba (op_action op) (op_option op) = Some
    (case op_refusal op z (zd_state d) of
       Some st \<Rightarrow> (st, z)
     | None \<Rightarrow> (NVME_SC_SUCCESS, (if op = Z_Reset then (\<lambda>z. reset_rest z zid) else id)
                     (move_zone z (unat zid) (op_desc op d))))"
proof -
  note same = move_same[OF l, folded d]
  have keep: "move_zone z (unat zid) (op_desc op d) = z" if "zone_next op (zd_state d) = Some (zd_state d)" "op \<noteq> Z_Reset"
    using op_desc_same[OF that(1)] that(2) same by simp
  show ?thesis
  proof (cases op)
    case Z_Close
    then show ?thesis using close_zone_at[OF l d] keep
      by (auto simp: zmgmt_send_def zid[symmetric] active_def)
  next
    case Z_Finish
    then show ?thesis using finish_zone_at[OF l d] keep
      by (auto simp: zmgmt_send_def zid[symmetric] zsa_defs active_def)
  next
    case (Z_Open b)
    then show ?thesis using open_zone_at[OF l d nz lim, of b]
      by (simp add: zmgmt_send_def zid[symmetric] zsa_defs split: option.split)
  next
    case Z_Reset
    then show ?thesis using reset_zone_at[OF l d bufs]
      by (cases "zd_state d") (simp_all add: zmgmt_send_def zid[symmetric] zsa_defs active_def opened_def)
  next
    case Z_Offline
    then show ?thesis using offline_zone_at[OF l d] keep
      by (auto simp: zmgmt_send_def zid[symmetric] zsa_defs)
  qed
qed

text \<open>Under the invariant no resource runs out: what the table has an entry for succeeds.\<close>

lemma inv_limits: "zns_inv z \<Longrightarrow> in_limits z"
proof (unfold in_limits_def, rule allI)
  fix t assume inv: "zns_inv z"
  have "held t (zone_descs z) \<le> unat (nr_zones (zp z))" using held_le[of t "zone_descs z"] zns_invD(3)[OF inv] by simp
  moreover have "unat (nr_zones (zp z)) < 2 ^ LENGTH(32)" by (rule unsigned_less)
  ultimately show "acquired_cnt (res_infos z t) \<le> total_cnt (res_infos z t)"
    using zns_invD(5)[OF inv] by (simp add: resources_ok_def word_le_nat_alt unat_of_nat_less)
qed

lemma op_refusal_inv:
  assumes inv: "zns_inv z" and n: "i < unat (nr_zones (zp z))" and d: "d = zone_descs z ! i"
  shows "op_refusal op z (zd_state d) =
    (if zone_next op (zd_state d) = None then Some NVME_SC_ZNS_INVALID_TRANSITION else None)"
proof -
  have left: "0 < resource_left z t" if "\<not> holds t d" for t
    using resource_avail(1)[OF inv n] that resource_left_iff(1)[OF inv_limits[OF inv]] d by simp
  show ?thesis using left[of ACTIVE_ZONE] left[of OPEN_ZONE] left[of ZRWA_ZONE]
    by (cases op) (auto simp: open_refusal_def active_def opened_def)
qed

lemma zmgmt_op_at:
  assumes inv: "zns_inv z" and zid: "zid = lba_to_zone z lba" "unat (zid :: u32) < unat (nr_zones (zp z))"
    and d: "d = zone_descs z ! unat zid"
  shows "zmgmt_send undef z lba (op_action op) (op_option op) = Some
    (case zone_next op (zd_state d) of
       None \<Rightarrow> (NVME_SC_ZNS_INVALID_TRANSITION, z)
     | Some st \<Rightarrow> (NVME_SC_SUCCESS, (if op = Z_Reset then (\<lambda>z. reset_rest z zid) else id)
                     (move_zone z (unat zid) (op_desc op d))))"
proof -
  have l: "unat zid < length (zone_descs z)" using zid(2) zns_invD(3)[OF inv] by simp
  have nz: "zd_state d = ZONE_STATE_EMPTY \<Longrightarrow> \<not> zrwav d" using zns_invD(4)[OF inv zid(2)] d by (simp add: zone_ok_def)
  have "zrwa_buffer_size (zp z) \<noteq> 0 \<Longrightarrow> unat zid < length (zrwa_buffer z)" using zns_invD(7)[OF inv] zid(2) by simp
  from zmgmt_op_run[OF zid(1) l d nz inv_limits[OF inv] this, of undef op] op_refusal_inv[OF inv zid(2) d, of op]
  show ?thesis by (cases "zone_next op (zd_state d)") simp_all
qed

subsection \<open>Every command keeps the invariant\<close>

lemma op_desc_ok:
  assumes "zone_ok z i d" "zone_next op (zd_state d) = Some st" "zns_geometry z"
  shows "zone_ok z i (op_desc op d)" "zd_state (op_desc op d) = st" "zrwav (op_desc op d) \<Longrightarrow> op_option op \<or> zrwav d"
  using assms geometryD(6)[OF assms(3)]
  by (cases op; auto simp: zone_ok_def active_def opened_def split: if_splits)+

lemma op_move:
  assumes inv: "zns_inv z" and n: "unat (zid :: u32) < unat (nr_zones (zp z))" and d: "d = zone_descs z ! unat zid"
    and st: "zone_next op (zd_state d) = Some st"
  defines "z' \<equiv> (if op = Z_Reset then (\<lambda>z. reset_rest z zid) else id) (move_zone z (unat zid) (op_desc op d))"
  shows "zns_inv z'" "follows (op_option op) z z'" "zone_descs z' = (zone_descs z)[unat zid := op_desc op d]"
proof -
  note ok = zns_invD(4)[OF inv n, folded d] and g = zns_invD(2)[OF inv]
  have m: "zns_inv (move_zone z (unat zid) (op_desc op d))" by (rule move_zone_inv[OF inv n op_desc_ok(1)[OF ok st g]])
  then show "zns_inv z'"
    by (cases "op = Z_Reset") (use reset_rest_inv[OF m, of zid] in \<open>simp_all add: z'_def\<close>)
  have "follows (op_option op) z (move_zone z (unat zid) (op_desc op d))"
    by (rule move_follows) (use n zns_invD(3)[OF inv] zone_next_step[OF st] op_desc_ok[OF ok st g] d in auto)
  then show "follows (op_option op) z z'" by (cases "op = Z_Reset") (simp_all add: z'_def follows_def)
  show "zone_descs z' = (zone_descs z)[unat zid := op_desc op d]" by (simp add: z'_def)
qed

lemma option_ignored: "\<not> (\<exists>b. op = Z_Open b) \<Longrightarrow> zmgmt_send undef z lba (op_action op) opt = zmgmt_send undef z lba (op_action op) False"
  by (cases op) (simp_all add: zmgmt_send_def zsa_defs)

lemma action_cases: "a = ZSA_CLOSE_ZONE \<or> a = ZSA_FINISH_ZONE \<or> a = ZSA_OPEN_ZONE \<or> a = ZSA_RESET_ZONE \<or> a = ZSA_OFFLINE_ZONE \<Longrightarrow>
    \<exists>op. a = op_action op \<and> op_option op = (a = ZSA_OPEN_ZONE \<and> opt)"
  by (elim disjE) (rule exI[of _ Z_Close] exI[of _ Z_Finish] exI[of _ "Z_Open opt"] exI[of _ Z_Reset] exI[of _ Z_Offline];
      simp add: zsa_defs)+

text \<open>A flush needs a granularity when there is an area to flush; nothing else can go wrong.\<close>

lemma zmgmt_send_ok:
  assumes inv: "zns_inv z" and n: "unat (lba_to_zone z lba) < unat (nr_zones (zp z))"
    and c: "\<And>d. d \<in> set (zone_descs z) \<Longrightarrow> zrwav d \<Longrightarrow> zrwa_configured z"
  shows "\<exists>st z'. zmgmt_send undef z lba act opt = Some (st, z') \<and> zns_inv z' \<and> follows (act = ZSA_OPEN_ZONE \<and> opt) z z'"
proof -
  define zid where "zid = lba_to_zone z lba"
  define d where "d = zone_descs z ! unat zid"
  have zn: "unat zid < unat (nr_zones (zp z))" using n by (simp add: zid_def)
  then have l: "unat zid < length (zone_descs z)" using zns_invD(3)[OF inv] by simp
  note ok = zns_invD(4)[OF inv zn, folded d_def]
  consider (op) "act = ZSA_CLOSE_ZONE \<or> act = ZSA_FINISH_ZONE \<or> act = ZSA_OPEN_ZONE \<or> act = ZSA_RESET_ZONE \<or> act = ZSA_OFFLINE_ZONE"
    | (flush) "act = ZSA_FLUSH_EXPL_ZRWA" | (other) "act \<notin> {ZSA_CLOSE_ZONE, ZSA_FINISH_ZONE, ZSA_OPEN_ZONE, ZSA_RESET_ZONE,
        ZSA_OFFLINE_ZONE, ZSA_FLUSH_EXPL_ZRWA}" by auto
  then show ?thesis
  proof cases
    case op
    then obtain op where op: "act = op_action op" "op_option op = (act = ZSA_OPEN_ZONE \<and> opt)" using action_cases by blast
    have "zmgmt_send undef z lba act opt = zmgmt_send undef z lba (op_action op) (op_option op)"
      using op option_ignored[of op undef z lba] zsa_distinct(3)[of op] by (cases "\<exists>b. op = Z_Open b") auto
    then show ?thesis
      using zmgmt_op_at[OF inv zid_def zn d_def, of undef op] inv op(2) op_move[OF inv zn d_def, of op]
      by (cases "zone_next op (zd_state d)") auto
  next
    case flush
    have "d \<in> set (zone_descs z)" using l by (simp add: d_def)
    then obtain st z' where r: "zmgmt_send_flush_explicit_zrwa z lba = Some (st, z')"
      "if st = NVME_SC_SUCCESS then zrwav d \<and> active (zd_state d) \<and> zd_wp d \<le> lba \<and>
        unat lba < unat zid * zone_lbas z + zone_lbas z \<and>
        z' = move_zone z (unat zid) (d\<lparr>zd_wp := lba + 1, zd_state :=
          (if unat lba + 1 = unat zid * zone_lbas z + zone_lbas z then ZONE_STATE_FULL else zd_state d)\<rparr>)
       else z' = z"
      using flush_explicit_at[OF inv zid_def zn d_def] c by blast
    have "zns_inv z' \<and> follows (act = ZSA_OPEN_ZONE \<and> opt) z z'"
    proof (cases "st = NVME_SC_SUCCESS")
      case False
      then show ?thesis using r(2) inv by simp
    next
      case True
      let ?d = "d\<lparr>zd_wp := lba + 1, zd_state :=
          (if unat lba + 1 = unat zid * zone_lbas z + zone_lbas z then ZONE_STATE_FULL else zd_state d)\<rparr>"
      have r2: "active (zd_state d)" "zd_wp d \<le> lba" "unat lba < unat zid * zone_lbas z + zone_lbas z" "z' = move_zone z (unat zid) ?d"
        using r(2) True by simp_all
      have b: "unat zid * zone_lbas z + zone_lbas z < 2 ^ 32" by (rule zone_end(2)[OF inv zn])
      then have s: "unat (lba + 1) = unat lba + 1" using r2(3) by (subst unat_add_less) simp_all
      have "zslba d \<le> lba + 1" using r2(2) ok s by (auto simp: zone_ok_def word_le_nat_alt)
      moreover have "zd_state d \<noteq> ZONE_STATE_EMPTY" using r2(1) by (auto simp: active_def opened_def)
      ultimately have "zone_ok z (unat zid) ?d" using ok r2(1,3) s by (auto simp: zone_ok_def active_def opened_def)
      then have "zns_inv z'" using move_zone_inv[OF inv zn] r2(4) by simp
      moreover have "zone_path (zd_state d) (zd_state ?d)" using r2(1) by (auto intro: zone_step.finish_zone)
      then have "follows (act = ZSA_OPEN_ZONE \<and> opt) z z'" using move_follows[OF l, of ?d] r2(4) by (simp add: d_def)
      ultimately show ?thesis by blast
    qed
    then show ?thesis using r(1) flush by (simp add: zmgmt_send_def zsa_defs)
  next
    case other
    then show ?thesis using inv by (simp add: zmgmt_send_def)
  qed
qed

end
