(* ===== verification/Zns_Device.thy ===== *)
theory Zns_Device
  imports Zns_Send
begin

text \<open>
  The NAND work of zone commands: every page of a zone has a LUN that exists, and the loops over
  programming units and flash pages return and leave the zones alone.
\<close>

subsection \<open>Where a page is\<close>

lemma unat_u64_nat: "n < 2 ^ 64 \<Longrightarrow> unat (of_nat n :: u64) = n"
  by (simp add: unat_of_nat_less)

lemma unat_u32_nat: "n < 2 ^ 32 \<Longrightarrow> unat (of_nat n :: u32) = n"
  by (simp add: unat_of_nat_less)

lemma unat_ucast_small: "unat w < 2 ^ LENGTH('b) \<Longrightarrow> unat (ucast w :: 'b::len word) = unat w" for w :: "'a::len word"
  by (simp add: unsigned_ucast_eq unsigned_take_bit_eq take_bit_nat_eq_self)

lemma mod_multiple_less:
  assumes "(d :: nat) dvd t" "0 < t" "r < d"
  shows "(z * d) mod t + r < t"
proof -
  obtain q where q: "t = d * q" using assms(1) by blast
  then have "0 < q" using assms(2) by simp
  then have "z mod q < q" by simp
  then have "z mod q \<le> q - 1" by linarith
  then have "d * (z mod q) \<le> d * (q - 1)" by simp
  also have "d * (q - 1) = t - d" by (simp add: q diff_mult_distrib2)
  finally have m: "d * (z mod q) \<le> t - d" .
  have "d \<le> t" using q \<open>0 < q\<close> by simp
  moreover have "(z * d) mod t = d * (z mod q)" unfolding q by (simp only: mult.commute[of z d] mult_mod_right)
  ultimately show ?thesis using m assms(3) by linarith
qed

lemma lpn_to_ppa_ok:
  assumes g: "zns_geometry z"
  shows "\<exists>p. lpn_to_ppa z lpn = Some p \<and> lun_in_range (zsp z) p \<and> unat (ppa_pg p) < pgs_per_oneshotpg (zsp z)"
proof -
  let ?t = "tt_luns (zsp z)" and ?k = "pgs_per_oneshotpg (zsp z)" and ?c = "nchs (zsp z)" and ?l = "luns_per_ch (zsp z)"
  let ?D = "unat (dies_per_zone (zp z))"
  have b: "?t = ?l * ?c" "0 < ?t" "?c \<le> 256" "?l \<le> 256" "0 < ?D" "?D dvd ?t" "0 < ?k" "?k \<le> 2 ^ 16"
    using g unfolding zns_geometry_def by blast+
  then have c0: "0 < ?c" by (cases "?c") simp_all
  have t: "?t \<le> 65536" using b(3,4) mult_le_mono[OF b(4,3)] b(1) by simp
  define zone :: u64 where "zone = ucast (lpn_to_zone z lpn)"
  define off where "off = lpn - zone_to_slpn z (ucast zone)"
  define dies :: u64 where "dies = ucast (dies_per_zone (zp z))"
  define sdie :: u32 where "sdie = ucast ((zone * dies) mod of_nat ?t)"
  define die :: u32 where "die = ucast (ucast sdie + (off div of_nat ?k) mod dies)"
  have ud: "unat dies = ?D" by (simp add: dies_def)
  have "?D \<le> 65536" using dvd_imp_le[OF b(6,2)] t by simp
  moreover have "unat zone < 2 ^ 32" using unsigned_less[of "lpn_to_zone z lpn"] by (simp add: zone_def)
  ultimately have "unat zone * unat dies < 2 ^ 64"
    using mult_strict_mono'[of "unat zone" "2 ^ 32" "unat dies" "65537"] ud by simp
  then have "unat ((zone * dies) mod of_nat ?t) = (unat zone * ?D) mod ?t"
    using t ud by (simp add: unat_mod unat_u64_nat unat_mult_less)
  moreover have "(unat zone * ?D) mod ?t < 65536" using mod_less_divisor[OF b(2), of "unat zone * ?D"] t by linarith
  ultimately have us: "unat sdie = (unat zone * ?D) mod ?t" unfolding sdie_def by (subst unat_ucast_small) simp_all
  define r where "r = unat ((off div of_nat ?k) mod dies)"
  have r: "r < ?D" using b(5) ud by (simp add: r_def unat_mod)
  have sum: "unat sdie + r < ?t" using mod_multiple_less[OF b(6,2) r] us by simp
  then have "unat (ucast sdie + (off div of_nat ?k) mod dies) = unat sdie + r"
    using t by (subst unat_add_less) (simp_all add: r_def)
  then have die: "unat die = unat sdie + r" "unat die < ?t"
    using sum t unfolding die_def by (subst unat_ucast_small; simp)+
  have ch: "unat (die_to_channel z die) = unat die mod ?c" and ln: "unat (die_to_lun z die) = unat die div ?c"
    using b(3) by (simp_all add: die_to_channel_def die_to_lun_def unat_mod unat_div unat_u32_nat)
  have chl: "unat die mod ?c < ?c" using c0 by simp
  have lnl: "unat die div ?c < ?l" using die(2) b(1) by (simp add: less_mult_imp_div_less)
  have pg: "unat (off mod of_nat ?k) < ?k" using b(7,8) by (simp add: unat_mod unat_u64_nat)
  let ?p = "\<lparr>ppa_pg = ucast (off mod of_nat ?k), ppa_blk = 0, ppa_pl = 0,
       ppa_lun = ucast (die_to_lun z die), ppa_ch = ucast (die_to_channel z die), ppa_rsv = 0\<rparr>"
  have "dies \<noteq> 0" using ud b(5) by auto
  then have "lpn_to_ppa z lpn = Some ?p"
    using b(2,7) c0 by (simp add: lpn_to_ppa_def zone_def[symmetric] off_def[symmetric] dies_def[symmetric]
        sdie_def[symmetric] die_def[symmetric] Let_def)
  moreover have "unat (ucast (die_to_lun z die) :: u8) < ?l" "unat (ucast (die_to_channel z die) :: u8) < ?c"
    using ch ln chl lnl b(3,4) by (subst unat_ucast_small; simp)+
  moreover have "unat (ucast (off mod of_nat ?k) :: u16) < ?k"
    using pg b(8) by (subst unat_ucast_small) simp_all
  ultimately show ?thesis by (intro exI[of _ ?p]) (simp add: lun_in_range_def)
qed

subsection \<open>The loops\<close>

text \<open>What the NAND work leaves: the zones, and the NAND within its invariant.\<close>

definition device_step :: "zns_ftl \<Rightarrow> zns_ftl \<Rightarrow> bool" where
  "device_step z z' \<longleftrightarrow> (\<exists>s. z' = z\<lparr>zns_ssd := s\<rparr> \<and> ssd_inv s \<and> nand_same (zns_ssd z) s)"

lemma device_stepI: "ssd_inv s \<Longrightarrow> nand_same (zns_ssd z) s \<Longrightarrow> device_step z (z\<lparr>zns_ssd := s\<rparr>)"
  by (auto simp: device_step_def)

lemma device_step_refl: "ssd_inv (zns_ssd z) \<Longrightarrow> device_step z z"
  unfolding device_step_def by (intro exI[of _ "zns_ssd z"]) (simp add: nand_same_refl)

lemma device_step_trans: "device_step z z' \<Longrightarrow> device_step z' z'' \<Longrightarrow> device_step z z''"
proof -
  assume "device_step z z'" "device_step z' z''"
  then obtain s s' where "z' = z\<lparr>zns_ssd := s\<rparr>" "nand_same (zns_ssd z) s" "z'' = z\<lparr>zns_ssd := s'\<rparr>" "ssd_inv s'" "nand_same s s'"
    by (auto simp: device_step_def)
  then show ?thesis using device_stepI[of s' z] nand_same_trans by simp
qed

lemma device_step_sel:
  assumes "device_step z z'"
  shows "zp z' = zp z" "zone_descs z' = zone_descs z" "zsp z' = zsp z" "ssd_inv (zns_ssd z')"
    "res_infos z' = res_infos z" "storage z' = storage z" "zone_write_buffer z' = zone_write_buffer z"
    "zrwa_buffer z' = zrwa_buffer z" "report_buffer z' = report_buffer z"
    "write_buffer (zns_ssd z') = write_buffer (zns_ssd z)"
  using assms by (auto simp: device_step_def nand_same_def)

lemma device_step_inv: "zns_inv z \<Longrightarrow> device_step z z' \<Longrightarrow> zns_inv z'"
  using device_step_sel[of z z'] zone_ok_cong[of z' z] zns_geometry_cong[of z' z]
  by (simp add: zns_inv_def resources_ok_def)

lemma device_step_geometry: "zns_geometry z \<Longrightarrow> device_step z z' \<Longrightarrow> zns_geometry z'"
  using device_step_sel[of z z'] zns_geometry_cong[of z' z] by simp

lemma zns_advance_ok:
  assumes "zns_geometry z" "ssd_inv (zns_ssd z)" "lun_in_range (zsp z) (nc_ppa n)" "nc_cmd n = NAND_READ \<Longrightarrow> xfer_size n \<noteq> 0"
  shows "\<exists>t z'. zns_advance z n = Some (t, z') \<and> device_step z z'"
proof -
  have "time_params (zsp z)" using assms(1) unfolding zns_geometry_def by blast
  then obtain t s' where "ssd_advance_nand (zns_ssd z) n = Some (t, s')" "ssd_inv s'" "nand_same (zns_ssd z) s'"
    using ssd_advance_nand_ok[OF assms(2) _ assms(3,4)] by blast
  then show ?thesis by (auto simp: zns_advance_def intro: device_stepI)
qed

lemma pages_of_unit:
  assumes "lpn \<le> elpn" "elpn < - 1" "off < k" "k < 2 ^ 32"
  defines "n \<equiv> min (elpn - lpn + 1) (of_nat (k - off) :: u64)"
  shows "0 < unat n" "unat n \<le> k - off" "unat (lpn + n) = unat lpn + unat n" "unat (lpn + n) \<le> unat elpn + 1"
proof -
  have "unat (elpn - lpn) = unat elpn - unat lpn" using assms(1) by (rule unat_sub_le)
  moreover have "unat elpn < 2 ^ 64 - 1"
    using assms(2) by (simp add: word_less_nat_alt unsigned_minus_1_eq_mask mask_eq_exp_minus_1)
  ultimately have e: "unat (elpn - lpn + 1) = unat elpn - unat lpn + 1" by (subst unat_add_less) simp_all
  have le: "unat lpn \<le> unat elpn" using assms(1) by (simp add: word_le_nat_alt)
  have k: "unat (of_nat (k - off) :: u64) = k - off" using assms(4) by (simp add: unat_u64_nat)
  have n: "unat n = min (unat elpn - unat lpn + 1) (k - off)"
    using e k by (auto simp: n_def min_def word_le_nat_alt)
  show "0 < unat n" "unat n \<le> k - off" using n assms(3) by auto
  have s: "unat lpn + unat n \<le> unat elpn + 1" using n le by auto
  then show l: "unat (lpn + n) = unat lpn + unat n"
    using \<open>unat elpn < 2 ^ 64 - 1\<close> by (subst unat_add_less) simp_all
  show "unat (lpn + n) \<le> unat elpn + 1" using l s by simp
qed

lemma write_units_ok:
  assumes "zns_geometry z" "ssd_inv (zns_ssd z)" "elpn < - 1"
  shows "\<exists>z' latest' ops'. write_units sqid wb xfer ze elpn lpn (z, latest, ops) = Some (z', latest', ops') \<and> device_step z z'"
  using assms
proof (induction "2 ^ 64 - unat lpn" arbitrary: z lpn latest ops rule: less_induct)
  case less
  show ?case
  proof (cases "elpn < lpn")
    case True
    then show ?thesis using device_step_refl[OF less.prems(2)] by (simp add: write_units.simps)
  next
    case False
    obtain p where p: "lpn_to_ppa z lpn = Some p" "lun_in_range (zsp z) p" "unat (ppa_pg p) < pgs_per_oneshotpg (zsp z)"
      using lpn_to_ppa_ok[OF less.prems(1)] by blast
    define k where "k = pgs_per_oneshotpg (zsp z)"
    define off where "off = unat (ppa_pg p) mod k"
    define n where "n = min (elpn - lpn + 1) (of_nat (k - off) :: u64)"
    have "0 < k" "k \<le> 2 ^ 16" using less.prems(1) unfolding zns_geometry_def k_def by blast+
    then have k: "0 < k" "k < 2 ^ 32" by simp_all
    then have n: "0 < unat n" "unat (lpn + n) = unat lpn + unat n"
      using pages_of_unit[of lpn elpn off k, folded n_def] False less.prems(3) by (simp_all add: off_def)
    let ?step = "if of_nat off + n = of_nat k \<or> lpn + n - 1 = ze then do {
             let unaligned = unat (zone_size (zp z)) mod oneshot_bytes z;
             (done, z) \<leftarrow> zns_advance z \<lparr>nc_type = USER_IO, nc_cmd = NAND_WRITE, xfer_size = of_nat (oneshot_bytes z),
                            stime = xfer, interleave_pci_dma = False, nc_ppa = p\<rparr>;
             let rel = (if lpn + n - 1 = ze \<and> unaligned > 0 then unaligned else oneshot_bytes z);
             Some (z, max64 done latest,
               ops @ [(wb, \<lparr>op_sqid = sqid, op_nsecs_target = done, op_buffs_to_release = of_nat rel\<rparr>)])
           } else Some (z, latest, ops)"
    have nz: "\<not> (n = 0 \<or> lpn + n \<le> lpn)" using n by (auto simp: word_le_nat_alt)
    have run: "write_units sqid wb xfer ze elpn lpn (z, latest, ops) =
        (?step \<bind> (\<lambda>st. write_units sqid wb xfer ze elpn (lpn + n) st))"
      using False p(1) nz unfolding n_def off_def k_def by (subst write_units.simps) (simp add: Let_def)
    obtain z1 l1 o1 where st: "?step = Some (z1, l1, o1)" "device_step z z1"
    proof (cases "of_nat off + n = of_nat k \<or> lpn + n - 1 = ze")
      case True
      obtain t z1 where "zns_advance z \<lparr>nc_type = USER_IO, nc_cmd = NAND_WRITE, xfer_size = of_nat (oneshot_bytes z),
                            stime = xfer, interleave_pci_dma = False, nc_ppa = p\<rparr> = Some (t, z1)" "device_step z z1"
        using zns_advance_ok[OF less.prems(1,2), of "\<lparr>nc_type = USER_IO, nc_cmd = NAND_WRITE,
          xfer_size = of_nat (oneshot_bytes z), stime = xfer, interleave_pci_dma = False, nc_ppa = p\<rparr>"] p(2) by auto
      then show ?thesis using True that by (simp add: Let_def)
    next
      case False
      then show ?thesis using that device_step_refl[OF less.prems(2)] by simp
    qed
    have m: "2 ^ 64 - unat (lpn + n) < 2 ^ 64 - unat lpn"
      using n unsigned_less[of lpn] by (intro diff_less_mono2) simp_all
    obtain z2 l2 o2 where "write_units sqid wb xfer ze elpn (lpn + n) (z1, l1, o1) = Some (z2, l2, o2)" "device_step z1 z2"
      using less.hyps[OF m device_step_geometry[OF less.prems(1) st(2)] device_step_sel(4)[OF st(2)] less.prems(3)] by blast
    then show ?thesis using run st device_step_trans by auto
  qed
qed

lemma read_units_ok:
  assumes "zns_geometry z" "ssd_inv (zns_ssd z)" "elpn < - 1"
  shows "\<exists>z' latest'. read_units st0 elpn lpn (z, latest) = Some (z', latest') \<and> device_step z z' \<and> latest \<le> latest'"
  using assms
proof (induction "2 ^ 64 - unat lpn" arbitrary: z lpn latest rule: less_induct)
  case less
  show ?case
  proof (cases "elpn < lpn")
    case True
    then show ?thesis using device_step_refl[OF less.prems(2)] by (simp add: read_units.simps)
  next
    case False
    obtain p where p: "lpn_to_ppa z lpn = Some p" "lun_in_range (zsp z) p" using lpn_to_ppa_ok[OF less.prems(1)] by blast
    define k where "k = pgs_per_flashpg (zsp z)"
    define off where "off = unat (ppa_pg p) mod k"
    define n where "n = min (elpn - lpn + 1) (of_nat (k - off) :: u64)"
    have "k \<le> 2 ^ 16" "time_params (zsp z)" using less.prems(1) unfolding zns_geometry_def k_def by blast+
    then have k: "0 < k" "k \<le> 2 ^ 16" by (simp_all add: time_params_def k_def)
    then have n: "0 < unat n" "unat n \<le> k - off" "unat (lpn + n) = unat lpn + unat n"
      using pages_of_unit[of lpn elpn off k, folded n_def] False less.prems(3) by (simp_all add: off_def)
    have pg: "pgsz (zsp z) = 4096" by (rule geometryD(3)[OF less.prems(1)])
    have "unat (n * of_nat (pgsz (zsp z))) = unat n * 4096"
      using n(2) k(2) pg by (subst unat_mult_less) simp_all
    then have nz: "n * of_nat (pgsz (zsp z)) \<noteq> 0" using n(1) by (metis mult_is_0 neq0_conv unsigned_0 zero_neq_numeral)
    let ?n = "\<lparr>nc_type = USER_IO, nc_cmd = NAND_READ, xfer_size = n * of_nat (pgsz (zsp z)),
                       stime = st0, interleave_pci_dma = False, nc_ppa = p\<rparr>"
    obtain t z1 where a: "zns_advance z ?n = Some (t, z1)" "device_step z z1"
      using zns_advance_ok[OF less.prems(1,2), of ?n] p(2) nz by auto
    let ?l = "if t > latest then t else latest"
    have nn: "\<not> (n = 0 \<or> lpn + n \<le> lpn)" using n by (auto simp: word_le_nat_alt)
    have run: "read_units st0 elpn lpn (z, latest) = read_units st0 elpn (lpn + n) (z1, ?l)"
      using False p(1) nn a(1) k(1) unfolding n_def off_def k_def by (subst read_units.simps) (simp add: Let_def)
    have m: "2 ^ 64 - unat (lpn + n) < 2 ^ 64 - unat lpn"
      using n unsigned_less[of lpn] by (intro diff_less_mono2) simp_all
    obtain z2 l2 where "read_units st0 elpn (lpn + n) (z1, ?l) = Some (z2, l2)" "device_step z1 z2" "?l \<le> l2"
      using less.hyps[OF m device_step_geometry[OF less.prems(1) a(2)] device_step_sel(4)[OF a(2)] less.prems(3)] by blast
    moreover have "latest \<le> ?l" by (simp add: less_imp_le)
    ultimately show ?thesis using run a(2) device_step_trans[of z z1 z2] order_trans[of latest ?l l2] by auto
  qed
qed

end
