(* ===== verification/Zns_Write.thy ===== *)
theory Zns_Write
  imports Zns_Device
begin

text \<open>
  Writes and appends to the zones of a namespace: the status of a write is a function of the
  zone's descriptor and of the command, and a write that succeeds moves the write pointer.
\<close>

subsection \<open>Sizes and buffers\<close>

lemma nr_lba_facts:
  "unat (zns_cmd_nr_lba cmd) = unat (rw_length cmd) + 1" "unat (zns_cmd_nr_lba cmd) \<le> 65536"
  "unat (LBA_TO_BYTE (zns_cmd_nr_lba cmd)) = (unat (rw_length cmd) + 1) * 512"
  "ucast (ucast (zns_cmd_nr_lba cmd) :: u32) = zns_cmd_nr_lba cmd"
proof -
  have l: "unat (rw_length cmd) < 65536" using unsigned_less[of "rw_length cmd"] by simp
  have "unat (ucast (rw_length cmd) :: u32) = unat (rw_length cmd)" using l by (subst unat_ucast_small) simp_all
  then have n: "unat (nr_lbas_from_rw_cmd cmd) = unat (rw_length cmd) + 1"
    using l unfolding nr_lbas_from_rw_cmd_def by (subst unat_add_less) simp_all
  then show u: "unat (zns_cmd_nr_lba cmd) = unat (rw_length cmd) + 1" by (simp add: zns_cmd_nr_lba_def)
  then show "unat (zns_cmd_nr_lba cmd) \<le> 65536" using l by simp
  show "ucast (ucast (zns_cmd_nr_lba cmd) :: u32) = zns_cmd_nr_lba cmd" by (simp add: zns_cmd_nr_lba_def)
  have "zns_cmd_nr_lba cmd = of_nat (unat (rw_length cmd) + 1)" using arg_cong[OF u, of "of_nat :: nat \<Rightarrow> u64"] by simp
  then have "LBA_TO_BYTE (zns_cmd_nr_lba cmd) = of_nat ((unat (rw_length cmd) + 1) * 512)"
    by (simp add: LBA_TO_BYTE_def push_bit_eq_mult)
  then show "unat (LBA_TO_BYTE (zns_cmd_nr_lba cmd)) = (unat (rw_length cmd) + 1) * 512"
    using l by (simp add: unat_of_nat_less del: of_nat_mult of_nat_add)
qed

lemma buffer_allocate_fits:
  assumes "n \<le> buf_size b" "0 < unat n" "unat n < 2 ^ 32"
  shows "\<exists>a. buffer_allocate b n = Some (a, if remaining b < n then b else b\<lparr>remaining := remaining b - n\<rparr>) \<and>
    (ucast a < n \<longleftrightarrow> remaining b < n)"
proof -
  have "unat (ucast (ucast n :: u32) :: u64) = unat n"
    using assms(3) by (simp add: unsigned_ucast_eq unsigned_take_bit_eq take_bit_nat_eq_self)
  then have "ucast (ucast n :: u32) = n" by (simp add: word_unat_eq_iff)
  moreover have "0 < n" using assms(2) by (simp add: word_less_nat_alt)
  ultimately show ?thesis using assms(1) by (auto simp: buffer_allocate_def Let_def)
qed

lemma set_wbuf_sel [simp]:
  "zp (set_wbuf z r b) = zp z" "zone_descs (set_wbuf z r b) = zone_descs z" "zsp (set_wbuf z r b) = zsp z"
  "res_infos (set_wbuf z r b) = res_infos z" "storage (set_wbuf z r b) = storage z"
  "report_buffer (set_wbuf z r b) = report_buffer z" "length (zone_write_buffer (set_wbuf z r b)) = length (zone_write_buffer z)"
  "length (zrwa_buffer (set_wbuf z r b)) = length (zrwa_buffer z)"
  by (cases r; simp add: set_wbuf_def)+

lemma set_wbuf_ssd: "ssd_inv (zns_ssd (set_wbuf z r b)) = ssd_inv (zns_ssd z)"
  by (cases r) (simp_all add: set_wbuf_def ssd_inv_def)

lemma set_wbuf_inv: "zns_inv (set_wbuf z r b) = zns_inv z"
  using zone_ok_cong[of "set_wbuf z r b" z] zns_geometry_cong[of "set_wbuf z r b" z] set_wbuf_ssd[of z r b]
  by (simp add: zns_inv_def resources_ok_def)

lemma set_wbuf_same: "get_wbuf z r = Some b \<Longrightarrow> set_wbuf z r b = z"
  by (cases r) (auto simp: get_wbuf_def set_wbuf_def aget_Some_iff)

lemma get_wbuf_of:
  assumes "zns_inv z" "unat zid < unat (nr_zones (zp z))"
  shows "\<exists>b. get_wbuf z (wbuf_of z zid) = Some b"
  using zns_invD(6)[OF assms(1)] assms(2) by (auto simp: get_wbuf_def wbuf_of_def)

text \<open>The zone a command names, found through its page or through its block.\<close>

lemma zone_of_lpn:
  assumes g: "zns_geometry z"
  shows "lpn_to_zone z (lba_to_lpn z lba) = lba_to_zone z lba"
proof -
  have e: "unat (zone_size (zp z)) div 4096 = zone_lbas z div 8"
    by (simp add: zone_lbas_def div_mult2_eq[symmetric])
  have "8 * (zone_lbas z div 8) = zone_lbas z" using geometryD(5)[OF g] by simp
  then have "unat lba div 8 div (zone_lbas z div 8) = unat lba div zone_lbas z"
    by (simp add: div_mult2_eq[symmetric])
  then have "unat (lba div 8 div ucast (zone_size (zp z) div 4096)) = unat (lba div ucast (zone_size (zp z) div 512))"
    by (simp add: unat_div e zone_lbas_def)
  then have "lba div 8 div ucast (zone_size (zp z) div 4096) = lba div ucast (zone_size (zp z) div 512)"
    by (simp add: word_unat_eq_iff)
  then show ?thesis
    by (simp add: lpn_to_zone_def lba_to_zone_def lba_to_lpn_def geometryD(1-3)[OF g])
qed

subsection \<open>What a write does\<close>

text \<open>The status of a write of \<open>n\<close> blocks at \<open>lba\<close> to a zone with descriptor \<open>d\<close>.\<close>

definition write_status :: "zns_ftl \<Rightarrow> zone_descriptor \<Rightarrow> u64 \<Rightarrow> u64 \<Rightarrow> u32" where
  "write_status z d lba n =
     (if LBA_TO_BYTE n mod of_nat (write_unit_size (zsp z)) \<noteq> 0 then NVME_SC_ZNS_INVALID_WRITE
      else if lba_to_zone z lba \<noteq> lba_to_zone z (lba + n - 1) then NVME_SC_ZNS_ERR_BOUNDARY
      else if lba \<noteq> zd_wp d then NVME_SC_ZNS_INVALID_WRITE
      else case zd_state d of
        ZONE_STATE_FULL \<Rightarrow> NVME_SC_ZNS_ERR_FULL
      | ZONE_STATE_READ_ONLY \<Rightarrow> NVME_SC_ZNS_ERR_READ_ONLY
      | ZONE_STATE_OFFLINE \<Rightarrow> NVME_SC_ZNS_ERR_OFFLINE
      | _ \<Rightarrow> NVME_SC_SUCCESS)"

definition write_state :: "zone_descriptor \<Rightarrow> u64 \<Rightarrow> zone_state" where
  "write_state d n =
     (if zd_wp d + n = zslba d + zone_capacity d then ZONE_STATE_FULL
      else if zd_state d = ZONE_STATE_OPENED_EXPL then ZONE_STATE_OPENED_EXPL else ZONE_STATE_OPENED_IMPL)"

definition written :: "zone_descriptor \<Rightarrow> u64 \<Rightarrow> zone_descriptor" where
  "written d n = d\<lparr>zd_wp := zd_wp d + n, zd_state := write_state d n\<rparr>"

lemma zns_status_distinct [simp]:
  "NVME_SC_ZNS_INVALID_WRITE \<noteq> NVME_SC_SUCCESS" "NVME_SC_ZNS_ERR_BOUNDARY \<noteq> NVME_SC_SUCCESS"
  "NVME_SC_ZNS_ERR_FULL \<noteq> NVME_SC_SUCCESS" "NVME_SC_ZNS_ERR_READ_ONLY \<noteq> NVME_SC_SUCCESS"
  "NVME_SC_ZNS_ERR_OFFLINE \<noteq> NVME_SC_SUCCESS" "NVME_SC_ZNS_INVALID_TRANSITION \<noteq> NVME_SC_SUCCESS"
  by (simp_all add: zns_status_defs)

text \<open>A write that is accepted starts at the write pointer and ends inside the zone.\<close>

lemma write_fits:
  assumes inv: "zns_inv z" and n: "i < unat (nr_zones (zp z))" and d: "d = zone_descs z ! i"
    and st: "write_status z d lba k = NVME_SC_SUCCESS" and k: "0 < unat k" "unat k \<le> 65536"
  shows "lba = zd_wp d" "active (zd_state d) \<or> zd_state d = ZONE_STATE_EMPTY" "unat (zd_wp d + k) = unat (zd_wp d) + unat k"
    "unat (zd_wp d) + unat k \<le> i * zone_lbas z + zone_lbas z"
    "zd_wp d + k = zslba d + zone_capacity d \<longleftrightarrow> unat (zd_wp d) + unat k = i * zone_lbas z + zone_lbas z"
proof -
  note g = zns_invD(2)[OF inv] and ok = zns_invD(4)[OF inv n, folded d]
  show lba: "lba = zd_wp d" and act: "active (zd_state d) \<or> zd_state d = ZONE_STATE_EMPTY"
    using st by (auto simp: write_status_def active_def opened_def split: if_splits zone_state.splits)
  let ?L = "zone_lbas z"
  have L0: "0 < ?L" by (rule geometryD(6)[OF g])
  have wp: "i * ?L \<le> unat (zd_wp d)" "unat (zd_wp d) < i * ?L + ?L"
    using ok act L0 by (auto simp: zone_ok_def word_le_nat_alt)
  have "Suc i * ?L \<le> unat (nr_zones (zp z)) * ?L" using n by (intro mult_le_mono1) simp
  then have b: "i * ?L + ?L < 2 ^ 32" using geometryD(7)[OF g] by simp
  show s: "unat (zd_wp d + k) = unat (zd_wp d) + unat k" using wp(2) b k(2) by (subst unat_add_less) simp_all
  have e: "unat (zd_wp d + k - 1) = unat (zd_wp d) + unat k - 1"
    using s k(1) unat_sub_of_nat[of 1 "zd_wp d + k"] by simp
  have "unat (lba_to_zone z (zd_wp d)) = i" by (rule lba_to_zone_at[OF g wp n])
  moreover have "lba_to_zone z (zd_wp d) = lba_to_zone z (zd_wp d + k - 1)"
    using st lba by (auto simp: write_status_def split: if_splits)
  ultimately have z: "(unat (zd_wp d) + unat k - 1) div ?L mod 2 ^ 32 = i" using lba_to_zone_mod[OF g] e by metis
  have "(unat (zd_wp d) + unat k - 1) div ?L < 2 ^ 32"
  proof -
    have "8 \<le> ?L" using geometryD(5)[OF g] L0 by (rule dvd_imp_le)
    then have "(unat (zd_wp d) + unat k - 1) div ?L \<le> (unat (zd_wp d) + unat k - 1) div 8" by (rule div_le_mono2[rotated]) simp
    also have "\<dots> \<le> (2 ^ 32 + 65536) div 8" using wp(2) b k(2) by (intro div_le_mono) simp
    finally show ?thesis by simp
  qed
  then have "(unat (zd_wp d) + unat k - 1) div ?L = i" using z by simp
  then have "unat (zd_wp d) + unat k - 1 < i * ?L + ?L"
    using L0 by (metis add.commute dividend_less_times_div mult.commute)
  then show f: "unat (zd_wp d) + unat k \<le> i * ?L + ?L" using k(1) by linarith
  have "unat (zslba d + zone_capacity d) = i * ?L + ?L" using ok b by (subst unat_add_less) (simp_all add: zone_ok_def)
  then show "zd_wp d + k = zslba d + zone_capacity d \<longleftrightarrow> unat (zd_wp d) + unat k = i * ?L + ?L"
    using s by (simp add: word_unat_eq_iff)
qed

lemma written_ok:
  assumes "zns_inv z" "i < unat (nr_zones (zp z))" "d = zone_descs z ! i"
    "write_status z d lba k = NVME_SC_SUCCESS" "0 < unat k" "unat k \<le> 65536"
  shows "zone_ok z i (written d k)" "zone_path (zd_state d) (zd_state (written d k))"
proof -
  note w = write_fits[OF assms] and ok = zns_invD(4)[OF assms(1,2), folded assms(3)]
  have "zslba d \<le> zd_wp d + k" using ok w(3) by (auto simp: zone_ok_def word_le_nat_alt)
  then show "zone_ok z i (written d k)"
    using ok w(3-5) unfolding zone_ok_def written_def write_state_def by (auto simp: active_def opened_def)
  show "zone_path (zd_state d) (zd_state (written d k))"
    using w(2) by (cases "zd_state (written d k) = zd_state d")
      (auto simp: written_def write_state_def active_def opened_def intro!: r_into_rtranclp intro: zone_step.intros)
qed

subsection \<open>The zone after a write\<close>

lemma zslba_of_zone:
  assumes "zns_inv z" "unat (zid :: u32) < unat (nr_zones (zp z))"
  shows "zone_to_slba z zid = zslba (zone_descs z ! unat zid)"
  using zone_to_slba_at[OF zns_invD(2)[OF assms(1)], of zid] assms(2) zns_invD(4)[OF assms]
  by (simp add: word_unat_eq_iff zone_ok_def)

text \<open>Opening a zone for a write: refused by the state of the zone, never for want of resources.\<close>

definition write_zone_open :: "zns_ftl \<Rightarrow> nat \<Rightarrow> zone_descriptor \<Rightarrow> zns_ftl" where
  "write_zone_open z i d =
     (if opened (zd_state d) then z else move_zone z i (d\<lparr>zd_state := ZONE_STATE_OPENED_IMPL\<rparr>))"

lemma open_for_write_at:
  assumes inv: "zns_inv z" and n: "unat (zid :: u32) < unat (nr_zones (zp z))" and d: "d = zone_descs z ! unat zid"
    and nz: "\<not> zrwav d" and lba: "lba = zd_wp d"
    and unit: "LBA_TO_BYTE k mod of_nat (write_unit_size (zsp z)) = 0" "lba_to_zone z lba = lba_to_zone z (lba + k - 1)"
  shows "open_for_write z zid d lba = Some
    (if write_status z d lba k = NVME_SC_SUCCESS then (None, write_zone_open z (unat zid) d)
     else (Some (write_status z d lba k), z))"
proof -
  have l: "unat zid < length (zone_descs z)" using n zns_invD(3)[OF inv] by simp
  note av = resource_avail[OF inv n, folded d] and ok = zns_invD(4)[OF inv n, folded d]
  let ?d = "d\<lparr>zd_state := ZONE_STATE_OPENED_IMPL\<rparr>"
  have st: "write_status z d lba k = (case zd_state d of
        ZONE_STATE_FULL \<Rightarrow> NVME_SC_ZNS_ERR_FULL
      | ZONE_STATE_READ_ONLY \<Rightarrow> NVME_SC_ZNS_ERR_READ_ONLY
      | ZONE_STATE_OFFLINE \<Rightarrow> NVME_SC_ZNS_ERR_OFFLINE
      | _ \<Rightarrow> NVME_SC_SUCCESS)"
    using lba unit by (simp add: write_status_def)
  have closed: "(add_acquired OPEN_ZONE 1 z)\<lparr>zone_descs := (zone_descs z)[unat zid := ?d]\<rparr> = move_zone z (unat zid) ?d"
    if "zd_state d = ZONE_STATE_CLOSED"
    by (rule move_zoneI, simp_all) (rule all_resourcesI, use that nz in \<open>auto simp: hold_def active_def opened_def d[symmetric]\<close>)
  have empty: "(add_acquired OPEN_ZONE 1 (add_acquired ACTIVE_ZONE 1 z))\<lparr>zone_descs := (zone_descs z)[unat zid := ?d]\<rparr> =
      move_zone z (unat zid) ?d" if "zd_state d = ZONE_STATE_EMPTY"
    by (rule move_zoneI, simp_all) (rule all_resourcesI, use that nz in \<open>auto simp: hold_def active_def opened_def d[symmetric]\<close>)
  show ?thesis
  proof (cases "zd_state d")
    case ZONE_STATE_EMPTY
    then show ?thesis
      using av[of ACTIVE_ZONE] av[of OPEN_ZONE] ok lba l st empty
      by (simp add: open_for_write_def zone_ok_def open_closed_zone_def acquire_zone_resource_def change_zone_state_at
          active_def opened_def write_zone_open_def d[symmetric])
  next
    case ZONE_STATE_CLOSED
    then show ?thesis
      using av(1)[of OPEN_ZONE] l st closed
      by (simp add: open_for_write_def open_closed_zone_def acquire_zone_resource_def change_zone_state_at
          opened_def write_zone_open_def d[symmetric])
  qed (simp_all add: open_for_write_def st write_zone_open_def opened_def)
qed

text \<open>Moving the write pointer of an opened zone.\<close>

lemma slba_descs [simp]: "zone_to_slba (z\<lparr>zone_descs := ds\<rparr>) = zone_to_slba z"
  by (simp add: zone_to_slba_def fun_eq_iff)

lemma increase_write_ptr_at:
  assumes inv: "zns_inv z" and n: "unat (zid :: u32) < unat (nr_zones (zp z))" and d: "d = zone_descs z ! unat zid"
    and nz: "\<not> zrwav d" and act: "active (zd_state d) \<or> zd_state d = ZONE_STATE_EMPTY"
    and k: "ucast (ucast k :: u32) = k"
  shows "increase_write_ptr (write_zone_open z (unat zid) d) zid (ucast k) = Some (move_zone z (unat zid) (written d k))"
proof -
  have l: "unat zid < length (zone_descs z)" using n zns_invD(3)[OF inv] by simp
  define z1 where "z1 = write_zone_open z (unat zid) d"
  define d1 where "d1 = zone_descs z1 ! unat zid"
  have d1: "d1 = (if opened (zd_state d) then d else d\<lparr>zd_state := ZONE_STATE_OPENED_IMPL\<rparr>)"
    using l d by (simp add: d1_def z1_def write_zone_open_def)
  have z1: "zp z1 = zp z" "zsp z1 = zsp z" "length (zone_descs z1) = length (zone_descs z)"
    "zone_descs z1 = (zone_descs z)[unat zid := d1]"
    using d l by (simp_all add: z1_def write_zone_open_def d1_def)
  have cnt: "acquired_cnt (res_infos z1 t) = acquired_cnt (res_infos z t) + hold t d1 - hold t d"
      "total_cnt (res_infos z1 t) = total_cnt (res_infos z t)" for t
    by (simp_all add: z1_def write_zone_open_def d1 d[symmetric] move_zone_def)
  have rest: "zns_ssd z1 = zns_ssd z" "report_buffer z1 = report_buffer z" "zone_write_buffer z1 = zone_write_buffer z"
    "zrwa_buffer z1 = zrwa_buffer z" "storage z1 = storage z"
    by (simp_all add: z1_def write_zone_open_def)
  have slba: "zone_to_slba z1 zid = zslba d" using zslba_of_zone[OF inv n] z1(1,2) d by (simp add: zone_to_slba_def)
  have same: "zd_wp d1 = zd_wp d" "zone_capacity d1 = zone_capacity d" "opened (zd_state d1)" "\<not> zrwav d1"
    using d1 act nz by (auto simp: opened_def)
  let ?full = "zd_wp d + k = zslba d + zone_capacity d"
  have wr: "written d k = (if ?full then d1\<lparr>zd_wp := zd_wp d + k, zd_state := ZONE_STATE_FULL\<rparr> else d1\<lparr>zd_wp := zd_wp d + k\<rparr>)"
    using act by (cases d) (auto simp: written_def write_state_def d1 opened_def active_def)
  have h: "hold t (written d k) = (if ?full then 0 else hold t d1)" for t
    by (cases t) (auto simp: wr hold_def active_def opened_def)
  have h1: "hold ACTIVE_ZONE d1 = 1" "hold OPEN_ZONE d1 = 1" "hold ZRWA_ZONE d1 = 0"
    using same by (simp_all add: hold_def active_def)
  have g: "get_zone z1 (ucast zid) = Some d1" by (simp add: get_zone_def z1(3) l d1_def)
  show ?thesis
  proof (cases ?full)
    case True
    have "(add_acquired ACTIVE_ZONE (- 1) (add_acquired OPEN_ZONE (- 1) z1))\<lparr>zone_descs := (zone_descs z)[unat zid := written d k]\<rparr> =
        move_zone z (unat zid) (written d k)"
      by (rule move_zoneI, simp_all add: rest z1 cnt) (rule all_resourcesI, simp_all add: h True h1 d[symmetric])
    then show ?thesis
      using g True k slba same l z1(4) unfolding z1_def[symmetric]
      by (simp add: increase_write_ptr_def upd_zone_at change_zone_state_at release_zone_resource_def add_acquired_descs wr
          d1_def[symmetric] z1(3) Let_def)
  next
    case False
    have "z1\<lparr>zone_descs := (zone_descs z)[unat zid := written d k]\<rparr> = move_zone z (unat zid) (written d k)"
      by (rule move_zoneI) (simp_all add: rest z1 cnt h False d[symmetric])
    then show ?thesis
      using g False k slba same l z1(4) unfolding z1_def[symmetric]
      by (simp add: increase_write_ptr_def upd_zone_at wr d1_def[symmetric] z1(3) Let_def)
  qed
qed

subsection \<open>The command\<close>

lemma zns_advance_write_buffer_ok:
  assumes "ssd_inv (zns_ssd z)"
  shows "\<exists>t z'. zns_advance_write_buffer z t0 n = Some (t, z') \<and> device_step z z'"
proof -
  obtain t s where "ssd_advance_write_buffer (zns_ssd z) t0 n = Some (t, s)" "ssd_inv s" "nand_same (zns_ssd z) s"
    using ssd_advance_write_buffer_ok[OF assms] by blast
  then show ?thesis by (auto simp: zns_advance_write_buffer_def intro: device_stepI)
qed

lemma elpn_small: "(x :: u64) div 8 < - 1"
proof -
  have "unat x < 2 ^ LENGTH(64)" by (rule unsigned_less)
  then have "unat x div 8 < 2 ^ 61" by (simp add: less_mult_imp_div_less)
  then show ?thesis by (simp add: word_less_nat_alt unat_div unsigned_minus_1_eq_mask mask_eq_exp_minus_1)
qed

definition is_append :: "nvmev_request \<Rightarrow> bool" where
  "is_append req \<longleftrightarrow> opcode (req_cmd req) = nvme_cmd_zone_append"

definition write_lba :: "zone_descriptor \<Rightarrow> nvmev_request \<Rightarrow> u64" where
  "write_lba d req = (if is_append req then zd_wp d else slba (req_cmd req))"

text \<open>The part of a write that follows the allocation of its buffer.\<close>

lemma write_after_allocate:
  assumes inv: "zns_inv z" and n: "unat (zid :: u32) < unat (nr_zones (zp z))" and d: "d = zone_descs z ! unat zid"
    and nz: "\<not> zrwav d" and k: "k = zns_cmd_nr_lba cmd"
  shows "\<exists>err z1. (if LBA_TO_BYTE k mod of_nat (write_unit_size (zsp z)) \<noteq> 0 then Some (Some NVME_SC_ZNS_INVALID_WRITE, z)
       else if \<not> check_boundary_error z lba (ucast k) then Some (Some NVME_SC_ZNS_ERR_BOUNDARY, z)
       else if lba \<noteq> zd_wp d then Some (Some NVME_SC_ZNS_INVALID_WRITE, z)
       else open_for_write z zid d lba) = Some (err, z1) \<and>
     (if write_status z d lba k = NVME_SC_SUCCESS then err = None \<and> z1 = write_zone_open z (unat zid) d \<and>
        increase_write_ptr z1 zid (ucast k) = Some (move_zone z (unat zid) (written d k))
      else err = Some (write_status z d lba k) \<and> z1 = z)"
proof -
  have b: "check_boundary_error z lba (ucast k) \<longleftrightarrow> lba_to_zone z lba = lba_to_zone z (lba + k - 1)"
    by (simp add: check_boundary_error_def k nr_lba_facts(4))
  show ?thesis
  proof (cases "LBA_TO_BYTE k mod of_nat (write_unit_size (zsp z)) = 0 \<and> lba_to_zone z lba = lba_to_zone z (lba + k - 1) \<and> lba = zd_wp d")
    case False
    then show ?thesis using b by (auto simp: write_status_def)
  next
    case True
    have "active (zd_state d) \<or> zd_state d = ZONE_STATE_EMPTY" if "write_status z d lba k = NVME_SC_SUCCESS"
      using that by (auto simp: write_status_def active_def opened_def split: if_splits zone_state.splits)
    then show ?thesis
      using True b open_for_write_at[OF inv n d nz, of lba k] increase_write_ptr_at[OF inv n d nz, of k] nr_lba_facts(4)[of cmd] k
      by (cases "write_status z d lba k = NVME_SC_SUCCESS") auto
  qed
qed

lemma write_run:
  fixes ret :: zns_result
  assumes "get_zone z (ucast (lba_to_zone z (slba (req_cmd req)))) = Some d"
    and "wbuf_allocate z (wbuf_of z (lba_to_zone z (slba (req_cmd req)))) (LBA_TO_BYTE (zns_cmd_nr_lba (req_cmd req))) = Some (a, z0)"
    and "write_unit_size (zsp z0) \<noteq> 0"
  defines "zid \<equiv> lba_to_zone z (slba (req_cmd req))" and "k \<equiv> zns_cmd_nr_lba (req_cmd req)" and "lba \<equiv> write_lba d req"
    and "req' \<equiv> (if is_append req then req\<lparr>req_cmd := (req_cmd req)\<lparr>slba := write_lba d req\<rparr>\<rparr> else req)"
    and "ret' \<equiv> (if is_append req then ret\<lparr>ret_result := write_lba d req\<rparr> else ret)"
  shows "zns_write_seq z req ret =
    (if ucast a < LBA_TO_BYTE k then Some (False, ret', req', [], z0)
     else do {
       (err, z1) \<leftarrow> (if LBA_TO_BYTE k mod of_nat (write_unit_size (zsp z0)) \<noteq> 0 then Some (Some NVME_SC_ZNS_INVALID_WRITE, z0)
         else if \<not> check_boundary_error z0 lba (ucast k) then Some (Some NVME_SC_ZNS_ERR_BOUNDARY, z0)
         else if lba \<noteq> zd_wp d then Some (Some NVME_SC_ZNS_INVALID_WRITE, z0)
         else open_for_write z0 zid d lba);
       case err of
         Some st \<Rightarrow> Some (True, write_result z1 req' ret' st (nsecs_start req) (nsecs_start req), req', [], z1)
       | None \<Rightarrow> do {
           z2 \<leftarrow> increase_write_ptr z1 zid (ucast k);
           (xfer, z2) \<leftarrow> zns_advance_write_buffer z2 (nsecs_start req) (LBA_TO_BYTE k);
           (z2, latest, ops) \<leftarrow> write_units (sq_id req) (wbuf_of z zid) xfer (zone_to_elpn z zid)
             (lba_to_lpn z (lba + k - 1)) (lba_to_lpn z lba) (z2, xfer, []);
           Some (True, write_result z2 req' ret' NVME_SC_SUCCESS latest xfer, req', ops, z2)
         }
     })"
  using assms(1-3) unfolding zns_write_seq_def zid_def k_def lba_def req'_def ret'_def write_lba_def is_append_def
  by (cases "opcode (req_cmd req) = nvme_cmd_zone_append") (simp_all add: Let_def cong: if_cong option.case_cong)

end
