(* ===== verification/Zns_Commands.thy ===== *)
theory Zns_Commands
  imports Zns_Write
begin

text \<open>
  The commands of a zoned namespace: each returns, keeps the invariant, and does to the zones
  what the abstract specification says.
\<close>

subsection \<open>Write and append\<close>

lemma zns_write_seq_ok:
  fixes ret :: zns_result
  assumes inv: "zns_inv z" and zid: "zid = lba_to_zone z (slba (req_cmd req))" "unat (zid :: u32) < unat (nr_zones (zp z))"
    and d: "d = zone_descs z ! unat zid" and nz: "\<not> zrwav d"
    and k: "k = zns_cmd_nr_lba (req_cmd req)" and buf: "get_wbuf z (wbuf_of z zid) = Some b" "LBA_TO_BYTE k \<le> buf_size b"
  shows "\<exists>ok ret' req' ops z'. zns_write_seq z req ret = Some (ok, ret', req', ops, z') \<and> zns_inv z' \<and>
    (is_append req \<longrightarrow> ret_result ret' = zd_wp d \<and> slba (req_cmd req') = zd_wp d) \<and>
    ok = (LBA_TO_BYTE k \<le> remaining b) \<and>
    (if \<not> ok then z' = z \<and> ops = [] \<and> ret_status ret' = ret_status ret
     else let st = write_status z d (write_lba d req) k; z1 = set_wbuf z (wbuf_of z zid) (b\<lparr>remaining := remaining b - LBA_TO_BYTE k\<rparr>) in
       ret_status ret' = st \<and>
       (if st = NVME_SC_SUCCESS then device_step (move_zone z1 (unat zid) (written d k)) z'
        else z' = z1 \<and> ops = []))"
proof -
  let ?r = "wbuf_of z zid" and ?b = "LBA_TO_BYTE k" and ?lba = "write_lba d req"
  define req' where "req' = (if is_append req then req\<lparr>req_cmd := (req_cmd req)\<lparr>slba := ?lba\<rparr>\<rparr> else req)"
  define ret' where "ret' = (if is_append req then ret\<lparr>ret_result := ?lba\<rparr> else ret)"
  have app: "is_append req \<longrightarrow> ret_result ret' = zd_wp d \<and> slba (req_cmd req') = zd_wp d"
    by (simp add: req'_def ret'_def write_lba_def)
  have st': "ret_status ret' = ret_status ret" by (simp add: ret'_def)
  note g = get_zone_at[OF inv zid(2), folded d]
  have bytes: "0 < unat ?b" "unat ?b < 2 ^ 32" using nr_lba_facts(3)[of "req_cmd req"] nr_lba_facts(1,2)[of "req_cmd req"] k by simp_all
  obtain a where a: "buffer_allocate b ?b = Some (a, if remaining b < ?b then b else b\<lparr>remaining := remaining b - ?b\<rparr>)"
    "ucast a < ?b \<longleftrightarrow> remaining b < ?b"
    using buffer_allocate_fits[OF buf(2) bytes] by blast
  define b' where "b' = (if remaining b < ?b then b else b\<lparr>remaining := remaining b - ?b\<rparr>)"
  define z0 where "z0 = set_wbuf z ?r b'"
  have alloc: "wbuf_allocate z ?r ?b = Some (a, z0)" using a(1) buf(1) by (simp add: wbuf_allocate_def z0_def b'_def)
  have z0: "zns_inv z0" "zp z0 = zp z" "zsp z0 = zsp z" "zone_descs z0 = zone_descs z"
    using inv by (simp_all add: z0_def set_wbuf_inv)
  have ws: "write_status z0 d l m = write_status z d l m" for l m
    using z0(2,3) by (simp add: write_status_def lba_to_zone_def)
  have "0 < write_unit_size (zsp z0)" using zns_invD(2)[OF z0(1)] unfolding zns_geometry_def by blast
  then have wu: "write_unit_size (zsp z0) \<noteq> 0" by simp
  note run = write_run[of z req d a z0 ret, folded zid(1) k, OF g alloc wu, folded req'_def ret'_def]
  show ?thesis
  proof (cases "remaining b < ?b")
    case True
    then have "z0 = z" using set_wbuf_same[OF buf(1)] by (simp add: z0_def b'_def)
    then show ?thesis using run a(2) True inv app st' by (simp add: not_less)
  next
    case False
    obtain err z1 where w: "(if ?b mod of_nat (write_unit_size (zsp z0)) \<noteq> 0 then Some (Some NVME_SC_ZNS_INVALID_WRITE, z0)
         else if \<not> check_boundary_error z0 ?lba (ucast k) then Some (Some NVME_SC_ZNS_ERR_BOUNDARY, z0)
         else if ?lba \<noteq> zd_wp d then Some (Some NVME_SC_ZNS_INVALID_WRITE, z0)
         else open_for_write z0 zid d ?lba) = Some (err, z1)"
      "if write_status z0 d ?lba k = NVME_SC_SUCCESS then err = None \<and> z1 = write_zone_open z0 (unat zid) d \<and>
        increase_write_ptr z1 zid (ucast k) = Some (move_zone z0 (unat zid) (written d k))
       else err = Some (write_status z0 d ?lba k) \<and> z1 = z0"
      using write_after_allocate[OF z0(1) _ _ nz k, of zid ?lba] zid(2) z0(2,4) d by auto
    have na: "\<not> ucast a < ?b" using a(2) False by simp
    have zz: "set_wbuf z ?r (b\<lparr>remaining := remaining b - ?b\<rparr>) = z0" using False by (simp add: z0_def b'_def)
    show ?thesis
    proof (cases "write_status z d ?lba k = NVME_SC_SUCCESS")
      case bad: False
      then have e: "err = Some (write_status z d ?lba k)" "z1 = z0" using w(2) ws by simp_all
      have "zns_write_seq z req ret = Some (True, write_result z0 req' ret' (write_status z d ?lba k) (nsecs_start req) (nsecs_start req), req', [], z0)"
        unfolding run w(1) using na e by simp
      then show ?thesis
        using False bad zz app z0(1) by (intro exI[of _ True]) (simp add: write_result_def not_less Let_def)
    next
      case True
      then have e: "err = None" "increase_write_ptr z1 zid (ucast k) = Some (move_zone z0 (unat zid) (written d k))"
        using w(2) ws by auto
      define z2 where "z2 = move_zone z0 (unat zid) (written d k)"
      have kk: "0 < unat k" "unat k \<le> 65536" using nr_lba_facts(1,2)[of "req_cmd req"] k by simp_all
      have zo: "zone_ok z0 (unat zid) (written d k)"
        by (rule written_ok(1)[OF z0(1) _ _ _ kk]) (use zid(2) z0(2,4) d True ws in auto)
      have z2: "zns_inv z2" unfolding z2_def by (rule move_zone_inv[OF z0(1) _ zo]) (simp add: z0(2) zid(2))
      obtain x z3 where x: "zns_advance_write_buffer z2 (nsecs_start req) ?b = Some (x, z3)" "device_step z2 z3"
        using zns_advance_write_buffer_ok[OF zns_invD(1)[OF z2]] by blast
      have z3: "zns_inv z3" by (rule device_step_inv[OF z2 x(2)])
      have el: "lba_to_lpn z (?lba + k - 1) < - 1"
        using elpn_small by (simp add: lba_to_lpn_def geometryD(2)[OF zns_invD(2)[OF inv]])
      obtain z4 latest ops where u: "write_units (sq_id req) ?r x (zone_to_elpn z zid) (lba_to_lpn z (?lba + k - 1))
          (lba_to_lpn z ?lba) (z3, x, []) = Some (z4, latest, ops)" "device_step z3 z4"
        using write_units_ok[OF zns_invD(2)[OF z3] zns_invD(1)[OF z3] el] by blast
      have "zns_write_seq z req ret = Some (True, write_result z4 req' ret' NVME_SC_SUCCESS latest x, req', ops, z4)"
        unfolding run w(1) using na e x(1) u(1) by (simp add: z2_def)
      moreover have "zns_inv z4" by (rule device_step_inv[OF z3 u(2)])
      moreover have "device_step z2 z4" by (rule device_step_trans[OF x(2) u(2)])
      ultimately show ?thesis
        using False True zz app by (intro exI[of _ True]) (simp add: write_result_def not_less Let_def z2_def)
    qed
  qed
qed

subsection \<open>A namespace in service\<close>

text \<open>
  The state that the commands keep on a build without random write areas, which every
  configuration is: no zone has one, and none is read-only or offline.
\<close>

definition zone_usable :: "zone_descriptor \<Rightarrow> bool" where
  "zone_usable d \<longleftrightarrow> \<not> zrwav d \<and> zd_state d \<notin> {ZONE_STATE_READ_ONLY, ZONE_STATE_OFFLINE}"

definition zns_serving :: "zns_ftl \<Rightarrow> bool" where
  "zns_serving z \<longleftrightarrow> zns_inv z \<and> (\<forall>d \<in> set (zone_descs z). zone_usable d)"

lemma zns_servingD:
  assumes "zns_serving z"
  shows "zns_inv z" "i < unat (nr_zones (zp z)) \<Longrightarrow> zone_usable (zone_descs z ! i)"
  using assms zns_invD(3)[of z] by (auto simp: zns_serving_def)

lemma zns_serving_update:
  assumes "zns_serving z" "zns_inv z'" "zone_descs z' = (zone_descs z)[i := d]" "zone_usable d"
  shows "zns_serving z'"
  using assms set_update_subset_insert[of "zone_descs z" i d] by (auto simp: zns_serving_def)

lemma zns_serving_cong: "zns_serving z \<Longrightarrow> zns_inv z' \<Longrightarrow> zone_descs z' = zone_descs z \<Longrightarrow> zns_serving z'"
  by (simp add: zns_serving_def)

definition zone_of :: "zns_ftl \<Rightarrow> u64 \<Rightarrow> nat" where
  "zone_of z lba = unat (lba_to_zone z lba)"

definition zone_in_range :: "zns_ftl \<Rightarrow> u64 \<Rightarrow> bool" where
  "zone_in_range z lba \<longleftrightarrow> zone_of z lba < unat (nr_zones (zp z))"

text \<open>The buffer that a write to an address takes its space from.\<close>

definition cmd_buffer :: "zns_ftl \<Rightarrow> u64 \<Rightarrow> buffer option" where
  "cmd_buffer z lba = get_wbuf z (wbuf_of z (lba_to_zone z lba))"

lemma written_usable: "write_status z d lba k = NVME_SC_SUCCESS \<Longrightarrow> zone_usable d \<Longrightarrow> zone_usable (written d k)"
  by (auto simp: zone_usable_def written_def write_state_def)

lemma zns_write_ok:
  fixes ret :: zns_result
  assumes s: "zns_serving z" and r: "zone_in_range z (slba (req_cmd req))"
    and k: "k = zns_cmd_nr_lba (req_cmd req)" and buf: "cmd_buffer z (slba (req_cmd req)) = Some b" "LBA_TO_BYTE k \<le> buf_size b"
    and d: "d = zone_descs z ! zone_of z (slba (req_cmd req))" and st: "st = write_status z d (write_lba d req) k"
  shows "\<exists>ok ret' req' ops z'. zns_write z req ret = Some (ok, ret', req', ops, z') \<and> zns_serving z' \<and> zp z' = zp z \<and> zsp z' = zsp z \<and>
    ok = (LBA_TO_BYTE k \<le> remaining b) \<and>
    (is_append req \<longrightarrow> ret_result ret' = zd_wp d \<and> slba (req_cmd req') = zd_wp d) \<and>
    (ok \<longrightarrow> ret_status ret' = st) \<and>
    zone_descs z' = (if ok \<and> st = NVME_SC_SUCCESS then (zone_descs z)[zone_of z (slba (req_cmd req)) := written d k] else zone_descs z) \<and>
    (\<not> ok \<longrightarrow> z' = z \<and> ops = []) \<and>
    (ok \<and> st \<noteq> NVME_SC_SUCCESS \<longrightarrow> ops = [] \<and>
       cmd_buffer z' (slba (req_cmd req)) = Some (b\<lparr>remaining := remaining b - LBA_TO_BYTE k\<rparr>))"
proof -
  note inv = zns_servingD(1)[OF s] and g = zns_invD(2)[OF zns_servingD(1)[OF s]]
  define zid where "zid = lba_to_zone z (slba (req_cmd req))"
  have zi: "zone_of z (slba (req_cmd req)) = unat zid" by (simp add: zone_of_def zid_def)
  have n: "unat zid < unat (nr_zones (zp z))" using r zi by (simp add: zone_in_range_def)
  have d': "d = zone_descs z ! unat zid" using d zi by simp
  have u: "zone_usable d" using zns_servingD(2)[OF s n] d' by simp
  then have nz: "\<not> zrwav d" by (simp add: zone_usable_def)
  have run: "zns_write z req ret = zns_write_seq z req ret"
    using get_zone_at[OF inv n] nz d' by (simp add: zns_write_def zone_of_lpn[OF g] zid_def[symmetric])
  have bz: "get_wbuf z (wbuf_of z zid) = Some b" using buf(1) by (simp add: cmd_buffer_def zid_def)
  obtain ok ret' req' ops z' where w: "zns_write_seq z req ret = Some (ok, ret', req', ops, z')" "zns_inv z'"
    "is_append req \<longrightarrow> ret_result ret' = zd_wp d \<and> slba (req_cmd req') = zd_wp d" "ok = (LBA_TO_BYTE k \<le> remaining b)"
    "if \<not> ok then z' = z \<and> ops = [] \<and> ret_status ret' = ret_status ret
     else let st = write_status z d (write_lba d req) k; z1 = set_wbuf z (wbuf_of z zid) (b\<lparr>remaining := remaining b - LBA_TO_BYTE k\<rparr>) in
       ret_status ret' = st \<and>
       (if st = NVME_SC_SUCCESS then device_step (move_zone z1 (unat zid) (written d k)) z' else z' = z1 \<and> ops = [])"
    using zns_write_seq_ok[OF inv zid_def n d' nz k bz buf(2), of ret] by blast
  let ?z1 = "set_wbuf z (wbuf_of z zid) (b\<lparr>remaining := remaining b - LBA_TO_BYTE k\<rparr>)"
  have got: "get_wbuf ?z1 (wbuf_of z zid) = Some (b\<lparr>remaining := remaining b - LBA_TO_BYTE k\<rparr>)"
    using bz by (cases "wbuf_of z zid") (auto simp: get_wbuf_def set_wbuf_def aget_Some_iff)
  consider (no) "\<not> ok" | (bad) "ok" "st \<noteq> NVME_SC_SUCCESS" | (good) "ok" "st = NVME_SC_SUCCESS" by blast
  then show ?thesis
  proof cases
    case no
    then show ?thesis using w run s by auto
  next
    case bad
    then have z': "z' = ?z1" "ret_status ret' = st" "ops = []" using w(5) st by (auto simp: Let_def)
    then have "zns_serving z'" using zns_serving_cong[OF s w(2)] by simp
    moreover have "cmd_buffer z' (slba (req_cmd req)) = Some (b\<lparr>remaining := remaining b - LBA_TO_BYTE k\<rparr>)"
      using got z'(1) by (simp add: cmd_buffer_def lba_to_zone_def wbuf_of_def zid_def)
    ultimately show ?thesis using w run bad z' by auto
  next
    case good
    then have z': "device_step (move_zone ?z1 (unat zid) (written d k)) z'" "ret_status ret' = st" using w(5) st by (auto simp: Let_def)
    note sel = device_step_sel[OF z'(1)]
    have "zone_usable (written d k)" using written_usable[of z d "write_lba d req" k] u st good by simp
    then have "zns_serving z'" by (intro zns_serving_update[OF s w(2), of "unat zid" "written d k"]) (use sel(2) in auto)
    then show ?thesis using w run good z'(2) sel(1-3) zi by auto
  qed
qed

subsection \<open>Read and flush\<close>

definition zns_read_status :: "zns_ftl \<Rightarrow> nvme_rw_cmd \<Rightarrow> u32" where
  "zns_read_status z cmd =
     (if lba_to_zone z (slba cmd) \<noteq> lba_to_zone z (slba cmd + zns_cmd_nr_lba cmd - 1) then NVME_SC_ZNS_ERR_BOUNDARY
      else NVME_SC_SUCCESS)"

lemma zns_read_ok:
  fixes ret :: zns_result
  assumes s: "zns_serving z" and r: "zone_in_range z (slba (req_cmd req))"
  shows "\<exists>ret' z'. zns_read z req ret = Some (ret', z') \<and> zns_serving z' \<and> device_step z z' \<and>
    ret_status ret' = zns_read_status z (req_cmd req)"
proof -
  note inv = zns_servingD(1)[OF s] and g = zns_invD(2)[OF zns_servingD(1)[OF s]]
  let ?cmd = "req_cmd req"
  define zid where "zid = lba_to_zone z (slba ?cmd)"
  have n: "unat zid < unat (nr_zones (zp z))" using r by (simp add: zone_in_range_def zone_of_def zid_def)
  define d where "d = zone_descs z ! unat zid"
  have on: "zd_state d \<noteq> ZONE_STATE_OFFLINE" using zns_servingD(2)[OF s n] by (simp add: zone_usable_def d_def)
  define n0 where "n0 = zns_cmd_nr_lba ?cmd"
  have b: "check_boundary_error z (slba ?cmd) (ucast n0) \<longleftrightarrow> lba_to_zone z (slba ?cmd) = lba_to_zone z (slba ?cmd + n0 - 1)"
    by (simp add: check_boundary_error_def nr_lba_facts(4) n0_def)
  define t0 where "t0 = nsecs_start req + of_nat (if LBA_TO_BYTE n0 \<le> of_nat (KB 4) then fw_4kb_rd_lat (zsp z) else fw_rd_lat (zsp z))"
  define e where "e = lba_to_lpn z (slba ?cmd + n0 - 1)"
  have el: "e < - 1" using elpn_small by (simp add: e_def lba_to_lpn_def geometryD(2)[OF g])
  obtain z1 l where u: "read_units t0 e (lba_to_lpn z (slba ?cmd)) (z, t0) = Some (z1, l)" "device_step z z1"
    using read_units_ok[OF g zns_invD(1)[OF inv] el] by blast
  obtain lat s' where p: "ssd_advance_pcie (zns_ssd z1) l (n0 * of_nat (secsz (zsp z1))) = Some (l + lat, s')" "ssd_inv s'"
    "nand_same (zns_ssd z1) s'"
    using ssd_advance_pcie_ok[OF device_step_sel(4)[OF u(2)]] by blast
  let ?z2 = "z1\<lparr>zns_ssd := s'\<rparr>"
  have ds: "device_step z ?z2" by (rule device_step_trans[OF u(2) device_stepI[OF p(2,3)]])
  have "zns_read z req ret = Some (ret\<lparr>ret_status := zns_read_status z ?cmd,
      nsecs_target := (if l + lat > l then l + lat else l)\<rparr>, ?z2)"
    using get_zone_at[OF inv n] on b u(1) p(1)
    by (simp add: zns_read_def zone_of_lpn[OF g] zid_def[symmetric] d_def[symmetric] n0_def[symmetric] e_def[symmetric]
        zns_read_status_def Let_def t0_def[symmetric] cong: if_cong)
  moreover have "zns_serving ?z2"
    by (rule zns_serving_cong[OF s device_step_inv[OF inv ds] device_step_sel(2)[OF ds]])
  ultimately show ?thesis using ds by auto
qed

lemma zns_flush_ok:
  fixes ret :: zns_result
  assumes s: "zns_serving z"
  shows "\<exists>ret' z'. zns_flush z ret = Some (ret', z') \<and> zns_serving z' \<and> device_step z z' \<and> ret_status ret' = NVME_SC_SUCCESS"
proof -
  note inv = zns_servingD(1)[OF s]
  obtain t s1 where s1: "get_ioclock (zns_ssd z) = (t, s1)" by fastforce
  note i1 = ioclock_inv[OF s1]
  obtain t2 s2 where s2: "ssd_next_idle_time s1 = Some (t2, s2)" "ssd_inv s2" "nand_same s1 s2"
    using ssd_next_idle_time_ok[of s1] i1 zns_invD(1)[OF inv] by blast
  have ds: "device_step z (z\<lparr>zns_ssd := s2\<rparr>)"
    by (rule device_stepI[OF s2(2)]) (use nand_same_trans[OF _ s2(3)] i1 in blast)
  have "zns_serving (z\<lparr>zns_ssd := s2\<rparr>)" by (rule zns_serving_cong[OF s device_step_inv[OF inv ds]]) simp
  then show ?thesis using s1 s2(1) ds by (auto simp: zns_flush_def)
qed

subsection \<open>Zone management send\<close>

definition op_of :: "u32 \<Rightarrow> bool \<Rightarrow> zone_op option" where
  "op_of a opt = find (\<lambda>op. op_action op = a) [Z_Close, Z_Finish, Z_Open opt, Z_Reset, Z_Offline]"

text \<open>The specification of one action on one zone: its status and the descriptor it leaves.\<close>

definition spec_send :: "u32 \<Rightarrow> u32 \<Rightarrow> bool \<Rightarrow> zone_descriptor \<Rightarrow> u32 \<times> zone_descriptor" where
  "spec_send undef a opt d = (case op_of a opt of
     Some op \<Rightarrow> (case zone_next op (zd_state d) of
         None \<Rightarrow> (NVME_SC_ZNS_INVALID_TRANSITION, d)
       | Some st \<Rightarrow> (NVME_SC_SUCCESS, op_desc op d))
   | None \<Rightarrow> (if a = ZSA_FLUSH_EXPL_ZRWA then NVME_SC_ZNS_INVALID_ZONE_OPERATION else undef, d))"

lemma op_of_action:
  assumes "op_of a opt = Some op"
  shows "a = op_action op" "op = Z_Open b \<Longrightarrow> b = opt"
proof -
  let ?ops = "[Z_Close, Z_Finish, Z_Open opt, Z_Reset, Z_Offline]"
  obtain i where "i < length ?ops" "op_action (?ops ! i) = a" "op = ?ops ! i"
    using assms unfolding op_of_def find_Some_iff by blast
  then have "op_action op = a" "op \<in> set ?ops" using nth_mem by blast+
  then show "a = op_action op" "op = Z_Open b \<Longrightarrow> b = opt" by auto
qed

lemma op_of_send:
  assumes "op_of a opt = Some op"
  shows "zmgmt_send undef z lba a opt = zmgmt_send undef z lba (op_action op) (op_option op)"
proof (cases "\<exists>b. op = Z_Open b")
  case True
  then have "op = Z_Open opt" using op_of_action(2)[OF assms] by blast
  then show ?thesis using op_of_action(1)[OF assms] by simp
next
  case False
  note no = option_ignored[OF False, of undef z lba]
  show ?thesis unfolding op_of_action(1)[OF assms] no[of opt] no[of "op_option op"] ..
qed

lemma op_of_None:
  assumes "op_of a opt = None"
  shows "zmgmt_send undef z lba a opt = (if a = ZSA_FLUSH_EXPL_ZRWA then zmgmt_send_flush_explicit_zrwa z lba else Some (undef, z))"
proof -
  have "\<forall>op \<in> set [Z_Close, Z_Finish, Z_Open opt, Z_Reset, Z_Offline]. op_action op \<noteq> a"
    using assms unfolding op_of_def find_None_iff by blast
  then have "a \<noteq> ZSA_CLOSE_ZONE" "a \<noteq> ZSA_FINISH_ZONE" "a \<noteq> ZSA_OPEN_ZONE" "a \<noteq> ZSA_RESET_ZONE" "a \<noteq> ZSA_OFFLINE_ZONE"
    by auto
  then show ?thesis by (simp add: zmgmt_send_def)
qed

lemma op_desc_usable:
  "zone_next op (zd_state d) = Some st \<Longrightarrow> zone_usable d \<Longrightarrow> \<not> op_option op \<Longrightarrow> zone_usable (op_desc op d)"
  by (cases op) (auto simp: zone_usable_def split: if_splits)

lemma spec_send_usable:
  "zone_usable d \<Longrightarrow> \<not> (a = ZSA_OPEN_ZONE \<and> opt) \<Longrightarrow> zone_usable (snd (spec_send undef a opt d))"
proof -
  assume u: "zone_usable d" and o: "\<not> (a = ZSA_OPEN_ZONE \<and> opt)"
  have "\<not> op_option op" if "op_of a opt = Some op" for op using op_of_action[OF that] o by (cases op) auto
  then show ?thesis using op_desc_usable[OF _ u] u by (auto simp: spec_send_def split: option.splits)
qed

lemma send_one_ok:
  assumes s: "zns_serving z" and r: "zone_in_range z lba" and o: "\<not> (a = ZSA_OPEN_ZONE \<and> opt)"
  shows "\<exists>z'. zmgmt_send undef z lba a opt = Some (fst (spec_send undef a opt (zone_descs z ! zone_of z lba)), z') \<and>
    zns_serving z' \<and> zone_descs z' = (zone_descs z)[zone_of z lba := snd (spec_send undef a opt (zone_descs z ! zone_of z lba))] \<and>
    zp z' = zp z \<and> zsp z' = zsp z"
proof -
  note inv = zns_servingD(1)[OF s]
  define zid where "zid = lba_to_zone z lba"
  have zi: "zone_of z lba = unat zid" by (simp add: zone_of_def zid_def)
  have n: "unat zid < unat (nr_zones (zp z))" using r zi by (simp add: zone_in_range_def)
  define d where "d = zone_descs z ! unat zid"
  have u: "zone_usable d" using zns_servingD(2)[OF s n] by (simp add: d_def)
  have same: "(zone_descs z)[unat zid := d] = zone_descs z" by (simp add: d_def)
  show ?thesis
  proof (cases "op_of a opt")
    case (Some op)
    have oo: "\<not> op_option op" using op_of_action[OF Some] o by (cases op) auto
    note run = op_of_send[OF Some, of undef z lba] zmgmt_op_at[OF inv zid_def n d_def, of undef op]
    show ?thesis
    proof (cases "zone_next op (zd_state d)")
      case None
      then show ?thesis using run s Some same by (simp add: spec_send_def zi d_def[symmetric])
    next
      case st: (Some st)
      let ?z = "(if op = Z_Reset then (\<lambda>z. reset_rest z zid) else id) (move_zone z (unat zid) (op_desc op d))"
      note m = op_move[OF inv n d_def st]
      have "zns_serving ?z"
        by (rule zns_serving_update[OF s m(1,3) op_desc_usable[OF st u oo]])
      moreover have "zp ?z = zp z \<and> zsp ?z = zsp z" by (cases "op = Z_Reset") simp_all
      ultimately show ?thesis using run st Some m(3) by (simp add: spec_send_def zi d_def[symmetric])
    qed
  next
    case None
    note op_of_None[OF None, of undef z lba]
    moreover have "zmgmt_send_flush_explicit_zrwa z lba = Some (NVME_SC_ZNS_INVALID_ZONE_OPERATION, z)"
      using get_zone_at[OF inv n] u by (simp add: zmgmt_send_flush_explicit_zrwa_def zid_def[symmetric] d_def[symmetric] zone_usable_def)
    ultimately show ?thesis using None s same by (simp add: spec_send_def zi d_def[symmetric])
  qed
qed

end
