(* ===== verification/Zns_Manage.thy ===== *)
theory Zns_Manage
  imports Zns_Commands
begin

unbundle bit_operations_syntax

text \<open>
  The zone management commands as the host sees them: an action on one zone or on all of them,
  and the report, which reaches the host's memory byte for byte.
\<close>

subsection \<open>An action on all zones\<close>

lemma zone_of_slba:
  assumes g: "zns_geometry z" and i: "i < unat (nr_zones (zp z))"
  shows "zone_of z (zone_to_slba z (of_nat i)) = i"
proof -
  have "unat (nr_zones (zp z)) < 2 ^ LENGTH(32)" by (rule unsigned_less)
  then have u: "unat (of_nat i :: u32) = i" using i by (intro unat_of_nat_less) simp
  have "unat (zone_to_slba z (of_nat i)) = i * zone_lbas z" using zone_to_slba_at[OF g, of "of_nat i"] u i by simp
  then show ?thesis
    unfolding zone_of_def using geometryD(6)[OF g] i by (intro lba_to_zone_at[OF g]) simp_all
qed

lemma send_all_ok:
  assumes s: "zns_serving z" and o: "\<not> (a = ZSA_OPEN_ZONE \<and> opt)"
  shows "\<exists>z'. opt_fold (\<lambda>z zid. do {
       (st, z) \<leftarrow> zmgmt_send undef z (zone_to_slba z (of_nat zid)) a opt;
       Some z }) z [0..<unat (nr_zones (zp z))] = Some z' \<and> zns_serving z' \<and>
    zone_descs z' = map (\<lambda>d. snd (spec_send undef a opt d)) (zone_descs z) \<and> zp z' = zp z \<and> zsp z' = zsp z"
proof -
  let ?n = "unat (nr_zones (zp z))" and ?f = "\<lambda>d. snd (spec_send undef a opt d)"
  let ?I = "\<lambda>ys t. zns_serving t \<and> zp t = zp z \<and> zsp t = zsp z \<and>
    zone_descs t = map ?f (take (length ys) (zone_descs z)) @ drop (length ys) (zone_descs z)"
  have len: "length (zone_descs z) = ?n" using zns_invD(3)[OF zns_servingD(1)[OF s]] .
  have "\<exists>z'. opt_fold (\<lambda>z zid. do {
       (st, z) \<leftarrow> zmgmt_send undef z (zone_to_slba z (of_nat zid)) a opt;
       Some z }) z [0..<?n] = Some z' \<and> ?I [0..<?n] z'"
  proof (rule opt_fold_inv)
    show "?I [] z" using s by simp
  next
    fix ys i zs t
    assume u: "[0..<?n] = ys @ i # zs" and I: "?I ys t"
    have i: "i = length ys" "i < ?n"
    proof -
      have "length ys < length [0..<?n]" unfolding u by simp
      then have "[0..<?n] ! length ys = length ys" by simp
      moreover have "[0..<?n] ! length ys = i" unfolding u by simp
      ultimately show "i = length ys" by simp
      with \<open>length ys < length [0..<?n]\<close> show "i < ?n" by simp
    qed
    have t: "zns_serving t" "zp t = zp z" using I by simp_all
    note g = zns_invD(2)[OF zns_servingD(1)[OF t(1)]]
    have zo: "zone_of t (zone_to_slba t (of_nat i)) = i" using zone_of_slba[OF g] i(2) t(2) by simp
    have ti: "zone_descs t ! i = zone_descs z ! i" using I i len by (simp add: nth_append)
    obtain t' where t': "zmgmt_send undef t (zone_to_slba t (of_nat i)) a opt = Some (fst (spec_send undef a opt (zone_descs z ! i)), t')"
      "zns_serving t'" "zone_descs t' = (zone_descs t)[i := ?f (zone_descs z ! i)]" "zp t' = zp t" "zsp t' = zsp t"
      using send_one_ok[OF t(1) _ o, of "zone_to_slba t (of_nat i)" undef] zo i(2) t(2) ti by (auto simp: zone_in_range_def)
    have "zone_descs t' = map ?f (take (Suc i) (zone_descs z)) @ drop (Suc i) (zone_descs z)"
      using t'(3) I i len by (simp add: list_update_append take_Suc_conv_app_nth Cons_nth_drop_Suc[symmetric])
    then show "\<exists>t'. (zmgmt_send undef t (zone_to_slba t (of_nat i)) a opt \<bind> (\<lambda>(st, z). Some z)) = Some t' \<and> ?I (ys @ [i]) t'"
      using t' I i(1) by auto
  qed
  then show ?thesis using len by auto
qed

text \<open>The command: the status of an action on all zones is a success whatever the zones answer.\<close>

definition spec_zmgmt_send :: "u32 \<Rightarrow> zns_ftl \<Rightarrow> nvme_zone_mgmt_send \<Rightarrow> u32 \<times> zone_descriptor list" where
  "spec_zmgmt_send undef z cmd =
     (let f = spec_send undef (zsa cmd) (zsaso cmd); i = zone_of z (zms_slba cmd); ds = zone_descs z in
      if select_all cmd then (NVME_SC_SUCCESS, map (\<lambda>d. snd (f d)) ds)
      else (fst (f (ds ! i)), ds[i := snd (f (ds ! i))]))"

lemma zns_zmgmt_send_ok:
  assumes s: "zns_serving z" and r: "select_all cmd \<or> zone_in_range z (zms_slba cmd)"
    and o: "\<not> (zsa cmd = ZSA_OPEN_ZONE \<and> zsaso cmd)"
  shows "\<exists>z'. zns_zmgmt_send undef z cmd start ret =
      Some (ret\<lparr>nsecs_target := start, ret_status := fst (spec_zmgmt_send undef z cmd)\<rparr>, z') \<and>
    zns_serving z' \<and> zone_descs z' = snd (spec_zmgmt_send undef z cmd) \<and> zp z' = zp z \<and> zsp z' = zsp z"
proof (cases "select_all cmd")
  case True
  then show ?thesis
    using send_all_ok[OF s o, of undef] by (auto simp: zns_zmgmt_send_def spec_zmgmt_send_def Let_def)
next
  case False
  then show ?thesis
    using send_one_ok[OF s _ o, of "zms_slba cmd" undef] r by (auto simp: zns_zmgmt_send_def spec_zmgmt_send_def Let_def)
qed

subsection \<open>Reading a report back\<close>

fun le_word :: "u8 list \<Rightarrow> u64" where
  "le_word [] = 0"
| "le_word (b # bs) = ucast b OR push_bit 8 (le_word bs)"

lemma le_bytes_Suc: "le_bytes (Suc n) w = ucast w # le_bytes n (drop_bit 8 w)"
proof -
  have "[0..<Suc n] = 0 # map Suc [0..<n]" by (simp add: upt_conv_Cons map_Suc_upt del: upt_Suc)
  then show ?thesis by (simp add: le_bytes_def comp_def ac_simps del: upt_Suc)
qed

lemma le_word_bytes: "le_word (le_bytes n w) = take_bit (8 * n) w"
proof (induction n arbitrary: w)
  case 0
  then show ?case by (simp add: le_bytes_def)
next
  case (Suc n)
  have "(ucast (ucast w :: u8) :: u64) OR push_bit 8 (take_bit (8 * n) (drop_bit 8 w)) = take_bit (8 + 8 * n) w"
    by (rule bit_word_eqI) (auto simp: bit_simps)
  then show ?case by (simp add: le_bytes_Suc Suc.IH)
qed

lemma le_word_bytes_8: "le_word (le_bytes 8 w) = w"
  by (simp add: le_word_bytes take_bit_word_eq_self)

lemma length_le_bytes [simp]: "length (le_bytes n w) = n"
  by (simp add: le_bytes_def)

definition all_states :: "zone_state list" where
  "all_states = [ZONE_STATE_EMPTY, ZONE_STATE_OPENED_IMPL, ZONE_STATE_OPENED_EXPL, ZONE_STATE_CLOSED,
     ZONE_STATE_READ_ONLY, ZONE_STATE_FULL, ZONE_STATE_OFFLINE]"

text \<open>How a host reads a descriptor.\<close>

definition zd_of_bytes :: "u8 list \<Rightarrow> zone_descriptor option" where
  "zd_of_bytes bs = do {
     st \<leftarrow> find (\<lambda>s. zone_state_code s = drop_bit 4 (bs ! 1)) all_states;
     Some \<lparr>zd_type = take_bit 4 (bs ! 0), zd_state = st, zrwav = bit (bs ! 2) 3,
       zone_capacity = le_word (take 8 (drop 8 bs)), zslba = le_word (take 8 (drop 16 bs)), zd_wp = le_word (take 8 (drop 24 bs))\<rparr>
   }"

lemma length_zd_bytes [simp]: "length (zd_bytes d) = 64"
  by (simp add: zd_bytes_def)

lemma state_code_roundtrip:
  "find (\<lambda>s. zone_state_code s = drop_bit 4 (push_bit 4 (zone_state_code st))) all_states = Some st"
  by (cases st) (simp_all add: all_states_def)

lemma zd_roundtrip:
  assumes "take_bit 4 (zd_type d) = zd_type d"
  shows "zd_of_bytes (zd_bytes d) = Some d"
proof -
  let ?h = "[take_bit 4 (zd_type d), push_bit 4 (zone_state_code (zd_state d)), push_bit 3 (b2u8 (zrwav d)), 0 :: u8] @ replicate 4 0"
  have z: "zd_bytes d = ?h @ le_bytes 8 (zone_capacity d) @ le_bytes 8 (zslba d) @ le_bytes 8 (zd_wp d) @ replicate 32 0"
    by (simp add: zd_bytes_def)
  have h: "length ?h = 8" by simp
  have "zd_bytes d ! 0 = zd_type d" "zd_bytes d ! 1 = push_bit 4 (zone_state_code (zd_state d))"
    "zd_bytes d ! 2 = push_bit 3 (b2u8 (zrwav d))"
    using assms by (simp_all add: zd_bytes_def)
  moreover have "drop 8 (zd_bytes d) = le_bytes 8 (zone_capacity d) @ le_bytes 8 (zslba d) @ le_bytes 8 (zd_wp d) @ replicate 32 0"
    unfolding z using h by (subst drop_append) simp
  moreover have "drop 16 (zd_bytes d) = drop 8 (drop 8 (zd_bytes d))" "drop 24 (zd_bytes d) = drop 16 (drop 8 (zd_bytes d))"
    by simp_all
  moreover have "bit (push_bit 3 (b2u8 b)) 3 = b" for b by (cases b) (simp_all add: b2u8_def bit_simps)
  ultimately show ?thesis
    using assms state_code_roundtrip[of "zd_state d"] by (simp add: zd_of_bytes_def le_word_bytes_8)
qed

lemma put_bytes_Some: "off + length bs \<le> length buf \<Longrightarrow> put_bytes buf off bs = Some (take off buf @ bs @ drop (off + length bs) buf)"
  by (simp add: put_bytes_def)

subsection \<open>The host's memory\<close>

lemma prp_copy_step:
  assumes "0 < rem" "prp_next m prp1 prp2 rem k k2 lst = Some (p, k2', lst')" "io = min rem (PAGE_SIZE - page_off p)"
    "off + io \<le> length buf"
  shows "prp_copy prp1 prp2 buf off rem k k2 lst m =
    prp_copy prp1 prp2 buf (off + io) (rem - io) (k + 1) k2' lst'
      (host_put m (unat (PRP_PFN p) * PAGE_SIZE + page_off p) (take io (drop off buf)))"
proof -
  have "io_size_of p rem = io" "io \<noteq> 0" using assms(1,3) page_off_less[of p] by (simp_all add: io_size_min)
  then show ?thesis using assms(1,2,4) by (subst prp_copy.simps) (simp add: Let_def page_off_def[symmetric])
qed

lemma prp_copy_done: "prp_copy prp1 prp2 buf off 0 k k2 lst m = Some m"
  by (subst prp_copy.simps) simp

lemma prp_transfer_ok:
  assumes s: "prp_simple prp1 prp2 len" and l: "len \<le> length buf"
  shows "\<exists>m'. prp_transfer_data prp1 prp2 buf len m = Some m' \<and> host_view m' prp1 prp2 len = take len buf"
proof -
  let ?r = "PAGE_SIZE - page_off prp1" and ?a = "unat (PRP_PFN prp1) * PAGE_SIZE + page_off prp1"
    and ?b = "unat (PRP_PFN prp2) * PAGE_SIZE + page_off prp2"
  note o = page_off_less[of prp1] page_off_less[of prp2]
  define io where "io = min len ?r"
  define m1 where "m1 = host_put m ?a (take io buf)"
  have first: "prp_transfer_data prp1 prp2 buf len m = prp_copy prp1 prp2 buf io (len - io) 1 0 None m1" if "0 < len"
    using prp_copy_step[OF that, of m prp1 prp2 0 0 None prp1 0 None io 0 buf] l
    by (simp add: prp_transfer_data_def prp_next_def io_def m1_def)
  have m1: "m1 (?a + i) = buf ! i" if "i < io" for i
    using that l host_put_in[of i "take io buf" m ?a] by (simp add: m1_def io_def)
  show ?thesis
  proof (cases "len \<le> ?r")
    case True
    then have "prp_transfer_data prp1 prp2 buf len m = Some m1"
    proof (cases "len = 0")
      case True
      then show ?thesis by (simp add: prp_transfer_data_def prp_copy_done m1_def io_def)
    qed (use first in \<open>simp add: io_def prp_copy_done True\<close>)
    moreover have "host_view m1 prp1 prp2 len = take len buf"
      by (rule nth_equalityI) (use True l m1 in \<open>simp_all add: host_view_def prp_addr_def io_def\<close>)
    ultimately show ?thesis by blast
  next
    case False
    then have io: "io = ?r" "0 < len" by (simp_all add: io_def)
    have s2: "page_off prp2 + (len - ?r) \<le> PAGE_SIZE" "PRP_PFN prp1 \<noteq> PRP_PFN prp2"
      using s False by (auto simp: prp_simple_def)
    define io2 where "io2 = len - ?r"
    define m2 where "m2 = host_put m1 ?b (take io2 (drop io buf))"
    have "len - io \<le> PAGE_SIZE" using s2(1) io(1) by simp
    then have nx: "prp_next m1 prp1 prp2 (len - io) 1 0 None = Some (prp2, 0, None)" by (simp add: prp_next_def)
    have "prp_copy prp1 prp2 buf io (len - io) 1 0 None m1 = prp_copy prp1 prp2 buf (io + io2) (len - io - io2) (1 + 1) 0 None m2"
      unfolding m2_def
      by (rule prp_copy_step[OF _ nx]) (use False s2(1) l o in \<open>simp_all add: io(1) io2_def\<close>)
    then have t: "prp_transfer_data prp1 prp2 buf len m = Some m2"
      using first[OF io(2)] by (simp add: io(1) io2_def prp_copy_done)
    have v: "m2 (prp_addr prp1 prp2 i) = buf ! i" if "i < len" for i
    proof (cases "i < ?r")
      case True
      have x: "unat (PRP_PFN prp1) \<noteq> unat (PRP_PFN prp2)" using s2(2) by (simp add: word_unat_eq_iff)
      have "\<not> (?b \<le> ?a + i \<and> ?a + i < ?b + io2)"
      proof
        assume in2: "?b \<le> ?a + i \<and> ?a + i < ?b + io2"
        define y where "y = ?a + i - unat (PRP_PFN prp2) * PAGE_SIZE"
        have "?b + io2 \<le> unat (PRP_PFN prp2) * PAGE_SIZE + PAGE_SIZE" using s2(1) by (simp add: io2_def)
        then have "y < PAGE_SIZE" "unat (PRP_PFN prp1) * PAGE_SIZE + (page_off prp1 + i) = unat (PRP_PFN prp2) * PAGE_SIZE + y"
          using in2 unfolding y_def by linarith+
        then show False using pages_apart[OF x, of "page_off prp1 + i" y] True by simp
      qed
      then have "m2 (?a + i) = m1 (?a + i)" unfolding m2_def by (intro host_put_out) auto
      then show ?thesis using True m1[of i] io by (simp add: prp_addr_def)
    next
      case out: False
      then have "i - ?r < io2" using that by (simp add: io2_def)
      then have "m2 (?b + (i - ?r)) = take io2 (drop io buf) ! (i - ?r)"
        unfolding m2_def using l io by (intro host_put_in) (simp add: io2_def)
      also have "\<dots> = buf ! i" using \<open>i - ?r < io2\<close> out l that io by simp
      finally show ?thesis using out by (simp add: prp_addr_def)
    qed
    have "host_view m2 prp1 prp2 len = take len buf"
      by (rule nth_equalityI) (use l v in \<open>simp_all add: host_view_def\<close>)
    then show ?thesis using t by blast
  qed
qed

subsection \<open>The report\<close>

lemma drop_concat:
  "j < length xs \<Longrightarrow> take 64 (drop (64 * j) (concat (map zd_bytes xs))) = zd_bytes (xs ! j)"
proof (induction xs arbitrary: j)
  case (Cons x xs)
  then show ?case by (cases j) (simp_all add: drop_append)
qed simp

lemma length_concat_zd [simp]: "length (concat (map zd_bytes xs)) = 64 * length xs"
  by (induction xs) simp_all

definition report_start :: "zns_ftl \<Rightarrow> nvme_zone_mgmt_recv \<Rightarrow> nat" where
  "report_start z cmd = zone_of z (zmr_slba cmd)"

definition report_count :: "zns_ftl \<Rightarrow> nvme_zone_mgmt_recv \<Rightarrow> nat" where
  "report_count z cmd = unat (nr_zone_to_report z cmd)"

lemma report_count_le:
  assumes "zone_in_range z (zmr_slba cmd)"
  shows "report_start z cmd + report_count z cmd \<le> unat (nr_zones (zp z))"
proof -
  let ?s = "(ucast (lba_to_zone z (zmr_slba cmd)) :: u64)" and ?n = "(ucast (nr_zones (zp z)) :: u64)"
  have "nr_zone_to_report z cmd \<le> ?n - ?s" by (simp add: nr_zone_to_report_def Let_def not_less)
  moreover have "?s \<le> ?n" using assms by (simp add: zone_in_range_def zone_of_def word_le_nat_alt)
  then have "unat (?n - ?s) = unat (nr_zones (zp z)) - zone_of z (zmr_slba cmd)" by (simp add: unat_sub_le zone_of_def)
  ultimately show ?thesis
    using assms by (simp add: report_count_def report_start_def word_le_nat_alt zone_in_range_def)
qed

text \<open>Without the partial bit the report covers every zone from the first one asked for.\<close>

lemma report_count_all:
  assumes "zone_in_range z (zmr_slba cmd)" "\<not> zra_specific_features cmd"
  shows "report_count z cmd = unat (nr_zones (zp z)) - report_start z cmd"
proof -
  have "(ucast (lba_to_zone z (zmr_slba cmd)) :: u64) \<le> ucast (nr_zones (zp z))"
    using assms by (simp add: zone_in_range_def zone_of_def word_le_nat_alt)
  then show ?thesis
    using assms(2) by (simp add: report_count_def report_start_def nr_zone_to_report_def zone_of_def unat_sub_le)
qed

lemma fill_zone_report_ok:
  assumes inv: "zns_inv z" and r: "zone_in_range z (zmr_slba cmd)"
  shows "\<exists>buf. fill_zone_report z cmd = Some (z\<lparr>report_buffer := buf\<rparr>) \<and> length buf = length (report_buffer z) \<and>
    take 8 buf = le_bytes 8 (nr_zone_to_report z cmd) \<and>
    (\<forall>j < report_count z cmd. take 64 (drop (64 + 64 * j) buf) = zd_bytes (zone_descs z ! (report_start z cmd + j)))"
proof -
  let ?s = "report_start z cmd" and ?n = "report_count z cmd" and ?old = "report_buffer z"
  let ?xs = "take ?n (drop ?s (zone_descs z))"
  have le: "?s + ?n \<le> unat (nr_zones (zp z))" by (rule report_count_le[OF r])
  have len: "length (zone_descs z) = unat (nr_zones (zp z))" "length ?old = 128 + 64 * unat (nr_zones (zp z))"
    using zns_invD(3,8)[OF inv] by (simp_all add: SIZEOF_ZONE_REPORT_def SIZEOF_ZONE_DESCRIPTOR_def)
  have xs: "length ?xs = ?n" using le len by simp
  let ?b1 = "le_bytes 8 (nr_zone_to_report z cmd) @ drop 8 ?old"
  have b1: "put_bytes ?old 0 (le_bytes 8 (nr_zone_to_report z cmd)) = Some ?b1" "length ?b1 = length ?old"
    using len(2) by (simp_all add: put_bytes_Some)
  let ?b2 = "take 64 ?b1 @ concat (map zd_bytes ?xs) @ drop (64 + 64 * ?n) ?b1"
  have b2: "put_bytes ?b1 64 (concat (map zd_bytes ?xs)) = Some ?b2" "length ?b2 = length ?old"
    using b1(2) len(2) le xs by (simp_all add: put_bytes_Some)
  have "fill_zone_report z cmd = Some (z\<lparr>report_buffer := ?b2\<rparr>)"
    using b1(1) b2(1) le len(1) by (simp add: fill_zone_report_def report_start_def report_count_def zone_of_def Let_def)
  moreover have "take 8 ?b2 = le_bytes 8 (nr_zone_to_report z cmd)" by simp
  moreover have "take 64 (drop (64 + 64 * j) ?b2) = zd_bytes (zone_descs z ! (?s + j))" if "j < ?n" for j
  proof -
    have "drop (64 + 64 * j) ?b2 = drop (64 * j) (concat (map zd_bytes ?xs)) @ drop (64 + 64 * ?n) ?b1"
      using b1(2) len(2) that xs by simp
    moreover have "64 \<le> length (drop (64 * j) (concat (map zd_bytes ?xs)))" using that xs by simp
    ultimately have "take 64 (drop (64 + 64 * j) ?b2) = zd_bytes (?xs ! j)"
      using drop_concat[of j ?xs] that xs by simp
    then show ?thesis using that le len(1) by simp
  qed
  ultimately show ?thesis using b2(2) by (intro exI[of _ ?b2]) blast
qed

text \<open>
  The command, when the options are supported, the transfer is no longer than the report buffer
  and needs no list of pages.
\<close>

definition recv_fits :: "zns_ftl \<Rightarrow> nvme_zone_mgmt_recv \<Rightarrow> bool" where
  "recv_fits z cmd \<longleftrightarrow> unat (recv_bytes cmd) \<le> length (report_buffer z) \<and>
     prp_simple (zmr_prp1 cmd) (zmr_prp2 cmd) (unat (recv_bytes cmd))"

lemma zns_zmgmt_recv_ok:
  assumes s: "zns_serving z" and f: "check_zmgmt_rcv_option_supported z cmd \<Longrightarrow> recv_fits z cmd"
  defines "supp \<equiv> check_zmgmt_rcv_option_supported z cmd" and "len \<equiv> unat (recv_bytes cmd)"
  shows "\<exists>m' z'. zns_zmgmt_recv z m cmd start ret =
      Some (ret\<lparr>nsecs_target := start, ret_status := (if supp then NVME_SC_SUCCESS else NVME_SC_INVALID_FIELD)\<rparr>, m', z') \<and>
    zns_serving z' \<and> zone_descs z' = zone_descs z \<and> zp z' = zp z \<and> zsp z' = zsp z \<and> (\<not> supp \<longrightarrow> m' = m) \<and>
    (supp \<longrightarrow> (\<exists>buf. length buf = length (report_buffer z) \<and> host_view m' (zmr_prp1 cmd) (zmr_prp2 cmd) len = take len buf \<and>
       take 8 buf = le_bytes 8 (nr_zone_to_report z cmd) \<and>
       (\<forall>j < report_count z cmd. take 64 (drop (64 + 64 * j) buf) = zd_bytes (zone_descs z ! (report_start z cmd + j)))))"
proof (cases supp)
  case False
  then show ?thesis using s by (simp add: zns_zmgmt_recv_def supp_def)
next
  case True
  note inv = zns_servingD(1)[OF s]
  have r: "zone_in_range z (zmr_slba cmd)"
    using True by (auto simp: supp_def check_zmgmt_rcv_option_supported_def zone_in_range_def zone_of_def word_le_nat_alt
        split: if_splits)
  obtain buf where b: "fill_zone_report z cmd = Some (z\<lparr>report_buffer := buf\<rparr>)" "length buf = length (report_buffer z)"
    "take 8 buf = le_bytes 8 (nr_zone_to_report z cmd)"
    "\<forall>j < report_count z cmd. take 64 (drop (64 + 64 * j) buf) = zd_bytes (zone_descs z ! (report_start z cmd + j))"
    using fill_zone_report_ok[OF inv r] by blast
  have "recv_fits z cmd" using f True by (simp add: supp_def)
  then obtain m' where m': "prp_transfer_data (zmr_prp1 cmd) (zmr_prp2 cmd) buf len m = Some m'"
    "host_view m' (zmr_prp1 cmd) (zmr_prp2 cmd) len = take len buf"
    using prp_transfer_ok[of "zmr_prp1 cmd" "zmr_prp2 cmd" len buf m] b(2) by (auto simp: recv_fits_def len_def)
  let ?z = "z\<lparr>report_buffer := buf\<rparr>"
  have "zns_inv ?z" using inv zone_ok_cong[of ?z z] zns_geometry_cong[of ?z z] b(2) by (simp add: zns_inv_def resources_ok_def)
  then have "zns_serving ?z" by (rule zns_serving_cong[OF s]) simp
  moreover have "zns_zmgmt_recv z m cmd start ret = Some (ret\<lparr>nsecs_target := start, ret_status := NVME_SC_SUCCESS\<rparr>, m', ?z)"
    using True b(1) m'(1) by (simp add: zns_zmgmt_recv_def supp_def len_def)
  ultimately show ?thesis using True m'(2) b by auto
qed

end
