(* ===== verification/Zns_Init.thy ===== *)
theory Zns_Init
  imports Zns_Manage
begin

text \<open>
  Initialisation: a namespace on either configuration of \<^verbatim>\<open>ssd_config.h\<close> with zones comes up in
  service, with every zone empty.
\<close>

subsection \<open>The descriptors\<close>

lemma descs_fold:
  "fold (\<lambda>i (ds, s). (ds @ [init_desc zsz s], s + w)) [0..<n] ([], 0) =
    (map (\<lambda>i. init_desc zsz (of_nat i * w)) [0..<n], of_nat n * (w :: u64))"
  by (induction n) (simp_all add: algebra_simps)

lemma init_sel:
  fixes junk :: "nat \<Rightarrow> u8" and zpp :: znsparams and s :: ssd and mapped :: "nat \<Rightarrow> u8"
  defines "z \<equiv> zns_init_ftl junk zpp s mapped"
  shows "zns_ssd z = s" "zp z = zpp" "storage z = mapped"
    "zone_descs z = map (\<lambda>i. init_desc (zone_size zpp) (of_nat i * ucast (BYTE_TO_LBA (zone_size zpp)))) [0..<unat (nr_zones zpp)]"
    "res_infos z = (\<lambda>_. \<lparr>acquired_cnt = 0, total_cnt = nr_zones zpp\<rparr>)"
    "zone_wb_size zpp \<noteq> 0 \<Longrightarrow> zone_write_buffer z = replicate (unat (nr_zones zpp)) (buffer_init (ucast (zone_wb_size zpp)))"
    "zrwa_buffer_size zpp \<noteq> 0 \<Longrightarrow> zrwa_buffer z = replicate (unat (nr_zones zpp)) (buffer_init (ucast (zrwa_buffer_size zpp)))"
    "length (report_buffer z) = SIZEOF_ZONE_REPORT + SIZEOF_ZONE_DESCRIPTOR * unat (nr_zones zpp)"
  by (simp_all add: z_def zns_init_ftl_def init_resource_def init_descriptor_def descs_fold Let_def)

lemma zns_init_ftl_ok:
  assumes "ssd_inv s" "zns_geometry (zns_init_ftl junk zpp s mapped)"
  shows "zns_serving (zns_init_ftl junk zpp s mapped)"
    "\<forall>d \<in> set (zone_descs (zns_init_ftl junk zpp s mapped)). zd_state d = ZONE_STATE_EMPTY"
proof -
  let ?z = "zns_init_ftl junk zpp s mapped"
  note sel = init_sel[where junk = junk and zpp = zpp and s = s and mapped = mapped]
  note g = geometryD[OF assms(2)]
  have w: "unat (BYTE_TO_LBA (zone_size zpp)) = zone_lbas ?z"
    by (simp add: BYTE_TO_LBA_def zone_lbas_def sel(2) drop_bit_eq_div unat_div)
  have zs: "unat (of_nat i * (ucast (BYTE_TO_LBA (zone_size zpp)) :: u64)) = i * zone_lbas ?z" if "i < unat (nr_zones zpp)" for i
  proof -
    have "i * zone_lbas ?z \<le> unat (nr_zones zpp) * zone_lbas ?z" using that by (intro mult_le_mono1) simp
    then have b: "i * zone_lbas ?z < 2 ^ 32" using g(7)[unfolded sel(2)] by linarith
    have "unat (nr_zones zpp) < 2 ^ LENGTH(32)" by (rule unsigned_less)
    then have "i < 2 ^ 64" using that by simp
    then show ?thesis using b w by (subst unat_mult_less) (simp_all add: unat_u64_nat)
  qed
  have ok: "zone_ok ?z i (zone_descs ?z ! i)" if "i < unat (nr_zones zpp)" for i
    using that zs[OF that] w g(6) by (simp add: sel(4) zone_ok_def init_desc_def active_def opened_def)
  have held: "held t (zone_descs ?z) = 0" for t
    by (cases t) (simp_all add: held_def sel(4) filter_empty_conv init_desc_def active_def opened_def)
  have "zns_inv ?z"
    using assms ok held sel by (simp add: zns_inv_def resources_ok_def)
  moreover have "\<forall>d \<in> set (zone_descs ?z). zone_usable d \<and> zd_state d = ZONE_STATE_EMPTY"
    by (auto simp: sel(4) init_desc_def zone_usable_def)
  ultimately show "zns_serving ?z" "\<forall>d \<in> set (zone_descs ?z). zd_state d = ZONE_STATE_EMPTY"
    by (auto simp: zns_serving_def)
qed

subsection \<open>The configurations\<close>

definition zns_config :: "ssd_config \<Rightarrow> bool" where
  "zns_config cfg \<longleftrightarrow> cfg = zns_prototype \<or> cfg = wd_zn540"

lemma ssd_init_total:
  assumes "ch_bandwidth P \<in> {800, 450}" "pcie_bandwidth P \<in> {3200, 3050}"
  shows "\<exists>s. ssd_init junk mem clk P = Some s \<and> ssd_inv s \<and> sp s = P \<and>
    write_buffer s = buffer_init (of_nat (write_buffer_size P))"
proof -
  have c: "unat (ucast (BANDWIDTH_TO_MAX_CREDITS 800) :: u32) = 26" "unat (ucast (BANDWIDTH_TO_MAX_CREDITS 450) :: u32) = 14"
    "unat (ucast (BANDWIDTH_TO_MAX_CREDITS 3200) :: u32) = 104" "unat (ucast (BANDWIDTH_TO_MAX_CREDITS 3050) :: u32) = 99"
    "MB64 800 \<noteq> 0" "MB64 450 \<noteq> 0" "MB64 3200 \<noteq> 0" "MB64 3050 \<noteq> 0"
    by (simp_all add: BANDWIDTH_TO_MAX_CREDITS_def MB64_def UNIT_TIME_INTERVAL_def NS_PER_SEC_def UNIT_XFER_SIZE_def)
  obtain s where s: "ssd_init junk mem clk P = Some s"
    using assms c by (auto simp: ssd_init_def ssd_init_ch_def ssd_init_pcie_def chmodel_init_def chm_memset_def Let_def)
  have "ssd_inv s" "sp s = P" using ssd_init_shape[OF s] assms c by auto
  moreover have "write_buffer s = buffer_init (of_nat (write_buffer_size P))"
    using s by (auto simp: ssd_init_def bind_Some_iff)
  ultimately show ?thesis using s by blast
qed

text \<open>The geometry of the two configurations, for a capacity of a whole number of zones below 2 TiB.\<close>

lemma zns_prototype_params:
  assumes "0 < n" "n < 65536"
  shows "\<exists>P. ssd_init_params zns_prototype (n * ZONE_SIZE zns_prototype) 1 = Some P \<and> secsz P = 512 \<and> secs_per_pg P = 8 \<and>
    pgsz P = 4096 \<and> tt_luns P = luns_per_ch P * nchs P \<and> nchs P = 8 \<and> luns_per_ch P = 16 \<and> pgs_per_oneshotpg P = 32 \<and>
    pgs_per_flashpg P = 16 \<and> write_unit_size P = 131072 \<and> cell_mode P = 3 \<and> length (pg_4kb_rd_lat P) = 3 \<and>
    length (pg_rd_lat P) = 3 \<and> max_ch_xfer_size P = 65536 \<and> ch_bandwidth P = 800 \<and> pcie_bandwidth P = 3200 \<and>
    write_buffer_size P = 33554432"
proof -
  have "\<exists>b f os. ssd_init_params zns_prototype (n * ZONE_SIZE zns_prototype) 1 = Some (ssd_fill_params zns_prototype 8 b 32 os 16 f)"
    by (simp add: ssd_init_params_def zns_prototype_def KB_def MB_def LBA_SIZE_def Let_def DIV_ROUND_UP_def ckdiv_def)
      blast
  then show ?thesis
    by (elim exE) (rule exI, erule conjI, simp add: ssd_fill_params_def zns_prototype_def LBA_SIZE_def KB_def Let_def)
qed

lemma wd_zn540_params:
  assumes "0 < n" "n < 1024"
  shows "\<exists>P. ssd_init_params wd_zn540 (n * ZONE_SIZE wd_zn540) 1 = Some P \<and> secsz P = 512 \<and> secs_per_pg P = 8 \<and>
    pgsz P = 4096 \<and> tt_luns P = luns_per_ch P * nchs P \<and> nchs P = 8 \<and> luns_per_ch P = 4 \<and> pgs_per_oneshotpg P = 24 \<and>
    pgs_per_flashpg P = 8 \<and> write_unit_size P = 512 \<and> cell_mode P = 3 \<and> length (pg_4kb_rd_lat P) = 3 \<and>
    length (pg_rd_lat P) = 3 \<and> max_ch_xfer_size P = 32768 \<and> ch_bandwidth P = 450 \<and> pcie_bandwidth P = 3050"
proof -
  have "\<exists>b f os. ssd_init_params wd_zn540 (n * ZONE_SIZE wd_zn540) 1 = Some (ssd_fill_params wd_zn540 8 b 24 os 8 f)"
    by (simp add: ssd_init_params_def wd_zn540_def KB_def MB_def GB_def LBA_SIZE_def Let_def DIV_ROUND_UP_def ckdiv_def)
      blast
  then show ?thesis
    by (elim exE) (rule exI, erule conjI, simp add: ssd_fill_params_def wd_zn540_def LBA_SIZE_def KB_def Let_def)
qed

subsection \<open>The namespace\<close>

lemma geometryI:
  assumes "secsz P = 512" "secs_per_pg P = 8" "pgsz P = 4096" "tt_luns P = luns_per_ch P * nchs P" "0 < tt_luns P"
    "nchs P \<le> 256" "luns_per_ch P \<le> 256" "0 < pgs_per_oneshotpg P" "pgs_per_oneshotpg P \<le> 2 ^ 16" "pgs_per_flashpg P \<le> 2 ^ 16"
    "0 < write_unit_size P" "write_unit_size P < 2 ^ 31" "time_params P" "sp s = P"
    "4096 dvd unat (zone_size zpp)" "0 < unat (zone_size zpp)" "unat (nr_zones zpp) * (unat (zone_size zpp) div 512) < 2 ^ 32"
    "0 < unat (dies_per_zone zpp)" "unat (dies_per_zone zpp) dvd tt_luns P"
  shows "zns_geometry (zns_init_ftl junk zpp s mapped)"
  using assms init_sel(1,2)[where junk = junk and zpp = zpp and s = s and mapped = mapped]
  by (simp add: zns_geometry_def zone_lbas_def)

text \<open>What is known of a namespace that has just been initialised.\<close>

definition fresh_zns :: "ssd_config \<Rightarrow> nat \<Rightarrow> zns_ns \<Rightarrow> bool" where
  "fresh_zns cfg n ns \<longleftrightarrow> zns_csi ns = NVME_CSI_ZNS \<and> zns_nr_parts ns = 1 \<and> zns_serving (zns_inst ns) \<and>
     (\<forall>d \<in> set (zone_descs (zns_inst ns)). zd_state d = ZONE_STATE_EMPTY) \<and> unat (nr_zones (zp (zns_inst ns))) = n \<and>
     unat (zone_size (zp (zns_inst ns))) = ZONE_SIZE cfg \<and> lbas_per_zrwa (zp (zns_inst ns)) = 0 \<and>
     lbas_per_zrwafg (zp (zns_inst ns)) = 0 \<and> write_unit_size (zsp (zns_inst ns)) = WRITE_UNIT_SIZE cfg \<and>
     (\<forall>lba. zone_in_range (zns_inst ns) lba \<longrightarrow> (\<exists>b. cmd_buffer (zns_inst ns) lba = Some b \<and> remaining b = buf_size b \<and>
        unat (buf_size b) = (if ZONE_WB_SIZE cfg = 0 then GLOBAL_WB_SIZE cfg else ZONE_WB_SIZE cfg)))"

lemma zns_init_prototype:
  assumes "0 < n" "n < 65536"
  shows "\<exists>ns. zns_init_namespace zns_prototype junk mem rjunk clk mapped i (n * ZONE_SIZE zns_prototype) = Some ns \<and>
    fresh_zns zns_prototype n ns"
proof -
  let ?c = zns_prototype
  obtain P where P: "ssd_init_params ?c (n * ZONE_SIZE ?c) 1 = Some P" "secsz P = 512" "secs_per_pg P = 8"
    "pgsz P = 4096" "tt_luns P = luns_per_ch P * nchs P" "nchs P = 8" "luns_per_ch P = 16" "pgs_per_oneshotpg P = 32"
    "pgs_per_flashpg P = 16" "write_unit_size P = 131072" "cell_mode P = 3" "length (pg_4kb_rd_lat P) = 3"
    "length (pg_rd_lat P) = 3" "max_ch_xfer_size P = 65536" "ch_bandwidth P = 800" "pcie_bandwidth P = 3200"
    "write_buffer_size P = 33554432"
    using zns_prototype_params[OF assms] by blast
  obtain s where s: "ssd_init junk mem clk P = Some s" "ssd_inv s" "sp s = P" "write_buffer s = buffer_init 33554432"
    using ssd_init_total[of P junk mem clk] P(15-17) by auto
  let ?zpp = "\<lparr>nr_zones = of_nat n, nr_active_zones = of_nat n, nr_open_zones = of_nat n, dies_per_zone = 1,
    zone_size = 33554432, zone_wb_size = 0, nr_zrwa_zones = 0, zrwafg_size = 0, zrwa_size = 0, zrwa_buffer_size = 0,
    lbas_per_zrwafg = 0, lbas_per_zrwa = 0\<rparr>"
  have zp: "zns_init_params ?c P (n * ZONE_SIZE ?c) = Some ?zpp"
    using P(2,4) by (simp add: zns_init_params_def ckdiv_def ckmod_def zns_prototype_def MB_def Let_def)
  let ?z = "zns_init_ftl rjunk ?zpp s mapped"
  note sel = init_sel[where junk = rjunk and zpp = ?zpp and s = s and mapped = mapped]
  have n: "unat (of_nat n :: u32) = n" using assms(2) by (simp add: unat_u32_nat)
  have g: "zns_geometry ?z"
    by (rule geometryI[where P = P]) (use P s(3) assms n in \<open>simp_all add: time_params_def\<close>)
  have "fresh_zns ?c n \<lparr>zns_id = i, zns_csi = NVME_CSI_ZNS, zns_nr_parts = 1, zns_size = n * ZONE_SIZE ?c, zns_inst = ?z\<rparr>"
    using zns_init_ftl_ok[OF s(2) g] P(10) s(3,4)
    by (simp add: fresh_zns_def sel n cmd_buffer_def wbuf_of_def get_wbuf_def buffer_init_def)
      (simp add: zns_prototype_def MB_def KB_def)
  then show ?thesis using P(1) s(1) zp by (simp add: zns_init_namespace_def)
qed

lemma zns_init_zn540:
  assumes "0 < n" "n < 1024"
  shows "\<exists>ns. zns_init_namespace wd_zn540 junk mem rjunk clk mapped i (n * ZONE_SIZE wd_zn540) = Some ns \<and>
    fresh_zns wd_zn540 n ns"
proof -
  let ?c = wd_zn540
  obtain P where P: "ssd_init_params ?c (n * ZONE_SIZE ?c) 1 = Some P" "secsz P = 512" "secs_per_pg P = 8"
    "pgsz P = 4096" "tt_luns P = luns_per_ch P * nchs P" "nchs P = 8" "luns_per_ch P = 4" "pgs_per_oneshotpg P = 24"
    "pgs_per_flashpg P = 8" "write_unit_size P = 512" "cell_mode P = 3" "length (pg_4kb_rd_lat P) = 3"
    "length (pg_rd_lat P) = 3" "max_ch_xfer_size P = 32768" "ch_bandwidth P = 450" "pcie_bandwidth P = 3050"
    using wd_zn540_params[OF assms] by blast
  obtain s where s: "ssd_init junk mem clk P = Some s" "ssd_inv s" "sp s = P"
    using ssd_init_total[of P junk mem clk] P(15-16) by auto
  let ?zpp = "\<lparr>nr_zones = of_nat n, nr_active_zones = of_nat n, nr_open_zones = of_nat n, dies_per_zone = 32,
    zone_size = 2147483648, zone_wb_size = 983040, nr_zrwa_zones = 0, zrwafg_size = 0, zrwa_size = 0, zrwa_buffer_size = 0,
    lbas_per_zrwafg = 0, lbas_per_zrwa = 0\<rparr>"
  have zp: "zns_init_params ?c P (n * ZONE_SIZE ?c) = Some ?zpp"
    using P(2,4) by (simp add: zns_init_params_def ckdiv_def ckmod_def wd_zn540_def KB_def GB_def Let_def)
  let ?z = "zns_init_ftl rjunk ?zpp s mapped"
  note sel = init_sel[where junk = rjunk and zpp = ?zpp and s = s and mapped = mapped]
  have n: "unat (of_nat n :: u32) = n" using assms(2) by (simp add: unat_u32_nat)
  have g: "zns_geometry ?z"
    by (rule geometryI[where P = P]) (use P s(3) assms n in \<open>simp_all add: time_params_def\<close>)
  have "fresh_zns ?c n \<lparr>zns_id = i, zns_csi = NVME_CSI_ZNS, zns_nr_parts = 1, zns_size = n * ZONE_SIZE ?c, zns_inst = ?z\<rparr>"
    using zns_init_ftl_ok[OF s(2) g] P(10) s(3)
    by (simp add: fresh_zns_def sel n cmd_buffer_def wbuf_of_def get_wbuf_def buffer_init_def zone_in_range_def zone_of_def)
      (simp add: wd_zn540_def GB_def KB_def)
  then show ?thesis using P(1) s(1) zp by (simp add: zns_init_namespace_def)
qed

end
