(* ===== verification/Zns_Session.thy ===== *)
theory Zns_Session
  imports Zns_Init
begin

text \<open>
  Sessions of the host with a zoned namespace: commands and the release of buffer space by the
  I/O workers, in any order. The host's part of the contract is \<open>zns_admissible\<close>: it names zones
  of the namespace, writes no more at a time than the write buffer holds, asks for no random
  write area, and asks for reports that fit the report buffer and two pages.
\<close>

definition zns_admissible :: "zns_ns \<Rightarrow> zns_request \<Rightarrow> bool" where
  "zns_admissible ns req \<longleftrightarrow> (let z = zns_inst ns; cmd = req_cmd req; op = opcode cmd in
     (op = nvme_cmd_write \<or> op = nvme_cmd_zone_append \<longrightarrow> zone_in_range z (slba cmd) \<and>
        (case cmd_buffer z (slba cmd) of None \<Rightarrow> False | Some b \<Rightarrow> LBA_TO_BYTE (zns_cmd_nr_lba cmd) \<le> buf_size b)) \<and>
     (op = nvme_cmd_read \<longrightarrow> zone_in_range z (slba cmd)) \<and>
     (op = nvme_cmd_zone_mgmt_send \<longrightarrow> (select_all (req_send req) \<or> zone_in_range z (zms_slba (req_send req))) \<and>
        \<not> (zsa (req_send req) = ZSA_OPEN_ZONE \<and> zsaso (req_send req))) \<and>
     (op = nvme_cmd_zone_mgmt_recv \<longrightarrow> check_zmgmt_rcv_option_supported z (req_recv req) \<longrightarrow> recv_fits z (req_recv req)))"

text \<open>The release that the I/O workers make when a programming operation is done.\<close>

definition zns_release :: "zns_ftl \<Rightarrow> wbuf_ref \<Rightarrow> u64 \<Rightarrow> zns_ftl" where
  "zns_release z r n = (case get_wbuf z r of None \<Rightarrow> z | Some b \<Rightarrow> set_wbuf z r (buffer_release b n))"

inductive zns_session :: "zns_ns \<Rightarrow> zns_ns \<Rightarrow> bool" for ns0 where
  start: "zns_session ns0 ns0"
| command: "zns_session ns0 ns \<Longrightarrow> zns_admissible ns req \<Longrightarrow>
    zns_proc_nvme_io_cmd undef ns m req ret = Some (ok, ret', a, ops, m', ns') \<Longrightarrow> zns_session ns0 ns'"
| release: "zns_session ns0 ns \<Longrightarrow> zns_session ns0 (ns\<lparr>zns_inst := zns_release (zns_inst ns) r n\<rparr>)"

subsection \<open>The specification of a command\<close>

text \<open>
  The status of a command and the descriptors it leaves, as a function of the descriptors. A
  write that finds no buffer space is not taken and changes nothing; a command that the device
  does not know keeps the status it was given.
\<close>

definition spec_write :: "zns_ftl \<Rightarrow> nvmev_request \<Rightarrow> u32 \<times> zone_descriptor list" where
  "spec_write z req =
     (let i = zone_of z (slba (req_cmd req)); d = zone_descs z ! i; k = zns_cmd_nr_lba (req_cmd req);
          st = write_status z d (write_lba d req) k
      in (st, if st = NVME_SC_SUCCESS then (zone_descs z)[i := written d k] else zone_descs z))"

definition zns_spec :: "u32 \<Rightarrow> zns_ftl \<Rightarrow> zns_request \<Rightarrow> u32 \<Rightarrow> u32 \<times> zone_descriptor list" where
  "zns_spec undef z req st0 =
     (let op = opcode (req_cmd req) in
      if op = nvme_cmd_write \<or> op = nvme_cmd_zone_append then spec_write z (nvmev_request.truncate req)
      else if op = nvme_cmd_read then (zns_read_status z (req_cmd req), zone_descs z)
      else if op = nvme_cmd_flush then (NVME_SC_SUCCESS, zone_descs z)
      else if op = nvme_cmd_zone_mgmt_send then spec_zmgmt_send undef z (req_send req)
      else if op = nvme_cmd_zone_mgmt_recv then
        (if check_zmgmt_rcv_option_supported z (req_recv req) then NVME_SC_SUCCESS else NVME_SC_INVALID_FIELD, zone_descs z)
      else (st0, zone_descs z))"

lemma truncate_sel [simp]:
  "req_cmd (nvmev_request.truncate r) = req_cmd r" "sq_id (nvmev_request.truncate r) = sq_id r"
  "nsecs_start (nvmev_request.truncate r) = nsecs_start r"
  by (simp_all add: nvmev_request.truncate_def)

lemma zns_with_sel [simp]: "ret_status (zns_with r b) = ret_status b"
  by (simp add: zns_with_def)

lemma zns_cmd_ok:
  assumes s: "zns_serving (zns_inst ns)" and c: "zns_csi ns = NVME_CSI_ZNS" "zns_nr_parts ns = 1" and adm: "zns_admissible ns req"
  shows "\<exists>ok ret' a ops m' ns'. zns_proc_nvme_io_cmd undef ns m req ret = Some (ok, ret', a, ops, m', ns') \<and>
    zns_serving (zns_inst ns') \<and> ns' = ns\<lparr>zns_inst := zns_inst ns'\<rparr> \<and>
    zp (zns_inst ns') = zp (zns_inst ns) \<and> zsp (zns_inst ns') = zsp (zns_inst ns) \<and>
    zone_descs (zns_inst ns') = (if ok then snd (zns_spec undef (zns_inst ns) req (ret_status ret)) else zone_descs (zns_inst ns)) \<and>
    (ok \<longrightarrow> ret_status ret' = fst (zns_spec undef (zns_inst ns) req (ret_status ret)))"
proof -
  let ?z = "zns_inst ns" and ?cmd = "req_cmd req"
  note op = nvme_cmd_write_def nvme_cmd_zone_append_def nvme_cmd_read_def nvme_cmd_flush_def
    nvme_cmd_zone_mgmt_send_def nvme_cmd_zone_mgmt_recv_def
  consider (w) "opcode ?cmd = nvme_cmd_write \<or> opcode ?cmd = nvme_cmd_zone_append"
    | (r) "opcode ?cmd = nvme_cmd_read" | (f) "opcode ?cmd = nvme_cmd_flush"
    | (ms) "opcode ?cmd = nvme_cmd_zone_mgmt_send" | (mr) "opcode ?cmd = nvme_cmd_zone_mgmt_recv"
    | (no) "opcode ?cmd \<notin> {nvme_cmd_write, nvme_cmd_zone_append, nvme_cmd_read, nvme_cmd_flush, nvme_cmd_zone_mgmt_send,
        nvme_cmd_zone_mgmt_recv}" by blast
  then show ?thesis
  proof cases
    case w
    let ?req = "nvmev_request.truncate req"
    obtain b where b: "zone_in_range ?z (slba ?cmd)" "cmd_buffer ?z (slba ?cmd) = Some b" "LBA_TO_BYTE (zns_cmd_nr_lba ?cmd) \<le> buf_size b"
      using adm w by (auto simp: zns_admissible_def Let_def split: option.splits)
    let ?d = "zone_descs ?z ! zone_of ?z (slba ?cmd)" and ?k = "zns_cmd_nr_lba ?cmd"
    let ?st = "write_status ?z ?d (write_lba ?d ?req) ?k"
    have sw: "spec_write ?z ?req = (?st, if ?st = NVME_SC_SUCCESS
        then (zone_descs ?z)[zone_of ?z (slba ?cmd) := written ?d ?k] else zone_descs ?z)"
      by (simp add: spec_write_def Let_def)
    have p: "zone_in_range ?z (slba (req_cmd ?req))" "?k = zns_cmd_nr_lba (req_cmd ?req)"
      "cmd_buffer ?z (slba (req_cmd ?req)) = Some b" "?d = zone_descs ?z ! zone_of ?z (slba (req_cmd ?req))"
      using b by simp_all
    from zns_write_ok[OF s p(1,2,3) b(3) p(4) refl, of ret]
    obtain ok ret' req' ops z' where x: "zns_write ?z ?req ret = Some (ok, ret', req', ops, z')" "zns_serving z'" "zp z' = zp ?z"
      "zsp z' = zsp ?z" "ok \<longrightarrow> ret_status ret' = ?st"
      "zone_descs z' = (if ok \<and> ?st = NVME_SC_SUCCESS then (zone_descs ?z)[zone_of ?z (slba ?cmd) := written ?d ?k] else zone_descs ?z)"
      unfolding truncate_sel by blast
    have "zone_descs z' = (if ok then snd (spec_write ?z ?req) else zone_descs ?z)"
      using x(6) by (auto simp: sw)
    moreover have "ok \<longrightarrow> ret_status ret' = fst (spec_write ?z ?req)" using x(5) by (simp add: sw)
    ultimately show ?thesis using x(1-4) w c by (auto simp: zns_proc_nvme_io_cmd_def zns_spec_def)
  next
    case r
    have "zone_in_range ?z (slba (req_cmd (nvmev_request.truncate req)))" using adm r by (simp add: zns_admissible_def op)
    from zns_read_ok[OF s this, of ret] obtain ret' z' where x: "zns_read ?z (nvmev_request.truncate req) ret = Some (ret', z')"
      "zns_serving z'" "device_step ?z z'" "ret_status ret' = zns_read_status ?z ?cmd" by auto
    then show ?thesis using r c device_step_sel[OF x(3)] by (auto simp: zns_proc_nvme_io_cmd_def zns_spec_def op)
  next
    case f
    from zns_flush_ok[OF s, of ret] obtain ret' z' where x: "zns_flush ?z ret = Some (ret', z')" "zns_serving z'"
      "device_step ?z z'" "ret_status ret' = NVME_SC_SUCCESS" by blast
    then show ?thesis using f c device_step_sel[OF x(3)] by (auto simp: zns_proc_nvme_io_cmd_def zns_spec_def op)
  next
    case ms
    have "select_all (req_send req) \<or> zone_in_range ?z (zms_slba (req_send req))"
      "\<not> (zsa (req_send req) = ZSA_OPEN_ZONE \<and> zsaso (req_send req))" using adm ms by (simp_all add: zns_admissible_def op)
    from zns_zmgmt_send_ok[OF s this, of undef "nsecs_start req" "zns_base ret"] show ?thesis
      using ms c by (auto simp: zns_proc_nvme_io_cmd_def zns_spec_def op)
  next
    case mr
    have "check_zmgmt_rcv_option_supported ?z (req_recv req) \<Longrightarrow> recv_fits ?z (req_recv req)"
      using adm mr by (simp add: zns_admissible_def op)
    from zns_zmgmt_recv_ok[OF s this, of m "nsecs_start req" "zns_base ret"] obtain m' z' where
      "zns_zmgmt_recv ?z m (req_recv req) (nsecs_start req) (zns_base ret) =
        Some ((zns_base ret)\<lparr>nsecs_target := nsecs_start req, ret_status :=
          (if check_zmgmt_rcv_option_supported ?z (req_recv req) then NVME_SC_SUCCESS else NVME_SC_INVALID_FIELD)\<rparr>, m', z')"
      "zns_serving z'" "zone_descs z' = zone_descs ?z" "zp z' = zp ?z" "zsp z' = zsp ?z" by blast
    then show ?thesis using mr c by (auto simp: zns_proc_nvme_io_cmd_def zns_spec_def op)
  next
    case no
    then show ?thesis using s c by (auto simp: zns_proc_nvme_io_cmd_def zns_spec_def)
  qed
qed

lemma zns_release_ok: "zns_serving z \<Longrightarrow> zns_serving (zns_release z r n)"
  by (auto simp: zns_release_def zns_serving_def set_wbuf_inv split: option.split)

lemma zns_release_sel [simp]: "zone_descs (zns_release z r n) = zone_descs z" "zp (zns_release z r n) = zp z"
  by (auto simp: zns_release_def split: option.split)

text \<open>Every reachable state is in service.\<close>

lemma zns_session_serving:
  assumes "zns_session ns0 ns" "zns_serving (zns_inst ns0)" "zns_csi ns0 = NVME_CSI_ZNS" "zns_nr_parts ns0 = 1"
  shows "zns_serving (zns_inst ns) \<and> zns_csi ns = NVME_CSI_ZNS \<and> zns_nr_parts ns = 1 \<and> zp (zns_inst ns) = zp (zns_inst ns0)"
  using assms
proof (induction rule: zns_session.induct)
  case start
  then show ?case by simp
next
  case (command ns req undef m ret ok ret' a ops m' ns')
  then have i: "zns_serving (zns_inst ns)" "zns_csi ns = NVME_CSI_ZNS" "zns_nr_parts ns = 1" "zp (zns_inst ns) = zp (zns_inst ns0)" by simp_all
  from zns_cmd_ok[OF i(1-3) command.hyps(2), of undef m ret] command.hyps(3)
  have "zns_serving (zns_inst ns')" "ns' = ns\<lparr>zns_inst := zns_inst ns'\<rparr>" "zp (zns_inst ns') = zp (zns_inst ns)" by auto
  then show ?case using i by (metis zns_ns.select_convs(2,3) zns_ns.surjective zns_ns.update_convs(5))
next
  case (release ns r n)
  then show ?case using zns_release_ok by simp
qed

text \<open>Each zone only makes transitions of the state machine.\<close>

lemma spec_send_path: "zone_path (zd_state d) (zd_state (snd (spec_send undef a opt d)))"
proof (cases "op_of a opt")
  case (Some op)
  show ?thesis
  proof (cases "zone_next op (zd_state d)")
    case st: (Some st)
    have "zd_state (op_desc op d) = st" using st by (cases op) (auto split: if_splits)
    then show ?thesis using Some st zone_next_step[OF st] by (simp add: spec_send_def)
  qed (simp add: Some spec_send_def)
qed (simp add: spec_send_def)

lemma zns_spec_path:
  assumes s: "zns_serving z" and i: "i < unat (nr_zones (zp z))"
  shows "zone_path (zd_state (zone_descs z ! i)) (zd_state (snd (zns_spec undef z req st0) ! i))"
proof -
  note inv = zns_servingD(1)[OF s]
  have len: "length (zone_descs z) = unat (nr_zones (zp z))" by (rule zns_invD(3)[OF inv])
  have send: "zone_path (zd_state (zone_descs z ! i)) (zd_state (snd (spec_zmgmt_send undef z cmd) ! i))" for cmd
    using i len spec_send_path by (auto simp: spec_zmgmt_send_def Let_def nth_upd)
  have wr: "zone_path (zd_state (zone_descs z ! i)) (zd_state (snd (spec_write z r) ! i))" for r
  proof -
    let ?k = "zns_cmd_nr_lba (req_cmd r)"
    have k: "0 < unat ?k" "unat ?k \<le> 65536" using nr_lba_facts(1,2)[of "req_cmd r"] by simp_all
    show ?thesis
      using written_ok(2)[OF inv i refl _ k] i len by (auto simp: spec_write_def Let_def nth_upd)
  qed
  show ?thesis using send wr by (simp add: zns_spec_def Let_def)
qed

lemma zns_session_path:
  assumes "zns_session ns0 ns" "zns_serving (zns_inst ns0)" "zns_csi ns0 = NVME_CSI_ZNS" "zns_nr_parts ns0 = 1"
    and i: "i < unat (nr_zones (zp (zns_inst ns0)))"
  shows "zone_path (zd_state (zone_descs (zns_inst ns0) ! i)) (zd_state (zone_descs (zns_inst ns) ! i))"
  using assms(1)
proof (induction rule: zns_session.induct)
  case start
  then show ?case by simp
next
  case (command ns req undef m ret ok ret' a ops m' ns')
  have sv: "zns_serving (zns_inst ns)" "zns_csi ns = NVME_CSI_ZNS" "zns_nr_parts ns = 1" "zp (zns_inst ns) = zp (zns_inst ns0)"
    using zns_session_serving[OF command.hyps(1) assms(2-4)] by simp_all
  from zns_cmd_ok[OF sv(1-3) command.hyps(2), of undef m ret] command.hyps(3)
  have "zone_descs (zns_inst ns') = (if ok then snd (zns_spec undef (zns_inst ns) req (ret_status ret)) else zone_descs (zns_inst ns))"
    by auto
  moreover have "zone_path (zd_state (zone_descs (zns_inst ns) ! i)) (zd_state (snd (zns_spec undef (zns_inst ns) req (ret_status ret)) ! i))"
    by (rule zns_spec_path[OF sv(1)]) (use i sv(4) in simp)
  ultimately show ?case using command.IH by (auto intro: rtranclp_trans)
next
  case (release ns r n)
  then show ?case by simp
qed

end
