(* ===== verification/Zns_Correct.thy ===== *)
theory Zns_Correct
  imports Zns_Session
begin

text \<open>
  The properties of the zoned namespace. Each has a witness on a namespace of four zones that
  the initialisation of the prototype configuration returns.
\<close>

subsection \<open>A namespace to apply the properties to\<close>

definition demo_ns :: zns_ns where
  "demo_ns = the (zns_init_namespace zns_prototype 0 (\<lambda>_. 0) (\<lambda>_. 0) (\<lambda>_. 0) (\<lambda>_. 7) 1 (4 * ZONE_SIZE zns_prototype))"

abbreviation demo :: zns_ftl where "demo \<equiv> zns_inst demo_ns"

lemma demo_fresh: "fresh_zns zns_prototype 4 demo_ns"
proof -
  obtain ns where "zns_init_namespace zns_prototype 0 (\<lambda>_. 0) (\<lambda>_. 0) (\<lambda>_. 0) (\<lambda>_. 7) 1 (4 * ZONE_SIZE zns_prototype) = Some ns"
    "fresh_zns zns_prototype 4 ns"
    using zns_init_prototype[of 4] by fastforce
  then show ?thesis by (simp add: demo_ns_def)
qed

lemma demo_sel:
  "zns_csi demo_ns = NVME_CSI_ZNS" "zns_nr_parts demo_ns = 1" "zns_serving demo" "unat (nr_zones (zp demo)) = 4"
  "unat (zone_size (zp demo)) = 33554432" "zone_lbas demo = 65536" "write_unit_size (zsp demo) = 131072"
  using demo_fresh by (simp_all add: fresh_zns_def zone_lbas_def zns_prototype_def MB_def KB_def)

lemma demo_zone0: "zone_of demo 0 = 0" "zone_in_range demo 0"
  "zone_of demo 255 = 0"
  using lba_to_zone_at[OF zns_invD(2)[OF zns_servingD(1)[OF demo_sel(3)]], of 0] demo_sel(4,6)
  by (simp_all add: zone_of_def zone_in_range_def)

lemma demo_desc0:
  "zd_state (zone_descs demo ! 0) = ZONE_STATE_EMPTY" "zd_wp (zone_descs demo ! 0) = 0" "\<not> zrwav (zone_descs demo ! 0)"
proof -
  have l: "0 < length (zone_descs demo)" using zns_invD(3)[OF zns_servingD(1)[OF demo_sel(3)]] demo_sel(4) by simp
  then have "zone_descs demo ! 0 \<in> set (zone_descs demo)" by simp
  then show e: "zd_state (zone_descs demo ! 0) = ZONE_STATE_EMPTY" using demo_fresh by (simp add: fresh_zns_def)
  have "zone_ok demo 0 (zone_descs demo ! 0)" using zns_invD(4)[OF zns_servingD(1)[OF demo_sel(3)], of 0] demo_sel(4) by simp
  then show "zd_wp (zone_descs demo ! 0) = 0" "\<not> zrwav (zone_descs demo ! 0)"
    using e by (auto simp: zone_ok_def word_unat_eq_iff)
qed

text \<open>A write of the first programming unit, 256 blocks, and the same as an append.\<close>

definition demo_cmd :: "nat \<Rightarrow> u64 \<Rightarrow> nvme_rw_cmd" where
  "demo_cmd op lba = \<lparr>opcode = op, slba = lba, rw_length = 255, rw_control = 0, dsm_nr = 0, dsm_attributes = 0\<rparr>"

definition demo_rw :: "nat \<Rightarrow> u64 \<Rightarrow> nvmev_request" where
  "demo_rw op lba = \<lparr>req_cmd = demo_cmd op lba, sq_id = 1, nsecs_start = 0\<rparr>"

definition demo_req :: "nat \<Rightarrow> u64 \<Rightarrow> zns_request" where
  "demo_req op lba = \<lparr>req_cmd = demo_cmd op lba, sq_id = 1, nsecs_start = 0,
     req_send = \<lparr>zms_slba = 0, zms_dw13 = ZSA_RESET_ZONE\<rparr>,
     req_recv = \<lparr>zmr_prp1 = 4096, zmr_prp2 = 8192, zmr_slba = 0, nr_dw = 79, zmr_dw13 = 0\<rparr>\<rparr>"

definition demo_ret :: zns_result where
  "demo_ret = \<lparr>ret_status = 0, nsecs_target = 0, ret_result = 0\<rparr>"

lemma demo_len: "zns_cmd_nr_lba (demo_cmd op lba) = 256"
  by (simp add: demo_cmd_def zns_cmd_nr_lba_def nr_lbas_from_rw_cmd_def)

lemma demo_buffer: "\<exists>b. cmd_buffer demo 0 = Some b \<and> remaining b = buf_size b \<and> unat (buf_size b) = 33554432"
  using demo_fresh demo_zone0(2) by (fastforce simp: fresh_zns_def zns_prototype_def KB_def)

lemma demo_bytes: "LBA_TO_BYTE 256 = (131072 :: u64)"
  by (simp add: LBA_TO_BYTE_def push_bit_eq_mult)

lemma demo_admissible: "op \<in> {nvme_cmd_write, nvme_cmd_zone_append} \<Longrightarrow> zns_admissible demo_ns (demo_req op 0)"
  using demo_buffer demo_zone0 demo_len[of op 0] demo_bytes
  by (auto simp: zns_admissible_def demo_req_def Let_def demo_cmd_def word_le_nat_alt nvme_cmd_write_def nvme_cmd_zone_append_def
      nvme_cmd_read_def nvme_cmd_zone_mgmt_send_def nvme_cmd_zone_mgmt_recv_def split: option.splits)

lemma demo_status: "write_status demo (zone_descs demo ! 0) 0 256 = NVME_SC_SUCCESS"
  using demo_zone0 demo_desc0 by (simp add: write_status_def demo_bytes demo_sel(7) zone_of_def word_unat_eq_iff)

subsection \<open>The service\<close>

text \<open>C18. A zoned namespace in service never stops the kernel: after any session, the next
  admissible command returns, whatever its kind and whatever state its zone is in.\<close>

theorem zns_session_total:
  assumes "zns_session ns0 ns" "zns_serving (zns_inst ns0)" "zns_csi ns0 = NVME_CSI_ZNS" "zns_nr_parts ns0 = 1"
    and "zns_admissible ns req"
  shows "\<exists>r. zns_proc_nvme_io_cmd undef ns m req ret = Some r"
  using zns_session_serving[OF assms(1-4)] zns_cmd_ok[of ns req undef m ret] assms(5) by blast

lemma zns_session_total_witness:
  "\<exists>r. zns_proc_nvme_io_cmd 0 demo_ns (\<lambda>_. 0) (demo_req nvme_cmd_write 0) demo_ret = Some r"
  by (rule zns_session_total[OF zns_session.start]) (simp_all add: demo_sel demo_admissible)

text \<open>C19. Every command answers the status, and leaves the zone descriptors, that its specification
  gives: a write is accepted exactly at the write pointer of a zone that can be written and moves
  the pointer, an action on a zone follows the table of transitions, and everything else leaves
  the zones alone. A command that is not taken for want of buffer space changes no zone.\<close>

theorem zns_io_refines:
  assumes "zns_session ns0 ns" "zns_serving (zns_inst ns0)" "zns_csi ns0 = NVME_CSI_ZNS" "zns_nr_parts ns0 = 1"
    and "zns_admissible ns req"
    and "zns_proc_nvme_io_cmd undef ns m req ret = Some (ok, ret', a, ops, m', ns')"
  shows "(if ok then (ret_status ret', zone_descs (zns_inst ns')) = zns_spec undef (zns_inst ns) req (ret_status ret)
          else zone_descs (zns_inst ns') = zone_descs (zns_inst ns)) \<and> zns_serving (zns_inst ns')"
  using zns_session_serving[OF assms(1-4)] zns_cmd_ok[of ns req undef m ret] assms(5,6)
  by (auto simp: prod_eq_iff)

lemma zns_io_refines_witness:
  "\<exists>ok ret' a ops m' ns'. zns_proc_nvme_io_cmd 0 demo_ns (\<lambda>_. 0) (demo_req nvme_cmd_write 0) demo_ret = Some (ok, ret', a, ops, m', ns') \<and>
    (if ok then (ret_status ret', zone_descs (zns_inst ns')) = zns_spec 0 demo (demo_req nvme_cmd_write 0) 0
     else zone_descs (zns_inst ns') = zone_descs demo) \<and> zns_serving (zns_inst ns')"
proof -
  have adm: "zns_admissible demo_ns (demo_req nvme_cmd_write 0)" by (simp add: demo_admissible)
  obtain ok ret' a ops m' ns' where r: "zns_proc_nvme_io_cmd 0 demo_ns (\<lambda>_. 0) (demo_req nvme_cmd_write 0) demo_ret = Some (ok, ret', a, ops, m', ns')"
    using zns_cmd_ok[OF demo_sel(3,1,2) adm, of 0 "\<lambda>_. 0" demo_ret] by blast
  from zns_io_refines[OF zns_session.start demo_sel(3,1,2) adm r] show ?thesis
    using r by (auto simp: demo_ret_def)
qed

text \<open>C20. In every reachable state the three counters of resources are the numbers of zones that are
  active, open, and active with a random write area, none above the number of zones, and every
  write pointer lies in its zone, before its end when the zone is active and at its start when it
  is empty.\<close>

theorem zns_zones_consistent:
  assumes "zns_session ns0 ns" "zns_serving (zns_inst ns0)" "zns_csi ns0 = NVME_CSI_ZNS" "zns_nr_parts ns0 = 1"
    and "i < unat (nr_zones (zp (zns_inst ns)))"
  shows "unat (acquired_cnt (res_infos (zns_inst ns) t)) = length (filter (holds t) (zone_descs (zns_inst ns))) \<and>
    acquired_cnt (res_infos (zns_inst ns) t) \<le> total_cnt (res_infos (zns_inst ns) t) \<and>
    (let d = zone_descs (zns_inst ns) ! i; L = zone_lbas (zns_inst ns) in
      unat (zslba d) = i * L \<and> zslba d \<le> zd_wp d \<and> unat (zd_wp d) \<le> (i + 1) * L \<and>
      (active (zd_state d) \<longrightarrow> unat (zd_wp d) < (i + 1) * L) \<and> (zd_state d = ZONE_STATE_EMPTY \<longrightarrow> zd_wp d = zslba d))"
proof -
  let ?z = "zns_inst ns"
  have inv: "zns_inv ?z" using zns_session_serving[OF assms(1-4)] zns_servingD(1) by simp
  note D = zns_invD[OF inv]
  have le: "held t (zone_descs ?z) \<le> unat (nr_zones (zp ?z))" using held_le[of t "zone_descs ?z"] D(3) by simp
  moreover have "unat (nr_zones (zp ?z)) < 2 ^ LENGTH(32)" by (rule unsigned_less)
  ultimately have u: "unat (of_nat (held t (zone_descs ?z)) :: u32) = held t (zone_descs ?z)" by (intro unat_of_nat_less) simp
  have "unat (acquired_cnt (res_infos ?z t)) = length (filter (holds t) (zone_descs ?z))"
    using D(5) u by (simp add: resources_ok_def held_def)
  moreover have "acquired_cnt (res_infos ?z t) \<le> total_cnt (res_infos ?z t)"
    using D(5) u le by (simp add: resources_ok_def word_le_nat_alt)
  ultimately show ?thesis
    using D(4)[OF assms(5)] by (simp add: zone_ok_def algebra_simps Let_def)
qed

lemma zns_zones_consistent_witness:
  "unat (acquired_cnt (res_infos demo OPEN_ZONE)) = length (filter (holds OPEN_ZONE) (zone_descs demo)) \<and>
   unat (zslba (zone_descs demo ! 3)) = 3 * zone_lbas demo"
  using zns_zones_consistent[OF zns_session.start demo_sel(3,1,2), of 3 OPEN_ZONE] demo_sel(4) by (simp add: Let_def)

text \<open>Whatever the host sends, a zone only makes transitions of the state machine, so no zone of
  a session becomes read-only or offline: those states, and the commands' branches for them, are
  never reached.\<close>

theorem zns_zone_transitions:
  assumes "zns_session ns0 ns" "zns_serving (zns_inst ns0)" "zns_csi ns0 = NVME_CSI_ZNS" "zns_nr_parts ns0 = 1"
    and "i < unat (nr_zones (zp (zns_inst ns0)))"
  shows "zone_path (zd_state (zone_descs (zns_inst ns0) ! i)) (zd_state (zone_descs (zns_inst ns) ! i)) \<and>
    zd_state (zone_descs (zns_inst ns) ! i) \<notin> {ZONE_STATE_READ_ONLY, ZONE_STATE_OFFLINE}"
proof -
  have p: "zone_path (zd_state (zone_descs (zns_inst ns0) ! i)) (zd_state (zone_descs (zns_inst ns) ! i))"
    by (rule zns_session_path[OF assms])
  have "zone_usable (zone_descs (zns_inst ns0) ! i)" by (rule zns_servingD(2)[OF assms(2,5)])
  then show ?thesis using p zone_path_usable[OF p] by (simp add: zone_usable_def)
qed

lemma zns_zone_transitions_witness:
  "\<exists>r. zns_proc_nvme_io_cmd 0 demo_ns (\<lambda>_. 0) (demo_req nvme_cmd_write 0) demo_ret = Some r \<and>
    zone_path ZONE_STATE_EMPTY (zd_state (zone_descs (zns_inst (snd (snd (snd (snd (snd r)))))) ! 0))"
proof -
  have adm: "zns_admissible demo_ns (demo_req nvme_cmd_write 0)" by (simp add: demo_admissible)
  obtain ok ret' a ops m' ns' where r: "zns_proc_nvme_io_cmd 0 demo_ns (\<lambda>_. 0) (demo_req nvme_cmd_write 0) demo_ret = Some (ok, ret', a, ops, m', ns')"
    using zns_cmd_ok[OF demo_sel(3,1,2) adm, of 0 "\<lambda>_. 0" demo_ret] by blast
  have "zns_session demo_ns ns'" by (rule zns_session.command[OF zns_session.start adm r])
  from zns_zone_transitions[OF this demo_sel(3,1,2), of 0] show ?thesis
    using r demo_sel(4) demo_desc0(1) by (intro exI[of _ "(ok, ret', a, ops, m', ns')"]) simp
qed

subsection \<open>Writes\<close>

text \<open>C21. Appends to a zone are sequential: an append that is accepted answers the address its data
  got, which is the write pointer before it, and leaves the write pointer right after its data,
  where the next append to the zone will go.\<close>

theorem zns_append_sequential:
  assumes "zns_serving z" "zone_in_range z (slba (req_cmd req))" "is_append req"
    and "cmd_buffer z (slba (req_cmd req)) = Some b" "LBA_TO_BYTE (zns_cmd_nr_lba (req_cmd req)) \<le> buf_size b"
    and "zns_write z req ret = Some (True, ret', req', ops, z')" "ret_status ret' = NVME_SC_SUCCESS"
  defines "i \<equiv> zone_of z (slba (req_cmd req))"
  shows "ret_result ret' = zd_wp (zone_descs z ! i) \<and>
    unat (zd_wp (zone_descs z' ! i)) = unat (ret_result ret') + (unat (rw_length (req_cmd req)) + 1) \<and>
    unat (zd_wp (zone_descs z' ! i)) \<le> (i + 1) * zone_lbas z \<and>
    (zd_state (zone_descs z' ! i) = ZONE_STATE_FULL \<longleftrightarrow> unat (zd_wp (zone_descs z' ! i)) = (i + 1) * zone_lbas z)"
proof -
  let ?k = "zns_cmd_nr_lba (req_cmd req)" and ?d = "zone_descs z ! i"
  let ?st = "write_status z ?d (write_lba ?d req) ?k"
  have inv: "zns_inv z" by (rule zns_servingD(1)[OF assms(1)])
  have n: "i < unat (nr_zones (zp z))" using assms(2) by (simp add: zone_in_range_def i_def)
  have len: "i < length (zone_descs z)" using n zns_invD(3)[OF inv] by simp
  from zns_write_ok[OF assms(1,2) refl assms(4,5) refl refl, of ret, folded i_def] assms(6)
  have w: "is_append req \<longrightarrow> ret_result ret' = zd_wp ?d" "ret_status ret' = ?st"
    "zone_descs z' = (if ?st = NVME_SC_SUCCESS then (zone_descs z)[i := written ?d ?k] else zone_descs z)" by auto
  have st: "?st = NVME_SC_SUCCESS" using w(2) assms(7) by simp
  have k: "0 < unat ?k" "unat ?k \<le> 65536" using nr_lba_facts(1,2)[of "req_cmd req"] by simp_all
  note f = write_fits[OF inv n refl st k]
  have d': "zone_descs z' ! i = written ?d ?k" using w(3) st len by simp
  have "zd_state (written ?d ?k) = ZONE_STATE_FULL \<longleftrightarrow> zd_wp ?d + ?k = zslba ?d + zone_capacity ?d"
    by (simp add: written_def write_state_def)
  then show ?thesis
    using w(1) assms(3) f d' nr_lba_facts(1)[of "req_cmd req"] by (simp add: written_def algebra_simps)
qed

lemma demo_append_run:
  "\<exists>ret' req' ops z'. zns_write demo (demo_rw nvme_cmd_zone_append 0) demo_ret = Some (True, ret', req', ops, z') \<and> ret_status ret' = NVME_SC_SUCCESS"
proof -
  obtain b where b: "cmd_buffer demo 0 = Some b" "remaining b = buf_size b" "unat (buf_size b) = 33554432" using demo_buffer by blast
  let ?r = "demo_rw nvme_cmd_zone_append 0"
  have s: "slba (req_cmd ?r) = 0" "zns_cmd_nr_lba (req_cmd ?r) = 256" using demo_len by (simp_all add: demo_rw_def) (simp add: demo_cmd_def)
  have le: "LBA_TO_BYTE 256 \<le> buf_size b" using b(3) by (simp add: demo_bytes word_le_nat_alt)
  have wl: "write_lba (zone_descs demo ! 0) ?r = 0" using demo_desc0(2) s(1) by (simp add: write_lba_def)
  from zns_write_ok[OF demo_sel(3), of ?r 256 b "zone_descs demo ! 0" NVME_SC_SUCCESS demo_ret] show ?thesis
    using s demo_zone0 b(1,2) le wl demo_status by auto
qed

lemma zns_append_sequential_witness:
  "\<exists>ret' req' ops z'. zns_write demo (demo_rw nvme_cmd_zone_append 0) demo_ret = Some (True, ret', req', ops, z') \<and>
    ret_result ret' = 0 \<and> unat (zd_wp (zone_descs z' ! 0)) = 256"
proof -
  obtain b where b: "cmd_buffer demo 0 = Some b" "unat (buf_size b) = 33554432" using demo_buffer by blast
  obtain ret' req' ops z' where r: "zns_write demo (demo_rw nvme_cmd_zone_append 0) demo_ret = Some (True, ret', req', ops, z')"
    "ret_status ret' = NVME_SC_SUCCESS" using demo_append_run by blast
  have s: "slba (req_cmd (demo_rw nvme_cmd_zone_append 0)) = 0" "rw_length (req_cmd (demo_rw nvme_cmd_zone_append 0)) = 255"
    "zns_cmd_nr_lba (req_cmd (demo_rw nvme_cmd_zone_append 0)) = 256" "is_append (demo_rw nvme_cmd_zone_append 0)"
    using demo_len by (simp_all add: demo_rw_def is_append_def) (simp_all add: demo_cmd_def)
  have le: "LBA_TO_BYTE 256 \<le> buf_size b" using b(2) by (simp add: demo_bytes word_le_nat_alt)
  from zns_append_sequential[OF demo_sel(3) _ s(4) _ _ r, of b] show ?thesis
    using r s demo_zone0 b(1) le demo_desc0(2) by auto
qed

text \<open>A write that ends with an error status changes no zone, but it keeps the buffer space it was
  given: nothing is scheduled to release it.\<close>

theorem zns_write_error_keeps_buffer:
  assumes "zns_serving z" "zone_in_range z (slba (req_cmd req))" "cmd_buffer z (slba (req_cmd req)) = Some b"
    and "LBA_TO_BYTE (zns_cmd_nr_lba (req_cmd req)) \<le> buf_size b" "LBA_TO_BYTE (zns_cmd_nr_lba (req_cmd req)) \<le> remaining b"
    and "d = zone_descs z ! zone_of z (slba (req_cmd req))"
    and "write_status z d (write_lba d req) (zns_cmd_nr_lba (req_cmd req)) \<noteq> NVME_SC_SUCCESS"
  shows "\<exists>ret' req' z'. zns_write z req ret = Some (True, ret', req', [], z') \<and>
    ret_status ret' = write_status z d (write_lba d req) (zns_cmd_nr_lba (req_cmd req)) \<and> zone_descs z' = zone_descs z \<and>
    cmd_buffer z' (slba (req_cmd req)) = Some (b\<lparr>remaining := remaining b - LBA_TO_BYTE (zns_cmd_nr_lba (req_cmd req))\<rparr>)"
  using zns_write_ok[OF assms(1,2) refl assms(3,4,6) refl, of ret] assms(5,7) by auto

text \<open>A write to the second unit of an empty zone is refused.\<close>

lemma zns_write_error_keeps_buffer_witness:
  "\<exists>b ret' req' z'. cmd_buffer demo 255 = Some b \<and>
    zns_write demo (demo_rw nvme_cmd_write 255) demo_ret = Some (True, ret', req', [], z') \<and>
    cmd_buffer z' 255 = Some (b\<lparr>remaining := remaining b - 131072\<rparr>)"
proof -
  have z255: "zone_in_range demo 255" using demo_zone0(3) demo_sel(4) by (simp add: zone_in_range_def)
  then obtain b where b: "cmd_buffer demo 255 = Some b" "remaining b = buf_size b" "unat (buf_size b) = 33554432"
    using demo_fresh by (fastforce simp: fresh_zns_def zns_prototype_def KB_def)
  let ?r = "demo_rw nvme_cmd_write 255"
  have s: "slba (req_cmd ?r) = 255" "zns_cmd_nr_lba (req_cmd ?r) = 256" "\<not> is_append ?r"
    using demo_len by (simp_all add: demo_rw_def is_append_def) (simp_all add: demo_cmd_def nvme_cmd_write_def nvme_cmd_zone_append_def)
  have le: "LBA_TO_BYTE 256 \<le> buf_size b" using b(3) by (simp add: demo_bytes word_le_nat_alt)
  have "write_status demo (zone_descs demo ! 0) 255 256 \<noteq> NVME_SC_SUCCESS"
    using demo_desc0(2) by (simp add: write_status_def)
  then show ?thesis
    using zns_write_error_keeps_buffer[OF demo_sel(3), of ?r b "zone_descs demo ! 0" demo_ret] z255 b s le demo_zone0(3)
    by (auto simp: write_lba_def demo_bytes)
qed

subsection \<open>Zone management\<close>

text \<open>C22. An action of zone management on one zone answers as the table of the state machine and what is left
  of the resources say. The state's entry in the table decides, and an opening is also refused, with the status of
  that resource, when an empty zone finds no active resource, open resource or random write area left, or a closed
  zone no open resource; a refusal changes nothing. Otherwise the zone takes the state of the table, no other
  descriptor changes, and each counter moves by what the zone holds after less what it held before. Nothing is
  assumed of the limits but that no count is above its limit. Under the invariant of the namespace, which the action
  keeps, no resource is ever used up and the table alone decides.\<close>

theorem zmgmt_send_table:
  assumes "i = zone_of z lba" "i < length (zone_descs z)" "d = zone_descs z ! i" "in_limits z"
    and "zd_state d = ZONE_STATE_EMPTY \<Longrightarrow> \<not> zrwav d" "zrwa_buffer_size (zp z) \<noteq> 0 \<Longrightarrow> i < length (zrwa_buffer z)"
  shows "\<exists>st z'. zmgmt_send undef z lba (op_action op) (op_option op) = Some (st, z') \<and>
    (case op_refusal op z (zd_state d) of
       Some e \<Rightarrow> st = e \<and> z' = z
     | None \<Rightarrow> st = NVME_SC_SUCCESS \<and> zone_next op (zd_state d) = Some (zd_state (zone_descs z' ! i)) \<and>
         (\<forall>j. j \<noteq> i \<longrightarrow> zone_descs z' ! j = zone_descs z ! j) \<and>
         (\<forall>t. acquired_cnt (res_infos z' t) = acquired_cnt (res_infos z t) + hold t (zone_descs z' ! i) - hold t d \<and>
              total_cnt (res_infos z' t) = total_cnt (res_infos z t))) \<and>
    (zns_inv z \<longrightarrow> zns_inv z' \<and> (op_refusal op z (zd_state d) = None \<longleftrightarrow> zone_next op (zd_state d) \<noteq> None))"
proof -
  define zid where "zid = lba_to_zone z lba"
  have zi: "i = unat zid" using assms(1) by (simp add: zone_of_def zid_def)
  note run = zmgmt_op_run[OF zid_def assms(2,3)[unfolded zi] assms(5,4,6)[unfolded zi], of undef op]
  have inv: "i < unat (nr_zones (zp z))" if "zns_inv z" using assms(2) zns_invD(3)[OF that] by simp
  show ?thesis
  proof (cases "op_refusal op z (zd_state d)")
    case (Some e)
    then show ?thesis using run op_refusal_inv[OF _ inv assms(3), of op] by auto
  next
    case None
    then obtain s where s: "zone_next op (zd_state d) = Some s" using op_refusal_next by blast
    have "zd_state (op_desc op d) = s" using s by (cases op) (auto split: if_splits)
    moreover have "zns_inv ((if op = Z_Reset then (\<lambda>z. reset_rest z zid) else id) (move_zone z (unat zid) (op_desc op d)))"
      if "zns_inv z"
      using op_move(1)[OF that inv[OF that, unfolded zi] assms(3)[unfolded zi] s] by simp
    ultimately show ?thesis using run None s assms(2,3) zi by (cases "op = Z_Reset") (auto simp: move_zone_def)
  qed
qed

text \<open>An empty zone is finished; it cannot be opened when every active resource is taken.\<close>

definition demo_used :: zns_ftl where
  "demo_used = demo\<lparr>res_infos := (\<lambda>t. (res_infos demo t)\<lparr>acquired_cnt := total_cnt (res_infos demo t)\<rparr>)\<rparr>"

lemma zmgmt_send_table_witness:
  "(\<exists>st z'. zmgmt_send 0 demo 0 ZSA_FINISH_ZONE False = Some (st, z') \<and> zd_state (zone_descs z' ! 0) = ZONE_STATE_FULL) \<and>
    zmgmt_send 0 demo_used 0 ZSA_OPEN_ZONE False = Some (NVME_SC_ZNS_NO_ACTIVE_ZONE, demo_used)"
proof -
  note inv = zns_servingD(1)[OF demo_sel(3)]
  have len: "0 < length (zone_descs demo)" using demo_zone0 zns_invD(3)[OF inv] by (simp add: zone_in_range_def)
  have b: "zrwa_buffer_size (zp demo) \<noteq> 0 \<Longrightarrow> 0 < length (zrwa_buffer demo)" using zns_invD(3,7)[OF inv] len by simp
  have nz: "\<not> zrwav (zone_descs demo ! 0)" using zns_invD(4)[OF inv, of 0] demo_desc0(1) len zns_invD(3)[OF inv] by (simp add: zone_ok_def)
  have z: "zone_of demo_used 0 = 0" "zone_descs demo_used = zone_descs demo" "zp demo_used = zp demo" "zrwa_buffer demo_used = zrwa_buffer demo"
    using demo_zone0(1) by (simp_all add: demo_used_def zone_of_def lba_to_zone_def)
  have lim: "in_limits demo_used" by (simp add: demo_used_def in_limits_def)
  have no: "resource_left demo_used ACTIVE_ZONE = 0" by (simp add: demo_used_def resource_left_def)
  show ?thesis
    using zmgmt_send_table[OF demo_zone0(1)[symmetric] len refl inv_limits[OF inv], of 0 Z_Finish] nz b demo_desc0(1)
      zmgmt_send_table[OF z(1)[symmetric] _ refl lim, of 0 "Z_Open False"] len z no
    by (auto simp: open_refusal_def active_def opened_def)
qed

text \<open>C23. A reset of a zone that is not read-only or offline empties it and puts its write pointer back
  to its start; it sets the bytes of that zone in the storage to 0 and no others.\<close>

theorem zns_reset_clears:
  assumes "zns_inv z" "zone_in_range z lba" "zd_state (zone_descs z ! i) \<notin> {ZONE_STATE_READ_ONLY, ZONE_STATE_OFFLINE}"
    and "i = zone_of z lba"
  shows "\<exists>z'. zmgmt_send undef z lba ZSA_RESET_ZONE opt = Some (NVME_SC_SUCCESS, z') \<and>
    zd_state (zone_descs z' ! i) = ZONE_STATE_EMPTY \<and> zd_wp (zone_descs z' ! i) = zslba (zone_descs z ! i) \<and>
    (\<forall>a. storage z' a = (if i * unat (zone_size (zp z)) \<le> a \<and> a < (i + 1) * unat (zone_size (zp z)) then 0 else storage z a))"
proof -
  define zid where "zid = lba_to_zone z lba"
  have zi: "i = unat zid" using assms(4) by (simp add: zone_of_def zid_def)
  have n: "unat zid < unat (nr_zones (zp z))" using assms(2,4) zi by (simp add: zone_in_range_def)
  have len: "unat zid < length (zone_descs z)" using n zns_invD(3)[OF assms(1)] by simp
  note g = geometryD[OF zns_invD(2)[OF assms(1)]]
  have "unat zid < 2 ^ LENGTH(32)" "unat (zone_size (zp z)) < 2 ^ LENGTH(32)" by (rule unsigned_less)+
  then have "unat zid * unat (zone_size (zp z)) < 2 ^ 32 * 2 ^ 32" by (intro mult_strict_mono) simp_all
  then have addr: "unat (get_storage_addr_from_zid z (ucast zid)) = i * unat (zone_size (zp z))"
    unfolding get_storage_addr_from_zid_def zi by (subst unat_mult_less) simp_all
  let ?d = "(zone_descs z ! unat zid)\<lparr>zd_state := ZONE_STATE_EMPTY, zd_wp := zslba (zone_descs z ! unat zid), zrwav := False\<rparr>"
  have "zmgmt_send undef z lba ZSA_RESET_ZONE opt = Some (NVME_SC_SUCCESS, reset_rest (move_zone z (unat zid) ?d) zid)"
    using reset_zone_at[OF len refl] zns_invD(7)[OF assms(1)] n assms(3) zi by (simp add: zmgmt_send_def zsa_defs zid_def[symmetric])
  moreover have "storage (reset_rest (move_zone z (unat zid) ?d) zid) a =
      (if i * unat (zone_size (zp z)) \<le> a \<and> a < (i + 1) * unat (zone_size (zp z)) then 0 else storage z a)" for a
    using addr by (simp add: reset_rest_def storage_clear_def get_storage_addr_from_zid_def algebra_simps)
  ultimately show ?thesis using len zi by simp
qed

lemma zns_reset_clears_witness:
  "\<exists>z'. zmgmt_send 0 demo 0 ZSA_RESET_ZONE False = Some (NVME_SC_SUCCESS, z') \<and> storage z' 0 = 0 \<and> storage z' 33554432 = storage demo 33554432"
  using zns_reset_clears[OF zns_servingD(1)[OF demo_sel(3)] demo_zone0(2) _ demo_zone0(1)[symmetric], of 0 False] demo_desc0(1) demo_sel(5)
  by fastforce

text \<open>C24. A report of zones that fits its transfer reaches the host byte for byte: what the host reads in
  its pages is the number of zones reported and, for each descriptor that the transfer covers,
  the descriptor of that zone.\<close>

theorem zns_report_roundtrip:
  assumes "zns_serving z" "check_zmgmt_rcv_option_supported z cmd" "recv_fits z cmd"
    and "8 \<le> unat (recv_bytes cmd)"
  shows "\<exists>ret' m' z'. zns_zmgmt_recv z m cmd start ret = Some (ret', m', z') \<and> ret_status ret' = NVME_SC_SUCCESS \<and>
    (let bytes = host_view m' (zmr_prp1 cmd) (zmr_prp2 cmd) (unat (recv_bytes cmd)) in
      unat (le_word (take 8 bytes)) = report_count z cmd \<and>
      (\<forall>j < report_count z cmd. 128 + 64 * j \<le> unat (recv_bytes cmd) \<longrightarrow>
         zd_of_bytes (take 64 (drop (64 + 64 * j) bytes)) = Some (zone_descs z ! (report_start z cmd + j))))"
proof -
  let ?len = "unat (recv_bytes cmd)"
  from zns_zmgmt_recv_ok[OF assms(1), of cmd m start ret] assms(2,3)
  obtain m' z' buf where r: "zns_zmgmt_recv z m cmd start ret =
      Some (ret\<lparr>nsecs_target := start, ret_status := NVME_SC_SUCCESS\<rparr>, m', z')"
    "length buf = length (report_buffer z)" "host_view m' (zmr_prp1 cmd) (zmr_prp2 cmd) ?len = take ?len buf"
    "take 8 buf = le_bytes 8 (nr_zone_to_report z cmd)"
    "\<forall>j < report_count z cmd. take 64 (drop (64 + 64 * j) buf) = zd_bytes (zone_descs z ! (report_start z cmd + j))"
    by auto
  have rng: "zone_in_range z (zmr_slba cmd)"
    using assms(2) by (auto simp: check_zmgmt_rcv_option_supported_def zone_in_range_def zone_of_def word_le_nat_alt split: if_splits)
  have ty: "zd_type (zone_descs z ! (report_start z cmd + j)) = 2" if "j < report_count z cmd" for j
    using report_count_le[OF rng] that zns_invD(4)[OF zns_servingD(1)[OF assms(1)], of "report_start z cmd + j"]
    by (simp add: zone_ok_def ZONE_TYPE_SEQ_WRITE_REQUIRED_def)
  have "take 8 (take ?len buf) = take 8 buf" using assms(4) by (simp add: min_def)
  then have "unat (le_word (take 8 (take ?len buf))) = report_count z cmd"
    by (simp add: r(4) le_word_bytes_8 report_count_def)
  moreover have "zd_of_bytes (take 64 (drop (64 + 64 * j) (take ?len buf))) = Some (zone_descs z ! (report_start z cmd + j))"
    if "j < report_count z cmd" "128 + 64 * j \<le> ?len" for j
  proof -
    have "take 64 (drop (64 + 64 * j) (take ?len buf)) = take 64 (drop (64 + 64 * j) buf)"
      using that(2) by (simp add: drop_take min_def)
    then show ?thesis using r(5) that(1) zd_roundtrip ty[OF that(1)] by simp
  qed
  ultimately show ?thesis using r(1,3) by (simp add: Let_def)
qed

definition demo_recv :: nvme_zone_mgmt_recv where
  "demo_recv = \<lparr>zmr_prp1 = 4096, zmr_prp2 = 8192, zmr_slba = 0, nr_dw = 79, zmr_dw13 = 0\<rparr>"

lemma demo_recv_fits: "check_zmgmt_rcv_option_supported demo demo_recv" "recv_fits demo demo_recv" "unat (recv_bytes demo_recv) = 320"
  "report_start demo demo_recv = 0" "report_count demo demo_recv = 4"
proof -
  show b: "unat (recv_bytes demo_recv) = 320" by (simp add: recv_bytes_def demo_recv_def)
  have s: "zmr_slba demo_recv = 0" "\<not> zra_specific_features demo_recv"
    by (simp_all add: demo_recv_def zra_specific_features_def)
  show "check_zmgmt_rcv_option_supported demo demo_recv"
    using demo_zone0(2) s(1)
    by (simp add: check_zmgmt_rcv_option_supported_def zone_in_range_def zone_of_def word_le_nat_alt)
      (simp add: demo_recv_def zra_def zra_specific_field_def)
  have "page_off (zmr_prp1 demo_recv) = 0" by (simp add: page_off_def PAGE_OFFSET_MASK_def demo_recv_def)
  then show "recv_fits demo demo_recv"
    using b zns_invD(8)[OF zns_servingD(1)[OF demo_sel(3)]] demo_sel(4)
    by (simp add: recv_fits_def prp_simple_def PAGE_SIZE_def SIZEOF_ZONE_REPORT_def SIZEOF_ZONE_DESCRIPTOR_def)
  show st: "report_start demo demo_recv = 0" using demo_zone0(1) s(1) by (simp add: report_start_def)
  show "report_count demo demo_recv = 4" using report_count_all[of demo demo_recv] demo_zone0(2) s st demo_sel(4) by simp
qed

lemma zns_report_roundtrip_witness:
  "\<exists>ret' m' z'. zns_zmgmt_recv demo (\<lambda>_. 0) demo_recv 0 (zns_base demo_ret) = Some (ret', m', z') \<and>
    zd_of_bytes (take 64 (drop 256 (host_view m' 4096 8192 320))) = Some (zone_descs demo ! 3)"
proof -
  have p: "zmr_prp1 demo_recv = 4096" "zmr_prp2 demo_recv = 8192" by (simp_all add: demo_recv_def)
  have "(8 :: nat) \<le> unat (recv_bytes demo_recv)" by (simp add: demo_recv_fits)
  from zns_report_roundtrip[OF demo_sel(3) demo_recv_fits(1,2) this, of "\<lambda>_. 0" 0 "zns_base demo_ret"]
  show ?thesis using demo_recv_fits(3-5) p by (auto simp: Let_def dest!: spec[of _ "3 :: nat"])
qed

subsection \<open>Initialisation\<close>

text \<open>Both configurations with zones initialise, for every capacity of whole zones below 2 TiB, a
  namespace that is in service, with all its zones empty and its write buffers free.\<close>

theorem zns_namespace_ready:
  assumes "cfg = zns_prototype \<or> cfg = wd_zn540" "0 < n" "n * ZONE_SIZE cfg < 2 ^ 41"
  shows "\<exists>ns. zns_init_namespace cfg junk mem rjunk clk mapped i (n * ZONE_SIZE cfg) = Some ns \<and> zns_serving (zns_inst ns) \<and>
    zns_csi ns = NVME_CSI_ZNS \<and> zns_nr_parts ns = 1 \<and> length (zone_descs (zns_inst ns)) = n \<and>
    (\<forall>d \<in> set (zone_descs (zns_inst ns)). zd_state d = ZONE_STATE_EMPTY) \<and>
    (\<forall>lba. zone_in_range (zns_inst ns) lba \<longrightarrow> (\<exists>b. cmd_buffer (zns_inst ns) lba = Some b \<and> remaining b = buf_size b))"
proof -
  have "\<exists>ns. zns_init_namespace cfg junk mem rjunk clk mapped i (n * ZONE_SIZE cfg) = Some ns \<and> fresh_zns cfg n ns"
    using assms(1)
  proof
    assume c: "cfg = zns_prototype"
    then have "n < 65536" using assms(3) by (simp add: zns_prototype_def MB_def)
    then show ?thesis using zns_init_prototype[OF assms(2)] c by simp
  next
    assume c: "cfg = wd_zn540"
    then have "n < 1024" using assms(3) by (simp add: wd_zn540_def GB_def)
    then show ?thesis using zns_init_zn540[OF assms(2)] c by simp
  qed
  then obtain ns where ns: "zns_init_namespace cfg junk mem rjunk clk mapped i (n * ZONE_SIZE cfg) = Some ns" "fresh_zns cfg n ns" by blast
  have "length (zone_descs (zns_inst ns)) = n"
    using ns(2) zns_invD(3)[OF zns_servingD(1), of "zns_inst ns"] by (simp add: fresh_zns_def)
  then show ?thesis using ns by (fastforce simp: fresh_zns_def)
qed

lemma zns_namespace_ready_witness:
  "\<exists>ns. zns_init_namespace wd_zn540 0 (\<lambda>_. 0) (\<lambda>_. 0) (\<lambda>_. 0) (\<lambda>_. 0) 1 (2 * ZONE_SIZE wd_zn540) = Some ns \<and>
    length (zone_descs (zns_inst ns)) = 2"
  using zns_namespace_ready[of wd_zn540 2 0 "\<lambda>_. 0" "\<lambda>_. 0" "\<lambda>_. 0" "\<lambda>_. 0" 1] by (auto simp: wd_zn540_def GB_def)

subsection \<open>Random write areas\<close>

text \<open>C25. On either configuration, none of which has random write areas, a host can open the first
  zone with one, and any explicit flush inside that zone then makes the kernel divide by 0.\<close>

theorem zrwa_flush_divides_by_zero:
  assumes "zns_inv z" "lbas_per_zrwa (zp z) = 0" "lbas_per_zrwafg (zp z) = 0"
    and "0 < unat (nr_zones (zp z))" "zd_state (zone_descs z ! 0) = ZONE_STATE_EMPTY" "unat lba < zone_lbas z"
  shows "\<exists>z'. zmgmt_send undef z 0 ZSA_OPEN_ZONE True = Some (NVME_SC_SUCCESS, z') \<and> zns_inv z' \<and>
    zmgmt_send undef z' lba ZSA_FLUSH_EXPL_ZRWA opt = None"
proof -
  note g = zns_invD(2)[OF assms(1)]
  have z0: "unat (lba_to_zone z l) = 0" if "unat l < zone_lbas z" for l
    using lba_to_zone_at[OF g, of 0 l] that assms(4) by simp
  then have zid: "lba_to_zone z 0 = 0" "lba_to_zone z lba = 0"
    using geometryD(6)[OF g] assms(6) by (simp_all add: word_unat_eq_iff)
  have n: "unat (0 :: u32) < unat (nr_zones (zp z))" using assms(4) by simp
  let ?old = "zone_descs z ! 0"
  let ?d = "op_desc (Z_Open True) ?old"
  have st: "zone_next (Z_Open True) (zd_state (zone_descs z ! unat (0 :: u32))) = Some ZONE_STATE_OPENED_EXPL"
    using assms(5) by (simp add: active_def opened_def)
  have ok: "zone_ok z 0 ?old" using zns_invD(4)[OF assms(1,4)] .
  let ?z = "move_zone z 0 ?d"
  have inv': "zns_inv ?z" using op_move(1)[OF assms(1) n refl st] by simp
  have run: "zmgmt_send undef z 0 ZSA_OPEN_ZONE True = Some (NVME_SC_SUCCESS, ?z)"
    using zmgmt_op_at[OF assms(1) zid(1)[symmetric] n refl, of undef "Z_Open True"] st by simp
  have len: "0 < length (zone_descs z)" using zns_invD(3)[OF assms(1)] assms(4) by simp
  have d: "zone_descs ?z ! 0 = ?d" using len by simp
  have wp: "zd_wp ?d = 0" "zrwav ?d" using ok assms(5) by (auto simp: zone_ok_def word_unat_eq_iff)
  have lz: "lba_to_zone ?z lba = 0" using zid(2) by (simp add: lba_to_zone_def)
  have gz: "get_zone ?z (ucast (0 :: u32)) = Some ?d" using get_zone_at[OF inv', of 0] d assms(4) by simp
  have ze: "unat (zone_to_slba ?z 0 + zone_capacity ?d) = zone_lbas z"
    using zone_end(1)[OF inv', of 0] d assms(4) by (simp add: zone_lbas_def)
  define e where "e = zone_to_slba ?z 0 + zone_capacity ?d"
  have "unat (e - 1) = zone_lbas z - 1" using ze geometryD(6)[OF g] unat_sub_of_nat[of 1 e] by (simp add: e_def)
  then have le: "lba \<le> e - 1" using assms(6) by (simp add: word_le_nat_alt)
  have top: "lba \<le> - 1" by simp
  define y where "y = ?z"
  define d1 where "d1 = ?d"
  have y: "lba_to_zone y lba = 0" "get_zone y 0 = Some d1" "zd_wp d1 = 0" "zrwav d1" "zp y = zp z"
    "zone_to_slba y 0 + zone_capacity d1 = e"
    using lz gz wp by (simp_all add: y_def d1_def e_def del: op_desc.simps)
  have "zmgmt_send_flush_explicit_zrwa y lba = None"
    using y le top assms(2,3) by (simp add: zmgmt_send_flush_explicit_zrwa_def nv_assert_def Let_def)
  then have "zmgmt_send_flush_explicit_zrwa ?z lba = None" by (simp only: y_def)
  then show ?thesis using run inv' by (simp add: zmgmt_send_def zsa_defs)
qed

lemma zrwa_flush_divides_by_zero_witness:
  "\<exists>z'. zmgmt_send 0 demo 0 ZSA_OPEN_ZONE True = Some (NVME_SC_SUCCESS, z') \<and> zmgmt_send 0 z' 5 ZSA_FLUSH_EXPL_ZRWA False = None"
  using zrwa_flush_divides_by_zero[OF zns_servingD(1)[OF demo_sel(3)] _ _ _ demo_desc0(1), of 5 0 False] demo_fresh demo_sel(4,6)
  by (auto simp: fresh_zns_def)

text \<open>When a write moves the pointer of a zone with a random write area to the end of the zone, the zone
  becomes full but its area is not given back: afterwards the counter of areas is one more than
  the number of zones that have one.\<close>

theorem zrwa_fill_leaks:
  assumes "zns_inv z" "unat (zid :: u32) < unat (nr_zones (zp z))" "d = zone_descs z ! unat zid" "opened (zd_state d)" "zrwav d"
    and "zd_wp d + ucast k = zslba d + zone_capacity d"
  shows "\<exists>z'. increase_write_ptr z zid k = Some z' \<and> zd_state (zone_descs z' ! unat zid) = ZONE_STATE_FULL \<and>
    acquired_cnt (res_infos z' ZRWA_ZONE) = of_nat (length (filter (holds ZRWA_ZONE) (zone_descs z'))) + 1 \<and>
    acquired_cnt (res_infos z' OPEN_ZONE) = of_nat (length (filter (holds OPEN_ZONE) (zone_descs z')))"
proof -
  have l: "unat zid < length (zone_descs z)" using assms(2) zns_invD(3)[OF assms(1)] by simp
  note g = get_zone_at[OF assms(1,2), folded assms(3)]
  have sl: "zone_to_slba z zid = zslba d" using zslba_of_zone[OF assms(1,2)] assms(3) by simp
  let ?d = "d\<lparr>zd_wp := zslba d + zone_capacity d, zd_state := ZONE_STATE_FULL\<rparr>"
  let ?ds = "(zone_descs z)[unat zid := ?d]"
  let ?z = "(add_acquired ACTIVE_ZONE (- 1) (add_acquired OPEN_ZONE (- 1) z))\<lparr>zone_descs := ?ds\<rparr>"
  have run: "increase_write_ptr z zid k = Some ?z"
    using g l sl assms(3,6)
    by (simp add: increase_write_ptr_def upd_zone_at change_zone_state_at release_zone_resource_def add_acquired_descs Let_def)
  have r: "acquired_cnt (res_infos z t) = of_nat (held t (zone_descs z))" for t
    using zns_invD(5)[OF assms(1)] by (simp add: resources_ok_def)
  have u: "(of_nat (held t ?ds) :: u32) = of_nat (held t (zone_descs z)) + hold t ?d - hold t d" for t
    using held_update[OF l] assms(3) by simp
  have h: "hold t ?d = 0" "hold ZRWA_ZONE d = 1" "hold OPEN_ZONE d = 1" for t
    using assms(4,5) hold_inactive[of ?d t] by (simp_all add: hold_def active_def opened_def)
  have "acquired_cnt (res_infos ?z ZRWA_ZONE) = of_nat (held ZRWA_ZONE ?ds) + 1"
    "acquired_cnt (res_infos ?z OPEN_ZONE) = of_nat (held OPEN_ZONE ?ds)"
    by (simp_all add: r u h)
  then show ?thesis using run l by (intro exI[of _ ?z]) (simp add: held_def)
qed

lemma zrwa_fill_leaks_witness:
  "\<exists>z z'. zmgmt_send 0 demo 0 ZSA_OPEN_ZONE True = Some (NVME_SC_SUCCESS, z) \<and> increase_write_ptr z 0 65536 = Some z' \<and>
    acquired_cnt (res_infos z' ZRWA_ZONE) = of_nat (length (filter (holds ZRWA_ZONE) (zone_descs z'))) + 1"
proof -
  note inv = zns_servingD(1)[OF demo_sel(3)]
  have n: "unat (0 :: u32) < unat (nr_zones (zp demo))" using demo_sel(4) by simp
  have zid: "0 = lba_to_zone demo 0" using demo_zone0(1) by (simp add: zone_of_def word_unat_eq_iff)
  have st: "zone_next (Z_Open True) (zd_state (zone_descs demo ! unat (0 :: u32))) = Some ZONE_STATE_OPENED_EXPL"
    using demo_desc0(1) by simp
  define d where "d = op_desc (Z_Open True) (zone_descs demo ! 0)"
  define z where "z = move_zone demo 0 d"
  have run: "zmgmt_send 0 demo 0 ZSA_OPEN_ZONE True = Some (NVME_SC_SUCCESS, z)"
    using zmgmt_op_at[OF inv zid n refl, of 0 "Z_Open True"] st by (simp add: z_def d_def)
  have zi: "zns_inv z" "zone_descs z ! 0 = d" "zp z = zp demo"
    using op_move(1)[OF inv n refl st] zns_invD(3)[OF inv] n by (simp_all add: z_def d_def del: op_desc.simps)
  have d: "opened (zd_state d)" "zrwav d" "zd_wp d = 0"
    using demo_desc0 by (simp_all add: d_def opened_def)
  have ok: "zone_ok z 0 d" using zns_invD(4)[OF zi(1), of 0] zi n by simp
  have "zone_lbas z = 65536" using demo_sel(6) zi(3) by (simp add: zone_lbas_def)
  then have "unat (zslba d) = 0" "unat (zone_capacity d) = 65536" using ok by (simp_all add: zone_ok_def)
  then have "zslba d = 0" "zone_capacity d = 65536" by (simp_all add: word_unat_eq_iff)
  then have "zd_wp d + ucast (65536 :: u32) = zslba d + zone_capacity d" using d(3) by simp
  from zrwa_fill_leaks[OF zi(1) _ _ d(1,2) this, of 0] show ?thesis
    using run zi n by auto
qed

end
