(* ===== verification/Kv_Alloc.thy ===== *)
theory Kv_Alloc
  imports Host_Memory
begin

text \<open>
  The allocators of the key-value store, \<^verbatim>\<open>append_only.c\<close> and \<^verbatim>\<open>bitmap.c\<close>, behind the function
  pointers of \<^verbatim>\<open>struct allocator_ops\<close>. The static variables of each file are its state. What the
  store needs of an allocator is a locale: a region it returns was not handed out before.
  Messages to the log are left out, and so is \<^verbatim>\<open>kill\<close>, which does nothing in both.
\<close>

record 's allocator_ops =
  op_init :: "u64 \<Rightarrow> 's \<Rightarrow> 's option"
  op_allocate :: "u64 \<Rightarrow> 's \<Rightarrow> (u64 \<times> 's) option"

subsection \<open>The append-only allocator\<close>

record append_only =
  ao_latest :: u64
  ao_dev_size :: u64
  ao_total_written :: u64

definition append_only_allocator_init :: "u64 \<Rightarrow> append_only \<Rightarrow> append_only option" where
  "append_only_allocator_init sz s = Some (s\<lparr>ao_dev_size := sz, ao_latest := 0, ao_total_written := 0\<rparr>)"

text \<open>Nothing stops it at the end of the device.\<close>

definition append_only_allocate :: "u64 \<Rightarrow> append_only \<Rightarrow> (u64 \<times> append_only) option" where
  "append_only_allocate len s =
     (let ret = ao_latest s in
      Some (ret, s\<lparr>ao_latest := ao_latest s + len, ao_total_written := ao_total_written s + len\<rparr>))"

definition append_only_ops :: "append_only allocator_ops" where
  "append_only_ops = \<lparr>op_init = append_only_allocator_init, op_allocate = append_only_allocate\<rparr>"

subsection \<open>The bitmap allocator\<close>

definition SMALL_LENGTH :: u64 where "SMALL_LENGTH = 1024"
definition LARGE_LENGTH :: u64 where "LARGE_LENGTH = 4096"

text \<open>The static arrays have 600000 and 300000 words of 64 bits.\<close>

definition SMALL_BITS :: nat where "SMALL_BITS = 64 * 600000"
definition LARGE_BITS :: nat where "LARGE_BITS = 64 * 300000"

record bitmap_area =
  ba_nbits :: u64
  ba_bits :: "nat \<Rightarrow> bool"
  ba_last_pos :: u64
  ba_capacity :: u64

record bitmap_state =
  bm_small :: bitmap_area
  bm_large :: bitmap_area
  bm_dev_size :: u64
  bm_total_written :: u64

text \<open>
  \<^verbatim>\<open>bitmap_zero\<close> clears whole words. The position of the last allocation and the number of
  allocations are not reset.
\<close>

definition bits_zero :: "nat \<Rightarrow> u64 \<Rightarrow> bitmap_area \<Rightarrow> bitmap_area option" where
  "bits_zero cap n a = do {
     nv_assert ((unat n + 63) div 64 * 64 \<le> cap);
     Some (a\<lparr>ba_nbits := n, ba_bits := (\<lambda>i. if i < (unat n + 63) div 64 * 64 then False else ba_bits a i)\<rparr>)
   }"

definition bitmap_allocator_init :: "u64 \<Rightarrow> bitmap_state \<Rightarrow> bitmap_state option" where
  "bitmap_allocator_init sz s = do {
     small \<leftarrow> bits_zero SMALL_BITS (sz div 2 div SMALL_LENGTH) (bm_small s);
     large \<leftarrow> bits_zero LARGE_BITS (sz div 2 div LARGE_LENGTH) (bm_large s);
     Some (s\<lparr>bm_dev_size := sz, bm_small := small, bm_large := large\<rparr>)
   }"

text \<open>
  \<open>fz\<close> is the kernel's \<^verbatim>\<open>bitmap_find_next_zero_area\<close> for areas of one bit: its arguments are the
  bits, their number and the position to start from. Its result is used unchecked.
\<close>

definition area_take :: "nat \<Rightarrow> ((nat \<Rightarrow> bool) \<Rightarrow> nat \<Rightarrow> nat \<Rightarrow> nat) \<Rightarrow> bitmap_area \<Rightarrow> (u64 \<times> bitmap_area) option" where
  "area_take cap fz a = do {
     let off = fz (ba_bits a) (unat (ba_nbits a)) (unat (ba_last_pos a));
     nv_assert (off < cap);
     let last_pos = of_nat off + 1;
     Some (of_nat off, a\<lparr>ba_bits := (ba_bits a)(off := True),
       ba_last_pos := (if last_pos > ba_nbits a then 0 else last_pos), ba_capacity := ba_capacity a + 1\<rparr>)
   }"

definition bitmap_allocate :: "((nat \<Rightarrow> bool) \<Rightarrow> nat \<Rightarrow> nat \<Rightarrow> nat) \<Rightarrow> u64 \<Rightarrow> bitmap_state \<Rightarrow> (u64 \<times> bitmap_state) option" where
  "bitmap_allocate fz len s = do {
     let s = s\<lparr>bm_total_written := bm_total_written s + len\<rparr>;
     if len > SMALL_LENGTH then do {
       (off, a) \<leftarrow> area_take LARGE_BITS fz (bm_large s);
       Some (bm_dev_size s div 2 + off * LARGE_LENGTH, s\<lparr>bm_large := a\<rparr>)
     } else do {
       (off, a) \<leftarrow> area_take SMALL_BITS fz (bm_small s);
       Some (off * SMALL_LENGTH, s\<lparr>bm_small := a\<rparr>)
     }
   }"

definition bitmap_ops :: "((nat \<Rightarrow> bool) \<Rightarrow> nat \<Rightarrow> nat \<Rightarrow> nat) \<Rightarrow> bitmap_state allocator_ops" where
  "bitmap_ops fz = \<lparr>op_init = bitmap_allocator_init, op_allocate = bitmap_allocate fz\<rparr>"

subsection \<open>The contract\<close>

text \<open>
  \<open>taken s\<close> is the set of addresses handed out so far and \<open>room s n\<close> says that \<open>n\<close> bytes are
  left: then the allocator returns \<open>n\<close> addresses below the size of the device that are not taken.
\<close>

definition region :: "u64 \<Rightarrow> u64 \<Rightarrow> nat set" where
  "region off n = {unat off..<unat off + unat n}"

locale kv_allocator =
  fixes ops :: "'s allocator_ops"
    and taken :: "'s \<Rightarrow> nat set"
    and room :: "'s \<Rightarrow> u64 \<Rightarrow> bool"
    and dev_size :: "'s \<Rightarrow> u64"
  assumes alloc_room: "room s n \<Longrightarrow> \<exists>off s'. op_allocate ops n s = Some (off, s') \<and> off < dev_size s \<and>
      unat off + unat n \<le> unat (dev_size s) \<and> region off n \<inter> taken s = {} \<and>
      region off n \<union> taken s \<subseteq> taken s' \<and> dev_size s' = dev_size s"
begin

text \<open>What the store uses: the new region is apart from any region inside the taken addresses.\<close>

lemma alloc_apart:
  assumes "room s n" "op_allocate ops n s = Some (off, s')" "region o1 n1 \<subseteq> taken s"
  shows "region off n \<inter> region o1 n1 = {}"
  using alloc_room[OF assms(1)] assms(2,3) by fastforce

lemma alloc_within:
  assumes "room s n" "op_allocate ops n s = Some (off, s')"
  shows "off < dev_size s" "unat off + unat n \<le> unat (dev_size s)" "region off n \<subseteq> taken s'" "taken s \<subseteq> taken s'"
    "dev_size s' = dev_size s"
  using alloc_room[OF assms(1)] assms(2) by fastforce+

end

definition ao_taken :: "append_only \<Rightarrow> nat set" where
  "ao_taken s = {0..<unat (ao_latest s)}"

definition ao_room :: "append_only \<Rightarrow> u64 \<Rightarrow> bool" where
  "ao_room s n \<longleftrightarrow> unat (ao_latest s) + unat n \<le> unat (ao_dev_size s) \<and> ao_latest s < ao_dev_size s"

interpretation ao: kv_allocator append_only_ops ao_taken ao_room ao_dev_size
proof
  fix s n
  assume r: "ao_room s n"
  have "unat (ao_dev_size s) < 2 ^ LENGTH(64)" by (rule unsigned_less)
  then have "unat (ao_latest s + n) = unat (ao_latest s) + unat n"
    using r by (intro unat_add_less) (simp add: ao_room_def)
  then show "\<exists>off s'. op_allocate append_only_ops n s = Some (off, s') \<and> off < ao_dev_size s \<and>
      unat off + unat n \<le> unat (ao_dev_size s) \<and> region off n \<inter> ao_taken s = {} \<and>
      region off n \<union> ao_taken s \<subseteq> ao_taken s' \<and> ao_dev_size s' = ao_dev_size s"
    using r by (simp add: append_only_ops_def append_only_allocate_def Let_def ao_room_def ao_taken_def region_def)
qed

text \<open>The documented behaviour of the kernel's search, when there is a zero bit to fz.\<close>

definition finds_zero :: "((nat \<Rightarrow> bool) \<Rightarrow> nat \<Rightarrow> nat \<Rightarrow> nat) \<Rightarrow> bool" where
  "finds_zero fz \<longleftrightarrow> (\<forall>bits n p. (\<exists>i. p \<le> i \<and> i < n \<and> \<not> bits i) \<longrightarrow>
     p \<le> fz bits n p \<and> fz bits n p < n \<and> \<not> bits (fz bits n p))"

definition bm_taken :: "bitmap_state \<Rightarrow> nat set" where
  "bm_taken s = (\<Union>i \<in> {i. ba_bits (bm_small s) i \<and> i < unat (ba_nbits (bm_small s))}. {i * 1024..<(i + 1) * 1024}) \<union>
     (\<Union>i \<in> {i. ba_bits (bm_large s) i \<and> i < unat (ba_nbits (bm_large s))}.
        {unat (bm_dev_size s) div 2 + i * 4096..<unat (bm_dev_size s) div 2 + (i + 1) * 4096})"

definition area_room :: "bitmap_area \<Rightarrow> bool" where
  "area_room a \<longleftrightarrow> (\<exists>i. unat (ba_last_pos a) \<le> i \<and> i < unat (ba_nbits a) \<and> \<not> ba_bits a i)"

definition bm_room :: "((nat \<Rightarrow> bool) \<Rightarrow> nat \<Rightarrow> nat \<Rightarrow> nat) \<Rightarrow> bitmap_state \<Rightarrow> u64 \<Rightarrow> bool" where
  "bm_room fz s n \<longleftrightarrow> finds_zero fz \<and> n \<le> LARGE_LENGTH \<and>
     ba_nbits (bm_small s) = bm_dev_size s div 2 div SMALL_LENGTH \<and> unat (ba_nbits (bm_small s)) \<le> SMALL_BITS \<and>
     ba_nbits (bm_large s) = bm_dev_size s div 2 div LARGE_LENGTH \<and> unat (ba_nbits (bm_large s)) \<le> LARGE_BITS \<and>
     area_room (if n > SMALL_LENGTH then bm_large s else bm_small s)"

lemma area_take_room:
  assumes "finds_zero fz" "area_room a" "unat (ba_nbits a) \<le> cap"
  obtains off a' where "area_take cap fz a = Some (of_nat off, a')" "off < unat (ba_nbits a)" "\<not> ba_bits a off"
    "ba_bits a' = (ba_bits a)(off := True)" "ba_nbits a' = ba_nbits a"
proof -
  let ?off = "fz (ba_bits a) (unat (ba_nbits a)) (unat (ba_last_pos a))"
  have "?off < unat (ba_nbits a)" "\<not> ba_bits a ?off"
    using assms(1,2) unfolding finds_zero_def area_room_def by blast+
  moreover define a' where "a' = a\<lparr>ba_bits := (ba_bits a)(?off := True),
       ba_last_pos := (if of_nat ?off + 1 > ba_nbits a then 0 else of_nat ?off + 1), ba_capacity := ba_capacity a + 1\<rparr>"
  ultimately have "area_take cap fz a = Some (of_nat ?off, a')" using assms(3) by (simp add: area_take_def Let_def)
  then show ?thesis using \<open>?off < unat (ba_nbits a)\<close> \<open>\<not> ba_bits a ?off\<close>
    by (rule that) (simp_all add: a'_def)
qed

lemma slot_in_half:
  assumes "i < d div c" shows "(i + 1) * c \<le> (d :: nat)"
proof -
  have "(i + 1) * c \<le> d div c * c" by (rule mult_le_mono1) (use assms in simp)
  also have "\<dots> \<le> d" by simp
  finally show ?thesis .
qed

lemma in_upper_half: "(i + 1) * c \<le> h \<Longrightarrow> n \<le> c \<Longrightarrow> 0 < c \<Longrightarrow> 2 * h \<le> d \<Longrightarrow> h + i * c < d \<and> h + i * c + n \<le> (d :: nat)"
  by simp

lemma slots_disjoint: "i \<noteq> j \<Longrightarrow> {a + i * c..<a + (i + 1) * c} \<inter> {a + j * c..<a + (j + 1) * c} = ({} :: nat set)"
proof -
  assume "i \<noteq> j"
  then have "(i + 1) * c \<le> j * c \<or> (j + 1) * c \<le> i * c"
    by (metis Suc_eq_plus1 linorder_neqE_nat Suc_leI mult_le_mono1)
  then show ?thesis by auto
qed

lemma slot_apart: "R \<subseteq> {a + i * c..<a + (i + 1) * c} \<Longrightarrow> i \<noteq> j \<Longrightarrow> R \<inter> {a + j * c..<a + (j + 1) * c} = ({} :: nat set)"
  using slots_disjoint[of i j a c] by blast

lemma slot_apart0: "R \<subseteq> {i * c..<(i + 1) * c} \<Longrightarrow> i \<noteq> j \<Longrightarrow> R \<inter> {j * c..<(j + 1) * c} = ({} :: nat set)"
  using slot_apart[of R 0 i c j] by simp

interpretation bm: kv_allocator "bitmap_ops fz" bm_taken "bm_room fz" bm_dev_size for fz
proof
  fix s n
  assume r: "bm_room fz s n"
  let ?d = "unat (bm_dev_size s)" and ?sm = "bm_small s" and ?la = "bm_large s"
  have lt: "?d < 2 ^ LENGTH(64)" by (rule unsigned_less)
  have ns: "unat (ba_nbits ?sm) = ?d div 2 div 1024" "unat (ba_nbits ?la) = ?d div 2 div 4096"
    using r by (simp_all add: bm_room_def SMALL_LENGTH_def LARGE_LENGTH_def unat_div)
  have half2: "2 * (?d div 2) \<le> ?d" by simp
  have half: "unat (bm_dev_size s div 2) = ?d div 2" by (simp add: unat_div)
  show "\<exists>off s'. op_allocate (bitmap_ops fz) n s = Some (off, s') \<and> off < bm_dev_size s \<and>
      unat off + unat n \<le> unat (bm_dev_size s) \<and> region off n \<inter> bm_taken s = {} \<and>
      region off n \<union> bm_taken s \<subseteq> bm_taken s' \<and> bm_dev_size s' = bm_dev_size s"
  proof (cases "n > SMALL_LENGTH")
    case True
    have h: "finds_zero fz" "area_room ?la" "unat (ba_nbits ?la) \<le> LARGE_BITS" using r True by (auto simp: bm_room_def)
    obtain off a' where a: "area_take LARGE_BITS fz ?la = Some (of_nat off, a')" "off < unat (ba_nbits ?la)"
      "\<not> ba_bits ?la off" "ba_bits a' = (ba_bits ?la)(off := True)" "ba_nbits a' = ba_nbits ?la"
      by (rule area_take_room[OF h])
    let ?s = "s\<lparr>bm_total_written := bm_total_written s + n, bm_large := a'\<rparr>" and ?o = "bm_dev_size s div 2 + of_nat off * LARGE_LENGTH"
    have n: "unat n \<le> 4096" using r by (simp add: bm_room_def LARGE_LENGTH_def word_le_nat_alt)
    have e: "(off + 1) * 4096 \<le> ?d div 2" by (rule slot_in_half) (use a(2) ns in simp)
    have off: "unat (of_nat off :: u64) = off" by (rule unat_of_nat_less) (use e lt in simp)
    have "unat (of_nat off * LARGE_LENGTH) = off * 4096" unfolding LARGE_LENGTH_def
      using unat_mult_less[of "of_nat off :: u64" 4096] off e lt by simp
    then have o: "unat ?o = ?d div 2 + off * 4096" using unat_add_less[of "bm_dev_size s div 2" "of_nat off * LARGE_LENGTH"] half e lt by simp
    have reg: "region ?o n \<subseteq> {?d div 2 + off * 4096..<?d div 2 + (off + 1) * 4096}" using o n by (auto simp: region_def)
    have small: "{i * 1024..<(i + 1) * 1024} \<subseteq> {..<?d div 2}" if "i < unat (ba_nbits ?sm)" for i
      using slot_in_half[of i "?d div 2" 1024] that ns by auto
    have "region ?o n \<inter> bm_taken s = {}"
    proof -
      have "region ?o n \<inter> {i * 1024..<(i + 1) * 1024} = {}" if "i < unat (ba_nbits ?sm)" for i
        using small[OF that] reg by fastforce
      moreover have "region ?o n \<inter> {?d div 2 + i * 4096..<?d div 2 + (i + 1) * 4096} = {}" if "ba_bits ?la i" for i
        by (rule slot_apart[OF reg]) (use a(3) that in auto)
      ultimately show ?thesis by (fastforce simp: bm_taken_def)
    qed
    moreover have "region ?o n \<union> bm_taken s \<subseteq> bm_taken ?s"
      using reg a(2,4,5) by (auto simp: bm_taken_def)
    moreover have "unat ?o < ?d \<and> unat ?o + unat n \<le> ?d" unfolding o by (rule in_upper_half[OF e n _ half2]) simp
    ultimately show ?thesis
      using a(1) True by (auto simp: bitmap_ops_def bitmap_allocate_def Let_def word_less_nat_alt)
  next
    case False
    have h: "finds_zero fz" "area_room ?sm" "unat (ba_nbits ?sm) \<le> SMALL_BITS" using r False by (auto simp: bm_room_def)
    obtain off a' where a: "area_take SMALL_BITS fz ?sm = Some (of_nat off, a')" "off < unat (ba_nbits ?sm)"
      "\<not> ba_bits ?sm off" "ba_bits a' = (ba_bits ?sm)(off := True)" "ba_nbits a' = ba_nbits ?sm"
      by (rule area_take_room[OF h])
    let ?s = "s\<lparr>bm_total_written := bm_total_written s + n, bm_small := a'\<rparr>" and ?o = "of_nat off * SMALL_LENGTH"
    have n: "unat n \<le> 1024" using False by (simp add: SMALL_LENGTH_def word_less_nat_alt)
    have e: "(off + 1) * 1024 \<le> ?d div 2" by (rule slot_in_half) (use a(2) ns in simp)
    have off: "unat (of_nat off :: u64) = off" by (rule unat_of_nat_less) (use e lt in simp)
    have o: "unat ?o = off * 1024" unfolding SMALL_LENGTH_def
      using unat_mult_less[of "of_nat off :: u64" 1024] off e lt by simp
    have reg: "region ?o n \<subseteq> {off * 1024..<(off + 1) * 1024}" using o n by (auto simp: region_def)
    have "region ?o n \<inter> bm_taken s = {}"
    proof -
      have "region ?o n \<inter> {i * 1024..<(i + 1) * 1024} = {}" if "ba_bits ?sm i" for i
        by (rule slot_apart0[OF reg]) (use a(3) that in auto)
      moreover have "region ?o n \<inter> {?d div 2 + i * 4096..<?d div 2 + (i + 1) * 4096} = {}" for i
        using reg e by fastforce
      ultimately show ?thesis by (fastforce simp: bm_taken_def)
    qed
    moreover have "region ?o n \<union> bm_taken s \<subseteq> bm_taken ?s"
      using reg a(2,4,5) by (auto simp: bm_taken_def)
    moreover have "unat ?o < ?d \<and> unat ?o + unat n \<le> ?d" unfolding o using in_upper_half[OF e n _ half2] by simp
    ultimately show ?thesis
      using a(1) False by (auto simp: bitmap_ops_def bitmap_allocate_def Let_def word_less_nat_alt)
  qed
qed

end
