(* ===== verification/Kv_Table.thy ===== *)
theory Kv_Table
  imports Kv_Alloc
begin

unbundle bit_operations_syntax

text \<open>
  The table of the key-value store, the first half of \<^verbatim>\<open>kv_ftl.c\<close>: an array of entries, a hash
  that gives the slot where a key is looked for first, and the chain of slots where keys that
  found their slot occupied were put. The value \<open>- 1\<close> marks a free entry and the end of a chain.
  A chain that runs in a circle is followed for ever, and so is the search for a free entry in a
  table that has none: then the operation is \<open>None\<close>.
\<close>

subsection \<open>State\<close>

record mapping_entry =
  me_key :: "u8 list"
  me_offset :: u64
  me_length :: u64
  me_next :: u32

text \<open>An iterator handle is a null pointer, a context, or whatever was in memory.\<close>

record kv_iter_context =
  it_prefix :: u32
  it_bitmask :: u32
  it_buf :: "nat \<Rightarrow> u8"
  it_current_pos :: u64

datatype iter_handle = No_Iter | Iter kv_iter_context | Wild

text \<open>
  The table and the handles of \<^verbatim>\<open>struct kv_ftl\<close>, the static variables of its allocator, and of
  the device the mapped storage and its size.
\<close>

record 's kv_ftl =
  kv_mapping_table :: "mapping_entry list"
  hash_slots :: u64
  allocator_ops :: "'s allocator_ops"
  iter_handles :: "iter_handle list"
  alloc_state :: 's
  kv_storage :: "nat \<Rightarrow> u8"
  kv_storage_size :: u64

definition KEY_SIZE :: nat where "KEY_SIZE = 18"

text \<open>The entry that \<^verbatim>\<open>memset\<close> of all ones leaves.\<close>

definition erased_entry :: mapping_entry where
  "erased_entry = \<lparr>me_key = replicate KEY_SIZE (- 1), me_offset = - 1, me_length = - 1, me_next = - 1\<rparr>"

subsection \<open>Hash and chains\<close>

definition hash_function :: "u8 list \<Rightarrow> u32" where
  "hash_function key = foldl (\<lambda>h c. (h * 16777619) XOR ucast c) 2166136261 key"

definition get_hash_slot :: "'s kv_ftl \<Rightarrow> u8 list \<Rightarrow> nat \<Rightarrow> u32 option" where
  "get_hash_slot c key len = do {
     nv_assert (len \<le> length key \<and> hash_slots c \<noteq> 0);
     Some (ucast ((ucast (hash_function (take len key)) :: u64) mod hash_slots c))
   }"

definition chain_mapping :: "mapping_entry list \<Rightarrow> u32 \<Rightarrow> u32 \<Rightarrow> mapping_entry list option" where
  "chain_mapping t prev slot = amod t (unat prev) (\<lambda>e. Some (e\<lparr>me_next := slot\<rparr>))"

text \<open>The two loops of \<^verbatim>\<open>find_next_slot\<close>: to the tail of the chain, and on to a free entry.\<close>

partial_function (option) find_tail :: "mapping_entry list \<Rightarrow> u32 \<Rightarrow> u32 \<Rightarrow> u32 option" where
  "find_tail t prevs tail = do {
     e \<leftarrow> aget t (unat tail);
     if me_offset e = - 1 then Some prevs
     else if me_next e = - 1 then Some tail
     else find_tail t tail (me_next e)
   }"

text \<open>A turn of the second loop reads one slot: it is the one that is looked for, or the loop goes on with the next,
  from the last to the first.\<close>

definition free_turn :: "mapping_entry list \<Rightarrow> u64 \<Rightarrow> u32 \<Rightarrow> (u32 + u32) option" where
  "free_turn t slots slot = do {
     e \<leftarrow> aget t (unat slot);
     Some (if me_offset e = - 1 then Inl slot else Inr (if ucast (slot + 1) \<ge> slots then 0 else slot + 1))
   }"

partial_function (option) find_free :: "mapping_entry list \<Rightarrow> u64 \<Rightarrow> u32 \<Rightarrow> u32 option" where
  "find_free t slots slot = do {
     r \<leftarrow> free_turn t slots slot;
     case r of
       Inl slot \<Rightarrow> Some slot
     | Inr slot \<Rightarrow> find_free t slots slot
   }"

text \<open>The loop after \<open>n\<close> turns: it has ended with \<open>Inl\<close>, or is about to read the slot of \<open>Inr\<close>.\<close>

fun free_turns :: "mapping_entry list \<Rightarrow> u64 \<Rightarrow> nat \<Rightarrow> u32 \<Rightarrow> (u32 + u32) option" where
  "free_turns t slots 0 slot = Some (Inr slot)"
| "free_turns t slots (Suc n) slot = do {
     r \<leftarrow> free_turn t slots slot;
     case r of
       Inl slot \<Rightarrow> Some (Inl slot)
     | Inr slot \<Rightarrow> free_turns t slots n slot
   }"

text \<open>The new slot and the one to chain it to.\<close>

definition find_next_slot :: "'s kv_ftl \<Rightarrow> u32 \<Rightarrow> (u32 \<times> u32) option" where
  "find_next_slot c original = do {
     prevs \<leftarrow> find_tail (kv_mapping_table c) (- 1) original;
     slot \<leftarrow> find_free (kv_mapping_table c) (hash_slots c) prevs;
     Some (slot, prevs)
   }"

subsection \<open>Insert\<close>

text \<open>A copy of a key past the end of an array is \<open>None\<close>.\<close>

definition new_mapping_entry_by_key :: "'s kv_ftl \<Rightarrow> u8 list \<Rightarrow> nat \<Rightarrow> u64 \<Rightarrow> u64 \<Rightarrow> 's kv_ftl option" where
  "new_mapping_entry_by_key c key len val_len val_offset = do {
     nv_assert (\<not> val_offset \<ge> kv_storage_size c);
     slot \<leftarrow> get_hash_slot c key len;
     e \<leftarrow> aget (kv_mapping_table c) (unat slot);
     (slot, prev) \<leftarrow> (if me_offset e \<noteq> - 1 then find_next_slot c slot else Some (slot, - 1));
     nv_assert (len \<le> KEY_SIZE);
     t \<leftarrow> amod (kv_mapping_table c) (unat slot) (\<lambda>e.
       Some (e\<lparr>me_key := take len key @ drop len (me_key e), me_offset := val_offset, me_length := val_len\<rparr>));
     t \<leftarrow> (if prev \<noteq> - 1 then chain_mapping t prev slot else Some t);
     Some (c\<lparr>kv_mapping_table := t\<rparr>)
   }"

subsection \<open>Look-up, update, delete\<close>

text \<open>
  The loop that all of them have: along the chain, \<^verbatim>\<open>memcmp\<close> of the bytes of the key with the
  first bytes of the entry's. \<open>Some None\<close> is a key that was not found.
\<close>

partial_function (option) search_chain :: "mapping_entry list \<Rightarrow> u8 list \<Rightarrow> u32 \<Rightarrow> u32 option option" where
  "search_chain t key slot = do {
     e \<leftarrow> aget t (unat slot);
     if me_offset e = - 1 then Some None
     else do {
       nv_assert (length key \<le> length (me_key e));
       if key = take (length key) (me_key e) then Some (Some slot)
       else if me_next e = - 1 then Some None
       else search_chain t key (me_next e)
     }
   }"

definition find_key :: "'s kv_ftl \<Rightarrow> u8 list \<Rightarrow> nat \<Rightarrow> u32 option option" where
  "find_key c key len = do {
     slot \<leftarrow> get_hash_slot c key len;
     search_chain (kv_mapping_table c) (take len key) slot
   }"

definition get_mapping_entry_by_key :: "'s kv_ftl \<Rightarrow> u8 list \<Rightarrow> nat \<Rightarrow> mapping_entry option" where
  "get_mapping_entry_by_key c key len = do {
     r \<leftarrow> find_key c key len;
     case r of
       None \<Rightarrow> Some erased_entry
     | Some slot \<Rightarrow> do {
         e \<leftarrow> aget (kv_mapping_table c) (unat slot);
         Some (e\<lparr>me_key := take len (me_key e) @ drop len (me_key erased_entry)\<rparr>)
       }
   }"

subsection \<open>Commands\<close>

text \<open>
  The fields of \<^verbatim>\<open>struct nvme_kv_command\<close>, a union whose members lay the same bytes out for each
  command: the handle of an iterator is where the length of the key is, and its prefix and bit
  mask are the first bytes of the key.
\<close>

record nvme_kv_command =
  kv_opcode :: nat
  kv_prp1 :: u64
  kv_prp2 :: u64
  kv_value_len :: u32
  kv_key_len :: u8
  kv_option :: u8
  kv_rsvd4 :: u8
  kv_key :: "u8 list"

definition nvme_cmd_kv_store :: nat where "nvme_cmd_kv_store = 0x81"
definition nvme_cmd_kv_append :: nat where "nvme_cmd_kv_append = 0x83"
definition nvme_cmd_kv_batch :: nat where "nvme_cmd_kv_batch = 0x85"
definition nvme_cmd_kv_retrieve :: nat where "nvme_cmd_kv_retrieve = 0x90"
definition nvme_cmd_kv_delete :: nat where "nvme_cmd_kv_delete = 0xA1"
definition nvme_cmd_kv_iter_req :: nat where "nvme_cmd_kv_iter_req = 0xB1"
definition nvme_cmd_kv_iter_read :: nat where "nvme_cmd_kv_iter_read = 0xB2"
definition nvme_cmd_kv_exist :: nat where "nvme_cmd_kv_exist = 0xB3"

lemmas kv_opcodes = nvme_cmd_kv_store_def nvme_cmd_kv_append_def nvme_cmd_kv_batch_def nvme_cmd_kv_retrieve_def
  nvme_cmd_kv_delete_def nvme_cmd_kv_iter_req_def nvme_cmd_kv_iter_read_def nvme_cmd_kv_exist_def

definition cmd_key_length :: "nvme_kv_command \<Rightarrow> nat" where
  "cmd_key_length cmd = unat (kv_key_len cmd) + 1"

definition cmd_value_length :: "nvme_kv_command \<Rightarrow> u32" where
  "cmd_value_length cmd = push_bit 2 (kv_value_len cmd)"

definition new_mapping_entry :: "'s kv_ftl \<Rightarrow> nvme_kv_command \<Rightarrow> u64 \<Rightarrow> 's kv_ftl option" where
  "new_mapping_entry c cmd val_offset =
     new_mapping_entry_by_key c (kv_key cmd) (cmd_key_length cmd) (ucast (cmd_value_length cmd)) val_offset"

definition get_mapping_entry :: "'s kv_ftl \<Rightarrow> nvme_kv_command \<Rightarrow> mapping_entry option" where
  "get_mapping_entry c cmd = get_mapping_entry_by_key c (kv_key cmd) (cmd_key_length cmd)"

text \<open>A key that is not found leaves the table as it is; the code returns 1, which nothing reads.\<close>

definition update_mapping_entry :: "'s kv_ftl \<Rightarrow> nvme_kv_command \<Rightarrow> 's kv_ftl option" where
  "update_mapping_entry c cmd = do {
     r \<leftarrow> find_key c (kv_key cmd) (cmd_key_length cmd);
     case r of
       None \<Rightarrow> Some c
     | Some slot \<Rightarrow> do {
         t \<leftarrow> amod (kv_mapping_table c) (unat slot) (\<lambda>e. Some (e\<lparr>me_length := ucast (cmd_value_length cmd)\<rparr>));
         Some (c\<lparr>kv_mapping_table := t\<rparr>)
       }
   }"

text \<open>The entry is erased where it is: what it was chained to is no longer chained to anything.\<close>

definition delete_mapping_entry :: "'s kv_ftl \<Rightarrow> nvme_kv_command \<Rightarrow> 's kv_ftl option" where
  "delete_mapping_entry c cmd = do {
     r \<leftarrow> find_key c (kv_key cmd) (cmd_key_length cmd);
     case r of
       None \<Rightarrow> Some c
     | Some slot \<Rightarrow> do {
         t \<leftarrow> aset (kv_mapping_table c) (unat slot) erased_entry;
         Some (c\<lparr>kv_mapping_table := t\<rparr>)
       }
   }"

end
