(* ===== verification/Kv_IO.thy ===== *)
theory Kv_IO
  imports Kv_Table
begin

unbundle bit_operations_syntax

text \<open>
  The commands of the key-value store, the second half of \<^verbatim>\<open>kv_ftl.c\<close>: store, retrieve, exist and
  delete, the batch of stores, and the iterators. A command is given the host's memory and the
  status so far, and returns its result, the status, the store and the host's memory.
\<close>

definition KV_ERR_KEY_NOT_EXIST :: u32 where "KV_ERR_KEY_NOT_EXIST = 0x310"

subsection \<open>Store, retrieve, exist, delete\<close>

text \<open>The allocator's failure, \<open>- 1\<close>, becomes the offset 0.\<close>

definition allocate_mem_offset_by_length :: "'s kv_ftl \<Rightarrow> u64 \<Rightarrow> (u64 \<times> 's kv_ftl) option" where
  "allocate_mem_offset_by_length c len = do {
     (off, s) \<leftarrow> op_allocate (allocator_ops c) len (alloc_state c);
     Some (if off = - 1 then 0 else off, c\<lparr>alloc_state := s\<rparr>)
   }"

definition allocate_mem_offset :: "'s kv_ftl \<Rightarrow> nvme_kv_command \<Rightarrow> (u64 \<times> 's kv_ftl) option" where
  "allocate_mem_offset c cmd =
     (if kv_opcode cmd = nvme_cmd_kv_store then allocate_mem_offset_by_length c (ucast (cmd_value_length cmd))
      else Some (0, c))"

text \<open>The copy between the storage and the pages of the value.\<close>

definition kv_copy :: "'s kv_ftl \<Rightarrow> host_mem \<Rightarrow> nvme_kv_command \<Rightarrow> u64 \<Rightarrow> u64 \<Rightarrow> ('s kv_ftl \<times> host_mem) option" where
  "kv_copy c m cmd off len = do {
     let sz = unat (kv_storage_size c);
     (st, m) \<leftarrow> prp_loop (if kv_opcode cmd = nvme_cmd_kv_store then copy_in sz
                        else if kv_opcode cmd = nvme_cmd_kv_retrieve then copy_out sz else copy_none)
       (kv_prp1 cmd) (kv_prp2 cmd) (unat off) (unat len) 0 0 None (kv_storage c, m);
     Some (c\<lparr>kv_storage := st\<rparr>, m)
   }"

text \<open>
  A store of a key that has a value writes over it, whatever the length; the length of the mapping
  follows only when both are small.
\<close>

definition kv_store :: "'s kv_ftl \<Rightarrow> host_mem \<Rightarrow> nvme_kv_command \<Rightarrow> mapping_entry \<Rightarrow> ('s kv_ftl \<times> host_mem) option" where
  "kv_store c m cmd entry = do {
     let len = ucast (cmd_value_length cmd);
     if me_offset entry = - 1 then do {
       (off, c) \<leftarrow> allocate_mem_offset c cmd;
       (c, m) \<leftarrow> kv_copy c m cmd off len;
       c \<leftarrow> new_mapping_entry c cmd off;
       Some (c, m)
     } else do {
       (c, m) \<leftarrow> kv_copy c m cmd (me_offset entry) len;
       c \<leftarrow> (if len \<noteq> me_length entry \<and> len \<le> SMALL_LENGTH \<and> me_length entry \<le> SMALL_LENGTH
            then update_mapping_entry c cmd else Some c);
       Some (c, m)
     }
   }"

definition do_perform_kv_io :: "'s kv_ftl \<Rightarrow> host_mem \<Rightarrow> nvme_kv_command \<Rightarrow> u32 \<Rightarrow>
    (u32 \<times> u32 \<times> 's kv_ftl \<times> host_mem) option" where
  "do_perform_kv_io c m cmd status = do {
     entry \<leftarrow> get_mapping_entry c cmd;
     if kv_opcode cmd = nvme_cmd_kv_store then do {
       (c, m) \<leftarrow> kv_store c m cmd entry;
       Some (0, status, c, m)
     } else if kv_opcode cmd = nvme_cmd_kv_retrieve then
       (if me_offset entry = - 1 then Some (0, KV_ERR_KEY_NOT_EXIST, c, m)
        else do {
          let len = min (me_length entry) (ucast (cmd_value_length cmd));
          (c, m) \<leftarrow> kv_copy c m cmd (me_offset entry) len;
          Some (ucast len, status, c, m)
        })
     else if kv_opcode cmd = nvme_cmd_kv_exist then
       Some (0, if me_offset entry = - 1 then KV_ERR_KEY_NOT_EXIST else status, c, m)
     else if kv_opcode cmd = nvme_cmd_kv_delete then
       (if me_offset entry = - 1 then Some (0, KV_ERR_KEY_NOT_EXIST, c, m)
        else do { c \<leftarrow> delete_mapping_entry c cmd; Some (0, status, c, m) })
     else Some (0, status, c, m)
   }"

subsection \<open>Batches\<close>

definition ALIGN_LEN :: nat where "ALIGN_LEN = 64"
definition MAX_SUB_CMD :: nat where "MAX_SUB_CMD = 8"

definition align_up :: "nat \<Rightarrow> nat" where "align_up n = ((n - 1) div ALIGN_LEN + 1) * ALIGN_LEN"

text \<open>A store of a batch: unlike a single store it leaves the length of an existing mapping.\<close>

definition do_perform_kv_batched_io :: "'s kv_ftl \<Rightarrow> nat \<Rightarrow> u8 list \<Rightarrow> nat \<Rightarrow> u8 list \<Rightarrow> 's kv_ftl option" where
  "do_perform_kv_batched_io c opc key key_len val = do {
     entry \<leftarrow> get_mapping_entry_by_key c key key_len;
     if opc \<noteq> nvme_cmd_kv_store then Some c
     else do {
       (off, c) \<leftarrow> (if me_offset entry = - 1 then allocate_mem_offset_by_length c (of_nat (length val))
                   else Some (me_offset entry, c));
       nv_assert (unat off + length val \<le> unat (kv_storage_size c));
       let c = c\<lparr>kv_storage := host_put (kv_storage c) (unat off) val\<rparr>;
       if me_offset entry = - 1 then new_mapping_entry_by_key c key key_len (of_nat (length val)) off
       else Some c
     }
   }"

fun le_nat :: "u8 list \<Rightarrow> nat" where
  "le_nat [] = 0"
| "le_nat (b # bs) = unat b + 256 * le_nat bs"

text \<open>
  The payload: eight attributes of 16 bytes, reserved bytes up to 512, and the sub-payloads, each
  a head, a key and a value in steps of 64 bytes. An attribute past the eighth, a sub-payload past
  the end of the buffer, a key of more than 20 bytes and a value of more than 4097 are accesses
  outside an array.
\<close>

definition batch_sub :: "u8 list \<Rightarrow> nat \<times> 's kv_ftl \<Rightarrow> nat \<Rightarrow> (nat \<times> 's kv_ftl) option" where
  "batch_sub buf st i = do {
     let (payload_offset, c) = st;
     nv_assert (i < MAX_SUB_CMD \<and> 512 \<le> length buf);
     let attr = drop (16 * i) buf;
     let key_len = unat (attr ! 1);
     let val_len = le_nat (take 4 (drop 4 attr));
     let key_at = 512 + payload_offset;
     let val_at = key_at + align_up key_len;
     nv_assert (key_len \<le> 20 \<and> val_len \<le> 4097 \<and> key_at + key_len \<le> length buf \<and> val_at + val_len \<le> length buf);
     let key = take key_len (drop key_at buf) @ replicate (20 - key_len) 0;
     c \<leftarrow> do_perform_kv_batched_io c (unat (attr ! 0)) key key_len (take val_len (drop val_at buf));
     Some (payload_offset + align_up key_len + align_up val_len + ALIGN_LEN, c)
   }"

text \<open>Every byte of the buffer is copied from the host before it is read.\<close>

definition do_perform_kv_batch :: "'s kv_ftl \<Rightarrow> host_mem \<Rightarrow> nvme_kv_command \<Rightarrow> u32 \<Rightarrow>
    (u32 \<times> u32 \<times> 's kv_ftl \<times> host_mem) option" where
  "do_perform_kv_batch c m cmd status = do {
     let len = unat (cmd_value_length cmd);
     (b, m) \<leftarrow> prp_loop (copy_in len) (kv_prp1 cmd) (kv_prp2 cmd) 0 len 0 0 None (\<lambda>_. 0, m);
     (off, c) \<leftarrow> opt_fold (batch_sub (host_get b 0 len)) (ALIGN_LEN, c) [0..<unat (kv_rsvd4 cmd)];
     Some (0, status, c, m)
   }"

subsection \<open>Iterators\<close>

definition kv_iter_handle :: "nvme_kv_command \<Rightarrow> nat" where "kv_iter_handle cmd = unat (kv_key_len cmd)"
definition kv_iter_val :: "nvme_kv_command \<Rightarrow> u32" where "kv_iter_val cmd = of_nat (le_nat (take 4 (kv_key cmd)))"
definition kv_iter_bitmask :: "nvme_kv_command \<Rightarrow> u32" where
  "kv_iter_bitmask cmd = of_nat (le_nat (take 4 (drop 4 (kv_key cmd))))"

definition ITER_OPTION_OPEN :: u8 where "ITER_OPTION_OPEN = 1"
definition ITER_OPTION_CLOSE :: u8 where "ITER_OPTION_CLOSE = 2"

text \<open>
  The first null handle from 1 to 16. The bytes of a new buffer are not read before they are
  written; the fields that nothing reads are left out.
\<close>

definition kv_iter_open :: "'s kv_ftl \<Rightarrow> nvme_kv_command \<Rightarrow> u32 \<Rightarrow> (u32 \<times> u32 \<times> 's kv_ftl) option" where
  "kv_iter_open c cmd status =
     (case List.find (\<lambda>i. iter_handles c ! i = No_Iter) [1..<17] of
        None \<Rightarrow> Some (1, status, c)
      | Some i \<Rightarrow> do {
          hs \<leftarrow> aset (iter_handles c) i (Iter \<lparr>it_prefix = kv_iter_val cmd, it_bitmask = kv_iter_bitmask cmd,
                  it_buf = (\<lambda>_. 0), it_current_pos = 0\<rparr>);
          Some (of_nat i, 0, c\<lparr>iter_handles := hs\<rparr>)
        })"

text \<open>To free what a wild pointer points to is not defined.\<close>

definition kv_iter_close :: "'s kv_ftl \<Rightarrow> nvme_kv_command \<Rightarrow> u32 \<Rightarrow> (u32 \<times> u32 \<times> 's kv_ftl) option" where
  "kv_iter_close c cmd status = do {
     h \<leftarrow> aget (iter_handles c) (kv_iter_handle cmd);
     case h of
       Wild \<Rightarrow> None
     | No_Iter \<Rightarrow> Some (0, 0, c)
     | Iter _ \<Rightarrow> do {
         hs \<leftarrow> aset (iter_handles c) (kv_iter_handle cmd) No_Iter;
         Some (0, 0, c\<lparr>iter_handles := hs\<rparr>)
       }
   }"

definition entry_matches :: "kv_iter_context \<Rightarrow> mapping_entry \<Rightarrow> bool" where
  "entry_matches h e \<longleftrightarrow> me_offset e \<noteq> - 1 \<and>
     of_nat (le_nat (take 4 (me_key e))) AND it_bitmask h = it_prefix h AND it_bitmask h"

definition le32 :: "nat \<Rightarrow> u8 list" where
  "le32 n = map (\<lambda>i. of_nat (n div 256 ^ i)) [0..<4]"

text \<open>
  The scan of the table from \<open>pos\<close>: it stops at the end or when the next key does not fit. The
  result is whether the end was reached, the position, the offset in the buffer, the number of
  keys and the buffer.
\<close>

definition ITER_KEYLEN :: nat where "ITER_KEYLEN = 16"

function iter_scan :: "mapping_entry list \<Rightarrow> nat \<Rightarrow> kv_iter_context \<Rightarrow> nat \<Rightarrow> nat \<Rightarrow> nat \<Rightarrow> (nat \<Rightarrow> u8) \<Rightarrow>
    (bool \<times> nat \<times> nat \<times> nat \<times> (nat \<Rightarrow> u8)) option" where
  "iter_scan t slots h pos off nr buf =
     (if \<not> pos < slots then Some (False, pos, off, nr, buf)
      else do {
        e \<leftarrow> aget t pos;
        if entry_matches h e \<and> off + 4 + ITER_KEYLEN > 1024 then Some (False, pos, off, nr, buf)
        else
          let (off, nr, buf) =
            (if entry_matches h e
             then (off + 4 + (ITER_KEYLEN + 3) div 4 * 4, nr + 1,
                   host_put (host_put buf off (le32 ITER_KEYLEN)) (off + 4) (take ITER_KEYLEN (me_key e)))
             else (off, nr, buf))
          in if pos + 1 = slots then Some (True, pos + 1, off, nr, buf)
             else iter_scan t slots h (pos + 1) off nr buf
      })"
  by pat_completeness auto
termination
  by (relation "measure (\<lambda>(t, slots, h, pos, x). slots - pos)") auto

declare iter_scan.simps [simp del]

definition KV_ITER_END :: u32 where "KV_ITER_END = 0x393"

definition kv_iter_read :: "'s kv_ftl \<Rightarrow> host_mem \<Rightarrow> nvme_kv_command \<Rightarrow> u32 \<Rightarrow>
    (u32 \<times> u32 \<times> 's kv_ftl \<times> host_mem) option" where
  "kv_iter_read c m cmd status = do {
     h \<leftarrow> aget (iter_handles c) (kv_iter_handle cmd);
     case h of
       No_Iter \<Rightarrow> Some (0, status, c, m)
     | Wild \<Rightarrow> None
     | Iter h \<Rightarrow> do {
         (at_end, pos, off, nr, buf) \<leftarrow>
           iter_scan (kv_mapping_table c) (unat (hash_slots c)) h (unat (it_current_pos h)) 4 0 (it_buf h);
         let buf = host_put buf 0 (le32 nr);
         hs \<leftarrow> aset (iter_handles c) (kv_iter_handle cmd) (Iter (h\<lparr>it_buf := buf, it_current_pos := of_nat pos\<rparr>));
         (buf, m) \<leftarrow> prp_loop (copy_out 32768) (kv_prp1 cmd) (kv_prp2 cmd) 0 off 0 0 None (buf, m);
         Some (of_nat off, if at_end then KV_ITER_END else 0, c\<lparr>iter_handles := hs\<rparr>, m)
       }
   }"

definition do_perform_kv_iter_io :: "'s kv_ftl \<Rightarrow> host_mem \<Rightarrow> nvme_kv_command \<Rightarrow> u32 \<Rightarrow>
    (u32 \<times> u32 \<times> 's kv_ftl \<times> host_mem) option" where
  "do_perform_kv_iter_io c m cmd status =
     (if kv_opcode cmd = nvme_cmd_kv_iter_req then
        (if kv_option cmd AND ITER_OPTION_OPEN \<noteq> 0 then
           do { (r, s, c) \<leftarrow> kv_iter_open c cmd status; Some (r, s, c, m) }
         else if kv_option cmd AND ITER_OPTION_CLOSE \<noteq> 0 then
           do { (r, s, c) \<leftarrow> kv_iter_close c cmd status; Some (r, s, c, m) }
         else Some (0, status, c, m))
      else if kv_opcode cmd = nvme_cmd_kv_iter_read then kv_iter_read c m cmd status
      else Some (0, status, c, m))"

subsection \<open>Dispatch\<close>

definition is_kv_batch_cmd :: "nat \<Rightarrow> bool" where "is_kv_batch_cmd opc \<longleftrightarrow> opc = nvme_cmd_kv_batch"

definition is_kv_iter_cmd :: "nat \<Rightarrow> bool" where
  "is_kv_iter_cmd opc \<longleftrightarrow> opc = nvme_cmd_kv_iter_req \<or> opc = nvme_cmd_kv_iter_read"

definition kv_identify_nvme_io_cmd :: "nvme_kv_command \<Rightarrow> bool" where
  "kv_identify_nvme_io_cmd cmd \<longleftrightarrow> kv_opcode cmd \<in> {nvme_cmd_kv_append, nvme_cmd_kv_store, nvme_cmd_kv_retrieve,
     nvme_cmd_kv_delete, nvme_cmd_kv_iter_req, nvme_cmd_kv_iter_read, nvme_cmd_kv_exist} \<or> is_kv_batch_cmd (kv_opcode cmd)"

definition kv_perform_nvme_io_cmd :: "'s kv_ftl \<Rightarrow> host_mem \<Rightarrow> nvme_kv_command \<Rightarrow> u32 \<Rightarrow>
    (u32 \<times> u32 \<times> 's kv_ftl \<times> host_mem) option" where
  "kv_perform_nvme_io_cmd c m cmd status =
     (if is_kv_batch_cmd (kv_opcode cmd) then do_perform_kv_batch c m cmd status
      else if is_kv_iter_cmd (kv_opcode cmd) then do_perform_kv_iter_io c m cmd status
      else do_perform_kv_io c m cmd status)"

text \<open>
  The namespace as it starts. The table has room for \<open>bytes\<close> bytes of entries of 48 bytes, and
  the last handle keeps what the allocation left in it.
\<close>

definition KV_MAPPING_ENTRY_SIZE :: nat where "KV_MAPPING_ENTRY_SIZE = 48"

definition kv_init_namespace :: "'s allocator_ops \<Rightarrow> nat \<Rightarrow> iter_handle \<Rightarrow> 's \<Rightarrow> (nat \<Rightarrow> u8) \<Rightarrow> u64 \<Rightarrow> 's kv_ftl option" where
  "kv_init_namespace ops bytes junk s mapped sz = do {
     s \<leftarrow> op_init ops sz s;
     let slots = bytes div KV_MAPPING_ENTRY_SIZE;
     Some \<lparr>kv_mapping_table = replicate slots \<lparr>me_key = replicate KEY_SIZE 0, me_offset = - 1, me_length = - 1, me_next = - 1\<rparr>,
       hash_slots = of_nat slots, allocator_ops = ops, iter_handles = replicate 16 No_Iter @ [junk],
       alloc_state = s, kv_storage = mapped, kv_storage_size = sz\<rparr>
   }"

end
