(* ===== verification/Kv_Chain.thy ===== *)
theory Kv_Chain
  imports Kv_IO
begin

text \<open>
  The chains of the key-value table. A chain is the list of occupied slots that a search visits
  from a slot on; it ends at the end mark or at a free slot. The chains of different slots may
  join, and none of them runs in a circle: every operation keeps this, so every search ends.
\<close>

abbreviation free_entry :: "mapping_entry \<Rightarrow> bool" where "free_entry e \<equiv> me_offset e = - 1"

fun chain :: "mapping_entry list \<Rightarrow> u32 \<Rightarrow> nat list \<Rightarrow> bool" where
  "chain t s [] \<longleftrightarrow> s = - 1 \<or> (unat s < length t \<and> free_entry (t ! unat s))"
| "chain t s (i # xs) \<longleftrightarrow> i = unat s \<and> i < length t \<and> \<not> free_entry (t ! i) \<and> chain t (me_next (t ! i)) xs"

definition table_ok :: "mapping_entry list \<Rightarrow> bool" where
  "table_ok t \<longleftrightarrow> 0 < length t \<and> length t < 2 ^ 31 \<and>
     (\<forall>e \<in> set t. length (me_key e) = KEY_SIZE \<and> (free_entry e \<longrightarrow> me_next e = - 1)) \<and>
     (\<forall>s. unat s < length t \<longrightarrow> (\<exists>xs. chain t s xs))"

lemma table_okD:
  assumes "table_ok t"
  shows "0 < length t" "length t < 2 ^ 31" "\<And>i. i < length t \<Longrightarrow> length (me_key (t ! i)) = KEY_SIZE"
    "\<And>i. i < length t \<Longrightarrow> free_entry (t ! i) \<Longrightarrow> me_next (t ! i) = - 1" "\<And>s. unat s < length t \<Longrightarrow> \<exists>xs. chain t s xs"
  using assms by (auto simp: table_ok_def)

lemma unat_end [simp]: "unat (- 1 :: u32) = 2 ^ 32 - 1"
  by (simp add: unsigned_minus_1_eq_mask mask_eq_exp_minus_1)

lemma unat_ucast_32_64 [simp]: "unat (ucast (w :: u32) :: u64) = unat w"
proof -
  have "unat w < 2 ^ LENGTH(32)" by (rule unsigned_less)
  then show ?thesis by (simp add: unsigned_ucast_eq take_bit_nat_eq_self)
qed

lemma slot_nat: "i < 2 ^ 31 \<Longrightarrow> unat (of_nat i :: u32) = i"
  by (rule unat_of_nat_less) simp

lemma slot_not_end: "unat (s :: u32) < 2 ^ 31 \<Longrightarrow> s \<noteq> - 1"
  by auto

subsection \<open>Chains are unique and do not repeat\<close>

lemma chain_det: "chain t s xs \<Longrightarrow> chain t s ys \<Longrightarrow> length t < 2 ^ 31 \<Longrightarrow> xs = ys"
proof (induction xs arbitrary: s ys)
  case Nil
  then show ?case by (cases ys) auto
next
  case (Cons i xs)
  from Cons.prems(1,3) have "s \<noteq> - 1" by auto
  with Cons.prems obtain ys' where "ys = i # ys'" by (cases ys) auto
  with Cons show ?case by auto
qed

lemma chain_suffix: "chain t s (xs @ i # ys) \<Longrightarrow> length t < 2 ^ 31 \<Longrightarrow> chain t (of_nat i) (i # ys)"
proof (induction xs arbitrary: s)
  case Nil
  then show ?case by auto
next
  case (Cons x xs)
  then have "chain t (me_next (t ! x)) (xs @ i # ys)" by auto
  then show ?case by (rule Cons.IH[OF _ Cons.prems(2)])
qed

lemma chain_distinct: "chain t s xs \<Longrightarrow> length t < 2 ^ 31 \<Longrightarrow> distinct xs"
proof (induction xs arbitrary: s)
  case (Cons i xs)
  have "i \<notin> set xs"
  proof
    assume "i \<in> set xs"
    then obtain as bs where xs: "xs = as @ i # bs" by (auto simp: in_set_conv_decomp)
    have "chain t s ((i # as) @ i # bs)" using Cons.prems(1) xs by auto
    then have "chain t (of_nat i) (i # bs)" by (rule chain_suffix[OF _ Cons.prems(2)])
    moreover have "s = of_nat i" using Cons.prems(1) by auto
    ultimately have "chain t s (i # bs)" by simp
    then have "i # bs = i # xs" using chain_det Cons.prems by blast
    then show False using xs by simp
  qed
  then show ?case using Cons by auto
qed simp

lemma chain_slots: "chain t s xs \<Longrightarrow> i \<in> set xs \<Longrightarrow> i < length t \<and> \<not> free_entry (t ! i)"
  by (induction xs arbitrary: s) auto

subsection \<open>The loops\<close>

lemma search_chain_ok:
  assumes "chain t s xs" "unat s < length t" "table_ok t" "length k \<le> KEY_SIZE"
  shows "search_chain t k s = Some (map_option of_nat (List.find (\<lambda>i. take (length k) (me_key (t ! i)) = k) xs))"
  using assms
proof (induction xs arbitrary: s)
  case Nil
  then have "free_entry (t ! unat s)" using slot_not_end[of s] table_okD(2)[OF assms(3)] by auto
  then show ?case using Nil.prems(2) by (subst search_chain.simps) simp
next
  case (Cons i xs)
  then have i: "i = unat s" "i < length t" "\<not> free_entry (t ! i)" "chain t (me_next (t ! i)) xs" by auto
  have l: "length k \<le> length (me_key (t ! i))" using table_okD(3)[OF assms(3) i(2)] assms(4) by simp
  show ?case
  proof (cases "take (length k) (me_key (t ! i)) = k")
    case True
    then show ?thesis using i l by (subst search_chain.simps) simp
  next
    case False
    show ?thesis
    proof (cases "me_next (t ! i) = - 1")
      case True
      then have "xs = []" using i(4) table_okD(2)[OF assms(3)] by (cases xs) auto
      then show ?thesis using i l True False by (subst search_chain.simps) auto
    next
      case nend: False
      then have "unat (me_next (t ! i)) < length t" using i(4) by (cases xs) auto
      from Cons.IH[OF i(4) this assms(3,4)] show ?thesis using i l False nend by (subst search_chain.simps) auto
    qed
  qed
qed

lemma find_tail_ok:
  assumes "chain t s xs" "unat s < length t" "length t < 2 ^ 31"
  shows "find_tail t p s = Some (if xs = [] then p else of_nat (last xs))"
  using assms
proof (induction xs arbitrary: s p)
  case Nil
  then have "free_entry (t ! unat s)" using slot_not_end[of s] by auto
  then show ?case using Nil.prems(2) by (subst find_tail.simps) simp
next
  case (Cons i xs)
  then have i: "i = unat s" "i < length t" "\<not> free_entry (t ! i)" "chain t (me_next (t ! i)) xs" by auto
  show ?case
  proof (cases "me_next (t ! i) = - 1")
    case True
    then have "xs = []" using i(4) Cons.prems(3) by (cases xs) auto
    then show ?thesis using i True by (subst find_tail.simps) simp
  next
    case False
    then have "unat (me_next (t ! i)) < length t" using i(4) by (cases xs) auto
    from Cons.IH[OF i(4) this Cons.prems(3)] show ?thesis using i False by (subst find_tail.simps) simp
  qed
qed

lemma find_free_unfold:
  "find_free t slots slot = do {
     e \<leftarrow> aget t (unat slot);
     if me_offset e = - 1 then Some slot
     else find_free t slots (if ucast (slot + 1) \<ge> slots then 0 else slot + 1)
   }"
  by (subst find_free.simps) (cases "aget t (unat slot)", simp_all add: free_turn_def)

text \<open>The slot after a slot that is occupied, and where the loop is after \<open>n\<close> occupied ones.\<close>

lemma free_turn_occupied:
  assumes "unat slot < length t" "length t < 2 ^ 31" "\<not> free_entry (t ! unat slot)"
  shows "\<exists>slot'. free_turn t (of_nat (length t)) slot = Some (Inr slot') \<and> unat slot' = (unat slot + 1) mod length t"
proof -
  have u1: "unat (slot + 1) = unat slot + 1" using assms(1,2) by (subst unat_add_less) simp_all
  have u2: "unat (of_nat (length t) :: u64) = length t" by (rule unat_of_nat_less) (use assms(2) in simp)
  have "ucast (slot + 1) \<ge> (of_nat (length t) :: u64) \<longleftrightarrow> unat slot + 1 \<ge> length t" by (simp add: word_le_nat_alt u1 u2)
  moreover have "(unat slot + 1) mod length t = (if unat slot + 1 \<ge> length t then 0 else unat slot + 1)"
    using assms(1) by (cases "unat slot + 1 = length t") simp_all
  ultimately show ?thesis using assms(1,3) u1 by (auto simp: free_turn_def)
qed

lemma free_turns_full:
  assumes "\<forall>e \<in> set t. \<not> free_entry e" "unat slot < length t" "length t < 2 ^ 31"
  shows "\<exists>slot'. free_turns t (of_nat (length t)) n slot = Some (Inr slot') \<and> unat slot' = (unat slot + n) mod length t"
  using assms(2)
proof (induction n arbitrary: slot)
  case (Suc n)
  obtain s where s: "free_turn t (of_nat (length t)) slot = Some (Inr s)" "unat s = (unat slot + 1) mod length t"
    using free_turn_occupied[OF Suc.prems assms(3)] assms(1) Suc.prems by auto
  have "0 < length t" using Suc.prems by linarith
  then have "unat s < length t" unfolding s(2) by (rule mod_less_divisor)
  then show ?case using Suc.IH[of s] s by (auto simp: mod_simps)
qed simp

lemma find_free_ok:
  assumes "j < length t" "free_entry (t ! ((j + d) mod length t))" "length t < 2 ^ 31"
  shows "\<exists>r. find_free t (of_nat (length t)) (of_nat j) = Some r \<and> unat r < length t \<and> free_entry (t ! unat r)"
  using assms
proof (induction d arbitrary: j)
  case 0
  then show ?case using slot_nat[of j] by (subst find_free_unfold) simp
next
  case (Suc d)
  note n = Suc.prems(1,3)
  have u: "unat (of_nat j :: u32) = j" using n by (intro slot_nat) simp
  show ?case
  proof (cases "free_entry (t ! j)")
    case True
    then show ?thesis using n u by (subst find_free_unfold) simp
  next
    case False
    let ?j = "if j + 1 \<ge> length t then 0 else j + 1"
    have j: "?j < length t" "(?j + d) mod length t = (j + Suc d) mod length t"
    proof -
      show "?j < length t" using n by auto
      show "(?j + d) mod length t = (j + Suc d) mod length t"
      proof (cases "j + 1 \<ge> length t")
        case True
        then have "j + Suc d = length t + d" using n by simp
        then have "(j + Suc d) mod length t = d mod length t" by (simp only: mod_add_self1)
        then show ?thesis using True by (simp del: add_Suc_right)
      qed simp
    qed
    have u1: "unat (of_nat j + 1 :: u32) = j + 1" using n slot_nat[of "j + 1"] by (simp add: add.commute)
    have u2: "unat (of_nat (length t) :: u64) = length t" by (rule unat_of_nat_less) (use n in simp)
    have "ucast (of_nat j + 1 :: u32) \<ge> (of_nat (length t) :: u64) \<longleftrightarrow> j + 1 \<ge> length t"
      by (simp add: word_le_nat_alt u1 u2)
    then have "(if ucast (of_nat j + 1 :: u32) \<ge> (of_nat (length t) :: u64) then 0 else of_nat j + 1) = (of_nat ?j :: u32)"
      by simp
    moreover obtain r where "find_free t (of_nat (length t)) (of_nat ?j) = Some r" "unat r < length t" "free_entry (t ! unat r)"
      using Suc.IH[OF j(1) _ n(2)] j(2) Suc.prems(2) by (metis (no_types, lifting))
    ultimately show ?thesis using n u False by (subst find_free_unfold) simp
  qed
qed

lemma find_free_exists:
  assumes "i < length t" "free_entry (t ! i)" "j < length t" "length t < 2 ^ 31"
  shows "\<exists>r. find_free t (of_nat (length t)) (of_nat j) = Some r \<and> unat r < length t \<and> free_entry (t ! unat r)"
proof -
  have "(j + (i + length t - j)) mod length t = i" using assms by simp
  then show ?thesis using find_free_ok[of j t "i + length t - j"] assms by metis
qed

text \<open>In a table without a free entry the search does not end.\<close>

lemma find_free_found: "find_free t slots s = Some r \<Longrightarrow> unat r < length t \<and> free_entry (t ! unat r)"
  by (erule find_free.raw_induct[rotated, of t slots s r "\<lambda>t slots s r. unat r < length t \<and> free_entry (t ! unat r)"])
    (auto simp: free_turn_def aget_def split: if_splits bind_splits sum.splits)

text \<open>
  What the changes of the table do to its chains: filling a free slot, chaining it to the tail of
  a chain, erasing an entry, and changing an entry's key, offset or length.
\<close>

subsection \<open>Filling a slot\<close>

lemma chain_fill:
  assumes "chain t s xs" "r < length t" "free_entry (t ! r)" "\<not> free_entry e" "me_next e = - 1" "length t < 2 ^ 31"
  shows "chain (t[r := e]) s xs \<or> chain (t[r := e]) s (xs @ [r])"
  using assms(1)
proof (induction xs arbitrary: s)
  case Nil
  then show ?case using assms by (cases "unat s = r") auto
next
  case (Cons i xs)
  then have i: "i = unat s" "i < length t" "\<not> free_entry (t ! i)" "chain t (me_next (t ! i)) xs" by auto
  then have "i \<noteq> r" using assms(3) by auto
  then show ?case using Cons.IH[OF i(4)] i by auto
qed

lemma chain_filled:
  assumes "r < length t" "\<not> free_entry e" "me_next e = - 1" "length t < 2 ^ 31"
  shows "chain (t[r := e]) (of_nat r) [r]"
  using assms slot_nat[of r] by simp

subsection \<open>Chaining a slot\<close>

lemma chain_link:
  assumes "chain t s ys" "p < length t" "r < length t" "p \<noteq> r" "\<not> free_entry (t ! p)" "\<not> free_entry (t ! r)"
    and "me_next (t ! r) = - 1" "length t < 2 ^ 31"
  shows "chain (t[p := (t ! p)\<lparr>me_next := of_nat r\<rparr>]) s
    (if p \<in> set ys then takeWhile (\<lambda>i. i \<noteq> p) ys @ [p, r] else ys)"
  using assms(1)
proof (induction ys arbitrary: s)
  case Nil
  then show ?case using assms by (cases "unat s = p") auto
next
  case (Cons i ys)
  then have i: "i = unat s" "i < length t" "\<not> free_entry (t ! i)" "chain t (me_next (t ! i)) ys" by auto
  show ?case
  proof (cases "i = p")
    case True
    then show ?thesis using i assms slot_nat[of r] by (auto simp: nth_list_update)
  next
    case False
    then show ?thesis using i Cons.IH[OF i(4)] assms(5) by (auto simp: nth_list_update)
  qed
qed

lemma chain_last:
  assumes "chain t s xs" "xs \<noteq> []" "length t < 2 ^ 31"
  shows "chain t (of_nat (last xs)) [last xs]"
  using chain_suffix[of t s "butlast xs" "last xs" "[]"] assms by simp

lemma chain_split_last:
  assumes "chain t s xs" "chain t (of_nat p) [p]" "p \<in> set xs" "length t < 2 ^ 31"
  obtains ys where "xs = ys @ [p]" "p \<notin> set ys"
proof -
  from assms(3) obtain ys zs where xs: "xs = ys @ p # zs" by (auto simp: in_set_conv_decomp)
  then have "chain t (of_nat p) (p # zs)" using chain_suffix[of t s ys p zs] assms(1,4) by simp
  then have "p # zs = [p]" by (rule chain_det[OF _ assms(2,4)])
  then show ?thesis using xs chain_distinct[OF assms(1,4)] by (intro that[of ys]) auto
qed

lemma takeWhile_until: "p \<notin> set zs \<Longrightarrow> takeWhile (\<lambda>i. i \<noteq> p) (zs @ p # ws) = zs"
  by (induction zs) auto

text \<open>Inserting into a free slot: no slot leaves a chain.\<close>

lemma chain_insert:
  assumes t: "length t < 2 ^ 31" and r: "r < length t" "free_entry (t ! r)"
    and e: "\<not> free_entry e" "me_next e = - 1" and h: "chain t h hs" "hs \<noteq> []" and s: "chain t s xs"
  defines "p \<equiv> last hs"
  defines "t' \<equiv> t[r := e, p := (t ! p)\<lparr>me_next := of_nat r\<rparr>]"
  shows "\<exists>ys. chain t' s ys \<and> set xs \<subseteq> set ys" "\<exists>ys. chain t' h ys \<and> r \<in> set ys"
proof -
  have p: "p < length t" "\<not> free_entry (t ! p)" using chain_slots[OF h(1)] h(2) by (auto simp: p_def)
  then have pr: "p \<noteq> r" using r by auto
  let ?t = "t[r := e]"
  have tp: "t' = ?t[p := (?t ! p)\<lparr>me_next := of_nat r\<rparr>]" using pr by (simp add: t'_def)
  have pc: "chain t (of_nat p) [p]" unfolding p_def by (rule chain_last[OF h t])
  have link: "chain t' s' (if p \<in> set ys then takeWhile (\<lambda>i. i \<noteq> p) ys @ [p, r] else ys)" if "chain ?t s' ys" for s' ys
    unfolding tp by (rule chain_link[OF that]) (use p r e t pr in auto)
  have main: "\<exists>ys. chain t' s' ys \<and> set xs' \<subseteq> set ys \<and> (p \<in> set xs' \<longrightarrow> r \<in> set ys)" if c: "chain t s' xs'" for s' xs'
  proof -
    from chain_fill[OF c r e t] obtain ys where ys: "chain ?t s' ys" "ys = xs' \<or> ys = xs' @ [r]" by blast
    show ?thesis
    proof (cases "p \<in> set xs'")
      case True
      then obtain zs where z: "xs' = zs @ [p]" "p \<notin> set zs" using chain_split_last[OF c pc _ t] by blast
      then have "takeWhile (\<lambda>i. i \<noteq> p) ys = zs" "p \<in> set ys" using ys(2) pr takeWhile_until[of p zs] by auto
      then show ?thesis using link[OF ys(1)] z by fastforce
    next
      case False
      then have "p \<notin> set ys" using ys(2) pr by auto
      then show ?thesis using link[OF ys(1)] ys(2) False by auto
    qed
  qed
  show "\<exists>ys. chain t' s ys \<and> set xs \<subseteq> set ys" using main[OF s] by blast
  show "\<exists>ys. chain t' h ys \<and> r \<in> set ys" using main[OF h(1)] h(2) by (auto simp: p_def)
qed

subsection \<open>Erasing and changing entries\<close>

lemma chain_erase:
  assumes "chain t s xs" "free_entry e" "i < length t"
  shows "chain (t[i := e]) s (takeWhile (\<lambda>j. j \<noteq> i) xs)"
  using assms(1)
proof (induction xs arbitrary: s)
  case Nil
  then show ?case using assms by (cases "unat s = i") auto
next
  case (Cons j xs)
  then have j: "j = unat s" "j < length t" "\<not> free_entry (t ! j)" "chain t (me_next (t ! j)) xs" by auto
  show ?case
  proof (cases "j = i")
    case True
    then show ?thesis using j assms by simp
  next
    case False
    then show ?thesis using j Cons.IH[OF j(4)] by auto
  qed
qed

lemma chain_cong:
  assumes "length t' = length t" "\<And>i. i < length t \<Longrightarrow> free_entry (t' ! i) = free_entry (t ! i) \<and> me_next (t' ! i) = me_next (t ! i)"
  shows "chain t' s xs = chain t s xs"
proof (induction xs arbitrary: s)
  case Nil
  then show ?case using assms by auto
next
  case (Cons i xs)
  then show ?case using assms by auto
qed

subsection \<open>The invariant\<close>

lemma table_ok_updates:
  assumes "table_ok t" "length t' = length t"
    and "\<And>e. e \<in> set t' \<Longrightarrow> length (me_key e) = KEY_SIZE \<and> (free_entry e \<longrightarrow> me_next e = - 1)"
    and "\<And>s xs. unat s < length t \<Longrightarrow> chain t s xs \<Longrightarrow> \<exists>ys. chain t' s ys"
  shows "table_ok t'"
  using assms unfolding table_ok_def by metis

lemma set_upd_ok:
  assumes "\<forall>e \<in> set t. P e" "P e'"
  shows "\<forall>e \<in> set (t[i := e']). P e"
  using assms set_update_subset_insert[of t i e'] by auto

lemma table_ok_fill:
  assumes "table_ok t" "r < length t" "free_entry (t ! r)" "\<not> free_entry e" "me_next e = - 1" "length (me_key e) = KEY_SIZE"
  shows "table_ok (t[r := e])"
proof (rule table_ok_updates[OF assms(1)])
  have "\<forall>x \<in> set (t[r := e]). length (me_key x) = KEY_SIZE \<and> (free_entry x \<longrightarrow> me_next x = - 1)"
    by (rule set_upd_ok) (use assms in \<open>auto simp: table_ok_def\<close>)
  then show "\<And>x. x \<in> set (t[r := e]) \<Longrightarrow> length (me_key x) = KEY_SIZE \<and> (free_entry x \<longrightarrow> me_next x = - 1)" by blast
qed (use chain_fill[OF _ assms(2-5) table_okD(2)[OF assms(1)]] in auto)

lemma table_ok_insert:
  assumes "table_ok t" "r < length t" "free_entry (t ! r)" "\<not> free_entry e" "me_next e = - 1" "length (me_key e) = KEY_SIZE"
    and "chain t h hs" "hs \<noteq> []"
  shows "table_ok (t[r := e, last hs := (t ! last hs)\<lparr>me_next := of_nat r\<rparr>])"
proof (rule table_ok_updates[OF assms(1)])
  have l: "last hs < length t" "\<not> free_entry (t ! last hs)" using chain_slots[OF assms(7)] assms(8) by auto
  have "\<forall>x \<in> set (t[r := e, last hs := (t ! last hs)\<lparr>me_next := of_nat r\<rparr>]). length (me_key x) = KEY_SIZE \<and> (free_entry x \<longrightarrow> me_next x = - 1)"
    by (intro set_upd_ok) (use assms l in \<open>auto simp: table_ok_def\<close>)
  then show "\<And>x. x \<in> set (t[r := e, last hs := (t ! last hs)\<lparr>me_next := of_nat r\<rparr>]) \<Longrightarrow>
    length (me_key x) = KEY_SIZE \<and> (free_entry x \<longrightarrow> me_next x = - 1)" by blast
  show "\<exists>ys. chain (t[r := e, last hs := (t ! last hs)\<lparr>me_next := of_nat r\<rparr>]) s ys" if "chain t s xs" for s xs
    using chain_insert(1)[OF table_okD(2)[OF assms(1)] assms(2-5,7,8) that] by blast
qed simp

lemma table_ok_erase:
  assumes "table_ok t" "i < length t"
  shows "table_ok (t[i := erased_entry])"
proof (rule table_ok_updates[OF assms(1)])
  have "\<forall>x \<in> set (t[i := erased_entry]). length (me_key x) = KEY_SIZE \<and> (free_entry x \<longrightarrow> me_next x = - 1)"
    by (rule set_upd_ok) (use assms in \<open>auto simp: table_ok_def erased_entry_def\<close>)
  then show "\<And>x. x \<in> set (t[i := erased_entry]) \<Longrightarrow> length (me_key x) = KEY_SIZE \<and> (free_entry x \<longrightarrow> me_next x = - 1)" by blast
qed (use chain_erase[of t _ _ erased_entry i] assms(2) in \<open>auto simp: erased_entry_def\<close>)

lemma table_ok_length:
  assumes "table_ok t" "i < length t"
  shows "table_ok (t[i := (t ! i)\<lparr>me_length := n\<rparr>])"
proof (rule table_ok_updates[OF assms(1)])
  have "\<forall>x \<in> set (t[i := (t ! i)\<lparr>me_length := n\<rparr>]). length (me_key x) = KEY_SIZE \<and> (free_entry x \<longrightarrow> me_next x = - 1)"
    by (rule set_upd_ok) (use assms in \<open>auto simp: table_ok_def\<close>)
  then show "\<And>x. x \<in> set (t[i := (t ! i)\<lparr>me_length := n\<rparr>]) \<Longrightarrow> length (me_key x) = KEY_SIZE \<and> (free_entry x \<longrightarrow> me_next x = - 1)" by blast
  show "\<exists>ys. chain (t[i := (t ! i)\<lparr>me_length := n\<rparr>]) s ys" if "chain t s xs" for s xs
  proof -
    have "chain (t[i := (t ! i)\<lparr>me_length := n\<rparr>]) s xs = chain t s xs" by (rule chain_cong) (use assms(2) in \<open>auto simp: nth_list_update\<close>)
    then show ?thesis using that by blast
  qed
qed simp

lemma table_ok_new: "0 < n \<Longrightarrow> n < 2 ^ 31 \<Longrightarrow> me_offset e = - 1 \<Longrightarrow> me_next e = - 1 \<Longrightarrow> length (me_key e) = KEY_SIZE \<Longrightarrow>
    table_ok (replicate n e)"
  unfolding table_ok_def by (auto intro: exI[of _ "[]"])

end
