(* ===== verification/Kv_Map.thy ===== *)
theory Kv_Map
  imports Kv_Chain
begin

text \<open>
  The key-value table as a map. As long as the table is well formed every look-up returns; when
  moreover every key of \<open>n\<close> bytes is in the chain of its hash and only once, the look-up finds
  exactly the keys in the table, and inserting, updating and erasing are updates of a map from
  keys to the offsets and lengths of values.
\<close>

subsection \<open>Well-formed stores\<close>

definition key_at :: "nat \<Rightarrow> mapping_entry list \<Rightarrow> nat \<Rightarrow> u8 list" where
  "key_at n t i = take n (me_key (t ! i))"

definition home :: "mapping_entry list \<Rightarrow> u8 list \<Rightarrow> u32" where
  "home t k = ucast ((ucast (hash_function k) :: u64) mod of_nat (length t))"

definition kv_shape :: "'s kv_ftl \<Rightarrow> bool" where
  "kv_shape c \<longleftrightarrow> table_ok (kv_mapping_table c) \<and> hash_slots c = of_nat (length (kv_mapping_table c))"

definition slot_of_key :: "nat \<Rightarrow> mapping_entry list \<Rightarrow> u8 list \<Rightarrow> nat option" where
  "slot_of_key n t k = List.find (\<lambda>i. \<not> free_entry (t ! i) \<and> key_at n t i = k) [0..<length t]"

definition index_ok :: "nat \<Rightarrow> mapping_entry list \<Rightarrow> bool" where
  "index_ok n t \<longleftrightarrow> table_ok t \<and>
     (\<forall>i < length t. \<not> free_entry (t ! i) \<longrightarrow> (\<exists>xs. chain t (home t (key_at n t i)) xs \<and> i \<in> set xs)) \<and>
     (\<forall>i < length t. \<forall>j < length t. \<not> free_entry (t ! i) \<and> \<not> free_entry (t ! j) \<and> key_at n t i = key_at n t j \<longrightarrow> i = j)"

lemma index_okD:
  assumes "index_ok n t"
  shows "table_ok t" "\<And>i. i < length t \<Longrightarrow> \<not> free_entry (t ! i) \<Longrightarrow> \<exists>xs. chain t (home t (key_at n t i)) xs \<and> i \<in> set xs"
    "\<And>i j. i < length t \<Longrightarrow> j < length t \<Longrightarrow> \<not> free_entry (t ! i) \<Longrightarrow> \<not> free_entry (t ! j) \<Longrightarrow> key_at n t i = key_at n t j \<Longrightarrow> i = j"
  using assms by (auto simp: index_ok_def)

lemma kv_shapeD:
  assumes "kv_shape c"
  shows "table_ok (kv_mapping_table c)" "hash_slots c = of_nat (length (kv_mapping_table c))"
    "unat (hash_slots c) = length (kv_mapping_table c)"
proof -
  show t: "table_ok (kv_mapping_table c)" and h: "hash_slots c = of_nat (length (kv_mapping_table c))"
    using assms by (auto simp: kv_shape_def)
  show "unat (hash_slots c) = length (kv_mapping_table c)"
    unfolding h by (rule unat_of_nat_less) (use table_okD(2)[OF t] in simp)
qed

lemma home_less: "0 < length t \<Longrightarrow> length t < 2 ^ 31 \<Longrightarrow> unat (home t k) < length t"
proof -
  assume a: "0 < length t" "length t < 2 ^ 31"
  let ?x = "(ucast (hash_function k) :: u64) mod of_nat (length t)"
  have n: "unat (of_nat (length t) :: u64) = length t" by (rule unat_of_nat_less) (use a in simp)
  then have "unat ?x < length t" using a by (simp add: unat_mod)
  moreover from this have "unat (ucast ?x :: u32) = unat ?x" using a by (simp add: unsigned_ucast_eq take_bit_nat_eq_self)
  ultimately show ?thesis by (simp add: home_def)
qed

lemma get_hash_slot_ok:
  assumes "kv_shape c" "len \<le> length key"
  shows "get_hash_slot c key len = Some (home (kv_mapping_table c) (take len key))"
    "unat (home (kv_mapping_table c) (take len key)) < length (kv_mapping_table c)"
proof -
  note t = kv_shapeD[OF assms(1)]
  have "hash_slots c \<noteq> 0" using t(3) table_okD(1)[OF t(1)] by (metis neq0_conv unat_0)
  then show "get_hash_slot c key len = Some (home (kv_mapping_table c) (take len key))"
    using assms(2) t(2) by (simp add: get_hash_slot_def home_def)
  show "unat (home (kv_mapping_table c) (take len key)) < length (kv_mapping_table c)"
    using home_less table_okD(1,2)[OF t(1)] by blast
qed

subsection \<open>Look-up\<close>

lemma find_key_chain:
  assumes "kv_shape c" "len \<le> length key" "len \<le> KEY_SIZE"
  obtains xs where "chain (kv_mapping_table c) (home (kv_mapping_table c) (take len key)) xs"
    "find_key c key len = Some (map_option of_nat (List.find (\<lambda>i. key_at len (kv_mapping_table c) i = take len key) xs))"
proof -
  note t = kv_shapeD(1)[OF assms(1)] and h = get_hash_slot_ok[OF assms(1,2)]
  have l: "length (take len key) = len" using assms(2) by simp
  obtain xs where xs: "chain (kv_mapping_table c) (home (kv_mapping_table c) (take len key)) xs"
    using table_okD(5)[OF t h(2)] by blast
  then show ?thesis
    using search_chain_ok[OF xs h(2) t] assms(3) h(1) l by (intro that[of xs]) (simp_all add: find_key_def key_at_def)
qed

text \<open>In a well-formed store a look-up returns, and what it returns is an entry with the key.\<close>

lemma find_key_shape:
  assumes "kv_shape c" "len \<le> length key" "len \<le> KEY_SIZE"
  shows "\<exists>r. find_key c key len = Some r \<and> (\<forall>i. r = Some i \<longrightarrow> unat i < length (kv_mapping_table c) \<and>
    \<not> free_entry (kv_mapping_table c ! unat i) \<and> key_at len (kv_mapping_table c) (unat i) = take len key)"
proof -
  let ?t = "kv_mapping_table c"
  obtain xs where xs: "chain ?t (home ?t (take len key)) xs"
    "find_key c key len = Some (map_option of_nat (List.find (\<lambda>i. key_at len ?t i = take len key) xs))"
    using find_key_chain[OF assms] by blast
  have "i < length ?t \<and> \<not> free_entry (?t ! i) \<and> key_at len ?t i = take len key \<and> unat (of_nat i :: u32) = i"
    if f: "List.find (\<lambda>i. key_at len ?t i = take len key) xs = Some i" for i
  proof -
    from f have i: "i \<in> set xs" "key_at len ?t i = take len key" by (auto simp: find_Some_iff)
    note s = chain_slots[OF xs(1) i(1)]
    have "unat (of_nat i :: u32) = i" by (rule slot_nat) (use s table_okD(2)[OF kv_shapeD(1)[OF assms(1)]] in simp)
    then show ?thesis using s i(2) by simp
  qed
  then show ?thesis using xs(2) by auto
qed

lemma slot_of_key_iff:
  assumes "index_ok n t"
  shows "slot_of_key n t k = Some i \<longleftrightarrow> i < length t \<and> \<not> free_entry (t ! i) \<and> key_at n t i = k"
proof
  assume "slot_of_key n t k = Some i"
  then show "i < length t \<and> \<not> free_entry (t ! i) \<and> key_at n t i = k" by (auto simp: slot_of_key_def find_Some_iff)
next
  assume i: "i < length t \<and> \<not> free_entry (t ! i) \<and> key_at n t i = k"
  then have "slot_of_key n t k \<noteq> None" by (auto simp: slot_of_key_def find_None_iff)
  then obtain j where j: "slot_of_key n t k = Some j" by blast
  then have "j < length t \<and> \<not> free_entry (t ! j) \<and> key_at n t j = k" by (auto simp: slot_of_key_def find_Some_iff)
  then show "slot_of_key n t k = Some i" using i j index_okD(3)[OF assms, of j i] by simp
qed

lemma slot_of_key_None:
  "slot_of_key n t k = None \<longleftrightarrow> (\<forall>i < length t. free_entry (t ! i) \<or> key_at n t i \<noteq> k)"
  by (auto simp: slot_of_key_def find_None_iff)

lemma find_key_index:
  assumes "kv_shape c" "index_ok n (kv_mapping_table c)" "n \<le> length key" "n \<le> KEY_SIZE"
  shows "find_key c key n = Some (map_option of_nat (slot_of_key n (kv_mapping_table c) (take n key)))"
proof -
  let ?t = "kv_mapping_table c" and ?k = "take n key"
  obtain xs where xs: "chain ?t (home ?t ?k) xs"
    "find_key c key n = Some (map_option of_nat (List.find (\<lambda>i. key_at n ?t i = ?k) xs))"
    using find_key_chain[OF assms(1,3,4)] by blast
  have "List.find (\<lambda>i. key_at n ?t i = ?k) xs = slot_of_key n ?t ?k"
  proof (cases "slot_of_key n ?t ?k")
    case None
    then have "List.find (\<lambda>i. key_at n ?t i = ?k) xs = None" using chain_slots[OF xs(1)] by (auto simp: slot_of_key_None find_None_iff)
    then show ?thesis using None by simp
  next
    case (Some i)
    then have i: "i < length ?t" "\<not> free_entry (?t ! i)" "key_at n ?t i = ?k" using slot_of_key_iff[OF assms(2)] by auto
    have "i \<in> set xs" using index_okD(2)[OF assms(2) i(1,2)] i(3) chain_det[OF _ xs(1)] table_okD(2)[OF index_okD(1)[OF assms(2)]] by auto
    then obtain j where j: "List.find (\<lambda>i. key_at n ?t i = ?k) xs = Some j"
      using i(3) by (cases "List.find (\<lambda>i. key_at n ?t i = ?k) xs") (auto simp: find_None_iff)
    then have "j \<in> set xs" "key_at n ?t j = ?k" by (auto simp: find_Some_iff)
    then have "j = i" using chain_slots[OF xs(1)] i index_okD(3)[OF assms(2)] by auto
    then show ?thesis using j Some by simp
  qed
  then show ?thesis using xs(2) by simp
qed

text \<open>The entry a look-up returns, when there is one and when there is none.\<close>

lemma get_mapping_entry_none:
  "find_key c key len = Some None \<Longrightarrow> get_mapping_entry_by_key c key len = Some erased_entry"
  by (simp add: get_mapping_entry_by_key_def)

lemma get_mapping_entry_some:
  assumes "find_key c key len = Some (Some s)" "unat s < length (kv_mapping_table c)"
  obtains e where "get_mapping_entry_by_key c key len = Some e" "me_offset e = me_offset (kv_mapping_table c ! unat s)"
    "me_length e = me_length (kv_mapping_table c ! unat s)"
  using assms by (auto simp: get_mapping_entry_by_key_def)

subsection \<open>Insert\<close>

definition filled :: "mapping_entry \<Rightarrow> u8 list \<Rightarrow> nat \<Rightarrow> u64 \<Rightarrow> u64 \<Rightarrow> mapping_entry" where
  "filled e key len val_len off = e\<lparr>me_key := take len key @ drop len (me_key e), me_offset := off, me_length := val_len\<rparr>"

text \<open>
  What an insertion does: it fills a free slot, which is the home of the key or is chained to the
  last slot of its chain.
\<close>

definition inserted :: "mapping_entry list \<Rightarrow> u32 \<Rightarrow> nat \<Rightarrow> mapping_entry \<Rightarrow> mapping_entry list \<Rightarrow> bool" where
  "inserted t h r e t' \<longleftrightarrow> r < length t \<and> free_entry (t ! r) \<and>
     ((r = unat h \<and> t' = t[r := e]) \<or>
      (\<exists>hs. chain t h hs \<and> hs \<noteq> [] \<and> t' = t[r := e, last hs := (t ! last hs)\<lparr>me_next := of_nat r\<rparr>]))"

lemma new_mapping_entry_ok:
  assumes c: "kv_shape c" and k: "len \<le> length key" "len \<le> KEY_SIZE" and off: "off < kv_storage_size c"
    and f: "\<exists>i < length (kv_mapping_table c). free_entry (kv_mapping_table c ! i)"
  defines "t \<equiv> kv_mapping_table c"
  defines "h \<equiv> home t (take len key)"
  shows "\<exists>r t'. new_mapping_entry_by_key c key len val_len off = Some (c\<lparr>kv_mapping_table := t'\<rparr>) \<and>
    inserted t h r (filled (t ! r) key len val_len off) t'"
proof -
  note t = kv_shapeD[OF c, folded t_def]
  note T = table_okD[OF t(1)]
  have h: "get_hash_slot c key len = Some h" "unat h < length t" using get_hash_slot_ok[OF c k(1)] by (simp_all add: h_def t_def)
  obtain hs where hs: "chain t h hs" using T(5)[OF h(2)] by blast
  show ?thesis
  proof (cases "free_entry (t ! unat h)")
    case True
    then show ?thesis using h off k
      by (intro exI[of _ "unat h"] exI[of _ "t[unat h := filled (t ! unat h) key len val_len off]"])
        (auto simp: new_mapping_entry_by_key_def t_def[symmetric] amod_def inserted_def filled_def)
  next
    case False
    then have ne: "hs \<noteq> []" using hs h(2) T(2) by (cases hs) auto
    let ?p = "last hs"
    have p: "?p < length t" "\<not> free_entry (t ! ?p)" using chain_slots[OF hs] ne by auto
    have tail: "find_tail t (- 1) h = Some (of_nat ?p)" using find_tail_ok[OF hs h(2) T(2)] ne by simp
    obtain i where "i < length t" "free_entry (t ! i)" using f by (auto simp: t_def)
    then obtain r where r: "find_free t (of_nat (length t)) (of_nat ?p) = Some r" "unat r < length t" "free_entry (t ! unat r)"
      using find_free_exists[of i t ?p] p(1) T(2) by blast
    have up: "unat (of_nat ?p :: u32) = ?p" by (rule slot_nat) (use p(1) T(2) in simp)
    then have pn: "of_nat ?p \<noteq> (- 1 :: u32)" using p(1) T(2) by auto
    have nx: "find_next_slot c h = Some (r, of_nat ?p)" using tail r(1) t(2) by (simp add: find_next_slot_def t_def[symmetric])
    have pr: "?p \<noteq> unat r" using p r by auto
    let ?t' = "t[unat r := filled (t ! unat r) key len val_len off, ?p := (t ! ?p)\<lparr>me_next := r\<rparr>]"
    have "new_mapping_entry_by_key c key len val_len off = Some (c\<lparr>kv_mapping_table := ?t'\<rparr>)"
      using h off k False nx r pn up p pr
      by (simp add: new_mapping_entry_by_key_def t_def[symmetric] amod_def filled_def chain_mapping_def)
    then show ?thesis using r hs ne by (intro exI[of _ "unat r"] exI[of _ ?t']) (auto simp: inserted_def)
  qed
qed

lemma filled_sel [simp]:
  "me_offset (filled e key len vl off) = off" "me_length (filled e key len vl off) = vl" "me_next (filled e key len vl off) = me_next e"
  by (simp_all add: filled_def)

lemma filled_key:
  "len \<le> length key \<Longrightarrow> len \<le> length (me_key e) \<Longrightarrow> length (me_key (filled e key len vl off)) = length (me_key e)"
  "len \<le> length key \<Longrightarrow> take len (me_key (filled e key len vl off)) = take len key"
  by (simp_all add: filled_def)

lemma inserted_entries:
  assumes "inserted t h r e t'"
  shows "length t' = length t" "r < length t" "me_key (t' ! r) = me_key e" "me_offset (t' ! r) = me_offset e"
    "me_length (t' ! r) = me_length e" "i \<noteq> r \<Longrightarrow> me_key (t' ! i) = me_key (t ! i)"
    "i \<noteq> r \<Longrightarrow> me_offset (t' ! i) = me_offset (t ! i)" "i \<noteq> r \<Longrightarrow> me_length (t' ! i) = me_length (t ! i)"
  using assms chain_slots last_in_set by (auto simp: inserted_def nth_upd)

lemma inserted_ok:
  assumes "inserted t h r e t'" "table_ok t" "\<not> free_entry e" "me_next e = - 1" "length (me_key e) = KEY_SIZE"
  shows "table_ok t'"
  using assms table_ok_fill[of t r e] table_ok_insert[of t r e h] unfolding inserted_def by metis

lemma inserted_chains:
  assumes i: "inserted t h r e t'" and t: "table_ok t" and e: "\<not> free_entry e" "me_next e = - 1" and h: "unat h < length t"
  shows "chain t s xs \<Longrightarrow> \<exists>ys. chain t' s ys \<and> set xs \<subseteq> set ys" "\<exists>ys. chain t' h ys \<and> r \<in> set ys"
proof -
  note T = table_okD[OF t]
  have r: "r < length t" "free_entry (t ! r)" using i by (auto simp: inserted_def)
  consider "r = unat h" "t' = t[r := e]" |
    hs where "chain t h hs" "hs \<noteq> []" "t' = t[r := e, last hs := (t ! last hs)\<lparr>me_next := of_nat r\<rparr>]"
    using i unfolding inserted_def by blast
  then have "(chain t s xs \<longrightarrow> (\<exists>ys. chain t' s ys \<and> set xs \<subseteq> set ys)) \<and> (\<exists>ys. chain t' h ys \<and> r \<in> set ys)"
  proof cases
    case 1
    have "\<exists>ys. chain t' s ys \<and> set xs \<subseteq> set ys" if "chain t s xs"
      using chain_fill[OF that r e T(2)] 1(2) by fastforce
    moreover have "of_nat r = h" using 1(1) by simp
    then have "chain t' h [r]" using chain_filled[OF r(1) e T(2)] 1(2) by (simp only:)
    ultimately show ?thesis by fastforce
  next
    case 2
    show ?thesis unfolding 2(3) using chain_insert[OF T(2) r e 2(1,2)] 2(1) by blast
  qed
  then show "chain t s xs \<Longrightarrow> \<exists>ys. chain t' s ys \<and> set xs \<subseteq> set ys" "\<exists>ys. chain t' h ys \<and> r \<in> set ys" by blast+
qed

subsection \<open>The map\<close>

definition entry_map :: "nat \<Rightarrow> mapping_entry list \<Rightarrow> u8 list \<Rightarrow> (u64 \<times> u64) option" where
  "entry_map n t k = map_option (\<lambda>i. (me_offset (t ! i), me_length (t ! i))) (slot_of_key n t k)"

lemma entry_map_Some:
  "index_ok n t \<Longrightarrow> entry_map n t k = Some ol \<longleftrightarrow>
    (\<exists>i < length t. \<not> free_entry (t ! i) \<and> key_at n t i = k \<and> ol = (me_offset (t ! i), me_length (t ! i)))"
  by (auto simp: entry_map_def slot_of_key_iff)

lemma entry_map_eqI:
  assumes "\<And>k ol. f k = Some ol \<longleftrightarrow> g k = Some ol"
  shows "f = (g :: _ \<Rightarrow> _ option)"
  using assms by (metis ext not_Some_eq)

lemma home_length: "length t' = length t \<Longrightarrow> home t' k = home t k"
  by (simp add: home_def)

lemma index_insert:
  assumes ix: "index_ok n t" and i: "inserted t (home t (take n key)) r (filled (t ! r) key n vl off) t'"
    and k: "n \<le> length key" "n \<le> KEY_SIZE" and off: "off \<noteq> - 1" and new: "slot_of_key n t (take n key) = None"
  shows "index_ok n t'" "entry_map n t' = (entry_map n t)(take n key \<mapsto> (off, vl))"
proof -
  let ?e = "filled (t ! r) key n vl off" and ?k = "take n key"
  note T = table_okD[OF index_okD(1)[OF ix]] and E = inserted_entries[OF i]
  have r: "r < length t" "free_entry (t ! r)" using i by (auto simp: inserted_def)
  have e: "\<not> free_entry ?e" "me_next ?e = - 1" "length (me_key ?e) = KEY_SIZE"
    using off T(3,4) r k filled_key(1)[of n key "t ! r"] by auto
  have kr: "key_at n t' r = ?k" using E(3) filled_key(2)[OF k(1)] by (simp add: key_at_def)
  have kj: "key_at n t' j = key_at n t j" "free_entry (t' ! j) = free_entry (t ! j)" if "j \<noteq> r" for j
    using E(6,7)[OF that] by (simp_all add: key_at_def)
  have occ: "\<not> free_entry (t' ! j) \<longleftrightarrow> j = r \<or> \<not> free_entry (t ! j)" for j
    using kj(2)[of j] E(4) off by auto
  have no: "free_entry (t ! j) \<or> key_at n t j \<noteq> ?k" if "j < length t" for j
    using new that by (simp add: slot_of_key_None)
  have ok: "table_ok t'" by (rule inserted_ok[OF i index_okD(1)[OF ix] e])
  have h: "unat (home t ?k) < length t" using home_less T(1,2) by blast
  note C = inserted_chains[OF i index_okD(1)[OF ix] e(1,2) h]
  show ix': "index_ok n t'"
    unfolding index_ok_def
  proof (intro conjI allI impI)
    fix j assume j: "j < length t'" "\<not> free_entry (t' ! j)"
    show "\<exists>xs. chain t' (home t' (key_at n t' j)) xs \<and> j \<in> set xs"
    proof (cases "j = r")
      case True
      then show ?thesis using C(2) kr home_length[OF E(1)] by simp
    next
      case False
      then obtain xs where "chain t (home t (key_at n t j)) xs" "j \<in> set xs"
        using index_okD(2)[OF ix, of j] j occ E(1) by auto
      then show ?thesis using C(1)[of "home t (key_at n t j)" xs] kj(1)[OF False] home_length[OF E(1)] by auto
    qed
  next
    fix i j
    assume "i < length t'" "j < length t'" "\<not> free_entry (t' ! i) \<and> \<not> free_entry (t' ! j) \<and> key_at n t' i = key_at n t' j"
    then show "i = j"
      using E(1) occ kj(1) kr no index_okD(3)[OF ix, of i j] by (cases "i = r"; cases "j = r") auto
  qed (rule ok)
  show "entry_map n t' = (entry_map n t)(?k \<mapsto> (off, vl))"
  proof (rule entry_map_eqI)
    fix k' ol
    let ?Q = "\<lambda>t j. \<not> free_entry (t ! j) \<and> key_at n t j = k' \<and> ol = (me_offset (t ! j), me_length (t ! j))"
    have "entry_map n t' k' = Some ol \<longleftrightarrow> (\<exists>j < length t. ?Q t' j)" by (simp add: entry_map_Some[OF ix'] E(1))
    also have "\<dots> \<longleftrightarrow> ?Q t' r \<or> (\<exists>j < length t. j \<noteq> r \<and> ?Q t' j)" using E(2) by blast
    also have "\<dots> \<longleftrightarrow> (k' = ?k \<and> ol = (off, vl)) \<or> (\<exists>j < length t. j \<noteq> r \<and> ?Q t j)"
      using E(4,5,7,8) kr kj(1) off by auto
    also have "\<dots> \<longleftrightarrow> ((entry_map n t)(?k \<mapsto> (off, vl))) k' = Some ol"
      using no r(2) by (auto simp: entry_map_Some[OF ix])
    finally show "entry_map n t' k' = Some ol \<longleftrightarrow> ((entry_map n t)(?k \<mapsto> (off, vl))) k' = Some ol" .
  qed
qed

end
