(* ===== verification/Kv_Ops.thy ===== *)
theory Kv_Ops
  imports Kv_Map
begin

text \<open>
  Erasing and updating as operations on the map, and what the operations of the store keep
  whatever is deleted: the shape of the table, the bounds of the values, and the parts of the
  state that do not change.
\<close>

subsection \<open>Erase\<close>

text \<open>The last slot of its chain can be erased: nothing else is lost.\<close>

definition chain_end :: "mapping_entry list \<Rightarrow> nat \<Rightarrow> bool" where
  "chain_end t i \<longleftrightarrow> me_next (t ! i) = - 1 \<or> free_entry (t ! unat (me_next (t ! i)))"

lemma chain_end_single:
  assumes "table_ok t" "i < length t" "\<not> free_entry (t ! i)" "chain_end t i"
  shows "chain t (of_nat i) [i]"
proof -
  have u: "unat (of_nat i :: u32) = i" by (rule slot_nat) (use assms(2) table_okD(2)[OF assms(1)] in simp)
  then obtain xs where xs: "chain t (of_nat i) xs" using table_okD(5)[OF assms(1), of "of_nat i"] assms(2) by auto
  then obtain ys where ys: "xs = i # ys" using u assms(2,3) table_okD(2)[OF assms(1)] by (cases xs) auto
  then have "chain t (me_next (t ! i)) ys" using xs by auto
  then have "ys = []" using assms(4) table_okD(2)[OF assms(1)] by (cases ys) (auto simp: chain_end_def)
  then show ?thesis using xs ys by simp
qed

lemma entry_map_erased:
  assumes "index_ok n t" "index_ok n (t[i := erased_entry])" "i < length t" "\<not> free_entry (t ! i)"
  shows "entry_map n (t[i := erased_entry]) = (entry_map n t)(key_at n t i := None)"
proof (rule entry_map_eqI)
  fix k ol
  let ?Q = "\<lambda>t j. \<not> free_entry (t ! j) \<and> key_at n t j = k \<and> ol = (me_offset (t ! j), me_length (t ! j))"
  let ?t = "t[i := erased_entry]"
  have "entry_map n ?t k = Some ol \<longleftrightarrow> (\<exists>j < length t. ?Q ?t j)" using entry_map_Some[OF assms(2)] by simp
  also have "\<dots> \<longleftrightarrow> (\<exists>j < length t. j \<noteq> i \<and> ?Q t j)"
  proof -
    have "?Q ?t j \<longleftrightarrow> j \<noteq> i \<and> ?Q t j" if "j < length t" for j
      using that by (auto simp: key_at_def nth_upd erased_entry_def)
    then show ?thesis by blast
  qed
  also have "\<dots> \<longleftrightarrow> ((entry_map n t)(key_at n t i := None)) k = Some ol"
    using index_okD(3)[OF assms(1), of _ i] assms(3,4) by (auto simp: entry_map_Some[OF assms(1)])
  finally show "entry_map n ?t k = Some ol \<longleftrightarrow> ((entry_map n t)(key_at n t i := None)) k = Some ol" .
qed

lemma index_erase:
  assumes ix: "index_ok n t" and i: "i < length t" "\<not> free_entry (t ! i)" "chain_end t i"
  shows "index_ok n (t[i := erased_entry])" "entry_map n (t[i := erased_entry]) = (entry_map n t)(key_at n t i := None)"
proof -
  note tok = index_okD(1)[OF ix]
  let ?t = "t[i := erased_entry]"
  have single: "chain t (of_nat i) [i]" by (rule chain_end_single[OF tok i])
  have occ: "\<not> free_entry (?t ! j) \<longleftrightarrow> j \<noteq> i \<and> \<not> free_entry (t ! j)" if "j < length t" for j
    using that by (auto simp: nth_upd erased_entry_def)
  have key: "key_at n ?t j = key_at n t j" if "j \<noteq> i" for j using that by (simp add: key_at_def)
  show ix': "index_ok n ?t"
    unfolding index_ok_def
  proof (intro conjI allI impI)
    fix j assume j: "j < length ?t" "\<not> free_entry (?t ! j)"
    then have ji: "j \<noteq> i" "\<not> free_entry (t ! j)" "j < length t" using occ by auto
    then obtain xs where xs: "chain t (home t (key_at n t j)) xs" "j \<in> set xs" using index_okD(2)[OF ix] by blast
    have "j \<in> set (takeWhile (\<lambda>j. j \<noteq> i) xs)"
    proof (cases "i \<in> set xs")
      case True
      then obtain ys where "xs = ys @ [i]" "i \<notin> set ys"
        using chain_split_last[OF xs(1) single _ table_okD(2)[OF tok]] by blast
      then show ?thesis using xs(2) ji(1) takeWhile_until[of i ys "[]"] by simp
    next
      case False
      then have "\<forall>x \<in> set xs. x \<noteq> i" by blast
      then have "takeWhile (\<lambda>j. j \<noteq> i) xs = xs" by (simp only: takeWhile_eq_all_conv)
      then show ?thesis using xs(2) by (simp only:)
    qed
    moreover have "chain ?t (home t (key_at n t j)) (takeWhile (\<lambda>j. j \<noteq> i) xs)"
      by (rule chain_erase[OF xs(1) _ i(1)]) (simp add: erased_entry_def)
    ultimately show "\<exists>xs. chain ?t (home ?t (key_at n ?t j)) xs \<and> j \<in> set xs"
      using key[OF ji(1)] home_length[of ?t t] by auto
  next
    fix a b
    assume "a < length ?t" "b < length ?t" "\<not> free_entry (?t ! a) \<and> \<not> free_entry (?t ! b) \<and> key_at n ?t a = key_at n ?t b"
    then show "a = b" using occ key index_okD(3)[OF ix, of a b] by auto
  qed (rule table_ok_erase[OF tok i(1)])
  show "entry_map n ?t = (entry_map n t)(key_at n t i := None)" by (rule entry_map_erased[OF ix ix' i(1,2)])
qed

subsection \<open>Change of length\<close>

lemma index_length:
  fixes l :: u64
  assumes ix: "index_ok n t" and i: "i < length t" "\<not> free_entry (t ! i)"
  defines "t' \<equiv> t[i := (t ! i)\<lparr>me_length := l\<rparr>]"
  shows "index_ok n t'" "entry_map n t' = (entry_map n t)(key_at n t i \<mapsto> (me_offset (t ! i), l))"
proof -
  have len: "length t' = length t" by (simp add: t'_def)
  have s: "me_offset (t' ! j) = me_offset (t ! j)" "key_at n t' j = key_at n t j" "me_next (t' ! j) = me_next (t ! j)"
    "me_length (t' ! j) = (if j = i then l else me_length (t ! j))" if "j < length t" for j
    using that by (auto simp: t'_def key_at_def nth_upd)
  have ch: "chain t' x xs = chain t x xs" for x xs by (rule chain_cong[OF len]) (simp add: s)
  show ix': "index_ok n t'"
    unfolding index_ok_def
  proof (intro conjI allI impI)
    fix j assume "j < length t'" "\<not> free_entry (t' ! j)"
    then show "\<exists>xs. chain t' (home t' (key_at n t' j)) xs \<and> j \<in> set xs"
      using index_okD(2)[OF ix, of j] s(1,2)[of j] len home_length[OF len] by (simp add: ch)
  next
    fix a b
    assume "a < length t'" "b < length t'" "\<not> free_entry (t' ! a) \<and> \<not> free_entry (t' ! b) \<and> key_at n t' a = key_at n t' b"
    then show "a = b" using index_okD(3)[OF ix, of a b] s(1,2) len by simp
  qed (simp add: t'_def table_ok_length[OF index_okD(1)[OF ix] i(1)])
  show "entry_map n t' = (entry_map n t)(key_at n t i \<mapsto> (me_offset (t ! i), l))"
  proof (rule entry_map_eqI)
    fix k ol
    let ?Q = "\<lambda>t j. \<not> free_entry (t ! j) \<and> key_at n t j = k \<and> ol = (me_offset (t ! j), me_length (t ! j))"
    have "entry_map n t' k = Some ol \<longleftrightarrow> (\<exists>j < length t. ?Q t' j)" by (simp add: entry_map_Some[OF ix'] len)
    also have "\<dots> \<longleftrightarrow> ?Q t' i \<or> (\<exists>j < length t. j \<noteq> i \<and> ?Q t' j)" using i(1) by blast
    also have "\<dots> \<longleftrightarrow> (key_at n t i = k \<and> ol = (me_offset (t ! i), l)) \<or> (\<exists>j < length t. j \<noteq> i \<and> ?Q t j)"
      using s i by auto
    also have "\<dots> \<longleftrightarrow> ((entry_map n t)(key_at n t i \<mapsto> (me_offset (t ! i), l))) k = Some ol"
      using index_okD(3)[OF ix, of _ i] i by (auto simp: entry_map_Some[OF ix])
    finally show "entry_map n t' k = Some ol \<longleftrightarrow> ((entry_map n t)(key_at n t i \<mapsto> (me_offset (t ! i), l))) k = Some ol" .
  qed
qed

subsection \<open>The store as a whole\<close>

text \<open>
  \<open>kv_inv\<close> is what every command keeps: the shape of the table and every value inside the storage.
\<close>

definition entry_fits :: "u64 \<Rightarrow> mapping_entry \<Rightarrow> bool" where
  "entry_fits sz e \<longleftrightarrow> free_entry e \<or> unat (me_offset e) + unat (me_length e) \<le> unat sz"

definition kv_inv :: "'s allocator_ops \<Rightarrow> ('s \<Rightarrow> u64) \<Rightarrow> 's kv_ftl \<Rightarrow> bool" where
  "kv_inv ops dsz c \<longleftrightarrow> kv_shape c \<and> allocator_ops c = ops \<and> dsz (alloc_state c) = kv_storage_size c \<and>
     (\<forall>e \<in> set (kv_mapping_table c). entry_fits (kv_storage_size c) e)"

lemma kv_invD:
  assumes "kv_inv ops dsz c"
  shows "kv_shape c" "allocator_ops c = ops" "dsz (alloc_state c) = kv_storage_size c"
    "\<And>i. i < length (kv_mapping_table c) \<Longrightarrow> entry_fits (kv_storage_size c) (kv_mapping_table c ! i)"
  using assms by (auto simp: kv_inv_def)

lemma kv_inv_table:
  assumes "kv_inv ops dsz c" "table_ok t" "length t = length (kv_mapping_table c)" "\<forall>e \<in> set t. entry_fits (kv_storage_size c) e"
  shows "kv_inv ops dsz (c\<lparr>kv_mapping_table := t\<rparr>)"
  using assms by (auto simp: kv_inv_def kv_shape_def)

lemma kv_inv_storage: "kv_inv ops dsz c \<Longrightarrow> kv_inv ops dsz (c\<lparr>kv_storage := st\<rparr>)"
  by (auto simp: kv_inv_def kv_shape_def)

lemma kv_inv_alloc: "kv_inv ops dsz c \<Longrightarrow> dsz s = dsz (alloc_state c) \<Longrightarrow> kv_inv ops dsz (c\<lparr>alloc_state := s\<rparr>)"
  by (auto simp: kv_inv_def kv_shape_def)

lemma kv_inv_erase:
  assumes "kv_inv ops dsz c" "i < length (kv_mapping_table c)"
  shows "kv_inv ops dsz (c\<lparr>kv_mapping_table := (kv_mapping_table c)[i := erased_entry]\<rparr>)"
proof (rule kv_inv_table[OF assms(1)])
  show "table_ok ((kv_mapping_table c)[i := erased_entry])"
    by (rule table_ok_erase[OF kv_shapeD(1)[OF kv_invD(1)[OF assms(1)]] assms(2)])
  show "\<forall>e \<in> set ((kv_mapping_table c)[i := erased_entry]). entry_fits (kv_storage_size c) e"
    by (rule set_upd_ok) (use assms in \<open>auto simp: kv_inv_def entry_fits_def erased_entry_def\<close>)
qed simp

lemma kv_inv_length:
  assumes "kv_inv ops dsz c" "i < length (kv_mapping_table c)"
    and "unat (me_offset (kv_mapping_table c ! i)) + unat l \<le> unat (kv_storage_size c)"
  shows "kv_inv ops dsz (c\<lparr>kv_mapping_table := (kv_mapping_table c)[i := (kv_mapping_table c ! i)\<lparr>me_length := l\<rparr>]\<rparr>)"
proof (rule kv_inv_table[OF assms(1)])
  show "table_ok ((kv_mapping_table c)[i := (kv_mapping_table c ! i)\<lparr>me_length := l\<rparr>])"
    by (rule table_ok_length[OF kv_shapeD(1)[OF kv_invD(1)[OF assms(1)]] assms(2)])
  show "\<forall>e \<in> set ((kv_mapping_table c)[i := (kv_mapping_table c ! i)\<lparr>me_length := l\<rparr>]). entry_fits (kv_storage_size c) e"
    by (rule set_upd_ok) (use assms in \<open>auto simp: kv_inv_def entry_fits_def\<close>)
qed simp

lemma kv_inv_insert:
  assumes c: "kv_inv ops dsz c" and i: "inserted (kv_mapping_table c) h r (filled (kv_mapping_table c ! r) key len vl off) t'"
    and k: "len \<le> length key" "len \<le> KEY_SIZE" and off: "off < kv_storage_size c" "unat off + unat vl \<le> unat (kv_storage_size c)"
  shows "kv_inv ops dsz (c\<lparr>kv_mapping_table := t'\<rparr>)"
proof (rule kv_inv_table[OF c])
  let ?t = "kv_mapping_table c"
  let ?e = "filled (?t ! r) key len vl off"
  note tok = kv_shapeD(1)[OF kv_invD(1)[OF c]]
  have r: "r < length ?t" "free_entry (?t ! r)" using i by (auto simp: inserted_def)
  have "off \<noteq> - 1" using off(1) by (metis word_n1_ge linorder_not_less)
  then have e: "\<not> free_entry ?e" "me_next ?e = - 1" "length (me_key ?e) = KEY_SIZE"
    using table_okD(3,4)[OF tok] r k filled_key(1)[of len key "?t ! r"] by auto
  show "table_ok t'" by (rule inserted_ok[OF i tok e])
  note E = inserted_entries[OF i]
  show "length t' = length ?t" by (rule E(1))
  show "\<forall>e \<in> set t'. entry_fits (kv_storage_size c) e"
  proof
    fix x assume "x \<in> set t'"
    then obtain j where j: "j < length t'" "x = t' ! j" by (auto simp: in_set_conv_nth)
    show "entry_fits (kv_storage_size c) x"
      using kv_invD(4)[OF c, of j] E j off by (cases "j = r") (auto simp: entry_fits_def)
  qed
qed

end
