(* ===== verification/Kv_Service.thy ===== *)
theory Kv_Service
  imports Kv_Ops
begin

text \<open>
  What each command of the key-value store does when it returns, and when it returns: a store of
  a new key needs a free entry and room in the allocator, a store of a key that has a value needs
  the new value to end inside the storage, and the entries of the value must describe host memory.
\<close>

definition kv_len :: "nvme_kv_command \<Rightarrow> u64" where "kv_len cmd = ucast (cmd_value_length cmd)"

definition cmd_key :: "nvme_kv_command \<Rightarrow> u8 list" where
  "cmd_key cmd = take (cmd_key_length cmd) (kv_key cmd)"

definition kv_keyed :: "nvme_kv_command \<Rightarrow> bool" where
  "kv_keyed cmd \<longleftrightarrow> length (kv_key cmd) = 16 \<and> cmd_key_length cmd \<le> 16"

text \<open>The slot of the key of a command.\<close>

definition cmd_slot :: "'s kv_ftl \<Rightarrow> nvme_kv_command \<Rightarrow> u32 option" where
  "cmd_slot c cmd = the (find_key c (kv_key cmd) (cmd_key_length cmd))"

definition cmd_old :: "'s kv_ftl \<Rightarrow> nvme_kv_command \<Rightarrow> mapping_entry" where
  "cmd_old c cmd = kv_mapping_table c ! unat (the (cmd_slot c cmd))"

definition kv_pages :: "host_mem \<Rightarrow> nvme_kv_command \<Rightarrow> u64 \<Rightarrow> bool" where
  "kv_pages m cmd len \<longleftrightarrow> (\<exists>ss. prp_ok m (kv_prp1 cmd) (kv_prp2 cmd) (unat len) ss)"

definition host_data :: "host_mem \<Rightarrow> nvme_kv_command \<Rightarrow> u64 \<Rightarrow> u8 list" where
  "host_data m cmd len = host_value m (kv_prp1 cmd) (kv_prp2 cmd) (unat len)"

definition kv_admissible :: "('s \<Rightarrow> u64 \<Rightarrow> bool) \<Rightarrow> 's kv_ftl \<Rightarrow> host_mem \<Rightarrow> nvme_kv_command \<Rightarrow> bool" where
  "kv_admissible room c m cmd \<longleftrightarrow> kv_keyed cmd \<and>
     (kv_opcode cmd = nvme_cmd_kv_store \<longrightarrow> kv_pages m cmd (kv_len cmd) \<and>
        (if cmd_slot c cmd = None then room (alloc_state c) (kv_len cmd) \<and> (\<exists>e \<in> set (kv_mapping_table c). free_entry e)
         else unat (me_offset (cmd_old c cmd)) + unat (kv_len cmd) \<le> unat (kv_storage_size c))) \<and>
     (kv_opcode cmd = nvme_cmd_kv_retrieve \<and> cmd_slot c cmd \<noteq> None \<longrightarrow>
        kv_pages m cmd (min (me_length (cmd_old c cmd)) (kv_len cmd)))"

lemma cmd_key_small: "kv_keyed cmd \<Longrightarrow> cmd_key_length cmd \<le> length (kv_key cmd) \<and> cmd_key_length cmd \<le> KEY_SIZE"
  by (simp add: kv_keyed_def KEY_SIZE_def)

subsection \<open>The slot of a command\<close>

lemma cmd_slot_ok:
  assumes "kv_shape c" "kv_keyed cmd"
  shows "find_key c (kv_key cmd) (cmd_key_length cmd) = Some (cmd_slot c cmd)"
    "cmd_slot c cmd = Some i \<Longrightarrow> unat i < length (kv_mapping_table c) \<and> \<not> free_entry (kv_mapping_table c ! unat i)"
  using find_key_shape[OF assms(1), of "cmd_key_length cmd" "kv_key cmd"] cmd_key_small[OF assms(2)] by (auto simp: cmd_slot_def)

lemma cmd_entry_none:
  assumes "kv_shape c" "kv_keyed cmd" "cmd_slot c cmd = None"
  shows "get_mapping_entry c cmd = Some erased_entry"
  using get_mapping_entry_none[of c] cmd_slot_ok(1)[OF assms(1,2)] assms(3) by (simp add: get_mapping_entry_def)

lemma cmd_entry_some:
  assumes "kv_shape c" "kv_keyed cmd" "cmd_slot c cmd \<noteq> None"
  obtains e where "get_mapping_entry c cmd = Some e" "me_offset e = me_offset (cmd_old c cmd)" "me_length e = me_length (cmd_old c cmd)"
    "\<not> free_entry e"
proof -
  obtain s where s: "cmd_slot c cmd = Some s" using assms(3) by blast
  note i = cmd_slot_ok(2)[OF assms(1,2) s]
  have f: "find_key c (kv_key cmd) (cmd_key_length cmd) = Some (Some s)" using cmd_slot_ok(1)[OF assms(1,2)] s by simp
  have "cmd_old c cmd = kv_mapping_table c ! unat s" by (simp add: cmd_old_def s)
  then show ?thesis
    using get_mapping_entry_some[OF f] i that unfolding get_mapping_entry_def by metis
qed

subsection \<open>The copy\<close>

lemma kv_copy_store:
  assumes "kv_opcode cmd = nvme_cmd_kv_store" "kv_pages m cmd len" "unat off + unat len \<le> unat (kv_storage_size c)"
  shows "kv_copy c m cmd off len = Some (c\<lparr>kv_storage := host_put (kv_storage c) (unat off) (host_data m cmd len)\<rparr>, m)"
  using assms copy_in_ok[of m "kv_prp1 cmd" "kv_prp2 cmd" "unat len" _ "unat off" "unat (kv_storage_size c)" "kv_storage c"]
  by (auto simp: kv_copy_def kv_pages_def host_data_def)

lemma length_host_data: "kv_pages m cmd len \<Longrightarrow> length (host_data m cmd len) = unat len"
  using length_host_value by (auto simp: kv_pages_def host_data_def)

lemma kv_copy_retrieve:
  assumes "kv_opcode cmd = nvme_cmd_kv_retrieve" "kv_pages m cmd len" "unat off + unat len \<le> unat (kv_storage_size c)"
  shows "\<exists>m'. kv_copy c m cmd off len = Some (c, m') \<and> host_data m' cmd len = host_get (kv_storage c) (unat off) (unat len)"
proof -
  obtain ss where ss: "prp_ok m (kv_prp1 cmd) (kv_prp2 cmd) (unat len) ss" using assms(2) by (auto simp: kv_pages_def)
  from copy_out_ok[OF ss assms(3), of "kv_storage c"] assms(1) show ?thesis
    by (auto simp: kv_copy_def host_data_def kv_opcodes)
qed

subsection \<open>The commands\<close>

context kv_allocator
begin

lemma store_new:
  assumes c: "kv_inv ops dev_size c" and k: "kv_keyed cmd" and op: "kv_opcode cmd = nvme_cmd_kv_store"
    and s: "cmd_slot c cmd = None" and p: "kv_pages m cmd (kv_len cmd)" and room: "room (alloc_state c) (kv_len cmd)"
    and f: "\<exists>e \<in> set (kv_mapping_table c). free_entry e"
  defines "t \<equiv> kv_mapping_table c"
  shows "\<exists>off s' r t'. op_allocate ops (kv_len cmd) (alloc_state c) = Some (off, s') \<and> off < kv_storage_size c \<and>
    inserted t (home t (cmd_key cmd)) r (filled (t ! r) (kv_key cmd) (cmd_key_length cmd) (kv_len cmd) off) t' \<and>
    do_perform_kv_io c m cmd st = Some (0, st,
      c\<lparr>alloc_state := s', kv_storage := host_put (kv_storage c) (unat off) (host_data m cmd (kv_len cmd)), kv_mapping_table := t'\<rparr>, m)"
proof -
  note I = kv_invD[OF c]
  obtain off s' where a: "op_allocate ops (kv_len cmd) (alloc_state c) = Some (off, s')" using alloc_room[OF room] by blast
  note w = alloc_within[OF room a]
  have off: "off < kv_storage_size c" "unat off + unat (kv_len cmd) \<le> unat (kv_storage_size c)" using w(1,2) I(3) by simp_all
  then have "off \<noteq> - 1" by (metis word_n1_ge linorder_not_less)
  then have al: "allocate_mem_offset c cmd = Some (off, c\<lparr>alloc_state := s'\<rparr>)"
    using op a I(2) by (simp add: allocate_mem_offset_def allocate_mem_offset_by_length_def kv_len_def)
  let ?c = "c\<lparr>alloc_state := s', kv_storage := host_put (kv_storage c) (unat off) (host_data m cmd (kv_len cmd))\<rparr>"
  have cp: "kv_copy (c\<lparr>alloc_state := s'\<rparr>) m cmd off (kv_len cmd) = Some (?c, m)"
    using kv_copy_store[OF op p, of off "c\<lparr>alloc_state := s'\<rparr>"] off by simp
  have "kv_shape ?c" using I(1) by (simp add: kv_shape_def)
  moreover have "\<exists>i < length t. free_entry (t ! i)" using f by (auto simp: t_def in_set_conv_nth)
  ultimately obtain r t' where r:
    "new_mapping_entry_by_key ?c (kv_key cmd) (cmd_key_length cmd) (kv_len cmd) off = Some (?c\<lparr>kv_mapping_table := t'\<rparr>)"
    "inserted t (home t (cmd_key cmd)) r (filled (t ! r) (kv_key cmd) (cmd_key_length cmd) (kv_len cmd) off) t'"
    using new_mapping_entry_ok[of ?c "cmd_key_length cmd" "kv_key cmd" off "kv_len cmd"] cmd_key_small[OF k] off(1)
    by (auto simp: t_def cmd_key_def)
  have "kv_store c m cmd erased_entry = Some (?c\<lparr>kv_mapping_table := t'\<rparr>, m)"
    using al cp r(1) by (simp add: kv_store_def erased_entry_def kv_len_def[symmetric] new_mapping_entry_def)
  then have "do_perform_kv_io c m cmd st = Some (0, st, ?c\<lparr>kv_mapping_table := t'\<rparr>, m)"
    using cmd_entry_none[OF I(1) k s] op by (simp add: do_perform_kv_io_def)
  then show ?thesis using a off(1) r(2) by auto
qed

lemma store_old:
  assumes c: "kv_inv ops dev_size c" and k: "kv_keyed cmd" and op: "kv_opcode cmd = nvme_cmd_kv_store"
    and s: "cmd_slot c cmd = Some i" and p: "kv_pages m cmd (kv_len cmd)"
    and fit: "unat (me_offset (cmd_old c cmd)) + unat (kv_len cmd) \<le> unat (kv_storage_size c)"
  shows "do_perform_kv_io c m cmd st = Some (0, st,
      c\<lparr>kv_storage := host_put (kv_storage c) (unat (me_offset (cmd_old c cmd))) (host_data m cmd (kv_len cmd)),
        kv_mapping_table := (if kv_len cmd \<noteq> me_length (cmd_old c cmd) \<and> kv_len cmd \<le> SMALL_LENGTH \<and> me_length (cmd_old c cmd) \<le> SMALL_LENGTH
          then (kv_mapping_table c)[unat i := (cmd_old c cmd)\<lparr>me_length := kv_len cmd\<rparr>] else kv_mapping_table c)\<rparr>, m)"
proof -
  note I = kv_invD[OF c]
  have il: "unat i < length (kv_mapping_table c)" using cmd_slot_ok(2)[OF I(1) k s] by simp
  have old: "cmd_old c cmd = kv_mapping_table c ! unat i" by (simp add: cmd_old_def s)
  obtain e where e: "get_mapping_entry c cmd = Some e" "me_offset e = me_offset (cmd_old c cmd)"
    "me_length e = me_length (cmd_old c cmd)" "\<not> free_entry e"
    using cmd_entry_some[OF I(1) k] s by blast
  let ?c = "c\<lparr>kv_storage := host_put (kv_storage c) (unat (me_offset (cmd_old c cmd))) (host_data m cmd (kv_len cmd))\<rparr>"
  have cp: "kv_copy c m cmd (me_offset e) (kv_len cmd) = Some (?c, m)" using kv_copy_store[OF op p] fit e(2) by simp
  have "find_key ?c (kv_key cmd) (cmd_key_length cmd) = find_key c (kv_key cmd) (cmd_key_length cmd)"
    by (simp add: find_key_def get_hash_slot_def)
  then have up: "update_mapping_entry ?c cmd = Some (?c\<lparr>kv_mapping_table := (kv_mapping_table c)[unat i := (cmd_old c cmd)\<lparr>me_length := kv_len cmd\<rparr>]\<rparr>)"
    using cmd_slot_ok(1)[OF I(1) k] s il old by (simp add: update_mapping_entry_def kv_len_def amod_def)
  show ?thesis
  proof (cases "kv_len cmd \<noteq> me_length (cmd_old c cmd) \<and> kv_len cmd \<le> SMALL_LENGTH \<and> me_length (cmd_old c cmd) \<le> SMALL_LENGTH")
    case True
    then have "kv_store c m cmd e = Some (?c\<lparr>kv_mapping_table := (kv_mapping_table c)[unat i := (cmd_old c cmd)\<lparr>me_length := kv_len cmd\<rparr>]\<rparr>, m)"
      using cp up e by (simp add: kv_store_def kv_len_def[symmetric] Let_def)
    then show ?thesis using e(1) op True by (simp add: do_perform_kv_io_def)
  next
    case False
    then have "kv_store c m cmd e = Some (?c, m)" using cp e by (auto simp: kv_store_def kv_len_def[symmetric] Let_def)
    then show ?thesis using e(1) op False by (auto simp: do_perform_kv_io_def)
  qed
qed

lemma retrieve_some:
  assumes c: "kv_inv ops dev_size c" and k: "kv_keyed cmd" and op: "kv_opcode cmd = nvme_cmd_kv_retrieve"
    and s: "cmd_slot c cmd \<noteq> None" and p: "kv_pages m cmd (min (me_length (cmd_old c cmd)) (kv_len cmd))"
  defines "len \<equiv> min (me_length (cmd_old c cmd)) (kv_len cmd)"
  shows "\<exists>m'. do_perform_kv_io c m cmd st = Some (ucast len, st, c, m') \<and>
    host_data m' cmd len = host_get (kv_storage c) (unat (me_offset (cmd_old c cmd))) (unat len)"
proof -
  note I = kv_invD[OF c]
  obtain i where i: "cmd_slot c cmd = Some i" using s by blast
  have il: "unat i < length (kv_mapping_table c)" "\<not> free_entry (cmd_old c cmd)" "cmd_old c cmd = kv_mapping_table c ! unat i"
    using cmd_slot_ok(2)[OF I(1) k i] by (simp_all add: cmd_old_def i)
  obtain e where e: "get_mapping_entry c cmd = Some e" "me_offset e = me_offset (cmd_old c cmd)"
    "me_length e = me_length (cmd_old c cmd)" "\<not> free_entry e"
    using cmd_entry_some[OF I(1) k s] by blast
  have "unat (me_offset (cmd_old c cmd)) + unat (me_length (cmd_old c cmd)) \<le> unat (kv_storage_size c)"
    using I(4)[OF il(1)] il(2,3) by (simp add: entry_fits_def)
  moreover have "unat len \<le> unat (me_length (cmd_old c cmd))" by (simp add: len_def word_le_nat_alt[symmetric])
  ultimately have "unat (me_offset e) + unat len \<le> unat (kv_storage_size c)" using e(2) by simp
  from kv_copy_retrieve[OF op p[folded len_def] this] obtain m' where
    m': "kv_copy c m cmd (me_offset e) len = Some (c, m')" "host_data m' cmd len = host_get (kv_storage c) (unat (me_offset e)) (unat len)" by blast
  have "do_perform_kv_io c m cmd st = Some (ucast len, st, c, m')"
    using e op m'(1) by (simp add: do_perform_kv_io_def kv_opcodes kv_len_def[symmetric] len_def)
  then show ?thesis using m'(2) e(2) by auto
qed

lemma delete_some:
  assumes c: "kv_inv ops dev_size c" and k: "kv_keyed cmd" and op: "kv_opcode cmd = nvme_cmd_kv_delete" and s: "cmd_slot c cmd = Some i"
  shows "do_perform_kv_io c m cmd st = Some (0, st, c\<lparr>kv_mapping_table := (kv_mapping_table c)[unat i := erased_entry]\<rparr>, m)"
proof -
  note I = kv_invD[OF c]
  obtain e where e: "get_mapping_entry c cmd = Some e" "\<not> free_entry e" using cmd_entry_some[OF I(1) k] s by blast
  have "delete_mapping_entry c cmd = Some (c\<lparr>kv_mapping_table := (kv_mapping_table c)[unat i := erased_entry]\<rparr>)"
    using cmd_slot_ok(1)[OF I(1) k] cmd_slot_ok(2)[OF I(1) k s] s by (simp add: delete_mapping_entry_def)
  then show ?thesis using e op by (simp add: do_perform_kv_io_def kv_opcodes)
qed

lemma missing_key:
  assumes c: "kv_shape c" and k: "kv_keyed cmd" and s: "cmd_slot c cmd = None"
    and op: "kv_opcode cmd \<in> {nvme_cmd_kv_retrieve, nvme_cmd_kv_exist, nvme_cmd_kv_delete}"
  shows "do_perform_kv_io c m cmd st = Some (0, KV_ERR_KEY_NOT_EXIST, c, m)"
  using cmd_entry_none[OF c k s] op by (auto simp: do_perform_kv_io_def kv_opcodes erased_entry_def)

lemma quiet_command:
  assumes c: "kv_shape c" and k: "kv_keyed cmd"
    and op: "kv_opcode cmd \<notin> {nvme_cmd_kv_store, nvme_cmd_kv_retrieve, nvme_cmd_kv_delete}"
      "kv_opcode cmd = nvme_cmd_kv_exist \<Longrightarrow> cmd_slot c cmd \<noteq> None"
  shows "do_perform_kv_io c m cmd st = Some (0, st, c, m)"
proof (cases "cmd_slot c cmd = None")
  case True
  then show ?thesis using cmd_entry_none[OF c k] op by (auto simp: do_perform_kv_io_def)
next
  case False
  obtain e where "get_mapping_entry c cmd = Some e" "\<not> free_entry e" using cmd_entry_some[OF c k False] by blast
  then show ?thesis using op by (auto simp: do_perform_kv_io_def)
qed

text \<open>Every admissible command returns and keeps the invariant.\<close>

lemma kv_command_ok:
  assumes c: "kv_inv ops dev_size c" and a: "kv_admissible room c m cmd"
  shows "\<exists>r st' c' m'. do_perform_kv_io c m cmd st = Some (r, st', c', m') \<and> kv_inv ops dev_size c'"
proof -
  note I = kv_invD[OF c]
  have k: "kv_keyed cmd" using a by (simp add: kv_admissible_def)
  show ?thesis
  proof (cases "cmd_slot c cmd")
    case None
    show ?thesis
    proof (cases "kv_opcode cmd = nvme_cmd_kv_store")
      case True
      have h: "kv_pages m cmd (kv_len cmd)" "room (alloc_state c) (kv_len cmd)" "\<exists>e \<in> set (kv_mapping_table c). free_entry e"
        using a True None by (simp_all add: kv_admissible_def)
      obtain off s' r t' where o: "op_allocate ops (kv_len cmd) (alloc_state c) = Some (off, s')" "off < kv_storage_size c"
        "inserted (kv_mapping_table c) (home (kv_mapping_table c) (cmd_key cmd)) r
          (filled (kv_mapping_table c ! r) (kv_key cmd) (cmd_key_length cmd) (kv_len cmd) off) t'"
        and run: "do_perform_kv_io c m cmd st = Some (0, st,
          c\<lparr>alloc_state := s', kv_storage := host_put (kv_storage c) (unat off) (host_data m cmd (kv_len cmd)), kv_mapping_table := t'\<rparr>, m)"
        using store_new[OF c k True None h, of st] by blast
      note w = alloc_within[OF h(2) o(1)]
      have "kv_inv ops dev_size (c\<lparr>alloc_state := s', kv_storage := host_put (kv_storage c) (unat off) (host_data m cmd (kv_len cmd))\<rparr>)"
        using kv_inv_storage[OF kv_inv_alloc[OF c w(5)]] by simp
      from kv_inv_insert[OF this, of "home (kv_mapping_table c) (cmd_key cmd)" r "kv_key cmd" "cmd_key_length cmd" "kv_len cmd" off t']
      show ?thesis using run o(2,3) w(2) I(3) cmd_key_small[OF k] by simp
    next
      case False
      then show ?thesis
        using missing_key[OF I(1) k None] quiet_command[OF I(1) k] c
        by (cases "kv_opcode cmd \<in> {nvme_cmd_kv_retrieve, nvme_cmd_kv_exist, nvme_cmd_kv_delete}") auto
    qed
  next
    case (Some i)
    have i: "unat i < length (kv_mapping_table c)" "cmd_old c cmd = kv_mapping_table c ! unat i"
      using cmd_slot_ok(2)[OF I(1) k Some] by (simp_all add: cmd_old_def Some)
    consider (store) "kv_opcode cmd = nvme_cmd_kv_store" | (retrieve) "kv_opcode cmd = nvme_cmd_kv_retrieve"
      | (delete) "kv_opcode cmd = nvme_cmd_kv_delete" | (quiet) "kv_opcode cmd \<notin> {nvme_cmd_kv_store, nvme_cmd_kv_retrieve, nvme_cmd_kv_delete}"
      by auto
    then show ?thesis
    proof cases
      case store
      have h: "kv_pages m cmd (kv_len cmd)" "unat (me_offset (cmd_old c cmd)) + unat (kv_len cmd) \<le> unat (kv_storage_size c)"
        using a store Some by (simp_all add: kv_admissible_def)
      note run = store_old[OF c k store Some h, of st]
      let ?c = "c\<lparr>kv_storage := host_put (kv_storage c) (unat (me_offset (cmd_old c cmd))) (host_data m cmd (kv_len cmd))\<rparr>"
      have s: "kv_inv ops dev_size ?c" by (rule kv_inv_storage[OF c])
      then have "kv_inv ops dev_size (?c\<lparr>kv_mapping_table := (kv_mapping_table c)[unat i := (cmd_old c cmd)\<lparr>me_length := kv_len cmd\<rparr>]\<rparr>)"
        using kv_inv_length[OF s, of "unat i" "kv_len cmd"] i h(2) by simp
      then show ?thesis using run s by auto
    next
      case retrieve
      then show ?thesis using retrieve_some[OF c k retrieve, of m st] Some a c by (auto simp: kv_admissible_def)
    next
      case delete
      then show ?thesis using delete_some[OF c k delete Some] kv_inv_erase[OF c i(1)] by auto
    next
      case quiet
      then show ?thesis using quiet_command[OF I(1) k quiet] Some c by auto
    qed
  qed
qed

end

end
