(* ===== verification/Kv_Refine.thy ===== *)
theory Kv_Refine
  imports Kv_Service
begin

text \<open>
  The key-value store as a map from keys to values. As long as all keys have one length, a value
  is not overwritten by a longer one, and only keys at the end of their chain are deleted, every
  command acts on the map as its specification says; the values of other keys stay as they are
  because the regions of the allocator do not overlap.
\<close>

definition kv_bound :: "nat \<Rightarrow> ('s \<Rightarrow> nat set) \<Rightarrow> 's kv_ftl \<Rightarrow> bool" where
  "kv_bound n taken c \<longleftrightarrow> index_ok n (kv_mapping_table c) \<and>
     (\<forall>k off len. entry_map n (kv_mapping_table c) k = Some (off, len) \<longrightarrow> region off len \<subseteq> taken (alloc_state c)) \<and>
     (\<forall>k k' off len off' len'. k \<noteq> k' \<and> entry_map n (kv_mapping_table c) k = Some (off, len) \<and>
        entry_map n (kv_mapping_table c) k' = Some (off', len') \<longrightarrow> region off len \<inter> region off' len' = {})"

text \<open>The map that a store represents.\<close>

definition kv_values :: "nat \<Rightarrow> 's kv_ftl \<Rightarrow> u8 list \<Rightarrow> u8 list option" where
  "kv_values n c k = map_option (\<lambda>(off, len). host_get (kv_storage c) (unat off) (unat len)) (entry_map n (kv_mapping_table c) k)"

definition kv_safe :: "nat \<Rightarrow> 's kv_ftl \<Rightarrow> nvme_kv_command \<Rightarrow> bool" where
  "kv_safe n c cmd \<longleftrightarrow> cmd_key_length cmd = n \<and>
     (kv_opcode cmd = nvme_cmd_kv_store \<and> cmd_slot c cmd \<noteq> None \<longrightarrow>
        kv_len cmd = me_length (cmd_old c cmd) \<or> (kv_len cmd \<le> me_length (cmd_old c cmd) \<and> me_length (cmd_old c cmd) \<le> SMALL_LENGTH)) \<and>
     (kv_opcode cmd = nvme_cmd_kv_delete \<and> cmd_slot c cmd \<noteq> None \<longrightarrow> chain_end (kv_mapping_table c) (unat (the (cmd_slot c cmd))))"

text \<open>The specification: \<open>v\<close> is the value the host sends.\<close>

definition kv_spec :: "(u8 list \<Rightarrow> u8 list option) \<Rightarrow> nvme_kv_command \<Rightarrow> u8 list \<Rightarrow> u32 \<Rightarrow>
    u32 \<times> u32 \<times> (u8 list \<Rightarrow> u8 list option)" where
  "kv_spec V cmd v st =
     (let k = cmd_key cmd; opc = kv_opcode cmd in
      if opc = nvme_cmd_kv_store then (0, st, V(k \<mapsto> v))
      else if opc \<in> {nvme_cmd_kv_retrieve, nvme_cmd_kv_exist, nvme_cmd_kv_delete} then
        (case V k of
           None \<Rightarrow> (0, KV_ERR_KEY_NOT_EXIST, V)
         | Some w \<Rightarrow>
             if opc = nvme_cmd_kv_retrieve then (of_nat (min (length w) (unat (kv_len cmd))), st, V)
             else if opc = nvme_cmd_kv_delete then (0, st, V(k := None))
             else (0, st, V))
      else (0, st, V))"

lemma kv_boundD:
  assumes "kv_bound n taken c"
  shows "index_ok n (kv_mapping_table c)"
    "\<And>k off len. entry_map n (kv_mapping_table c) k = Some (off, len) \<Longrightarrow> region off len \<subseteq> taken (alloc_state c)"
    "\<And>k k' off len off' len'. k \<noteq> k' \<Longrightarrow> entry_map n (kv_mapping_table c) k = Some (off, len) \<Longrightarrow>
        entry_map n (kv_mapping_table c) k' = Some (off', len') \<Longrightarrow> region off len \<inter> region off' len' = {}"
  using assms by (auto simp: kv_bound_def)

lemma cmd_slot_map:
  assumes c: "kv_shape c" and ix: "index_ok n (kv_mapping_table c)" and k: "kv_keyed cmd" "cmd_key_length cmd = n"
  shows "cmd_slot c cmd = map_option of_nat (slot_of_key n (kv_mapping_table c) (cmd_key cmd))"
  using find_key_index[OF c ix, of "kv_key cmd"] cmd_key_small[OF k(1)] k(2) by (simp add: cmd_slot_def cmd_key_def)

lemma cmd_slot_entry:
  assumes c: "kv_shape c" and ix: "index_ok n (kv_mapping_table c)" and k: "kv_keyed cmd" "cmd_key_length cmd = n"
  shows "cmd_slot c cmd = None \<Longrightarrow> entry_map n (kv_mapping_table c) (cmd_key cmd) = None \<and> slot_of_key n (kv_mapping_table c) (cmd_key cmd) = None"
    "cmd_slot c cmd = Some s \<Longrightarrow> unat s < length (kv_mapping_table c) \<and> \<not> free_entry (kv_mapping_table c ! unat s) \<and>
       key_at n (kv_mapping_table c) (unat s) = cmd_key cmd \<and> cmd_old c cmd = kv_mapping_table c ! unat s \<and>
       entry_map n (kv_mapping_table c) (cmd_key cmd) = Some (me_offset (cmd_old c cmd), me_length (cmd_old c cmd))"
proof -
  note m = cmd_slot_map[OF assms]
  show "cmd_slot c cmd = None \<Longrightarrow> entry_map n (kv_mapping_table c) (cmd_key cmd) = None \<and> slot_of_key n (kv_mapping_table c) (cmd_key cmd) = None"
    using m by (simp add: entry_map_def)
  assume s: "cmd_slot c cmd = Some s"
  then obtain i where i: "slot_of_key n (kv_mapping_table c) (cmd_key cmd) = Some i" "s = of_nat i" using m by auto
  then have "i < length (kv_mapping_table c)" "\<not> free_entry (kv_mapping_table c ! i)" "key_at n (kv_mapping_table c) i = cmd_key cmd"
    using slot_of_key_iff[OF ix] by auto
  moreover from this have "unat s = i" using i(2) slot_nat[of i] table_okD(2)[OF kv_shapeD(1)[OF c]] by simp
  ultimately show "unat s < length (kv_mapping_table c) \<and> \<not> free_entry (kv_mapping_table c ! unat s) \<and>
       key_at n (kv_mapping_table c) (unat s) = cmd_key cmd \<and> cmd_old c cmd = kv_mapping_table c ! unat s \<and>
       entry_map n (kv_mapping_table c) (cmd_key cmd) = Some (me_offset (cmd_old c cmd), me_length (cmd_old c cmd))"
    using s i by (simp add: cmd_old_def entry_map_def)
qed

lemma kv_values_None: "kv_values n c k = None \<longleftrightarrow> entry_map n (kv_mapping_table c) k = None"
  by (simp add: kv_values_def)

text \<open>A write inside one region does not change the bytes of another.\<close>

lemma get_put_region:
  assumes "region off len \<inter> region off' len' = {}" "length bs = unat len'"
  shows "host_get (host_put st (unat off') bs) (unat off) (unat len) = host_get st (unat off) (unat len)"
proof (rule nth_equalityI)
  fix i assume "i < length (host_get (host_put st (unat off') bs) (unat off) (unat len))"
  then have i: "i < unat len" by simp
  then have "unat off + i \<in> region off len" by (simp add: region_def)
  then have "unat off + i \<notin> region off' len'" using assms(1) by blast
  then show "host_get (host_put st (unat off') bs) (unat off) (unat len) ! i = host_get st (unat off) (unat len) ! i"
    using i assms(2) by (auto simp: host_get_nth host_put_def region_def)
qed simp

text \<open>One update of the map of entries, with the value written, is one update of the map of values.\<close>

lemma kv_values_update:
  assumes "entry_map n t' = (entry_map n (kv_mapping_table c))(k \<mapsto> (off, len))" "length v = unat len"
    and "\<And>k' off' len'. k' \<noteq> k \<Longrightarrow> entry_map n (kv_mapping_table c) k' = Some (off', len') \<Longrightarrow> region off' len' \<inter> region off len = {}"
    and "kv_storage c' = host_put (kv_storage c) (unat off) v" "kv_mapping_table c' = t'"
  shows "kv_values n c' = (kv_values n c)(k \<mapsto> v)"
proof
  fix k'
  show "kv_values n c' k' = ((kv_values n c)(k \<mapsto> v)) k'"
  proof (cases "k' = k")
    case True
    then show ?thesis using assms(1,2,4,5) host_get_put[of "kv_storage c" "unat off" v] by (simp add: kv_values_def)
  next
    case False
    show ?thesis
    proof (cases "entry_map n (kv_mapping_table c) k'")
      case None
      then show ?thesis using False assms(1,5) by (simp add: kv_values_def)
    next
      case (Some ol)
      obtain off' len' where ol: "ol = (off', len')" by (cases ol)
      then show ?thesis
        using False Some assms(1,4,5) get_put_region[OF assms(3)[OF False], of off' len' v] assms(2) by (simp add: kv_values_def)
    qed
  qed
qed

lemma kv_bound_update:
  assumes b: "kv_bound n taken c" and ix: "index_ok n t'" and m: "entry_map n t' = (entry_map n (kv_mapping_table c))(k \<mapsto> (off, len))"
    and r: "region off len \<subseteq> taken s'" "taken (alloc_state c) \<subseteq> taken s'"
    and d: "\<And>k' off' len'. k' \<noteq> k \<Longrightarrow> entry_map n (kv_mapping_table c) k' = Some (off', len') \<Longrightarrow> region off' len' \<inter> region off len = {}"
    and c': "kv_mapping_table c' = t'" "alloc_state c' = s'"
  shows "kv_bound n taken c'"
  unfolding kv_bound_def c'
proof (intro conjI allI impI)
  fix k' o' l' assume "entry_map n t' k' = Some (o', l')"
  then show "region o' l' \<subseteq> taken s'"
    using m r kv_boundD(2)[OF b, of k' o' l'] by (auto split: if_splits)
next
  fix k1 k2 o1 l1 o2 l2
  assume a: "k1 \<noteq> k2 \<and> entry_map n t' k1 = Some (o1, l1) \<and> entry_map n t' k2 = Some (o2, l2)"
  then show "region o1 l1 \<inter> region o2 l2 = {}"
    using m d[of k1 o1 l1] d[of k2 o2 l2] kv_boundD(3)[OF b, of k1 k2 o1 l1 o2 l2] by (auto split: if_splits)
qed (rule ix)

context kv_allocator
begin

lemma refine_store:
  assumes c: "kv_inv ops dev_size c" and b: "kv_bound n taken c" and a: "kv_admissible room c m cmd" and s: "kv_safe n c cmd"
    and op: "kv_opcode cmd = nvme_cmd_kv_store"
  shows "\<exists>c'. do_perform_kv_io c m cmd st = Some (0, st, c', m) \<and> kv_bound n taken c' \<and>
    kv_values n c' = (kv_values n c)(cmd_key cmd \<mapsto> host_data m cmd (kv_len cmd))"
proof -
  note I = kv_invD[OF c] and B = kv_boundD[OF b]
  have k: "kv_keyed cmd" "cmd_key_length cmd = n" using a s by (simp_all add: kv_admissible_def kv_safe_def)
  let ?t = "kv_mapping_table c" and ?d = "host_data m cmd (kv_len cmd)"
  have pg: "kv_pages m cmd (kv_len cmd)" using a op by (simp add: kv_admissible_def)
  have dl: "length ?d = unat (kv_len cmd)" by (rule length_host_data[OF pg])
  show ?thesis
  proof (cases "cmd_slot c cmd")
    case None
    have h: "room (alloc_state c) (kv_len cmd)" "\<exists>e \<in> set ?t. free_entry e" using a op None by (simp_all add: kv_admissible_def)
    obtain off s' r t' where o: "op_allocate ops (kv_len cmd) (alloc_state c) = Some (off, s')" "off < kv_storage_size c"
      "inserted ?t (home ?t (cmd_key cmd)) r (filled (?t ! r) (kv_key cmd) (cmd_key_length cmd) (kv_len cmd) off) t'"
      and run: "do_perform_kv_io c m cmd st = Some (0, st,
        c\<lparr>alloc_state := s', kv_storage := host_put (kv_storage c) (unat off) ?d, kv_mapping_table := t'\<rparr>, m)"
      using store_new[OF c k(1) op None pg h, of st] by blast
    note w = alloc_within[OF h(1) o(1)]
    have off: "off \<noteq> - 1" using o(2) by (metis word_n1_ge linorder_not_less)
    have new: "slot_of_key n ?t (take n (kv_key cmd)) = None"
      using cmd_slot_entry(1)[OF I(1) B(1) k None] k(2) by (simp add: cmd_key_def)
    have key: "n \<le> length (kv_key cmd)" "n \<le> KEY_SIZE" using cmd_key_small[OF k(1)] k(2) by simp_all
    note ins = index_insert[OF B(1) o(3)[unfolded cmd_key_def k(2)] key off new]
    have disj: "region o' l' \<inter> region off (kv_len cmd) = {}" if "entry_map n ?t k' = Some (o', l')" for k' o' l'
      using alloc_apart[OF h(1) o(1) B(2)[OF that]] by blast
    let ?c = "c\<lparr>alloc_state := s', kv_storage := host_put (kv_storage c) (unat off) ?d, kv_mapping_table := t'\<rparr>"
    have m': "entry_map n t' = (entry_map n ?t)(cmd_key cmd \<mapsto> (off, kv_len cmd))" using ins(2) k(2) by (simp add: cmd_key_def)
    have "kv_bound n taken ?c" by (rule kv_bound_update[OF b ins(1) m' w(3,4) disj]) simp_all
    moreover have "kv_values n ?c = (kv_values n c)(cmd_key cmd \<mapsto> ?d)"
      by (rule kv_values_update[OF m' dl disj]) simp_all
    ultimately show ?thesis using run by blast
  next
    case (Some i)
    note e = cmd_slot_entry(2)[OF I(1) B(1) k Some]
    let ?o = "me_offset (cmd_old c cmd)" and ?l = "me_length (cmd_old c cmd)"
    have fit: "unat ?o + unat (kv_len cmd) \<le> unat (kv_storage_size c)" using a op Some by (simp add: kv_admissible_def)
    have len: "kv_len cmd = ?l \<or> (kv_len cmd \<le> ?l \<and> ?l \<le> SMALL_LENGTH)" using s op Some by (simp add: kv_safe_def)
    define t' where "t' = (if kv_len cmd \<noteq> ?l \<and> kv_len cmd \<le> SMALL_LENGTH \<and> ?l \<le> SMALL_LENGTH
        then ?t[unat i := (cmd_old c cmd)\<lparr>me_length := kv_len cmd\<rparr>] else ?t)"
    let ?c = "c\<lparr>kv_storage := host_put (kv_storage c) (unat ?o) ?d, kv_mapping_table := t'\<rparr>"
    have run: "do_perform_kv_io c m cmd st = Some (0, st, ?c, m)"
      using store_old[OF c k(1) op Some pg fit, of st] by (simp add: t'_def)
    have sub: "region ?o (kv_len cmd) \<subseteq> region ?o ?l" using len by (auto simp: region_def word_le_nat_alt)
    have t': "index_ok n t' \<and> entry_map n t' = (entry_map n ?t)(cmd_key cmd \<mapsto> (?o, kv_len cmd))"
    proof (cases "kv_len cmd = ?l")
      case True
      then have "(entry_map n ?t)(cmd_key cmd \<mapsto> (?o, kv_len cmd)) = entry_map n ?t" using e by (simp add: fun_upd_idem)
      then show ?thesis using True B(1) by (simp add: t'_def)
    next
      case False
      then have "t' = ?t[unat i := (?t ! unat i)\<lparr>me_length := kv_len cmd\<rparr>]" using len e by (auto simp: t'_def)
      then show ?thesis using index_length[OF B(1), of "unat i" "kv_len cmd"] e by simp
    qed
    have disj: "region o' l' \<inter> region ?o (kv_len cmd) = {}"
      if "k' \<noteq> cmd_key cmd" "entry_map n ?t k' = Some (o', l')" for k' o' l'
      using B(3)[OF that(1) that(2)] e sub by blast
    have tk: "region ?o (kv_len cmd) \<subseteq> taken (alloc_state c)" using B(2)[of "cmd_key cmd"] e sub by blast
    have "kv_bound n taken ?c"
      by (rule kv_bound_update[OF b conjunct1[OF t'] conjunct2[OF t'] tk _ disj]) simp_all
    moreover have "kv_values n ?c = (kv_values n c)(cmd_key cmd \<mapsto> ?d)"
      by (rule kv_values_update[OF conjunct2[OF t'] dl disj]) simp_all
    ultimately show ?thesis using run by blast
  qed
qed

lemma refine_delete:
  assumes c: "kv_inv ops dev_size c" and b: "kv_bound n taken c" and a: "kv_admissible room c m cmd" and s: "kv_safe n c cmd"
    and op: "kv_opcode cmd = nvme_cmd_kv_delete" and i: "cmd_slot c cmd = Some i"
  shows "\<exists>c'. do_perform_kv_io c m cmd st = Some (0, st, c', m) \<and> kv_bound n taken c' \<and>
    kv_values n c' = (kv_values n c)(cmd_key cmd := None)"
proof -
  note I = kv_invD[OF c] and B = kv_boundD[OF b]
  have k: "kv_keyed cmd" "cmd_key_length cmd = n" using a s by (simp_all add: kv_admissible_def kv_safe_def)
  let ?t = "kv_mapping_table c"
  note e = cmd_slot_entry(2)[OF I(1) B(1) k i]
  have "chain_end ?t (unat i)" using s op i by (simp add: kv_safe_def)
  then have ix: "index_ok n (?t[unat i := erased_entry])"
    "entry_map n (?t[unat i := erased_entry]) = (entry_map n ?t)(cmd_key cmd := None)"
    using index_erase[OF B(1), of "unat i"] e by auto
  let ?c = "c\<lparr>kv_mapping_table := ?t[unat i := erased_entry]\<rparr>"
  have "kv_bound n taken ?c"
    using ix B(2,3) by (simp add: kv_bound_def) (meson option.distinct(1))
  moreover have "kv_values n ?c = (kv_values n c)(cmd_key cmd := None)"
    using ix(2) by (auto simp: kv_values_def fun_eq_iff)
  ultimately show ?thesis using delete_some[OF c k(1) op i] by blast
qed

lemma kv_command_refines:
  assumes c: "kv_inv ops dev_size c" and b: "kv_bound n taken c" and a: "kv_admissible room c m cmd" and s: "kv_safe n c cmd"
  shows "\<exists>r st' c' m'. do_perform_kv_io c m cmd st = Some (r, st', c', m') \<and> kv_bound n taken c' \<and>
    (r, st', kv_values n c') = kv_spec (kv_values n c) cmd (host_data m cmd (kv_len cmd)) st \<and>
    (\<forall>w. kv_opcode cmd = nvme_cmd_kv_retrieve \<and> kv_values n c (cmd_key cmd) = Some w \<longrightarrow>
       host_data m' cmd (of_nat (min (length w) (unat (kv_len cmd)))) = take (unat (kv_len cmd)) w)"
proof -
  note I = kv_invD[OF c] and B = kv_boundD[OF b]
  have k: "kv_keyed cmd" "cmd_key_length cmd = n" using a s by (simp_all add: kv_admissible_def kv_safe_def)
  let ?V = "kv_values n c" and ?k = "cmd_key cmd"
  show ?thesis
  proof (cases "cmd_slot c cmd")
    case None
    then have none: "?V ?k = None" using cmd_slot_entry(1)[OF I(1) B(1) k] by (simp add: kv_values_None)
    consider (store) "kv_opcode cmd = nvme_cmd_kv_store" |
      (miss) "kv_opcode cmd \<in> {nvme_cmd_kv_retrieve, nvme_cmd_kv_exist, nvme_cmd_kv_delete}" |
      (quiet) "kv_opcode cmd \<notin> {nvme_cmd_kv_store, nvme_cmd_kv_retrieve, nvme_cmd_kv_exist, nvme_cmd_kv_delete}" by auto
    then show ?thesis
    proof cases
      case store
      then show ?thesis using refine_store[OF c b a s store, of st] by (auto simp: kv_spec_def kv_opcodes)
    next
      case miss
      moreover from this have "kv_opcode cmd \<noteq> nvme_cmd_kv_store" by (auto simp: kv_opcodes)
      ultimately show ?thesis using missing_key[OF I(1) k(1) None miss, of m st] none b by (simp add: kv_spec_def)
    next
      case quiet
      then show ?thesis using quiet_command[OF I(1) k(1), of m st] none b by (simp add: kv_spec_def)
    qed
  next
    case (Some i)
    note e = cmd_slot_entry(2)[OF I(1) B(1) k Some]
    let ?o = "me_offset (cmd_old c cmd)" and ?l = "me_length (cmd_old c cmd)"
    have v: "?V ?k = Some (host_get (kv_storage c) (unat ?o) (unat ?l))" using e by (simp add: kv_values_def)
    consider (store) "kv_opcode cmd = nvme_cmd_kv_store" | (retrieve) "kv_opcode cmd = nvme_cmd_kv_retrieve"
      | (delete) "kv_opcode cmd = nvme_cmd_kv_delete" | (quiet) "kv_opcode cmd \<notin> {nvme_cmd_kv_store, nvme_cmd_kv_retrieve, nvme_cmd_kv_delete}"
      by auto
    then show ?thesis
    proof cases
      case store
      then show ?thesis using refine_store[OF c b a s store, of st] by (auto simp: kv_spec_def kv_opcodes)
    next
      case retrieve
      define len where "len = min ?l (kv_len cmd)"
      have ul: "unat len = min (unat ?l) (unat (kv_len cmd))" by (simp add: len_def min_def word_le_nat_alt)
      have pg: "kv_pages m cmd len" using a retrieve Some by (simp add: kv_admissible_def len_def)
      obtain m' where m': "do_perform_kv_io c m cmd st = Some (ucast len, st, c, m')"
        "host_data m' cmd len = host_get (kv_storage c) (unat ?o) (unat len)"
        using retrieve_some[OF c k(1) retrieve, of m st] Some pg by (auto simp: len_def)
      have u: "(ucast len :: u32) = of_nat (unat len)" "len = of_nat (unat len)" by simp_all
      have tk: "take (unat (kv_len cmd)) (host_get (kv_storage c) (unat ?o) (unat ?l)) = host_get (kv_storage c) (unat ?o) (unat len)"
        by (rule nth_equalityI) (auto simp: host_get_nth ul)
      show ?thesis
        using m' v retrieve b tk u ul by (auto simp: kv_spec_def kv_opcodes)
    next
      case delete
      then show ?thesis using refine_delete[OF c b a s delete Some, of st] v by (auto simp: kv_spec_def kv_opcodes)
    next
      case quiet
      then show ?thesis using quiet_command[OF I(1) k(1) quiet, of m st] Some v b by (auto simp: kv_spec_def kv_opcodes Let_def)
    qed
  qed
qed

end

subsection \<open>Sessions\<close>

text \<open>The states that commands which satisfy \<open>ok\<close> lead to.\<close>

inductive kv_session :: "('s kv_ftl \<Rightarrow> host_mem \<Rightarrow> nvme_kv_command \<Rightarrow> bool) \<Rightarrow> 's kv_ftl \<Rightarrow> 's kv_ftl \<Rightarrow> bool" for ok c0 where
  start: "kv_session ok c0 c0"
| command: "kv_session ok c0 c \<Longrightarrow> ok c m cmd \<Longrightarrow> do_perform_kv_io c m cmd st = Some (r, st', c', m') \<Longrightarrow> kv_session ok c0 c'"

context kv_allocator
begin

lemma kv_session_inv:
  assumes "kv_session (kv_admissible room) c0 c" "kv_inv ops dev_size c0"
  shows "kv_inv ops dev_size c"
  using assms
proof (induction rule: kv_session.induct)
  case (command c m cmd st r st' c' m')
  then show ?case using kv_command_ok[of c m cmd st] by auto
qed

lemma kv_session_refined:
  assumes "kv_session (\<lambda>c m cmd. kv_admissible room c m cmd \<and> kv_safe n c cmd) c0 c" "kv_inv ops dev_size c0" "kv_bound n taken c0"
  shows "kv_inv ops dev_size c \<and> kv_bound n taken c"
  using assms
proof (induction rule: kv_session.induct)
  case (command c m cmd st r st' c' m')
  then have "kv_inv ops dev_size c" "kv_bound n taken c" by simp_all
  then show ?case using kv_command_ok[of c m cmd st] kv_command_refines[of c n m cmd st] command.hyps by auto
qed simp

text \<open>A fresh namespace represents the empty map.\<close>

lemma kv_init_ok:
  assumes "kv_init_namespace ops bytes junk s mapped sz = Some c" "KV_MAPPING_ENTRY_SIZE \<le> bytes" "bytes div KV_MAPPING_ENTRY_SIZE < 2 ^ 31"
    and "\<And>s'. op_init ops sz s = Some s' \<Longrightarrow> dev_size s' = sz"
  shows "kv_inv ops dev_size c" "kv_bound n taken c" "kv_values n c = (\<lambda>_. None)"
proof -
  let ?e = "\<lparr>me_key = replicate KEY_SIZE 0, me_offset = - 1, me_length = - 1, me_next = - 1\<rparr> :: mapping_entry"
  obtain s' where s': "op_init ops sz s = Some s'" and
    c: "kv_mapping_table c = replicate (bytes div KV_MAPPING_ENTRY_SIZE) ?e" "hash_slots c = of_nat (bytes div KV_MAPPING_ENTRY_SIZE)"
      "allocator_ops c = ops" "alloc_state c = s'" "kv_storage_size c = sz"
    using assms(1) by (auto simp: kv_init_namespace_def Let_def split: bind_splits)
  have n: "0 < bytes div KV_MAPPING_ENTRY_SIZE" using assms(2) by (simp add: KV_MAPPING_ENTRY_SIZE_def div_greater_zero_iff)
  have t: "table_ok (kv_mapping_table c)" unfolding c(1) by (rule table_ok_new[OF n assms(3)]) simp_all
  then show "kv_inv ops dev_size c"
    using c assms(4)[OF s'] by (auto simp: kv_inv_def kv_shape_def entry_fits_def)
  have none: "entry_map n (kv_mapping_table c) k = None" for k by (simp add: entry_map_def slot_of_key_None c(1))
  have "index_ok n (kv_mapping_table c)" using t by (auto simp: index_ok_def c(1))
  then show "kv_bound n taken c" by (simp add: kv_bound_def none)
  show "kv_values n c = (\<lambda>_. None)" by (simp add: kv_values_def none fun_eq_iff)
qed

end

end
