(* ===== verification/Kv_Correct.thy ===== *)
theory Kv_Correct
  imports Kv_Refine
begin

text \<open>
  The properties of the key-value store with the allocator it is configured with, the append-only
  one. The witnesses run on a namespace whose table has four slots.
\<close>

subsection \<open>A store to apply the properties to\<close>

definition demo_kv :: "append_only kv_ftl" where
  "demo_kv = the (kv_init_namespace append_only_ops 192 Wild \<lparr>ao_latest = 0, ao_dev_size = 0, ao_total_written = 0\<rparr> (\<lambda>_. 7) 4096)"

text \<open>A command with a key of one byte and a value of \<open>v\<close> words in the page at 4096.\<close>

definition demo_kv_cmd :: "nat \<Rightarrow> u8 \<Rightarrow> u32 \<Rightarrow> nvme_kv_command" where
  "demo_kv_cmd opc k v = \<lparr>kv_opcode = opc, kv_prp1 = 4096, kv_prp2 = 0, kv_value_len = v, kv_key_len = 0, kv_option = 0,
     kv_rsvd4 = 0, kv_key = k # replicate 15 0\<rparr>"

lemma demo_kv_init:
  "kv_init_namespace append_only_ops 192 Wild \<lparr>ao_latest = 0, ao_dev_size = 0, ao_total_written = 0\<rparr> (\<lambda>_. 7) 4096 = Some demo_kv"
  by (simp add: demo_kv_def kv_init_namespace_def append_only_ops_def append_only_allocator_init_def Let_def)

lemma demo_kv_sel:
  "kv_mapping_table demo_kv = replicate 4 \<lparr>me_key = replicate KEY_SIZE 0, me_offset = - 1, me_length = - 1, me_next = - 1\<rparr>"
  "ao_latest (alloc_state demo_kv) = 0" "ao_dev_size (alloc_state demo_kv) = 4096" "kv_storage_size demo_kv = 4096"
  by (simp_all add: demo_kv_def kv_init_namespace_def append_only_ops_def append_only_allocator_init_def KV_MAPPING_ENTRY_SIZE_def)

lemma ao_init_size: "op_init append_only_ops sz s = Some s' \<Longrightarrow> ao_dev_size s' = sz"
  by (auto simp: append_only_ops_def append_only_allocator_init_def)

lemma ao_init_ok:
  assumes "kv_init_namespace append_only_ops bytes junk s mapped sz = Some c" "48 \<le> bytes" "bytes div 48 < 2 ^ 31"
  shows "kv_inv append_only_ops ao_dev_size c" "kv_bound n ao_taken c" "kv_values n c = (\<lambda>_. None)"
proof -
  have b: "KV_MAPPING_ENTRY_SIZE \<le> bytes" "bytes div KV_MAPPING_ENTRY_SIZE < 2 ^ 31" using assms(2,3) by (simp_all add: KV_MAPPING_ENTRY_SIZE_def)
  show "kv_inv append_only_ops ao_dev_size c" by (rule ao.kv_init_ok(1)[OF assms(1) b]) (rule ao_init_size)
  show "kv_bound n ao_taken c" by (rule ao.kv_init_ok(2)[OF assms(1) b]) (rule ao_init_size)
  show "kv_values n c = (\<lambda>_. None)" by (rule ao.kv_init_ok(3)[OF assms(1) b]) (rule ao_init_size)
qed

lemma demo_cmd_sel [simp]:
  "kv_opcode (demo_kv_cmd opc k v) = opc" "kv_keyed (demo_kv_cmd opc k v)" "cmd_key_length (demo_kv_cmd opc k v) = 1"
  "cmd_key (demo_kv_cmd opc k v) = [k]"
  by (simp_all add: demo_kv_cmd_def kv_keyed_def cmd_key_length_def cmd_key_def)

lemma demo_kv_pages: "unat len \<le> 4096 \<Longrightarrow> kv_pages m (demo_kv_cmd opc k v) len"
  using prp_ok_page[of 4096 "unat len" m 0]
  by (auto simp: kv_pages_def demo_kv_cmd_def page_off_def PAGE_OFFSET_MASK_def PAGE_SIZE_def)

lemma demo_kv_len: "kv_len (demo_kv_cmd opc k 1) = 4" "kv_len (demo_kv_cmd opc k 2) = 8"
  by (simp_all add: kv_len_def cmd_value_length_def demo_kv_cmd_def push_bit_eq_mult)

lemma demo_kv_ok: "kv_inv append_only_ops ao_dev_size demo_kv" "kv_bound n ao_taken demo_kv" "kv_values n demo_kv = (\<lambda>_. None)"
  using ao_init_ok[OF demo_kv_init] by simp_all

lemma demo_store_admissible:
  "kv_admissible ao_room demo_kv m (demo_kv_cmd nvme_cmd_kv_store k 1)" "kv_safe 1 demo_kv (demo_kv_cmd nvme_cmd_kv_store k 1)"
proof -
  have "slot_of_key 1 (kv_mapping_table demo_kv) [k] = None" by (simp add: slot_of_key_None demo_kv_sel)
  then have s: "cmd_slot demo_kv (demo_kv_cmd nvme_cmd_kv_store k 1) = None"
    using cmd_slot_map[OF kv_invD(1)[OF demo_kv_ok(1)] kv_boundD(1)[OF demo_kv_ok(2)], of "demo_kv_cmd nvme_cmd_kv_store k 1" 1] by simp
  then show "kv_admissible ao_room demo_kv m (demo_kv_cmd nvme_cmd_kv_store k 1)"
    by (simp add: kv_admissible_def demo_kv_len demo_kv_pages ao_room_def demo_kv_sel kv_opcodes)
  show "kv_safe 1 demo_kv (demo_kv_cmd nvme_cmd_kv_store k 1)" using s by (simp add: kv_safe_def kv_opcodes)
qed

subsection \<open>The service\<close>

text \<open>C26. Starting from an empty namespace, as long as all keys have the same length, a value is never
  replaced by a longer one and only the last key of a chain is deleted, the store is a map from
  keys to values: every command returns, answers what the map says and changes the map as its
  specification says, and a retrieve leaves the value in the host's pages.\<close>

theorem kv_io_refines:
  assumes "kv_init_namespace append_only_ops bytes junk s mapped sz = Some c0" "48 \<le> bytes" "bytes div 48 < 2 ^ 31"
    and "kv_session (\<lambda>c m cmd. kv_admissible ao_room c m cmd \<and> kv_safe n c cmd) c0 c"
    and "kv_admissible ao_room c m cmd" "kv_safe n c cmd"
  shows "kv_values n c0 = (\<lambda>_. None) \<and> (\<exists>r st' c' m'. do_perform_kv_io c m cmd st = Some (r, st', c', m') \<and>
    (r, st', kv_values n c') = kv_spec (kv_values n c) cmd (host_data m cmd (kv_len cmd)) st \<and>
    (\<forall>w. kv_opcode cmd = nvme_cmd_kv_retrieve \<and> kv_values n c (cmd_key cmd) = Some w \<longrightarrow>
       host_data m' cmd (of_nat (min (length w) (unat (kv_len cmd)))) = take (unat (kv_len cmd)) w))"
proof -
  note i = ao_init_ok[OF assms(1-3)]
  have "kv_inv append_only_ops ao_dev_size c \<and> kv_bound n ao_taken c"
    by (rule ao.kv_session_refined[OF assms(4) i(1,2)])
  then show ?thesis using ao.kv_command_refines[of c n m cmd st] assms(5,6) i(3)[of n] by auto
qed

lemma kv_io_refines_witness:
  "\<exists>r st' c' m'. do_perform_kv_io demo_kv (\<lambda>_. 5) (demo_kv_cmd nvme_cmd_kv_store 9 1) 0 = Some (r, st', c', m') \<and>
    r = 0 \<and> st' = 0 \<and> kv_values 1 c' = [[9] \<mapsto> host_data (\<lambda>_. 5) (demo_kv_cmd nvme_cmd_kv_store 9 1) 4]"
  using kv_io_refines[OF demo_kv_init _ _ kv_session.start demo_store_admissible, of "\<lambda>_. 5" 9 0]
  by (auto simp: kv_spec_def demo_kv_len)

text \<open>C27. Whatever keys are deleted and whatever lengths keys have, a store in service stays in service:
  every admissible command returns.\<close>

theorem kv_session_total:
  assumes "kv_init_namespace append_only_ops bytes junk s mapped sz = Some c0" "48 \<le> bytes" "bytes div 48 < 2 ^ 31"
    and "kv_session (kv_admissible ao_room) c0 c" "kv_admissible ao_room c m cmd"
  shows "\<exists>r st' c' m'. do_perform_kv_io c m cmd st = Some (r, st', c', m')"
proof -
  note i = ao_init_ok[OF assms(1-3)]
  show ?thesis using ao.kv_command_ok[OF ao.kv_session_inv[OF assms(4) i(1)] assms(5)] by blast
qed

lemma kv_session_total_witness:
  "\<exists>r st' c' m'. do_perform_kv_io demo_kv (\<lambda>_. 5) (demo_kv_cmd nvme_cmd_kv_store 9 1) 0 = Some (r, st', c', m')"
  by (rule kv_session_total[OF demo_kv_init _ _ kv_session.start]) (simp_all add: demo_store_admissible)

subsection \<open>Where the map ends\<close>

text \<open>Small tables for the witnesses: the chains of a table of four slots.\<close>

lemma less4: "n < (4 :: nat) \<longleftrightarrow> n = 0 \<or> n = 1 \<or> n = 2 \<or> n = 3"
  by auto

text \<open>C28. In a table without a free entry the store of a key that is not in it never returns. All that comes before
  the search for a free entry returns: the allocation, the copy of the value and the walk to the last slot \<open>p\<close> of
  the key's chain. The search then goes round for ever: after \<open>n\<close> turns, for every \<open>n\<close>, it has found nothing and is
  at the slot \<open>n\<close> places after \<open>p\<close> in the circle of the table, so that it reads no slot out of range and no turn ends
  it.\<close>

theorem kv_full_table_hangs:
  assumes "kv_shape c" "kv_keyed cmd" "kv_opcode cmd = nvme_cmd_kv_store" "cmd_slot c cmd = None"
    and "\<forall>e \<in> set (kv_mapping_table c). \<not> free_entry e"
    and "op_allocate (allocator_ops c) (kv_len cmd) (alloc_state c) = Some (off, s')" "kv_pages m cmd (kv_len cmd)"
    and "off < kv_storage_size c" "unat off + unat (kv_len cmd) \<le> unat (kv_storage_size c)"
  shows "\<exists>c1 h p. allocate_mem_offset c cmd = Some (off, c\<lparr>alloc_state := s'\<rparr>) \<and>
    kv_copy (c\<lparr>alloc_state := s'\<rparr>) m cmd off (kv_len cmd) = Some (c1, m) \<and>
    kv_mapping_table c1 = kv_mapping_table c \<and> hash_slots c1 = hash_slots c \<and> off < kv_storage_size c1 \<and>
    get_hash_slot c1 (kv_key cmd) (cmd_key_length cmd) = Some h \<and> find_tail (kv_mapping_table c1) (- 1) h = Some p \<and>
    (\<forall>n. \<exists>slot. free_turns (kv_mapping_table c1) (hash_slots c1) n p = Some (Inr slot) \<and>
       unat slot < length (kv_mapping_table c1) \<and> unat slot = (unat p + n) mod length (kv_mapping_table c1)) \<and>
    find_next_slot c1 h = None \<and> do_perform_kv_io c m cmd st = None"
proof -
  let ?t = "kv_mapping_table c" and ?c = "c\<lparr>alloc_state := s'\<rparr>"
  let ?c1 = "?c\<lparr>kv_storage := host_put (kv_storage c) (unat off) (host_data m cmd (kv_len cmd))\<rparr>"
  note t = kv_shapeD[OF assms(1)]
  note T = table_okD[OF t(1)]
  have "off \<noteq> - 1" using assms(8) by (metis word_n1_ge linorder_not_less)
  then have al: "allocate_mem_offset c cmd = Some (off, ?c)"
    using assms(3,6) by (simp add: allocate_mem_offset_def allocate_mem_offset_by_length_def kv_len_def)
  have cp: "kv_copy ?c m cmd off (kv_len cmd) = Some (?c1, m)" using kv_copy_store[OF assms(3,7), of off ?c] assms(9) by simp
  have "kv_shape ?c1" using assms(1) by (simp add: kv_shape_def)
  note h = get_hash_slot_ok[OF this, of "cmd_key_length cmd" "kv_key cmd"]
  define h' where "h' = home ?t (take (cmd_key_length cmd) (kv_key cmd))"
  have h1: "get_hash_slot ?c1 (kv_key cmd) (cmd_key_length cmd) = Some h'" "unat h' < length ?t"
    using h cmd_key_small[OF assms(2)] by (simp_all add: h'_def)
  have nf: "\<not> free_entry (?t ! unat h')" using assms(5) h1(2) by simp
  obtain hs where hs: "chain ?t h' hs" using T(5)[OF h1(2)] by blast
  then have "hs \<noteq> []" using h1(2) T(2) nf by (cases hs) auto
  then have tail: "find_tail ?t (- 1) h' = Some (of_nat (last hs))" "last hs < length ?t"
    using find_tail_ok[OF hs h1(2) T(2)] chain_slots[OF hs] by auto
  then have p: "unat (of_nat (last hs) :: u32) < length ?t" using slot_nat[of "last hs"] T(2) by simp
  have turns: "\<exists>slot. free_turns ?t (hash_slots c) n (of_nat (last hs)) = Some (Inr slot) \<and>
      unat slot < length ?t \<and> unat slot = (unat (of_nat (last hs) :: u32) + n) mod length ?t" for n
    using free_turns_full[OF assms(5) p T(2), of n] t(2) T(1) by auto
  have "find_free ?t slots s = None" for slots s
    using find_free_found[of ?t slots s] assms(5) by (cases "find_free ?t slots s") auto
  then have nx: "find_next_slot ?c1 h' = None" using tail by (simp add: find_next_slot_def)
  have "kv_store c m cmd erased_entry = None"
    using al cp h1 nx nf by (simp add: kv_store_def erased_entry_def kv_len_def[symmetric] new_mapping_entry_def
        new_mapping_entry_by_key_def bind_eq_None_conv)
  then have "do_perform_kv_io c m cmd st = None"
    using cmd_entry_none[OF assms(1,2,4)] assms(3) by (simp add: do_perform_kv_io_def)
  then show ?thesis
    by - (rule exI[of _ ?c1], rule exI[of _ h'], rule exI[of _ "of_nat (last hs)"],
      use al cp h1 nx tail turns assms(8) in auto)
qed

definition full_kv :: "append_only kv_ftl" where
  "full_kv = demo_kv\<lparr>kv_mapping_table := [\<lparr>me_key = replicate KEY_SIZE 1, me_offset = 0, me_length = 4, me_next = - 1\<rparr>], hash_slots := 1\<rparr>"

lemma full_kv_shape: "kv_shape full_kv"
proof -
  have "chain (kv_mapping_table full_kv) s [0]" if "unat s < 1" for s
    using that by (simp add: full_kv_def)
  then have "\<exists>xs. chain (kv_mapping_table full_kv) s xs" if "unat s < 1" for s using that by blast
  then show ?thesis by (simp add: kv_shape_def table_ok_def full_kv_def)
qed

lemma kv_full_table_hangs_witness:
  "do_perform_kv_io full_kv (\<lambda>_. 5) (demo_kv_cmd nvme_cmd_kv_store 9 1) 0 = None \<and>
    (\<exists>p. \<forall>n. free_turns (kv_mapping_table full_kv) (hash_slots full_kv) n p = Some (Inr 0))"
proof -
  have h: "get_hash_slot full_kv (9 # replicate 15 0) 1 = Some 0"
    using get_hash_slot_ok[OF full_kv_shape, of 1 "9 # replicate 15 0"]
    by (simp add: full_kv_def unsigned_eq_0_iff)
  have "find_key full_kv (9 # replicate 15 0) 1 = Some None"
    using h by (simp add: find_key_def full_kv_def KEY_SIZE_def search_chain.simps[of _ _ 0])
  let ?cmd = "demo_kv_cmd nvme_cmd_kv_store 9 1"
  have slot: "cmd_slot full_kv ?cmd = None"
    using \<open>find_key full_kv _ 1 = _\<close> by (simp add: cmd_slot_def demo_kv_cmd_def cmd_key_length_def)
  have al: "op_allocate (allocator_ops full_kv) (kv_len ?cmd) (alloc_state full_kv) =
      Some (0, \<lparr>ao_latest = 4, ao_dev_size = 4096, ao_total_written = 4\<rparr>)" and sz: "kv_storage_size full_kv = 4096"
    by (simp_all add: full_kv_def demo_kv_def kv_init_namespace_def append_only_ops_def append_only_allocator_init_def
        append_only_allocate_def demo_kv_len Let_def)
  have full: "\<forall>e \<in> set (kv_mapping_table full_kv). \<not> free_entry e" by (simp add: full_kv_def)
  have pg: "kv_pages (\<lambda>_. 5) ?cmd (kv_len ?cmd)" by (rule demo_kv_pages) (simp add: demo_kv_len)
  have fit: "0 < kv_storage_size full_kv" "unat (0 :: u64) + unat (kv_len ?cmd) \<le> unat (kv_storage_size full_kv)"
    using sz by (simp_all add: demo_kv_len)
  obtain c1 :: "append_only kv_ftl" and p where "do_perform_kv_io full_kv (\<lambda>_. 5) ?cmd 0 = None"
    "kv_mapping_table c1 = kv_mapping_table full_kv" "hash_slots c1 = hash_slots full_kv"
    "\<forall>n. \<exists>slot. free_turns (kv_mapping_table c1) (hash_slots c1) n p = Some (Inr slot) \<and>
       unat slot < length (kv_mapping_table c1) \<and> unat slot = (unat p + n) mod length (kv_mapping_table c1)"
    using kv_full_table_hangs[OF full_kv_shape demo_cmd_sel(2,1) slot full al pg fit, of 0] by blast
  moreover have "length (kv_mapping_table full_kv) = 1" by (simp add: full_kv_def)
  ultimately show ?thesis by (metis less_one unsigned_eq_0_iff)
qed

text \<open>Two keys with one hash, as two stores leave them: the second is chained to the first.\<close>

definition two_kv :: "append_only kv_ftl" where
  "two_kv = demo_kv\<lparr>alloc_state := \<lparr>ao_latest = 8, ao_dev_size = 4096, ao_total_written = 8\<rparr>,
     kv_mapping_table := [\<lparr>me_key = 4 # replicate 17 0, me_offset = 4, me_length = 4, me_next = - 1\<rparr>,
       \<lparr>me_key = replicate 18 0, me_offset = - 1, me_length = - 1, me_next = - 1\<rparr>,
       \<lparr>me_key = replicate 18 0, me_offset = - 1, me_length = - 1, me_next = - 1\<rparr>,
       \<lparr>me_key = replicate 18 0, me_offset = 0, me_length = 4, me_next = 0\<rparr>]\<rparr>"

lemma two_kv_sel:
  "length (kv_mapping_table two_kv) = 4" "kv_storage_size two_kv = 4096" "allocator_ops two_kv = append_only_ops"
  "alloc_state two_kv = \<lparr>ao_latest = 8, ao_dev_size = 4096, ao_total_written = 8\<rparr>" "hash_slots two_kv = 4"
  by (simp_all add: two_kv_def demo_kv_def kv_init_namespace_def append_only_ops_def append_only_allocator_init_def
      KV_MAPPING_ENTRY_SIZE_def)

lemma two_kv_home: "home (kv_mapping_table two_kv) [0] = 3" "home (kv_mapping_table two_kv) [4] = 3"
  by (simp_all add: home_def two_kv_sel hash_function_def)

lemma two_kv_chain:
  "chain (kv_mapping_table two_kv) 3 [3, 0]" "chain (kv_mapping_table two_kv) 0 [0]"
  "chain (kv_mapping_table two_kv) 1 []" "chain (kv_mapping_table two_kv) 2 []"
  by (simp_all add: two_kv_def)

lemma two_kv_table: "table_ok (kv_mapping_table two_kv)"
proof -
  have "\<exists>xs. chain (kv_mapping_table two_kv) s xs" if "unat s < 4" for s
  proof -
    have "unat s = 0 \<or> unat s = 1 \<or> unat s = 2 \<or> unat s = 3" using that by auto
    then have "s = 0 \<or> s = 1 \<or> s = 2 \<or> s = 3" by (auto simp: word_unat_eq_iff)
    then show ?thesis using two_kv_chain by blast
  qed
  then show ?thesis unfolding table_ok_def two_kv_sel by (simp add: two_kv_def KEY_SIZE_def)
qed

lemma two_kv_inv: "kv_inv append_only_ops ao_dev_size two_kv"
  using two_kv_table by (simp add: kv_inv_def kv_shape_def two_kv_sel) (simp add: two_kv_def entry_fits_def)

lemma two_kv_index: "index_ok 1 (kv_mapping_table two_kv)"
  unfolding index_ok_def
proof (intro conjI allI impI)
  let ?t = "kv_mapping_table two_kv"
  fix i assume i: "i < length ?t" "\<not> free_entry (?t ! i)"
  then have "i = 0 \<or> i = 3" by (auto simp: two_kv_sel less4) (simp_all add: two_kv_def)
  moreover have "key_at 1 ?t 0 = [4]" "key_at 1 ?t 3 = [0]" by (simp_all add: key_at_def two_kv_def)
  ultimately show "\<exists>xs. chain ?t (home ?t (key_at 1 ?t i)) xs \<and> i \<in> set xs"
    using two_kv_home two_kv_chain(1) by (intro exI[of _ "[3, 0]"]) auto
next
  let ?t = "kv_mapping_table two_kv"
  fix i j
  assume a: "i < length ?t" "j < length ?t" "\<not> free_entry (?t ! i) \<and> \<not> free_entry (?t ! j) \<and> key_at 1 ?t i = key_at 1 ?t j"
  then have "i = 0 \<or> i = 3" "j = 0 \<or> j = 3" by (auto simp: two_kv_sel less4) (simp_all add: two_kv_def)
  then show "i = j" using a(3) by (auto simp: key_at_def two_kv_def)
qed (rule two_kv_table)

lemma two_kv_entries: "entry_map 1 (kv_mapping_table two_kv) = [[0] \<mapsto> (0, 4), [4] \<mapsto> (4, 4)]"
proof (rule entry_map_eqI)
  fix k ol
  have ex4: "(\<exists>i < 4. P i) \<longleftrightarrow> P 0 \<or> P 1 \<or> P 2 \<or> P (3 :: nat)" for P unfolding less4 by auto
  show "entry_map 1 (kv_mapping_table two_kv) k = Some ol \<longleftrightarrow> [[0] \<mapsto> (0, 4), [4] \<mapsto> (4, 4)] k = Some ol"
    unfolding entry_map_Some[OF two_kv_index] two_kv_sel(1) ex4 by (auto simp: two_kv_def key_at_def)
qed

lemma two_kv_bound: "kv_bound 1 ao_taken two_kv"
  using two_kv_index unfolding kv_bound_def two_kv_entries
  by (auto simp: two_kv_sel ao_taken_def region_def split: if_splits)

lemma two_kv_slot: "cmd_slot two_kv (demo_kv_cmd opc 0 v) = Some 3"
proof -
  have "slot_of_key 1 (kv_mapping_table two_kv) [0] = Some 3"
    unfolding slot_of_key_iff[OF two_kv_index] by (simp add: two_kv_def key_at_def)
  then show ?thesis using cmd_slot_map[OF kv_invD(1)[OF two_kv_inv] two_kv_index, of "demo_kv_cmd opc 0 v"] by simp
qed

text \<open>C29. Deleting a key loses the keys behind it in its chain: the entry of such a key is still in the
  table, but the next retrieve answers that the key does not exist.\<close>

theorem kv_delete_loses_keys:
  assumes "kv_inv append_only_ops ao_dev_size c" "index_ok n (kv_mapping_table c)"
    and "kv_keyed del" "kv_opcode del = nvme_cmd_kv_delete" "cmd_slot c del = Some i"
    and "kv_keyed get" "cmd_key_length get = n" "kv_opcode get = nvme_cmd_kv_retrieve"
    and "chain (kv_mapping_table c) (home (kv_mapping_table c) (cmd_key get)) (xs @ unat i # ys)"
    and "j \<in> set ys" "key_at n (kv_mapping_table c) j = cmd_key get"
  shows "\<exists>c'. do_perform_kv_io c m del st = Some (0, st, c', m) \<and> kv_mapping_table c' ! j = kv_mapping_table c ! j \<and>
    do_perform_kv_io c' m get st = Some (0, KV_ERR_KEY_NOT_EXIST, c', m)"
proof -
  let ?t = "kv_mapping_table c" and ?k = "cmd_key get"
  note I = kv_invD[OF assms(1)] and tok = index_okD(1)[OF assms(2)]
  have i: "unat i < length ?t" using cmd_slot_ok(2)[OF I(1) assms(3,5)] by simp
  let ?t' = "?t[unat i := erased_entry]"
  let ?c = "c\<lparr>kv_mapping_table := ?t'\<rparr>"
  have run: "do_perform_kv_io c m del st = Some (0, st, ?c, m)" by (rule ao.delete_some[OF assms(1,3,4,5)])
  have shape: "kv_shape ?c" by (rule kv_invD(1)[OF kv_inv_erase[OF assms(1) i]])
  have d: "distinct (xs @ unat i # ys)" by (rule chain_distinct[OF assms(9) table_okD(2)[OF tok]])
  have ch: "chain ?t' (home ?t ?k) xs"
    using chain_erase[OF assms(9) _ i, of erased_entry] takeWhile_until[of "unat i" xs ys] d by (simp add: erased_entry_def)
  have len: "n \<le> length (kv_key get)" "n \<le> KEY_SIZE" using cmd_key_small[OF assms(6)] assms(7) by simp_all
  have key: "take n (kv_key get) = ?k" using assms(7) by (simp add: cmd_key_def)
  obtain zs where zs: "chain (kv_mapping_table ?c) (home (kv_mapping_table ?c) (take n (kv_key get))) zs"
    "find_key ?c (kv_key get) n = Some (map_option of_nat (List.find (\<lambda>i. key_at n (kv_mapping_table ?c) i = take n (kv_key get)) zs))"
    using find_key_chain[OF shape len] by blast
  have zx: "zs = xs" using chain_det[OF zs(1), of xs] ch home_length[of ?t' ?t] table_okD(2)[OF tok] key by simp
  have j: "j < length ?t" "\<not> free_entry (?t ! j)" using chain_slots[OF assms(9), of j] assms(10) by auto
  have no: "key_at n ?t' x \<noteq> ?k" if x: "x \<in> set xs" for x
  proof
    assume a: "key_at n ?t' x = ?k"
    have "x < length ?t" "\<not> free_entry (?t ! x)" "x \<noteq> unat i" "x \<noteq> j" using chain_slots[OF assms(9), of x] x d assms(10) by auto
    then show False using a assms(11) index_okD(3)[OF assms(2), of x j] j by (simp add: key_at_def)
  qed
  have "cmd_slot ?c get = None" using zs(2) no key assms(7) zx by (simp add: cmd_slot_def find_None_iff)
  then have "do_perform_kv_io ?c m get st = Some (0, KV_ERR_KEY_NOT_EXIST, ?c, m)"
    using ao.missing_key[OF shape assms(6)] assms(8) by simp
  moreover have "j \<noteq> unat i" using d assms(10) by auto
  then have "?t' ! j = ?t ! j" by simp
  ultimately show ?thesis using run by auto
qed

lemma kv_delete_loses_keys_witness:
  "\<exists>c'. do_perform_kv_io two_kv (\<lambda>_. 5) (demo_kv_cmd nvme_cmd_kv_delete 0 1) 0 = Some (0, 0, c', \<lambda>_. 5) \<and>
    kv_mapping_table c' ! 0 = kv_mapping_table two_kv ! 0 \<and>
    do_perform_kv_io c' (\<lambda>_. 5) (demo_kv_cmd nvme_cmd_kv_retrieve 4 1) 0 = Some (0, KV_ERR_KEY_NOT_EXIST, c', \<lambda>_. 5)"
proof -
  have "key_at 1 (kv_mapping_table two_kv) 0 = [4]" by (simp add: key_at_def two_kv_def)
  then show ?thesis
    using kv_delete_loses_keys[OF two_kv_inv two_kv_index, of "demo_kv_cmd nvme_cmd_kv_delete 0 1" 3
        "demo_kv_cmd nvme_cmd_kv_retrieve 4 1" "[]" "[0]" 0 "\<lambda>_. 5" 0] two_kv_slot two_kv_home two_kv_chain(1) by simp
qed

text \<open>A longer value written over a shorter one runs into the value stored behind it: the store answers
  success, and the first byte of the other key's value is now one of the new value's.\<close>

theorem kv_update_overwrites:
  assumes "kv_inv append_only_ops ao_dev_size c" "kv_bound n ao_taken c" "kv_admissible ao_room c m cmd"
    and "cmd_key_length cmd = n" "kv_opcode cmd = nvme_cmd_kv_store"
    and "entry_map n (kv_mapping_table c) (cmd_key cmd) = Some (off, len)" "len < kv_len cmd"
    and "k' \<noteq> cmd_key cmd" "entry_map n (kv_mapping_table c) k' = Some (off', len')" "unat off' = unat off + unat len" "0 < len'"
  shows "\<exists>c' w. do_perform_kv_io c m cmd st = Some (0, st, c', m) \<and> kv_values n c' k' = Some w \<and>
    w ! 0 = host_data m cmd (kv_len cmd) ! unat len"
proof -
  let ?t = "kv_mapping_table c" and ?d = "host_data m cmd (kv_len cmd)"
  note I = kv_invD[OF assms(1)] and B = kv_boundD[OF assms(2)]
  have k: "kv_keyed cmd" "cmd_key_length cmd = n" using assms(3,4) by (simp_all add: kv_admissible_def)
  obtain i where i: "cmd_slot c cmd = Some i" using cmd_slot_entry(1)[OF I(1) B(1) k] assms(6) by (cases "cmd_slot c cmd") auto
  note e = cmd_slot_entry(2)[OF I(1) B(1) k i]
  have o: "me_offset (cmd_old c cmd) = off" "me_length (cmd_old c cmd) = len" using e assms(6) by auto
  have pg: "kv_pages m cmd (kv_len cmd)" "unat off + unat (kv_len cmd) \<le> unat (kv_storage_size c)"
    using assms(3,5) i o by (simp_all add: kv_admissible_def)
  define t' where "t' = (if kv_len cmd \<noteq> len \<and> kv_len cmd \<le> SMALL_LENGTH \<and> len \<le> SMALL_LENGTH
      then ?t[unat i := (cmd_old c cmd)\<lparr>me_length := kv_len cmd\<rparr>] else ?t)"
  let ?c = "c\<lparr>kv_storage := host_put (kv_storage c) (unat off) ?d, kv_mapping_table := t'\<rparr>"
  have run: "do_perform_kv_io c m cmd st = Some (0, st, ?c, m)"
    using ao.store_old[OF assms(1) k(1) assms(5) i pg(1), of st] pg(2) o by (simp add: t'_def)
  have m': "entry_map n t' k' = Some (off', len')"
    using index_length(2)[OF B(1), of "unat i" "kv_len cmd"] e assms(8,9) by (simp add: t'_def)
  let ?w = "host_get (host_put (kv_storage c) (unat off) ?d) (unat off') (unat len')"
  have "unat len < length ?d" using length_host_data[OF pg(1)] assms(7) by (simp add: word_less_nat_alt)
  moreover have "0 < unat len'" using assms(11) by (simp add: word_less_nat_alt)
  ultimately have "?w ! 0 = ?d ! unat len" using assms(10) host_put_in[of "unat len" ?d "kv_storage c" "unat off"] by (simp add: host_get_nth)
  then show ?thesis using run m' by (intro exI[of _ ?c] exI[of _ ?w]) (simp add: kv_values_def)
qed

lemma kv_update_overwrites_witness:
  "\<exists>c' w. do_perform_kv_io two_kv (\<lambda>_. 5) (demo_kv_cmd nvme_cmd_kv_store 0 2) 0 = Some (0, 0, c', \<lambda>_. 5) \<and>
    kv_values 1 c' [4] = Some w \<and> w ! 0 = host_data (\<lambda>_. 5) (demo_kv_cmd nvme_cmd_kv_store 0 2) 8 ! 4"
proof -
  have old: "cmd_old two_kv (demo_kv_cmd nvme_cmd_kv_store 0 2) = kv_mapping_table two_kv ! 3"
    using two_kv_slot by (simp add: cmd_old_def)
  have "me_offset (kv_mapping_table two_kv ! 3) = 0" by (simp add: two_kv_def)
  then have a: "kv_admissible ao_room two_kv (\<lambda>_. 5) (demo_kv_cmd nvme_cmd_kv_store 0 2)"
    using two_kv_slot old by (simp add: kv_admissible_def demo_kv_len demo_kv_pages two_kv_sel kv_opcodes)
  show ?thesis
    using kv_update_overwrites[OF two_kv_inv two_kv_bound a, of 0 4 "[4]" 4 4 0] by (simp add: two_kv_entries demo_kv_len del: One_nat_def)
qed

end
