(* ===== verification/Kv_Iter.thy ===== *)
theory Kv_Iter
  imports Kv_Correct
begin

unbundle bit_operations_syntax

text \<open>
  Iterators: what one read reports, and that reading until the end reports every key of the table
  that matches, once.
\<close>

definition matching :: "mapping_entry list \<Rightarrow> kv_iter_context \<Rightarrow> nat \<Rightarrow> mapping_entry list" where
  "matching t h pos = filter (entry_matches h) (drop pos t)"

text \<open>A key in the buffer: its length in four bytes and its first 16 bytes.\<close>

definition iter_rec :: "mapping_entry \<Rightarrow> u8 list" where
  "iter_rec e = le32 ITER_KEYLEN @ take ITER_KEYLEN (me_key e)"

lemma length_le32 [simp]: "length (le32 n) = 4"
  by (simp add: le32_def)

lemma length_iter_rec: "length (me_key e) = KEY_SIZE \<Longrightarrow> length (iter_rec e) = 20"
  by (simp add: iter_rec_def ITER_KEYLEN_def KEY_SIZE_def)

lemma matching_step:
  "pos < length t \<Longrightarrow> matching t h pos = (if entry_matches h (t ! pos) then [t ! pos] else []) @ matching t h (pos + 1)"
  by (simp add: matching_def Cons_nth_drop_Suc[symmetric])

text \<open>Twenty bytes are taken for each key while they fit below 1024.\<close>

definition iter_fit :: "nat \<Rightarrow> nat" where "iter_fit off = (1024 - off) div 20"

lemma iter_fit_Suc: "off + 20 \<le> 1024 \<Longrightarrow> iter_fit off = Suc (iter_fit (off + 20))"
  by (simp add: iter_fit_def)

lemma iter_fit_0: "\<not> off + 20 \<le> 1024 \<Longrightarrow> iter_fit off = 0"
  by (simp add: iter_fit_def)

text \<open>The number of keys that one read reports.\<close>

definition iter_count :: "mapping_entry list \<Rightarrow> kv_iter_context \<Rightarrow> nat \<Rightarrow> nat \<Rightarrow> nat" where
  "iter_count t h pos off = min (length (matching t h pos)) (iter_fit off)"

lemma iter_scan_ok:
  assumes "slots = length t" "\<forall>e \<in> set t. length (me_key e) = KEY_SIZE"
  shows "\<exists>pos' buf'. iter_scan t slots h pos off nr buf =
      Some (pos < slots \<and> iter_count t h pos off = length (matching t h pos), pos', off + 20 * iter_count t h pos off, nr + iter_count t h pos off, buf') \<and>
    matching t h pos' = drop (iter_count t h pos off) (matching t h pos) \<and> (pos \<le> slots \<longrightarrow> pos' \<le> slots) \<and> (iter_count t h pos off < length (matching t h pos) \<longrightarrow> pos' < slots) \<and>
    host_get buf' off (20 * iter_count t h pos off) = concat (map iter_rec (take (iter_count t h pos off) (matching t h pos))) \<and>
    (\<forall>i < off. buf' i = buf i)"
  using assms(1,2)
proof (induction t slots h pos off nr buf rule: iter_scan.induct)
  case (1 t slots h pos off nr buf)
  note S = iter_scan.simps[of t slots h pos off nr buf]
  show ?case
  proof (cases "pos < slots")
    case False
    then have "matching t h pos = []" using "1.prems"(1) by (simp add: matching_def)
    then show ?thesis using False by (subst S) (auto simp: host_get_def iter_count_def)
  next
    case True
    let ?e = "t ! pos"
    have pos: "pos < length t" using True "1.prems"(1) by simp
    have kl: "length (me_key ?e) = KEY_SIZE" using "1.prems"(2) pos by simp
    note step = matching_step[OF pos, of h]
    have last: "matching t h (pos + 1) = []" if "pos + 1 = slots" using that "1.prems"(1) by (simp add: matching_def)
    show ?thesis
    proof (cases "entry_matches h ?e")
      case no: False
      have eq: "matching t h pos = matching t h (pos + 1)" using step no by simp
      show ?thesis
      proof (cases "pos + 1 = slots")
        case e: True
        then show ?thesis using True pos no last eq by (subst S) (auto simp: host_get_def iter_count_def)
      next
        case False
        then have "pos + 1 < slots" using True by simp
        moreover have "iter_scan t slots h pos off nr buf = iter_scan t slots h (pos + 1) off nr buf"
          using True pos no False by (subst S) simp
        ultimately show ?thesis
          using "1.IH"[of ?e "(off, nr, buf)" off "(nr, buf)" nr buf] True pos no False "1.prems" eq by (auto simp: Suc_le_eq iter_count_def)
      qed
    next
      case yes: True
      have eq: "matching t h pos = ?e # matching t h (pos + 1)" using step yes by simp
      show ?thesis
      proof (cases "off + 20 \<le> 1024")
        case False
        then have "iter_scan t slots h pos off nr buf = Some (False, pos, off, nr, buf)"
          using True pos yes by (subst S) (simp add: ITER_KEYLEN_def)
        then show ?thesis using eq iter_fit_0[OF False] True by (auto simp: host_get_def iter_count_def)
      next
        case fit: True
        let ?buf = "host_put (host_put buf off (le32 ITER_KEYLEN)) (off + 4) (take ITER_KEYLEN (me_key ?e))"
        have rec: "host_put buf off (iter_rec ?e) = ?buf" using host_put_append[of buf off "le32 ITER_KEYLEN"] by (simp add: iter_rec_def)
        have l20: "length (iter_rec ?e) = 20" by (rule length_iter_rec[OF kl])
        have get0: "host_get ?buf off 20 = iter_rec ?e" unfolding rec[symmetric] using host_get_put[of buf off "iter_rec ?e"] l20 by simp
        have below: "?buf i = buf i" if "i < off" for i unfolding rec[symmetric] using that by (simp add: host_put_def)
        have keep: "host_get b off 20 = iter_rec ?e" if "\<forall>i < off + 20. b i = ?buf i" for b
        proof -
          have "host_get b off 20 = host_get ?buf off 20" using that by (intro nth_equalityI) (simp_all add: host_get_nth)
          then show ?thesis using get0 by simp
        qed
        show ?thesis
        proof (cases "pos + 1 = slots")
          case e: True
          then have "iter_scan t slots h pos off nr buf = Some (True, pos + 1, off + 20, nr + 1, ?buf)"
            using True pos yes fit by (subst S) (simp add: ITER_KEYLEN_def)
          then show ?thesis using eq last[OF e] iter_fit_Suc[OF fit] True e below get0 by (simp add: iter_count_def)
        next
          case False
          have run: "iter_scan t slots h pos off nr buf = iter_scan t slots h (pos + 1) (off + 20) (nr + 1) ?buf"
            using True pos yes fit False by (subst S) (simp add: ITER_KEYLEN_def add.commute)
          define k where "k = min (length (matching t h (pos + 1))) (iter_fit (off + 20))"
          have k: "iter_count t h pos off = Suc k" using eq iter_fit_Suc[OF fit] by (simp add: k_def iter_count_def)
          have get: "aget t pos = Some ?e" and less: "\<not> \<not> pos < slots" using True pos by simp_all
          note ih = "1.IH"[OF less get _ _ refl refl False "1.prems", of "off + 20" "nr + 1" ?buf, simplified ITER_KEYLEN_def]
          from ih yes fit True obtain pos' buf' where ih: "iter_scan t slots h (pos + 1) (off + 20) (nr + 1) ?buf =
              Some (pos + 1 < slots \<and> k = length (matching t h (pos + 1)), pos', off + 20 + 20 * k, nr + 1 + k, buf')"
            "matching t h pos' = drop k (matching t h (pos + 1))" "pos' \<le> slots" "k < length (matching t h (pos + 1)) \<longrightarrow> pos' < slots"
            "host_get buf' (off + 20) (20 * k) = concat (map iter_rec (take k (matching t h (pos + 1))))"
            "\<forall>i < off + 20. buf' i = ?buf i"
            unfolding k_def iter_count_def by (simp add: add.commute ITER_KEYLEN_def) blast
          have "host_get buf' off (20 * Suc k) = iter_rec ?e @ concat (map iter_rec (take k (matching t h (pos + 1))))"
            using host_get_append[of buf' off 20 "20 * k"] keep[OF ih(6)] ih(5) by simp
          then show ?thesis
            unfolding k run ih(1) using ih(2-4,6) below True False eq by (auto intro!: exI[of _ pos'] exI[of _ buf'])
        qed
      qed
    qed
  qed
qed

subsection \<open>The reads of an iterator\<close>

text \<open>What the host takes from the buffer of a read: the number of keys, and each key with its length.\<close>

fun parse_keys :: "nat \<Rightarrow> u8 list \<Rightarrow> u8 list list" where
  "parse_keys 0 bs = []"
| "parse_keys (Suc n) bs = (let len = le_nat (take 4 bs) in take len (drop 4 bs) # parse_keys n (drop (4 + (len + 3) div 4 * 4) bs))"

definition iter_parse :: "u8 list \<Rightarrow> u8 list list" where
  "iter_parse bs = parse_keys (le_nat (take 4 bs)) (drop 4 bs)"

text \<open>The host reads, into the same page, until a read reports the end.\<close>

fun kv_iter_all :: "nat \<Rightarrow> 's kv_ftl \<Rightarrow> host_mem \<Rightarrow> nvme_kv_command \<Rightarrow> (u8 list list \<times> 's kv_ftl \<times> host_mem) option" where
  "kv_iter_all 0 c m cmd = None"
| "kv_iter_all (Suc n) c m cmd = do {
     (len, st, c, m) \<leftarrow> kv_iter_read c m cmd 0;
     let ks = iter_parse (host_value m (kv_prp1 cmd) (kv_prp2 cmd) (unat len));
     if st = KV_ITER_END then Some (ks, c, m)
     else do {
       (ks', c, m) \<leftarrow> kv_iter_all n c m cmd;
       Some (ks @ ks', c, m)
     }
   }"

definition iter_key :: "mapping_entry \<Rightarrow> u8 list" where "iter_key e = take ITER_KEYLEN (me_key e)"

lemma le_nat_le32: "n < 256 \<Longrightarrow> le_nat (le32 n) = n"
  by (simp add: le32_def upt_rec unat_of_nat_less)

lemma le32_nth: "n < 256 \<Longrightarrow> le32 n = [of_nat n, 0, 0, 0]"
  by (simp add: le32_def upt_rec)

lemma parse_keys_recs:
  "\<forall>e \<in> set es. length (me_key e) = KEY_SIZE \<Longrightarrow> parse_keys (length es) (concat (map iter_rec es)) = map iter_key es"
proof (induction es)
  case (Cons e es)
  have l: "length (iter_key e) = 16" using Cons.prems by (simp add: iter_key_def ITER_KEYLEN_def KEY_SIZE_def)
  have "iter_rec e = le32 16 @ iter_key e" by (simp add: iter_rec_def iter_key_def ITER_KEYLEN_def)
  then show ?case using Cons l le_nat_le32[of 16] by (simp add: Let_def)
qed simp

lemma matching_prefix: "matching t h (pos :: nat) = filter (entry_matches h) (drop pos t)"
  by (simp add: matching_def)

lemma matching_keys: "\<forall>e \<in> set t. P e \<Longrightarrow> \<forall>e \<in> set (take n (matching t h pos)). P e"
  by (auto simp: matching_def dest!: in_set_takeD in_set_dropD)

text \<open>One read.\<close>

lemma kv_iter_read_ok:
  assumes c: "kv_shape c" and h: "aget (iter_handles c) (kv_iter_handle cmd) = Some (Iter h)"
    and pos: "unat (it_current_pos h) < length (kv_mapping_table c)" and pg: "page_off (kv_prp1 cmd) + 1024 \<le> PAGE_SIZE"
  defines "ks \<equiv> matching (kv_mapping_table c) h (unat (it_current_pos h))"
  shows "\<exists>len h' m'. kv_iter_read c m cmd st = Some (len, if length ks \<le> 51 then KV_ITER_END else 0,
        c\<lparr>iter_handles := (iter_handles c)[kv_iter_handle cmd := Iter h']\<rparr>, m') \<and>
    iter_parse (host_value m' (kv_prp1 cmd) (kv_prp2 cmd) (unat len)) = map iter_key (take 51 ks) \<and>
    matching (kv_mapping_table c) h' (unat (it_current_pos h')) = drop 51 ks \<and>
    (51 < length ks \<longrightarrow> unat (it_current_pos h') < length (kv_mapping_table c))"
proof -
  let ?t = "kv_mapping_table c" and ?pos = "unat (it_current_pos h)"
  note t = table_okD[OF kv_shapeD(1)[OF c]] and slots = kv_shapeD(3)[OF c]
  have kl: "\<forall>e \<in> set ?t. length (me_key e) = KEY_SIZE" using t(3) by (auto simp: in_set_conv_nth)
  define n where "n = min (length ks) 51"
  have n: "iter_count ?t h ?pos 4 = n" by (simp add: iter_count_def ks_def n_def iter_fit_def)
  obtain pos' buf where scan: "iter_scan ?t (length ?t) h ?pos 4 0 (it_buf h) = Some (n = length ks, pos', 4 + 20 * n, n, buf)"
    "matching ?t h pos' = drop n ks" "pos' \<le> length ?t" "n < length ks \<Longrightarrow> pos' < length ?t"
    "host_get buf 4 (20 * n) = concat (map iter_rec (take n ks))"
    using iter_scan_ok[OF refl kl, of h ?pos 4 0 "it_buf h"] pos unfolding n ks_def[symmetric] by auto
  define b where "b = host_put buf 0 (le32 n)"
  define h' where "h' = h\<lparr>it_buf := b, it_current_pos := of_nat pos'\<rparr>"
  have n51: "n \<le> 51" by (simp add: n_def)
  have pg': "prp_ok m (kv_prp1 cmd) (kv_prp2 cmd) (4 + 20 * n) [(prp_addr_of (kv_prp1 cmd), 4 + 20 * n)]"
    using prp_ok_page[of "kv_prp1 cmd" "4 + 20 * n" m "kv_prp2 cmd"] pg n51 by simp
  obtain m' where out: "prp_loop (copy_out 32768) (kv_prp1 cmd) (kv_prp2 cmd) 0 (4 + 20 * n) 0 0 None (b, m) = Some (b, m')"
    "host_value m' (kv_prp1 cmd) (kv_prp2 cmd) (4 + 20 * n) = host_get b 0 (4 + 20 * n)"
    using copy_out_ok[OF pg', of 0 32768 b] n51 by auto
  have "host_get b 0 4 = le32 n" using host_get_put[of buf 0 "le32 n"] by (simp add: b_def)
  moreover have "host_get b 4 (20 * n) = host_get buf 4 (20 * n)" unfolding b_def by (rule host_get_put_apart) simp
  ultimately have buf: "host_get b 0 (4 + 20 * n) = le32 n @ concat (map iter_rec (take n ks))"
    using host_get_append[of b 0 4 "20 * n"] scan(5) by simp
  have "length (take n ks) = n" by (simp add: n_def)
  then have parse: "iter_parse (host_get b 0 (4 + 20 * n)) = map iter_key (take n ks)"
    using parse_keys_recs[of "take n ks"] matching_keys[OF kl] le_nat_le32[of n] n51 by (simp add: iter_parse_def buf ks_def)
  have u: "unat (of_nat (4 + 20 * n) :: u32) = 4 + 20 * n" by (rule unat_of_nat_less) (use n51 in simp)
  have p: "unat (it_current_pos h') = pos'" unfolding h'_def using unat_of_nat_less[of pos', where 'a = 64] scan(3) t(2) by simp
  have hl: "kv_iter_handle cmd < length (iter_handles c)" using h by (simp add: aget_def split: if_splits)
  have run: "kv_iter_read c m cmd st = Some (of_nat (4 + 20 * n), if n = length ks then KV_ITER_END else 0,
      c\<lparr>iter_handles := (iter_handles c)[kv_iter_handle cmd := Iter h']\<rparr>, m')"
    using h hl slots scan(1) out(1) by (simp add: kv_iter_read_def Let_def b_def[symmetric] h'_def aset_def)
  have "entry_matches h' = entry_matches h" by (simp add: h'_def entry_matches_def fun_eq_iff)
  then have "matching ?t h' pos' = matching ?t h pos'" by (simp add: matching_def)
  then show ?thesis
    using run scan(2,4) out(2) parse u p
    by (intro exI[of _ "of_nat (4 + 20 * n)"] exI[of _ h'] exI[of _ m']) (auto simp: n_def min_def split: if_splits)
qed

lemma kv_iter_all_ok:
  assumes "kv_shape c" "aget (iter_handles c) (kv_iter_handle cmd) = Some (Iter h)"
    and "unat (it_current_pos h) < length (kv_mapping_table c)" "page_off (kv_prp1 cmd) + 1024 \<le> PAGE_SIZE"
    and "length (matching (kv_mapping_table c) h (unat (it_current_pos h))) div 51 < n"
  shows "\<exists>hs m'. kv_iter_all n c m cmd =
    Some (map iter_key (matching (kv_mapping_table c) h (unat (it_current_pos h))), c\<lparr>iter_handles := hs\<rparr>, m')"
  using assms
proof (induction n arbitrary: c m h)
  case (Suc n)
  let ?ks = "matching (kv_mapping_table c) h (unat (it_current_pos h))"
  obtain len h' m' where r: "kv_iter_read c m cmd 0 = Some (len, if length ?ks \<le> 51 then KV_ITER_END else 0,
        c\<lparr>iter_handles := (iter_handles c)[kv_iter_handle cmd := Iter h']\<rparr>, m')"
    "iter_parse (host_value m' (kv_prp1 cmd) (kv_prp2 cmd) (unat len)) = map iter_key (take 51 ?ks)"
    "matching (kv_mapping_table c) h' (unat (it_current_pos h')) = drop 51 ?ks"
    "51 < length ?ks \<longrightarrow> unat (it_current_pos h') < length (kv_mapping_table c)"
    using kv_iter_read_ok[OF Suc.prems(1-4), of m 0] by blast
  show ?case
  proof (cases "length ?ks \<le> 51")
    case True
    then show ?thesis using r(1,2) by (auto simp: Let_def)
  next
    case False
    let ?c = "c\<lparr>iter_handles := (iter_handles c)[kv_iter_handle cmd := Iter h']\<rparr>"
    have a: "aget (iter_handles ?c) (kv_iter_handle cmd) = Some (Iter h')" using Suc.prems(2) by (auto simp: aget_def split: if_splits)
    have d: "length (drop 51 ?ks) div 51 < n" using Suc.prems(5) False le_div_geq[of 51 "length ?ks"] by simp
    obtain hs m'' where "kv_iter_all n ?c m' cmd = Some (map iter_key (drop 51 ?ks), ?c\<lparr>iter_handles := hs\<rparr>, m'')"
      using Suc.IH[OF _ a _ Suc.prems(4), of m'] Suc.prems(1) r(3,4) False d by (auto simp: kv_shape_def)
    then show ?thesis using r(1,2) False by (auto simp: Let_def KV_ITER_END_def simp flip: map_append)
  qed
qed simp

subsection \<open>The contract of iterators\<close>

text \<open>The entries an iterator is opened for.\<close>

definition iter_wanted :: "nvme_kv_command \<Rightarrow> mapping_entry \<Rightarrow> bool" where
  "iter_wanted cmd e \<longleftrightarrow> me_offset e \<noteq> - 1 \<and>
     of_nat (le_nat (take 4 (me_key e))) AND kv_iter_bitmask cmd = kv_iter_val cmd AND kv_iter_bitmask cmd"

text \<open>C30. An iterator that is opened while a handle is free reports, in reads of at most 51 keys and after
  finitely many of them, every key of the table that matches its prefix, each once and in the
  order of the table, and leaves the table and the storage as they are.\<close>

theorem kv_iter_complete:
  assumes "kv_shape c" "length (iter_handles c) = 17" "No_Iter \<in> set (take 16 (drop 1 (iter_handles c)))"
  shows "\<exists>r c1. kv_iter_open c cmd st = Some (r, 0, c1) \<and> unat r \<in> {1..16} \<and>
    (\<forall>rd m. kv_iter_handle rd = unat r \<and> page_off (kv_prp1 rd) + 1024 \<le> PAGE_SIZE \<longrightarrow>
      (\<exists>hs m'. kv_iter_all (length (filter (iter_wanted cmd) (kv_mapping_table c)) div 51 + 1) c1 m rd =
        Some (map iter_key (filter (iter_wanted cmd) (kv_mapping_table c)), c\<lparr>iter_handles := hs\<rparr>, m')))"
proof -
  let ?t = "kv_mapping_table c"
  obtain j where j: "j < 16" "iter_handles c ! (j + 1) = No_Iter" using assms(2,3) by (auto simp: in_set_conv_nth)
  then have "List.find (\<lambda>i. iter_handles c ! i = No_Iter) [1..<17] \<noteq> None"
    by (auto simp: find_None_iff intro!: exI[of _ "j + 1"])
  then obtain i where i: "List.find (\<lambda>i. iter_handles c ! i = No_Iter) [1..<17] = Some i" by blast
  then have i17: "i < 17" by (auto simp: find_Some_iff)
  define h where "h = \<lparr>it_prefix = kv_iter_val cmd, it_bitmask = kv_iter_bitmask cmd, it_buf = (\<lambda>_. 0), it_current_pos = 0\<rparr>"
  let ?c = "c\<lparr>iter_handles := (iter_handles c)[i := Iter h]\<rparr>"
  have op: "kv_iter_open c cmd st = Some (of_nat i, 0, ?c)" using i i17 assms(2) by (simp add: kv_iter_open_def aset_def h_def)
  have u: "unat (of_nat i :: u32) = i" by (rule unat_of_nat_less) (use i17 in simp)
  have m: "matching ?t h 0 = filter (iter_wanted cmd) ?t"
    by (simp add: matching_def h_def entry_matches_def iter_wanted_def fun_eq_iff cong: filter_cong)
  have "\<exists>hs m'. kv_iter_all (length (filter (iter_wanted cmd) ?t) div 51 + 1) ?c m rd =
      Some (map iter_key (filter (iter_wanted cmd) ?t), c\<lparr>iter_handles := hs\<rparr>, m')"
    if rd: "kv_iter_handle rd = i" "page_off (kv_prp1 rd) + 1024 \<le> PAGE_SIZE" for rd m
    using kv_iter_all_ok[of ?c rd h "length (filter (iter_wanted cmd) ?t) div 51 + 1" m] rd assms(1,2) i17 m table_okD(1)[OF kv_shapeD(1)[OF assms(1)]]
    by (simp add: aget_def kv_shape_def h_def)
  moreover have "i \<in> {1..16}" using i by (auto simp: find_Some_iff)
  ultimately show ?thesis using op u by (intro exI[of _ "of_nat i"] exI[of _ ?c]) simp
qed

lemma kv_iter_complete_witness:
  "\<exists>r c1 hs m'. kv_iter_open two_kv (demo_kv_cmd nvme_cmd_kv_iter_req 0 0) 0 = Some (r, 0, c1) \<and>
    kv_iter_all 1 c1 (\<lambda>_. 5) (demo_kv_cmd nvme_cmd_kv_iter_read 0 0\<lparr>kv_key_len := ucast r\<rparr>) =
      Some ([4 # replicate 15 0, replicate 16 0], two_kv\<lparr>iter_handles := hs\<rparr>, m')"
proof -
  let ?op = "demo_kv_cmd nvme_cmd_kv_iter_req 0 0"
  have hs: "iter_handles two_kv = replicate 16 No_Iter @ [Wild]"
    by (simp add: two_kv_def demo_kv_def kv_init_namespace_def append_only_ops_def append_only_allocator_init_def Let_def)
  have sh: "kv_shape two_kv" by (rule kv_invD(1)[OF two_kv_inv])
  have "iter_wanted ?op e \<longleftrightarrow> me_offset e \<noteq> - 1" for e by (simp add: iter_wanted_def kv_iter_bitmask_def kv_iter_val_def demo_kv_cmd_def numeral_eq_Suc)
  then have ks: "map iter_key (filter (iter_wanted ?op) (kv_mapping_table two_kv)) = [4 # replicate 15 0, replicate 16 0]"
    "length (filter (iter_wanted ?op) (kv_mapping_table two_kv)) = 2"
    by (simp_all add: two_kv_def iter_key_def ITER_KEYLEN_def)
  obtain r c1 where o: "kv_iter_open two_kv ?op 0 = Some (r, 0, c1)" "unat r \<in> {1..16}"
    "\<And>rd m. kv_iter_handle rd = unat r \<Longrightarrow> page_off (kv_prp1 rd) + 1024 \<le> PAGE_SIZE \<Longrightarrow>
      \<exists>hs m'. kv_iter_all 1 c1 m rd = Some ([4 # replicate 15 0, replicate 16 0], two_kv\<lparr>iter_handles := hs\<rparr>, m')"
    using kv_iter_complete[OF sh, of ?op 0] hs ks by auto
  have "unat (ucast r :: u8) = unat r" using o(2) by (simp add: unsigned_ucast_eq take_bit_nat_eq_self)
  then show ?thesis
    using o(1) o(3)[of "demo_kv_cmd nvme_cmd_kv_iter_read 0 0\<lparr>kv_key_len := ucast r\<rparr>" "\<lambda>_. 5"]
    by (auto simp: kv_iter_handle_def demo_kv_cmd_def page_off_def PAGE_OFFSET_MASK_def PAGE_SIZE_def)
qed

end
