(* ===== verification/Io_Units.thy ===== *)
theory Io_Units
  imports Conv_IO Kv_Table
begin

unbundle bit_operations_syntax

text \<open>
  The timing of the devices without a NAND model, \<^verbatim>\<open>simple_ftl.c\<close> and the first part of
  \<^verbatim>\<open>kv_ftl.c\<close>, which have the same scheduler: an array of I/O units, each with the time until
  which it is busy. A request occupies one unit after another, wrapping at the last.
\<close>

subsection \<open>The model\<close>

text \<open>The fields of \<^verbatim>\<open>struct nvmev_config\<close> that the scheduler reads.\<close>

record nvmev_config =
  nr_io_units :: u32
  io_unit_shift :: u32
  read_delay :: u32
  read_time :: u32
  read_trailing :: u32
  write_delay :: u32
  write_time :: u32
  write_trailing :: u32

definition DIV_ROUND_UP32 :: "u32 \<Rightarrow> u32 \<Rightarrow> u32" where
  "DIV_ROUND_UP32 n d = (n + d - 1) div d"

definition cmd_io_size :: "nvme_rw_cmd \<Rightarrow> u32" where
  "cmd_io_size cmd = push_bit 9 (ucast (rw_length cmd) + 1)"

text \<open>The delay, the latency of a unit and what trails it, for an operation of either device.\<close>

definition simple_delays :: "nvmev_config \<Rightarrow> nat \<Rightarrow> u32 \<times> u32 \<times> u32" where
  "simple_delays cfg opc =
     (if opc = nvme_cmd_write then (write_delay cfg, write_time cfg, write_trailing cfg)
      else if opc = nvme_cmd_read then (read_delay cfg, read_time cfg, read_trailing cfg)
      else (0, 0, 0))"

definition kv_delays :: "nvmev_config \<Rightarrow> nat \<Rightarrow> u32 \<times> u32 \<times> u32" where
  "kv_delays cfg opc =
     (if opc = nvme_cmd_write \<or> opc = nvme_cmd_kv_store \<or> opc = nvme_cmd_kv_batch
      then (write_delay cfg, write_time cfg, write_trailing cfg)
      else if opc = nvme_cmd_read \<or> opc = nvme_cmd_kv_retrieve
      then (read_delay cfg, read_time cfg, read_trailing cfg)
      else (0, 0, 0))"

text \<open>The loop over the units, which has its test at the end: \<open>nr\<close> of them are followed by \<open>trailing\<close>.\<close>

partial_function (option) io_unit_loop :: "nvmev_config \<Rightarrow> u32 \<Rightarrow> u32 \<Rightarrow> u32 \<Rightarrow> u32 \<Rightarrow> int \<Rightarrow> u32 \<Rightarrow> u64 \<Rightarrow> u64 list \<Rightarrow>
    (u64 \<times> u64 list) option" where
  "io_unit_loop cfg io_size latency trailing io_unit nr len latest stat = do {
     let latest = latest + ucast latency;
     stat \<leftarrow> aset stat (unat io_unit) latest;
     stat \<leftarrow> (if nr > 0 then amod stat (unat io_unit) (\<lambda>s. Some (s + ucast trailing)) else Some stat);
     let len = len - min len io_size;
     let io_unit = (if io_unit + 1 \<ge> nr_io_units cfg then 0 else io_unit + 1);
     if len > 0 then io_unit_loop cfg io_size latency trailing io_unit (nr - 1) len latest stat
     else Some (latest, stat)
   }"

text \<open>A shift by a negative number of bits or past the width, and a division by 0, are \<open>None\<close>.\<close>

definition schedule_io_units :: "nvmev_config \<Rightarrow> u32 \<times> u32 \<times> u32 \<Rightarrow> u64 list \<Rightarrow> u64 \<Rightarrow> u32 \<Rightarrow> u64 \<Rightarrow> (u64 \<times> u64 list) option" where
  "schedule_io_units cfg delays stat lba len start = do {
     let (delay, latency, trailing) = delays;
     nv_assert (9 \<le> io_unit_shift cfg \<and> io_unit_shift cfg < 32 \<and> nr_io_units cfg \<noteq> 0);
     let io_size = push_bit (unat (io_unit_shift cfg)) 1;
     let io_unit = (ucast (drop_bit (unat (io_unit_shift cfg - 9)) lba mod ucast (nr_io_units cfg)) :: u32);
     let nr = min (nr_io_units cfg) (DIV_ROUND_UP32 len io_size);
     s \<leftarrow> aget stat (unat io_unit);
     io_unit_loop cfg io_size latency trailing io_unit (sint nr) len (max start s + ucast delay) stat
   }"

definition schedule_flush :: "nvmev_config \<Rightarrow> u64 list \<Rightarrow> u64 option" where
  "schedule_flush cfg stat =
     opt_fold (\<lambda>latest i. do { s \<leftarrow> aget stat i; Some (max latest s) }) 0 [0..<unat (nr_io_units cfg)]"

definition INTEL_OPTANE :: nat where "INTEL_OPTANE = 0"

text \<open>\<open>base\<close> is the \<^verbatim>\<open>BASE_SSD\<close> of the build, \<open>csi\<close> the command set of the namespace, \<open>now\<close> the wall clock.\<close>

definition simple_proc_nvme_io_cmd :: "nat \<Rightarrow> nvmev_config \<Rightarrow> nat \<Rightarrow> u64 list \<Rightarrow> u64 \<Rightarrow> nvme_rw_cmd \<Rightarrow> nvmev_result \<Rightarrow>
    (bool \<times> nvmev_result \<times> u64 list) option" where
  "simple_proc_nvme_io_cmd base cfg csi stat now cmd ret = do {
     nv_assert (csi = NVME_CSI_NVM);
     nv_assert (base = INTEL_OPTANE);
     if opcode cmd = nvme_cmd_write \<or> opcode cmd = nvme_cmd_read then do {
       (t, stat) \<leftarrow> schedule_io_units cfg (simple_delays cfg (opcode cmd)) stat (slba cmd) (cmd_io_size cmd) now;
       Some (True, ret\<lparr>nsecs_target := t\<rparr>, stat)
     } else if opcode cmd = nvme_cmd_flush then do {
       t \<leftarrow> schedule_flush cfg stat;
       Some (True, ret\<lparr>nsecs_target := t\<rparr>, stat)
     } else Some (True, ret, stat)
   }"

text \<open>
  A command of the key-value device is a block command or a key-value command: the opcode decides
  which structure is read. A command that is not listed keeps the time at which it arrived.
\<close>

definition kv_proc_nvme_io_cmd :: "nvmev_config \<Rightarrow> u64 list \<Rightarrow> u64 \<Rightarrow> nvme_rw_cmd + nvme_kv_command \<Rightarrow> nvmev_result \<Rightarrow>
    (bool \<times> nvmev_result \<times> u64 list) option" where
  "kv_proc_nvme_io_cmd cfg stat now cmd ret =
     (case cmd of
        Inl rw \<Rightarrow>
          if opcode rw = nvme_cmd_write \<or> opcode rw = nvme_cmd_read then do {
            (t, stat) \<leftarrow> schedule_io_units cfg (kv_delays cfg (opcode rw)) stat (slba rw) (cmd_io_size rw) now;
            Some (True, ret\<lparr>nsecs_target := t\<rparr>, stat)
          } else if opcode rw = nvme_cmd_flush then do {
            t \<leftarrow> schedule_flush cfg stat;
            Some (True, ret\<lparr>nsecs_target := t\<rparr>, stat)
          } else Some (True, ret, stat)
      | Inr kv \<Rightarrow>
          if kv_opcode kv \<in> {nvme_cmd_kv_store, nvme_cmd_kv_retrieve, nvme_cmd_kv_batch} then do {
            (t, stat) \<leftarrow> schedule_io_units cfg (kv_delays cfg (kv_opcode kv)) stat 0 (cmd_value_length kv) now;
            Some (True, ret\<lparr>nsecs_target := t\<rparr>, stat)
          } else Some (True, ret, stat))"

subsection \<open>What a request occupies\<close>

lemma aset_amod: "i < length xs \<Longrightarrow> do { ys \<leftarrow> aset xs i v; amod ys i (\<lambda>s. Some (f s)) } = Some (xs[i := f v])"
  by (simp add: amod_def)

text \<open>The distance of unit \<open>i\<close> from \<open>u\<close>, in the order in which the loop visits them.\<close>

definition unit_dist :: "nat \<Rightarrow> nat \<Rightarrow> nat \<Rightarrow> nat" where
  "unit_dist n u i = (i + n - u) mod n"

lemma unit_dist_self [simp]: "u < n \<Longrightarrow> unit_dist n u u = 0"
  by (simp add: unit_dist_def)

lemma unit_dist_next:
  assumes "u < n" "i < n" "i \<noteq> u"
  shows "unit_dist n u i = Suc (unit_dist n (if u + 1 \<ge> n then 0 else u + 1) i)"
  using assms by (cases "u < i") (auto simp: unit_dist_def mod_if)

lemma unit_dist_last: "u < n \<Longrightarrow> unit_dist n (if u + 1 \<ge> n then 0 else u + 1) u = n - 1"
  by (auto simp: unit_dist_def mod_if)

text \<open>The state after \<open>m\<close> units from \<open>u\<close> on: each is busy until its share is done.\<close>

definition units_busy :: "nat \<Rightarrow> u64 \<Rightarrow> u32 \<Rightarrow> u32 \<Rightarrow> nat \<Rightarrow> u64 list \<Rightarrow> u64 list" where
  "units_busy u base latency trailing m stat = map (\<lambda>i.
     if unit_dist (length stat) u i < m
     then base + of_nat (Suc (unit_dist (length stat) u i)) * ucast latency + ucast trailing
     else stat ! i) [0..<length stat]"

lemma units_busy_0: "units_busy u base latency trailing 0 stat = stat"
  by (simp add: units_busy_def map_nth)

lemma units_busy_Suc:
  assumes "u < length stat" "Suc m \<le> length stat"
  shows "units_busy u base latency trailing (Suc m) stat =
    units_busy (if u + 1 \<ge> length stat then 0 else u + 1) (base + ucast latency) latency trailing m
      (stat[u := base + ucast latency + ucast trailing])"
proof (rule nth_equalityI)
  let ?n = "length stat" and ?u = "if u + 1 \<ge> length stat then 0 else u + 1"
  fix i assume "i < length (units_busy u base latency trailing (Suc m) stat)"
  then have i: "i < ?n" by (simp add: units_busy_def)
  show "units_busy u base latency trailing (Suc m) stat ! i =
    units_busy ?u (base + ucast latency) latency trailing m (stat[u := base + ucast latency + ucast trailing]) ! i"
  proof (cases "i = u")
    case True
    have "\<not> unit_dist ?n ?u u < m" using unit_dist_last[OF assms(1)] assms(2) by simp
    then show ?thesis using True i by (simp add: units_busy_def)
  next
    case False
    note unit_dist_next[OF assms(1) i False]
    then show ?thesis using False i by (simp add: units_busy_def algebra_simps)
  qed
qed (simp add: units_busy_def)

text \<open>The units that a length takes.\<close>

definition units_of :: "nat \<Rightarrow> nat \<Rightarrow> nat" where
  "units_of len sz = (len + sz - 1) div sz"

lemma units_of_step: "0 < sz \<Longrightarrow> 0 < len \<Longrightarrow> units_of len sz = Suc (units_of (len - min len sz) sz)"
proof (cases "len \<le> sz")
  case True
  assume p: "0 < sz" "0 < len"
  then have "(len + sz - 1) div sz = 1"
    using True by (intro div_nat_eqI) auto
  then show ?thesis using True p by (simp add: units_of_def)
next
  case False
  assume p: "0 < sz" "0 < len"
  then have "len + sz - 1 = (len - sz + sz - 1) + sz" using False by simp
  then have "(len + sz - 1) div sz = Suc ((len - sz + sz - 1) div sz)" using p by (metis div_add_self2 add.commute less_not_refl plus_1_eq_Suc)
  then show ?thesis using False by (simp add: units_of_def)
qed

lemma units_of_0: "0 < sz \<Longrightarrow> units_of 0 sz = 0"
  by (simp add: units_of_def)

lemma unat_next_unit:
  fixes u n :: u32
  assumes "u < n"
  shows "unat (if u + 1 \<ge> n then 0 else u + 1) = (if unat u + 1 \<ge> unat n then 0 else unat u + 1)"
proof -
  have "unat n < 2 ^ LENGTH(32)" by (rule unsigned_less)
  then have "unat u + 1 < 2 ^ LENGTH(32)" using assms by (simp add: word_less_nat_alt)
  then have "unat (u + 1) = unat u + 1" using unat_add_less[of u 1] by simp
  then show ?thesis by (simp add: word_le_nat_alt)
qed

lemma io_unit_loop_ok:
  assumes "length stat = unat (nr_io_units cfg)" "io_unit < nr_io_units cfg" "0 < io_size" "0 < len"
    and "nr = int (units_of (unat len) (unat io_size))" "units_of (unat len) (unat io_size) \<le> length stat"
  shows "io_unit_loop cfg io_size latency trailing io_unit nr len base stat =
    Some (base + of_nat (units_of (unat len) (unat io_size)) * ucast latency,
      units_busy (unat io_unit) base latency trailing (units_of (unat len) (unat io_size)) stat)"
  using assms
proof (induction "units_of (unat len) (unat io_size)" arbitrary: io_unit nr len base stat)
  case 0
  have "0 < unat io_size" "0 < unat len" using "0.prems"(3,4) by (simp_all add: word_less_nat_alt)
  then show ?case using units_of_step[of "unat io_size" "unat len"] "0.hyps" by simp
next
  case (Suc m)
  let ?len = "len - min len io_size" and ?u = "if io_unit + 1 \<ge> nr_io_units cfg then 0 else io_unit + 1"
  have p: "0 < unat io_size" "0 < unat len" using Suc.prems(3,4) by (simp_all add: word_less_nat_alt)
  have "unat (min len io_size) = min (unat len) (unat io_size)" by (simp add: min_def word_le_nat_alt)
  then have l: "unat ?len = unat len - min (unat len) (unat io_size)" by (simp add: unat_sub_le)
  have m: "m = units_of (unat ?len) (unat io_size)" using units_of_step[OF p] Suc.hyps(2) l by simp
  have u: "unat io_unit < length stat" using Suc.prems(1,2) by (simp add: word_less_nat_alt)
  have u': "unat ?u = (if unat io_unit + 1 \<ge> length stat then 0 else unat io_unit + 1)"
    using unat_next_unit[OF Suc.prems(2)] Suc.prems(1) by simp
  have n0: "0 < nr" using Suc.prems(5) Suc.hyps(2) by simp
  let ?stat = "stat[unat io_unit := base + ucast latency + ucast trailing]"
  have run: "io_unit_loop cfg io_size latency trailing io_unit nr len base stat =
      (if ?len > 0 then io_unit_loop cfg io_size latency trailing ?u (nr - 1) ?len (base + ucast latency) ?stat
       else Some (base + ucast latency, ?stat))"
    using n0 u by (subst io_unit_loop.simps) (simp add: Let_def amod_def)
  have busy: "units_busy (unat io_unit) base latency trailing (Suc m) stat =
      units_busy (unat ?u) (base + ucast latency) latency trailing m ?stat"
    unfolding u' by (rule units_busy_Suc[OF u]) (use Suc.prems(6) Suc.hyps(2) in simp)
  show ?case
  proof (cases "?len > 0")
    case False
    then have "unat ?len = 0" by (simp add: word_less_nat_alt)
    then have "m = 0" using m units_of_0[OF p(1)] by simp
    then show ?thesis using run False busy Suc.hyps(2)[symmetric] by (simp add: units_busy_0)
  next
    case True
    have lt: "?u < nr_io_units cfg" using u' u Suc.prems(1) by (auto simp: word_less_nat_alt)
    have "io_unit_loop cfg io_size latency trailing ?u (nr - 1) ?len (base + ucast latency) ?stat =
        Some (base + ucast latency + of_nat m * ucast latency, units_busy (unat ?u) (base + ucast latency) latency trailing m ?stat)"
      using Suc.hyps(1)[OF m, of ?stat ?u "nr - 1" "base + ucast latency"] lt Suc.prems(1,3,5,6) Suc.hyps(2) True m by simp
    then show ?thesis using run True busy Suc.hyps(2)[symmetric] by (simp add: algebra_simps)
  qed
qed

text \<open>A configuration that the module accepts, with one time for each unit.\<close>

definition units_ok :: "nvmev_config \<Rightarrow> u64 list \<Rightarrow> bool" where
  "units_ok cfg stat \<longleftrightarrow> 9 \<le> io_unit_shift cfg \<and> io_unit_shift cfg < 31 \<and> 0 < nr_io_units cfg \<and>
     unat (nr_io_units cfg) < 2 ^ 31 \<and> length stat = unat (nr_io_units cfg)"

definition first_unit :: "nvmev_config \<Rightarrow> u64 \<Rightarrow> nat" where
  "first_unit cfg lba = unat lba div 2 ^ (unat (io_unit_shift cfg) - 9) mod unat (nr_io_units cfg)"

lemma unat_power_less: "n < LENGTH('a) \<Longrightarrow> unat (push_bit n 1 :: 'a :: len word) = 2 ^ n"
  by (subst unsigned_push_bit_eq) (simp add: push_bit_eq_mult take_bit_nat_eq_self)

lemma sint_small:
  fixes w :: u32
  assumes "unat w < 2 ^ 31"
  shows "sint w = int (unat w)"
proof -
  have "int (unat w) < int (2 ^ 31)" using assms by (simp only: of_nat_less_iff)
  then have "int (unat w) < 2 ^ 31" by simp
  moreover have "- (2 ^ 31) \<le> int (unat w)" by (rule order.trans[of _ 0]) simp_all
  ultimately have "signed_take_bit 31 (int (unat w)) = int (unat w)" by (intro signed_take_bit_int_eq_self)
  then show ?thesis by (simp add: sint_uint)
qed

lemma unat_div_round_up:
  assumes "unat n + unat d \<le> 2 ^ 32" "0 < d"
  shows "unat (DIV_ROUND_UP32 n d) = units_of (unat n) (unat d)"
proof -
  have d: "1 \<le> unat d" using assms(2) by (simp add: word_less_nat_alt)
  have "unat (d - 1) = unat d - 1" using d unat_sub_le[of 1 d] by (simp add: word_le_nat_alt)
  moreover from this have "unat n + unat (d - 1) < 2 ^ LENGTH(32)" using assms(1) d by simp
  then have "unat (n + (d - 1)) = unat n + unat (d - 1)" by (rule unat_add_less)
  moreover have "unat (n + d - 1) = unat (n + (d - 1))" by (simp only: add_diff_eq)
  ultimately have "unat (n + d - 1) = unat n + unat d - 1" using d by linarith
  then show ?thesis by (simp add: DIV_ROUND_UP32_def units_of_def unat_div_distrib)
qed

text \<open>C33. A request of at most as many units as there are takes the units from the one of its first
  block on: it starts when that unit is free, ends after one latency for each unit, and each unit is
  busy until its share is done and the trailing time has passed, whatever it was busy with.\<close>

theorem io_units_schedule:
  assumes "units_ok cfg stat" "0 < len" "unat len \<le> 2 ^ 31"
    and "m = units_of (unat len) (2 ^ unat (io_unit_shift cfg))" "m \<le> length stat"
    and "base = max start (stat ! first_unit cfg lba) + ucast delay"
  shows "schedule_io_units cfg (delay, latency, trailing) stat lba len start =
    Some (base + of_nat m * ucast latency, units_busy (first_unit cfg lba) base latency trailing m stat)"
proof -
  let ?s = "unat (io_unit_shift cfg)" and ?n = "nr_io_units cfg"
  let ?u = "(ucast (drop_bit (unat (io_unit_shift cfg - 9)) lba mod ucast ?n) :: u32)"
  let ?sz = "push_bit ?s 1 :: u32"
  have s: "9 \<le> ?s" "?s < 31" and n: "0 < unat ?n" "unat ?n < 2 ^ 31" "length stat = unat ?n"
    using assms(1) by (simp_all add: units_ok_def word_le_nat_alt word_less_nat_alt)
  have sub: "unat (io_unit_shift cfg - 9) = ?s - 9" using s unat_sub_le[of 9 "io_unit_shift cfg"] by (simp add: word_le_nat_alt)
  have sz: "unat ?sz = 2 ^ ?s" by (rule unat_power_less) (use s in simp)
  have sz0: "0 < ?sz" using sz by (simp add: word_less_nat_alt)
  have "unat lba < 2 ^ LENGTH(64)" by (rule unsigned_less)
  then have "unat (drop_bit (?s - 9) lba) = unat lba div 2 ^ (?s - 9)"
    by (subst unsigned_drop_bit_eq) (simp add: drop_bit_eq_div take_bit_nat_eq_self)
  moreover have "unat (ucast ?n :: u64) = unat ?n" using n by (simp add: unsigned_ucast_eq take_bit_nat_eq_self)
  ultimately have "unat (drop_bit (?s - 9) lba mod ucast ?n) = first_unit cfg lba"
    unfolding unat_mod_distrib first_unit_def by simp
  moreover have lt: "first_unit cfg lba < unat ?n" using n by (simp add: first_unit_def)
  ultimately have u: "unat ?u = first_unit cfg lba"
    using n sub by (simp add: unsigned_ucast_eq take_bit_nat_eq_self)
  have "(2 :: nat) ^ ?s \<le> 2 ^ 31" using s by (intro power_increasing) auto
  then have up: "unat (DIV_ROUND_UP32 len ?sz) = m" using unat_div_round_up[OF _ sz0, of len] assms(3,4) sz by simp
  have "unat (min ?n (DIV_ROUND_UP32 len ?sz)) = m"
    using up assms(5) n by (auto simp: min_def word_le_nat_alt)
  moreover have "sint (min ?n (DIV_ROUND_UP32 len ?sz)) = int (unat (min ?n (DIV_ROUND_UP32 len ?sz)))"
    by (rule sint_small) (use calculation n assms(5) in simp)
  ultimately have nr: "sint (min ?n (DIV_ROUND_UP32 len ?sz)) = int (units_of (unat len) (unat ?sz))" using assms(4) sz by simp
  have ul: "?u < ?n" using u lt by (simp add: word_less_nat_alt)
  have "io_unit_loop cfg ?sz latency trailing ?u (sint (min ?n (DIV_ROUND_UP32 len ?sz))) len base stat =
      Some (base + of_nat m * ucast latency, units_busy (unat ?u) base latency trailing m stat)"
    using io_unit_loop_ok[OF n(3) ul sz0 assms(2) nr] assms(4,5) sz by simp
  moreover have "io_unit_shift cfg < 32" "9 \<le> io_unit_shift cfg" "?n \<noteq> 0" using s n by (auto simp: word_less_nat_alt word_le_nat_alt)
  ultimately show ?thesis
    using u lt n(3) assms(6) by (simp add: schedule_io_units_def Let_def)
qed

text \<open>
  Two units of a page, with 10 ns a unit: the second is busy until 1000, and a request over both
  units that starts at 0 leaves it free at 20.
\<close>

definition demo_units :: nvmev_config where
  "demo_units = \<lparr>nr_io_units = 2, io_unit_shift = 12, read_delay = 0, read_time = 10, read_trailing = 0,
     write_delay = 0, write_time = 10, write_trailing = 0\<rparr>"

lemma io_units_schedule_witness:
  "schedule_io_units demo_units (0, 10, 0) [0, 1000] 0 8192 0 = Some (20, [10, 20])"
proof -
  have ok: "units_ok demo_units [0, 1000]" by (simp add: units_ok_def demo_units_def)
  have u: "first_unit demo_units 0 = 0" by (simp add: first_unit_def)
  have m: "units_of (unat (8192 :: u32)) (2 ^ unat (io_unit_shift demo_units)) = 2" by (simp add: units_of_def demo_units_def)
  have "units_busy 0 0 10 0 2 [0, 1000] = [10, 20]" by (simp add: units_busy_def unit_dist_def upt_rec mod_if)
  then show ?thesis using io_units_schedule[OF ok, of 8192 2 0 0 0 0 10 0] m u by simp
qed

subsection \<open>Flush\<close>

lemma schedule_flush_max:
  assumes "length stat = unat (nr_io_units cfg)"
  shows "\<exists>t. schedule_flush cfg stat = Some t \<and> (\<forall>s \<in> set stat. s \<le> t) \<and> t \<in> insert 0 (set stat)"
proof -
  have "\<exists>t. opt_fold (\<lambda>latest i. do { s \<leftarrow> aget stat i; Some (max latest s) }) 0 [0..<length stat] = Some t \<and>
      (\<forall>i \<in> set [0..<length stat]. stat ! i \<le> t) \<and> t \<in> insert 0 (set stat)"
  proof (rule opt_fold_inv[where P = "\<lambda>is t. (\<forall>i \<in> set is. stat ! i \<le> t) \<and> t \<in> insert 0 (set stat)"])
    fix i ys zs t
    assume u: "[0..<length stat] = ys @ i # zs" and t: "(\<forall>i \<in> set ys. stat ! i \<le> t) \<and> t \<in> insert 0 (set stat)"
    have "i < length stat" using upt_split_less[OF u] by simp
    then show "\<exists>t'. do { s \<leftarrow> aget stat i; Some (max t s) } = Some t' \<and> (\<forall>i \<in> set (ys @ [i]). stat ! i \<le> t') \<and> t' \<in> insert 0 (set stat)"
      using t by (auto simp: max_def intro: order.trans)
  qed simp
  moreover have "(\<forall>i \<in> set [0..<length stat]. stat ! i \<le> t) = (\<forall>s \<in> set stat. s \<le> t)" for t
    by (auto simp: all_set_conv_all_nth)
  ultimately show ?thesis using assms by (simp add: schedule_flush_def)
qed

end
