(* ===== verification/Io_Copy.thy ===== *)
theory Io_Copy
  imports Host_Memory Zns_IO
begin

unbundle bit_operations_syntax

text \<open>
  The copies of the I/O workers, \<^verbatim>\<open>io.c\<close>: between the storage and the pages that the PRP entries
  of a command name, page by page by the processor, or in runs of adjacent pages by the DMA
  engine. The memory of the host is mapped page by page; memory that has no page structures
  (\<open>pv\<close>, the kernel's \<^verbatim>\<open>pfn_valid\<close>, is false of it) is mapped with \<^verbatim>\<open>memremap\<close>, which returns the
  address of the byte asked for, to which the code adds the offset in the page once more.
\<close>

text \<open>The fields of a command beside those that the translation layers read.\<close>

record nvme_io_cmd = nvme_rw_cmd +
  cmd_nsid :: u32
  cmd_prp1 :: u64
  cmd_prp2 :: u64

definition cmd_io_offset :: "nvme_io_cmd \<Rightarrow> u64" where
  "cmd_io_offset cmd = push_bit 9 (slba cmd)"

definition io_cmd_size :: "nvme_io_cmd \<Rightarrow> nat" where
  "io_cmd_size cmd = (unat (rw_length cmd) + 1) * 512"

subsection \<open>The copy by the processor\<close>

text \<open>
  The list of entries: where it is mapped, in units of bytes of the host's memory, and the bytes
  of the mapping from there on.
\<close>

type_synonym io_list = "nat \<times> nat"

definition io_list_entry :: "host_mem \<Rightarrow> io_list \<Rightarrow> nat \<Rightarrow> u64 option" where
  "io_list_entry m l i =
     (if 8 * i + 8 \<le> snd l
      then Some (of_nat (\<Sum>j\<leftarrow>[0..<8]. unat (m (fst l + 8 * i + j)) * 256 ^ j)) else None)"

definition io_list_at :: "(u64 \<Rightarrow> bool) \<Rightarrow> u64 \<Rightarrow> io_list" where
  "io_list_at pv p =
     (if pv p then (prp_addr_of p, PAGE_SIZE - page_off p)
      else (prp_addr_of p + 8 * page_off p, PAGE_SIZE - 8 * page_off p))"

definition io_addr_at :: "(u64 \<Rightarrow> bool) \<Rightarrow> u64 \<Rightarrow> nat" where
  "io_addr_at pv p = (if pv p then prp_addr_of p else prp_addr_of p + page_off p)"

definition io_next :: "(u64 \<Rightarrow> bool) \<Rightarrow> host_mem \<Rightarrow> u64 \<Rightarrow> u64 \<Rightarrow> nat \<Rightarrow> nat \<Rightarrow> nat \<Rightarrow> io_list option \<Rightarrow>
    (u64 \<times> nat \<times> io_list option) option" where
  "io_next pv m prp1 prp2 rem k k2 lst =
     (if k = 0 then Some (prp1, k2, lst)
      else if k = 1 then
        (if rem > PAGE_SIZE then do {
           let l = io_list_at pv prp2;
           e \<leftarrow> io_list_entry m l k2;
           Some (e, k2 + 1, Some l)
         } else Some (prp2, k2, lst))
      else do { l \<leftarrow> lst; e \<leftarrow> io_list_entry m l k2; Some (e, k2 + 1, lst) })"

function io_loop :: "(u64 \<Rightarrow> bool) \<Rightarrow> (nat \<Rightarrow> nat \<Rightarrow> nat \<Rightarrow> 's \<times> host_mem \<Rightarrow> ('s \<times> host_mem) option) \<Rightarrow> u64 \<Rightarrow> u64 \<Rightarrow>
    nat \<Rightarrow> nat \<Rightarrow> nat \<Rightarrow> nat \<Rightarrow> io_list option \<Rightarrow> 's \<times> host_mem \<Rightarrow> ('s \<times> host_mem) option" where
  "io_loop pv cpy prp1 prp2 off rem k k2 lst s =
     (if rem = 0 then Some s
      else do {
        (paddr, k2, lst) \<leftarrow> io_next pv (snd s) prp1 prp2 rem k k2 lst;
        let io = io_size_of paddr rem;
        s \<leftarrow> cpy off (io_addr_at pv paddr) io s;
        io_loop pv cpy prp1 prp2 (off + io) (rem - io) (k + 1) k2 lst s
      })"
  by pat_completeness auto
termination
  by (relation "measure (\<lambda>(pv, a, b, c, off, rem, d). rem)") (auto simp: io_size_less)

declare io_loop.simps [simp del]

text \<open>
  The direction. \<open>sz\<close> is the size of the storage: a copy past the end of a namespace runs into
  what the storage has behind it.
\<close>

definition io_copy :: "nat \<Rightarrow> nat \<Rightarrow> nat \<Rightarrow> nat \<Rightarrow> nat \<Rightarrow> (nat \<Rightarrow> u8) \<times> host_mem \<Rightarrow> ((nat \<Rightarrow> u8) \<times> host_mem) option" where
  "io_copy sz opc =
     (if opc = nvme_cmd_write \<or> opc = nvme_cmd_zone_append then copy_in sz
      else if opc = nvme_cmd_read then copy_out sz else copy_none)"

text \<open>\<open>ns\<close> has the offset in the storage at which each namespace is mapped.\<close>

definition do_perform_io :: "(u64 \<Rightarrow> bool) \<Rightarrow> nat \<Rightarrow> nat list \<Rightarrow> nvme_io_cmd \<Rightarrow> (nat \<Rightarrow> u8) \<times> host_mem \<Rightarrow>
    ((nat \<Rightarrow> u8) \<times> host_mem) option" where
  "do_perform_io pv sz ns cmd s = do {
     base \<leftarrow> aget ns (unat (cmd_nsid cmd - 1));
     io_loop pv (io_copy sz (opcode cmd)) (cmd_prp1 cmd) (cmd_prp2 cmd) (base + unat (cmd_io_offset cmd)) (io_cmd_size cmd)
       0 0 None s
   }"

subsection \<open>The copy by the DMA engine\<close>

text \<open>All entries are read first, into an array of 513 of which the first is not used.\<close>

definition DMA_LIST :: nat where "DMA_LIST = 513"

function dma_prps :: "(u64 \<Rightarrow> bool) \<Rightarrow> host_mem \<Rightarrow> u64 \<Rightarrow> u64 \<Rightarrow> nat \<Rightarrow> nat \<Rightarrow> nat \<Rightarrow> io_list option \<Rightarrow> u64 list option" where
  "dma_prps pv m prp1 prp2 rem k k2 lst =
     (if rem = 0 then Some []
      else do {
        nv_assert (k + 1 < DMA_LIST);
        (paddr, k2, lst) \<leftarrow> io_next pv m prp1 prp2 rem k k2 lst;
        ps \<leftarrow> dma_prps pv m prp1 prp2 (rem - io_size_of paddr rem) (k + 1) k2 lst;
        Some (paddr # ps)
      })"
  by pat_completeness auto
termination
  by (relation "measure (\<lambda>(pv, a, b, c, rem, d). rem)") (auto simp: io_size_less)

declare dma_prps.simps [simp del]

text \<open>The number of entries that follow \<open>p\<close> page by page.\<close>

fun adjacent :: "u64 \<Rightarrow> u64 list \<Rightarrow> nat" where
  "adjacent p [] = 0"
| "adjacent p (q # qs) = (if q = p + of_nat PAGE_SIZE then Suc (adjacent q qs) else 0)"

text \<open>
  One submission for a run of pages. An entry past those that were read is 0. What a submission
  does is a parameter, as the copy above: \<^verbatim>\<open>ioat_dma_submit\<close> copies between physical addresses.
\<close>

function dma_loop :: "(nat \<Rightarrow> nat \<Rightarrow> nat \<Rightarrow> 's \<Rightarrow> 's option) \<Rightarrow> u64 list \<Rightarrow> nat \<Rightarrow> nat \<Rightarrow> 's \<Rightarrow> 's option" where
  "dma_loop cpy ps off rem s =
     (if rem = 0 then Some s
      else do {
        let (paddr, qs) = (case ps of [] \<Rightarrow> (0, []) | p # qs \<Rightarrow> (p, qs));
        let n = adjacent paddr qs;
        let io = min rem (io_size_of paddr rem + n * PAGE_SIZE);
        s \<leftarrow> cpy off (prp_addr_of paddr) io s;
        dma_loop cpy (drop n qs) (off + io) (rem - io) s
      })"
  by pat_completeness auto
termination
  by (relation "measure (\<lambda>(a, b, off, rem, d). rem)") (auto simp: io_size_pos)

declare dma_loop.simps [simp del]

text \<open>The offset is one of the whole storage: the namespace of the command is not read.\<close>

definition do_perform_io_using_dma :: "(u64 \<Rightarrow> bool) \<Rightarrow> nat \<Rightarrow> nvme_io_cmd \<Rightarrow> (nat \<Rightarrow> u8) \<times> host_mem \<Rightarrow>
    ((nat \<Rightarrow> u8) \<times> host_mem) option" where
  "do_perform_io_using_dma pv sz cmd s = do {
     ps \<leftarrow> dma_prps pv (snd s) (cmd_prp1 cmd) (cmd_prp2 cmd) (io_cmd_size cmd) 0 0 None;
     dma_loop (io_copy sz (opcode cmd)) ps (unat (cmd_io_offset cmd)) (io_cmd_size cmd) s
   }"

end
