(* ===== verification/Io_Transfer.thy ===== *)
theory Io_Transfer
  imports Io_Copy
begin

unbundle bit_operations_syntax

text \<open>
  What the copies of the I/O workers do, over the segments of a transfer; and that the DMA engine,
  with one submission for a run of pages, does the same as the processor page by page.
\<close>

text \<open>Memory mapped with \<^verbatim>\<open>memremap\<close> is handled right when the addresses in it are aligned.\<close>

definition mapped_right :: "(u64 \<Rightarrow> bool) \<Rightarrow> bool" where
  "mapped_right pv \<longleftrightarrow> (\<forall>p. pv p \<or> page_off p = 0)"

lemma io_addr_right: "mapped_right pv \<Longrightarrow> io_addr_at pv p = prp_addr_of p"
  unfolding mapped_right_def io_addr_at_def by (metis add_0_right)

lemma io_list_right: "mapped_right pv \<Longrightarrow> io_list_at pv p = (prp_addr_of p, PAGE_SIZE - page_off p)"
  unfolding mapped_right_def io_list_at_def by (metis add_0_right mult_0_right)

lemma io_list_entry_right: "mapped_right pv \<Longrightarrow> io_list_entry m (io_list_at pv p) i = prp_list_entry m p i"
proof -
  assume pv: "mapped_right pv"
  have a: "prp_addr_of p + 8 * i + j = unat (PRP_PFN p) * PAGE_SIZE + (page_off p + 8 * i) + j" for j by (simp add: prp_addr_of_def)
  have s: "8 * i + 8 \<le> PAGE_SIZE - page_off p \<longleftrightarrow> page_off p + 8 * i + 8 \<le> PAGE_SIZE" using page_off_less[of p] by linarith
  show ?thesis
    unfolding io_list_right[OF pv] io_list_entry_def prp_list_entry_def page_off_def[symmetric] Let_def fst_conv snd_conv s a by simp
qed

lemma io_next_right:
  assumes "mapped_right pv"
  shows "io_next pv m prp1 prp2 rem k k2 (map_option (io_list_at pv) lst) =
    map_option (\<lambda>(e, k2, lst). (e, k2, map_option (io_list_at pv) lst)) (prp_next m prp1 prp2 rem k k2 lst)"
proof (cases lst)
  case None
  then show ?thesis
    by (cases "prp_list_entry m prp2 k2") (auto simp: io_next_def prp_next_def Let_def io_list_entry_right[OF assms])
next
  case (Some l)
  then show ?thesis
    by (cases "prp_list_entry m prp2 k2"; cases "prp_list_entry m l k2")
      (auto simp: io_next_def prp_next_def Let_def io_list_entry_right[OF assms])
qed

lemma io_loop_right:
  assumes "mapped_right pv"
  shows "io_loop pv cpy prp1 prp2 off rem k k2 (map_option (io_list_at pv) lst) s = prp_loop cpy prp1 prp2 off rem k k2 lst s"
proof (induction cpy prp1 prp2 off rem k k2 lst s rule: prp_loop.induct)
  case (1 cpy prp1 prp2 off rem k k2 lst s)
  show ?case
  proof (cases "rem = 0")
    case True
    then show ?thesis by (subst io_loop.simps) simp
  next
    case False
    show ?thesis
    proof (cases "prp_next (snd s) prp1 prp2 rem k k2 lst")
      case None
      then show ?thesis using False by (subst io_loop.simps, subst prp_loop.simps) (simp add: io_next_right[OF assms])
    next
      case (Some r)
      obtain p k2' lst' where r: "r = (p, k2', lst')" by (cases r)
      show ?thesis
      proof (cases "cpy off (prp_addr_of p) (io_size_of p rem) s")
        case None
        then show ?thesis using False Some r
          by (subst io_loop.simps, subst prp_loop.simps) (simp add: io_next_right[OF assms] io_addr_right[OF assms] Let_def)
      next
        case (Some s')
        have nx: "prp_next (snd s) prp1 prp2 rem k k2 lst = Some (p, k2', lst')" using \<open>prp_next (snd s) prp1 prp2 rem k k2 lst = Some r\<close> r by simp
        from 1[OF False nx refl refl refl Some] show ?thesis using False Some nx
          by (subst io_loop.simps, subst prp_loop.simps) (simp add: io_next_right[OF assms] io_addr_right[OF assms] Let_def)
      qed
    qed
  qed
qed

lemma io_loop_start:
  "mapped_right pv \<Longrightarrow> io_loop pv cpy prp1 prp2 off rem k k2 None s = prp_loop cpy prp1 prp2 off rem k k2 None s"
  using io_loop_right[of pv cpy prp1 prp2 off rem k k2 None s] by simp

subsection \<open>One transfer\<close>

lemma prp_loop_none:
  "prp_segs (snd s) prp1 prp2 rem k k2 lst = Some ss \<Longrightarrow> prp_loop copy_none prp1 prp2 off rem k k2 lst s = Some s"
proof (induction "snd s" prp1 prp2 rem k k2 lst arbitrary: ss off rule: prp_segs.induct)
  case (1 prp1 prp2 rem k k2 lst)
  show ?case
  proof (cases "rem = 0")
    case False
    then have r: "0 < rem" by simp
    from prp_segs_step[OF 1(2) this] obtain p k2' lst' ss' where
      s: "prp_next (snd s) prp1 prp2 rem k k2 lst = Some (p, k2', lst')"
        "prp_segs (snd s) prp1 prp2 (rem - io_size_of p rem) (k + 1) k2' lst' = Some ss'" .
    show ?thesis using 1(1)[OF False s(1) refl refl refl s(2)] by (simp add: prp_loop_step[OF r] s(1) copy_none_def)
  qed simp
qed

text \<open>
  The storage and the memory after a transfer of the segments \<open>ss\<close> at the offset \<open>off\<close> of the
  storage.
\<close>

definition transferred :: "nat \<Rightarrow> nat \<Rightarrow> nat \<Rightarrow> (nat \<times> nat) list \<Rightarrow> (nat \<Rightarrow> u8) \<times> host_mem \<Rightarrow> (nat \<Rightarrow> u8) \<times> host_mem" where
  "transferred opc off len ss s =
     (if opc = nvme_cmd_write \<or> opc = nvme_cmd_zone_append then (host_put (fst s) off (seg_bytes (snd s) ss), snd s)
      else if opc = nvme_cmd_read then (fst s, put_segs (snd s) ss (host_get (fst s) off len)) else s)"

lemma io_loop_ok:
  assumes "mapped_right pv" "prp_ok m prp1 prp2 len ss" "off + len \<le> sz"
  shows "io_loop pv (io_copy sz opc) prp1 prp2 off len 0 0 None (st, m) = Some (transferred opc off len ss (st, m))"
proof -
  have s: "prp_segs m prp1 prp2 len 0 0 None = Some ss" and l: "2 < 0 + length ss \<Longrightarrow> list_all (seg_apart (list_page prp2)) ss"
    using assms(2) by (simp_all add: prp_ok_def)
  show ?thesis
    using prp_loop_in[OF s assms(3), of st] prp_loop_out[OF s _ assms(3) l, of st] prp_loop_none[of "(st, m)" prp1 prp2 len 0 0 None ss off] s
    by (simp add: io_loop_start[OF assms(1)] io_copy_def transferred_def)
qed

lemma do_perform_io_ok:
  assumes "mapped_right pv" "prp_ok m (cmd_prp1 cmd) (cmd_prp2 cmd) (io_cmd_size cmd) ss"
    and "aget ns (unat (cmd_nsid cmd - 1)) = Some base" "base + unat (cmd_io_offset cmd) + io_cmd_size cmd \<le> sz"
  shows "do_perform_io pv sz ns cmd (st, m) =
    Some (transferred (opcode cmd) (base + unat (cmd_io_offset cmd)) (io_cmd_size cmd) ss (st, m))"
  using io_loop_ok[OF assms(1,2,4)] assms(3) by (simp add: do_perform_io_def)

subsection \<open>Runs of pages\<close>

lemma prp_addr_of_nat: "prp_addr_of p = unat p"
proof -
  have "PAGE_OFFSET_MASK = mask 12" by (simp add: PAGE_OFFSET_MASK_def mask_eq_exp_minus_1)
  then have "page_off p = unat (take_bit 12 p)" unfolding page_off_def by (simp only: take_bit_eq_mask)
  then have "page_off p = take_bit 12 (unat p)" by (simp add: unsigned_take_bit_eq)
  then have o: "page_off p = unat p mod 4096" by (simp add: take_bit_eq_mod)
  have "unat p < 2 ^ LENGTH(64)" by (rule unsigned_less)
  then have "unat (PRP_PFN p) = unat p div 4096"
    unfolding PRP_PFN_def by (subst unsigned_drop_bit_eq) (simp add: drop_bit_eq_div take_bit_nat_eq_self)
  then show ?thesis using o by (simp add: prp_addr_of_def PAGE_SIZE_def)
qed

lemma page_off_mod: "page_off p = unat p mod PAGE_SIZE"
  using page_off_less[of p] prp_addr_of_nat[of p] by (metis prp_addr_of_def mod_less mod_mult_self3)

text \<open>An entry that leaves room for one more page before the end of the address space.\<close>

definition below_end :: "u64 \<Rightarrow> bool" where
  "below_end p \<longleftrightarrow> unat p + PAGE_SIZE < 2 ^ 64"

lemma next_page:
  assumes "below_end p"
  shows "prp_addr_of (p + of_nat PAGE_SIZE) = prp_addr_of p + PAGE_SIZE" "page_off (p + of_nat PAGE_SIZE) = page_off p"
proof -
  have "unat (of_nat PAGE_SIZE :: u64) = PAGE_SIZE" by (rule unat_of_nat_less) (simp add: PAGE_SIZE_def)
  then show a: "prp_addr_of (p + of_nat PAGE_SIZE) = prp_addr_of p + PAGE_SIZE"
    using assms unat_add_less[of p "of_nat PAGE_SIZE"] by (simp add: prp_addr_of_nat below_end_def)
  then show "page_off (p + of_nat PAGE_SIZE) = page_off p" by (simp add: page_off_mod prp_addr_of_nat)
qed

text \<open>The segments of a list of entries.\<close>

fun segs_of :: "u64 list \<Rightarrow> nat \<Rightarrow> (nat \<times> nat) list" where
  "segs_of [] rem = []"
| "segs_of (p # ps) rem = (prp_addr_of p, io_size_of p rem) # segs_of ps (rem - io_size_of p rem)"

lemma io_size_0 [simp]: "io_size_of p 0 = 0"
  by (simp add: io_size_min)

lemma segs_of_0: "seg_bytes m (segs_of ps 0) = []" "put_segs m (segs_of ps 0) bs = m"
  by (induction ps arbitrary: bs) (auto simp: host_get_def)

lemma dma_prps_ok:
  assumes "mapped_right pv" "prp_segs m prp1 prp2 rem k k2 lst = Some ss" "k + length ss < DMA_LIST"
  shows "\<exists>ps. dma_prps pv m prp1 prp2 rem k k2 (map_option (io_list_at pv) lst) = Some ps \<and> segs_of ps rem = ss"
  using assms(2,3)
proof (induction m prp1 prp2 rem k k2 lst arbitrary: ss rule: prp_segs.induct)
  case (1 m prp1 prp2 rem k k2 lst)
  show ?case
  proof (cases "rem = 0")
    case True
    then show ?thesis using 1(2) by (subst (asm) prp_segs.simps, subst dma_prps.simps) simp
  next
    case False
    then have r: "0 < rem" by simp
    from prp_segs_step[OF 1(2) this] obtain p k2' lst' ss' where
      s: "prp_next m prp1 prp2 rem k k2 lst = Some (p, k2', lst')" "ss = (prp_addr_of p, io_size_of p rem) # ss'"
        "prp_segs m prp1 prp2 (rem - io_size_of p rem) (k + 1) k2' lst' = Some ss'" .
    obtain ps where "dma_prps pv m prp1 prp2 (rem - io_size_of p rem) (k + 1) k2' (map_option (io_list_at pv) lst') = Some ps"
      "segs_of ps (rem - io_size_of p rem) = ss'"
      using 1(1)[OF False s(1) refl refl refl s(3)] 1(3) s(2) by auto
    then show ?thesis
      using False 1(3) s by (intro exI[of _ "p # ps"], subst dma_prps.simps) (simp add: io_next_right[OF assms(1)])
  qed
qed

text \<open>A run of adjacent pages is one segment.\<close>

lemma aligned_size: "page_off p = 0 \<Longrightarrow> io_size_of p rem = min rem PAGE_SIZE"
  by (simp add: io_size_min)

lemma min_split: "P \<le> rem \<Longrightarrow> min rem (P + X) = P + min (rem - P) X" for P :: nat
  by linarith

lemma seg_bytes_run:
  assumes "page_off p = 0" "\<forall>q \<in> set (p # qs). below_end q" "n = adjacent p qs"
  shows "seg_bytes m (segs_of (p # qs) rem) =
    host_get m (prp_addr_of p) (min rem (PAGE_SIZE + n * PAGE_SIZE)) @ seg_bytes m (segs_of (drop n qs) (rem - (PAGE_SIZE + n * PAGE_SIZE)))"
  using assms
proof (induction p qs arbitrary: n rem rule: adjacent.induct)
  case (1 p)
  then show ?case by (simp add: aligned_size segs_of_0)
next
  case (2 p q qs)
  show ?case
  proof (cases "q = p + of_nat PAGE_SIZE")
    case True
    have q: "prp_addr_of q = prp_addr_of p + PAGE_SIZE" "page_off q = 0"
      using next_page[of p] "2.prems"(1,2) True by simp_all
    let ?n = "adjacent q qs"
    have n: "n = Suc ?n" using "2.prems"(3) True by simp
    have ih: "seg_bytes m (segs_of (q # qs) (rem - PAGE_SIZE)) =
        host_get m (prp_addr_of p + PAGE_SIZE) (min (rem - PAGE_SIZE) (PAGE_SIZE + ?n * PAGE_SIZE)) @
        seg_bytes m (segs_of (drop ?n qs) (rem - PAGE_SIZE - (PAGE_SIZE + ?n * PAGE_SIZE)))"
      using "2.IH"[OF True q(2) _ refl, of "rem - PAGE_SIZE"] "2.prems"(2) q(1) by simp
    have io: "io_size_of p rem = min rem PAGE_SIZE" by (rule aligned_size[OF "2.prems"(1)])
    have r: "rem - min rem PAGE_SIZE = rem - PAGE_SIZE" by simp
    have "host_get m (prp_addr_of p) (min rem PAGE_SIZE) @ host_get m (prp_addr_of p + PAGE_SIZE) (min (rem - PAGE_SIZE) (PAGE_SIZE + ?n * PAGE_SIZE)) =
        host_get m (prp_addr_of p) (min rem (PAGE_SIZE + n * PAGE_SIZE))"
    proof (cases "rem \<le> PAGE_SIZE")
      case True
      then show ?thesis by (simp add: host_get_def n)
    next
      case False
      then have "min rem (PAGE_SIZE + n * PAGE_SIZE) = PAGE_SIZE + min (rem - PAGE_SIZE) (PAGE_SIZE + ?n * PAGE_SIZE)"
        using min_split[of PAGE_SIZE rem "PAGE_SIZE + ?n * PAGE_SIZE"] by (simp add: n)
      then show ?thesis using False by (simp add: host_get_append)
    qed
    then show ?thesis using ih io r by (simp add: n)
  next
    case False
    then have "n = 0" using "2.prems"(3) by simp
    then show ?thesis using aligned_size[OF "2.prems"(1), of rem] by (simp add: min_def)
  qed
qed

lemma put_segs_run:
  assumes "page_off p = 0" "\<forall>q \<in> set (p # qs). below_end q" "n = adjacent p qs" "length bs = rem"
  shows "put_segs m (segs_of (p # qs) rem) bs =
    put_segs (host_put m (prp_addr_of p) (take (PAGE_SIZE + n * PAGE_SIZE) bs)) (segs_of (drop n qs) (rem - (PAGE_SIZE + n * PAGE_SIZE)))
      (drop (PAGE_SIZE + n * PAGE_SIZE) bs)"
  using assms
proof (induction p qs arbitrary: n rem m bs rule: adjacent.induct)
  case (1 p)
  have "min rem PAGE_SIZE = rem \<or> min rem PAGE_SIZE = PAGE_SIZE" by linarith
  then show ?case using 1 by (auto simp: aligned_size)
next
  case (2 p q qs)
  have io: "io_size_of p rem = min rem PAGE_SIZE" by (rule aligned_size[OF "2.prems"(1)])
  have r: "rem - min rem PAGE_SIZE = rem - PAGE_SIZE" by simp
  have t: "take (min rem PAGE_SIZE) bs = take PAGE_SIZE bs" "drop (min rem PAGE_SIZE) bs = drop PAGE_SIZE bs"
    using "2.prems"(4) by (auto simp: min_def)
  show ?case
  proof (cases "q = p + of_nat PAGE_SIZE")
    case True
    have q: "prp_addr_of q = prp_addr_of p + PAGE_SIZE" "page_off q = 0"
      using next_page[of p] "2.prems"(1,2) True by simp_all
    let ?n = "adjacent q qs" and ?m = "host_put m (prp_addr_of p) (take PAGE_SIZE bs)"
    have n: "n = Suc ?n" using "2.prems"(3) True by simp
    have ih: "put_segs ?m (segs_of (q # qs) (rem - PAGE_SIZE)) (drop PAGE_SIZE bs) =
        put_segs (host_put ?m (prp_addr_of p + PAGE_SIZE) (take (PAGE_SIZE + ?n * PAGE_SIZE) (drop PAGE_SIZE bs)))
          (segs_of (drop ?n qs) (rem - PAGE_SIZE - (PAGE_SIZE + ?n * PAGE_SIZE))) (drop (PAGE_SIZE + ?n * PAGE_SIZE) (drop PAGE_SIZE bs))"
      using "2.IH"[OF True q(2) _ refl, of "drop PAGE_SIZE bs" "rem - PAGE_SIZE" ?m] "2.prems"(2,4) q(1) by simp
    have "host_put ?m (prp_addr_of p + PAGE_SIZE) (take (PAGE_SIZE + ?n * PAGE_SIZE) (drop PAGE_SIZE bs)) =
        host_put m (prp_addr_of p) (take (PAGE_SIZE + n * PAGE_SIZE) bs)"
    proof (cases "rem \<le> PAGE_SIZE")
      case True
      then show ?thesis using "2.prems"(4) by (simp add: n)
    next
      case False
      then have l: "length (take PAGE_SIZE bs) = PAGE_SIZE" using "2.prems"(4) by simp
      have "take (PAGE_SIZE + n * PAGE_SIZE) bs = take PAGE_SIZE bs @ take (PAGE_SIZE + ?n * PAGE_SIZE) (drop PAGE_SIZE bs)"
        by (simp add: n take_add)
      then show ?thesis using host_put_append[of m "prp_addr_of p" "take PAGE_SIZE bs"] unfolding l by simp
    qed
    then show ?thesis using ih io r t by (simp add: n add.commute add.left_commute)
  next
    case False
    then have "n = 0" using "2.prems"(3) by simp
    then show ?thesis using io r t by simp
  qed
qed

text \<open>The first submission: a run of aligned pages, or one page that is not aligned.\<close>

lemma first_run:
  assumes "\<forall>q \<in> set (p # qs). below_end q" "\<forall>q \<in> set qs. page_off q = 0"
  defines "io \<equiv> (\<lambda>rem. min rem (io_size_of p rem + adjacent p qs * PAGE_SIZE))"
  shows "seg_bytes m (segs_of (p # qs) rem) = host_get m (prp_addr_of p) (io rem) @ seg_bytes m (segs_of (drop (adjacent p qs) qs) (rem - io rem))"
    "length bs = rem \<Longrightarrow> put_segs m (segs_of (p # qs) rem) bs =
      put_segs (host_put m (prp_addr_of p) (take (io rem) bs)) (segs_of (drop (adjacent p qs) qs) (rem - io rem)) (drop (io rem) bs)"
proof -
  let ?n = "adjacent p qs"
  {
    assume o: "page_off p \<noteq> 0"
    have "?n = 0"
    proof (cases qs)
      case (Cons q qs')
      then have "page_off q = 0" using assms(2) by simp
      then have "q \<noteq> p + of_nat PAGE_SIZE" using next_page(2)[of p] assms(1) o by auto
      then show ?thesis using Cons by simp
    qed simp
    moreover from this have "io rem = io_size_of p rem" using io_size_le[of p rem] by (simp add: io_def)
    ultimately have "?n = 0 \<and> io rem = io_size_of p rem" by simp
  } note unaligned = this
  have a: "io rem = min rem (PAGE_SIZE + ?n * PAGE_SIZE)" "rem - io rem = rem - (PAGE_SIZE + ?n * PAGE_SIZE)" if "page_off p = 0"
    using aligned_size[OF that, of rem] by (auto simp: io_def)
  show "seg_bytes m (segs_of (p # qs) rem) = host_get m (prp_addr_of p) (io rem) @ seg_bytes m (segs_of (drop ?n qs) (rem - io rem))"
  proof (cases "page_off p = 0")
    case True
    show ?thesis using seg_bytes_run[OF True assms(1) refl, of m rem] unfolding a(2)[OF True] unfolding a(1)[OF True] .
  next
    case False
    then show ?thesis using unaligned by simp
  qed
  show "put_segs m (segs_of (p # qs) rem) bs =
      put_segs (host_put m (prp_addr_of p) (take (io rem) bs)) (segs_of (drop ?n qs) (rem - io rem)) (drop (io rem) bs)"
    if l: "length bs = rem"
  proof (cases "page_off p = 0")
    case True
    have "take (io rem) bs = take (PAGE_SIZE + ?n * PAGE_SIZE) bs" "drop (io rem) bs = drop (PAGE_SIZE + ?n * PAGE_SIZE) bs"
      using a(1)[OF True] l by (auto simp: min_def)
    then show ?thesis using put_segs_run[OF True assms(1) refl l, of m] a(2)[OF True] by simp
  next
    case False
    then show ?thesis using unaligned by simp
  qed
qed

lemma first_run_sum:
  assumes "\<forall>q \<in> set (p # qs). below_end q" "\<forall>q \<in> set qs. page_off q = 0" "sum_list (map snd (segs_of (p # qs) rem)) = rem"
  defines "io \<equiv> min rem (io_size_of p rem + adjacent p qs * PAGE_SIZE)"
  shows "sum_list (map snd (segs_of (drop (adjacent p qs) qs) (rem - io))) = rem - io"
proof -
  have "length (seg_bytes m (segs_of (p # qs) rem)) = rem" for m using assms(3) by (simp only: length_seg_bytes)
  then show ?thesis using arg_cong[OF first_run(1)[OF assms(1,2), of undefined rem], of length] by (simp add: length_seg_bytes io_def)
qed

lemma adjacent_le: "adjacent p qs \<le> length qs"
  by (induction p qs rule: adjacent.induct) auto

lemma dma_loop_ok:
  assumes "\<forall>q \<in> set ps. below_end q" "\<forall>q \<in> set (tl ps). page_off q = 0" "sum_list (map snd (segs_of ps rem)) = rem" "off + rem \<le> sz"
  shows "dma_loop (copy_in sz) ps off rem (st, m) = Some (host_put st off (seg_bytes m (segs_of ps rem)), m) \<and>
      dma_loop (copy_out sz) ps off rem (st, m) = Some (st, put_segs m (segs_of ps rem) (host_get st off rem)) \<and>
      dma_loop copy_none ps off rem (st, m) = Some (st, m)"
  using assms
proof (induction "length ps" arbitrary: ps off rem st m rule: less_induct)
  case less
  show ?case
  proof (cases "rem = 0")
    case True
    then show ?thesis by (simp add: dma_loop.simps[of _ ps off 0] segs_of_0)
  next
    case False
    then obtain p qs where ps: "ps = p # qs" using less.prems(3) by (cases ps) auto
    let ?n = "adjacent p qs" and ?io = "min rem (io_size_of p rem + adjacent p qs * PAGE_SIZE)" and ?a = "prp_addr_of p"
    let ?qs = "drop ?n qs"
    have h: "\<forall>q \<in> set (p # qs). below_end q" "\<forall>q \<in> set qs. page_off q = 0" using less.prems(1,2) ps by simp_all
    note run = first_run[OF h, of _ rem]
    have sum: "sum_list (map snd (segs_of ?qs (rem - ?io))) = rem - ?io" using first_run_sum[OF h] less.prems(3) ps by simp
    have len: "length ?qs < length ps" using ps by simp
    have b: "\<forall>q \<in> set ?qs. below_end q" "\<forall>q \<in> set (tl ?qs). page_off q = 0"
      using h set_drop_subset[of ?n qs] list.set_sel(2)[of ?qs] tl_Nil by fastforce+
    have o: "off + ?io + (rem - ?io) \<le> sz" "off + ?io \<le> sz" using less.prems(4) by simp_all
    note ih = less.hyps[OF len b sum o(1)]
    have step: "dma_loop cpy ps off rem s = do { s \<leftarrow> cpy off ?a ?io s; dma_loop cpy ?qs (off + ?io) (rem - ?io) s }"
      for cpy :: "nat \<Rightarrow> nat \<Rightarrow> nat \<Rightarrow> (nat \<Rightarrow> u8) \<times> host_mem \<Rightarrow> ((nat \<Rightarrow> u8) \<times> host_mem) option" and s
      using False by (subst dma_loop.simps) (simp add: ps Let_def)
    have g: "host_get st off rem = host_get st off ?io @ host_get st (off + ?io) (rem - ?io)"
      using host_get_append[of st off ?io "rem - ?io"] by simp
    have "put_segs m (segs_of ps rem) (host_get st off rem) =
        put_segs (host_put m ?a (host_get st off ?io)) (segs_of ?qs (rem - ?io)) (host_get st (off + ?io) (rem - ?io))"
      using run(2)[of "host_get st off rem" m] ps unfolding g by simp
    then show ?thesis
      unfolding step
      using ih[of "host_put st off (host_get m ?a ?io)" m] ih[of st "host_put m ?a (host_get st off ?io)"] ih[of st m]
        run(1)[of m] ps o(2) host_put_append[of st off "host_get m ?a ?io"]
      by (simp add: copy_in_Some copy_out_Some copy_none_def)
  qed
qed

subsection \<open>The contract of the copies\<close>

lemma segs_of_fst: "map fst (segs_of ps rem) = map prp_addr_of ps"
  by (induction ps arbitrary: rem) auto

lemma segs_of_entries:
  assumes "segs_of ps rem = ss"
  shows "set (map prp_addr_of ps) = fst ` set ss" "set (map prp_addr_of (tl ps)) = fst ` set (tl ss)"
  using segs_of_fst[of ps rem] assms by (metis list.set_map, metis list.set_map map_tl)

lemma dma_entries:
  assumes "mapped_right pv" "prp_ok m prp1 prp2 len ss" "length ss < DMA_LIST" "\<forall>s \<in> set ss. P (fst s)" "\<forall>s \<in> set (tl ss). fst s mod PAGE_SIZE = 0"
  obtains ps where "dma_prps pv m prp1 prp2 len 0 0 None = Some ps" "segs_of ps len = ss" "\<forall>q \<in> set ps. P (prp_addr_of q)"
    "\<forall>q \<in> set (tl ps). page_off q = 0" "sum_list (map snd (segs_of ps len)) = len"
proof -
  have s: "prp_segs m prp1 prp2 len 0 0 None = Some ss" using assms(2) by (simp add: prp_ok_def)
  obtain ps where ps: "dma_prps pv m prp1 prp2 len 0 0 None = Some ps" "segs_of ps len = ss"
    using dma_prps_ok[OF assms(1) s] assms(3) by auto
  note e = segs_of_entries[OF ps(2)]
  have "prp_addr_of q \<in> fst ` set ss" if "q \<in> set ps" for q unfolding e(1)[symmetric] using that by simp
  then have "\<forall>q \<in> set ps. P (prp_addr_of q)" using assms(4) by fastforce
  moreover have "prp_addr_of q \<in> fst ` set (tl ss)" if "q \<in> set (tl ps)" for q unfolding e(2)[symmetric] using that by simp
  then have "\<forall>q \<in> set (tl ps). page_off q = 0" using assms(5) by (fastforce simp: page_off_mod prp_addr_of_nat)
  ultimately show thesis using that ps prp_ok_len[OF assms(2)] by simp
qed

text \<open>The submissions move the segments that the entries describe.\<close>

lemma dma_loop_moves:
  assumes "\<forall>q \<in> set ps. below_end q" "\<forall>q \<in> set (tl ps). page_off q = 0" "sum_list (map snd (segs_of ps len)) = len"
    and "segs_of ps len = ss" "off + len \<le> sz"
  shows "dma_loop (io_copy sz opc) ps off len (st, m) = Some (transferred opc off len ss (st, m))"
  using dma_loop_ok[OF assms(1-3,5), of st m] assms(4) by (simp add: io_copy_def transferred_def)

text \<open>C32. For the first namespace the DMA engine, with one submission for each run of adjacent pages,
  leaves the storage and the memory of the host as the copy by the processor does.\<close>

theorem dma_equals_copy:
  assumes "mapped_right pv" "prp_ok m (cmd_prp1 cmd) (cmd_prp2 cmd) (io_cmd_size cmd) ss" "length ss < DMA_LIST"
    and "\<forall>s \<in> set ss. fst s + PAGE_SIZE < 2 ^ 64" "\<forall>s \<in> set (tl ss). fst s mod PAGE_SIZE = 0"
    and "cmd_nsid cmd = 1" "aget ns 0 = Some 0" "unat (cmd_io_offset cmd) + io_cmd_size cmd \<le> sz"
  shows "do_perform_io_using_dma pv sz cmd (st, m) = do_perform_io pv sz ns cmd (st, m)"
proof -
  obtain ps where ps: "dma_prps pv m (cmd_prp1 cmd) (cmd_prp2 cmd) (io_cmd_size cmd) 0 0 None = Some ps" "segs_of ps (io_cmd_size cmd) = ss"
    "\<forall>q \<in> set ps. prp_addr_of q + PAGE_SIZE < 2 ^ 64" "\<forall>q \<in> set (tl ps). page_off q = 0"
    "sum_list (map snd (segs_of ps (io_cmd_size cmd))) = io_cmd_size cmd"
    using dma_entries[OF assms(1-3), of "\<lambda>a. a + PAGE_SIZE < 2 ^ 64"] assms(4,5) by blast
  have "\<forall>q \<in> set ps. below_end q" using ps(3) by (simp add: below_end_def prp_addr_of_nat)
  note dma_loop_moves[OF this ps(4,5,2) assms(8), of "opcode cmd" st m]
  moreover have "do_perform_io pv sz ns cmd (st, m) = Some (transferred (opcode cmd) (unat (cmd_io_offset cmd)) (io_cmd_size cmd) ss (st, m))"
    using do_perform_io_ok[OF assms(1,2), of ns 0 sz st] assms(6-8) by simp
  ultimately show ?thesis using ps(1) by (simp add: do_perform_io_using_dma_def)
qed

text \<open>What a write or an append stores a later read of the same blocks returns, into whatever pages the
  read names; the write touches no other byte of the storage, the read none outside its pages.\<close>

theorem do_io_roundtrip:
  assumes "mapped_right pv" "prp_ok m (cmd_prp1 w) (cmd_prp2 w) len ss" "prp_ok m (cmd_prp1 r) (cmd_prp2 r) len ss'"
    and "opcode w = nvme_cmd_write \<or> opcode w = nvme_cmd_zone_append" "opcode r = nvme_cmd_read"
    and "cmd_nsid r = cmd_nsid w" "slba r = slba w" "io_cmd_size w = len" "io_cmd_size r = len"
    and "aget ns (unat (cmd_nsid w - 1)) = Some base" "off = base + unat (cmd_io_offset w)" "off + len \<le> sz"
  shows "\<exists>st' m'. do_perform_io pv sz ns w (st, m) = Some (st', m) \<and> do_perform_io pv sz ns r (st', m) = Some (st', m') \<and>
    host_value m' (cmd_prp1 r) (cmd_prp2 r) len = host_value m (cmd_prp1 w) (cmd_prp2 w) len \<and>
    (\<forall>i. i < off \<or> off + len \<le> i \<longrightarrow> st' i = st i) \<and>
    (\<forall>i. (\<forall>s \<in> set ss'. i < fst s \<or> fst s + snd s \<le> i) \<longrightarrow> m' i = m i)"
proof -
  let ?v = "host_value m (cmd_prp1 w) (cmd_prp2 w) len" and ?off = "base + unat (cmd_io_offset w)"
  let ?st = "host_put st ?off ?v"
  have o: "cmd_io_offset r = cmd_io_offset w" using assms(7) by (simp add: cmd_io_offset_def)
  have l: "length ?v = len" by (rule length_host_value[OF assms(2)])
  have "do_perform_io pv sz ns w (st, m) = Some (?st, m)"
    using do_perform_io_ok[OF assms(1) _ assms(10), of m ss sz st] assms(2,4,8,11,12) host_value_ok[OF assms(2)]
    by (auto simp: transferred_def)
  moreover obtain m' where m': "prp_loop (copy_out sz) (cmd_prp1 r) (cmd_prp2 r) ?off len 0 0 None (?st, m) = Some (?st, m')"
    "host_value m' (cmd_prp1 r) (cmd_prp2 r) len = host_get ?st ?off len" "\<forall>i. (\<forall>s \<in> set ss'. i < fst s \<or> fst s + snd s \<le> i) \<longrightarrow> m' i = m i"
    using copy_out_ok[OF assms(3), of ?off sz ?st] assms(11,12) by auto
  have c: "io_copy sz (opcode r) = copy_out sz"
    using assms(5) by (simp add: io_copy_def nvme_cmd_read_def nvme_cmd_write_def nvme_cmd_zone_append_def)
  have "do_perform_io pv sz ns r (?st, m) = Some (?st, m')"
    using m'(1) assms(6,9,10) o c by (simp add: do_perform_io_def io_loop_start[OF assms(1)])
  moreover have "host_get ?st ?off len = ?v" using host_get_put[of st ?off ?v] l by simp
  moreover have "\<forall>i. i < ?off \<or> ?off + len \<le> i \<longrightarrow> ?st i = st i" using l by (auto simp: host_put_def)
  ultimately show ?thesis using m'(2,3) assms(11) by auto
qed

text \<open>Two pages of the host, one behind the other, and two blocks of pages of the namespace.\<close>

definition demo_io :: "nat \<Rightarrow> u64 \<Rightarrow> nvme_io_cmd" where
  "demo_io opc p = \<lparr>opcode = opc, slba = 8, rw_length = 15, rw_control = 0, dsm_nr = 0, dsm_attributes = 0,
     cmd_nsid = 1, cmd_prp1 = p, cmd_prp2 = p + 4096\<rparr>"

lemma demo_io_sel [simp]:
  "opcode (demo_io opc p) = opc" "slba (demo_io opc p) = 8" "cmd_nsid (demo_io opc p) = 1" "cmd_prp1 (demo_io opc p) = p"
  "cmd_prp2 (demo_io opc p) = p + 4096" "io_cmd_size (demo_io opc p) = 8192" "cmd_io_offset (demo_io opc p) = 4096"
  by (simp_all add: demo_io_def io_cmd_size_def cmd_io_offset_def push_bit_eq_mult)

lemma demo_io_pages:
  assumes "p \<in> {8192, 16384}"
  shows "prp_ok m p (p + 4096) 8192 [(unat p, 4096), (unat p + 4096, 4096)]"
proof -
  have o: "page_off p = 0" "page_off (p + 4096) = 0" and a: "prp_addr_of (p + 4096) = unat p + 4096"
    using assms by (auto simp: page_off_mod prp_addr_of_nat PAGE_SIZE_def)
  have "prp_segs m p (p + 4096) 8192 0 0 None = Some [(unat p, 4096), (unat p + 4096, 4096)]"
    using o a prp_addr_of_nat[of p] prp_segs.simps[of m p "p + 4096" 0 2]
    by (subst prp_segs.simps, subst prp_segs.simps) (simp add: prp_next_def aligned_size PAGE_SIZE_def numeral_2_eq_2)
  then show ?thesis by (simp add: prp_ok_def seg_apart_def)
qed

lemma dma_equals_copy_witness:
  "do_perform_io_using_dma (\<lambda>_. True) 16384 (demo_io nvme_cmd_write 8192) (\<lambda>_. 7, \<lambda>_. 5) =
    do_perform_io (\<lambda>_. True) 16384 [0] (demo_io nvme_cmd_write 8192) (\<lambda>_. 7, \<lambda>_. 5)"
  using dma_equals_copy[of "\<lambda>_. True" "\<lambda>_. 5" "demo_io nvme_cmd_write 8192" _ "[0]" 16384 "\<lambda>_. 7"] demo_io_pages[of 8192 "\<lambda>_. 5"]
  by (simp add: mapped_right_def DMA_LIST_def PAGE_SIZE_def)

lemma do_io_roundtrip_witness:
  "\<exists>st' m'. do_perform_io (\<lambda>_. True) 16384 [0] (demo_io nvme_cmd_write 8192) (\<lambda>_. 7, \<lambda>_. 5) = Some (st', \<lambda>_. 5) \<and>
    do_perform_io (\<lambda>_. True) 16384 [0] (demo_io nvme_cmd_read 16384) (st', \<lambda>_. 5) = Some (st', m') \<and>
    host_value m' 16384 20480 8192 = host_value (\<lambda>_. 5) 8192 12288 8192"
proof -
  let ?w = "demo_io nvme_cmd_write 8192" and ?r = "demo_io nvme_cmd_read 16384"
  have pv: "mapped_right (\<lambda>_. True)" by (simp add: mapped_right_def)
  have w: "prp_ok (\<lambda>_. 5) (cmd_prp1 ?w) (cmd_prp2 ?w) 8192 [(8192, 4096), (12288, 4096)]"
    using demo_io_pages[of 8192 "\<lambda>_. 5"] by simp
  have r: "prp_ok (\<lambda>_. 5) (cmd_prp1 ?r) (cmd_prp2 ?r) 8192 [(16384, 4096), (20480, 4096)]"
    using demo_io_pages[of 16384 "\<lambda>_. 5"] by simp
  have "\<exists>st' m'. do_perform_io (\<lambda>_. True) 16384 [0] ?w (\<lambda>_. 7, \<lambda>_. 5) = Some (st', \<lambda>_. 5) \<and>
    do_perform_io (\<lambda>_. True) 16384 [0] ?r (st', \<lambda>_. 5) = Some (st', m') \<and>
    host_value m' (cmd_prp1 ?r) (cmd_prp2 ?r) 8192 = host_value (\<lambda>_. 5) (cmd_prp1 ?w) (cmd_prp2 ?w) 8192 \<and>
    (\<forall>i. i < 4096 \<or> 4096 + 8192 \<le> i \<longrightarrow> st' i = 7) \<and>
    (\<forall>i. (\<forall>s \<in> set [(16384, 4096), (20480, 4096)]. i < fst s \<or> fst s + snd s \<le> i) \<longrightarrow> m' i = 5)"
    by (rule do_io_roundtrip[OF pv w r, where base = 0]) simp_all
  then obtain st' m' where "do_perform_io (\<lambda>_. True) 16384 [0] ?w (\<lambda>_. 7, \<lambda>_. 5) = Some (st', \<lambda>_. 5)"
    "do_perform_io (\<lambda>_. True) 16384 [0] ?r (st', \<lambda>_. 5) = Some (st', m')"
    "host_value m' (cmd_prp1 ?r) (cmd_prp2 ?r) 8192 = host_value (\<lambda>_. 5) (cmd_prp1 ?w) (cmd_prp2 ?w) 8192" by blast
  then show ?thesis by (intro exI[of _ st'] exI[of _ m']) simp
qed

end
