(* ===== verification/Io_Worker.thy ===== *)
theory Io_Worker
  imports Conv_IO
begin

unbundle bit_operations_syntax

text \<open>
  The lists of the I/O workers, \<^verbatim>\<open>io.c\<close>: each worker has an array of entries that are linked by
  their indexes into two lists, the free entries and the requests in the order of their target
  times. The dispatcher takes an entry from the head of the free list, links the request in at
  its place, and moves the requests that are done from the front of the list to the end of the
  free list; \<open>- 1\<close> ends both lists. A list that runs in a circle is followed for ever: then the
  operation is \<open>None\<close>.
\<close>

definition NR_MAX_PARALLEL_IO :: nat where "NR_MAX_PARALLEL_IO = 16384"

text \<open>Fields that only time measurements use are left out; a buffer is named by its number.\<close>

record io_work =
  w_sqid :: nat
  w_cqid :: nat
  w_sq_entry :: nat
  w_command_id :: u32
  w_nsecs_start :: u64
  w_nsecs_target :: u64
  is_copied :: bool
  is_completed :: bool
  w_status :: u32
  w_result0 :: u32
  w_result1 :: u32
  is_internal :: bool
  w_write_buffer :: nat
  buffs_to_release :: u64
  w_next :: u32
  w_prev :: u32

record io_worker =
  work_queue :: "io_work list"
  free_seq :: u32
  free_seq_end :: u32
  io_seq :: u32
  io_seq_end :: u32
  latest_nsecs :: u64

record io_dev =
  io_workers :: "io_worker list"
  io_worker_turn :: u32

definition set_work :: "io_work list \<Rightarrow> u32 \<Rightarrow> (io_work \<Rightarrow> io_work) \<Rightarrow> io_work list option" where
  "set_work q e f = amod q (unat e) (\<lambda>w. Some (f w))"

subsection \<open>Insertion\<close>

text \<open>From the end of the list towards its front, to the entry the new one goes behind.\<close>

partial_function (option) insert_pos :: "io_work list \<Rightarrow> u64 \<Rightarrow> u64 \<Rightarrow> u32 \<Rightarrow> u32 option" where
  "insert_pos q latest target cur =
     (if cur = - 1 then Some cur
      else do {
        w \<leftarrow> aget q (unat cur);
        if w_nsecs_target w \<le> latest then Some cur
        else if w_nsecs_target w \<le> target then Some cur
        else insert_pos q latest target (w_prev w)
      })"

definition insert_req_sorted :: "u32 \<Rightarrow> io_worker \<Rightarrow> u64 \<Rightarrow> io_worker option" where
  "insert_req_sorted entry wk target =
     (if io_seq wk = - 1 then Some (wk\<lparr>io_seq := entry, io_seq_end := entry\<rparr>)
      else do {
        let q = work_queue wk;
        cur \<leftarrow> insert_pos q (latest_nsecs wk) target (io_seq_end wk);
        if cur = - 1 then do {
          q \<leftarrow> set_work q (io_seq wk) (\<lambda>w. w\<lparr>w_prev := entry\<rparr>);
          q \<leftarrow> set_work q entry (\<lambda>w. w\<lparr>w_next := io_seq wk\<rparr>);
          Some (wk\<lparr>work_queue := q, io_seq := entry\<rparr>)
        } else do {
          c \<leftarrow> aget q (unat cur);
          if w_next c = - 1 then do {
            q \<leftarrow> set_work q entry (\<lambda>w. w\<lparr>w_prev := cur\<rparr>);
            q \<leftarrow> set_work q cur (\<lambda>w. w\<lparr>w_next := entry\<rparr>);
            Some (wk\<lparr>work_queue := q, io_seq_end := entry\<rparr>)
          } else do {
            q \<leftarrow> set_work q entry (\<lambda>w. w\<lparr>w_prev := cur, w_next := w_next c\<rparr>);
            q \<leftarrow> set_work q (w_next c) (\<lambda>w. w\<lparr>w_prev := entry\<rparr>);
            q \<leftarrow> set_work q cur (\<lambda>w. w\<lparr>w_next := entry\<rparr>);
            Some (wk\<lparr>work_queue := q\<rparr>)
          }
        }
      })"

subsection \<open>Allocation\<close>

text \<open>The worker is chosen by the number of the submission queue.\<close>

definition get_io_worker :: "io_dev \<Rightarrow> nat \<Rightarrow> nat option" where
  "get_io_worker d sqid = do {
     nv_assert (io_workers d \<noteq> []);
     Some (unat ((of_nat sqid - 1 :: u32) mod of_nat (length (io_workers d))))
   }"

text \<open>The last free entry is never handed out: then the inner result is \<open>None\<close>, the null pointer.\<close>

definition allocate_work_queue_entry :: "io_dev \<Rightarrow> nat \<Rightarrow> ((nat \<times> u32) option \<times> io_dev) option" where
  "allocate_work_queue_entry d sqid = do {
     turn \<leftarrow> get_io_worker d sqid;
     wk \<leftarrow> aget (io_workers d) turn;
     let e = free_seq wk;
     w \<leftarrow> aget (work_queue wk) (unat e);
     if unat (w_next w) \<ge> NR_MAX_PARALLEL_IO then Some (None, d)
     else do {
       let next_turn = (if turn + 1 = length (io_workers d) then 0 else turn + 1);
       nv_assert (\<not> unat (w_next w) \<ge> NR_MAX_PARALLEL_IO);
       wks \<leftarrow> aset (io_workers d) turn (wk\<lparr>free_seq := w_next w\<rparr>);
       Some (Some (turn, e), d\<lparr>io_workers := wks, io_worker_turn := of_nat next_turn\<rparr>)
     }
   }"

text \<open>What both kinds of request do with their entry: \<open>f\<close> fills it in.\<close>

definition enqueue_work :: "io_dev \<Rightarrow> nat \<Rightarrow> (io_work \<Rightarrow> io_work) \<Rightarrow> u64 \<Rightarrow> io_dev option" where
  "enqueue_work d sqid f target = do {
     (r, d) \<leftarrow> allocate_work_queue_entry d sqid;
     case r of
       None \<Rightarrow> Some d
     | Some (turn, entry) \<Rightarrow> do {
         wk \<leftarrow> aget (io_workers d) turn;
         q \<leftarrow> set_work (work_queue wk) entry f;
         wk \<leftarrow> insert_req_sorted entry (wk\<lparr>work_queue := q\<rparr>) target;
         wks \<leftarrow> aset (io_workers d) turn wk;
         Some (d\<lparr>io_workers := wks\<rparr>)
       }
   }"

definition io_req_work :: "nat \<Rightarrow> nat \<Rightarrow> nat \<Rightarrow> u32 \<Rightarrow> u64 \<Rightarrow> u64 \<Rightarrow> u32 \<Rightarrow> u64 \<Rightarrow> io_work \<Rightarrow> io_work" where
  "io_req_work sqid cqid sq_entry command_id start target st res w =
     w\<lparr>w_sqid := sqid, w_cqid := cqid, w_sq_entry := sq_entry, w_command_id := command_id, w_nsecs_start := start,
       w_nsecs_target := target, w_status := st, w_result0 := ucast (res AND 0xFFFFFFFF),
       w_result1 := ucast (drop_bit 32 res), is_completed := False, is_copied := False, w_prev := - 1, w_next := - 1,
       is_internal := False\<rparr>"

definition enqueue_io_req :: "io_dev \<Rightarrow> nat \<Rightarrow> nat \<Rightarrow> nat \<Rightarrow> u32 \<Rightarrow> u64 \<Rightarrow> u64 \<Rightarrow> u32 \<Rightarrow> u64 \<Rightarrow> io_dev option" where
  "enqueue_io_req d sqid cqid sq_entry command_id start target st res =
     enqueue_work d sqid (io_req_work sqid cqid sq_entry command_id start target st res) target"

definition internal_work :: "nat \<Rightarrow> u64 \<Rightarrow> u64 \<Rightarrow> nat \<Rightarrow> u64 \<Rightarrow> io_work \<Rightarrow> io_work" where
  "internal_work sqid now target buf n w =
     w\<lparr>w_sqid := sqid, w_nsecs_start := now, w_nsecs_target := target, is_completed := False, is_copied := True,
       w_prev := - 1, w_next := - 1, is_internal := True, w_write_buffer := buf, buffs_to_release := n\<rparr>"

definition schedule_internal_operation :: "io_dev \<Rightarrow> nat \<Rightarrow> u64 \<Rightarrow> u64 \<Rightarrow> nat \<Rightarrow> u64 \<Rightarrow> io_dev option" where
  "schedule_internal_operation d sqid now target buf n = enqueue_work d sqid (internal_work sqid now target buf n) target"

subsection \<open>Reclaiming\<close>

definition reclaimable :: "u64 \<Rightarrow> io_work \<Rightarrow> bool" where
  "reclaimable latest w \<longleftrightarrow> is_completed w \<and> is_copied w \<and> w_nsecs_target w \<le> latest"

text \<open>The last of the entries from the front on that can be reclaimed.\<close>

partial_function (option) reclaim_last :: "io_work list \<Rightarrow> u64 \<Rightarrow> u32 \<Rightarrow> u32 \<Rightarrow> u32 option" where
  "reclaim_last q latest last_entry cur =
     (if cur = - 1 then Some last_entry
      else do {
        w \<leftarrow> aget q (unat cur);
        if reclaimable latest w then reclaim_last q latest cur (w_next w) else Some last_entry
      })"

definition reclaim_worker :: "io_worker \<Rightarrow> io_worker option" where
  "reclaim_worker wk = do {
     let first_entry = io_seq wk;
     last_entry \<leftarrow> reclaim_last (work_queue wk) (latest_nsecs wk) (- 1) first_entry;
     if last_entry = - 1 then Some wk
     else do {
       let q = work_queue wk;
       w \<leftarrow> aget q (unat last_entry);
       let wk = wk\<lparr>io_seq := w_next w\<rparr>;
       q \<leftarrow> (if w_next w \<noteq> - 1 then set_work q (w_next w) (\<lambda>w. w\<lparr>w_prev := - 1\<rparr>) else Some q);
       q \<leftarrow> set_work q last_entry (\<lambda>w. w\<lparr>w_next := - 1\<rparr>);
       q \<leftarrow> set_work q first_entry (\<lambda>w. w\<lparr>w_prev := free_seq_end wk\<rparr>);
       q \<leftarrow> set_work q (free_seq_end wk) (\<lambda>w. w\<lparr>w_next := first_entry\<rparr>);
       Some (wk\<lparr>work_queue := q, free_seq_end := last_entry\<rparr>)
     }
   }"

definition reclaim_completed_reqs :: "io_dev \<Rightarrow> io_dev option" where
  "reclaim_completed_reqs d = do {
     wks \<leftarrow> opt_fold (\<lambda>wks turn. amod wks turn reclaim_worker) (io_workers d) [0..<length (io_workers d)];
     Some (d\<lparr>io_workers := wks\<rparr>)
   }"

subsection \<open>Initialisation\<close>

text \<open>\<open>zero\<close> is the entry that \<^verbatim>\<open>kzalloc\<close> leaves.\<close>

definition zero_work :: io_work where
  "zero_work = \<lparr>w_sqid = 0, w_cqid = 0, w_sq_entry = 0, w_command_id = 0, w_nsecs_start = 0, w_nsecs_target = 0,
     is_copied = False, is_completed = False, w_status = 0, w_result0 = 0, w_result1 = 0, is_internal = False,
     w_write_buffer = 0, buffs_to_release = 0, w_next = 0, w_prev = 0\<rparr>"

definition init_worker :: io_worker where
  "init_worker =
     (let q = map (\<lambda>i. zero_work\<lparr>w_next := of_nat i + 1, w_prev := of_nat i - 1\<rparr>) [0..<NR_MAX_PARALLEL_IO] in
      \<lparr>work_queue = q[NR_MAX_PARALLEL_IO - 1 := (q ! (NR_MAX_PARALLEL_IO - 1))\<lparr>w_next := - 1\<rparr>],
        free_seq = 0, free_seq_end = of_nat (NR_MAX_PARALLEL_IO - 1), io_seq = - 1, io_seq_end = - 1, latest_nsecs = 0\<rparr>)"

definition NVMEV_IO_WORKER_INIT :: "nat \<Rightarrow> io_dev" where
  "NVMEV_IO_WORKER_INIT nr = \<lparr>io_workers = replicate nr init_worker, io_worker_turn = 0\<rparr>"

end
