(* ===== verification/Io_Lists.thy ===== *)
theory Io_Lists
  imports Io_Worker
begin

text \<open>
  The two lists of a worker as lists of indexes, and what insertion, allocation and reclaiming do
  to them. A list is given by the function from an index to the next (or the previous) one.
\<close>

subsection \<open>Linked lists\<close>

fun linked :: "(nat \<Rightarrow> u32) \<Rightarrow> u32 \<Rightarrow> nat list \<Rightarrow> u32 \<Rightarrow> bool" where
  "linked nx s [] z \<longleftrightarrow> s = z"
| "linked nx s (i # xs) z \<longleftrightarrow> s = of_nat i \<and> linked nx (nx i) xs z"

definition first_of :: "nat list \<Rightarrow> u32 \<Rightarrow> u32" where
  "first_of xs z = (case xs of [] \<Rightarrow> z | i # _ \<Rightarrow> of_nat i)"

lemma first_of_simps [simp]: "first_of [] z = z" "first_of (i # xs) z = of_nat i"
  by (simp_all add: first_of_def)

lemma linked_first: "linked nx s xs z \<Longrightarrow> s = first_of xs z"
  by (cases xs) auto

lemma linked_append: "linked nx s (xs @ ys) z \<longleftrightarrow> linked nx s xs (first_of ys z) \<and> linked nx (first_of ys z) ys z"
proof (induction xs arbitrary: s)
  case Nil
  then show ?case using linked_first[of nx s ys z] by auto
qed auto

lemma linked_cong: "\<forall>i \<in> set xs. nx i = nx' i \<Longrightarrow> linked nx s xs z = linked nx' s xs z"
  by (induction xs arbitrary: s) auto

lemma linked_snoc: "linked nx s (xs @ [c]) z \<longleftrightarrow> linked nx s xs (of_nat c) \<and> nx c = z"
  by (auto simp: linked_append)

text \<open>The end of a list redirected, and an element linked in.\<close>

lemma linked_end:
  assumes "linked nx s xs z" "distinct xs" "xs \<noteq> []" "nx' (last xs) = z'" "\<And>i. i \<in> set (butlast xs) \<Longrightarrow> nx' i = nx i"
  shows "linked nx' s xs z'"
proof -
  obtain A c where x: "xs = A @ [c]" using assms(3) by (meson rev_exhaust)
  then have "linked nx' s A (of_nat c)" using assms(1,5) linked_cong[of A nx nx'] by (simp add: linked_snoc)
  then show ?thesis using assms(4) x by (simp add: linked_snoc)
qed

lemma linked_insert:
  assumes "linked nx s (A @ B) z" "distinct (A @ e # B)" "nx' e = first_of B z"
    and "A \<noteq> [] \<Longrightarrow> nx' (last A) = of_nat e"
    and "\<And>i. i \<in> set (A @ B) \<Longrightarrow> A \<noteq> [] \<longrightarrow> i \<noteq> last A \<Longrightarrow> nx' i = nx i"
  shows "linked nx' (if A = [] then of_nat e else s) (A @ e # B) z"
proof -
  have "\<forall>i \<in> set B. nx i = nx' i"
  proof
    fix i assume i: "i \<in> set B"
    then have "A \<noteq> [] \<longrightarrow> i \<noteq> last A" using assms(2) last_in_set[of A] by (auto dest!: last_in_set)
    then show "nx i = nx' i" using assms(5)[of i] i by simp
  qed
  then have B: "linked nx' (first_of B z) B z"
    using assms(1) linked_cong[of B nx nx'] by (simp add: linked_append)
  show ?thesis
  proof (cases "A = []")
    case True
    then show ?thesis using B assms(3) by simp
  next
    case False
    have A: "linked nx s A (first_of B z)" using assms(1) by (simp add: linked_append)
    have "linked nx' s A (of_nat e)"
    proof (rule linked_end[OF A])
      fix i assume i: "i \<in> set (butlast A)"
      then have "i \<in> set A" by (rule in_set_butlastD)
      moreover have "i \<noteq> last A" using i assms(2) False by (metis append_butlast_last_id distinct_append distinct.simps(2) not_distinct_conv_prefix)
      ultimately show "nx' i = nx i" using assms(5) by simp
    qed (use assms(2,4) False in auto)
    then show ?thesis using B assms(3) False by (simp add: linked_append)
  qed
qed

text \<open>The entry behind the one at position \<open>j\<close>.\<close>

lemma linked_nth:
  "linked nx s xs z \<Longrightarrow> j < length xs \<Longrightarrow> nx (xs ! j) = (if Suc j < length xs then of_nat (xs ! Suc j) else z)"
proof (induction xs arbitrary: s j)
  case (Cons i xs)
  show ?case
  proof (cases j)
    case 0
    then show ?thesis using Cons.prems linked_first[of nx "nx i" xs z] by (cases xs) auto
  next
    case (Suc j')
    then show ?thesis using Cons by auto
  qed
qed simp

subsection \<open>The two lists of a worker\<close>

abbreviation N :: nat where "N \<equiv> NR_MAX_PARALLEL_IO"

definition nxt :: "io_work list \<Rightarrow> nat \<Rightarrow> u32" where "nxt q i = w_next (q ! i)"
definition prv :: "io_work list \<Rightarrow> nat \<Rightarrow> u32" where "prv q i = w_prev (q ! i)"

text \<open>
  \<open>fs\<close> are the free entries and \<open>xs\<close> the requests, in order. Together they are all the entries,
  each once.
\<close>

definition worker_lists :: "io_worker \<Rightarrow> nat list \<Rightarrow> nat list \<Rightarrow> bool" where
  "worker_lists wk fs xs \<longleftrightarrow> length (work_queue wk) = N \<and> distinct (fs @ xs) \<and> set (fs @ xs) = {..<N} \<and> fs \<noteq> [] \<and>
     linked (nxt (work_queue wk)) (free_seq wk) fs (- 1) \<and> free_seq_end wk = of_nat (last fs) \<and>
     linked (nxt (work_queue wk)) (io_seq wk) xs (- 1) \<and>
     (xs \<noteq> [] \<longrightarrow> linked (prv (work_queue wk)) (io_seq_end wk) (rev xs) (- 1))"

lemma worker_listsD:
  assumes "worker_lists wk fs xs"
  shows "length (work_queue wk) = N" "distinct (fs @ xs)" "\<And>i. i \<in> set fs \<Longrightarrow> i < N" "\<And>i. i \<in> set xs \<Longrightarrow> i < N" "fs \<noteq> []"
    "linked (nxt (work_queue wk)) (free_seq wk) fs (- 1)" "free_seq_end wk = of_nat (last fs)"
    "linked (nxt (work_queue wk)) (io_seq wk) xs (- 1)"
    "xs \<noteq> [] \<Longrightarrow> linked (prv (work_queue wk)) (io_seq_end wk) (rev xs) (- 1)" "set fs \<union> set xs = {..<N}"
  using assms by (auto simp: worker_lists_def)

lemma N_small: "i < N \<Longrightarrow> unat (of_nat i :: u32) = i"
  by (rule unat_of_nat_less) (simp add: NR_MAX_PARALLEL_IO_def)

lemma N_not_end: "i < N \<Longrightarrow> (of_nat i :: u32) \<noteq> - 1"
proof
  assume i: "i < N" and "(of_nat i :: u32) = - 1"
  then have "unat (of_nat i :: u32) = unat (- 1 :: u32)" by simp
  then show False using N_small[OF i] i by (simp add: unsigned_minus_1_eq_mask mask_eq_exp_minus_1 NR_MAX_PARALLEL_IO_def)
qed

lemma end_unat: "unat (- 1 :: u32) = 2 ^ 32 - 1"
  by (simp add: unsigned_minus_1_eq_mask mask_eq_exp_minus_1)

lemma set_work_at: "i < N \<Longrightarrow> length q = N \<Longrightarrow> set_work q (of_nat i) f = Some (q[i := f (q ! i)])"
  by (simp add: set_work_def amod_def N_small)

text \<open>What linking does not touch.\<close>

definition unlinked :: "io_work \<Rightarrow> io_work" where "unlinked w = w\<lparr>w_next := 0, w_prev := 0\<rparr>"

definition same_work :: "io_work list \<Rightarrow> io_work list \<Rightarrow> bool" where
  "same_work q q' \<longleftrightarrow> map unlinked q = map unlinked q'"

lemma unlinked_upd [simp]: "unlinked (w\<lparr>w_next := n\<rparr>) = unlinked w" "unlinked (w\<lparr>w_prev := n\<rparr>) = unlinked w"
  by (simp_all add: unlinked_def)

lemma same_work_refl [simp]: "same_work q q"
  by (simp add: same_work_def)

lemma same_work_trans: "same_work q q' \<Longrightarrow> same_work q' q'' \<Longrightarrow> same_work q q''"
  by (simp add: same_work_def)

lemma same_work_upd: "unlinked (f (q ! i)) = unlinked (q ! i) \<Longrightarrow> same_work q (q[i := f (q ! i)])"
  by (cases "i < length q") (auto simp: same_work_def map_update list_update_beyond intro!: nth_equalityI simp: nth_upd)

lemma same_workD:
  assumes "same_work q q'"
  shows "length q' = length q" "i < length q \<Longrightarrow> unlinked (q' ! i) = unlinked (q ! i)"
proof -
  show l: "length q' = length q" using map_eq_imp_length_eq[OF assms[unfolded same_work_def]] by simp
  assume "i < length q"
  then show "unlinked (q' ! i) = unlinked (q ! i)" using assms l unfolding same_work_def by (metis nth_map)
qed

lemma unlinked_eqD:
  assumes "unlinked w = unlinked w'"
  shows "w_nsecs_target w = w_nsecs_target w'" "is_completed w = is_completed w'" "is_copied w = is_copied w'"
    "is_internal w = is_internal w'"
  using arg_cong[OF assms, of w_nsecs_target] arg_cong[OF assms, of is_completed] arg_cong[OF assms, of is_copied]
    arg_cong[OF assms, of is_internal] by (simp_all add: unlinked_def)

subsection \<open>Insertion\<close>

definition goes_behind :: "io_work list \<Rightarrow> u64 \<Rightarrow> u64 \<Rightarrow> nat \<Rightarrow> bool" where
  "goes_behind q latest target i \<longleftrightarrow> w_nsecs_target (q ! i) \<le> latest \<or> w_nsecs_target (q ! i) \<le> target"

lemma insert_pos_ok:
  assumes "linked (prv q) s ys (- 1)" "\<forall>i \<in> set ys. i < N" "length q = N"
  shows "insert_pos q latest target s = Some (first_of (dropWhile (\<lambda>i. \<not> goes_behind q latest target i) ys) (- 1))"
  using assms
proof (induction ys arbitrary: s)
  case Nil
  then show ?case by (subst insert_pos.simps) simp
next
  case (Cons i ys)
  then have i: "s = of_nat i" "i < N" by auto
  then have "s \<noteq> - 1" "unat s = i" using N_not_end N_small by auto
  then show ?case using Cons i by (subst insert_pos.simps) (auto simp: goes_behind_def prv_def)
qed

text \<open>The place of a new request: behind the last one it goes behind.\<close>

definition split_behind :: "io_work list \<Rightarrow> u64 \<Rightarrow> u64 \<Rightarrow> nat list \<Rightarrow> nat list \<times> nat list" where
  "split_behind q latest target xs =
     (rev (dropWhile (\<lambda>i. \<not> goes_behind q latest target i) (rev xs)), rev (takeWhile (\<lambda>i. \<not> goes_behind q latest target i) (rev xs)))"

lemma split_behind_ok:
  assumes "split_behind q latest target xs = (A, B)"
  shows "xs = A @ B" "\<forall>i \<in> set B. \<not> goes_behind q latest target i" "A \<noteq> [] \<Longrightarrow> goes_behind q latest target (last A)"
proof -
  let ?P = "\<lambda>i. \<not> goes_behind q latest target i"
  have e: "A = rev (dropWhile ?P (rev xs))" "B = rev (takeWhile ?P (rev xs))" using assms by (auto simp: split_behind_def)
  show "xs = A @ B" using takeWhile_dropWhile_id[of ?P "rev xs"] unfolding e by (metis rev_append rev_rev_ident)
  show "\<forall>i \<in> set B. \<not> goes_behind q latest target i" using e(2) by (auto dest: set_takeWhileD)
  show "goes_behind q latest target (last A)" if "A \<noteq> []"
    using that hd_dropWhile[of ?P "rev xs"] unfolding e by (simp add: last_rev)
qed

lemma insert_req_sorted_ok:
  assumes l: "length (work_queue wk) = N" and d: "distinct (e # xs)" and b: "\<forall>i \<in> set (e # xs). i < N"
    and f: "linked (nxt (work_queue wk)) (io_seq wk) xs (- 1)"
    and r: "xs \<noteq> [] \<Longrightarrow> linked (prv (work_queue wk)) (io_seq_end wk) (rev xs) (- 1)"
    and e: "nxt (work_queue wk) e = - 1" "prv (work_queue wk) e = - 1"
    and AB: "split_behind (work_queue wk) (latest_nsecs wk) target xs = (A, B)"
  shows "\<exists>q s t. insert_req_sorted (of_nat e) wk target = Some (wk\<lparr>work_queue := q, io_seq := s, io_seq_end := t\<rparr>) \<and>
    same_work (work_queue wk) q \<and> (\<forall>i. i \<notin> set (e # xs) \<longrightarrow> nxt q i = nxt (work_queue wk) i) \<and>
    linked (nxt q) s (A @ e # B) (- 1) \<and> linked (prv q) t (rev (A @ e # B)) (- 1)"
proof -
  let ?q = "work_queue wk"
  note x = split_behind_ok(1)[OF AB]
  show ?thesis
  proof (cases "xs = []")
    case True
    then have "io_seq wk = - 1" "A = []" "B = []" using f x by auto
    then show ?thesis using e
      by (intro exI[of _ ?q] exI[of _ "of_nat e"]) (simp add: insert_req_sorted_def)
  next
    case False
    have s: "io_seq wk = of_nat (hd xs)" "hd xs < N" using f False b by (cases xs; simp)+
    have ne: "io_seq wk \<noteq> - 1" using s N_not_end by simp
    have "insert_pos ?q (latest_nsecs wk) target (io_seq_end wk) =
        Some (first_of (dropWhile (\<lambda>i. \<not> goes_behind ?q (latest_nsecs wk) target i) (rev xs)) (- 1))"
      by (rule insert_pos_ok[OF r[OF False] _ l]) (use b in simp)
    moreover have "dropWhile (\<lambda>i. \<not> goes_behind ?q (latest_nsecs wk) target i) (rev xs) = rev A"
      using AB by (auto simp: split_behind_def)
    ultimately have pos: "insert_pos ?q (latest_nsecs wk) target (io_seq_end wk) = Some (first_of (rev A) (- 1))" by simp
    have eN: "e < N" using b by simp
    have dd: "distinct (A @ e # B)" "distinct (rev B @ e # rev A)" using d x by auto
    have eo: "e \<notin> set A" "e \<notin> set B" using dd(1) by simp_all
    have fw: "linked (nxt ?q) (io_seq wk) (A @ B) (- 1)" using f x by simp
    have bw: "linked (prv ?q) (io_seq_end wk) (rev B @ rev A) (- 1)" using r[OF False] x by simp
    show ?thesis
    proof (cases "A = []")
      case True
      then obtain h B' where B: "B = h # B'" "h < N" "h \<noteq> e" using False x b d by (cases B) auto
      let ?q1 = "?q[h := (?q ! h)\<lparr>w_prev := of_nat e\<rparr>]"
      let ?q2 = "?q1[e := (?q1 ! e)\<lparr>w_next := of_nat h\<rparr>]"
      have run: "insert_req_sorted (of_nat e) wk target = Some (wk\<lparr>work_queue := ?q2, io_seq := of_nat e\<rparr>)"
        using ne pos True s x B eN l by (simp add: insert_req_sorted_def Let_def set_work_at)
      have same: "same_work ?q ?q2" by (rule same_work_trans; rule same_work_upd) simp_all
      have "linked (nxt ?q2) (if A = [] then of_nat e else io_seq wk) (A @ e # B) (- 1)"
        by (rule linked_insert[OF fw dd(1)]) (use eo True B l eN in \<open>auto simp: nxt_def nth_upd\<close>)
      moreover have "linked (prv ?q2) (if rev B = [] then of_nat e else io_seq_end wk) (rev B @ e # rev A) (- 1)"
        by (rule linked_insert[OF bw dd(2)]) (use eo True B l eN e in \<open>auto simp: prv_def nth_upd\<close>)
      ultimately show ?thesis
        using run same True B l
        by (intro exI[of _ ?q2] exI[of _ "of_nat e"] exI[of _ "io_seq_end wk"]) (auto simp: nxt_def nth_upd)
    next
      case A: False
      then obtain A' c where c: "A = A' @ [c]" "c < N" "c \<noteq> e" using x b d by (cases A rule: rev_cases) auto
      have first: "first_of (rev A) (- 1) = of_nat c" "(of_nat c :: u32) \<noteq> - 1" using c N_not_end by simp_all
      have nc: "w_next (?q ! c) = first_of B (- 1)" using fw c linked_first by (auto simp: linked_append nxt_def)
      show ?thesis
      proof (cases B)
        case Nil
        let ?q1 = "?q[e := (?q ! e)\<lparr>w_prev := of_nat c\<rparr>]"
        let ?q2 = "?q1[c := (?q1 ! c)\<lparr>w_next := of_nat e\<rparr>]"
        have run: "insert_req_sorted (of_nat e) wk target = Some (wk\<lparr>work_queue := ?q2, io_seq_end := of_nat e\<rparr>)"
          using ne pos first nc Nil c eN l by (simp add: insert_req_sorted_def Let_def set_work_at N_small)
        have same: "same_work ?q ?q2" by (rule same_work_trans; rule same_work_upd) simp_all
        have "linked (nxt ?q2) (if A = [] then of_nat e else io_seq wk) (A @ e # B) (- 1)"
          by (rule linked_insert[OF fw dd(1)]) (use eo Nil c l eN e in \<open>auto simp: nxt_def nth_upd\<close>)
        moreover have "linked (prv ?q2) (if rev B = [] then of_nat e else io_seq_end wk) (rev B @ e # rev A) (- 1)"
          by (rule linked_insert[OF bw dd(2)]) (use eo Nil c l eN e in \<open>auto simp: prv_def nth_upd\<close>)
        ultimately show ?thesis
          using run same A Nil c l x
          by (intro exI[of _ ?q2] exI[of _ "io_seq wk"] exI[of _ "of_nat e"]) (auto simp: nxt_def nth_upd)
      next
        case (Cons h B')
        have h: "h < N" "h \<noteq> e" "h \<noteq> c" using x b d c Cons by auto
        have nh: "w_next (?q ! c) = of_nat h" "(of_nat h :: u32) \<noteq> - 1" using nc Cons h N_not_end by simp_all
        let ?q1 = "?q[e := (?q ! e)\<lparr>w_prev := of_nat c, w_next := of_nat h\<rparr>]"
        let ?q2 = "?q1[h := (?q1 ! h)\<lparr>w_prev := of_nat e\<rparr>]"
        let ?q3 = "?q2[c := (?q2 ! c)\<lparr>w_next := of_nat e\<rparr>]"
        have run: "insert_req_sorted (of_nat e) wk target = Some (wk\<lparr>work_queue := ?q3\<rparr>)"
          using ne pos first nh c eN l h by (simp add: insert_req_sorted_def Let_def set_work_at N_small)
        have "same_work ?q ?q2" by (rule same_work_trans; rule same_work_upd) simp_all
        moreover have "same_work ?q2 ?q3" by (rule same_work_upd) simp
        ultimately have same: "same_work ?q ?q3" by (rule same_work_trans)
        have "linked (nxt ?q3) (if A = [] then of_nat e else io_seq wk) (A @ e # B) (- 1)"
          by (rule linked_insert[OF fw dd(1)]) (use eo Cons c l eN h in \<open>auto simp: nxt_def nth_upd\<close>)
        moreover have "linked (prv ?q3) (if rev B = [] then of_nat e else io_seq_end wk) (rev B @ e # rev A) (- 1)"
          by (rule linked_insert[OF bw dd(2)]) (use eo Cons c l eN h in \<open>auto simp: prv_def nth_upd\<close>)
        ultimately show ?thesis
          using run same A Cons c l x
          by (intro exI[of _ ?q3] exI[of _ "io_seq wk"] exI[of _ "io_seq_end wk"]) (auto simp: nxt_def nth_upd)
      qed
    qed
  qed
qed

subsection \<open>Allocation and insertion together\<close>

lemma worker_lists_head:
  assumes "worker_lists wk (e # fs) xs"
  shows "free_seq wk = of_nat e" "e < N" "nxt (work_queue wk) e = first_of fs (- 1)" "e \<notin> set fs" "e \<notin> set xs"
  using worker_listsD[OF assms] linked_first by auto

lemma split_behind_cong:
  assumes "\<forall>i \<in> set xs. w_nsecs_target (q' ! i) = w_nsecs_target (q ! i)"
  shows "split_behind q' latest target xs = split_behind q latest target xs"
proof -
  have "goes_behind q' latest target i = goes_behind q latest target i" if "i \<in> set (rev xs)" for i
    using assms that by (simp add: goes_behind_def)
  then have "takeWhile (\<lambda>i. \<not> goes_behind q' latest target i) (rev xs) = takeWhile (\<lambda>i. \<not> goes_behind q latest target i) (rev xs)"
    "dropWhile (\<lambda>i. \<not> goes_behind q' latest target i) (rev xs) = dropWhile (\<lambda>i. \<not> goes_behind q latest target i) (rev xs)"
    by (auto intro: takeWhile_cong dropWhile_cong)
  then show ?thesis unfolding split_behind_def by (simp only:)
qed

lemma insert_work_ok:
  assumes w: "worker_lists wk (e # g # fs) xs"
    and f: "w_next (f (work_queue wk ! e)) = - 1" "w_prev (f (work_queue wk ! e)) = - 1"
    and AB: "split_behind (work_queue wk) (latest_nsecs wk) target xs = (A, B)"
  shows "\<exists>wk'. insert_req_sorted (of_nat e)
        (wk\<lparr>free_seq := of_nat g, work_queue := (work_queue wk)[e := f (work_queue wk ! e)]\<rparr>) target = Some wk' \<and>
      worker_lists wk' (g # fs) (A @ e # B) \<and> latest_nsecs wk' = latest_nsecs wk \<and>
      same_work ((work_queue wk)[e := f (work_queue wk ! e)]) (work_queue wk')"
proof -
  let ?q = "(work_queue wk)[e := f (work_queue wk ! e)]"
  let ?wk = "wk\<lparr>free_seq := of_nat g, work_queue := ?q\<rparr>"
  note W = worker_listsD[OF w] and h = worker_lists_head[OF w]
  have q: "nxt ?q i = nxt (work_queue wk) i" "prv ?q i = prv (work_queue wk) i" if "i \<noteq> e" for i
    using that by (simp_all add: nxt_def prv_def)
  have ex: "\<forall>i \<in> set xs. i \<noteq> e" "\<forall>i \<in> set (g # fs). i \<noteq> e" using h by auto
  have l: "length (work_queue ?wk) = N" "distinct (e # xs)" "\<forall>i \<in> set (e # xs). i < N" using W(1,2,4) h by auto
  have fw: "linked (nxt (work_queue ?wk)) (io_seq ?wk) xs (- 1)"
    using W(8) linked_cong[of xs "nxt (work_queue wk)" "nxt ?q"] q ex by simp
  have bw: "linked (prv (work_queue ?wk)) (io_seq_end ?wk) (rev xs) (- 1)" if "xs \<noteq> []"
    using W(9)[OF that] linked_cong[of "rev xs" "prv (work_queue wk)" "prv ?q"] q ex by simp
  have e: "nxt (work_queue ?wk) e = - 1" "prv (work_queue ?wk) e = - 1" using f h(2) W(1) by (simp_all add: nxt_def prv_def)
  have "\<forall>i \<in> set xs. w_nsecs_target (?q ! i) = w_nsecs_target (work_queue wk ! i)" using h(5) by (auto simp: nth_upd)
  from split_behind_cong[OF this] AB have "split_behind (work_queue ?wk) (latest_nsecs ?wk) target xs = (A, B)" by simp
  from insert_req_sorted_ok[OF l fw bw e this] obtain q' s t where r:
    "insert_req_sorted (of_nat e) ?wk target = Some (?wk\<lparr>work_queue := q', io_seq := s, io_seq_end := t\<rparr>)"
    "same_work ?q q'" "\<forall>i. i \<notin> set (e # xs) \<longrightarrow> nxt q' i = nxt ?q i"
    "linked (nxt q') s (A @ e # B) (- 1)" "linked (prv q') t (rev (A @ e # B)) (- 1)" by auto
  note x = split_behind_ok(1)[OF AB]
  have "linked (nxt (work_queue wk)) (of_nat g) (g # fs) (- 1)" using W(6) h(3) by simp
  moreover have "\<forall>i \<in> set (g # fs). nxt (work_queue wk) i = nxt q' i" using r(3) ex W(2) q by auto
  ultimately have "linked (nxt q') (of_nat g) (g # fs) (- 1)" using linked_cong[of "g # fs" "nxt (work_queue wk)" "nxt q'"] by blast
  moreover have "set (g # fs) \<union> set (A @ e # B) = {..<N}" using W(10) x by auto
  moreover have "distinct ((g # fs) @ A @ e # B)" using W(2) x by auto
  ultimately have "worker_lists (?wk\<lparr>work_queue := q', io_seq := s, io_seq_end := t\<rparr>) (g # fs) (A @ e # B)"
    using r(4,5) W(1,7) same_workD(1)[OF r(2)] by (simp add: worker_lists_def insert_commute)
  then show ?thesis using r(1,2) by (intro exI[of _ "?wk\<lparr>work_queue := q', io_seq := s, io_seq_end := t\<rparr>"]) simp
qed

lemma get_io_worker_ok:
  "io_workers d \<noteq> [] \<Longrightarrow> length (io_workers d) < 2 ^ 32 \<Longrightarrow> \<exists>turn < length (io_workers d). get_io_worker d sqid = Some turn"
proof -
  assume a: "io_workers d \<noteq> []" "length (io_workers d) < 2 ^ 32"
  have "unat (of_nat (length (io_workers d)) :: u32) = length (io_workers d)" by (rule unat_of_nat_less) (use a in simp)
  then show ?thesis using a by (simp add: get_io_worker_def unat_mod_distrib)
qed

text \<open>A request is linked in, or refused when one free entry is left.\<close>

lemma enqueue_work_ok:
  assumes t: "get_io_worker d sqid = Some turn" "turn < length (io_workers d)" and w: "worker_lists (io_workers d ! turn) (e # fs) xs"
    and f: "\<And>w. w_next (f w) = - 1 \<and> w_prev (f w) = - 1"
    and AB: "split_behind (work_queue (io_workers d ! turn)) (latest_nsecs (io_workers d ! turn)) target xs = (A, B)"
  shows "fs = [] \<Longrightarrow> enqueue_work d sqid f target = Some d"
    "fs = g # gs \<Longrightarrow> \<exists>wk' n. enqueue_work d sqid f target = Some (d\<lparr>io_workers := (io_workers d)[turn := wk'], io_worker_turn := n\<rparr>) \<and>
      worker_lists wk' (g # gs) (A @ e # B) \<and> latest_nsecs wk' = latest_nsecs (io_workers d ! turn) \<and>
      same_work ((work_queue (io_workers d ! turn))[e := f (work_queue (io_workers d ! turn) ! e)]) (work_queue wk')"
proof -
  let ?wk = "io_workers d ! turn"
  note W = worker_listsD[OF w] and h = worker_lists_head[OF w]
  have get: "aget (work_queue ?wk) (unat (free_seq ?wk)) = Some (work_queue ?wk ! e)"
    using h(1,2) W(1) by (simp add: N_small)
  have nx: "w_next (work_queue ?wk ! e) = first_of fs (- 1)" using h(3) by (simp add: nxt_def)
  {
    assume "fs = []"
    then have "unat (w_next (work_queue ?wk ! e)) \<ge> N" using nx by (simp add: end_unat NR_MAX_PARALLEL_IO_def)
    then show "enqueue_work d sqid f target = Some d"
      using t get by (simp add: enqueue_work_def allocate_work_queue_entry_def Let_def)
  next
    assume fs: "fs = g # gs"
    have g: "g < N" using W(3) fs by simp
    then have nx': "w_next (work_queue ?wk ! e) = of_nat g" "\<not> unat (of_nat g :: u32) \<ge> N" using nx fs by (simp_all add: N_small)
    obtain wk' where wk': "insert_req_sorted (of_nat e)
        (?wk\<lparr>free_seq := of_nat g, work_queue := (work_queue ?wk)[e := f (work_queue ?wk ! e)]\<rparr>) target = Some wk'"
      "worker_lists wk' (g # gs) (A @ e # B)" "latest_nsecs wk' = latest_nsecs ?wk"
      "same_work ((work_queue ?wk)[e := f (work_queue ?wk ! e)]) (work_queue wk')"
      using insert_work_ok[OF w[unfolded fs] _ _ AB, of f] f by blast
    show "\<exists>wk' n. enqueue_work d sqid f target = Some (d\<lparr>io_workers := (io_workers d)[turn := wk'], io_worker_turn := n\<rparr>) \<and>
      worker_lists wk' (g # gs) (A @ e # B) \<and> latest_nsecs wk' = latest_nsecs ?wk \<and>
      same_work ((work_queue ?wk)[e := f (work_queue ?wk ! e)]) (work_queue wk')"
    proof (intro exI conjI)
      show "enqueue_work d sqid f target = Some (d\<lparr>io_workers := (io_workers d)[turn := wk'],
          io_worker_turn := of_nat (if turn + 1 = length (io_workers d) then 0 else turn + 1)\<rparr>)"
        using t get nx' h(1,2) W(1) wk'(1)
        by (simp add: enqueue_work_def allocate_work_queue_entry_def Let_def set_work_at)
    qed (use wk' in simp_all)
  }
qed

subsection \<open>Reclaiming\<close>

lemma reclaim_last_ok:
  assumes "linked (nxt q) s xs (- 1)" "\<forall>i \<in> set xs. i < N" "length q = N"
  shows "reclaim_last q latest l s = Some (let ys = takeWhile (\<lambda>i. reclaimable latest (q ! i)) xs in if ys = [] then l else of_nat (last ys))"
  using assms
proof (induction xs arbitrary: s l)
  case Nil
  then show ?case by (subst reclaim_last.simps) simp
next
  case (Cons i xs)
  then have i: "s = of_nat i" "i < N" by auto
  then have "s \<noteq> - 1" "unat s = i" using N_not_end N_small by auto
  then show ?case using Cons i by (subst reclaim_last.simps) (auto simp: Let_def nxt_def)
qed

lemma reclaim_worker_ok:
  assumes w: "worker_lists wk fs xs"
  defines "Y \<equiv> takeWhile (\<lambda>i. reclaimable (latest_nsecs wk) (work_queue wk ! i)) xs"
    and "R \<equiv> dropWhile (\<lambda>i. reclaimable (latest_nsecs wk) (work_queue wk ! i)) xs"
  shows "\<exists>wk'. reclaim_worker wk = Some wk' \<and> worker_lists wk' (fs @ Y) R \<and> latest_nsecs wk' = latest_nsecs wk \<and>
    same_work (work_queue wk) (work_queue wk')"
proof -
  let ?q = "work_queue wk"
  note W = worker_listsD[OF w]
  have x: "xs = Y @ R" unfolding Y_def R_def by simp
  have last: "reclaim_last ?q (latest_nsecs wk) (- 1) (io_seq wk) = Some (if Y = [] then - 1 else of_nat (last Y))"
    using reclaim_last_ok[OF W(8) _ W(1), of "latest_nsecs wk" "- 1"] W(4) by (simp add: Y_def Let_def)
  show ?thesis
  proof (cases "Y = []")
    case True
    then have "reclaim_worker wk = Some wk" using last by (simp add: reclaim_worker_def)
    then show ?thesis using True x w by simp
  next
    case False
    let ?l = "last Y" and ?h = "hd Y" and ?f = "last fs"
    have mem: "?l \<in> set Y" "?h \<in> set Y" "?f \<in> set fs" using False W(5) by simp_all
    then have b: "?l < N" "?h < N" "?f < N" using W(3,4) x by auto
    have d: "distinct fs" "distinct Y" "distinct R" "set fs \<inter> set Y = {}" "set fs \<inter> set R = {}" "set Y \<inter> set R = {}"
      using W(2) x by auto
    have ne: "(of_nat ?l :: u32) \<noteq> - 1" using N_not_end[OF b(1)] .
    have s: "io_seq wk = of_nat ?h" using W(8) x False by (cases Y) auto
    have fwd: "linked (nxt ?q) (io_seq wk) Y (first_of R (- 1))" "linked (nxt ?q) (first_of R (- 1)) R (- 1)"
      using W(8) x by (simp_all add: linked_append)
    have nl: "w_next (?q ! ?l) = first_of R (- 1)"
    proof -
      obtain Y' c where "Y = Y' @ [c]" using False by (meson rev_exhaust)
      then show ?thesis using fwd(1) by (simp add: linked_snoc nxt_def)
    qed
    have bwd: "linked (prv ?q) (io_seq_end wk) (rev R @ rev Y) (- 1)" using W(9) x False by simp
    define q1 where "q1 = (case R of [] \<Rightarrow> ?q | r # _ \<Rightarrow> ?q[r := (?q ! r)\<lparr>w_prev := - 1\<rparr>])"
    have q1: "(if w_next (?q ! ?l) \<noteq> - 1 then set_work ?q (w_next (?q ! ?l)) (\<lambda>w. w\<lparr>w_prev := - 1\<rparr>) else Some ?q) = Some q1"
    proof (cases R)
      case (Cons r R')
      then have r: "r < N" using W(4) x by simp
      then show ?thesis using nl Cons set_work_at[OF r W(1)] N_not_end[OF r] by (simp add: q1_def)
    qed (use nl q1_def in simp)
    have l1: "length q1 = N" using W(1) by (simp add: q1_def split: list.splits)
    let ?q2 = "q1[?l := (q1 ! ?l)\<lparr>w_next := - 1\<rparr>]"
    let ?q3 = "?q2[?h := (?q2 ! ?h)\<lparr>w_prev := free_seq_end wk\<rparr>]"
    let ?q4 = "?q3[?f := (?q3 ! ?f)\<lparr>w_next := of_nat ?h\<rparr>]"
    let ?wk = "wk\<lparr>io_seq := first_of R (- 1), work_queue := ?q4, free_seq_end := of_nat ?l\<rparr>"
    have run: "reclaim_worker wk = Some ?wk"
      using last False ne nl b W(1,7) q1 s l1 by (simp add: reclaim_worker_def Let_def N_small set_work_at)
    have s1: "same_work ?q q1" unfolding q1_def by (cases R) (auto intro!: same_work_upd)
    have s2: "same_work q1 ?q2" by (rule same_work_upd) simp
    have s3: "same_work ?q2 ?q3" by (rule same_work_upd) simp
    have s4: "same_work ?q3 ?q4" by (rule same_work_upd) simp
    note same = same_work_trans[OF s1 same_work_trans[OF s2 same_work_trans[OF s3 s4]]]
    have nx: "nxt ?q4 i = (if i = ?f then of_nat ?h else if i = ?l then - 1 else nxt ?q i)" if "i < N" for i
      using that l1 W(1) b unfolding nxt_def q1_def by (cases R) (auto simp: nth_upd)
    have pv: "prv ?q4 i = (if i = ?h then free_seq_end wk else if R \<noteq> [] \<and> i = hd R then - 1 else prv ?q i)" if "i < N" for i
      using that l1 W(1) b unfolding prv_def q1_def by (cases R) (auto simp: nth_upd)
    have fl: "?f \<noteq> ?l" "?f \<notin> set Y" "?f \<notin> set R" "?l \<notin> set R" "?l \<notin> set fs" "?h \<notin> set R" using mem d by auto
    have free: "linked (nxt ?q4) (free_seq wk) (fs @ Y) (- 1)"
    proof -
      have "linked (nxt ?q4) (free_seq wk) fs (of_nat ?h)"
      proof (rule linked_end[OF W(6) d(1) W(5)])
        fix i assume i: "i \<in> set (butlast fs)"
        then have "i \<in> set fs" "i \<noteq> ?f" using d(1) W(5) by (auto dest: in_set_butlastD) (metis append_butlast_last_id distinct_append distinct_singleton disjoint_iff list.set_intros(1))
        then show "nxt ?q4 i = nxt ?q i" using nx[of i] W(3) fl(5) by auto
      qed (use nx[OF b(3)] in simp)
      moreover have "linked (nxt ?q4) (of_nat ?h) Y (- 1)"
      proof (rule linked_end[OF fwd(1)[unfolded s] d(2) False])
        fix i assume i: "i \<in> set (butlast Y)"
        then have "i \<in> set Y" "i \<noteq> ?l" using d(2) False by (auto dest: in_set_butlastD) (metis append_butlast_last_id distinct_append distinct_singleton disjoint_iff list.set_intros(1))
        then show "nxt ?q4 i = nxt ?q i" using nx[of i] W(4) x fl(2) by auto
      qed (use nx[OF b(1)] fl in simp)
      moreover have "first_of Y (- 1) = of_nat ?h" using False by (cases Y) auto
      ultimately show ?thesis by (simp add: linked_append)
    qed
    have forw: "linked (nxt ?q4) (first_of R (- 1)) R (- 1)"
    proof -
      have "\<forall>i \<in> set R. nxt ?q i = nxt ?q4 i" using nx W(4) x fl by auto
      from linked_cong[OF this] fwd(2) show ?thesis by simp
    qed
    have behind: "linked (prv ?q4) (io_seq_end wk) (rev R) (- 1)" if R: "R \<noteq> []"
    proof -
      have "linked (prv ?q) (io_seq_end wk) (rev R) (first_of (rev Y) (- 1))" using bwd by (simp add: linked_append)
      then show ?thesis
      proof (rule linked_end)
        have r: "hd R \<in> set R" using R by simp
        then have "hd R < N" "hd R \<noteq> ?h" using W(4) x fl by auto
        then show "prv ?q4 (last (rev R)) = - 1" using pv[of "hd R"] R by (simp add: last_rev)
        fix i assume "i \<in> set (butlast (rev R))"
        then have "i \<in> set (tl R)" by (metis butlast_rev set_rev)
        moreover obtain r R' where "R = r # R'" using R by (cases R) auto
        ultimately have "i \<in> set R" "i \<noteq> hd R" using d(3) by auto
        then show "prv ?q4 i = prv ?q i" using pv[of i] W(4) x fl by auto
      qed (use d(3) R in simp_all)
    qed
    have "worker_lists ?wk (fs @ Y) R"
      using free forw behind W(1,2,5,10) x l1 False by (auto simp: worker_lists_def)
    then show ?thesis using run same by (intro exI[of _ ?wk]) simp
  qed
qed

end
