(* ===== verification/Io_Queues.thy ===== *)
theory Io_Queues
  imports Io_Worker Io_Copy Kv_IO
begin

unbundle bit_operations_syntax

text \<open>
  The queues of the host and the two sides that work on them, \<^verbatim>\<open>io.c\<close>: the dispatcher, which
  hands the commands of a submission queue to the translation layer and to a worker, and the body
  of a worker, which copies the data of its requests and posts those whose time has come.
\<close>

subsection \<open>State\<close>

text \<open>An entry of a submission queue: 64 bytes that are read as one of two structures.\<close>

record nvme_sqe =
  sqe_command_id :: u16
  sqe_rw :: nvme_io_cmd
  sqe_kv :: nvme_kv_command

record nvme_completion =
  cqe_result0 :: u32
  cqe_result1 :: u32
  cqe_sq_head :: u16
  cqe_sq_id :: u16
  cqe_command_id :: u16
  cqe_status :: u16

record submission_queue =
  sq_cqid :: nat
  sq_queue_size :: nat
  sq_ring :: "nvme_sqe list"
  nr_dispatched :: u32
  nr_dispatch :: u32
  nr_in_flight :: u32
  max_nr_in_flight :: u32
  total_io :: u64

record completion_queue =
  cq_queue_size :: nat
  cq_phase :: bool
  cq_head :: nat
  cq_tail :: int
  interrupt_ready :: bool
  irq_enabled :: bool
  irq_vector :: nat
  cq_ring :: "nvme_completion list"

text \<open>
  The queues by number, null where there is none; \<open>'d\<close> is what the namespaces and the host's
  memory hold, and the buffers are those that internal operations give back to.
\<close>

record 'd io_sys =
  io_d :: io_dev
  io_sqs :: "submission_queue option list"
  io_cqs :: "completion_queue option list"
  io_bufs :: "buffer list"
  io_data :: 'd

definition get_queue :: "'q option list \<Rightarrow> nat \<Rightarrow> 'q option" where
  "get_queue qs i = do { q \<leftarrow> aget qs i; q }"

subsection \<open>The body of a worker\<close>

text \<open>
  What copying a request does: it may give a result, the status, and what it leaves in \<open>'d\<close>. A
  block device copies; a key-value device performs its own commands.
\<close>

type_synonym 'd perform = "nvme_sqe \<Rightarrow> u32 \<Rightarrow> 'd \<Rightarrow> (u32 option \<times> u32 \<times> 'd) option"

definition block_perform :: "bool \<Rightarrow> (u64 \<Rightarrow> bool) \<Rightarrow> nat \<Rightarrow> nat list \<Rightarrow> ((nat \<Rightarrow> u8) \<times> host_mem) perform" where
  "block_perform using_dma pv sz ns e st d = do {
     d \<leftarrow> (if using_dma then do_perform_io_using_dma pv sz (sqe_rw e) d else do_perform_io pv sz ns (sqe_rw e) d);
     Some (None, st, d)
   }"

definition kv_perform :: "bool \<Rightarrow> (u64 \<Rightarrow> bool) \<Rightarrow> nat list \<Rightarrow> ('s kv_ftl \<times> host_mem) perform" where
  "kv_perform using_dma pv ns e st d = do {
     let (c, m) = d;
     if \<not> using_dma \<and> kv_identify_nvme_io_cmd (sqe_kv e) then do {
       (r, st, c, m) \<leftarrow> kv_perform_nvme_io_cmd c m (sqe_kv e) st;
       Some (Some r, st, c, m)
     } else do {
       (r, st, s, m) \<leftarrow> block_perform using_dma pv (unat (kv_storage_size c)) ns e st (kv_storage c, m);
       Some (r, st, c\<lparr>kv_storage := s\<rparr>, m)
     }
   }"

text \<open>The entry \<open>i\<close> of worker \<open>turn\<close>, and a change of it.\<close>

definition get_work :: "'d io_sys \<Rightarrow> nat \<Rightarrow> nat \<Rightarrow> io_work option" where
  "get_work s turn i = do { wk \<leftarrow> aget (io_workers (io_d s)) turn; aget (work_queue wk) i }"

definition mod_worker :: "'d io_sys \<Rightarrow> nat \<Rightarrow> (io_worker \<Rightarrow> io_worker option) \<Rightarrow> 'd io_sys option" where
  "mod_worker s turn f = do {
     wks \<leftarrow> amod (io_workers (io_d s)) turn f;
     Some (s\<lparr>io_d := (io_d s)\<lparr>io_workers := wks\<rparr>\<rparr>)
   }"

definition mod_work :: "'d io_sys \<Rightarrow> nat \<Rightarrow> nat \<Rightarrow> (io_work \<Rightarrow> io_work) \<Rightarrow> 'd io_sys option" where
  "mod_work s turn i f = mod_worker s turn (\<lambda>wk. do {
     q \<leftarrow> amod (work_queue wk) i (\<lambda>w. Some (f w));
     Some (wk\<lparr>work_queue := q\<rparr>)
   })"

definition completion_of :: "io_work \<Rightarrow> bool \<Rightarrow> nvme_completion" where
  "completion_of w phase =
     \<lparr>cqe_result0 = w_result0 w, cqe_result1 = w_result1 w, cqe_sq_head = of_nat (w_sq_entry w), cqe_sq_id = of_nat (w_sqid w),
       cqe_command_id = ucast (w_command_id w), cqe_status = of_bool phase OR ucast (push_bit 1 (w_status w))\<rparr>"

definition post_completion :: "completion_queue \<Rightarrow> io_work \<Rightarrow> completion_queue option" where
  "post_completion cq w = do {
     ring \<leftarrow> aset (cq_ring cq) (cq_head cq) (completion_of w (cq_phase cq));
     let head = cq_head cq + 1;
     let cq = cq\<lparr>cq_ring := ring, interrupt_ready := True\<rparr>;
     Some (if head = cq_queue_size cq then cq\<lparr>cq_head := 0, cq_phase := \<not> cq_phase cq\<rparr> else cq\<lparr>cq_head := head\<rparr>)
   }"

definition fill_cq_result :: "io_work \<Rightarrow> completion_queue option list \<Rightarrow> completion_queue option list option" where
  "fill_cq_result w cqs = amod cqs (w_cqid w) (\<lambda>q. do { cq \<leftarrow> q; cq \<leftarrow> post_completion cq w; Some (Some cq) })"

text \<open>The two halves of a visit to an entry: the copy, and the completion when its time has come.\<close>

definition worker_copy :: "'d perform \<Rightarrow> nat \<Rightarrow> nat \<Rightarrow> 'd io_sys \<Rightarrow> 'd io_sys option" where
  "worker_copy perf turn i s = do {
     w \<leftarrow> get_work s turn i;
     if is_copied w then Some s
     else if is_internal w then mod_work s turn i (\<lambda>w. w\<lparr>is_copied := True\<rparr>)
     else do {
       sq \<leftarrow> get_queue (io_sqs s) (w_sqid w);
       e \<leftarrow> aget (sq_ring sq) (w_sq_entry w);
       (r, st, d) \<leftarrow> perf e (w_status w) (io_data s);
       mod_work (s\<lparr>io_data := d\<rparr>) turn i
         (\<lambda>w. w\<lparr>w_result0 := (case r of None \<Rightarrow> w_result0 w | Some x \<Rightarrow> x), w_status := st, is_copied := True\<rparr>)
     }
   }"

definition worker_complete :: "nat \<Rightarrow> nat \<Rightarrow> u64 \<Rightarrow> 'd io_sys \<Rightarrow> 'd io_sys option" where
  "worker_complete turn i now s = do {
     w \<leftarrow> get_work s turn i;
     if w_nsecs_target w \<le> now then do {
       s \<leftarrow> (if is_internal w
            then do { bs \<leftarrow> amod (io_bufs s) (w_write_buffer w) (\<lambda>b. Some (buffer_release b (buffs_to_release w)));
                      Some (s\<lparr>io_bufs := bs\<rparr>) }
            else do { cqs \<leftarrow> fill_cq_result w (io_cqs s); Some (s\<lparr>io_cqs := cqs\<rparr>) });
       mod_work s turn i (\<lambda>w. w\<lparr>is_completed := True\<rparr>)
     } else Some s
   }"

definition worker_visit :: "'d perform \<Rightarrow> u64 \<Rightarrow> nat \<Rightarrow> nat \<Rightarrow> 'd io_sys \<Rightarrow> 'd io_sys option" where
  "worker_visit perf now turn i s = do {
     s \<leftarrow> mod_worker s turn (\<lambda>wk. Some (wk\<lparr>latest_nsecs := now\<rparr>));
     w \<leftarrow> get_work s turn i;
     if is_completed w then Some s
     else do { s \<leftarrow> worker_copy perf turn i s; worker_complete turn i now s }
   }"

text \<open>One pass over the list from \<open>cur\<close> on; \<open>clk\<close> are the readings of the clock.\<close>

partial_function (option) worker_pass :: "'d perform \<Rightarrow> (nat \<Rightarrow> u64) \<Rightarrow> nat \<Rightarrow> nat \<Rightarrow> u32 \<Rightarrow> 'd io_sys \<Rightarrow> 'd io_sys option" where
  "worker_pass perf clk n turn cur s =
     (if cur = - 1 then Some s
      else do {
        s \<leftarrow> worker_visit perf (clk n) turn (unat cur) s;
        w \<leftarrow> get_work s turn (unat cur);
        worker_pass perf clk (n + 1) turn (w_next w) s
      })"

text \<open>The interrupts at the end of a pass: \<open>lock\<close> says which locks are free, the result is the vectors.\<close>

definition worker_signal :: "(nat \<Rightarrow> bool) \<Rightarrow> nat \<Rightarrow> nat \<Rightarrow> 'd io_sys \<Rightarrow> (nat list \<times> 'd io_sys) option" where
  "worker_signal lock nr_cq turn s = opt_fold (\<lambda>(irqs, s) qidx. do {
     mine \<leftarrow> get_io_worker (io_d s) qidx;
     q \<leftarrow> aget (io_cqs s) qidx;
     if mine \<noteq> turn then Some (irqs, s)
     else case q of
       None \<Rightarrow> Some (irqs, s)
     | Some cq \<Rightarrow>
         if irq_enabled cq \<and> lock qidx \<and> interrupt_ready cq
         then Some (irqs @ [irq_vector cq], s\<lparr>io_cqs := (io_cqs s)[qidx := Some (cq\<lparr>interrupt_ready := False\<rparr>)]\<rparr>)
         else Some (irqs, s)
   }) ([], s) [1..<nr_cq + 1]"

definition io_worker_round :: "'d perform \<Rightarrow> (nat \<Rightarrow> u64) \<Rightarrow> (nat \<Rightarrow> bool) \<Rightarrow> nat \<Rightarrow> nat \<Rightarrow> 'd io_sys \<Rightarrow> (nat list \<times> 'd io_sys) option" where
  "io_worker_round perf clk lock nr_cq turn s = do {
     wk \<leftarrow> aget (io_workers (io_d s)) turn;
     s \<leftarrow> worker_pass perf clk 0 turn (io_seq wk) s;
     worker_signal lock nr_cq turn s
   }"

subsection \<open>The dispatcher\<close>

text \<open>
  The handler of a namespace: it is given the number of the namespace, the entry, the queue, the
  time and an empty result, and says whether the command was taken, its result, and the internal
  operations to schedule, each a queue, a time, a buffer and a number of bytes.
\<close>

type_synonym 'd proc_io = "nat \<Rightarrow> nvme_sqe \<Rightarrow> nat \<Rightarrow> u64 \<Rightarrow> zns_result \<Rightarrow> 'd \<Rightarrow>
  (bool \<times> zns_result \<times> (nat \<times> u64 \<times> nat \<times> u64) list \<times> 'd) option"

definition nvmev_proc_io :: "bool \<Rightarrow> 'd proc_io \<Rightarrow> u64 \<Rightarrow> nat \<Rightarrow> nat \<Rightarrow> 'd io_sys \<Rightarrow> (u64 option \<times> 'd io_sys) option" where
  "nvmev_proc_io kv_build proc now sqid sq_entry s = do {
     sq \<leftarrow> get_queue (io_sqs s) sqid;
     e \<leftarrow> aget (sq_ring sq) sq_entry;
     let nsid = (if kv_build then 0 else unat (cmd_nsid (sqe_rw e) - 1));
     (ok, ret, ops, d) \<leftarrow> proc nsid e sqid now \<lparr>ret_status = NVME_SC_SUCCESS, nsecs_target = now, ret_result = 0\<rparr> (io_data s);
     dev \<leftarrow> opt_fold (\<lambda>dev (q, t, b, n). schedule_internal_operation dev q now t b n) (io_d s) ops;
     if \<not> ok then Some (None, s\<lparr>io_data := d, io_d := dev\<rparr>)
     else do {
       dev \<leftarrow> enqueue_io_req dev sqid (sq_cqid sq) sq_entry (ucast (sqe_command_id e)) now (nsecs_target ret) (ret_status ret) (ret_result ret);
       dev \<leftarrow> reclaim_completed_reqs dev;
       Some (Some (of_nat (io_cmd_size (sqe_rw e))), s\<lparr>io_data := d, io_d := dev\<rparr>)
     }
   }"

definition mod_sq :: "'d io_sys \<Rightarrow> nat \<Rightarrow> (submission_queue \<Rightarrow> submission_queue) \<Rightarrow> 'd io_sys option" where
  "mod_sq s sqid f = do {
     sqs \<leftarrow> amod (io_sqs s) sqid (\<lambda>q. do { sq \<leftarrow> q; Some (Some (f sq)) });
     Some (s\<lparr>io_sqs := sqs\<rparr>)
   }"

text \<open>\<open>n\<close> entries are left to dispatch; \<open>nows\<close> are the readings of the clock. The result counts those taken.\<close>

fun proc_sq_loop :: "bool \<Rightarrow> 'd proc_io \<Rightarrow> (nat \<Rightarrow> u64) \<Rightarrow> nat \<Rightarrow> nat \<Rightarrow> nat \<Rightarrow> nat \<Rightarrow> 'd io_sys \<Rightarrow> (nat \<times> 'd io_sys) option" where
  "proc_sq_loop kv_build proc nows sqid 0 sq_entry seq s = Some (seq, s)"
| "proc_sq_loop kv_build proc nows sqid (Suc n) sq_entry seq s = do {
     (r, s) \<leftarrow> nvmev_proc_io kv_build proc (nows seq) sqid sq_entry s;
     case r of
       None \<Rightarrow> Some (seq, s)
     | Some io_size \<Rightarrow> do {
         sq \<leftarrow> get_queue (io_sqs s) sqid;
         s \<leftarrow> mod_sq s sqid (\<lambda>sq. sq\<lparr>nr_dispatched := nr_dispatched sq + 1, nr_in_flight := nr_in_flight sq + 1,
           total_io := total_io sq + io_size\<rparr>);
         proc_sq_loop kv_build proc nows sqid n (if sq_entry + 1 = sq_queue_size sq then 0 else sq_entry + 1) (seq + 1) s
       }
   }"

definition nvmev_proc_io_sq :: "bool \<Rightarrow> 'd proc_io \<Rightarrow> (nat \<Rightarrow> u64) \<Rightarrow> nat \<Rightarrow> int \<Rightarrow> nat \<Rightarrow> 'd io_sys \<Rightarrow> (nat \<times> 'd io_sys) option" where
  "nvmev_proc_io_sq kv_build proc nows sqid new_db old_db s = do {
     q \<leftarrow> aget (io_sqs s) sqid;
     case q of
       None \<Rightarrow> Some (old_db, s)
     | Some sq \<Rightarrow> do {
         let d = new_db - int old_db;
         let num_proc = (if d < 0 then d + int (sq_queue_size sq) else d);
         (seq, s) \<leftarrow> proc_sq_loop kv_build proc nows sqid (nat num_proc) old_db 0 s;
         s \<leftarrow> mod_sq s sqid (\<lambda>sq. sq\<lparr>nr_dispatch := nr_dispatch sq + 1,
           max_nr_in_flight := (if sint (max_nr_in_flight sq) < sint (nr_in_flight sq) then nr_in_flight sq else max_nr_in_flight sq)\<rparr>);
         nv_assert (sq_queue_size sq \<noteq> 0);
         Some ((old_db + seq) mod sq_queue_size sq, s)
       }
   }"

text \<open>The entries that the host has read: the loop ends only if it meets \<open>new_db\<close>.\<close>

partial_function (option) proc_cq_loop :: "completion_queue \<Rightarrow> int \<Rightarrow> int \<Rightarrow> submission_queue option list \<Rightarrow> submission_queue option list option" where
  "proc_cq_loop cq new_db i sqs =
     (if i = new_db then Some sqs
      else if i \<ge> int (cq_queue_size cq) then proc_cq_loop cq new_db 0 sqs
      else do {
        nv_assert (0 \<le> i);
        cqe \<leftarrow> aget (cq_ring cq) (nat i);
        q \<leftarrow> aget sqs (unat (cqe_sq_id cqe));
        proc_cq_loop cq new_db (i + 1)
          (case q of None \<Rightarrow> sqs | Some sq \<Rightarrow> sqs[unat (cqe_sq_id cqe) := Some (sq\<lparr>nr_in_flight := nr_in_flight sq - 1\<rparr>)])
      })"

definition nvmev_proc_io_cq :: "nat \<Rightarrow> int \<Rightarrow> int \<Rightarrow> 'd io_sys \<Rightarrow> 'd io_sys option" where
  "nvmev_proc_io_cq cqid new_db old_db s = do {
     cq \<leftarrow> get_queue (io_cqs s) cqid;
     sqs \<leftarrow> proc_cq_loop cq new_db old_db (io_sqs s);
     let tail = (if new_db = - 1 then int (cq_queue_size cq) - 1 else new_db - 1);
     Some (s\<lparr>io_sqs := sqs, io_cqs := (io_cqs s)[cqid := Some (cq\<lparr>cq_tail := tail\<rparr>)]\<rparr>)
   }"

end
