(* ===== verification/Io_Steps.thy ===== *)
theory Io_Steps
  imports Io_Lists Io_Queues
begin

unbundle bit_operations_syntax

text \<open>
  The dispatcher and the workers as one system that moves in steps: the dispatcher enqueues and
  reclaims while each worker walks along its list with an index of its own. A worker may stand on
  an entry that has been reclaimed since, and follow its link into the free list; the invariant is
  that what it finds there is always completed, so it does nothing with it.
\<close>

subsection \<open>Steps\<close>

text \<open>Where a worker is: between passes, before, inside or behind an entry, with the time it read.\<close>

datatype worker_pc = Idle | At nat | Copying nat u64 | Copied nat u64 | Past nat

text \<open>What an entry stands for: a command of the host, or space to give back to a buffer.\<close>

datatype io_item = Request nat nat nat u32 | Release nat u64

definition item_of :: "io_work \<Rightarrow> io_item" where
  "item_of w = (if is_internal w then Release (w_write_buffer w) (buffs_to_release w)
     else Request (w_sqid w) (w_cqid w) (w_sq_entry w) (w_command_id w))"

datatype io_event = Accepted io_item | Finished io_item

inductive io_step :: "'d perform \<Rightarrow> 'd io_sys \<times> (nat \<Rightarrow> worker_pc) \<Rightarrow> io_event list \<Rightarrow> 'd io_sys \<times> (nat \<Rightarrow> worker_pc) \<Rightarrow> bool"
  for perf where
  request: "allocate_work_queue_entry (io_d s) sqid = Some (r, d') \<Longrightarrow>
    enqueue_io_req (io_d s) sqid cqid sq_entry cid start target st res = Some d \<Longrightarrow>
    io_step perf (s, pc) (if r = None then [] else [Accepted (Request sqid cqid sq_entry cid)]) (s\<lparr>io_d := d\<rparr>, pc)"
| internal: "allocate_work_queue_entry (io_d s) sqid = Some (r, d') \<Longrightarrow>
    schedule_internal_operation (io_d s) sqid now target buf n = Some d \<Longrightarrow>
    io_step perf (s, pc) (if r = None then [] else [Accepted (Release buf n)]) (s\<lparr>io_d := d\<rparr>, pc)"
| reclaim: "reclaim_completed_reqs (io_d s) = Some d \<Longrightarrow> io_step perf (s, pc) [] (s\<lparr>io_d := d\<rparr>, pc)"
| environment: "io_d s' = io_d s \<Longrightarrow> io_step perf (s, pc) [] (s', pc)"
| fetch: "aget (io_workers (io_d s)) k = Some wk \<Longrightarrow> pc k = Idle \<Longrightarrow> io_seq wk \<noteq> - 1 \<Longrightarrow>
    io_step perf (s, pc) [] (s, pc(k := At (unat (io_seq wk))))"
| look: "pc k = At i \<Longrightarrow> aget (io_workers (io_d s)) k = Some wk \<Longrightarrow> get_work s k i = Some w \<Longrightarrow> latest_nsecs wk \<le> now \<Longrightarrow>
    mod_worker s k (\<lambda>wk. Some (wk\<lparr>latest_nsecs := now\<rparr>)) = Some s' \<Longrightarrow>
    io_step perf (s, pc) [] (s', pc(k := if is_completed w then Past i else Copying i now))"
| copy: "pc k = Copying i now \<Longrightarrow> worker_copy perf k i s = Some s' \<Longrightarrow> io_step perf (s, pc) [] (s', pc(k := Copied i now))"
| complete: "pc k = Copied i now \<Longrightarrow> get_work s k i = Some w \<Longrightarrow> worker_complete k i now s = Some s' \<Longrightarrow>
    io_step perf (s, pc) (if w_nsecs_target w \<le> now then [Finished (item_of w)] else []) (s', pc(k := Past i))"
| advance: "pc k = Past i \<Longrightarrow> get_work s k i = Some w \<Longrightarrow>
    io_step perf (s, pc) [] (s, pc(k := if w_next w = - 1 then Idle else At (unat (w_next w))))"

inductive io_run :: "'d perform \<Rightarrow> 'd io_sys \<times> (nat \<Rightarrow> worker_pc) \<Rightarrow> io_event list \<Rightarrow> 'd io_sys \<times> (nat \<Rightarrow> worker_pc) \<Rightarrow> bool"
  for perf s0 where
  start: "io_run perf s0 [] s0"
| step: "io_run perf s0 tr s \<Longrightarrow> io_step perf s es s' \<Longrightarrow> io_run perf s0 (tr @ es) s'"

subsection \<open>The lists of a state\<close>

fun walk :: "nat \<Rightarrow> io_work list \<Rightarrow> u32 \<Rightarrow> nat list" where
  "walk 0 q s = []"
| "walk (Suc n) q s = (if s = - 1 then [] else unat s # walk n q (w_next (q ! unat s)))"

definition io_requests :: "io_worker \<Rightarrow> nat list" where "io_requests wk = walk N (work_queue wk) (io_seq wk)"
definition free_entries :: "io_worker \<Rightarrow> nat list" where "free_entries wk = walk N (work_queue wk) (free_seq wk)"

lemma walk_linked:
  "linked (nxt q) s xs (- 1) \<Longrightarrow> \<forall>i \<in> set xs. i < N \<Longrightarrow> length xs \<le> n \<Longrightarrow> walk n q s = xs"
proof (induction xs arbitrary: n s)
  case Nil
  then show ?case by (cases n) auto
next
  case (Cons i xs)
  then obtain n' where n: "n = Suc n'" by (cases n) auto
  have "s = of_nat i" "i < N" using Cons.prems by auto
  then show ?case using Cons n N_not_end N_small by (simp add: nxt_def)
qed

lemma worker_lists_length:
  assumes "worker_lists wk fs xs"
  shows "length fs \<le> N" "length xs \<le> N"
proof -
  have "length (fs @ xs) = card (set (fs @ xs))" using worker_listsD(2)[OF assms] by (metis distinct_card)
  then have "length (fs @ xs) = N" using worker_listsD(10)[OF assms] by simp
  then show "length fs \<le> N" "length xs \<le> N" by simp_all
qed

lemma worker_lists_det:
  assumes "worker_lists wk fs xs"
  shows "io_requests wk = xs" "free_entries wk = fs"
  using walk_linked[OF worker_listsD(8)[OF assms]] walk_linked[OF worker_listsD(6)[OF assms]] worker_listsD(3,4)[OF assms]
    worker_lists_length[OF assms] by (auto simp: io_requests_def free_entries_def)

subsection \<open>The invariant\<close>

text \<open>
  Free entries from the first completed one on are completed: those that were never used come
  first. Requests whose time has not come when the worker last looked are in the order of time.
\<close>

definition completed_up :: "io_work list \<Rightarrow> nat list \<Rightarrow> bool" where
  "completed_up q fs \<longleftrightarrow> sorted_wrt (\<lambda>i j. is_completed (q ! i) \<longrightarrow> is_completed (q ! j)) fs"

definition in_time_order :: "io_work list \<Rightarrow> u64 \<Rightarrow> nat list \<Rightarrow> bool" where
  "in_time_order q latest xs \<longleftrightarrow>
     sorted_wrt (\<lambda>i j. w_nsecs_target (q ! i) \<le> latest \<or> w_nsecs_target (q ! i) \<le> w_nsecs_target (q ! j)) xs"

definition pc_ok :: "io_work list \<Rightarrow> nat list \<Rightarrow> worker_pc \<Rightarrow> bool" where
  "pc_ok q xs pc = (case pc of Idle \<Rightarrow> True
     | At i \<Rightarrow> i < N \<and> (i \<in> set xs \<or> is_completed (q ! i))
     | Copying i now \<Rightarrow> i \<in> set xs \<and> \<not> is_completed (q ! i)
     | Copied i now \<Rightarrow> i \<in> set xs \<and> \<not> is_completed (q ! i)
     | Past i \<Rightarrow> i < N \<and> (i \<in> set xs \<or> is_completed (q ! i)))"

definition worker_inv :: "io_worker \<Rightarrow> worker_pc \<Rightarrow> bool" where
  "worker_inv wk pc \<longleftrightarrow> worker_lists wk (free_entries wk) (io_requests wk) \<and>
     completed_up (work_queue wk) (free_entries wk) \<and> in_time_order (work_queue wk) (latest_nsecs wk) (io_requests wk) \<and>
     pc_ok (work_queue wk) (io_requests wk) pc"

definition sys_inv :: "'d io_sys \<times> (nat \<Rightarrow> worker_pc) \<Rightarrow> bool" where
  "sys_inv st \<longleftrightarrow> (let ws = io_workers (io_d (fst st)) in
     ws \<noteq> [] \<and> length ws < 2 ^ 32 \<and> (\<forall>k < length ws. worker_inv (ws ! k) (snd st k)))"

lemma worker_invI:
  assumes "worker_lists wk fs xs" "completed_up (work_queue wk) fs" "in_time_order (work_queue wk) (latest_nsecs wk) xs"
    "pc_ok (work_queue wk) xs pc"
  shows "worker_inv wk pc"
  using assms worker_lists_det[OF assms(1)] by (simp add: worker_inv_def)

lemma worker_invE:
  assumes "worker_inv wk pc"
  obtains fs xs where "worker_lists wk fs xs" "completed_up (work_queue wk) fs" "in_time_order (work_queue wk) (latest_nsecs wk) xs"
    "pc_ok (work_queue wk) xs pc" "fs = free_entries wk" "xs = io_requests wk"
  using assms by (auto simp: worker_inv_def)

text \<open>The invariant reads an entry's completion and target time only.\<close>

lemma completed_up_cong:
  "completed_up q fs \<Longrightarrow> \<forall>i \<in> set fs. is_completed (q' ! i) = is_completed (q ! i) \<Longrightarrow> completed_up q' fs"
  unfolding completed_up_def by (erule sorted_wrt_mono_rel[rotated]) auto

lemma in_time_order_cong:
  "in_time_order q l xs \<Longrightarrow> \<forall>i \<in> set xs. w_nsecs_target (q' ! i) = w_nsecs_target (q ! i) \<Longrightarrow> in_time_order q' l xs"
  unfolding in_time_order_def by (erule sorted_wrt_mono_rel[rotated]) auto

subsection \<open>What is still to be done\<close>

definition pending :: "io_worker \<Rightarrow> io_item multiset" where
  "pending wk = image_mset (\<lambda>i. item_of (work_queue wk ! i))
     (filter_mset (\<lambda>i. \<not> is_completed (work_queue wk ! i)) (mset (io_requests wk)))"

definition all_pending :: "'d io_sys \<Rightarrow> io_item multiset" where
  "all_pending s = sum_list (map pending (io_workers (io_d s)))"

lemma item_of_unlinked: "item_of (unlinked w) = item_of w"
  by (simp add: item_of_def unlinked_def)

lemma same_work_reads:
  assumes "same_work q q'" "i < length q"
  shows "is_completed (q' ! i) = is_completed (q ! i)" "w_nsecs_target (q' ! i) = w_nsecs_target (q ! i)"
    "item_of (q' ! i) = item_of (q ! i)" "is_internal (q' ! i) = is_internal (q ! i)" "is_copied (q' ! i) = is_copied (q ! i)"
  using unlinked_eqD[OF same_workD(2)[OF assms]] item_of_unlinked[of "q' ! i"] item_of_unlinked[of "q ! i"] same_workD(2)[OF assms]
  by auto

definition pend :: "io_work list \<Rightarrow> nat list \<Rightarrow> io_item multiset" where
  "pend q xs = image_mset (\<lambda>i. item_of (q ! i)) (filter_mset (\<lambda>i. \<not> is_completed (q ! i)) (mset xs))"

lemma pending_pend: "worker_lists wk fs xs \<Longrightarrow> pending wk = pend (work_queue wk) xs"
  using worker_lists_det by (simp add: pending_def pend_def)

lemma pend_simps [simp]:
  "pend q [] = {#}" "pend q (i # xs) = (if is_completed (q ! i) then pend q xs else add_mset (item_of (q ! i)) (pend q xs))"
  "pend q (xs @ ys) = pend q xs + pend q ys"
  by (auto simp: pend_def)

lemma pend_cong:
  "\<forall>i \<in> set xs. is_completed (q' ! i) = is_completed (q ! i) \<and> item_of (q' ! i) = item_of (q ! i) \<Longrightarrow> pend q' xs = pend q xs"
  by (induction xs) auto

lemma pend_done: "\<forall>i \<in> set xs. is_completed (q ! i) \<Longrightarrow> pend q xs = {#}"
  by (induction xs) auto

subsection \<open>The dispatcher keeps the invariant\<close>

lemma reclaim_inv:
  assumes "worker_inv wk pc"
  shows "\<exists>wk'. reclaim_worker wk = Some wk' \<and> worker_inv wk' pc \<and> pending wk' = pending wk"
proof -
  obtain fs xs where w: "worker_lists wk fs xs" "completed_up (work_queue wk) fs" "in_time_order (work_queue wk) (latest_nsecs wk) xs"
    "pc_ok (work_queue wk) xs pc" using assms by (rule worker_invE)
  let ?P = "\<lambda>i. reclaimable (latest_nsecs wk) (work_queue wk ! i)"
  define Y R where "Y = takeWhile ?P xs" and "R = dropWhile ?P xs"
  have x: "xs = Y @ R" by (simp add: Y_def R_def)
  obtain wk' where r: "reclaim_worker wk = Some wk'" "worker_lists wk' (fs @ Y) R" "latest_nsecs wk' = latest_nsecs wk"
    "same_work (work_queue wk) (work_queue wk')" using reclaim_worker_ok[OF w(1)] unfolding Y_def R_def by blast
  note W = worker_listsD[OF w(1)]
  have b: "i < length (work_queue wk)" if "i \<in> set fs \<union> set Y \<union> set R" for i using that W(1,3,4) x by auto
  have Y: "is_completed (work_queue wk ! i)" if "i \<in> set Y" for i
    using that set_takeWhileD[of i ?P xs] by (simp add: Y_def reclaimable_def)
  have reads: "is_completed (work_queue wk' ! i) = is_completed (work_queue wk ! i)"
    "w_nsecs_target (work_queue wk' ! i) = w_nsecs_target (work_queue wk ! i)" "item_of (work_queue wk' ! i) = item_of (work_queue wk ! i)"
    if "i \<in> set fs \<union> set Y \<union> set R" for i using same_work_reads[OF r(4) b[OF that]] by simp_all
  have "completed_up (work_queue wk) (fs @ Y)"
    using w(2) Y by (simp add: completed_up_def sorted_wrt_append) (metis (mono_tags, lifting) sorted_wrt_iff_nth_less nth_mem)
  then have cu: "completed_up (work_queue wk') (fs @ Y)" by (rule completed_up_cong) (use reads in auto)
  have "in_time_order (work_queue wk) (latest_nsecs wk) R" using w(3) x by (simp add: in_time_order_def sorted_wrt_append)
  then have ord: "in_time_order (work_queue wk') (latest_nsecs wk') R"
    unfolding r(3) by (rule in_time_order_cong) (use reads in auto)
  have in': "is_completed (work_queue wk' ! i) = is_completed (work_queue wk ! i)" if "i < N" for i
    using same_work_reads(1)[OF r(4)] that W(1) by simp
  have pc: "pc_ok (work_queue wk') R pc"
    using w(4) x Y W(4) in' by (auto simp: pc_ok_def split: worker_pc.splits)
  have "pend (work_queue wk') R = pend (work_queue wk) xs"
    using pend_cong[of R "work_queue wk'" "work_queue wk"] reads pend_done[of Y "work_queue wk"] Y x by simp
  then show ?thesis
    using r(1) worker_invI[OF r(2) cu ord pc] pending_pend[OF w(1)] pending_pend[OF r(2)] by auto
qed

text \<open>A request in its place keeps the order, and the worker on its entry.\<close>

lemma in_time_order_insert:
  assumes s: "in_time_order q l (A @ B)" and A: "A \<noteq> [] \<Longrightarrow> goes_behind q l target (last A)"
    and B: "\<forall>i \<in> set B. \<not> goes_behind q l target i"
    and q': "\<forall>i \<in> set A \<union> set B. w_nsecs_target (q' ! i) = w_nsecs_target (q ! i)" "w_nsecs_target (q' ! e) = target"
  shows "in_time_order q' l (A @ e # B)"
proof -
  let ?R = "\<lambda>i j. w_nsecs_target (q ! i) \<le> l \<or> w_nsecs_target (q ! i) \<le> w_nsecs_target (q ! j)"
  have sAB: "sorted_wrt ?R (A @ B)" using s by (simp add: in_time_order_def)
  have bA: "w_nsecs_target (q ! i) \<le> l \<or> w_nsecs_target (q ! i) \<le> target" if i: "i \<in> set A" for i
  proof -
    obtain A' c where c: "A = A' @ [c]" using i by (cases A rule: rev_cases) auto
    then have "goes_behind q l target c" using A by simp
    moreover have "i = c \<or> ?R i c" using i sAB c by (auto simp: sorted_wrt_append)
    ultimately show ?thesis by (auto simp: goes_behind_def)
  qed
  have bB: "target \<le> w_nsecs_target (q ! i)" if "i \<in> set B" for i
    using B that by (force simp: goes_behind_def)
  have AB: "in_time_order q l A" "in_time_order q l B" "\<And>i j. i \<in> set A \<Longrightarrow> j \<in> set B \<Longrightarrow> ?R i j"
    using s unfolding in_time_order_def sorted_wrt_append by blast+
  have "in_time_order q' l A" by (rule in_time_order_cong[OF AB(1)]) (use q'(1) in blast)
  moreover have "in_time_order q' l B" by (rule in_time_order_cong[OF AB(2)]) (use q'(1) in blast)
  moreover have "w_nsecs_target (q' ! i) \<le> l \<or> w_nsecs_target (q' ! i) \<le> w_nsecs_target (q' ! j)" if "i \<in> set A" "j \<in> set B" for i j
    using AB(3)[OF that] q'(1) that by simp
  ultimately show ?thesis using bA bB q' by (auto simp: in_time_order_def sorted_wrt_append)
qed

lemma pc_ok_mono:
  assumes "pc_ok q xs pc" "set xs \<subseteq> set xs'" "\<And>i. i < N \<Longrightarrow> i \<in> set xs' \<or> is_completed (q' ! i) = is_completed (q ! i)"
    and "\<And>i. i \<in> set xs \<Longrightarrow> is_completed (q' ! i) = is_completed (q ! i)"
  shows "pc_ok q' xs' pc"
  using assms by (cases pc) (auto simp: pc_ok_def)

lemma enqueue_inv:
  assumes v: "worker_inv (io_workers d ! turn) pc" and t: "get_io_worker d sqid = Some turn" "turn < length (io_workers d)"
    and f: "\<And>w. w_next (f w) = - 1 \<and> w_prev (f w) = - 1 \<and> \<not> is_completed (f w) \<and> w_nsecs_target (f w) = target \<and> item_of (f w) = item"
    and a: "allocate_work_queue_entry d sqid = Some (r, d')"
  shows "if r = None then enqueue_work d sqid f target = Some d
    else \<exists>wk' n. enqueue_work d sqid f target = Some (d\<lparr>io_workers := (io_workers d)[turn := wk'], io_worker_turn := n\<rparr>) \<and>
      worker_inv wk' pc \<and> pending wk' = add_mset item (pending (io_workers d ! turn))"
proof -
  let ?wk = "io_workers d ! turn"
  obtain fs0 xs where w: "worker_lists ?wk fs0 xs" "completed_up (work_queue ?wk) fs0" "in_time_order (work_queue ?wk) (latest_nsecs ?wk) xs"
    "pc_ok (work_queue ?wk) xs pc" using v by (rule worker_invE)
  note W = worker_listsD[OF w(1)]
  obtain e fs where fs0: "fs0 = e # fs" using W(5) by (cases fs0) auto
  obtain A B where AB: "split_behind (work_queue ?wk) (latest_nsecs ?wk) target xs = (A, B)" by (cases "split_behind (work_queue ?wk) (latest_nsecs ?wk) target xs")
  have ff: "\<And>w. w_next (f w) = - 1 \<and> w_prev (f w) = - 1" using f by blast
  note E = enqueue_work_ok[where f = f, OF t w(1)[unfolded fs0] ff AB] and h = worker_lists_head[OF w(1)[unfolded fs0]]
  have get: "aget (work_queue ?wk) (unat (free_seq ?wk)) = Some (work_queue ?wk ! e)" using h(1,2) W(1) by (simp add: N_small)
  have nx: "w_next (work_queue ?wk ! e) = first_of fs (- 1)" using h(3) by (simp add: nxt_def)
  have r: "r = None \<longleftrightarrow> fs = []"
  proof (cases fs)
    case Nil
    then show ?thesis using a t get nx by (simp add: allocate_work_queue_entry_def Let_def end_unat NR_MAX_PARALLEL_IO_def split: if_splits)
  next
    case (Cons g gs)
    then have "g < N" using W(3) fs0 by simp
    then show ?thesis using a t get nx Cons by (auto simp: allocate_work_queue_entry_def Let_def N_small not_le split: bind_splits if_splits)
  qed
  show ?thesis
  proof (cases fs)
    case Nil
    then show ?thesis using r E(1) by simp
  next
    case (Cons g gs)
    obtain wk' n where q: "enqueue_work d sqid f target = Some (d\<lparr>io_workers := (io_workers d)[turn := wk'], io_worker_turn := n\<rparr>)"
      "worker_lists wk' (g # gs) (A @ e # B)" "latest_nsecs wk' = latest_nsecs ?wk"
      "same_work ((work_queue ?wk)[e := f (work_queue ?wk ! e)]) (work_queue wk')" using E(2)[OF Cons] by blast
    let ?q = "(work_queue ?wk)[e := f (work_queue ?wk ! e)]"
    note x = split_behind_ok[OF AB]
    have other: "is_completed (work_queue wk' ! i) = is_completed (work_queue ?wk ! i)"
      "w_nsecs_target (work_queue wk' ! i) = w_nsecs_target (work_queue ?wk ! i)" "item_of (work_queue wk' ! i) = item_of (work_queue ?wk ! i)"
      if "i < N" "i \<noteq> e" for i using same_work_reads[OF q(4), of i] that W(1) by simp_all
    have at_e: "?q ! e = f (work_queue ?wk ! e)" "e < length ?q" using h(2) W(1) by simp_all
    have fe: "\<not> is_completed (f (work_queue ?wk ! e))" "w_nsecs_target (f (work_queue ?wk ! e)) = target" "item_of (f (work_queue ?wk ! e)) = item"
      using f[of "work_queue ?wk ! e"] by blast+
    note rd = same_work_reads[OF q(4) at_e(2), unfolded at_e(1)]
    have new: "\<not> is_completed (work_queue wk' ! e)" "w_nsecs_target (work_queue wk' ! e) = target" "item_of (work_queue wk' ! e) = item"
      by (rule iffD2[OF arg_cong[OF rd(1), of Not] fe(1)], rule trans[OF rd(2) fe(2)], rule trans[OF rd(3) fe(3)])
    have ne: "e \<notin> set A" "e \<notin> set B" "e \<notin> set (g # gs)" using h(4,5) x(1) Cons by auto
    have b: "i < N" if "i \<in> set A \<union> set B \<union> set (g # gs)" for i using that W(3,4) x(1) fs0 Cons by auto
    have "completed_up (work_queue ?wk) (g # gs)"
      using w(2) unfolding completed_up_def fs0 Cons by (blast dest: iffD1[OF sorted_wrt.simps(2)])
    moreover have "\<forall>i \<in> set (g # gs). is_completed (work_queue wk' ! i) = is_completed (work_queue ?wk ! i)"
      using other(1) b ne(3) by blast
    ultimately have cu: "completed_up (work_queue wk') (g # gs)" by (rule completed_up_cong)
    have oAB: "is_completed (work_queue wk' ! i) = is_completed (work_queue ?wk ! i)"
      "w_nsecs_target (work_queue wk' ! i) = w_nsecs_target (work_queue ?wk ! i)" "item_of (work_queue wk' ! i) = item_of (work_queue ?wk ! i)"
      if i: "i \<in> set A \<union> set B" for i
    proof -
      have "i < N" "i \<noteq> e" using b[OF UnI1[OF i]] i ne(1,2) by auto
      from other[OF this] show "is_completed (work_queue wk' ! i) = is_completed (work_queue ?wk ! i)"
        "w_nsecs_target (work_queue wk' ! i) = w_nsecs_target (work_queue ?wk ! i)" "item_of (work_queue wk' ! i) = item_of (work_queue ?wk ! i)" .
    qed
    have ord: "in_time_order (work_queue wk') (latest_nsecs wk') (A @ e # B)"
      unfolding q(3) by (rule in_time_order_insert[OF w(3)[unfolded x(1)] x(3) x(2)]) (use oAB(2) new(2) in blast)+
    have pc: "pc_ok (work_queue wk') (A @ e # B) pc"
      by (rule pc_ok_mono[OF w(4)]) (use x(1) other(1) oAB(1) in auto)
    have "pend (work_queue wk') A = pend (work_queue ?wk) A" "pend (work_queue wk') B = pend (work_queue ?wk) B"
      by (rule pend_cong; use oAB(1,3) in blast)+
    then have "pend (work_queue wk') (A @ e # B) = add_mset item (pend (work_queue ?wk) xs)"
      using new(1,3) x(1) by (simp only: pend_simps if_False union_mset_add_mset_right)
    then show ?thesis
      using r Cons q(1) worker_invI[OF q(2) cu ord pc] pending_pend[OF w(1)] pending_pend[OF q(2)] by auto
  qed
qed

end
