(* ===== verification/Io_Correct.thy ===== *)
theory Io_Correct
  imports Io_Steps
begin

unbundle bit_operations_syntax

text \<open>
  Every step keeps the lists of every worker, and accounts for every request: what has been
  accepted is finished or is still pending, and nothing is finished twice.
\<close>

subsection \<open>One worker of several\<close>

lemma sum_list_upd:
  "k < length xs \<Longrightarrow> sum_list (xs[k := y]) + xs ! k = sum_list xs + (y :: 'a multiset)"
proof (induction xs arbitrary: k)
  case (Cons x xs)
  then show ?case by (cases k) (auto simp: ac_simps)
qed simp

lemma all_pending_upd:
  assumes "k < length (io_workers (io_d s))" "io_workers (io_d s') = (io_workers (io_d s))[k := wk']"
  shows "all_pending s' + pending (io_workers (io_d s) ! k) = all_pending s + pending wk'"
  using sum_list_upd[of k "map pending (io_workers (io_d s))" "pending wk'"] assms by (simp add: all_pending_def map_update)

lemma sys_invD:
  assumes "sys_inv (s, pc)"
  shows "io_workers (io_d s) \<noteq> []" "length (io_workers (io_d s)) < 2 ^ 32"
    "k < length (io_workers (io_d s)) \<Longrightarrow> worker_inv (io_workers (io_d s) ! k) (pc k)"
  using assms by (auto simp: sys_inv_def Let_def)

lemma sys_inv_upd:
  assumes "sys_inv (s, pc)" "k < length (io_workers (io_d s))" "io_workers (io_d s') = (io_workers (io_d s))[k := wk']"
    and "worker_inv wk' (pc' k)" "\<And>j. j \<noteq> k \<Longrightarrow> pc' j = pc j"
  shows "sys_inv (s', pc')"
  using assms sys_invD[OF assms(1)] by (auto simp: sys_inv_def Let_def nth_upd)

lemma sys_inv_pc:
  assumes "sys_inv (s, pc)" "k < length (io_workers (io_d s))" "worker_inv (io_workers (io_d s) ! k) p"
  shows "sys_inv (s, pc(k := p))"
  by (rule sys_inv_upd[OF assms(1,2), where wk' = "io_workers (io_d s) ! k"]) (use assms(3) in simp_all)

lemma sys_inv_same: "io_workers (io_d s') = io_workers (io_d s) \<Longrightarrow> sys_inv (s, pc) \<Longrightarrow> sys_inv (s', pc)"
  by (simp add: sys_inv_def)

subsection \<open>A worker on its own list\<close>

lemma worker_lists_mod:
  assumes "worker_lists wk fs xs" "w_next (f (work_queue wk ! i)) = w_next (work_queue wk ! i)" "w_prev (f (work_queue wk ! i)) = w_prev (work_queue wk ! i)"
  shows "worker_lists (wk\<lparr>work_queue := (work_queue wk)[i := f (work_queue wk ! i)]\<rparr>) fs xs"
proof -
  let ?q = "(work_queue wk)[i := f (work_queue wk ! i)]"
  have "nxt ?q = nxt (work_queue wk)" "prv ?q = prv (work_queue wk)"
    using assms(2,3) by (auto simp: fun_eq_iff nxt_def prv_def nth_upd list_update_beyond not_less intro: nth_upd)
  then show ?thesis using assms(1) by (simp add: worker_lists_def)
qed

text \<open>A change of the entry that a worker is at: it keeps the time and the order, and may complete it.\<close>

lemma visit_inv:
  assumes v: "worker_inv wk p" and i: "i \<in> set (io_requests wk)" "\<not> is_completed (work_queue wk ! i)"
    and f: "w_next (f (work_queue wk ! i)) = w_next (work_queue wk ! i)" "w_prev (f (work_queue wk ! i)) = w_prev (work_queue wk ! i)"
      "w_nsecs_target (f (work_queue wk ! i)) = w_nsecs_target (work_queue wk ! i)" "item_of (f (work_queue wk ! i)) = item_of (work_queue wk ! i)"
    and p': "p' = (if is_completed (f (work_queue wk ! i)) then Past i else Copied i now)"
  shows "worker_inv (wk\<lparr>work_queue := (work_queue wk)[i := f (work_queue wk ! i)]\<rparr>) p'"
    "pending wk = pending (wk\<lparr>work_queue := (work_queue wk)[i := f (work_queue wk ! i)]\<rparr>) +
       (if is_completed (f (work_queue wk ! i)) then {#item_of (work_queue wk ! i)#} else {#})"
proof -
  let ?q = "(work_queue wk)[i := f (work_queue wk ! i)]"
  obtain fs xs where w: "worker_lists wk fs xs" "completed_up (work_queue wk) fs" "in_time_order (work_queue wk) (latest_nsecs wk) xs"
    "xs = io_requests wk" using v by (rule worker_invE)
  note W = worker_listsD[OF w(1)]
  have ix: "i \<in> set xs" "i < N" "i \<notin> set fs" "i < length (work_queue wk)" using i(1) W(1,2,4) w(4) by auto
  let ?wk = "wk\<lparr>work_queue := ?q\<rparr>"
  have l: "worker_lists ?wk fs xs" by (rule worker_lists_mod[where f = f, OF w(1) f(1,2)])
  have "completed_up (work_queue ?wk) fs" by (rule completed_up_cong[OF w(2)]) (use ix(3) in \<open>auto simp: nth_upd\<close>)
  moreover have "in_time_order (work_queue ?wk) (latest_nsecs ?wk) xs"
    by (simp, rule in_time_order_cong[OF w(3)]) (use f(3) ix(4) in \<open>auto simp: nth_upd\<close>)
  moreover have "pc_ok (work_queue ?wk) xs p'" using p' ix by (simp add: pc_ok_def)
  ultimately show "worker_inv ?wk p'" using worker_invI[OF l] by blast
  obtain A B where AB: "xs = A @ i # B" using ix(1) by (auto dest: split_list)
  have "i \<notin> set A" "i \<notin> set B" using W(2) AB by auto
  then have "pend ?q A = pend (work_queue wk) A" "pend ?q B = pend (work_queue wk) B"
    by (intro pend_cong; metis nth_list_update_neq)+
  then show "pending wk = pending ?wk + (if is_completed (f (work_queue wk ! i)) then {#item_of (work_queue wk ! i)#} else {#})"
    using pending_pend[OF w(1)] pending_pend[OF l] AB ix(4) i(2) f(4) by (simp add: nth_upd)
qed

text \<open>The entry behind one a worker stands on is one it may stand on, reclaimed or not.\<close>

lemma advance_inv:
  assumes v: "worker_inv wk (Past i)"
  shows "i < length (work_queue wk)" "worker_inv wk (if w_next (work_queue wk ! i) = - 1 then Idle else At (unat (w_next (work_queue wk ! i))))"
proof -
  obtain fs xs where w: "worker_lists wk fs xs" "completed_up (work_queue wk) fs" "in_time_order (work_queue wk) (latest_nsecs wk) xs"
    "pc_ok (work_queue wk) xs (Past i)" using v by (rule worker_invE)
  note W = worker_listsD[OF w(1)]
  have i: "i < N" "i \<in> set xs \<or> is_completed (work_queue wk ! i)" using w(4) by (auto simp: pc_ok_def)
  show "i < length (work_queue wk)" using i W(1) by simp
  have nx: "\<exists>j. w_next (work_queue wk ! i) = of_nat j \<and> j < N \<and> (j \<in> set xs \<or> is_completed (work_queue wk ! j))"
    if ne: "w_next (work_queue wk ! i) \<noteq> - 1"
  proof (cases "i \<in> set xs")
    case True
    then obtain n where n: "n < length xs" "xs ! n = i" by (auto simp: in_set_conv_nth)
    with linked_nth[OF W(8) n(1)] ne have "Suc n < length xs" "w_next (work_queue wk ! i) = of_nat (xs ! Suc n)"
      by (auto simp: nxt_def split: if_splits)
    then show ?thesis using W(4) nth_mem by blast
  next
    case False
    then have "i \<in> set fs" "is_completed (work_queue wk ! i)" using i W(10) by auto
    then obtain n where n: "n < length fs" "fs ! n = i" by (auto simp: in_set_conv_nth)
    with linked_nth[OF W(6) n(1)] ne have s: "Suc n < length fs" "w_next (work_queue wk ! i) = of_nat (fs ! Suc n)"
      by (auto simp: nxt_def split: if_splits)
    have "is_completed (work_queue wk ! (fs ! Suc n))"
      using sorted_wrt_nth_less[OF w(2)[unfolded completed_up_def], of n "Suc n"] s(1) n \<open>is_completed (work_queue wk ! i)\<close> by simp
    then show ?thesis using s W(3) nth_mem by blast
  qed
  show "worker_inv wk (if w_next (work_queue wk ! i) = - 1 then Idle else At (unat (w_next (work_queue wk ! i))))"
  proof (rule worker_invI[OF w(1-3)])
    show "pc_ok (work_queue wk) xs (if w_next (work_queue wk ! i) = - 1 then Idle else At (unat (w_next (work_queue wk ! i))))"
      using nx N_small by (cases "w_next (work_queue wk ! i) = - 1") (auto simp: pc_ok_def)
  qed
qed

lemma fetch_inv:
  assumes v: "worker_inv wk p" and "io_seq wk \<noteq> - 1"
  shows "worker_inv wk (At (unat (io_seq wk)))"
proof -
  obtain fs xs where w: "worker_lists wk fs xs" "completed_up (work_queue wk) fs" "in_time_order (work_queue wk) (latest_nsecs wk) xs"
    using v by (rule worker_invE)
  note W = worker_listsD[OF w(1)]
  obtain j ys where "xs = j # ys" "io_seq wk = of_nat j" using W(8) assms(2) by (cases xs) auto
  then show ?thesis using W(4) N_small by (intro worker_invI[OF w]) (auto simp: pc_ok_def)
qed

lemma look_inv:
  assumes v: "worker_inv wk (At i)" and "latest_nsecs wk \<le> now"
  shows "i < length (work_queue wk)"
    "worker_inv (wk\<lparr>latest_nsecs := now\<rparr>) (if is_completed (work_queue wk ! i) then Past i else Copying i now)"
    "pending (wk\<lparr>latest_nsecs := now\<rparr>) = pending wk"
proof -
  obtain fs xs where w: "worker_lists wk fs xs" "completed_up (work_queue wk) fs" "in_time_order (work_queue wk) (latest_nsecs wk) xs"
    "pc_ok (work_queue wk) xs (At i)" using v by (rule worker_invE)
  have l: "worker_lists (wk\<lparr>latest_nsecs := now\<rparr>) fs xs" using w(1) by (simp add: worker_lists_def)
  show "i < length (work_queue wk)" using w(4) worker_listsD(1)[OF w(1)] by (simp add: pc_ok_def)
  have "in_time_order (work_queue wk) now xs"
    using w(3) unfolding in_time_order_def by (rule sorted_wrt_mono_rel[rotated]) (use assms(2) in auto)
  then show "worker_inv (wk\<lparr>latest_nsecs := now\<rparr>) (if is_completed (work_queue wk ! i) then Past i else Copying i now)"
    using w(2,4) by (intro worker_invI[OF l]) (auto simp: pc_ok_def)
  show "pending (wk\<lparr>latest_nsecs := now\<rparr>) = pending wk" using pending_pend[OF w(1)] pending_pend[OF l] by simp
qed

subsection \<open>The dispatcher in the system\<close>

fun accepted :: "io_event list \<Rightarrow> io_item multiset" where
  "accepted [] = {#}"
| "accepted (Accepted x # es) = add_mset x (accepted es)"
| "accepted (Finished x # es) = accepted es"

fun finished :: "io_event list \<Rightarrow> io_item multiset" where
  "finished [] = {#}"
| "finished (Accepted x # es) = finished es"
| "finished (Finished x # es) = add_mset x (finished es)"

lemma events_append [simp]: "accepted (es @ fs) = accepted es + accepted fs" "finished (es @ fs) = finished es + finished fs"
  by (induction es rule: accepted.induct) auto

lemma enqueue_sys:
  assumes v: "sys_inv (s, pc)" and a: "allocate_work_queue_entry (io_d s) sqid = Some (r, d')"
    and e: "enqueue_work (io_d s) sqid f target = Some d"
    and f: "\<And>w. w_next (f w) = - 1 \<and> w_prev (f w) = - 1 \<and> \<not> is_completed (f w) \<and> w_nsecs_target (f w) = target \<and> item_of (f w) = item"
  shows "sys_inv (s\<lparr>io_d := d\<rparr>, pc)" "all_pending (s\<lparr>io_d := d\<rparr>) = all_pending s + (if r = None then {#} else {#item#})"
proof -
  note V = sys_invD[OF v]
  obtain turn where t: "turn < length (io_workers (io_d s))" "get_io_worker (io_d s) sqid = Some turn"
    using get_io_worker_ok[OF V(1,2)] by blast
  note E = enqueue_inv[where f = f, OF V(3)[OF t(1)] t(2,1) f a]
  have "sys_inv (s\<lparr>io_d := d\<rparr>, pc) \<and> all_pending (s\<lparr>io_d := d\<rparr>) = all_pending s + (if r = None then {#} else {#item#})"
  proof (cases "r = None")
    case True
    then have "d = io_d s" using E e by simp
    then show ?thesis using v True by simp
  next
    case False
    then obtain wk' n where q: "d = (io_d s)\<lparr>io_workers := (io_workers (io_d s))[turn := wk'], io_worker_turn := n\<rparr>"
      "worker_inv wk' (pc turn)" "pending wk' = add_mset item (pending (io_workers (io_d s) ! turn))"
      using E e by auto
    have w: "io_workers (io_d (s\<lparr>io_d := d\<rparr>)) = (io_workers (io_d s))[turn := wk']" using q(1) by simp
    have "sys_inv (s\<lparr>io_d := d\<rparr>, pc)" by (rule sys_inv_upd[OF v t(1) w]) (use q(2) in simp_all)
    then show ?thesis using all_pending_upd[OF t(1) w] q(3) False by simp
  qed
  then show "sys_inv (s\<lparr>io_d := d\<rparr>, pc)" "all_pending (s\<lparr>io_d := d\<rparr>) = all_pending s + (if r = None then {#} else {#item#})" by auto
qed

lemma reclaim_sys:
  assumes v: "sys_inv (s, pc)"
  shows "\<exists>d. reclaim_completed_reqs (io_d s) = Some d \<and> sys_inv (s\<lparr>io_d := d\<rparr>, pc) \<and> all_pending (s\<lparr>io_d := d\<rparr>) = all_pending s"
proof -
  let ?ws = "io_workers (io_d s)"
  note V = sys_invD[OF v]
  have r: "\<exists>wk'. reclaim_worker wk = Some wk' \<and> pending wk' = pending wk" if w: "wk \<in> set ?ws" for wk
  proof -
    obtain k where "k < length ?ws" "wk = ?ws ! k" using w by (auto simp: in_set_conv_nth)
    then show ?thesis using reclaim_inv[OF V(3)] by blast
  qed
  let ?h = "\<lambda>wk. the (reclaim_worker wk)"
  have "opt_fold (\<lambda>ys i. amod ys i reclaim_worker) ?ws [0..<length ?ws] = Some (map ?h ?ws)"
    by (rule opt_fold_amod_map) (use r in \<open>auto dest!: r\<close>)
  then have run: "reclaim_completed_reqs (io_d s) = Some ((io_d s)\<lparr>io_workers := map ?h ?ws\<rparr>)"
    by (simp add: reclaim_completed_reqs_def)
  have "worker_inv (?h (?ws ! k)) (pc k)" if "k < length ?ws" for k using reclaim_inv[OF V(3)[OF that]] by auto
  then have "sys_inv (s\<lparr>io_d := (io_d s)\<lparr>io_workers := map ?h ?ws\<rparr>\<rparr>, pc)" using V by (simp add: sys_inv_def)
  moreover have "map pending (map ?h ?ws) = map pending ?ws" by (auto dest!: r)
  ultimately show ?thesis using run by (auto simp: all_pending_def simp del: map_map)
qed

subsection \<open>The workers in the system\<close>

lemma get_work_Some:
  "get_work s k i = Some w \<longleftrightarrow> k < length (io_workers (io_d s)) \<and> i < length (work_queue (io_workers (io_d s) ! k)) \<and>
     work_queue (io_workers (io_d s) ! k) ! i = w"
  by (auto simp: get_work_def aget_Some_iff split: bind_splits)

lemma mod_worker_Some:
  "mod_worker s k f = Some s' \<longleftrightarrow> k < length (io_workers (io_d s)) \<and>
     (\<exists>wk'. f (io_workers (io_d s) ! k) = Some wk' \<and> s' = s\<lparr>io_d := (io_d s)\<lparr>io_workers := (io_workers (io_d s))[k := wk']\<rparr>\<rparr>)"
  by (auto simp: mod_worker_def amod_Some_iff amod_def aget_Some_iff aget_None_iff split: bind_splits)

lemma mod_work_Some:
  "mod_work s k i f = Some s' \<longleftrightarrow> k < length (io_workers (io_d s)) \<and> i < length (work_queue (io_workers (io_d s) ! k)) \<and>
     s' = s\<lparr>io_d := (io_d s)\<lparr>io_workers := (io_workers (io_d s))
       [k := (io_workers (io_d s) ! k)\<lparr>work_queue := (work_queue (io_workers (io_d s) ! k))[i := f (work_queue (io_workers (io_d s) ! k) ! i)]\<rparr>]\<rparr>\<rparr>"
  by (auto simp: mod_work_def mod_worker_Some amod_Some_iff amod_def aget_Some_iff aget_None_iff split: bind_splits)

text \<open>A change of the entry that worker \<open>k\<close> is at, in the system.\<close>

lemma visit_sys:
  assumes v: "sys_inv (s, pc)" and k: "k < length (io_workers (io_d s))" and w: "w = work_queue (io_workers (io_d s) ! k) ! i"
    and i: "i \<in> set (io_requests (io_workers (io_d s) ! k))" "\<not> is_completed w"
    and f: "w_next (f w) = w_next w" "w_prev (f w) = w_prev w" "w_nsecs_target (f w) = w_nsecs_target w" "item_of (f w) = item_of w"
    and s': "io_workers (io_d s') = (io_workers (io_d s))[k := (io_workers (io_d s) ! k)\<lparr>work_queue := (work_queue (io_workers (io_d s) ! k))[i := f w]\<rparr>]"
    and p': "p' = (if is_completed (f w) then Past i else Copied i now)"
  shows "sys_inv (s', pc(k := p'))" "all_pending s = all_pending s' + (if is_completed (f w) then {#item_of w#} else {#})"
proof -
  let ?wk = "io_workers (io_d s) ! k"
  note V = visit_inv[where f = f and i = i and wk = ?wk, folded w, OF sys_invD(3)[OF v k] i f p']
  show "sys_inv (s', pc(k := p'))" by (rule sys_inv_upd[OF v k s']) (use V(1) in simp_all)
  show "all_pending s = all_pending s' + (if is_completed (f w) then {#item_of w#} else {#})"
    using all_pending_upd[OF k s'] V(2) by (auto simp: ac_simps)
qed

lemma worker_copy_cases:
  assumes "worker_copy perf k i s = Some s'" "get_work s k i = Some w"
  shows "(is_copied w \<and> s' = s) \<or> (\<exists>d f. mod_work (s\<lparr>io_data := d\<rparr>) k i f = Some s' \<and>
    (\<forall>w. w_next (f w) = w_next w \<and> w_prev (f w) = w_prev w \<and> w_nsecs_target (f w) = w_nsecs_target w \<and>
      item_of (f w) = item_of w \<and> is_completed (f w) = is_completed w))"
proof -
  have d: "s\<lparr>io_data := io_data s\<rparr> = s" by simp
  show ?thesis
  proof (cases "is_copied w")
    case True
    then show ?thesis using assms by (simp add: worker_copy_def)
  next
    case c: False
    show ?thesis
    proof (cases "is_internal w")
      case True
      then have "mod_work (s\<lparr>io_data := io_data s\<rparr>) k i (\<lambda>w. w\<lparr>is_copied := True\<rparr>) = Some s'"
        using assms c by (simp add: worker_copy_def)
      then show ?thesis by (intro disjI2 exI conjI) (assumption, simp add: item_of_def)
    next
      case False
      then obtain r st d where "mod_work (s\<lparr>io_data := d\<rparr>) k i
         (\<lambda>w. w\<lparr>w_result0 := (case r of None \<Rightarrow> w_result0 w | Some x \<Rightarrow> x), w_status := st, is_copied := True\<rparr>) = Some s'"
        using assms c by (auto simp: worker_copy_def split: bind_splits)
      then show ?thesis by (intro disjI2 exI conjI) (assumption, simp add: item_of_def)
    qed
  qed
qed

lemma worker_complete_cases:
  assumes "worker_complete k i now s = Some s'" "get_work s k i = Some w"
  shows "if w_nsecs_target w \<le> now
    then \<exists>bs cqs. mod_work (s\<lparr>io_bufs := bs, io_cqs := cqs\<rparr>) k i (\<lambda>w. w\<lparr>is_completed := True\<rparr>) = Some s'
    else s' = s"
proof (cases "w_nsecs_target w \<le> now")
  case True
  let ?f = "\<lambda>w. w\<lparr>is_completed := True\<rparr>"
  have "\<exists>bs cqs. mod_work (s\<lparr>io_bufs := bs, io_cqs := cqs\<rparr>) k i ?f = Some s'"
  proof (cases "is_internal w")
    case True
    then obtain bs where "mod_work (s\<lparr>io_bufs := bs\<rparr>) k i ?f = Some s'"
      using assms \<open>w_nsecs_target w \<le> now\<close> by (auto simp: worker_complete_def split: bind_splits)
    moreover have "s\<lparr>io_bufs := bs\<rparr> = s\<lparr>io_bufs := bs, io_cqs := io_cqs s\<rparr>" by simp
    ultimately show ?thesis by metis
  next
    case False
    then obtain cqs where "mod_work (s\<lparr>io_cqs := cqs\<rparr>) k i ?f = Some s'"
      using assms \<open>w_nsecs_target w \<le> now\<close> by (auto simp: worker_complete_def split: bind_splits)
    moreover have "s\<lparr>io_cqs := cqs\<rparr> = s\<lparr>io_bufs := io_bufs s, io_cqs := cqs\<rparr>" by simp
    ultimately show ?thesis by metis
  qed
  then show ?thesis using True by simp
qed (use assms in \<open>auto simp: worker_complete_def\<close>)

subsection \<open>Every step\<close>

lemma io_step_ok:
  assumes "io_step perf (s, pc) es (s', pc')" "sys_inv (s, pc)"
  shows "sys_inv (s', pc') \<and> all_pending s + accepted es = all_pending s' + finished es"
  using assms
proof (cases rule: io_step.cases)
  case (request sqid r d' cqid sq_entry cid start target st res d)
  have e: "enqueue_work (io_d s) sqid (io_req_work sqid cqid sq_entry cid start target st res) target = Some d"
    using request by (simp add: enqueue_io_req_def)
  show ?thesis
    using enqueue_sys[OF assms(2) request(4) e, of "Request sqid cqid sq_entry cid"] request by (simp add: io_req_work_def item_of_def)
next
  case (internal sqid r d' now target buf n d)
  have e: "enqueue_work (io_d s) sqid (internal_work sqid now target buf n) target = Some d"
    using internal by (simp add: schedule_internal_operation_def)
  show ?thesis
    using enqueue_sys[OF assms(2) internal(4) e, of "Release buf n"] internal by (simp add: internal_work_def item_of_def)
next
  case (reclaim d)
  then show ?thesis using reclaim_sys[OF assms(2)] by auto
next
  case environment
  then show ?thesis using sys_inv_same[of s' s pc] assms(2) by (simp add: all_pending_def)
next
  case (fetch k wk)
  then have "k < length (io_workers (io_d s))" "io_workers (io_d s) ! k = wk" by (simp_all add: aget_Some_iff)
  then show ?thesis using fetch sys_inv_pc[OF assms(2)] fetch_inv[OF sys_invD(3)[OF assms(2)]] by auto
next
  case (look k i wk w now)
  then have k: "k < length (io_workers (io_d s))" "io_workers (io_d s) ! k = wk" "work_queue wk ! i = w" by (auto simp: aget_Some_iff get_work_Some)
  have v: "worker_inv wk (At i)" using sys_invD(3)[OF assms(2) k(1)] k(2) look by simp
  have s': "io_workers (io_d s') = (io_workers (io_d s))[k := wk\<lparr>latest_nsecs := now\<rparr>]" using look k by (auto simp: mod_worker_Some)
  note L = look_inv[OF v look(6), unfolded k(3)]
  have "sys_inv (s', pc')" unfolding look(2) by (rule sys_inv_upd[OF assms(2) k(1) s']) (use L(2) in simp_all)
  then show ?thesis using all_pending_upd[OF k(1) s'] L(3) k(2) look by simp
next
  case (copy k i now)
  then obtain w where w: "get_work s k i = Some w" by (auto simp: worker_copy_def split: bind_splits)
  then have k: "k < length (io_workers (io_d s))" "w = work_queue (io_workers (io_d s) ! k) ! i" by (auto simp: get_work_Some)
  have p: "i \<in> set (io_requests (io_workers (io_d s) ! k))" "\<not> is_completed w"
    using sys_invD(3)[OF assms(2) k(1)] copy k(2) by (auto simp: worker_inv_def pc_ok_def)
  consider "s' = s" | d f where "mod_work (s\<lparr>io_data := d\<rparr>) k i f = Some s'" "\<And>w. w_next (f w) = w_next w" "\<And>w. w_prev (f w) = w_prev w"
    "\<And>w. w_nsecs_target (f w) = w_nsecs_target w" "\<And>w. item_of (f w) = item_of w" "\<And>w. is_completed (f w) = is_completed w"
    using worker_copy_cases[OF copy(4) w] by blast
  then show ?thesis
  proof cases
    case 1
    have "worker_inv (io_workers (io_d s) ! k) (Copied i now)"
      using sys_invD(3)[OF assms(2) k(1)] copy by (auto simp: worker_inv_def pc_ok_def)
    then show ?thesis using 1 copy sys_inv_pc[OF assms(2) k(1)] by simp
  next
    case 2
    have s': "io_workers (io_d s') = (io_workers (io_d s))[k := (io_workers (io_d s) ! k)\<lparr>work_queue := (work_queue (io_workers (io_d s) ! k))[i := f w]\<rparr>]"
      using 2(1) k(2) by (auto simp: mod_work_Some)
    show ?thesis using visit_sys[where f = f and p' = "Copied i now", OF assms(2) k p 2(2-5) s'] p(2) 2(6) copy by simp
  qed
next
  case (complete k i now w)
  then have k: "k < length (io_workers (io_d s))" "w = work_queue (io_workers (io_d s) ! k) ! i" by (auto simp: get_work_Some)
  have p: "i \<in> set (io_requests (io_workers (io_d s) ! k))" "\<not> is_completed w"
    using sys_invD(3)[OF assms(2) k(1)] complete k(2) by (auto simp: worker_inv_def pc_ok_def)
  show ?thesis
  proof (cases "w_nsecs_target w \<le> now")
    case True
    let ?f = "\<lambda>w. w\<lparr>is_completed := True\<rparr>"
    obtain bs cqs where "mod_work (s\<lparr>io_bufs := bs, io_cqs := cqs\<rparr>) k i ?f = Some s'"
      using worker_complete_cases[OF complete(5,4)] True by auto
    then have s': "io_workers (io_d s') = (io_workers (io_d s))[k := (io_workers (io_d s) ! k)\<lparr>work_queue := (work_queue (io_workers (io_d s) ! k))[i := ?f w]\<rparr>]"
      using k(2) by (auto simp: mod_work_Some)
    have "item_of (?f w) = item_of w" by (simp add: item_of_def)
    then show ?thesis using visit_sys[where f = ?f and p' = "Past i", OF assms(2) k p _ _ _ _ s'] True complete by simp
  next
    case False
    have "worker_inv (io_workers (io_d s) ! k) (Past i)"
      using sys_invD(3)[OF assms(2) k(1)] complete worker_listsD(4) by (fastforce simp: worker_inv_def pc_ok_def)
    then show ?thesis using False complete worker_complete_cases[OF complete(5,4)] sys_inv_pc[OF assms(2) k(1)] by simp
  qed
next
  case (advance k i w)
  then have k: "k < length (io_workers (io_d s))" "w = work_queue (io_workers (io_d s) ! k) ! i" by (auto simp: get_work_Some)
  have v: "worker_inv (io_workers (io_d s) ! k) (Past i)" using sys_invD(3)[OF assms(2) k(1)] advance by simp
  show ?thesis using sys_inv_pc[OF assms(2) k(1) advance_inv(2)[OF v, folded k(2)]] advance by (simp split del: if_split)
qed

lemma io_run_ok:
  assumes "io_run perf (s0, pc0) tr st" "sys_inv (s0, pc0)"
  shows "sys_inv st \<and> all_pending s0 + accepted tr = all_pending (fst st) + finished tr"
  using assms
proof (induction rule: io_run.induct)
  case start
  then show ?case by simp
next
  case (step tr st es st')
  obtain s pc s' pc' where e: "st = (s, pc)" "st' = (s', pc')" by (cases st, cases st')
  have IH: "sys_inv (s, pc)" "all_pending s0 + accepted tr = all_pending s + finished tr" using step e by auto
  have S: "sys_inv (s', pc')" "all_pending s + accepted es = all_pending s' + finished es"
    using io_step_ok[OF _ IH(1)] step(2) e by auto
  have "all_pending s0 + accepted (tr @ es) = (all_pending s0 + accepted tr) + accepted es" by (simp add: ac_simps)
  also have "\<dots> = (all_pending s + accepted es) + finished tr" unfolding IH(2) by (simp add: ac_simps)
  also have "\<dots> = all_pending s' + finished (tr @ es)" unfolding S(2) by (simp add: ac_simps)
  finally show ?case using S(1) e by simp
qed

subsection \<open>The start\<close>

lemma linked_upt:
  "a < b \<Longrightarrow> \<forall>i. a \<le> i \<and> Suc i < b \<longrightarrow> nx i = of_nat (Suc i) \<Longrightarrow> nx (b - 1) = z \<Longrightarrow> linked nx (of_nat a) [a..<b] z"
proof (induction "b - a" arbitrary: a)
  case (Suc n)
  show ?case
  proof (cases "Suc a = b")
    case True
    then have "[a..<b] = [a]" "b - 1 = a" by auto
    then show ?thesis using Suc.prems(3) by simp
  next
    case False
    then have a: "nx a = of_nat (Suc a)" "Suc a < b" using Suc.prems by simp_all
    have "linked nx (of_nat (Suc a)) [Suc a..<b] z"
      by (rule Suc.hyps(1)) (use Suc.hyps(2) Suc.prems a(2) in auto)
    then show ?thesis using a(1) Suc.prems(1) by (simp add: upt_conv_Cons del: of_nat_Suc)
  qed
qed simp

lemma init_worker_ok:
  "worker_lists init_worker [0..<N] []" "\<And>i. i < N \<Longrightarrow> \<not> is_completed (work_queue init_worker ! i)" "latest_nsecs init_worker = 0"
proof -
  have N0: "0 < N" by (simp add: NR_MAX_PARALLEL_IO_def)
  have len: "length (work_queue init_worker) = N" by (simp add: init_worker_def Let_def)
  have nx: "nxt (work_queue init_worker) i = (if i = N - 1 then - 1 else of_nat (Suc i))" if "i < N" for i
    using that by (auto simp: nxt_def init_worker_def Let_def nth_upd)
  have "linked (nxt (work_queue init_worker)) (of_nat 0) [0..<N] (- 1)"
    by (rule linked_upt[OF N0]) (use nx N0 in auto)
  then show "worker_lists init_worker [0..<N] []"
    using len N0 by (auto simp: worker_lists_def init_worker_def Let_def)
  show "\<not> is_completed (work_queue init_worker ! i)" if "i < N" for i
    using that by (auto simp: init_worker_def Let_def nth_upd zero_work_def)
  show "latest_nsecs init_worker = 0" by (simp add: init_worker_def Let_def)
qed

lemma sum_list_empties: "sum_list (replicate n {#}) = {#}"
  by (induction n) auto

lemma init_sys_ok:
  assumes "0 < nr" "nr < 2 ^ 32" "io_d s = NVMEV_IO_WORKER_INIT nr"
  shows "sys_inv (s, \<lambda>_. Idle)" "all_pending s = {#}"
proof -
  have "completed_up (work_queue init_worker) [0..<N]"
    unfolding completed_up_def by (rule sorted_wrt_mono_rel[where P = "(<)"]) (use init_worker_ok(2) in auto)
  then have "worker_inv init_worker Idle"
    by (intro worker_invI[OF init_worker_ok(1)]) (simp_all add: pc_ok_def in_time_order_def)
  then show "sys_inv (s, \<lambda>_. Idle)" using assms by (auto simp: sys_inv_def NVMEV_IO_WORKER_INIT_def Let_def)
  have "pending init_worker = {#}" using pending_pend[OF init_worker_ok(1)] by simp
  then show "all_pending s = {#}" using assms(3) by (simp add: all_pending_def NVMEV_IO_WORKER_INIT_def sum_list_empties)
qed

end
