(* ===== verification/Io_Completion.thy ===== *)
theory Io_Completion
  imports Io_Queues
begin

unbundle bit_operations_syntax

text \<open>
  What the host sees of a completion queue. The host has no pointer of the device's: it reads
  entries from where it stopped on as long as their phase bit is the one it expects, and expects
  the other one after each wrap. Posting keeps the phase bits such that this reads each
  completion once, in order, as long as no more are posted than the queue has entries.
\<close>

subsection \<open>The phase bits\<close>

definition cqe_phase :: "nvme_completion \<Rightarrow> bool" where "cqe_phase e = bit (cqe_status e) 0"

text \<open>What a completion says beside its phase.\<close>

definition cqe_info :: "nvme_completion \<Rightarrow> u32 \<times> u32 \<times> u16 \<times> u16 \<times> u16 \<times> u16" where
  "cqe_info e = (cqe_result0 e, cqe_result1 e, cqe_sq_head e, cqe_sq_id e, cqe_command_id e, drop_bit 1 (cqe_status e))"

definition work_info :: "io_work \<Rightarrow> u32 \<times> u32 \<times> u16 \<times> u16 \<times> u16 \<times> u16" where
  "work_info w = (w_result0 w, w_result1 w, of_nat (w_sq_entry w), of_nat (w_sqid w), ucast (w_command_id w),
     take_bit 15 (ucast (w_status w)))"

lemma status_bits: "bit (of_bool ph OR ucast (push_bit 1 (x :: u32)) :: u16) n \<longleftrightarrow> (if n = 0 then ph else n < 16 \<and> bit x (n - 1))"
proof -
  have "bit (push_bit 1 x) n \<longleftrightarrow> 0 < n \<and> n < 32 \<and> bit x (n - 1)"
    unfolding bit_push_bit_iff by (cases n) (auto dest: bit_imp_le_length)
  then show ?thesis by (auto simp: bit_or_iff bit_unsigned_iff bit_1_iff of_bool_def simp del: push_bit_Suc)
qed

lemma completion_phase: "cqe_phase (completion_of w ph) = ph"
  unfolding cqe_phase_def completion_of_def nvme_completion.simps status_bits by simp

lemma completion_info: "cqe_info (completion_of w ph) = work_info w"
proof -
  have "drop_bit 1 (of_bool ph OR ucast (push_bit 1 (w_status w)) :: u16) = take_bit 15 (ucast (w_status w))"
    by (rule bit_eqI) (auto simp only: bit_drop_bit_eq comp_apply status_bits bit_take_bit_iff bit_unsigned_iff, auto)
  then show ?thesis unfolding cqe_info_def work_info_def completion_of_def nvme_completion.simps by (simp only:)
qed

definition cq_ok :: "completion_queue \<Rightarrow> bool" where
  "cq_ok cq \<longleftrightarrow> cq_head cq < cq_queue_size cq \<and> cq_queue_size cq \<le> length (cq_ring cq)"

definition cq_clean :: "completion_queue \<Rightarrow> bool" where
  "cq_clean cq \<longleftrightarrow> cq_ok cq \<and>
     (\<forall>i < cq_queue_size cq. cqe_phase (cq_ring cq ! i) = (if i < cq_head cq then cq_phase cq else \<not> cq_phase cq))"

lemma post_completion_ok:
  assumes "cq_ok cq"
  shows "post_completion cq w = Some (cq\<lparr>cq_ring := (cq_ring cq)[cq_head cq := completion_of w (cq_phase cq)], interrupt_ready := True,
      cq_head := (if cq_head cq + 1 = cq_queue_size cq then 0 else cq_head cq + 1),
      cq_phase := (cq_phase cq \<noteq> (cq_head cq + 1 = cq_queue_size cq))\<rparr>)"
  using assms by (auto simp: post_completion_def cq_ok_def Let_def)

lemma post_completion_clean:
  assumes "cq_clean cq" "post_completion cq w = Some cq'"
  shows "cq_clean cq'"
proof -
  have ok: "cq_ok cq" "\<And>i. i < cq_queue_size cq \<Longrightarrow> cqe_phase (cq_ring cq ! i) = (if i < cq_head cq then cq_phase cq else \<not> cq_phase cq)"
    using assms(1) by (auto simp: cq_clean_def)
  show ?thesis
    using ok assms(2) unfolding post_completion_ok[OF ok(1)]
    by (auto simp: cq_clean_def cq_ok_def nth_upd completion_phase split: if_splits)
qed

subsection \<open>The host\<close>

text \<open>Reading from entry \<open>h\<close> on, when the phase \<open>ph\<close> is expected: at most \<open>n\<close> entries.\<close>

fun host_reads :: "nat \<Rightarrow> completion_queue \<Rightarrow> nat \<Rightarrow> bool \<Rightarrow> nvme_completion list" where
  "host_reads 0 cq h ph = []"
| "host_reads (Suc n) cq h ph =
     (if cqe_phase (cq_ring cq ! h) \<noteq> ph then []
      else cq_ring cq ! h # (if h + 1 = cq_queue_size cq then host_reads n cq 0 (\<not> ph) else host_reads n cq (h + 1) ph))"

fun post_all :: "completion_queue \<Rightarrow> io_work list \<Rightarrow> completion_queue option" where
  "post_all cq [] = Some cq"
| "post_all cq (w # ws) = do { cq \<leftarrow> post_completion cq w; post_all cq ws }"

lemma post_all_append: "post_all cq (ws @ vs) = do { cq \<leftarrow> post_all cq ws; post_all cq vs }"
  by (induction ws arbitrary: cq) (auto split: bind_splits)

text \<open>The host's position and the phase it expects, \<open>k\<close> entries on.\<close>

definition pos :: "nat \<Rightarrow> nat \<Rightarrow> bool \<Rightarrow> nat \<Rightarrow> nat \<times> bool" where
  "pos sz h ph k = (if h + k < sz then (h + k, ph) else (h + k - sz, \<not> ph))"

lemma pos_0: "h < sz \<Longrightarrow> pos sz h ph 0 = (h, ph)"
  by (simp add: pos_def)

lemma pos_Suc:
  assumes "h < sz" "k < sz"
  shows "pos sz h ph (Suc k) = (if fst (pos sz h ph k) + 1 = sz then (0, \<not> snd (pos sz h ph k)) else (fst (pos sz h ph k) + 1, snd (pos sz h ph k)))"
  using assms by (auto simp: pos_def)

lemma pos_less: "h < sz \<Longrightarrow> k < sz \<Longrightarrow> fst (pos sz h ph k) < sz"
  by (auto simp: pos_def)

lemma pos_inj: "h < sz \<Longrightarrow> j < sz \<Longrightarrow> k < sz \<Longrightarrow> fst (pos sz h ph j) = fst (pos sz h ph k) \<longleftrightarrow> j = k"
  by (auto simp: pos_def split: if_splits)

text \<open>Posted entries are where the host will look for them; behind them it finds the other phase.\<close>

definition posted :: "nat \<Rightarrow> nat \<Rightarrow> bool \<Rightarrow> io_work list \<Rightarrow> completion_queue \<Rightarrow> bool" where
  "posted sz h ph ws cq \<longleftrightarrow> cq_queue_size cq = sz \<and> cq_clean cq \<and> (cq_head cq, cq_phase cq) = pos sz h ph (length ws) \<and>
     (\<forall>k < length ws. cq_ring cq ! fst (pos sz h ph k) = completion_of (ws ! k) (snd (pos sz h ph k))) \<and>
     (\<forall>k. length ws \<le> k \<and> k < sz \<longrightarrow> cqe_phase (cq_ring cq ! fst (pos sz h ph k)) = (\<not> snd (pos sz h ph k)))"

lemma posted_start:
  assumes "cq_clean cq"
  shows "posted (cq_queue_size cq) (cq_head cq) (cq_phase cq) [] cq"
  using assms by (auto simp: posted_def cq_clean_def cq_ok_def pos_def)

lemma posted_step:
  assumes p: "posted sz h ph ws cq" and h: "h < sz" and l: "length ws < sz"
  shows "\<exists>cq'. post_completion cq w = Some cq' \<and> posted sz h ph (ws @ [w]) cq'"
proof -
  have P: "cq_queue_size cq = sz" "cq_clean cq" "cq_head cq = fst (pos sz h ph (length ws))" "cq_phase cq = snd (pos sz h ph (length ws))"
    "\<And>k. k < length ws \<Longrightarrow> cq_ring cq ! fst (pos sz h ph k) = completion_of (ws ! k) (snd (pos sz h ph k))"
    "\<And>k. length ws \<le> k \<Longrightarrow> k < sz \<Longrightarrow> cqe_phase (cq_ring cq ! fst (pos sz h ph k)) = (\<not> snd (pos sz h ph k))"
    using p by (auto simp: posted_def dest: arg_cong[where f = fst] arg_cong[where f = snd])
  have ok: "cq_ok cq" "sz \<le> length (cq_ring cq)" using P(1,2) by (auto simp: cq_clean_def cq_ok_def)
  obtain cq' where c: "post_completion cq w = Some cq'" using post_completion_ok[OF ok(1)] by simp
  have e: "cq_ring cq' = (cq_ring cq)[fst (pos sz h ph (length ws)) := completion_of w (snd (pos sz h ph (length ws)))]"
    "cq_queue_size cq' = sz" "cq_head cq' = (if cq_head cq + 1 = sz then 0 else cq_head cq + 1)" "cq_phase cq' = (cq_phase cq \<noteq> (cq_head cq + 1 = sz))"
    using c P(1,3,4) unfolding post_completion_ok[OF ok(1)] by auto
  have ring: "cq_ring cq' ! fst (pos sz h ph k) =
      (if k = length ws then completion_of w (snd (pos sz h ph k)) else cq_ring cq ! fst (pos sz h ph k))" if "k < sz" for k
    unfolding e(1) using pos_inj[OF h that l, of ph] pos_less[OF h that, of ph] ok(2) by (cases "k = length ws") simp_all
  have "(cq_head cq', cq_phase cq') = pos sz h ph (Suc (length ws))"
    using pos_Suc[OF h l, of ph] e P(1,3,4) by auto
  moreover have "cq_queue_size cq' = sz" using e P(1) by simp
  ultimately have "posted sz h ph (ws @ [w]) cq'"
    unfolding posted_def using post_completion_clean[OF P(2) c] ring P(5,6) l
    by (auto simp: nth_append less_Suc_eq)
  then show ?thesis using c by blast
qed

lemma host_reads_posted:
  assumes "posted sz h ph ws cq" "h < sz" "j \<le> length ws" "length ws \<le> sz" "n = sz - j"
  shows "map cqe_info (host_reads n cq (fst (pos sz h ph j)) (snd (pos sz h ph j))) = map work_info (drop j ws)"
  using assms
proof (induction n arbitrary: j)
  case 0
  then show ?case by simp
next
  case (Suc n)
  have P: "cq_queue_size cq = sz"
    "\<And>k. k < length ws \<Longrightarrow> cq_ring cq ! fst (pos sz h ph k) = completion_of (ws ! k) (snd (pos sz h ph k))"
    "\<And>k. length ws \<le> k \<Longrightarrow> k < sz \<Longrightarrow> cqe_phase (cq_ring cq ! fst (pos sz h ph k)) = (\<not> snd (pos sz h ph k))"
    using Suc.prems(1) by (auto simp: posted_def)
  have j: "j < sz" using Suc.prems(5) by simp
  show ?case
  proof (cases "j < length ws")
    case True
    have IH: "map cqe_info (host_reads n cq (fst (pos sz h ph (Suc j))) (snd (pos sz h ph (Suc j)))) = map work_info (drop (Suc j) ws)"
      by (rule Suc.IH[OF Suc.prems(1,2)]) (use True Suc.prems in simp_all)
    have "drop j ws = ws ! j # drop (Suc j) ws" using True by (simp add: Cons_nth_drop_Suc)
    then show ?thesis
      using IH P(1) P(2)[OF True] pos_Suc[OF Suc.prems(2) j, of ph] by (auto simp: completion_phase completion_info split: if_splits)
  next
    case False
    then show ?thesis using P(3)[of j] j Suc.prems(3) by simp
  qed
qed

lemma post_all_posted:
  assumes "cq_clean cq" "length ws \<le> cq_queue_size cq"
  shows "\<exists>cq'. post_all cq ws = Some cq' \<and> posted (cq_queue_size cq) (cq_head cq) (cq_phase cq) ws cq' \<and> (ws \<noteq> [] \<longrightarrow> interrupt_ready cq')"
  using assms(2)
proof (induction ws rule: rev_induct)
  case Nil
  then show ?case using posted_start[OF assms(1)] by simp
next
  case (snoc w ws)
  then obtain cq1 where c: "post_all cq ws = Some cq1" "posted (cq_queue_size cq) (cq_head cq) (cq_phase cq) ws cq1" by auto
  have "cq_ok cq1" using c(2) by (auto simp: posted_def cq_clean_def)
  moreover have "cq_head cq < cq_queue_size cq" using assms(1) by (simp add: cq_clean_def cq_ok_def)
  ultimately show ?case
    using posted_step[OF c(2), of w] snoc.prems c(1) post_completion_ok[of cq1 w] by (fastforce simp: post_all_append)
qed

text \<open>C31. A host that reads from where it stopped sees the completions that were posted since, each
  once and in order, and no stale entry: as long as no more of them are posted than the queue has
  entries, the device need not know how far the host is.\<close>

theorem cq_host_sees:
  assumes "cq_clean cq" "length ws \<le> cq_queue_size cq"
  shows "\<exists>cq'. post_all cq ws = Some cq' \<and> cq_clean cq' \<and> (ws \<noteq> [] \<longrightarrow> interrupt_ready cq') \<and>
    map cqe_info (host_reads (cq_queue_size cq) cq' (cq_head cq) (cq_phase cq)) = map work_info ws"
proof -
  have h: "cq_head cq < cq_queue_size cq" using assms(1) by (simp add: cq_clean_def cq_ok_def)
  obtain cq' where c: "post_all cq ws = Some cq'" "posted (cq_queue_size cq) (cq_head cq) (cq_phase cq) ws cq'" "ws \<noteq> [] \<longrightarrow> interrupt_ready cq'"
    using post_all_posted[OF assms] by blast
  show ?thesis
    using c host_reads_posted[OF c(2) h _ assms(2), of 0] pos_0[OF h, of "cq_phase cq"] by (auto simp: posted_def)
qed

text \<open>A queue of three entries that starts empty: two completions, and then three over its end.\<close>

definition empty_cq :: "nat \<Rightarrow> completion_queue" where
  "empty_cq n = \<lparr>cq_queue_size = n, cq_phase = True, cq_head = 0, cq_tail = - 1, interrupt_ready = False, irq_enabled = True,
     irq_vector = 1, cq_ring = replicate n \<lparr>cqe_result0 = 0, cqe_result1 = 0, cqe_sq_head = 0, cqe_sq_id = 0, cqe_command_id = 0, cqe_status = 0\<rparr>\<rparr>"

lemma empty_cq_clean: "0 < n \<Longrightarrow> cq_clean (empty_cq n)"
  by (auto simp: cq_clean_def cq_ok_def empty_cq_def cqe_phase_def)

definition work_no :: "u32 \<Rightarrow> io_work" where
  "work_no i = zero_work\<lparr>w_sqid := 1, w_command_id := i, w_status := 0x4002\<rparr>"

definition cq_two :: completion_queue where "cq_two = the (post_all (empty_cq 3) [work_no 1, work_no 2])"

theorem cq_host_sees_witness:
  "cq_head cq_two = 2 \<and> (\<exists>cq'. post_all cq_two [work_no 3, work_no 4, work_no 5] = Some cq' \<and> cq_clean cq' \<and> cq_head cq' = 2 \<and> \<not> cq_phase cq' \<and>
     map cqe_info (host_reads 3 cq' 2 True) = [(0, 0, 0, 1, 3, 0x4002), (0, 0, 0, 1, 4, 0x4002), (0, 0, 0, 1, 5, 0x4002)])"
proof -
  have two: "cq_queue_size cq_two = 3" "cq_head cq_two = 2" "cq_phase cq_two"
    by (simp_all add: cq_two_def empty_cq_def post_completion_def Let_def)
  have ok: "cq_clean cq_two"
    using cq_host_sees[OF empty_cq_clean[of 3], of "[work_no 1, work_no 2]"] by (auto simp: cq_two_def empty_cq_def)
  obtain cq' where c: "post_all cq_two [work_no 3, work_no 4, work_no 5] = Some cq'" "cq_clean cq'"
    "map cqe_info (host_reads 3 cq' 2 True) = map work_info [work_no 3, work_no 4, work_no 5]"
    using cq_host_sees[OF ok, of "[work_no 3, work_no 4, work_no 5]"] two by auto
  have "cq_head cq' = 2 \<and> \<not> cq_phase cq'"
    using c(1) by (auto simp: cq_two_def empty_cq_def post_completion_def Let_def)
  moreover have "map work_info [work_no 3, work_no 4, work_no 5] = [(0, 0, 0, 1, 3, 0x4002), (0, 0, 0, 1, 4, 0x4002), (0, 0, 0, 1, 5, 0x4002)]"
    by (simp add: work_info_def work_no_def zero_work_def)
  ultimately show ?thesis using c two(2) by auto
qed

text \<open>One more than the queue has entries, and the host sees none of them.\<close>

lemma cq_overrun:
  assumes "cq_clean cq" "length ws = cq_queue_size cq"
  shows "\<exists>cq'. post_all cq (ws @ [w]) = Some cq' \<and> host_reads (cq_queue_size cq) cq' (cq_head cq) (cq_phase cq) = []"
proof -
  have h: "cq_head cq < cq_queue_size cq" using assms(1) by (simp add: cq_clean_def cq_ok_def)
  obtain cq1 where c: "post_all cq ws = Some cq1" "posted (cq_queue_size cq) (cq_head cq) (cq_phase cq) ws cq1"
    using post_all_posted[OF assms(1), of ws] assms(2) by auto
  then have one: "cq_ok cq1" "cq_head cq1 = cq_head cq" "cq_phase cq1 = (\<not> cq_phase cq)" "cq_queue_size cq1 = cq_queue_size cq"
    using assms(2) by (auto simp: posted_def cq_clean_def pos_def)
  obtain cq' where p: "post_completion cq1 w = Some cq'" using post_completion_ok[OF one(1)] by simp
  then have "cq_ring cq' ! cq_head cq = completion_of w (\<not> cq_phase cq)"
    using one h unfolding post_completion_ok[OF one(1)] by (auto simp: cq_ok_def)
  moreover obtain n where "cq_queue_size cq = Suc n" using h by (cases "cq_queue_size cq") auto
  ultimately show ?thesis using c(1) p by (intro exI[of _ cq']) (simp add: post_all_append completion_phase)
qed

end
