(* ===== verification/Io_Pass.thy ===== *)
theory Io_Pass
  imports Io_Correct Io_Completion
begin

unbundle bit_operations_syntax

text \<open>
  One undisturbed pass of a worker: it returns, and every request whose time has come is
  completed. With the steps of the system it gives the claims about the workers.
\<close>

subsection \<open>What a pass needs\<close>

text \<open>
  A command that can be performed on all data with the invariant \<open>J\<close>, which it keeps; a request whose queues exist and
  whose command, unless it is copied already, is one; and the space of an internal request.
\<close>

definition performs :: "('d \<Rightarrow> bool) \<Rightarrow> 'd perform \<Rightarrow> nvme_sqe \<Rightarrow> bool" where
  "performs J perf e \<longleftrightarrow> (\<forall>st d. J d \<longrightarrow> (\<exists>r st' d'. perf e st d = Some (r, st', d') \<and> J d'))"

definition served :: "('d \<Rightarrow> bool) \<Rightarrow> 'd perform \<Rightarrow> 'd io_sys \<Rightarrow> io_work \<Rightarrow> bool" where
  "served J perf s w \<longleftrightarrow> (if is_internal w then w_write_buffer w < length (io_bufs s)
     else (\<exists>cq. w_cqid w < length (io_cqs s) \<and> io_cqs s ! w_cqid w = Some cq) \<and>
       (is_copied w \<or> (\<exists>sq. w_sqid w < length (io_sqs s) \<and> io_sqs s ! w_sqid w = Some sq \<and> w_sq_entry w < length (sq_ring sq) \<and>
          performs J perf (sq_ring sq ! w_sq_entry w))))"

definition queues_ok :: "'d io_sys \<Rightarrow> bool" where
  "queues_ok s \<longleftrightarrow> (\<forall>cq. Some cq \<in> set (io_cqs s) \<longrightarrow> cq_ok cq)"

text \<open>What a visit leaves as it is: the queues there are, and everything of the other entries.\<close>

definition same_shape :: "'d io_sys \<Rightarrow> 'd io_sys \<Rightarrow> bool" where
  "same_shape s s' \<longleftrightarrow> length (io_bufs s') = length (io_bufs s) \<and> io_sqs s' = io_sqs s \<and>
     map (\<lambda>q. q = None) (io_cqs s') = map (\<lambda>q. q = None) (io_cqs s)"

lemma same_shape_refl [simp]: "same_shape s s"
  by (simp add: same_shape_def)

lemma same_shape_trans: "same_shape s s' \<Longrightarrow> same_shape s' s'' \<Longrightarrow> same_shape s s''"
  by (simp add: same_shape_def)

lemma served_shape:
  assumes "same_shape s s'" "served J perf s w"
  shows "served J perf s' w"
proof -
  have l: "length (io_cqs s') = length (io_cqs s)" using assms(1) map_eq_imp_length_eq unfolding same_shape_def by blast
  have "\<exists>cq. io_cqs s' ! i = Some cq" if "i < length (io_cqs s)" "io_cqs s ! i = Some cq" for i cq
  proof -
    have "map (\<lambda>q. q = None) (io_cqs s') ! i = map (\<lambda>q. q = None) (io_cqs s) ! i" using assms(1) by (simp add: same_shape_def)
    then show ?thesis using that l by auto
  qed
  then show ?thesis using assms l by (auto simp: served_def same_shape_def split: if_splits)
qed

text \<open>What completing a request does to the completion queues.\<close>

definition deliver :: "completion_queue option list \<Rightarrow> io_work \<Rightarrow> completion_queue option list" where
  "deliver cqs w = (if is_internal w then cqs
     else cqs[w_cqid w := map_option (\<lambda>cq. the (post_completion cq w)) (cqs ! w_cqid w)])"

lemma fill_ok:
  assumes "queues_ok s" "w_cqid w < length (io_cqs s)" "io_cqs s ! w_cqid w = Some cq" "\<not> is_internal w"
  shows "fill_cq_result w (io_cqs s) = Some (deliver (io_cqs s) w)"
    "map (\<lambda>q. q = None) (deliver (io_cqs s) w) = map (\<lambda>q. q = None) (io_cqs s)"
    "\<forall>c. Some c \<in> set (deliver (io_cqs s) w) \<longrightarrow> cq_ok c"
proof -
  have ok: "cq_ok cq" using assms nth_mem unfolding queues_ok_def by metis
  obtain cq' where c: "post_completion cq w = Some cq'" using post_completion_ok[OF ok] by simp
  have ok': "cq_ok cq'" using c ok unfolding post_completion_ok[OF ok] by (auto simp: cq_ok_def)
  have d: "deliver (io_cqs s) w = (io_cqs s)[w_cqid w := Some cq']" using assms c by (simp add: deliver_def)
  show "fill_cq_result w (io_cqs s) = Some (deliver (io_cqs s) w)"
    using assms c d by (simp add: fill_cq_result_def amod_def)
  show "map (\<lambda>q. q = None) (deliver (io_cqs s) w) = map (\<lambda>q. q = None) (io_cqs s)"
    unfolding d using assms(3) by (simp add: map_update list_update_same_conv assms(2))
  show "\<forall>c. Some c \<in> set (deliver (io_cqs s) w) \<longrightarrow> cq_ok c"
    unfolding d using assms(1) ok' by (auto simp: queues_ok_def dest!: set_update_subset_insert[THEN subsetD])
qed

definition set_entry :: "'d io_sys \<Rightarrow> nat \<Rightarrow> nat \<Rightarrow> io_work \<Rightarrow> io_worker list" where
  "set_entry s k i w = (io_workers (io_d s))[k := (io_workers (io_d s) ! k)\<lparr>work_queue := (work_queue (io_workers (io_d s) ! k))[i := w]\<rparr>]"

text \<open>An entry with the marks, the status and the result changed.\<close>

definition same_request :: "io_work \<Rightarrow> io_work \<Rightarrow> bool" where
  "same_request w w' \<longleftrightarrow> is_internal w' = is_internal w \<and> w_nsecs_target w' = w_nsecs_target w \<and> w_next w' = w_next w \<and>
     w_prev w' = w_prev w \<and> item_of w' = item_of w \<and> w_cqid w' = w_cqid w \<and> w_sqid w' = w_sqid w \<and> w_sq_entry w' = w_sq_entry w \<and>
     w_write_buffer w' = w_write_buffer w"

lemma same_request_refl [simp]: "same_request w w"
  by (simp add: same_request_def)

lemma item_of_completed [simp]: "item_of (w\<lparr>is_completed := b\<rparr>) = item_of w"
  by (simp add: item_of_def)

lemma mod_work_ok:
  assumes "k < length (io_workers (io_d s))" "i < length (work_queue (io_workers (io_d s) ! k))" "w = work_queue (io_workers (io_d s) ! k) ! i"
  shows "\<exists>s'. mod_work s k i f = Some s' \<and> io_workers (io_d s') = set_entry s k i (f w) \<and> io_sqs s' = io_sqs s \<and> io_cqs s' = io_cqs s \<and>
    io_bufs s' = io_bufs s \<and> io_data s' = io_data s"
  using assms by (auto simp: mod_work_Some set_entry_def)

lemma worker_copy_ok:
  assumes k: "k < length (io_workers (io_d s))" "i < length (work_queue (io_workers (io_d s) ! k))" "w = work_queue (io_workers (io_d s) ! k) ! i"
    and s: "served J perf s w" and J: "J (io_data s)"
  shows "\<exists>s' w'. worker_copy perf k i s = Some s' \<and> io_workers (io_d s') = set_entry s k i w' \<and> io_sqs s' = io_sqs s \<and> io_cqs s' = io_cqs s \<and>
    io_bufs s' = io_bufs s \<and> is_copied w' \<and> is_completed w' = is_completed w \<and> same_request w w' \<and> J (io_data s')"
proof -
  have g: "get_work s k i = Some w" using k by (simp add: get_work_Some)
  show ?thesis
  proof (cases "is_copied w")
    case True
    then show ?thesis using g k J by (intro exI[of _ s] exI[of _ w]) (simp add: worker_copy_def set_entry_def)
  next
    case c: False
    show ?thesis
    proof (cases "is_internal w")
      case True
      let ?f = "\<lambda>w. w\<lparr>is_copied := True\<rparr>"
      obtain s' where s': "mod_work s k i ?f = Some s'" "io_workers (io_d s') = set_entry s k i (?f w)" "io_sqs s' = io_sqs s"
        "io_cqs s' = io_cqs s" "io_bufs s' = io_bufs s" "io_data s' = io_data s" using mod_work_ok[where f = ?f, OF k] by blast
      then have "worker_copy perf k i s = Some s'" using g c True by (simp add: worker_copy_def)
      then show ?thesis using s' J by (intro exI[of _ s'] exI[of _ "?f w"]) (simp add: item_of_def same_request_def)
    next
      case False
      then obtain sq where sq: "w_sqid w < length (io_sqs s)" "io_sqs s ! w_sqid w = Some sq" "w_sq_entry w < length (sq_ring sq)"
        "performs J perf (sq_ring sq ! w_sq_entry w)" using s c by (auto simp: served_def)
      obtain r st d where p: "perf (sq_ring sq ! w_sq_entry w) (w_status w) (io_data s) = Some (r, st, d)" "J d"
        using sq(4) J unfolding performs_def by blast
      let ?f = "\<lambda>w. w\<lparr>w_result0 := (case r of None \<Rightarrow> w_result0 w | Some x \<Rightarrow> x), w_status := st, is_copied := True\<rparr>"
      obtain s' where s': "mod_work (s\<lparr>io_data := d\<rparr>) k i ?f = Some s'" "io_workers (io_d s') = set_entry (s\<lparr>io_data := d\<rparr>) k i (?f w)"
        "io_sqs s' = io_sqs s" "io_cqs s' = io_cqs s" "io_bufs s' = io_bufs s" "io_data s' = d"
        using mod_work_ok[where f = ?f and s = "s\<lparr>io_data := d\<rparr>" and w = w] k by auto
      then have "worker_copy perf k i s = Some s'" using g c False sq p by (simp add: worker_copy_def get_queue_def)
      then show ?thesis using s' p(2) by (intro exI[of _ s'] exI[of _ "?f w"]) (simp add: item_of_def same_request_def set_entry_def)
    qed
  qed
qed

lemma worker_complete_ok:
  assumes k: "k < length (io_workers (io_d s))" "i < length (work_queue (io_workers (io_d s) ! k))" "w = work_queue (io_workers (io_d s) ! k) ! i"
    and s: "served J perf s w" "queues_ok s" and t: "w_nsecs_target w \<le> now"
  shows "\<exists>s'. worker_complete k i now s = Some s' \<and> io_workers (io_d s') = set_entry s k i (w\<lparr>is_completed := True\<rparr>) \<and>
    same_shape s s' \<and> queues_ok s' \<and> io_cqs s' = deliver (io_cqs s) w \<and> io_data s' = io_data s"
proof -
  have g: "get_work s k i = Some w" using k by (simp add: get_work_Some)
  let ?f = "\<lambda>w. w\<lparr>is_completed := True\<rparr>"
  show ?thesis
  proof (cases "is_internal w")
    case True
    then have b: "w_write_buffer w < length (io_bufs s)" using s(1) by (simp add: served_def)
    let ?s = "s\<lparr>io_bufs := (io_bufs s)[w_write_buffer w := buffer_release (io_bufs s ! w_write_buffer w) (buffs_to_release w)]\<rparr>"
    obtain s' where s': "mod_work ?s k i ?f = Some s'" "io_workers (io_d s') = set_entry ?s k i (?f w)" "io_sqs s' = io_sqs s"
      "io_cqs s' = io_cqs s" "io_bufs s' = io_bufs ?s" "io_data s' = io_data s" using mod_work_ok[where f = ?f and s = ?s and w = w] k by auto
    then have "worker_complete k i now s = Some s'" using g t True b by (simp add: worker_complete_def amod_def)
    then show ?thesis using s' s(2) True by (auto simp: set_entry_def same_shape_def queues_ok_def deliver_def)
  next
    case False
    then obtain cq where "w_cqid w < length (io_cqs s)" "io_cqs s ! w_cqid w = Some cq" using s(1) by (auto simp: served_def)
    note f = fill_ok[OF s(2) this False]
    let ?s = "s\<lparr>io_cqs := deliver (io_cqs s) w\<rparr>"
    obtain s' where s': "mod_work ?s k i ?f = Some s'" "io_workers (io_d s') = set_entry ?s k i (?f w)" "io_sqs s' = io_sqs s"
      "io_cqs s' = io_cqs ?s" "io_bufs s' = io_bufs s" "io_data s' = io_data s"
      using mod_work_ok[where f = ?f and s = ?s and w = w] k by auto
    then have "worker_complete k i now s = Some s'" using g t False f(1) by (simp add: worker_complete_def)
    then show ?thesis using s' f(2,3) by (auto simp: set_entry_def same_shape_def queues_ok_def)
  qed
qed

lemma worker_visit_ok:
  assumes k: "k < length (io_workers (io_d s))" "i < length (work_queue (io_workers (io_d s) ! k))" "w = work_queue (io_workers (io_d s) ! k) ! i"
    and s: "\<not> is_completed w \<Longrightarrow> served J perf s w \<and> w_nsecs_target w \<le> now" "queues_ok s" and J: "J (io_data s)"
  shows "\<exists>s' w'. worker_visit perf now k i s = Some s' \<and>
    io_workers (io_d s') = (io_workers (io_d s))[k := (io_workers (io_d s) ! k)
      \<lparr>latest_nsecs := now, work_queue := (work_queue (io_workers (io_d s) ! k))[i := w']\<rparr>] \<and>
    same_shape s s' \<and> queues_ok s' \<and> is_completed w' \<and> same_request w w' \<and>
    io_cqs s' = (if is_completed w then io_cqs s else deliver (io_cqs s) w') \<and> J (io_data s')"
proof -
  let ?wk = "io_workers (io_d s) ! k"
  let ?s = "s\<lparr>io_d := (io_d s)\<lparr>io_workers := (io_workers (io_d s))[k := ?wk\<lparr>latest_nsecs := now\<rparr>]\<rparr>\<rparr>"
  have m: "mod_worker s k (\<lambda>wk. Some (wk\<lparr>latest_nsecs := now\<rparr>)) = Some ?s" using k by (simp add: mod_worker_Some)
  have g: "get_work ?s k i = Some w" using k by (simp add: get_work_Some)
  show ?thesis
  proof (cases "is_completed w")
    case True
    then have "worker_visit perf now k i s = Some ?s" using m g by (simp add: worker_visit_def)
    moreover have "same_shape s ?s" "queues_ok ?s" using s(2) by (simp_all add: same_shape_def queues_ok_def)
    ultimately show ?thesis using k True J by (intro exI[of _ ?s] exI[of _ w]) (simp add: list_update_id)
  next
    case False
    have k1: "k < length (io_workers (io_d ?s))" "i < length (work_queue (io_workers (io_d ?s) ! k))" "w = work_queue (io_workers (io_d ?s) ! k) ! i"
      using k by simp_all
    have "served J perf ?s w" using s(1)[OF False] by (auto simp: served_def split: if_splits)
    from worker_copy_ok[where J = J, OF k1 this] J obtain s1 w1 where c: "worker_copy perf k i ?s = Some s1"
      "io_workers (io_d s1) = set_entry ?s k i w1" "io_sqs s1 = io_sqs ?s" "io_cqs s1 = io_cqs ?s" "io_bufs s1 = io_bufs ?s"
      "is_copied w1" "is_completed w1 = is_completed w" "same_request w w1" "J (io_data s1)" by auto
    have k2: "k < length (io_workers (io_d s1))" "i < length (work_queue (io_workers (io_d s1) ! k))" "w1 = work_queue (io_workers (io_d s1) ! k) ! i"
      using k c(2) by (simp_all add: set_entry_def)
    have "served J perf s1 w1" using s(1)[OF False] c(3-6,8) by (auto simp: served_def same_request_def split: if_splits)
    moreover have "queues_ok s1" using s(2) c(4) by (simp add: queues_ok_def)
    moreover have "w_nsecs_target w1 \<le> now" using s(1)[OF False] c(8) by (simp add: same_request_def)
    ultimately obtain s' where d: "worker_complete k i now s1 = Some s'" "io_workers (io_d s') = set_entry s1 k i (w1\<lparr>is_completed := True\<rparr>)"
      "same_shape s1 s'" "queues_ok s'" "io_cqs s' = deliver (io_cqs s1) w1" "io_data s' = io_data s1"
      using worker_complete_ok[OF k2] by blast
    have run: "worker_visit perf now k i s = Some s'" using m g False c(1) d(1) by (simp add: worker_visit_def)
    have sh: "same_shape s s'" using d(3) c(3-5) by (simp add: same_shape_def)
    have r: "same_request w (w1\<lparr>is_completed := True\<rparr>)" using c(8) by (simp add: same_request_def)
    have del: "deliver (io_cqs s1) w1 = deliver (io_cqs s) (w1\<lparr>is_completed := True\<rparr>)"
      using c(4) by (simp add: deliver_def post_completion_def completion_of_def)
    have ws: "io_workers (io_d s') = (io_workers (io_d s))[k := ?wk\<lparr>latest_nsecs := now, work_queue := (work_queue ?wk)[i := w1\<lparr>is_completed := True\<rparr>]\<rparr>]"
      using d(2) c(2) k by (simp add: set_entry_def)
    show ?thesis using run ws sh d(4-6) c(9) r del False by (intro exI[of _ s'] exI[of _ "w1\<lparr>is_completed := True\<rparr>"]) simp
  qed
qed

subsection \<open>The pass\<close>

lemma worker_lists_latest: "worker_lists (wk\<lparr>latest_nsecs := now\<rparr>) fs xs = worker_lists wk fs xs"
  by (simp add: worker_lists_def)

text \<open>The requests among the entries \<open>ys\<close> that are still to be done.\<close>

definition todo :: "io_work list \<Rightarrow> nat list \<Rightarrow> io_item list" where
  "todo q ys = map (\<lambda>i. item_of (q ! i)) (filter (\<lambda>i. \<not> is_completed (q ! i)) ys)"

lemma todo_cong: "\<forall>i \<in> set ys. q' ! i = q ! i \<Longrightarrow> todo q' ys = todo q ys"
  by (induction ys) (auto simp: todo_def)

lemma worker_pass_ok:
  assumes "k < length (io_workers (io_d s))" "worker_lists (io_workers (io_d s) ! k) fs (zs @ ys)" "cur = first_of ys (- 1)"
    and "\<forall>i \<in> set zs. is_completed (work_queue (io_workers (io_d s) ! k) ! i)" "queues_ok s" "J (io_data s)"
    and "\<And>i m. i \<in> set ys \<Longrightarrow> \<not> is_completed (work_queue (io_workers (io_d s) ! k) ! i) \<Longrightarrow>
      served J perf s (work_queue (io_workers (io_d s) ! k) ! i) \<and> w_nsecs_target (work_queue (io_workers (io_d s) ! k) ! i) \<le> clk m"
  shows "\<exists>s' wk' ws. worker_pass perf clk n k cur s = Some s' \<and> io_workers (io_d s') = (io_workers (io_d s))[k := wk'] \<and>
    worker_lists wk' fs (zs @ ys) \<and> (\<forall>i \<in> set (zs @ ys). is_completed (work_queue wk' ! i)) \<and> same_shape s s' \<and> queues_ok s' \<and>
    io_cqs s' = foldl deliver (io_cqs s) ws \<and> map item_of ws = todo (work_queue (io_workers (io_d s) ! k)) ys \<and>
    J (io_data s')"
  using assms
proof (induction ys arbitrary: zs cur s n)
  case Nil
  have "worker_pass perf clk n k cur s = Some s" using Nil(3) by (subst worker_pass.simps) simp
  then show ?case
    using Nil by (intro exI[of _ s] exI[of _ "io_workers (io_d s) ! k"] exI[of _ "[]"]) (simp add: todo_def list_update_id)
next
  case (Cons i ys)
  let ?wk = "io_workers (io_d s) ! k"
  let ?w = "work_queue ?wk ! i"
  note W = worker_listsD[OF Cons.prems(2)]
  have i: "i < N" "i \<notin> set zs" "i \<notin> set ys" "i < length (work_queue ?wk)" using W(1,2,4) by auto
  have cur: "cur = of_nat i" "cur \<noteq> - 1" "unat cur = i" using Cons.prems(3) i(1) N_not_end N_small by auto
  from worker_visit_ok[where J = J and perf = perf and now = "clk n", OF Cons.prems(1) i(4) refl _ Cons.prems(5,6)] Cons.prems(7)[of i]
  obtain s1 w1 where v: "worker_visit perf (clk n) k i s = Some s1"
    "io_workers (io_d s1) = (io_workers (io_d s))[k := ?wk\<lparr>latest_nsecs := clk n, work_queue := (work_queue ?wk)[i := w1]\<rparr>]"
    "same_shape s s1" "queues_ok s1" "is_completed w1" "same_request ?w w1"
    "io_cqs s1 = (if is_completed ?w then io_cqs s else deliver (io_cqs s) w1)" "J (io_data s1)" by auto
  have wk1: "io_workers (io_d s1) ! k = ?wk\<lparr>work_queue := (work_queue ?wk)[i := w1], latest_nsecs := clk n\<rparr>" using v(2) Cons.prems(1) by simp
  have "worker_lists (?wk\<lparr>work_queue := (work_queue ?wk)[i := w1]\<rparr>) fs (zs @ i # ys)"
    by (rule worker_lists_mod[where f = "\<lambda>_. w1", OF Cons.prems(2)]) (use v(6) in \<open>simp_all add: same_request_def\<close>)
  then have l1: "worker_lists (io_workers (io_d s1) ! k) fs ((zs @ [i]) @ ys)" unfolding wk1 worker_lists_latest by simp
  have g: "get_work s1 k i = Some w1" using v(2) Cons.prems(1) i(4) by (simp add: get_work_Some)
  have "linked (nxt (work_queue ?wk)) cur (i # ys) (- 1)" using W(8) Cons.prems(3) by (simp add: linked_append)
  then have nx: "w_next w1 = first_of ys (- 1)" using v(6) linked_first by (auto simp: nxt_def same_request_def)
  have keep: "work_queue (io_workers (io_d s1) ! k) ! j = work_queue ?wk ! j" if "j \<in> set ys" for j
    using that i(3) unfolding wk1 by (auto simp: nth_upd)
  have k1: "k < length (io_workers (io_d s1))" using v(2) Cons.prems(1) by simp
  have done1: "\<forall>j \<in> set (zs @ [i]). is_completed (work_queue (io_workers (io_d s1) ! k) ! j)"
    using Cons.prems(4) v(5) i unfolding wk1 by (auto simp: nth_upd)
  from Cons.IH[OF k1 l1 nx done1 v(4,8), of "n + 1"] Cons.prems(7) keep served_shape[OF v(3)]
  obtain s' wk' ws where r: "worker_pass perf clk (n + 1) k (w_next w1) s1 = Some s'" "io_workers (io_d s') = (io_workers (io_d s1))[k := wk']"
    "worker_lists wk' fs (zs @ i # ys)" "\<forall>i \<in> set (zs @ i # ys). is_completed (work_queue wk' ! i)" "same_shape s1 s'" "queues_ok s'"
    "io_cqs s' = foldl deliver (io_cqs s1) ws" "map item_of ws = todo (work_queue (io_workers (io_d s1) ! k)) ys" "J (io_data s')" by auto
  have run: "worker_pass perf clk n k cur s = Some s'"
    using cur v(1) g r(1) by (subst worker_pass.simps) simp
  have td: "todo (work_queue (io_workers (io_d s1) ! k)) ys = todo (work_queue ?wk) ys" using keep by (intro todo_cong) blast
  define vs where "vs = (if is_completed ?w then ws else w1 # ws)"
  have "io_cqs s' = foldl deliver (io_cqs s) vs" "map item_of vs = todo (work_queue ?wk) (i # ys)"
    using r(7,8) td v(6,7) by (auto simp: vs_def todo_def same_request_def)
  moreover have "io_workers (io_d s') = (io_workers (io_d s))[k := wk']" using r(2) v(2) by simp
  ultimately show ?case using run r(3,4,6,9) same_shape_trans[OF v(3) r(5)] by blast
qed

end
