(* ===== verification/Io_Refine.thy ===== *)
theory Io_Refine
  imports Io_Pass "HOL-Library.Sublist"
begin

unbundle bit_operations_syntax

text \<open>
  The loops of the code as sequences of the steps: what the dispatcher does for one command, and
  what a worker does in one round, are runs of the step relation. So what holds in every state
  that the steps reach holds however the dispatcher and the workers take turns.
\<close>

subsection \<open>Runs\<close>

lemma io_run_trans:
  assumes "io_run perf b es c" "io_run perf a tr b"
  shows "io_run perf a (tr @ es) c"
  using assms
proof (induction rule: io_run.induct)
  case start
  then show ?case by simp
next
  case (step es c fs d)
  have "io_run perf a ((tr @ es) @ fs) d" using step by (blast intro: io_run.step)
  then show ?case by simp
qed

lemma io_run_step: "io_step perf a es b \<Longrightarrow> io_run perf a es b"
  using io_run.step[OF io_run.start] by fastforce

lemma io_run_cons: "io_step perf a es b \<Longrightarrow> io_run perf b fs c \<Longrightarrow> io_run perf a (es @ fs) c"
  using io_run_trans io_run_step by blast

definition reaches :: "'d perform \<Rightarrow> 'd io_sys \<times> (nat \<Rightarrow> worker_pc) \<Rightarrow> 'd io_sys \<times> (nat \<Rightarrow> worker_pc) \<Rightarrow> bool" where
  "reaches perf a b \<longleftrightarrow> (\<exists>tr. io_run perf a tr b)"

lemma reaches_refl [simp]: "reaches perf a a"
  unfolding reaches_def by (intro exI[of _ "[]"] io_run.start)

lemma reaches_trans [trans]: "reaches perf a b \<Longrightarrow> reaches perf b c \<Longrightarrow> reaches perf a c"
  unfolding reaches_def by (erule exE, erule exE, rule exI) (erule (1) io_run_trans[rotated])

lemma reaches_step: "io_step perf a es b \<Longrightarrow> reaches perf a b"
  unfolding reaches_def by (rule exI) (erule io_run_step)

text \<open>The commands of the host that a run takes, in the order in which they are taken.\<close>

definition is_request :: "io_item \<Rightarrow> bool" where
  "is_request it \<longleftrightarrow> (case it of Request _ _ _ _ \<Rightarrow> True | Release _ _ \<Rightarrow> False)"

definition requests :: "io_event list \<Rightarrow> io_item list" where
  "requests es = filter is_request (concat (map (\<lambda>e. case e of Accepted it \<Rightarrow> [it] | Finished _ \<Rightarrow> []) es))"

lemma requests_simps [simp]:
  "requests [] = []" "requests (es @ fs) = requests es @ requests fs"
  "requests [Accepted (Request q c i n)] = [Request q c i n]" "requests [Accepted (Release b m)] = []"
  by (simp_all add: requests_def is_request_def)

definition takes :: "'d perform \<Rightarrow> io_item list \<Rightarrow> 'd io_sys \<times> (nat \<Rightarrow> worker_pc) \<Rightarrow> 'd io_sys \<times> (nat \<Rightarrow> worker_pc) \<Rightarrow> bool" where
  "takes perf its a b \<longleftrightarrow> (\<exists>tr. io_run perf a tr b \<and> requests tr = its)"

lemma takes_reaches: "takes perf its a b \<Longrightarrow> reaches perf a b"
  by (auto simp: takes_def reaches_def)

lemma takes_refl [simp]: "takes perf [] a a"
  unfolding takes_def by (rule exI[of _ "[]"]) (simp add: io_run.start)

lemma takes_step: "io_step perf a es b \<Longrightarrow> takes perf (requests es) a b"
  unfolding takes_def by (rule exI[of _ es]) (simp add: io_run_step)

lemma takes_trans: "takes perf its a b \<Longrightarrow> takes perf its' b c \<Longrightarrow> takes perf (its @ its') a c"
  unfolding takes_def by (elim exE conjE) (rule exI, rule conjI, erule (1) io_run_trans[rotated], simp)

lemma takes_none: "takes perf [] a b \<Longrightarrow> takes perf its b c \<Longrightarrow> takes perf its a c"
  using takes_trans[of perf "[]"] by simp

text \<open>A state is reached in which the worker of the queue has no free entry: the next command is lost.\<close>

definition no_room :: "'d perform \<Rightarrow> nat \<Rightarrow> 'd io_sys \<times> (nat \<Rightarrow> worker_pc) \<Rightarrow> bool" where
  "no_room perf sqid a \<longleftrightarrow> (\<exists>s d. reaches perf a (s, snd a) \<and> allocate_work_queue_entry (io_d s) sqid = Some (None, d))"

lemma no_room_reaches: "reaches perf (s, pc) (s', pc) \<Longrightarrow> no_room perf sqid (s', pc) \<Longrightarrow> no_room perf sqid (s, pc)"
  unfolding no_room_def snd_conv by (blast intro: reaches_trans)

subsection \<open>A worker\<close>

lemma mod_work_latest:
  assumes "mod_work s k i f = Some s'"
  shows "length (io_workers (io_d s')) = length (io_workers (io_d s))" "latest_nsecs (io_workers (io_d s') ! j) = latest_nsecs (io_workers (io_d s) ! j)"
  using assms by (auto simp: mod_work_Some nth_upd)

lemma worker_copy_latest:
  assumes "worker_copy perf k i s = Some s'"
  shows "length (io_workers (io_d s')) = length (io_workers (io_d s)) \<and> latest_nsecs (io_workers (io_d s') ! j) = latest_nsecs (io_workers (io_d s) ! j)"
proof -
  obtain w where w: "get_work s k i = Some w" using assms by (auto simp: worker_copy_def split: bind_splits)
  from worker_copy_cases[OF assms w] show ?thesis
  proof
    assume "\<exists>d f. mod_work (s\<lparr>io_data := d\<rparr>) k i f = Some s' \<and> (\<forall>w. w_next (f w) = w_next w \<and> w_prev (f w) = w_prev w \<and>
      w_nsecs_target (f w) = w_nsecs_target w \<and> item_of (f w) = item_of w \<and> is_completed (f w) = is_completed w)"
    then show ?thesis using mod_work_latest[of "s\<lparr>io_data := _\<rparr>"] by fastforce
  qed simp
qed

lemma worker_complete_latest:
  assumes "worker_complete k i now s = Some s'"
  shows "length (io_workers (io_d s')) = length (io_workers (io_d s)) \<and> latest_nsecs (io_workers (io_d s') ! j) = latest_nsecs (io_workers (io_d s) ! j)"
proof -
  obtain w where w: "get_work s k i = Some w" using assms by (auto simp: worker_complete_def split: bind_splits)
  show ?thesis
  proof (cases "w_nsecs_target w \<le> now")
    case True
    then obtain bs cqs where "mod_work (s\<lparr>io_bufs := bs, io_cqs := cqs\<rparr>) k i (\<lambda>w. w\<lparr>is_completed := True\<rparr>) = Some s'"
      using worker_complete_cases[OF assms w] by auto
    from mod_work_latest[OF this] show ?thesis by simp
  qed (use worker_complete_cases[OF assms w] in simp)
qed

lemma worker_visit_run:
  assumes v: "worker_visit perf now k i s = Some s'" and l: "latest_nsecs (io_workers (io_d s) ! k) \<le> now"
  shows "reaches perf (s, pc(k := At i)) (s', pc(k := Past i))" "latest_nsecs (io_workers (io_d s') ! k) = now"
proof -
  obtain s1 w where m: "mod_worker s k (\<lambda>wk. Some (wk\<lparr>latest_nsecs := now\<rparr>)) = Some s1" "get_work s1 k i = Some w"
    "(if is_completed w then Some s1 else do { s \<leftarrow> worker_copy perf k i s1; worker_complete k i now s }) = Some s'"
    using v by (auto simp: worker_visit_def split: bind_splits)
  have k: "k < length (io_workers (io_d s))" "aget (io_workers (io_d s)) k = Some (io_workers (io_d s) ! k)" using m(1) by (auto simp: mod_worker_Some)
  have g: "get_work s k i = Some w" using m(1,2) by (auto simp: mod_worker_Some get_work_Some)
  have l1: "latest_nsecs (io_workers (io_d s1) ! k) = now" using m(1) by (auto simp: mod_worker_Some)
  have upd: "(pc(k := p))(k := p') = pc(k := p')" for p p' by (rule fun_upd_upd)
  have "io_step perf (s, pc(k := At i)) [] (s1, (pc(k := At i))(k := if is_completed w then Past i else Copying i now))"
    by (rule io_step.look[OF _ k(2) g l m(1)]) simp
  note look = reaches_step[OF this[unfolded upd]]
  have "reaches perf (s, pc(k := At i)) (s', pc(k := Past i)) \<and> latest_nsecs (io_workers (io_d s') ! k) = now"
  proof (cases "is_completed w")
    case True
    then show ?thesis using look m(3) l1 by simp
  next
    case False
    then obtain s2 where c: "worker_copy perf k i s1 = Some s2" "worker_complete k i now s2 = Some s'" using m(3) by (auto split: bind_splits)
    obtain w2 where w2: "get_work s2 k i = Some w2" using c(2) by (auto simp: worker_complete_def split: bind_splits)
    have "io_step perf (s1, pc(k := Copying i now)) [] (s2, (pc(k := Copying i now))(k := Copied i now))"
      by (rule io_step.copy[OF _ c(1)]) simp
    note copy = reaches_step[OF this[unfolded upd]]
    have "io_step perf (s2, pc(k := Copied i now)) (if w_nsecs_target w2 \<le> now then [Finished (item_of w2)] else [])
        (s', (pc(k := Copied i now))(k := Past i))"
      by (rule io_step.complete[OF _ w2 c(2)]) simp
    note complete = reaches_step[OF this[unfolded upd]]
    from look False have "reaches perf (s, pc(k := At i)) (s1, pc(k := Copying i now))" by simp
    also note copy
    also note complete
    finally show ?thesis using worker_copy_latest[OF c(1), of k] worker_complete_latest[OF c(2), of k] l1 by simp
  qed
  then show "reaches perf (s, pc(k := At i)) (s', pc(k := Past i))" "latest_nsecs (io_workers (io_d s') ! k) = now" by auto
qed

lemma worker_pass_run:
  assumes "worker_pass perf clk n k cur s = Some s'" "mono clk" "latest_nsecs (io_workers (io_d s) ! k) \<le> clk n"
  shows "reaches perf (s, pc(k := if cur = - 1 then Idle else At (unat cur))) (s', pc(k := Idle))"
  using assms
proof (induction rule: worker_pass.raw_induct[rotated, consumes 1, case_names pass])
  case (pass worker_pass perf clk n k cur s s')
  show ?case
  proof (cases "cur = - 1")
    case True
    then show ?thesis using pass by simp
  next
    case False
    then obtain s1 w where v: "worker_visit perf (clk n) k (unat cur) s = Some s1" "get_work s1 k (unat cur) = Some w"
      "worker_pass perf clk (n + 1) k (w_next w) s1 = Some s'" using pass(2) by (auto split: bind_splits)
    note V = worker_visit_run(1)[where pc = pc, OF v(1) pass(4)] worker_visit_run(2)[OF v(1) pass(4)]
    have upd: "(pc(k := p))(k := p') = pc(k := p')" for p p' by (rule fun_upd_upd)
    have "io_step perf (s1, pc(k := Past (unat cur))) [] (s1, (pc(k := Past (unat cur)))(k := if w_next w = - 1 then Idle else At (unat (w_next w))))"
      by (rule io_step.advance[OF _ v(2)]) simp
    note adv = reaches_step[OF this[unfolded upd]]
    have "clk n \<le> clk (n + 1)" using pass(3) by (simp add: mono_def)
    then have rest: "reaches perf (s1, pc(k := if w_next w = - 1 then Idle else At (unat (w_next w)))) (s', pc(k := Idle))"
      by (intro pass(1)[OF v(3) pass(3)]) (use V(2) in simp)
    have "reaches perf (s, pc(k := At (unat cur))) (s1, pc(k := Past (unat cur)))" by (rule V(1))
    also note adv
    also note rest
    finally show ?thesis using False by (simp add: fun_upd_def)
  qed
qed

lemma worker_signal_io_d:
  assumes "worker_signal lock nr_cq k s = Some (irqs, s')"
  shows "io_d s' = io_d s"
proof -
  have "(\<lambda>(irqs, s'). io_d s' = io_d s) (irqs, s')"
    by (rule opt_fold_keeps[OF assms[unfolded worker_signal_def]]) (auto split: bind_splits option.splits if_splits)
  then show ?thesis by simp
qed

lemma io_worker_round_run:
  assumes r: "io_worker_round perf clk lock nr_cq k s = Some (irqs, s')" and "pc k = Idle" "mono clk"
    and "latest_nsecs (io_workers (io_d s) ! k) \<le> clk 0"
  shows "reaches perf (s, pc) (s', pc)"
proof -
  obtain wk s1 where w: "aget (io_workers (io_d s)) k = Some wk" "worker_pass perf clk 0 k (io_seq wk) s = Some s1"
    "worker_signal lock nr_cq k s1 = Some (irqs, s')" using r by (auto simp: io_worker_round_def split: bind_splits)
  have pc: "pc(k := Idle) = pc" using assms(2) by auto
  have "reaches perf (s, pc) (s, pc(k := if io_seq wk = - 1 then Idle else At (unat (io_seq wk))))"
  proof (cases "io_seq wk = - 1")
    case False
    have "io_step perf (s, pc) [] (s, pc(k := At (unat (io_seq wk))))" by (rule io_step.fetch) (use w(1) assms(2) False in simp_all)
    then show ?thesis using reaches_step False by auto
  qed (simp add: pc)
  also have "reaches perf (s, pc(k := if io_seq wk = - 1 then Idle else At (unat (io_seq wk)))) (s1, pc(k := Idle))"
    by (rule worker_pass_run[OF w(2) assms(3,4)])
  also have "reaches perf (s1, pc(k := Idle)) (s', pc(k := Idle))"
    by (rule reaches_step, rule io_step.environment) (rule worker_signal_io_d[OF w(3)])
  finally show ?thesis by (simp add: pc)
qed

subsection \<open>The dispatcher\<close>

lemma enqueue_work_alloc: "enqueue_work d sqid f target = Some d1 \<Longrightarrow> \<exists>r d'. allocate_work_queue_entry d sqid = Some (r, d')"
  by (auto simp: enqueue_work_def split: bind_splits)

lemma internals_run:
  assumes "opt_fold (\<lambda>dev (q, t, b, n). schedule_internal_operation dev q now t b n) (io_d s) ops = Some dev"
  shows "takes perf [] (s, pc) (s\<lparr>io_d := dev\<rparr>, pc)"
  using assms
proof (induction ops arbitrary: s)
  case Nil
  then have "s\<lparr>io_d := dev\<rparr> = s" by auto
  then show ?case by simp
next
  case (Cons op ops)
  obtain q t b n where op: "op = (q, t, b, n)" by (cases op)
  then obtain d1 where d1: "schedule_internal_operation (io_d s) q now t b n = Some d1"
    "opt_fold (\<lambda>dev (q, t, b, n). schedule_internal_operation dev q now t b n) (io_d (s\<lparr>io_d := d1\<rparr>)) ops = Some dev"
    using Cons.prems by (auto split: bind_splits)
  obtain r d' where a: "allocate_work_queue_entry (io_d s) q = Some (r, d')"
    using enqueue_work_alloc d1(1) unfolding schedule_internal_operation_def by blast
  have "takes perf [] (s, pc) (s\<lparr>io_d := d1\<rparr>, pc)"
    using takes_step[OF io_step.internal[OF a d1(1)], of perf pc] by (simp split: if_splits)
  moreover have "takes perf [] (s\<lparr>io_d := d1\<rparr>, pc) (s\<lparr>io_d := d1\<rparr>\<lparr>io_d := dev\<rparr>, pc)" by (rule Cons.IH[OF d1(2)])
  ultimately show ?case using takes_none by fastforce
qed

text \<open>The item that the entry \<open>i\<close> of a queue becomes.\<close>

definition ring_item :: "nat \<Rightarrow> submission_queue \<Rightarrow> nat \<Rightarrow> io_item" where
  "ring_item sqid sq i = Request sqid (sq_cqid sq) i (ucast (sqe_command_id (sq_ring sq ! i)))"

lemma environment_takes: "io_d s' = io_d s \<Longrightarrow> takes perf [] (s, pc) (s', pc)"
  using takes_step[OF io_step.environment, of s' s perf pc] by simp

text \<open>One entry: it is refused, or taken unless there is no room.\<close>

lemma nvmev_proc_io_run:
  assumes "nvmev_proc_io kv_build proc now sqid sq_entry s = Some (r, s')" "get_queue (io_sqs s) sqid = Some sq"
  shows "io_sqs s' = io_sqs s \<and> (\<exists>its. takes perf its (s, pc) (s', pc) \<and>
    (if r = None then its = [] else its = [ring_item sqid sq sq_entry] \<or> its = [] \<and> no_room perf sqid (s, pc)))"
proof -
  note sq = assms(2)
  obtain e where e: "aget (sq_ring sq) sq_entry = Some e"
    using assms(1) sq by (cases "aget (sq_ring sq) sq_entry") (auto simp: nvmev_proc_io_def)
  let ?x = "proc (if kv_build then 0 else unat (cmd_nsid (sqe_rw e) - 1)) e sqid now
    \<lparr>ret_status = NVME_SC_SUCCESS, nsecs_target = now, ret_result = 0\<rparr> (io_data s)"
  obtain ok ret ops d where x: "?x = Some (ok, ret, ops, d)"
    using assms(1) sq e by (cases ?x) (auto simp: nvmev_proc_io_def Let_def)
  let ?o = "opt_fold (\<lambda>dev (q, t, b, n). schedule_internal_operation dev q now t b n) (io_d s) ops"
  obtain dev where dev: "?o = Some dev"
    using assms(1) sq e x by (cases ?o) (simp_all add: nvmev_proc_io_def Let_def)
  have p: "?o = Some dev" "(if \<not> ok then Some (None, s\<lparr>io_data := d, io_d := dev\<rparr>)
      else do {
        dev \<leftarrow> enqueue_io_req dev sqid (sq_cqid sq) sq_entry (ucast (sqe_command_id e)) now (nsecs_target ret) (ret_status ret) (ret_result ret);
        dev \<leftarrow> reclaim_completed_reqs dev;
        Some (Some (of_nat (io_cmd_size (sqe_rw e))), s\<lparr>io_data := d, io_d := dev\<rparr>)
      }) = Some (r, s')"
    using assms(1) sq e x dev by (simp_all add: nvmev_proc_io_def Let_def)
  let ?s0 = "s\<lparr>io_data := d\<rparr>"
  have "takes perf [] (s, pc) (?s0, pc)" by (rule environment_takes) simp
  moreover have "takes perf [] (?s0, pc) (?s0\<lparr>io_d := dev\<rparr>, pc)" by (rule internals_run[of now _ ops]) (use p(1) in simp)
  ultimately have q0: "takes perf [] (s, pc) (?s0\<lparr>io_d := dev\<rparr>, pc)" by (rule takes_none)
  show ?thesis
  proof (cases ok)
    case False
    then show ?thesis using p(2) q0 by auto
  next
    case True
    then obtain dev1 dev2 where q: "enqueue_io_req dev sqid (sq_cqid sq) sq_entry (ucast (sqe_command_id e)) now (nsecs_target ret) (ret_status ret) (ret_result ret) = Some dev1"
      "reclaim_completed_reqs dev1 = Some dev2" "s' = ?s0\<lparr>io_d := dev2\<rparr>" "r \<noteq> None" using p(2) by (auto split: bind_splits)
    obtain r0 d' where a: "allocate_work_queue_entry dev sqid = Some (r0, d')"
      using enqueue_work_alloc q(1) unfolding enqueue_io_req_def by blast
    have it: "ring_item sqid sq sq_entry = Request sqid (sq_cqid sq) sq_entry (ucast (sqe_command_id e))"
      using e by (simp add: ring_item_def aget_Some_iff)
    have "io_step perf (?s0\<lparr>io_d := dev\<rparr>, pc) (if r0 = None then [] else [Accepted (ring_item sqid sq sq_entry)])
        (?s0\<lparr>io_d := dev\<rparr>\<lparr>io_d := dev1\<rparr>, pc)"
      unfolding it by (rule io_step.request) (use a q(1) in simp_all)
    note t1 = takes_step[OF this]
    have "io_step perf (?s0\<lparr>io_d := dev\<rparr>\<lparr>io_d := dev1\<rparr>, pc) [] (?s0\<lparr>io_d := dev\<rparr>\<lparr>io_d := dev1\<rparr>\<lparr>io_d := dev2\<rparr>, pc)"
      by (rule io_step.reclaim) (use q(2) in simp)
    from takes_none[OF q0 takes_trans[OF t1 takes_step[OF this]]]
    have "takes perf (if r0 = None then [] else [ring_item sqid sq sq_entry]) (s, pc) (s', pc)"
      using q(3) it by (cases r0) simp_all
    moreover have "no_room perf sqid (s, pc)" if "r0 = None"
      unfolding no_room_def snd_conv using takes_reaches[OF q0] a that by (intro exI conjI) (assumption, simp)
    ultimately show ?thesis using q(3,4)
      by (intro conjI exI[of _ "if r0 = None then [] else [ring_item sqid sq sq_entry]"]) (cases r0, auto)
  qed
qed

lemma mod_sq_run: "mod_sq s sqid f = Some s' \<Longrightarrow> takes perf [] (s, pc) (s', pc)"
  by (rule environment_takes) (auto simp: mod_sq_def split: bind_splits)

lemma mod_sq_queue:
  "get_queue (io_sqs s) sqid = Some sq \<Longrightarrow> mod_sq s sqid f = Some s' \<Longrightarrow> get_queue (io_sqs s') sqid = Some (f sq)"
  by (auto simp: mod_sq_def get_queue_def amod_Some_iff aget_Some_iff split: bind_splits)

text \<open>
  The loop: it takes \<open>m\<close> entries of the ring in order, less those there is no room for, and stops before the end
  only at an entry that the handler refuses.
\<close>

lemma proc_sq_loop_run:
  assumes "proc_sq_loop kv_build proc nows sqid n e seq s = Some (r, s')" "get_queue (io_sqs s) sqid = Some sq" "e < sq_queue_size sq"
  shows "\<exists>m its sq'. r = seq + m \<and> m \<le> n \<and> takes perf its (s, pc) (s', pc) \<and>
    subseq its (map (\<lambda>i. ring_item sqid sq ((e + i) mod sq_queue_size sq)) [0..<m]) \<and>
    (length its < m \<longrightarrow> no_room perf sqid (s, pc)) \<and>
    (m < n \<longrightarrow> (\<exists>s1 s2. reaches perf (s, pc) (s1, pc) \<and>
      nvmev_proc_io kv_build proc (nows (seq + m)) sqid ((e + m) mod sq_queue_size sq) s1 = Some (None, s2))) \<and>
    get_queue (io_sqs s') sqid = Some sq' \<and> sq_queue_size sq' = sq_queue_size sq"
  using assms
proof (induction n arbitrary: e seq s sq)
  case 0
  then show ?case by (intro exI[of _ 0] exI[of _ "[]"]) simp
next
  case (Suc n)
  let ?x = "nvmev_proc_io kv_build proc (nows seq) sqid e s"
  obtain t s1 where x: "?x = Some (t, s1)" using Suc.prems(1) by (cases ?x) auto
  obtain js where r1: "io_sqs s1 = io_sqs s" "takes perf js (s, pc) (s1, pc)"
    "if t = None then js = [] else js = [ring_item sqid sq e] \<or> js = [] \<and> no_room perf sqid (s, pc)"
    using nvmev_proc_io_run[OF x Suc.prems(2), of perf pc] by blast
  let ?N = "sq_queue_size sq"
  show ?case
  proof (cases t)
    case None
    then have "r = seq" "s1 = s'" using Suc.prems(1) x by simp_all
    moreover have "\<exists>s1 s2. reaches perf (s, pc) (s1, pc) \<and> nvmev_proc_io kv_build proc (nows seq) sqid e s1 = Some (None, s2)"
      using x None reaches_refl[of perf "(s, pc)"] by blast
    ultimately show ?thesis using r1 None Suc.prems(2,3)
      by (intro exI[of _ 0] exI[of _ "[]"] exI[of _ sq]) auto
  next
    case (Some io_size)
    have sq: "get_queue (io_sqs s1) sqid = Some sq" using Suc.prems(2) r1(1) by simp
    let ?f = "\<lambda>sq. sq\<lparr>nr_dispatched := nr_dispatched sq + 1, nr_in_flight := nr_in_flight sq + 1, total_io := total_io sq + io_size\<rparr>"
    let ?e = "if e + 1 = ?N then 0 else e + 1"
    obtain s2 where m: "mod_sq s1 sqid ?f = Some s2" "proc_sq_loop kv_build proc nows sqid n ?e (seq + 1) s2 = Some (r, s')"
      using Suc.prems(1) x Some sq by (cases "mod_sq s1 sqid ?f") auto
    have q2: "get_queue (io_sqs s2) sqid = Some (?f sq)" by (rule mod_sq_queue[OF sq m(1)])
    have e: "?e < ?N" "?e = (e + 1) mod ?N" using Suc.prems(3) by (simp, cases "e + 1 = ?N", simp_all)
    then have en: "(?e + i) mod ?N = (e + Suc i) mod ?N" for i by (simp add: mod_simps)
    have nf: "sq_queue_size (?f sq) = ?N" by simp
    have ri: "ring_item sqid (?f sq) = ring_item sqid sq" by (simp add: ring_item_def fun_eq_iff)
    have "\<exists>m' its sq'. r = seq + 1 + m' \<and> m' \<le> n \<and> takes perf its (s2, pc) (s', pc) \<and>
      subseq its (map (\<lambda>i. ring_item sqid sq ((e + Suc i) mod ?N)) [0..<m']) \<and>
      (length its < m' \<longrightarrow> no_room perf sqid (s2, pc)) \<and>
      (m' < n \<longrightarrow> (\<exists>s1 s3. reaches perf (s2, pc) (s1, pc) \<and>
         nvmev_proc_io kv_build proc (nows (seq + 1 + m')) sqid ((e + Suc m') mod ?N) s1 = Some (None, s3))) \<and>
      get_queue (io_sqs s') sqid = Some sq' \<and> sq_queue_size sq' = ?N"
      by (rule Suc.IH[OF m(2) q2, unfolded ri nf en, OF e(1)])
    then obtain m' its sq' where ih: "r = seq + 1 + m'" "m' \<le> n" "takes perf its (s2, pc) (s', pc)"
      "subseq its (map (\<lambda>i. ring_item sqid sq ((e + Suc i) mod ?N)) [0..<m'])"
      "length its < m' \<longrightarrow> no_room perf sqid (s2, pc)"
      "m' < n \<longrightarrow> (\<exists>s1 s3. reaches perf (s2, pc) (s1, pc) \<and>
         nvmev_proc_io kv_build proc (nows (seq + 1 + m')) sqid ((e + Suc m') mod ?N) s1 = Some (None, s3))"
      "get_queue (io_sqs s') sqid = Some sq'" "sq_queue_size sq' = ?N" by (elim exE conjE) (rule that)
    have t2: "takes perf js (s, pc) (s2, pc)" using takes_trans[OF r1(2) mod_sq_run[OF m(1)]] by simp
    note re = takes_reaches[OF t2]
    have items: "map (\<lambda>i. ring_item sqid sq ((e + i) mod ?N)) [0..<Suc m'] =
        ring_item sqid sq e # map (\<lambda>i. ring_item sqid sq ((e + Suc i) mod ?N)) [0..<m']"
      using Suc.prems(3) by (simp add: upt_conv_Cons map_Suc_upt[symmetric] del: upt_Suc)
    have "subseq (js @ its) (ring_item sqid sq e # map (\<lambda>i. ring_item sqid sq ((e + Suc i) mod ?N)) [0..<m'])"
      using r1(3) ih(4) Some by auto
    moreover have "no_room perf sqid (s, pc)" if "length (js @ its) < Suc m'"
      using that r1(3) Some ih(5) no_room_reaches[OF re] by auto
    moreover have "\<exists>s1 s3. reaches perf (s, pc) (s1, pc) \<and>
        nvmev_proc_io kv_build proc (nows (seq + Suc m')) sqid ((e + Suc m') mod ?N) s1 = Some (None, s3)" if "Suc m' < Suc n"
      using ih(6) that reaches_trans[OF re] by fastforce
    ultimately show ?thesis using ih(1,2,7,8) takes_trans[OF t2 ih(3)] unfolding items[symmetric]
      by (intro exI[of _ "Suc m'"] exI[of _ "js @ its"] exI[of _ sq']) simp
  qed
qed

text \<open>What the polling of a submission queue does, and the doorbell it returns.\<close>

lemma nvmev_proc_io_sq_takes:
  assumes "nvmev_proc_io_sq kv_build proc nows sqid new_db old_db s = Some (db, s')" "get_queue (io_sqs s) sqid = Some sq"
    and "old_db < sq_queue_size sq"
  defines "sz \<equiv> sq_queue_size sq"
  defines "n \<equiv> nat (if new_db < int old_db then new_db - int old_db + int sz else new_db - int old_db)"
  shows "\<exists>m its. db = (old_db + m) mod sz \<and> m \<le> n \<and> takes perf its (s, pc) (s', pc) \<and>
    subseq its (map (\<lambda>i. ring_item sqid sq ((old_db + i) mod sz)) [0..<m]) \<and>
    (length its < m \<longrightarrow> no_room perf sqid (s, pc)) \<and>
    (m < n \<longrightarrow> (\<exists>s1 s2. reaches perf (s, pc) (s1, pc) \<and>
      nvmev_proc_io kv_build proc (nows m) sqid ((old_db + m) mod sz) s1 = Some (None, s2))) \<and>
    get_queue (io_sqs s') sqid \<noteq> None"
proof -
  have q: "aget (io_sqs s) sqid = Some (Some sq)" using assms(2) by (auto simp: get_queue_def elim!: bind_SomeE)
  have "\<exists>seq s1 f. proc_sq_loop kv_build proc nows sqid n old_db 0 s = Some (seq, s1) \<and> mod_sq s1 sqid f = Some s' \<and>
      db = (old_db + seq) mod sz"
    using assms(1) q unfolding n_def sz_def by (auto simp: nvmev_proc_io_sq_def Let_def elim!: bind_SomeE)
  then obtain seq s1 f where l: "proc_sq_loop kv_build proc nows sqid n old_db 0 s = Some (seq, s1)" "mod_sq s1 sqid f = Some s'"
    "db = (old_db + seq) mod sz" by blast
  from proc_sq_loop_run[OF l(1) assms(2,3), of perf pc, folded sz_def, unfolded add_0_left] obtain m its sq' where r: "seq = m" "m \<le> n" "takes perf its (s, pc) (s1, pc)"
    "subseq its (map (\<lambda>i. ring_item sqid sq ((old_db + i) mod sz)) [0..<m])" "length its < m \<longrightarrow> no_room perf sqid (s, pc)"
    "m < n \<longrightarrow> (\<exists>s1 s2. reaches perf (s, pc) (s1, pc) \<and>
      nvmev_proc_io kv_build proc (nows m) sqid ((old_db + m) mod sz) s1 = Some (None, s2))" "get_queue (io_sqs s1) sqid = Some sq'"
    by (elim exE conjE) (rule that)
  have "takes perf its (s, pc) (s', pc)" using takes_trans[OF r(3) mod_sq_run[OF l(2)]] by simp
  then show ?thesis using r l(3) mod_sq_queue[OF r(7) l(2)] by auto
qed

lemma nvmev_proc_io_reaches:
  assumes "nvmev_proc_io kv_build proc now sqid sq_entry s = Some (r, s')"
  shows "reaches perf (s, pc) (s', pc)"
proof -
  obtain sq where "get_queue (io_sqs s) sqid = Some sq"
    using assms by (cases "get_queue (io_sqs s) sqid") (auto simp: nvmev_proc_io_def)
  from nvmev_proc_io_run[OF assms this] show ?thesis using takes_reaches by blast
qed

lemma proc_sq_loop_reaches:
  "proc_sq_loop kv_build proc nows sqid n sq_entry seq s = Some (r, s') \<Longrightarrow> reaches perf (s, pc) (s', pc)"
proof (induction n arbitrary: sq_entry seq s)
  case (Suc n)
  let ?x = "nvmev_proc_io kv_build proc (nows seq) sqid sq_entry s"
  obtain t s1 where x: "?x = Some (t, s1)" using Suc.prems by (cases ?x) auto
  note r1 = nvmev_proc_io_reaches[OF x, of perf pc]
  show ?case
  proof (cases t)
    case None
    then show ?thesis using Suc.prems x r1 by simp
  next
    case (Some io_size)
    obtain f e s2 where m: "mod_sq s1 sqid f = Some s2" "proc_sq_loop kv_build proc nows sqid n e (seq + 1) s2 = Some (r, s')"
      using Suc.prems x Some by (auto elim!: bind_SomeE)
    note r1
    also note takes_reaches[OF mod_sq_run[OF m(1)]]
    also note Suc.IH[OF m(2)]
    finally show ?thesis .
  qed
qed simp

lemma nvmev_proc_io_sq_run:
  assumes "nvmev_proc_io_sq kv_build proc nows sqid new_db old_db s = Some (db, s')"
  shows "reaches perf (s, pc) (s', pc)"
proof -
  obtain q where q: "aget (io_sqs s) sqid = Some q" using assms by (cases "aget (io_sqs s) sqid") (auto simp: nvmev_proc_io_sq_def)
  show ?thesis
  proof (cases q)
    case None
    then show ?thesis using assms q by (simp add: nvmev_proc_io_sq_def)
  next
    case (Some sq)
    then obtain n seq s1 f where l: "proc_sq_loop kv_build proc nows sqid n old_db 0 s = Some (seq, s1)" "mod_sq s1 sqid f = Some s'"
      using assms q by (auto simp: nvmev_proc_io_sq_def Let_def elim!: bind_SomeE)
    note proc_sq_loop_reaches[OF l(1)]
    also note takes_reaches[OF mod_sq_run[OF l(2)]]
    finally show ?thesis .
  qed
qed

lemma nvmev_proc_io_cq_run: "nvmev_proc_io_cq cqid new_db old_db s = Some s' \<Longrightarrow> reaches perf (s, pc) (s', pc)"
  by (rule reaches_step, rule io_step.environment) (auto simp: nvmev_proc_io_cq_def Let_def split: bind_splits)

end
