(* ===== verification/Io_System.thy ===== *)
theory Io_System
  imports Io_Refine Io_Transfer
begin

unbundle bit_operations_syntax

text \<open>
  What the dispatcher and the workers promise together: every state they reach is consistent,
  every request taken is completed once, and a pass brings the requests whose time has come to the
  host, in the order of their times.
\<close>

subsection \<open>One queue among those a pass delivers to\<close>

definition for_queue :: "nat \<Rightarrow> io_item \<Rightarrow> bool" where
  "for_queue c it = (case it of Request _ cqid _ _ \<Rightarrow> cqid = c | Release _ _ \<Rightarrow> False)"

lemma for_queue_work: "for_queue c (item_of w) \<longleftrightarrow> \<not> is_internal w \<and> w_cqid w = c"
  by (simp add: for_queue_def item_of_def)

lemma deliver_queue:
  assumes "c < length cqs" "cqs ! c = Some cq" "cq_ok cq"
  shows "\<exists>cq'. post_all cq (filter (\<lambda>w. for_queue c (item_of w)) ws) = Some cq' \<and> foldl deliver cqs ws ! c = Some cq'"
  using assms
proof (induction ws arbitrary: cqs cq)
  case (Cons w ws)
  show ?case
  proof (cases "for_queue c (item_of w)")
    case True
    then have w: "\<not> is_internal w" "w_cqid w = c" by (simp_all add: for_queue_work)
    obtain cq1 where p: "post_completion cq w = Some cq1" using post_completion_ok[OF Cons.prems(3)] by simp
    have "cq_ok cq1" using p Cons.prems(3) unfolding post_completion_ok[OF Cons.prems(3)] by (auto simp: cq_ok_def)
    moreover have "deliver cqs w = cqs[c := Some cq1]" using w p Cons.prems(2) by (simp add: deliver_def)
    ultimately show ?thesis using Cons.IH[of "deliver cqs w" cq1] Cons.prems(1) p True by simp
  next
    case False
    then have "length (deliver cqs w) = length cqs" "deliver cqs w ! c = cqs ! c" by (auto simp: deliver_def for_queue_work nth_upd)
    then show ?thesis using Cons.IH[of "deliver cqs w" cq] Cons.prems False by simp
  qed
qed simp

text \<open>How a completion names its command.\<close>

definition item_name :: "io_item \<Rightarrow> u16 \<times> u16 \<times> u16" where
  "item_name it = (case it of Request sqid _ entry cid \<Rightarrow> (of_nat sqid, of_nat entry, ucast cid) | Release _ _ \<Rightarrow> (0, 0, 0))"

definition cqe_name :: "nvme_completion \<Rightarrow> u16 \<times> u16 \<times> u16" where
  "cqe_name e = (cqe_sq_id e, cqe_sq_head e, cqe_command_id e)"

lemma names_of:
  assumes "map cqe_info es = map work_info ws" "\<forall>w \<in> set ws. \<not> is_internal w"
  shows "map cqe_name es = map (item_name \<circ> item_of) ws"
  using assms
proof (induction ws arbitrary: es)
  case (Cons w ws)
  then show ?case by (auto simp: Cons_eq_map_conv cqe_info_def work_info_def cqe_name_def item_name_def item_of_def)
qed simp

subsection \<open>The claims\<close>

text \<open>C12. What the dispatcher does with a submission queue and a completion queue, and what a worker
  does in a round, are runs of the step relation: however they take turns, the device is in a
  state that the steps reach.\<close>

theorem io_code_is_run:
  assumes "nvmev_proc_io_sq kv_build proc nows sqid new_db old_db s = Some (db, s1)"
    and "nvmev_proc_io_cq cqid new_cq old_cq s1 = Some s2"
    and "io_worker_round perf clk lock nr_cq k s2 = Some (irqs, s3)" "pc k = Idle" "mono clk"
    and "latest_nsecs (io_workers (io_d s2) ! k) \<le> clk 0"
  shows "\<exists>tr. io_run perf (s, pc) tr (s3, pc)"
proof -
  have "reaches perf (s, pc) (s1, pc)" by (rule nvmev_proc_io_sq_run[OF assms(1)])
  also have "reaches perf (s1, pc) (s2, pc)" by (rule nvmev_proc_io_cq_run[OF assms(2)])
  also have "reaches perf (s2, pc) (s3, pc)" by (rule io_worker_round_run[where pc = pc, OF assms(3-6)])
  finally show ?thesis by (simp add: reaches_def)
qed

text \<open>C10. From the initialised workers on, in every state that the dispatcher and the workers reach:
  each entry of a worker is in exactly one of its two lists, the links agree in both directions,
  the requests that were not due when the worker last read the clock are in the order of their
  times, and a worker that is copying or completing a request holds one that is in its list and
  not yet completed.\<close>

theorem io_workers_consistent:
  assumes "io_d s0 = NVMEV_IO_WORKER_INIT nr" "0 < nr" "nr < 2 ^ 32" "io_run perf (s0, \<lambda>_. Idle) tr (s, pc)"
    and "k < length (io_workers (io_d s))" "wk = io_workers (io_d s) ! k"
  shows "worker_lists wk (free_entries wk) (io_requests wk) \<and>
    in_time_order (work_queue wk) (latest_nsecs wk) (io_requests wk) \<and>
    pc_ok (work_queue wk) (io_requests wk) (pc k)"
  using io_run_ok[OF assms(4) init_sys_ok(1)[OF assms(2,3,1)]] sys_invD(3)[of s pc k] assms(5,6)
  by (auto simp: worker_inv_def)

text \<open>C8. Every request that is taken is finished once: at any moment the requests taken are those
  finished and those still in the lists, counted with their multiplicity. So none is lost, none is
  completed twice, and nothing is completed that was not asked for.\<close>

theorem io_completes_once:
  assumes "io_d s0 = NVMEV_IO_WORKER_INIT nr" "0 < nr" "nr < 2 ^ 32" "io_run perf (s0, \<lambda>_. Idle) tr (s, pc)"
  shows "accepted tr = finished tr + all_pending s"
  using io_run_ok[OF assms(4) init_sys_ok(1)[OF assms(2,3,1)]] init_sys_ok(2)[OF assms(2,3,1)] by (simp add: add.commute)

text \<open>A read or write inside the namespace of one page of the host: it is performed whatever the memory holds.\<close>

lemma block_performs:
  assumes "mapped_right pv" "page_off (cmd_prp1 (sqe_rw e)) + io_cmd_size (sqe_rw e) \<le> PAGE_SIZE"
    and "aget ns (unat (cmd_nsid (sqe_rw e) - 1)) = Some base"
    and "base + unat (cmd_io_offset (sqe_rw e)) + io_cmd_size (sqe_rw e) \<le> sz"
  shows "performs (\<lambda>_. True) (block_perform False pv sz ns) e"
  using do_perform_io_ok[OF assms(1) prp_ok_page[OF assms(2)] assms(3,4)]
  by (auto simp: performs_def block_perform_def)

text \<open>C11. A pass of a worker ends. When all its requests are due, their queues exist, and the command of each one
  not yet copied can be performed on all data with an invariant \<open>J\<close> that it keeps, none is left open, and a host that
  polls a completion queue finds there the commands of this queue in the order of the worker's list, as long as they
  fit into the queue. For a block device the commands can be performed when they name an existing namespace, stay
  inside the storage and give the pages they need (\<open>block_performs\<close>); a command that does not (namespace 0, a list of
  addresses that is too short) is excluded by the hypothesis, not answered.\<close>

theorem io_pass_host_sees:
  assumes "worker_inv wk Idle" "k < length (io_workers (io_d s))" "wk = io_workers (io_d s) ! k"
    and "queues_ok s" "J (io_data s)"
    and "\<forall>i \<in> set (io_requests wk). \<not> is_completed (work_queue wk ! i) \<longrightarrow>
      served J perf s (work_queue wk ! i) \<and> (\<forall>m. w_nsecs_target (work_queue wk ! i) \<le> clk m)"
    and "c < length (io_cqs s)" "io_cqs s ! c = Some cq" "cq_clean cq"
    and "its = filter (for_queue c) (todo (work_queue wk) (io_requests wk))" "length its \<le> cq_queue_size cq"
  shows "\<exists>s' cq'. worker_pass perf clk 0 k (io_seq wk) s = Some s' \<and> pending (io_workers (io_d s') ! k) = {#} \<and>
    J (io_data s') \<and> io_cqs s' ! c = Some cq' \<and> cq_clean cq' \<and>
    map cqe_name (host_reads (cq_queue_size cq) cq' (cq_head cq) (cq_phase cq)) = map item_name its"
proof -
  have w: "worker_lists wk (free_entries wk) (io_requests wk)" using assms(1) by (simp add: worker_inv_def)
  have cur: "io_seq wk = first_of (io_requests wk) (- 1)" using linked_first[OF worker_listsD(8)[OF w]] .
  obtain s' wk' ws where p: "worker_pass perf clk 0 k (io_seq wk) s = Some s'" "io_workers (io_d s') = (io_workers (io_d s))[k := wk']"
    "worker_lists wk' (free_entries wk) (io_requests wk)" "\<forall>i \<in> set (io_requests wk). is_completed (work_queue wk' ! i)"
    "io_cqs s' = foldl deliver (io_cqs s) ws" "map item_of ws = todo (work_queue wk) (io_requests wk)" "J (io_data s')"
    using worker_pass_ok[of k s "free_entries wk" "[]" "io_requests wk" "io_seq wk" J perf clk 0] assms(2-6) w cur by auto
  have pd: "pending (io_workers (io_d s') ! k) = {#}" using p(2) assms(2) pending_pend[OF p(3)] pend_done[OF p(4)] by simp
  define vs where "vs = filter (\<lambda>w. for_queue c (item_of w)) ws"
  have its: "its = map item_of vs" unfolding assms(10) vs_def p(6)[symmetric] by (simp add: filter_map comp_def)
  have "cq_ok cq" using assms(9) by (simp add: cq_clean_def)
  from deliver_queue[OF assms(7,8) this, of ws] obtain cq' where q: "post_all cq vs = Some cq'" "io_cqs s' ! c = Some cq'"
    unfolding vs_def p(5) by blast
  have len: "length vs \<le> cq_queue_size cq" using assms(11) its by simp
  have "\<forall>w \<in> set vs. \<not> is_internal w" by (auto simp: vs_def for_queue_work)
  moreover have h: "cq_head cq < cq_queue_size cq" using assms(9) by (simp add: cq_clean_def cq_ok_def)
  obtain cq1 where "post_all cq vs = Some cq1" "posted (cq_queue_size cq) (cq_head cq) (cq_phase cq) vs cq1"
    using post_all_posted[OF assms(9) len] by blast
  then have "posted (cq_queue_size cq) (cq_head cq) (cq_phase cq) vs cq'" using q(1) by simp
  then have "cq_clean cq'" "map cqe_info (host_reads (cq_queue_size cq) cq' (cq_head cq) (cq_phase cq)) = map work_info vs"
    using host_reads_posted[of "cq_queue_size cq" "cq_head cq" "cq_phase cq" vs cq' 0] h len pos_0[OF h, of "cq_phase cq"]
    by (auto simp: posted_def)
  ultimately have "map cqe_name (host_reads (cq_queue_size cq) cq' (cq_head cq) (cq_phase cq)) = map item_name its"
    using names_of its by simp
  then show ?thesis using p(1,7) pd q(2) \<open>cq_clean cq'\<close> by blast
qed

subsection \<open>One command from the host and back\<close>

text \<open>One worker, one submission queue with the command 7 and a completion queue of two entries.\<close>

definition demo_entry :: nvme_sqe where
  "demo_entry = \<lparr>sqe_command_id = 7,
     sqe_rw = \<lparr>opcode = 2, slba = 0, rw_length = 0, rw_control = 0, dsm_nr = 0, dsm_attributes = 0, cmd_nsid = 1, cmd_prp1 = 0, cmd_prp2 = 0\<rparr>,
     sqe_kv = \<lparr>kv_opcode = 2, kv_prp1 = 0, kv_prp2 = 0, kv_value_len = 0, kv_key_len = 0, kv_option = 0, kv_rsvd4 = 0, kv_key = []\<rparr>\<rparr>"

definition demo_start :: "unit io_sys" where
  "demo_start = \<lparr>io_d = NVMEV_IO_WORKER_INIT 1,
     io_sqs = [None, Some \<lparr>sq_cqid = 1, sq_queue_size = 4, sq_ring = replicate 4 demo_entry, nr_dispatched = 0, nr_dispatch = 0,
       nr_in_flight = 0, max_nr_in_flight = 0, total_io = 0\<rparr>],
     io_cqs = [None, Some (empty_cq 2)], io_bufs = [], io_data = ()\<rparr>"

definition demo_proc :: "unit proc_io" where
  "demo_proc nsid e sqid now ret d = Some (True, ret\<lparr>nsecs_target := now + 10\<rparr>, [], d)"

definition demo_perform :: "unit perform" where "demo_perform e st d = Some (None, st, d)"

lemma demo_enqueued:
  "\<exists>wk n. enqueue_io_req (NVMEV_IO_WORKER_INIT 1) 1 1 0 7 100 110 st 0 = Some \<lparr>io_workers = [wk], io_worker_turn = n\<rparr> \<and>
     worker_lists wk [1..<N] [0] \<and> latest_nsecs wk = 0 \<and> \<not> is_completed (work_queue wk ! 0) \<and> w_nsecs_target (work_queue wk ! 0) = 110 \<and>
     item_of (work_queue wk ! 0) = Request 1 1 0 7 \<and> \<not> is_copied (work_queue wk ! 0)"
proof -
  have N2: "1 < N" by (simp add: NR_MAX_PARALLEL_IO_def)
  then have fs: "[0..<N] = 0 # [1..<N]" "[1..<N] = 1 # [Suc 1..<N]" using upt_conv_Cons[of 0 N] upt_conv_Cons[of 1 N] by simp_all
  let ?d = "NVMEV_IO_WORKER_INIT 1"
  let ?f = "io_req_work 1 1 0 7 100 110 st 0"
  have t: "get_io_worker ?d 1 = Some 0" "0 < length (io_workers ?d)" by (simp_all add: get_io_worker_def NVMEV_IO_WORKER_INIT_def)
  have wk: "io_workers ?d ! 0 = init_worker" "io_workers ?d = [init_worker]" by (simp_all add: NVMEV_IO_WORKER_INIT_def)
  have w: "worker_lists (io_workers ?d ! 0) (0 # [1..<N]) []" unfolding wk(1) fs(1)[symmetric] by (rule init_worker_ok(1))
  have f: "w_next (?f w) = - 1 \<and> w_prev (?f w) = - 1" for w by (simp add: io_req_work_def)
  have AB: "split_behind (work_queue (io_workers ?d ! 0)) (latest_nsecs (io_workers ?d ! 0)) 110 [] = ([], [])" by (simp add: split_behind_def)
  obtain wk' n where e: "enqueue_work ?d 1 ?f 110 = Some (?d\<lparr>io_workers := (io_workers ?d)[0 := wk'], io_worker_turn := n\<rparr>)"
    "worker_lists wk' [1..<N] [0]" "latest_nsecs wk' = latest_nsecs init_worker"
    "same_work ((work_queue init_worker)[0 := ?f (work_queue init_worker ! 0)]) (work_queue wk')"
    using enqueue_work_ok(2)[where f = ?f, OF t w f AB fs(2)] unfolding fs(2)[symmetric] wk(1) by auto
  have "0 < length ((work_queue init_worker)[0 := ?f (work_queue init_worker ! 0)])" using worker_listsD(1)[OF init_worker_ok(1)] N2 by simp
  note r = same_work_reads[OF e(4) this]
  have "0 < length (work_queue init_worker)" using worker_listsD(1)[OF init_worker_ok(1)] N2 by simp
  then have q: "(work_queue init_worker)[0 := ?f (work_queue init_worker ! 0)] ! 0 = ?f (work_queue init_worker ! 0)" by simp
  have d: "?d\<lparr>io_workers := (io_workers ?d)[0 := wk'], io_worker_turn := n\<rparr> = \<lparr>io_workers = [wk'], io_worker_turn = n\<rparr>"
    by (simp add: NVMEV_IO_WORKER_INIT_def)
  show ?thesis
    using e(1-3) r unfolding q d enqueue_io_req_def
    by (intro exI[of _ wk'] exI[of _ n]) (simp add: init_worker_ok(3), simp add: io_req_work_def item_of_def)
qed

text \<open>The dispatcher takes the command and finds nothing to reclaim.\<close>

lemma demo_reclaim:
  assumes "worker_lists wk [1..<N] [0]" "\<not> is_completed (work_queue wk ! 0)"
  shows "reclaim_completed_reqs \<lparr>io_workers = [wk], io_worker_turn = n\<rparr> = Some \<lparr>io_workers = [wk], io_worker_turn = n\<rparr>"
proof -
  have seq: "io_seq wk = 0" "0 < length (work_queue wk)"
    using worker_listsD(1,8)[OF assms(1)] by (simp_all add: NR_MAX_PARALLEL_IO_def)
  have "reclaim_worker wk = Some wk"
    using seq assms(2) by (simp add: reclaim_worker_def reclaim_last.simps[of _ _ _ 0] reclaimable_def)
  then show ?thesis by (simp add: reclaim_completed_reqs_def amod_def)
qed

lemma demo_taken:
  "\<exists>s wk sq. nvmev_proc_io_sq False demo_proc (\<lambda>_. 100) 1 1 0 demo_start = Some (1, s) \<and> io_workers (io_d s) = [wk] \<and>
     io_sqs s = [None, Some sq] \<and> length (sq_ring sq) = 4 \<and> io_cqs s = [None, Some (empty_cq 2)] \<and> io_bufs s = [] \<and>
     worker_lists wk [1..<N] [0] \<and> latest_nsecs wk = 0 \<and> \<not> is_completed (work_queue wk ! 0) \<and> w_nsecs_target (work_queue wk ! 0) = 110 \<and>
     item_of (work_queue wk ! 0) = Request 1 1 0 7"
proof -
  obtain wk n where e: "enqueue_io_req (NVMEV_IO_WORKER_INIT 1) 1 1 0 7 100 110 NVME_SC_SUCCESS 0 = Some \<lparr>io_workers = [wk], io_worker_turn = n\<rparr>"
    "worker_lists wk [1..<N] [0]" "latest_nsecs wk = 0" "\<not> is_completed (work_queue wk ! 0)" "w_nsecs_target (work_queue wk ! 0) = 110"
    "item_of (work_queue wk ! 0) = Request 1 1 0 7" using demo_enqueued by blast
  note r = demo_reclaim[OF e(2,4), of n]
  show ?thesis
    using e r by (simp add: nvmev_proc_io_sq_def demo_start_def nvmev_proc_io_def get_queue_def demo_proc_def demo_entry_def
        mod_sq_def amod_def Let_def)
qed

text \<open>The worker copies and completes it.\<close>

lemma demo_round:
  assumes "io_workers (io_d s) = [wk]" "io_sqs s = [None, Some sq]" "length (sq_ring sq) = 4" "io_cqs s = [None, Some (empty_cq 2)]"
    and "worker_lists wk [1..<N] [0]" "\<not> is_completed (work_queue wk ! 0)" "w_nsecs_target (work_queue wk ! 0) = 110"
    and "item_of (work_queue wk ! 0) = Request 1 1 0 7"
  shows "\<exists>irqs s'. io_worker_round demo_perform (\<lambda>_. 200) (\<lambda>_. True) 1 0 s = Some (irqs, s') \<and> all_pending s' = {#} \<and>
    length (io_workers (io_d s')) = 1"
proof -
  have w: "w_sqid (work_queue wk ! 0) = 1" "w_cqid (work_queue wk ! 0) = 1" "w_sq_entry (work_queue wk ! 0) = 0" "\<not> is_internal (work_queue wk ! 0)"
    using assms(8) by (auto simp: item_of_def split: if_splits)
  have cur: "io_seq wk = first_of [0] (- 1)" using worker_listsD(8)[OF assms(5)] by simp
  have sv: "served (\<lambda>_. True) demo_perform s (work_queue wk ! 0)"
    using w assms(2-4) by (auto simp: served_def performs_def demo_perform_def)
  have q: "queues_ok s" using assms(4) empty_cq_clean[of 2] by (auto simp: queues_ok_def cq_clean_def)
  obtain s1 wk1 where p: "worker_pass demo_perform (\<lambda>_. 200) 0 0 (io_seq wk) s = Some s1" "io_workers (io_d s1) = [wk1]"
    "worker_lists wk1 [1..<N] [0]" "is_completed (work_queue wk1 ! 0)" "same_shape s s1"
    using worker_pass_ok[of 0 s "[1..<N]" "[]" "[0]" "io_seq wk" "\<lambda>_. True" demo_perform "\<lambda>_. 200" 0] assms cur sv q
    by auto
  have "map (\<lambda>q. q = None) (io_cqs s1) = [True, False]" using p(5) assms(4) by (simp add: same_shape_def)
  then obtain cq where cq: "io_cqs s1 = [None, Some cq]" by (auto simp: map_eq_Cons_conv)
  have g: "get_io_worker (io_d s1) 1 = Some 0" using p(2) by (simp add: get_io_worker_def)
  obtain irqs s2 where sg: "worker_signal (\<lambda>_. True) 1 0 s1 = Some (irqs, s2)" using cq g
    by (cases "irq_enabled cq \<and> interrupt_ready cq") (auto simp: worker_signal_def)
  have "io_d s2 = io_d s1" by (rule worker_signal_io_d[OF sg])
  moreover have "pending wk1 = {#}" using pending_pend[OF p(3)] p(4) by simp
  ultimately have "all_pending s2 = {#}" "length (io_workers (io_d s2)) = 1" using p(2) by (simp_all add: all_pending_def)
  then show ?thesis using assms(1) p(1) sg by (simp add: io_worker_round_def)
qed

theorem io_code_is_run_witness:
  "\<exists>s1 s2 irqs s3 tr. nvmev_proc_io_sq False demo_proc (\<lambda>_. 100) 1 1 0 demo_start = Some (1, s1) \<and>
     nvmev_proc_io_cq 1 0 0 s1 = Some s2 \<and> io_worker_round demo_perform (\<lambda>_. 200) (\<lambda>_. True) 1 0 s2 = Some (irqs, s3) \<and>
     io_run demo_perform (demo_start, \<lambda>_. Idle) tr (s3, \<lambda>_. Idle)"
proof -
  obtain s1 wk sq where t: "nvmev_proc_io_sq False demo_proc (\<lambda>_. 100) 1 1 0 demo_start = Some (1, s1)" "io_workers (io_d s1) = [wk]"
    "io_sqs s1 = [None, Some sq]" "length (sq_ring sq) = 4" "io_cqs s1 = [None, Some (empty_cq 2)]" "worker_lists wk [1..<N] [0]"
    "latest_nsecs wk = 0" "\<not> is_completed (work_queue wk ! 0)" "w_nsecs_target (work_queue wk ! 0) = 110"
    "item_of (work_queue wk ! 0) = Request 1 1 0 7" using demo_taken by blast
  obtain s2 where c: "nvmev_proc_io_cq 1 0 0 s1 = Some s2" "io_d s2 = io_d s1" "io_sqs s2 = io_sqs s1" "io_cqs s2 = io_cqs s1"
    using t(3,5) by (simp add: nvmev_proc_io_cq_def get_queue_def proc_cq_loop.simps[of _ 0 0] empty_cq_def)
  have "io_workers (io_d s2) = [wk]" "io_sqs s2 = [None, Some sq]" "io_cqs s2 = [None, Some (empty_cq 2)]" using t c by simp_all
  from demo_round[OF this(1,2) t(4) this(3) t(6,8,9,10)]
  obtain irqs s3 where r: "io_worker_round demo_perform (\<lambda>_. 200) (\<lambda>_. True) 1 0 s2 = Some (irqs, s3)" by blast
  have "latest_nsecs (io_workers (io_d s2) ! 0) \<le> 200" using t(2,7) c(2) by simp
  with io_code_is_run[OF t(1) c(1) r, of "\<lambda>_. Idle"] obtain tr where "io_run demo_perform (demo_start, \<lambda>_. Idle) tr (s3, \<lambda>_. Idle)"
    by (auto simp: mono_def)
  then show ?thesis using t(1) c(1) r by blast
qed

text \<open>The same, step by step: the request taken, and then the worker.\<close>

lemma demo_step:
  "\<exists>s wk sq. io_step demo_perform (demo_start, \<lambda>_. Idle) [Accepted (Request 1 1 0 7)] (s, \<lambda>_. Idle) \<and> io_workers (io_d s) = [wk] \<and>
     io_sqs s = [None, Some sq] \<and> length (sq_ring sq) = 4 \<and> io_cqs s = [None, Some (empty_cq 2)] \<and> worker_inv wk Idle \<and>
     worker_lists wk [1..<N] [0] \<and> latest_nsecs wk = 0 \<and> \<not> is_completed (work_queue wk ! 0) \<and> w_nsecs_target (work_queue wk ! 0) = 110 \<and>
     item_of (work_queue wk ! 0) = Request 1 1 0 7"
proof -
  obtain wk n where e: "enqueue_io_req (NVMEV_IO_WORKER_INIT 1) 1 1 0 7 100 110 0 0 = Some \<lparr>io_workers = [wk], io_worker_turn = n\<rparr>"
    "worker_lists wk [1..<N] [0]" "latest_nsecs wk = 0" "\<not> is_completed (work_queue wk ! 0)" "w_nsecs_target (work_queue wk ! 0) = 110"
    "item_of (work_queue wk ! 0) = Request 1 1 0 7" using demo_enqueued by blast
  let ?s = "demo_start\<lparr>io_d := \<lparr>io_workers = [wk], io_worker_turn = n\<rparr>\<rparr>"
  have d: "io_d demo_start = NVMEV_IO_WORKER_INIT 1" by (simp add: demo_start_def)
  have v: "sys_inv (demo_start, \<lambda>_. Idle)" "all_pending demo_start = {#}" by (rule init_sys_ok[where nr = 1]; simp add: d)+
  obtain r d' where a: "allocate_work_queue_entry (io_d demo_start) 1 = Some (r, d')"
    using e(1) enqueue_work_alloc unfolding d enqueue_io_req_def by blast
  have en: "sys_inv (?s, \<lambda>_. Idle) \<and> all_pending ?s = all_pending demo_start + (if r = None then {#} else {#Request 1 1 0 7#})"
    using enqueue_sys[OF v(1) a e(1)[unfolded enqueue_io_req_def, folded d], of "Request 1 1 0 7"]
    by (simp add: io_req_work_def item_of_def)
  have one: "all_pending ?s = {#Request 1 1 0 7#}" using pending_pend[OF e(2)] e(4,6) by (simp add: all_pending_def)
  have inv: "sys_inv (?s, \<lambda>_. Idle)" using en by (rule conjunct1)
  have r: "r \<noteq> None"
  proof
    assume "r = None"
    with conjunct2[OF en] v(2) have "all_pending ?s = {#}" by (simp only: if_True add_0 simp_thms)
    then show False using one by simp
  qed
  have st: "io_step demo_perform (demo_start, \<lambda>_. Idle) (if r = None then [] else [Accepted (Request 1 1 0 7)]) (?s, \<lambda>_. Idle)"
    by (rule io_step.request[OF a e(1)[folded d]])
  have "worker_inv wk Idle" using sys_invD(3)[OF inv, of 0] by simp
  moreover have "io_step demo_perform (demo_start, \<lambda>_. Idle) [Accepted (Request 1 1 0 7)] (?s, \<lambda>_. Idle)" using st r by simp
  ultimately show ?thesis using e by (intro exI[of _ ?s] exI[of _ wk]) (simp add: demo_start_def)
qed

theorem io_workers_consistent_witness:
  "\<exists>tr s wk. io_run demo_perform (demo_start, \<lambda>_. Idle) tr (s, (\<lambda>_. Idle)(0 := At 0)) \<and> io_workers (io_d s) = [wk] \<and>
     worker_lists wk [1..<N] [0] \<and> in_time_order (work_queue wk) (latest_nsecs wk) [0] \<and> pc_ok (work_queue wk) [0] (At 0)"
proof -
  obtain s wk sq where s: "io_step demo_perform (demo_start, \<lambda>_. Idle) [Accepted (Request 1 1 0 7)] (s, \<lambda>_. Idle)" "io_workers (io_d s) = [wk]"
    "io_sqs s = [None, Some sq]" "length (sq_ring sq) = 4" "io_cqs s = [None, Some (empty_cq 2)]" "worker_inv wk Idle" "worker_lists wk [1..<N] [0]"
    "latest_nsecs wk = 0" "\<not> is_completed (work_queue wk ! 0)" "w_nsecs_target (work_queue wk ! 0) = 110"
    "item_of (work_queue wk ! 0) = Request 1 1 0 7" using demo_step by blast
  have seq: "io_seq wk = 0" using worker_listsD(8)[OF s(7)] by simp
  have "io_step demo_perform (s, \<lambda>_. Idle) [] (s, (\<lambda>_. Idle)(0 := At (unat (io_seq wk))))"
    by (rule io_step.fetch) (use s(2) seq in simp_all)
  from io_run_cons[OF s(1) io_run_step[OF this]]
  have r: "io_run demo_perform (demo_start, \<lambda>_. Idle) ([Accepted (Request 1 1 0 7)] @ []) (s, (\<lambda>_. Idle)(0 := At 0))" using seq by simp
  have d: "io_d demo_start = NVMEV_IO_WORKER_INIT 1" by (simp add: demo_start_def)
  have k: "0 < length (io_workers (io_d s))" "wk = io_workers (io_d s) ! 0" using s(2) by simp_all
  have "worker_lists wk [1..<N] [0] \<and> in_time_order (work_queue wk) (latest_nsecs wk) [0] \<and> pc_ok (work_queue wk) [0] (At 0)"
    using io_workers_consistent[OF d _ _ r k] unfolding worker_lists_det[OF s(7)] fun_upd_same by (rule meta_mp) simp_all
  then show ?thesis using r s(2) by blast
qed

theorem io_completes_once_witness:
  "\<exists>tr s. io_run demo_perform (demo_start, \<lambda>_. Idle) (Accepted (Request 1 1 0 7) # tr) (s, \<lambda>_. Idle) \<and> all_pending s = {#} \<and>
     accepted (Accepted (Request 1 1 0 7) # tr) = finished (Accepted (Request 1 1 0 7) # tr)"
proof -
  obtain s wk sq where s: "io_step demo_perform (demo_start, \<lambda>_. Idle) [Accepted (Request 1 1 0 7)] (s, \<lambda>_. Idle)" "io_workers (io_d s) = [wk]"
    "io_sqs s = [None, Some sq]" "length (sq_ring sq) = 4" "io_cqs s = [None, Some (empty_cq 2)]" "worker_inv wk Idle" "worker_lists wk [1..<N] [0]"
    "latest_nsecs wk = 0" "\<not> is_completed (work_queue wk ! 0)" "w_nsecs_target (work_queue wk ! 0) = 110"
    "item_of (work_queue wk ! 0) = Request 1 1 0 7" using demo_step by blast
  obtain irqs s' where r: "io_worker_round demo_perform (\<lambda>_. 200) (\<lambda>_. True) 1 0 s = Some (irqs, s')" "all_pending s' = {#}"
    using demo_round[OF s(2,3,4,5,7) s(9,10,11)] by blast
  have "reaches demo_perform (s, \<lambda>_. Idle) (s', \<lambda>_. Idle)"
    by (rule io_worker_round_run[OF r(1)]) (use s(2,8) in \<open>simp_all add: mono_def\<close>)
  then obtain tr where "io_run demo_perform (s, \<lambda>_. Idle) tr (s', \<lambda>_. Idle)" by (auto simp: reaches_def)
  from io_run_cons[OF s(1) this]
  have t: "io_run demo_perform (demo_start, \<lambda>_. Idle) (Accepted (Request 1 1 0 7) # tr) (s', \<lambda>_. Idle)" by simp
  have "io_d demo_start = NVMEV_IO_WORKER_INIT 1" by (simp add: demo_start_def)
  from io_completes_once[OF this _ _ t] r(2) t show ?thesis by auto
qed

text \<open>A read of one block by a block device, in the queue of a worker.\<close>

lemma demo_entry_performs: "performs (\<lambda>_. True) (block_perform False (\<lambda>_. True) 512 [0]) demo_entry"
  by (rule block_performs[where base = 0])
    (simp_all add: demo_entry_def mapped_right_def io_cmd_size_def cmd_io_offset_def page_off_def PAGE_SIZE_def aget_def)

theorem io_pass_host_sees_witness:
  "\<exists>s wk s' cq'. io_workers (io_d s) = [wk] \<and> worker_pass (block_perform False (\<lambda>_. True) 512 [0]) (\<lambda>_. 200) 0 0 (io_seq wk) s = Some s' \<and>
     pending (io_workers (io_d s') ! 0) = {#} \<and> io_cqs s' ! 1 = Some cq' \<and> map cqe_name (host_reads 2 cq' 0 True) = [(1, 0, 7)]"
proof -
  let ?perf = "block_perform False (\<lambda>_. True) 512 [0]"
  obtain s0 :: "unit io_sys" and wk sq where s: "io_workers (io_d s0) = [wk]" "worker_inv wk Idle" "worker_lists wk [1..<N] [0]"
    "\<not> is_completed (work_queue wk ! 0)" "w_nsecs_target (work_queue wk ! 0) = 110"
    "item_of (work_queue wk ! 0) = Request 1 1 0 7" "io_sqs s0 = [None, Some sq]" using demo_step by blast
  define s where "s = \<lparr>io_d = io_d s0, io_sqs = [None, Some (sq\<lparr>sq_ring := replicate 4 demo_entry\<rparr>)],
    io_cqs = [None, Some (empty_cq 2)], io_bufs = [], io_data = ((\<lambda>_. 5) :: nat \<Rightarrow> u8, (\<lambda>_. 7) :: host_mem)\<rparr>"
  have d: "io_workers (io_d s) = [wk]" "io_cqs s = [None, Some (empty_cq 2)]" using s(1) by (simp_all add: s_def)
  have w: "w_sqid (work_queue wk ! 0) = 1" "w_cqid (work_queue wk ! 0) = 1" "w_sq_entry (work_queue wk ! 0) = 0" "\<not> is_internal (work_queue wk ! 0)"
    using s(6) by (auto simp: item_of_def split: if_splits)
  have sv: "served (\<lambda>_. True) ?perf s (work_queue wk ! 0)" using w demo_entry_performs by (auto simp: served_def s_def)
  have q: "queues_ok s" using d empty_cq_clean[of 2] by (auto simp: queues_ok_def cq_clean_def)
  have req: "io_requests wk = [0]" by (rule worker_lists_det[OF s(3)])
  have cq: "cq_queue_size (empty_cq 2) = 2" "cq_head (empty_cq 2) = 0" "cq_phase (empty_cq 2)" by (simp_all add: empty_cq_def)
  have td: "filter (for_queue 1) (todo (work_queue wk) (io_requests wk)) = [Request 1 1 0 7]"
    using req s(4,6) by (simp add: todo_def for_queue_def)
  have "\<exists>s' cq'. worker_pass ?perf (\<lambda>_. 200) 0 0 (io_seq wk) s = Some s' \<and> pending (io_workers (io_d s') ! 0) = {#} \<and>
    True \<and> io_cqs s' ! 1 = Some cq' \<and> cq_clean cq' \<and>
    map cqe_name (host_reads (cq_queue_size (empty_cq 2)) cq' (cq_head (empty_cq 2)) (cq_phase (empty_cq 2))) = map item_name [Request 1 1 0 7]"
    by (rule io_pass_host_sees[where J = "\<lambda>_. True", OF s(2) _ _ q]) (use d s(4,5) req sv td cq empty_cq_clean[of 2] in simp_all)
  then obtain s' cq' where "worker_pass ?perf (\<lambda>_. 200) 0 0 (io_seq wk) s = Some s'" "pending (io_workers (io_d s') ! 0) = {#}"
    "io_cqs s' ! 1 = Some cq'" "map cqe_name (host_reads 2 cq' 0 True) = [(1, 0, 7)]" using cq by (auto simp: item_name_def)
  then show ?thesis using d(1) by (intro exI conjI)
qed

end
