(* ===== verification/Admin_Queue.thy ===== *)
theory Admin_Queue
  imports Io_System Zns_Manage
begin

unbundle bit_operations_syntax

text \<open>
  The device as a whole and its admin queue, \<^verbatim>\<open>nvmev.h\<close>, \<^verbatim>\<open>nvme.h\<close> and the first part of \<^verbatim>\<open>admin.c\<close>.
  The two rings of the admin queue are pages of the host's memory, and the commands in them are
  read byte by byte where the structures of \<^verbatim>\<open>nvme.h\<close> have their fields. The entries of an I/O
  queue are kept with the queue, as they are in the host's memory when it is created.
\<close>

subsection \<open>Fields in memory\<close>

definition host_read :: "nat \<Rightarrow> host_mem \<Rightarrow> nat \<Rightarrow> u64" where
  "host_read n m a = le_word (host_get m a n)"

definition cqe_bytes :: "nvme_completion \<Rightarrow> u8 list" where
  "cqe_bytes e = le_bytes 4 (ucast (cqe_result0 e)) @ le_bytes 4 (ucast (cqe_result1 e)) @ le_bytes 2 (ucast (cqe_sq_head e)) @
     le_bytes 2 (ucast (cqe_sq_id e)) @ le_bytes 2 (ucast (cqe_command_id e)) @ le_bytes 2 (ucast (cqe_status e))"

definition cqe_at :: "host_mem \<Rightarrow> nat \<Rightarrow> nvme_completion" where
  "cqe_at m a =
     \<lparr>cqe_result0 = ucast (host_read 4 m a), cqe_result1 = ucast (host_read 4 m (a + 4)), cqe_sq_head = ucast (host_read 2 m (a + 8)),
       cqe_sq_id = ucast (host_read 2 m (a + 10)), cqe_command_id = ucast (host_read 2 m (a + 12)), cqe_status = ucast (host_read 2 m (a + 14))\<rparr>"

text \<open>An entry of an I/O submission queue: a read or write, a deallocate and a key-value command.\<close>

definition io_cmd_at :: "host_mem \<Rightarrow> nat \<Rightarrow> nvme_io_cmd" where
  "io_cmd_at m a =
     \<lparr>opcode = unat (m a), slba = host_read 8 m (a + 40), rw_length = ucast (host_read 2 m (a + 48)),
       rw_control = ucast (host_read 2 m (a + 50)), dsm_nr = ucast (host_read 4 m (a + 40)),
       dsm_attributes = ucast (host_read 4 m (a + 44)), cmd_nsid = ucast (host_read 4 m (a + 4)),
       cmd_prp1 = host_read 8 m (a + 24), cmd_prp2 = host_read 8 m (a + 32)\<rparr>"

definition kv_cmd_at :: "host_mem \<Rightarrow> nat \<Rightarrow> nvme_kv_command" where
  "kv_cmd_at m a =
     \<lparr>kv_opcode = unat (m a), kv_prp1 = host_read 8 m (a + 24), kv_prp2 = host_read 8 m (a + 32),
       kv_value_len = ucast (host_read 4 m (a + 40)), kv_key_len = m (a + 44), kv_option = m (a + 45),
       kv_rsvd4 = m (a + 47), kv_key = host_get m (a + 48) 16\<rparr>"

definition sqe_at :: "host_mem \<Rightarrow> nat \<Rightarrow> nvme_sqe" where
  "sqe_at m a = \<lparr>sqe_command_id = ucast (host_read 2 m (a + 2)), sqe_rw = io_cmd_at m a, sqe_kv = kv_cmd_at m a\<rparr>"

subsection \<open>State\<close>

definition NR_MAX_IO_QUEUE :: nat where "NR_MAX_IO_QUEUE = 72"
definition NR_SQE_PER_PAGE :: nat where "NR_SQE_PER_PAGE = PAGE_SIZE div 64"
definition NR_CQE_PER_PAGE :: nat where "NR_CQE_PER_PAGE = PAGE_SIZE div 16"

text \<open>The rings: the addresses of their pages, null until the host has set them.\<close>

record admin_queue =
  aq_phase :: bool
  sq_depth :: nat
  cq_depth :: nat
  aq_cq_head :: nat
  nvme_sq :: "nat list option"
  nvme_cq :: "nat list option"

record ctrl_regs =
  reg_cap :: u64
  reg_vs :: u32
  reg_cc :: u32
  reg_csts :: u32
  reg_aqa :: u32
  reg_asq :: u64
  reg_acq :: u64

text \<open>A namespace as the admin commands see it; \<open>vns_zp\<close> counts for a zoned one only.\<close>

record vdev_ns =
  vns_type :: ssd_type
  vns_csi :: u32
  vns_size :: u64
  vns_zp :: znsparams

datatype irq = Msi nat | Intx

text \<open>The host's memory is the second part of what the I/O system works on; \<open>irqs\<close> are the interrupts raised.\<close>

record 's nvmev_dev =
  vd_io :: "('s \<times> host_mem) io_sys"
  admin_q :: "admin_queue option"
  bar :: ctrl_regs
  old_bar :: ctrl_regs
  dbs :: "u32 list"
  old_dbs :: "u32 list"
  vd_ns :: "vdev_ns list"
  nr_sq :: u32
  nr_cq :: u32
  mdts :: u32
  msix_enabled :: bool
  sts_is :: bool
  irqs :: "irq list"

definition dev_mem :: "'s nvmev_dev \<Rightarrow> host_mem" where "dev_mem d = snd (io_data (vd_io d))"

definition set_mem :: "'s nvmev_dev \<Rightarrow> host_mem \<Rightarrow> 's nvmev_dev" where
  "set_mem d m = d\<lparr>vd_io := (vd_io d)\<lparr>io_data := (fst (io_data (vd_io d)), m)\<rparr>\<rparr>"

subsection \<open>The rings\<close>

definition sq_entry :: "admin_queue \<Rightarrow> nat \<Rightarrow> nat option" where
  "sq_entry q eid = do { ps \<leftarrow> nvme_sq q; p \<leftarrow> aget ps (eid div NR_SQE_PER_PAGE); Some (p + 64 * (eid mod NR_SQE_PER_PAGE)) }"

definition cq_entry :: "admin_queue \<Rightarrow> nat \<Rightarrow> nat option" where
  "cq_entry q eid = do { ps \<leftarrow> nvme_cq q; p \<leftarrow> aget ps (eid div NR_CQE_PER_PAGE); Some (p + 16 * (eid mod NR_CQE_PER_PAGE)) }"

text \<open>The command in entry \<open>eid\<close>: its address.\<close>

definition admin_cmd :: "'s nvmev_dev \<Rightarrow> nat \<Rightarrow> nat option" where
  "admin_cmd d eid = do { q \<leftarrow> admin_q d; sq_entry q eid }"

definition make_cq_entry_results :: "nat \<Rightarrow> u32 \<Rightarrow> u32 \<Rightarrow> u32 \<Rightarrow> 's nvmev_dev \<Rightarrow> 's nvmev_dev option" where
  "make_cq_entry_results eid ret result0 result1 d = do {
     q \<leftarrow> admin_q d;
     c \<leftarrow> sq_entry q eid;
     a \<leftarrow> cq_entry q (aq_cq_head q);
     let e = \<lparr>cqe_result0 = result0, cqe_result1 = result1, cqe_sq_head = of_nat eid, cqe_sq_id = 0,
       cqe_command_id = ucast (host_read 2 (dev_mem d) (c + 2)), cqe_status = of_bool (aq_phase q) OR ucast (push_bit 1 ret)\<rparr>;
     let d = set_mem d (host_put (dev_mem d) a (cqe_bytes e));
     let head = aq_cq_head q + 1;
     Some (d\<lparr>admin_q := Some (if head = cq_depth q then q\<lparr>aq_cq_head := 0, aq_phase := \<not> aq_phase q\<rparr> else q\<lparr>aq_cq_head := head\<rparr>)\<rparr>)
   }"

definition make_cq_entry :: "nat \<Rightarrow> u32 \<Rightarrow> 's nvmev_dev \<Rightarrow> 's nvmev_dev option" where
  "make_cq_entry eid ret d = make_cq_entry_results eid ret 0 0 d"

definition nvmev_signal_irq :: "nat \<Rightarrow> 's nvmev_dev \<Rightarrow> 's nvmev_dev" where
  "nvmev_signal_irq msi d =
     (if msix_enabled d then d\<lparr>irqs := irqs d @ [Msi msi]\<rparr> else d\<lparr>sts_is := True, irqs := irqs d @ [Intx]\<rparr>)"

subsection \<open>Reading back what was written\<close>

lemma host_get_part:
  "j + k \<le> length bs \<Longrightarrow> host_get (host_put m a bs) (a + j) k = take k (drop j bs)"
  by (rule nth_equalityI) (auto simp: host_get_nth host_put_def)

lemma host_read_bytes: "host_read n (host_put m a (le_bytes n w)) a = take_bit (8 * n) w"
  using host_get_put[of m a "le_bytes n w"] by (simp add: host_read_def le_word_bytes)

lemma host_read_part:
  assumes "j + n \<le> length bs" "take n (drop j bs) = le_bytes n w"
  shows "host_read n (host_put m a bs) (a + j) = take_bit (8 * n) w"
  using assms by (simp add: host_read_def host_get_part le_word_bytes)

lemma host_read_apart: "a + n \<le> b \<or> b + length bs \<le> a \<Longrightarrow> host_read n (host_put m b bs) a = host_read n m a"
  by (simp add: host_read_def host_get_put_apart)

lemma ucast_take32: "ucast (take_bit 32 (ucast (x :: u32) :: u64)) = x"
  by (rule bit_word_eqI) (simp add: bit_simps)

lemma ucast_take16: "ucast (take_bit 16 (ucast (x :: u16) :: u64)) = x"
  by (rule bit_word_eqI) (simp add: bit_simps)

lemma length_cqe_bytes [simp]: "length (cqe_bytes e) = 16"
  by (simp add: cqe_bytes_def)

text \<open>A completion that was written is the one that is read.\<close>

lemma cqe_at_put: "cqe_at (host_put m a (cqe_bytes e)) a = e"
proof -
  have "host_read 4 (host_put m a (cqe_bytes e)) (a + 0) = take_bit (8 * 4) (ucast (cqe_result0 e))"
    by (rule host_read_part) (simp_all add: cqe_bytes_def)
  moreover have "host_read 4 (host_put m a (cqe_bytes e)) (a + 4) = take_bit (8 * 4) (ucast (cqe_result1 e))"
    by (rule host_read_part) (simp_all add: cqe_bytes_def)
  moreover have "host_read 2 (host_put m a (cqe_bytes e)) (a + 8) = take_bit (8 * 2) (ucast (cqe_sq_head e))"
    by (rule host_read_part) (simp_all add: cqe_bytes_def)
  moreover have "host_read 2 (host_put m a (cqe_bytes e)) (a + 10) = take_bit (8 * 2) (ucast (cqe_sq_id e))"
    by (rule host_read_part) (simp_all add: cqe_bytes_def)
  moreover have "host_read 2 (host_put m a (cqe_bytes e)) (a + 12) = take_bit (8 * 2) (ucast (cqe_command_id e))"
    by (rule host_read_part) (simp_all add: cqe_bytes_def)
  moreover have "host_read 2 (host_put m a (cqe_bytes e)) (a + 14) = take_bit (8 * 2) (ucast (cqe_status e))"
    by (rule host_read_part) (simp_all add: cqe_bytes_def)
  ultimately show ?thesis by (simp add: cqe_at_def ucast_take32 ucast_take16)
qed

lemma cqe_at_apart: "a + 16 \<le> b \<or> b + length bs \<le> a \<Longrightarrow> cqe_at (host_put m b bs) a = cqe_at m a"
  by (auto simp: cqe_at_def host_read_apart)

lemma set_mem_sel [simp]:
  "dev_mem (set_mem d m) = m" "admin_q (set_mem d m) = admin_q d" "io_d (vd_io (set_mem d m)) = io_d (vd_io d)"
  by (simp_all add: set_mem_def dev_mem_def)

end
