(* ===== verification/Admin_Commands.thy ===== *)
theory Admin_Commands
  imports Admin_Queue
begin

unbundle bit_operations_syntax

text \<open>
  The admin commands, \<^verbatim>\<open>admin.c\<close>: creation and deletion of I/O queues, log pages, identify and
  features, their dispatch, and the loop over the entries that the doorbell announces. The tables of
  queues have one place per queue number up to \<^verbatim>\<open>NR_MAX_IO_QUEUE\<close>; the code does not compare the
  number in a command with it, and an access outside a table is \<open>None\<close>.
\<close>

subsection \<open>Queues\<close>

definition NVME_QUEUE_PHYS_CONTIG :: u16 where "NVME_QUEUE_PHYS_CONTIG = 1"
definition NVME_CQ_IRQ_ENABLED :: u16 where "NVME_CQ_IRQ_ENABLED = 2"

definition set_db :: "nat \<Rightarrow> 's nvmev_dev \<Rightarrow> 's nvmev_dev option" where
  "set_db i d = do {
     db \<leftarrow> aset (dbs d) i 0;
     old \<leftarrow> aset (old_dbs d) i 0;
     Some (d\<lparr>dbs := db, old_dbs := old\<rparr>)
   }"

text \<open>
  The entries of the pages of a new queue. The pages are those of the kernel's map or a new mapping
  of the same addresses; both start at the address itself, so entry \<open>k\<close> is \<open>k\<close> entries behind it.
\<close>

definition ring_pages :: "nat \<Rightarrow> nat \<Rightarrow> nat" where
  "ring_pages qsize sz = (qsize * sz + PAGE_SIZE - 1) div PAGE_SIZE"

definition ring_entry :: "u64 \<Rightarrow> nat \<Rightarrow> nat \<Rightarrow> nat" where
  "ring_entry prp1 sz k = (let per = PAGE_SIZE div sz in
     (unat (PRP_PFN prp1) + k div per) * PAGE_SIZE + page_off prp1 + sz * (k mod per))"

definition ring_at :: "(host_mem \<Rightarrow> nat \<Rightarrow> 'e) \<Rightarrow> host_mem \<Rightarrow> u64 \<Rightarrow> nat \<Rightarrow> nat \<Rightarrow> 'e list" where
  "ring_at rd m prp1 sz qsize = map (\<lambda>k. rd m (ring_entry prp1 sz k)) [0..<ring_pages qsize sz * (PAGE_SIZE div sz)]"

definition new_cq :: "host_mem \<Rightarrow> nat \<Rightarrow> completion_queue" where
  "new_cq m c =
     (let flags = (ucast (host_read 2 m (c + 44)) :: u16); qsize = unat (host_read 2 m (c + 42)) + 1; irq = (flags AND NVME_CQ_IRQ_ENABLED \<noteq> 0) in
      \<lparr>cq_queue_size = qsize, cq_phase = True, cq_head = 0, cq_tail = - 1, interrupt_ready = False, irq_enabled = irq,
        irq_vector = (if irq then unat (host_read 2 m (c + 46)) else 0), cq_ring = ring_at cqe_at m (host_read 8 m (c + 24)) 16 qsize\<rparr>)"

definition nvmev_admin_create_cq :: "nat \<Rightarrow> 's nvmev_dev \<Rightarrow> 's nvmev_dev option" where
  "nvmev_admin_create_cq eid d = do {
     c \<leftarrow> admin_cmd d eid;
     let qid = unat (host_read 2 (dev_mem d) (c + 40));
     cqs \<leftarrow> aset (io_cqs (vd_io d)) qid (Some (new_cq (dev_mem d) c));
     d \<leftarrow> set_db (qid * 2 + 1) (d\<lparr>vd_io := (vd_io d)\<lparr>io_cqs := cqs\<rparr>\<rparr>);
     make_cq_entry eid NVME_SC_SUCCESS d
   }"

definition nvmev_admin_delete_cq :: "nat \<Rightarrow> 's nvmev_dev \<Rightarrow> 's nvmev_dev option" where
  "nvmev_admin_delete_cq eid d = do {
     c \<leftarrow> admin_cmd d eid;
     cqs \<leftarrow> aset (io_cqs (vd_io d)) (unat (host_read 2 (dev_mem d) (c + 40))) None;
     make_cq_entry eid NVME_SC_SUCCESS (d\<lparr>vd_io := (vd_io d)\<lparr>io_cqs := cqs\<rparr>\<rparr>)
   }"

definition new_sq :: "host_mem \<Rightarrow> nat \<Rightarrow> submission_queue" where
  "new_sq m c =
     (let qsize = unat (host_read 2 m (c + 42)) + 1 in
      \<lparr>sq_cqid = unat (host_read 2 m (c + 46)), sq_queue_size = qsize, sq_ring = ring_at sqe_at m (host_read 8 m (c + 24)) 64 qsize,
        nr_dispatched = 0, nr_dispatch = 0, nr_in_flight = 0, max_nr_in_flight = 0, total_io = 0\<rparr>)"

definition nvmev_admin_create_sq :: "nat \<Rightarrow> 's nvmev_dev \<Rightarrow> 's nvmev_dev option" where
  "nvmev_admin_create_sq eid d = do {
     c \<leftarrow> admin_cmd d eid;
     let qid = unat (host_read 2 (dev_mem d) (c + 40));
     sqs \<leftarrow> aset (io_sqs (vd_io d)) qid (Some (new_sq (dev_mem d) c));
     d \<leftarrow> set_db (qid * 2) (d\<lparr>vd_io := (vd_io d)\<lparr>io_sqs := sqs\<rparr>\<rparr>);
     make_cq_entry eid NVME_SC_SUCCESS d
   }"

definition nvmev_admin_delete_sq :: "nat \<Rightarrow> 's nvmev_dev \<Rightarrow> 's nvmev_dev option" where
  "nvmev_admin_delete_sq eid d = do {
     c \<leftarrow> admin_cmd d eid;
     sqs \<leftarrow> aset (io_sqs (vd_io d)) (unat (host_read 2 (dev_mem d) (c + 40))) None;
     make_cq_entry eid NVME_SC_SUCCESS (d\<lparr>vd_io := (vd_io d)\<lparr>io_sqs := sqs\<rparr>\<rparr>)
   }"

subsection \<open>Log pages\<close>

definition NVME_LOG_SMART :: u8 where "NVME_LOG_SMART = 0x02"
definition NVME_LOG_CMD_EFFECTS :: u8 where "NVME_LOG_CMD_EFFECTS = 0x05"

text \<open>The constants: the log of 512 bytes has a threshold at byte 4, the effects one word per opcode.\<close>

definition smart_log :: "u8 list" where "smart_log = (replicate 512 0)[4 := 20]"

definition effects_log :: "bool \<Rightarrow> u8 list" where
  "effects_log zns_build =
     (let acs = foldl (\<lambda>l op. l[4 * op := 1]) (replicate 1024 0) [0x02, 0x06, 0x09, 0x0a, 0x0c];
          iocs = (if zns_build then (replicate 1024 0)[4 * 0x7d := 1, 4 * 0x79 := 3, 4 * 0x7a := 1] else replicate 1024 0)
      in acs @ iocs @ replicate 2048 0)"

definition log_len :: "host_mem \<Rightarrow> nat \<Rightarrow> u32" where
  "log_len m c = push_bit 2 ((push_bit 16 (ucast (host_read 2 m (c + 44))) OR ucast (host_read 2 m (c + 42))) + 1)"

text \<open>The length is the command's: a longer one reads past the constant.\<close>

definition nvmev_admin_get_log_page :: "bool \<Rightarrow> nat \<Rightarrow> 's nvmev_dev \<Rightarrow> 's nvmev_dev option" where
  "nvmev_admin_get_log_page zns_build eid d = do {
     c \<leftarrow> admin_cmd d eid;
     let m = dev_mem d;
     let len = unat (log_len m c);
     let page = prp_addr_of (host_read 8 m (c + 24));
     let lid = m (c + 40);
     log \<leftarrow> (if lid = NVME_LOG_SMART then do { nv_assert (len \<le> length smart_log); Some (take len smart_log) }
       else if lid = NVME_LOG_CMD_EFFECTS then do { nv_assert (len \<le> length (effects_log zns_build)); Some (take len (effects_log zns_build)) }
       else Some (replicate len 0));
     make_cq_entry eid NVME_SC_SUCCESS (set_mem d (host_put m page log))
   }"

subsection \<open>Identify\<close>

definition NVME_LBAF_RP_BEST :: u8 where "NVME_LBAF_RP_BEST = 0"
definition NVME_LBAF_RP_GOOD :: u8 where "NVME_LBAF_RP_GOOD = 2"

definition put_lbaf :: "nat \<Rightarrow> nat \<Rightarrow> u64 \<Rightarrow> u8 \<Rightarrow> u8 \<Rightarrow> host_mem \<Rightarrow> host_mem" where
  "put_lbaf a i ms ds rp m = host_put m (a + 128 + 4 * i) (le_bytes 2 ms @ [ds, rp])"

definition put_lbafs :: "nat \<Rightarrow> host_mem \<Rightarrow> host_mem" where
  "put_lbafs a m =
     (let m = put_lbaf a 0 0 9 NVME_LBAF_RP_GOOD m;
          m = put_lbaf a 1 8 9 NVME_LBAF_RP_GOOD m;
          m = put_lbaf a 2 16 9 NVME_LBAF_RP_GOOD m;
          m = put_lbaf a 3 0 12 NVME_LBAF_RP_BEST m;
          m = put_lbaf a 4 8 12 NVME_LBAF_RP_BEST m;
          m = put_lbaf a 5 64 12 NVME_LBAF_RP_BEST m
      in put_lbaf a 6 128 12 NVME_LBAF_RP_BEST m)"

text \<open>The page as the command writes it; the size is shifted by the format that was just written.\<close>

definition put_id_ns :: "nat \<Rightarrow> u64 \<Rightarrow> nat \<Rightarrow> host_mem \<Rightarrow> host_mem" where
  "put_id_ns flbas sz a m =
     (let m = put_lbafs a (host_put m a (replicate PAGE_SIZE 0));
          m = host_put m (a + 26) [of_nat flbas];
          m = host_put m (a + 25) [6];
          m = host_put m (a + 29) [0];
          nsze = drop_bit (unat (m (a + 128 + 4 * unat (m (a + 26)) + 2))) sz;
          m = host_put m a (le_bytes 8 nsze);
          m = host_put m (a + 8) (host_get m a 8)
      in host_put m (a + 16) (host_get m a 8))"

text \<open>\<open>lba_bits\<close> is the build's \<^verbatim>\<open>LBA_BITS\<close>.\<close>

definition nvmev_admin_identify_namespace :: "nat \<Rightarrow> nat \<Rightarrow> 's nvmev_dev \<Rightarrow> 's nvmev_dev option" where
  "nvmev_admin_identify_namespace lba_bits eid d = do {
     c \<leftarrow> admin_cmd d eid;
     let m = dev_mem d;
     let nsid = unat (ucast (host_read 4 m (c + 4)) - 1 :: u32);
     flbas \<leftarrow> (if lba_bits = 9 then Some 0 else if lba_bits = 12 then Some 3 else None);
     ns \<leftarrow> aget (vd_ns d) nsid;
     make_cq_entry eid NVME_SC_SUCCESS (set_mem d (put_id_ns flbas (vns_size ns) (prp_addr_of (host_read 8 m (c + 24))) m))
   }"

text \<open>The numbers above the one in the command, which is read again in each turn.\<close>

definition nvmev_admin_identify_namespaces :: "nat \<Rightarrow> 's nvmev_dev \<Rightarrow> 's nvmev_dev option" where
  "nvmev_admin_identify_namespaces eid d = do {
     c \<leftarrow> admin_cmd d eid;
     let a = prp_addr_of (host_read 8 (dev_mem d) (c + 24));
     let m = host_put (dev_mem d) a (replicate (PAGE_SIZE * 2) 0);
     let (m, p) = foldl (\<lambda>(m, p) i. if i > unat (host_read 4 m (c + 4)) then (host_put m p (le_bytes 4 (of_nat i)), p + 4) else (m, p))
       (m, a) [1..<length (vd_ns d) + 1];
     make_cq_entry eid NVME_SC_SUCCESS (set_mem d m)
   }"

definition NVME_NIDT_CSI :: u8 where "NVME_NIDT_CSI = 4"

definition nvmev_admin_identify_namespace_desc :: "nat \<Rightarrow> 's nvmev_dev \<Rightarrow> 's nvmev_dev option" where
  "nvmev_admin_identify_namespace_desc eid d = do {
     c \<leftarrow> admin_cmd d eid;
     let m = dev_mem d;
     let nsid = unat (ucast (host_read 4 m (c + 4)) - 1 :: u32);
     let a = prp_addr_of (host_read 8 m (c + 24));
     let m = host_put m a (replicate 4096 0);
     ns \<leftarrow> aget (vd_ns d) nsid;
     let m = host_put m a [NVME_NIDT_CSI, 1];
     make_cq_entry eid NVME_SC_SUCCESS (set_mem d (host_put m (a + 4) [ucast (vns_csi ns)]))
   }"

text \<open>Sizes that do not fit into the 16 bits of their field are cut off.\<close>

definition nvmev_admin_identify_zns_namespace :: "nat \<Rightarrow> nat \<Rightarrow> 's nvmev_dev \<Rightarrow> 's nvmev_dev option" where
  "nvmev_admin_identify_zns_namespace lba_bits eid d = do {
     c \<leftarrow> admin_cmd d eid;
     let m = dev_mem d;
     let nsid = unat (ucast (host_read 4 m (c + 4)) - 1 :: u32);
     ns \<leftarrow> aget (vd_ns d) nsid;
     let z = vns_zp ns;
     if vns_type ns \<noteq> SSD_TYPE_ZNS then make_cq_entry eid NVME_SC_SUCCESS d
     else do {
       nv_assert (vns_csi ns = of_nat NVME_CSI_ZNS);
       let a = prp_addr_of (host_read 8 m (c + 24));
       let m = host_put m a (replicate 4096 0);
       let m = host_put m a (le_bytes 2 0);
       let m = host_put m (a + 2) (le_bytes 2 0);
       let m = host_put m (a + 4) (le_bytes 4 (ucast (nr_active_zones z - 1)));
       let m = host_put m (a + 8) (le_bytes 4 (ucast (nr_open_zones z - 1)));
       let m = (if nr_zrwa_zones z > 0 then
         (let m = host_put m (a + 2) (le_bytes 2 (host_read 2 m (a + 2) OR 2));
              m = host_put m (a + 44) (le_bytes 4 (ucast (nr_zrwa_zones z - 1)));
              m = host_put m (a + 48) (le_bytes 2 (ucast (zrwafg_size z)));
              m = host_put m (a + 50) (le_bytes 2 (ucast (zrwa_size z)));
              m = host_put m (a + 52) [0]
          in host_put m (a + 52) [m (a + 52) OR 1]) else m);
       let m = host_put m (a + 2816) (le_bytes 8 (ucast (drop_bit lba_bits (zone_size z))));
       let m = host_put m (a + 2824) [0];
       make_cq_entry eid NVME_SC_SUCCESS (set_mem d m)
     }
   }"

definition nvmev_admin_identify_zns_ctrl :: "nat \<Rightarrow> 's nvmev_dev \<Rightarrow> 's nvmev_dev option" where
  "nvmev_admin_identify_zns_ctrl eid d = do {
     c \<leftarrow> admin_cmd d eid;
     let a = prp_addr_of (host_read 8 (dev_mem d) (c + 24));
     make_cq_entry eid NVME_SC_SUCCESS (set_mem d (host_put (dev_mem d) a [0]))
   }"

definition nvmev_admin_identify_ctrl :: "nat \<Rightarrow> 's nvmev_dev \<Rightarrow> 's nvmev_dev option" where
  "nvmev_admin_identify_ctrl eid d = do {
     c \<leftarrow> admin_cmd d eid;
     let m = dev_mem d;
     let a = prp_addr_of (host_read 8 m (c + 24));
     let m = host_put m a (replicate 4096 0);
     let m = host_put m (a + 516) (le_bytes 4 (of_nat (length (vd_ns d))));
     let m = host_put m (a + 520) (le_bytes 2 0);
     let m = host_put m (a + 258) [3];
     let m = host_put m (a + 525) [0];
     let m = host_put m (a + 4) (map of_char ''CSL_Virt_SN_01'' @ [0]);
     let m = host_put m (a + 24) (map of_char ''CSL_Virt_MN_01'' @ [0]);
     let m = host_put m (a + 64) (map of_char ''CSL_002'' @ [0]);
     let m = host_put m (a + 77) [ucast (mdts d)];
     let m = host_put m (a + 512) [0x66];
     let m = host_put m (a + 513) [0x44];
     make_cq_entry eid NVME_SC_SUCCESS (set_mem d m)
   }"

definition NVME_SC_INVALID_OPCODE :: u32 where "NVME_SC_INVALID_OPCODE = 1"

definition nvmev_admin_identify :: "nat \<Rightarrow> nat \<Rightarrow> 's nvmev_dev \<Rightarrow> 's nvmev_dev option" where
  "nvmev_admin_identify lba_bits eid d = do {
     c \<leftarrow> admin_cmd d eid;
     let cns = (ucast (host_read 4 (dev_mem d) (c + 40)) :: u32);
     if cns = 0x00 then nvmev_admin_identify_namespace lba_bits eid d
     else if cns = 0x01 then nvmev_admin_identify_ctrl eid d
     else if cns = 0x02 then nvmev_admin_identify_namespaces eid d
     else if cns = 0x03 then nvmev_admin_identify_namespace_desc eid d
     else if cns = 0x05 then nvmev_admin_identify_zns_namespace lba_bits eid d
     else if cns = 0x06 then nvmev_admin_identify_zns_ctrl eid d
     else make_cq_entry eid NVME_SC_INVALID_OPCODE d
   }"

subsection \<open>Features\<close>

definition NVME_FEAT_NUM_QUEUES :: u32 where "NVME_FEAT_NUM_QUEUES = 0x07"

definition num_queues_result :: "'s nvmev_dev \<Rightarrow> u32" where
  "num_queues_result d = push_bit 16 (nr_cq d - 1) OR (nr_sq d - 1)"

text \<open>Of all the features only the number of queues is kept.\<close>

definition nvmev_admin_set_features :: "nat \<Rightarrow> 's nvmev_dev \<Rightarrow> 's nvmev_dev option" where
  "nvmev_admin_set_features eid d = do {
     c \<leftarrow> admin_cmd d eid;
     if ucast (host_read 4 (dev_mem d) (c + 40)) = NVME_FEAT_NUM_QUEUES then do {
       let dword11 = (ucast (host_read 4 (dev_mem d) (c + 44)) :: u32);
       let d = d\<lparr>nr_sq := of_nat (min (unat (dword11 AND 0xFFFF) + 1) NR_MAX_IO_QUEUE)\<rparr>;
       let d = d\<lparr>nr_cq := of_nat (min (unat (drop_bit 16 dword11 AND 0xFFFF) + 1) NR_MAX_IO_QUEUE)\<rparr>;
       make_cq_entry_results eid NVME_SC_SUCCESS (num_queues_result d) 0 d
     } else make_cq_entry_results eid NVME_SC_SUCCESS 0 0 d
   }"

definition nvmev_admin_get_features :: "nat \<Rightarrow> 's nvmev_dev \<Rightarrow> 's nvmev_dev option" where
  "nvmev_admin_get_features eid d = do {
     c \<leftarrow> admin_cmd d eid;
     make_cq_entry_results eid NVME_SC_SUCCESS
       (if ucast (host_read 4 (dev_mem d) (c + 40)) = NVME_FEAT_NUM_QUEUES then num_queues_result d else 0) 0 d
   }"

definition nvmev_admin_async_event :: "nat \<Rightarrow> 's nvmev_dev \<Rightarrow> 's nvmev_dev option" where
  "nvmev_admin_async_event eid d = make_cq_entry eid NVME_SC_SUCCESS d"

subsection \<open>Dispatch\<close>

text \<open>What the build fixes: \<^verbatim>\<open>LBA_BITS\<close>, and whether a namespace is zoned.\<close>

record vdev_build =
  bld_lba_bits :: nat
  bld_zns :: bool

text \<open>An abort is taken and not completed.\<close>

definition nvmev_proc_admin_req :: "vdev_build \<Rightarrow> nat \<Rightarrow> 's nvmev_dev \<Rightarrow> 's nvmev_dev option" where
  "nvmev_proc_admin_req b eid d = do {
     c \<leftarrow> admin_cmd d eid;
     let opc = dev_mem d c;
     if opc = 0x00 then nvmev_admin_delete_sq eid d
     else if opc = 0x01 then nvmev_admin_create_sq eid d
     else if opc = 0x02 then nvmev_admin_get_log_page (bld_zns b) eid d
     else if opc = 0x04 then nvmev_admin_delete_cq eid d
     else if opc = 0x05 then nvmev_admin_create_cq eid d
     else if opc = 0x06 then nvmev_admin_identify (bld_lba_bits b) eid d
     else if opc = 0x08 then Some d
     else if opc = 0x09 then nvmev_admin_set_features eid d
     else if opc = 0x0a then nvmev_admin_get_features eid d
     else if opc = 0x0c then nvmev_admin_async_event eid d
     else make_cq_entry eid NVME_SC_INVALID_OPCODE d
   }"

text \<open>\<open>n\<close> entries from \<open>cur\<close> on; the depth is that of the queue, which no command changes.\<close>

fun admin_sq_loop :: "vdev_build \<Rightarrow> nat \<Rightarrow> nat \<Rightarrow> 's nvmev_dev \<Rightarrow> 's nvmev_dev option" where
  "admin_sq_loop b 0 cur d = Some d"
| "admin_sq_loop b (Suc n) cur d = do {
     d \<leftarrow> nvmev_proc_admin_req b cur d;
     q \<leftarrow> admin_q d;
     admin_sq_loop b n (if cur + 1 = sq_depth q then 0 else cur + 1) d
   }"

definition nvmev_proc_admin_sq :: "vdev_build \<Rightarrow> int \<Rightarrow> int \<Rightarrow> 's nvmev_dev \<Rightarrow> 's nvmev_dev option" where
  "nvmev_proc_admin_sq b new_db old_db d = do {
     let n = new_db - old_db;
     n \<leftarrow> (if n < 0 then do { q \<leftarrow> admin_q d; Some (n + int (sq_depth q)) } else Some n);
     nv_assert (n \<le> 0 \<or> 0 \<le> old_db);
     d \<leftarrow> admin_sq_loop b (nat n) (nat old_db) d;
     Some (nvmev_signal_irq 0 d)
   }"

end
