(* ===== verification/Admin_Effects.thy ===== *)
theory Admin_Effects
  imports Admin_Commands
begin

unbundle bit_operations_syntax

text \<open>
  What an admin command does besides its completion. A command that the device can carry out, which
  is what \<open>valid_cmd\<close> says of its fields, runs to its end, writes to the memory its PRP entry
  names, and answers the status that \<open>admin_status\<close> says.
\<close>

subsection \<open>Fields\<close>

definition cmd_nsid_of :: "host_mem \<Rightarrow> nat \<Rightarrow> nat" where "cmd_nsid_of m c = unat (ucast (host_read 4 m (c + 4)) - 1 :: u32)"
definition cmd_cns :: "host_mem \<Rightarrow> nat \<Rightarrow> u32" where "cmd_cns m c = ucast (host_read 4 m (c + 40))"
definition cmd_qid :: "host_mem \<Rightarrow> nat \<Rightarrow> nat" where "cmd_qid m c = unat (host_read 2 m (c + 40))"
definition cmd_buf :: "host_mem \<Rightarrow> nat \<Rightarrow> nat" where "cmd_buf m c = prp_addr_of (host_read 8 m (c + 24))"
definition cmd_id :: "host_mem \<Rightarrow> nat \<Rightarrow> u16" where "cmd_id m c = ucast (host_read 2 m (c + 2))"

text \<open>The bytes that the command may write from its address on.\<close>

definition cmd_buf_len :: "host_mem \<Rightarrow> nat \<Rightarrow> nat" where
  "cmd_buf_len m c = (if m c = 0x02 then unat (log_len m c) else if m c = 0x06 then 2 * PAGE_SIZE else 0)"

definition valid_identify :: "nat \<Rightarrow> vdev_ns list \<Rightarrow> host_mem \<Rightarrow> nat \<Rightarrow> bool" where
  "valid_identify lba_bits nss m c \<longleftrightarrow>
     (cmd_cns m c = 0 \<longrightarrow> lba_bits = 9 \<or> lba_bits = 12) \<and>
     (cmd_cns m c = 0 \<or> cmd_cns m c = 3 \<or> cmd_cns m c = 5 \<longrightarrow> cmd_nsid_of m c < length nss) \<and>
     (cmd_cns m c = 5 \<longrightarrow> vns_type (nss ! cmd_nsid_of m c) = SSD_TYPE_ZNS \<longrightarrow> vns_csi (nss ! cmd_nsid_of m c) = of_nat NVME_CSI_ZNS)"

definition valid_log :: "host_mem \<Rightarrow> nat \<Rightarrow> bool" where
  "valid_log m c \<longleftrightarrow> (m (c + 40) = NVME_LOG_SMART \<longrightarrow> log_len m c \<le> 512) \<and> (m (c + 40) = NVME_LOG_CMD_EFFECTS \<longrightarrow> log_len m c \<le> 4096)"

definition valid_cmd :: "vdev_build \<Rightarrow> vdev_ns list \<Rightarrow> host_mem \<Rightarrow> nat \<Rightarrow> bool" where
  "valid_cmd b nss m c \<longleftrightarrow>
     (m c \<in> {0x00, 0x01, 0x04, 0x05} \<longrightarrow> cmd_qid m c \<le> NR_MAX_IO_QUEUE) \<and>
     (m c = 0x02 \<longrightarrow> valid_log m c) \<and>
     (m c = 0x06 \<longrightarrow> valid_identify (bld_lba_bits b) nss m c)"

definition admin_status :: "host_mem \<Rightarrow> nat \<Rightarrow> u32" where
  "admin_status m c =
     (if m c \<in> {0x00, 0x01, 0x02, 0x04, 0x05, 0x09, 0x0a, 0x0c} \<or> m c = 0x06 \<and> cmd_cns m c \<in> {0, 1, 2, 3, 5, 6}
      then NVME_SC_SUCCESS else NVME_SC_INVALID_OPCODE)"

subsection \<open>What stays\<close>

definition same_outside :: "nat \<Rightarrow> nat \<Rightarrow> host_mem \<Rightarrow> host_mem \<Rightarrow> bool" where
  "same_outside a n m m' \<longleftrightarrow> (\<forall>i. i < a \<or> a + n \<le> i \<longrightarrow> m' i = m i)"

lemma same_outside_refl [simp]: "same_outside a n m m"
  by (simp add: same_outside_def)

lemma same_outside_put:
  "same_outside a n m m' \<Longrightarrow> a \<le> p \<Longrightarrow> p + length bs \<le> a + n \<Longrightarrow> same_outside a n m (host_put m' p bs)"
  by (auto simp: same_outside_def host_put_def)

lemma same_outside_get: "same_outside a n m m' \<Longrightarrow> p + k \<le> a \<or> a + n \<le> p \<Longrightarrow> host_get m' p k = host_get m p k"
  by (rule nth_equalityI) (auto simp: host_get_nth same_outside_def)

lemma same_outside_read: "same_outside a n m m' \<Longrightarrow> p + k \<le> a \<or> a + n \<le> p \<Longrightarrow> host_read k m' p = host_read k m p"
  by (simp add: host_read_def same_outside_get)

text \<open>The tables keep their sizes, and of the rest a command changes the number of queues and the doorbells.\<close>

definition same_dev :: "'s nvmev_dev \<Rightarrow> 's nvmev_dev \<Rightarrow> bool" where
  "same_dev d d' \<longleftrightarrow> admin_q d' = admin_q d \<and> bar d' = bar d \<and> old_bar d' = old_bar d \<and> vd_ns d' = vd_ns d \<and>
     io_d (vd_io d') = io_d (vd_io d) \<and> io_bufs (vd_io d') = io_bufs (vd_io d) \<and> fst (io_data (vd_io d')) = fst (io_data (vd_io d)) \<and>
     length (io_sqs (vd_io d')) = length (io_sqs (vd_io d)) \<and> length (io_cqs (vd_io d')) = length (io_cqs (vd_io d)) \<and>
     length (dbs d') = length (dbs d) \<and> length (old_dbs d') = length (old_dbs d) \<and> irqs d' = irqs d \<and> msix_enabled d' = msix_enabled d"

definition tables_ok :: "'s nvmev_dev \<Rightarrow> bool" where
  "tables_ok d \<longleftrightarrow> length (io_sqs (vd_io d)) = NR_MAX_IO_QUEUE + 1 \<and> length (io_cqs (vd_io d)) = NR_MAX_IO_QUEUE + 1 \<and>
     length (dbs d) = 1024 \<and> length (old_dbs d) = 1024"

text \<open>The command \<open>c\<close> of \<open>d\<close> ends with a completion, posted in \<open>d1\<close>.\<close>

definition completes :: "'s nvmev_dev \<Rightarrow> nat \<Rightarrow> nat \<Rightarrow> u32 \<Rightarrow> 's nvmev_dev option \<Rightarrow> bool" where
  "completes d c eid st r \<longleftrightarrow> (\<exists>d1 r0 r1. r = make_cq_entry_results eid st r0 r1 d1 \<and> same_dev d d1 \<and>
     same_outside (cmd_buf (dev_mem d) c) (cmd_buf_len (dev_mem d) c) (dev_mem d) (dev_mem d1))"

lemma completesI:
  "r = make_cq_entry_results eid st r0 r1 d1 \<Longrightarrow> same_dev d d1 \<Longrightarrow>
    same_outside (cmd_buf (dev_mem d) c) (cmd_buf_len (dev_mem d) c) (dev_mem d) (dev_mem d1) \<Longrightarrow> completes d c eid st r"
  by (auto simp: completes_def)

lemma same_dev_simps [simp]:
  "same_dev d d" "same_dev d (set_mem d m)" "same_dev d (d\<lparr>nr_sq := x\<rparr>)" "same_dev d (d\<lparr>nr_sq := x, nr_cq := y\<rparr>)"
  by (simp_all add: same_dev_def set_mem_def)

lemma completes_here: "completes d c eid st (make_cq_entry_results eid st r0 r1 d)"
  by (rule completesI[OF refl]) simp_all

lemma completes_write:
  assumes "r = make_cq_entry eid st (set_mem d m)"
    and "same_outside (cmd_buf (dev_mem d) c) (cmd_buf_len (dev_mem d) c) (dev_mem d) m"
  shows "completes d c eid st r"
  by (rule completesI[of r eid st 0 0 "set_mem d m"]) (use assms in \<open>simp_all add: make_cq_entry_def\<close>)

subsection \<open>Queues\<close>

lemma set_db_ok:
  assumes "length (dbs d) = 1024" "length (old_dbs d) = 1024" "i < 1024"
  shows "set_db i d = Some (d\<lparr>dbs := (dbs d)[i := 0], old_dbs := (old_dbs d)[i := 0]\<rparr>)"
  using assms by (simp add: set_db_def)

lemma create_cq_completes:
  assumes "admin_cmd d eid = Some c" "tables_ok d" "cmd_qid (dev_mem d) c \<le> NR_MAX_IO_QUEUE"
  shows "completes d c eid NVME_SC_SUCCESS (nvmev_admin_create_cq eid d)"
proof -
  let ?q = "cmd_qid (dev_mem d) c" and ?cqs = "(io_cqs (vd_io d))[cmd_qid (dev_mem d) c := Some (new_cq (dev_mem d) c)]"
  let ?d = "d\<lparr>vd_io := (vd_io d)\<lparr>io_cqs := ?cqs\<rparr>\<rparr>"
  let ?d1 = "?d\<lparr>dbs := (dbs d)[?q * 2 + 1 := 0], old_dbs := (old_dbs d)[?q * 2 + 1 := 0]\<rparr>"
  have q: "?q < length (io_cqs (vd_io d))" "?q * 2 + 1 < 1024" using assms by (auto simp: tables_ok_def NR_MAX_IO_QUEUE_def)
  have s: "set_db (?q * 2 + 1) ?d = Some ?d1"
    using set_db_ok[of ?d "?q * 2 + 1"] assms(2) q(2) by (simp add: tables_ok_def)
  have "nvmev_admin_create_cq eid d = make_cq_entry_results eid NVME_SC_SUCCESS 0 0 ?d1"
    using assms(1) q(1) s by (simp add: nvmev_admin_create_cq_def cmd_qid_def Let_def make_cq_entry_def)
  then show ?thesis by (rule completesI) (simp_all add: same_dev_def dev_mem_def)
qed

lemma create_sq_completes:
  assumes "admin_cmd d eid = Some c" "tables_ok d" "cmd_qid (dev_mem d) c \<le> NR_MAX_IO_QUEUE"
  shows "completes d c eid NVME_SC_SUCCESS (nvmev_admin_create_sq eid d)"
proof -
  let ?q = "cmd_qid (dev_mem d) c" and ?sqs = "(io_sqs (vd_io d))[cmd_qid (dev_mem d) c := Some (new_sq (dev_mem d) c)]"
  let ?d = "d\<lparr>vd_io := (vd_io d)\<lparr>io_sqs := ?sqs\<rparr>\<rparr>"
  let ?d1 = "?d\<lparr>dbs := (dbs d)[?q * 2 := 0], old_dbs := (old_dbs d)[?q * 2 := 0]\<rparr>"
  have q: "?q < length (io_sqs (vd_io d))" "?q * 2 < 1024" using assms by (auto simp: tables_ok_def NR_MAX_IO_QUEUE_def)
  have s: "set_db (?q * 2) ?d = Some ?d1"
    using set_db_ok[of ?d "?q * 2"] assms(2) q(2) by (simp add: tables_ok_def)
  have "nvmev_admin_create_sq eid d = make_cq_entry_results eid NVME_SC_SUCCESS 0 0 ?d1"
    using assms(1) q(1) s by (simp add: nvmev_admin_create_sq_def cmd_qid_def Let_def make_cq_entry_def)
  then show ?thesis by (rule completesI) (simp_all add: same_dev_def dev_mem_def)
qed

lemma delete_cq_completes:
  assumes "admin_cmd d eid = Some c" "tables_ok d" "cmd_qid (dev_mem d) c \<le> NR_MAX_IO_QUEUE"
  shows "completes d c eid NVME_SC_SUCCESS (nvmev_admin_delete_cq eid d)"
  by (rule completesI[of _ eid NVME_SC_SUCCESS 0 0 "d\<lparr>vd_io := (vd_io d)\<lparr>io_cqs := (io_cqs (vd_io d))[cmd_qid (dev_mem d) c := None]\<rparr>\<rparr>"])
    (use assms in \<open>simp_all add: nvmev_admin_delete_cq_def cmd_qid_def make_cq_entry_def same_dev_def dev_mem_def tables_ok_def\<close>)

lemma delete_sq_completes:
  assumes "admin_cmd d eid = Some c" "tables_ok d" "cmd_qid (dev_mem d) c \<le> NR_MAX_IO_QUEUE"
  shows "completes d c eid NVME_SC_SUCCESS (nvmev_admin_delete_sq eid d)"
  by (rule completesI[of _ eid NVME_SC_SUCCESS 0 0 "d\<lparr>vd_io := (vd_io d)\<lparr>io_sqs := (io_sqs (vd_io d))[cmd_qid (dev_mem d) c := None]\<rparr>\<rparr>"])
    (use assms in \<open>simp_all add: nvmev_admin_delete_sq_def cmd_qid_def make_cq_entry_def same_dev_def dev_mem_def tables_ok_def\<close>)

subsection \<open>Log pages, features\<close>

lemma length_effects_log: "length (effects_log z) = 4096"
  by (simp add: effects_log_def Let_def)

lemma get_log_page_completes:
  assumes "admin_cmd d eid = Some c" "dev_mem d c = 0x02" "valid_log (dev_mem d) c"
  shows "completes d c eid NVME_SC_SUCCESS (nvmev_admin_get_log_page z eid d)"
proof -
  let ?m = "dev_mem d"
  have l: "?m (c + 40) = NVME_LOG_SMART \<Longrightarrow> unat (log_len ?m c) \<le> 512"
    "?m (c + 40) = NVME_LOG_CMD_EFFECTS \<Longrightarrow> unat (log_len ?m c) \<le> 4096"
    using assms(3) by (auto simp: valid_log_def word_le_nat_alt)
  obtain log where log: "length log = unat (log_len ?m c)"
    "nvmev_admin_get_log_page z eid d = make_cq_entry eid NVME_SC_SUCCESS (set_mem d (host_put ?m (cmd_buf ?m c) log))"
  proof (cases "?m (c + 40) = NVME_LOG_SMART")
    case True
    then show ?thesis
      by (intro that[of "take (unat (log_len ?m c)) smart_log"])
        (use assms(1) l in \<open>simp_all add: nvmev_admin_get_log_page_def smart_log_def cmd_buf_def Let_def\<close>)
  next
    case F: False
    show ?thesis
    proof (cases "?m (c + 40) = NVME_LOG_CMD_EFFECTS")
      case True
      then show ?thesis
        by (intro that[of "take (unat (log_len ?m c)) (effects_log z)"])
          (use assms(1) l F in \<open>simp_all add: nvmev_admin_get_log_page_def length_effects_log cmd_buf_def Let_def\<close>)
    next
      case False
      then show ?thesis
        by (intro that[of "replicate (unat (log_len ?m c)) 0"])
          (use assms(1) F in \<open>simp_all add: nvmev_admin_get_log_page_def cmd_buf_def Let_def\<close>)
    qed
  qed
  show ?thesis
    by (rule completes_write[OF log(2)], rule same_outside_put) (use log(1) assms(2) in \<open>simp_all add: cmd_buf_len_def\<close>)
qed

lemma set_features_completes:
  assumes "admin_cmd d eid = Some c"
  shows "completes d c eid NVME_SC_SUCCESS (nvmev_admin_set_features eid d)"
proof (cases "ucast (host_read 4 (dev_mem d) (c + 40)) = NVME_FEAT_NUM_QUEUES")
  case True
  obtain x y where "nvmev_admin_set_features eid d =
      make_cq_entry_results eid NVME_SC_SUCCESS (num_queues_result (d\<lparr>nr_sq := x, nr_cq := y\<rparr>)) 0 (d\<lparr>nr_sq := x, nr_cq := y\<rparr>)"
    using assms True by (simp add: nvmev_admin_set_features_def Let_def)
  then show ?thesis by (rule completesI) (simp_all add: dev_mem_def)
next
  case False
  then show ?thesis using assms by (simp add: nvmev_admin_set_features_def completes_here)
qed

lemma get_features_completes:
  "admin_cmd d eid = Some c \<Longrightarrow> completes d c eid NVME_SC_SUCCESS (nvmev_admin_get_features eid d)"
  by (simp add: nvmev_admin_get_features_def completes_here)

lemma no_data_completes: "completes d c eid st (make_cq_entry eid st d)"
  by (simp add: make_cq_entry_def completes_here)

subsection \<open>Identify\<close>

text \<open>All that identify writes lies in the two pages from the address of the command on.\<close>

lemma put_lbafs_outside: "same_outside a (2 * PAGE_SIZE) m m' \<Longrightarrow> same_outside a (2 * PAGE_SIZE) m (put_lbafs a m')"
  unfolding put_lbafs_def put_lbaf_def Let_def by (intro same_outside_put) (simp_all add: PAGE_SIZE_def)

lemma put_id_ns_outside: "same_outside a (2 * PAGE_SIZE) m (put_id_ns fl sz a m)"
  unfolding put_id_ns_def Let_def
  by (intro same_outside_put put_lbafs_outside same_outside_refl) (simp_all add: PAGE_SIZE_def)

lemma identify_namespace_page:
  assumes "admin_cmd d eid = Some c" "lb = 9 \<or> lb = 12" "cmd_nsid_of (dev_mem d) c < length (vd_ns d)"
  shows "nvmev_admin_identify_namespace lb eid d = make_cq_entry eid NVME_SC_SUCCESS (set_mem d
    (put_id_ns (if lb = 9 then 0 else 3) (vns_size (vd_ns d ! cmd_nsid_of (dev_mem d) c)) (cmd_buf (dev_mem d) c) (dev_mem d)))"
  using assms unfolding nvmev_admin_identify_namespace_def Let_def cmd_buf_def[symmetric] cmd_nsid_of_def[symmetric] by auto

lemma identify_namespace_completes:
  assumes "admin_cmd d eid = Some c" "dev_mem d c = 0x06" "lb = 9 \<or> lb = 12" "cmd_nsid_of (dev_mem d) c < length (vd_ns d)"
  shows "completes d c eid NVME_SC_SUCCESS (nvmev_admin_identify_namespace lb eid d)"
  by (rule completes_write[OF identify_namespace_page[OF assms(1,3,4)]]) (use assms(2) put_id_ns_outside in \<open>simp add: cmd_buf_len_def\<close>)

lemma namespaces_fold_outside:
  assumes "same_outside a (2 * PAGE_SIZE) m0 m" "a \<le> p" "p + 4 * length is \<le> a + 2 * PAGE_SIZE"
  shows "same_outside a (2 * PAGE_SIZE) m0
    (fst (foldl (\<lambda>(m, p) i. if i > unat (host_read 4 m x) then (host_put m p (le_bytes 4 (of_nat i)), p + 4) else (m, p)) (m, p) is))"
  using assms
proof (induction "is" arbitrary: m p)
  case Nil
  then show ?case by simp
next
  case (Cons i js)
  show ?case
  proof (cases "i > unat (host_read 4 m x)")
    case True
    then show ?thesis
      using Cons.IH[of "host_put m p (le_bytes 4 (of_nat i))" "p + 4"] same_outside_put[OF Cons.prems(1,2), of "le_bytes 4 (of_nat i)"]
        Cons.prems(2,3) by simp
  next
    case False
    then show ?thesis using Cons.IH[of m p] Cons.prems by simp
  qed
qed

lemma identify_namespaces_completes:
  assumes "admin_cmd d eid = Some c" "dev_mem d c = 0x06" "length (vd_ns d) \<le> 2"
  shows "completes d c eid NVME_SC_SUCCESS (nvmev_admin_identify_namespaces eid d)"
proof -
  let ?m = "dev_mem d" and ?a = "cmd_buf (dev_mem d) c"
  let ?f = "\<lambda>(m, p) i. if i > unat (host_read 4 m (c + 4)) then (host_put m p (le_bytes 4 (of_nat i)), p + 4) else (m, p)"
  let ?r = "foldl ?f (host_put ?m ?a (replicate (PAGE_SIZE * 2) 0), ?a) [1..<length (vd_ns d) + 1]"
  have "nvmev_admin_identify_namespaces eid d = make_cq_entry eid NVME_SC_SUCCESS (set_mem d (fst ?r))"
    using assms(1) unfolding nvmev_admin_identify_namespaces_def Let_def cmd_buf_def by (simp add: case_prod_beta)
  moreover have "same_outside ?a (2 * PAGE_SIZE) ?m (fst ?r)"
    using assms(3) by (intro namespaces_fold_outside same_outside_put) (auto simp: PAGE_SIZE_def)
  ultimately show ?thesis using assms(2) by (intro completes_write) (simp_all add: cmd_buf_len_def)
qed

lemma identify_namespace_desc_completes:
  assumes "admin_cmd d eid = Some c" "dev_mem d c = 0x06" "cmd_nsid_of (dev_mem d) c < length (vd_ns d)"
  shows "completes d c eid NVME_SC_SUCCESS (nvmev_admin_identify_namespace_desc eid d)"
proof -
  let ?m = "dev_mem d" and ?a = "cmd_buf (dev_mem d) c"
  have "nvmev_admin_identify_namespace_desc eid d = make_cq_entry eid NVME_SC_SUCCESS
      (set_mem d (host_put (host_put (host_put ?m ?a (replicate 4096 0)) ?a [NVME_NIDT_CSI, 1]) (?a + 4)
        [ucast (vns_csi (vd_ns d ! cmd_nsid_of ?m c))]))"
    using assms(1,3) unfolding nvmev_admin_identify_namespace_desc_def Let_def cmd_buf_def cmd_nsid_of_def by simp
  then show ?thesis
    by (rule completes_write, intro same_outside_put) (use assms(2) in \<open>simp_all add: cmd_buf_len_def PAGE_SIZE_def\<close>)
qed

lemma identify_zns_namespace_completes:
  assumes "admin_cmd d eid = Some c" "dev_mem d c = 0x06" "cmd_nsid_of (dev_mem d) c < length (vd_ns d)"
    and "vns_type (vd_ns d ! cmd_nsid_of (dev_mem d) c) = SSD_TYPE_ZNS \<Longrightarrow> vns_csi (vd_ns d ! cmd_nsid_of (dev_mem d) c) = of_nat NVME_CSI_ZNS"
  shows "completes d c eid NVME_SC_SUCCESS (nvmev_admin_identify_zns_namespace lb eid d)"
proof (cases "vns_type (vd_ns d ! cmd_nsid_of (dev_mem d) c) = SSD_TYPE_ZNS")
  case True
  let ?m = "dev_mem d" and ?a = "cmd_buf (dev_mem d) c" and ?z = "vns_zp (vd_ns d ! cmd_nsid_of (dev_mem d) c)"
  define m1 where "m1 = host_put (host_put (host_put (host_put (host_put ?m ?a (replicate 4096 0)) ?a (le_bytes 2 0)) (?a + 2) (le_bytes 2 0))
    (?a + 4) (le_bytes 4 (ucast (nr_active_zones ?z - 1)))) (?a + 8) (le_bytes 4 (ucast (nr_open_zones ?z - 1)))"
  define m2 where "m2 = host_put (host_put (host_put (host_put (host_put m1 (?a + 2) (le_bytes 2 (host_read 2 m1 (?a + 2) OR 2)))
    (?a + 44) (le_bytes 4 (ucast (nr_zrwa_zones ?z - 1)))) (?a + 48) (le_bytes 2 (ucast (zrwafg_size ?z))))
    (?a + 50) (le_bytes 2 (ucast (zrwa_size ?z)))) (?a + 52) [0]"
  define m3 where "m3 = (if nr_zrwa_zones ?z > 0 then host_put m2 (?a + 52) [m2 (?a + 52) OR 1] else m1)"
  have r: "nvmev_admin_identify_zns_namespace lb eid d = make_cq_entry eid NVME_SC_SUCCESS
      (set_mem d (host_put (host_put m3 (?a + 2816) (le_bytes 8 (ucast (drop_bit lb (zone_size ?z))))) (?a + 2824) [0]))"
    using assms(1,3,4) True unfolding nvmev_admin_identify_zns_namespace_def Let_def cmd_buf_def[symmetric] cmd_nsid_of_def[symmetric]
    by (simp add: m1_def m2_def m3_def)
  have "same_outside ?a (2 * PAGE_SIZE) ?m m1"
    unfolding m1_def by (intro same_outside_put same_outside_refl) (simp_all add: PAGE_SIZE_def)
  moreover from this have "same_outside ?a (2 * PAGE_SIZE) ?m m2"
    unfolding m2_def by (intro same_outside_put) (simp_all add: PAGE_SIZE_def)
  ultimately have "same_outside ?a (2 * PAGE_SIZE) ?m m3"
    unfolding m3_def by (auto intro!: same_outside_put simp: PAGE_SIZE_def)
  with r show ?thesis
    by (intro completes_write[OF r] same_outside_put) (use assms(2) in \<open>simp_all add: cmd_buf_len_def PAGE_SIZE_def\<close>)
next
  case False
  then show ?thesis
    using assms(1,3) unfolding nvmev_admin_identify_zns_namespace_def Let_def cmd_nsid_of_def[symmetric] by (simp add: no_data_completes)
qed

lemma identify_zns_ctrl_completes:
  assumes "admin_cmd d eid = Some c" "dev_mem d c = 0x06"
  shows "completes d c eid NVME_SC_SUCCESS (nvmev_admin_identify_zns_ctrl eid d)"
proof -
  have "nvmev_admin_identify_zns_ctrl eid d =
      make_cq_entry eid NVME_SC_SUCCESS (set_mem d (host_put (dev_mem d) (cmd_buf (dev_mem d) c) [0]))"
    using assms(1) by (simp add: nvmev_admin_identify_zns_ctrl_def cmd_buf_def Let_def)
  then show ?thesis
    by (rule completes_write, intro same_outside_put) (use assms(2) in \<open>simp_all add: cmd_buf_len_def PAGE_SIZE_def\<close>)
qed

lemma identify_ctrl_completes:
  assumes "admin_cmd d eid = Some c" "dev_mem d c = 0x06"
  shows "completes d c eid NVME_SC_SUCCESS (nvmev_admin_identify_ctrl eid d)"
proof -
  obtain m where "nvmev_admin_identify_ctrl eid d = make_cq_entry eid NVME_SC_SUCCESS (set_mem d m)"
    "same_outside (cmd_buf (dev_mem d) c) (2 * PAGE_SIZE) (dev_mem d) m"
  proof
    show "nvmev_admin_identify_ctrl eid d = make_cq_entry eid NVME_SC_SUCCESS (set_mem d
        (host_put (host_put (host_put (host_put (host_put (host_put (host_put (host_put (host_put (host_put (host_put (dev_mem d)
          (cmd_buf (dev_mem d) c) (replicate 4096 0))
          (cmd_buf (dev_mem d) c + 516) (le_bytes 4 (of_nat (length (vd_ns d))))) (cmd_buf (dev_mem d) c + 520) (le_bytes 2 0))
          (cmd_buf (dev_mem d) c + 258) [3]) (cmd_buf (dev_mem d) c + 525) [0])
          (cmd_buf (dev_mem d) c + 4) (map of_char ''CSL_Virt_SN_01'' @ [0])) (cmd_buf (dev_mem d) c + 24) (map of_char ''CSL_Virt_MN_01'' @ [0]))
          (cmd_buf (dev_mem d) c + 64) (map of_char ''CSL_002'' @ [0])) (cmd_buf (dev_mem d) c + 77) [ucast (mdts d)])
          (cmd_buf (dev_mem d) c + 512) [0x66]) (cmd_buf (dev_mem d) c + 513) [0x44]))"
      using assms(1) unfolding nvmev_admin_identify_ctrl_def Let_def cmd_buf_def by simp
  qed (intro same_outside_put same_outside_refl, simp_all add: PAGE_SIZE_def)
  then show ?thesis by (intro completes_write) (use assms(2) in \<open>simp_all add: cmd_buf_len_def\<close>)
qed

lemmas identify_completes = identify_namespace_completes identify_namespaces_completes identify_namespace_desc_completes
  identify_zns_namespace_completes identify_zns_ctrl_completes identify_ctrl_completes

lemma admin_identify_completes:
  assumes "admin_cmd d eid = Some c" "dev_mem d c = 0x06" "valid_identify lb (vd_ns d) (dev_mem d) c" "length (vd_ns d) \<le> 2"
  shows "completes d c eid (admin_status (dev_mem d) c) (nvmev_admin_identify lb eid d)"
  using assms(3) unfolding nvmev_admin_identify_def assms(1) bind.bind_lunit Let_def cmd_cns_def[symmetric] valid_identify_def
  by (auto simp: admin_status_def assms(2) intro: identify_completes[OF assms(1,2)] identify_namespaces_completes[OF assms(1,2,4)] no_data_completes)

subsection \<open>Any command\<close>

lemma admin_req_completes:
  assumes "admin_cmd d eid = Some c" "tables_ok d" "length (vd_ns d) \<le> 2" "valid_cmd b (vd_ns d) (dev_mem d) c" "dev_mem d c \<noteq> 0x08"
  shows "completes d c eid (admin_status (dev_mem d) c) (nvmev_proc_admin_req b eid d)"
proof -
  have v: "dev_mem d c \<in> {0x00, 0x01, 0x04, 0x05} \<Longrightarrow> cmd_qid (dev_mem d) c \<le> NR_MAX_IO_QUEUE"
    "dev_mem d c = 0x02 \<Longrightarrow> valid_log (dev_mem d) c"
    "dev_mem d c = 0x06 \<Longrightarrow> valid_identify (bld_lba_bits b) (vd_ns d) (dev_mem d) c" using assms(4) by (auto simp: valid_cmd_def)
  have r: "nvmev_proc_admin_req b eid d = (let opc = dev_mem d c in
     if opc = 0x00 then nvmev_admin_delete_sq eid d
     else if opc = 0x01 then nvmev_admin_create_sq eid d
     else if opc = 0x02 then nvmev_admin_get_log_page (bld_zns b) eid d
     else if opc = 0x04 then nvmev_admin_delete_cq eid d
     else if opc = 0x05 then nvmev_admin_create_cq eid d
     else if opc = 0x06 then nvmev_admin_identify (bld_lba_bits b) eid d
     else if opc = 0x08 then Some d
     else if opc = 0x09 then nvmev_admin_set_features eid d
     else if opc = 0x0a then nvmev_admin_get_features eid d
     else if opc = 0x0c then nvmev_admin_async_event eid d
     else make_cq_entry eid NVME_SC_INVALID_OPCODE d)"
    unfolding nvmev_proc_admin_req_def assms(1) by simp
  note q = delete_sq_completes[OF assms(1,2)] create_sq_completes[OF assms(1,2)] delete_cq_completes[OF assms(1,2)]
    create_cq_completes[OF assms(1,2)] set_features_completes[OF assms(1)] get_features_completes[OF assms(1)]
  show ?thesis
  proof (cases "dev_mem d c \<in> {0x00, 0x01, 0x04, 0x05, 0x09, 0x0a}")
    case True
    then show ?thesis using q v unfolding r Let_def by (auto simp: admin_status_def)
  next
    case False
    then show ?thesis
      using get_log_page_completes[OF assms(1) _ v(2), of "bld_zns b"] admin_identify_completes[OF assms(1) _ v(3) assms(3)]
        no_data_completes[of d c eid] assms(5) unfolding r Let_def
      by (auto simp: admin_status_def nvmev_admin_async_event_def)
  qed
qed

end
