(* ===== verification/Admin_Correct.thy ===== *)
theory Admin_Correct
  imports Admin_Effects
begin

unbundle bit_operations_syntax

text \<open>
  What the host sees of the admin queue. Its completion ring, read from the host's memory, is a
  completion queue like those of the I/O workers, and completing a command is posting to it; so the
  claims about phases carry over, and the polling host reads one completion per command that the
  doorbell announced, in order, except for aborts.
\<close>

subsection \<open>The rings in memory\<close>

definition pages_from :: "nat \<Rightarrow> nat \<Rightarrow> nat list" where
  "pages_from base n = map (\<lambda>i. base + i * PAGE_SIZE) [0..<n]"

definition admin_ready :: "admin_queue \<Rightarrow> nat \<Rightarrow> nat \<Rightarrow> bool" where
  "admin_ready q sb cb \<longleftrightarrow> nvme_sq q = Some (pages_from sb (ring_pages (sq_depth q) 64)) \<and>
     nvme_cq q = Some (pages_from cb (ring_pages (cq_depth q) 16)) \<and> 0 < sq_depth q \<and> aq_cq_head q < cq_depth q \<and>
     (sb + 64 * sq_depth q \<le> cb \<or> cb + 16 * cq_depth q \<le> sb)"

definition admin_cq :: "admin_queue \<Rightarrow> nat \<Rightarrow> host_mem \<Rightarrow> completion_queue" where
  "admin_cq q cb m =
     \<lparr>cq_queue_size = cq_depth q, cq_phase = aq_phase q, cq_head = aq_cq_head q, cq_tail = - 1, interrupt_ready = True,
       irq_enabled = True, irq_vector = 0, cq_ring = map (\<lambda>k. cqe_at m (cb + 16 * k)) [0..<cq_depth q]\<rparr>"

lemma entry_page: "e < n \<Longrightarrow> e div 64 < ring_pages n 64" "e < n \<Longrightarrow> e div 256 < ring_pages n 16"
  by (simp_all add: ring_pages_def PAGE_SIZE_def)

lemma entry_offset: "e div 64 * 4096 + 64 * (e mod 64) = 64 * (e :: nat)" "e div 256 * 4096 + 16 * (e mod 256) = 16 * (e :: nat)"
  using div_mult_mod_eq[of e 64] div_mult_mod_eq[of e 256] by linarith+

lemma admin_sq_entry: "admin_ready q sb cb \<Longrightarrow> e < sq_depth q \<Longrightarrow> sq_entry q e = Some (sb + 64 * e)"
  using entry_page(1)[of e "sq_depth q"] by (simp add: admin_ready_def sq_entry_def pages_from_def NR_SQE_PER_PAGE_def PAGE_SIZE_def entry_offset)

lemma admin_cq_entry: "admin_ready q sb cb \<Longrightarrow> e < cq_depth q \<Longrightarrow> cq_entry q e = Some (cb + 16 * e)"
  using entry_page(2)[of e "cq_depth q"] by (simp add: admin_ready_def cq_entry_def pages_from_def NR_CQE_PER_PAGE_def PAGE_SIZE_def entry_offset)

lemma admin_ready_cmd: "admin_q d = Some q \<Longrightarrow> admin_ready q sb cb \<Longrightarrow> e < sq_depth q \<Longrightarrow> admin_cmd d e = Some (sb + 64 * e)"
  by (simp add: admin_cmd_def admin_sq_entry)

lemma same_outside_0: "same_outside a 0 m m' \<Longrightarrow> m' = m"
  by (rule ext) (auto simp: same_outside_def not_less)

lemma same_outside_cqe:
  assumes "same_outside a n m m'" "p + 16 \<le> a \<or> a + n \<le> p \<or> n = 0"
  shows "cqe_at m' p = cqe_at m p"
proof (cases "n = 0")
  case True
  then show ?thesis using assms(1) same_outside_0 by blast
next
  case False
  then have "host_read k m' (p + j) = host_read k m (p + j)" if "j + k \<le> 16" for j k
    by (intro same_outside_read[OF assms(1)]) (use assms(2) that in auto)
  from this[of 0 4] this[of 4 4] this[of 8 2] this[of 10 2] this[of 12 2] this[of 14 2] show ?thesis by (simp add: cqe_at_def)
qed

lemma admin_cq_cong: "same_outside a n m m' \<Longrightarrow> a + n \<le> cb \<or> cb + 16 * cq_depth q \<le> a \<or> n = 0 \<Longrightarrow> admin_cq q cb m' = admin_cq q cb m"
  unfolding admin_cq_def by (auto intro!: same_outside_cqe)

subsection \<open>Completing is posting\<close>

definition admin_work :: "nat \<Rightarrow> u16 \<Rightarrow> u32 \<Rightarrow> u32 \<Rightarrow> u32 \<Rightarrow> io_work" where
  "admin_work eid cid st r0 r1 =
     zero_work\<lparr>w_sq_entry := eid, w_command_id := ucast cid, w_status := st, w_result0 := r0, w_result1 := r1\<rparr>"

lemma ucast_up_down: "ucast (ucast (x :: u16) :: u32) = x"
  by (rule bit_word_eqI) (simp add: bit_simps)

lemma completion_of_admin:
  "completion_of (admin_work eid cid st r0 r1) ph =
     \<lparr>cqe_result0 = r0, cqe_result1 = r1, cqe_sq_head = of_nat eid, cqe_sq_id = 0, cqe_command_id = cid,
       cqe_status = of_bool ph OR ucast (push_bit 1 st)\<rparr>"
  unfolding completion_of_def admin_work_def by (simp add: zero_work_def ucast_up_down del: push_bit_Suc)

lemma ring_update:
  assumes "h < n"
  shows "map (\<lambda>k. cqe_at (host_put m (cb + 16 * h) (cqe_bytes e)) (cb + 16 * k)) [0..<n] = (map (\<lambda>k. cqe_at m (cb + 16 * k)) [0..<n])[h := e]"
proof (rule nth_equalityI)
  fix k assume "k < length (map (\<lambda>k. cqe_at (host_put m (cb + 16 * h) (cqe_bytes e)) (cb + 16 * k)) [0..<n])"
  then have k: "k < n" by simp
  show "map (\<lambda>k. cqe_at (host_put m (cb + 16 * h) (cqe_bytes e)) (cb + 16 * k)) [0..<n] ! k = (map (\<lambda>k. cqe_at m (cb + 16 * k)) [0..<n])[h := e] ! k"
  proof (cases "k = h")
    case True
    then show ?thesis using k by (simp add: cqe_at_put)
  next
    case False
    then have "cb + 16 * k + 16 \<le> cb + 16 * h \<or> cb + 16 * h + length (cqe_bytes e) \<le> cb + 16 * k" by auto
    from cqe_at_apart[OF this] show ?thesis using k False by simp
  qed
qed simp

lemma make_cq_entry_posts:
  assumes "admin_q d = Some q" "admin_ready q sb cb" "eid < sq_depth q"
  shows "\<exists>d' q'. make_cq_entry_results eid st r0 r1 d = Some d' \<and> admin_q d' = Some q' \<and> admin_ready q' sb cb \<and>
    sq_depth q' = sq_depth q \<and> cq_depth q' = cq_depth q \<and> same_outside cb (16 * cq_depth q) (dev_mem d) (dev_mem d') \<and>
    same_dev d (d'\<lparr>admin_q := Some q\<rparr>) \<and>
    post_completion (admin_cq q cb (dev_mem d)) (admin_work eid (cmd_id (dev_mem d) (sb + 64 * eid)) st r0 r1) = Some (admin_cq q' cb (dev_mem d'))"
proof -
  let ?m = "dev_mem d" and ?h = "aq_cq_head q"
  have h: "?h < cq_depth q" using assms(2) by (simp add: admin_ready_def)
  let ?e = "completion_of (admin_work eid (cmd_id ?m (sb + 64 * eid)) st r0 r1) (aq_phase q)"
  let ?m' = "host_put ?m (cb + 16 * ?h) (cqe_bytes ?e)"
  let ?q' = "if ?h + 1 = cq_depth q then q\<lparr>aq_cq_head := 0, aq_phase := \<not> aq_phase q\<rparr> else q\<lparr>aq_cq_head := ?h + 1\<rparr>"
  let ?d' = "(set_mem d ?m')\<lparr>admin_q := Some ?q'\<rparr>"
  have m: "make_cq_entry_results eid st r0 r1 d = Some ?d'"
    unfolding make_cq_entry_results_def assms(1) bind.bind_lunit admin_sq_entry[OF assms(2,3)] admin_cq_entry[OF assms(2) h] Let_def
      cmd_id_def[symmetric] completion_of_admin[symmetric] by (rule refl)
  have mem: "dev_mem ?d' = ?m'" by (simp add: dev_mem_def set_mem_def)
  have ready: "admin_ready ?q' sb cb" using assms(2) h by (auto simp: admin_ready_def)
  have out: "same_outside cb (16 * cq_depth q) ?m (dev_mem ?d')" unfolding mem using h by (intro same_outside_put) simp_all
  have "cq_ok (admin_cq q cb ?m)" using h by (simp add: cq_ok_def admin_cq_def)
  from post_completion_ok[OF this]
  have post: "post_completion (admin_cq q cb ?m) (admin_work eid (cmd_id ?m (sb + 64 * eid)) st r0 r1) = Some (admin_cq ?q' cb (dev_mem ?d'))"
    unfolding mem by (simp add: admin_cq_def ring_update[OF h])
  show ?thesis
    using m ready out post by (intro exI[of _ ?d'] exI[of _ ?q'] conjI) (simp_all add: same_dev_def set_mem_def assms(1))
qed

subsection \<open>Commands that stay where they are\<close>

definition same_cmd :: "nat \<Rightarrow> host_mem \<Rightarrow> host_mem \<Rightarrow> bool" where
  "same_cmd c m m' \<longleftrightarrow> (\<forall>j < 64. m' (c + j) = m (c + j))"

lemma same_cmd_read: "same_cmd c m m' \<Longrightarrow> j + n \<le> 64 \<Longrightarrow> host_read n m' (c + j) = host_read n m (c + j)"
  unfolding host_read_def by (rule arg_cong[where f = le_word]) (auto intro!: nth_equalityI simp: host_get_nth same_cmd_def add.assoc)

lemma same_cmd_byte: "same_cmd c m m' \<Longrightarrow> m' c = m c" "same_cmd c m m' \<Longrightarrow> m' (c + 40) = m (c + 40)"
  using add_0_right[of c] by (auto simp: same_cmd_def dest: spec[of _ 0])

lemma same_cmd_fields:
  assumes "same_cmd c m m'"
  shows "cmd_nsid_of m' c = cmd_nsid_of m c" "cmd_cns m' c = cmd_cns m c" "cmd_qid m' c = cmd_qid m c" "cmd_buf m' c = cmd_buf m c"
    "cmd_id m' c = cmd_id m c" "log_len m' c = log_len m c"
  using same_cmd_read[OF assms, of 4 4] same_cmd_read[OF assms, of 40 4] same_cmd_read[OF assms, of 40 2] same_cmd_read[OF assms, of 24 8]
    same_cmd_read[OF assms, of 2 2] same_cmd_read[OF assms, of 42 2] same_cmd_read[OF assms, of 44 2]
  by (simp_all add: cmd_nsid_of_def cmd_cns_def cmd_qid_def cmd_buf_def cmd_id_def log_len_def)

lemma same_cmd_valid:
  assumes "same_cmd c m m'"
  shows "valid_cmd b nss m' c = valid_cmd b nss m c" "cmd_buf_len m' c = cmd_buf_len m c" "admin_status m' c = admin_status m c"
  using same_cmd_fields[OF assms] same_cmd_byte[OF assms]
  by (simp_all add: valid_cmd_def valid_log_def valid_identify_def cmd_buf_len_def admin_status_def)

lemma same_outside_cmd: "same_outside a n m m' \<Longrightarrow> c + 64 \<le> a \<or> a + n \<le> c \<or> n = 0 \<Longrightarrow> same_cmd c m m'"
  by (auto simp: same_outside_def same_cmd_def)

text \<open>A command that can be carried out, and whose data stays off both rings.\<close>

definition entry_ok :: "vdev_build \<Rightarrow> vdev_ns list \<Rightarrow> admin_queue \<Rightarrow> nat \<Rightarrow> nat \<Rightarrow> host_mem \<Rightarrow> nat \<Rightarrow> bool" where
  "entry_ok b nss q sb cb m e \<longleftrightarrow> (let c = sb + 64 * e; a = cmd_buf m c; n = cmd_buf_len m c in
     valid_cmd b nss m c \<and> (n = 0 \<or> (a + n \<le> sb \<or> sb + 64 * sq_depth q \<le> a) \<and> (a + n \<le> cb \<or> cb + 16 * cq_depth q \<le> a)))"

definition same_ring :: "admin_queue \<Rightarrow> nat \<Rightarrow> host_mem \<Rightarrow> host_mem \<Rightarrow> bool" where
  "same_ring q sb m m' \<longleftrightarrow> (\<forall>e < sq_depth q. same_cmd (sb + 64 * e) m m')"

lemma same_ring_trans: "same_ring q sb m m' \<Longrightarrow> same_ring q sb m' m'' \<Longrightarrow> same_ring q sb m m''"
  by (auto simp: same_ring_def same_cmd_def)

lemma same_outside_ring:
  assumes "same_outside a n m m'" "a + n \<le> sb \<or> sb + 64 * sq_depth q \<le> a \<or> n = 0"
  shows "same_ring q sb m m'"
  unfolding same_ring_def by (intro allI impI same_outside_cmd[OF assms(1)]) (use assms(2) in auto)

text \<open>What the host is to read for an entry: its command's number, the entry, and the status.\<close>

definition admin_answer :: "host_mem \<Rightarrow> nat \<Rightarrow> nat \<Rightarrow> u16 \<times> u16 \<times> u16" where
  "admin_answer m sb e = (cmd_id m (sb + 64 * e), of_nat e, ucast (admin_status m (sb + 64 * e)))"

definition admin_answers :: "host_mem \<Rightarrow> nat \<Rightarrow> nat list \<Rightarrow> (u16 \<times> u16 \<times> u16) list" where
  "admin_answers m sb es = map (admin_answer m sb) (filter (\<lambda>e. m (sb + 64 * e) \<noteq> 0x08) es)"

definition work_answer :: "io_work \<Rightarrow> u16 \<times> u16 \<times> u16" where
  "work_answer w = (ucast (w_command_id w), of_nat (w_sq_entry w), take_bit 15 (ucast (w_status w)))"

lemma work_answer_admin:
  "work_answer (admin_work e (cmd_id m (sb + 64 * e)) (admin_status m (sb + 64 * e)) r0 r1) = admin_answer m sb e"
  by (simp add: work_answer_def admin_work_def admin_answer_def zero_work_def ucast_up_down admin_status_def
      NVME_SC_INVALID_OPCODE_def NVME_SC_SUCCESS_def)

lemma admin_answers_cong: "same_ring q sb m m' \<Longrightarrow> \<forall>e \<in> set es. e < sq_depth q \<Longrightarrow> admin_answers m' sb es = admin_answers m sb es"
proof (induction es)
  case Nil
  then show ?case by (simp add: admin_answers_def)
next
  case (Cons e es)
  have "same_cmd (sb + 64 * e) m m'" using Cons.prems by (simp add: same_ring_def)
  note c = same_cmd_fields(5)[OF this] same_cmd_byte(1)[OF this] same_cmd_valid(3)[OF this]
  show ?case using Cons c by (simp add: admin_answers_def admin_answer_def)
qed

text \<open>One entry of the queue: an abort leaves the device as it is, any other command is posted.\<close>

definition admin_rest :: "'s nvmev_dev \<Rightarrow> 's nvmev_dev \<Rightarrow> bool" where
  "admin_rest d d' \<longleftrightarrow> vd_ns d' = vd_ns d \<and> io_d (vd_io d') = io_d (vd_io d) \<and> irqs d' = irqs d \<and> msix_enabled d' = msix_enabled d \<and>
     (tables_ok d \<longrightarrow> tables_ok d')"

lemma admin_entry_posts:
  assumes "admin_q d = Some q" "admin_ready q sb cb" "e < sq_depth q" "tables_ok d" "length (vd_ns d) \<le> 2"
    and "entry_ok b (vd_ns d) q sb cb (dev_mem d) e"
  shows "\<exists>d' q' ws. nvmev_proc_admin_req b e d = Some d' \<and> admin_q d' = Some q' \<and> admin_ready q' sb cb \<and> sq_depth q' = sq_depth q \<and>
    cq_depth q' = cq_depth q \<and> admin_rest d d' \<and> same_ring q sb (dev_mem d) (dev_mem d') \<and>
    post_all (admin_cq q cb (dev_mem d)) ws = Some (admin_cq q' cb (dev_mem d')) \<and> map work_answer ws = admin_answers (dev_mem d) sb [e]"
proof -
  let ?c = "sb + 64 * e" and ?m = "dev_mem d"
  have c: "admin_cmd d e = Some ?c" by (rule admin_ready_cmd[OF assms(1-3)])
  show ?thesis
  proof (cases "?m ?c = 0x08")
    case True
    then have "nvmev_proc_admin_req b e d = Some d" using c by (simp add: nvmev_proc_admin_req_def)
    then show ?thesis using assms(1,2) True
      by (intro exI[of _ d] exI[of _ q] exI[of _ "[]"]) (simp add: admin_rest_def same_ring_def same_cmd_def admin_answers_def)
  next
    case False
    have v: "valid_cmd b (vd_ns d) ?m ?c" "cmd_buf_len ?m ?c = 0 \<or>
       (cmd_buf ?m ?c + cmd_buf_len ?m ?c \<le> sb \<or> sb + 64 * sq_depth q \<le> cmd_buf ?m ?c) \<and>
       (cmd_buf ?m ?c + cmd_buf_len ?m ?c \<le> cb \<or> cb + 16 * cq_depth q \<le> cmd_buf ?m ?c)"
      using assms(6) by (auto simp: entry_ok_def Let_def)
    from admin_req_completes[OF c assms(4,5) v(1) False] obtain d1 r0 r1 where r:
      "nvmev_proc_admin_req b e d = make_cq_entry_results e (admin_status ?m ?c) r0 r1 d1" "same_dev d d1"
      "same_outside (cmd_buf ?m ?c) (cmd_buf_len ?m ?c) ?m (dev_mem d1)" by (auto simp: completes_def)
    have q1: "admin_q d1 = Some q" using r(2) assms(1) by (simp add: same_dev_def)
    have s1: "same_ring q sb ?m (dev_mem d1)" by (rule same_outside_ring[OF r(3)]) (use v(2) in auto)
    have cq1: "admin_cq q cb (dev_mem d1) = admin_cq q cb ?m" by (rule admin_cq_cong[OF r(3)]) (use v(2) in auto)
    obtain d' q' where p: "make_cq_entry_results e (admin_status ?m ?c) r0 r1 d1 = Some d'" "admin_q d' = Some q'" "admin_ready q' sb cb"
      "sq_depth q' = sq_depth q" "cq_depth q' = cq_depth q" "same_outside cb (16 * cq_depth q) (dev_mem d1) (dev_mem d')"
      "same_dev d1 (d'\<lparr>admin_q := Some q\<rparr>)"
      "post_completion (admin_cq q cb (dev_mem d1)) (admin_work e (cmd_id (dev_mem d1) ?c) (admin_status ?m ?c) r0 r1) = Some (admin_cq q' cb (dev_mem d'))"
      using make_cq_entry_posts[OF q1 assms(2,3)] by blast
    have id1: "cmd_id (dev_mem d1) ?c = cmd_id ?m ?c" using s1 assms(3) same_cmd_fields(5) unfolding same_ring_def by blast
    have s2: "same_ring q sb (dev_mem d1) (dev_mem d')"
      by (rule same_outside_ring[OF p(6)]) (use assms(2) in \<open>auto simp: admin_ready_def\<close>)
    have rest: "admin_rest d d'" using r(2) p(7) by (auto simp: admin_rest_def same_dev_def tables_ok_def)
    have "map work_answer [admin_work e (cmd_id ?m ?c) (admin_status ?m ?c) r0 r1] = admin_answers ?m sb [e]"
      using False by (simp add: work_answer_admin admin_answers_def)
    then show ?thesis
      using p r(1) rest same_ring_trans[OF s1 s2] cq1 id1
      by (intro exI[of _ d'] exI[of _ q'] exI[of _ "[admin_work e (cmd_id ?m ?c) (admin_status ?m ?c) r0 r1]"]) simp
  qed
qed

subsection \<open>The loop over the entries\<close>

fun ring_walk :: "nat \<Rightarrow> nat \<Rightarrow> nat \<Rightarrow> nat list" where
  "ring_walk depth 0 cur = []"
| "ring_walk depth (Suc n) cur = cur # ring_walk depth n (if cur + 1 = depth then 0 else cur + 1)"

lemma ring_walk_less: "cur < depth \<Longrightarrow> e \<in> set (ring_walk depth n cur) \<Longrightarrow> e < depth"
  by (induction depth n cur rule: ring_walk.induct) (auto split: if_splits)

lemma entry_ok_cong:
  assumes "same_ring q sb m m'" "sq_depth q' = sq_depth q" "cq_depth q' = cq_depth q" "e < sq_depth q"
  shows "entry_ok b nss q' sb cb m' e = entry_ok b nss q sb cb m e"
proof -
  have "same_cmd (sb + 64 * e) m m'" using assms(1,4) by (simp add: same_ring_def)
  from same_cmd_valid(1,2)[OF this] same_cmd_fields(4)[OF this] show ?thesis using assms(2,3) by (simp add: entry_ok_def Let_def)
qed

lemma admin_sq_loop_posts:
  assumes "admin_q d = Some q" "admin_ready q sb cb" "cur < sq_depth q" "tables_ok d" "length (vd_ns d) \<le> 2"
    and "\<forall>e \<in> set (ring_walk (sq_depth q) n cur). entry_ok b (vd_ns d) q sb cb (dev_mem d) e"
  shows "\<exists>d' q' ws. admin_sq_loop b n cur d = Some d' \<and> admin_q d' = Some q' \<and> admin_ready q' sb cb \<and> sq_depth q' = sq_depth q \<and>
    cq_depth q' = cq_depth q \<and> admin_rest d d' \<and> same_ring q sb (dev_mem d) (dev_mem d') \<and>
    post_all (admin_cq q cb (dev_mem d)) ws = Some (admin_cq q' cb (dev_mem d')) \<and>
    map work_answer ws = admin_answers (dev_mem d) sb (ring_walk (sq_depth q) n cur)"
  using assms
proof (induction n arbitrary: cur d q)
  case 0
  then show ?case by (intro exI[of _ d] exI[of _ q] exI[of _ "[]"]) (simp add: admin_rest_def same_ring_def same_cmd_def admin_answers_def)
next
  case (Suc n)
  let ?next = "if cur + 1 = sq_depth q then 0 else cur + 1"
  let ?es = "ring_walk (sq_depth q) n ?next"
  have nx: "?next < sq_depth q" using Suc.prems(3) by auto
  obtain d1 q1 ws where one: "nvmev_proc_admin_req b cur d = Some d1" "admin_q d1 = Some q1" "admin_ready q1 sb cb" "sq_depth q1 = sq_depth q"
    "cq_depth q1 = cq_depth q" "admin_rest d d1" "same_ring q sb (dev_mem d) (dev_mem d1)"
    "post_all (admin_cq q cb (dev_mem d)) ws = Some (admin_cq q1 cb (dev_mem d1))" "map work_answer ws = admin_answers (dev_mem d) sb [cur]"
    using admin_entry_posts[OF Suc.prems(1-5), of b] Suc.prems(6) by (auto simp: Ball_def)
  have t1: "tables_ok d1" "vd_ns d1 = vd_ns d" using one(6) Suc.prems(4) by (simp_all add: admin_rest_def)
  have less: "\<forall>e \<in> set ?es. e < sq_depth q" using ring_walk_less[OF nx] by blast
  have ok: "\<forall>e \<in> set (ring_walk (sq_depth q1) n ?next). entry_ok b (vd_ns d1) q1 sb cb (dev_mem d1) e"
    using Suc.prems(6) less entry_ok_cong[OF one(7,4,5)] unfolding t1(2) one(4) by auto
  obtain d' q' vs where rest: "admin_sq_loop b n ?next d1 = Some d'" "admin_q d' = Some q'" "admin_ready q' sb cb" "sq_depth q' = sq_depth q1"
    "cq_depth q' = cq_depth q1" "admin_rest d1 d'" "same_ring q1 sb (dev_mem d1) (dev_mem d')"
    "post_all (admin_cq q1 cb (dev_mem d1)) vs = Some (admin_cq q' cb (dev_mem d'))"
    "map work_answer vs = admin_answers (dev_mem d1) sb (ring_walk (sq_depth q1) n ?next)"
    using Suc.IH[OF one(2,3) _ t1(1) _ ok] nx one(4) Suc.prems(5) t1(2) by auto
  have a: "admin_answers (dev_mem d1) sb ?es = admin_answers (dev_mem d) sb ?es" by (rule admin_answers_cong[OF one(7) less])
  have split: "admin_answers (dev_mem d) sb (cur # ?es) = admin_answers (dev_mem d) sb [cur] @ admin_answers (dev_mem d) sb ?es"
    by (simp add: admin_answers_def)
  have "same_ring q sb (dev_mem d1) (dev_mem d')" using rest(7) one(4) by (simp add: same_ring_def)
  then have ring: "same_ring q sb (dev_mem d) (dev_mem d')" by (rule same_ring_trans[OF one(7)])
  have "admin_sq_loop b (Suc n) cur d = Some d'" using one(1,2,4) rest(1) by simp
  moreover have "post_all (admin_cq q cb (dev_mem d)) (ws @ vs) = Some (admin_cq q' cb (dev_mem d'))"
    using one(8) rest(8) by (simp add: post_all_append)
  moreover have "map work_answer (ws @ vs) = admin_answers (dev_mem d) sb (ring_walk (sq_depth q) (Suc n) cur)"
    unfolding ring_walk.simps split using one(9) rest(9) a one(4) by simp
  moreover have "admin_rest d d'" using one(6) rest(6) by (auto simp: admin_rest_def)
  ultimately show ?case using rest(2-5) one(4,5) ring by (intro exI[of _ d'] exI[of _ q'] exI[of _ "ws @ vs"]) simp
qed

end
