(* ===== verification/Vdev_Dispatcher.thy ===== *)
theory Vdev_Dispatcher
  imports Admin_Correct
begin

unbundle bit_operations_syntax

text \<open>
  The dispatcher, \<^verbatim>\<open>nvmev_proc_bars\<close> of \<^verbatim>\<open>pci.c\<close> and \<^verbatim>\<open>nvmev_proc_dbs\<close> of \<^verbatim>\<open>main.c\<close>: it compares the
  registers and the doorbells with what it saw last and processes what has changed, one register per
  call. The device starts with the state that \<^verbatim>\<open>VDEV_INIT\<close> and \<^verbatim>\<open>__init_nvme_ctrl_regs\<close> leave.
\<close>

subsection \<open>Registers\<close>

definition aqa_asqs :: "u32 \<Rightarrow> nat" where "aqa_asqs r = unat (r AND 0xFFF)"
definition aqa_acqs :: "u32 \<Rightarrow> nat" where "aqa_acqs r = unat (drop_bit 16 r AND 0xFFF)"
definition cc_en :: "u32 \<Rightarrow> bool" where "cc_en r = bit r 0"
definition cc_shn :: "u32 \<Rightarrow> u32" where "cc_shn r = drop_bit 14 r AND 3"
definition csts_rdy :: "u32 \<Rightarrow> bool" where "csts_rdy r = bit r 0"
definition set_rdy :: "bool \<Rightarrow> u32 \<Rightarrow> u32" where "set_rdy b r = (if b then r OR 1 else r AND NOT 1)"
definition set_shst :: "u32 \<Rightarrow> u32 \<Rightarrow> u32" where "set_shst v r = (r AND NOT 0xC) OR push_bit 2 v"

definition mod_bar :: "(ctrl_regs \<Rightarrow> ctrl_regs) \<Rightarrow> 's nvmev_dev \<Rightarrow> 's nvmev_dev" where
  "mod_bar f d = d\<lparr>bar := f (bar d)\<rparr>"

definition mod_old :: "(ctrl_regs \<Rightarrow> ctrl_regs) \<Rightarrow> 's nvmev_dev \<Rightarrow> 's nvmev_dev" where
  "mod_old f d = d\<lparr>old_bar := f (old_bar d)\<rparr>"

text \<open>The pages of a ring, from the page of the address on.\<close>

definition ring_page_list :: "u64 \<Rightarrow> nat \<Rightarrow> nat \<Rightarrow> nat list" where
  "ring_page_list r n sz = map (\<lambda>i. (unat (PRP_PFN r) + i) * PAGE_SIZE) [0..<ring_pages n sz]"

definition zero_queue :: admin_queue where
  "zero_queue = \<lparr>aq_phase = False, sq_depth = 0, cq_depth = 0, aq_cq_head = 0, nvme_sq = None, nvme_cq = None\<rparr>"

text \<open>The branches of the function, one per register.\<close>

definition bars_aqa :: "'s nvmev_dev \<Rightarrow> 's nvmev_dev option" where
  "bars_aqa d = do {
     let d = mod_old (\<lambda>r. r\<lparr>reg_aqa := reg_aqa (bar d)\<rparr>) d;
     let q = (case admin_q d of None \<Rightarrow> zero_queue | Some q \<Rightarrow> q);
     let q = q\<lparr>aq_cq_head := 0, aq_phase := True, sq_depth := aqa_asqs (reg_aqa (bar d)) + 1, cq_depth := aqa_acqs (reg_aqa (bar d)) + 1\<rparr>;
     d \<leftarrow> set_db 0 (d\<lparr>admin_q := Some q\<rparr>);
     set_db 1 d
   }"

definition bars_asq :: "'s nvmev_dev \<Rightarrow> 's nvmev_dev option" where
  "bars_asq d = (case admin_q d of
     None \<Rightarrow> Some d
   | Some q \<Rightarrow> do {
       let d = mod_old (\<lambda>r. r\<lparr>reg_asq := reg_asq (bar d)\<rparr>) d;
       let n = aqa_asqs (reg_aqa (bar d)) + 1;
       set_db 0 (d\<lparr>admin_q := Some (q\<lparr>sq_depth := n, nvme_sq := Some (ring_page_list (reg_asq (bar d)) n 64)\<rparr>)\<rparr>)
     })"

definition bars_acq :: "'s nvmev_dev \<Rightarrow> 's nvmev_dev option" where
  "bars_acq d = (case admin_q d of
     None \<Rightarrow> Some d
   | Some q \<Rightarrow> do {
       let d = mod_old (\<lambda>r. r\<lparr>reg_acq := reg_acq (bar d)\<rparr>) d;
       let n = aqa_acqs (reg_aqa (bar d)) + 1;
       set_db 1 (d\<lparr>admin_q := Some (q\<lparr>cq_depth := n, aq_cq_head := 0, aq_phase := True,
         nvme_cq := Some (ring_page_list (reg_acq (bar d)) n 16)\<rparr>)\<rparr>)
     })"

definition bars_cc :: "'s nvmev_dev \<Rightarrow> 's nvmev_dev option" where
  "bars_cc d = do {
     let cc = reg_cc (bar d);
     let d = (if cc_en cc then (if admin_q d \<noteq> None then mod_bar (\<lambda>r. r\<lparr>reg_csts := set_rdy True (reg_csts r)\<rparr>) d else d)
       else mod_bar (\<lambda>r. r\<lparr>reg_csts := set_rdy False (reg_csts r)\<rparr>) d);
     d \<leftarrow> (if cc_shn cc = 1 then do {
         d \<leftarrow> set_db 0 (mod_bar (\<lambda>r. r\<lparr>reg_csts := set_shst 2 (reg_csts r)\<rparr>) d);
         d \<leftarrow> set_db 1 d;
         q \<leftarrow> admin_q d;
         Some (d\<lparr>admin_q := Some (q\<lparr>aq_cq_head := 0\<rparr>)\<rparr>)
       } else Some d);
     Some (mod_old (\<lambda>r. r\<lparr>reg_cc := cc\<rparr>) d)
   }"

text \<open>The result says whether a change was found.\<close>

definition nvmev_proc_bars :: "'s nvmev_dev \<Rightarrow> (bool \<times> 's nvmev_dev) option" where
  "nvmev_proc_bars d =
     (let found = map_option (Pair True) in
      if reg_aqa (old_bar d) \<noteq> reg_aqa (bar d) then found (bars_aqa d)
      else if reg_asq (old_bar d) \<noteq> reg_asq (bar d) then found (bars_asq d)
      else if reg_acq (old_bar d) \<noteq> reg_acq (bar d) then found (bars_acq d)
      else if reg_cc (old_bar d) \<noteq> reg_cc (bar d) then found (bars_cc d)
      else Some (False, d))"

subsection \<open>Doorbells\<close>

text \<open>The table entry \<open>i\<close> as an \<open>int\<close>, and an update of what was seen last.\<close>

definition get_db :: "u32 list \<Rightarrow> nat \<Rightarrow> int option" where
  "get_db l i = do { x \<leftarrow> aget l i; Some (sint x) }"

definition set_old :: "nat \<Rightarrow> int \<Rightarrow> 's nvmev_dev \<Rightarrow> 's nvmev_dev option" where
  "set_old i v d = do { l \<leftarrow> aset (old_dbs d) i (of_int v); Some (d\<lparr>old_dbs := l\<rparr>) }"

text \<open>\<open>nows\<close> are the readings of the clock for each queue.\<close>

definition proc_db_sq :: "bool \<Rightarrow> ('s \<times> host_mem) proc_io \<Rightarrow> (nat \<Rightarrow> nat \<Rightarrow> u64) \<Rightarrow> bool \<times> 's nvmev_dev \<Rightarrow> nat \<Rightarrow> (bool \<times> 's nvmev_dev) option" where
  "proc_db_sq kv proc nows s qid = do {
     let (u, d) = s;
     q \<leftarrow> aget (io_sqs (vd_io d)) qid;
     if q = None then Some (u, d)
     else do {
       new_db \<leftarrow> get_db (dbs d) (qid * 2);
       old_db \<leftarrow> get_db (old_dbs d) (qid * 2);
       if new_db \<noteq> old_db then do {
         nv_assert (0 \<le> old_db);
         (db, io) \<leftarrow> nvmev_proc_io_sq kv proc (nows qid) qid new_db (nat old_db) (vd_io d);
         d \<leftarrow> set_old (qid * 2) (int db) (d\<lparr>vd_io := io\<rparr>);
         Some (True, d)
       } else Some (u, d)
     }
   }"

definition proc_db_cq :: "bool \<times> 's nvmev_dev \<Rightarrow> nat \<Rightarrow> (bool \<times> 's nvmev_dev) option" where
  "proc_db_cq s qid = do {
     let (u, d) = s;
     q \<leftarrow> aget (io_cqs (vd_io d)) qid;
     if q = None then Some (u, d)
     else do {
       new_db \<leftarrow> get_db (dbs d) (qid * 2 + 1);
       old_db \<leftarrow> get_db (old_dbs d) (qid * 2 + 1);
       if new_db \<noteq> old_db then do {
         io \<leftarrow> nvmev_proc_io_cq qid new_db old_db (vd_io d);
         d \<leftarrow> set_old (qid * 2 + 1) new_db (d\<lparr>vd_io := io\<rparr>);
         Some (True, d)
       } else Some (u, d)
     }
   }"

definition proc_db_admin :: "vdev_build \<Rightarrow> 's nvmev_dev \<Rightarrow> (bool \<times> 's nvmev_dev) option" where
  "proc_db_admin b d = do {
     new_db \<leftarrow> get_db (dbs d) 0;
     old_db \<leftarrow> get_db (old_dbs d) 0;
     (u, d) \<leftarrow> (if new_db \<noteq> old_db then do { d \<leftarrow> nvmev_proc_admin_sq b new_db old_db d; d \<leftarrow> set_old 0 new_db d; Some (True, d) }
       else Some (False, d));
     new_db \<leftarrow> get_db (dbs d) 1;
     old_db \<leftarrow> get_db (old_dbs d) 1;
     if new_db \<noteq> old_db then do { d \<leftarrow> set_old 1 new_db d; Some (True, d) } else Some (u, d)
   }"

definition nvmev_proc_dbs :: "vdev_build \<Rightarrow> bool \<Rightarrow> ('s \<times> host_mem) proc_io \<Rightarrow> (nat \<Rightarrow> nat \<Rightarrow> u64) \<Rightarrow> 's nvmev_dev \<Rightarrow> (bool \<times> 's nvmev_dev) option" where
  "nvmev_proc_dbs b kv proc nows d = do {
     (u, d) \<leftarrow> proc_db_admin b d;
     (u, d) \<leftarrow> opt_fold (proc_db_sq kv proc nows) (u, d) [1..<unat (nr_sq d) + 1];
     opt_fold proc_db_cq (u, d) [1..<unat (nr_cq d) + 1]
   }"

text \<open>One turn of the loop of the dispatcher; whether it sleeps in between is left out.\<close>

definition nvmev_dispatcher_turn :: "vdev_build \<Rightarrow> bool \<Rightarrow> ('s \<times> host_mem) proc_io \<Rightarrow> (nat \<Rightarrow> nat \<Rightarrow> u64) \<Rightarrow> 's nvmev_dev \<Rightarrow> 's nvmev_dev option" where
  "nvmev_dispatcher_turn b kv proc nows d = do {
     (_, d) \<leftarrow> nvmev_proc_bars d;
     (_, d) \<leftarrow> nvmev_proc_dbs b kv proc nows d;
     Some d
   }"

subsection \<open>Set-up\<close>

definition CAP_CSS_BIT_SPECIFIC :: u64 where "CAP_CSS_BIT_SPECIFIC = 0x40"

definition init_ctrl_regs :: "bool \<Rightarrow> ctrl_regs" where
  "init_ctrl_regs zns_build =
     \<lparr>reg_cap = 1023 OR push_bit 24 1 OR (if zns_build then push_bit 37 CAP_CSS_BIT_SPECIFIC else 0), reg_vs = push_bit 16 1,
       reg_cc = 0, reg_csts = 0, reg_aqa = 0, reg_asq = 0, reg_acq = 0\<rparr>"

definition VDEV_INIT :: "bool \<Rightarrow> nat \<Rightarrow> vdev_ns list \<Rightarrow> u32 \<Rightarrow> 's \<times> host_mem \<Rightarrow> buffer list \<Rightarrow> 's nvmev_dev" where
  "VDEV_INIT zns_build nr_workers nss md data bufs =
     \<lparr>vd_io = \<lparr>io_d = NVMEV_IO_WORKER_INIT nr_workers, io_sqs = replicate (NR_MAX_IO_QUEUE + 1) None,
         io_cqs = replicate (NR_MAX_IO_QUEUE + 1) None, io_bufs = bufs, io_data = data\<rparr>,
       admin_q = None, bar = init_ctrl_regs zns_build, old_bar = init_ctrl_regs zns_build, dbs = replicate 1024 0, old_dbs = replicate 1024 0,
       vd_ns = nss, nr_sq = 0, nr_cq = 0, mdts = md, msix_enabled = False, sts_is = False, irqs = []\<rparr>"

end
