(* ===== verification/Vdev_Shape.thy ===== *)
theory Vdev_Shape
  imports Vdev_Dispatcher
begin

unbundle bit_operations_syntax

text \<open>
  The shape of the device: the tables have one place per queue number, every queue in them has a
  ring that holds all its entries and a position inside it, and the numbers of queues that the
  dispatcher polls lie inside the tables. Every operation of the dispatcher and of a worker that
  returns keeps this, whatever the host has written.
\<close>

definition sqs_shape :: "submission_queue option list \<Rightarrow> bool" where
  "sqs_shape qs \<longleftrightarrow> length qs = NR_MAX_IO_QUEUE + 1 \<and>
     (\<forall>sq. Some sq \<in> set qs \<longrightarrow> 0 < sq_queue_size sq \<and> sq_queue_size sq \<le> length (sq_ring sq))"

definition cqs_shape :: "completion_queue option list \<Rightarrow> bool" where
  "cqs_shape qs \<longleftrightarrow> length qs = NR_MAX_IO_QUEUE + 1 \<and> (\<forall>cq. Some cq \<in> set qs \<longrightarrow> cq_ok cq)"

definition io_shape :: "'d io_sys \<Rightarrow> bool" where
  "io_shape s \<longleftrightarrow> sqs_shape (io_sqs s) \<and> cqs_shape (io_cqs s)"

definition vdev_shape :: "'s nvmev_dev \<Rightarrow> bool" where
  "vdev_shape d \<longleftrightarrow> io_shape (vd_io d) \<and> tables_ok d \<and> unat (nr_sq d) \<le> NR_MAX_IO_QUEUE \<and> unat (nr_cq d) \<le> NR_MAX_IO_QUEUE"

subsection \<open>The dispatcher's I/O\<close>

text \<open>Updates of one queue that leave its size and its ring.\<close>

definition sq_same :: "submission_queue \<Rightarrow> submission_queue \<Rightarrow> bool" where
  "sq_same sq sq' \<longleftrightarrow> sq_queue_size sq' = sq_queue_size sq \<and> sq_ring sq' = sq_ring sq"

lemma sqs_shape_put: "sqs_shape qs \<Longrightarrow> 0 < sq_queue_size sq \<Longrightarrow> sq_queue_size sq \<le> length (sq_ring sq) \<Longrightarrow> sqs_shape (qs[i := Some sq])"
  by (auto simp: sqs_shape_def dest!: set_update_subset_insert[THEN subsetD])

lemma sqs_shape_get: "sqs_shape qs \<Longrightarrow> i < length qs \<Longrightarrow> qs ! i = Some sq \<Longrightarrow> 0 < sq_queue_size sq \<and> sq_queue_size sq \<le> length (sq_ring sq)"
  unfolding sqs_shape_def by (metis nth_mem)

lemma sqs_shape_update:
  "sqs_shape qs \<Longrightarrow> i < length qs \<Longrightarrow> qs ! i = Some sq \<Longrightarrow> sq_same sq sq' \<Longrightarrow> sqs_shape (qs[i := Some sq'])"
  using sqs_shape_get[of qs i sq] by (auto simp: sq_same_def intro!: sqs_shape_put)

lemma sqs_shape_drop: "sqs_shape qs \<Longrightarrow> sqs_shape (qs[i := None])"
  by (auto simp: sqs_shape_def dest!: set_update_subset_insert[THEN subsetD])

lemma cqs_shape_put: "cqs_shape qs \<Longrightarrow> cq_ok cq \<Longrightarrow> cqs_shape (qs[i := Some cq])"
  by (auto simp: cqs_shape_def dest!: set_update_subset_insert[THEN subsetD])

lemma cqs_shape_get: "cqs_shape qs \<Longrightarrow> i < length qs \<Longrightarrow> qs ! i = Some cq \<Longrightarrow> cq_ok cq"
  unfolding cqs_shape_def by (metis nth_mem)

lemma cqs_shape_drop: "cqs_shape qs \<Longrightarrow> cqs_shape (qs[i := None])"
  by (auto simp: cqs_shape_def dest!: set_update_subset_insert[THEN subsetD])

lemma io_shape_sq: "io_shape s \<Longrightarrow> io_sqs s ! i = Some sq \<Longrightarrow> i < length (io_sqs s) \<Longrightarrow> sq_same sq sq' \<Longrightarrow> io_shape (s\<lparr>io_sqs := (io_sqs s)[i := Some sq']\<rparr>)"
  by (auto simp: io_shape_def intro: sqs_shape_update)

lemma mod_sq_shape: "mod_sq s i f = Some s' \<Longrightarrow> io_shape s \<Longrightarrow> (\<And>sq. sq_same sq (f sq)) \<Longrightarrow> io_shape s'"
  by (auto simp: mod_sq_def amod_Some_iff split: bind_splits intro!: io_shape_sq)

lemma nvmev_proc_io_queues: "nvmev_proc_io kv proc now sqid e s = Some (r, s') \<Longrightarrow> io_sqs s' = io_sqs s \<and> io_cqs s' = io_cqs s"
  by (auto simp: nvmev_proc_io_def Let_def split: bind_splits if_splits)

lemma nvmev_proc_io_shape: "nvmev_proc_io kv proc now sqid e s = Some (r, s') \<Longrightarrow> io_shape s \<Longrightarrow> io_shape s'"
  by (drule nvmev_proc_io_queues) (simp add: io_shape_def)

lemma proc_sq_loop_shape: "proc_sq_loop kv proc nows sqid n e seq s = Some (r, s') \<Longrightarrow> io_shape s \<Longrightarrow> io_shape s'"
proof (induction n arbitrary: e seq s)
  case (Suc n)
  let ?x = "nvmev_proc_io kv proc (nows seq) sqid e s"
  obtain t s1 where x: "?x = Some (t, s1)" using Suc.prems(1) by (cases ?x) auto
  have s1: "io_shape s1" by (rule nvmev_proc_io_shape[OF x Suc.prems(2)])
  show ?case
  proof (cases t)
    case None
    then show ?thesis using Suc.prems(1) x s1 by simp
  next
    case (Some io_size)
    then obtain f s2 e' seq' where m: "mod_sq s1 sqid f = Some s2" "\<And>sq. sq_same sq (f sq)"
      "proc_sq_loop kv proc nows sqid n e' seq' s2 = Some (r, s')"
      using Suc.prems(1) x by (auto simp: sq_same_def split: bind_splits)
    show ?thesis by (rule Suc.IH[OF m(3) mod_sq_shape[OF m(1) s1 m(2)]])
  qed
qed simp

lemma nvmev_proc_io_sq_shape:
  assumes "nvmev_proc_io_sq kv proc nows sqid new_db old_db s = Some (db, s')" "io_shape s"
  shows "io_shape s'"
proof -
  obtain q where q: "aget (io_sqs s) sqid = Some q" using assms by (cases "aget (io_sqs s) sqid") (auto simp: nvmev_proc_io_sq_def)
  show ?thesis
  proof (cases q)
    case None
    then show ?thesis using assms q by (simp add: nvmev_proc_io_sq_def)
  next
    case (Some sq)
    then obtain n seq s1 f where l: "proc_sq_loop kv proc nows sqid n old_db 0 s = Some (seq, s1)" "mod_sq s1 sqid f = Some s'"
      "\<And>sq. sq_same sq (f sq)"
      using assms(1) q by (auto simp: nvmev_proc_io_sq_def Let_def sq_same_def split: bind_splits)
    show ?thesis by (rule mod_sq_shape[OF l(2) proc_sq_loop_shape[OF l(1) assms(2)] l(3)])
  qed
qed

lemma proc_cq_loop_shape:
  assumes "proc_cq_loop cq new_db i sqs = Some sqs'"
  shows "sqs_shape sqs \<longrightarrow> sqs_shape sqs'"
  using assms
proof (induction rule: proc_cq_loop.raw_induct[rotated, consumes 1, case_names turn])
  case (turn f cq new_db i sqs sqs')
  show ?case
  proof (cases "i = new_db \<or> i \<ge> int (cq_queue_size cq)")
    case True
    then show ?thesis using turn by (auto split: if_splits)
  next
    case False
    then obtain cqe q where r: "aget (cq_ring cq) (nat i) = Some cqe" "aget sqs (unat (cqe_sq_id cqe)) = Some q"
      "f cq new_db (i + 1) (case q of None \<Rightarrow> sqs | Some sq \<Rightarrow> sqs[unat (cqe_sq_id cqe) := Some (sq\<lparr>nr_in_flight := nr_in_flight sq - 1\<rparr>)]) = Some sqs'"
      using turn(2) by (auto split: bind_splits if_splits)
    have "sqs_shape sqs \<Longrightarrow> sqs_shape (case q of None \<Rightarrow> sqs | Some sq \<Rightarrow> sqs[unat (cqe_sq_id cqe) := Some (sq\<lparr>nr_in_flight := nr_in_flight sq - 1\<rparr>)])"
      using r(2) by (auto simp: aget_Some_iff sq_same_def split: option.splits intro: sqs_shape_update)
    then show ?thesis using turn(1)[OF r(3)] by (auto split: option.splits)
  qed
qed

lemma nvmev_proc_io_cq_shape:
  assumes "nvmev_proc_io_cq cqid new_db old_db s = Some s'" "io_shape s"
  shows "io_shape s'"
proof -
  obtain cq sqs t where r: "get_queue (io_cqs s) cqid = Some cq" "proc_cq_loop cq new_db old_db (io_sqs s) = Some sqs"
    "s' = s\<lparr>io_sqs := sqs, io_cqs := (io_cqs s)[cqid := Some (cq\<lparr>cq_tail := t\<rparr>)]\<rparr>"
    using assms(1) by (auto simp: nvmev_proc_io_cq_def Let_def split: bind_splits)
  have "cq_ok cq"
    using r(1) assms(2) cqs_shape_get[of "io_cqs s" cqid cq] by (simp add: get_queue_def io_shape_def bind_eq_Some_conv aget_Some_iff)
  then have "cqs_shape ((io_cqs s)[cqid := Some (cq\<lparr>cq_tail := t\<rparr>)])" using assms(2) by (auto simp: io_shape_def cq_ok_def intro!: cqs_shape_put)
  moreover have "sqs_shape sqs" using proc_cq_loop_shape[OF r(2)] assms(2) by (simp add: io_shape_def)
  ultimately show ?thesis unfolding r(3) by (simp add: io_shape_def)
qed

subsection \<open>The workers\<close>

lemma mod_work_queues: "mod_work s k i f = Some s' \<Longrightarrow> io_sqs s' = io_sqs s \<and> io_cqs s' = io_cqs s"
  by (auto simp: mod_work_def mod_worker_def split: bind_splits)

lemma worker_copy_queues: "worker_copy perf k i s = Some s' \<Longrightarrow> io_sqs s' = io_sqs s \<and> io_cqs s' = io_cqs s"
  by (auto simp: worker_copy_def split: bind_splits if_splits dest!: mod_work_queues)

lemma fill_cq_result_shape: "fill_cq_result w cqs = Some cqs' \<Longrightarrow> cqs_shape cqs \<Longrightarrow> cqs_shape cqs'"
proof -
  assume a: "fill_cq_result w cqs = Some cqs'" "cqs_shape cqs"
  then obtain cq cq' where r: "w_cqid w < length cqs" "cqs ! w_cqid w = Some cq" "post_completion cq w = Some cq'" "cqs' = cqs[w_cqid w := Some cq']"
    by (auto simp: fill_cq_result_def amod_Some_iff bind_eq_Some_conv)
  have ok: "cq_ok cq" by (rule cqs_shape_get[OF a(2) r(1,2)])
  have "cq_ok cq'" using r(3) ok unfolding post_completion_ok[OF ok] by (auto simp: cq_ok_def)
  then show "cqs_shape cqs'" unfolding r(4) by (rule cqs_shape_put[OF a(2)])
qed

lemma worker_complete_shape: "worker_complete k i now s = Some s' \<Longrightarrow> io_shape s \<Longrightarrow> io_shape s'"
  by (auto simp: worker_complete_def io_shape_def split: bind_splits if_splits dest!: mod_work_queues intro: fill_cq_result_shape)

lemma worker_visit_shape:
  assumes "worker_visit perf now k i s = Some s'" "io_shape s"
  shows "io_shape s'"
proof -
  obtain s1 w where s1: "mod_worker s k (\<lambda>wk. Some (wk\<lparr>latest_nsecs := now\<rparr>)) = Some s1" "get_work s1 k i = Some w"
    "(if is_completed w then Some s1 else do { s \<leftarrow> worker_copy perf k i s1; worker_complete k i now s }) = Some s'"
    using assms(1) by (auto simp: worker_visit_def split: bind_splits)
  have 1: "io_shape s1" using s1(1) assms(2) by (auto simp: mod_worker_def io_shape_def split: bind_splits)
  show ?thesis
  proof (cases "is_completed w")
    case True
    then show ?thesis using s1(3) 1 by simp
  next
    case False
    then obtain s2 where s2: "worker_copy perf k i s1 = Some s2" "worker_complete k i now s2 = Some s'"
      using s1(3) by (auto split: bind_splits)
    have "io_shape s2" using worker_copy_queues[OF s2(1)] 1 by (simp add: io_shape_def)
    then show ?thesis by (rule worker_complete_shape[OF s2(2)])
  qed
qed

lemma worker_pass_shape:
  assumes "worker_pass perf clk n k cur s = Some s'"
  shows "io_shape s \<longrightarrow> io_shape s'"
  using assms
proof (induction rule: worker_pass.raw_induct[rotated, consumes 1, case_names pass])
  case (pass f perf clk n k cur s s')
  show ?case
  proof (cases "cur = - 1")
    case True
    then show ?thesis using pass(2) by simp
  next
    case False
    then obtain s1 and w :: io_work where "worker_visit perf (clk n) k (unat cur) s = Some s1" "f perf clk (n + 1) k (w_next w) s1 = Some s'"
      using pass(2) by (auto split: bind_splits)
    then show ?thesis using pass(1) worker_visit_shape by blast
  qed
qed

lemma worker_signal_shape:
  assumes "worker_signal lock nr k s = Some (is, s')" "io_shape s"
  shows "io_shape s'"
proof -
  have "io_shape (snd r)" if "opt_fold f (js, t) xs = Some r" "io_shape t"
    "\<And>js t q r. f (js, t) q = Some r \<Longrightarrow> io_shape t \<Longrightarrow> io_shape (snd r)" for f js t xs r
    using that(1,2)
  proof (induction xs arbitrary: js t)
    case Nil
    then show ?case by auto
  next
    case (Cons x xs)
    then obtain js1 t1 where "f (js, t) x = Some (js1, t1)" "opt_fold f (js1, t1) xs = Some r" by (auto split: bind_splits)
    then show ?case using Cons.IH[of js1 t1] that(3) Cons.prems(2) by fastforce
  qed
  from this[OF assms(1)[unfolded worker_signal_def] assms(2)] show ?thesis
    by (fastforce simp: io_shape_def aget_Some_iff cq_ok_def split: bind_splits if_splits option.splits dest: cqs_shape_get intro!: cqs_shape_put)
qed

lemma io_worker_round_shape: "io_worker_round perf clk lock nr k s = Some (is, s') \<Longrightarrow> io_shape s \<Longrightarrow> io_shape s'"
  by (auto simp: io_worker_round_def split: bind_splits dest!: worker_pass_shape worker_signal_shape)

subsection \<open>The device\<close>

lemma vdev_shape_mem [simp]: "vdev_shape (set_mem d m) = vdev_shape d"
  by (simp add: vdev_shape_def set_mem_def io_shape_def tables_ok_def)

lemma vdev_shape_other:
  assumes "vdev_shape d" "io_sqs (vd_io d') = io_sqs (vd_io d)" "io_cqs (vd_io d') = io_cqs (vd_io d)"
    and "length (dbs d') = length (dbs d)" "length (old_dbs d') = length (old_dbs d)" "nr_sq d' = nr_sq d" "nr_cq d' = nr_cq d"
  shows "vdev_shape d'"
  using assms by (simp add: vdev_shape_def io_shape_def tables_ok_def)

text \<open>What the operations on single parts leave as it is: each premise of the rule above.\<close>

definition same_queues :: "'s nvmev_dev \<Rightarrow> 's nvmev_dev \<Rightarrow> bool" where
  "same_queues d d' \<longleftrightarrow> io_sqs (vd_io d') = io_sqs (vd_io d) \<and> io_cqs (vd_io d') = io_cqs (vd_io d) \<and>
     length (dbs d') = length (dbs d) \<and> length (old_dbs d') = length (old_dbs d) \<and> nr_sq d' = nr_sq d \<and> nr_cq d' = nr_cq d"

lemma same_queues_shape: "same_queues d d' \<Longrightarrow> vdev_shape d \<Longrightarrow> vdev_shape d'"
  by (rule vdev_shape_other) (auto simp: same_queues_def)

lemma same_queues_trans: "same_queues d d' \<Longrightarrow> same_queues d' d'' \<Longrightarrow> same_queues d d''"
  by (simp add: same_queues_def)

lemma set_db_same: "set_db i d = Some d' \<Longrightarrow> same_queues d d'"
  by (auto simp: set_db_def same_queues_def aset_Some_iff split: bind_splits)

lemma set_old_same: "set_old i v d = Some d' \<Longrightarrow> same_queues d d'"
  by (auto simp: set_old_def same_queues_def aset_Some_iff split: bind_splits)

lemma set_mem_same [simp]: "same_queues d (set_mem d m)"
  by (simp add: same_queues_def set_mem_def)

lemma make_cq_same: "make_cq_entry_results eid st r0 r1 d = Some d' \<Longrightarrow> same_queues d d'"
  by (auto simp: make_cq_entry_results_def same_queues_def set_mem_def Let_def split: bind_splits)

lemma make_cq_mem_same: "make_cq_entry eid st (set_mem d m) = Some d' \<Longrightarrow> same_queues d d'"
  by (auto simp: make_cq_entry_def dest: make_cq_same intro: same_queues_trans[OF set_mem_same])

lemma make_cq_here_same: "make_cq_entry eid st d = Some d' \<Longrightarrow> same_queues d d'"
  by (auto simp: make_cq_entry_def dest: make_cq_same)

lemmas data_cmd_defs = nvmev_admin_get_log_page_def nvmev_admin_identify_namespace_def nvmev_admin_identify_namespaces_def
  nvmev_admin_identify_namespace_desc_def nvmev_admin_identify_zns_namespace_def nvmev_admin_identify_zns_ctrl_def
  nvmev_admin_identify_ctrl_def

lemma data_cmds_same:
  "nvmev_admin_get_log_page z eid d = Some d' \<Longrightarrow> same_queues d d'"
  "nvmev_admin_identify_namespace lb eid d = Some d' \<Longrightarrow> same_queues d d'"
  "nvmev_admin_identify_namespaces eid d = Some d' \<Longrightarrow> same_queues d d'"
  "nvmev_admin_identify_namespace_desc eid d = Some d' \<Longrightarrow> same_queues d d'"
  "nvmev_admin_identify_zns_namespace lb eid d = Some d' \<Longrightarrow> same_queues d d'"
  "nvmev_admin_identify_zns_ctrl eid d = Some d' \<Longrightarrow> same_queues d d'"
  "nvmev_admin_identify_ctrl eid d = Some d' \<Longrightarrow> same_queues d d'"
  unfolding data_cmd_defs Let_def by (auto elim!: bind_SomeE dest: make_cq_mem_same make_cq_here_same split: prod.splits if_splits)

lemma identify_same: "nvmev_admin_identify lb eid d = Some d' \<Longrightarrow> same_queues d d'"
  unfolding nvmev_admin_identify_def Let_def by (auto elim!: bind_SomeE dest: data_cmds_same make_cq_here_same split: if_splits)

text \<open>A queue that is created has a ring of whole pages, which hold all its entries.\<close>

lemma ring_at_long: "sz dvd PAGE_SIZE \<Longrightarrow> 0 < sz \<Longrightarrow> n \<le> length (ring_at rd m p sz n)"
proof -
  assume "sz dvd PAGE_SIZE" "0 < sz"
  then obtain k where k: "PAGE_SIZE = sz * k" by (auto simp: dvd_def)
  then have k0: "0 < k" by (cases k) (simp_all add: PAGE_SIZE_def)
  have "n * sz \<le> (n * sz + PAGE_SIZE - 1) div PAGE_SIZE * PAGE_SIZE"
    using div_mult_mod_eq[of "n * sz + PAGE_SIZE - 1" PAGE_SIZE] mod_less_divisor[of PAGE_SIZE "n * sz + PAGE_SIZE - 1"]
    by (simp add: PAGE_SIZE_def)
  then have "n * sz \<le> ring_pages n sz * k * sz" by (simp add: ring_pages_def k ac_simps)
  then have "n \<le> ring_pages n sz * k" using \<open>0 < sz\<close> by simp
  moreover have "PAGE_SIZE div sz = k" unfolding k using \<open>0 < sz\<close> by simp
  ultimately show "n \<le> length (ring_at rd m p sz n)" by (simp add: ring_at_def)
qed

lemma new_cq_ok: "cq_ok (new_cq m c)"
  using ring_at_long[of 16] by (simp add: new_cq_def cq_ok_def Let_def PAGE_SIZE_def)

lemma new_sq_ok: "0 < sq_queue_size (new_sq m c) \<and> sq_queue_size (new_sq m c) \<le> length (sq_ring (new_sq m c))"
  using ring_at_long[of 64] by (simp add: new_sq_def Let_def PAGE_SIZE_def)

lemma vdev_shape_sqs: "vdev_shape d \<Longrightarrow> sqs_shape qs \<Longrightarrow> vdev_shape (d\<lparr>vd_io := (vd_io d)\<lparr>io_sqs := qs\<rparr>\<rparr>)"
  by (simp add: vdev_shape_def io_shape_def tables_ok_def sqs_shape_def)

lemma vdev_shape_cqs: "vdev_shape d \<Longrightarrow> cqs_shape qs \<Longrightarrow> vdev_shape (d\<lparr>vd_io := (vd_io d)\<lparr>io_cqs := qs\<rparr>\<rparr>)"
  by (simp add: vdev_shape_def io_shape_def tables_ok_def cqs_shape_def)

lemma queue_cmds_shape:
  assumes "vdev_shape d"
  shows "nvmev_admin_create_cq eid d = Some d' \<Longrightarrow> vdev_shape d'" "nvmev_admin_delete_cq eid d = Some d' \<Longrightarrow> vdev_shape d'"
    "nvmev_admin_create_sq eid d = Some d' \<Longrightarrow> vdev_shape d'" "nvmev_admin_delete_sq eid d = Some d' \<Longrightarrow> vdev_shape d'"
proof -
  have s: "sqs_shape (io_sqs (vd_io d))" "cqs_shape (io_cqs (vd_io d))" using assms by (simp_all add: vdev_shape_def io_shape_def)
  note c = vdev_shape_cqs[OF assms cqs_shape_put[OF s(2) new_cq_ok]] vdev_shape_cqs[OF assms cqs_shape_drop[OF s(2)]]
    vdev_shape_sqs[OF assms sqs_shape_put[OF s(1)]] vdev_shape_sqs[OF assms sqs_shape_drop[OF s(1)]]
  have db: "vdev_shape d'" if "set_db i d0 = Some d1" "make_cq_entry eid NVME_SC_SUCCESS d1 = Some d'" "vdev_shape d0" for i d0 d1
    using same_queues_shape[OF same_queues_trans[OF set_db_same[OF that(1)] make_cq_here_same[OF that(2)]] that(3)] .
  show "nvmev_admin_create_cq eid d = Some d' \<Longrightarrow> vdev_shape d'"
    unfolding nvmev_admin_create_cq_def Let_def by (auto elim!: bind_SomeE simp: aset_Some_iff intro: db[OF _ _ c(1)])
  show "nvmev_admin_delete_cq eid d = Some d' \<Longrightarrow> vdev_shape d'"
    unfolding nvmev_admin_delete_cq_def Let_def
    by (auto elim!: bind_SomeE simp: aset_Some_iff intro: same_queues_shape[OF make_cq_here_same c(2)])
  show "nvmev_admin_create_sq eid d = Some d' \<Longrightarrow> vdev_shape d'"
    unfolding nvmev_admin_create_sq_def Let_def by (auto elim!: bind_SomeE simp: aset_Some_iff new_sq_ok intro: db[OF _ _ c(3)])
  show "nvmev_admin_delete_sq eid d = Some d' \<Longrightarrow> vdev_shape d'"
    unfolding nvmev_admin_delete_sq_def Let_def
    by (auto elim!: bind_SomeE simp: aset_Some_iff intro: same_queues_shape[OF make_cq_here_same c(4)])
qed

lemma set_features_shape:
  assumes "nvmev_admin_set_features eid d = Some d'" "vdev_shape d"
  shows "vdev_shape d'"
proof -
  obtain x y r0 where r: "make_cq_entry_results eid NVME_SC_SUCCESS r0 0 (d\<lparr>nr_sq := x, nr_cq := y\<rparr>) = Some d'"
    "unat x \<le> NR_MAX_IO_QUEUE" "unat y \<le> NR_MAX_IO_QUEUE"
  proof (cases "make_cq_entry_results eid NVME_SC_SUCCESS 0 0 d = Some d'")
    case True
    show ?thesis by (rule that[where x = "nr_sq d" and y = "nr_cq d" and ?r0.0 = 0]) (use True assms(2) in \<open>simp_all add: vdev_shape_def\<close>)
  next
    case False
    have u: "unat (of_nat (min n NR_MAX_IO_QUEUE) :: u32) \<le> NR_MAX_IO_QUEUE" for n
      using unat_of_nat_less[where 'a = 32, of "min n NR_MAX_IO_QUEUE"] by (simp add: NR_MAX_IO_QUEUE_def)
    show ?thesis using assms(1) False
      unfolding nvmev_admin_set_features_def Let_def by (auto elim!: bind_SomeE split: if_splits intro: that simp: u)
  qed
  have "vdev_shape (d\<lparr>nr_sq := x, nr_cq := y\<rparr>)" using assms(2) r(2,3) by (simp add: vdev_shape_def tables_ok_def)
  then show ?thesis by (rule same_queues_shape[OF make_cq_same[OF r(1)]])
qed

lemma admin_req_shape: "nvmev_proc_admin_req b eid d = Some d' \<Longrightarrow> vdev_shape d \<Longrightarrow> vdev_shape d'"
  unfolding nvmev_proc_admin_req_def Let_def nvmev_admin_async_event_def nvmev_admin_get_features_def
  by (auto elim!: bind_SomeE split: if_splits dest: queue_cmds_shape set_features_shape
      intro: same_queues_shape[OF data_cmds_same(1)] same_queues_shape[OF identify_same] same_queues_shape[OF make_cq_here_same]
        same_queues_shape[OF make_cq_same])

lemma admin_sq_loop_shape: "admin_sq_loop b n cur d = Some d' \<Longrightarrow> vdev_shape d \<Longrightarrow> vdev_shape d'"
proof (induction n arbitrary: cur d)
  case (Suc n)
  then show ?case by (auto elim!: bind_SomeE dest!: admin_req_shape)
qed simp

lemma signal_irq_same [simp]: "same_queues d (nvmev_signal_irq i d)"
  by (simp add: nvmev_signal_irq_def same_queues_def)

lemma proc_admin_sq_shape: "nvmev_proc_admin_sq b new_db old_db d = Some d' \<Longrightarrow> vdev_shape d \<Longrightarrow> vdev_shape d'"
  unfolding nvmev_proc_admin_sq_def Let_def
  by (auto elim!: bind_SomeE dest!: admin_sq_loop_shape intro: same_queues_shape[OF signal_irq_same])

subsection \<open>The dispatcher\<close>

lemma bars_same:
  "bars_aqa d = Some d' \<Longrightarrow> same_queues d d'" "bars_asq d = Some d' \<Longrightarrow> same_queues d d'"
  "bars_acq d = Some d' \<Longrightarrow> same_queues d d'" "bars_cc d = Some d' \<Longrightarrow> same_queues d d'"
  by (auto simp: bars_aqa_def bars_asq_def bars_acq_def bars_cc_def mod_bar_def mod_old_def same_queues_def Let_def set_db_def aset_Some_iff
      split: bind_splits option.splits if_splits)

lemma proc_bars_same: "nvmev_proc_bars d = Some (f, d') \<Longrightarrow> same_queues d d'"
  by (auto simp: nvmev_proc_bars_def Let_def split: if_splits dest: bars_same) (simp_all add: same_queues_def)

lemma vdev_shape_io: "vdev_shape d \<Longrightarrow> io_shape io \<Longrightarrow> vdev_shape (d\<lparr>vd_io := io\<rparr>)"
  by (simp add: vdev_shape_def io_shape_def tables_ok_def sqs_shape_def cqs_shape_def)

lemma set_old_shape: "set_old i v d = Some d' \<Longrightarrow> vdev_shape d \<Longrightarrow> vdev_shape d'"
  by (rule same_queues_shape[OF set_old_same])

text \<open>The polling of one queue: nothing, or the I/O system and what was seen last change.\<close>

lemma proc_db_sq_cases:
  assumes "proc_db_sq kv proc nows (u, d) qid = Some r"
  obtains "r = (u, d)"
  | new_db old_db db io d' where "nvmev_proc_io_sq kv proc (nows qid) qid new_db old_db (vd_io d) = Some (db, io)"
      "set_old (qid * 2) (int db) (d\<lparr>vd_io := io\<rparr>) = Some d'" "r = (True, d')"
proof -
  obtain q where q: "aget (io_sqs (vd_io d)) qid = Some q" using assms by (auto simp: proc_db_sq_def elim!: bind_SomeE)
  show thesis
  proof (cases q)
    case None
    then show thesis using assms q by (intro that(1)) (simp add: proc_db_sq_def)
  next
    case (Some sq)
    then obtain n l where n: "get_db (dbs d) (qid * 2) = Some n" "get_db (old_dbs d) (qid * 2) = Some l"
      using assms q by (auto simp: proc_db_sq_def elim!: bind_SomeE)
    show thesis
    proof (cases "n = l")
      case True
      then show thesis using assms q n Some by (intro that(1)) (simp add: proc_db_sq_def)
    next
      case False
      then show thesis using assms q n Some by (auto simp: proc_db_sq_def elim!: bind_SomeE intro: that(2))
    qed
  qed
qed

lemma proc_db_cq_cases:
  assumes "proc_db_cq (u, d) qid = Some r"
  obtains "r = (u, d)"
  | new_db old_db io d' where "nvmev_proc_io_cq qid new_db old_db (vd_io d) = Some io"
      "set_old (qid * 2 + 1) new_db (d\<lparr>vd_io := io\<rparr>) = Some d'" "r = (True, d')"
proof -
  obtain q where q: "aget (io_cqs (vd_io d)) qid = Some q" using assms by (auto simp: proc_db_cq_def elim!: bind_SomeE)
  show thesis
  proof (cases q)
    case None
    then show thesis using assms q by (intro that(1)) (simp add: proc_db_cq_def)
  next
    case (Some cq)
    then obtain n l where n: "get_db (dbs d) (qid * 2 + 1) = Some n" "get_db (old_dbs d) (qid * 2 + 1) = Some l"
      using assms q by (auto simp: proc_db_cq_def elim!: bind_SomeE)
    show thesis
    proof (cases "n = l")
      case True
      then show thesis using assms q n Some by (intro that(1)) (simp add: proc_db_cq_def)
    next
      case False
      then show thesis using assms q n Some by (auto simp: proc_db_cq_def elim!: bind_SomeE intro: that(2))
    qed
  qed
qed

lemma proc_db_sq_shape:
  assumes "proc_db_sq kv proc nows (u, d) qid = Some r" "vdev_shape d"
  shows "vdev_shape (snd r)"
  using assms(1)
proof (cases rule: proc_db_sq_cases)
  case 1
  then show ?thesis using assms(2) by simp
next
  case (2 new_db old_db db io d')
  have "io_shape io" by (rule nvmev_proc_io_sq_shape[OF 2(1)]) (use assms(2) in \<open>simp add: vdev_shape_def\<close>)
  then show ?thesis using set_old_shape[OF 2(2) vdev_shape_io[OF assms(2)]] 2(3) by simp
qed

lemma proc_db_cq_shape:
  assumes "proc_db_cq (u, d) qid = Some r" "vdev_shape d"
  shows "vdev_shape (snd r)"
  using assms(1)
proof (cases rule: proc_db_cq_cases)
  case 1
  then show ?thesis using assms(2) by simp
next
  case (2 new_db old_db io d')
  have "io_shape io" by (rule nvmev_proc_io_cq_shape[OF 2(1)]) (use assms(2) in \<open>simp add: vdev_shape_def\<close>)
  then show ?thesis using set_old_shape[OF 2(2) vdev_shape_io[OF assms(2)]] 2(3) by simp
qed

lemma opt_fold_dispatch_keeps:
  assumes "opt_fold f s xs = Some r" "P s" "\<And>s x r. f s x = Some r \<Longrightarrow> P s \<Longrightarrow> P r"
  shows "P r"
  using assms(1,2)
proof (induction xs arbitrary: s)
  case (Cons x xs)
  then show ?case using assms(3) by (auto elim!: bind_SomeE)
qed simp

lemma proc_db_admin_shape: "proc_db_admin b d = Some (u, d') \<Longrightarrow> vdev_shape d \<Longrightarrow> vdev_shape d'"
  unfolding proc_db_admin_def Let_def
  by (auto elim!: bind_SomeE split: if_splits prod.splits dest!: proc_admin_sq_shape set_old_shape)

lemma nvmev_proc_dbs_shape:
  assumes "nvmev_proc_dbs b kv proc nows d = Some (u, d')" "vdev_shape d"
  shows "vdev_shape d'"
proof -
  obtain u1 d1 u2 d2 where r: "proc_db_admin b d = Some (u1, d1)" "opt_fold (proc_db_sq kv proc nows) (u1, d1) [1..<unat (nr_sq d1) + 1] = Some (u2, d2)"
    "opt_fold proc_db_cq (u2, d2) [1..<unat (nr_cq d2) + 1] = Some (u, d')"
    using assms(1) by (auto simp: nvmev_proc_dbs_def elim!: bind_SomeE)
  have 1: "vdev_shape d1" by (rule proc_db_admin_shape[OF r(1) assms(2)])
  have 2: "vdev_shape (snd (u2, d2))" by (rule opt_fold_dispatch_keeps[OF r(2)]) (use 1 proc_db_sq_shape in auto)
  have "vdev_shape (snd (u, d'))" by (rule opt_fold_dispatch_keeps[OF r(3)]) (use 2 proc_db_cq_shape in auto)
  then show ?thesis by simp
qed

lemma dispatcher_turn_shape:
  assumes "nvmev_dispatcher_turn b kv proc nows d = Some d'" "vdev_shape d"
  shows "vdev_shape d'"
proof -
  obtain f d1 u where r: "nvmev_proc_bars d = Some (f, d1)" "nvmev_proc_dbs b kv proc nows d1 = Some (u, d')"
    using assms(1) by (auto simp: nvmev_dispatcher_turn_def elim!: bind_SomeE)
  show ?thesis by (rule nvmev_proc_dbs_shape[OF r(2) same_queues_shape[OF proc_bars_same[OF r(1)] assms(2)]])
qed

lemma init_shape: "vdev_shape (VDEV_INIT z n nss md data bufs)"
  by (auto simp: vdev_shape_def VDEV_INIT_def io_shape_def sqs_shape_def cqs_shape_def tables_ok_def NR_MAX_IO_QUEUE_def)

end
