(* ===== verification/Vdev_Bars.thy ===== *)
theory Vdev_Bars
  imports Vdev_Shape
begin

unbundle bit_operations_syntax

text \<open>
  What the host's writes to the registers come to: however many registers have changed, the
  dispatcher has processed them after four calls of \<^verbatim>\<open>nvmev_proc_bars\<close>, and then the admin queue is
  the one the registers describe. Without an admin queue it waits for ever for the register that
  gives its depths.
\<close>

subsection \<open>Bits\<close>

lemma rdy_set [simp]: "csts_rdy (set_rdy b r) = b"
  by (simp add: csts_rdy_def set_rdy_def bit_or_iff bit_and_iff bit_not_iff bit_1_iff)

lemma rdy_shst [simp]: "csts_rdy (set_shst v r) = csts_rdy r"
proof -
  have "\<not> bit (0xC :: u32) 0" by (simp add: bit_iff_odd)
  moreover have "\<not> bit (push_bit 2 v) 0" by (simp add: bit_push_bit_iff del: push_bit_Suc push_bit_numeral)
  ultimately show ?thesis by (simp add: csts_rdy_def set_shst_def bit_or_iff bit_and_iff bit_not_iff del: push_bit_numeral)
qed

subsection \<open>One register\<close>

definition changed :: "(ctrl_regs \<Rightarrow> 'r) \<Rightarrow> 's nvmev_dev \<Rightarrow> bool" where
  "changed f d \<longleftrightarrow> f (old_bar d) \<noteq> f (bar d)"

text \<open>The queue that the registers describe, from the queue there was.\<close>

definition queue_after :: "'s nvmev_dev \<Rightarrow> admin_queue \<Rightarrow> admin_queue" where
  "queue_after d q =
     (let r = bar d; aqa = changed reg_aqa d; asq = changed reg_asq d; acq = changed reg_acq d; ns = aqa_asqs (reg_aqa r) + 1; nc = aqa_acqs (reg_aqa r) + 1 in
      \<lparr>aq_phase = (if aqa \<or> acq then True else aq_phase q),
        sq_depth = (if aqa \<or> asq then ns else sq_depth q), cq_depth = (if aqa \<or> acq then nc else cq_depth q),
        aq_cq_head = (if aqa \<or> acq \<or> (changed reg_cc d \<and> cc_shn (reg_cc r) = 1) then 0 else aq_cq_head q),
        nvme_sq = (if asq then Some (ring_page_list (reg_asq r) ns 64) else nvme_sq q),
        nvme_cq = (if acq then Some (ring_page_list (reg_acq r) nc 16) else nvme_cq q)\<rparr>)"

definition bars_done :: "'s nvmev_dev \<Rightarrow> admin_queue \<Rightarrow> 's nvmev_dev \<Rightarrow> bool" where
  "bars_done d q d' \<longleftrightarrow> admin_q d' = Some (queue_after d q) \<and> \<not> changed reg_aqa d' \<and> \<not> changed reg_asq d' \<and> \<not> changed reg_acq d' \<and>
     \<not> changed reg_cc d' \<and> bar d' = (bar d)\<lparr>reg_csts := reg_csts (bar d')\<rparr> \<and> vd_io d' = vd_io d \<and> tables_ok d' \<and>
     csts_rdy (reg_csts (bar d')) = (if changed reg_cc d then cc_en (reg_cc (bar d)) else csts_rdy (reg_csts (bar d)))"

fun run_bars :: "nat \<Rightarrow> 's nvmev_dev \<Rightarrow> 's nvmev_dev option" where
  "run_bars 0 d = Some d"
| "run_bars (Suc n) d = do { (found, d) \<leftarrow> nvmev_proc_bars d; if found then run_bars n d else Some d }"

lemma bars_settled: "bars_done d q d' \<Longrightarrow> nvmev_proc_bars d' = Some (False, d')"
  by (simp add: bars_done_def changed_def nvmev_proc_bars_def Let_def)

lemma run_bars_more: "run_bars n d = Some d' \<Longrightarrow> nvmev_proc_bars d' = Some (False, d') \<Longrightarrow> run_bars (Suc n) d = Some d'"
proof (induction n arbitrary: d)
  case (Suc n)
  obtain f d1 where r: "nvmev_proc_bars d = Some (f, d1)" using Suc.prems(1) by (cases "nvmev_proc_bars d") auto
  then show ?case using Suc by (cases f) auto
qed simp

lemma same_bar [simp]: "r\<lparr>reg_csts := reg_csts r\<rparr> = r"
  by (cases r) simp

lemma bars_cc_done:
  assumes "tables_ok d" "admin_q d = Some q" "\<not> changed reg_aqa d" "\<not> changed reg_asq d" "\<not> changed reg_acq d"
  shows "\<exists>d'. run_bars 1 d = Some d' \<and> bars_done d q d'"
proof (cases "changed reg_cc d")
  case False
  then have "nvmev_proc_bars d = Some (False, d)" using assms by (simp add: nvmev_proc_bars_def changed_def Let_def)
  moreover have "queue_after d q = q" using assms(3-5) False by (simp add: queue_after_def Let_def)
  ultimately show ?thesis using assms False by (intro exI[of _ d]) (simp add: bars_done_def)
next
  case True
  have t: "length (dbs d) = 1024" "length (old_dbs d) = 1024" using assms(1) by (simp_all add: tables_ok_def)
  note defs = bars_cc_def Let_def mod_bar_def mod_old_def set_db_def
  have "\<exists>d'. bars_cc d = Some d'" using assms(2) t by (simp add: defs)
  then obtain d' where r: "bars_cc d = Some d'" by blast
  then have "bars_done d q d'"
    using assms True t by (cases "cc_en (reg_cc (bar d))"; cases "cc_shn (reg_cc (bar d)) = 1")
      (auto simp: defs bars_done_def changed_def queue_after_def tables_ok_def)
  with r have d': "bars_cc d = Some d'" "bars_done d q d'" by blast+
  have "nvmev_proc_bars d = Some (True, d')" using d'(1) assms(3-5) True by (simp add: nvmev_proc_bars_def changed_def Let_def)
  then show ?thesis using d'(2) by (intro exI[of _ d']) simp
qed

text \<open>The other registers: what is left to do, and what the steps before it have done.\<close>

lemma bars_done_step:
  assumes "nvmev_proc_bars d = Some (True, d1)" "\<exists>d'. run_bars n d1 = Some d' \<and> bars_done d1 q1 d'"
    and "\<And>d'. bars_done d1 q1 d' \<Longrightarrow> bars_done d q d'"
  shows "\<exists>d'. run_bars (Suc n) d = Some d' \<and> bars_done d q d'"
  using assms by auto

lemma bars_done_skip:
  assumes "\<exists>d'. run_bars n d = Some d' \<and> bars_done d q d'"
  shows "\<exists>d'. run_bars (Suc n) d = Some d' \<and> bars_done d q d'"
  using assms run_bars_more bars_settled by blast

lemma bars_acq_done:
  assumes "tables_ok d" "admin_q d = Some q" "\<not> changed reg_aqa d" "\<not> changed reg_asq d"
  shows "\<exists>d'. run_bars 2 d = Some d' \<and> bars_done d q d'"
proof (cases "changed reg_acq d")
  case False
  then show ?thesis using bars_done_skip[OF bars_cc_done[OF assms False]] by (simp add: numeral_2_eq_2)
next
  case True
  have t: "length (dbs d) = 1024" "length (old_dbs d) = 1024" using assms(1) by (simp_all add: tables_ok_def)
  have "\<exists>d1. bars_acq d = Some d1" using assms(2) t by (simp add: bars_acq_def set_db_def mod_old_def Let_def)
  then obtain d1 where r: "bars_acq d = Some d1" by blast
  define q1 where "q1 = q\<lparr>cq_depth := aqa_acqs (reg_aqa (bar d)) + 1, aq_cq_head := 0, aq_phase := True,
         nvme_cq := Some (ring_page_list (reg_acq (bar d)) (aqa_acqs (reg_aqa (bar d)) + 1) 16)\<rparr>"
  have d1: "tables_ok d1" "admin_q d1 = Some q1" "bar d1 = bar d" "old_bar d1 = (old_bar d)\<lparr>reg_acq := reg_acq (bar d)\<rparr>" "vd_io d1 = vd_io d"
    using r assms(1,2) t by (auto simp: bars_acq_def set_db_def mod_old_def Let_def tables_ok_def q1_def)
  have p: "nvmev_proc_bars d = Some (True, d1)" using r assms(3,4) True by (simp add: nvmev_proc_bars_def changed_def Let_def)
  have "\<exists>d'. run_bars 1 d1 = Some d' \<and> bars_done d1 q1 d'"
    by (rule bars_cc_done[OF d1(1,2)]) (use d1(3,4) assms(3,4) in \<open>simp_all add: changed_def\<close>)
  from bars_done_step[OF p this, of q] show ?thesis
    using d1(3-5) assms(3,4) True by (auto simp: bars_done_def changed_def queue_after_def q1_def Let_def numeral_2_eq_2)
qed

lemma bars_asq_done:
  assumes "tables_ok d" "admin_q d = Some q" "\<not> changed reg_aqa d"
  shows "\<exists>d'. run_bars 3 d = Some d' \<and> bars_done d q d'"
proof (cases "changed reg_asq d")
  case False
  then show ?thesis using bars_done_skip[OF bars_acq_done[OF assms False]] by (simp add: numeral_3_eq_3 numeral_2_eq_2)
next
  case True
  have t: "length (dbs d) = 1024" "length (old_dbs d) = 1024" using assms(1) by (simp_all add: tables_ok_def)
  have "\<exists>d1. bars_asq d = Some d1" using assms(2) t by (simp add: bars_asq_def set_db_def mod_old_def Let_def)
  then obtain d1 where r: "bars_asq d = Some d1" by blast
  define q1 where "q1 = q\<lparr>sq_depth := aqa_asqs (reg_aqa (bar d)) + 1,
         nvme_sq := Some (ring_page_list (reg_asq (bar d)) (aqa_asqs (reg_aqa (bar d)) + 1) 64)\<rparr>"
  have d1: "tables_ok d1" "admin_q d1 = Some q1" "bar d1 = bar d" "old_bar d1 = (old_bar d)\<lparr>reg_asq := reg_asq (bar d)\<rparr>" "vd_io d1 = vd_io d"
    using r assms(1,2) t by (auto simp: bars_asq_def set_db_def mod_old_def Let_def tables_ok_def q1_def)
  have p: "nvmev_proc_bars d = Some (True, d1)" using r assms(3) True by (simp add: nvmev_proc_bars_def changed_def Let_def)
  have "\<exists>d'. run_bars 2 d1 = Some d' \<and> bars_done d1 q1 d'"
    by (rule bars_acq_done[OF d1(1,2)]) (use d1(3,4) assms(3) in \<open>simp_all add: changed_def\<close>)
  from bars_done_step[OF p this, of q] show ?thesis
    using d1(3-5) assms(3) True by (auto simp: bars_done_def changed_def queue_after_def q1_def Let_def numeral_3_eq_3 numeral_2_eq_2)
qed

text \<open>The queue from which the registers are processed: a new one when there is none.\<close>

definition queue_before :: "'s nvmev_dev \<Rightarrow> admin_queue" where
  "queue_before d = (case admin_q d of None \<Rightarrow> zero_queue | Some q \<Rightarrow> q)"

lemma bars_all_done:
  assumes "tables_ok d" "admin_q d \<noteq> None \<or> changed reg_aqa d"
  shows "\<exists>d'. run_bars 4 d = Some d' \<and> bars_done d (queue_before d) d'"
proof (cases "changed reg_aqa d")
  case False
  then obtain q where "admin_q d = Some q" using assms(2) by auto
  then show ?thesis using bars_done_skip[OF bars_asq_done[OF assms(1) _ False]] by (simp add: queue_before_def numeral_3_eq_3 numeral_eq_Suc)
next
  case True
  have t: "length (dbs d) = 1024" "length (old_dbs d) = 1024" using assms(1) by (simp_all add: tables_ok_def)
  have "\<exists>d1. bars_aqa d = Some d1" using t by (simp add: bars_aqa_def set_db_def mod_old_def Let_def)
  then obtain d1 where r: "bars_aqa d = Some d1" by blast
  define q1 where "q1 = (queue_before d)\<lparr>aq_cq_head := 0, aq_phase := True, sq_depth := aqa_asqs (reg_aqa (bar d)) + 1,
    cq_depth := aqa_acqs (reg_aqa (bar d)) + 1\<rparr>"
  have d1: "tables_ok d1" "admin_q d1 = Some q1" "bar d1 = bar d" "old_bar d1 = (old_bar d)\<lparr>reg_aqa := reg_aqa (bar d)\<rparr>" "vd_io d1 = vd_io d"
    using r assms(1) t by (auto simp: bars_aqa_def set_db_def mod_old_def Let_def tables_ok_def q1_def queue_before_def)
  have p: "nvmev_proc_bars d = Some (True, d1)" using r True by (simp add: nvmev_proc_bars_def changed_def Let_def)
  have "\<exists>d'. run_bars 3 d1 = Some d' \<and> bars_done d1 q1 d'"
    by (rule bars_asq_done[OF d1(1,2)]) (use d1(3,4) in \<open>simp_all add: changed_def\<close>)
  from bars_done_step[OF p this, of "queue_before d"] show ?thesis
    using d1(3-5) True by (auto simp: bars_done_def changed_def queue_after_def q1_def Let_def numeral_eq_Suc)
qed

text \<open>Without it there is no progress: the address of a queue is looked at again and again.\<close>

lemma bars_retry: "admin_q d = None \<Longrightarrow> \<not> changed reg_aqa d \<Longrightarrow> changed reg_asq d \<or> changed reg_acq d \<Longrightarrow> nvmev_proc_bars d = Some (True, d)"
  by (auto simp: nvmev_proc_bars_def changed_def bars_asq_def bars_acq_def Let_def)

end
