(* ===== verification/Vdev_System.thy ===== *)
theory Vdev_System
  imports Vdev_Bars
begin

unbundle bit_operations_syntax

text \<open>
  The whole device: the host, which writes registers, doorbells, its memory and the entries of its
  submission queues, the dispatcher, which takes turns, and the workers, which move step by step.
  Seen through its I/O system each of these is a sequence of the steps that the invariant of the
  workers is proved on; so from power-on on every state has its shape, and every command taken is
  finished once.
\<close>

subsection \<open>The dispatcher as steps of the I/O system\<close>

definition same_io_d :: "'s nvmev_dev \<Rightarrow> 's nvmev_dev \<Rightarrow> bool" where
  "same_io_d d d' \<longleftrightarrow> io_d (vd_io d') = io_d (vd_io d) \<and> fst (io_data (vd_io d')) = fst (io_data (vd_io d))"

lemma same_io_d_refl [simp]: "same_io_d d d"
  by (simp add: same_io_d_def)

lemma same_io_d_trans: "same_io_d d d' \<Longrightarrow> same_io_d d' d'' \<Longrightarrow> same_io_d d d''"
  by (simp add: same_io_d_def)

lemma same_io_d_reaches: "same_io_d d d' \<Longrightarrow> reaches perf (vd_io d, pc) (vd_io d', pc)"
  by (rule reaches_step, rule io_step.environment) (simp add: same_io_d_def)

lemma set_db_io: "set_db i d = Some d' \<Longrightarrow> vd_io d' = vd_io d"
  by (auto simp: set_db_def split: bind_splits)

lemma set_old_io: "set_old i v d = Some d' \<Longrightarrow> vd_io d' = vd_io d"
  by (auto simp: set_old_def split: bind_splits)

lemma make_cq_io: "make_cq_entry_results eid st r0 r1 d = Some d' \<Longrightarrow> same_io_d d d'"
  by (auto simp: make_cq_entry_results_def same_io_d_def set_mem_def Let_def split: bind_splits)

lemma make_cq_mem_io: "make_cq_entry eid st (set_mem d m) = Some d' \<Longrightarrow> same_io_d d d'"
  by (auto simp: make_cq_entry_def same_io_d_def set_mem_def dest!: make_cq_io)

lemma make_cq_here_io: "make_cq_entry eid st d = Some d' \<Longrightarrow> same_io_d d d'"
  by (auto simp: make_cq_entry_def dest: make_cq_io)

lemma data_cmds_io:
  "nvmev_admin_get_log_page z eid d = Some d' \<Longrightarrow> same_io_d d d'"
  "nvmev_admin_identify_namespace lb eid d = Some d' \<Longrightarrow> same_io_d d d'"
  "nvmev_admin_identify_namespaces eid d = Some d' \<Longrightarrow> same_io_d d d'"
  "nvmev_admin_identify_namespace_desc eid d = Some d' \<Longrightarrow> same_io_d d d'"
  "nvmev_admin_identify_zns_namespace lb eid d = Some d' \<Longrightarrow> same_io_d d d'"
  "nvmev_admin_identify_zns_ctrl eid d = Some d' \<Longrightarrow> same_io_d d d'"
  "nvmev_admin_identify_ctrl eid d = Some d' \<Longrightarrow> same_io_d d d'"
  unfolding data_cmd_defs Let_def by (auto elim!: bind_SomeE dest: make_cq_mem_io make_cq_here_io split: prod.splits if_splits)

lemma identify_io: "nvmev_admin_identify lb eid d = Some d' \<Longrightarrow> same_io_d d d'"
  unfolding nvmev_admin_identify_def Let_def by (auto elim!: bind_SomeE dest: data_cmds_io make_cq_here_io split: if_splits)

lemma queue_cmds_io:
  "nvmev_admin_create_cq eid d = Some d' \<Longrightarrow> same_io_d d d'" "nvmev_admin_delete_cq eid d = Some d' \<Longrightarrow> same_io_d d d'"
  "nvmev_admin_create_sq eid d = Some d' \<Longrightarrow> same_io_d d d'" "nvmev_admin_delete_sq eid d = Some d' \<Longrightarrow> same_io_d d d'"
  unfolding nvmev_admin_create_cq_def nvmev_admin_delete_cq_def nvmev_admin_create_sq_def nvmev_admin_delete_sq_def Let_def
  by (auto elim!: bind_SomeE dest!: make_cq_here_io set_db_io simp: same_io_d_def)

lemma features_io: "nvmev_admin_set_features eid d = Some d' \<Longrightarrow> same_io_d d d'" "nvmev_admin_get_features eid d = Some d' \<Longrightarrow> same_io_d d d'"
  unfolding nvmev_admin_set_features_def nvmev_admin_get_features_def Let_def
  by (auto elim!: bind_SomeE dest!: make_cq_io simp: same_io_d_def split: if_splits)

lemma admin_req_io: "nvmev_proc_admin_req b eid d = Some d' \<Longrightarrow> same_io_d d d'"
  unfolding nvmev_proc_admin_req_def Let_def nvmev_admin_async_event_def
  by (auto elim!: bind_SomeE split: if_splits intro: queue_cmds_io features_io data_cmds_io(1) identify_io make_cq_here_io)

lemma admin_sq_loop_io: "admin_sq_loop b n cur d = Some d' \<Longrightarrow> same_io_d d d'"
proof (induction n arbitrary: cur d)
  case (Suc n)
  then show ?case by (auto elim!: bind_SomeE dest!: admin_req_io) (blast intro: same_io_d_trans)
qed (simp add: same_io_d_def)

lemma proc_admin_sq_io: "nvmev_proc_admin_sq b new_db old_db d = Some d' \<Longrightarrow> same_io_d d d'"
  unfolding nvmev_proc_admin_sq_def Let_def
  by (auto elim!: bind_SomeE dest!: admin_sq_loop_io simp: same_io_d_def nvmev_signal_irq_def)

lemma proc_db_admin_io: "proc_db_admin b d = Some (u, d') \<Longrightarrow> same_io_d d d'"
  unfolding proc_db_admin_def Let_def
  by (auto elim!: bind_SomeE split: if_splits prod.splits dest!: proc_admin_sq_io set_old_io simp: same_io_d_def)

lemma proc_bars_io: "nvmev_proc_bars d = Some (f, d') \<Longrightarrow> same_io_d d d'"
  by (auto simp: nvmev_proc_bars_def bars_aqa_def bars_asq_def bars_acq_def bars_cc_def mod_bar_def mod_old_def Let_def same_io_d_def
      split: bind_splits option.splits if_splits dest!: set_db_io)

lemma proc_db_sq_reaches:
  assumes "proc_db_sq kv proc nows (u, d) qid = Some r"
  shows "reaches perf (vd_io d, pc) (vd_io (snd r), pc)"
  using assms
proof (cases rule: proc_db_sq_cases)
  case (2 new_db old_db db io d')
  then show ?thesis using nvmev_proc_io_sq_run[OF 2(1)] set_old_io[OF 2(2)] by simp
qed simp

lemma proc_db_cq_reaches:
  assumes "proc_db_cq (u, d) qid = Some r"
  shows "reaches perf (vd_io d, pc) (vd_io (snd r), pc)"
  using assms
proof (cases rule: proc_db_cq_cases)
  case (2 new_db old_db io d')
  then show ?thesis using nvmev_proc_io_cq_run[OF 2(1)] set_old_io[OF 2(2)] by simp
qed simp

lemma opt_fold_reaches:
  assumes "opt_fold f s xs = Some r" "\<And>u d x r. f (u, d) x = Some r \<Longrightarrow> reaches perf (vd_io d, pc) (vd_io (snd r), pc)"
  shows "reaches perf (vd_io (snd s), pc) (vd_io (snd r), pc)"
  using assms(1)
proof (induction xs arbitrary: s)
  case (Cons x xs)
  then obtain s1 where s1: "f (fst s, snd s) x = Some s1" "opt_fold f s1 xs = Some r" by (auto elim!: bind_SomeE)
  then show ?case using reaches_trans[OF assms(2)[OF s1(1)] Cons.IH[OF s1(2)]] by simp
qed simp

lemma nvmev_proc_dbs_reaches:
  assumes "nvmev_proc_dbs b kv proc nows d = Some (u, d')"
  shows "reaches perf (vd_io d, pc) (vd_io d', pc)"
proof -
  obtain u1 d1 u2 d2 where r: "proc_db_admin b d = Some (u1, d1)" "opt_fold (proc_db_sq kv proc nows) (u1, d1) [1..<unat (nr_sq d1) + 1] = Some (u2, d2)"
    "opt_fold proc_db_cq (u2, d2) [1..<unat (nr_cq d2) + 1] = Some (u, d')"
    using assms(1) by (auto simp: nvmev_proc_dbs_def elim!: bind_SomeE)
  have "reaches perf (vd_io d, pc) (vd_io d1, pc)" by (rule same_io_d_reaches[OF proc_db_admin_io[OF r(1)]])
  also have "reaches perf (vd_io d1, pc) (vd_io d2, pc)" using opt_fold_reaches[OF r(2) proc_db_sq_reaches] by simp
  also have "reaches perf (vd_io d2, pc) (vd_io d', pc)" using opt_fold_reaches[OF r(3) proc_db_cq_reaches] by simp
  finally show ?thesis .
qed

lemma dispatcher_turn_reaches:
  assumes "nvmev_dispatcher_turn b kv proc nows d = Some d'"
  shows "reaches perf (vd_io d, pc) (vd_io d', pc)"
proof -
  obtain f d1 u where r: "nvmev_proc_bars d = Some (f, d1)" "nvmev_proc_dbs b kv proc nows d1 = Some (u, d')"
    using assms(1) by (auto simp: nvmev_dispatcher_turn_def elim!: bind_SomeE)
  from same_io_d_reaches[OF proc_bars_io[OF r(1)]] nvmev_proc_dbs_reaches[OF r(2)] show ?thesis by (rule reaches_trans)
qed

subsection \<open>Host, dispatcher and workers\<close>

text \<open>
  The host writes the registers (but for the status), the doorbells, its memory, and the entries of
  the submission queues, which are part of that memory.
\<close>

definition host_ring :: "submission_queue option \<Rightarrow> submission_queue option \<Rightarrow> bool" where
  "host_ring q q' \<longleftrightarrow> (case q of None \<Rightarrow> q' = None | Some sq \<Rightarrow> \<exists>r. length r = length (sq_ring sq) \<and> q' = Some (sq\<lparr>sq_ring := r\<rparr>))"

definition host_write :: "'s nvmev_dev \<Rightarrow> 's nvmev_dev \<Rightarrow> bool" where
  "host_write d d' \<longleftrightarrow> (\<exists>r l m sqs. reg_csts r = reg_csts (bar d) \<and> length l = length (dbs d) \<and> list_all2 host_ring (io_sqs (vd_io d)) sqs \<and>
     d' = d\<lparr>bar := r, dbs := l, vd_io := (vd_io d)\<lparr>io_sqs := sqs, io_data := (fst (io_data (vd_io d)), m)\<rparr>\<rparr>)"

inductive vdev_step :: "vdev_build \<Rightarrow> bool \<Rightarrow> ('s \<times> host_mem) proc_io \<Rightarrow> ('s \<times> host_mem) perform \<Rightarrow>
    's nvmev_dev \<times> (nat \<Rightarrow> worker_pc) \<Rightarrow> 's nvmev_dev \<times> (nat \<Rightarrow> worker_pc) \<Rightarrow> bool" for b kv proc perf where
  host: "host_write d d' \<Longrightarrow> vdev_step b kv proc perf (d, pc) (d', pc)"
| turn: "nvmev_dispatcher_turn b kv proc nows d = Some d' \<Longrightarrow> vdev_step b kv proc perf (d, pc) (d', pc)"
| worker: "io_step perf (vd_io d, pc) es (io, pc') \<Longrightarrow> pc' \<noteq> pc \<Longrightarrow> vdev_step b kv proc perf (d, pc) (d\<lparr>vd_io := io\<rparr>, pc')"
| signal: "worker_signal lock (unat (nr_cq d)) k (vd_io d) = Some (is, io) \<Longrightarrow>
    vdev_step b kv proc perf (d, pc) (d\<lparr>vd_io := io, irqs := irqs d @ map Msi is\<rparr>, pc)"

inductive vdev_reach :: "vdev_build \<Rightarrow> bool \<Rightarrow> ('s \<times> host_mem) proc_io \<Rightarrow> ('s \<times> host_mem) perform \<Rightarrow> 's nvmev_dev \<Rightarrow>
    's nvmev_dev \<times> (nat \<Rightarrow> worker_pc) \<Rightarrow> bool" for b kv proc perf d0 where
  start: "vdev_reach b kv proc perf d0 (d0, \<lambda>_. Idle)"
| step: "vdev_reach b kv proc perf d0 s \<Longrightarrow> vdev_step b kv proc perf s s' \<Longrightarrow> vdev_reach b kv proc perf d0 s'"

lemma host_write_shape:
  assumes "host_write d d'" "vdev_shape d"
  shows "vdev_shape d'"
proof -
  obtain r l m sqs where h: "length l = length (dbs d)" "list_all2 host_ring (io_sqs (vd_io d)) sqs"
    "d' = d\<lparr>bar := r, dbs := l, vd_io := (vd_io d)\<lparr>io_sqs := sqs, io_data := (fst (io_data (vd_io d)), m)\<rparr>\<rparr>"
    using assms(1) by (auto simp: host_write_def)
  have len: "length sqs = length (io_sqs (vd_io d))" using list_all2_lengthD[OF h(2)] by simp
  have "0 < sq_queue_size sq \<and> sq_queue_size sq \<le> length (sq_ring sq)" if sq: "Some sq \<in> set sqs" for sq
  proof -
    obtain i where i: "i < length sqs" "sqs ! i = Some sq" using sq by (auto simp: in_set_conv_nth)
    then have "host_ring (io_sqs (vd_io d) ! i) (Some sq)" using list_all2_nthD2[OF h(2), of i] by simp
    then obtain sq0 r where s0: "io_sqs (vd_io d) ! i = Some sq0" "length r = length (sq_ring sq0)" "sq = sq0\<lparr>sq_ring := r\<rparr>"
      by (auto simp: host_ring_def split: option.splits)
    have "sqs_shape (io_sqs (vd_io d))" using assms(2) by (simp add: vdev_shape_def io_shape_def)
    from sqs_shape_get[OF this _ s0(1)] i(1) len s0(2,3) show ?thesis by simp
  qed
  then have "sqs_shape sqs" using assms(2) len by (simp add: sqs_shape_def vdev_shape_def io_shape_def)
  then show ?thesis using assms(2) h(1) len unfolding h(3) by (simp add: vdev_shape_def io_shape_def tables_ok_def)
qed

lemma worker_step_shape:
  assumes "io_step perf (s, pc) es (s', pc')" "pc' \<noteq> pc" "io_shape s"
  shows "io_shape s'"
  using assms(1)
proof (cases rule: io_step.cases)
  case look
  then show ?thesis using assms(3) by (auto simp: mod_worker_def io_shape_def split: bind_splits)
next
  case copy
  then show ?thesis using assms(3) by (auto simp: io_shape_def dest!: worker_copy_queues)
next
  case complete
  then show ?thesis using assms(3) worker_complete_shape by blast
qed (use assms(2,3) in auto)

lemma vdev_step_shape: "vdev_step b kv proc perf s s' \<Longrightarrow> vdev_shape (fst s) \<Longrightarrow> vdev_shape (fst s')"
proof (induction rule: vdev_step.induct)
  case (worker d pc es io pc')
  then have "io_shape io" using worker_step_shape by (auto simp: vdev_shape_def)
  then show ?case using worker by (simp add: vdev_shape_io)
next
  case (signal lock d k "is" io pc)
  then have "io_shape io" using worker_signal_shape by (auto simp: vdev_shape_def)
  then have "vdev_shape (d\<lparr>vd_io := io\<rparr>)" using signal by (simp add: vdev_shape_io)
  then show ?case by (simp add: vdev_shape_def tables_ok_def)
qed (auto intro: host_write_shape dispatcher_turn_shape)

lemma vdev_step_reaches: "vdev_step b kv proc perf s s' \<Longrightarrow> reaches perf (vd_io (fst s), snd s) (vd_io (fst s'), snd s')"
proof (induction rule: vdev_step.induct)
  case (host d d' pc)
  then show ?case using same_io_d_reaches[of d d'] by (auto simp: host_write_def same_io_d_def)
next
  case (turn nows d d' pc)
  then show ?case using dispatcher_turn_reaches by simp
next
  case (worker d pc es io pc')
  then show ?case using reaches_step by simp
next
  case (signal lock d k "is" io pc)
  then have "io_d io = io_d (vd_io d)" by (rule worker_signal_io_d)
  then have "reaches perf (vd_io d, pc) (io, pc)" by (rule reaches_step[OF io_step.environment])
  then show ?case by simp
qed

lemma vdev_reach_shape: "vdev_reach b kv proc perf d0 s \<Longrightarrow> vdev_shape d0 \<Longrightarrow> vdev_shape (fst s)"
  by (induction rule: vdev_reach.induct) (auto intro: vdev_step_shape)

lemma vdev_reach_reaches: "vdev_reach b kv proc perf d0 s \<Longrightarrow> reaches perf (vd_io d0, \<lambda>_. Idle) (vd_io (fst s), snd s)"
proof (induction rule: vdev_reach.induct)
  case (step s s')
  show ?case by (rule reaches_trans[OF step.IH vdev_step_reaches[OF step.hyps(2)]])
qed simp

end
