(* ===== verification/Vdev_Correct.thy ===== *)
theory Vdev_Correct
  imports Vdev_System Io_Transfer
begin

unbundle bit_operations_syntax

text \<open>
  The properties of the device around its translation layers: registers, admin queue, queues and
  doorbells. The witnesses run on a device with one namespace and four admin commands in memory.
\<close>

subsection \<open>The rings of a queue that is created\<close>

lemma ring_entry_addr:
  assumes "sz dvd PAGE_SIZE" "0 < sz"
  shows "ring_entry p sz k = unat p + sz * k"
proof -
  obtain n where n: "PAGE_SIZE = sz * n" using assms(1) by (auto simp: dvd_def)
  have "PAGE_SIZE div sz = n" unfolding n using assms(2) by simp
  moreover have "k div n * PAGE_SIZE + sz * (k mod n) = sz * k"
    unfolding n using div_mult_mod_eq[of k n] by (metis add_mult_distrib2 mult.assoc mult.commute)
  ultimately show ?thesis
    using prp_addr_of_nat[of p] by (simp add: ring_entry_def Let_def prp_addr_of_def page_off_def algebra_simps)
qed

lemma cqe_phase_byte: "cqe_phase (cqe_at m a) = bit (m (a + 14)) 0"
proof -
  have "host_get m (a + 14) 2 = [m (a + 14), m (a + 15)]" 
    by (rule nth_equalityI) (auto simp: host_get_nth less_2_cases_iff ac_simps)
  then have "host_read 2 m (a + 14) = ucast (m (a + 14)) OR push_bit 8 (ucast (m (a + 15)))" by (simp add: host_read_def)
  then show ?thesis by (simp add: cqe_phase_def cqe_at_def bit_or_iff bit_unsigned_iff bit_push_bit_iff del: push_bit_numeral)
qed

text \<open>No entry of a ring has its phase bit set: as the host leaves it that has cleared the memory.\<close>

definition ring_cleared :: "host_mem \<Rightarrow> nat \<Rightarrow> nat \<Rightarrow> bool" where
  "ring_cleared m a n \<longleftrightarrow> (\<forall>k < n. \<not> bit (m (a + 16 * k + 14)) 0)"

lemma new_cq_clean:
  assumes "ring_cleared m (unat (host_read 8 m (c + 24))) (unat (host_read 2 m (c + 42)) + 1)"
  shows "cq_clean (new_cq m c)"
proof -
  let ?n = "unat (host_read 2 m (c + 42)) + 1" and ?p = "host_read 8 m (c + 24)"
  have l: "?n \<le> ring_pages ?n 16 * (PAGE_SIZE div 16)" using ring_at_long[of 16 ?n cqe_at m ?p] by (simp add: ring_at_def PAGE_SIZE_def)
  have "\<not> cqe_phase (cq_ring (new_cq m c) ! k)" if "k < ?n" for k
  proof -
    have "k < ring_pages ?n 16 * (PAGE_SIZE div 16)" using that l by (rule less_le_trans)
    then have "cq_ring (new_cq m c) ! k = cqe_at m (ring_entry ?p 16 k)" by (simp add: new_cq_def ring_at_def Let_def)
    then show ?thesis using assms that by (simp add: ring_cleared_def cqe_phase_byte ring_entry_addr PAGE_SIZE_def)
  qed
  moreover have "cq_queue_size (new_cq m c) = ?n" "cq_head (new_cq m c) = 0" "cq_phase (new_cq m c)" by (simp_all add: new_cq_def Let_def)
  ultimately show ?thesis using new_cq_ok by (simp add: cq_clean_def)
qed

lemma admin_cq_clean:
  assumes "ring_cleared m cb (cq_depth q)" "0 < cq_depth q" "aq_cq_head q = 0" "aq_phase q"
  shows "cq_clean (admin_cq q cb m)"
  using assms by (simp add: cq_clean_def cq_ok_def admin_cq_def cqe_phase_byte ring_cleared_def)

text \<open>What a host that polls reads, given what was posted.\<close>

definition cqe_answer :: "nvme_completion \<Rightarrow> u16 \<times> u16 \<times> u16" where
  "cqe_answer e = (cqe_command_id e, cqe_sq_head e, drop_bit 1 (cqe_status e))"

lemma info_answers: "map cqe_info es = map work_info ws \<Longrightarrow> map cqe_answer es = map work_answer ws"
proof (induction es arbitrary: ws)
  case (Cons e es)
  then obtain w vs where "ws = w # vs" by (cases ws) auto
  then show ?case using Cons by (auto simp: cqe_info_def work_info_def cqe_answer_def work_answer_def)
qed simp

lemma post_all_read:
  assumes "cq_clean cq" "length ws \<le> cq_queue_size cq" "post_all cq ws = Some cq'"
  shows "cq_clean cq' \<and> map cqe_info (host_reads (cq_queue_size cq) cq' (cq_head cq) (cq_phase cq)) = map work_info ws"
proof -
  have h: "cq_head cq < cq_queue_size cq" using assms(1) by (simp add: cq_clean_def cq_ok_def)
  have p: "posted (cq_queue_size cq) (cq_head cq) (cq_phase cq) ws cq'" using post_all_posted[OF assms(1,2)] assms(3) by auto
  show ?thesis
    using host_reads_posted[OF p h _ assms(2), of 0] pos_0[OF h, of "cq_phase cq"] p by (auto simp: posted_def)
qed

lemma post_all_total: "cq_ok cq \<Longrightarrow> \<exists>cq'. post_all cq ws = Some cq'"
proof (induction ws arbitrary: cq)
  case (Cons w ws)
  have "\<exists>c. post_completion cq w = Some c \<and> cq_ok c" using Cons.prems unfolding post_completion_ok[OF Cons.prems] by (auto simp: cq_ok_def)
  then show ?case using Cons.IH by fastforce
qed simp

subsection \<open>The admin queue\<close>

text \<open>C9. The doorbell of the admin queue announces commands. If each of them can be carried out and
  keeps its data off the rings, the device carries out all of them and raises one interrupt, and the
  host that polls from where it stopped reads one completion for each, in order, with the number of
  the command, its entry and its status: for each but an abort, which gets none.\<close>

theorem admin_sq_completes:
  assumes "admin_q d = Some q" "admin_ready q sb cb" "cq_clean (admin_cq q cb (dev_mem d))" "tables_ok d" "length (vd_ns d) \<le> 2"
    and "old_db < sq_depth q" "new_db < sq_depth q"
    and "es = ring_walk (sq_depth q) (if new_db < old_db then new_db + sq_depth q - old_db else new_db - old_db) old_db"
    and "\<forall>e \<in> set es. entry_ok b (vd_ns d) q sb cb (dev_mem d) e" "length es \<le> cq_depth q"
  shows "\<exists>d' q'. nvmev_proc_admin_sq b (int new_db) (int old_db) d = Some d' \<and> admin_q d' = Some q' \<and> admin_ready q' sb cb \<and>
    length (irqs d') = length (irqs d) + 1 \<and> cq_clean (admin_cq q' cb (dev_mem d')) \<and>
    map cqe_answer (host_reads (cq_depth q) (admin_cq q' cb (dev_mem d')) (aq_cq_head q) (aq_phase q)) = admin_answers (dev_mem d) sb es"
proof -
  let ?n = "if new_db < old_db then new_db + sq_depth q - old_db else new_db - old_db"
  obtain d1 q' ws where l: "admin_sq_loop b ?n old_db d = Some d1" "admin_q d1 = Some q'" "admin_ready q' sb cb" "admin_rest d d1"
    "post_all (admin_cq q cb (dev_mem d)) ws = Some (admin_cq q' cb (dev_mem d1))" "map work_answer ws = admin_answers (dev_mem d) sb es"
    using admin_sq_loop_posts[OF assms(1,2,6,4,5), of ?n b] assms(8,9) by auto
  have "nvmev_proc_admin_sq b (int new_db) (int old_db) d = Some (nvmev_signal_irq 0 d1)"
  proof (cases "new_db < old_db")
    case True
    then have "nat (int new_db - int old_db + int (sq_depth q)) = ?n" by simp
    then show ?thesis using True assms(1) l(1) by (simp add: nvmev_proc_admin_sq_def)
  next
    case False
    then have "nat (int new_db - int old_db) = ?n" by simp
    then show ?thesis using False assms(1) l(1) by (simp add: nvmev_proc_admin_sq_def)
  qed
  moreover have "admin_q (nvmev_signal_irq 0 d1) = Some q'" "dev_mem (nvmev_signal_irq 0 d1) = dev_mem d1" "length (irqs (nvmev_signal_irq 0 d1)) = length (irqs d1) + 1"
    using l(2) by (simp_all add: nvmev_signal_irq_def dev_mem_def)
  moreover have "length ws \<le> cq_queue_size (admin_cq q cb (dev_mem d))"

  proof -
    have "length ws = length (admin_answers (dev_mem d) sb es)" using l(6) length_map by metis
    also have "\<dots> \<le> length es" by (simp add: admin_answers_def)
    finally show ?thesis using assms(10) by (simp add: admin_cq_def)
  qed
  from post_all_read[OF assms(3) this l(5)] have "cq_clean (admin_cq q' cb (dev_mem d1))"
    "map cqe_answer (host_reads (cq_depth q) (admin_cq q' cb (dev_mem d1)) (aq_cq_head q) (aq_phase q)) = map work_answer ws"
    using info_answers by (auto simp: admin_cq_def)
  ultimately show ?thesis using l(3,4,6) by (auto simp: admin_rest_def)
qed

text \<open>C34. Creating a completion queue with one of the numbers of the table makes a queue of the size
  asked for, takes back its doorbell and leaves the other queues as they are; and if the host has
  cleared the memory of its entries, then whatever the workers post to the new queue, up to its
  size, the host reads from entry 0 on with phase 1.\<close>

theorem create_cq_ready:
  assumes "admin_q d = Some q" "admin_ready q sb cb" "eid < sq_depth q" "tables_ok d" "c = sb + 64 * eid" "m = dev_mem d"
    and "cmd_qid m c \<le> NR_MAX_IO_QUEUE" "n = unat (host_read 2 m (c + 42)) + 1" "ring_cleared m (unat (host_read 8 m (c + 24))) n"
  shows "\<exists>d' cq. nvmev_admin_create_cq eid d = Some d' \<and> io_cqs (vd_io d') = (io_cqs (vd_io d))[cmd_qid m c := Some cq] \<and>
    io_sqs (vd_io d') = io_sqs (vd_io d) \<and> cq_queue_size cq = n \<and> cq_clean cq \<and>
    dbs d' ! (cmd_qid m c * 2 + 1) = 0 \<and> old_dbs d' ! (cmd_qid m c * 2 + 1) = 0 \<and>
    (\<forall>ws. length ws \<le> n \<longrightarrow> (\<exists>cq'. post_all cq ws = Some cq' \<and> map cqe_info (host_reads n cq' 0 True) = map work_info ws))"
proof -
  let ?q = "cmd_qid m c" and ?cq = "new_cq m c"
  let ?d = "d\<lparr>vd_io := (vd_io d)\<lparr>io_cqs := (io_cqs (vd_io d))[?q := Some ?cq]\<rparr>\<rparr>"
  let ?d1 = "?d\<lparr>dbs := (dbs d)[?q * 2 + 1 := 0], old_dbs := (old_dbs d)[?q * 2 + 1 := 0]\<rparr>"
  have a: "admin_cmd d eid = Some c" unfolding assms(5) by (rule admin_ready_cmd[OF assms(1-3)])
  have i: "?q < length (io_cqs (vd_io d))" "?q * 2 + 1 < length (dbs d)" "?q * 2 + 1 < length (old_dbs d)"
    using assms(4,7) by (auto simp: tables_ok_def NR_MAX_IO_QUEUE_def)
  have "set_db (?q * 2 + 1) ?d = Some ?d1" using set_db_ok[of ?d "?q * 2 + 1"] assms(4) i by (simp add: tables_ok_def)
  then have r: "nvmev_admin_create_cq eid d = make_cq_entry_results eid NVME_SC_SUCCESS 0 0 ?d1"
    using a i(1) assms(6) by (simp add: nvmev_admin_create_cq_def cmd_qid_def Let_def make_cq_entry_def)
  have "admin_q ?d1 = Some q" using assms(1) by simp
  from make_cq_entry_posts[OF this assms(2,3)] obtain d' where
    d': "make_cq_entry_results eid NVME_SC_SUCCESS 0 0 ?d1 = Some d'" by blast
  from make_cq_same[OF d'] have t: "io_cqs (vd_io d') = (io_cqs (vd_io d))[?q := Some ?cq]" "io_sqs (vd_io d') = io_sqs (vd_io d)"
    by (simp_all add: same_queues_def)
  have db: "dbs d' = dbs ?d1" "old_dbs d' = old_dbs ?d1"
    using d' by (auto simp: make_cq_entry_results_def set_mem_def Let_def split: bind_splits)
  have cl: "cq_clean ?cq" by (rule new_cq_clean) (use assms(8,9) in simp)
  have s: "cq_queue_size ?cq = n" "cq_head ?cq = 0" "cq_phase ?cq" using assms(8) by (simp_all add: new_cq_def Let_def)
  have "\<exists>cq'. post_all ?cq ws = Some cq' \<and> map cqe_info (host_reads n cq' 0 True) = map work_info ws" if "length ws \<le> n" for ws
  proof -
    obtain cq' where p: "post_all ?cq ws = Some cq'" using post_all_total[OF new_cq_ok] by blast
    from post_all_read[OF cl _ p] that s show ?thesis using p by simp
  qed
  then show ?thesis using r d' t db cl s(1) i(2,3) by (intro exI[of _ d'] exI[of _ ?cq]) simp
qed

text \<open>What the host computes from the page of identify namespace.\<close>

lemma id_ns_format:
  assumes "fl = 0 \<and> lb = 9 \<or> fl = 3 \<and> lb = (12 :: nat)"
    and "m1 = host_put (host_put (host_put (put_lbafs a m0) (a + 26) [of_nat fl]) (a + 25) [6]) (a + 29) [0]"
  shows "unat (m1 (a + 26)) = fl" "unat (m1 (a + 128 + 4 * fl + 2)) = lb" "m1 (a + 128 + 4 * fl) = 0" "m1 (a + 128 + 4 * fl + 1) = 0"
  using assms(1) unfolding assms(2) put_lbafs_def put_lbaf_def Let_def host_put_def
  by (auto simp: le_bytes_def nth_append nth_Cons' NVME_LBAF_RP_GOOD_def NVME_LBAF_RP_BEST_def)

lemma put_id_ns_reads:
  assumes "fl = 0 \<and> lb = 9 \<or> fl = 3 \<and> lb = (12 :: nat)" "m' = put_id_ns fl sz a m"
  shows "unat (m' (a + 26)) = fl" "unat (m' (a + 128 + 4 * fl + 2)) = lb" "host_read 2 m' (a + 128 + 4 * fl) = 0"
    "host_read 8 m' a = drop_bit lb sz" "host_read 8 m' (a + 8) = drop_bit lb sz" "host_read 8 m' (a + 16) = drop_bit lb sz"
proof -
  define m1 where "m1 = host_put (host_put (host_put (put_lbafs a (host_put m a (replicate PAGE_SIZE 0))) (a + 26) [of_nat fl]) (a + 25) [6]) (a + 29) [0]"
  note f = id_ns_format[OF assms(1) m1_def]
  define m2 where "m2 = host_put m1 a (le_bytes 8 (drop_bit lb sz))"
  define m3 where "m3 = host_put m2 (a + 8) (host_get m2 a 8)"
  have m': "m' = host_put m3 (a + 16) (host_get m3 a 8)"
    unfolding assms(2) put_id_ns_def Let_def m1_def[symmetric] f(1,2) m2_def[symmetric] m3_def[symmetric] by (rule refl)
  have out: "m' i = m1 i" if "a + 24 \<le> i" for i using that by (simp add: m' m3_def m2_def host_put_def)
  show "unat (m' (a + 26)) = fl" "unat (m' (a + 128 + 4 * fl + 2)) = lb" using out f by simp_all
  have "host_get m' (a + 128 + 4 * fl) 2 = [0, 0]"
    using out[of "a + 128 + 4 * fl"] out[of "a + 128 + 4 * fl + 1"] f(3,4) by (intro nth_equalityI) (auto simp: host_get_nth less_2_cases_iff)
  then show "host_read 2 m' (a + 128 + 4 * fl) = 0" by (simp add: host_read_def)
  have r: "host_read 8 m2 a = drop_bit lb sz" using host_read_bytes[of 8 m1 a] by (simp add: m2_def take_bit_word_eq_self)
  then have r3: "host_read 8 m3 a = drop_bit lb sz" by (simp add: m3_def host_read_apart)
  then show "host_read 8 m' a = drop_bit lb sz" by (simp add: m' host_read_apart)
  have "host_read 8 m3 (a + 8) = host_read 8 m2 a"
    using host_get_put[of m2 "a + 8" "host_get m2 a 8"] by (simp add: m3_def host_read_def)
  then show "host_read 8 m' (a + 8) = drop_bit lb sz" using r by (simp add: m' host_read_apart)
  have "host_read 8 m' (a + 16) = host_read 8 m3 a"
    using host_get_put[of m3 "a + 16" "host_get m3 a 8"] by (simp add: m' host_read_def)
  then show "host_read 8 m' (a + 16) = drop_bit lb sz" using r3 by simp
qed

text \<open>C35. Identify namespace: what the host then finds at the address it gave is a structure from which
  it computes the size of the namespace: the format that the structure selects has the block size
  of the build, and the size, the capacity and the use are the size in such blocks.\<close>

theorem identify_ns_roundtrip:
  assumes "admin_q d = Some q" "admin_ready q sb cb" "eid < sq_depth q" "c = sb + 64 * eid" "m = dev_mem d"
    and "lba_bits = 9 \<or> lba_bits = 12" "cmd_nsid_of m c < length (vd_ns d)" "a = cmd_buf m c"
    and "a + PAGE_SIZE \<le> cb \<or> cb + 16 * cq_depth q \<le> a"
  shows "\<exists>d'. nvmev_admin_identify_namespace lba_bits eid d = Some d' \<and>
    (let m' = dev_mem d'; fmt = a + 128 + 4 * unat (m' (a + 26)); blocks = drop_bit lba_bits (vns_size (vd_ns d ! cmd_nsid_of m c)) in
     unat (m' (fmt + 2)) = lba_bits \<and> host_read 2 m' fmt = 0 \<and>
     host_read 8 m' a = blocks \<and> host_read 8 m' (a + 8) = blocks \<and> host_read 8 m' (a + 16) = blocks)"
proof -
  define fl :: nat where "fl = (if lba_bits = 9 then 0 else 3)"
  define m1 where "m1 = put_id_ns fl (vns_size (vd_ns d ! cmd_nsid_of m c)) a m"
  have fl: "fl = 0 \<and> lba_bits = 9 \<or> fl = 3 \<and> lba_bits = 12" using assms(6) by (auto simp: fl_def)
  have "admin_cmd d eid = Some c" unfolding assms(4) by (rule admin_ready_cmd[OF assms(1-3)])
  from identify_namespace_page[OF this assms(6)] have
    r: "nvmev_admin_identify_namespace lba_bits eid d = make_cq_entry_results eid NVME_SC_SUCCESS 0 0 (set_mem d m1)"
    using assms(5,7,8) by (simp add: fl_def m1_def make_cq_entry_def)
  have "admin_q (set_mem d m1) = Some q" using assms(1) by simp
  from make_cq_entry_posts[OF this assms(2,3), of NVME_SC_SUCCESS 0 0, unfolded set_mem_sel] obtain d' where
    d': "make_cq_entry_results eid NVME_SC_SUCCESS 0 0 (set_mem d m1) = Some d'" "same_outside cb (16 * cq_depth q) m1 (dev_mem d')"
    by blast
  have byte: "dev_mem d' i = m1 i" if "a \<le> i" "i < a + PAGE_SIZE" for i
    using d'(2) assms(9) that by (auto simp: same_outside_def)
  have rd: "host_read k (dev_mem d') i = host_read k m1 i" if "a \<le> i" "i + k \<le> a + PAGE_SIZE" for i k
    by (rule same_outside_read[OF d'(2)]) (use assms(9) that in auto)
  note p = put_id_ns_reads[OF fl m1_def]
  have "dev_mem d' (a + 26) = m1 (a + 26)" by (rule byte) (simp_all add: PAGE_SIZE_def)
  then have f: "unat (dev_mem d' (a + 26)) = fl" using p(1) by simp
  have "fl \<le> 3" using fl by auto
  then have "unat (dev_mem d' (a + 128 + 4 * fl + 2)) = lba_bits" "host_read 2 (dev_mem d') (a + 128 + 4 * fl) = 0"
    using p(2,3) byte[of "a + 128 + 4 * fl + 2"] rd[of "a + 128 + 4 * fl" 2] by (simp_all add: PAGE_SIZE_def)
  then show ?thesis using r d'(1) p(4-6) rd[of a 8] rd[of "a + 8" 8] rd[of "a + 16" 8] by (simp add: f Let_def PAGE_SIZE_def)
qed

subsection \<open>Registers\<close>

text \<open>C36. The dispatcher is done with any change of the registers after four calls: then no call finds
  another, the admin queue has the depths, the pages and the position that the registers say, ready
  is what the host has enabled, and nothing else of the I/O system has changed. This needs an admin
  queue, or the register with its depths among those changed.\<close>

theorem bars_settle:
  assumes "tables_ok d" "admin_q d \<noteq> None \<or> reg_aqa (old_bar d) \<noteq> reg_aqa (bar d)"
  shows "\<exists>d'. run_bars 4 d = Some d' \<and> nvmev_proc_bars d' = Some (False, d') \<and> vd_io d' = vd_io d \<and>
    admin_q d' = Some (queue_after d (queue_before d)) \<and> bar d' = (bar d)\<lparr>reg_csts := reg_csts (bar d')\<rparr> \<and>
    csts_rdy (reg_csts (bar d')) =
      (if reg_cc (old_bar d) \<noteq> reg_cc (bar d) then cc_en (reg_cc (bar d)) else csts_rdy (reg_csts (bar d)))"
proof -
  have "admin_q d \<noteq> None \<or> changed reg_aqa d" using assms(2) by (simp add: changed_def)
  from bars_all_done[OF assms(1) this] obtain d' where d': "run_bars 4 d = Some d'" "bars_done d (queue_before d) d'" by blast
  then show ?thesis using bars_settled[OF d'(2)] by (auto simp: bars_done_def changed_def)
qed

lemma ring_page_list_from: "ring_page_list r n sz = pages_from (unat (PRP_PFN r) * PAGE_SIZE) (ring_pages n sz)"
  by (simp add: ring_page_list_def pages_from_def algebra_simps)

text \<open>C37. Bringing the device up: when the host has written the depths and the addresses of two rings
  that do not overlap, has cleared the completion ring and has enabled the controller, the
  dispatcher makes it ready with an admin queue at these rings that a host can use from entry 0 on.\<close>

theorem vdev_bring_up:
  assumes "d = (VDEV_INIT z nr nss md (st, m) bufs)\<lparr>bar := r\<rparr>" "reg_aqa r \<noteq> 0" "reg_asq r \<noteq> 0" "reg_acq r \<noteq> 0"
    and "cc_en (reg_cc r)" "ns = aqa_asqs (reg_aqa r) + 1" "nc = aqa_acqs (reg_aqa r) + 1"
    and "sb = unat (PRP_PFN (reg_asq r)) * PAGE_SIZE" "cb = unat (PRP_PFN (reg_acq r)) * PAGE_SIZE"
    and "sb + 64 * ns \<le> cb \<or> cb + 16 * nc \<le> sb" "ring_cleared m cb nc"
  shows "\<exists>d' q. run_bars 4 d = Some d' \<and> nvmev_proc_bars d' = Some (False, d') \<and> csts_rdy (reg_csts (bar d')) \<and>
    admin_q d' = Some q \<and> admin_ready q sb cb \<and> sq_depth q = ns \<and> cq_depth q = nc \<and> aq_cq_head q = 0 \<and> aq_phase q \<and>
    cq_clean (admin_cq q cb (dev_mem d')) \<and> tables_ok d'"
proof -
  have t: "tables_ok d" using init_shape[of z nr nss md "(st, m)" bufs] assms(1) by (simp add: vdev_shape_def tables_ok_def)
  have "\<not> cc_en 0" by (simp add: cc_en_def)
  then have c: "changed reg_aqa d" "changed reg_asq d" "changed reg_acq d" "changed reg_cc d" "bar d = r" "admin_q d = None" "dev_mem d = m"
    using assms(1-5) by (auto simp: changed_def VDEV_INIT_def init_ctrl_regs_def dev_mem_def)
  from bars_all_done[OF t] c(1) obtain d' where d': "run_bars 4 d = Some d'" "bars_done d (queue_before d) d'" by blast
  let ?q = "queue_after d (queue_before d)"
  have q: "aq_phase ?q" "sq_depth ?q = ns" "cq_depth ?q = nc" "aq_cq_head ?q = 0" "nvme_sq ?q = Some (pages_from sb (ring_pages ns 64))"
    "nvme_cq ?q = Some (pages_from cb (ring_pages nc 16))"
    using c assms(6-9) by (simp_all add: queue_after_def Let_def ring_page_list_from)
  have ready: "admin_ready ?q sb cb" using q assms(6,7,10) by (simp add: admin_ready_def)
  have "vd_io d' = vd_io d" using d'(2) by (simp add: bars_done_def)
  then have "dev_mem d' = m" using c(7) by (simp add: dev_mem_def)
  then have "cq_clean (admin_cq ?q cb (dev_mem d'))" using q assms(7,11) by (intro admin_cq_clean) simp_all
  then show ?thesis using d' bars_settled[OF d'(2)] ready q c(4,5) assms(5) by (auto simp: bars_done_def)
qed

subsection \<open>The whole device\<close>

text \<open>C13. From power-on, in every state that the host, the dispatcher and the workers reach, whatever
  the host writes: the tables have a place for each queue number that is polled, and every queue in
  them has a ring of at least its size and, if it is a completion queue, a position inside it.\<close>

theorem vdev_keeps_shape:
  assumes "vdev_reach b kv proc perf (VDEV_INIT z nr nss md data bufs) (d, pc)"
  shows "length (io_sqs (vd_io d)) = NR_MAX_IO_QUEUE + 1 \<and> length (io_cqs (vd_io d)) = NR_MAX_IO_QUEUE + 1 \<and>
    length (dbs d) = 1024 \<and> length (old_dbs d) = 1024 \<and> unat (nr_sq d) \<le> NR_MAX_IO_QUEUE \<and> unat (nr_cq d) \<le> NR_MAX_IO_QUEUE \<and>
    (\<forall>sq. Some sq \<in> set (io_sqs (vd_io d)) \<longrightarrow> 0 < sq_queue_size sq \<and> sq_queue_size sq \<le> length (sq_ring sq)) \<and>
    (\<forall>cq. Some cq \<in> set (io_cqs (vd_io d)) \<longrightarrow> cq_head cq < cq_queue_size cq \<and> cq_queue_size cq \<le> length (cq_ring cq))"
  using vdev_reach_shape[OF assms init_shape] by (simp add: vdev_shape_def io_shape_def sqs_shape_def cqs_shape_def tables_ok_def cq_ok_def)




subsection \<open>Witnesses\<close>

text \<open>Four commands: identify the namespace, create a completion queue, abort, and get the number of queues.\<close>

definition demo_mem :: host_mem where
  "demo_mem = (\<lambda>_. 0)(0 := 6, 2 := 1, 4 := 1, 26 := 1, 64 := 5, 66 := 2, 90 := 2, 104 := 1, 106 := 3, 108 := 1,
     128 := 8, 130 := 3, 192 := 0x0a, 194 := 4, 232 := 7)"

definition demo_queue :: admin_queue where
  "demo_queue = \<lparr>aq_phase = True, sq_depth = 8, cq_depth = 8, aq_cq_head = 0, nvme_sq = Some [0], nvme_cq = Some [4096]\<rparr>"

definition demo_vns :: vdev_ns where
  "demo_vns = \<lparr>vns_type = SSD_TYPE_CONV, vns_csi = 0, vns_size = 0x40000000,
     vns_zp = \<lparr>nr_zones = 0, nr_active_zones = 0, nr_open_zones = 0, dies_per_zone = 0, zone_size = 0, zone_wb_size = 0,
       nr_zrwa_zones = 0, zrwafg_size = 0, zrwa_size = 0, zrwa_buffer_size = 0, lbas_per_zrwafg = 0, lbas_per_zrwa = 0\<rparr>\<rparr>"

definition demo_vdev :: "unit nvmev_dev" where
  "demo_vdev = (VDEV_INIT False 1 [demo_vns] 5 ((), demo_mem) [])\<lparr>admin_q := Some demo_queue\<rparr>"

lemma demo_vdev_sel:
  "admin_q demo_vdev = Some demo_queue" "dev_mem demo_vdev = demo_mem" "vd_ns demo_vdev = [demo_vns]" "irqs demo_vdev = []"
  by (simp_all add: demo_vdev_def VDEV_INIT_def dev_mem_def)

lemma demo_tables: "tables_ok demo_vdev"
  using init_shape[of False 1 "[demo_vns]" 5 "((), demo_mem)" "[]"] by (simp add: vdev_shape_def tables_ok_def demo_vdev_def)

lemma demo_ready: "admin_ready demo_queue 0 4096"
  by (simp add: admin_ready_def demo_queue_def pages_from_def ring_pages_def PAGE_SIZE_def)

lemma demo_cleared: "4096 \<le> a \<Longrightarrow> ring_cleared demo_mem a n"
  by (simp add: ring_cleared_def demo_mem_def)

lemma demo_clean: "cq_clean (admin_cq demo_queue 4096 demo_mem)"
  by (rule admin_cq_clean[OF demo_cleared]) (simp_all add: demo_queue_def)

lemma demo_fields:
  "cmd_qid demo_mem 64 = 1" "host_read 2 demo_mem 106 = 3" "host_read 8 demo_mem 88 = 0x20000" "cmd_nsid_of demo_mem 0 = 0"
  "cmd_buf demo_mem 0 = 0x10000" "cmd_cns demo_mem 0 = 0"
  "cmd_id demo_mem 0 = 1" "cmd_id demo_mem 64 = 2" "cmd_id demo_mem 128 = 3" "cmd_id demo_mem 192 = 4"
  "demo_mem 0 = 6" "demo_mem 64 = 5" "demo_mem 128 = 8" "demo_mem 192 = 10"
  by (simp_all add: cmd_qid_def host_read_def host_get_def demo_mem_def cmd_nsid_of_def cmd_buf_def cmd_cns_def cmd_id_def prp_addr_of_nat)

definition demo_build :: vdev_build where "demo_build = \<lparr>bld_lba_bits = 9, bld_zns = False\<rparr>"

lemma demo_walk: "ring_walk 8 4 0 = [0, 1, 2, 3]"
  by (simp add: numeral_eq_Suc)

lemma demo_entries: "\<forall>e \<in> set [0, 1, 2, 3]. entry_ok demo_build [demo_vns] demo_queue 0 4096 demo_mem e"
  by (simp add: entry_ok_def valid_cmd_def valid_identify_def cmd_buf_len_def demo_fields demo_build_def demo_queue_def PAGE_SIZE_def
      NR_MAX_IO_QUEUE_def)

lemma demo_answers: "admin_answers demo_mem 0 [0, 1, 2, 3] = [(1, 0, 0), (2, 1, 0), (4, 3, 0)]"
  by (simp add: admin_answers_def admin_answer_def demo_fields admin_status_def NVME_SC_SUCCESS_def)

theorem admin_sq_completes_witness:
  "\<exists>d' q'. nvmev_proc_admin_sq demo_build 4 0 demo_vdev = Some d' \<and> admin_q d' = Some q' \<and>
    map cqe_answer (host_reads 8 (admin_cq q' 4096 (dev_mem d')) 0 True) = [(1, 0, 0), (2, 1, 0), (4, 3, 0)]"
proof -
  have d: "sq_depth demo_queue = 8" "cq_depth demo_queue = 8" "aq_cq_head demo_queue = 0" "aq_phase demo_queue = True" by (simp_all add: demo_queue_def)
  have "\<exists>d' q'. nvmev_proc_admin_sq demo_build (int 4) (int 0) demo_vdev = Some d' \<and> admin_q d' = Some q' \<and> admin_ready q' 0 4096 \<and>
    length (irqs d') = length (irqs demo_vdev) + 1 \<and> cq_clean (admin_cq q' 4096 (dev_mem d')) \<and>
    map cqe_answer (host_reads (cq_depth demo_queue) (admin_cq q' 4096 (dev_mem d')) (aq_cq_head demo_queue) (aq_phase demo_queue)) =
      admin_answers (dev_mem demo_vdev) 0 [0, 1, 2, 3]"
    by (rule admin_sq_completes[OF demo_vdev_sel(1) demo_ready _ demo_tables])
      (use demo_clean demo_entries in \<open>simp_all add: demo_vdev_sel d demo_walk del: set_simps\<close>)
  then show ?thesis unfolding d demo_vdev_sel demo_answers of_nat_numeral int_ops(1)
    by (elim exE conjE) (intro exI conjI; assumption)
qed

theorem create_cq_ready_witness:
  "\<exists>d' cq. nvmev_admin_create_cq 1 demo_vdev = Some d' \<and> io_cqs (vd_io d') ! 1 = Some cq \<and> cq_queue_size cq = 4 \<and> cq_clean cq"
proof -
  have n: "unat (host_read 2 demo_mem (64 + 42)) + 1 = 4" "unat (host_read 8 demo_mem (64 + 24)) = 0x20000" using demo_fields by simp_all
  have "\<exists>d' cq. nvmev_admin_create_cq 1 demo_vdev = Some d' \<and> io_cqs (vd_io d') = (io_cqs (vd_io demo_vdev))[cmd_qid demo_mem 64 := Some cq] \<and>
    io_sqs (vd_io d') = io_sqs (vd_io demo_vdev) \<and> cq_queue_size cq = 4 \<and> cq_clean cq \<and>
    dbs d' ! (cmd_qid demo_mem 64 * 2 + 1) = 0 \<and> old_dbs d' ! (cmd_qid demo_mem 64 * 2 + 1) = 0 \<and>
    (\<forall>ws. length ws \<le> 4 \<longrightarrow> (\<exists>cq'. post_all cq ws = Some cq' \<and> map cqe_info (host_reads 4 cq' 0 True) = map work_info ws))"
    by (rule create_cq_ready[OF demo_vdev_sel(1) demo_ready _ demo_tables])
      (use n demo_cleared[of "0x20000" 4] in \<open>simp_all add: demo_vdev_sel demo_queue_def demo_fields NR_MAX_IO_QUEUE_def\<close>)
  moreover have "1 < length (io_cqs (vd_io demo_vdev))" using demo_tables by (simp add: tables_ok_def NR_MAX_IO_QUEUE_def)
  ultimately show ?thesis by (auto simp: demo_fields)
qed

theorem identify_ns_roundtrip_witness:
  "\<exists>d'. nvmev_admin_identify_namespace 9 0 demo_vdev = Some d' \<and> host_read 8 (dev_mem d') 0x10000 = 0x200000 \<and>
    unat (dev_mem d' (0x10000 + 128 + 4 * unat (dev_mem d' (0x10000 + 26)) + 2)) = 9"
proof -
  have "\<exists>d'. nvmev_admin_identify_namespace 9 0 demo_vdev = Some d' \<and>
    (let m' = dev_mem d'; fmt = 0x10000 + 128 + 4 * unat (m' (0x10000 + 26)); blocks = drop_bit 9 (vns_size (vd_ns demo_vdev ! cmd_nsid_of demo_mem 0)) in
     unat (m' (fmt + 2)) = 9 \<and> host_read 2 m' fmt = 0 \<and>
     host_read 8 m' 0x10000 = blocks \<and> host_read 8 m' (0x10000 + 8) = blocks \<and> host_read 8 m' (0x10000 + 16) = blocks)"
    by (rule identify_ns_roundtrip[OF demo_vdev_sel(1) demo_ready])
      (use demo_fields in \<open>simp_all add: demo_vdev_sel demo_queue_def PAGE_SIZE_def\<close>)
  then show ?thesis by (auto simp: Let_def demo_vdev_sel demo_fields demo_vns_def)
qed

text \<open>The registers as a host writes them: rings of eight entries at the pages 1 and 2.\<close>

definition demo_regs :: ctrl_regs where
  "demo_regs = (init_ctrl_regs False)\<lparr>reg_cc := 0x460001, reg_aqa := 0x70007, reg_asq := 0x1000, reg_acq := 0x2000\<rparr>"

definition demo_booted :: "unit nvmev_dev" where
  "demo_booted = (VDEV_INIT False 1 [demo_vns] 5 ((), \<lambda>_. 0) [])\<lparr>bar := demo_regs\<rparr>"

lemma demo_booted_sel:
  "reg_aqa (bar demo_booted) = 0x70007" "reg_aqa (old_bar demo_booted) = 0" "reg_cc (bar demo_booted) = 0x460001" "reg_cc (old_bar demo_booted) = 0"
  by (simp_all add: demo_booted_def VDEV_INIT_def demo_regs_def init_ctrl_regs_def)

theorem bars_settle_witness:
  "\<exists>d'. run_bars 4 demo_booted = Some d' \<and> nvmev_proc_bars d' = Some (False, d') \<and> csts_rdy (reg_csts (bar d'))"
proof -
  have t: "tables_ok demo_booted"
    using init_shape[of False 1 "[demo_vns]" 5 "((), \<lambda>_. 0)" "[]"] by (simp add: vdev_shape_def tables_ok_def demo_booted_def)
  have "admin_q demo_booted \<noteq> None \<or> reg_aqa (old_bar demo_booted) \<noteq> reg_aqa (bar demo_booted)" by (simp add: demo_booted_sel)
  from bars_settle[OF t this] show ?thesis by (auto simp: demo_booted_sel cc_en_def bit_1_iff)
qed

theorem vdev_bring_up_witness:
  "\<exists>d' q. run_bars 4 demo_booted = Some d' \<and> admin_q d' = Some q \<and> admin_ready q 0x1000 0x2000 \<and> sq_depth q = 8 \<and> cq_depth q = 8 \<and>
    cq_clean (admin_cq q 0x2000 (dev_mem d'))"
proof -
  have "\<exists>d' q. run_bars 4 demo_booted = Some d' \<and> nvmev_proc_bars d' = Some (False, d') \<and> csts_rdy (reg_csts (bar d')) \<and>
    admin_q d' = Some q \<and> admin_ready q 0x1000 0x2000 \<and> sq_depth q = 8 \<and> cq_depth q = 8 \<and> aq_cq_head q = 0 \<and> aq_phase q \<and>
    cq_clean (admin_cq q 0x2000 (dev_mem d')) \<and> tables_ok d'"
    by (rule vdev_bring_up[OF demo_booted_def])
      (simp_all add: demo_regs_def cc_en_def aqa_asqs_def aqa_acqs_def PRP_PFN_def PAGE_SIZE_def ring_cleared_def)
  then show ?thesis by blast
qed

text \<open>The host writes the registers, and the dispatcher takes a turn.\<close>

definition demo_off :: "unit nvmev_dev" where "demo_off = VDEV_INIT False 1 [demo_vns] 5 ((), \<lambda>_. 0) []"

lemma host_ring_refl: "host_ring q q"
proof (cases q)
  case (Some sq)
  have "sq = sq\<lparr>sq_ring := sq_ring sq\<rparr>" by simp
  then show ?thesis using Some unfolding host_ring_def by auto
qed (simp add: host_ring_def)

lemma power_on_write:
  "host_write (VDEV_INIT False n nss md (st, m) bufs) ((VDEV_INIT False n nss md (st, m) bufs)\<lparr>bar := demo_regs\<rparr>)"
  (is "host_write ?d _")
  unfolding host_write_def
  by (intro exI[of _ demo_regs] exI[of _ "dbs ?d"] exI[of _ m] exI[of _ "io_sqs (vd_io ?d)"])
    (simp add: demo_regs_def VDEV_INIT_def init_ctrl_regs_def host_ring_refl list.rel_refl)

text \<open>The first turn after that, whatever the namespaces are: it finds the depths of the admin queue.\<close>

lemma first_turn:
  assumes d: "d = (VDEV_INIT False n nss md data bufs)\<lparr>bar := demo_regs\<rparr>"
  shows "\<exists>d1 q. nvmev_dispatcher_turn b kv proc nows d = Some d1 \<and> admin_q d1 = Some q \<and> sq_depth q = 8 \<and> io_data (vd_io d1) = data"
proof -
  have t: "tables_ok d" using init_shape[of False n nss md data bufs] by (simp add: d vdev_shape_def tables_ok_def)
  have z: "dbs d = replicate 1024 0" "old_dbs d = replicate 1024 0" "nr_sq d = 0" "nr_cq d = 0" "admin_q d = None"
    "reg_aqa (bar d) = 0x70007" "reg_aqa (old_bar d) = 0" "io_data (vd_io d) = data"
    by (simp_all add: d VDEV_INIT_def demo_regs_def init_ctrl_regs_def)
  have "\<exists>d1. bars_aqa d = Some d1" using t by (simp add: bars_aqa_def set_db_def mod_old_def Let_def tables_ok_def)
  then obtain d1 where d1: "bars_aqa d = Some d1" by blast
  then have b: "nvmev_proc_bars d = Some (True, d1)" by (simp add: nvmev_proc_bars_def z)
  have "\<exists>q. admin_q d1 = Some q \<and> sq_depth q = 8 \<and> get_db (dbs d1) 0 = Some 0 \<and> get_db (old_dbs d1) 0 = Some 0 \<and>
    get_db (dbs d1) 1 = Some 0 \<and> get_db (old_dbs d1) 1 = Some 0 \<and> nr_sq d1 = 0 \<and> nr_cq d1 = 0 \<and> io_data (vd_io d1) = data"
    using d1 z by (auto simp: bars_aqa_def set_db_def mod_old_def Let_def zero_queue_def aqa_asqs_def get_db_def)
  then obtain q where q: "admin_q d1 = Some q" "sq_depth q = 8" "get_db (dbs d1) 0 = Some 0" "get_db (old_dbs d1) 0 = Some 0"
    "get_db (dbs d1) 1 = Some 0" "get_db (old_dbs d1) 1 = Some 0" "nr_sq d1 = 0" "nr_cq d1 = 0" "io_data (vd_io d1) = data" by blast
  have "nvmev_dispatcher_turn b kv proc nows d = Some d1"
    using b q by (simp add: nvmev_dispatcher_turn_def nvmev_proc_dbs_def proc_db_admin_def)
  then show ?thesis using q(1,2,9) by blast
qed

lemma demo_turn:
  "\<exists>d q. vdev_reach demo_build False (\<lambda>_ _ _ _ _ _. None) perf demo_off (d, \<lambda>_. Idle) \<and> admin_q d = Some q \<and> sq_depth q = 8"
proof -
  have h: "vdev_step demo_build False (\<lambda>_ _ _ _ _ _. None) perf (demo_off, \<lambda>_. Idle) (demo_booted, \<lambda>_. Idle)"
    unfolding demo_off_def demo_booted_def by (rule vdev_step.host, rule power_on_write)
  obtain d1 q where d1: "nvmev_dispatcher_turn demo_build False (\<lambda>_ _ _ _ _ _. None) (\<lambda>_ _. 0) demo_booted = Some d1"
    "admin_q d1 = Some q" "sq_depth q = 8"
    using first_turn[OF demo_booted_def, of demo_build False "\<lambda>_ _ _ _ _ _. None" "\<lambda>_ _. 0"] by blast
  from vdev_step.turn[OF d1(1)] have "vdev_step demo_build False (\<lambda>_ _ _ _ _ _. None) perf (demo_booted, \<lambda>_. Idle) (d1, \<lambda>_. Idle)" .
  from vdev_reach.step[OF vdev_reach.step[OF vdev_reach.start h] this] d1(2,3) show ?thesis by blast
qed

theorem vdev_keeps_shape_witness:
  "\<exists>d q. vdev_reach demo_build False (\<lambda>_ _ _ _ _ _. None) (\<lambda>_ _ _. None) demo_off (d, \<lambda>_. Idle) \<and> admin_q d = Some q \<and> sq_depth q = 8 \<and>
    length (io_sqs (vd_io d)) = NR_MAX_IO_QUEUE + 1"
proof -
  obtain d q where r: "vdev_reach demo_build False (\<lambda>_ _ _ _ _ _. None) (\<lambda>_ _ _. None) demo_off (d, \<lambda>_. Idle)" "admin_q d = Some q" "sq_depth q = 8"
    using demo_turn by blast
  from vdev_keeps_shape[OF r(1)[unfolded demo_off_def]] r show ?thesis by blast
qed




end
