(* ===== verification/Vdev_Service.thy ===== *)
theory Vdev_Service
  imports Vdev_System
begin

text \<open>
  The device around a namespace. What dispatcher, workers and host rely on of a translation layer is
  the interface \<open>namespace_service\<close>: the handler of a command, the copy of its data and the release
  of buffer space keep its invariant. Then every state of the whole device has the invariant. The
  write buffers are one object in the code, in the translation layer; the I/O system of this model
  keeps them beside its queues, so they are handed over before and after each turn of the dispatcher.
\<close>

subsection \<open>Turns with the buffers of the namespace\<close>

definition ns_data :: "'s nvmev_dev \<Rightarrow> 's" where "ns_data d = fst (io_data (vd_io d))"

definition buffers_in :: "(buffer list \<Rightarrow> 's \<Rightarrow> 's) \<Rightarrow> 's nvmev_dev \<Rightarrow> 's nvmev_dev" where
  "buffers_in put d = d\<lparr>vd_io := (vd_io d)\<lparr>io_data := (put (io_bufs (vd_io d)) (ns_data d), dev_mem d)\<rparr>\<rparr>"

definition buffers_out :: "('s \<Rightarrow> buffer list) \<Rightarrow> 's nvmev_dev \<Rightarrow> 's nvmev_dev" where
  "buffers_out get d = d\<lparr>vd_io := (vd_io d)\<lparr>io_bufs := get (ns_data d)\<rparr>\<rparr>"

definition service_turn :: "vdev_build \<Rightarrow> bool \<Rightarrow> ('s \<times> host_mem) proc_io \<Rightarrow> (buffer list \<Rightarrow> 's \<Rightarrow> 's) \<Rightarrow> ('s \<Rightarrow> buffer list) \<Rightarrow>
    (nat \<Rightarrow> nat \<Rightarrow> u64) \<Rightarrow> 's nvmev_dev \<Rightarrow> 's nvmev_dev option" where
  "service_turn b kv proc put get nows d = do {
     d \<leftarrow> nvmev_dispatcher_turn b kv proc nows (buffers_in put d);
     Some (buffers_out get d)
   }"

inductive service_step :: "vdev_build \<Rightarrow> bool \<Rightarrow> ('s \<times> host_mem) proc_io \<Rightarrow> ('s \<times> host_mem) perform \<Rightarrow>
    (buffer list \<Rightarrow> 's \<Rightarrow> 's) \<Rightarrow> ('s \<Rightarrow> buffer list) \<Rightarrow>
    's nvmev_dev \<times> (nat \<Rightarrow> worker_pc) \<Rightarrow> 's nvmev_dev \<times> (nat \<Rightarrow> worker_pc) \<Rightarrow> bool" for b kv proc perf put get where
  host: "host_write d d' \<Longrightarrow> service_step b kv proc perf put get (d, pc) (d', pc)"
| turn: "service_turn b kv proc put get nows d = Some d' \<Longrightarrow> service_step b kv proc perf put get (d, pc) (d', pc)"
| worker: "io_step perf (vd_io d, pc) es (io, pc') \<Longrightarrow> pc' \<noteq> pc \<Longrightarrow> service_step b kv proc perf put get (d, pc) (d\<lparr>vd_io := io\<rparr>, pc')"
| signal: "worker_signal lock (unat (nr_cq d)) k (vd_io d) = Some (is, io) \<Longrightarrow>
    service_step b kv proc perf put get (d, pc) (d\<lparr>vd_io := io, irqs := irqs d @ map Msi is\<rparr>, pc)"

inductive service_reach :: "vdev_build \<Rightarrow> bool \<Rightarrow> ('s \<times> host_mem) proc_io \<Rightarrow> ('s \<times> host_mem) perform \<Rightarrow>
    (buffer list \<Rightarrow> 's \<Rightarrow> 's) \<Rightarrow> ('s \<Rightarrow> buffer list) \<Rightarrow>
    's nvmev_dev \<Rightarrow> 's nvmev_dev \<times> (nat \<Rightarrow> worker_pc) \<Rightarrow> bool" for b kv proc perf put get d0 where
  start: "service_reach b kv proc perf put get d0 (d0, \<lambda>_. Idle)"
| step: "service_reach b kv proc perf put get d0 s \<Longrightarrow> service_step b kv proc perf put get s s' \<Longrightarrow>
    service_reach b kv proc perf put get d0 s'"

subsection \<open>The shape, and the account of the commands\<close>

lemma buffers_sel [simp]:
  "ns_data (buffers_in put d) = put (io_bufs (vd_io d)) (ns_data d)" "ns_data (buffers_out get d) = ns_data d"
  "dev_mem (buffers_in put d) = dev_mem d" "io_d (vd_io (buffers_in put d)) = io_d (vd_io d)"
  "io_d (vd_io (buffers_out get d)) = io_d (vd_io d)"
  by (simp_all add: ns_data_def buffers_in_def buffers_out_def dev_mem_def)

lemma buffers_shape [simp]: "vdev_shape (buffers_in put d) = vdev_shape d" "vdev_shape (buffers_out get d) = vdev_shape d"
  by (simp_all add: vdev_shape_def buffers_in_def buffers_out_def io_shape_def tables_ok_def)

lemma same_io_reaches: "io_d (vd_io d') = io_d (vd_io d) \<Longrightarrow> reaches perf (vd_io d, pc) (vd_io d', pc)"
  by (rule reaches_step, rule io_step.environment) simp

lemma service_step_cases:
  assumes "service_step b kv proc perf put get s s'"
  obtains "vdev_step b kv proc perf s s'"
  | nows d pc d' where "s = (d, pc)" "s' = (buffers_out get d', pc)"
      "nvmev_dispatcher_turn b kv proc nows (buffers_in put d) = Some d'"
  using assms
proof (cases rule: service_step.cases)
  case (turn nows d d' pc)
  then show thesis using that(2) by (auto simp: service_turn_def elim!: bind_SomeE)
qed (auto intro: that(1) vdev_step.intros)

lemma service_step_shape:
  assumes "service_step b kv proc perf put get s s'" "vdev_shape (fst s)"
  shows "vdev_shape (fst s')"
  using assms(1)
proof (cases rule: service_step_cases)
  case 1
  then show ?thesis using vdev_step_shape assms(2) by blast
next
  case (2 nows d pc d')
  then show ?thesis using dispatcher_turn_shape[OF 2(3)] assms(2) by simp
qed

lemma service_step_reaches:
  assumes "service_step b kv proc perf put get s s'"
  shows "reaches perf (vd_io (fst s), snd s) (vd_io (fst s'), snd s')"
  using assms
proof (cases rule: service_step_cases)
  case 1
  then show ?thesis by (rule vdev_step_reaches)
next
  case (2 nows d pc d')
  have "reaches perf (vd_io d, pc) (vd_io (buffers_in put d), pc)" by (rule same_io_reaches) simp
  also have "reaches perf (vd_io (buffers_in put d), pc) (vd_io d', pc)" by (rule dispatcher_turn_reaches[OF 2(3)])
  also have "reaches perf (vd_io d', pc) (vd_io (buffers_out get d'), pc)" by (rule same_io_reaches) simp
  finally show ?thesis using 2 by simp
qed

lemma service_reach_shape: "service_reach b kv proc perf put get d0 s \<Longrightarrow> vdev_shape d0 \<Longrightarrow> vdev_shape (fst s)"
  by (induction rule: service_reach.induct) (auto intro: service_step_shape)

lemma service_reach_reaches: "service_reach b kv proc perf put get d0 s \<Longrightarrow> reaches perf (vd_io d0, \<lambda>_. Idle) (vd_io (fst s), snd s)"
proof (induction rule: service_reach.induct)
  case (step s s')
  show ?case by (rule reaches_trans[OF step.IH service_step_reaches[OF step.hyps(2)]])
qed simp

text \<open>From power-on: the shape, the invariant of the workers, and no command lost or finished twice.\<close>

lemma service_reach_accounts:
  assumes "service_reach b kv proc perf put get (VDEV_INIT z nr nss md data bufs) (d, pc)" "0 < nr" "nr < 2 ^ 32"
  shows "vdev_shape d" "sys_inv (vd_io d, pc)"
    "\<exists>tr. io_run perf (vd_io (VDEV_INIT z nr nss md data bufs), \<lambda>_. Idle) tr (vd_io d, pc) \<and> accepted tr = finished tr + all_pending (vd_io d)"
proof -
  show "vdev_shape d" using service_reach_shape[OF assms(1) init_shape] by simp
  let ?s = "vd_io (VDEV_INIT z nr nss md data bufs)"
  have i: "io_d ?s = NVMEV_IO_WORKER_INIT nr" by (simp add: VDEV_INIT_def)
  obtain tr where tr: "io_run perf (?s, \<lambda>_. Idle) tr (vd_io d, pc)" using service_reach_reaches[OF assms(1)] by (auto simp: reaches_def)
  from io_run_ok[OF tr init_sys_ok(1)[OF assms(2,3) i]] init_sys_ok(2)[OF assms(2,3) i] tr
  show "sys_inv (vd_io d, pc)" "\<exists>tr. io_run perf (?s, \<lambda>_. Idle) tr (vd_io d, pc) \<and> accepted tr = finished tr + all_pending (vd_io d)"
    by (auto simp: add.commute)
qed

subsection \<open>What keeps the data of the namespace\<close>

lemma mod_work_data: "mod_work s k i f = Some s' \<Longrightarrow> io_data s' = io_data s"
  by (auto simp: mod_work_def mod_worker_def split: bind_splits)

lemma worker_complete_data: "worker_complete k i now s = Some s' \<Longrightarrow> io_data s' = io_data s"
  by (auto simp: worker_complete_def split: bind_splits if_splits dest!: mod_work_data)

lemma copy_data_cases:
  assumes "worker_copy perf k i s = Some s'"
  obtains "io_data s' = io_data s" | e st r st' where "perf e st (io_data s) = Some (r, st', io_data s')"
proof -
  obtain w where w: "get_work s k i = Some w" using assms by (auto simp: worker_copy_def elim!: bind_SomeE)
  show thesis
  proof (cases "is_copied w \<or> is_internal w")
    case True
    then show thesis using assms w mod_work_data by (intro that(1)) (auto simp: worker_copy_def split: if_splits)
  next
    case False
    then obtain e r st d where p: "perf e (w_status w) (io_data s) = Some (r, st, d)"
      "mod_work (s\<lparr>io_data := d\<rparr>) k i (\<lambda>w. w\<lparr>w_result0 := (case r of None \<Rightarrow> w_result0 w | Some x \<Rightarrow> x), w_status := st, is_copied := True\<rparr>) = Some s'"
      using assms w by (auto simp: worker_copy_def elim!: bind_SomeE)
    have "io_data s' = d" using mod_work_data[OF p(2)] by simp
    then show thesis using p(1) that(2) by blast
  qed
qed

lemma worker_signal_data: "worker_signal lock n k s = Some (is, s') \<Longrightarrow> io_data s' = io_data s"
proof -
  assume a: "worker_signal lock n k s = Some (is, s')"
  have "io_data (snd (is, s')) = io_data s"
    by (rule opt_fold_dispatch_keeps[OF a[unfolded worker_signal_def], of "\<lambda>t. io_data (snd t) = io_data s"])
      (auto elim!: bind_SomeE split: if_splits option.splits prod.splits)
  then show ?thesis by simp
qed

lemma nvmev_proc_io_data:
  assumes "nvmev_proc_io kv proc now sqid k s = Some (r, s')"
  obtains nsid e ret ok ret' ops where "proc nsid e sqid now ret (io_data s) = Some (ok, ret', ops, io_data s')"
  using assms unfolding nvmev_proc_io_def Let_def
  by (auto elim!: bind_SomeE split: if_splits prod.splits intro: that)

lemma nvmev_proc_io_cq_data: "nvmev_proc_io_cq qid new_db old_db s = Some s' \<Longrightarrow> io_data s' = io_data s"
  by (auto simp: nvmev_proc_io_cq_def Let_def elim!: bind_SomeE)

lemma mod_sq_data: "mod_sq s sqid f = Some s' \<Longrightarrow> io_data s' = io_data s"
  by (auto simp: mod_sq_def elim!: bind_SomeE)

subsection \<open>The interface\<close>

locale namespace_service =
  fixes I :: "'s \<Rightarrow> bool"
    and proc :: "('s \<times> host_mem) proc_io"
    and perf :: "('s \<times> host_mem) perform"
    and put :: "buffer list \<Rightarrow> 's \<Rightarrow> 's"
  assumes proc_keeps: "I s \<Longrightarrow> proc nsid e sqid now ret (s, m) = Some (ok, ret', ops, s', m') \<Longrightarrow> I s'"
    and perf_keeps: "I s \<Longrightarrow> perf e st (s, m) = Some (r, st', s', m') \<Longrightarrow> I s'"
    and put_keeps: "I s \<Longrightarrow> I (put bs s)"
begin

lemma proc_io_keeps:
  assumes "nvmev_proc_io kv proc now sqid k s = Some (r, s')" "I (fst (io_data s))"
  shows "I (fst (io_data s'))"
  using nvmev_proc_io_data[OF assms(1)] proc_keeps[OF assms(2)] by (metis prod.collapse)

lemma sq_loop_keeps:
  "proc_sq_loop kv proc nows sqid n k seq s = Some (seq', s') \<Longrightarrow> I (fst (io_data s)) \<Longrightarrow> I (fst (io_data s'))"
proof (induction n arbitrary: k seq s)
  case (Suc n)
  then show ?case
    by (auto elim!: bind_SomeE split: option.splits dest!: proc_io_keeps mod_sq_data)
qed simp

lemma io_sq_keeps:
  assumes "nvmev_proc_io_sq kv proc nows qid new_db old_db s = Some (db, s')" "I (fst (io_data s))"
  shows "I (fst (io_data s'))"
  using assms unfolding nvmev_proc_io_sq_def Let_def
  by (auto elim!: bind_SomeE split: option.splits dest!: mod_sq_data sq_loop_keeps)

lemma turn_keeps:
  assumes "nvmev_dispatcher_turn b kv proc nows d = Some d'" "I (ns_data d)"
  shows "I (ns_data d')"
proof -
  obtain f d0 u1 d1 u2 d2 u where r: "nvmev_proc_bars d = Some (f, d0)" "proc_db_admin b d0 = Some (u1, d1)"
    "opt_fold (proc_db_sq kv proc nows) (u1, d1) [1..<unat (nr_sq d1) + 1] = Some (u2, d2)"
    "opt_fold proc_db_cq (u2, d2) [1..<unat (nr_cq d2) + 1] = Some (u, d')"
    using assms(1) by (auto simp: nvmev_dispatcher_turn_def nvmev_proc_dbs_def elim!: bind_SomeE)
  have "same_io_d d d1" using proc_bars_io[OF r(1)] proc_db_admin_io[OF r(2)] by (rule same_io_d_trans)
  then have 1: "I (ns_data (snd (u1, d1)))" using assms(2) by (simp add: same_io_d_def ns_data_def)
  have sq: "I (ns_data (snd r))" if "proc_db_sq kv proc nows (u, d) qid = Some r" "I (ns_data d)" for u d qid r
    using that(1)
  proof (cases rule: proc_db_sq_cases)
    case (2 new_db old_db db io d')
    show ?thesis using io_sq_keeps[OF 2(1)] set_old_io[OF 2(2)] that(2) 2(3) by (simp add: ns_data_def)
  qed (simp add: that(2))
  have cq: "I (ns_data (snd r))" if "proc_db_cq (u, d) qid = Some r" "I (ns_data d)" for u d qid r
    using that(1)
  proof (cases rule: proc_db_cq_cases)
    case (2 new_db old_db io d')
    show ?thesis using nvmev_proc_io_cq_data[OF 2(1)] set_old_io[OF 2(2)] that(2) 2(3) by (simp add: ns_data_def)
  qed (simp add: that(2))
  have 2: "I (ns_data (snd (u2, d2)))"
    by (rule opt_fold_dispatch_keeps[OF r(3), of "\<lambda>s. I (ns_data (snd s))", OF 1]) (use sq in auto)
  have "I (ns_data (snd (u, d')))"
    by (rule opt_fold_dispatch_keeps[OF r(4), of "\<lambda>s. I (ns_data (snd s))", OF 2]) (use cq in auto)
  then show ?thesis by simp
qed

lemma worker_keeps:
  assumes "io_step perf (s, pc) es (s', pc')" "pc' \<noteq> pc" "I (fst (io_data s))"
  shows "I (fst (io_data s'))"
  using assms(1)
proof (cases rule: io_step.cases)
  case look
  then show ?thesis using assms(3) by (auto simp: mod_worker_def split: bind_splits)
next
  case (copy k i now)
  then have "worker_copy perf k i s = Some s'" by simp
  then show ?thesis
  proof (cases rule: copy_data_cases)
    case (2 e st r st')
    then show ?thesis using perf_keeps[OF assms(3)] by (metis prod.collapse)
  qed (simp add: assms(3))
next
  case complete
  then show ?thesis using assms(3) worker_complete_data by metis
qed (use assms(2,3) in auto)

lemma step_keeps:
  assumes "service_step b kv proc perf put get s s'" "I (ns_data (fst s))"
  shows "I (ns_data (fst s'))"
  using assms
proof (induction rule: service_step.induct)
  case (host d d' pc)
  then show ?case by (auto simp: host_write_def ns_data_def)
next
  case (turn nows d d' pc)
  then obtain d1 where d1: "nvmev_dispatcher_turn b kv proc nows (buffers_in put d) = Some d1" "d' = buffers_out get d1"
    by (auto simp: service_turn_def elim!: bind_SomeE)
  from turn_keeps[OF d1(1)] put_keeps turn.prems d1(2) show ?case by simp
next
  case (worker d pc es io pc')
  then show ?case using worker_keeps by (simp add: ns_data_def)
next
  case (signal lock d k "is" io pc)
  then show ?case by (auto simp: ns_data_def dest!: worker_signal_data)
qed

text \<open>The invariant of the namespace in every state of the whole device.\<close>

lemma reach_keeps: "service_reach b kv proc perf put get d0 s \<Longrightarrow> I (ns_data d0) \<Longrightarrow> I (ns_data (fst s))"
  by (induction rule: service_reach.induct) (auto intro: step_keeps)

end

end
