(* ===== verification/Vdev_Conv.thy ===== *)
theory Vdev_Conv
  imports Vdev_Service Vdev_Correct Conv_Correct
begin

text \<open>
  The device with a namespace of the page-mapping FTL: the handler that the dispatcher calls, the
  copy that the workers make and the write buffer they give space back to. The interpretation of
  \<open>namespace_service\<close> on them carries the invariant of the FTL over to the whole device.
\<close>

subsection \<open>The namespace behind the dispatcher\<close>

type_synonym conv_dev = "nvmev_ns \<times> (nat \<Rightarrow> u8)"

definition conv_request :: "nvme_sqe \<Rightarrow> nat \<Rightarrow> u64 \<Rightarrow> nvmev_request" where
  "conv_request e sqid now = \<lparr>req_cmd = nvme_rw_cmd.truncate (sqe_rw e), sq_id = of_nat sqid, nsecs_start = now\<rparr>"

text \<open>
  There is one namespace; another number is outside of the array. \<open>ranges\<close> is what the kernel maps
  for the page of a deallocate command. The releases go to the only write buffer, number 0.
\<close>

definition conv_dev_proc :: "gc_build \<Rightarrow> (host_mem \<Rightarrow> u64 \<Rightarrow> (nat \<Rightarrow> u64 \<times> u32) option) \<Rightarrow> (conv_dev \<times> host_mem) proc_io" where
  "conv_dev_proc bc ranges nsid e sqid now ret d = do {
     let ((ns, stg), m) = d;
     ns \<leftarrow> aget [ns] nsid;
     (ok, r, ops, ns) \<leftarrow> conv_proc_nvme_io_cmd bc (ranges m (cmd_prp1 (sqe_rw e))) ns (conv_request e sqid now) (zns_base ret);
     Some (ok, zns_with ret r, map (\<lambda>x. (unat (op_sqid x), op_nsecs_target x, 0, op_buffs_to_release x)) ops, (ns, stg), m)
   }"

definition conv_dev_perform :: "bool \<Rightarrow> (u64 \<Rightarrow> bool) \<Rightarrow> nat \<Rightarrow> (conv_dev \<times> host_mem) perform" where
  "conv_dev_perform using_dma pv sz e st d = do {
     let ((ns, stg), m) = d;
     (r, st, stg, m) \<leftarrow> block_perform using_dma pv sz [0] e st (stg, m);
     Some (r, st, (ns, stg), m)
   }"

fun conv_put :: "buffer list \<Rightarrow> conv_dev \<Rightarrow> conv_dev" where
  "conv_put (b # _) (ns, stg) = (ns\<lparr>ns_ftl := (ns_ftl ns)\<lparr>ftl_ssd := (ftl_ssd (ns_ftl ns))\<lparr>write_buffer := b\<rparr>\<rparr>\<rparr>, stg)"
| "conv_put [] s = s"

definition conv_get :: "conv_dev \<Rightarrow> buffer list" where
  "conv_get s = [write_buffer (ftl_ssd (ns_ftl (fst s)))]"

text \<open>The host's part of the contract: runs in which each write that is handled is admissible.\<close>

definition conv_within :: "nat \<Rightarrow> (conv_dev \<times> host_mem) proc_io \<Rightarrow> (conv_dev \<times> host_mem) proc_io" where
  "conv_within lim proc nsid e sqid now ret d = do {
     nv_assert (admissible lim (fst (fst d)) (conv_request e sqid now));
     proc nsid e sqid now ret d
   }"

definition conv_ready :: "gc_build \<Rightarrow> nat \<Rightarrow> conv_dev \<Rightarrow> bool" where
  "conv_ready bc lim s \<longleftrightarrow> greedy_build bc \<and> serving lim (ns_ftl (fst s)) \<and> ns_csi (fst s) = NVME_CSI_NVM"

lemma conv_dev_proc_ok:
  assumes "conv_ready bc lim (ns, stg)" "admissible lim ns (conv_request e sqid now)"
  shows "\<exists>ok r ops ns'. conv_dev_proc bc ranges 0 e sqid now ret ((ns, stg), m) = Some (ok, r, ops, (ns', stg), m) \<and> conv_ready bc lim (ns', stg)"
proof -
  have r: "serving lim (ns_ftl ns)" "ns_csi ns = NVME_CSI_NVM" "greedy_build bc" using assms(1) by (simp_all add: conv_ready_def)
  from conv_cmd_ok[OF r assms(2), of "ranges m (cmd_prp1 (sqe_rw e))" "zns_base ret"] obtain ok ret' ops ns' where
    "conv_proc_nvme_io_cmd bc (ranges m (cmd_prp1 (sqe_rw e))) ns (conv_request e sqid now) (zns_base ret) = Some (ok, ret', ops, ns')"
    "serving lim (ns_ftl ns')" "ns_csi ns' = NVME_CSI_NVM" by blast
  then show ?thesis using r(3) by (simp add: conv_dev_proc_def conv_ready_def)
qed

lemma conv_put_ready: "conv_ready bc lim s \<Longrightarrow> conv_ready bc lim (conv_put bs s)"
  by (cases "(bs, s)" rule: conv_put.cases) (auto simp: conv_ready_def serving_def in_service_wbuf)

interpretation conv_dev: namespace_service "conv_ready bc lim" "conv_within lim (conv_dev_proc bc ranges)" "conv_dev_perform using_dma pv sz" conv_put
  for bc lim ranges using_dma pv sz
proof
  fix s nsid e sqid now ret m ok ret' ops s' m'
  assume i: "conv_ready bc lim s" and p: "conv_within lim (conv_dev_proc bc ranges) nsid e sqid now ret (s, m) = Some (ok, ret', ops, s', m')"
  obtain ns stg where s: "s = (ns, stg)" by (cases s)
  have a: "admissible lim ns (conv_request e sqid now)" "conv_dev_proc bc ranges nsid e sqid now ret ((ns, stg), m) = Some (ok, ret', ops, s', m')"
    using p s by (auto simp: conv_within_def nv_assert_Some_iff elim!: bind_SomeE)
  then have "nsid = 0" by (auto simp: conv_dev_proc_def aget_Some_iff elim!: bind_SomeE)
  with conv_dev_proc_ok[OF i[unfolded s] a(1), of ranges ret m] a(2) show "conv_ready bc lim s'" by auto
next
  fix s e st m r st' s' m'
  assume "conv_ready bc lim s" "conv_dev_perform using_dma pv sz e st (s, m) = Some (r, st', s', m')"
  then show "conv_ready bc lim s'" by (auto simp: conv_dev_perform_def conv_ready_def split: prod.splits elim!: bind_SomeE)
next
  fix s bs
  assume "conv_ready bc lim s"
  then show "conv_ready bc lim (conv_put bs s)" by (rule conv_put_ready)
qed

subsection \<open>The whole device\<close>

text \<open>C5. A device with a page-mapping namespace in service, under the greedy policy: in every state
  that the host, the dispatcher and the workers reach from power-on, however their steps interleave,
  the mapping table is a bijection between the mapped logical pages and the valid physical pages; the
  handler returns on every admissible command that comes next; and every command taken is finished,
  or still in the list of a worker.\<close>

theorem conv_device_safe:
  assumes "service_reach b False (conv_within lim (conv_dev_proc bc ranges)) (conv_dev_perform using_dma pv sz) conv_put conv_get
      (VDEV_INIT z nr nss md ((ns, stg), m) bufs) (d, pc)"
    and "0 < nr" "nr < 2 ^ 32" "serving lim (ns_ftl ns)" "ns_csi ns = NVME_CSI_NVM" "greedy_build bc"
  shows "\<exists>ns' stg' tr. ns_data d = (ns', stg') \<and>
    (let c = ns_ftl ns' in bij_betw (\<lambda>l. maptbl c ! l) (mapped_lpns c) {p \<in> pages (spp c). pst (ftl_ssd c) p = PG_VALID}) \<and>
    (\<forall>e sqid now ret. admissible lim ns' (conv_request e sqid now) \<longrightarrow>
       conv_dev_proc bc ranges 0 e sqid now ret (io_data (vd_io d)) \<noteq> None) \<and>
    io_run (conv_dev_perform using_dma pv sz) (vd_io (VDEV_INIT z nr nss md ((ns, stg), m) bufs), \<lambda>_. Idle) tr (vd_io d, pc) \<and>
    accepted tr = finished tr + all_pending (vd_io d)"
proof -
  have "conv_ready bc lim (ns, stg)" using assms(4-6) by (simp add: conv_ready_def)
  then have r: "conv_ready bc lim (ns_data d)" using conv_dev.reach_keeps[OF assms(1)] by (simp add: ns_data_def VDEV_INIT_def)
  obtain ns' stg' where n: "ns_data d = (ns', stg')" by (cases "ns_data d")
  then have d: "io_data (vd_io d) = ((ns', stg'), dev_mem d)" by (simp add: ns_data_def dev_mem_def prod_eq_iff)
  have "serving lim (ns_ftl ns')" using r n by (simp add: conv_ready_def)
  moreover have "conv_dev_proc bc ranges 0 e sqid now ret (io_data (vd_io d)) \<noteq> None"
    if "admissible lim ns' (conv_request e sqid now)" for e sqid now ret
    using conv_dev_proc_ok[OF r[unfolded n] that, of ranges ret "dev_mem d"] by (auto simp: d)
  ultimately show ?thesis
    using serving_bij service_reach_accounts(3)[OF assms(1-3)] n unfolding Let_def by blast
qed

text \<open>The witness: the small device of \<open>Conv_Correct\<close>, a host that writes the registers, and a turn.\<close>

lemma power_on_turn:
  assumes "put bufs st = st"
  shows "\<exists>d q. service_reach b kv proc perf put get (VDEV_INIT False n nss md (st, m) bufs) (d, \<lambda>_. Idle) \<and>
    admin_q d = Some q \<and> sq_depth q = 8 \<and> io_data (vd_io d) = (st, m)"
proof -
  let ?d0 = "VDEV_INIT False n nss md (st, m) bufs"
  have h: "service_step b kv proc perf put get (?d0, \<lambda>_. Idle) (?d0\<lparr>bar := demo_regs\<rparr>, \<lambda>_. Idle)"
    by (rule service_step.host, rule power_on_write)
  have "buffers_in put (?d0\<lparr>bar := demo_regs\<rparr>) = ?d0\<lparr>bar := demo_regs\<rparr>"
    using assms by (simp add: buffers_in_def ns_data_def dev_mem_def VDEV_INIT_def)
  then obtain d1 q where d1: "nvmev_dispatcher_turn b kv proc (\<lambda>_ _. 0) (buffers_in put (?d0\<lparr>bar := demo_regs\<rparr>)) = Some d1"
    "admin_q d1 = Some q" "sq_depth q = 8" "io_data (vd_io d1) = (st, m)"
    using first_turn[OF refl, where n = n and nss = nss and md = md and data = "(st, m)" and bufs = bufs and b = b and kv = kv and proc = proc and nows = "\<lambda>_ _. 0"] by auto
  then have "service_turn b kv proc put get (\<lambda>_ _. 0) (?d0\<lparr>bar := demo_regs\<rparr>) = Some (buffers_out get d1)" by (simp add: service_turn_def)
  from service_reach.step[OF service_reach.step[OF service_reach.start h] service_step.turn[OF this]]
  have "service_reach b kv proc perf put get ?d0 (buffers_out get d1, \<lambda>_. Idle)" .
  moreover have "admin_q (buffers_out get d1) = Some q" "io_data (vd_io (buffers_out get d1)) = (st, m)"
    using d1 by (simp_all add: buffers_out_def)
  ultimately show ?thesis using d1(3) by blast
qed

definition demo_write :: nvme_sqe where
  "demo_write = \<lparr>sqe_command_id = 7, sqe_rw = nvme_rw_cmd.extend (req_cmd tiny_write) (nvme_io_cmd.fields 1 4096 0), sqe_kv = 
     \<lparr>kv_opcode = 1, kv_prp1 = 4096, kv_prp2 = 0, kv_value_len = 8, kv_key_len = 0, kv_option = 0, kv_rsvd4 = 0, kv_key = replicate 16 0\<rparr>\<rparr>"

lemma demo_write_request: "conv_request demo_write 1 0 = tiny_write"
  by (simp add: conv_request_def demo_write_def tiny_write_def nvme_rw_cmd.defs)

definition idle_ret :: zns_result where "idle_ret = \<lparr>ret_status = 0, nsecs_target = 0, ret_result = 0\<rparr>"

lemma conv_device_safe_witness:
  "\<exists>d q. service_reach demo_build False (conv_within 31 (conv_dev_proc default_build (\<lambda>_ _. None))) (conv_dev_perform False (\<lambda>_. True) 4096)
      conv_put conv_get (VDEV_INIT False 1 [demo_vns] 5 ((tiny_ns, \<lambda>_. 0), \<lambda>_. 0) (conv_get (tiny_ns, \<lambda>_. 0))) (d, \<lambda>_. Idle) \<and>
    admin_q d = Some q \<and> sq_depth q = 8 \<and> conv_dev_proc default_build (\<lambda>_ _. None) 0 demo_write 1 0 idle_ret (io_data (vd_io d)) \<noteq> None"
proof -
  have "conv_put (conv_get (tiny_ns, \<lambda>_. 0)) (tiny_ns, \<lambda>_. 0) = (tiny_ns, \<lambda>_. 0)" by (simp add: conv_get_def)
  from power_on_turn[where put = conv_put and bufs = "conv_get (tiny_ns, \<lambda>_. 0)" and st = "(tiny_ns, \<lambda>_. 0)", OF this,
      where b = demo_build and kv = False and n = 1 and nss = "[demo_vns]" and md = 5 and m = "\<lambda>_. 0"
      and proc = "conv_within 31 (conv_dev_proc default_build (\<lambda>_ _. None))" and perf = "conv_dev_perform False (\<lambda>_. True) 4096" and get = conv_get]
  obtain d q where r: "service_reach demo_build False (conv_within 31 (conv_dev_proc default_build (\<lambda>_ _. None))) (conv_dev_perform False (\<lambda>_. True) 4096)
      conv_put conv_get (VDEV_INIT False 1 [demo_vns] 5 ((tiny_ns, \<lambda>_. 0), \<lambda>_. 0) (conv_get (tiny_ns, \<lambda>_. 0))) (d, \<lambda>_. Idle)"
    "admin_q d = Some q" "sq_depth q = 8" "io_data (vd_io d) = ((tiny_ns, \<lambda>_. 0), \<lambda>_. 0)" by blast
  have "(0 :: nat) < 1" "(1 :: nat) < 2 ^ 32" "serving 31 (ns_ftl tiny_ns)" "ns_csi tiny_ns = NVME_CSI_NVM" by (simp_all add: tiny_ns_def tiny_ftl_ok)
  from conv_device_safe[OF r(1) this greedy_default] obtain ns' stg' where n: "ns_data d = (ns', stg')"
    "\<forall>e sqid now ret. admissible 31 ns' (conv_request e sqid now) \<longrightarrow>
       conv_dev_proc default_build (\<lambda>_ _. None) 0 e sqid now ret (io_data (vd_io d)) \<noteq> None" by (elim exE conjE)
  have "ns' = tiny_ns" using n(1) r(4) by (simp add: ns_data_def)
  then have "admissible 31 ns' (conv_request demo_write 1 0)" using tiny_write_admissible by (simp only: demo_write_request)
  then show ?thesis using n(2) r(1-3) by blast
qed

end
