(* ===== verification/Vdev_Kv.thy ===== *)
theory Vdev_Kv
  imports Vdev_Conv Kv_Correct Io_Units
begin

text \<open>
  The device with a key-value namespace. Here the dispatcher only schedules on the I/O units, and it
  is the workers that perform the commands on the store, so what the interpretation of
  \<open>namespace_service\<close> needs is that performing keeps the store consistent.
\<close>

type_synonym kv_dev = "append_only kv_ftl \<times> u64 list"

definition kv_dev_cmd :: "nvme_sqe \<Rightarrow> nvme_rw_cmd + nvme_kv_command" where
  "kv_dev_cmd e = (if opcode (sqe_rw e) \<in> {nvme_cmd_write, nvme_cmd_read, nvme_cmd_flush}
     then Inl (nvme_rw_cmd.truncate (sqe_rw e)) else Inr (sqe_kv e))"

definition kv_dev_proc :: "nvmev_config \<Rightarrow> (kv_dev \<times> host_mem) proc_io" where
  "kv_dev_proc cfg nsid e sqid now ret d = do {
     let ((c, stat), m) = d;
     (ok, r, stat) \<leftarrow> kv_proc_nvme_io_cmd cfg stat now (kv_dev_cmd e) (zns_base ret);
     Some (ok, zns_with ret r, [], (c, stat), m)
   }"

definition kv_dev_perform :: "bool \<Rightarrow> (u64 \<Rightarrow> bool) \<Rightarrow> (kv_dev \<times> host_mem) perform" where
  "kv_dev_perform using_dma pv e st d = do {
     let ((c, stat), m) = d;
     (r, st, c, m) \<leftarrow> kv_perform using_dma pv [0] e st (c, m);
     Some (r, st, (c, stat), m)
   }"

definition no_buffers :: "buffer list \<Rightarrow> 's \<Rightarrow> 's" where "no_buffers bs s = s"

text \<open>
  The host's part of the contract: runs in which each key-value command that is performed is a single
  one, and has keys of \<open>n\<close> bytes and lengths that the store can keep as a map.
\<close>

definition kv_contract :: "nat \<Rightarrow> append_only kv_ftl \<Rightarrow> host_mem \<Rightarrow> nvme_kv_command \<Rightarrow> bool" where
  "kv_contract n c m cmd \<longleftrightarrow> \<not> is_kv_batch_cmd (kv_opcode cmd) \<and> \<not> is_kv_iter_cmd (kv_opcode cmd) \<and>
     kv_admissible ao_room c m cmd \<and> kv_safe n c cmd"

definition kv_within :: "nat \<Rightarrow> (kv_dev \<times> host_mem) perform \<Rightarrow> (kv_dev \<times> host_mem) perform" where
  "kv_within n perf e st d = do {
     nv_assert (kv_identify_nvme_io_cmd (sqe_kv e) \<longrightarrow> kv_contract n (fst (fst d)) (snd d) (sqe_kv e));
     perf e st d
   }"

definition kv_ready :: "nat \<Rightarrow> kv_dev \<Rightarrow> bool" where
  "kv_ready n s \<longleftrightarrow> kv_inv append_only_ops ao_dev_size (fst s) \<and> kv_bound n ao_taken (fst s)"

lemma kv_ready_storage: "kv_ready n (c, stat) \<Longrightarrow> kv_ready n (c\<lparr>kv_storage := f\<rparr>, stat')"
  by (simp add: kv_ready_def kv_inv_def kv_bound_def kv_shape_def)

lemma kv_perform_ok:
  assumes "kv_ready n (c, stat)" "kv_identify_nvme_io_cmd (sqe_kv e)" "kv_contract n c m (sqe_kv e)"
  shows "\<exists>r st' c' m'. kv_dev_perform False pv e st ((c, stat), m) = Some (Some r, st', (c', stat), m') \<and> kv_ready n (c', stat) \<and>
    (r, st', kv_values n c') = kv_spec (kv_values n c) (sqe_kv e) (host_data m (sqe_kv e) (kv_len (sqe_kv e))) st"
proof -
  let ?cmd = "sqe_kv e"
  have k: "kv_inv append_only_ops ao_dev_size c" "kv_bound n ao_taken c" "kv_admissible ao_room c m ?cmd" "kv_safe n c ?cmd"
    using assms(1,3) by (simp_all add: kv_ready_def kv_contract_def)
  from ao.kv_command_refines[OF k, of st] obtain r st' c' m' where r: "do_perform_kv_io c m ?cmd st = Some (r, st', c', m')"
    "kv_bound n ao_taken c'" "(r, st', kv_values n c') = kv_spec (kv_values n c) ?cmd (host_data m ?cmd (kv_len ?cmd)) st" by blast
  from ao.kv_command_ok[OF k(1,3), of st] r(1) have "kv_inv append_only_ops ao_dev_size c'" by auto
  then show ?thesis using r assms(2,3)
    by (simp add: kv_dev_perform_def kv_perform_def kv_perform_nvme_io_cmd_def kv_contract_def kv_ready_def)
qed

interpretation kv_dev: namespace_service "kv_ready n" "kv_dev_proc cfg" "kv_within n (kv_dev_perform using_dma pv)" no_buffers
  for n cfg using_dma pv
proof
  fix s nsid e sqid now ret m ok ret' ops s' m'
  assume "kv_ready n s" "kv_dev_proc cfg nsid e sqid now ret (s, m) = Some (ok, ret', ops, s', m')"
  then show "kv_ready n s'" by (auto simp: kv_dev_proc_def kv_ready_def split: prod.splits elim!: bind_SomeE)
next
  fix s e st m r st' s' m'
  assume i: "kv_ready n s" and p: "kv_within n (kv_dev_perform using_dma pv) e st (s, m) = Some (r, st', s', m')"
  obtain c stat where s: "s = (c, stat)" by (cases s)
  have q: "kv_identify_nvme_io_cmd (sqe_kv e) \<Longrightarrow> kv_contract n c m (sqe_kv e)"
    "kv_dev_perform using_dma pv e st ((c, stat), m) = Some (r, st', s', m')"
    using p s by (auto simp: kv_within_def nv_assert_Some_iff elim!: bind_SomeE)
  show "kv_ready n s'"
  proof (cases "\<not> using_dma \<and> kv_identify_nvme_io_cmd (sqe_kv e)")
    case True
    with kv_perform_ok[OF i[unfolded s] _ q(1), of pv st] q(2) show ?thesis by auto
  next
    case False
    then show ?thesis using q(2) kv_ready_storage[OF i[unfolded s]]
      by (auto simp: kv_dev_perform_def kv_perform_def elim!: bind_SomeE)
  qed
next
  fix s bs
  assume "kv_ready n s"
  then show "kv_ready n (no_buffers bs s)" by (simp add: no_buffers_def)
qed

text \<open>C6. A device with an empty key-value namespace, as long as the commands performed have keys of one
  length, do not replace values by longer ones and delete only ends of chains: in every state that the
  host, the dispatcher and the workers reach from power-on, the values of different keys lie apart;
  a command of that kind that a worker performs next returns, answers and acts as on a map from keys
  to values; and every command taken is finished, or still in the list of a worker.\<close>

theorem kv_device_refines:
  assumes "kv_init_namespace append_only_ops bytes junk s0 mapped sz = Some c0" "48 \<le> bytes" "bytes div 48 < 2 ^ 31"
    and "service_reach b True (kv_dev_proc cfg) (kv_within n (kv_dev_perform False pv)) no_buffers (\<lambda>_. [])
      (VDEV_INIT z nr nss md ((c0, stat0), m) bufs) (d, pc)" "0 < nr" "nr < 2 ^ 32"
  shows "\<exists>c stat tr. io_data (vd_io d) = ((c, stat), dev_mem d) \<and>
    (\<forall>k k' off len off' len'. k \<noteq> k' \<and> entry_map n (kv_mapping_table c) k = Some (off, len) \<and>
       entry_map n (kv_mapping_table c) k' = Some (off', len') \<longrightarrow> region off len \<inter> region off' len' = {}) \<and>
    (\<forall>e st. kv_identify_nvme_io_cmd (sqe_kv e) \<and> kv_contract n c (dev_mem d) (sqe_kv e) \<longrightarrow>
      (\<exists>r st' c' m'. kv_dev_perform False pv e st ((c, stat), dev_mem d) = Some (Some r, st', (c', stat), m') \<and>
        (r, st', kv_values n c') = kv_spec (kv_values n c) (sqe_kv e) (host_data (dev_mem d) (sqe_kv e) (kv_len (sqe_kv e))) st)) \<and>
    io_run (kv_within n (kv_dev_perform False pv)) (vd_io (VDEV_INIT z nr nss md ((c0, stat0), m) bufs), \<lambda>_. Idle) tr (vd_io d, pc) \<and>
    accepted tr = finished tr + all_pending (vd_io d)"
proof -
  note i = ao_init_ok[OF assms(1-3)]
  have "kv_ready n (c0, stat0)" using i(1,2) by (simp add: kv_ready_def)
  then have r: "kv_ready n (ns_data d)" using kv_dev.reach_keeps[OF assms(4)] by (simp add: ns_data_def VDEV_INIT_def)
  obtain c stat where c: "ns_data d = (c, stat)" by (cases "ns_data d")
  have d: "io_data (vd_io d) = ((c, stat), dev_mem d)" using c by (simp add: ns_data_def dev_mem_def prod_eq_iff)
  have "kv_bound n ao_taken c" using r c by (simp add: kv_ready_def)
  then have apart: "\<forall>k k' off len off' len'. k \<noteq> k' \<and> entry_map n (kv_mapping_table c) k = Some (off, len) \<and>
      entry_map n (kv_mapping_table c) k' = Some (off', len') \<longrightarrow> region off len \<inter> region off' len' = {}"
    unfolding kv_bound_def by blast
  obtain tr where tr: "io_run (kv_within n (kv_dev_perform False pv)) (vd_io (VDEV_INIT z nr nss md ((c0, stat0), m) bufs), \<lambda>_. Idle) tr (vd_io d, pc)"
    "accepted tr = finished tr + all_pending (vd_io d)"
    using service_reach_accounts(3)[OF assms(4-6)] by blast
  show ?thesis
  proof (intro exI conjI)
    show "\<forall>e st. kv_identify_nvme_io_cmd (sqe_kv e) \<and> kv_contract n c (dev_mem d) (sqe_kv e) \<longrightarrow>
      (\<exists>r st' c' m'. kv_dev_perform False pv e st ((c, stat), dev_mem d) = Some (Some r, st', (c', stat), m') \<and>
        (r, st', kv_values n c') = kv_spec (kv_values n c) (sqe_kv e) (host_data (dev_mem d) (sqe_kv e) (kv_len (sqe_kv e))) st)"
      using kv_perform_ok[OF r[unfolded c]] by blast
  qed (rule d apart tr)+
qed

text \<open>The witness: the small store of \<open>Kv_Correct\<close> after the first turn, and a store of a key in it.\<close>

definition demo_store :: nvme_sqe where
  "demo_store = \<lparr>sqe_command_id = 7, sqe_rw = \<lparr>opcode = nvme_cmd_kv_store, slba = 1, rw_length = 0, rw_control = 0, dsm_nr = 1,
     dsm_attributes = 0, cmd_nsid = 1, cmd_prp1 = 4096, cmd_prp2 = 0\<rparr>, sqe_kv = demo_kv_cmd nvme_cmd_kv_store 9 1\<rparr>"

lemma demo_store_contract:
  "kv_identify_nvme_io_cmd (sqe_kv demo_store)" "kv_contract 1 demo_kv m (sqe_kv demo_store)"
  using demo_store_admissible(1)[where m = m and k = 9] demo_store_admissible(2)[where k = 9]
  by (simp_all add: demo_store_def kv_identify_nvme_io_cmd_def kv_contract_def is_kv_batch_cmd_def is_kv_iter_cmd_def demo_kv_cmd_def kv_opcodes)

lemma kv_device_refines_witness:
  "\<exists>d q r st' c' m'. service_reach demo_build True (kv_dev_proc demo_units) (kv_within 1 (kv_dev_perform False (\<lambda>_. True))) no_buffers (\<lambda>_. [])
      (VDEV_INIT False 1 [demo_vns] 5 ((demo_kv, []), \<lambda>_. 5) []) (d, \<lambda>_. Idle) \<and> admin_q d = Some q \<and> sq_depth q = 8 \<and>
    kv_dev_perform False (\<lambda>_. True) demo_store 0 (io_data (vd_io d)) = Some (Some r, st', (c', []), m')"
proof -
  have "no_buffers [] (demo_kv, []) = (demo_kv, [] :: u64 list)" by (simp add: no_buffers_def)
  from power_on_turn[where put = no_buffers and bufs = "[]" and st = "(demo_kv, [])", OF this, where b = demo_build and kv = True
      and n = 1 and nss = "[demo_vns]" and md = 5 and m = "\<lambda>_. 5" and proc = "kv_dev_proc demo_units"
      and perf = "kv_within 1 (kv_dev_perform False (\<lambda>_. True))" and get = "\<lambda>_. []"]
  obtain d q where r: "service_reach demo_build True (kv_dev_proc demo_units) (kv_within 1 (kv_dev_perform False (\<lambda>_. True))) no_buffers (\<lambda>_. [])
      (VDEV_INIT False 1 [demo_vns] 5 ((demo_kv, []), \<lambda>_. 5) []) (d, \<lambda>_. Idle)" "admin_q d = Some q" "sq_depth q = 8"
    "io_data (vd_io d) = ((demo_kv, []), \<lambda>_. 5)" by blast
  have "48 \<le> (192 :: nat)" "192 div 48 < (2 :: nat) ^ 31" "(0 :: nat) < 1" "(1 :: nat) < 2 ^ 32" by simp_all
  from kv_device_refines[OF demo_kv_init this(1,2) r(1) this(3,4)] obtain c stat where
    c: "io_data (vd_io d) = ((c, stat), dev_mem d)"
    "\<forall>e st. kv_identify_nvme_io_cmd (sqe_kv e) \<and> kv_contract 1 c (dev_mem d) (sqe_kv e) \<longrightarrow>
      (\<exists>r st' c' m'. kv_dev_perform False (\<lambda>_. True) e st ((c, stat), dev_mem d) = Some (Some r, st', (c', stat), m') \<and>
        (r, st', kv_values 1 c') = kv_spec (kv_values 1 c) (sqe_kv e) (host_data (dev_mem d) (sqe_kv e) (kv_len (sqe_kv e))) st)"
    by (elim exE conjE)
  have "c = demo_kv" "stat = []" using c(1) r(4) by simp_all
  then have "\<exists>r st' c' m'. kv_dev_perform False (\<lambda>_. True) demo_store 0 (io_data (vd_io d)) = Some (Some r, st', (c', []), m')"
    using c(2) demo_store_contract c(1) by (metis (no_types, lifting))
  then show ?thesis using r(1-3) by blast
qed

end
