(* ===== verification/Vdev_Setup.thy ===== *)
theory Vdev_Setup
  imports Vdev_Kv
begin

unbundle bit_operations_syntax

text \<open>
  Setting up the module, \<^verbatim>\<open>main.c\<close>: the check of the module parameters, the configuration, the
  division of the storage into namespaces, and the files under \<^verbatim>\<open>/proc/nvmev\<close>. What the memory map of
  the machine says of an address, how a number is read from a string, and whether the kernel takes
  the PCI device are parameters.
\<close>

subsection \<open>Module parameters\<close>

datatype errno = EPERM | EIO | EINVAL

text \<open>The times and units are parameters of the same names as the fields of the configuration.\<close>

record module_params =
  mod_memmap_start :: u64
  mod_memmap_size :: u64
  mod_perf :: nvmev_config
  cpus :: "string option"

record vdev_config = nvmev_config +
  memmap_start :: u64
  memmap_size :: u64
  storage_start :: u64
  storage_size :: u64
  cpu_nr_dispatcher :: u32
  nr_io_workers :: nat
  cpu_nr_io_workers :: "u32 list"

datatype e820_type = E820_TYPE_RAM | E820_TYPE_RESERVED | E820_TYPE_RESERVED_KERN

text \<open>The memory map is there on x86; the kernel-reserved type in newer kernels.\<close>

record machine =
  e820_mapped_any :: "(e820_type \<Rightarrow> u64 \<Rightarrow> u64 \<Rightarrow> bool) option"
  has_reserved_kern :: bool

definition validate_configs_arch :: "machine \<Rightarrow> module_params \<Rightarrow> errno option" where
  "validate_configs_arch mc p = (case e820_mapped_any mc of
     None \<Rightarrow> None
   | Some mapped_any \<Rightarrow>
       let s = mod_memmap_start p; e = s + mod_memmap_size p - 1 in
       if mapped_any E820_TYPE_RAM s e then Some EPERM
       else if has_reserved_kern mc \<and> mapped_any E820_TYPE_RESERVED_KERN s e then Some EPERM
       else if \<not> mapped_any E820_TYPE_RESERVED s e then Some EPERM
       else None)"

definition validate_configs :: "machine \<Rightarrow> module_params \<Rightarrow> errno option" where
  "validate_configs mc p =
     (let c = mod_perf p in
      if mod_memmap_start p = 0 then Some EINVAL
      else if mod_memmap_size p = 0 then Some EINVAL
      else if mod_memmap_size p \<le> MB64 1 then Some EINVAL
      else if validate_configs_arch mc p \<noteq> None then Some EPERM
      else if nr_io_units c = 0 \<or> io_unit_shift c = 0 then Some EINVAL
      else if read_time c = 0 then Some EINVAL
      else if write_time c = 0 then Some EINVAL
      else None)"

subsection \<open>The list of processors\<close>

text \<open>The kernel's \<^verbatim>\<open>strsep\<close> with a comma: the token, and what is left behind the comma if there is one.\<close>

fun strsep :: "string \<Rightarrow> string \<times> string option" where
  "strsep [] = ([], None)"
| "strsep (c # s) = (if c = CHR '','' then ([], Some s) else (let (t, r) = strsep s in (c # t, r)))"

lemma strsep_shorter: "strsep s = (t, Some r) \<Longrightarrow> length r < length s"
  by (induction s arbitrary: t) (auto split: if_splits prod.splits simp: less_SucI)

text \<open>The first token is the dispatcher's, the others are the workers'; there is room for 32 of them.\<close>

function load_cpus :: "(string \<Rightarrow> u32) \<Rightarrow> bool \<Rightarrow> string option \<Rightarrow> vdev_config \<Rightarrow> vdev_config option" where
  "load_cpus num first None cfg = Some cfg"
| "load_cpus num first (Some s) cfg = do {
     let (cpu, rest) = strsep s;
     let cpu_nr = num cpu;
     cfg \<leftarrow> (if first then Some (cfg\<lparr>cpu_nr_dispatcher := cpu_nr\<rparr>)
       else do {
         l \<leftarrow> aset (cpu_nr_io_workers cfg) (nr_io_workers cfg) cpu_nr;
         Some (cfg\<lparr>cpu_nr_io_workers := l, nr_io_workers := nr_io_workers cfg + 1\<rparr>)
       });
     load_cpus num False rest cfg
   }"
  by pat_completeness auto
termination
  by (relation "measure (\<lambda>(num, first, s, cfg). case s of None \<Rightarrow> 0 | Some s \<Rightarrow> Suc (length s))")
    (auto split: option.splits prod.splits dest!: strsep_shorter[OF sym])

declare load_cpus.simps(2) [simp del]

definition KV_MAPPING_TABLE_SIZE :: u64 where "KV_MAPPING_TABLE_SIZE = push_bit 30 1"

text \<open>The inner \<open>None\<close> is the failure that the function reports; \<open>kv\<close> is the build.\<close>

definition load_configs :: "machine \<Rightarrow> bool \<Rightarrow> (string \<Rightarrow> u32) \<Rightarrow> module_params \<Rightarrow> vdev_config option option" where
  "load_configs mc kv num p =
     (if validate_configs mc p \<noteq> None then Some None
      else do {
        let mem = mod_memmap_size p - (if kv then KV_MAPPING_TABLE_SIZE else 0);
        let start = mod_memmap_start p;
        cfg \<leftarrow> load_cpus num True (cpus p) (nvmev_config.extend (mod_perf p)
          \<lparr>memmap_start = start, memmap_size = mem, storage_start = start + MB64 1, storage_size = mem - MB64 1,
            cpu_nr_dispatcher = - 1, nr_io_workers = 0, cpu_nr_io_workers = replicate 32 0\<rparr>);
        Some (Some cfg)
      })"

subsection \<open>Namespaces\<close>

datatype any_ns = Simple_NS u64 | Conv_NS nvmev_ns | Zns_NS zns_ns | Kv_NS u64 "append_only kv_ftl"

text \<open>What the allocations of the namespaces find in memory, the clock, and the storage.\<close>

record ns_env =
  env_config :: ssd_config
  env_junk :: u64
  env_nand :: "nat \<Rightarrow> u8"
  env_pqueue :: "line_ptr list"
  env_clock :: "nat \<Rightarrow> u64"
  env_resources :: "nat \<Rightarrow> u8"
  env_storage :: "nat \<Rightarrow> u8"
  env_handle :: iter_handle
  env_alloc :: append_only

definition init_namespace :: "ns_env \<Rightarrow> u64 \<Rightarrow> nat \<Rightarrow> ssd_type \<Rightarrow> u64 \<Rightarrow> nat \<Rightarrow> any_ns option" where
  "init_namespace env all_bytes i type sz addr = (case type of
     SSD_TYPE_NVM \<Rightarrow> Some (Simple_NS sz)
   | SSD_TYPE_CONV \<Rightarrow> map_option Conv_NS
       (conv_init_namespace (env_config env) (env_junk env) (env_nand env) (env_pqueue env) (env_clock env) (of_nat i) (unat sz))
   | SSD_TYPE_ZNS \<Rightarrow> map_option Zns_NS
       (zns_init_namespace (env_config env) (env_junk env) (env_nand env) (env_resources env) (env_clock env)
         (\<lambda>a. env_storage env (addr + a)) (of_nat i) (unat sz))
   | SSD_TYPE_KV \<Rightarrow> map_option (Kv_NS sz)
       (kv_init_namespace append_only_ops (unat KV_MAPPING_TABLE_SIZE) (env_handle env) (env_alloc env) (env_storage env) all_bytes))"

text \<open>Type and capacity of each namespace to make; the result has its place in the storage and its size.\<close>

fun namespaces_from :: "(nat \<Rightarrow> ssd_type \<Rightarrow> u64 \<Rightarrow> nat \<Rightarrow> 'n option) \<Rightarrow> nat \<Rightarrow> (ssd_type \<times> u64) list \<Rightarrow> u64 \<Rightarrow> nat \<Rightarrow>
    (nat \<times> u64 \<times> 'n) list option" where
  "namespaces_from init i [] rem addr = Some []"
| "namespaces_from init i ((type, capacity) # rest) rem addr = do {
     let sz = (if capacity = 0 then rem else min capacity rem);
     ns \<leftarrow> init i type sz addr;
     nss \<leftarrow> namespaces_from init (i + 1) rest (rem - sz) (addr + unat sz);
     Some ((addr, sz, ns) # nss)
   }"

definition NVMEV_NAMESPACE_INIT :: "ns_env \<Rightarrow> (ssd_type \<times> u64) list \<Rightarrow> vdev_config \<Rightarrow> (nat \<times> u64 \<times> any_ns) list option" where
  "NVMEV_NAMESPACE_INIT env types cfg = namespaces_from (init_namespace env (storage_size cfg)) 0 types (storage_size cfg) 0"

text \<open>A namespace as the admin commands see it.\<close>

definition no_zones :: znsparams where
  "no_zones = \<lparr>nr_zones = 0, nr_active_zones = 0, nr_open_zones = 0, dies_per_zone = 0, zone_size = 0, zone_wb_size = 0,
     nr_zrwa_zones = 0, zrwafg_size = 0, zrwa_size = 0, zrwa_buffer_size = 0, lbas_per_zrwafg = 0, lbas_per_zrwa = 0\<rparr>"

fun vns_of :: "any_ns \<Rightarrow> vdev_ns" where
  "vns_of (Simple_NS sz) = \<lparr>vns_type = SSD_TYPE_NVM, vns_csi = of_nat NVME_CSI_NVM, vns_size = sz, vns_zp = no_zones\<rparr>"
| "vns_of (Conv_NS n) = \<lparr>vns_type = SSD_TYPE_CONV, vns_csi = of_nat (ns_csi n), vns_size = of_nat (ns_size n), vns_zp = no_zones\<rparr>"
| "vns_of (Zns_NS n) = \<lparr>vns_type = SSD_TYPE_ZNS, vns_csi = of_nat (zns_csi n), vns_size = of_nat (zns_size n), vns_zp = zp (zns_inst n)\<rparr>"
| "vns_of (Kv_NS sz n) = \<lparr>vns_type = SSD_TYPE_KV, vns_csi = of_nat NVME_CSI_NVM, vns_size = sz, vns_zp = no_zones\<rparr>"

fun ns_buffers :: "any_ns \<Rightarrow> buffer list" where
  "ns_buffers (Conv_NS n) = [write_buffer (ftl_ssd (ns_ftl n))]"
| "ns_buffers (Zns_NS n) = [write_buffer (zns_ssd (zns_inst n))]"
| "ns_buffers _ = []"

record vdev_image =
  img_kv :: bool
  img_zns :: bool
  img_ns :: "(ssd_type \<times> u64) list"
  img_mdts :: u32

text \<open>\<open>pci\<close> says whether the kernel takes the device, \<open>m\<close> is the host's memory.\<close>

definition NVMeV_init :: "machine \<Rightarrow> vdev_image \<Rightarrow> (string \<Rightarrow> u32) \<Rightarrow> ns_env \<Rightarrow> bool \<Rightarrow> module_params \<Rightarrow> host_mem \<Rightarrow>
    (errno + vdev_config \<times> (nat \<times> u64 \<times> any_ns) list nvmev_dev) option" where
  "NVMeV_init mc img num env pci p m = do {
     cfg \<leftarrow> load_configs mc (img_kv img) num p;
     case cfg of
       None \<Rightarrow> Some (Inl EIO)
     | Some cfg \<Rightarrow> do {
         nss \<leftarrow> NVMEV_NAMESPACE_INIT env (img_ns img) cfg;
         if \<not> pci then Some (Inl EIO)
         else let ns = map (snd \<circ> snd) nss in
           Some (Inr (cfg, VDEV_INIT (img_zns img) (nr_io_workers cfg) (map vns_of ns) (img_mdts img) (nss, m) (concat (map ns_buffers ns))))
       }
   }"

subsection \<open>The files of the statistics\<close>

text \<open>The doorbell's distance from what was dispatched, as an \<open>int\<close>.\<close>

definition get_nr_entries :: "nat \<Rightarrow> nat \<Rightarrow> 's nvmev_dev \<Rightarrow> int option" where
  "get_nr_entries i queue_size d = do {
     new \<leftarrow> aget (dbs d) i;
     old \<leftarrow> aget (old_dbs d) i;
     let diff = sint (new - old);
     Some (if diff < 0 then diff + int queue_size else diff)
   }"

record stat_line =
  st_qid :: nat
  st_entries :: int
  st_in_flight :: u32
  st_max_in_flight :: u32
  st_dispatch :: u32
  st_dispatched :: u32
  st_total_io :: u64

text \<open>Reading: a line for each queue, whose greatest number in flight starts again, and the sums.\<close>

definition stat_read_queue :: "stat_line list \<times> (u32 \<times> u32 \<times> u32 \<times> u64) \<times> 's nvmev_dev \<Rightarrow> nat \<Rightarrow>
    (stat_line list \<times> (u32 \<times> u32 \<times> u32 \<times> u64) \<times> 's nvmev_dev) option" where
  "stat_read_queue s i = do {
     let (lines, (f, n, dn, t), d) = s;
     q \<leftarrow> aget (io_sqs (vd_io d)) i;
     case q of
       None \<Rightarrow> Some (lines, (f, n, dn, t), d)
     | Some sq \<Rightarrow> do {
         k \<leftarrow> get_nr_entries (i * 2) (sq_queue_size sq) d;
         let line = \<lparr>st_qid = i, st_entries = k, st_in_flight = nr_in_flight sq, st_max_in_flight = max_nr_in_flight sq,
           st_dispatch = nr_dispatch sq, st_dispatched = nr_dispatched sq, st_total_io = total_io sq\<rparr>;
         let sqs = (io_sqs (vd_io d))[i := Some (sq\<lparr>max_nr_in_flight := 0\<rparr>)];
         Some (lines @ [line], (f + nr_in_flight sq, n + nr_dispatch sq, dn + nr_dispatched sq, t + total_io sq),
           d\<lparr>vd_io := (vd_io d)\<lparr>io_sqs := sqs\<rparr>\<rparr>)
       }
   }"

definition proc_stat_read :: "'s nvmev_dev \<Rightarrow> (stat_line list \<times> (u32 \<times> u32 \<times> u32 \<times> u64) \<times> 's nvmev_dev) option" where
  "proc_stat_read d = opt_fold stat_read_queue ([], (0, 0, 0, 0), d) [1..<unat (nr_sq d) + 1]"

text \<open>Writing anything clears the figures of every queue.\<close>

definition proc_stat_write :: "'s nvmev_dev \<Rightarrow> 's nvmev_dev option" where
  "proc_stat_write d = opt_fold (\<lambda>d i. do {
     q \<leftarrow> aget (io_sqs (vd_io d)) i;
     case q of
       None \<Rightarrow> Some d
     | Some sq \<Rightarrow>
         (let sq = sq\<lparr>nr_dispatched := 0, nr_dispatch := 0, nr_in_flight := 0, max_nr_in_flight := 0, total_io := 0\<rparr>
          in Some (d\<lparr>vd_io := (vd_io d)\<lparr>io_sqs := (io_sqs (vd_io d))[i := Some sq]\<rparr>\<rparr>))
   }) d [1..<unat (nr_sq d) + 1]"

text \<open>The numbers that \<^verbatim>\<open>sscanf\<close> finds are given; a field without a number keeps its value.\<close>

fun proc_read_times_write :: "u32 list \<Rightarrow> nvmev_config \<Rightarrow> nvmev_config" where
  "proc_read_times_write [] cfg = cfg"
| "proc_read_times_write [a] cfg = cfg\<lparr>read_delay := a\<rparr>"
| "proc_read_times_write [a, b] cfg = cfg\<lparr>read_delay := a, read_time := b\<rparr>"
| "proc_read_times_write (a # b # c # _) cfg = cfg\<lparr>read_delay := a, read_time := b, read_trailing := c\<rparr>"

fun proc_write_times_write :: "u32 list \<Rightarrow> nvmev_config \<Rightarrow> nvmev_config" where
  "proc_write_times_write [] cfg = cfg"
| "proc_write_times_write [a] cfg = cfg\<lparr>write_delay := a\<rparr>"
| "proc_write_times_write [a, b] cfg = cfg\<lparr>write_delay := a, write_time := b\<rparr>"
| "proc_write_times_write (a # b # c # _) cfg = cfg\<lparr>write_delay := a, write_time := b, write_trailing := c\<rparr>"

text \<open>The units get new busy times; nothing checks the numbers.\<close>

fun proc_io_units_write :: "u32 list \<Rightarrow> nvmev_config \<times> u64 list \<Rightarrow> nvmev_config \<times> u64 list" where
  "proc_io_units_write [] s = s"
| "proc_io_units_write [a] (cfg, stat) = (cfg\<lparr>nr_io_units := a\<rparr>, replicate (unat a) 0)"
| "proc_io_units_write (a # b # _) (cfg, stat) = (cfg\<lparr>nr_io_units := a, io_unit_shift := b\<rparr>, replicate (unat a) 0)"

subsection \<open>The processors that are read\<close>

fun join_commas :: "string list \<Rightarrow> string" where
  "join_commas [] = []"
| "join_commas [t] = t"
| "join_commas (t # ts) = t @ CHR '','' # join_commas ts"

lemma strsep_token: "CHR '','' \<notin> set t \<Longrightarrow> strsep t = (t, None)"
  by (induction t) auto

lemma strsep_tokens: "CHR '','' \<notin> set t \<Longrightarrow> strsep (t @ CHR '','' # r) = (t, Some r)"
  by (induction t) auto

lemma strsep_join:
  "CHR '','' \<notin> set t \<Longrightarrow> strsep (join_commas (t # ts)) = (t, if ts = [] then None else Some (join_commas ts))"
  by (cases ts) (simp_all add: strsep_token strsep_tokens)

text \<open>The workers after those that are there.\<close>

lemma load_cpus_workers:
  assumes "\<forall>t \<in> set ts. CHR '','' \<notin> set t" "nr_io_workers cfg + length ts \<le> length (cpu_nr_io_workers cfg)"
  shows "load_cpus num False (if ts = [] then None else Some (join_commas ts)) cfg =
    Some (cfg\<lparr>cpu_nr_io_workers := take (nr_io_workers cfg) (cpu_nr_io_workers cfg) @ map num ts @
        drop (nr_io_workers cfg + length ts) (cpu_nr_io_workers cfg), nr_io_workers := nr_io_workers cfg + length ts\<rparr>)"
  using assms
proof (induction ts arbitrary: cfg)
  case (Cons t ts)
  let ?k = "nr_io_workers cfg" and ?l = "cpu_nr_io_workers cfg"
  have k: "?k < length ?l" using Cons.prems(2) by simp
  let ?cfg = "cfg\<lparr>cpu_nr_io_workers := ?l[?k := num t], nr_io_workers := ?k + 1\<rparr>"
  have "load_cpus num False (Some (join_commas (t # ts))) cfg = load_cpus num False (if ts = [] then None else Some (join_commas ts)) ?cfg"
    using Cons.prems k strsep_join[of t ts] by (simp add: load_cpus.simps(2) aset_Some_iff)
  moreover have "take (?k + 1) (?l[?k := num t]) = take ?k ?l @ [num t]" using k by (simp add: take_Suc_conv_app_nth)
  ultimately show ?case using Cons.IH[of ?cfg] Cons.prems by simp
qed simp

lemma load_configs_cpus:
  assumes "validate_configs mc p = None" "cpus p = Some (join_commas (c # cs))" "\<forall>t \<in> set (c # cs). CHR '','' \<notin> set t" "length cs \<le> 32"
  shows "\<exists>cfg. load_configs mc kv num p = Some (Some cfg) \<and> cpu_nr_dispatcher cfg = num c \<and> nr_io_workers cfg = length cs \<and>
    take (length cs) (cpu_nr_io_workers cfg) = map num cs \<and>
    storage_size cfg = mod_memmap_size p - (if kv then KV_MAPPING_TABLE_SIZE else 0) - MB64 1"
proof -
  have "load_cpus num True (Some (join_commas (c # cs))) cfg =
      load_cpus num False (if cs = [] then None else Some (join_commas cs)) (cfg\<lparr>cpu_nr_dispatcher := num c\<rparr>)" for cfg
    using assms(3) strsep_join[of c cs] by (simp add: load_cpus.simps(2))
  moreover have "\<forall>t \<in> set cs. CHR '','' \<notin> set t" using assms(3) by simp
  ultimately show ?thesis using assms(1,2,4) load_cpus_workers[of cs] by (simp add: load_configs_def nvmev_config.defs Let_def)
qed

text \<open>The number of names behind the first, which is the number of commas.\<close>

definition nr_worker_cpus :: "module_params \<Rightarrow> nat" where
  "nr_worker_cpus p = (case cpus p of None \<Rightarrow> 0 | Some s \<Rightarrow> length (filter (\<lambda>c. c = CHR '','') s))"

lemma strsep_commas:
  "strsep s = (t, r) \<Longrightarrow> length (filter (\<lambda>c. c = CHR '','') s) = (case r of None \<Rightarrow> 0 | Some u \<Rightarrow> Suc (length (filter (\<lambda>c. c = CHR '','') u)))"
  by (induction s arbitrary: t) (auto split: if_splits prod.splits)

lemma load_cpus_count:
  "load_cpus num first s cfg = Some cfg' \<Longrightarrow> nr_io_workers cfg' = nr_io_workers cfg +
     (case s of None \<Rightarrow> 0 | Some s \<Rightarrow> length (filter (\<lambda>c. c = CHR '','') s) + (if first then 0 else 1))"
proof (induction num first s cfg rule: load_cpus.induct)
  case (2 num first s cfg)
  obtain cpu rest where t: "strsep s = (cpu, rest)" by (cases "strsep s")
  obtain cfg1 where c: "(if first then Some (cfg\<lparr>cpu_nr_dispatcher := num cpu\<rparr>)
       else do { l \<leftarrow> aset (cpu_nr_io_workers cfg) (nr_io_workers cfg) (num cpu);
         Some (cfg\<lparr>cpu_nr_io_workers := l, nr_io_workers := nr_io_workers cfg + 1\<rparr>) }) = Some cfg1"
    "load_cpus num False rest cfg1 = Some cfg'"
    using 2(2) unfolding load_cpus.simps(2) t Let_def prod.case by (elim bind_SomeE)
  have "nr_io_workers cfg1 = nr_io_workers cfg + (if first then 0 else 1)"
    using c(1) by (auto split: if_splits elim!: bind_SomeE)
  then show ?case using 2(1)[OF t[symmetric] refl refl c] strsep_commas[OF t] by (simp split: option.splits)
qed simp

lemma load_cpus_storage:
  "load_cpus num first s cfg = Some cfg' \<Longrightarrow> storage_start cfg' = storage_start cfg \<and> storage_size cfg' = storage_size cfg"
proof (induction num first s cfg rule: load_cpus.induct)
  case (2 num first s cfg)
  obtain cpu rest where t: "strsep s = (cpu, rest)" by (cases "strsep s")
  obtain cfg1 where c: "(if first then Some (cfg\<lparr>cpu_nr_dispatcher := num cpu\<rparr>)
       else do { l \<leftarrow> aset (cpu_nr_io_workers cfg) (nr_io_workers cfg) (num cpu);
         Some (cfg\<lparr>cpu_nr_io_workers := l, nr_io_workers := nr_io_workers cfg + 1\<rparr>) }) = Some cfg1"
    "load_cpus num False rest cfg1 = Some cfg'"
    using 2(2) unfolding load_cpus.simps(2) t Let_def prod.case by (elim bind_SomeE)
  have "storage_start cfg1 = storage_start cfg \<and> storage_size cfg1 = storage_size cfg"
    using c(1) by (auto split: if_splits elim!: bind_SomeE)
  then show ?case using 2(1)[OF t[symmetric] refl refl c] by simp
qed simp

subsection \<open>The storage that is divided\<close>

definition ns_bytes :: "nat \<times> u64 \<times> 'n \<Rightarrow> nat" where "ns_bytes n = unat (fst (snd n))"

lemma ns_bytes_simp [simp]: "ns_bytes (a, s, n) = unat s"
  by (simp add: ns_bytes_def)

lemma namespaces_from_layout:
  assumes "namespaces_from init i types rem addr = Some nss"
  shows "length nss = length types \<and> sum_list (map ns_bytes nss) \<le> unat rem \<and>
    (\<forall>j < length nss. fst (nss ! j) = addr + sum_list (map ns_bytes (take j nss)))"
  using assms
proof (induction types arbitrary: i rem addr nss)
  case (Cons t types)
  obtain ty cap where t: "t = (ty, cap)" by (cases t)
  define sz where "sz = (if cap = 0 then rem else min cap rem)"
  obtain ns rest where r: "namespaces_from init (i + 1) types (rem - sz) (addr + unat sz) = Some rest" "nss = (addr, sz, ns) # rest"
    using Cons.prems by (auto simp: t sz_def Let_def elim!: bind_SomeE)
  have "sz \<le> rem" by (simp add: sz_def)
  then have u: "unat (rem - sz) = unat rem - unat sz" "unat sz \<le> unat rem"
    by (simp_all add: unat_sub word_le_nat_alt)
  note ih = Cons.IH[OF r(1)]
  have "fst (nss ! j) = addr + sum_list (map ns_bytes (take j nss))" if "j < length nss" for j
    using ih that by (cases j) (simp_all add: r(2))
  then show ?case using ih u by (auto simp: r(2))
qed simp

lemma take_sum_mono: "i < j \<Longrightarrow> j \<le> length xs \<Longrightarrow> sum_list (map f (take i xs)) + f (xs ! i) \<le> (sum_list (map f (take j xs)) :: nat)"
proof -
  assume a: "i < j" "j \<le> length xs"
  then have "take j xs = take (Suc i) xs @ take (j - Suc i) (drop (Suc i) xs)" by (metis Suc_leI le_add_diff_inverse take_add)
  moreover have "take (Suc i) xs = take i xs @ [xs ! i]" using a by (simp add: take_Suc_conv_app_nth)
  ultimately show ?thesis by simp
qed

text \<open>C38. A module that starts: the storage is what the memory leaves behind its first MiB and, in the
  key-value build, without the last GiB, a difference that may wrap there; the namespaces lie in the
  storage one behind the other without overlap, each with the size that the commands of the admin
  queue report on; the device has one worker for each processor of the list but the first, and its
  tables and queues are empty and in shape.\<close>

theorem setup_partitions:
  assumes "NVMeV_init mc img num env pci p m = Some (Inr (cfg, d))"
  shows "storage_start cfg = mod_memmap_start p + MB64 1 \<and>
    storage_size cfg = mod_memmap_size p - (if img_kv img then KV_MAPPING_TABLE_SIZE else 0) - MB64 1 \<and>
    (\<not> img_kv img \<longrightarrow> unat (storage_size cfg) + 2 ^ 20 = unat (mod_memmap_size p)) \<and>
    length (ns_data d) = length (img_ns img) \<and> vd_ns d = map (vns_of \<circ> snd \<circ> snd) (ns_data d) \<and>
    sum_list (map ns_bytes (ns_data d)) \<le> unat (storage_size cfg) \<and>
    (\<forall>i j. i < j \<and> j < length (ns_data d) \<longrightarrow> fst (ns_data d ! i) + ns_bytes (ns_data d ! i) \<le> fst (ns_data d ! j)) \<and>
    (\<forall>i < length (ns_data d). fst (ns_data d ! i) + ns_bytes (ns_data d ! i) \<le> unat (storage_size cfg)) \<and>
    length (io_workers (io_d (vd_io d))) = nr_worker_cpus p \<and> io_d (vd_io d) = NVMEV_IO_WORKER_INIT (nr_worker_cpus p) \<and> vdev_shape d"
proof -
  obtain nss where n: "load_configs mc (img_kv img) num p = Some (Some cfg)" "NVMEV_NAMESPACE_INIT env (img_ns img) cfg = Some nss"
    "d = VDEV_INIT (img_zns img) (nr_io_workers cfg) (map vns_of (map (snd \<circ> snd) nss)) (img_mdts img) (nss, m)
      (concat (map ns_buffers (map (snd \<circ> snd) nss)))"
    using assms by (auto simp: NVMeV_init_def Let_def split: option.splits if_splits elim!: bind_SomeE)
  have v: "validate_configs mc p = None" using n(1) by (auto simp: load_configs_def split: if_splits)
  then have le: "MB64 1 \<le> mod_memmap_size p" by (auto simp: validate_configs_def Let_def split: if_splits)
  then have "unat (MB64 1) \<le> unat (mod_memmap_size p)" by (simp add: word_le_nat_alt)
  then have mb: "unat (mod_memmap_size p - MB64 1) + 2 ^ 20 = unat (mod_memmap_size p)" using le by (simp add: unat_sub MB64_def)
  have c: "storage_start cfg = mod_memmap_start p + MB64 1"
    "storage_size cfg = mod_memmap_size p - (if img_kv img then KV_MAPPING_TABLE_SIZE else 0) - MB64 1"
    using n(1) v by (auto simp: load_configs_def nvmev_config.defs Let_def elim!: bind_SomeE dest!: load_cpus_storage)
  have w: "nr_io_workers cfg = nr_worker_cpus p"
    using n(1) v by (auto simp: load_configs_def nvmev_config.defs nr_worker_cpus_def Let_def elim!: bind_SomeE dest!: load_cpus_count split: option.splits)
  have d: "ns_data d = nss" "vd_ns d = map (vns_of \<circ> snd \<circ> snd) nss" "io_d (vd_io d) = NVMEV_IO_WORKER_INIT (nr_worker_cpus p)"
    by (simp_all add: n(3) ns_data_def VDEV_INIT_def w)
  then have k: "length (io_workers (io_d (vd_io d))) = nr_worker_cpus p" by (simp add: NVMEV_IO_WORKER_INIT_def)
  note l = namespaces_from_layout[OF n(2)[unfolded NVMEV_NAMESPACE_INIT_def]]
  have "fst (nss ! i) + ns_bytes (nss ! i) \<le> fst (nss ! j)" if "i < j" "j < length nss" for i j
    using take_sum_mono[of i j nss ns_bytes] that l by simp
  moreover have "fst (nss ! i) + ns_bytes (nss ! i) \<le> unat (storage_size cfg)" if "i < length nss" for i
    using take_sum_mono[of i "length nss" nss ns_bytes] that l by simp
  ultimately show ?thesis using c mb d k l init_shape unfolding d(1) by (simp add: n(3))
qed

definition demo_machine :: machine where "demo_machine = \<lparr>e820_mapped_any = None, has_reserved_kern = False\<rparr>"

definition demo_params :: module_params where
  "demo_params = \<lparr>mod_memmap_start = 0x100000000, mod_memmap_size = 0x200000,
     mod_perf = \<lparr>nr_io_units = 8, io_unit_shift = 12, read_delay = 1, read_time = 1, read_trailing = 0, write_delay = 1, write_time = 1,
       write_trailing = 0\<rparr>, cpus = Some ''3,4,5''\<rparr>"

definition demo_env :: ns_env where
  "demo_env = \<lparr>env_config = samsung_970pro, env_junk = 0, env_nand = (\<lambda>_. 0), env_pqueue = [], env_clock = (\<lambda>_. 0), env_resources = (\<lambda>_. 0),
     env_storage = (\<lambda>_. 0), env_handle = Wild, env_alloc = \<lparr>ao_latest = 0, ao_dev_size = 0, ao_total_written = 0\<rparr>\<rparr>"

definition demo_image :: vdev_image where
  "demo_image = \<lparr>img_kv = False, img_zns = False, img_ns = [(SSD_TYPE_NVM, 0x40000), (SSD_TYPE_NVM, 0)], img_mdts = 5\<rparr>"

definition demo_num :: "string \<Rightarrow> u32" where "demo_num s = of_char (hd s) - 48"

theorem setup_partitions_witness:
  "\<exists>cfg d. NVMeV_init demo_machine demo_image demo_num demo_env True demo_params (\<lambda>_. 0) = Some (Inr (cfg, d)) \<and>
    map fst (ns_data d) = [0, 0x40000] \<and> fst (ns_data d ! 1) + ns_bytes (ns_data d ! 1) \<le> 0x100000 \<and>
    length (io_workers (io_d (vd_io d))) = 2"
proof -
  have v: "validate_configs demo_machine demo_params = None"
    by (simp add: validate_configs_def validate_configs_arch_def demo_machine_def demo_params_def MB64_def)
  have "cpus demo_params = Some (join_commas [''3'', ''4'', ''5''])" by (simp add: demo_params_def)
  from load_configs_cpus[OF v this, of False demo_num] obtain cfg where
    c: "load_configs demo_machine False demo_num demo_params = Some (Some cfg)" "nr_io_workers cfg = 2" "storage_size cfg = 0x100000"
    by (auto simp: demo_params_def MB64_def)
  have "min 0x40000 (0x100000 :: u64) = 0x40000" by (simp add: min_def)
  then have "\<exists>d. NVMeV_init demo_machine demo_image demo_num demo_env True demo_params (\<lambda>_. 0) = Some (Inr (cfg, d)) \<and> map fst (ns_data d) = [0, 0x40000]"
    using c by (simp add: NVMeV_init_def demo_image_def NVMEV_NAMESPACE_INIT_def init_namespace_def ns_data_def VDEV_INIT_def Let_def)
  then obtain d where d: "NVMeV_init demo_machine demo_image demo_num demo_env True demo_params (\<lambda>_. 0) = Some (Inr (cfg, d))"
    "map fst (ns_data d) = [0, 0x40000]" by (elim exE conjE)
  note r = setup_partitions[OF d(1)]
  have "length (ns_data d) = 2" using r by (simp add: demo_image_def)
  then have "1 < length (ns_data d)" by simp
  then have "fst (ns_data d ! 1) + ns_bytes (ns_data d ! 1) \<le> unat (storage_size cfg)" using r by blast
  moreover have "nr_worker_cpus demo_params = 2" by (simp add: nr_worker_cpus_def demo_params_def)
  then have "length (io_workers (io_d (vd_io d))) = 2" using r by (simp add: NVMEV_IO_WORKER_INIT_def)
  ultimately show ?thesis using d c(3) by auto
qed

end
