(* ===== verification/Pci_Config.thy ===== *)
theory Pci_Config
  imports Admin_Queue
begin

unbundle bit_operations_syntax

text \<open>
  The configuration space of the virtual PCI device, \<^verbatim>\<open>pci.c\<close> and \<^verbatim>\<open>pci.h\<close>: 4096 bytes that the
  module fills in, and the two operations through which the kernel reads and writes them. The
  registers have the offsets of the structures of \<^verbatim>\<open>pci.h\<close>, which are those of the PCI specification.
\<close>

subsection \<open>Bytes\<close>

definition cfg_put :: "nat \<Rightarrow> u8 list \<Rightarrow> u8 list \<Rightarrow> u8 list" where
  "cfg_put off bs l = take off l @ bs @ drop (off + length bs) l"

text \<open>\<open>msix\<close> is the flag of the kernel's device, which is there once the bus has been scanned.\<close>

record pci_config =
  virt_dev :: "u8 list"
  intx_disabled :: bool
  msix :: "bool option"

definition OFFS_PCI_PM_CAP :: nat where "OFFS_PCI_PM_CAP = 0x40"
definition OFFS_PCI_MSIX_CAP :: nat where "OFFS_PCI_MSIX_CAP = 0x50"
definition OFFS_PCIE_CAP :: nat where "OFFS_PCIE_CAP = 0x60"
definition OFFS_PCI_EXT_CAP :: nat where "OFFS_PCI_EXT_CAP = 0x100"

definition PCI_COMMAND :: nat where "PCI_COMMAND = 4"
definition PCI_STATUS :: nat where "PCI_STATUS = 6"
definition PCI_BIST :: nat where "PCI_BIST = 15"
definition PCI_BASE_ADDRESS_0 :: nat where "PCI_BASE_ADDRESS_0 = 16"
definition PCI_INTERRUPT_LINE :: nat where "PCI_INTERRUPT_LINE = 60"
definition PCI_MSIX_FLAGS :: nat where "PCI_MSIX_FLAGS = 2"

subsection \<open>Settings\<close>

definition cfg_puts :: "(nat \<times> u8 list) list \<Rightarrow> u8 list \<Rightarrow> u8 list" where
  "cfg_puts ps l = foldl (\<lambda>l (off, bs). cfg_put off bs l) l ps"

definition bar_settings :: "u64 \<Rightarrow> u64" where
  "bar_settings base_pa = push_bit 1 2 OR push_bit 14 (drop_bit 14 (base_pa AND 0xFFFFFFFF))"

definition PCI_HEADER_SETTINGS :: "u16 \<Rightarrow> u64 \<Rightarrow> u8 list \<Rightarrow> u8 list" where
  "PCI_HEADER_SETTINGS device base_pa = cfg_puts
     [(2, le_bytes 2 (ucast device)), (0, le_bytes 2 0x0c51), (4, [2]), (6, [0x10]), (14, [0]), (8, [1]), (11, [1]), (10, [8]), (9, [2]),
      (16, le_bytes 4 (bar_settings base_pa)), (20, le_bytes 4 (drop_bit 32 base_pa)), (46, le_bytes 2 0x370d), (44, le_bytes 2 0x0c51),
      (48, le_bytes 4 0), (52, [of_nat OFFS_PCI_PM_CAP]), (61, [0]), (60, [15])]"

definition PCI_PMCAP_SETTINGS :: "u8 list \<Rightarrow> u8 list" where
  "PCI_PMCAP_SETTINGS = cfg_puts
     [(OFFS_PCI_PM_CAP, [1]), (OFFS_PCI_PM_CAP + 1, [of_nat OFFS_PCI_MSIX_CAP]), (OFFS_PCI_PM_CAP + 2, le_bytes 2 3),
      (OFFS_PCI_PM_CAP + 4, le_bytes 2 (push_bit 3 1))]"

definition PCI_MSIXCAP_SETTINGS :: "u8 list \<Rightarrow> u8 list" where
  "PCI_MSIXCAP_SETTINGS = cfg_puts
     [(OFFS_PCI_MSIX_CAP, [0x11]), (OFFS_PCI_MSIX_CAP + 1, [of_nat OFFS_PCIE_CAP]), (OFFS_PCI_MSIX_CAP + 2, le_bytes 2 (push_bit 15 1 OR 127)),
      (OFFS_PCI_MSIX_CAP + 4, le_bytes 4 (push_bit 3 0x400)), (OFFS_PCI_MSIX_CAP + 8, le_bytes 4 (push_bit 3 0x1000))]"

definition PCI_PCIECAP_SETTINGS :: "u8 list \<Rightarrow> u8 list" where
  "PCI_PCIECAP_SETTINGS = cfg_puts
     [(OFFS_PCIE_CAP, [0x10]), (OFFS_PCIE_CAP + 1, [0]), (OFFS_PCIE_CAP + 2, le_bytes 2 2),
      (OFFS_PCIE_CAP + 4, le_bytes 4 (1 OR push_bit 5 1 OR push_bit 6 6 OR push_bit 9 2 OR push_bit 15 1 OR push_bit 28 1))]"

text \<open>An extended capability: its number, version 1, and the offset of the next.\<close>

definition ext_cap :: "nat \<Rightarrow> u64 \<Rightarrow> u64 \<Rightarrow> nat \<times> u8 list" where
  "ext_cap off cid follow = (OFFS_PCI_EXT_CAP + off, le_bytes 2 cid @ le_bytes 2 (1 OR push_bit 4 follow))"

definition PCI_EXTCAP_SETTINGS :: "u8 list \<Rightarrow> u8 list" where
  "PCI_EXTCAP_SETTINGS = cfg_puts
     [ext_cap 0 1 (0x100 + 0x50), ext_cap 0x50 2 (0x100 + 0x80), ext_cap 0x80 4 (0x100 + 0x90), ext_cap 0x90 14 (0x100 + 0x170),
      ext_cap 0x170 3 (0x100 + 0x1a0), ext_cap 0x1a0 0x19 0]"

definition NVMEV_PCI_INIT :: "u16 \<Rightarrow> u64 \<Rightarrow> pci_config" where
  "NVMEV_PCI_INIT device base =
     \<lparr>virt_dev = PCI_EXTCAP_SETTINGS (PCI_PCIECAP_SETTINGS (PCI_MSIXCAP_SETTINGS (PCI_PMCAP_SETTINGS
        (PCI_HEADER_SETTINGS device base (replicate PAGE_SIZE 0))))), intx_disabled = False, msix = None\<rparr>"

subsection \<open>Reads and writes\<close>

definition cfg_value :: "nat \<Rightarrow> nat \<Rightarrow> pci_config \<Rightarrow> u32" where
  "cfg_value off n c = ucast (le_word (take n (drop off (virt_dev c))))"

text \<open>The answer of the kernel's operation, 0 for success, and the value, of which \<open>n\<close> bytes are set.\<close>

definition nvmev_pci_read :: "nat \<Rightarrow> nat \<Rightarrow> nat \<Rightarrow> u32 \<Rightarrow> pci_config \<Rightarrow> (nat \<times> u32) option" where
  "nvmev_pci_read devfn off n old c =
     (if devfn \<noteq> 0 then Some (1, old)
      else do {
        nv_assert (n \<le> 4 \<and> off + n \<le> length (virt_dev c));
        Some (0, (old AND NOT (mask (8 * n))) OR cfg_value off n c)
      })"

definition write_mask :: "nat \<Rightarrow> u32" where
  "write_mask off =
     (if off < OFFS_PCI_PM_CAP then
        (if off = PCI_COMMAND then 0x400
         else if off = PCI_STATUS then 0xF200
         else if off = PCI_BIST then 0x40
         else if off = PCI_BASE_ADDRESS_0 then 0xFFFFC000
         else if off = PCI_INTERRUPT_LINE then 0xFF
         else 0)
      else if off < OFFS_PCI_MSIX_CAP then - 1
      else if off < OFFS_PCIE_CAP then (if off - OFFS_PCI_MSIX_CAP = PCI_MSIX_FLAGS then 0x4000 OR 0x8000 else 0)
      else - 1)"

text \<open>What a write does besides: the interrupt pin, whose pending bit is cleared, and the kernel's flag.\<close>

definition write_effect :: "nat \<Rightarrow> u32 \<Rightarrow> u32 \<Rightarrow> pci_config \<Rightarrow> pci_config" where
  "write_effect off val v c =
     (if off = PCI_COMMAND then
        (if (val XOR v) AND 0x400 \<noteq> 0 then
           (let dis = (v AND 0x400 \<noteq> 0); c = c\<lparr>intx_disabled := dis\<rparr>
            in if dis then c else c\<lparr>virt_dev := (virt_dev c)[6 := virt_dev c ! 6 AND NOT 8]\<rparr>)
         else c)
      else if OFFS_PCI_MSIX_CAP \<le> off \<and> off < OFFS_PCIE_CAP \<and> off - OFFS_PCI_MSIX_CAP = PCI_MSIX_FLAGS \<and> (val XOR v) AND 0x8000 \<noteq> 0
        then c\<lparr>msix := map_option (\<lambda>_. v AND 0x8000 \<noteq> 0) (msix c)\<rparr>
      else c)"

definition nvmev_pci_write :: "nat \<Rightarrow> nat \<Rightarrow> u32 \<Rightarrow> pci_config \<Rightarrow> pci_config option" where
  "nvmev_pci_write off n v c = do {
     nv_assert (n \<le> 4 \<and> off + n \<le> length (virt_dev c));
     let val = cfg_value off n c;
     let m = write_mask off;
     let c = write_effect off val v c;
     l \<leftarrow> put_bytes (virt_dev c) off (le_bytes n (ucast ((val AND NOT m) OR (v AND m))));
     Some (c\<lparr>virt_dev := l\<rparr>)
   }"

text \<open>The accesses the kernel makes: of one, two or four bytes at a multiple of that, with a value that fits.\<close>

definition cfg_aligned :: "nat \<Rightarrow> nat \<Rightarrow> u32 \<Rightarrow> bool" where
  "cfg_aligned off n v \<longleftrightarrow> n \<in> {1, 2, 4} \<and> n dvd off \<and> off + n \<le> PAGE_SIZE \<and> take_bit (8 * n) v = v"

inductive cfg_reach :: "pci_config \<Rightarrow> pci_config \<Rightarrow> bool" for c0 where
  start: "cfg_reach c0 c0"
| scan: "cfg_reach c0 c \<Longrightarrow> cfg_reach c0 (c\<lparr>msix := m\<rparr>)"
| store: "cfg_reach c0 c \<Longrightarrow> cfg_aligned off n v \<Longrightarrow> nvmev_pci_write off n v c = Some c' \<Longrightarrow> cfg_reach c0 c'"

subsection \<open>Bits of the space\<close>

lemma bit_le_word: "i < length bs \<Longrightarrow> 8 * i + k < 64 \<Longrightarrow> k < 8 \<Longrightarrow> bit (le_word bs) (8 * i + k) = bit (bs ! i) k"
proof (induction bs arbitrary: i)
  case (Cons b bs)
  show ?case
  proof (cases i)
    case 0
    then show ?thesis using Cons.prems by (simp add: bit_simps)
  next
    case (Suc j)
    then have "\<not> bit b (8 * i + k)" by (auto dest: bit_imp_le_length)
    then show ?thesis using Cons.prems Cons.IH[of j] Suc by (simp add: bit_simps)
  qed
qed simp

lemma cfg_value_bit: "i < n \<Longrightarrow> n \<le> 4 \<Longrightarrow> k < 8 \<Longrightarrow> off + n \<le> length (virt_dev c) \<Longrightarrow>
    bit (cfg_value off n c) (8 * i + k) = bit (virt_dev c ! (off + i)) k"
  using bit_le_word[of i "take n (drop off (virt_dev c))" k] by (simp add: cfg_value_def bit_ucast_iff)

lemma le_bytes_bit: "i < n \<Longrightarrow> k < 8 \<Longrightarrow> bit (le_bytes n w ! i) k = bit w (8 * i + k)"
  by (simp add: le_bytes_def bit_simps add.commute)

definition bit_at :: "pci_config \<Rightarrow> nat \<Rightarrow> nat \<Rightarrow> bool" where "bit_at c b k = bit (virt_dev c ! b) k"

lemma write_effect_bit: "(b, k) \<noteq> (6, 3) \<Longrightarrow> bit_at (write_effect off val v c) b k = bit_at c b k"
proof -
  assume a: "(b, k) \<noteq> (6, 3)"
  have "bit ((virt_dev c)[6 := virt_dev c ! 6 AND NOT 8] ! b) k = bit (virt_dev c ! b) k"
  proof (cases "b = 6 \<and> 6 < length (virt_dev c)")
    case True
    then have "k \<noteq> 3" using a by auto
    have "bit (8 :: u8) k = (k = 3)" using bit_push_bit_iff[of 3 "1 :: u8" k] by (auto simp: bit_simps)
    then show ?thesis using True \<open>k \<noteq> 3\<close> by (auto simp: bit_simps dest: bit_imp_le_length)
  next
    case False
    then show ?thesis by (cases "6 < length (virt_dev c)") (auto simp: list_update_beyond)
  qed
  then show ?thesis by (simp add: write_effect_def bit_at_def Let_def)
qed

lemma length_write_effect [simp]: "length (virt_dev (write_effect off val v c)) = length (virt_dev c)"
  by (simp add: write_effect_def Let_def)

text \<open>A write changes the bits in its range that its mask lets through, and the pending bit.\<close>

lemma write_bit:
  assumes "nvmev_pci_write off n v c = Some c'" "k < 8" "(b, k) \<noteq> (6, 3)"
  shows "bit_at c' b k = (if off \<le> b \<and> b < off + n \<and> bit (write_mask off) (8 * (b - off) + k) then bit v (8 * (b - off) + k) else bit_at c b k)"
proof -
  let ?val = "cfg_value off n c"
  let ?c = "write_effect off ?val v c"
  let ?new = "(?val AND NOT (write_mask off)) OR (v AND write_mask off)"
  have n: "n \<le> 4" "off + n \<le> length (virt_dev c)" and l: "put_bytes (virt_dev ?c) off (le_bytes n (ucast ?new)) = Some (virt_dev c')"
    using assms(1) by (auto simp: nvmev_pci_write_def Let_def nv_assert_Some_iff elim!: bind_SomeE)
  have p: "virt_dev c' ! b = (if off \<le> b \<and> b < off + n then le_bytes n (ucast ?new) ! (b - off) else virt_dev ?c ! b)"
  proof -
    have "virt_dev c' = take off (virt_dev ?c) @ le_bytes n (ucast ?new) @ drop (off + n) (virt_dev ?c)"
      using l by (simp add: put_bytes_def split: if_splits)
    then show ?thesis using n(2) by (auto simp: nth_append)
  qed
  show ?thesis
  proof (cases "off \<le> b \<and> b < off + n")
    case True
    let ?i = "b - off"
    have i: "?i < n" "8 * ?i + k < 32" using True n assms(2) by auto
    have "bit_at c' b k = bit ?new (8 * ?i + k)"
      using p True i assms(2) by (simp add: bit_at_def le_bytes_bit bit_ucast_iff)
    also have "\<dots> = (if bit (write_mask off) (8 * ?i + k) then bit v (8 * ?i + k) else bit ?val (8 * ?i + k))"
      using i(2) by (simp add: bit_simps)
    finally show ?thesis using True cfg_value_bit[OF i(1) n(1) assms(2) n(2)] by (simp add: bit_at_def)
  next
    case False
    then have "virt_dev c' ! b = virt_dev ?c ! b" using p by auto
    then have "bit_at c' b k = bit_at c b k" using write_effect_bit[OF assms(3)] by (simp add: bit_at_def)
    then show ?thesis using False by auto
  qed
qed

subsection \<open>What a host cannot change\<close>

text \<open>
  Numbers of device and vendor, revision, class and header type; the upper base addresses, the
  numbers of the subsystem and the pointer to the first capability; and of MSI-X the number, the
  link to the next capability and the places of its tables. The capabilities of power management
  (from 0x40), of PCI Express (from 0x60) and the extended ones (from 0x100) are not among them.
\<close>

definition read_only :: "nat \<Rightarrow> bool" where
  "read_only b \<longleftrightarrow> b < 4 \<or> (8 \<le> b \<and> b < 15) \<or> (20 \<le> b \<and> b < 60) \<or> b = 0x50 \<or> b = 0x51 \<or> (0x54 \<le> b \<and> b < 0x60)"

text \<open>With them the lower 14 bits of the first base address, which make the size of the region.\<close>

definition guarded :: "nat \<Rightarrow> nat \<Rightarrow> bool" where
  "guarded b k \<longleftrightarrow> k < 8 \<and> (read_only b \<or> b = 16 \<or> (b = 17 \<and> k < 6))"

lemma offs_defs:
  "OFFS_PCI_PM_CAP = 0x40" "OFFS_PCI_MSIX_CAP = 0x50" "OFFS_PCIE_CAP = 0x60" "OFFS_PCI_EXT_CAP = 0x100" "PCI_COMMAND = 4" "PCI_STATUS = 6"
  "PCI_BIST = 15" "PCI_BASE_ADDRESS_0 = 16" "PCI_INTERRUPT_LINE = 60" "PCI_MSIX_FLAGS = 2"
  by (simp_all add: OFFS_PCI_PM_CAP_def OFFS_PCI_MSIX_CAP_def OFFS_PCIE_CAP_def OFFS_PCI_EXT_CAP_def PCI_COMMAND_def PCI_STATUS_def
      PCI_BIST_def PCI_BASE_ADDRESS_0_def PCI_INTERRUPT_LINE_def PCI_MSIX_FLAGS_def)

lemma mask_read_only:
  assumes "n \<in> {1, 2, 4}" "n dvd off" "read_only b" "off \<le> b" "b < off + n"
  shows "write_mask off = 0"
proof -
  have "\<not> (0x40 \<le> off \<and> off < 0x50)"
  proof
    assume a: "0x40 \<le> off \<and> off < 0x50"
    have "off + n \<le> 0x50" using a assms(1,2) by (elim insertE) (auto elim!: dvdE)
    then show False using a assms(3-5) by (auto simp: read_only_def)
  qed
  moreover have "off \<notin> {4, 6, 15, 16, 60, 0x52}" "\<not> 0x60 \<le> off" using assms by (auto simp: read_only_def)
  ultimately show ?thesis by (auto simp: write_mask_def offs_defs)
qed

lemma guarded_mask:
  assumes "n \<in> {1, 2, 4}" "n dvd off" "guarded b k" "off \<le> b" "b < off + n"
  shows "\<not> bit (write_mask off) (8 * (b - off) + k)"
proof (cases "read_only b")
  case True
  then show ?thesis using mask_read_only[OF assms(1,2)] assms(4,5) by simp
next
  case False
  then have b: "b = 16 \<or> b = 17 \<and> k < 6" "k < 8" using assms(3) by (auto simp: guarded_def)
  show ?thesis
  proof (cases "off = 16")
    case True
    then have "8 * (b - off) + k < 14" using b by auto
    moreover have "write_mask off = NOT (mask 14)" using True by (simp add: write_mask_def offs_defs mask_eq_exp_minus_1)
    ultimately show ?thesis by (simp only: bit_not_iff bit_mask_iff) simp
  next
    case 2: False
    have "off \<noteq> 15" using assms(1,2,4,5) b by auto
    then have "off \<notin> {4, 6, 15, 16, 60}" "off < 0x40" using 2 assms(1,4,5) b by auto
    then show ?thesis by (simp add: write_mask_def offs_defs)
  qed
qed

lemma write_guarded:
  assumes "cfg_aligned off n v" "nvmev_pci_write off n v c = Some c'" "guarded b k"
  shows "bit_at c' b k = bit_at c b k"
proof -
  have "(b, k) \<noteq> (6, 3)" "k < 8" using assms(3) by (auto simp: guarded_def read_only_def)
  then show ?thesis using write_bit[OF assms(2)] guarded_mask[of n off b k] assms(1,3) by (auto simp: cfg_aligned_def)
qed

text \<open>The flag of the interrupt pin is bit 10 of the command register.\<close>

lemma write_intx:
  assumes "cfg_aligned off n v" "nvmev_pci_write off n v c = Some c'" "intx_disabled c = bit_at c 5 2"
  shows "intx_disabled c' = bit_at c' 5 2"
proof -
  let ?val = "cfg_value off n c"
  have i: "intx_disabled c' = intx_disabled (write_effect off ?val v c)" and n: "n \<le> 4" "off + n \<le> length (virt_dev c)"
    using assms(2) by (auto simp: nvmev_pci_write_def Let_def nv_assert_Some_iff elim!: bind_SomeE)
  have m: "((x :: u32) AND 0x400 \<noteq> 0) = bit x 10" for x
    using bit_iff_and_push_bit_not_eq_0[of x 10] by simp
  note w = write_bit[OF assms(2), of 2 5]
  show ?thesis
  proof (cases "off = 4 \<and> 2 \<le> n")
    case True
    then have v: "bit ?val 10 = bit_at c 5 2" using cfg_value_bit[of 1 n 2 off c] n by (simp add: bit_at_def)
    have "bit_at c' 5 2 = bit v 10" using w True m[of "0x400"] by (simp add: write_mask_def offs_defs)
    then show ?thesis using i True v assms(3) by (simp add: write_effect_def offs_defs m bit_simps Let_def)
  next
    case False
    have "bit_at c' 5 2 = bit_at c 5 2"
    proof (cases "off \<le> 5 \<and> 5 < off + n")
      case True
      then have "off \<noteq> 4" "off < 6" using False by auto
      then have "write_mask off = 0" by (simp add: write_mask_def offs_defs)
      then show ?thesis using w by simp
    qed (use w in auto)
    moreover have "intx_disabled c' = intx_disabled c"
    proof (cases "off = 4")
      case True
      then have n1: "n = 1" using False assms(1) by (auto simp: cfg_aligned_def)
      have "bit v 10 = bit (take_bit 8 v) 10" using assms(1) n1 by (simp add: cfg_aligned_def)
      then have "\<not> bit v 10" by (simp add: bit_take_bit_iff)
      moreover have "\<not> bit (le_word (take 1 xs)) 10" for xs
        by (cases xs) (auto simp: bit_simps dest: bit_imp_le_length)
      then have "\<not> bit ?val 10" by (simp add: n1 cfg_value_def bit_ucast_iff)
      ultimately show ?thesis using i True by (simp add: write_effect_def offs_defs m bit_simps)
    next
      case False
      then show ?thesis using i by (simp add: write_effect_def offs_defs)
    qed
    ultimately show ?thesis using assms(3) by simp
  qed
qed

subsection \<open>The base address\<close>

definition within :: "nat \<Rightarrow> (nat \<times> u8 list) list \<Rightarrow> bool" where
  "within n ps \<longleftrightarrow> (\<forall>(off, bs) \<in> set ps. off + length bs \<le> n)"

definition outside :: "nat \<Rightarrow> (nat \<times> u8 list) list \<Rightarrow> bool" where
  "outside b ps \<longleftrightarrow> (\<forall>(off, bs) \<in> set ps. b < off \<or> off + length bs \<le> b)"

lemma cfg_puts_keeps:
  "within n ps \<Longrightarrow> n \<le> length l \<Longrightarrow> length (cfg_puts ps l) = length l \<and> (outside b ps \<longrightarrow> cfg_puts ps l ! b = l ! b)"
proof (induction ps arbitrary: l)
  case (Cons p ps)
  obtain off bs where p: "p = (off, bs)" by (cases p)
  have "length (cfg_put off bs l) = length l" using Cons.prems p by (simp add: cfg_put_def within_def)
  moreover have "b < off \<or> off + length bs \<le> b \<Longrightarrow> cfg_put off bs l ! b = l ! b"
    using Cons.prems p by (auto simp: cfg_put_def within_def nth_append)
  moreover have "within n ps" "outside b (p # ps) \<Longrightarrow> outside b ps" using Cons.prems by (simp_all add: within_def outside_def)
  ultimately show ?case using Cons.IH[of "cfg_put off bs l"] Cons.prems p by (auto simp: cfg_puts_def outside_def)
qed (simp add: cfg_puts_def)

lemma cfg_puts_last:
  assumes "within n (ps @ (off, bs) # qs)" "n \<le> length l" "outside b qs" "off \<le> b" "b < off + length bs"
  shows "cfg_puts (ps @ (off, bs) # qs) l ! b = bs ! (b - off)"
proof -
  let ?l = "cfg_puts ps l"
  have w: "within n ps" "within n qs" "off + length bs \<le> n" using assms(1) by (simp_all add: within_def)
  have l: "length ?l = length l" using cfg_puts_keeps[OF w(1) assms(2)] by simp
  then have "length (cfg_put off bs ?l) = length l" using w(3) assms(2) by (simp add: cfg_put_def)
  moreover have "cfg_put off bs ?l ! b = bs ! (b - off)" using l w(3) assms(2,4,5) by (auto simp: cfg_put_def nth_append)
  moreover have "cfg_puts (ps @ (off, bs) # qs) l = cfg_puts qs (cfg_put off bs ?l)" by (simp add: cfg_puts_def)
  ultimately show ?thesis using cfg_puts_keeps[OF w(2), of "cfg_put off bs ?l" b] assms(2,3) by simp
qed

lemma cfg_settings:
  assumes "4096 \<le> length l"
  shows "length (PCI_PMCAP_SETTINGS l) = length l \<and> (b < 0x40 \<longrightarrow> PCI_PMCAP_SETTINGS l ! b = l ! b)"
    "length (PCI_MSIXCAP_SETTINGS l) = length l \<and> (b < 0x40 \<longrightarrow> PCI_MSIXCAP_SETTINGS l ! b = l ! b)"
    "length (PCI_PCIECAP_SETTINGS l) = length l \<and> (b < 0x40 \<longrightarrow> PCI_PCIECAP_SETTINGS l ! b = l ! b)"
    "length (PCI_EXTCAP_SETTINGS l) = length l \<and> (b < 0x40 \<longrightarrow> PCI_EXTCAP_SETTINGS l ! b = l ! b)"
    "length (PCI_HEADER_SETTINGS d base l) = length l \<and> (b = 5 \<longrightarrow> PCI_HEADER_SETTINGS d base l ! b = l ! b)"
  unfolding PCI_PMCAP_SETTINGS_def PCI_MSIXCAP_SETTINGS_def PCI_PCIECAP_SETTINGS_def PCI_EXTCAP_SETTINGS_def PCI_HEADER_SETTINGS_def ext_cap_def offs_defs
  using cfg_puts_keeps[OF _ assms] by (simp_all add: within_def outside_def)

lemma header_bar:
  assumes "4096 \<le> length l" "16 \<le> b" "b < 20"
  shows "PCI_HEADER_SETTINGS d base l ! b = le_bytes 4 (bar_settings base) ! (b - 16)"
  using cfg_puts_last[of 4096 "[(2, le_bytes 2 (ucast d)), (0, le_bytes 2 0x0c51), (4, [2]), (6, [0x10]), (14, [0]), (8, [1]), (11, [1]), (10, [8]), (9, [2])]"
      16 "le_bytes 4 (bar_settings base)" "[(20, le_bytes 4 (drop_bit 32 base)), (46, le_bytes 2 0x370d), (44, le_bytes 2 0x0c51),
      (48, le_bytes 4 0), (52, [of_nat OFFS_PCI_PM_CAP]), (61, [0]), (60, [15])]" l b] assms
  by (simp add: PCI_HEADER_SETTINGS_def within_def outside_def)

lemma init_bytes:
  "length (virt_dev (NVMEV_PCI_INIT d base)) = PAGE_SIZE"
  "16 \<le> b \<Longrightarrow> b < 20 \<Longrightarrow> virt_dev (NVMEV_PCI_INIT d base) ! b = le_bytes 4 (bar_settings base) ! (b - 16)"
  "virt_dev (NVMEV_PCI_INIT d base) ! 5 = 0"
proof -
  define l :: "u8 list" where "l = replicate PAGE_SIZE 0"
  have l1: "length l = PAGE_SIZE" unfolding l_def by (rule length_replicate)
  have l2: "4096 \<le> PAGE_SIZE" by (simp add: PAGE_SIZE_def)
  note l = l1 l2
  have "5 < PAGE_SIZE" by (simp add: PAGE_SIZE_def)
  then have l5: "l ! 5 = 0" by (simp add: l_def)
  note c = cfg_settings
  show "length (virt_dev (NVMEV_PCI_INIT d base)) = PAGE_SIZE"
    "16 \<le> b \<Longrightarrow> b < 20 \<Longrightarrow> virt_dev (NVMEV_PCI_INIT d base) ! b = le_bytes 4 (bar_settings base) ! (b - 16)"
    "virt_dev (NVMEV_PCI_INIT d base) ! 5 = 0"
    unfolding NVMEV_PCI_INIT_def l_def[symmetric] by (simp_all add: c l header_bar l5)
qed

lemma low_bits:
  fixes x w :: "'a :: len word"
  shows "j < 14 \<Longrightarrow> j < LENGTH('a) \<Longrightarrow> bit (push_bit 2 1 OR push_bit 14 w) j = (j = 2)"
    and "j < LENGTH('a) \<Longrightarrow> bit ((x AND NOT (mask 14)) OR push_bit 2 1) j = (if 14 \<le> j then bit x j else j = 2)"
  by (simp_all only: bit_or_iff bit_and_iff bit_not_iff bit_mask_iff bit_push_bit_iff bit_1_iff) auto

lemma init_bar:
  assumes "k < 8" "b = 16 \<or> b = 17 \<and> k < 6"
  shows "bit_at (NVMEV_PCI_INIT d base) b k = (b = 16 \<and> k = 2)"
proof -
  have "virt_dev (NVMEV_PCI_INIT d base) ! b = le_bytes 4 (bar_settings base) ! (b - 16)" by (rule init_bytes(2)) (use assms in auto)
  then have "bit_at (NVMEV_PCI_INIT d base) b k = bit (bar_settings base) (8 * (b - 16) + k)"
    using assms by (auto simp: bit_at_def le_bytes_bit)
  also have "bar_settings base = push_bit 2 1 OR push_bit 14 (drop_bit 14 (base AND 0xFFFFFFFF))" by (simp add: bar_settings_def)
  also have "bit \<dots> (8 * (b - 16) + k) = (8 * (b - 16) + k = 2)" by (rule low_bits) (use assms in auto)
  finally show ?thesis using assms by auto
qed

lemma write_length: "nvmev_pci_write off n v c = Some c' \<Longrightarrow> length (virt_dev c') = length (virt_dev c) \<and> off + n \<le> length (virt_dev c)"
  by (auto simp: nvmev_pci_write_def put_bytes_def Let_def nv_assert_Some_iff split: if_splits elim!: bind_SomeE dest!: arg_cong[of _ _ length])

lemma write_bar:
  assumes "nvmev_pci_write 16 4 v c = Some c'" "\<And>k b. k < 8 \<Longrightarrow> b = 16 \<or> b = 17 \<and> k < 6 \<Longrightarrow> bit_at c b k = (b = 16 \<and> k = 2)"
  shows "cfg_value 16 4 c' = (v AND NOT (mask 14)) OR 4"
proof (rule bit_word_eqI)
  fix j
  assume "j < LENGTH(32)"
  then have j: "j < 32" by simp
  let ?b = "16 + j div 8" and ?k = "j mod 8"
  have l: "20 \<le> length (virt_dev c')"
  proof -
    have "length (virt_dev c') = length (virt_dev c)" "16 + 4 \<le> length (virt_dev c)"
      using write_length[OF assms(1)] by simp_all
    then show ?thesis by simp
  qed
  have "write_mask 16 = NOT (mask 14)" by (simp add: write_mask_def offs_defs mask_eq_exp_minus_1)
  then have m: "bit (write_mask 16) j = (14 \<le> j)" using j by (simp only: bit_not_iff bit_mask_iff) auto
  have "bit (cfg_value 16 4 c') j = bit_at c' ?b ?k"
    using cfg_value_bit[of "j div 8" 4 ?k 16 c'] j l by (simp add: bit_at_def)
  also have "\<dots> = (if 14 \<le> j then bit v j else bit_at c ?b ?k)"
    using write_bit[OF assms(1), of ?k ?b] j m by auto
  also have "\<dots> = (if 14 \<le> j then bit v j else j = 2)"
  proof (cases "14 \<le> j")
    case False
    then have "?b = 16 \<or> ?b = 17 \<and> ?k < 6" "(?b = 16 \<and> ?k = 2) = (j = 2)" by presburger+
    then show ?thesis using assms(2)[of ?k ?b] False by simp
  qed simp
  also have "\<dots> = bit ((v AND NOT (mask 14)) OR push_bit 2 1) j" by (rule low_bits(2)[symmetric]) (use j in simp)
  finally show "bit (cfg_value 16 4 c') j = bit ((v AND NOT (mask 14)) OR 4) j" by simp
qed

lemma read_full: "20 \<le> length (virt_dev c) \<Longrightarrow> nvmev_pci_read 0 16 4 old c = Some (0, cfg_value 16 4 c)"
proof -
  have "NOT (mask 32) = (0 :: u32)" by (simp add: mask_eq_exp_minus_1)
  then show "20 \<le> length (virt_dev c) \<Longrightarrow> ?thesis" by (simp add: nvmev_pci_read_def)
qed

lemma write_total: "n \<le> 4 \<Longrightarrow> off + n \<le> length (virt_dev c) \<Longrightarrow> \<exists>c'. nvmev_pci_write off n v c = Some c' \<and> length (virt_dev c') = length (virt_dev c)"
  by (simp add: nvmev_pci_write_def put_bytes_def Let_def)

lemma cfg_reach_ok:
  assumes "cfg_reach (NVMEV_PCI_INIT d base) c"
  shows "length (virt_dev c) = PAGE_SIZE \<and> (\<forall>b k. guarded b k \<longrightarrow> bit_at c b k = bit_at (NVMEV_PCI_INIT d base) b k) \<and>
    intx_disabled c = bit_at c 5 2"
  using assms
proof (induction rule: cfg_reach.induct)
  case start
  have "\<not> bit_at (NVMEV_PCI_INIT d base) 5 2" by (simp add: bit_at_def init_bytes)
  moreover have "\<not> intx_disabled (NVMEV_PCI_INIT d base)" by (simp add: NVMEV_PCI_INIT_def)
  ultimately show ?case using init_bytes(1) by simp
next
  case (scan c m)
  then show ?case by (simp add: bit_at_def)
next
  case (store c off n v c')
  from store.hyps(2) have "n \<le> 4" "off + n \<le> PAGE_SIZE" by (auto simp: cfg_aligned_def)
  then have "length (virt_dev c') = PAGE_SIZE" using write_total[of n off c v] store by auto
  then show ?case using store write_guarded write_intx by simp
qed

text \<open>C39. Whatever aligned accesses the host makes to the configuration space, it cannot change the
  numbers and the class of the device, the pointer to its first capability, nor of MSI-X the number,
  the link and the places of its tables; the flag of the interrupt pin follows the command register;
  and the protocol for the size of a base address works: after all ones are written the host reads
  back a region of 16 KiB with 64-bit addresses, and an aligned address it then writes is the one it
  reads. The other capabilities are not guarded: a write to the link of power management goes through.\<close>

theorem config_space_guarded:
  assumes "cfg_reach (NVMEV_PCI_INIT device base) c"
  shows "(\<forall>b. read_only b \<longrightarrow> virt_dev c ! b = virt_dev (NVMEV_PCI_INIT device base) ! b) \<and> intx_disabled c = bit (virt_dev c ! 5) 2 \<and>
    (\<exists>c1. nvmev_pci_write PCI_BASE_ADDRESS_0 4 (- 1) c = Some c1 \<and> nvmev_pci_read 0 PCI_BASE_ADDRESS_0 4 old c1 = Some (0, 0xFFFFC004) \<and>
      (\<forall>a. take_bit 14 a = 0 \<longrightarrow> (\<exists>c2. nvmev_pci_write PCI_BASE_ADDRESS_0 4 a c1 = Some c2 \<and>
        nvmev_pci_read 0 PCI_BASE_ADDRESS_0 4 old c2 = Some (0, a OR 4)))) \<and>
    (\<forall>v. \<exists>c1. nvmev_pci_write (OFFS_PCI_PM_CAP + 1) 1 (ucast v) c = Some c1 \<and> virt_dev c1 ! (OFFS_PCI_PM_CAP + 1) = v)"
proof -
  note r = cfg_reach_ok[OF assms]
  have ro: "virt_dev c ! b = virt_dev (NVMEV_PCI_INIT device base) ! b" if "read_only b" for b
    using r that by (intro bit_word_eqI) (simp add: guarded_def bit_at_def)
  have low: "bit_at x b k = (b = 16 \<and> k = 2)"
    if "cfg_reach (NVMEV_PCI_INIT device base) x" "k < 8" "b = 16 \<or> b = 17 \<and> k < 6" for x b k
    using cfg_reach_ok[OF that(1)] init_bar[OF that(2,3)] that(2,3) by (simp add: guarded_def)
  have wr: "\<exists>c'. nvmev_pci_write 16 4 v x = Some c' \<and> cfg_reach (NVMEV_PCI_INIT device base) c' \<and>
      nvmev_pci_read 0 16 4 old c' = Some (0, (v AND NOT (mask 14)) OR 4)" if x: "cfg_reach (NVMEV_PCI_INIT device base) x" for v x
  proof -
    have "length (virt_dev x) = 4096" using cfg_reach_ok[OF x] by (simp add: PAGE_SIZE_def)
    then obtain c' where c': "nvmev_pci_write 16 4 v x = Some c'" "length (virt_dev c') = 4096" using write_total[of 4 16 x v] by auto
    have "cfg_aligned 16 4 v" by (simp add: cfg_aligned_def PAGE_SIZE_def take_bit_word_eq_self)
    from cfg_reach.store[OF x this c'(1)] c' write_bar[OF c'(1) low[OF x]] read_full[of c' old] show ?thesis by auto
  qed
  from wr[OF assms, of "- 1"] obtain c1 where c1: "nvmev_pci_write 16 4 (- 1) c = Some c1" "cfg_reach (NVMEV_PCI_INIT device base) c1"
    "nvmev_pci_read 0 16 4 old c1 = Some (0, 0xFFFFC004)" by (auto simp: mask_eq_exp_minus_1)
  have "a AND NOT (mask 14) = a" if "take_bit 14 a = 0" for a :: u32
    using that by (simp add: take_bit_eq_mask bit_eq_iff bit_simps) blast
  then have "\<forall>a. take_bit 14 a = 0 \<longrightarrow> (\<exists>c2. nvmev_pci_write 16 4 a c1 = Some c2 \<and> nvmev_pci_read 0 16 4 old c2 = Some (0, a OR 4))"
    using wr[OF c1(2)] by fastforce
  moreover have "\<exists>x. nvmev_pci_write 0x41 1 (ucast v) c = Some x \<and> virt_dev x ! 0x41 = v" for v :: u8
  proof -
    obtain x where x: "nvmev_pci_write 0x41 1 (ucast v) c = Some x" using write_total[of 1 "0x41" c "ucast v"] r by (auto simp: PAGE_SIZE_def)
    have "bit_at x 0x41 k = bit v k" if "k < 8" for k
      using write_bit[OF x that, of "0x41"] that by (simp add: write_mask_def offs_defs bit_ucast_iff)
    then have "virt_dev x ! 0x41 = v" by (intro bit_word_eqI) (simp add: bit_at_def)
    then show ?thesis using x by blast
  qed
  ultimately show ?thesis using c1 ro r by (simp add: offs_defs bit_at_def)
qed

lemma config_space_guarded_witness:
  "\<exists>c. nvmev_pci_write 4 2 0x406 (NVMEV_PCI_INIT 0x0110 0x100000000) = Some c \<and> intx_disabled c = bit (virt_dev c ! 5) 2 \<and>
    (\<exists>c1. nvmev_pci_write PCI_BASE_ADDRESS_0 4 (- 1) c = Some c1 \<and> nvmev_pci_read 0 PCI_BASE_ADDRESS_0 4 0 c1 = Some (0, 0xFFFFC004))"
proof -
  let ?i = "NVMEV_PCI_INIT 0x0110 0x100000000"
  obtain c where c: "nvmev_pci_write 4 2 0x406 ?i = Some c" using write_total[of 2 4 ?i "0x406"] init_bytes(1) by (auto simp: PAGE_SIZE_def)
  have "cfg_aligned 4 2 0x406" by (simp add: cfg_aligned_def PAGE_SIZE_def)
  from config_space_guarded[OF cfg_reach.store[OF cfg_reach.start this c], of 0] c show ?thesis by blast
qed

end
