(* ===== verification/Dma_Engine.thy ===== *)
theory Dma_Engine
  imports Io_Transfer
begin

text \<open>
  The use of a DMA engine, \<^verbatim>\<open>dma.c\<close>: choosing a channel of the kernel by its name, and submitting one
  transfer and waiting for it. The kernel's dmaengine interface is a record of functions on a state
  \<open>'k\<close> that holds the physical memory; what is documented of it are the hypotheses \<open>grants\<close> and
  \<open>copies\<close>. The last part puts the submission into the copy of \<^verbatim>\<open>io.c\<close>.
\<close>

subsection \<open>Channels\<close>

record dma_chan =
  chan_name :: string
  chan_device :: string
  cap_memcpy :: bool
  cap_no_order :: bool

datatype dma_status = DMA_COMPLETE | DMA_IN_PROGRESS | DMA_PAUSED | DMA_ERROR | DMA_OUT_OF_ORDER

datatype dma_errno = ENOMEM | EBUSY | EINVAL

record ioat_dma_params =
  par_buf_size :: u32
  par_channel :: string
  par_device :: string
  par_max_channels :: u32
  par_timeout :: int
  par_transfer_size :: u32
  par_polled :: bool

record ioat_dma_info =
  dma_params :: ioat_dma_params
  dma_channels :: "dma_chan list"
  nr_channels :: u32
  last_error :: "dma_errno option"

text \<open>The variables of the module: \<open>dma_thread\<close> has the channel once it is set, and the flag of its last transfer.\<close>

record dma_module =
  test_channel :: string
  test_info :: ioat_dma_info
  dma_thread :: "dma_chan option"
  test_done :: bool

definition CHANNEL_NAME_LEN :: nat where "CHANNEL_NAME_LEN = 20"

definition no_params :: ioat_dma_params where
  "no_params = \<lparr>par_buf_size = 0, par_channel = [], par_device = [], par_max_channels = 0, par_timeout = 0, par_transfer_size = 0,
     par_polled = False\<rparr>"

definition dma_module_start :: dma_module where
  "dma_module_start = \<lparr>test_channel = [], test_info = \<lparr>dma_params = no_params, dma_channels = [], nr_channels = 0, last_error = None\<rparr>,
     dma_thread = None, test_done = False\<rparr>"

text \<open>
  A transfer is its source, destination and length. A request gives a channel that can copy and that
  the filter takes; \<open>tx_submit\<close> gives a cookie or an error; \<open>wait_done\<close> waits at most the timeout, in
  milliseconds, for the call back, and says whether it came.
\<close>

type_synonym dma_tx = "u64 \<times> u64 \<times> u32"

record 'k dma_kernel =
  kmalloc_ok :: "'k \<Rightarrow> bool"
  request_channel :: "(dma_chan \<Rightarrow> bool) \<Rightarrow> 'k \<Rightarrow> (dma_chan \<times> 'k) option"
  release_channel :: "dma_chan \<Rightarrow> 'k \<Rightarrow> 'k"
  prep_memcpy :: "dma_chan \<Rightarrow> dma_tx \<Rightarrow> 'k \<Rightarrow> bool"
  tx_submit :: "dma_chan \<Rightarrow> dma_tx \<Rightarrow> 'k \<Rightarrow> nat option \<times> 'k"
  sync_wait :: "dma_chan \<Rightarrow> nat \<Rightarrow> 'k \<Rightarrow> dma_status \<times> 'k"
  wait_done :: "dma_chan \<Rightarrow> nat \<Rightarrow> int \<Rightarrow> 'k \<Rightarrow> bool \<times> 'k"
  is_tx_complete :: "dma_chan \<Rightarrow> nat \<Rightarrow> 'k \<Rightarrow> dma_status"
  terminate_sync :: "dma_chan \<Rightarrow> 'k \<Rightarrow> 'k"

subsection \<open>Choosing a channel\<close>

text \<open>The kernel's \<^verbatim>\<open>strim\<close>: the string without the blanks at its ends.\<close>

definition isspace :: "char \<Rightarrow> bool" where
  "isspace c \<longleftrightarrow> (let n = of_char c :: nat in n = 32 \<or> n = 160 \<or> (9 \<le> n \<and> n \<le> 13))"

definition strip_end :: "string \<Rightarrow> string" where "strip_end s = rev (dropWhile isspace (rev s))"

definition strim :: "string \<Rightarrow> string" where "strim s = dropWhile isspace (strip_end s)"

definition ioat_dma_match_channel :: "ioat_dma_params \<Rightarrow> dma_chan \<Rightarrow> bool" where
  "ioat_dma_match_channel p c \<longleftrightarrow> par_channel p = [] \<or> chan_name c = par_channel p"

definition ioat_dma_match_device :: "ioat_dma_params \<Rightarrow> dma_chan \<Rightarrow> bool" where
  "ioat_dma_match_device p c \<longleftrightarrow> par_device p = [] \<or> chan_device c = par_device p"

definition dma_filter :: "ioat_dma_params \<Rightarrow> dma_chan \<Rightarrow> bool" where
  "dma_filter p c \<longleftrightarrow> ioat_dma_match_channel p c \<and> ioat_dma_match_device p c"

abbreviation mod_info :: "(ioat_dma_info \<Rightarrow> ioat_dma_info) \<Rightarrow> dma_module \<Rightarrow> dma_module" where
  "mod_info f md \<equiv> md\<lparr>test_info := f (test_info md)\<rparr>"

definition ioat_dma_add_channel :: "'k dma_kernel \<Rightarrow> 'k \<Rightarrow> dma_chan \<Rightarrow> dma_module \<Rightarrow> dma_errno option \<times> dma_module" where
  "ioat_dma_add_channel K k c md =
     (if \<not> kmalloc_ok K k then (Some ENOMEM, md)
      else
        let md = (if cap_no_order c \<and> par_polled (dma_params (test_info md))
              then mod_info (\<lambda>i. i\<lparr>dma_params := (dma_params i)\<lparr>par_polled := False\<rparr>\<rparr>) md else md);
            md = (if cap_memcpy c then md\<lparr>dma_thread := Some c\<rparr> else md)
        in (None, mod_info (\<lambda>i. i\<lparr>dma_channels := dma_channels i @ [c], nr_channels := nr_channels i + 1\<rparr>) md))"

text \<open>The loop asks until the kernel has no more channels; the number of channels is not limited by default.\<close>

partial_function (option) request_channels :: "'k dma_kernel \<Rightarrow> dma_module \<Rightarrow> 'k \<Rightarrow> (dma_module \<times> 'k) option" where
  "request_channels K md k =
     (case request_channel K (dma_filter (dma_params (test_info md))) k of
        None \<Rightarrow> Some (md, k)
      | Some (c, k) \<Rightarrow>
          (let (r, md) = ioat_dma_add_channel K k c md in
           if r \<noteq> None then Some (md, release_channel K c k)
           else let i = test_info md in
             if par_max_channels (dma_params i) \<noteq> 0 \<and> nr_channels i \<ge> par_max_channels (dma_params i) then Some (md, k)
             else request_channels K md k))"

text \<open>The parameters are the constants of the file; \<open>test_device\<close> is empty.\<close>

definition add_threaded_dma :: "'k dma_kernel \<Rightarrow> dma_module \<Rightarrow> 'k \<Rightarrow> (dma_module \<times> 'k) option" where
  "add_threaded_dma K md k = request_channels K
     (mod_info (\<lambda>i. i\<lparr>dma_params := \<lparr>par_buf_size = 4096, par_channel = strim (test_channel md), par_device = [], par_max_channels = 0,
        par_timeout = 3000, par_transfer_size = 1024, par_polled = True\<rparr>\<rparr>) md) k"

definition set_last_error :: "dma_errno option \<Rightarrow> dma_module \<times> 'k \<Rightarrow> dma_errno option \<times> dma_module \<times> 'k" where
  "set_last_error r s = (let (md, k) = s in (r, mod_info (\<lambda>i. i\<lparr>last_error := r\<rparr>) md, k))"

definition ioat_dma_chan_set :: "'k dma_kernel \<Rightarrow> string \<Rightarrow> dma_module \<Rightarrow> 'k \<Rightarrow> (dma_errno option \<times> dma_module \<times> 'k) option" where
  "ioat_dma_chan_set K val md k = do {
     nv_assert (length val < CHANNEL_NAME_LEN);
     let md = md\<lparr>test_channel := strip_end val\<rparr>;
     let name = strim val;
     if name \<in> chan_name ` set (dma_channels (test_info md)) then Some (set_last_error (Some EBUSY) (md, k))
     else do {
       (md, k) \<leftarrow> add_threaded_dma K md k;
       let cs = dma_channels (test_info md);
       Some (set_last_error (if cs = [] then Some EBUSY
         else if chan_name (last cs) \<noteq> name \<and> name \<noteq> [] then Some EINVAL else None) (md, k))
     }
   }"

text \<open>The channels are given back; \<open>dma_thread\<close> keeps the last of them.\<close>

definition ioat_dma_cleanup :: "'k dma_kernel \<Rightarrow> dma_module \<times> 'k \<Rightarrow> dma_module \<times> 'k" where
  "ioat_dma_cleanup K s = (let (md, k) = s in
     (mod_info (\<lambda>i. i\<lparr>dma_channels := [], nr_channels := 0\<rparr>) md,
      fold (\<lambda>c k. release_channel K c (terminate_sync K c k)) (dma_channels (test_info md)) k))"

subsection \<open>One transfer\<close>

definition ioat_dma_submit :: "'k dma_kernel \<Rightarrow> u64 \<Rightarrow> u64 \<Rightarrow> u32 \<Rightarrow> dma_module \<Rightarrow> 'k \<Rightarrow> (dma_errno option \<times> dma_module \<times> 'k) option" where
  "ioat_dma_submit K src dst n md k = do {
     c \<leftarrow> dma_thread md;
     let p = dma_params (test_info md);
     let failed = (\<lambda>md k. (Some ENOMEM, md, terminate_sync K c k));
     if \<not> prep_memcpy K c (src, dst, n) k then Some (failed md k)
     else
       let md = md\<lparr>test_done := False\<rparr>; (cookie, k) = tx_submit K c (src, dst, n) k in
       case cookie of
         None \<Rightarrow> Some (failed md k)
       | Some ck \<Rightarrow>
           let (status, md, k) =
             (if par_polled p then
                let (status, k) = sync_wait K c ck k; k = terminate_sync K c k
                in (status, md\<lparr>test_done := (status = DMA_COMPLETE)\<rparr>, k)
              else
                let (called, k) = wait_done K c ck (par_timeout p) k
                in (is_tx_complete K c ck k, md\<lparr>test_done := called\<rparr>, k))
           in if \<not> test_done md \<or> (status \<noteq> DMA_COMPLETE \<and> \<not> (cap_no_order c \<and> status = DMA_OUT_OF_ORDER))
              then Some (failed md k) else Some (None, md, k)
   }"

text \<open>
  The copy of \<^verbatim>\<open>io.c\<close> through the engine. The storage lies at \<open>start\<close> in the physical memory \<open>mem\<close>.
  The answer of the submission is not looked at.
\<close>

definition dma_copy :: "'k dma_kernel \<Rightarrow> u64 \<Rightarrow> nat \<Rightarrow> nat \<Rightarrow> nat \<Rightarrow> nat \<Rightarrow> dma_module \<times> 'k \<Rightarrow> (dma_module \<times> 'k) option" where
  "dma_copy K start opc off a n s = (let (md, k) = s in
     if opc = nvme_cmd_write \<or> opc = nvme_cmd_zone_append
     then map_option snd (ioat_dma_submit K (of_nat a) (start + of_nat off) (of_nat n) md k)
     else if opc = nvme_cmd_read then map_option snd (ioat_dma_submit K (start + of_nat off) (of_nat a) (of_nat n) md k)
     else Some s)"

definition perform_io_by_engine :: "(u64 \<Rightarrow> bool) \<Rightarrow> 'k dma_kernel \<Rightarrow> ('k \<Rightarrow> host_mem) \<Rightarrow> u64 \<Rightarrow> nvme_io_cmd \<Rightarrow> dma_module \<times> 'k \<Rightarrow>
    (dma_module \<times> 'k) option" where
  "perform_io_by_engine pv K mem start cmd s = do {
     ps \<leftarrow> dma_prps pv (mem (snd s)) (cmd_prp1 cmd) (cmd_prp2 cmd) (io_cmd_size cmd) 0 0 None;
     dma_loop (dma_copy K start (opcode cmd)) ps (unat (cmd_io_offset cmd)) (io_cmd_size cmd) s
   }"


subsection \<open>What is documented of the kernel\<close>

text \<open>A request gives a channel that was free and takes it out of those that are; \<open>pool\<close> counts them.\<close>

definition grants :: "'k dma_kernel \<Rightarrow> ('k \<Rightarrow> nat) \<Rightarrow> ('k \<Rightarrow> host_mem) \<Rightarrow> bool" where
  "grants K pool mem \<longleftrightarrow>
     (\<forall>f k c k'. request_channel K f k = Some (c, k') \<longrightarrow> f c \<and> cap_memcpy c \<and> pool k' < pool k \<and> mem k' = mem k) \<and>
     (\<forall>c k. mem (release_channel K c k) = mem k)"

definition copied :: "dma_tx \<Rightarrow> host_mem \<Rightarrow> host_mem" where
  "copied tx m = (let (src, dst, n) = tx in host_put m (unat dst) (host_get m (unat src) (unat n)))"

text \<open>A channel that works: a transfer is accepted, completes in time, and has copied the bytes then.\<close>

definition copies :: "'k dma_kernel \<Rightarrow> ('k \<Rightarrow> host_mem) \<Rightarrow> dma_chan \<Rightarrow> bool" where
  "copies K mem c \<longleftrightarrow> (\<forall>tx k. prep_memcpy K c tx k \<and> (\<exists>ck k1. tx_submit K c tx k = (Some ck, k1) \<and>
     (\<exists>k2. sync_wait K c ck k1 = (DMA_COMPLETE, k2) \<and> mem (terminate_sync K c k2) = copied tx (mem k)) \<and>
     (\<forall>t. \<exists>k2. wait_done K c ck t k1 = (True, k2) \<and> is_tx_complete K c ck k2 = DMA_COMPLETE \<and> mem k2 = copied tx (mem k))))"

subsection \<open>The channel that is chosen\<close>

definition chosen :: "dma_module \<Rightarrow> bool" where
  "chosen md \<longleftrightarrow> (let cs = dma_channels (test_info md) in cs \<noteq> [] \<longrightarrow>
     dma_thread md = Some (last cs) \<and> ioat_dma_match_channel (dma_params (test_info md)) (last cs))"

lemma add_channel_ok:
  assumes "ioat_dma_add_channel K k c md = (r, md')" "cap_memcpy c" "ioat_dma_match_channel (dma_params (test_info md)) c" "chosen md"
  shows "chosen md'" "par_channel (dma_params (test_info md')) = par_channel (dma_params (test_info md))"
    "length (dma_channels (test_info md)) \<le> length (dma_channels (test_info md'))"
  using assms by (auto simp: ioat_dma_add_channel_def chosen_def ioat_dma_match_channel_def Let_def split: if_splits)

text \<open>The loop ends, since each turn takes one of the kernel's channels.\<close>

lemma request_channels_ok:
  assumes "grants K pool mem"
  shows "chosen md \<Longrightarrow> \<exists>md' k'. request_channels K md k = Some (md', k') \<and> chosen md' \<and> mem k' = mem k \<and>
    par_channel (dma_params (test_info md')) = par_channel (dma_params (test_info md)) \<and>
    length (dma_channels (test_info md)) \<le> length (dma_channels (test_info md'))"
proof (induction "pool k" arbitrary: md k rule: less_induct)
  case less
  note g = assms[unfolded grants_def]
  show ?case
  proof (cases "request_channel K (dma_filter (dma_params (test_info md))) k")
    case None
    then show ?thesis using less.prems by (simp add: request_channels.simps[of K md k])
  next
    case (Some ck)
    obtain c k1 where c: "ck = (c, k1)" by (cases ck)
    then have r: "dma_filter (dma_params (test_info md)) c" "cap_memcpy c" "pool k1 < pool k" "mem k1 = mem k" using g Some by blast+
    obtain e md1 where a: "ioat_dma_add_channel K k1 c md = (e, md1)" by (cases "ioat_dma_add_channel K k1 c md")
    from r(1) have "ioat_dma_match_channel (dma_params (test_info md)) c" by (simp add: dma_filter_def)
    note ok = add_channel_ok[OF a r(2) this less.prems]
    have "mem (release_channel K c k1) = mem k1" using g by blast
    then show ?thesis using less.hyps[OF r(3) ok(1)] ok r(4)
      by (cases e) (auto simp: request_channels.simps[of K md k] Some c a Let_def)
  qed
qed

text \<open>The kernel has no channel of this name, or no memory to remember it.\<close>

definition no_channel :: "'k dma_kernel \<Rightarrow> string \<Rightarrow> 'k \<Rightarrow> bool" where
  "no_channel K name k \<longleftrightarrow> (case request_channel K (\<lambda>c. chan_name c = name) k of None \<Rightarrow> True | Some (c, k) \<Rightarrow> \<not> kmalloc_ok K k)"

lemma chan_set_ok:
  assumes g: "grants K pool mem" and n: "length name < CHANNEL_NAME_LEN" "strim name \<noteq> []"
  shows "\<exists>r md k'. ioat_dma_chan_set K name dma_module_start k = Some (r, md, k') \<and> mem k' = mem k \<and>
    (if no_channel K (strim name) k then r = Some EBUSY else r = None \<and> (\<exists>c. dma_thread md = Some c \<and> chan_name c = strim name))"
proof -
  define md0 where "md0 = mod_info (\<lambda>i. i\<lparr>dma_params := \<lparr>par_buf_size = 4096, par_channel = strim (strip_end name), par_device = [],
      par_max_channels = 0, par_timeout = 3000, par_transfer_size = 1024, par_polled = True\<rparr>\<rparr>) (dma_module_start\<lparr>test_channel := strip_end name\<rparr>)"
  have "dropWhile P (dropWhile P xs) = dropWhile P xs" for P and xs :: string by (induction xs) auto
  then have s: "strim (strip_end name) = strim name" by (simp add: strim_def strip_end_def)
  have f: "dma_filter (dma_params (test_info md0)) = (\<lambda>c. chan_name c = strim name)"
    using n(2) by (simp add: md0_def s dma_filter_def ioat_dma_match_channel_def ioat_dma_match_device_def fun_eq_iff)
  have start: "chosen md0" "dma_channels (test_info md0) = []" "par_max_channels (dma_params (test_info md0)) = 0"
    by (simp_all add: chosen_def md0_def dma_module_start_def)
  from request_channels_ok[OF g start(1), of k] obtain md k' where
    r: "request_channels K md0 k = Some (md, k')" "chosen md" "mem k' = mem k" "par_channel (dma_params (test_info md)) = strim name"
    by (auto simp: md0_def s)
  have "add_threaded_dma K (dma_module_start\<lparr>test_channel := strip_end name\<rparr>) k = Some (md, k')"
    using r(1) by (simp add: add_threaded_dma_def md0_def)
  then have c: "ioat_dma_chan_set K name dma_module_start k = Some (set_last_error (if dma_channels (test_info md) = [] then Some EBUSY
      else if chan_name (last (dma_channels (test_info md))) \<noteq> strim name \<and> strim name \<noteq> [] then Some EINVAL else None) (md, k'))"
    using n(1) by (simp add: ioat_dma_chan_set_def Let_def) (simp add: dma_module_start_def)
  have e: "dma_channels (test_info md) = [] \<longleftrightarrow> no_channel K (strim name) k"
  proof (cases "request_channel K (\<lambda>c. chan_name c = strim name) k")
    case None
    then show ?thesis using r(1) start(2) by (auto simp: no_channel_def request_channels.simps[of K md0 k] f)
  next
    case (Some x)
    obtain ch k1 where x: "x = (ch, k1)" by (cases x)
    show ?thesis
    proof (cases "kmalloc_ok K k1")
      case False
      then show ?thesis using r(1) start(2) Some x
        by (auto simp: no_channel_def request_channels.simps[of K md0 k] f ioat_dma_add_channel_def)
    next
      case True
      have h: "chan_name ch = strim name" "cap_memcpy ch" using g Some x unfolding grants_def by blast+
      obtain md1 where a: "ioat_dma_add_channel K k1 ch md0 = (None, md1)" "length (dma_channels (test_info md1)) = 1"
        "par_max_channels (dma_params (test_info md1)) = 0"
        using True start(2,3) by (auto simp: ioat_dma_add_channel_def Let_def)
      have "ioat_dma_match_channel (dma_params (test_info md0)) ch" using h(1) by (simp add: ioat_dma_match_channel_def md0_def s)
      from add_channel_ok(1)[OF a(1) h(2) this start(1)] have "chosen md1" .
      from request_channels_ok[OF g this, of k1] a r(1) have "1 \<le> length (dma_channels (test_info md))"
        by (auto simp: request_channels.simps[of K md0 k] f Some x)
      then show ?thesis using True Some x by (auto simp: no_channel_def)
    qed
  qed
  show ?thesis
  proof (cases "no_channel K (strim name) k")
    case True
    then show ?thesis using r(3) e by (simp add: c set_last_error_def)
  next
    case False
    then have "dma_thread md = Some (last (dma_channels (test_info md)))" "chan_name (last (dma_channels (test_info md))) = strim name"
      using r(2,4) n(2) e by (auto simp: chosen_def ioat_dma_match_channel_def Let_def)
    then show ?thesis using r(3) False e by (simp add: c set_last_error_def)
  qed
qed

subsection \<open>A transfer that completes, and one that fails\<close>

lemma dma_submit_ok:
  assumes "dma_thread md = Some c" "copies K mem c"
  shows "\<exists>md' k'. ioat_dma_submit K src dst n md k = Some (None, md', k') \<and> mem k' = copied (src, dst, n) (mem k) \<and> dma_thread md' = Some c"
proof -
  obtain ck k1 where s: "prep_memcpy K c (src, dst, n) k" "tx_submit K c (src, dst, n) k = (Some ck, k1)"
    "\<exists>k2. sync_wait K c ck k1 = (DMA_COMPLETE, k2) \<and> mem (terminate_sync K c k2) = copied (src, dst, n) (mem k)"
    "\<forall>t. \<exists>k2. wait_done K c ck t k1 = (True, k2) \<and> is_tx_complete K c ck k2 = DMA_COMPLETE \<and> mem k2 = copied (src, dst, n) (mem k)"
    using assms(2) unfolding copies_def by metis
  obtain k2 where k2: "sync_wait K c ck k1 = (DMA_COMPLETE, k2)" "mem (terminate_sync K c k2) = copied (src, dst, n) (mem k)" using s(3) by blast
  obtain k3 where k3: "wait_done K c ck (par_timeout (dma_params (test_info md))) k1 = (True, k3)" "is_tx_complete K c ck k3 = DMA_COMPLETE"
    "mem k3 = copied (src, dst, n) (mem k)" using s(4) by blast
  show ?thesis using assms(1) s(1,2) k2 k3 by (simp add: ioat_dma_submit_def Let_def)
qed

text \<open>
  The copy does not look at the answer: when the channel accepts no transfer the copy ends all the
  same, and nothing has been copied.
\<close>

lemma dma_failure_silent:
  assumes "dma_thread md = Some c" "\<And>tx k. \<not> prep_memcpy K c tx k" "\<And>k. mem (terminate_sync K c k) = mem k"
  shows "\<exists>k'. dma_loop (dma_copy K start opc) ps off rem (md, k) = Some (md, k') \<and> mem k' = mem k"
proof (induction rem arbitrary: ps off k rule: less_induct)
  case (less rem)
  show ?case
  proof (cases "rem = 0")
    case True
    then show ?thesis by (simp add: dma_loop.simps[of _ ps off 0])
  next
    case False
    obtain p qs where ps: "(case ps of [] \<Rightarrow> (0, []) | p # qs \<Rightarrow> (p, qs)) = (p, qs)" by (cases "case ps of [] \<Rightarrow> (0, []) | p # qs \<Rightarrow> (p, qs)")
    let ?io = "min rem (io_size_of p rem + adjacent p qs * PAGE_SIZE)"
    have c: "\<exists>k'. dma_copy K start opc off a n (md, k) = Some (md, k') \<and> mem k' = mem k" for a n
      using assms by (auto simp: dma_copy_def ioat_dma_submit_def Let_def)
    obtain k' where k': "dma_copy K start opc off (prp_addr_of p) ?io (md, k) = Some (md, k')" "mem k' = mem k" using c by blast
    have "rem - ?io < rem" using False io_size_pos[of rem p] by simp
    from less.IH[OF this, of "drop (adjacent p qs) qs" "off + ?io" k'] k' show ?thesis
      by (subst dma_loop.simps) (simp add: False ps Let_def)
  qed
qed


subsection \<open>The copy through the engine\<close>

text \<open>The bytes of a run lie in the pages of its entries.\<close>

lemma run_covered:
  assumes "\<forall>q \<in> set (p # qs). below_end q" "x < PAGE_SIZE + adjacent p qs * PAGE_SIZE"
  shows "\<exists>q \<in> set (p # qs). prp_addr_of q \<le> prp_addr_of p + x \<and> prp_addr_of p + x < prp_addr_of q + PAGE_SIZE"
  using assms
proof (induction p qs arbitrary: x rule: adjacent.induct)
  case (2 p q qs)
  show ?case
  proof (cases "x < PAGE_SIZE \<or> q \<noteq> p + of_nat PAGE_SIZE")
    case True
    then show ?thesis using 2(3) by auto
  next
    case False
    then have q: "prp_addr_of q = prp_addr_of p + PAGE_SIZE" using next_page(1)[of p] 2(2) by simp
    have b: "\<forall>r \<in> set (q # qs). below_end r" "q = p + of_nat PAGE_SIZE" using 2(2) False by simp_all
    then have "x - PAGE_SIZE < PAGE_SIZE + adjacent q qs * PAGE_SIZE" using 2(3) False by simp
    from 2(1)[OF b(2,1) this] obtain r where r: "r \<in> set (q # qs)" "prp_addr_of r \<le> prp_addr_of q + (x - PAGE_SIZE)"
      "prp_addr_of q + (x - PAGE_SIZE) < prp_addr_of r + PAGE_SIZE" by blast
    have "prp_addr_of q + (x - PAGE_SIZE) = prp_addr_of p + x" using q False by simp
    then show ?thesis using r by (intro bexI[of _ r]) simp_all
  qed
qed auto

lemma dma_loop_sim:
  assumes "\<forall>q \<in> set ps. below_end q \<and> (\<forall>x < PAGE_SIZE. P (prp_addr_of q + x))" "\<forall>q \<in> set (tl ps). page_off q = 0"
    and "sum_list (map snd (segs_of ps rem)) = rem" "off + rem \<le> sz" "rem \<le> N" "R s t"
    and step: "\<And>off a n s t. R s t \<Longrightarrow> off + n \<le> sz \<Longrightarrow> n \<le> N \<Longrightarrow> a < 2 ^ 64 \<Longrightarrow> \<forall>x < n. P (a + x) \<Longrightarrow>
      \<exists>s' t'. c1 off a n s = Some s' \<and> c2 off a n t = Some t' \<and> R s' t'"
  shows "\<exists>s' t'. dma_loop c1 ps off rem s = Some s' \<and> dma_loop c2 ps off rem t = Some t' \<and> R s' t'"
  using assms(1-6)
proof (induction "length ps" arbitrary: ps off rem s t rule: less_induct)
  case less
  show ?case
  proof (cases "rem = 0")
    case True
    then show ?thesis using less.prems(6) by (simp add: dma_loop.simps[of _ ps off 0])
  next
    case False
    then obtain p qs where ps: "ps = p # qs" using less.prems(3) by (cases ps) auto
    let ?n = "adjacent p qs" and ?io = "min rem (io_size_of p rem + adjacent p qs * PAGE_SIZE)"
    let ?qs = "drop ?n qs"
    have h: "\<forall>q \<in> set (p # qs). below_end q" "\<forall>q \<in> set qs. page_off q = 0" using less.prems(1,2) ps by simp_all
    have sum: "sum_list (map snd (segs_of ?qs (rem - ?io))) = rem - ?io" using first_run_sum[OF h] less.prems(3) ps by simp
    have o: "off + ?io \<le> sz" "?io \<le> N" using less.prems(4,5) by simp_all
    have run: "P (prp_addr_of p + x)" if "x < ?io" for x
    proof -
      have "io_size_of p rem \<le> PAGE_SIZE" by (simp add: io_size_min)
      then have "x < PAGE_SIZE + ?n * PAGE_SIZE" using that by linarith
      then obtain q where q: "q \<in> set ps" "prp_addr_of q \<le> prp_addr_of p + x" "prp_addr_of p + x < prp_addr_of q + PAGE_SIZE"
        using run_covered[OF h(1)] ps by blast
      then have "prp_addr_of p + x - prp_addr_of q < PAGE_SIZE" by linarith
      then have "P (prp_addr_of q + (prp_addr_of p + x - prp_addr_of q))" using less.prems(1) q(1) by blast
      then show ?thesis using q(2) by simp
    qed
    have a: "prp_addr_of p < 2 ^ 64" using unsigned_less[of p] by (simp add: prp_addr_of_nat)
    have "\<forall>x < ?io. P (prp_addr_of p + x)" using run by blast
    then obtain s' t' where s: "c1 off (prp_addr_of p) ?io s = Some s'" "c2 off (prp_addr_of p) ?io t = Some t'" "R s' t'"
      using step[OF less.prems(6) o(1,2) a] by blast
    have d: "\<forall>q \<in> set ?qs. below_end q \<and> (\<forall>x < PAGE_SIZE. P (prp_addr_of q + x))" "\<forall>q \<in> set (tl ?qs). page_off q = 0"
      using less.prems(1) ps h(2) set_drop_subset[of ?n qs] list.set_sel(2)[of ?qs] tl_Nil by fastforce+
    have "off + ?io + (rem - ?io) \<le> sz" "rem - ?io \<le> N" "length ?qs < length ps" using less.prems(4,5) ps by simp_all
    from less.hyps[OF this(3) d sum this(1,2) s(3)] s(1,2) show ?thesis
      by (subst (1 2) dma_loop.simps) (simp add: False ps Let_def)
  qed
qed

text \<open>The view of the physical memory: the storage, and the memory of the host outside of it.\<close>

definition same_view :: "('k \<Rightarrow> host_mem) \<Rightarrow> dma_chan \<Rightarrow> u64 \<Rightarrow> nat \<Rightarrow> dma_module \<times> 'k \<Rightarrow> (nat \<Rightarrow> u8) \<times> host_mem \<Rightarrow> bool" where
  "same_view mem c start sz s t \<longleftrightarrow> dma_thread (fst s) = Some c \<and> (\<forall>i < sz. mem (snd s) (unat start + i) = fst t i) \<and>
     (\<forall>a. a < unat start \<or> unat start + sz \<le> a \<longrightarrow> mem (snd s) a = snd t a)"

lemma dma_copy_view:
  assumes "same_view mem c start sz s t" "copies K mem c" "off + n \<le> sz" "unat start + sz < 2 ^ 64" "n < 2 ^ 32" "a < 2 ^ 64"
    and "\<forall>x < n. a + x < unat start \<or> unat start + sz \<le> a + x"
  shows "\<exists>s' t'. dma_copy K start opc off a n s = Some s' \<and> io_copy sz opc off a n t = Some t' \<and> same_view mem c start sz s' t'"
proof -
  obtain md k where s: "s = (md, k)" by (cases s)
  obtain st m where t: "t = (st, m)" by (cases t)
  have th: "dma_thread md = Some c" and v: "\<forall>i < sz. mem k (unat start + i) = st i" "\<forall>b. b < unat start \<or> unat start + sz \<le> b \<longrightarrow> mem k b = m b"
    using assms(1) by (simp_all add: same_view_def s t)
  have u: "unat (of_nat a :: u64) = a" "unat (of_nat n :: u32) = n"
    by (rule unat_of_nat_less, use assms(6) in simp) (rule unat_of_nat_less, use assms(5) in simp)
  have "unat (of_nat off :: u64) = off" by (rule unat_of_nat_less) (use assms(3,4) in simp)
  then have o: "unat (start + of_nat off) = unat start + off" using unat_add_less[of start "of_nat off"] assms(3,4) by simp
  have g: "host_get (mem k) a n = host_get m a n" "host_get (mem k) (unat start + off) n = host_get st off n"
    using assms(3,7) v by (auto simp: host_get_nth add.assoc intro!: nth_equalityI)
  obtain md1 k1 where w: "ioat_dma_submit K (of_nat a) (start + of_nat off) (of_nat n) md k = Some (None, md1, k1)"
    "mem k1 = host_put (mem k) (unat start + off) (host_get m a n)" "dma_thread md1 = Some c"
    using dma_submit_ok[OF th assms(2)] u o g(1) by (fastforce simp: copied_def)
  obtain md2 k2 where r: "ioat_dma_submit K (start + of_nat off) (of_nat a) (of_nat n) md k = Some (None, md2, k2)"
    "mem k2 = host_put (mem k) a (host_get st off n)" "dma_thread md2 = Some c"
    using dma_submit_ok[OF th assms(2)] u o g(2) by (fastforce simp: copied_def)
  have "same_view mem c start sz (md1, k1) (host_put st off (host_get m a n), m)"
    using v w(2,3) assms(3) by (auto simp: same_view_def host_put_def)
  moreover have "same_view mem c start sz (md2, k2) (st, host_put m a (host_get st off n))"
  proof -
    have "mem k2 (unat start + i) = st i" if "i < sz" for i
    proof -
      have "\<not> (a \<le> unat start + i \<and> unat start + i < a + n)"
      proof
        assume "a \<le> unat start + i \<and> unat start + i < a + n"
        then have "unat start + i - a < n" "a + (unat start + i - a) = unat start + i" by linarith+
        then show False using assms(7) that by (metis add_lessD1 nat_add_left_cancel_less not_add_less1 not_le)
      qed
      then have "mem k2 (unat start + i) = mem k (unat start + i)" unfolding r(2) by (simp only: host_put_def length_host_get if_False)
      then show ?thesis using v(1) that by simp
    qed
    moreover have "mem k2 b = host_put m a (host_get st off n) b" if "b < unat start \<or> unat start + sz \<le> b" for b
    proof -
      have "mem k b = m b" using v(2) that by blast
      then show ?thesis using r(2) by (simp add: host_put_def)
    qed
    ultimately show ?thesis using r(3) by (simp add: same_view_def)
  qed
  ultimately show ?thesis using assms(1,3) w(1) r(1)
    by (auto simp: s t dma_copy_def io_copy_def copy_in_Some copy_out_Some copy_none_def)
qed


text \<open>With the channel set, the two copies of one command keep the views the same.\<close>

lemma perform_io_by_engine_ok:
  assumes "prp_ok (mem k) (cmd_prp1 cmd) (cmd_prp2 cmd) (io_cmd_size cmd) ss" "length ss < DMA_LIST"
    and "dma_thread md = Some c" "copies K mem c" "mapped_right pv"
    and "\<forall>s \<in> set ss. fst s + PAGE_SIZE < 2 ^ 64 \<and> (fst s + PAGE_SIZE \<le> unat start \<or> unat start + sz \<le> fst s)"
    and "\<forall>s \<in> set (tl ss). fst s mod PAGE_SIZE = 0" "cmd_nsid cmd = 1" "aget ns 0 = Some 0"
    and "unat (cmd_io_offset cmd) + io_cmd_size cmd \<le> sz" "unat start + sz < 2 ^ 64"
  shows "\<exists>md' k' st m. perform_io_by_engine pv K mem start cmd (md, k) = Some (md', k') \<and>
    do_perform_io pv sz ns cmd (\<lambda>i. mem k (unat start + i), mem k) = Some (st, m) \<and>
    (\<forall>i < sz. mem k' (unat start + i) = st i) \<and> (\<forall>a. a < unat start \<or> unat start + sz \<le> a \<longrightarrow> mem k' a = m a)"
proof -
  let ?t = "(\<lambda>i. mem k (unat start + i), mem k)" and ?len = "io_cmd_size cmd" and ?off = "unat (cmd_io_offset cmd)"
  have p: "prp_ok (mem k) (cmd_prp1 cmd) (cmd_prp2 cmd) ?len ss" using assms(1) by simp
  obtain ps where sg: "segs_of ps ?len = ss" and ps: "dma_prps pv (mem k) (cmd_prp1 cmd) (cmd_prp2 cmd) ?len 0 0 None = Some ps"
    "\<forall>q \<in> set ps. prp_addr_of q + PAGE_SIZE < 2 ^ 64 \<and> (prp_addr_of q + PAGE_SIZE \<le> unat start \<or> unat start + sz \<le> prp_addr_of q)"
    "\<forall>q \<in> set (tl ps). page_off q = 0" "sum_list (map snd (segs_of ps ?len)) = ?len"
    using dma_entries[OF assms(5) p assms(2), where P = "\<lambda>a. a + PAGE_SIZE < 2 ^ 64 \<and> (a + PAGE_SIZE \<le> unat start \<or> unat start + sz \<le> a)",
      OF assms(6,7)] by blast
  have e: "\<forall>q \<in> set ps. below_end q \<and> (\<forall>x < PAGE_SIZE. prp_addr_of q + x < unat start \<or> unat start + sz \<le> prp_addr_of q + x)"
  proof
    fix q
    assume "q \<in> set ps"
    then have "prp_addr_of q + PAGE_SIZE < 2 ^ 64" "prp_addr_of q + PAGE_SIZE \<le> unat start \<or> unat start + sz \<le> prp_addr_of q"
      using ps(2) by blast+
    then show "below_end q \<and> (\<forall>x < PAGE_SIZE. prp_addr_of q + x < unat start \<or> unat start + sz \<le> prp_addr_of q + x)"
      by (auto simp: below_end_def prp_addr_of_nat)
  qed
  have "unat (rw_length cmd) < 2 ^ LENGTH(16)" by (rule unsigned_less)
  then have "?len < 2 ^ 32" by (simp add: io_cmd_size_def)
  have v: "same_view mem c start sz (md, k) ?t" using assms(3) by (simp add: same_view_def)
  from dma_loop_sim[where P = "\<lambda>a. a < unat start \<or> unat start + sz \<le> a" and N = ?len and R = "same_view mem c start sz"
      and ?c1.0 = "dma_copy K start (opcode cmd)" and ?c2.0 = "io_copy sz (opcode cmd)", OF e ps(3,4) assms(10) order_refl v]
  obtain s' t' where s: "dma_loop (dma_copy K start (opcode cmd)) ps ?off ?len (md, k) = Some s'"
    "dma_loop (io_copy sz (opcode cmd)) ps ?off ?len ?t = Some t'" "same_view mem c start sz s' t'"
    using dma_copy_view[OF _ assms(4) _ assms(11) le_less_trans[OF _ \<open>?len < 2 ^ 32\<close>]] by blast
  have "\<forall>q \<in> set ps. below_end q" using e by blast
  from dma_loop_moves[OF this ps(3,4) sg assms(10), of "opcode cmd" "fst ?t" "snd ?t"] s(2)
  have "t' = transferred (opcode cmd) ?off ?len ss ?t" by simp
  then have "do_perform_io pv sz ns cmd ?t = Some t'" using do_perform_io_ok[OF assms(5) p, of ns 0 sz] assms(8-10) by simp
  moreover have "perform_io_by_engine pv K mem start cmd (md, k) = Some s'" using s(1) ps(1) by (simp add: perform_io_by_engine_def)
  ultimately show ?thesis using s(3) by (cases s'; cases t') (auto simp: same_view_def)
qed

text \<open>C40. Choosing a DMA channel by its name always ends: with the answer that there is none exactly when the kernel gives
  no channel of that name or has no memory for it, and else with that channel. Then, when the channel works as
  documented, the copy of a command of the first namespace through the engine leaves in the physical memory, in the
  storage and outside of it, what the copy by the processor does.\<close>

theorem dma_engine_transfers:
  assumes "grants K pool mem" "length name < CHANNEL_NAME_LEN" "strim name \<noteq> []"
    and "\<forall>c. chan_name c = strim name \<longrightarrow> copies K mem c" "mapped_right pv"
    and "prp_ok (mem k0) (cmd_prp1 cmd) (cmd_prp2 cmd) (io_cmd_size cmd) ss" "length ss < DMA_LIST"
    and "\<forall>s \<in> set ss. fst s + PAGE_SIZE < 2 ^ 64 \<and> (fst s + PAGE_SIZE \<le> unat start \<or> unat start + sz \<le> fst s)"
    and "\<forall>s \<in> set (tl ss). fst s mod PAGE_SIZE = 0" "cmd_nsid cmd = 1" "aget ns 0 = Some 0"
    and "unat (cmd_io_offset cmd) + io_cmd_size cmd \<le> sz" "unat start + sz < 2 ^ 64"
  shows "\<exists>r md k. ioat_dma_chan_set K name dma_module_start k0 = Some (r, md, k) \<and>
    (if no_channel K (strim name) k0 then r = Some EBUSY
     else r = None \<and> (\<exists>c. dma_thread md = Some c \<and> chan_name c = strim name) \<and>
      (\<exists>md' k' st m. perform_io_by_engine pv K mem start cmd (md, k) = Some (md', k') \<and>
      do_perform_io pv sz ns cmd (\<lambda>i. mem k (unat start + i), mem k) = Some (st, m) \<and>
      (\<forall>i < sz. mem k' (unat start + i) = st i) \<and> (\<forall>a. a < unat start \<or> unat start + sz \<le> a \<longrightarrow> mem k' a = m a)))"
proof -
  obtain r md k where set: "ioat_dma_chan_set K name dma_module_start k0 = Some (r, md, k)" "mem k = mem k0"
    "if no_channel K (strim name) k0 then r = Some EBUSY else r = None \<and> (\<exists>c. dma_thread md = Some c \<and> chan_name c = strim name)"
    using chan_set_ok[OF assms(1-3), of k0] by (elim exE conjE) (rule that)
  then have p: "prp_ok (mem k) (cmd_prp1 cmd) (cmd_prp2 cmd) (io_cmd_size cmd) ss" using assms(6) by simp
  show ?thesis
  proof (cases "no_channel K (strim name) k0")
    case True
    then show ?thesis using set by simp
  next
    case False
    then obtain c where c: "r = None" "dma_thread md = Some c" "chan_name c = strim name" using set(3) by auto
    then have "copies K mem c" using assms(4) by blast
    from perform_io_by_engine_ok[OF p assms(7) c(2) this assms(5,8-13)] show ?thesis using False c set(1)
      by (intro exI[of _ r] exI[of _ md] exI[of _ k]) simp
  qed
qed

text \<open>The witness: a kernel with two channels that copies at once; its state is the memory and the channels left.\<close>

definition demo_kernel :: "(host_mem \<times> dma_chan list) dma_kernel" where
  "demo_kernel = \<lparr>kmalloc_ok = (\<lambda>k. True),
     request_channel = (\<lambda>f (m, cs). case List.find (\<lambda>c. cap_memcpy c \<and> f c) cs of None \<Rightarrow> None | Some c \<Rightarrow> Some (c, m, remove1 c cs)),
     release_channel = (\<lambda>c (m, cs). (m, c # cs)), prep_memcpy = (\<lambda>c tx k. True),
     tx_submit = (\<lambda>c tx (m, cs). (Some 0, copied tx m, cs)), sync_wait = (\<lambda>c ck k. (DMA_COMPLETE, k)),
     wait_done = (\<lambda>c ck t k. (True, k)), is_tx_complete = (\<lambda>c ck k. DMA_COMPLETE), terminate_sync = (\<lambda>c k. k)\<rparr>"

lemma demo_kernel_ok: "grants demo_kernel (\<lambda>k. length (snd k)) fst" "copies demo_kernel fst c"
proof -
  show "grants demo_kernel (\<lambda>k. length (snd k)) fst"
    by (auto simp: grants_def demo_kernel_def find_Some_iff length_remove1 split: option.splits)
  show "copies demo_kernel fst c" by (auto simp: copies_def demo_kernel_def split: prod.splits)
qed

definition demo_chan :: "string \<Rightarrow> dma_chan" where
  "demo_chan name = \<lparr>chan_name = name, chan_device = ''ioat'', cap_memcpy = True, cap_no_order = False\<rparr>"

lemma dma_engine_transfers_witness:
  "\<exists>md k md' k' st m. ioat_dma_chan_set demo_kernel '' dma7chan0'' dma_module_start (\<lambda>_. 5, [demo_chan ''dma6chan0'', demo_chan ''dma7chan0'']) =
      Some (None, md, k) \<and>
    perform_io_by_engine (\<lambda>_. True) demo_kernel fst 0x100000 (demo_io nvme_cmd_write 8192) (md, k) = Some (md', k') \<and>
    do_perform_io (\<lambda>_. True) 16384 [0] (demo_io nvme_cmd_write 8192) (\<lambda>i. fst k (0x100000 + i), fst k) = Some (st, m) \<and>
    fst k' (0x100000 + 4096) = st 4096"
proof -
  let ?k = "(\<lambda>_. 5 :: u8, [demo_chan ''dma6chan0'', demo_chan ''dma7chan0''])"
  have n: "length '' dma7chan0'' < CHANNEL_NAME_LEN" "strim '' dma7chan0'' = ''dma7chan0''"
    by (simp_all add: CHANNEL_NAME_LEN_def strim_def strip_end_def isspace_def Let_def)
  have "strim '' dma7chan0'' \<noteq> []" "\<forall>c. chan_name c = strim '' dma7chan0'' \<longrightarrow> copies demo_kernel fst c"
    using demo_kernel_ok(2) by (simp_all add: n)
  note r = dma_engine_transfers[OF demo_kernel_ok(1) n(1) this, of "\<lambda>_. True" ?k "demo_io nvme_cmd_write 8192" "[(8192, 4096), (12288, 4096)]"
      "0x100000" 16384 "[0]"]
  have "\<not> no_channel demo_kernel (strim '' dma7chan0'') ?k" unfolding n(2) by (simp add: no_channel_def demo_kernel_def demo_chan_def)
  then have "\<exists>md k. ioat_dma_chan_set demo_kernel '' dma7chan0'' dma_module_start ?k = Some (None, md, k) \<and>
    (\<exists>md' k' st m. perform_io_by_engine (\<lambda>_. True) demo_kernel fst 0x100000 (demo_io nvme_cmd_write 8192) (md, k) = Some (md', k') \<and>
      do_perform_io (\<lambda>_. True) 16384 [0] (demo_io nvme_cmd_write 8192) (\<lambda>i. fst k (0x100000 + i), fst k) = Some (st, m) \<and>
      (\<forall>i < 16384. fst k' (0x100000 + i) = st i))"
    using r demo_io_pages[of 8192 "\<lambda>_. 5"] by (auto simp: mapped_right_def DMA_LIST_def PAGE_SIZE_def)
  then obtain md k md' k' st m where
    "ioat_dma_chan_set demo_kernel '' dma7chan0'' dma_module_start ?k = Some (None, md, k)"
    "perform_io_by_engine (\<lambda>_. True) demo_kernel fst 0x100000 (demo_io nvme_cmd_write 8192) (md, k) = Some (md', k')"
    "do_perform_io (\<lambda>_. True) 16384 [0] (demo_io nvme_cmd_write 8192) (\<lambda>i. fst k (0x100000 + i), fst k) = Some (st, m)"
    "\<forall>i < 16384. fst k' (0x100000 + i) = st i" by (elim exE conjE) (rule that)
  moreover from this(4) have "fst k' (0x100000 + 4096) = st 4096" by (elim allE[of _ 4096]) simp
  ultimately show ?thesis by blast
qed

end
