(* ===== verification/Spec2Isabelle.thy ===== *)
theory Spec2Isabelle
  imports Ssd_Correct Zns_Correct Kv_Iter Io_Units Io_Transfer Io_System Vdev_Correct Vdev_Setup Pci_Config Dma_Engine
begin

text \<open>
  \<^bold>\<open>NVMeVirt: a verification library of the virtual NVMe device\<close>

  NVMeVirt (\<^verbatim>\<open>src/nvmevirt_test\<close>) is a Linux kernel module that presents a virtual NVMe device whose
  storage is reserved memory. A dispatcher thread polls the registers and doorbells, decodes the
  commands of the host and hands each to the translation layer of its namespace, which changes its
  tables and computes when a real device would be done; an I/O worker copies the data and posts the
  completion at that time. The translation layer is chosen at build time: the page-mapping FTL with
  garbage collection, the zoned namespace, the key-value store, or the simple one without a NAND
  model. The key-value store is the exception: there the dispatcher only computes the time, and the
  worker performs the command on the table.

  \<^bold>\<open>Parts, theories and sources\<close>

  File names are those of \<^verbatim>\<open>src/nvmevirt_test\<close>; a definition has the name of the C function or type
  it models, as far as that is free, and its state is a record with the fields of the C structure.

  \<^item> \<^verbatim>\<open>Nvmev_Prelude\<close>: integer types, array accesses, assertions, bounded loops, and the automation
    for them. \<^verbatim>\<open>Host_Memory\<close>: the host's memory and the walk over PRP entries that \<^verbatim>\<open>io.c\<close>,
    \<^verbatim>\<open>kv_ftl.c\<close> and \<^verbatim>\<open>zns_mgmt_recv.c\<close> write out one by one.
  \<^item> \<^verbatim>\<open>PQueue\<close> (\<^verbatim>\<open>pqueue/pqueue.c\<close>): the binary heap of victim lines. \<^verbatim>\<open>Channel_Model\<close>
    (\<^verbatim>\<open>channel_model.c\<close>): the ring of bandwidth credits. \<^verbatim>\<open>Ssd_Params\<close> (\<^verbatim>\<open>ssd_config.h\<close>,
    \<^verbatim>\<open>ssd_init_params\<close>) and \<^verbatim>\<open>Ssd_Nand\<close> (\<^verbatim>\<open>ssd.h\<close>, \<^verbatim>\<open>ssd.c\<close>): the geometry, the timing of NAND
    commands and the write buffer. \<^verbatim>\<open>Ssd_Correct\<close> has their properties.
  \<^item> Page-mapping FTL (\<^verbatim>\<open>conv_ftl.c\<close>, \<^verbatim>\<open>conv_ftl.h\<close>): code in \<^verbatim>\<open>Conv_State\<close>, \<^verbatim>\<open>Conv_Lines\<close>,
    \<^verbatim>\<open>Victim_Select\<close>, \<^verbatim>\<open>Conv_GC\<close> and \<^verbatim>\<open>Conv_IO\<close>; the page space and the invariant in \<^verbatim>\<open>Conv_Pages\<close>,
    \<^verbatim>\<open>Conv_Status\<close> and \<^verbatim>\<open>Conv_Inv\<close>; its preservation by placing, advancing, invalidating, selecting
    and collecting in \<^verbatim>\<open>Conv_Place\<close>, \<^verbatim>\<open>Conv_Advance\<close>, \<^verbatim>\<open>Conv_Invalidate\<close>, \<^verbatim>\<open>Conv_Select\<close>,
    \<^verbatim>\<open>Conv_Collect\<close>, \<^verbatim>\<open>Conv_GC_Loop\<close> and \<^verbatim>\<open>Conv_Do_GC\<close>; commands, initialisation and sessions in
    \<^verbatim>\<open>Conv_Service\<close>, \<^verbatim>\<open>Conv_Commands\<close> and \<^verbatim>\<open>Conv_Session\<close>; properties in \<^verbatim>\<open>Conv_Correct\<close>, the
    policies of victim selection in \<^verbatim>\<open>Conv_Scores\<close> and what a collection frees in \<^verbatim>\<open>Conv_Reclaim\<close>.
  \<^item> Zoned namespace (\<^verbatim>\<open>zns_ftl.c\<close>, \<^verbatim>\<open>zns_mgmt_send.c\<close>, \<^verbatim>\<open>zns_mgmt_recv.c\<close>, \<^verbatim>\<open>zns_read_write.c\<close>): code in
    \<^verbatim>\<open>Zns_State\<close>, \<^verbatim>\<open>Zns_Mgmt\<close>, \<^verbatim>\<open>Zns_IO\<close> and \<^verbatim>\<open>Zns_Proc\<close>; the invariant and the moves of one zone
    in \<^verbatim>\<open>Zns_Inv\<close> and \<^verbatim>\<open>Zns_Moves\<close>; commands in \<^verbatim>\<open>Zns_Device\<close>, \<^verbatim>\<open>Zns_Write\<close>, \<^verbatim>\<open>Zns_Commands\<close>,
    \<^verbatim>\<open>Zns_Manage\<close> and \<^verbatim>\<open>Zns_Send\<close>; initialisation, sessions and properties in \<^verbatim>\<open>Zns_Init\<close>,
    \<^verbatim>\<open>Zns_Session\<close> and \<^verbatim>\<open>Zns_Correct\<close>.
  \<^item> Key-value store (\<^verbatim>\<open>kv_ftl.c\<close>, \<^verbatim>\<open>append_only.c\<close>, \<^verbatim>\<open>bitmap.c\<close>): code in \<^verbatim>\<open>Kv_Alloc\<close>,
    \<^verbatim>\<open>Kv_Table\<close> and \<^verbatim>\<open>Kv_IO\<close>; chains, the table as a map and its changes in \<^verbatim>\<open>Kv_Chain\<close>,
    \<^verbatim>\<open>Kv_Map\<close> and \<^verbatim>\<open>Kv_Ops\<close>; the commands and the abstract map in \<^verbatim>\<open>Kv_Service\<close> and
    \<^verbatim>\<open>Kv_Refine\<close>; properties in \<^verbatim>\<open>Kv_Correct\<close> and \<^verbatim>\<open>Kv_Iter\<close>.
  \<^item> Scheduling without a NAND model (\<^verbatim>\<open>simple_ftl.c\<close>, first part of \<^verbatim>\<open>kv_ftl.c\<close>): \<^verbatim>\<open>Io_Units\<close>.
  \<^item> Queues, dispatcher and workers (\<^verbatim>\<open>io.c\<close>): code in \<^verbatim>\<open>Io_Worker\<close> (the linked lists of work
    entries), \<^verbatim>\<open>Io_Copy\<close> (the two copies of data) and \<^verbatim>\<open>Io_Queues\<close>. \<^verbatim>\<open>Io_Lists\<close> reads the links as
    lists; \<^verbatim>\<open>Io_Steps\<close> is the relation of interleaved steps of the dispatcher and the workers with its
    invariant, \<^verbatim>\<open>Io_Correct\<close> its preservation and the account of accepted and finished requests;
    \<^verbatim>\<open>Io_Refine\<close> shows that the loops of the code are runs of that relation, \<^verbatim>\<open>Io_Pass\<close> that a pass
    of a worker ends and completes what is due, \<^verbatim>\<open>Io_Completion\<close> what the host reads from a
    completion queue, \<^verbatim>\<open>Io_Transfer\<close> that both copies agree; \<^verbatim>\<open>Io_System\<close> has the properties.
  \<^item> DMA (\<^verbatim>\<open>dma.c\<close>): \<^verbatim>\<open>Dma_Engine\<close>, from the choice of a channel to the copy of \<^verbatim>\<open>io.c\<close> through it.
  \<^item> Admin queue (\<^verbatim>\<open>admin.c\<close>): \<^verbatim>\<open>Admin_Queue\<close> has the device as a record of registers, doorbells, admin
    queue, I/O system and memory, and the ring of the admin queue; \<^verbatim>\<open>Admin_Commands\<close> the commands;
    \<^verbatim>\<open>Admin_Effects\<close> when they are valid and what they change; \<^verbatim>\<open>Admin_Correct\<close> what the host reads.
  \<^item> The device (\<^verbatim>\<open>pci.c\<close>, \<^verbatim>\<open>main.c\<close>): \<^verbatim>\<open>Vdev_Dispatcher\<close> is the turn of the dispatcher over registers
    and doorbells. \<^verbatim>\<open>Vdev_Shape\<close> has the invariant of the tables and queues, \<^verbatim>\<open>Vdev_Bars\<close> what writes to
    the registers come to, \<^verbatim>\<open>Vdev_System\<close> the host, the dispatcher and the workers as one system;
    properties in \<^verbatim>\<open>Vdev_Correct\<close>. \<^verbatim>\<open>Vdev_Service\<close> puts the device around a namespace,
    \<^verbatim>\<open>Vdev_Conv\<close> around the page-mapping FTL and \<^verbatim>\<open>Vdev_Kv\<close> around the key-value store.
  \<^item> Set-up: \<^verbatim>\<open>Vdev_Setup\<close> (\<^verbatim>\<open>main.c\<close>: parameters, configuration, division into namespaces, files
    under \<^verbatim>\<open>/proc\<close>) and \<^verbatim>\<open>Pci_Config\<close> (\<^verbatim>\<open>pci.c\<close>: the configuration space).

  \<^bold>\<open>Interfaces\<close>

  \<^item> \<^verbatim>\<open>pq_callbacks\<close> (\<^verbatim>\<open>PQueue\<close>): the comparison, priority and position functions that the heap calls.
    Interpreted on the lines of the FTL as \<open>vq\<close> in \<^verbatim>\<open>Conv_Inv\<close>.
  \<^item> \<^verbatim>\<open>cells\<close> and its extension \<^verbatim>\<open>nested_cells\<close> (\<^verbatim>\<open>Ssd_Nand\<close>): reading and updating one part of the
    NAND array by its address. Interpreted on channels, luns, planes, blocks and pages.
  \<^item> \<^verbatim>\<open>kv_allocator\<close> (\<^verbatim>\<open>Kv_Alloc\<close>): the table of allocator functions of the key-value store.
    Interpreted on the append-only allocator as \<open>ao\<close> and on the bitmap one as \<open>bm\<close>.
  \<^item> \<^verbatim>\<open>namespace_service\<close> (\<^verbatim>\<open>Vdev_Service\<close>): the handler, the copy and the release of buffers of a
    namespace, which keep an invariant of its state. Interpreted on the page-mapping FTL as
    \<open>conv_dev\<close> and on the key-value store as \<open>kv_dev\<close>.

  \<^bold>\<open>What the lemmas show\<close>

  \<^item> Page-mapping FTL: the mapping is a bijection between the mapped logical pages and the valid
    physical ones, the counts of every line are those of its pages, and the lines are divided into
    free, full, victim and open ones. Every command returns and keeps this as long as enough lines
    are in reserve; what a read finds is the last write. A collection frees the invalid pages.
  \<^item> Zoned namespace: the state of every zone agrees with its write pointer, and the counts of open
    and active resources with the states. Management commands follow the table of the
    specification, refusals for a lack of resources included; writes are sequential.
  \<^item> Key-value store: chains do not run in circles, so that searches end; under the conditions named
    there the table is a map, and the commands are its look-ups and updates. Where these
    conditions fail (a full table, an erased entry inside a chain) the properties say what happens.
  \<^item> Dispatcher and workers: in every interleaving of their steps each request taken is finished at
    most once and none is lost; an undisturbed pass ends and completes what is due in the order of
    time. A doorbell makes the dispatcher take exactly the entries that it announces. The phase
    bits let the host read each completion once.
  \<^item> Device: every operation keeps the shape of the tables, whatever the host writes; the registers
    settle, the admin queue answers, and the invariant of the namespace holds in every state the
    whole device reaches.
  \<^item> Set-up: the namespaces lie inside the storage and apart from each other, and every processor
    listed after the first is a worker; the host cannot move the parts of the configuration
    space that the device relies on, up to the bytes named there.

  \<^bold>\<open>Modelling, bounds and fuel\<close>

  Machine integers are words of their width. An operation that fails, by an access out of range, a
  null pointer, a division by zero or a failed assertion, is \<open>None\<close>; error codes of the device are
  values. \<open>NVMEV_ASSERT\<close> and \<open>BUG_ON\<close> are \<open>nv_assert\<close>. An array is a list and an access out
  of its range fails. The kernel's clock, allocation results, mapping of pages, bitmap search
  and DMA engine are parameters.

  No loop has fuel that it could run out of. Loops with a fixed range are \<open>opt_fold\<close> over it;
  loops over a length are \<open>function\<close>s with a measure. Loops whose end depends on the data are
  \<open>partial_function (option)\<close>, so that not ending is also \<open>None\<close>: the walks along the list of a worker
  (at most \<open>NR_MAX_PARALLEL_IO = 16384\<close> entries, since the lists have no circle), the loop over a
  doorbell, the booking of an I/O unit, the searches in the key-value table and the requests for
  channels. That they return in the states that are reached is proved, with two exceptions: for the search
  of a free slot in a full table \<open>free_turns n\<close> says where it stands after any number of turns, and
  the loop over the doorbell of a completion queue does not end for a value beyond the queue, so
  that what is said of it holds for the calls that return.
  Four polls of the registers are enough since each settles one of the four that
  are written. The tables have 73 places, for the admin queue and 72 queues, and the page of doorbells
  has 1024 words.

  A call of the dispatcher and a visit of a worker to one entry are single steps, and memory is sequentially
  consistent: the barriers of the code have no counterpart. The entries of an I/O submission ring
  are kept with the queue, as the host wrote them, and read when a command is taken and when it is performed.

  \<^bold>\<open>Not modelled\<close>

  \<^item> Freeing memory, printing, starting and stopping threads, registering files, scanning the PCI
    bus and looking up interrupt descriptors: kernel calls without an effect on the state above.
  \<^item> The zoned namespace inside the whole device: an append writes its answer into the ring entry,
    and the management commands have a layout of their own, so it is proved as a component.
  \<^item> Constants and wire formats of \<^verbatim>\<open>nvme.h\<close>, \<^verbatim>\<open>nvme_zns.h\<close> and \<^verbatim>\<open>nvme_kv.h\<close> beyond those the
    models use, and the scripts for building, benchmarks and the analysis of logs.
\<close>

end
